(* ===== verification/Prelude.thy ===== *)
theory Prelude
  imports Main "HOL-Library.Multiset"
begin

text \<open>
  Shared vocabulary of the development: the exceptions of the Python code as a datatype,
  the result type of fallible operations with its sequencing operator, Python slices,
  rounding to pages, longest common prefixes and a few lemmas on lists and finite sums
  that the component theories use.
\<close>

section \<open>Exceptions and results\<close>

text \<open>
  The Python exceptions the modelled code can raise, an \<open>assert\<close> that fails included.
  \<open>OutOfFuel\<close> is no exception of the code: it is the value of a loop of the model whose
  bound was too small, and every loop comes with a lemma that its bound is enough.
\<close>

datatype py_error =
    IndexError
  | KeyError
  | ValueError
  | TypeError
  | AttributeError
  | RuntimeError
  | AssertionError
  | NotImplementedError
  | UnboundLocalError
  | ZeroDivisionError
  | OutOfFuel

type_synonym 'a result = "py_error + 'a"

definition rbind :: "'e + 'a \<Rightarrow> ('a \<Rightarrow> 'e + 'b) \<Rightarrow> 'e + 'b" where
  "rbind r f = (case r of Inl e \<Rightarrow> Inl e | Inr a \<Rightarrow> f a)"

lemma rbind_simps [simp]:
  "rbind (Inl e) f = Inl e"
  "rbind (Inr a) f = f a"
  by (simp_all add: rbind_def)

lemma rbind_eq_Inr_iff [simp]:
  "rbind r f = Inr b \<longleftrightarrow> (\<exists>a. r = Inr a \<and> f a = Inr b)"
  by (cases r) auto

lemma rbind_InrE:
  assumes "rbind r f = Inr b"
  obtains a where "r = Inr a" "f a = Inr b"
  using assms by (cases r) simp_all

lemma rbind_cong [fundef_cong]:
  "r = r' \<Longrightarrow> (\<And>a. r' = Inr a \<Longrightarrow> f a = f' a) \<Longrightarrow> rbind r f = rbind r' f'"
  by (cases r') auto

definition py_assert :: "bool \<Rightarrow> unit result" where
  "py_assert b = (if b then Inr () else Inl AssertionError)"

lemma py_assert_simps [simp]:
  "py_assert b = Inr u \<longleftrightarrow> b"
  "py_assert b = Inl e \<longleftrightarrow> \<not> b \<and> e = AssertionError"
  by (auto simp: py_assert_def)

text \<open>A \<open>for\<close> loop that threads a state, and a comprehension, whose bodies may raise.\<close>

fun rfold :: "('a \<Rightarrow> 's \<Rightarrow> 's result) \<Rightarrow> 'a list \<Rightarrow> 's \<Rightarrow> 's result" where
  "rfold f [] s = Inr s"
| "rfold f (x # xs) s = rbind (f x s) (rfold f xs)"

lemma rfold_append: "rfold f (xs @ ys) s = rbind (rfold f xs s) (rfold f ys)"
proof (induction xs arbitrary: s)
  case (Cons x xs)
  then show ?case by (cases "f x s") simp_all
qed simp

fun rmap :: "('a \<Rightarrow> 'b result) \<Rightarrow> 'a list \<Rightarrow> 'b list result" where
  "rmap f [] = Inr []"
| "rmap f (x # xs) = rbind (f x) (\<lambda>y. rbind (rmap f xs) (\<lambda>ys. Inr (y # ys)))"

lemma rmap_all2: "\<forall>x \<in> set xs. \<exists>y. f x = Inr y \<and> P x y \<Longrightarrow> \<exists>ys. rmap f xs = Inr ys \<and> list_all2 P xs ys"
  by (induction xs) fastforce+

lemma rmap_ok:
  "\<forall>x \<in> set xs. \<exists>y. f x = Inr y \<and> P y \<Longrightarrow> \<exists>ys. rmap f xs = Inr ys \<and> length ys = length xs \<and> (\<forall>y \<in> set ys. P y)"
  using rmap_all2 [of xs f "\<lambda>_. P"] by (auto simp: list_all2_conv_all_nth in_set_conv_nth)

section \<open>Python slices\<close>

text \<open>\<open>xs[a:b]\<close> for non-negative bounds; bounds past the end are clamped.\<close>

definition slice :: "nat \<Rightarrow> nat \<Rightarrow> 'a list \<Rightarrow> 'a list" where
  "slice a b xs = take (b - a) (drop a xs)"

lemma length_slice [simp]: "length (slice a b xs) = min b (length xs) - a"
  by (auto simp: slice_def)

lemma slice_0 [simp]: "slice 0 b xs = take b xs"
  by (simp add: slice_def)

lemma slice_all [simp]: "length xs \<le> b \<Longrightarrow> slice a b xs = drop a xs"
  by (simp add: slice_def)

lemma slice_empty [simp]: "b \<le> a \<Longrightarrow> slice a b xs = []"
  by (simp add: slice_def)

lemma slice_map: "slice a b (map f xs) = map f (slice a b xs)"
  by (simp add: slice_def take_map drop_map)

lemma slice_eq_drop_take: "slice a b xs = drop a (take b xs)"
  by (simp add: slice_def drop_take)

lemma take_append_slice: "a \<le> b \<Longrightarrow> take a xs @ slice a b xs = take b xs"
  by (metis add_diff_inverse_nat not_le slice_def take_add)

lemma slice_eq_iff_take_eq:
  assumes "take a xs = take a ys" "a \<le> b"
  shows "slice a b xs = slice a b ys \<longleftrightarrow> take b xs = take b ys"
  by (metis assms append_eq_append_conv same_append_eq take_append_slice)

section \<open>Rounding down to whole pages\<close>

definition page_floor :: "nat \<Rightarrow> nat \<Rightarrow> nat" where
  "page_floor ps n = n div ps * ps"

lemma page_floor_1 [simp]: "page_floor (Suc 0) n = n"
  by (simp add: page_floor_def)

lemma page_floor_0 [simp]: "page_floor ps 0 = 0"
  by (simp add: page_floor_def)

lemma page_floor_le [simp]: "page_floor ps n \<le> n"
  by (simp add: page_floor_def)

lemma page_floor_dvd [simp]: "ps dvd page_floor ps n"
  by (simp add: page_floor_def)

lemma page_floor_id: "ps dvd n \<Longrightarrow> page_floor ps n = n"
  by (simp add: page_floor_def)

lemma le_page_floor_iff: "ps dvd m \<Longrightarrow> m \<le> page_floor ps n \<longleftrightarrow> m \<le> n"
proof (cases "ps = 0")
  case False
  assume "ps dvd m"
  then obtain q where "m = q * ps" by (metis dvd_div_mult_self)
  with False show ?thesis
    by (simp add: page_floor_def less_eq_div_iff_mult_less_eq)
qed (simp add: page_floor_def)

lemma page_floor_less: "0 < ps \<Longrightarrow> n < page_floor ps n + ps"
  by (metis add.commute dividend_less_div_times page_floor_def)

lemma page_floor_idem [simp]: "page_floor ps (page_floor ps n) = page_floor ps n"
  by (simp add: page_floor_id)

text \<open>Two multiples of the page size that differ are a page apart.\<close>

lemma dvd_gap:
  fixes a b d :: nat
  assumes "d dvd a" "d dvd b" "a < b"
  shows "a + d \<le> b"
proof -
  have "d \<le> b - a" using assms by (intro dvd_imp_le dvd_diff_nat) simp_all
  with assms(3) show ?thesis by linarith
qed

section \<open>Longest common prefixes\<close>

fun lcp_len :: "'a list \<Rightarrow> 'a list \<Rightarrow> nat" where
  "lcp_len (x # xs) (y # ys) = (if x = y then Suc (lcp_len xs ys) else 0)"
| "lcp_len _ _ = 0"

lemma lcp_len_Nil [simp]: "lcp_len xs [] = 0"
  by (cases xs) simp_all

lemma lcp_len_le [simp]: "lcp_len xs ys \<le> length xs" "lcp_len xs ys \<le> length ys"
  by (induction xs ys rule: lcp_len.induct) auto

lemma lcp_len_sym: "lcp_len xs ys = lcp_len ys xs"
  by (induction xs ys rule: lcp_len.induct) auto

text \<open>The characterisation every other fact follows from.\<close>

lemma le_lcp_len_iff:
  "n \<le> lcp_len xs ys \<longleftrightarrow> n \<le> length xs \<and> n \<le> length ys \<and> take n xs = take n ys"
proof (induction xs ys arbitrary: n rule: lcp_len.induct)
  case (1 x xs y ys)
  then show ?case by (cases n) auto
qed auto

lemma lcp_len_eqI:
  assumes "r \<le> length xs" "r \<le> length ys" "take r xs = take r ys"
    and "r < length xs \<Longrightarrow> r < length ys \<Longrightarrow> xs ! r \<noteq> ys ! r"
  shows "lcp_len xs ys = r"
proof (rule antisym)
  show "r \<le> lcp_len xs ys" using assms(1-3) by (simp add: le_lcp_len_iff)
  show "lcp_len xs ys \<le> r"
  proof (rule ccontr)
    assume "\<not> lcp_len xs ys \<le> r"
    then have "Suc r \<le> lcp_len xs ys" by simp
    then have "Suc r \<le> length xs" "Suc r \<le> length ys" "take (Suc r) xs = take (Suc r) ys"
      by (simp_all only: le_lcp_len_iff)
    then have "xs ! r = ys ! r" "r < length xs" "r < length ys"
      by (auto simp: take_Suc_conv_app_nth)
    with assms(4) show False by blast
  qed
qed

lemma nth_lcp_len: "i < lcp_len xs ys \<Longrightarrow> xs ! i = ys ! i"
  by (metis le_lcp_len_iff nth_take order_refl)

lemma nth_lcp_len_neq:
  "lcp_len xs ys < length xs \<Longrightarrow> lcp_len xs ys < length ys \<Longrightarrow>
     xs ! lcp_len xs ys \<noteq> ys ! lcp_len xs ys"
  by (induction xs ys rule: lcp_len.induct) auto

lemma take_lcp_len: "n \<le> lcp_len xs ys \<Longrightarrow> take n xs = take n ys"
  by (simp add: le_lcp_len_iff)

lemma lcp_len_take: "lcp_len (take a xs) (take b ys) = min (lcp_len xs ys) (min a b)"
proof -
  have "n \<le> lcp_len (take a xs) (take b ys) \<longleftrightarrow> n \<le> min (lcp_len xs ys) (min a b)" for n
    by (simp only: min.bounded_iff le_lcp_len_iff length_take take_take) (auto simp: min_absorb1)
  then show ?thesis by (metis order_refl antisym)
qed

lemma lcp_len_map: "inj f \<Longrightarrow> lcp_len (map f xs) (map f ys) = lcp_len xs ys"
  by (induction xs ys rule: lcp_len.induct) (auto simp: inj_eq)

end
