(* ===== verification/Req_Pool.thy ===== *)
theory Req_Pool
  imports Prelude
begin

text \<open>
  Requests and the pool of their rows: the fields of class \<^verbatim>\<open>Req\<close> of
  \<^verbatim>\<open>managers/schedule_batch.py\<close> that manage the KV cache with the methods on them, and class
  \<^verbatim>\<open>ReqToTokenPool\<close> of \<^verbatim>\<open>mem_cache/memory_pool.py\<close>. A row of the pool lists the slots of a
  request; its entries are stored as 32-bit integers, slot numbers are taken to fit.
\<close>

section \<open>Requests\<close>

text \<open>
  \<open>fill_is_origin\<close> says whether the fill array is the same object as the input array, which
  the code tests with \<^verbatim>\<open>is not\<close>.
\<close>

record req =
  origin_input_ids :: "int list"
  output_ids :: "int list"
  full_untruncated_fill_ids :: "int list"
  fill_is_origin :: bool
  extend_range_end :: nat
  req_extra_key :: "string option"
  req_priority :: "int option"
  session_id :: "string option"
  req_pool_idx :: "nat option"
  prefix_indices :: "int list"
  last_node :: "nat option"
  cache_protected_len :: nat
  kv_committed_len :: nat
  kv_allocated_len :: nat
  kv_committed_freed :: bool
  kv_overallocated_freed :: bool
  inflight_middle_chunks :: nat
  reasoning_tokens :: nat
  swa_evicted_seqlen :: int
  swa_evict_floor :: int
  skip_radix_cache_insert :: bool
  return_logprob :: bool
  logprob_start_len :: int

definition seqlen :: "req \<Rightarrow> nat" where
  "seqlen r = length (origin_input_ids r) + length (output_ids r)"

definition cache_commit_len :: "bool \<Rightarrow> req \<Rightarrow> nat" where
  "cache_commit_len strip_thinking_cache r =
     (if strip_thinking_cache \<and> 0 < reasoning_tokens r
      then min (kv_committed_len r) (length (origin_input_ids r))
      else kv_committed_len r)"

definition pop_committed_kv_cache :: "bool \<Rightarrow> req \<Rightarrow> (nat \<times> req) result" where
  "pop_committed_kv_cache strip r =
     rbind (py_assert (\<not> kv_committed_freed r)) (\<lambda>_.
     let r' = r\<lparr>kv_committed_freed := True\<rparr> in Inr (cache_commit_len strip r', r'))"

definition pop_overallocated_kv_cache :: "bool \<Rightarrow> req \<Rightarrow> ((nat \<times> nat) \<times> req) result" where
  "pop_overallocated_kv_cache strip r =
     rbind (py_assert (\<not> kv_overallocated_freed r)) (\<lambda>_.
     let r' = r\<lparr>kv_overallocated_freed := True\<rparr>
     in Inr ((cache_commit_len strip r', kv_allocated_len r'), r'))"

definition get_fill_ids :: "req \<Rightarrow> int list" where
  "get_fill_ids r = take (extend_range_end r) (full_untruncated_fill_ids r)"

definition refresh_fill_ids :: "req \<Rightarrow> req" where
  "refresh_fill_ids r =
     (let n_have_output = int (length (full_untruncated_fill_ids r)) - int (length (origin_input_ids r)) in
      if \<not> fill_is_origin r \<and> 0 \<le> n_have_output \<and> n_have_output \<le> int (length (output_ids r))
      then r\<lparr>full_untruncated_fill_ids :=
               full_untruncated_fill_ids r @ drop (nat n_have_output) (output_ids r)\<rparr>
      else r\<lparr>full_untruncated_fill_ids := origin_input_ids r @ output_ids r, fill_is_origin := False\<rparr>)"

definition compute_max_prefix_len :: "'a req_scheme \<Rightarrow> nat \<Rightarrow> nat" where
  "compute_max_prefix_len r input_len =
     (let m = int input_len - 1;
          m' = (if return_logprob r \<and> 0 \<le> logprob_start_len r then min m (logprob_start_len r) else m)
      in nat (max m' 0))"

section \<open>The pool of rows\<close>

record req_pool =
  rp_size :: nat
  max_context_len :: nat
  req_to_token :: "int list list"
  free_slots :: "nat list"

definition alloc_size :: "req_pool \<Rightarrow> nat" where
  "alloc_size p = rp_size p + 1"

definition rp_init :: "nat \<Rightarrow> nat \<Rightarrow> req_pool" where
  "rp_init sz ctx =
     \<lparr>rp_size = sz, max_context_len = ctx, req_to_token = replicate (sz + 1) (replicate ctx 0),
      free_slots = [1 ..< sz + 1]\<rparr>"

definition rp_available_size :: "req_pool \<Rightarrow> nat" where
  "rp_available_size p = length (free_slots p)"

text \<open>The loop that hands the selected rows to the requests without one.\<close>

fun assign_rows :: "nat list \<Rightarrow> req list \<Rightarrow> req list" where
  "assign_rows sel [] = []"
| "assign_rows sel (r # rs) =
     (case req_pool_idx r of
        Some i \<Rightarrow> r # assign_rows sel rs
      | None \<Rightarrow> r\<lparr>req_pool_idx := Some (hd sel)\<rparr> # assign_rows (tl sel) rs)"

text \<open>The method changes the requests of the batch: the model returns them with the new pool.\<close>

definition rp_alloc :: "req_pool \<Rightarrow> req list \<Rightarrow> (nat list option \<times> req list \<times> req_pool) result" where
  "rp_alloc p reqs =
     (let reusing = filter (\<lambda>r. req_pool_idx r \<noteq> None) reqs in
      rbind (py_assert (\<forall>r \<in> set reusing. 0 < inflight_middle_chunks r \<or> 0 < kv_committed_len r)) (\<lambda>_.
      let need_size = length reqs - length reusing in
      if length (free_slots p) < need_size then Inr (None, reqs, p)
      else
        let reqs' = assign_rows (take need_size (free_slots p)) reqs
        in Inr (Some (map (\<lambda>r. the (req_pool_idx r)) reqs'), reqs',
                p\<lparr>free_slots := drop need_size (free_slots p)\<rparr>)))"

definition rp_free :: "req_pool \<Rightarrow> req \<Rightarrow> (req \<times> req_pool) result" where
  "rp_free p r =
     (case req_pool_idx r of
        None \<Rightarrow> Inl AssertionError
      | Some i \<Rightarrow> Inr (r\<lparr>req_pool_idx := None\<rparr>, p\<lparr>free_slots := free_slots p @ [i]\<rparr>))"

definition rp_clear :: "req_pool \<Rightarrow> req_pool" where
  "rp_clear p = p\<lparr>free_slots := [1 ..< alloc_size p]\<rparr>"

section \<open>Every row has one owner\<close>

text \<open>
  \<open>held\<close> are the rows of the live requests. The padding row 0 is never handed out.
\<close>

definition rows_inv :: "req_pool \<Rightarrow> nat list \<Rightarrow> bool" where
  "rows_inv p held \<longleftrightarrow> mset (free_slots p) + mset held = mset [1 ..< alloc_size p]"

lemma rows_inv_init: "rows_inv (rp_init sz ctx) []"
  by (simp add: rows_inv_def rp_init_def alloc_size_def)

lemma rows_inv_distinct:
  assumes "rows_inv p held"
  shows "distinct (free_slots p @ held)" "0 \<notin> set held" "\<forall>i \<in> set held. i \<le> rp_size p"
proof -
  have m: "mset (free_slots p @ held) = mset [1 ..< alloc_size p]" using assms by (simp add: rows_inv_def)
  then have "distinct (free_slots p @ held)" using mset_eq_imp_distinct_iff [OF m] by simp
  moreover have "set (free_slots p @ held) = {1 ..< alloc_size p}" using arg_cong [OF m, of set_mset] by simp
  ultimately show "distinct (free_slots p @ held)" "0 \<notin> set held" "\<forall>i \<in> set held. i \<le> rp_size p"
    by (auto simp: alloc_size_def)
qed

definition rows_of :: "req list \<Rightarrow> nat list" where
  "rows_of reqs = concat (map (\<lambda>r. case req_pool_idx r of None \<Rightarrow> [] | Some i \<Rightarrow> [i]) reqs)"

lemma rows_of_Cons [simp]:
  "rows_of (r # rs) = (case req_pool_idx r of None \<Rightarrow> [] | Some i \<Rightarrow> [i]) @ rows_of rs" "rows_of [] = []"
  by (simp_all add: rows_of_def)

lemma assign_rows_rows:
  "length sel = length (filter (\<lambda>r. req_pool_idx r = None) reqs) \<Longrightarrow>
     mset (rows_of (assign_rows sel reqs)) = mset (rows_of reqs) + mset sel \<and>
     (\<forall>r \<in> set (assign_rows sel reqs). req_pool_idx r \<noteq> None) \<and> length (assign_rows sel reqs) = length reqs"
proof (induction sel reqs rule: assign_rows.induct)
  case (2 sel r rs)
  then show ?case by (cases sel) (auto split: option.splits)
qed simp

lemma rows_of_all:
  "\<forall>r \<in> set reqs. req_pool_idx r \<noteq> None \<Longrightarrow> rows_of reqs = map (\<lambda>r. the (req_pool_idx r)) reqs"
  by (induction reqs) (auto split: option.splits)

lemma length_filter_compl: "length xs - length (filter P xs) = length (filter (\<lambda>x. \<not> P x) xs)"
  using sum_length_filter_compl [of P xs] by linarith

text \<open>
  Allocating rows for a batch: the requests keep the rows they have, the others get free ones;
  the allocation fails only when there are too few.
\<close>

lemma rp_alloc_ok:
  assumes inv: "rows_inv p (rows_of reqs @ others)"
    and chunked: "\<forall>r \<in> set reqs. req_pool_idx r \<noteq> None \<longrightarrow> 0 < inflight_middle_chunks r \<or> 0 < kv_committed_len r"
  defines "need \<equiv> length (filter (\<lambda>r. req_pool_idx r = None) reqs)"
  shows "if rp_available_size p < need then rp_alloc p reqs = Inr (None, reqs, p)
    else (\<exists>ix reqs' p'. rp_alloc p reqs = Inr (Some ix, reqs', p') \<and> ix = rows_of reqs' \<and> distinct ix \<and>
      length ix = length reqs \<and> rows_inv p' (rows_of reqs' @ others) \<and>
      rp_available_size p' = rp_available_size p - need)"
proof -
  have n: "length reqs - length (filter (\<lambda>r. req_pool_idx r \<noteq> None) reqs) = need"
    unfolding need_def by (subst length_filter_compl) simp
  show ?thesis
  proof (cases "rp_available_size p < need")
    case True
    then show ?thesis using chunked n by (simp add: rp_alloc_def rp_available_size_def py_assert_def)
  next
    case False
    let ?sel = "take need (free_slots p)" and ?reqs = "assign_rows (take need (free_slots p)) reqs"
    let ?p = "p\<lparr>free_slots := drop need (free_slots p)\<rparr>"
    have "length ?sel = length (filter (\<lambda>r. req_pool_idx r = None) reqs)"
      using False unfolding need_def [symmetric] by (simp add: rp_available_size_def)
    note AR = assign_rows_rows [OF this]
    have A: "mset (rows_of ?reqs) = mset (rows_of reqs) + mset ?sel" "\<forall>r \<in> set ?reqs. req_pool_idx r \<noteq> None"
      "length ?reqs = length reqs"
      using AR by blast+
    have "mset (free_slots p) = mset ?sel + mset (drop need (free_slots p))"
      by (metis append_take_drop_id mset_append)
    then have inv': "rows_inv ?p (rows_of ?reqs @ others)"
      using inv A(1) by (simp add: rows_inv_def alloc_size_def ac_simps)
    moreover have "distinct (rows_of ?reqs)" using rows_inv_distinct(1) [OF inv'] by simp
    moreover have "rp_alloc p reqs = Inr (Some (rows_of ?reqs), ?reqs, ?p)"
      using False chunked n rows_of_all [OF A(2)]
      by (simp add: rp_alloc_def rp_available_size_def py_assert_def Let_def)
    moreover have "length (rows_of ?reqs) = length reqs" using rows_of_all [OF A(2)] A(3) by simp
    moreover have "rp_available_size ?p = rp_available_size p - need" by (simp add: rp_available_size_def)
    ultimately show ?thesis unfolding if_not_P [OF False] by blast
  qed
qed

lemma rp_free_ok:
  assumes "rows_inv p (i # others)" "req_pool_idx r = Some i"
  shows "\<exists>p'. rp_free p r = Inr (r\<lparr>req_pool_idx := None\<rparr>, p') \<and> rows_inv p' others \<and>
    rp_available_size p' = rp_available_size p + 1"
  using assms by (auto simp: rp_free_def rows_inv_def alloc_size_def rp_available_size_def)

text \<open>The fill array is kept equal to input and output while outputs are only appended.\<close>

lemma refresh_fill_ids_ok:
  assumes "\<not> fill_is_origin r \<Longrightarrow> length (origin_input_ids r) \<le> length (full_untruncated_fill_ids r) \<Longrightarrow>
      length (full_untruncated_fill_ids r) \<le> seqlen r \<Longrightarrow>
      full_untruncated_fill_ids r = take (length (full_untruncated_fill_ids r)) (origin_input_ids r @ output_ids r)"
  shows "full_untruncated_fill_ids (refresh_fill_ids r) = origin_input_ids r @ output_ids r"
proof -
  let ?f = "full_untruncated_fill_ids r" and ?o = "origin_input_ids r"
  show ?thesis
  proof (cases "\<not> fill_is_origin r \<and> length ?o \<le> length ?f \<and> length ?f \<le> seqlen r")
    case True
    then have "?f = take (length ?f) (?o @ output_ids r)" using assms by blast
    then have f: "?f = ?o @ take (length ?f - length ?o) (output_ids r)" using True by simp
    have "?f @ drop (length ?f - length ?o) (output_ids r) = ?o @ output_ids r"
      by (subst f) simp
    then show ?thesis using True by (simp add: refresh_fill_ids_def Let_def seqlen_def nat_diff_distrib)
  next
    case False
    then show ?thesis by (auto simp: refresh_fill_ids_def Let_def seqlen_def)
  qed
qed

end
