(* ===== verification/Radix_Key.thy ===== *)
theory Radix_Key
  imports Prelude
begin

text \<open>
  The key of the prefix cache: class \<^verbatim>\<open>RadixKey\<close> of
  \<^verbatim>\<open>mem_cache/radix_cache.py\<close>. A key is a window on a token array, in plain mode
  (one logical unit per token) or in bigram mode (one logical unit per pair of neighbouring
  tokens), tagged with an optional namespace. The lemmas relate every operation (length,
  slicing, page alignment, galloping prefix match, dictionary key) to the list of tagged
  logical units \<open>tunits\<close>; the tree theories use nothing else of a key.
\<close>

section \<open>The class\<close>

record radix_key =
  token_ids :: "int list"
  extra_key :: "string option"
  is_bigram :: bool
  limit :: "nat option"

definition RadixKey :: "int list \<Rightarrow> string option \<Rightarrow> bool \<Rightarrow> nat option \<Rightarrow> radix_key" where
  "RadixKey t e b l = \<lparr>token_ids = t, extra_key = e, is_bigram = b, limit = l\<rparr>"

definition raw_len :: "radix_key \<Rightarrow> nat" where
  "raw_len k =
     (let n = length (token_ids k) in
      case limit k of
        None \<Rightarrow> n
      | Some l \<Rightarrow> if l < n then l else n)"

definition raw_token_ids :: "radix_key \<Rightarrow> int list" where
  "raw_token_ids k =
     (let n = raw_len k; t = token_ids k in if n = length t then t else take n t)"

definition rk_len :: "radix_key \<Rightarrow> nat" where
  "rk_len k =
     (let n = raw_len k in
      if is_bigram k then (if 0 < n then n - 1 else 0) else n)"

text \<open>A logical unit: a token, or a pair of neighbouring tokens in bigram mode.\<close>

datatype lunit = Tok int | Big int int

definition rk_iter :: "radix_key \<Rightarrow> lunit list" where
  "rk_iter k =
     (let t = token_ids k; n = raw_len k in
      if is_bigram k
      then map (\<lambda>i. Big (t ! i) (t ! (i + 1))) [0 ..< (if 0 < n then n - 1 else 0)]
      else if n = length t then map Tok t
      else map (\<lambda>i. Tok (t ! i)) [0 ..< n])"

text \<open>
  Python's \<^verbatim>\<open>slice.indices\<close> for step 1: missing bounds default to the whole range,
  negative ones count from the end, and both are clamped to \<open>[0, n]\<close>.
\<close>

definition clamp_index :: "nat \<Rightarrow> int \<Rightarrow> nat" where
  "clamp_index n i = nat (min (int n) (max 0 (if i < 0 then i + int n else i)))"

definition slice_indices :: "int option \<Rightarrow> int option \<Rightarrow> nat \<Rightarrow> nat \<times> nat" where
  "slice_indices start stop n =
     (case start of None \<Rightarrow> 0 | Some i \<Rightarrow> clamp_index n i,
      case stop of None \<Rightarrow> n | Some i \<Rightarrow> clamp_index n i)"

datatype rk_index = At int | Slice "int option" "int option" "int option"

text \<open>The part of \<^verbatim>\<open>__getitem__\<close> after the index has become a range \<open>[start, stop)\<close>.\<close>

definition rk_slice :: "radix_key \<Rightarrow> nat \<Rightarrow> nat \<Rightarrow> radix_key" where
  "rk_slice k start stop =
     (if is_bigram k
      then RadixKey (if start < stop then slice start (stop + 1) (token_ids k) else [])
             (extra_key k) True None
      else RadixKey (slice start stop (token_ids k)) (extra_key k) False None)"

definition rk_getitem :: "radix_key \<Rightarrow> rk_index \<Rightarrow> radix_key result" where
  "rk_getitem k idx =
     (case idx of
        At i \<Rightarrow>
          (let j = (if i < 0 then i + int (rk_len k) else i) in
           if j < 0 \<or> int (rk_len k) \<le> j then Inl IndexError
           else (case slice_indices (Some j) (Some (j + 1)) (rk_len k) of
                   (start, stop) \<Rightarrow> Inr (rk_slice k start stop)))
      | Slice start stop step \<Rightarrow>
          (if (case step of None \<Rightarrow> False | Some s \<Rightarrow> s \<noteq> 1) then Inl ValueError
           else (case slice_indices start stop (rk_len k) of
                   (a, b) \<Rightarrow> Inr (rk_slice k a b))))"

text \<open>\<open>key[n:]\<close> and \<open>key[:n]\<close>, the two shapes the tree uses.\<close>

definition rk_from :: "radix_key \<Rightarrow> nat \<Rightarrow> radix_key" where
  "rk_from k n = rk_slice k (min n (rk_len k)) (rk_len k)"

definition rk_upto :: "radix_key \<Rightarrow> nat \<Rightarrow> radix_key" where
  "rk_upto k n = rk_slice k 0 (min n (rk_len k))"

definition page_aligned :: "radix_key \<Rightarrow> nat \<Rightarrow> radix_key" where
  "page_aligned k ps =
     (if ps = 1 then k
      else rk_upto k (rk_len k div ps * ps))"

definition maybe_to_bigram_view ::
  "radix_key \<Rightarrow> bool \<Rightarrow> 'v list option \<Rightarrow> radix_key \<times> 'v list option" where
  "maybe_to_bigram_view k is_eagle val =
     (if is_eagle \<and> \<not> is_bigram k
      then (let k' = k\<lparr>is_bigram := True\<rparr> in (k', map_option (take (rk_len k')) val))
      else (k, val))"

section \<open>Prefix match: galloping search\<close>

text \<open>The inner loop: binary search for the first difference in a window that holds one.\<close>

function match_bisect :: "int list \<Rightarrow> int list \<Rightarrow> nat \<Rightarrow> nat \<Rightarrow> nat" where
  "match_bisect t0 t1 lo hi =
     (if 1 < hi - lo
      then (let mid = (lo + hi) div 2 in
            if slice lo mid t0 = slice lo mid t1
            then match_bisect t0 t1 mid hi
            else match_bisect t0 t1 lo mid)
      else lo)"
  by pat_completeness auto
termination
  by (relation "measure (\<lambda>(t0, t1, lo, hi). hi - lo)") auto

text \<open>
  The outer loop, with \<open>step = 2 ^ e\<close>: it starts at \<open>1\<close> and doubles in every round.
\<close>

function match_gallop :: "int list \<Rightarrow> int list \<Rightarrow> nat \<Rightarrow> nat \<Rightarrow> nat \<Rightarrow> nat" where
  "match_gallop t0 t1 n lo e =
     (if lo < n
      then (let hi = (if lo + 2 ^ e < n then lo + 2 ^ e else n) in
            if slice lo hi t0 \<noteq> slice lo hi t1
            then match_bisect t0 t1 lo hi
            else match_gallop t0 t1 n hi (e + 1))
      else n)"
  by pat_completeness auto
termination
  by (relation "measure (\<lambda>(t0, t1, n, lo, e). n - lo)") (auto intro!: diff_less_mono2)

declare match_bisect.simps [simp del]
declare match_gallop.simps [simp del]

definition check_compatible :: "radix_key \<Rightarrow> radix_key \<Rightarrow> unit result" where
  "check_compatible k other = (if extra_key k \<noteq> extra_key other then Inl ValueError else Inr ())"

definition rk_match :: "radix_key \<Rightarrow> radix_key \<Rightarrow> nat \<Rightarrow> nat result" where
  "rk_match k other ps =
     rbind (check_compatible k other) (\<lambda>_.
       let t0 = token_ids k; t1 = token_ids other;
           n = min (length t0) (length t1);
           matched_tokens = match_gallop t0 t1 n 0 0
       in if is_bigram k
          then (let matched = nat (max 0 (min (int matched_tokens - 1)
                                              (min (int (rk_len k)) (int (rk_len other)))))
                in Inr (if 1 < ps then matched div ps * ps else matched))
          else (let m = min matched_tokens (min (rk_len k) (rk_len other))
                in Inr (if ps = 1 then m else m div ps * ps)))"

section \<open>Dictionary keys of the children\<close>

text \<open>
  The Python value is an int, a pair of ints, a tuple of ints or a tuple of pairs, wrapped
  in a pair with the namespace when there is one.
\<close>

datatype plain_key = PInt int | PPair int int | PTup "int list" | PPairTup "(int \<times> int) list"

datatype child_key = Plain plain_key | Tagged string plain_key

definition rk_child_key :: "radix_key \<Rightarrow> nat \<Rightarrow> child_key result" where
  "rk_child_key k ps =
     (let t = token_ids k in
      rbind
        (if is_bigram k
         then (if ps = 1
               then (if length t < 2 then Inl IndexError else Inr (PPair (t ! 0) (t ! 1)))
               else (if length t < ps + 1 \<and> 0 < ps then Inl IndexError
                     else Inr (PPairTup (map (\<lambda>j. (t ! j, t ! (j + 1))) [0 ..< ps]))))
         else (if ps = 1
               then (if t = [] then Inl IndexError else Inr (PInt (t ! 0)))
               else Inr (PTup (take ps t))))
        (\<lambda>plain. Inr (case extra_key k of None \<Rightarrow> Plain plain | Some e \<Rightarrow> Tagged e plain)))"

section \<open>Logical units\<close>

definition rk_unit :: "radix_key \<Rightarrow> nat \<Rightarrow> lunit" where
  "rk_unit k i =
     (if is_bigram k then Big (token_ids k ! i) (token_ids k ! (i + 1)) else Tok (token_ids k ! i))"

text \<open>The units of a key, each tagged with the key's namespace.\<close>

definition tunits :: "radix_key \<Rightarrow> (string option \<times> lunit) list" where
  "tunits k = map (Pair (extra_key k)) (rk_iter k)"

lemma RadixKey_sel [simp]:
  "token_ids (RadixKey t e b l) = t" "extra_key (RadixKey t e b l) = e"
  "is_bigram (RadixKey t e b l) = b" "limit (RadixKey t e b l) = l"
  by (simp_all add: RadixKey_def)

lemma raw_len_le: "raw_len k \<le> length (token_ids k)"
  by (simp add: raw_len_def Let_def split: option.split)

lemma raw_len_unlimited [simp]: "limit k = None \<Longrightarrow> raw_len k = length (token_ids k)"
  by (simp add: raw_len_def)

lemma rk_iter_units: "rk_iter k = map (rk_unit k) [0 ..< rk_len k]"
  by (auto simp: rk_iter_def rk_len_def rk_unit_def Let_def intro!: nth_equalityI)

lemma tunits_eq: "tunits k = map (\<lambda>i. (extra_key k, rk_unit k i)) [0 ..< rk_len k]"
  by (simp add: tunits_def rk_iter_units)

lemma length_tunits [simp]: "length (tunits k) = rk_len k"
  by (simp add: tunits_eq)

lemma nth_tunits [simp]: "i < rk_len k \<Longrightarrow> tunits k ! i = (extra_key k, rk_unit k i)"
  by (simp add: tunits_eq)

lemma tunits_eq_Nil_iff [simp]: "tunits k = [] \<longleftrightarrow> rk_len k = 0"
  by (metis length_0_conv length_tunits)

lemma rk_len_plain: "\<not> is_bigram k \<Longrightarrow> rk_len k \<le> length (token_ids k)"
  using raw_len_le by (simp add: rk_len_def)

lemma rk_len_bigram: "is_bigram k \<Longrightarrow> rk_len k \<le> length (token_ids k) - 1"
  using raw_len_le by (auto simp: rk_len_def Let_def diff_le_mono)

lemma rk_len_RadixKey [simp]:
  "rk_len (RadixKey t e b None) = (if b then length t - 1 else length t)"
  by (simp add: rk_len_def)

lemma rk_slice_extra_key [simp]: "extra_key (rk_slice k a b) = extra_key k"
  by (simp add: rk_slice_def)

lemma rk_slice_is_bigram [simp]: "is_bigram (rk_slice k a b) = is_bigram k"
  by (simp add: rk_slice_def)

lemma rk_slice_limit [simp]: "limit (rk_slice k a b) = None"
  by (simp add: rk_slice_def)

lemma rk_len_slice:
  assumes "b \<le> rk_len k"
  shows "rk_len (rk_slice k a b) = b - a"
proof (cases "is_bigram k")
  case True
  with assms rk_len_bigram [of k] show ?thesis
    by (auto simp: rk_slice_def)
next
  case False
  with assms rk_len_plain [of k] show ?thesis
    by (auto simp: rk_slice_def)
qed

lemma rk_unit_slice:
  assumes "b \<le> rk_len k" "i < b - a"
  shows "rk_unit (rk_slice k a b) i = rk_unit k (a + i)"
proof (cases "is_bigram k")
  case True
  from assms(2) have "a < b" by simp
  with True assms rk_len_bigram [of k] show ?thesis
    by (simp add: rk_unit_def rk_slice_def slice_def)
next
  case False
  with assms rk_len_plain [of k] show ?thesis
    by (simp add: rk_unit_def rk_slice_def slice_def)
qed

lemma tunits_slice: "b \<le> rk_len k \<Longrightarrow> tunits (rk_slice k a b) = slice a b (tunits k)"
  by (rule nth_equalityI) (simp_all add: rk_len_slice rk_unit_slice slice_def)

lemma tunits_from [simp]: "tunits (rk_from k n) = drop n (tunits k)"
  by (simp add: rk_from_def tunits_slice min_def)

lemma tunits_upto [simp]: "tunits (rk_upto k n) = take n (tunits k)"
  by (simp add: rk_upto_def tunits_slice min_def)

lemma rk_len_from [simp]: "rk_len (rk_from k n) = rk_len k - n"
  by (metis length_drop length_tunits tunits_from)

lemma rk_len_upto [simp]: "rk_len (rk_upto k n) = min n (rk_len k)"
  by (metis length_take length_tunits min.commute tunits_upto)

lemma rk_from_sel [simp]:
  "extra_key (rk_from k n) = extra_key k" "is_bigram (rk_from k n) = is_bigram k"
  by (simp_all add: rk_from_def)

lemma rk_upto_sel [simp]:
  "extra_key (rk_upto k n) = extra_key k" "is_bigram (rk_upto k n) = is_bigram k"
  by (simp_all add: rk_upto_def)

lemma page_aligned_sel [simp]:
  "extra_key (page_aligned k ps) = extra_key k" "is_bigram (page_aligned k ps) = is_bigram k"
  by (simp_all add: page_aligned_def)

lemma tunits_page_aligned:
  "tunits (page_aligned k ps) = take (page_floor ps (rk_len k)) (tunits k)"
  by (simp add: page_aligned_def page_floor_def)

lemma rk_len_page_aligned [simp]: "rk_len (page_aligned k ps) = page_floor ps (rk_len k)"
  by (metis length_take length_tunits min.absorb2 min.commute page_floor_le tunits_page_aligned)

section \<open>The galloping match computes the longest common prefix\<close>

lemma match_bisect_lcp:
  assumes "lo < hi" "hi \<le> length t0" "hi \<le> length t1"
    and "take lo t0 = take lo t1" "slice lo hi t0 \<noteq> slice lo hi t1"
  shows "match_bisect t0 t1 lo hi = lcp_len t0 t1"
  using assms
proof (induction t0 t1 lo hi rule: match_bisect.induct)
  case (1 t0 t1 lo hi)
  let ?mid = "(lo + hi) div 2"
  show ?case
  proof (cases "1 < hi - lo")
    case wide: True
    then have mid: "lo < ?mid" "?mid < hi" by auto
    show ?thesis
    proof (cases "slice lo ?mid t0 = slice lo ?mid t1")
      case True
      with mid "1.prems" have eq: "take ?mid t0 = take ?mid t1"
        by (simp add: slice_eq_iff_take_eq)
      moreover from eq mid "1.prems" have "slice ?mid hi t0 \<noteq> slice ?mid hi t1"
        by (simp add: slice_eq_iff_take_eq)
      ultimately show ?thesis
        using wide True mid "1.prems" "1.IH"(1)
        by (simp add: match_bisect.simps [of t0 t1 lo hi] Let_def)
    next
      case False
      with wide mid "1.prems" "1.IH"(2) show ?thesis
        by (simp add: match_bisect.simps [of t0 t1 lo hi] Let_def)
    qed
  next
    case False
    with "1.prems"(1) have hi: "hi = Suc lo" by simp
    have "t0 ! lo \<noteq> t1 ! lo"
      using "1.prems" by (auto simp: hi slice_def take_Suc_conv_app_nth hd_drop_conv_nth take_Suc)
    then have "lcp_len t0 t1 = lo"
      using "1.prems" hi by (intro lcp_len_eqI) auto
    with False show ?thesis by (simp add: match_bisect.simps [of t0 t1 lo hi])
  qed
qed

lemma match_gallop_lcp:
  assumes "n = min (length t0) (length t1)" "lo \<le> n" "take lo t0 = take lo t1"
  shows "match_gallop t0 t1 n lo e = lcp_len t0 t1"
  using assms
proof (induction t0 t1 n lo e rule: match_gallop.induct)
  case (1 t0 t1 n lo e)
  define hi where "hi = (if lo + 2 ^ e < n then lo + 2 ^ e else n)"
  show ?case
  proof (cases "lo < n")
    case lt: True
    then have hi: "lo < hi" "hi \<le> n" by (auto simp: hi_def)
    have unfold: "match_gallop t0 t1 n lo e =
      (if slice lo hi t0 \<noteq> slice lo hi t1 then match_bisect t0 t1 lo hi
       else match_gallop t0 t1 n hi (e + 1))"
      using lt by (simp add: match_gallop.simps [of t0 t1 n lo e] Let_def hi_def)
    show ?thesis
    proof (cases "slice lo hi t0 = slice lo hi t1")
      case True
      with hi "1.prems" have "take hi t0 = take hi t1"
        by (simp add: slice_eq_iff_take_eq)
      with True hi "1.prems" "1.IH" [OF lt hi_def] unfold show ?thesis
        by simp
    next
      case False
      with hi "1.prems" unfold show ?thesis
        by (simp add: match_bisect_lcp)
    qed
  next
    case False
    with "1.prems"(2) have "lo = n" by linarith
    with "1.prems" have "lcp_len t0 t1 = n" by (intro lcp_len_eqI) auto
    with False show ?thesis by (simp add: match_gallop.simps [of t0 t1 n lo e])
  qed
qed

lemma match_gallop_eq_lcp [simp]:
  "match_gallop t0 t1 (min (length t0) (length t1)) 0 0 = lcp_len t0 t1"
  by (rule match_gallop_lcp) auto

lemma lcp_len_upt:
  assumes "r \<le> a" "r \<le> b" "\<And>i. i < r \<Longrightarrow> f i = g i" "r < a \<Longrightarrow> r < b \<Longrightarrow> f r \<noteq> g r"
  shows "lcp_len (map f [0 ..< a]) (map g [0 ..< b]) = r"
proof (rule lcp_len_eqI)
  show "take r (map f [0 ..< a]) = take r (map g [0 ..< b])"
    by (rule nth_equalityI) (use assms in auto)
qed (use assms in auto)

lemma lcp_tunits_plain:
  assumes "extra_key k = extra_key k'" "\<not> is_bigram k" "\<not> is_bigram k'"
  shows "lcp_len (tunits k) (tunits k') =
    min (lcp_len (token_ids k) (token_ids k')) (min (rk_len k) (rk_len k'))"
    (is "_ = min ?m _")
  unfolding tunits_eq
proof (rule lcp_len_upt)
  let ?r = "min ?m (min (rk_len k) (rk_len k'))"
  assume r: "?r < rk_len k" "?r < rk_len k'"
  then have m: "?r = ?m" by linarith
  have "?m < length (token_ids k)" "?m < length (token_ids k')"
    using r assms rk_len_plain [of k] rk_len_plain [of k'] by auto
  then have "token_ids k ! ?m \<noteq> token_ids k' ! ?m" by (rule nth_lcp_len_neq)
  then show "(extra_key k, rk_unit k ?r) \<noteq> (extra_key k', rk_unit k' ?r)"
    using assms m by (simp add: rk_unit_def)
qed (use assms in \<open>auto simp: rk_unit_def nth_lcp_len\<close>)

lemma lcp_tunits_bigram:
  assumes "extra_key k = extra_key k'" "is_bigram k" "is_bigram k'"
  shows "lcp_len (tunits k) (tunits k') =
    min (lcp_len (token_ids k) (token_ids k') - 1) (min (rk_len k) (rk_len k'))"
    (is "_ = min (?m - 1) _")
  unfolding tunits_eq
proof (rule lcp_len_upt)
  let ?r = "min (?m - 1) (min (rk_len k) (rk_len k'))"
  assume r: "?r < rk_len k" "?r < rk_len k'"
  then have m: "?r = ?m - 1" by linarith
  have "?m < length (token_ids k)" "?m < length (token_ids k')"
    using r assms rk_len_bigram [of k] rk_len_bigram [of k'] by auto
  then have "token_ids k ! ?m \<noteq> token_ids k' ! ?m" by (rule nth_lcp_len_neq)
  then show "(extra_key k, rk_unit k ?r) \<noteq> (extra_key k', rk_unit k' ?r)"
    using assms m by (cases ?m) (auto simp: rk_unit_def)
qed (use assms in \<open>auto simp: rk_unit_def nth_lcp_len\<close>)

theorem rk_match_lcp:
  assumes "extra_key k = extra_key k'" "is_bigram k = is_bigram k'" "0 < ps"
  shows "rk_match k k' ps = Inr (page_floor ps (lcp_len (tunits k) (tunits k')))"
proof (cases "is_bigram k")
  case True
  let ?m = "lcp_len (token_ids k) (token_ids k')"
  have "nat (max 0 (min (int ?m - 1) (min (int (rk_len k)) (int (rk_len k'))))) =
    lcp_len (tunits k) (tunits k')"
    using True assms by (simp add: lcp_tunits_bigram)
  with True assms show ?thesis
    by (simp add: rk_match_def check_compatible_def page_floor_def Let_def)
next
  case False
  with assms show ?thesis
    by (simp add: rk_match_def check_compatible_def page_floor_def Let_def lcp_tunits_plain)
qed

lemma rk_match_incompatible: "extra_key k \<noteq> extra_key k' \<Longrightarrow> rk_match k k' ps = Inl ValueError"
  by (simp add: rk_match_def check_compatible_def)

section \<open>Dictionary keys identify the first page\<close>

definition plain_of :: "radix_key \<Rightarrow> nat \<Rightarrow> plain_key" where
  "plain_of k ps =
     (let t = token_ids k in
      if is_bigram k
      then (if ps = 1 then PPair (t ! 0) (t ! 1)
            else PPairTup (map (\<lambda>j. (t ! j, t ! (j + 1))) [0 ..< ps]))
      else (if ps = 1 then PInt (t ! 0) else PTup (map (\<lambda>j. t ! j) [0 ..< ps])))"

lemma rk_child_key_eq:
  assumes "0 < ps" "ps \<le> rk_len k"
  shows "rk_child_key k ps =
    Inr (case extra_key k of None \<Rightarrow> Plain (plain_of k ps) | Some e \<Rightarrow> Tagged e (plain_of k ps))"
proof (cases "is_bigram k")
  case True
  with assms rk_len_bigram [of k] show ?thesis
    by (auto simp: rk_child_key_def plain_of_def Let_def split: option.split)
next
  case False
  have "take ps (token_ids k) = map (\<lambda>j. token_ids k ! j) [0 ..< ps]"
    using False assms rk_len_plain [of k] by (auto intro!: nth_equalityI)
  with False assms rk_len_plain [of k] show ?thesis
    by (auto simp: rk_child_key_def plain_of_def Let_def split: option.split)
qed

lemma plain_of_eq_iff:
  "0 < ps \<Longrightarrow> plain_of k ps = plain_of k' ps \<longleftrightarrow> (\<forall>i < ps. rk_unit k i = rk_unit k' i)"
  by (auto simp: plain_of_def rk_unit_def Let_def split: if_splits)

lemma take_tunits:
  "ps \<le> rk_len k \<Longrightarrow> take ps (tunits k) = map (\<lambda>i. (extra_key k, rk_unit k i)) [0 ..< ps]"
  by (auto intro!: nth_equalityI)

theorem rk_child_key_eq_iff:
  assumes "0 < ps" "ps \<le> rk_len k" "ps \<le> rk_len k'"
  shows "rk_child_key k ps = rk_child_key k' ps \<longleftrightarrow> take ps (tunits k) = take ps (tunits k')"
proof -
  have "take ps (tunits k) = take ps (tunits k') \<longleftrightarrow>
    extra_key k = extra_key k' \<and> (\<forall>i < ps. rk_unit k i = rk_unit k' i)"
    using assms by (auto simp: take_tunits)
  then show ?thesis
    using assms by (simp add: rk_child_key_eq plain_of_eq_iff [symmetric] split: option.split)
qed

lemma rk_child_key_sameD:
  assumes "rk_child_key k ps = rk_child_key k' ps" "0 < ps" "ps \<le> rk_len k" "ps \<le> rk_len k'"
  shows "extra_key k = extra_key k'" "is_bigram k = is_bigram k'"
proof -
  have "take ps (tunits k) = take ps (tunits k')" using assms by (simp add: rk_child_key_eq_iff)
  then have "tunits k ! 0 = tunits k' ! 0" using assms(2) by (metis nth_take)
  then show "extra_key k = extra_key k'" "is_bigram k = is_bigram k'"
    using assms by (auto simp: rk_unit_def split: if_splits)
qed

end
