(* ===== verification/Radix_Tree.thy ===== *)
theory Radix_Tree
  imports Radix_Key "HOL-Library.AList"
begin

text \<open>
  The prefix cache: classes \<^verbatim>\<open>TreeNode\<close> and \<^verbatim>\<open>RadixCache\<close> of
  \<^verbatim>\<open>mem_cache/radix_cache.py\<close> with the mixins of \<^verbatim>\<open>events.py\<close> and
  \<^verbatim>\<open>session_radix_cache.py\<close> and the strategies of \<^verbatim>\<open>evict_policy.py\<close>. The nodes are mutable
  objects that the tree, the requests, the set of evictable leaves and the session index
  share, so the model keeps them in a store: a node is named by its \<^verbatim>\<open>id\<close>, which the class
  draws from a counter. This theory holds the definitions; the theories that import it prove
  what they do.
\<close>

section \<open>Nodes\<close>

record tree_node =
  tn_children :: "(child_key \<times> nat) list"
  tn_parent :: "nat option"
  tn_key :: radix_key
  tn_value :: "int list option"
  lock_ref :: int
  last_access_time :: int
  creation_time :: int
  hit_count :: int
  host_ref_counter :: nat
  host_value :: "int list option"
  hash_value :: "string list option"
  tn_priority :: int
  session_ids :: "string list option"

text \<open>
  \<^verbatim>\<open>TreeNode.__init__\<close>: the two clock readings and the priority are arguments. The code leaves
  the key empty until the caller sets it; every caller does before the node is read.
\<close>

definition TreeNode :: "int \<Rightarrow> int \<Rightarrow> int \<Rightarrow> tree_node" where
  "TreeNode t1 t2 prio =
     \<lparr>tn_children = [], tn_parent = None, tn_key = RadixKey [] None False None, tn_value = None,
      lock_ref = 0, last_access_time = t1, creation_time = t2, hit_count = 0,
      host_ref_counter = 0, host_value = None, hash_value = None, tn_priority = prio,
      session_ids = None\<rparr>"

definition evicted :: "tree_node \<Rightarrow> bool" where
  "evicted n \<longleftrightarrow> tn_value n = None"

definition backuped :: "tree_node \<Rightarrow> bool" where
  "backuped n \<longleftrightarrow> host_value n \<noteq> None"

definition protect_host :: "tree_node \<Rightarrow> tree_node" where
  "protect_host n = n\<lparr>host_ref_counter := host_ref_counter n + 1\<rparr>"

definition release_host :: "tree_node \<Rightarrow> tree_node result" where
  "release_host n =
     (if 0 < host_ref_counter n then Inr (n\<lparr>host_ref_counter := host_ref_counter n - 1\<rparr>)
      else Inl RuntimeError)"

definition get_last_hash_value :: "tree_node \<Rightarrow> string option" where
  "get_last_hash_value n =
     (case hash_value n of None \<Rightarrow> None | Some hs \<Rightarrow> if hs = [] then None else Some (last hs))"

definition node_lt :: "tree_node \<Rightarrow> tree_node \<Rightarrow> bool" where
  "node_lt a b \<longleftrightarrow> last_access_time a < last_access_time b"

section \<open>Eviction strategies\<close>

datatype eviction_strategy =
    LRUStrategy
  | LFUStrategy
  | FIFOStrategy
  | MRUStrategy
  | FILOStrategy
  | PriorityStrategy
  | SLRUStrategy int

text \<open>A priority is a number or a pair of numbers, compared as Python compares tuples.\<close>

fun get_priority :: "eviction_strategy \<Rightarrow> tree_node \<Rightarrow> int list" where
  "get_priority LRUStrategy n = [last_access_time n]"
| "get_priority LFUStrategy n = [hit_count n, last_access_time n]"
| "get_priority FIFOStrategy n = [creation_time n]"
| "get_priority MRUStrategy n = [- last_access_time n]"
| "get_priority FILOStrategy n = [- creation_time n]"
| "get_priority PriorityStrategy n = [tn_priority n, last_access_time n]"
| "get_priority (SLRUStrategy threshold) n =
     [if threshold \<le> hit_count n then 1 else 0, last_access_time n]"

fun tuple_less :: "int list \<Rightarrow> int list \<Rightarrow> bool" where
  "tuple_less [] ys = (ys \<noteq> [])"
| "tuple_less (x # xs) [] = False"
| "tuple_less (x # xs) (y # ys) = (if x = y then tuple_less xs ys else x < y)"

definition EVICTION_POLICY_FACTORIES :: "(string \<times> eviction_strategy) list" where
  "EVICTION_POLICY_FACTORIES =
     [(''lru'', LRUStrategy), (''lfu'', LFUStrategy), (''fifo'', FIFOStrategy),
      (''mru'', MRUStrategy), (''filo'', FILOStrategy), (''priority'', PriorityStrategy),
      (''slru'', SLRUStrategy 2)]"

text \<open>\<^verbatim>\<open>str.lower\<close> on the ASCII letters.\<close>

definition lower_char :: "char \<Rightarrow> char" where
  "lower_char c =
     (if 65 \<le> (of_char c :: nat) \<and> (of_char c :: nat) \<le> 90 then char_of ((of_char c :: nat) + 32) else c)"

definition get_eviction_strategy :: "string \<Rightarrow> eviction_strategy result" where
  "get_eviction_strategy eviction_policy =
     (case map_of EVICTION_POLICY_FACTORIES (map lower_char eviction_policy) of
        Some s \<Rightarrow> Inr s
      | None \<Rightarrow> Inl ValueError)"

section \<open>The cache\<close>

datatype kv_event =
    BlockStored (block_hashes: "int list") (parent_block_hash: "int option")
      (event_tokens: "lunit list") (block_size: nat) (medium: string)
  | BlockRemoved (block_hashes: "int list") (medium: string)
  | AllBlocksCleared

text \<open>
  \<open>rc_clock\<close> is the sequence of values \<^verbatim>\<open>time.monotonic()\<close> returns and \<open>rc_ticks\<close> the number
  of readings so far; \<open>rc_hash\<close> is the native page hash of \<^verbatim>\<open>cpp_utils/native_hash.py\<close>, a call into a
  C++ extension over the SHA-256 of OpenSSL that is made only when events are enabled; it stays an argument.
  The set \<^verbatim>\<open>evictable_leaves\<close> is kept as a list without repetition.
\<close>

record radix_cache =
  rc_nodes :: "nat \<Rightarrow> tree_node"
  rc_counter :: nat
  root_node :: nat
  rc_evictable_size :: int
  rc_protected_size :: int
  evictable_leaves :: "nat list"
  rc_page_size :: nat
  is_eagle :: bool
  rc_disable :: bool
  disable_finished_insert :: bool
  enable_kv_cache_events :: bool
  enable_session_radix_cache :: bool
  rc_strategy :: eviction_strategy
  kv_event_queue :: "kv_event list"
  session_leaves :: "(string \<times> nat list) list"
  closed_session_ids :: "string list"
  rc_clock :: "nat \<Rightarrow> int"
  rc_ticks :: nat
  rc_hash :: "radix_key \<Rightarrow> string option \<Rightarrow> nat \<Rightarrow> string list"

abbreviation nd :: "radix_cache \<Rightarrow> nat \<Rightarrow> tree_node" where
  "nd c n \<equiv> rc_nodes c n"

definition upd_node :: "nat \<Rightarrow> (tree_node \<Rightarrow> tree_node) \<Rightarrow> radix_cache \<Rightarrow> radix_cache" where
  "upd_node n f c = c\<lparr>rc_nodes := (rc_nodes c)(n := f (rc_nodes c n))\<rparr>"

definition monotonic :: "radix_cache \<Rightarrow> int \<times> radix_cache" where
  "monotonic c = (rc_clock c (rc_ticks c), c\<lparr>rc_ticks := Suc (rc_ticks c)\<rparr>)"

definition new_tree_node :: "int \<Rightarrow> radix_cache \<Rightarrow> nat \<times> radix_cache" where
  "new_tree_node prio c =
     (let (t1, c1) = monotonic c; (t2, c2) = monotonic c1; n = rc_counter c2
      in (n, c2\<lparr>rc_nodes := (rc_nodes c2)(n := TreeNode t1 t2 prio), rc_counter := Suc n\<rparr>))"

text \<open>A tensor that may be missing: using it then raises.\<close>

definition tensor :: "int list option \<Rightarrow> int list result" where
  "tensor v = (case v of None \<Rightarrow> Inl TypeError | Some xs \<Rightarrow> Inr xs)"

definition parent_of :: "radix_cache \<Rightarrow> nat \<Rightarrow> nat result" where
  "parent_of c n = (case tn_parent (nd c n) of None \<Rightarrow> Inl AttributeError | Some p \<Rightarrow> Inr p)"

section \<open>Events\<close>

definition hex_digit :: "char \<Rightarrow> int result" where
  "hex_digit ch =
     (let n = (of_char ch :: int) in
      if 48 \<le> n \<and> n \<le> 57 then Inr (n - 48)
      else if 97 \<le> n \<and> n \<le> 102 then Inr (n - 87)
      else if 65 \<le> n \<and> n \<le> 70 then Inr (n - 55)
      else Inl ValueError)"

fun hex_value :: "int \<Rightarrow> string \<Rightarrow> int result" where
  "hex_value acc [] = Inr acc"
| "hex_value acc (ch # s) = rbind (hex_digit ch) (\<lambda>d. hex_value (16 * acc + d) s)"

definition hash_str_to_int64 :: "string \<Rightarrow> int result" where
  "hash_str_to_int64 hash_str =
     (let s = take 16 hash_str in
      rbind (if s = [] then Inl ValueError else hex_value 0 s) (\<lambda>v.
        Inr (if 2 ^ 63 \<le> v then v - 2 ^ 64 else v)))"

definition compute_node_hash_values :: "radix_cache \<Rightarrow> nat \<Rightarrow> string list" where
  "compute_node_hash_values c n =
     (let parent_hash =
        (case tn_parent (nd c n) of
           None \<Rightarrow> None
         | Some p \<Rightarrow>
             (case hash_value (nd c p) of
                None \<Rightarrow> None
              | Some hs \<Rightarrow> if 0 < rk_len (tn_key (nd c p)) \<and> 0 < length hs then Some (last hs) else None))
      in rc_hash c (tn_key (nd c n)) parent_hash (rc_page_size c))"

definition split_node_hash_value ::
  "string list option \<Rightarrow> nat \<Rightarrow> nat \<Rightarrow> string list option \<times> string list option" where
  "split_node_hash_value child_hash split_len ps =
     (case child_hash of
        None \<Rightarrow> (None, None)
      | Some hs \<Rightarrow>
          (let split_pages = (if ps = 1 then split_len else split_len div ps)
           in (Some (take split_pages hs), Some (drop split_pages hs))))"

text \<open>\<^verbatim>\<open>node.hash_value\<close>, computed on the first use.\<close>

definition ensure_hash :: "nat \<Rightarrow> radix_cache \<Rightarrow> string list \<times> radix_cache" where
  "ensure_hash n c =
     (case hash_value (nd c n) of
        Some hs \<Rightarrow> (hs, c)
      | None \<Rightarrow> (let hs = compute_node_hash_values c n
                 in (hs, upd_node n (\<lambda>x. x\<lparr>hash_value := Some hs\<rparr>) c)))"

definition page_starts :: "nat \<Rightarrow> nat \<Rightarrow> nat list" where
  "page_starts ps n = map (\<lambda>i. i * ps) [0 ..< (n + ps - 1) div ps]"

definition hash_at :: "string list \<Rightarrow> nat \<Rightarrow> int result" where
  "hash_at hs i = (if i < length hs then hash_str_to_int64 (hs ! i) else Inl IndexError)"

text \<open>The loop of \<^verbatim>\<open>_record_store_event\<close> over the pages, with the page index it counts.\<close>

fun store_events ::
  "string list \<Rightarrow> radix_key \<Rightarrow> nat \<Rightarrow> string \<Rightarrow> int option \<Rightarrow> nat \<Rightarrow> nat list \<Rightarrow> kv_event list result" where
  "store_events hs k ps med parent page_index [] = Inr []"
| "store_events hs k ps med parent page_index (start # rest) =
     (let stop = min (start + ps) (rk_len k) in
      if stop \<le> start then store_events hs k ps med parent page_index rest
      else
        let raw = token_ids k;
            page_tokens = (if is_bigram k then map (\<lambda>j. Big (raw ! j) (raw ! (j + 1))) [start ..< stop]
                           else map Tok (slice start stop raw))
        in rbind (hash_at hs page_index) (\<lambda>block_hash.
           rbind (store_events hs k ps med (Some block_hash) (page_index + 1) rest) (\<lambda>evs.
           Inr (BlockStored [block_hash] parent page_tokens (length page_tokens) med # evs))))"

definition record_store_event :: "nat \<Rightarrow> radix_cache \<Rightarrow> radix_cache result" where
  "record_store_event n c =
     (if \<not> enable_kv_cache_events c then Inr c
      else
        let (hs, c1) = ensure_hash n c;
            k = tn_key (nd c1 n)
        in rbind (case tn_parent (nd c1 n) of
                    None \<Rightarrow> Inr None
                  | Some p \<Rightarrow>
                      if p \<noteq> root_node c1 then
                        (case hash_value (nd c1 p) of
                           None \<Rightarrow> Inr None
                         | Some ph \<Rightarrow>
                             if 0 < length ph then rbind (hash_str_to_int64 (last ph)) (\<lambda>h. Inr (Some h))
                             else Inr None)
                      else Inr None) (\<lambda>parent.
           rbind (store_events hs k (rc_page_size c1) ''GPU'' parent 0 (page_starts (rc_page_size c1) (rk_len k))) (\<lambda>evs.
           Inr (c1\<lparr>kv_event_queue := kv_event_queue c1 @ evs\<rparr>))))"

fun remove_hashes :: "string list \<Rightarrow> nat \<Rightarrow> nat \<Rightarrow> nat \<Rightarrow> nat list \<Rightarrow> int list result" where
  "remove_hashes hs len ps page_index [] = Inr []"
| "remove_hashes hs len ps page_index (start # rest) =
     (if min (start + ps) len \<le> start then remove_hashes hs len ps page_index rest
      else rbind (hash_at hs page_index) (\<lambda>h.
           rbind (remove_hashes hs len ps (page_index + 1) rest) (\<lambda>r. Inr (h # r))))"

definition record_remove_event :: "nat \<Rightarrow> radix_cache \<Rightarrow> radix_cache result" where
  "record_remove_event n c =
     (if \<not> enable_kv_cache_events c then Inr c
      else
        let (hs, c1) = ensure_hash n c;
            len = rk_len (tn_key (nd c1 n))
        in rbind (remove_hashes hs len (rc_page_size c1) 0 (page_starts (rc_page_size c1) len)) (\<lambda>bh.
           Inr (if bh \<noteq> [] then c1\<lparr>kv_event_queue := kv_event_queue c1 @ [BlockRemoved bh ''GPU'']\<rparr>
                else c1)))"

definition record_all_cleared_event :: "radix_cache \<Rightarrow> radix_cache" where
  "record_all_cleared_event c =
     (if enable_kv_cache_events c
      then c\<lparr>kv_event_queue := kv_event_queue c @ [AllBlocksCleared]\<rparr> else c)"

definition take_events :: "radix_cache \<Rightarrow> kv_event list \<times> radix_cache" where
  "take_events c =
     (if \<not> enable_kv_cache_events c then ([], c)
      else (kv_event_queue c, c\<lparr>kv_event_queue := []\<rparr>))"

section \<open>Evictable leaves and the session index\<close>

definition set_discard :: "'a \<Rightarrow> 'a list \<Rightarrow> 'a list" where
  "set_discard x xs = filter (\<lambda>y. y \<noteq> x) xs"

definition set_add :: "'a \<Rightarrow> 'a list \<Rightarrow> 'a list" where
  "set_add x xs = (if x \<in> set xs then xs else xs @ [x])"

definition update_leaf_status :: "nat \<Rightarrow> radix_cache \<Rightarrow> radix_cache" where
  "update_leaf_status n c =
     (if evicted (nd c n) \<or> 0 < lock_ref (nd c n)
      then c\<lparr>evictable_leaves := set_discard n (evictable_leaves c)\<rparr>
      else if \<exists>(k, child) \<in> set (tn_children (nd c n)). \<not> evicted (nd c child)
      then c\<lparr>evictable_leaves := set_discard n (evictable_leaves c)\<rparr>
      else c\<lparr>evictable_leaves := set_add n (evictable_leaves c)\<rparr>)"

definition reset_session_radix_state :: "radix_cache \<Rightarrow> radix_cache" where
  "reset_session_radix_state c = c\<lparr>session_leaves := [], closed_session_ids := []\<rparr>"

definition CLOSED_SESSION_TOMBSTONE_LIMIT :: nat where
  "CLOSED_SESSION_TOMBSTONE_LIMIT = 8192"

definition remember_closed_session :: "string \<Rightarrow> radix_cache \<Rightarrow> radix_cache" where
  "remember_closed_session sid c =
     (let ids = set_discard sid (closed_session_ids c) @ [sid]
      in c\<lparr>closed_session_ids := drop (length ids - CLOSED_SESSION_TOMBSTONE_LIMIT) ids\<rparr>)"

definition discard_from_session :: "nat \<Rightarrow> string \<Rightarrow> radix_cache \<Rightarrow> radix_cache" where
  "discard_from_session n sid c =
     (case map_of (session_leaves c) sid of
        None \<Rightarrow> c
      | Some leaves \<Rightarrow>
          (let leaves' = set_discard n leaves in
           if leaves' = [] \<and> sid \<notin> set (closed_session_ids c)
           then c\<lparr>session_leaves := AList.delete sid (session_leaves c)\<rparr>
           else c\<lparr>session_leaves := AList.update sid leaves' (session_leaves c)\<rparr>))"

definition discard_session_leaf :: "nat \<Rightarrow> radix_cache \<Rightarrow> radix_cache" where
  "discard_session_leaf n c =
     (case session_ids (nd c n) of
        None \<Rightarrow> c
      | Some sids \<Rightarrow>
          if sids = [] then c
          else upd_node n (\<lambda>x. x\<lparr>session_ids := None\<rparr>) (fold (discard_from_session n) sids c))"

section \<open>Structure of the tree\<close>

definition split_node :: "radix_key \<Rightarrow> nat \<Rightarrow> nat \<Rightarrow> radix_cache \<Rightarrow> (nat \<times> radix_cache) result" where
  "split_node key child split_len c =
     (let ps = rc_page_size c; (x, c1) = new_tree_node (tn_priority (nd c child)) c; ch = nd c1 child in
      rbind (rk_child_key (rk_from key split_len) ps) (\<lambda>suffix_key.
      rbind (parent_of c1 child) (\<lambda>p.
      rbind (tensor (tn_value ch)) (\<lambda>v.
      rbind (rk_child_key key ps) (\<lambda>first_key.
      let (new_hash, child_hash) = split_node_hash_value (hash_value ch) split_len ps;
          c2 = upd_node x (\<lambda>n. n\<lparr>hit_count := hit_count ch, tn_children := [(suffix_key, child)],
                 tn_parent := Some p, lock_ref := lock_ref ch, tn_key := rk_upto (tn_key ch) split_len,
                 tn_value := Some (take split_len v), hash_value := new_hash\<rparr>) c1;
          c3 = upd_node child (\<lambda>n. n\<lparr>tn_parent := Some x, tn_key := rk_from (tn_key ch) split_len,
                 tn_value := Some (drop split_len v), hash_value := child_hash\<rparr>) c2;
          c4 = upd_node p (\<lambda>n. n\<lparr>tn_children := AList.update first_key x (tn_children n)\<rparr>) c3
      in Inr (x, c4))))))"

definition inc_hit_count :: "bool \<Rightarrow> tree_node \<Rightarrow> tree_node" where
  "inc_hit_count chunked n = (if chunked then n else n\<lparr>hit_count := hit_count n + 1\<rparr>)"

definition touch :: "int \<Rightarrow> nat \<Rightarrow> radix_cache \<Rightarrow> radix_cache" where
  "touch t n c = upd_node n (\<lambda>x. x\<lparr>last_access_time := t\<rparr>) c"

text \<open>The test \<^verbatim>\<open>len(key) > 0 and child_key in node.children.keys()\<close> and the look-up.\<close>

definition next_child :: "radix_cache \<Rightarrow> nat \<Rightarrow> radix_key \<Rightarrow> child_key \<Rightarrow> nat option" where
  "next_child c node key ck =
     (if 0 < rk_len key then map_of (tn_children (nd c node)) ck else None)"

fun match_loop ::
  "nat \<Rightarrow> int \<Rightarrow> nat \<Rightarrow> radix_key \<Rightarrow> child_key \<Rightarrow> int list \<Rightarrow> radix_cache \<Rightarrow>
     (int list \<times> nat \<times> radix_cache) result" where
  "match_loop 0 t node key ck val c = Inl OutOfFuel"
| "match_loop (Suc fuel) t node key ck val c =
     (case next_child c node key ck of
        None \<Rightarrow> Inr (val, node, c)
      | Some child \<Rightarrow>
          (let c1 = touch t child c; ckey = tn_key (nd c1 child) in
           rbind (rk_match ckey key (rc_page_size c1)) (\<lambda>prefix_len.
           if prefix_len < rk_len ckey
           then rbind (split_node ckey child prefix_len c1) (\<lambda>(x, c2).
                rbind (tensor (tn_value (nd c2 x))) (\<lambda>v. Inr (val @ v, x, c2)))
           else rbind (tensor (tn_value (nd c1 child))) (\<lambda>v.
                let key' = rk_from key prefix_len in
                rbind (if 0 < rk_len key' then rk_child_key key' (rc_page_size c1) else Inr ck) (\<lambda>ck'.
                match_loop fuel t child key' ck' (val @ v) c1)))))"

definition match_prefix_helper :: "nat \<Rightarrow> radix_key \<Rightarrow> radix_cache \<Rightarrow> (int list \<times> nat \<times> radix_cache) result" where
  "match_prefix_helper node key c =
     (let (t, c1) = monotonic c; c2 = touch t node c1 in
      rbind (rk_child_key key (rc_page_size c2)) (\<lambda>ck.
        match_loop (Suc (rk_len key)) t node key ck [] c2))"

record match_result =
  device_indices :: "int list"
  last_device_node :: nat
  last_host_node :: nat
  best_match_node :: nat

definition MatchResult :: "int list \<Rightarrow> nat \<Rightarrow> match_result" where
  "MatchResult ix n =
     \<lparr>device_indices = ix, last_device_node = n, last_host_node = n, best_match_node = n\<rparr>"

definition match_prefix :: "radix_key \<Rightarrow> radix_cache \<Rightarrow> (match_result \<times> radix_cache) result" where
  "match_prefix key0 c =
     (let key1 = fst (maybe_to_bigram_view key0 (is_eagle c) (None :: int list option)) in
      if rc_disable c \<or> rk_len key1 = 0 then Inr (MatchResult [] (root_node c), c)
      else
        let key = page_aligned key1 (rc_page_size c) in
        if rk_len key = 0 then Inr (MatchResult [] (root_node c), c)
        else rbind (match_prefix_helper (root_node c) key c) (\<lambda>(val, last_node, c').
             Inr (MatchResult val last_node, c')))"

fun insert_loop ::
  "nat \<Rightarrow> int \<Rightarrow> int \<Rightarrow> bool \<Rightarrow> nat \<Rightarrow> radix_key \<Rightarrow> int list \<Rightarrow> child_key \<Rightarrow> nat \<Rightarrow> radix_cache \<Rightarrow>
     (nat \<times> radix_key \<times> int list \<times> child_key \<times> nat \<times> radix_cache) result" where
  "insert_loop 0 t prio chunked node key val ck total_len c = Inl OutOfFuel"
| "insert_loop (Suc fuel) t prio chunked node key val ck total_len c =
     (case next_child c node key ck of
        None \<Rightarrow> Inr (node, key, val, ck, total_len, c)
      | Some child \<Rightarrow>
          (let c1 = touch t child c; ckey = tn_key (nd c1 child) in
           rbind (rk_match ckey key (rc_page_size c1)) (\<lambda>prefix_len.
           let key' = rk_from key prefix_len; val' = drop prefix_len val in
           rbind (if prefix_len < rk_len ckey then split_node ckey child prefix_len c1 else Inr (child, c1))
             (\<lambda>(node', c2).
             let c3 = upd_node node' (\<lambda>n. inc_hit_count chunked
                        (n\<lparr>tn_priority := max (tn_priority n) prio\<rparr>)) c2 in
             rbind (if 0 < rk_len key' then rk_child_key key' (rc_page_size c3) else Inr ck) (\<lambda>ck'.
             insert_loop fuel t prio chunked node' key' val' ck' (total_len + prefix_len) c3)))))"

definition add_leaf ::
  "nat \<Rightarrow> radix_key \<Rightarrow> int list \<Rightarrow> child_key \<Rightarrow> int \<Rightarrow> bool \<Rightarrow> radix_cache \<Rightarrow> (nat \<times> radix_cache) result" where
  "add_leaf node key val ck prio chunked c =
     (let (x, c1) = new_tree_node prio c;
          c2 = upd_node x (\<lambda>n. inc_hit_count chunked
                 (n\<lparr>tn_parent := Some node, tn_key := key, tn_value := Some val\<rparr>)) c1;
          c3 = upd_node node (\<lambda>n. n\<lparr>tn_children := AList.update ck x (tn_children n)\<rparr>) c2;
          c4 = c3\<lparr>rc_evictable_size := rc_evictable_size c3 + int (rk_len key)\<rparr>;
          c5 = update_leaf_status x (update_leaf_status node c4)
      in rbind (record_store_event x c5) (\<lambda>c6. Inr (x, c6)))"

definition insert_helper ::
  "nat \<Rightarrow> radix_key \<Rightarrow> int list \<Rightarrow> int option \<Rightarrow> bool \<Rightarrow> radix_cache \<Rightarrow> (nat \<times> nat \<times> radix_cache) result" where
  "insert_helper node key val priority chunked c =
     (let prio = (case priority of None \<Rightarrow> 0 | Some p \<Rightarrow> p);
          (t, c1) = monotonic c;
          c2 = upd_node node (\<lambda>n. n\<lparr>last_access_time := t, tn_priority := max (tn_priority n) prio\<rparr>) c1
      in if rk_len key = 0 then Inr (0, node, c2)
         else rbind (rk_child_key key (rc_page_size c2)) (\<lambda>ck.
              rbind (insert_loop (Suc (rk_len key)) t prio chunked node key val ck 0 c2)
                (\<lambda>(node', key', val', ck', total_len, c3).
                if 0 < rk_len key'
                then rbind (add_leaf node' key' val' ck' prio chunked c3) (\<lambda>(x, c4). Inr (total_len, x, c4))
                else Inr (total_len, node', c3))))"

record insert_result =
  ir_prefix_len :: nat
  ir_last_device_node :: "nat option"

definition rc_insert ::
  "radix_key \<Rightarrow> int list option \<Rightarrow> int option \<Rightarrow> bool \<Rightarrow> radix_cache \<Rightarrow> (insert_result \<times> radix_cache) result" where
  "rc_insert key0 value0 priority chunked c =
     (if rc_disable c then Inr (\<lparr>ir_prefix_len = 0, ir_last_device_node = None\<rparr>, c)
      else
        let (key1, value1) = maybe_to_bigram_view key0 (is_eagle c) value0;
            key = page_aligned key1 (rc_page_size c);
            val = (case value1 of Some v \<Rightarrow> take (rk_len key) v
                                | None \<Rightarrow> take (rk_len key) (token_ids key))
        in rbind (insert_helper (root_node c) key val priority chunked c) (\<lambda>(prefix_len, last_node, c').
           Inr (\<lparr>ir_prefix_len = prefix_len, ir_last_device_node = Some last_node\<rparr>, c')))"

section \<open>Reset\<close>

text \<open>\<^verbatim>\<open>-sys.maxsize\<close>, the priority of the root.\<close>

definition min_priority :: int where
  "min_priority = - (2 ^ 63 - 1)"

definition reset :: "radix_cache \<Rightarrow> radix_cache" where
  "reset c =
     (let (r, c1) = new_tree_node min_priority c;
          c2 = upd_node r (\<lambda>n. n\<lparr>tn_key := RadixKey [] None False None, tn_value := Some [],
                 host_value := Some [], lock_ref := 1, hash_value := Some []\<rparr>) c1;
          c3 = c2\<lparr>root_node := r, rc_evictable_size := 0, rc_protected_size := 0, evictable_leaves := []\<rparr>
      in record_all_cleared_event (reset_session_radix_state c3))"

record cache_init_params =
  cp_disable :: bool
  cp_page_size :: nat
  cp_enable_kv_cache_events :: bool
  cp_enable_session_radix_cache :: bool
  cp_is_eagle :: bool
  cp_disable_finished_insert :: bool
  cp_eviction_policy :: string

text \<open>
  \<^verbatim>\<open>RadixCache.__init__\<close>. The counter is a class attribute, so the caches made earlier in the
  process have advanced it and their nodes are in the store.
\<close>

definition rc_init ::
  "cache_init_params \<Rightarrow> (nat \<Rightarrow> tree_node) \<Rightarrow> nat \<Rightarrow> (nat \<Rightarrow> int) \<Rightarrow>
     (radix_key \<Rightarrow> string option \<Rightarrow> nat \<Rightarrow> string list) \<Rightarrow> radix_cache result" where
  "rc_init p store counter clock hash =
     rbind (get_eviction_strategy (map lower_char (cp_eviction_policy p))) (\<lambda>strategy.
     Inr (reset
       \<lparr>rc_nodes = store, rc_counter = counter, root_node = 0, rc_evictable_size = 0,
        rc_protected_size = 0, evictable_leaves = [], rc_page_size = cp_page_size p,
        is_eagle = cp_is_eagle p, rc_disable = cp_disable p,
        disable_finished_insert = cp_disable_finished_insert p,
        enable_kv_cache_events = cp_enable_kv_cache_events p,
        enable_session_radix_cache = cp_enable_session_radix_cache p,
        rc_strategy = strategy, kv_event_queue = [], session_leaves = [],
        closed_session_ids = [], rc_clock = clock, rc_ticks = 0, rc_hash = hash\<rparr>))"

section \<open>Locks\<close>

definition lock_node :: "nat \<Rightarrow> int \<Rightarrow> radix_cache \<Rightarrow> int \<times> radix_cache" where
  "lock_node n delta c =
     (let len = int (rk_len (tn_key (nd c n)));
          free0 = (lock_ref (nd c n) = 0);
          c1 = (if free0 then c\<lparr>rc_evictable_size := rc_evictable_size c - len,
                                rc_protected_size := rc_protected_size c + len\<rparr> else c);
          c2 = upd_node n (\<lambda>x. x\<lparr>lock_ref := lock_ref x + 1\<rparr>) c1
      in (if free0 then delta - len else delta, update_leaf_status n c2))"

fun inc_lock_loop :: "nat \<Rightarrow> nat \<Rightarrow> int \<Rightarrow> radix_cache \<Rightarrow> (int \<times> radix_cache) result" where
  "inc_lock_loop 0 n delta c = Inl OutOfFuel"
| "inc_lock_loop (Suc fuel) n delta c =
     (if n = root_node c then Inr (delta, c)
      else let (delta', c1) = lock_node n delta c in
           rbind (parent_of c1 n) (\<lambda>p. inc_lock_loop fuel p delta' c1))"

definition inc_lock_ref :: "nat \<Rightarrow> radix_cache \<Rightarrow> (int \<times> radix_cache) result" where
  "inc_lock_ref n c = (if rc_disable c then Inr (0, c) else inc_lock_loop (Suc (rc_counter c)) n 0 c)"

definition unlock_node :: "nat \<Rightarrow> int \<Rightarrow> radix_cache \<Rightarrow> int \<times> radix_cache" where
  "unlock_node n delta c =
     (let len = int (rk_len (tn_key (nd c n)));
          last_ref = (lock_ref (nd c n) = 1);
          c1 = (if last_ref then c\<lparr>rc_evictable_size := rc_evictable_size c + len,
                                   rc_protected_size := rc_protected_size c - len\<rparr> else c);
          c2 = upd_node n (\<lambda>x. x\<lparr>lock_ref := lock_ref x - 1\<rparr>) c1
      in (if last_ref then delta + len else delta, update_leaf_status n c2))"

text \<open>A node without a parent that is not the root fails the assertion of the code.\<close>

fun dec_lock_loop :: "nat \<Rightarrow> nat \<Rightarrow> int \<Rightarrow> radix_cache \<Rightarrow> (int \<times> radix_cache) result" where
  "dec_lock_loop 0 n delta c = Inl OutOfFuel"
| "dec_lock_loop (Suc fuel) n delta c =
     (if n = root_node c then Inr (delta, c)
      else let (delta', c1) = unlock_node n delta c in
           (case tn_parent (nd c1 n) of
              None \<Rightarrow> Inl AssertionError
            | Some p \<Rightarrow> dec_lock_loop fuel p delta' c1))"

definition dec_lock_ref :: "nat \<Rightarrow> radix_cache \<Rightarrow> (int \<times> radix_cache) result" where
  "dec_lock_ref n c = (if rc_disable c then Inr (0, c) else dec_lock_loop (Suc (rc_counter c)) n 0 c)"

section \<open>Eviction\<close>

definition delete_leaf :: "nat \<Rightarrow> radix_cache \<Rightarrow> radix_cache result" where
  "delete_leaf n c =
     rbind (rk_child_key (tn_key (nd c n)) (rc_page_size c)) (\<lambda>key.
     rbind (parent_of c n) (\<lambda>p.
     let v = map_of (tn_children (nd c p)) key;
         c1 = upd_node p (\<lambda>x. x\<lparr>tn_children := AList.delete key (tn_children x)\<rparr>) c
     in rbind (py_assert (v = Some n)) (\<lambda>_.
        let c2 = discard_session_leaf n c1;
            c3 = c2\<lparr>rc_evictable_size := rc_evictable_size c2 - int (rk_len (tn_key (nd c2 n))),
                    evictable_leaves := set_discard n (evictable_leaves c2)\<rparr>
        in Inr (update_leaf_status p c3))))"

text \<open>
  The heap of pairs of a priority and a node. Tuples are compared by their first component
  that differs, nodes by \<^verbatim>\<open>TreeNode.__lt__\<close>. \<open>heappop\<close> removes an item no other item is less
  than, the first one of these in the list.
\<close>

definition heap_less :: "radix_cache \<Rightarrow> int list \<times> nat \<Rightarrow> int list \<times> nat \<Rightarrow> bool" where
  "heap_less c a b =
     (if fst a = fst b then node_lt (nd c (snd a)) (nd c (snd b)) else tuple_less (fst a) (fst b))"

fun heap_min :: "radix_cache \<Rightarrow> (int list \<times> nat) list \<Rightarrow> int list \<times> nat" where
  "heap_min c [] = ([], 0)"
| "heap_min c [x] = x"
| "heap_min c (x # y # xs) = (let m = heap_min c (y # xs) in if heap_less c m x then m else x)"

definition heappop ::
  "radix_cache \<Rightarrow> (int list \<times> nat) list \<Rightarrow> (int list \<times> nat) \<times> (int list \<times> nat) list" where
  "heappop c heap = (heap_min c heap, remove1 (heap_min c heap) heap)"

text \<open>
  \<^verbatim>\<open>token_to_kv_pool_allocator.free\<close> is dispatched on the class of the allocator, so it is an
  argument, together with the allocator's state.
\<close>

fun evict_loop ::
  "('al \<Rightarrow> int list \<Rightarrow> 'al result) \<Rightarrow> nat \<Rightarrow> nat \<Rightarrow> nat \<Rightarrow> (int list \<times> nat) list \<Rightarrow> 'al \<Rightarrow> radix_cache \<Rightarrow>
     (nat \<times> 'al \<times> radix_cache) result" where
  "evict_loop free 0 num_tokens num_evicted heap a c = Inl OutOfFuel"
| "evict_loop free (Suc fuel) num_tokens num_evicted heap a c =
     (if num_evicted < num_tokens \<and> heap \<noteq> []
      then let ((prio, x), heap1) = heappop c heap in
           rbind (tensor (tn_value (nd c x))) (\<lambda>v.
           rbind (free a v) (\<lambda>a1.
           rbind (delete_leaf x c) (\<lambda>c1.
           rbind (parent_of c1 x) (\<lambda>p.
           let heap2 = (if tn_children (nd c1 p) = [] \<and> lock_ref (nd c1 p) = 0
                        then (get_priority (rc_strategy c1) (nd c1 p), p) # heap1 else heap1)
           in rbind (record_remove_event x c1) (\<lambda>c2.
              evict_loop free fuel num_tokens (num_evicted + length v) heap2 a1 c2)))))
      else Inr (num_evicted, a, c))"

text \<open>\<open>leaves\<close> is \<^verbatim>\<open>list(self.evictable_leaves)\<close>: the set in some order.\<close>

definition evict ::
  "('al \<Rightarrow> int list \<Rightarrow> 'al result) \<Rightarrow> (nat list \<Rightarrow> nat list) \<Rightarrow> nat \<Rightarrow> 'al \<Rightarrow> radix_cache \<Rightarrow>
     (nat \<times> 'al \<times> radix_cache) result" where
  "evict free order num_tokens a c =
     (if rc_disable c then Inr (0, a, c)
      else
        let leaves = order (evictable_leaves c);
            heap = map (\<lambda>n. (get_priority (rc_strategy c) (nd c n), n)) leaves
        in evict_loop free (Suc (rc_counter c)) num_tokens 0 heap a c)"

section \<open>Sessions\<close>

text \<open>
  \<^verbatim>\<open>_tag_session_leaf\<close>: the session id of the request and the node are arguments; without a
  node the code looks the key up again.
\<close>

definition tag_session_leaf ::
  "string option \<Rightarrow> radix_key \<Rightarrow> nat option \<Rightarrow> radix_cache \<Rightarrow> radix_cache result" where
  "tag_session_leaf sid_opt key node_opt c =
     (if \<not> enable_session_radix_cache c then Inr c
      else case sid_opt of
        None \<Rightarrow> Inr c
      | Some sid \<Rightarrow>
          if sid \<in> set (closed_session_ids c) then Inr c
          else rbind (case node_opt of
                        Some n \<Rightarrow> Inr (n, c)
                      | None \<Rightarrow> rbind (match_prefix key c) (\<lambda>(m, c1). Inr (last_device_node m, c1)))
               (\<lambda>(n, c1).
               if n = root_node c1 then Inr c1
               else
                 let sids = (case session_ids (nd c1 n) of None \<Rightarrow> [] | Some xs \<Rightarrow> xs);
                     leaves = (case map_of (session_leaves c1) sid of None \<Rightarrow> [] | Some xs \<Rightarrow> xs);
                     c2 = upd_node n (\<lambda>x. x\<lparr>session_ids := Some (set_add sid sids)\<rparr>) c1
                 in Inr (c2\<lparr>session_leaves := AList.update sid (set_add n leaves) (session_leaves c2)\<rparr>)))"

definition drop_holder :: "string \<Rightarrow> tree_node \<Rightarrow> tree_node" where
  "drop_holder sid n =
     (case session_ids n of
        None \<Rightarrow> n
      | Some sids \<Rightarrow>
          (let sids' = set_discard sid sids
           in n\<lparr>session_ids := (if sids' = [] then None else Some sids')\<rparr>))"

definition session_stop :: "radix_cache \<Rightarrow> nat \<Rightarrow> bool" where
  "session_stop c n \<longleftrightarrow>
     n = root_node c \<or> lock_ref (nd c n) \<noteq> 0 \<or> tn_children (nd c n) \<noteq> [] \<or>
     n \<notin> set (evictable_leaves c) \<or>
     (case session_ids (nd c n) of None \<Rightarrow> False | Some sids \<Rightarrow> sids \<noteq> [])"

fun release_chain ::
  "('al \<Rightarrow> int list \<Rightarrow> 'al result) \<Rightarrow> nat \<Rightarrow> string \<Rightarrow> nat \<Rightarrow> nat \<Rightarrow> 'al \<Rightarrow> radix_cache \<Rightarrow>
     (nat \<times> 'al \<times> radix_cache) result" where
  "release_chain free 0 sid node freed a c = Inl OutOfFuel"
| "release_chain free (Suc fuel) sid node freed a c =
     (let c1 = upd_node node (drop_holder sid) c in
      if session_stop c1 node then Inr (freed, a, c1)
      else rbind (parent_of c1 node) (\<lambda>parent.
           rbind (tensor (tn_value (nd c1 node))) (\<lambda>v.
           rbind (free a v) (\<lambda>a1.
           rbind (delete_leaf node c1) (\<lambda>c2.
           release_chain free fuel sid parent (freed + 1) a1 c2)))))"

fun release_leaves ::
  "('al \<Rightarrow> int list \<Rightarrow> 'al result) \<Rightarrow> string \<Rightarrow> nat list \<Rightarrow> nat \<Rightarrow> 'al \<Rightarrow> radix_cache \<Rightarrow>
     (nat \<times> 'al \<times> radix_cache) result" where
  "release_leaves free sid [] freed a c = Inr (freed, a, c)"
| "release_leaves free sid (leaf # rest) freed a c =
     (if (case session_ids (nd c leaf) of None \<Rightarrow> False | Some sids \<Rightarrow> sid \<in> set sids)
      then rbind (release_chain free (Suc (rc_counter c)) sid leaf freed a c) (\<lambda>(freed1, a1, c1).
           release_leaves free sid rest freed1 a1 c1)
      else release_leaves free sid rest freed a c)"

definition release_radix_session ::
  "('al \<Rightarrow> int list \<Rightarrow> 'al result) \<Rightarrow> (nat list \<Rightarrow> nat list) \<Rightarrow> string \<Rightarrow> 'al \<Rightarrow> radix_cache \<Rightarrow>
     (nat \<times> 'al \<times> radix_cache) result" where
  "release_radix_session free order sid a c =
     (let c1 = remember_closed_session sid c;
          indexed = (case map_of (session_leaves c1) sid of None \<Rightarrow> [] | Some xs \<Rightarrow> xs);
          c2 = c1\<lparr>session_leaves := AList.delete sid (session_leaves c1)\<rparr>
      in release_leaves free sid (order indexed) 0 a c2)"

section \<open>Whole-tree walks\<close>

fun total_size_loop :: "nat \<Rightarrow> nat list \<Rightarrow> nat \<Rightarrow> radix_cache \<Rightarrow> nat result" where
  "total_size_loop 0 stack acc c = Inl OutOfFuel"
| "total_size_loop (Suc fuel) stack acc c =
     (if stack = [] then Inr acc
      else let n = last stack in
           rbind (tensor (tn_value (nd c n))) (\<lambda>v.
           total_size_loop fuel
             (butlast stack @ filter (\<lambda>m. \<not> evicted (nd c m)) (map snd (tn_children (nd c n))))
             (acc + length v) c))"

definition total_size :: "radix_cache \<Rightarrow> nat result" where
  "total_size c = total_size_loop (Suc (Suc (rc_counter c))) [root_node c] 0 c"

fun flatten_dfs :: "nat \<Rightarrow> radix_cache \<Rightarrow> nat \<Rightarrow> nat list" where
  "flatten_dfs 0 c n = []"
| "flatten_dfs (Suc fuel) c n =
     concat (map (\<lambda>(k, m). m # flatten_dfs fuel c m) (tn_children (nd c n)))"

text \<open>\<^verbatim>\<open>torch.cat\<close> raises on an empty list of tensors and on a missing tensor.\<close>

definition all_values_flatten :: "radix_cache \<Rightarrow> int list result" where
  "all_values_flatten c =
     (let ns = flatten_dfs (rc_counter c) c (root_node c) in
      if ns = [] then Inl RuntimeError
      else if \<exists>n \<in> set ns. evicted (nd c n) then Inl TypeError
      else Inr (concat (map (\<lambda>n. the (tn_value (nd c n))) ns)))"

end
