(* ===== verification/Radix_Inv.thy ===== *)
theory Radix_Inv
  imports Radix_Tree "HOL-Library.Sublist"
begin

text \<open>
  The invariant of the prefix cache and its preservation by the operations that change the
  shape of the tree. The invariant speaks about a view of the cache that leaves out access
  times, priorities, hit counts, hashes, sessions and events; its ghost parameters are the
  set \<open>L\<close> of the nodes in the tree, the path \<open>P n\<close> of logical units from the root to a node,
  the slots \<open>V n\<close> along that path, and the multiset \<open>H\<close> of the nodes that requests hold.
\<close>

type_synonym units = "(string option \<times> lunit) list"

section \<open>The view\<close>

record tree_view =
  v_root :: nat
  v_ps :: nat
  v_counter :: nat
  v_children :: "nat \<Rightarrow> (child_key \<times> nat) list"
  v_parent :: "nat \<Rightarrow> nat option"
  v_key :: "nat \<Rightarrow> radix_key"
  v_value :: "nat \<Rightarrow> int list option"
  v_lock :: "nat \<Rightarrow> int"
  v_esize :: int
  v_psize :: int
  v_leaves :: "nat list"

definition view :: "radix_cache \<Rightarrow> tree_view" where
  "view c =
     \<lparr>v_root = root_node c, v_ps = rc_page_size c, v_counter = rc_counter c,
      v_children = (\<lambda>n. tn_children (nd c n)), v_parent = (\<lambda>n. tn_parent (nd c n)),
      v_key = (\<lambda>n. tn_key (nd c n)), v_value = (\<lambda>n. tn_value (nd c n)),
      v_lock = (\<lambda>n. lock_ref (nd c n)), v_esize = rc_evictable_size c,
      v_psize = rc_protected_size c, v_leaves = evictable_leaves c\<rparr>"

lemma view_sel [simp]:
  "v_root (view c) = root_node c" "v_ps (view c) = rc_page_size c" "v_counter (view c) = rc_counter c"
  "v_children (view c) n = tn_children (nd c n)" "v_parent (view c) n = tn_parent (nd c n)"
  "v_key (view c) n = tn_key (nd c n)" "v_value (view c) n = tn_value (nd c n)"
  "v_lock (view c) n = lock_ref (nd c n)" "v_esize (view c) = rc_evictable_size c"
  "v_psize (view c) = rc_protected_size c" "v_leaves (view c) = evictable_leaves c"
  by (simp_all add: view_def)

lemma view_touch [simp]: "view (touch t n c) = view c"
  by (simp add: view_def touch_def upd_node_def fun_eq_iff)

lemma view_monotonic [simp]: "view (snd (monotonic c)) = view c"
  by (simp add: view_def monotonic_def)

lemma view_bump [simp]:
  "view (upd_node n (\<lambda>x. inc_hit_count ch (x\<lparr>tn_priority := p x\<rparr>)) c) = view c"
  by (simp add: view_def upd_node_def fun_eq_iff inc_hit_count_def)

section \<open>The invariant\<close>

text \<open>A node \<open>n\<close> of the tree below its parent \<open>p\<close>.\<close>

definition edge :: "tree_view \<Rightarrow> (nat \<Rightarrow> units) \<Rightarrow> (nat \<Rightarrow> int list) \<Rightarrow> nat \<Rightarrow> nat \<Rightarrow> bool" where
  "edge v P V p n \<longleftrightarrow>
     v_parent v n = Some p \<and> P n = P p @ tunits (v_key v n) \<and>
     (\<exists>xs. v_value v n = Some xs \<and> length xs = rk_len (v_key v n) \<and> V n = V p @ xs) \<and>
     0 < rk_len (v_key v n) \<and> v_ps v dvd rk_len (v_key v n)"

definition kids_ok :: "tree_view \<Rightarrow> nat set \<Rightarrow> nat \<Rightarrow> bool" where
  "kids_ok v L n \<longleftrightarrow>
     distinct (map fst (v_children v n)) \<and>
     (\<forall>k m. map_of (v_children v n) k = Some m \<longleftrightarrow>
        m \<in> L \<and> m \<noteq> v_root v \<and> v_parent v m = Some n \<and> rk_child_key (v_key v m) (v_ps v) = Inr k)"

text \<open>Paths that share the first page below a node share its whole key.\<close>

definition trie :: "tree_view \<Rightarrow> nat set \<Rightarrow> (nat \<Rightarrow> units) \<Rightarrow> bool" where
  "trie v L P \<longleftrightarrow>
     (\<forall>n \<in> L - {v_root v}. \<forall>p. v_parent v n = Some p \<longrightarrow>
        (\<forall>m \<in> L. prefix (P p @ take (v_ps v) (tunits (v_key v n))) (P m) \<longrightarrow> prefix (P n) (P m)))"

definition tree_ok :: "tree_view \<Rightarrow> nat set \<Rightarrow> (nat \<Rightarrow> units) \<Rightarrow> (nat \<Rightarrow> int list) \<Rightarrow> bool" where
  "tree_ok v L P V \<longleftrightarrow>
     L \<subseteq> {..< v_counter v} \<and> v_root v \<in> L \<and> 0 < v_ps v \<and>
     P (v_root v) = [] \<and> V (v_root v) = [] \<and> v_value v (v_root v) = Some [] \<and>
     rk_len (v_key v (v_root v)) = 0 \<and>
     (\<forall>n \<in> L - {v_root v}. \<exists>p \<in> L. edge v P V p n) \<and>
     (\<forall>n \<in> L. kids_ok v L n) \<and> inj_on P L \<and> trie v L P"

definition below :: "(nat \<Rightarrow> units) \<Rightarrow> nat multiset \<Rightarrow> nat \<Rightarrow> nat" where
  "below P H n = size (filter_mset (\<lambda>h. prefix (P n) (P h)) H)"

definition key_size :: "tree_view \<Rightarrow> nat \<Rightarrow> int" where
  "key_size v n = int (rk_len (v_key v n))"

definition unlocked :: "tree_view \<Rightarrow> nat set \<Rightarrow> nat set" where
  "unlocked v L = {n \<in> L - {v_root v}. v_lock v n = 0}"

definition locked :: "tree_view \<Rightarrow> nat set \<Rightarrow> nat set" where
  "locked v L = {n \<in> L - {v_root v}. v_lock v n \<noteq> 0}"

definition locks_ok :: "tree_view \<Rightarrow> nat set \<Rightarrow> (nat \<Rightarrow> units) \<Rightarrow> nat multiset \<Rightarrow> bool" where
  "locks_ok v L P H \<longleftrightarrow>
     set_mset H \<subseteq> L \<and> 0 < v_lock v (v_root v) \<and>
     (\<forall>n \<in> L - {v_root v}. v_lock v n = int (below P H n))"

definition sizes_ok :: "tree_view \<Rightarrow> nat set \<Rightarrow> bool" where
  "sizes_ok v L \<longleftrightarrow>
     v_esize v = sum (key_size v) (unlocked v L) \<and> v_psize v = sum (key_size v) (locked v L)"

definition leaves_ok :: "tree_view \<Rightarrow> nat set \<Rightarrow> bool" where
  "leaves_ok v L \<longleftrightarrow>
     distinct (v_leaves v) \<and> set (v_leaves v) = {n \<in> unlocked v L. v_children v n = []}"

definition cache_ok ::
  "tree_view \<Rightarrow> nat set \<Rightarrow> (nat \<Rightarrow> units) \<Rightarrow> (nat \<Rightarrow> int list) \<Rightarrow> nat multiset \<Rightarrow> bool" where
  "cache_ok v L P V H \<longleftrightarrow> tree_ok v L P V \<and> locks_ok v L P H \<and> sizes_ok v L \<and> leaves_ok v L"

section \<open>Consequences of the invariant\<close>

lemma tree_ok_D:
  assumes "tree_ok v L P V"
  shows "L \<subseteq> {..< v_counter v}" "finite L" "v_root v \<in> L" "0 < v_ps v"
    "P (v_root v) = []" "V (v_root v) = []" "inj_on P L" "trie v L P"
    "\<And>n. n \<in> L \<Longrightarrow> kids_ok v L n"
  using assms finite_subset [of L "{..< v_counter v}"] by (auto simp: tree_ok_def)

lemma kids_map_of:
  assumes "tree_ok v L P V" "n \<in> L"
  shows "map_of (v_children v n) k = Some m \<longleftrightarrow>
    m \<in> L \<and> m \<noteq> v_root v \<and> v_parent v m = Some n \<and> rk_child_key (v_key v m) (v_ps v) = Inr k"
  using tree_ok_D(9) [OF assms] by (simp only: kids_ok_def)

lemma tree_ok_edge:
  assumes "tree_ok v L P V" "n \<in> L" "n \<noteq> v_root v"
  obtains p where "p \<in> L" "edge v P V p n"
proof -
  have "\<forall>n \<in> L - {v_root v}. \<exists>p \<in> L. edge v P V p n" using assms(1) by (simp add: tree_ok_def)
  with assms(2,3) that show thesis by blast
qed

lemma edge_P_less: "edge v P V p n \<Longrightarrow> length (P p) < length (P n)"
  by (simp add: edge_def)

lemma edge_ps_le: "edge v P V p n \<Longrightarrow> 0 < v_ps v \<Longrightarrow> v_ps v \<le> rk_len (v_key v n)"
  by (simp add: edge_def dvd_imp_le)

lemma page_induct [consumes 2, case_names root step]:
  assumes "tree_ok v L P V" "n \<in> L"
    and "Q (v_root v)"
    and "\<And>p n. p \<in> L \<Longrightarrow> n \<in> L \<Longrightarrow> n \<noteq> v_root v \<Longrightarrow> edge v P V p n \<Longrightarrow> Q p \<Longrightarrow> Q n"
  shows "Q n"
  using assms(2)
proof (induction "length (P n)" arbitrary: n rule: less_induct)
  case less
  show ?case
  proof (cases "n = v_root v")
    case False
    obtain p where p: "p \<in> L" "edge v P V p n" by (rule tree_ok_edge [OF assms(1) less.prems False])
    then show ?thesis using less False assms(4) edge_P_less by blast
  qed (simp add: assms(3))
qed

lemma length_V:
  assumes "tree_ok v L P V" "n \<in> L"
  shows "length (V n) = length (P n)"
  using assms(1,2,1)
proof (induction rule: page_induct)
  case root
  then show ?case by (simp add: tree_ok_D)
qed (auto simp: edge_def)

lemma dvd_P:
  assumes "tree_ok v L P V" "n \<in> L"
  shows "v_ps v dvd length (P n)"
  using assms(1,2,1)
proof (induction rule: page_induct)
  case root
  then show ?case by (simp add: tree_ok_D)
qed (auto simp: edge_def)

lemma trieD:
  assumes "tree_ok v L P V" "n \<in> L" "n \<noteq> v_root v" "edge v P V p n" "m \<in> L"
    "prefix (P p @ take (v_ps v) (tunits (v_key v n))) (P m)"
  shows "prefix (P n) (P m)"
proof -
  have "trie v L P" "v_parent v n = Some p" using assms(1,4) by (simp_all add: tree_ok_def edge_def)
  with assms(2,3,5,6) show ?thesis unfolding trie_def by blast
qed

lemma P_eq_root_iff:
  assumes "tree_ok v L P V" "n \<in> L"
  shows "P n = [] \<longleftrightarrow> n = v_root v"
  using assms tree_ok_D [OF assms(1)] by (metis inj_on_contraD)

text \<open>The path of a node that goes on below \<open>n\<close> enters through a child of \<open>n\<close>.\<close>

lemma child_exists:
  assumes ok: "tree_ok v L P V" and n: "n \<in> L" and m: "m \<in> L"
    and pre: "prefix (P n @ pg) (P m)" and pg: "length pg = v_ps v"
  shows "\<exists>k \<in> L. k \<noteq> v_root v \<and> v_parent v k = Some n \<and> edge v P V n k \<and> take (v_ps v) (tunits (v_key v k)) = pg"
  using ok m ok pre
proof (induction rule: page_induct)
  case root
  then show ?case using pg tree_ok_D [OF ok] by auto
next
  case (step q m)
  have ps: "0 < v_ps v" using tree_ok_D [OF ok] by simp
  have len: "length (P n) + v_ps v \<le> length (P m)"
    using prefix_length_le [OF step.prems(2)] pg by simp
  show ?case
  proof (cases "length (P n) + v_ps v \<le> length (P q)")
    case True
    have "prefix (P q) (P m)" using step.hyps(4) by (simp add: edge_def)
    from prefix_length_prefix [OF step.prems(2) this] have "prefix (P n @ pg) (P q)"
      using True pg by simp
    then show ?thesis using step.IH ok by simp
  next
    case False
    have "length (P q) \<le> length (P n)"
      using dvd_gap [OF dvd_P [OF ok n] dvd_P [OF ok step.hyps(1)]] False by linarith
    have qm: "P m = P q @ tunits (v_key v m)" "v_parent v m = Some q"
      using step.hyps(4) by (simp_all add: edge_def)
    show ?thesis
    proof (cases "length (P q) = length (P n)")
      case True
      from step.prems(2) obtain zs where "P m = P n @ (pg @ zs)" by (auto simp: prefix_def)
      with qm(1) True have eq: "P q = P n" "tunits (v_key v m) = pg @ zs"
        by (simp_all add: append_eq_append_conv)
      then have "q = n" using tree_ok_D [OF ok] step.hyps(1) n by (simp add: inj_onD)
      moreover have "take (v_ps v) (tunits (v_key v m)) = pg"
        using eq(2) pg by simp
      ultimately show ?thesis using step.hyps qm by blast
    next
      case False
      with \<open>length (P q) \<le> length (P n)\<close> have le: "length (P q) + v_ps v \<le> length (P n)"
        using dvd_gap [OF dvd_P [OF ok step.hyps(1)] dvd_P [OF ok n]] by linarith
      have "prefix (P q @ take (v_ps v) (tunits (v_key v m))) (P m)"
        by (simp add: qm(1) take_is_prefix)
      from prefix_length_prefix [OF this append_prefixD [OF step.prems(2)]] le
      have "prefix (P q @ take (v_ps v) (tunits (v_key v m))) (P n)" by simp
      then have "prefix (P m) (P n)" using trieD [OF ok step.hyps(2,3,4) n] by simp
      from prefix_length_le [OF this] show ?thesis using len ps by linarith
    qed
  qed
qed

section \<open>Splitting a node\<close>

text \<open>The node \<open>m\<close> below \<open>p\<close> is split after \<open>s\<close> units: \<open>x\<close> gets the first part.\<close>

definition split_view ::
  "tree_view \<Rightarrow> nat \<Rightarrow> nat \<Rightarrow> nat \<Rightarrow> int list \<Rightarrow> child_key \<Rightarrow> child_key \<Rightarrow> tree_view" where
  "split_view v p m s xs first_key suffix_key =
     (let x = v_counter v in
      v\<lparr>v_counter := Suc x,
        v_children := (v_children v)(x := [(suffix_key, m)], p := AList.update first_key x (v_children v p)),
        v_parent := (v_parent v)(x := Some p, m := Some x),
        v_key := (v_key v)(x := rk_upto (v_key v m) s, m := rk_from (v_key v m) s),
        v_value := (v_value v)(x := Some (take s xs), m := Some (drop s xs)),
        v_lock := (v_lock v)(x := v_lock v m)\<rparr>)"

lemma split_node_view:
  assumes "rk_child_key (tn_key (nd c m)) (rc_page_size c) = Inr fk"
    and "rk_child_key (rk_from (tn_key (nd c m)) s) (rc_page_size c) = Inr sk"
    and "tn_parent (nd c m) = Some p" "tn_value (nd c m) = Some xs"
    and "m \<noteq> rc_counter c" "p \<noteq> rc_counter c" "p \<noteq> m"
  shows "\<exists>c'. split_node (tn_key (nd c m)) m s c = Inr (rc_counter c, c') \<and>
    view c' = split_view (view c) p m s xs fk sk \<and> rc_disable c' = rc_disable c"
  using assms
  by (auto simp: split_node_def new_tree_node_def monotonic_def Let_def parent_of_def tensor_def
      split_view_def view_def upd_node_def fun_eq_iff split: prod.split)

definition splittable ::
  "tree_view \<Rightarrow> nat set \<Rightarrow> (nat \<Rightarrow> units) \<Rightarrow> (nat \<Rightarrow> int list) \<Rightarrow> nat \<Rightarrow> nat \<Rightarrow> nat \<Rightarrow> int list \<Rightarrow>
     child_key \<Rightarrow> child_key \<Rightarrow> bool" where
  "splittable v L P V p m s xs fk sk \<longleftrightarrow>
     tree_ok v L P V \<and> m \<in> L \<and> m \<noteq> v_root v \<and> p \<in> L \<and> edge v P V p m \<and> v_value v m = Some xs \<and>
     v_ps v dvd s \<and> 0 < s \<and> s < rk_len (v_key v m) \<and>
     rk_child_key (v_key v m) (v_ps v) = Inr fk \<and>
     rk_child_key (rk_from (v_key v m) s) (v_ps v) = Inr sk"

lemma rk_child_key_upto:
  assumes "0 < ps" "ps \<le> s" "s \<le> rk_len k"
  shows "rk_child_key (rk_upto k s) ps = rk_child_key k ps"
  using assms by (subst rk_child_key_eq_iff) (simp_all add: min_absorb1)

lemma parent_unique: "edge v P V p n \<Longrightarrow> v_parent v n = Some q \<Longrightarrow> q = p"
  by (simp add: edge_def)

lemma splittable_D:
  assumes "splittable v L P V p m s xs fk sk"
  shows "tree_ok v L P V" "m \<in> L" "m \<noteq> v_root v" "p \<in> L" "edge v P V p m" "v_value v m = Some xs"
    "v_ps v dvd s" "0 < s" "s < rk_len (v_key v m)" "rk_child_key (v_key v m) (v_ps v) = Inr fk"
    "rk_child_key (rk_from (v_key v m) s) (v_ps v) = Inr sk"
    "p \<noteq> m" "v_counter v \<notin> L" "v_counter v \<noteq> m" "v_counter v \<noteq> p" "v_counter v \<noteq> v_root v"
    "0 < v_ps v" "v_ps v \<le> s" "length xs = rk_len (v_key v m)" "V m = V p @ xs"
    "P m = P p @ tunits (v_key v m)" "v_parent v m = Some p" "v_root v \<in> L"
  using assms edge_P_less [of v P V p m] tree_ok_D [of v L P V]
  by (auto simp: splittable_def edge_def dvd_imp_le)

definition split_P :: "tree_view \<Rightarrow> (nat \<Rightarrow> units) \<Rightarrow> nat \<Rightarrow> nat \<Rightarrow> nat \<Rightarrow> nat \<Rightarrow> units" where
  "split_P v P p m s = P(v_counter v := P p @ take s (tunits (v_key v m)))"

definition split_V :: "tree_view \<Rightarrow> (nat \<Rightarrow> int list) \<Rightarrow> nat \<Rightarrow> nat \<Rightarrow> int list \<Rightarrow> nat \<Rightarrow> int list" where
  "split_V v V p s xs = V(v_counter v := V p @ take s xs)"

lemma split_edges:
  assumes "splittable v L P V p m s xs fk sk" "n \<in> insert (v_counter v) L" "n \<noteq> v_root v"
  shows "\<exists>q \<in> insert (v_counter v) L.
    edge (split_view v p m s xs fk sk) (split_P v P p m s) (split_V v V p s xs) q n"
proof -
  note D = splittable_D [OF assms(1)]
  let ?x = "v_counter v"
  consider "n = ?x" | "n = m" | "n \<in> L" "n \<noteq> m" "n \<noteq> ?x" using assms(2) by blast
  then show ?thesis
  proof cases
    case 1
    then have "edge (split_view v p m s xs fk sk) (split_P v P p m s) (split_V v V p s xs) p n"
      using D by (simp add: edge_def split_view_def split_P_def split_V_def Let_def min_absorb1)
    then show ?thesis using D by blast
  next
    case 2
    have "v_ps v dvd rk_len (v_key v m) - s" using D by (simp add: edge_def)
    with 2 have "edge (split_view v p m s xs fk sk) (split_P v P p m s) (split_V v V p s xs) ?x n"
      using D by (simp add: edge_def split_view_def split_P_def split_V_def Let_def)
    then show ?thesis by blast
  next
    case 3
    obtain q where q: "q \<in> L" "edge v P V q n" by (rule tree_ok_edge [OF D(1) 3(1) assms(3)])
    then have "q \<noteq> ?x" using D by auto
    with q 3 have "edge (split_view v p m s xs fk sk) (split_P v P p m s) (split_V v V p s xs) q n"
      by (simp add: edge_def split_view_def split_P_def split_V_def Let_def)
    with q show ?thesis by blast
  qed
qed

lemma split_kids:
  assumes sp: "splittable v L P V p m s xs fk sk" and n: "n \<in> insert (v_counter v) L"
  shows "kids_ok (split_view v p m s xs fk sk) (insert (v_counter v) L) n"
proof -
  note D = splittable_D [OF sp]
  let ?x = "v_counter v"
  have parents: "v_parent v y \<noteq> Some ?x" if "y \<in> L" "y \<noteq> v_root v" for y
    using tree_ok_edge [OF D(1) that] D(13) by (metis parent_unique)
  have up: "rk_child_key (rk_upto (v_key v m) s) (v_ps v) = Inr fk"
    using D by (simp add: rk_child_key_upto)
  have old: "kids_ok v L y" if "y \<in> L" for y using tree_ok_D [OF D(1)] that by simp
  consider "n = ?x" | "n = p" | "n = m" | "n \<in> L" "n \<noteq> m" "n \<noteq> ?x" "n \<noteq> p" using n by blast
  then show ?thesis
  proof cases
    case 1
    then show ?thesis using D parents
      by (auto simp: kids_ok_def split_view_def Let_def)
  next
    case 2
    have kp: "distinct (map fst (v_children v p))"
      "\<And>k y. map_of (v_children v p) k = Some y \<longleftrightarrow>
        y \<in> L \<and> y \<noteq> v_root v \<and> v_parent v y = Some p \<and> rk_child_key (v_key v y) (v_ps v) = Inr k"
      using old [OF D(4)] by (simp_all add: kids_ok_def)
    then have "map_of (v_children v p) fk = Some m" using D by simp
    then have m: "y = m" if "y \<in> L" "y \<noteq> v_root v" "v_parent v y = Some p"
        "rk_child_key (v_key v y) (v_ps v) = Inr fk" for y
      using kp(2) [of fk y] that by simp
    let ?v = "split_view v p m s xs fk sk"
    have "map_of (v_children ?v p) k = Some y \<longleftrightarrow>
        y \<in> insert ?x L \<and> y \<noteq> v_root ?v \<and> v_parent ?v y = Some p \<and> rk_child_key (v_key ?v y) (v_ps ?v) = Inr k"
      (is "?l \<longleftrightarrow> ?r") for k y
    proof -
      have l: "?l \<longleftrightarrow> (if k = fk then y = ?x else map_of (v_children v p) k = Some y)"
        by (auto simp: split_view_def Let_def update_conv')
      have "y = ?x \<Longrightarrow> ?r \<longleftrightarrow> k = fk" using up D(14-16) by (auto simp: split_view_def Let_def)
      moreover have "y = m \<Longrightarrow> \<not> ?r" using D(14,15) by (simp add: split_view_def Let_def)
      moreover have "y \<noteq> ?x \<Longrightarrow> y \<noteq> m \<Longrightarrow> ?r \<longleftrightarrow> map_of (v_children v p) k = Some y"
        by (simp add: kp(2) split_view_def Let_def)
      moreover have "map_of (v_children v p) k = Some ?x \<longleftrightarrow> False" using D(13) kp(2) by simp
      moreover have "map_of (v_children v p) k = Some m \<longleftrightarrow> k = fk" using kp(2) D by auto
      ultimately show ?thesis using l m kp(2) by (cases "y = ?x"; cases "y = m"; cases "k = fk") metis+
    qed
    then show ?thesis using 2 kp(1) D(15)
      by (simp add: kids_ok_def) (simp add: split_view_def Let_def distinct_update)
  next
    case 3
    then show ?thesis using D old [OF D(2)]
      by (auto simp: kids_ok_def split_view_def Let_def)
  next
    case 4
    then show ?thesis using D old [OF 4(1)]
      by (auto simp: kids_ok_def split_view_def Let_def)
  qed
qed

text \<open>In the old tree every path through the new boundary goes on to \<open>m\<close>.\<close>

lemma split_prefix:
  assumes sp: "splittable v L P V p m s xs fk sk" and h: "h \<in> L"
  shows "prefix (P p @ take s (tunits (v_key v m))) (P h) \<longleftrightarrow> prefix (P m) (P h)"
proof
  note D = splittable_D [OF sp]
  assume "prefix (P p @ take s (tunits (v_key v m))) (P h)"
  moreover have "prefix (P p @ take (v_ps v) (tunits (v_key v m))) (P p @ take s (tunits (v_key v m)))"
    using D(18) by (metis min.absorb1 same_prefix_prefix take_is_prefix take_take)
  ultimately show "prefix (P m) (P h)"
    using trieD [OF D(1,2,3,5) h] prefix_order.trans by blast
next
  assume "prefix (P m) (P h)"
  moreover have "prefix (P p @ take s (tunits (v_key v m))) (P m)"
    using splittable_D [OF sp] by (simp add: take_is_prefix)
  ultimately show "prefix (P p @ take s (tunits (v_key v m))) (P h)"
    using prefix_order.trans by blast
qed

lemma split_P_simps:
  assumes "splittable v L P V p m s xs fk sk"
  shows "split_P v P p m s (v_counter v) = P p @ take s (tunits (v_key v m))"
    "n \<in> L \<Longrightarrow> split_P v P p m s n = P n"
  using splittable_D [OF assms] by (auto simp: split_P_def)

lemma split_inj:
  assumes sp: "splittable v L P V p m s xs fk sk"
  shows "inj_on (split_P v P p m s) (insert (v_counter v) L)"
proof -
  note D = splittable_D [OF sp]
  have "P p @ take s (tunits (v_key v m)) \<noteq> P n" if "n \<in> L" for n
  proof
    assume eq: "P p @ take s (tunits (v_key v m)) = P n"
    then have "prefix (P m) (P n)" using split_prefix [OF sp that] by simp
    from prefix_length_le [OF this] show False
      using D by (simp flip: eq)
  qed
  moreover have "inj_on P L" using tree_ok_D [OF D(1)] by simp
  ultimately show ?thesis
    using D(13) split_P_simps [OF sp] by (simp add: inj_on_def) metis
qed

lemma split_trie:
  assumes sp: "splittable v L P V p m s xs fk sk"
  shows "trie (split_view v p m s xs fk sk) (insert (v_counter v) L) (split_P v P p m s)"
  unfolding trie_def
proof (intro ballI allI impI)
  note D = splittable_D [OF sp]
  let ?x = "v_counter v" and ?v = "split_view v p m s xs fk sk" and ?P = "split_P v P p m s"
  let ?bd = "P p @ take s (tunits (v_key v m))"
  note Ps = split_P_simps [OF sp]
  fix n q h
  assume n: "n \<in> insert ?x L - {v_root ?v}" and q: "v_parent ?v n = Some q" and h: "h \<in> insert ?x L"
    and pre: "prefix (?P q @ take (v_ps ?v) (tunits (v_key ?v n))) (?P h)"
  have to_m: "prefix (P p @ take (v_ps v) (tunits (v_key v m))) (P n) \<Longrightarrow> prefix (P n) (P m) \<Longrightarrow> n \<noteq> m \<Longrightarrow>
      n \<in> L \<Longrightarrow> False" for n
    using trieD [OF D(1,2,3,5)] tree_ok_D(7) [OF D(1)] D(2)
    by (metis inj_onD prefix_order.antisym)
  have bd: "prefix ?bd (P m)" using D by (simp add: take_is_prefix)
  have pbd: "prefix (P p @ take (v_ps v) (tunits (v_key v m))) ?bd"
    using D(18) by (metis min.absorb1 same_prefix_prefix take_is_prefix take_take)
  consider "n = ?x" | "n = m" | "n \<in> L" "n \<noteq> m" "n \<noteq> ?x" using n by blast
  then show "prefix (?P n) (?P h)"
  proof cases
    case 1
    then have "q = p" using q D by (simp add: split_view_def Let_def)
    with 1 pre D Ps have e: "prefix (P p @ take (v_ps v) (tunits (v_key v m))) (?P h)"
      by (simp add: split_view_def Let_def min_absorb1)
    show ?thesis
    proof (cases "h = ?x")
      case False
      then have "h \<in> L" using h by simp
      with e trieD [OF D(1,2,3,5), of h] Ps have "prefix (P m) (P h)" by simp
      then show ?thesis using split_prefix [OF sp \<open>h \<in> L\<close>] 1 Ps \<open>h \<in> L\<close> by simp
    qed (simp add: 1)
  next
    case 2
    then have q: "q = ?x" using q by (simp add: split_view_def Let_def)
    then have "prefix (?bd @ take (v_ps v) (drop s (tunits (v_key v m)))) (?P h)"
      using pre 2 Ps by (simp add: split_view_def Let_def)
    then have len: "prefix ?bd (?P h)" "s < length (?P h) - length (P p)"
      using append_prefixD prefix_length_le D(9,17) by (blast, fastforce)
    have "h \<noteq> ?x"
    proof
      assume "h = ?x"
      then show False using len D Ps by (simp add: min_absorb1)
    qed
    then have "h \<in> L" using h by simp
    then show ?thesis using len split_prefix [OF sp] Ps 2 D by simp
  next
    case 3
    then have nr: "n \<noteq> v_root v" using n by (simp add: split_view_def Let_def)
    obtain r where r: "r \<in> L" "edge v P V r n" by (rule tree_ok_edge [OF D(1) 3(1) nr])
    then have qr: "q = r" using q 3 by (simp add: split_view_def Let_def edge_def)
    have pre': "prefix (P r @ take (v_ps v) (tunits (v_key v n))) (?P h)"
      using pre 3 qr r Ps by (simp add: split_view_def Let_def)
    show ?thesis
    proof (cases "h = ?x")
      case False
      then show ?thesis using h pre' trieD [OF D(1) 3(1) nr r(2)] Ps 3 by simp
    next
      case True
      then have "prefix (P r @ take (v_ps v) (tunits (v_key v n))) (P m)"
        using pre' Ps bd prefix_order.trans by simp
      then have nm: "prefix (P n) (P m)" using trieD [OF D(1) 3(1) nr r(2) D(2)] by simp
      have "prefix (P n) ?bd"
      proof (rule ccontr)
        assume "\<not> prefix (P n) ?bd"
        then have "prefix ?bd (P n)" using prefix_same_cases [OF nm bd] by blast
        then show False using to_m [OF _ nm 3(2,1)] pbd prefix_order.trans by blast
      qed
      then show ?thesis using True 3 Ps by simp
    qed
  qed
qed

lemma split_tree_ok:
  assumes sp: "splittable v L P V p m s xs fk sk"
  shows "tree_ok (split_view v p m s xs fk sk) (insert (v_counter v) L) (split_P v P p m s) (split_V v V p s xs)"
proof -
  note D = splittable_D [OF sp]
  have "\<forall>n \<in> insert (v_counter v) L - {v_root v}. \<exists>q \<in> insert (v_counter v) L.
    edge (split_view v p m s xs fk sk) (split_P v P p m s) (split_V v V p s xs) q n"
    using split_edges [OF sp] by blast
  moreover have "L \<subseteq> {..< v_counter v}" "P (v_root v) = []" "V (v_root v) = []"
    "v_value v (v_root v) = Some []" "rk_len (v_key v (v_root v)) = 0"
    using D(1) by (simp_all add: tree_ok_def)
  moreover have "v_root (split_view v p m s xs fk sk) = v_root v" "v_ps (split_view v p m s xs fk sk) = v_ps v"
    "v_counter (split_view v p m s xs fk sk) = Suc (v_counter v)"
    "v_value (split_view v p m s xs fk sk) (v_root v) = v_value v (v_root v)"
    "v_key (split_view v p m s xs fk sk) (v_root v) = v_key v (v_root v)"
    using D(3,16) by (simp_all add: split_view_def Let_def)
  moreover have "split_P v P p m s (v_root v) = P (v_root v)" "split_V v V p s xs (v_root v) = V (v_root v)"
    using D(16) by (simp_all add: split_P_def split_V_def)
  ultimately show ?thesis
    using split_kids [OF sp] split_inj [OF sp] split_trie [OF sp] D(17,23)
    unfolding tree_ok_def by (simp add: subset_iff less_Suc_eq)
qed

lemma below_cong:
  assumes "set_mset H \<subseteq> L" "\<And>h. h \<in> L \<Longrightarrow> prefix (P n) (P h) \<longleftrightarrow> prefix (P' n') (P' h)"
  shows "below P H n = below P' H n'"
  unfolding below_def using assms by (intro arg_cong [where f = size] filter_mset_cong) auto

lemma split_locks:
  assumes sp: "splittable v L P V p m s xs fk sk" and ok: "locks_ok v L P H"
  shows "locks_ok (split_view v p m s xs fk sk) (insert (v_counter v) L) (split_P v P p m s) H"
proof -
  note D = splittable_D [OF sp]
  let ?x = "v_counter v" and ?v = "split_view v p m s xs fk sk" and ?P = "split_P v P p m s"
  note Ps = split_P_simps [OF sp]
  have H: "set_mset H \<subseteq> L" using ok by (simp add: locks_ok_def)
  have "v_lock ?v n = int (below ?P H n)" if "n \<in> insert ?x L" "n \<noteq> v_root v" for n
  proof (cases "n = ?x")
    case True
    have "below P H m = below ?P H ?x"
      using split_prefix [OF sp] Ps by (intro below_cong [OF H]) simp
    then show ?thesis using ok D True by (simp add: split_view_def Let_def locks_ok_def)
  next
    case False
    then have "n \<in> L" using that by simp
    then have "below P H n = below ?P H n" using Ps by (intro below_cong [OF H]) simp
    then show ?thesis using ok False that by (simp add: split_view_def Let_def locks_ok_def)
  qed
  then show ?thesis using ok D(16) by (auto simp: locks_ok_def split_view_def Let_def)
qed

lemma sum_split:
  fixes f g :: "nat \<Rightarrow> int"
  assumes "finite A" "m \<in> A" "x \<notin> A" "g x + g m = f m" "\<And>n. n \<in> A \<Longrightarrow> n \<noteq> m \<Longrightarrow> g n = f n"
  shows "sum g (insert x A) = sum f A"
proof -
  have "sum g (insert x A) = g x + (g m + sum g (A - {m}))"
    using assms(1-3) by (simp add: sum.remove)
  also have "sum g (A - {m}) = sum f (A - {m})" using assms(5) by (intro sum.cong) auto
  finally show ?thesis using assms(1,2,4) by (simp add: sum.remove [of A m f])
qed

lemma split_sizes:
  assumes sp: "splittable v L P V p m s xs fk sk" and ok: "sizes_ok v L"
  shows "sizes_ok (split_view v p m s xs fk sk) (insert (v_counter v) L)"
proof -
  note D = splittable_D [OF sp]
  let ?x = "v_counter v" and ?v = "split_view v p m s xs fk sk"
  have key: "key_size ?v ?x + key_size ?v m = key_size v m"
    "\<And>n. n \<noteq> ?x \<Longrightarrow> n \<noteq> m \<Longrightarrow> key_size ?v n = key_size v n"
    using D(9,14) by (simp_all add: key_size_def split_view_def Let_def min_absorb1)
  have fin: "finite L" using tree_ok_D [OF D(1)] by simp
  have sum: "sum (key_size ?v) B = sum (key_size v) A"
    if "A \<subseteq> L" "B = (if m \<in> A then insert ?x A else A)" for A B
  proof (cases "m \<in> A")
    case True
    have "finite A" "?x \<notin> A" using finite_subset [OF that(1) fin] D(13) that(1) by auto
    then have "sum (key_size ?v) (insert ?x A) = sum (key_size v) A"
      using True key by (intro sum_split [where m = m]) metis+
    with True that(2) show ?thesis by simp
  next
    case False
    with that D(13) show ?thesis by (auto intro!: sum.cong key(2))
  qed
  have "unlocked ?v (insert ?x L) = (if m \<in> unlocked v L then insert ?x (unlocked v L) else unlocked v L)"
    "locked ?v (insert ?x L) = (if m \<in> locked v L then insert ?x (locked v L) else locked v L)"
    using D(2,3,13,16) by (auto simp: unlocked_def locked_def split_view_def Let_def)
  then have "sum (key_size ?v) (unlocked ?v (insert ?x L)) = sum (key_size v) (unlocked v L)"
    "sum (key_size ?v) (locked ?v (insert ?x L)) = sum (key_size v) (locked v L)"
    by (intro sum; auto simp: unlocked_def locked_def)+
  then show ?thesis using ok by (simp add: sizes_ok_def) (simp add: split_view_def Let_def)
qed

lemma AList_update_not_Nil [simp]: "AList.update k x al \<noteq> []"
  by (cases al) auto

lemma kids_Nil_iff:
  assumes "kids_ok v L n"
  shows "v_children v n = [] \<longleftrightarrow>
    (\<forall>m k. \<not> (m \<in> L \<and> m \<noteq> v_root v \<and> v_parent v m = Some n \<and> rk_child_key (v_key v m) (v_ps v) = Inr k))"
proof -
  have "v_children v n = [] \<longleftrightarrow> (\<forall>k. map_of (v_children v n) k = None)"
    by (metis map_of_eq_empty_iff)
  also have "\<dots> \<longleftrightarrow> (\<forall>k m. map_of (v_children v n) k \<noteq> Some m)" by (metis not_Some_eq)
  finally show ?thesis using assms unfolding kids_ok_def by (metis (no_types))
qed

lemma split_leaves:
  assumes sp: "splittable v L P V p m s xs fk sk" and ok: "leaves_ok v L"
  shows "leaves_ok (split_view v p m s xs fk sk) (insert (v_counter v) L)"
proof -
  note D = splittable_D [OF sp]
  have "kids_ok v L p" using tree_ok_D [OF D(1)] D(4) by simp
  then have "map_of (v_children v p) fk = Some m" using D by (simp add: kids_ok_def)
  then have "v_children v p \<noteq> []" by auto
  then have "{n \<in> unlocked (split_view v p m s xs fk sk) (insert (v_counter v) L).
      v_children (split_view v p m s xs fk sk) n = []} = {n \<in> unlocked v L. v_children v n = []}"
    using D(13,15) by (auto simp: unlocked_def split_view_def Let_def)
  then show ?thesis using ok by (simp add: leaves_ok_def) (simp add: split_view_def Let_def)
qed

lemma split_cache_ok:
  assumes sp: "splittable v L P V p m s xs fk sk" and ok: "cache_ok v L P V H"
  shows "cache_ok (split_view v p m s xs fk sk) (insert (v_counter v) L)
    (split_P v P p m s) (split_V v V p s xs) H"
  using ok split_tree_ok [OF sp] split_locks [OF sp] split_sizes [OF sp] split_leaves [OF sp]
  by (simp add: cache_ok_def)

section \<open>Adding a leaf\<close>

definition leaf_view ::
  "tree_view \<Rightarrow> nat \<Rightarrow> radix_key \<Rightarrow> int list \<Rightarrow> child_key \<Rightarrow> tree_view" where
  "leaf_view v node key xs ck =
     (let x = v_counter v in
      v\<lparr>v_counter := Suc x,
        v_children := (v_children v)(x := [], node := AList.update ck x (v_children v node)),
        v_parent := (v_parent v)(x := Some node), v_key := (v_key v)(x := key),
        v_value := (v_value v)(x := Some xs), v_lock := (v_lock v)(x := 0),
        v_esize := v_esize v + int (rk_len key),
        v_leaves := set_add x (set_discard node (v_leaves v))\<rparr>)"

text \<open>\<open>key\<close> can be added below \<open>node\<close>: whole pages, and no child has its first page.\<close>

definition addable ::
  "tree_view \<Rightarrow> nat set \<Rightarrow> (nat \<Rightarrow> units) \<Rightarrow> (nat \<Rightarrow> int list) \<Rightarrow> nat \<Rightarrow> radix_key \<Rightarrow> int list \<Rightarrow> child_key \<Rightarrow> bool"
  where
  "addable v L P V node key xs ck \<longleftrightarrow>
     tree_ok v L P V \<and> node \<in> L \<and> 0 < rk_len key \<and> v_ps v dvd rk_len key \<and> length xs = rk_len key \<and>
     rk_child_key key (v_ps v) = Inr ck \<and> map_of (v_children v node) ck = None"

definition leaf_P :: "tree_view \<Rightarrow> (nat \<Rightarrow> units) \<Rightarrow> nat \<Rightarrow> radix_key \<Rightarrow> nat \<Rightarrow> units" where
  "leaf_P v P node key = P(v_counter v := P node @ tunits key)"

definition leaf_V :: "tree_view \<Rightarrow> (nat \<Rightarrow> int list) \<Rightarrow> nat \<Rightarrow> int list \<Rightarrow> nat \<Rightarrow> int list" where
  "leaf_V v V node xs = V(v_counter v := V node @ xs)"

lemma addable_D:
  assumes "addable v L P V node key xs ck"
  shows "tree_ok v L P V" "node \<in> L" "0 < rk_len key" "v_ps v dvd rk_len key" "length xs = rk_len key"
    "rk_child_key key (v_ps v) = Inr ck" "map_of (v_children v node) ck = None"
    "v_counter v \<notin> L" "v_counter v \<noteq> node" "v_counter v \<noteq> v_root v" "0 < v_ps v" "v_ps v \<le> rk_len key"
    "v_root v \<in> L"
  using assms tree_ok_D [of v L P V] by (auto simp: addable_def dvd_imp_le)

lemma leaf_P_simps:
  assumes "addable v L P V node key xs ck"
  shows "leaf_P v P node key (v_counter v) = P node @ tunits key" "n \<in> L \<Longrightarrow> leaf_P v P node key n = P n"
  using addable_D [OF assms] by (auto simp: leaf_P_def)

text \<open>No path of the tree continues below \<open>node\<close> with the first page of the new key.\<close>

lemma addable_fresh:
  assumes ad: "addable v L P V node key xs ck" and m: "m \<in> L"
  shows "\<not> prefix (P node @ take (v_ps v) (tunits key)) (P m)"
proof
  note D = addable_D [OF ad]
  assume "prefix (P node @ take (v_ps v) (tunits key)) (P m)"
  from child_exists [OF D(1,2) m this] D(12) obtain k where
    k: "k \<in> L" "k \<noteq> v_root v" "v_parent v k = Some node" "edge v P V node k"
      "take (v_ps v) (tunits (v_key v k)) = take (v_ps v) (tunits key)" by auto
  then have "rk_child_key (v_key v k) (v_ps v) = Inr ck"
    using D rk_child_key_eq_iff [OF D(11) edge_ps_le [OF k(4) D(11)] D(12)] by simp
  with k have "map_of (v_children v node) ck = Some k"
    by (simp add: kids_map_of [OF D(1,2)] del: map_of_eq_Some_iff)
  with D(7) show False by simp
qed

lemma leaf_edges:
  assumes ad: "addable v L P V node key xs ck" and n: "n \<in> insert (v_counter v) L" "n \<noteq> v_root v"
  shows "\<exists>q \<in> insert (v_counter v) L.
    edge (leaf_view v node key xs ck) (leaf_P v P node key) (leaf_V v V node xs) q n"
proof (cases "n = v_counter v")
  case True
  then have "edge (leaf_view v node key xs ck) (leaf_P v P node key) (leaf_V v V node xs) node n"
    using addable_D [OF ad] by (simp add: edge_def leaf_view_def leaf_P_def leaf_V_def Let_def)
  then show ?thesis using addable_D [OF ad] by blast
next
  case False
  note D = addable_D [OF ad]
  have nL: "n \<in> L" using n False by simp
  obtain q where q: "q \<in> L" "edge v P V q n" by (rule tree_ok_edge [OF D(1) nL n(2)])
  then have "q \<noteq> v_counter v" using D by auto
  with q False have "edge (leaf_view v node key xs ck) (leaf_P v P node key) (leaf_V v V node xs) q n"
    by (simp add: edge_def leaf_view_def leaf_P_def leaf_V_def Let_def)
  with q show ?thesis by blast
qed

lemma leaf_kids:
  assumes ad: "addable v L P V node key xs ck" and n: "n \<in> insert (v_counter v) L"
  shows "kids_ok (leaf_view v node key xs ck) (insert (v_counter v) L) n"
proof -
  note D = addable_D [OF ad]
  let ?x = "v_counter v" and ?v = "leaf_view v node key xs ck"
  have parents: "v_parent v y \<noteq> Some ?x" if "y \<in> L" "y \<noteq> v_root v" for y
    using tree_ok_edge [OF D(1) that] D(8) by (metis parent_unique)
  consider "n = ?x" | "n = node" | "n \<in> L" "n \<noteq> ?x" "n \<noteq> node" using n by blast
  then show ?thesis
  proof cases
    case 1
    then show ?thesis using D parents by (auto simp: kids_ok_def leaf_view_def Let_def)
  next
    case 2
    have kp: "distinct (map fst (v_children v node))"
      "\<And>k y. map_of (v_children v node) k = Some y \<longleftrightarrow>
        y \<in> L \<and> y \<noteq> v_root v \<and> v_parent v y = Some node \<and> rk_child_key (v_key v y) (v_ps v) = Inr k"
      using tree_ok_D(9) [OF D(1,2)] by (simp_all add: kids_ok_def)
    have "map_of (v_children ?v node) k = Some y \<longleftrightarrow>
        y \<in> insert ?x L \<and> y \<noteq> v_root ?v \<and> v_parent ?v y = Some node \<and> rk_child_key (v_key ?v y) (v_ps ?v) = Inr k"
      (is "?l \<longleftrightarrow> ?r") for k y
    proof -
      have l: "?l \<longleftrightarrow> (if k = ck then y = ?x else map_of (v_children v node) k = Some y)"
        by (auto simp: leaf_view_def Let_def update_conv')
      have "y = ?x \<Longrightarrow> ?r \<longleftrightarrow> k = ck" using D(6,10) by (auto simp: leaf_view_def Let_def)
      moreover have "y \<noteq> ?x \<Longrightarrow> ?r \<longleftrightarrow> map_of (v_children v node) k = Some y"
        by (simp add: kp(2) leaf_view_def Let_def)
      moreover have "map_of (v_children v node) k = Some ?x \<longleftrightarrow> False" using D(8) kp(2) by simp
      ultimately show ?thesis using l D(7) by (cases "y = ?x"; cases "k = ck") simp_all
    qed
    then show ?thesis using 2 kp(1) D(9)
      by (simp add: kids_ok_def) (simp add: leaf_view_def Let_def distinct_update)
  next
    case 3
    then show ?thesis using D tree_ok_D(9) [OF D(1) 3(1)]
      by (auto simp: kids_ok_def leaf_view_def Let_def)
  qed
qed

lemma leaf_inj:
  assumes ad: "addable v L P V node key xs ck"
  shows "inj_on (leaf_P v P node key) (insert (v_counter v) L)"
proof -
  note D = addable_D [OF ad]
  have "P node @ tunits key \<noteq> P n" if "n \<in> L" for n
  proof
    assume "P node @ tunits key = P n"
    then have "prefix (P node @ take (v_ps v) (tunits key)) (P n)"
      by (metis same_prefix_prefix take_is_prefix)
    then show False using addable_fresh [OF ad that] by simp
  qed
  moreover have "inj_on P L" using tree_ok_D [OF D(1)] by simp
  ultimately show ?thesis
    using D(8) leaf_P_simps [OF ad] by (simp add: inj_on_def) metis
qed

lemma leaf_trie:
  assumes ad: "addable v L P V node key xs ck"
  shows "trie (leaf_view v node key xs ck) (insert (v_counter v) L) (leaf_P v P node key)"
  unfolding trie_def
proof (intro ballI allI impI)
  note D = addable_D [OF ad]
  let ?x = "v_counter v" and ?v = "leaf_view v node key xs ck" and ?P = "leaf_P v P node key"
  note Ps = leaf_P_simps [OF ad]
  fix n q h
  assume n: "n \<in> insert ?x L - {v_root ?v}" and q: "v_parent ?v n = Some q" and h: "h \<in> insert ?x L"
    and pre: "prefix (?P q @ take (v_ps ?v) (tunits (v_key ?v n))) (?P h)"
  show "prefix (?P n) (?P h)"
  proof (cases "n = ?x")
    case True
    then have "q = node" using q by (simp add: leaf_view_def Let_def)
    with True pre D Ps have "prefix (P node @ take (v_ps v) (tunits key)) (?P h)"
      by (simp add: leaf_view_def Let_def)
    then have "h = ?x" using h addable_fresh [OF ad] Ps by auto
    with True show ?thesis by simp
  next
    case False
    then have nL: "n \<in> L" "n \<noteq> v_root v" using n by (simp_all add: leaf_view_def Let_def)
    obtain r where r: "r \<in> L" "edge v P V r n" by (rule tree_ok_edge [OF D(1) nL])
    then have qr: "q = r" using q False by (simp add: leaf_view_def Let_def edge_def)
    define pg where "pg = take (v_ps v) (tunits (v_key v n))"
    have pg: "length pg = v_ps v" using edge_ps_le [OF r(2) D(11)] by (simp add: pg_def min_absorb2)
    have pre': "prefix (P r @ pg) (?P h)"
      using pre False qr r Ps by (simp add: leaf_view_def Let_def pg_def)
    note trie = trieD [OF D(1) nL r(2), folded pg_def]
    show ?thesis
    proof (cases "h = ?x")
      case False
      then show ?thesis using h pre' trie Ps nL by simp
    next
      case True
      then have px: "prefix (P r @ pg) (P node @ tunits key)" using pre' Ps by simp
      have "length (P r) < length (P node)"
      proof (rule ccontr)
        assume "\<not> length (P r) < length (P node)"
        then have len: "length (P node) + v_ps v \<le> length (P r @ pg)" using pg by simp
        have "prefix (P node @ take (v_ps v) (tunits key)) (P node @ tunits key)"
          by (simp add: take_is_prefix)
        from prefix_length_prefix [OF this px] len
        have "prefix (P node @ take (v_ps v) (tunits key)) (P r @ pg)" by simp
        moreover have "prefix (P r @ pg) (P n)" using r(2) by (simp add: edge_def pg_def take_is_prefix)
        ultimately show False using addable_fresh [OF ad nL(1)] prefix_order.trans by blast
      qed
      then have "length (P r @ pg) \<le> length (P node)"
        using dvd_gap [OF dvd_P [OF D(1) r(1)] dvd_P [OF D(1,2)]] pg by simp
      then have "prefix (P r @ pg) (P node)" using prefix_length_prefix [OF px] by simp
      then have "prefix (P n) (P node)" using trie D(2) by simp
      then show ?thesis using True Ps nL by (simp add: prefix_prefix)
    qed
  qed
qed

lemma leaf_tree_ok:
  assumes ad: "addable v L P V node key xs ck"
  shows "tree_ok (leaf_view v node key xs ck) (insert (v_counter v) L) (leaf_P v P node key) (leaf_V v V node xs)"
proof -
  note D = addable_D [OF ad]
  let ?v = "leaf_view v node key xs ck"
  have "\<forall>n \<in> insert (v_counter v) L - {v_root v}. \<exists>q \<in> insert (v_counter v) L.
    edge ?v (leaf_P v P node key) (leaf_V v V node xs) q n"
    using leaf_edges [OF ad] by blast
  moreover have "L \<subseteq> {..< v_counter v}" "P (v_root v) = []" "V (v_root v) = []"
    "v_value v (v_root v) = Some []" "rk_len (v_key v (v_root v)) = 0"
    using D(1) by (simp_all add: tree_ok_def)
  moreover have "v_root ?v = v_root v" "v_ps ?v = v_ps v" "v_counter ?v = Suc (v_counter v)"
    "v_value ?v (v_root v) = v_value v (v_root v)" "v_key ?v (v_root v) = v_key v (v_root v)"
    using D(10) by (simp_all add: leaf_view_def Let_def)
  moreover have "leaf_P v P node key (v_root v) = P (v_root v)" "leaf_V v V node xs (v_root v) = V (v_root v)"
    using D(10) by (simp_all add: leaf_P_def leaf_V_def)
  ultimately show ?thesis
    using leaf_kids [OF ad] leaf_inj [OF ad] leaf_trie [OF ad] D(11,13)
    unfolding tree_ok_def by (simp add: subset_iff less_Suc_eq)
qed

lemma leaf_locks:
  assumes ad: "addable v L P V node key xs ck" and ok: "locks_ok v L P H"
  shows "locks_ok (leaf_view v node key xs ck) (insert (v_counter v) L) (leaf_P v P node key) H"
proof -
  note D = addable_D [OF ad]
  let ?x = "v_counter v" and ?v = "leaf_view v node key xs ck" and ?P = "leaf_P v P node key"
  note Ps = leaf_P_simps [OF ad]
  have H: "set_mset H \<subseteq> L" using ok by (simp add: locks_ok_def)
  have "\<not> prefix (P node @ tunits key) (P h)" if "h \<in> L" for h
    using addable_fresh [OF ad that] by (metis prefix_order.trans same_prefix_prefix take_is_prefix)
  then have "filter_mset (\<lambda>h. prefix (?P ?x) (?P h)) H = {#}"
    using H Ps by (auto simp: subset_iff)
  then have "v_lock ?v n = int (below ?P H n)" if "n \<in> insert ?x L" "n \<noteq> v_root v" for n
  proof (cases "n = ?x")
    case False
    then have "n \<in> L" using that by simp
    then have "below P H n = below ?P H n" using Ps by (intro below_cong [OF H]) simp
    then show ?thesis using ok False that by (simp add: leaf_view_def Let_def locks_ok_def)
  qed (simp add: leaf_view_def Let_def below_def)
  then show ?thesis using ok D(10) by (auto simp: locks_ok_def leaf_view_def Let_def)
qed

lemma leaf_sizes:
  assumes ad: "addable v L P V node key xs ck" and ok: "sizes_ok v L"
  shows "sizes_ok (leaf_view v node key xs ck) (insert (v_counter v) L)"
proof -
  note D = addable_D [OF ad]
  let ?x = "v_counter v" and ?v = "leaf_view v node key xs ck"
  have fin: "finite L" using tree_ok_D [OF D(1)] by simp
  have k: "key_size ?v ?x = int (rk_len key)" "\<And>n. n \<in> L \<Longrightarrow> key_size ?v n = key_size v n"
    using D(8) by (auto simp: key_size_def leaf_view_def Let_def)
  have "unlocked ?v (insert ?x L) = insert ?x (unlocked v L)" "locked ?v (insert ?x L) = locked v L"
    "?x \<notin> unlocked v L" "finite (unlocked v L)" "unlocked v L \<subseteq> L" "locked v L \<subseteq> L"
    using D(8,10) fin by (auto simp: unlocked_def locked_def leaf_view_def Let_def)
  moreover have "sum (key_size ?v) A = sum (key_size v) A" if "A \<subseteq> L" for A
    using that k(2) by (intro sum.cong) auto
  ultimately show ?thesis using ok k(1) by (simp add: sizes_ok_def) (simp add: leaf_view_def Let_def)
qed

lemma set_discard_simps [simp]:
  "set (set_discard x xs) = set xs - {x}" "distinct xs \<Longrightarrow> distinct (set_discard x xs)"
  by (auto simp: set_discard_def)

lemma set_add_simps [simp]:
  "set (set_add x xs) = insert x (set xs)" "distinct xs \<Longrightarrow> distinct (set_add x xs)"
  by (auto simp: set_add_def)

lemma leaf_leaves:
  assumes ad: "addable v L P V node key xs ck" and ok: "leaves_ok v L"
  shows "leaves_ok (leaf_view v node key xs ck) (insert (v_counter v) L)"
proof -
  note D = addable_D [OF ad]
  have "{n \<in> unlocked (leaf_view v node key xs ck) (insert (v_counter v) L).
      v_children (leaf_view v node key xs ck) n = []} =
    insert (v_counter v) ({n \<in> unlocked v L. v_children v n = []} - {node})"
    using D(8-10) by (auto simp: unlocked_def leaf_view_def Let_def)
  then show ?thesis using ok by (simp add: leaves_ok_def) (simp add: leaf_view_def Let_def)
qed

lemma leaf_cache_ok:
  assumes ad: "addable v L P V node key xs ck" and ok: "cache_ok v L P V H"
  shows "cache_ok (leaf_view v node key xs ck) (insert (v_counter v) L)
    (leaf_P v P node key) (leaf_V v V node xs) H"
  using ok leaf_tree_ok [OF ad] leaf_locks [OF ad] leaf_sizes [OF ad] leaf_leaves [OF ad]
  by (simp add: cache_ok_def)

end
