(* ===== verification/Radix_Match.thy ===== *)
theory Radix_Match
  imports Radix_Inv
begin

text \<open>
  \<^verbatim>\<open>match_prefix\<close> and \<^verbatim>\<open>insert\<close>: both walk down the tree, split at most one node and end at the
  node of the longest cached prefix of whole pages; neither raises. What the cache holds is a
  set of pairs of a path and its slots, \<open>entries\<close>: a match leaves it as it is, an insert adds
  the prefixes of the inserted key.
\<close>

section \<open>What the cache holds\<close>

definition entries :: "nat set \<Rightarrow> (nat \<Rightarrow> units) \<Rightarrow> (nat \<Rightarrow> int list) \<Rightarrow> (units \<times> int list) set" where
  "entries L P V = {(take k (P n), take k (V n)) | n k. n \<in> L}"

text \<open>The same set without ghosts: follow the children from the root.\<close>

inductive reaches :: "radix_cache \<Rightarrow> nat \<Rightarrow> units \<Rightarrow> int list \<Rightarrow> bool" for c where
  at_root: "reaches c (root_node c) [] []"
| to_child: "reaches c n u w \<Longrightarrow> (k, m) \<in> set (tn_children (nd c n)) \<Longrightarrow> tn_value (nd c m) = Some xs \<Longrightarrow>
    reaches c m (u @ tunits (tn_key (nd c m))) (w @ xs)"

definition cached :: "radix_cache \<Rightarrow> (units \<times> int list) set" where
  "cached c = {(take k u, take k w) | n u w k. reaches c n u w}"

lemma children_iff:
  assumes "tree_ok v L P V" "n \<in> L"
  shows "(\<exists>k. (k, m) \<in> set (v_children v n)) \<longleftrightarrow> m \<in> L \<and> m \<noteq> v_root v \<and> v_parent v m = Some n"
proof -
  have d: "distinct (map fst (v_children v n))" using tree_ok_D(9) [OF assms] by (simp add: kids_ok_def)
  have "\<exists>k. rk_child_key (v_key v m) (v_ps v) = Inr k" if m: "m \<in> L" "m \<noteq> v_root v"
  proof -
    obtain p where "p \<in> L" "edge v P V p m" by (rule tree_ok_edge [OF assms(1) m])
    then show ?thesis using rk_child_key_eq edge_ps_le tree_ok_D(4) [OF assms(1)] by metis
  qed
  moreover have "(\<exists>k. (k, m) \<in> set (v_children v n)) \<longleftrightarrow> (\<exists>k. map_of (v_children v n) k = Some m)"
    using d by simp
  ultimately show ?thesis using kids_map_of [OF assms] by blast
qed

lemma reaches_iff:
  assumes ok: "tree_ok (view c) L P V"
  shows "reaches c n u w \<longleftrightarrow> n \<in> L \<and> u = P n \<and> w = V n"
proof
  assume "reaches c n u w"
  then show "n \<in> L \<and> u = P n \<and> w = V n"
  proof induction
    case at_root
    then show ?case using tree_ok_D [OF ok] by simp
  next
    case (to_child n u w k m xs)
    then have m: "m \<in> L" "m \<noteq> v_root (view c)" "v_parent (view c) m = Some n"
      using children_iff [OF ok, of n m] by auto
    obtain p where p: "p \<in> L" "edge (view c) P V p m" by (rule tree_ok_edge [OF ok m(1,2)])
    then have "p = n" using m(3) by (simp add: edge_def)
    then show ?case using p m to_child by (auto simp: edge_def)
  qed
next
  assume n: "n \<in> L \<and> u = P n \<and> w = V n"
  from ok n [THEN conjunct1] have "reaches c n (P n) (V n)"
  proof (induction rule: page_induct)
    case root
    then show ?case using tree_ok_D [OF ok] reaches.at_root [of c] by simp
  next
    case (step p n)
    then have "\<exists>k. (k, n) \<in> set (v_children (view c) p)"
      using children_iff [OF ok, of p n] by (simp add: edge_def)
    with step show ?case using reaches.to_child [of c p] by (auto simp: edge_def)
  qed
  then show "reaches c n u w" using n by simp
qed

lemma cached_eq: "tree_ok (view c) L P V \<Longrightarrow> cached c = entries L P V"
  by (auto simp: cached_def entries_def reaches_iff)

lemma entries_I: "n \<in> L \<Longrightarrow> (take k (P n), take k (V n)) \<in> entries L P V"
  by (auto simp: entries_def)

lemma entries_insert:
  "entries (insert x L) P V = entries L P V \<union> {(take k (P x), take k (V x)) | k. True}"
  by (auto simp: entries_def)

lemma entries_cong:
  "(\<And>n. n \<in> L \<Longrightarrow> P n = P' n \<and> V n = V' n) \<Longrightarrow> entries L P V = entries L P' V'"
  by (auto simp: entries_def) metis+

lemma split_entries:
  assumes sp: "splittable v L P V p m s xs fk sk"
  shows "entries (insert (v_counter v) L) (split_P v P p m s) (split_V v V p s xs) = entries L P V"
proof -
  note D = splittable_D [OF sp]
  let ?x = "v_counter v" and ?P = "split_P v P p m s" and ?V = "split_V v V p s xs"
  have old: "entries L ?P ?V = entries L P V"
    using D(13) by (intro entries_cong) (auto simp: split_P_def split_V_def)
  have len: "length (V p) = length (P p)" using length_V [OF D(1,4)] .
  have x: "?P ?x = take (length (P p) + s) (P m)" "?V ?x = take (length (P p) + s) (V m)"
    using D(20,21) len by (simp_all add: split_P_def split_V_def)
  have "(take k (?P ?x), take k (?V ?x)) \<in> entries L P V" for k
    using D(2) by (auto simp: entries_def x)
  then show ?thesis using old by (auto simp: entries_insert)
qed

lemma leaf_entries:
  assumes ad: "addable v L P V node key xs ck"
  shows "entries (insert (v_counter v) L) (leaf_P v P node key) (leaf_V v V node xs) =
    entries L P V \<union> {(take k (P node @ tunits key), take k (V node @ xs)) | k. True}"
proof -
  have "entries L (leaf_P v P node key) (leaf_V v V node xs) = entries L P V"
    using addable_D(8) [OF ad] by (intro entries_cong) (auto simp: leaf_P_def leaf_V_def)
  then show ?thesis by (simp add: entries_insert) (simp add: leaf_P_def leaf_V_def)
qed

section \<open>One step down the tree\<close>

text \<open>A walk that finds no further child stands at the longest cached prefix.\<close>

lemma stuck_max:
  assumes ok: "tree_ok v L P V" and node: "node \<in> L" and al: "v_ps v dvd rk_len key"
    and stuck: "rk_len key = 0 \<or> rk_child_key key (v_ps v) = Inr ck \<and> map_of (v_children v node) ck = None"
    and n: "n \<in> L"
  shows "page_floor (v_ps v) (lcp_len (P node @ tunits key) (P n)) \<le> length (P node)"
proof (rule ccontr)
  let ?l = "lcp_len (P node @ tunits key) (P n)"
  assume neg: "\<not> page_floor (v_ps v) ?l \<le> length (P node)"
  then have "length (P node) + v_ps v \<le> page_floor (v_ps v) ?l"
    using dvd_gap [OF dvd_P [OF ok node] page_floor_dvd] by simp
  then have l: "length (P node) + v_ps v \<le> ?l" using page_floor_le le_trans by blast
  moreover have "?l \<le> length (P node) + rk_len key"
    by (metis lcp_len_le(1) length_append length_tunits)
  ultimately have key: "v_ps v \<le> rk_len key" by simp
  have "take (length (P node) + v_ps v) (P node @ tunits key) = take (length (P node) + v_ps v) (P n)"
    using l by (rule take_lcp_len)
  then have "P node @ take (v_ps v) (tunits key) = take (length (P node) + v_ps v) (P n)" by simp
  then have pre: "prefix (P node @ take (v_ps v) (tunits key)) (P n)"
    by (metis take_is_prefix)
  have ps: "0 < v_ps v" using tree_ok_D [OF ok] by simp
  with key stuck al have "addable v L P V node key (replicate (rk_len key) 0) ck"
    using ok node by (auto simp: addable_def)
  then show False using addable_fresh [OF _ n] pre by blast
qed

definition match_step :: "tree_view \<Rightarrow> radix_key \<Rightarrow> nat \<Rightarrow> nat" where
  "match_step v key m = page_floor (v_ps v) (lcp_len (tunits (v_key v m)) (tunits key))"

lemma step_facts:
  assumes ok: "tree_ok v L P V" and node: "node \<in> L" and al: "v_ps v dvd rk_len key"
    and key: "0 < rk_len key" and ck: "rk_child_key key (v_ps v) = Inr ck"
    and ch: "map_of (v_children v node) ck = Some m"
  defines "s \<equiv> match_step v key m"
  shows "m \<in> L" "m \<noteq> v_root v" "edge v P V node m" "rk_match (v_key v m) key (v_ps v) = Inr s"
    "v_ps v \<le> s" "v_ps v dvd s" "s \<le> rk_len key" "s \<le> rk_len (v_key v m)"
    "take s (tunits (v_key v m)) = take s (tunits key)" "rk_child_key (v_key v m) (v_ps v) = Inr ck"
proof -
  have ps: "0 < v_ps v" using tree_ok_D [OF ok] by simp
  have m: "m \<in> L" "m \<noteq> v_root v" "v_parent v m = Some node" "rk_child_key (v_key v m) (v_ps v) = Inr ck"
    using ch kids_map_of [OF ok node, of ck m] by blast+
  then show "m \<in> L" "m \<noteq> v_root v" "rk_child_key (v_key v m) (v_ps v) = Inr ck" by simp_all
  obtain p where p: "p \<in> L" "edge v P V p m" by (rule tree_ok_edge [OF ok m(1,2)])
  then show e: "edge v P V node m" using m(3) by (simp add: edge_def)
  have len: "v_ps v \<le> rk_len (v_key v m)" "v_ps v \<le> rk_len key"
    using edge_ps_le [OF e ps] al key by (simp_all add: dvd_imp_le)
  have eq: "rk_child_key (v_key v m) (v_ps v) = rk_child_key key (v_ps v)" using m(4) ck by simp
  then have "take (v_ps v) (tunits (v_key v m)) = take (v_ps v) (tunits key)"
    using rk_child_key_eq_iff [OF ps len] by simp
  then have "v_ps v \<le> lcp_len (tunits (v_key v m)) (tunits key)"
    using len by (simp add: le_lcp_len_iff)
  then show "v_ps v \<le> s" using le_page_floor_iff [of "v_ps v" "v_ps v"] by (simp add: s_def match_step_def)
  show "rk_match (v_key v m) key (v_ps v) = Inr s"
    using rk_match_lcp rk_child_key_sameD [OF eq ps len] ps by (simp add: s_def match_step_def)
  have "s \<le> lcp_len (tunits (v_key v m)) (tunits key)" by (simp add: s_def match_step_def)
  then show "s \<le> rk_len key" "s \<le> rk_len (v_key v m)" "take s (tunits (v_key v m)) = take s (tunits key)"
    by (auto simp: le_lcp_len_iff)
  show "v_ps v dvd s" by (simp add: s_def match_step_def)
qed

text \<open>Below the boundary of a split the old child and the rest of the key differ in the first page.\<close>

lemma step_differs:
  assumes ok: "tree_ok v L P V" and node: "node \<in> L" and al: "v_ps v dvd rk_len key"
    and key: "0 < rk_len key" and ck: "rk_child_key key (v_ps v) = Inr ck"
    and ch: "map_of (v_children v node) ck = Some m"
  defines "s \<equiv> match_step v key m"
  assumes s: "s < rk_len (v_key v m)"
  shows "\<exists>sk. rk_child_key (rk_from (v_key v m) s) (v_ps v) = Inr sk"
    and "s < rk_len key \<Longrightarrow> rk_child_key (rk_from (v_key v m) s) (v_ps v) \<noteq> rk_child_key (rk_from key s) (v_ps v)"
proof -
  note F = step_facts [OF ok node al key ck ch, folded s_def]
  have ps: "0 < v_ps v" using tree_ok_D [OF ok] by simp
  have len: "s + v_ps v \<le> rk_len (v_key v m)"
    using dvd_gap [OF F(6) _ s] F(3) by (simp add: edge_def)
  then show "\<exists>sk. rk_child_key (rk_from (v_key v m) s) (v_ps v) = Inr sk"
    using rk_child_key_eq [OF ps, of "rk_from (v_key v m) s"] by simp
  assume "s < rk_len key"
  then have len': "s + v_ps v \<le> rk_len key" using dvd_gap [OF F(6) al] by simp
  show "rk_child_key (rk_from (v_key v m) s) (v_ps v) \<noteq> rk_child_key (rk_from key s) (v_ps v)"
  proof
    assume "rk_child_key (rk_from (v_key v m) s) (v_ps v) = rk_child_key (rk_from key s) (v_ps v)"
    then have "take (v_ps v) (drop s (tunits (v_key v m))) = take (v_ps v) (drop s (tunits key))"
      using rk_child_key_eq_iff [OF ps, of "rk_from (v_key v m) s" "rk_from key s"] len len' by simp
    then have "take (s + v_ps v) (tunits (v_key v m)) = take (s + v_ps v) (tunits key)"
      using F(9) by (simp add: take_add)
    then have "s + v_ps v \<le> lcp_len (tunits (v_key v m)) (tunits key)"
      using len len' by (simp add: le_lcp_len_iff)
    moreover have "v_ps v dvd s + v_ps v" using F(6) by simp
    ultimately have "s + v_ps v \<le> s" unfolding s_def match_step_def by (simp only: le_page_floor_iff)
    then show False using ps by simp
  qed
qed

section \<open>The invariant of the cache\<close>

text \<open>What the operations never change, and what matching and inserting leave to the sessions.\<close>

definition conf where
  "conf c = (root_node c, rc_page_size c, rc_disable c, is_eagle c, disable_finished_insert c,
     enable_kv_cache_events c, enable_session_radix_cache c, rc_strategy c, rc_clock c, rc_hash c)"

definition frame :: "nat set \<Rightarrow> radix_cache \<Rightarrow> radix_cache \<Rightarrow> bool" where
  "frame L c c' \<longleftrightarrow>
     conf c' = conf c \<and> session_leaves c' = session_leaves c \<and>
     closed_session_ids c' = closed_session_ids c \<and>
     (\<forall>n \<in> L. session_ids (nd c' n) = session_ids (nd c n))"

lemma frame_refl [simp]: "frame L c c"
  by (simp add: frame_def)

lemma frame_trans: "frame L c c' \<Longrightarrow> frame L' c' c'' \<Longrightarrow> L \<subseteq> L' \<Longrightarrow> frame L c c''"
  by (auto simp: frame_def)

lemma conf_D:
  assumes "conf c' = conf c"
  shows "root_node c' = root_node c" "rc_page_size c' = rc_page_size c" "rc_disable c' = rc_disable c"
    "is_eagle c' = is_eagle c" "enable_kv_cache_events c' = enable_kv_cache_events c"
    "enable_session_radix_cache c' = enable_session_radix_cache c" "rc_hash c' = rc_hash c"
    "disable_finished_insert c' = disable_finished_insert c" "rc_strategy c' = rc_strategy c"
  using assms by (simp_all add: conf_def)

text \<open>
  With events enabled the recorded hashes must be one hexadecimal string per page. The native
  hash is asked for the same.
\<close>

definition valid_hash :: "string \<Rightarrow> bool" where
  "valid_hash h \<longleftrightarrow> (\<exists>v. hash_str_to_int64 h = Inr v)"

definition page_hashes :: "nat \<Rightarrow> radix_key \<Rightarrow> string list \<Rightarrow> bool" where
  "page_hashes ps k hs \<longleftrightarrow> length hs = rk_len k div ps \<and> (\<forall>h \<in> set hs. valid_hash h)"

definition native_hash_ok :: "radix_cache \<Rightarrow> bool" where
  "native_hash_ok c \<longleftrightarrow>
     (\<forall>k h. rc_page_size c dvd rk_len k \<longrightarrow> page_hashes (rc_page_size c) k (rc_hash c k h (rc_page_size c)))"

definition events_ok :: "radix_cache \<Rightarrow> nat set \<Rightarrow> bool" where
  "events_ok c L \<longleftrightarrow>
     (enable_kv_cache_events c \<longrightarrow>
        native_hash_ok c \<and>
        (\<forall>n \<in> L. \<forall>hs. hash_value (nd c n) = Some hs \<longrightarrow> page_hashes (rc_page_size c) (tn_key (nd c n)) hs))"

definition cinv ::
  "radix_cache \<Rightarrow> nat set \<Rightarrow> (nat \<Rightarrow> units) \<Rightarrow> (nat \<Rightarrow> int list) \<Rightarrow> nat multiset \<Rightarrow> bool" where
  "cinv c L P V H \<longleftrightarrow> cache_ok (view c) L P V H \<and> events_ok c L"

lemma cinv_tree: "cinv c L P V H \<Longrightarrow> tree_ok (view c) L P V"
  by (simp add: cinv_def cache_ok_def)

lemma view_key_eq: "view c' = view c \<Longrightarrow> tn_key (nd c' n) = tn_key (nd c n)"
  by (metis view_sel(6))

lemma cinv_cong:
  assumes "view c' = view c" "conf c' = conf c" "\<And>n. hash_value (nd c' n) = hash_value (nd c n)"
  shows "cinv c' L P V H \<longleftrightarrow> cinv c L P V H"
  using assms(1,3) conf_D [OF assms(2)] view_key_eq [OF assms(1)]
  by (simp add: cinv_def events_ok_def native_hash_ok_def)

lemma cinv_touch [simp]: "cinv (touch t n c) L P V H \<longleftrightarrow> cinv c L P V H"
  by (rule cinv_cong) (simp, simp_all add: conf_def touch_def upd_node_def)

lemma cinv_monotonic [simp]: "cinv (snd (monotonic c)) L P V H \<longleftrightarrow> cinv c L P V H"
  by (rule cinv_cong) (simp, simp_all add: conf_def monotonic_def)

lemma cinv_bump [simp]:
  "cinv (upd_node n (\<lambda>x. inc_hit_count ch (x\<lparr>tn_priority := p x\<rparr>)) c) L P V H \<longleftrightarrow> cinv c L P V H"
  by (rule cinv_cong) (simp, simp_all add: conf_def upd_node_def inc_hit_count_def)

lemma frame_touch [simp]: "frame L c (touch t n c)" "frame L c (snd (monotonic c))"
  "frame L c (upd_node n (\<lambda>x. inc_hit_count ch (x\<lparr>tn_priority := p x\<rparr>)) c)"
  by (simp_all add: frame_def conf_def touch_def upd_node_def monotonic_def inc_hit_count_def)

lemma page_hashes_split:
  assumes "page_hashes ps k hs" "ps dvd s" "s \<le> rk_len k" "0 < ps"
  shows "page_hashes ps (rk_upto k s) (take (s div ps) hs)" "page_hashes ps (rk_from k s) (drop (s div ps) hs)"
proof -
  have "s div ps \<le> rk_len k div ps" using assms(3) by (rule div_le_mono)
  moreover have "(rk_len k - s) div ps = rk_len k div ps - s div ps"
  proof -
    obtain q where q: "s = q * ps" using assms(2) by (metis dvd_div_mult_self)
    then have "rk_len k = (rk_len k - s) + q * ps" using assms(3) by simp
    then have "rk_len k div ps = q + (rk_len k - s) div ps"
      using assms(4) by (metis div_mult_self1 less_numeral_extra(3))
    then show ?thesis using q assms(4) by simp
  qed
  ultimately show "page_hashes ps (rk_upto k s) (take (s div ps) hs)" "page_hashes ps (rk_from k s) (drop (s div ps) hs)"
    using assms(1,3) by (auto simp: page_hashes_def min_absorb1 dest: in_set_takeD in_set_dropD)
qed

lemma split_node_shape:
  assumes "split_node k m s c = Inr (x, c')"
  obtains f g h t1 t2 pr p where
    "c' = upd_node p f (upd_node m g (upd_node (rc_counter c) h
       (c\<lparr>rc_ticks := Suc (Suc (rc_ticks c)), rc_nodes := (rc_nodes c)(rc_counter c := TreeNode t1 t2 pr),
          rc_counter := Suc (rc_counter c)\<rparr>)))"
    "\<And>n. session_ids (f n) = session_ids n" "\<And>n. session_ids (g n) = session_ids n"
    "\<And>n. session_ids (h n) = session_ids n" "\<And>n. hash_value (f n) = hash_value n"
    "m \<noteq> rc_counter c \<Longrightarrow> \<forall>n. hash_value (g n) = snd (split_node_hash_value (hash_value (nd c m)) s (rc_page_size c))"
    "m \<noteq> rc_counter c \<Longrightarrow> \<forall>n. hash_value (h n) = fst (split_node_hash_value (hash_value (nd c m)) s (rc_page_size c))"
proof -
  show thesis
    using assms unfolding split_node_def new_tree_node_def monotonic_def Let_def
    apply (simp add: split_def)
    apply (elim exE conjE)
    apply (rule that, rule sym, assumption)
    apply (simp_all)
    done
qed

lemma split_node_rest:
  assumes "split_node k m s c = Inr (x, c')"
  shows "conf c' = conf c" "session_leaves c' = session_leaves c" "closed_session_ids c' = closed_session_ids c"
    "\<And>n. n \<noteq> rc_counter c \<Longrightarrow> session_ids (nd c' n) = session_ids (nd c n)"
    "session_ids (nd c' (rc_counter c)) = None"
    "\<And>n. m \<noteq> rc_counter c \<Longrightarrow> hash_value (nd c' n) =
      (if n = m then snd (split_node_hash_value (hash_value (nd c m)) s (rc_page_size c))
       else if n = rc_counter c then fst (split_node_hash_value (hash_value (nd c m)) s (rc_page_size c))
       else hash_value (nd c n))"
    "kv_event_queue c' = kv_event_queue c"
  using assms by (rule split_node_shape, simp add: upd_node_def conf_def TreeNode_def)+

lemma split_events_ok:
  assumes sp: "splittable (view c) L P V p m s xs fk sk" and ev: "events_ok c L"
    and eq: "split_node (tn_key (nd c m)) m s c = Inr (rc_counter c, c')"
    and v: "view c' = split_view (view c) p m s xs fk sk"
  shows "events_ok c' (insert (rc_counter c) L)"
  unfolding events_ok_def
proof (intro impI conjI ballI allI)
  note D = splittable_D [OF sp, simplified]
  note R = split_node_rest [OF eq]
  note C = conf_D [OF R(1)]
  assume en: "enable_kv_cache_events c'"
  then have ev: "native_hash_ok c" "\<And>n hs. n \<in> L \<Longrightarrow> hash_value (nd c n) = Some hs \<Longrightarrow>
      page_hashes (rc_page_size c) (tn_key (nd c n)) hs"
    using ev C by (auto simp: events_ok_def)
  show "native_hash_ok c'" using ev(1) C by (simp add: native_hash_ok_def)
  fix n hs assume n: "n \<in> insert (rc_counter c) L" and hs: "hash_value (nd c' n) = Some hs"
  have key: "tn_key (nd c' n) = (if n = m then rk_from (tn_key (nd c m)) s
      else if n = rc_counter c then rk_upto (tn_key (nd c m)) s else tn_key (nd c n))"
    using arg_cong [OF v, of "\<lambda>v. v_key v n"] by (simp add: split_view_def Let_def)
  have sp': "page_hashes (rc_page_size c) (rk_upto (tn_key (nd c m)) s) (take (s div rc_page_size c) h)"
    "page_hashes (rc_page_size c) (rk_from (tn_key (nd c m)) s) (drop (s div rc_page_size c) h)"
    if "hash_value (nd c m) = Some h" for h
    using page_hashes_split [OF ev(2) [OF D(2) that] D(7)] D(9,17) by simp_all
  show "page_hashes (rc_page_size c') (tn_key (nd c' n)) hs"
    using n hs ev(2) [of n hs] sp' D(14) C(2) R(6) [of n] key
    by (auto simp: split_node_hash_value_def Let_def split: if_splits option.splits)
qed

text \<open>A split keeps the invariant and the entries; the new node ends at the boundary.\<close>

lemma split_node_ok:
  assumes inv: "cinv c L P V H" and sp: "splittable (view c) L P V p m s xs fk sk"
  defines "x \<equiv> rc_counter c" and "P' \<equiv> split_P (view c) P p m s" and "V' \<equiv> split_V (view c) V p s xs"
  shows "\<exists>c'. split_node (tn_key (nd c m)) m s c = Inr (x, c') \<and> cinv c' (insert x L) P' V' H \<and>
    frame L c c' \<and> tn_value (nd c' x) = Some (take s xs) \<and> tn_children (nd c' x) = [(sk, m)]"
proof -
  note D = splittable_D [OF sp, simplified]
  obtain c' where c': "split_node (tn_key (nd c m)) m s c = Inr (x, c')"
    "view c' = split_view (view c) p m s xs fk sk"
    using split_node_view [of c m fk s sk p xs] D unfolding x_def by auto
  have "cinv c' (insert x L) P' V' H"
    using inv split_cache_ok [OF sp] split_events_ok [OF sp _ c'(1) [unfolded x_def] c'(2)] c'(2)
    by (simp add: cinv_def x_def P'_def V'_def)
  moreover have "frame L c c'"
    unfolding frame_def using split_node_rest(1-4) [OF c'(1)] D(13) by metis
  moreover have "tn_value (nd c' x) = Some (take s xs)" "tn_children (nd c' x) = [(sk, m)]"
    using arg_cong [OF c'(2), of "\<lambda>v. v_value v x"] arg_cong [OF c'(2), of "\<lambda>v. v_children v x"] D(14,15)
    by (simp_all add: split_view_def Let_def x_def)
  ultimately show ?thesis using c' by blast
qed

section \<open>The walk down the tree\<close>

text \<open>
  Both loops take the same step. \<open>extends\<close> says what later states keep of earlier ones: the
  nodes stay where they are, with their paths and slots.
\<close>

definition extends ::
  "nat set \<Rightarrow> (nat \<Rightarrow> units) \<Rightarrow> (nat \<Rightarrow> int list) \<Rightarrow> nat set \<Rightarrow> (nat \<Rightarrow> units) \<Rightarrow> (nat \<Rightarrow> int list) \<Rightarrow> bool" where
  "extends L P V L' P' V' \<longleftrightarrow> L \<subseteq> L' \<and> (\<forall>n \<in> L. P' n = P n \<and> V' n = V n)"

lemma extends_refl [simp]: "extends L P V L P V"
  by (simp add: extends_def)

lemma extends_trans: "extends L P V L' P' V' \<Longrightarrow> extends L' P' V' L'' P'' V'' \<Longrightarrow> extends L P V L'' P'' V''"
  by (auto simp: extends_def)

lemma extends_split:
  assumes "splittable v L P V p m s xs fk sk"
  shows "extends L P V (insert (v_counter v) L) (split_P v P p m s) (split_V v V p s xs)"
  using splittable_D(13) [OF assms] by (auto simp: extends_def split_P_def split_V_def)

definition descend :: "radix_key \<Rightarrow> nat \<Rightarrow> nat \<Rightarrow> radix_cache \<Rightarrow> (nat \<times> radix_cache) result" where
  "descend ckey child prefix_len c =
     (if prefix_len < rk_len ckey then split_node ckey child prefix_len c else Inr (child, c))"

lemma descend_ok:
  assumes inv: "cinv c L P V H" and node: "node \<in> L" and al: "rc_page_size c dvd rk_len key"
    and key: "0 < rk_len key" and ck: "rk_child_key key (rc_page_size c) = Inr ck"
    and ch: "map_of (tn_children (nd c node)) ck = Some m"
  shows "\<exists>s node' c' L' P' V' xs. rk_match (tn_key (nd c m)) key (rc_page_size c) = Inr s \<and>
    descend (tn_key (nd c m)) m s c = Inr (node', c') \<and> cinv c' L' P' V' H \<and> node' \<in> L' \<and>
    P' node' = P node @ take s (tunits key) \<and> tn_value (nd c' node') = Some xs \<and> V' node' = V node @ xs \<and>
    length xs = s \<and> 0 < s \<and> s \<le> rk_len key \<and> rc_page_size c dvd s \<and> s \<le> rk_len (tn_key (nd c m)) \<and>
    extends L P V L' P' V' \<and> entries L' P' V' = entries L P V \<and> frame L c c' \<and>
    (s < rk_len (tn_key (nd c m)) \<longrightarrow> s < rk_len key \<longrightarrow>
      (\<exists>ck'. rk_child_key (rk_from key s) (rc_page_size c) = Inr ck' \<and> map_of (tn_children (nd c' node')) ck' = None))"
proof -
  note ok = cinv_tree [OF inv]
  define s where "s = match_step (view c) key m"
  note F = step_facts [OF ok node, simplified, OF al key ck ch, folded s_def]
  have ps: "0 < rc_page_size c" using tree_ok_D(4) [OF ok] by simp
  have s0: "0 < s" using F(5) ps by simp
  obtain xs where xs: "tn_value (nd c m) = Some xs" "length xs = rk_len (tn_key (nd c m))" "V m = V node @ xs"
    using F(3) by (auto simp: edge_def)
  have Pm: "P m = P node @ tunits (tn_key (nd c m))" using F(3) by (simp add: edge_def)
  show ?thesis
  proof (cases "s < rk_len (tn_key (nd c m))")
    case False
    then have s: "s = rk_len (tn_key (nd c m))" using F(8) by simp
    then have "take s (tunits key) = tunits (tn_key (nd c m))" using F(9) by simp
    with False F s0 inv xs Pm s show ?thesis
      by (intro exI [of _ s] exI [of _ m] exI [of _ c] exI [of _ L] exI [of _ P] exI [of _ V] exI [of _ xs])
        (simp add: descend_def)
  next
    case True
    note diff = step_differs [OF ok node, simplified, OF al key ck ch, folded s_def, OF True]
    obtain sk where sk: "rk_child_key (rk_from (tn_key (nd c m)) s) (rc_page_size c) = Inr sk"
      using diff(1) by blast
    have sp: "splittable (view c) L P V node m s xs ck sk"
      using ok node F xs True s0 sk by (simp add: splittable_def)
    let ?x = "rc_counter c"
    obtain c' where c': "split_node (tn_key (nd c m)) m s c = Inr (?x, c')"
      "cinv c' (insert ?x L) (split_P (view c) P node m s) (split_V (view c) V node s xs) H"
      "frame L c c'" "tn_value (nd c' ?x) = Some (take s xs)" "tn_children (nd c' ?x) = [(sk, m)]"
      using split_node_ok [OF inv sp] by blast
    have "\<exists>ck'. rk_child_key (rk_from key s) (rc_page_size c) = Inr ck' \<and> map_of (tn_children (nd c' ?x)) ck' = None"
      if "s < rk_len key"
    proof -
      have "s + rc_page_size c \<le> rk_len key" using dvd_gap [OF F(6) al that] .
      then obtain ck' where "rk_child_key (rk_from key s) (rc_page_size c) = Inr ck'"
        using rk_child_key_eq [OF ps, of "rk_from key s"] by auto
      moreover from this have "ck' \<noteq> sk" using diff(2) [OF that] sk by simp
      ultimately show ?thesis using c'(5) by simp
    qed
    moreover have "split_P (view c) P node m s ?x = P node @ take s (tunits key)"
      "split_V (view c) V node s xs ?x = V node @ take s xs"
      using F(9) by (simp_all add: split_P_def split_V_def)
    ultimately show ?thesis
      using F s0 c' True xs extends_split [OF sp] split_entries [OF sp]
      by (intro exI [of _ s] exI [of _ ?x] exI [of _ c'] exI [of _ "insert ?x L"]
          exI [of _ "split_P (view c) P node m s"] exI [of _ "split_V (view c) V node s xs"] exI [of _ "take s xs"])
        (simp add: descend_def min_absorb1)
  qed
qed

lemma touch_sel [simp]:
  "rc_page_size (touch t m c) = rc_page_size c" "tn_key (nd (touch t m c) n) = tn_key (nd c n)"
  "tn_children (nd (touch t m c) n) = tn_children (nd c n)"
  by (simp_all add: touch_def upd_node_def)

lemma touch_descend_ok:
  assumes inv: "cinv c L P V H" and node: "node \<in> L" and al: "rc_page_size c dvd rk_len key"
    and ck: "0 < rk_len key \<longrightarrow> rk_child_key key (rc_page_size c) = Inr ck"
    and ch: "next_child c node key ck = Some m"
  shows "\<exists>s x c' L' P' V' xs. rk_match (tn_key (nd c m)) key (rc_page_size c) = Inr s \<and>
    descend (tn_key (nd c m)) m s (touch t m c) = Inr (x, c') \<and> cinv c' L' P' V' H \<and> x \<in> L' \<and>
    P' x = P node @ take s (tunits key) \<and> tn_value (nd c' x) = Some xs \<and> V' x = V node @ xs \<and>
    length xs = s \<and> 0 < s \<and> s \<le> rk_len key \<and> rc_page_size c dvd s \<and>
    extends L P V L' P' V' \<and> entries L' P' V' = entries L P V \<and> frame L c c' \<and>
    (s < rk_len (tn_key (nd c m)) \<longrightarrow> s < rk_len key \<longrightarrow>
      (\<exists>ck'. rk_child_key (rk_from key s) (rc_page_size c) = Inr ck' \<and> map_of (tn_children (nd c' x)) ck' = None))"
proof -
  have key: "0 < rk_len key" and ch: "map_of (tn_children (nd c node)) ck = Some m"
    using ch by (simp_all add: next_child_def split: if_splits)
  have "frame L c c'" if "frame L (touch t m c) c'" for c'
    using frame_trans [OF frame_touch(1) that] by simp
  then show ?thesis
    using descend_ok [of "touch t m c" L P V H node key ck m] inv node al key ck ch by simp blast
qed

text \<open>A node whose path is the longest prefix of \<open>K\<close> in the tree.\<close>

definition deepest :: "nat \<Rightarrow> nat set \<Rightarrow> (nat \<Rightarrow> units) \<Rightarrow> units \<Rightarrow> nat \<Rightarrow> bool" where
  "deepest ps L P K n \<longleftrightarrow>
     n \<in> L \<and> prefix (P n) K \<and> (\<forall>m \<in> L. page_floor ps (lcp_len K (P m)) \<le> length (P n))"

lemma match_loop_unfold:
  "match_loop (Suc fuel) t node key ck val c =
     (case next_child c node key ck of
        None \<Rightarrow> Inr (val, node, c)
      | Some child \<Rightarrow>
          (let c1 = touch t child c; ckey = tn_key (nd c1 child) in
           rbind (rk_match ckey key (rc_page_size c1)) (\<lambda>prefix_len.
           rbind (descend ckey child prefix_len c1) (\<lambda>(x, c2).
           rbind (tensor (tn_value (nd c2 x))) (\<lambda>v.
           if prefix_len < rk_len ckey then Inr (val @ v, x, c2)
           else
             let key' = rk_from key prefix_len in
             rbind (if 0 < rk_len key' then rk_child_key key' (rc_page_size c1) else Inr ck) (\<lambda>ck'.
             match_loop fuel t x key' ck' (val @ v) c2))))))"
  by (auto simp: descend_def Let_def split: option.split intro!: rbind_cong)

lemma stuck_deepest:
  assumes "cinv c L P V H" "node \<in> L" "rc_page_size c dvd rk_len key"
    and "rk_len key = 0 \<or> rk_child_key key (rc_page_size c) = Inr ck \<and> map_of (tn_children (nd c node)) ck = None"
  shows "deepest (rc_page_size c) L P (P node @ tunits key) node"
  using stuck_max [OF cinv_tree [OF assms(1)] assms(2), of key ck] assms(2-4) by (simp add: deepest_def)

lemma next_key:
  assumes "0 < ps" "ps dvd rk_len key" "ps dvd s"
  shows "ps dvd rk_len (rk_from key s)"
    and "\<exists>ck'. (if 0 < rk_len (rk_from key s) then rk_child_key (rk_from key s) ps else Inr ck) = Inr ck' \<and>
      (0 < rk_len (rk_from key s) \<longrightarrow> rk_child_key (rk_from key s) ps = Inr ck')"
proof -
  show d: "ps dvd rk_len (rk_from key s)" using assms by simp
  show "\<exists>ck'. (if 0 < rk_len (rk_from key s) then rk_child_key (rk_from key s) ps else Inr ck) = Inr ck' \<and>
      (0 < rk_len (rk_from key s) \<longrightarrow> rk_child_key (rk_from key s) ps = Inr ck')"
  proof (cases "0 < rk_len (rk_from key s)")
    case True
    then have "ps \<le> rk_len (rk_from key s)" using d by (intro dvd_imp_le)
    then show ?thesis using True rk_child_key_eq [OF assms(1), of "rk_from key s"] by simp
  qed simp
qed

lemma match_loop_ok:
  assumes "cinv c L P V H" "node \<in> L" "rc_page_size c dvd rk_len key" "rk_len key < fuel"
    "0 < rk_len key \<longrightarrow> rk_child_key key (rc_page_size c) = Inr ck" "val = V node"
  shows "\<exists>node' c' L' P' V'. match_loop fuel t node key ck val c = Inr (V' node', node', c') \<and>
    cinv c' L' P' V' H \<and> deepest (rc_page_size c) L' P' (P node @ tunits key) node' \<and>
    extends L P V L' P' V' \<and> entries L' P' V' = entries L P V \<and> frame L c c'"
  using assms
proof (induction fuel arbitrary: node key ck val c L P V)
  case (Suc fuel)
  have ps: "0 < rc_page_size c" using tree_ok_D(4) [OF cinv_tree [OF Suc.prems(1)]] by simp
  show ?case
  proof (cases "next_child c node key ck")
    case None
    then have "deepest (rc_page_size c) L P (P node @ tunits key) node"
      using Suc.prems by (intro stuck_deepest [OF Suc.prems(1-3), of ck]) (auto simp: next_child_def split: if_splits)
    with None Suc.prems show ?thesis
      by (intro exI [of _ node] exI [of _ c] exI [of _ L] exI [of _ P] exI [of _ V]) simp
  next
    case (Some m)
    let ?c1 = "touch t m c"
    from touch_descend_ok [OF Suc.prems(1-3,5) Some, of t] obtain s x c2 L2 P2 V2 xs where
      d: "rk_match (tn_key (nd c m)) key (rc_page_size c) = Inr s"
        "descend (tn_key (nd c m)) m s ?c1 = Inr (x, c2)" "cinv c2 L2 P2 V2 H" "x \<in> L2"
        "P2 x = P node @ take s (tunits key)" "tn_value (nd c2 x) = Some xs" "V2 x = V node @ xs"
        "0 < s" "s \<le> rk_len key" "rc_page_size c dvd s"
        "extends L P V L2 P2 V2" "entries L2 P2 V2 = entries L P V" and fr: "frame L c c2"
        and stuck: "s < rk_len (tn_key (nd c m)) \<longrightarrow> s < rk_len key \<longrightarrow>
          (\<exists>ck'. rk_child_key (rk_from key s) (rc_page_size c) = Inr ck' \<and> map_of (tn_children (nd c2 x)) ck' = None)"
      by blast
    have ps2: "rc_page_size c2 = rc_page_size c" using fr by (simp add: frame_def conf_def)
    note nk = next_key [OF ps Suc.prems(3) d(10)]
    obtain ck' where ck': "(if 0 < rk_len (rk_from key s) then rk_child_key (rk_from key s) (rc_page_size c) else Inr ck) = Inr ck'"
      "0 < rk_len (rk_from key s) \<longrightarrow> rk_child_key (rk_from key s) (rc_page_size c) = Inr ck'"
      using nk(2) [of ck] that by (elim exE conjE)
    have K: "P2 x @ tunits (rk_from key s) = P node @ tunits key" by (simp add: d(5))
    show ?thesis
    proof (cases "s < rk_len (tn_key (nd c m))")
      case True
      have "deepest (rc_page_size c2) L2 P2 (P2 x @ tunits (rk_from key s)) x"
        using stuck True d(9) nk(1) ps2 ck' by (intro stuck_deepest [OF d(3,4), of _ ck']) auto
      with True d fr K ps2 Some Suc.prems(6) show ?thesis
        by (intro exI [of _ x] exI [of _ c2] exI [of _ L2] exI [of _ P2] exI [of _ V2])
          (simp add: match_loop_unfold tensor_def Let_def del: match_loop.simps)
    next
      case False
      have "\<exists>node' c' L' P' V'. match_loop fuel t x (rk_from key s) ck' (V2 x) c2 = Inr (V' node', node', c') \<and>
        cinv c' L' P' V' H \<and> deepest (rc_page_size c2) L' P' (P2 x @ tunits (rk_from key s)) node' \<and>
        extends L2 P2 V2 L' P' V' \<and> entries L' P' V' = entries L2 P2 V2 \<and> frame L2 c2 c'"
        using d(8,9) Suc.prems(4) nk(1) ps2 ck'(2) by (intro Suc.IH [OF d(3,4)]) auto
      then obtain node' c' L' P' V' where IH: "match_loop fuel t x (rk_from key s) ck' (V2 x) c2 = Inr (V' node', node', c')"
        "cinv c' L' P' V' H" "deepest (rc_page_size c2) L' P' (P2 x @ tunits (rk_from key s)) node'"
        "extends L2 P2 V2 L' P' V'" "entries L' P' V' = entries L2 P2 V2" "frame L2 c2 c'" by blast
      moreover have "extends L P V L' P' V'" using extends_trans [OF d(11) IH(4)] .
      moreover have "frame L c c'" using frame_trans [OF fr IH(6)] d(11) by (simp add: extends_def)
      ultimately show ?thesis using False d K ps2 Some Suc.prems(6) ck'(1)
        by (intro exI [of _ node'] exI [of _ c'] exI [of _ L'] exI [of _ P'] exI [of _ V'])
          (simp add: match_loop_unfold tensor_def Let_def split: if_splits del: match_loop.simps)
    qed
  qed
qed simp

section \<open>Matching\<close>

lemma match_helper_ok:
  assumes inv: "cinv c L P V H" and al: "rc_page_size c dvd rk_len key" and key: "0 < rk_len key"
  shows "\<exists>node' c' L' P' V'. match_prefix_helper (root_node c) key c = Inr (V' node', node', c') \<and>
    cinv c' L' P' V' H \<and> deepest (rc_page_size c) L' P' (tunits key) node' \<and>
    extends L P V L' P' V' \<and> entries L' P' V' = entries L P V \<and> frame L c c'"
proof -
  note T = tree_ok_D [OF cinv_tree [OF inv], simplified]
  define t where "t = fst (monotonic c)"
  define c2 where "c2 = touch t (root_node c) (snd (monotonic c))"
  have c2: "cinv c2 L P V H" "rc_page_size c2 = rc_page_size c" using inv by (simp_all add: c2_def) (simp add: monotonic_def)
  have fr: "frame L c c2"
    unfolding c2_def by (rule frame_trans [OF frame_touch(2) frame_touch(1) subset_refl])
  obtain ck where ck: "rk_child_key key (rc_page_size c) = Inr ck"
    using rk_child_key_eq [OF T(4), of key] dvd_imp_le [OF al key] by auto
  have helper: "match_prefix_helper (root_node c) key c =
      match_loop (Suc (rk_len key)) t (root_node c) key ck [] c2"
    using ck c2(2) by (simp add: match_prefix_helper_def c2_def t_def Let_def split_def del: match_loop.simps)
  have "\<exists>node' c' L' P' V'. match_loop (Suc (rk_len key)) t (root_node c) key ck [] c2 = Inr (V' node', node', c') \<and>
    cinv c' L' P' V' H \<and> deepest (rc_page_size c2) L' P' (P (root_node c) @ tunits key) node' \<and>
    extends L P V L' P' V' \<and> entries L' P' V' = entries L P V \<and> frame L c2 c'"
    using al ck T c2(2) by (intro match_loop_ok [OF c2(1)]) simp_all
  then show ?thesis
    using frame_trans [OF fr _ subset_refl] T(5) c2(2) unfolding helper by simp blast
qed

lemma deepest_root:
  assumes "tree_ok (view c) L P V"
  shows "deepest ps L P [] (root_node c)" "V (root_node c) = []"
  using tree_ok_D [OF assms] by (simp_all add: deepest_def)

definition query :: "radix_cache \<Rightarrow> radix_key \<Rightarrow> radix_key" where
  "query c key0 = page_aligned (fst (maybe_to_bigram_view key0 (is_eagle c) (None :: int list option))) (rc_page_size c)"

lemma match_prefix_ok:
  assumes inv: "cinv c L P V H" and en: "\<not> rc_disable c"
  shows "\<exists>node' c' L' P' V'. match_prefix key0 c = Inr (MatchResult (V' node') node', c') \<and>
    cinv c' L' P' V' H \<and> deepest (rc_page_size c) L' P' (tunits (query c key0)) node' \<and>
    extends L P V L' P' V' \<and> entries L' P' V' = entries L P V \<and> frame L c c'"
proof (cases "rk_len (query c key0) = 0")
  case True
  then have "match_prefix key0 c = Inr (MatchResult [] (root_node c), c)"
    using en by (simp add: match_prefix_def Let_def query_def)
  moreover have "tunits (query c key0) = []" using True by (simp only: tunits_eq_Nil_iff)
  ultimately show ?thesis using inv deepest_root [OF cinv_tree [OF inv]]
    by (intro exI [of _ "root_node c"] exI [of _ c] exI [of _ L] exI [of _ P] exI [of _ V]) (simp del: tunits_eq_Nil_iff)
next
  case False
  let ?key1 = "fst (maybe_to_bigram_view key0 (is_eagle c) (None :: int list option))"
  have "rk_len ?key1 \<noteq> 0"
    using False by (intro notI) (simp add: query_def)
  then have eq: "match_prefix key0 c = rbind (match_prefix_helper (root_node c) (query c key0) c)
      (\<lambda>(val, last_node, c'). Inr (MatchResult val last_node, c'))"
    using en False by (simp add: match_prefix_def Let_def query_def)
  have "rc_page_size c dvd rk_len (query c key0)" by (simp add: query_def)
  from match_helper_ok [OF inv this] False show ?thesis unfolding eq by fastforce
qed

section \<open>Inserting\<close>

lemma insert_loop_unfold:
  "insert_loop (Suc fuel) t prio chunked node key val ck total_len c =
     (case next_child c node key ck of
        None \<Rightarrow> Inr (node, key, val, ck, total_len, c)
      | Some child \<Rightarrow>
          (let c1 = touch t child c; ckey = tn_key (nd c1 child) in
           rbind (rk_match ckey key (rc_page_size c1)) (\<lambda>prefix_len.
           rbind (descend ckey child prefix_len c1) (\<lambda>(node', c2).
             let key' = rk_from key prefix_len; val' = drop prefix_len val;
                 c3 = upd_node node' (\<lambda>n. inc_hit_count chunked (n\<lparr>tn_priority := max (tn_priority n) prio\<rparr>)) c2 in
             rbind (if 0 < rk_len key' then rk_child_key key' (rc_page_size c3) else Inr ck) (\<lambda>ck'.
             insert_loop fuel t prio chunked node' key' val' ck' (total_len + prefix_len) c3)))))"
  by (simp only: insert_loop.simps descend_def Let_def)

lemma insert_loop_ok:
  assumes "cinv c L P V H" "node \<in> L" "rc_page_size c dvd rk_len key" "rk_len key < fuel"
    "0 < rk_len key \<longrightarrow> rk_child_key key (rc_page_size c) = Inr ck" "length val = rk_len key"
  shows "\<exists>node' key' ck' c' L' P' V'.
    insert_loop fuel t prio chunked node key val ck total_len c =
      Inr (node', key', drop (length (P' node') - length (P node)) val, ck',
           total_len + (length (P' node') - length (P node)), c') \<and>
    cinv c' L' P' V' H \<and> node' \<in> L' \<and> length (P node) \<le> length (P' node') \<and>
    P' node' @ tunits key' = P node @ tunits key \<and> rc_page_size c dvd rk_len key' \<and>
    (0 < rk_len key' \<longrightarrow> rk_child_key key' (rc_page_size c) = Inr ck' \<and> map_of (tn_children (nd c' node')) ck' = None) \<and>
    extends L P V L' P' V' \<and> entries L' P' V' = entries L P V \<and> frame L c c'"
  using assms
proof (induction fuel arbitrary: node key ck val total_len c L P V)
  case (Suc fuel)
  have ps: "0 < rc_page_size c" using tree_ok_D(4) [OF cinv_tree [OF Suc.prems(1)]] by simp
  show ?case
  proof (cases "next_child c node key ck")
    case None
    with Suc.prems show ?thesis
      by (intro exI [of _ node] exI [of _ key] exI [of _ ck] exI [of _ c] exI [of _ L] exI [of _ P] exI [of _ V])
        (simp add: next_child_def split: if_splits)
  next
    case (Some m)
    let ?c1 = "touch t m c"
    from touch_descend_ok [OF Suc.prems(1-3,5) Some, of t] obtain s x c2 L2 P2 V2 where
      d: "rk_match (tn_key (nd c m)) key (rc_page_size c) = Inr s"
        "descend (tn_key (nd c m)) m s ?c1 = Inr (x, c2)" "cinv c2 L2 P2 V2 H" "x \<in> L2"
        "P2 x = P node @ take s (tunits key)" "0 < s" "s \<le> rk_len key" "rc_page_size c dvd s"
        "extends L P V L2 P2 V2" "entries L2 P2 V2 = entries L P V" and fr: "frame L c c2"
      by blast
    define c3 where "c3 = upd_node x (\<lambda>n. inc_hit_count chunked (n\<lparr>tn_priority := max (tn_priority n) prio\<rparr>)) c2"
    have c3: "cinv c3 L2 P2 V2 H" "frame L c c3" "rc_page_size c3 = rc_page_size c"
      using d(3) frame_trans [OF fr frame_touch(3) subset_refl] fr
      by (simp_all add: c3_def) (simp add: upd_node_def frame_def conf_def)
    note nk = next_key [OF ps Suc.prems(3) d(8)]
    obtain ck' where ck': "(if 0 < rk_len (rk_from key s) then rk_child_key (rk_from key s) (rc_page_size c) else Inr ck) = Inr ck'"
      "0 < rk_len (rk_from key s) \<longrightarrow> rk_child_key (rk_from key s) (rc_page_size c) = Inr ck'"
      using nk(2) [of ck] that by (elim exE conjE)
    have Px: "length (P2 x) = length (P node) + s" using d(5,7) by (simp add: min_absorb2)
    have "\<exists>node' key' ck'' c' L' P' V'.
      insert_loop fuel t prio chunked x (rk_from key s) (drop s val) ck' (total_len + s) c3 =
        Inr (node', key', drop (length (P' node') - length (P2 x)) (drop s val), ck'',
             total_len + s + (length (P' node') - length (P2 x)), c') \<and>
      cinv c' L' P' V' H \<and> node' \<in> L' \<and> length (P2 x) \<le> length (P' node') \<and>
      P' node' @ tunits key' = P2 x @ tunits (rk_from key s) \<and> rc_page_size c3 dvd rk_len key' \<and>
      (0 < rk_len key' \<longrightarrow> rk_child_key key' (rc_page_size c3) = Inr ck'' \<and> map_of (tn_children (nd c' node')) ck'' = None) \<and>
      extends L2 P2 V2 L' P' V' \<and> entries L' P' V' = entries L2 P2 V2 \<and> frame L2 c3 c'"
      using d(6,7) Suc.prems(4,6) nk(1) c3(3) ck'(2) by (intro Suc.IH [OF c3(1) d(4)]) auto
    then obtain node' key' ck'' c' L' P' V' where IH:
      "insert_loop fuel t prio chunked x (rk_from key s) (drop s val) ck' (total_len + s) c3 =
        Inr (node', key', drop (length (P' node') - length (P2 x)) (drop s val), ck'',
             total_len + s + (length (P' node') - length (P2 x)), c')"
      "cinv c' L' P' V' H" "node' \<in> L'" "length (P2 x) \<le> length (P' node')"
      "P' node' @ tunits key' = P2 x @ tunits (rk_from key s)" "rc_page_size c3 dvd rk_len key'"
      "0 < rk_len key' \<longrightarrow> rk_child_key key' (rc_page_size c3) = Inr ck'' \<and> map_of (tn_children (nd c' node')) ck'' = None"
      "extends L2 P2 V2 L' P' V'" "entries L' P' V' = entries L2 P2 V2" "frame L2 c3 c'"
      using that by (elim exE conjE)
    have "insert_loop (Suc fuel) t prio chunked node key val ck total_len c =
        Inr (node', key', drop (length (P' node') - length (P node)) val, ck'',
             total_len + (length (P' node') - length (P node)), c')"
      using Some d(1,2) ck'(1) c3(3) IH(1,4) Px
      by (simp add: insert_loop_unfold Let_def c3_def [symmetric] split: if_splits del: insert_loop.simps)
    moreover have "frame L c c'" using frame_trans [OF c3(2) IH(10)] d(9) by (simp add: extends_def)
    moreover have "extends L P V L' P' V'" using extends_trans [OF d(9) IH(8)] .
    moreover have "P' node' @ tunits key' = P node @ tunits key" using IH(5) d(5) by simp
    ultimately show ?thesis
      using IH c3(3) Px d(10)
      by (intro exI [of _ node'] exI [of _ key'] exI [of _ ck''] exI [of _ c'] exI [of _ L'] exI [of _ P'] exI [of _ V'])
        simp
  qed
qed simp

section \<open>Recording events\<close>

lemma page_starts_aligned:
  assumes "0 < ps" "ps dvd n"
  shows "page_starts ps n = map (\<lambda>i. i * ps) [0 ..< n div ps]"
proof -
  obtain q where q: "n = q * ps" using assms(2) by (metis dvd_div_mult_self)
  have "(q * ps + ps - 1) div ps = ((ps - 1) + q * ps) div ps" using assms(1) by (simp add: add.commute)
  also have "\<dots> = q" using assms(1) by (subst div_mult_self1) auto
  finally have "(q * ps + ps - 1) div ps = q" .
  then show ?thesis using assms(1) by (simp add: page_starts_def q)
qed

text \<open>One event per page, each of a full page, the page's hash being the parent of the next.\<close>

fun chained :: "int option \<Rightarrow> kv_event list \<Rightarrow> bool" where
  "chained par [] = True"
| "chained par (ev # evs) =
     (case ev of
        BlockStored hs par' toks sz med \<Rightarrow> par' = par \<and> (\<exists>h. hs = [h] \<and> chained (Some h) evs)
      | _ \<Rightarrow> False)"

lemma store_events_ok:
  assumes ps: "0 < ps" and hs: "n \<le> length hs" "\<forall>h \<in> set hs. valid_hash h" and len: "rk_len k = n * ps"
    and j: "j \<le> n"
  shows "\<exists>evs. store_events hs k ps med par j (map (\<lambda>i. i * ps) [j ..< n]) = Inr evs \<and>
    length evs = n - j \<and> chained par evs \<and>
    concat (map event_tokens evs) = drop (j * ps) (rk_iter k)"
  using j
proof (induction "n - j" arbitrary: j par)
  case 0
  then show ?case by (simp add: rk_iter_units len)
next
  case (Suc d)
  then have jn: "j < n" by simp
  have stop: "min (j * ps + ps) (rk_len k) = Suc j * ps"
    using jn mult_le_mono1 [of "Suc j" n ps] by (simp add: len min_absorb1 add.commute)
  have "valid_hash (hs ! j)" using hs jn by simp
  then obtain h where h: "hash_at hs j = Inr h"
    using hs(1) jn by (auto simp: hash_at_def valid_hash_def)
  obtain evs where evs: "store_events hs k ps med (Some h) (Suc j) (map (\<lambda>i. i * ps) [Suc j ..< n]) = Inr evs"
    "length evs = n - Suc j" "chained (Some h) evs" "concat (map event_tokens evs) = drop (Suc j * ps) (rk_iter k)"
  proof -
    have "d = n - Suc j" using Suc.hyps(2) by simp
    from Suc.hyps(1) [OF this, of "Some h"] jn that show thesis by auto
  qed
  define toks where "toks = (if is_bigram k then map (\<lambda>i. Big (token_ids k ! i) (token_ids k ! (i + 1))) [j * ps ..< Suc j * ps]
      else map Tok (slice (j * ps) (Suc j * ps) (token_ids k)))"
  have le: "Suc j * ps \<le> rk_len k" using jn len mult_le_mono1 [of "Suc j" n ps] by simp
  have toks: "toks = slice (j * ps) (Suc j * ps) (rk_iter k)"
  proof (rule nth_equalityI)
    show "length toks = length (slice (j * ps) (Suc j * ps) (rk_iter k))"
      using le rk_len_plain [of k] by (auto simp: toks_def rk_iter_units min_def)
    fix i assume "i < length toks"
    then have "i < ps" using le rk_len_plain [of k] by (auto simp: toks_def split: if_splits)
    moreover have "j * ps + i < length (token_ids k)" if "\<not> is_bigram k"
      using rk_len_plain [OF that] le \<open>i < ps\<close> by simp
    ultimately show "toks ! i = slice (j * ps) (Suc j * ps) (rk_iter k) ! i"
      using le by (auto simp: toks_def slice_def rk_iter_units rk_unit_def nth_append)
  qed
  have "toks @ drop (Suc j * ps) (rk_iter k) = drop (j * ps) (rk_iter k)"
    unfolding toks by (simp add: slice_def) (metis add.commute append_take_drop_id drop_drop)
  moreover have "[j ..< n] = j # [Suc j ..< n]" using jn by (rule upt_conv_Cons)
  moreover have "Suc j * ps \<noteq> j * ps" "\<not> Suc j * ps \<le> j * ps" using ps by simp_all
  ultimately show ?case
    using evs h stop jn
    by (intro exI [of _ "BlockStored [h] par toks (length toks) med # evs"])
      (simp add: toks_def [symmetric] Let_def del: mult_Suc)
qed

lemma ensure_hash_ok:
  assumes ev: "events_ok c L" "enable_kv_cache_events c" and n: "n \<in> L"
    and al: "rc_page_size c dvd rk_len (tn_key (nd c n))"
  shows "page_hashes (rc_page_size c) (tn_key (nd c n)) (fst (ensure_hash n c))"
    "events_ok (snd (ensure_hash n c)) L" "view (snd (ensure_hash n c)) = view c"
    "frame L c (snd (ensure_hash n c))" "kv_event_queue (snd (ensure_hash n c)) = kv_event_queue c"
    "\<And>m. m \<noteq> n \<Longrightarrow> hash_value (nd (snd (ensure_hash n c)) m) = hash_value (nd c m)"
proof -
  have E: "native_hash_ok c" "\<And>m hs. m \<in> L \<Longrightarrow> hash_value (nd c m) = Some hs \<Longrightarrow>
      page_hashes (rc_page_size c) (tn_key (nd c m)) hs"
    using ev by (auto simp: events_ok_def)
  have comp: "page_hashes (rc_page_size c) (tn_key (nd c n)) (compute_node_hash_values c n)"
    using E(1) al by (auto simp: compute_node_hash_values_def native_hash_ok_def Let_def)
  then show "page_hashes (rc_page_size c) (tn_key (nd c n)) (fst (ensure_hash n c))"
    using E(2) [OF n] by (auto simp: ensure_hash_def Let_def split: option.split)
  show "view (snd (ensure_hash n c)) = view c"
    by (auto simp: ensure_hash_def Let_def view_def upd_node_def fun_eq_iff split: option.split)
  show "events_ok (snd (ensure_hash n c)) L"
    using comp E by (auto simp: ensure_hash_def Let_def upd_node_def events_ok_def native_hash_ok_def
        split: option.split)
  show "frame L c (snd (ensure_hash n c))" "kv_event_queue (snd (ensure_hash n c)) = kv_event_queue c"
    "\<And>m. m \<noteq> n \<Longrightarrow> hash_value (nd (snd (ensure_hash n c)) m) = hash_value (nd c m)"
    by (auto simp: ensure_hash_def Let_def upd_node_def frame_def conf_def split: option.split)
qed

lemma record_store_event_ok:
  assumes ev: "events_ok c L" and n: "n \<in> L" and par: "\<And>p. tn_parent (nd c n) = Some p \<Longrightarrow> p \<in> L"
    and ps: "0 < rc_page_size c" and al: "rc_page_size c dvd rk_len (tn_key (nd c n))"
  shows "\<exists>c'. record_store_event n c = Inr c' \<and> view c' = view c \<and> events_ok c' L \<and> frame L c c' \<and>
    (\<exists>evs par. kv_event_queue c' = kv_event_queue c @ evs \<and>
      (enable_kv_cache_events c \<longrightarrow> chained par evs \<and> concat (map event_tokens evs) = rk_iter (tn_key (nd c n))) \<and>
      (\<not> enable_kv_cache_events c \<longrightarrow> evs = []))"
proof (cases "enable_kv_cache_events c")
  case False
  then show ?thesis using ev by (simp add: record_store_event_def)
next
  case True
  note E = ensure_hash_ok [OF ev True n al]
  define hs c1 where "hs = fst (ensure_hash n c)" and "c1 = snd (ensure_hash n c)"
  have eh: "ensure_hash n c = (hs, c1)" by (simp add: hs_def c1_def)
  note E = E [folded hs_def c1_def]
  have C: "conf c1 = conf c" using E(4) by (simp add: frame_def)
  note C = conf_D [OF C]
  have v: "tn_key (nd c1 m) = tn_key (nd c m)" "tn_parent (nd c1 m) = tn_parent (nd c m)" for m
    using E(3) by (metis view_sel(6), metis view_sel(5))
  let ?k = "tn_key (nd c n)" and ?ps = "rc_page_size c"
  obtain q where len: "rk_len ?k = q * ?ps" using al by (metis dvd_div_mult_self)
  have q: "rk_len ?k div ?ps = q" "page_starts ?ps (rk_len ?k) = map (\<lambda>i. i * ?ps) [0 ..< q]"
    using len ps page_starts_aligned [OF ps al] by simp_all
  define pr where "pr = (case tn_parent (nd c1 n) of
                    None \<Rightarrow> Inr None
                  | Some p \<Rightarrow>
                      if p \<noteq> root_node c1 then
                        (case hash_value (nd c1 p) of
                           None \<Rightarrow> Inr None
                         | Some ph \<Rightarrow>
                             if 0 < length ph then rbind (hash_str_to_int64 (last ph)) (\<lambda>h. Inr (Some h))
                             else Inr None)
                      else Inr None)"
  have "\<exists>par. pr = Inr par"
  proof -
    have "valid_hash (last ph)" if "tn_parent (nd c1 n) = Some p" "hash_value (nd c1 p) = Some ph" "ph \<noteq> []" for p ph
      using E(2) par [of p] that v C True by (auto simp: events_ok_def page_hashes_def)
    then show ?thesis by (auto simp: pr_def valid_hash_def split: option.split)
  qed
  then obtain par where par: "pr = Inr par" by blast
  obtain evs where evs: "store_events hs ?k ?ps ''GPU'' par 0 (map (\<lambda>i. i * ?ps) [0 ..< q]) = Inr evs"
    "chained par evs" "concat (map event_tokens evs) = rk_iter ?k"
    using store_events_ok [OF ps _ _ len, of hs 0 "''GPU''" par] E(1) q(1) by (auto simp: page_hashes_def)
  have "record_store_event n c = Inr (c1\<lparr>kv_event_queue := kv_event_queue c1 @ evs\<rparr>)"
    using True evs(1) par C v q
    unfolding record_store_event_def eh Let_def prod.case pr_def [symmetric] by simp
  moreover have "view (c1\<lparr>kv_event_queue := q'\<rparr>) = view c" "events_ok (c1\<lparr>kv_event_queue := q'\<rparr>) L"
    "frame L c (c1\<lparr>kv_event_queue := q'\<rparr>)" for q'
    using E(2-4) by (simp_all add: view_def events_ok_def native_hash_ok_def frame_def conf_def)
  ultimately show ?thesis using evs E(5) True by auto
qed

lemma add_leaf_view:
  fixes c node key xs ck prio chunked
  assumes "node \<noteq> rc_counter c"
  defines "c1 \<equiv> snd (new_tree_node prio c)"
  defines "c3 \<equiv> upd_node node (\<lambda>n. n\<lparr>tn_children := AList.update ck (rc_counter c) (tn_children n)\<rparr>)
    (upd_node (rc_counter c) (\<lambda>n. inc_hit_count chunked
                 (n\<lparr>tn_parent := Some node, tn_key := key, tn_value := Some xs\<rparr>)) c1)"
  defines "c5 \<equiv> update_leaf_status (rc_counter c) (update_leaf_status node
     (c3\<lparr>rc_evictable_size := rc_evictable_size c3 + int (rk_len key)\<rparr>))"
  shows "view c5 = leaf_view (view c) node key xs ck" "conf c5 = conf c"
    "session_leaves c5 = session_leaves c" "closed_session_ids c5 = closed_session_ids c"
    "\<And>n. n \<noteq> rc_counter c \<Longrightarrow> session_ids (nd c5 n) = session_ids (nd c n)"
    "\<And>n. hash_value (nd c5 n) = (if n = rc_counter c then None else hash_value (nd c n))"
    "kv_event_queue c5 = kv_event_queue c" "session_ids (nd c5 (rc_counter c)) = None"
proof -
  let ?x = "rc_counter c"
  define c4 where "c4 = c3\<lparr>rc_evictable_size := rc_evictable_size c3 + int (rk_len key)\<rparr>"
  have x: "tn_value (nd c4 ?x) = Some xs" "lock_ref (nd c4 ?x) = 0" "tn_children (nd c4 ?x) = []"
    "(ck, ?x) \<in> set (tn_children (nd c4 node))"
    using assms(1) map_of_SomeD [of "AList.update ck ?x (tn_children (nd c node))" ck ?x]
    by (auto simp: c4_def c3_def c1_def new_tree_node_def monotonic_def upd_node_def Let_def TreeNode_def
        inc_hit_count_def update_conv')
  have u1: "update_leaf_status node c4 = c4\<lparr>evictable_leaves := set_discard node (evictable_leaves c4)\<rparr>"
    using x(1,4) by (auto simp: update_leaf_status_def evicted_def)
  have u2: "c5 = c4\<lparr>evictable_leaves := set_add ?x (set_discard node (evictable_leaves c4))\<rparr>"
    unfolding c5_def c4_def [symmetric] u1 using x(1-3) by (simp add: update_leaf_status_def evicted_def)
  show "view c5 = leaf_view (view c) node key xs ck" "conf c5 = conf c"
    "session_leaves c5 = session_leaves c" "closed_session_ids c5 = closed_session_ids c"
    "\<And>n. n \<noteq> rc_counter c \<Longrightarrow> session_ids (nd c5 n) = session_ids (nd c n)"
    "\<And>n. hash_value (nd c5 n) = (if n = rc_counter c then None else hash_value (nd c n))"
    "kv_event_queue c5 = kv_event_queue c" "session_ids (nd c5 (rc_counter c)) = None"
    using assms(1) unfolding u2
    by (simp_all add: c4_def c3_def c1_def new_tree_node_def monotonic_def upd_node_def Let_def TreeNode_def
        inc_hit_count_def view_def leaf_view_def fun_eq_iff conf_def)
qed

lemma add_leaf_ok:
  assumes inv: "cinv c L P V H" and ad: "addable (view c) L P V node key xs ck"
  defines "x \<equiv> rc_counter c" and "P' \<equiv> leaf_P (view c) P node key" and "V' \<equiv> leaf_V (view c) V node xs"
  shows "\<exists>c'. add_leaf node key xs ck prio chunked c = Inr (x, c') \<and> cinv c' (insert x L) P' V' H \<and> frame L c c' \<and>
    (\<exists>evs par. kv_event_queue c' = kv_event_queue c @ evs \<and>
      (enable_kv_cache_events c \<longrightarrow> chained par evs \<and> concat (map event_tokens evs) = rk_iter key) \<and>
      (\<not> enable_kv_cache_events c \<longrightarrow> evs = []))"
proof -
  note D = addable_D [OF ad, simplified]
  have nx: "node \<noteq> x" using D(9) by (simp add: x_def)
  define c5 where "c5 = update_leaf_status x (update_leaf_status node
     ((upd_node node (\<lambda>n. n\<lparr>tn_children := AList.update ck x (tn_children n)\<rparr>)
        (upd_node x (\<lambda>n. inc_hit_count chunked (n\<lparr>tn_parent := Some node, tn_key := key, tn_value := Some xs\<rparr>))
          (snd (new_tree_node prio c))))\<lparr>rc_evictable_size := rc_evictable_size
            (upd_node node (\<lambda>n. n\<lparr>tn_children := AList.update ck x (tn_children n)\<rparr>)
        (upd_node x (\<lambda>n. inc_hit_count chunked (n\<lparr>tn_parent := Some node, tn_key := key, tn_value := Some xs\<rparr>))
          (snd (new_tree_node prio c)))) + int (rk_len key)\<rparr>))"
  note A = add_leaf_view [OF nx [unfolded x_def], where prio = prio and chunked = chunked and ck = ck and xs = xs
      and key = key, folded x_def, folded c5_def]
  have new: "new_tree_node prio c = (x, snd (new_tree_node prio c))"
    by (simp add: new_tree_node_def monotonic_def Let_def x_def)
  have add: "add_leaf node key xs ck prio chunked c = rbind (record_store_event x c5) (\<lambda>c6. Inr (x, c6))"
    unfolding add_leaf_def c5_def Let_def by (subst new) simp
  have ok: "cache_ok (view c5) (insert x L) P' V' H"
    using leaf_cache_ok [OF ad] inv A(1) by (simp add: cinv_def x_def P'_def V'_def)
  have key5: "tn_key (nd c5 n) = (if n = x then key else tn_key (nd c n))"
    "tn_parent (nd c5 x) = Some node" for n
    using arg_cong [OF A(1), of "\<lambda>v. v_key v n"] arg_cong [OF A(1), of "\<lambda>v. v_parent v x"]
    by (simp_all add: leaf_view_def Let_def x_def)
  have ev: "events_ok c5 (insert x L)"
    using inv A(6) key5 conf_D [OF A(2)] by (auto simp: cinv_def events_ok_def native_hash_ok_def)
  from record_store_event_ok [OF ev, of x] obtain c' where c': "record_store_event x c5 = Inr c'" "view c' = view c5"
    "events_ok c' (insert x L)" "frame (insert x L) c5 c'"
    "\<exists>evs par. kv_event_queue c' = kv_event_queue c @ evs \<and>
      (enable_kv_cache_events c \<longrightarrow> chained par evs \<and> concat (map event_tokens evs) = rk_iter key) \<and>
      (\<not> enable_kv_cache_events c \<longrightarrow> evs = [])"
    using D(2,4,11) key5 conf_D [OF A(2)] A(7) by auto
  have "frame L c c5" unfolding frame_def using A(2-5) D(8) x_def by metis
  then have "frame L c c'" using frame_trans [OF _ c'(4)] by blast
  then show ?thesis using add c' ok by (simp add: cinv_def)
qed

section \<open>Insert as a whole\<close>

text \<open>
  \<open>inserted\<close>: the tree after an insert of path \<open>K\<close> with slots \<open>vals\<close>: some node ends exactly
  at \<open>K\<close>; the slots of the part that was cached before are the old ones, the rest are new.
\<close>

definition inserted ::
  "nat \<Rightarrow> nat set \<Rightarrow> (nat \<Rightarrow> units) \<Rightarrow> (nat \<Rightarrow> int list) \<Rightarrow> nat set \<Rightarrow> (nat \<Rightarrow> units) \<Rightarrow> (nat \<Rightarrow> int list) \<Rightarrow>
     units \<Rightarrow> int list \<Rightarrow> nat \<Rightarrow> nat \<Rightarrow> bool" where
  "inserted ps L P V L' P' V' K vals plen node \<longleftrightarrow>
     node \<in> L' \<and> P' node = K \<and> extends L P V L' P' V' \<and> plen \<le> length K \<and> ps dvd plen \<and>
     (take plen K, take plen (V' node)) \<in> entries L P V \<and> drop plen (V' node) = drop plen vals \<and>
     (\<forall>n \<in> L. page_floor ps (lcp_len K (P n)) \<le> plen) \<and>
     entries L' P' V' = entries L P V \<union> {(take k K, take k (V' node)) | k. True}"

text \<open>Where the descent of an insertion ends: at \<open>node\<close>, with the rest \<open>key'\<close> of the key.\<close>

definition descended where
  "descended c L P V H key node key' ck' c' L' P' V' \<longleftrightarrow>
     cinv c' L' P' V' H \<and> node \<in> L' \<and> P' node @ tunits key' = tunits key \<and> rc_page_size c dvd rk_len key' \<and>
     (0 < rk_len key' \<longrightarrow> rk_child_key key' (rc_page_size c) = Inr ck' \<and> map_of (tn_children (nd c' node)) ck' = None) \<and>
     extends L P V L' P' V' \<and> entries L' P' V' = entries L P V \<and> frame L c c'"

lemma insert_descend:
  assumes inv: "cinv c L P V H" and al: "rc_page_size c dvd rk_len key" and len: "length vals = rk_len key"
    and ck: "rk_child_key key (rc_page_size c) = Inr ck"
  shows "\<exists>node key' ck' c' L' P' V'.
    insert_loop (Suc (rk_len key)) t pr chunked (root_node c) key vals ck 0 c =
      Inr (node, key', drop (length (P' node)) vals, ck', length (P' node), c') \<and>
    descended c L P V H key node key' ck' c' L' P' V'"
proof -
  note T = tree_ok_D [OF cinv_tree [OF inv], simplified]
  have "\<exists>node' key' ck' c' L' P' V'.
    insert_loop (Suc (rk_len key)) t pr chunked (root_node c) key vals ck 0 c =
      Inr (node', key', drop (length (P' node') - length (P (root_node c))) vals, ck',
           0 + (length (P' node') - length (P (root_node c))), c') \<and>
    cinv c' L' P' V' H \<and> node' \<in> L' \<and> length (P (root_node c)) \<le> length (P' node') \<and>
    P' node' @ tunits key' = P (root_node c) @ tunits key \<and> rc_page_size c dvd rk_len key' \<and>
    (0 < rk_len key' \<longrightarrow> rk_child_key key' (rc_page_size c) = Inr ck' \<and> map_of (tn_children (nd c' node')) ck' = None) \<and>
    extends L P V L' P' V' \<and> entries L' P' V' = entries L P V \<and> frame L c c'"
    using inv T(3) al len ck by (intro insert_loop_ok) simp_all
  then show ?thesis using T(5) unfolding descended_def by auto
qed

lemma descended_D:
  assumes d: "descended c L P V H key node key' ck' c' L' P' V'"
  shows "rc_page_size c' = rc_page_size c" "rk_len key = length (P' node) + rk_len key'" "length (V' node) = length (P' node)"
    "(P' node, V' node) \<in> entries L P V" "rc_page_size c dvd length (P' node)"
    "\<forall>n \<in> L. page_floor (rc_page_size c) (lcp_len (tunits key) (P n)) \<le> length (P' node)"
proof -
  have I: "cinv c' L' P' V' H" "node \<in> L'" "P' node @ tunits key' = tunits key" "rc_page_size c dvd rk_len key'"
    "0 < rk_len key' \<longrightarrow> rk_child_key key' (rc_page_size c) = Inr ck' \<and> map_of (tn_children (nd c' node)) ck' = None"
    "extends L P V L' P' V'" "entries L' P' V' = entries L P V" "frame L c c'"
    using d by (simp_all add: descended_def)
  show ps: "rc_page_size c' = rc_page_size c" using I(8) by (simp add: frame_def conf_def)
  show "rk_len key = length (P' node) + rk_len key'" using arg_cong [OF I(3), of length] by simp
  show len: "length (V' node) = length (P' node)" using length_V [OF cinv_tree [OF I(1)] I(2)] .
  show "(P' node, V' node) \<in> entries L P V" using entries_I [OF I(2), of "length (P' node)" P' V'] I(7) len by simp
  show "rc_page_size c dvd length (P' node)" using dvd_P [OF cinv_tree [OF I(1)] I(2)] ps by simp
  have "deepest (rc_page_size c') L' P' (P' node @ tunits key') node"
    using I(4,5) ps by (intro stuck_deepest [OF I(1,2), of _ ck']) auto
  then show "\<forall>n \<in> L. page_floor (rc_page_size c) (lcp_len (tunits key) (P n)) \<le> length (P' node)"
    using I(3,6) ps unfolding deepest_def extends_def by (metis subsetD)
qed

lemma inserted_at_end:
  assumes d: "descended c L P V H key node key' ck' c' L' P' V'" and k: "rk_len key' = 0" and len: "length vals = rk_len key"
  shows "inserted (rc_page_size c) L P V L' P' V' (tunits key) vals (length (P' node)) node"
proof -
  note D = descended_D [OF d]
  have I: "node \<in> L'" "extends L P V L' P' V'" "entries L' P' V' = entries L P V" "P' node @ tunits key' = tunits key"
    using d by (simp_all add: descended_def)
  moreover have "tunits key' = []" using k by simp
  ultimately have K: "P' node = tunits key" by simp
  have "{(take k (tunits key), take k (V' node)) | k. True} \<subseteq> entries L' P' V'"
    using entries_I [OF I(1), of _ P' V'] K by auto
  then have "entries L' P' V' = entries L P V \<union> {(take k (tunits key), take k (V' node)) | k. True}"
    using I(3) by blast
  moreover have "length (P' node) = rk_len key" using D(2) k by simp
  ultimately show ?thesis unfolding inserted_def using I(1,2) K D(3-6) len by simp
qed

lemma inserted_leaf:
  assumes d: "descended c L P V H key node key' ck' c' L' P' V'" and k: "0 < rk_len key'" and len: "length vals = rk_len key"
  shows "\<exists>c4 L4 P4 V4 x. add_leaf node key' (drop (length (P' node)) vals) ck' pr chunked c' = Inr (x, c4) \<and> cinv c4 L4 P4 V4 H \<and>
    frame L c c4 \<and> inserted (rc_page_size c) L P V L4 P4 V4 (tunits key) vals (length (P' node)) x"
proof -
  note D = descended_D [OF d]
  have I: "cinv c' L' P' V' H" "node \<in> L'" "P' node @ tunits key' = tunits key" "rc_page_size c dvd rk_len key'"
    "rk_child_key key' (rc_page_size c) = Inr ck'" "map_of (tn_children (nd c' node)) ck' = None"
    "extends L P V L' P' V'" "entries L' P' V' = entries L P V" "frame L c c'"
    using d k by (simp_all add: descended_def)
  define val' where "val' = drop (length (P' node)) vals"
  have ad: "addable (view c') L' P' V' node key' val' ck'"
    using k I(2,4-6) cinv_tree [OF I(1)] D(1,2) len by (simp add: addable_def val'_def)
  let ?x = "rc_counter c'" and ?P = "leaf_P (view c') P' node key'" and ?V = "leaf_V (view c') V' node val'"
  obtain c4 where c4: "add_leaf node key' val' ck' pr chunked c' = Inr (?x, c4)" "cinv c4 (insert ?x L') ?P ?V H" "frame L' c' c4"
    using add_leaf_ok [OF I(1) ad] by blast
  have x: "?P ?x = tunits key" "?V ?x = V' node @ val'" using I(3) by (simp_all add: leaf_P_def leaf_V_def)
  have "extends L' P' V' (insert ?x L') ?P ?V"
    using addable_D(8) [OF ad] by (auto simp: extends_def leaf_P_def leaf_V_def)
  then have "extends L P V (insert ?x L') ?P ?V" by (rule extends_trans [OF I(7)])
  moreover have "take (length (P' node)) (tunits key) = P' node" using I(3) by (metis append_eq_conv_conj)
  moreover have "entries (insert ?x L') ?P ?V = entries L P V \<union> {(take k (tunits key), take k (V' node @ val')) | k. True}"
    using leaf_entries [OF ad] I(3,8) by simp
  ultimately have "inserted (rc_page_size c) L P V (insert ?x L') ?P ?V (tunits key) vals (length (P' node)) ?x"
    using D unfolding inserted_def x by (simp add: val'_def)
  moreover have "frame L c c4" using frame_trans [OF I(9) c4(3)] I(7) by (simp add: extends_def)
  ultimately show ?thesis using c4(1,2) unfolding val'_def by blast
qed

lemma insert_helper_ok:
  assumes inv: "cinv c L P V H" and al: "rc_page_size c dvd rk_len key" and len: "length vals = rk_len key"
  shows "\<exists>plen node c' L' P' V'. insert_helper (root_node c) key vals prio chunked c = Inr (plen, node, c') \<and>
    cinv c' L' P' V' H \<and> frame L c c' \<and>
    inserted (rc_page_size c) L P V L' P' V' (tunits key) vals plen node"
proof -
  note T = tree_ok_D [OF cinv_tree [OF inv], simplified]
  define pr where "pr = (case prio of None \<Rightarrow> 0 | Some p \<Rightarrow> p)"
  define t c1 where "t = fst (monotonic c)" and "c1 = snd (monotonic c)"
  define c2 where "c2 = upd_node (root_node c) (\<lambda>n. n\<lparr>last_access_time := t, tn_priority := max (tn_priority n) pr\<rparr>) c1"
  have c2_inv: "cinv c2 L P V H \<longleftrightarrow> cinv c L P V H"
    by (rule cinv_cong) (simp_all add: c2_def c1_def monotonic_def view_def upd_node_def conf_def fun_eq_iff)
  have fr: "frame L c c2" "rc_page_size c2 = rc_page_size c" "root_node c2 = root_node c"
    by (simp_all add: c2_def c1_def monotonic_def upd_node_def frame_def conf_def)
  have helper: "insert_helper (root_node c) key vals prio chunked c =
      (if rk_len key = 0 then Inr (0, root_node c, c2)
       else rbind (rk_child_key key (rc_page_size c2)) (\<lambda>ck.
              rbind (insert_loop (Suc (rk_len key)) t pr chunked (root_node c) key vals ck 0 c2)
                (\<lambda>(node', key', val', ck', total_len, c3).
                if 0 < rk_len key'
                then rbind (add_leaf node' key' val' ck' pr chunked c3) (\<lambda>(x, c4). Inr (total_len, x, c4))
                else Inr (total_len, node', c3))))"
    unfolding insert_helper_def c2_def c1_def t_def pr_def Let_def split_def ..
  have root_in: "([], []) \<in> entries L P V"
    unfolding entries_def using T(3) by (intro CollectI exI [of _ "root_node c"] exI [of _ 0]) simp
  show ?thesis
  proof (cases "rk_len key = 0")
    case True
    then have "tunits key = []" "vals = []" using len by simp_all
    then have "inserted (rc_page_size c) L P V L P V (tunits key) vals 0 (root_node c)"
      using T root_in by (auto simp: inserted_def simp del: tunits_eq_Nil_iff)
    then show ?thesis using True helper inv c2_inv fr by auto
  next
    case False
    obtain ck where ck: "rk_child_key key (rc_page_size c) = Inr ck"
      using rk_child_key_eq [OF T(4), of key] dvd_imp_le [OF al] False by auto
    obtain node key' ck' c3 L' P' V' where I:
      "insert_loop (Suc (rk_len key)) t pr chunked (root_node c2) key vals ck 0 c2 =
        Inr (node, key', drop (length (P' node)) vals, ck', length (P' node), c3)"
      and d: "descended c2 L P V H key node key' ck' c3 L' P' V'"
      using insert_descend [of c2 L P V H key vals ck t pr chunked] inv c2_inv al len ck fr(2) by auto
    have d3: "cinv c3 L' P' V' H" "frame L c c3" using d frame_trans [OF fr(1), of L c3] by (simp_all add: descended_def)
    show ?thesis
    proof (cases "rk_len key' = 0")
      case True
      then show ?thesis using False I helper ck fr d3 inserted_at_end [OF d True len] by auto
    next
      case nz: False
      then obtain c4 L4 P4 V4 x where "add_leaf node key' (drop (length (P' node)) vals) ck' pr chunked c3 = Inr (x, c4)"
        "cinv c4 L4 P4 V4 H" "frame L c2 c4" "inserted (rc_page_size c) L P V L4 P4 V4 (tunits key) vals (length (P' node)) x"
        using inserted_leaf [OF d _ len, of pr chunked] fr(2) by auto
      then show ?thesis using False nz I helper ck fr frame_trans [OF fr(1), of L c4] by auto
    qed
  qed
qed

definition insert_vals :: "radix_cache \<Rightarrow> radix_key \<Rightarrow> int list option \<Rightarrow> int list" where
  "insert_vals c key0 value0 =
     take (rk_len (query c key0)) (case value0 of Some v \<Rightarrow> v | None \<Rightarrow> token_ids (query c key0))"

lemma rk_len_le_tokens: "rk_len k \<le> length (token_ids k)"
  using rk_len_plain [of k] rk_len_bigram [of k] by (cases "is_bigram k") auto

lemma rc_insert_eq:
  assumes "\<not> rc_disable c"
  shows "rc_insert key0 value0 prio chunked c =
    rbind (insert_helper (root_node c) (query c key0) (insert_vals c key0 value0) prio chunked c)
      (\<lambda>(prefix_len, last_node, c').
        Inr (\<lparr>ir_prefix_len = prefix_len, ir_last_device_node = Some last_node\<rparr>, c'))"
proof -
  let ?m = "maybe_to_bigram_view key0 (is_eagle c) value0"
  have k: "fst ?m = fst (maybe_to_bigram_view key0 (is_eagle c) (None :: int list option))"
    by (simp add: maybe_to_bigram_view_def Let_def)
  have v: "(case snd ?m of Some v \<Rightarrow> take (rk_len (query c key0)) v
      | None \<Rightarrow> take (rk_len (query c key0)) (token_ids (query c key0))) = insert_vals c key0 value0"
    by (auto simp: maybe_to_bigram_view_def Let_def insert_vals_def query_def min_absorb1 split: option.split)
  have q: "page_aligned (fst ?m) (rc_page_size c) = query c key0" by (simp only: query_def k)
  show ?thesis
    using assms unfolding rc_insert_def Let_def
    by (simp only: if_False split_def q v)
qed

lemma rc_insert_ok:
  assumes inv: "cinv c L P V H" and en: "\<not> rc_disable c"
    and len: "\<And>v. value0 = Some v \<Longrightarrow> rk_len (query c key0) \<le> length v"
  shows "\<exists>plen node c' L' P' V'.
    rc_insert key0 value0 prio chunked c = Inr (\<lparr>ir_prefix_len = plen, ir_last_device_node = Some node\<rparr>, c') \<and>
    cinv c' L' P' V' H \<and> frame L c c' \<and>
    inserted (rc_page_size c) L P V L' P' V' (tunits (query c key0)) (insert_vals c key0 value0) plen node"
proof -
  have "length (insert_vals c key0 value0) = rk_len (query c key0)"
    using len rk_len_le_tokens [of "query c key0"] by (auto simp: insert_vals_def min_absorb2 split: option.split)
  moreover have "rc_page_size c dvd rk_len (query c key0)" by (simp add: query_def)
  ultimately obtain plen node c' L' P' V' where
    "insert_helper (root_node c) (query c key0) (insert_vals c key0 value0) prio chunked c = Inr (plen, node, c')"
    "cinv c' L' P' V' H" "frame L c c'"
    "inserted (rc_page_size c) L P V L' P' V' (tunits (query c key0)) (insert_vals c key0 value0) plen node"
    using insert_helper_ok [OF inv] by blast
  then show ?thesis using rc_insert_eq [OF en] by auto
qed

text \<open>A key that was just inserted is found in full, at the node the insert returned.\<close>

lemma match_inserted:
  assumes inv: "cinv c L P V H" and en: "\<not> rc_disable c"
    and node: "node \<in> L" "P node = tunits (query c key)"
  shows "\<exists>c' L' P' V'. match_prefix key c = Inr (MatchResult (V node) node, c') \<and> cinv c' L' P' V' H \<and>
    extends L P V L' P' V' \<and> entries L' P' V' = entries L P V \<and> frame L c c'"
proof -
  obtain n c' L' P' V' where m: "match_prefix key c = Inr (MatchResult (V' n) n, c')" "cinv c' L' P' V' H"
    "deepest (rc_page_size c) L' P' (tunits (query c key)) n" "extends L P V L' P' V'"
    "entries L' P' V' = entries L P V" "frame L c c'"
    using match_prefix_ok [OF inv en] by blast
  have node': "node \<in> L'" "P' node = tunits (query c key)" "V' node = V node"
    using node m(4) by (auto simp: extends_def)
  let ?K = "tunits (query c key)"
  have "lcp_len ?K ?K = length ?K" by (rule lcp_len_eqI) auto
  moreover have "page_floor (rc_page_size c) (length ?K) = length ?K" by (simp add: query_def)
  ultimately have "length ?K \<le> length (P' n)" using m(3) node' by (auto simp: deepest_def)
  moreover have "prefix (P' n) ?K" "n \<in> L'" using m(3) by (simp_all add: deepest_def)
  ultimately have "P' n = P' node" using node'(2) by (metis append.right_neutral append_Nil2 append_eq_conv_conj prefixE take_all)
  then have "n = node" using tree_ok_D(7) [OF cinv_tree [OF m(2)]] \<open>n \<in> L'\<close> node'(1) by (simp add: inj_onD)
  then show ?thesis using m node' by auto
qed

end
