(* ===== verification/Radix_Lock.thy ===== *)
theory Radix_Lock
  imports Radix_Match
begin

text \<open>
  Reference counts: \<^verbatim>\<open>inc_lock_ref\<close> adds a node to the multiset of held nodes,
  \<^verbatim>\<open>dec_lock_ref\<close> takes one away. Both keep the two size counters and the set of evictable
  leaves exact, and neither runs past the root.
\<close>

section \<open>The set of evictable leaves\<close>

lemma view_update_leaf [simp]:
  "view (update_leaf_status n c) = (view c)\<lparr>v_leaves := evictable_leaves (update_leaf_status n c)\<rparr>"
  by (auto simp: view_def update_leaf_status_def)

lemma update_leaf_rest [simp]:
  "rc_nodes (update_leaf_status n c) = rc_nodes c" "conf (update_leaf_status n c) = conf c"
  "session_leaves (update_leaf_status n c) = session_leaves c"
  "closed_session_ids (update_leaf_status n c) = closed_session_ids c"
  "kv_event_queue (update_leaf_status n c) = kv_event_queue c"
  "root_node (update_leaf_status n c) = root_node c" "rc_counter (update_leaf_status n c) = rc_counter c"
  "rc_evictable_size (update_leaf_status n c) = rc_evictable_size c"
  "rc_protected_size (update_leaf_status n c) = rc_protected_size c"
  by (auto simp: update_leaf_status_def conf_def)

lemma tree_ok_leaves [simp]: "tree_ok (v\<lparr>v_leaves := ls\<rparr>) L P V \<longleftrightarrow> tree_ok v L P V"
  by (simp add: tree_ok_def edge_def kids_ok_def trie_def)

lemma not_evicted:
  assumes "tree_ok (view c) L P V" "n \<in> L"
  shows "\<not> evicted (nd c n)"
proof (cases "n = root_node c")
  case True
  then show ?thesis using assms(1) by (simp add: tree_ok_def evicted_def)
next
  case False
  then have "n \<noteq> v_root (view c)" by simp
  then obtain p where "edge (view c) P V p n" by (rule tree_ok_edge [OF assms])
  then show ?thesis by (auto simp: edge_def evicted_def)
qed

lemma update_leaf_set:
  assumes ok: "tree_ok (view c) L P V" and n: "n \<in> L" and nn: "0 \<le> lock_ref (nd c n)"
  shows "evictable_leaves (update_leaf_status n c) =
    (if lock_ref (nd c n) = 0 \<and> tn_children (nd c n) = [] then set_add n (evictable_leaves c)
     else set_discard n (evictable_leaves c))"
proof -
  have "\<not> evicted (nd c m)" if "(k, m) \<in> set (tn_children (nd c n))" for k m
    using that children_iff [OF ok n, of m] not_evicted [OF ok] by auto
  then have "(\<exists>(k, m) \<in> set (tn_children (nd c n)). \<not> evicted (nd c m)) \<longleftrightarrow> tn_children (nd c n) \<noteq> []"
    by (cases "tn_children (nd c n)") auto
  then show ?thesis using not_evicted [OF ok n] nn by (auto simp: update_leaf_status_def)
qed

text \<open>The leaves are right at every node but perhaps \<open>n\<close>: updating \<open>n\<close> makes them right.\<close>

lemma update_leaf_ok:
  assumes ok: "tree_ok (view c) L P V" and n: "n \<in> L" and nn: "0 \<le> lock_ref (nd c n)"
    and root: "0 < lock_ref (nd c (root_node c))"
    and d: "distinct (evictable_leaves c)"
    and others: "set (evictable_leaves c) - {n} =
      {m \<in> unlocked (view c) L. tn_children (nd c m) = []} - {n}"
  shows "leaves_ok (view (update_leaf_status n c)) L"
proof -
  define T where "T = {m \<in> unlocked (view c) L. tn_children (nd c m) = []}"
  have "n \<in> T \<longleftrightarrow> lock_ref (nd c n) = 0 \<and> tn_children (nd c n) = []"
    using n root by (auto simp: T_def unlocked_def)
  then have "set (evictable_leaves (update_leaf_status n c)) =
    (if n \<in> T then insert n (set (evictable_leaves c)) else set (evictable_leaves c) - {n})"
    by (simp add: update_leaf_set [OF ok n nn])
  also have "\<dots> = T" using others [folded T_def] by (cases "n \<in> T") auto
  finally have "set (evictable_leaves (update_leaf_status n c)) = T" .
  moreover have "distinct (evictable_leaves (update_leaf_status n c))"
    using d by (auto simp: update_leaf_set [OF ok n nn])
  ultimately show ?thesis by (simp add: leaves_ok_def T_def unlocked_def)
qed

section \<open>One node\<close>

text \<open>What a change of one lock count does to the size counters.\<close>

definition relock :: "tree_view \<Rightarrow> nat \<Rightarrow> int \<Rightarrow> tree_view" where
  "relock v n k =
     (let d = (if v_lock v n = 0 \<and> k \<noteq> 0 then - key_size v n
               else if v_lock v n \<noteq> 0 \<and> k = 0 then key_size v n else 0)
      in v\<lparr>v_lock := (v_lock v)(n := k), v_esize := v_esize v + d, v_psize := v_psize v - d\<rparr>)"

lemma relock_tree [simp]: "tree_ok (relock v n k) L P V \<longleftrightarrow> tree_ok v L P V"
  by (simp add: relock_def Let_def tree_ok_def edge_def kids_ok_def trie_def)

lemma relock_sel [simp]:
  "v_lock (relock v n k) = (v_lock v)(n := k)" "v_leaves (relock v n k) = v_leaves v"
  "v_root (relock v n k) = v_root v" "v_children (relock v n k) = v_children v"
  "v_key (relock v n k) = v_key v"
  by (simp_all add: relock_def Let_def)

lemma relock_sizes:
  assumes "sizes_ok v L" "finite L" "n \<in> L" "n \<noteq> v_root v"
  shows "sizes_ok (relock v n k) L"
proof -
  let ?v = "relock v n k"
  have ks: "key_size ?v = key_size v" by (simp add: key_size_def fun_eq_iff)
  have "unlocked ?v L = (if k = 0 then insert n (unlocked v L) else unlocked v L - {n})"
    "locked ?v L = (if k = 0 then locked v L - {n} else insert n (locked v L))"
    "n \<in> unlocked v L \<longleftrightarrow> v_lock v n = 0" "n \<in> locked v L \<longleftrightarrow> v_lock v n \<noteq> 0"
    "finite (unlocked v L)" "finite (locked v L)"
    using assms(2-4) by (auto simp: unlocked_def locked_def)
  then show ?thesis using assms(1)
    by (auto simp: sizes_ok_def ks sum_diff1 sum.insert_if insert_absorb) (auto simp: relock_def Let_def)
qed

text \<open>The part of the invariant that holds in the middle of a walk to the root.\<close>

definition walk_inv :: "radix_cache \<Rightarrow> nat set \<Rightarrow> (nat \<Rightarrow> units) \<Rightarrow> (nat \<Rightarrow> int list) \<Rightarrow> bool" where
  "walk_inv c L P V \<longleftrightarrow>
     tree_ok (view c) L P V \<and> sizes_ok (view c) L \<and> leaves_ok (view c) L \<and> events_ok c L \<and>
     0 < lock_ref (nd c (root_node c))"

lemma cinv_walk: "cinv c L P V H \<longleftrightarrow> walk_inv c L P V \<and> locks_ok (view c) L P H"
  by (auto simp: cinv_def walk_inv_def cache_ok_def locks_ok_def)

lemma relock_ok:
  assumes inv: "walk_inv c L P V" and n: "n \<in> L" "n \<noteq> root_node c" and k: "0 \<le> k"
    and v: "view c2 = relock (view c) n k" and ev: "events_ok c2 L"
  shows "walk_inv (update_leaf_status n c2) L P V"
proof -
  have ok: "tree_ok (view c2) L P V" using inv v by (simp add: walk_inv_def)
  have lock: "lock_ref (nd c2 m) = (if m = n then k else lock_ref (nd c m))"
    "tn_children (nd c2 m) = tn_children (nd c m)" "root_node c2 = root_node c"
    "evictable_leaves c2 = evictable_leaves c" for m
    using arg_cong [OF v, of "\<lambda>v. v_lock v m"] arg_cong [OF v, of "\<lambda>v. v_children v m"]
      arg_cong [OF v, of v_root] arg_cong [OF v, of v_leaves] by simp_all
  have root: "0 < lock_ref (nd c2 (root_node c2))" using inv n lock by (simp add: walk_inv_def)
  have "unlocked (view c2) L - {n} = unlocked (view c) L - {n}" using lock by (auto simp: unlocked_def)
  then have others: "set (evictable_leaves c2) - {n} =
      {m \<in> unlocked (view c2) L. tn_children (nd c2 m) = []} - {n}"
    using inv lock by (auto simp: walk_inv_def leaves_ok_def)
  have "leaves_ok (view (update_leaf_status n c2)) L"
    using inv lock k by (intro update_leaf_ok [OF ok n(1) _ root _ others]) (simp_all add: walk_inv_def leaves_ok_def)
  moreover have "sizes_ok (view c2) L"
    using relock_sizes [of "view c" L n k] inv n v tree_ok_D(2) [of "view c"] by (auto simp: walk_inv_def)
  then have "sizes_ok (view (update_leaf_status n c2)) L"
    by (simp add: sizes_ok_def unlocked_def locked_def key_size_def)
  moreover have "events_ok (update_leaf_status n c2) L"
    using ev conf_D [of "update_leaf_status n c2" c2] by (simp add: events_ok_def native_hash_ok_def)
  ultimately show ?thesis using ok root by (simp add: walk_inv_def)
qed

definition set_lock :: "nat \<Rightarrow> int \<Rightarrow> radix_cache \<Rightarrow> radix_cache" where
  "set_lock n k c =
     (let len = int (rk_len (tn_key (nd c n)));
          d = (if lock_ref (nd c n) = 0 \<and> k \<noteq> 0 then - len
               else if lock_ref (nd c n) \<noteq> 0 \<and> k = 0 then len else 0)
      in upd_node n (\<lambda>x. x\<lparr>lock_ref := k\<rparr>)
           (c\<lparr>rc_evictable_size := rc_evictable_size c + d, rc_protected_size := rc_protected_size c - d\<rparr>))"

lemma lock_node_eq:
  "0 \<le> lock_ref (nd c n) \<Longrightarrow>
    lock_node n d c = (if lock_ref (nd c n) = 0 then d - int (rk_len (tn_key (nd c n))) else d,
      update_leaf_status n (set_lock n (lock_ref (nd c n) + 1) c))"
  by (auto simp: lock_node_def set_lock_def Let_def upd_node_def)

lemma unlock_node_eq:
  "0 < lock_ref (nd c n) \<Longrightarrow>
    unlock_node n d c = (if lock_ref (nd c n) = 1 then d + int (rk_len (tn_key (nd c n))) else d,
      update_leaf_status n (set_lock n (lock_ref (nd c n) - 1) c))"
  by (auto simp: unlock_node_def set_lock_def Let_def upd_node_def)

lemma view_set_lock: "view (set_lock n k c) = relock (view c) n k"
  by (auto simp: set_lock_def relock_def key_size_def Let_def view_def upd_node_def fun_eq_iff)

lemma set_lock_rest:
  "frame L c (set_lock n k c)" "events_ok (set_lock n k c) L \<longleftrightarrow> events_ok c L"
  "kv_event_queue (set_lock n k c) = kv_event_queue c"
  by (auto simp: set_lock_def Let_def upd_node_def frame_def conf_def events_ok_def native_hash_ok_def)

text \<open>One step of either walk.\<close>

lemma set_lock_ok:
  assumes inv: "walk_inv c L P V" and n: "n \<in> L" "n \<noteq> root_node c" and k: "0 \<le> k"
  defines "c' \<equiv> update_leaf_status n (set_lock n k c)"
  shows "walk_inv c' L P V" "\<And>m. lock_ref (nd c' m) = (if m = n then k else lock_ref (nd c m))"
    "\<And>m. tn_parent (nd c' m) = tn_parent (nd c m)" "root_node c' = root_node c" "rc_counter c' = rc_counter c"
    "frame L c c'" "\<And>m. tn_key (nd c' m) = tn_key (nd c m)"
proof -
  have "events_ok (set_lock n k c) L" using inv by (simp add: set_lock_rest walk_inv_def)
  then show "walk_inv c' L P V"
    unfolding c'_def by (rule relock_ok [OF inv n k view_set_lock])
  show "\<And>m. lock_ref (nd c' m) = (if m = n then k else lock_ref (nd c m))"
    "\<And>m. tn_parent (nd c' m) = tn_parent (nd c m)" "root_node c' = root_node c" "rc_counter c' = rc_counter c"
    "\<And>m. tn_key (nd c' m) = tn_key (nd c m)"
    by (simp_all add: c'_def) (simp_all add: set_lock_def Let_def upd_node_def)
  show "frame L c c'" using set_lock_rest(1) [of L c n k] by (simp add: c'_def frame_def)
qed

section \<open>Ancestors\<close>

definition anc :: "nat set \<Rightarrow> (nat \<Rightarrow> units) \<Rightarrow> nat \<Rightarrow> nat set" where
  "anc L P n = {m \<in> L. prefix (P m) (P n)}"

text \<open>The path of the parent: the ancestors of a node are the node and those of its parent.\<close>

lemma anc_parent:
  assumes ok: "tree_ok v L P V" and p: "p \<in> L" and n: "n \<in> L" "n \<noteq> v_root v" and e: "edge v P V p n"
  shows "anc L P n = insert n (anc L P p)" "n \<notin> anc L P p"
proof -
  have Pn: "P n = P p @ tunits (v_key v n)" using e by (simp add: edge_def)
  have "prefix (P m) (P p)" if m: "m \<in> L" "prefix (P m) (P n)" "m \<noteq> n" for m
  proof (rule ccontr)
    assume no: "\<not> prefix (P m) (P p)"
    have "prefix (P p) (P n)" by (simp add: Pn)
    then have "prefix (P p) (P m)" using no prefix_same_cases [OF m(2)] by blast
    moreover have "P p \<noteq> P m" using no by auto
    ultimately have "length (P p) < length (P m)" by (metis not_equal_is_parallel parallelD1 prefix_length_less prefix_order.less_le strict_prefix_def)
    then have "length (P p) + v_ps v \<le> length (P m)" using dvd_gap [OF dvd_P [OF ok p] dvd_P [OF ok m(1)]] by simp
    moreover have "prefix (P p @ take (v_ps v) (tunits (v_key v n))) (P n)" by (simp add: Pn take_is_prefix)
    ultimately have "prefix (P p @ take (v_ps v) (tunits (v_key v n))) (P m)"
      using prefix_length_prefix [OF _ m(2)] by simp
    then have "prefix (P n) (P m)" by (rule trieD [OF ok n e m(1)])
    then have "P n = P m" using m(2) by (simp add: prefix_order.antisym)
    then show False using tree_ok_D(7) [OF ok] m n by (simp add: inj_onD)
  qed
  moreover have "prefix (P m) (P n)" if "prefix (P m) (P p)" for m
    using that by (simp add: Pn prefix_prefix)
  ultimately show "anc L P n = insert n (anc L P p)" using n by (auto simp: anc_def)
  show "n \<notin> anc L P p" using edge_P_less [OF e] prefix_length_le by (fastforce simp: anc_def)
qed

lemma card_anc_less:
  assumes "tree_ok v L P V" "p \<in> L" "n \<in> L" "n \<noteq> v_root v" "edge v P V p n"
  shows "card (anc L P p) < card (anc L P n)"
proof -
  have "finite (anc L P p)" using tree_ok_D(2) [OF assms(1)] by (simp add: anc_def)
  then show ?thesis using anc_parent [OF assms] by simp
qed

lemma card_anc_le:
  assumes "tree_ok v L P V"
  shows "card (anc L P n) \<le> v_counter v"
proof -
  have "anc L P n \<subseteq> {..< v_counter v}" using tree_ok_D(1) [OF assms] by (auto simp: anc_def)
  from card_mono [OF _ this] show ?thesis by simp
qed

section \<open>Walks to the root\<close>

text \<open>The locks after a walk from \<open>n\<close>: \<open>d\<close> more on every ancestor below the root.\<close>

definition relocked :: "nat set \<Rightarrow> (nat \<Rightarrow> units) \<Rightarrow> nat \<Rightarrow> int \<Rightarrow> radix_cache \<Rightarrow> radix_cache \<Rightarrow> bool" where
  "relocked L P n d c c' \<longleftrightarrow>
     (\<forall>m. tn_key (nd c' m) = tn_key (nd c m)) \<and>
     (\<forall>m. lock_ref (nd c' m) =
        lock_ref (nd c m) + (if m \<in> anc L P n \<and> m \<noteq> root_node c then d else 0))"

lemma relocked_root:
  assumes ok: "tree_ok (view c) L P V"
  shows "relocked L P (root_node c) d c c"
proof -
  have "m = root_node c" if "m \<in> L" "prefix (P m) (P (root_node c))" for m
  proof -
    have "P m = []" using that(2) tree_ok_D(5) [OF ok] by simp
    then show ?thesis using P_eq_root_iff [OF ok that(1)] by simp
  qed
  then show ?thesis by (auto simp: relocked_def anc_def)
qed

lemma relocked_step:
  assumes ok: "tree_ok (view c) L P V" and e: "p \<in> L" "n \<in> L" "n \<noteq> root_node c" "edge (view c) P V p n"
    and one: "\<And>m. lock_ref (nd c1 m) = (if m = n then lock_ref (nd c n) + d else lock_ref (nd c m))"
      "root_node c1 = root_node c" "\<And>m. tn_key (nd c1 m) = tn_key (nd c m)"
    and rest: "relocked L P p d c1 c'"
  shows "relocked L P n d c c'"
  using anc_parent [OF ok e(1,2) _ e(4)] e(3) one rest by (auto simp: relocked_def)

lemma set_lock_delta:
  "rc_evictable_size (update_leaf_status n (set_lock n k c)) - rc_evictable_size c =
     (if lock_ref (nd c n) = 0 \<and> k \<noteq> 0 then - int (rk_len (tn_key (nd c n)))
      else if lock_ref (nd c n) \<noteq> 0 \<and> k = 0 then int (rk_len (tn_key (nd c n))) else 0)"
  by (simp add: set_lock_def Let_def upd_node_def)

lemma inc_lock_loop_ok:
  assumes "walk_inv c L P V" "n \<in> L" "card (anc L P n) < fuel" "\<forall>m \<in> L. 0 \<le> lock_ref (nd c m)"
  shows "\<exists>delta c'. inc_lock_loop fuel n d c = Inr (delta, c') \<and> walk_inv c' L P V \<and>
    relocked L P n 1 c c' \<and> frame L c c' \<and> delta - d = rc_evictable_size c' - rc_evictable_size c"
  using assms
proof (induction fuel arbitrary: n d c)
  case (Suc fuel)
  have ok: "tree_ok (view c) L P V" using Suc.prems(1) by (simp add: walk_inv_def)
  show ?case
  proof (cases "n = root_node c")
    case True
    with relocked_root [OF ok] Suc.prems(1) show ?thesis by simp
  next
    case False
    let ?k = "lock_ref (nd c n) + 1"
    define c1 where "c1 = update_leaf_status n (set_lock n ?k c)"
    obtain p where p: "p \<in> L" "edge (view c) P V p n"
      using tree_ok_edge [OF ok Suc.prems(2)] False by auto
    have nn: "0 \<le> lock_ref (nd c n)" using Suc.prems(2,4) by simp
    note S = set_lock_ok [OF Suc.prems(1,2) False, of ?k, folded c1_def]
    have par: "parent_of c1 n = Inr p" using S(3) nn p(2) by (simp add: parent_of_def edge_def)
    have "\<exists>delta c'. inc_lock_loop fuel p d' c1 = Inr (delta, c') \<and> walk_inv c' L P V \<and>
      relocked L P p 1 c1 c' \<and> frame L c1 c' \<and> delta - d' = rc_evictable_size c' - rc_evictable_size c1" for d'
      using S nn Suc.prems(3,4) card_anc_less [OF ok p(1) Suc.prems(2) _ p(2)] False
      by (intro Suc.IH p(1)) auto
    then obtain delta c' where IH: "inc_lock_loop fuel p (fst (lock_node n d c)) c1 = Inr (delta, c')"
      "walk_inv c' L P V" "relocked L P p 1 c1 c'" "frame L c1 c'"
      "delta - fst (lock_node n d c) = rc_evictable_size c' - rc_evictable_size c1" by blast
    have "relocked L P n 1 c c'"
      using S nn by (intro relocked_step [OF ok p(1) Suc.prems(2) False p(2) _ _ _ IH(3)]) auto
    moreover have "frame L c c'" using frame_trans [OF _ IH(4)] S(6) nn by simp
    moreover have "snd (lock_node n d c) = c1" using lock_node_eq [OF nn] by (simp add: c1_def)
    moreover have "fst (lock_node n d c) - d = rc_evictable_size c1 - rc_evictable_size c"
      using set_lock_delta [of n ?k c] nn by (simp add: lock_node_eq [OF nn] c1_def)
    ultimately show ?thesis using False IH par
      by (intro exI [of _ delta] exI [of _ c']) (simp add: case_prod_beta)
  qed
qed simp

lemma dec_lock_loop_ok:
  assumes "walk_inv c L P V" "n \<in> L" "card (anc L P n) < fuel"
    "\<forall>m \<in> anc L P n. m \<noteq> root_node c \<longrightarrow> 0 < lock_ref (nd c m)"
  shows "\<exists>delta c'. dec_lock_loop fuel n d c = Inr (delta, c') \<and> walk_inv c' L P V \<and>
    relocked L P n (- 1) c c' \<and> frame L c c' \<and> delta - d = rc_evictable_size c' - rc_evictable_size c"
  using assms
proof (induction fuel arbitrary: n d c)
  case (Suc fuel)
  have ok: "tree_ok (view c) L P V" using Suc.prems(1) by (simp add: walk_inv_def)
  show ?case
  proof (cases "n = root_node c")
    case True
    with relocked_root [OF ok] Suc.prems(1) show ?thesis by simp
  next
    case False
    let ?k = "lock_ref (nd c n) - 1"
    define c1 where "c1 = update_leaf_status n (set_lock n ?k c)"
    obtain p where p: "p \<in> L" "edge (view c) P V p n"
      using tree_ok_edge [OF ok Suc.prems(2)] False by auto
    have anc: "anc L P n = insert n (anc L P p)" "n \<notin> anc L P p"
      using anc_parent [OF ok p(1) Suc.prems(2) _ p(2)] False by simp_all
    have pos: "0 < lock_ref (nd c n)" using Suc.prems(4) False anc by simp
    note S = set_lock_ok [OF Suc.prems(1,2) False, of ?k, folded c1_def]
    have par: "tn_parent (nd c1 n) = Some p" using S(3) pos p(2) by (simp add: edge_def)
    have "\<exists>delta c'. dec_lock_loop fuel p d' c1 = Inr (delta, c') \<and> walk_inv c' L P V \<and>
      relocked L P p (- 1) c1 c' \<and> frame L c1 c' \<and> delta - d' = rc_evictable_size c' - rc_evictable_size c1" for d'
      using S pos Suc.prems(3,4) card_anc_less [OF ok p(1) Suc.prems(2) _ p(2)] False anc
      by (intro Suc.IH p(1)) auto
    then obtain delta c' where IH: "dec_lock_loop fuel p (fst (unlock_node n d c)) c1 = Inr (delta, c')"
      "walk_inv c' L P V" "relocked L P p (- 1) c1 c'" "frame L c1 c'"
      "delta - fst (unlock_node n d c) = rc_evictable_size c' - rc_evictable_size c1" by blast
    have "relocked L P n (- 1) c c'"
      using S pos by (intro relocked_step [OF ok p(1) Suc.prems(2) False p(2) _ _ _ IH(3)]) auto
    moreover have "frame L c c'" using frame_trans [OF _ IH(4)] S(6) pos by simp
    moreover have "snd (unlock_node n d c) = c1" using unlock_node_eq [OF pos] by (simp add: c1_def)
    moreover have "fst (unlock_node n d c) - d = rc_evictable_size c1 - rc_evictable_size c"
      using set_lock_delta [of n ?k c] pos by (simp add: unlock_node_eq [OF pos] c1_def)
    ultimately show ?thesis using False IH par
      by (intro exI [of _ delta] exI [of _ c']) (simp add: case_prod_beta)
  qed
qed simp

section \<open>Taking and releasing a lock\<close>

lemma below_add: "below P (add_mset n H) m = below P H m + (if prefix (P m) (P n) then 1 else 0)"
  by (simp add: below_def)

lemma locks_nonneg:
  assumes "cinv c L P V H"
  shows "\<forall>m \<in> L. 0 \<le> lock_ref (nd c m)"
proof
  fix m assume "m \<in> L"
  then show "0 \<le> lock_ref (nd c m)"
    using assms by (cases "m = root_node c") (auto simp: cinv_walk locks_ok_def)
qed

lemma inc_lock_ref_ok:
  assumes inv: "cinv c L P V H" and n: "n \<in> L" and en: "\<not> rc_disable c"
  shows "\<exists>delta c'. inc_lock_ref n c = Inr (delta, c') \<and> cinv c' L P V (add_mset n H) \<and> frame L c c' \<and>
    delta = rc_evictable_size c' - rc_evictable_size c \<and> relocked L P n 1 c c'"
proof -
  have w: "walk_inv c L P V" using inv by (simp add: cinv_walk)
  have "card (anc L P n) < Suc (rc_counter c)" using card_anc_le [OF cinv_tree [OF inv], of n] by simp
  from inc_lock_loop_ok [OF w n this locks_nonneg [OF inv], of 0] obtain delta c' where
    c': "inc_lock_loop (Suc (rc_counter c)) n 0 c = Inr (delta, c')" "walk_inv c' L P V" "relocked L P n 1 c c'"
      "frame L c c'" "delta = rc_evictable_size c' - rc_evictable_size c" by auto
  have "root_node c' = root_node c" using c'(4) by (simp add: frame_def conf_def)
  then have "locks_ok (view c') L P (add_mset n H)"
    using inv n c'(3) c'(2) by (auto simp: cinv_walk locks_ok_def relocked_def anc_def below_add walk_inv_def)
  then show ?thesis using c' en by (simp add: inc_lock_ref_def cinv_walk del: inc_lock_loop.simps)
qed

lemma dec_lock_ref_ok:
  assumes inv: "cinv c L P V H" and n: "n \<in># H" and en: "\<not> rc_disable c"
  shows "\<exists>delta c'. dec_lock_ref n c = Inr (delta, c') \<and> cinv c' L P V (H - {#n#}) \<and> frame L c c' \<and>
    delta = rc_evictable_size c' - rc_evictable_size c \<and> relocked L P n (- 1) c c'"
proof -
  have w: "walk_inv c L P V" and lk: "locks_ok (view c) L P H" using inv by (simp_all add: cinv_walk)
  then have nL: "n \<in> L" using n by (auto simp: locks_ok_def)
  obtain H' where H: "H = add_mset n H'" using n by (metis insert_DiffM)
  have "card (anc L P n) < Suc (rc_counter c)" using card_anc_le [OF cinv_tree [OF inv], of n] by simp
  moreover have "\<forall>m \<in> anc L P n. m \<noteq> root_node c \<longrightarrow> 0 < lock_ref (nd c m)"
    using lk by (auto simp: locks_ok_def anc_def H below_add)
  ultimately obtain delta c' where
    c': "dec_lock_loop (Suc (rc_counter c)) n 0 c = Inr (delta, c')" "walk_inv c' L P V" "relocked L P n (- 1) c c'"
      "frame L c c'" "delta = rc_evictable_size c' - rc_evictable_size c"
    using dec_lock_loop_ok [OF w nL, of "Suc (rc_counter c)" 0] by auto
  have "root_node c' = root_node c" using c'(4) by (simp add: frame_def conf_def)
  then have "locks_ok (view c') L P H'"
    using lk c'(3) c'(2) by (auto simp: cinv_walk locks_ok_def relocked_def anc_def below_add H walk_inv_def)
  then show ?thesis using c' en by (simp add: dec_lock_ref_def cinv_walk H del: dec_lock_loop.simps)
qed

text \<open>Releasing what was taken brings back every lock count and both size counters.\<close>

lemma inc_dec_lock_ref:
  assumes inv: "cinv c L P V H" and n: "n \<in> L" and en: "\<not> rc_disable c"
  shows "\<exists>d1 c1 d2 c2. inc_lock_ref n c = Inr (d1, c1) \<and> dec_lock_ref n c1 = Inr (d2, c2) \<and>
    cinv c1 L P V (add_mset n H) \<and> cinv c2 L P V H \<and> d1 + d2 = 0 \<and>
    rc_evictable_size c2 = rc_evictable_size c \<and> rc_protected_size c2 = rc_protected_size c \<and>
    (\<forall>m. lock_ref (nd c2 m) = lock_ref (nd c m))"
proof -
  obtain d1 c1 where c1: "inc_lock_ref n c = Inr (d1, c1)" "cinv c1 L P V (add_mset n H)" "frame L c c1"
    "d1 = rc_evictable_size c1 - rc_evictable_size c" "relocked L P n 1 c c1"
    using inc_lock_ref_ok [OF inv n en] by blast
  have root: "root_node c1 = root_node c" "\<not> rc_disable c1" using c1(3) en by (simp_all add: frame_def conf_def)
  have "n \<in># add_mset n H" by simp
  from dec_lock_ref_ok [OF c1(2) this root(2)] obtain d2 c2 where
    c2: "dec_lock_ref n c1 = Inr (d2, c2)" "cinv c2 L P V H" "frame L c1 c2"
    "d2 = rc_evictable_size c2 - rc_evictable_size c1" "relocked L P n (- 1) c1 c2" by auto
  have lk: "lock_ref (nd c2 m) = lock_ref (nd c m)" "tn_key (nd c2 m) = tn_key (nd c m)" for m
    using c1(5) c2(5) root by (auto simp: relocked_def)
  have r2: "root_node c2 = root_node c" using c2(3) root by (simp add: frame_def conf_def)
  have sz: "sizes_ok (view c) L" "sizes_ok (view c2) L" using inv c2(2) by (simp_all add: cinv_def cache_ok_def)
  have "unlocked (view c2) L = unlocked (view c) L" "locked (view c2) L = locked (view c) L"
    "key_size (view c2) = key_size (view c)"
    using lk r2 by (auto simp: unlocked_def locked_def key_size_def fun_eq_iff)
  then have "rc_evictable_size c2 = rc_evictable_size c" "rc_protected_size c2 = rc_protected_size c"
    using sz by (simp_all add: sizes_ok_def)
  then show ?thesis using c1 c2 lk(1) by auto
qed

end
