(* ===== verification/Allocator.thy ===== *)
theory Allocator
  imports Prelude
begin

text \<open>
  The allocators of KV-cache slots: \<^verbatim>\<open>mem_cache/allocator/base.py\<close>,
  \<^verbatim>\<open>token.py\<close>, \<^verbatim>\<open>paged.py\<close> and the Ascend variant
  \<^verbatim>\<open>hardware_backend/npu/allocator_npu.py\<close>. A tensor of slot or page numbers is a
  list of integers; \<^verbatim>\<open>torch.cat\<close> is append, \<^verbatim>\<open>torch.sort\<close> is \<open>sort\<close>
  and \<^verbatim>\<open>torch.unique\<close> the sorted list of the distinct elements. The interface
  \<open>kv_pool\<close> is what the prefix cache relies on.
\<close>

section \<open>The base class\<close>

record kv_alloc =
  ka_size :: nat
  ka_page_size :: nat
  ka_need_sort :: bool
  ka_debug_mode :: bool
  ka_num_pages :: nat
  free_pages :: "int list"
  release_pages :: "int list"
  is_not_in_free_group :: bool
  free_group :: "int list list"

definition base_init :: "nat \<Rightarrow> nat \<Rightarrow> bool \<Rightarrow> bool \<Rightarrow> kv_alloc" where
  "base_init sz ps need_sort debug =
     \<lparr>ka_size = sz, ka_page_size = ps, ka_need_sort = need_sort, ka_debug_mode = debug,
      ka_num_pages = sz div ps, free_pages = [], release_pages = [],
      is_not_in_free_group = True, free_group = []\<rparr>"

definition base_available_size :: "kv_alloc \<Rightarrow> nat" where
  "base_available_size a = (length (free_pages a) + length (release_pages a)) * ka_page_size a"

definition restore_state :: "int list \<times> int list \<Rightarrow> kv_alloc \<Rightarrow> kv_alloc" where
  "restore_state st a = a\<lparr>free_pages := fst st, release_pages := snd st\<rparr>"

definition backup_state :: "kv_alloc \<Rightarrow> int list \<times> int list" where
  "backup_state a = (free_pages a, release_pages a)"

definition free_group_begin :: "kv_alloc \<Rightarrow> kv_alloc" where
  "free_group_begin a = a\<lparr>is_not_in_free_group := False, free_group := []\<rparr>"

text \<open>\<^verbatim>\<open>free\<close> is a method of the subclass, so it is an argument here.\<close>

definition free_group_end :: "(kv_alloc \<Rightarrow> int list \<Rightarrow> kv_alloc) \<Rightarrow> kv_alloc \<Rightarrow> kv_alloc" where
  "free_group_end free a =
     (let a' = a\<lparr>is_not_in_free_group := True\<rparr> in
      if free_group a' \<noteq> [] then free a' (concat (free_group a')) else a')"

definition merge_and_sort_free :: "kv_alloc \<Rightarrow> kv_alloc" where
  "merge_and_sort_free a =
     (if 0 < length (release_pages a)
      then a\<lparr>free_pages := sort (free_pages a @ release_pages a), release_pages := []\<rparr>
      else a)"

text \<open>
  The guard in front of every allocation:
  \<^verbatim>\<open>if self.need_sort and n > len(self.free_pages): self.merge_and_sort_free()\<close>.
\<close>

definition merge_if_short :: "nat \<Rightarrow> kv_alloc \<Rightarrow> kv_alloc" where
  "merge_if_short n a =
     (if ka_need_sort a \<and> length (free_pages a) < n then merge_and_sort_free a else a)"

section \<open>The token allocator\<close>

definition token_clear :: "kv_alloc \<Rightarrow> kv_alloc" where
  "token_clear a =
     a\<lparr>free_pages := map int [1 ..< ka_size a + 1], is_not_in_free_group := True,
       free_group := [], release_pages := []\<rparr>"

definition token_init :: "nat \<Rightarrow> bool \<Rightarrow> kv_alloc" where
  "token_init sz need_sort = token_clear (base_init sz 1 need_sort False)"

definition token_available_size :: "kv_alloc \<Rightarrow> nat" where
  "token_available_size a = length (free_pages a) + length (release_pages a)"

definition token_alloc :: "kv_alloc \<Rightarrow> nat \<Rightarrow> int list option \<times> kv_alloc" where
  "token_alloc a need_size =
     (let a1 = merge_if_short need_size a
      in if length (free_pages a1) < need_size then (None, a1)
         else (Some (take need_size (free_pages a1)),
               a1\<lparr>free_pages := drop need_size (free_pages a1)\<rparr>))"

definition token_free :: "kv_alloc \<Rightarrow> int list \<Rightarrow> kv_alloc" where
  "token_free a free_index =
     (if free_index = [] then a
      else if is_not_in_free_group a
      then (if ka_need_sort a
            then a\<lparr>release_pages := release_pages a @ free_index\<rparr>
            else a\<lparr>free_pages := free_pages a @ free_index\<rparr>)
      else a\<lparr>free_group := free_group a @ [free_index]\<rparr>)"

section \<open>The paged allocator\<close>

definition torch_unique :: "int list \<Rightarrow> int list" where
  "torch_unique xs = sort (remdups xs)"

definition paged_clear :: "kv_alloc \<Rightarrow> kv_alloc" where
  "paged_clear a =
     a\<lparr>free_pages := map int [1 ..< ka_num_pages a + 1], is_not_in_free_group := True,
       free_group := [], release_pages := []\<rparr>"

definition paged_init :: "nat \<Rightarrow> nat \<Rightarrow> bool \<Rightarrow> bool \<Rightarrow> kv_alloc" where
  "paged_init sz ps need_sort debug = paged_clear (base_init sz ps need_sort debug)"

text \<open>\<open>(pages[:, None] * page_size + arange(page_size)).reshape(-1)\<close>\<close>

definition expand_pages :: "nat \<Rightarrow> int list \<Rightarrow> int list" where
  "expand_pages ps pages = concat (map (\<lambda>p. map (\<lambda>j. p * int ps + int j) [0 ..< ps]) pages)"

definition paged_alloc_core :: "kv_alloc \<Rightarrow> nat \<Rightarrow> int list option \<times> kv_alloc" where
  "paged_alloc_core a need_size =
     (let num_pages = need_size div ka_page_size a;
          a1 = merge_if_short num_pages a
      in if length (free_pages a1) < num_pages then (None, a1)
         else (Some (expand_pages (ka_page_size a) (take num_pages (free_pages a1))),
               a1\<lparr>free_pages := drop num_pages (free_pages a1)\<rparr>))"

definition paged_alloc :: "kv_alloc \<Rightarrow> nat \<Rightarrow> (int list option \<times> kv_alloc) result" where
  "paged_alloc a need_size =
     rbind (py_assert (ka_debug_mode a \<longrightarrow> need_size mod ka_page_size a = 0)) (\<lambda>_.
       Inr (paged_alloc_core a need_size))"

definition pages_of :: "nat \<Rightarrow> int list \<Rightarrow> int list" where
  "pages_of ps ix = torch_unique (map (\<lambda>i. i div int ps) ix)"

text \<open>\<^verbatim>\<open>free\<close>, up to the check that \<^verbatim>\<open>SGLANG_DEBUG_MEMORY_POOL\<close> adds at its end.\<close>

definition paged_free_step :: "kv_alloc \<Rightarrow> int list \<Rightarrow> kv_alloc" where
  "paged_free_step a free_index =
     (if free_index = [] then a
      else if is_not_in_free_group a
      then (let ps = pages_of (ka_page_size a) free_index in
            if ka_need_sort a
            then a\<lparr>release_pages := ps @ release_pages a\<rparr>
            else a\<lparr>free_pages := ps @ free_pages a\<rparr>)
      else a\<lparr>free_group := free_group a @ [free_index]\<rparr>)"

definition paged_free :: "kv_alloc \<Rightarrow> int list \<Rightarrow> kv_alloc result" where
  "paged_free a free_index =
     (let a' = paged_free_step a free_index in
      if free_index = [] then Inr a'
      else rbind (py_assert (ka_debug_mode a \<longrightarrow>
                     length (torch_unique (free_pages a')) = length (free_pages a')))
             (\<lambda>_. Inr a'))"

section \<open>The interface of a slot allocator\<close>

text \<open>
  What the clients of an allocator (the prefix caches, the request pool) rely on:
  \<open>slots a\<close> is the set of slots that are not handed out, \<open>univ a\<close> the set of
  all slots it manages, \<open>whole a\<close> holds of the sets of slots that may be given back
  (unions of whole pages).
\<close>

locale slot_pool =
  fixes release :: "'al \<Rightarrow> int list \<Rightarrow> 'al result"
    and used :: "'al \<Rightarrow> int set"
    and whole :: "'al \<Rightarrow> int set \<Rightarrow> bool"
    and inv :: "'al \<Rightarrow> bool"
  assumes release_ok: "inv a \<Longrightarrow> distinct ix \<Longrightarrow> set ix \<subseteq> used a \<Longrightarrow> whole a (set ix) \<Longrightarrow>
    \<exists>a'. release a ix = Inr a' \<and> inv a' \<and> used a' = used a - set ix \<and> whole a' = whole a"

locale kv_pool =
  fixes free :: "'al \<Rightarrow> int list \<Rightarrow> 'al"
    and alloc :: "'al \<Rightarrow> nat \<Rightarrow> int list option \<times> 'al"
    and slots :: "'al \<Rightarrow> int set"
    and univ :: "'al \<Rightarrow> int set"
    and whole :: "'al \<Rightarrow> int set \<Rightarrow> bool"
    and inv :: "'al \<Rightarrow> bool"
  assumes slots_univ: "inv a \<Longrightarrow> slots a \<subseteq> univ a"
    and free_ok: "inv a \<Longrightarrow> distinct ix \<Longrightarrow> set ix \<subseteq> univ a - slots a \<Longrightarrow> whole a (set ix) \<Longrightarrow>
      inv (free a ix) \<and> slots (free a ix) = slots a \<union> set ix \<and> univ (free a ix) = univ a \<and>
      whole (free a ix) = whole a"
    and alloc_Some: "inv a \<Longrightarrow> alloc a n = (Some ix, a') \<Longrightarrow>
      inv a' \<and> distinct ix \<and> set ix \<subseteq> slots a \<and> slots a' = slots a - set ix \<and>
      univ a' = univ a \<and> whole a' = whole a \<and> whole a (set ix)"
    and alloc_None: "inv a \<Longrightarrow> alloc a n = (None, a') \<Longrightarrow>
      inv a' \<and> slots a' = slots a \<and> univ a' = univ a \<and> whole a' = whole a"
begin

definition used :: "'al \<Rightarrow> int set" where
  "used a = univ a - slots a"

lemma free_used:
  assumes "inv a" "distinct ix" "set ix \<subseteq> used a" "whole a (set ix)"
  shows "inv (free a ix)" "used (free a ix) = used a - set ix"
    "univ (free a ix) = univ a" "whole (free a ix) = whole a"
  using free_ok [of a ix] assms by (auto simp: used_def)

lemma alloc_used:
  assumes "inv a" "alloc a n = (Some ix, a')"
  shows "inv a'" "used a' = used a \<union> set ix" "set ix \<inter> used a = {}" "distinct ix"
  using alloc_Some [OF assms] slots_univ [OF assms(1)] by (auto simp: used_def)

text \<open>Two allocations in a row never overlap.\<close>

lemma alloc_alloc_disjoint:
  assumes "inv a" "alloc a n = (Some ix, a')" "alloc a' m = (Some iy, a'')"
  shows "set ix \<inter> set iy = {}"
  using alloc_Some [OF assms(1,2)] alloc_Some [OF _ assms(3)] by blast

text \<open>Giving an allocation back restores the set of used slots.\<close>

lemma alloc_free:
  assumes "inv a" "alloc a n = (Some ix, a')"
  shows "inv (free a' ix)" "slots (free a' ix) = slots a" "univ (free a' ix) = univ a"
proof -
  have al: "inv a'" "distinct ix" "set ix \<subseteq> slots a" "slots a' = slots a - set ix"
    "univ a' = univ a" "whole a' (set ix)"
    using alloc_Some [OF assms] by simp_all
  have "set ix \<subseteq> univ a' - slots a'"
    using al slots_univ [OF assms(1)] by auto
  note fr = free_ok [OF al(1,2) this al(6)]
  show "inv (free a' ix)" using fr by simp
  show "slots (free a' ix) = slots a" using fr al(3,4) by auto
  show "univ (free a' ix) = univ a" using fr al(5) by simp
qed

end

sublocale kv_pool \<subseteq> slots: slot_pool "\<lambda>a ix. Inr (free a ix)" used whole inv
  by unfold_locales (use free_used in auto)

section \<open>Conservation of slots: the token allocator\<close>

text \<open>
  The indices collected since \<^verbatim>\<open>free_group_begin\<close>. The code leaves the list as it is at
  \<^verbatim>\<open>free_group_end\<close>, so outside a group it holds nothing that is still to be freed.
\<close>

definition pending :: "kv_alloc \<Rightarrow> int list" where
  "pending a = (if is_not_in_free_group a then [] else concat (free_group a))"

definition token_slots :: "kv_alloc \<Rightarrow> int set" where
  "token_slots a = set (free_pages a @ release_pages a @ pending a)"

definition token_univ :: "kv_alloc \<Rightarrow> int set" where
  "token_univ a = {1 .. int (ka_size a)}"

definition token_inv :: "kv_alloc \<Rightarrow> bool" where
  "token_inv a \<longleftrightarrow>
     distinct (free_pages a @ release_pages a @ pending a) \<and> token_slots a \<subseteq> token_univ a"

lemmas token_defs = token_inv_def token_slots_def token_univ_def

lemma pending_upd [simp]:
  "pending (a\<lparr>free_pages := xs\<rparr>) = pending a"
  "pending (a\<lparr>release_pages := xs\<rparr>) = pending a"
  "pending (a\<lparr>free_pages := xs, release_pages := ys\<rparr>) = pending a"
  by (simp_all add: pending_def)

lemma token_inv_init: "token_inv (token_init n srt)"
  by (auto simp: token_defs pending_def token_init_def token_clear_def base_init_def distinct_map)

lemma token_inv_merge:
  shows "token_inv a \<Longrightarrow> token_inv (merge_if_short n a)"
    and "token_slots (merge_if_short n a) = token_slots a"
    and "token_univ (merge_if_short n a) = token_univ a"
  by (simp_all add: token_defs merge_if_short_def merge_and_sort_free_def Un_assoc) blast

lemma mset_token_free:
  "mset (free_pages (token_free a ix) @ release_pages (token_free a ix) @ pending (token_free a ix)) =
     mset ((free_pages a @ release_pages a @ pending a) @ ix)"
  by (simp add: token_free_def pending_def)

lemma token_free_ok:
  assumes "token_inv a" "distinct ix" "set ix \<subseteq> token_univ a - token_slots a"
  shows "token_inv (token_free a ix)" "token_slots (token_free a ix) = token_slots a \<union> set ix"
    "token_univ (token_free a ix) = token_univ a"
proof -
  show univ: "token_univ (token_free a ix) = token_univ a"
    by (simp add: token_univ_def token_free_def)
  show slots: "token_slots (token_free a ix) = token_slots a \<union> set ix"
    using arg_cong [OF mset_token_free, of set_mset a ix] unfolding token_slots_def by (auto simp: Un_assoc)
  have "distinct ((free_pages a @ release_pages a @ pending a) @ ix)"
    using assms unfolding token_inv_def token_slots_def by auto
  then show "token_inv (token_free a ix)"
    using assms unfolding token_inv_def slots univ
    by (subst mset_eq_imp_distinct_iff [OF mset_token_free]) auto
qed

lemma token_take_ok:
  assumes "token_inv a" "n \<le> length (free_pages a)"
  defines "a' \<equiv> a\<lparr>free_pages := drop n (free_pages a)\<rparr>"
  shows "token_inv a'" "token_slots a' = token_slots a - set (take n (free_pages a))"
    "distinct (take n (free_pages a))" "set (take n (free_pages a)) \<subseteq> token_slots a"
    "token_univ a' = token_univ a"
proof -
  let ?t = "take n (free_pages a)" and ?d = "drop n (free_pages a)"
  have split: "free_pages a = ?t @ ?d" by simp
  have dist: "distinct (?t @ ?d @ release_pages a @ pending a)"
    using assms(1) split by (metis append_assoc token_inv_def)
  have p: "pending a' = pending a" by (simp add: a'_def pending_def)
  have "token_slots a = set ?t \<union> token_slots a'"
    by (subst token_slots_def, subst split, simp only: set_append)
      (auto simp: token_slots_def p a'_def)
  moreover have "set ?t \<inter> token_slots a' = {}"
    using dist by (auto simp: token_slots_def p a'_def)
  ultimately show "token_slots a' = token_slots a - set ?t" "set ?t \<subseteq> token_slots a" by auto
  then show "token_inv a'" using assms(1) dist by (auto simp: token_inv_def p, auto simp: a'_def token_univ_def)
  show "distinct ?t" using dist by simp
  show "token_univ a' = token_univ a" by (simp add: a'_def token_univ_def)
qed

interpretation tok: kv_pool token_free token_alloc token_slots token_univ "\<lambda>_ _. True" token_inv
proof
  fix a ix n a'
  show "token_inv a \<Longrightarrow> token_slots a \<subseteq> token_univ a"
    by (simp add: token_inv_def)
  show "token_inv a \<Longrightarrow> distinct ix \<Longrightarrow> set ix \<subseteq> token_univ a - token_slots a \<Longrightarrow> True \<Longrightarrow>
    token_inv (token_free a ix) \<and> token_slots (token_free a ix) = token_slots a \<union> set ix \<and>
    token_univ (token_free a ix) = token_univ a \<and> (\<lambda>_. True) = (\<lambda>_. True)"
    using token_free_ok by simp
  note m = token_inv_merge [where a = a and n = n]
  show "token_inv a \<Longrightarrow> token_alloc a n = (Some ix, a') \<Longrightarrow>
    token_inv a' \<and> distinct ix \<and> set ix \<subseteq> token_slots a \<and> token_slots a' = token_slots a - set ix \<and>
    token_univ a' = token_univ a \<and> (\<lambda>_. True) = (\<lambda>_. True) \<and> True"
    using m token_take_ok [of "merge_if_short n a" n]
    by (auto simp: token_alloc_def Let_def split: if_splits)
  show "token_inv a \<Longrightarrow> token_alloc a n = (None, a') \<Longrightarrow>
    token_inv a' \<and> token_slots a' = token_slots a \<and> token_univ a' = token_univ a \<and>
    (\<lambda>_. True) = (\<lambda>_. True)"
    using m by (auto simp: token_alloc_def Let_def split: if_splits)
qed

text \<open>
  With sorting enabled, or with nothing waiting in \<^verbatim>\<open>release_pages\<close>, the allocator fails
  only when fewer than the requested number of slots are available.
\<close>

lemma token_alloc_None_iff:
  assumes "ka_need_sort a \<or> release_pages a = []"
  shows "fst (token_alloc a n) = None \<longleftrightarrow> token_available_size a < n"
  using assms by (auto simp: token_alloc_def token_available_size_def merge_if_short_def
      merge_and_sort_free_def Let_def)

section \<open>Conservation of slots: the paged allocator\<close>

lemma set_torch_unique [simp]: "set (torch_unique xs) = set xs"
  by (simp add: torch_unique_def)

lemma distinct_torch_unique [simp]: "distinct (torch_unique xs)"
  by (simp add: torch_unique_def)

lemma length_torch_unique_iff: "length (torch_unique xs) = length xs \<longleftrightarrow> distinct xs"
  by (metis distinct_card distinct_torch_unique set_torch_unique card_distinct)

lemma set_pages_of [simp]: "set (pages_of ps ix) = (\<lambda>i. i div int ps) ` set ix"
  by (simp add: pages_of_def)

lemma distinct_pages_of [simp]: "distinct (pages_of ps ix)"
  by (simp add: pages_of_def)

definition page_slots :: "nat \<Rightarrow> int set \<Rightarrow> int set" where
  "page_slots ps P = {i. i div int ps \<in> P}"

lemma page_slots_Un: "page_slots ps (P \<union> Q) = page_slots ps P \<union> page_slots ps Q"
  by (auto simp: page_slots_def)

lemma page_slots_Diff: "page_slots ps (P - Q) = page_slots ps P - page_slots ps Q"
  by (auto simp: page_slots_def)

lemma page_slots_mono: "P \<subseteq> Q \<Longrightarrow> page_slots ps P \<subseteq> page_slots ps Q"
  by (auto simp: page_slots_def)

lemma set_expand_pages: "0 < ps \<Longrightarrow> set (expand_pages ps P) = page_slots ps (set P)"
proof (intro set_eqI iffI)
  fix i assume ps: "0 < ps"
  { assume "i \<in> page_slots ps (set P)"
    then have "i div int ps \<in> set P" by (simp add: page_slots_def)
    moreover have "i = i div int ps * int ps + int (nat (i mod int ps))"
      using ps by simp
    moreover have "nat (i mod int ps) < ps" using ps by (simp add: nat_less_iff)
    ultimately show "i \<in> set (expand_pages ps P)"
      by (auto simp: expand_pages_def intro!: bexI [of _ "i div int ps"]
          image_eqI [of _ _ "nat (i mod int ps)"]) }
  { assume "i \<in> set (expand_pages ps P)"
    with ps show "i \<in> page_slots ps (set P)"
      by (auto simp: expand_pages_def page_slots_def) }
qed

lemma distinct_expand_pages: "0 < ps \<Longrightarrow> distinct P \<Longrightarrow> distinct (expand_pages ps P)"
proof (induction P)
  case (Cons p P)
  let ?pg = "map (\<lambda>j. p * int ps + int j) [0 ..< ps]"
  have "set ?pg \<inter> set (expand_pages ps P) = {}"
    using Cons.prems by (auto simp: set_expand_pages page_slots_def)
  moreover have "distinct ?pg" by (simp add: distinct_map inj_on_def)
  moreover have "expand_pages ps (p # P) = ?pg @ expand_pages ps P"
    by (simp add: expand_pages_def)
  ultimately show ?case using Cons by simp
qed (simp add: expand_pages_def)

definition paged_pages :: "kv_alloc \<Rightarrow> int set" where
  "paged_pages a =
     set (free_pages a) \<union> set (release_pages a) \<union> (\<lambda>i. i div int (ka_page_size a)) ` set (pending a)"

definition paged_slots :: "kv_alloc \<Rightarrow> int set" where
  "paged_slots a = page_slots (ka_page_size a) (paged_pages a)"

definition paged_univ :: "kv_alloc \<Rightarrow> int set" where
  "paged_univ a = page_slots (ka_page_size a) {1 .. int (ka_num_pages a)}"

definition paged_whole :: "kv_alloc \<Rightarrow> int set \<Rightarrow> bool" where
  "paged_whole a S \<longleftrightarrow>
     (\<forall>i j. i \<in> S \<longrightarrow> j div int (ka_page_size a) = i div int (ka_page_size a) \<longrightarrow> j \<in> S)"

definition paged_inv :: "kv_alloc \<Rightarrow> bool" where
  "paged_inv a \<longleftrightarrow>
     0 < ka_page_size a \<and> distinct (free_pages a @ release_pages a) \<and>
     (set (free_pages a) \<union> set (release_pages a)) \<inter>
       (\<lambda>i. i div int (ka_page_size a)) ` set (pending a) = {} \<and>
     paged_pages a \<subseteq> {1 .. int (ka_num_pages a)}"

lemma paged_inv_init: "0 < ps \<Longrightarrow> paged_inv (paged_init n ps srt dbg)"
  by (auto simp: paged_inv_def paged_pages_def pending_def paged_init_def paged_clear_def
      base_init_def distinct_map)

lemma paged_whole_image: "paged_whole a S \<Longrightarrow> page_slots (ka_page_size a) ((\<lambda>i. i div int (ka_page_size a)) ` S) = S"
  by (auto simp: paged_whole_def page_slots_def)

lemma paged_merge:
  shows "paged_inv a \<Longrightarrow> paged_inv (merge_if_short n a)"
    and "paged_pages (merge_if_short n a) = paged_pages a"
    and "ka_page_size (merge_if_short n a) = ka_page_size a"
    and "ka_num_pages (merge_if_short n a) = ka_num_pages a"
  by (auto simp: paged_inv_def paged_pages_def merge_if_short_def merge_and_sort_free_def)

lemma paged_free_pages:
  "paged_pages (paged_free_step a ix) = paged_pages a \<union> (\<lambda>i. i div int (ka_page_size a)) ` set ix"
  "ka_page_size (paged_free_step a ix) = ka_page_size a"
  "ka_num_pages (paged_free_step a ix) = ka_num_pages a"
  by (auto simp: paged_pages_def paged_free_step_def pending_def Let_def)

lemma paged_free_inv:
  assumes "paged_inv a"
    and "(\<lambda>i. i div int (ka_page_size a)) ` set ix \<subseteq> {1 .. int (ka_num_pages a)} - paged_pages a"
  shows "paged_inv (paged_free_step a ix)"
proof -
  let ?pg = "(\<lambda>i. i div int (ka_page_size a)) ` set ix"
  have sub: "paged_pages (paged_free_step a ix) \<subseteq> {1 .. int (ka_num_pages (paged_free_step a ix))}"
    using assms by (auto simp: paged_free_pages paged_inv_def)
  have disj: "set (free_pages a) \<inter> ?pg = {}" "set (release_pages a) \<inter> ?pg = {}"
    using assms(2) by (auto simp: paged_pages_def)
  show ?thesis
  proof (cases "is_not_in_free_group a")
    case True
    then have "pending (paged_free_step a ix) = []"
      by (simp add: pending_def paged_free_step_def Let_def)
    moreover have "distinct (free_pages (paged_free_step a ix) @ release_pages (paged_free_step a ix))"
      using True assms(1) disj by (auto simp: paged_inv_def paged_free_step_def Let_def)
    ultimately show ?thesis
      using sub assms(1) by (simp add: paged_inv_def paged_free_pages)
  next
    case False
    then have "set (pending (paged_free_step a ix)) = set (pending a) \<union> set ix"
      "free_pages (paged_free_step a ix) = free_pages a"
      "release_pages (paged_free_step a ix) = release_pages a"
      by (simp_all add: pending_def paged_free_step_def Un_commute)
    with sub assms(1) disj show ?thesis
      by (simp add: paged_inv_def paged_free_pages image_Un Int_Un_distrib Int_Un_distrib2)
  qed
qed

lemma paged_take:
  assumes "paged_inv a" "n \<le> length (free_pages a)"
  defines "a' \<equiv> a\<lparr>free_pages := drop n (free_pages a)\<rparr>"
  shows "paged_inv a'" "paged_pages a' = paged_pages a - set (take n (free_pages a))"
    "distinct (take n (free_pages a))" "set (take n (free_pages a)) \<subseteq> paged_pages a"
    "ka_page_size a' = ka_page_size a" "ka_num_pages a' = ka_num_pages a"
proof -
  let ?t = "take n (free_pages a)" and ?d = "drop n (free_pages a)"
  have split: "free_pages a = ?t @ ?d" by simp
  have sets: "set (free_pages a) = set ?t \<union> set ?d"
    by (subst split) (simp only: set_append)
  have dist: "distinct (?t @ ?d @ release_pages a)"
    using assms(1) split by (metis append_assoc paged_inv_def)
  have disj: "set (free_pages a) \<inter> (\<lambda>i. i div int (ka_page_size a)) ` set (pending a) = {}"
    using assms(1) by (auto simp: paged_inv_def)
  show sub: "set ?t \<subseteq> paged_pages a" using sets by (auto simp: paged_pages_def)
  show pg: "paged_pages a' = paged_pages a - set ?t"
    using dist disj sets by (auto simp: paged_pages_def a'_def)
  have "set ?d \<subseteq> set (free_pages a)" using sets by auto
  then show "paged_inv a'"
    using assms(1) dist pg unfolding paged_inv_def by (auto simp: a'_def)
  show "distinct ?t" using dist by simp
  show "ka_page_size a' = ka_page_size a" "ka_num_pages a' = ka_num_pages a"
    by (simp_all add: a'_def)
qed

interpretation pgd: kv_pool paged_free_step paged_alloc_core paged_slots paged_univ paged_whole paged_inv
proof
  fix a ix n a'
  show "paged_inv a \<Longrightarrow> paged_slots a \<subseteq> paged_univ a"
    by (simp add: paged_inv_def paged_slots_def paged_univ_def page_slots_mono)
  show "paged_inv (paged_free_step a ix) \<and> paged_slots (paged_free_step a ix) = paged_slots a \<union> set ix \<and>
    paged_univ (paged_free_step a ix) = paged_univ a \<and> paged_whole (paged_free_step a ix) = paged_whole a"
    if "paged_inv a" "set ix \<subseteq> paged_univ a - paged_slots a" "paged_whole a (set ix)"
  proof -
    have "(\<lambda>i. i div int (ka_page_size a)) ` set ix \<subseteq> {1 .. int (ka_num_pages a)} - paged_pages a"
      using that(2) by (auto simp: paged_univ_def paged_slots_def page_slots_def)
    with that show ?thesis
      by (simp add: paged_free_inv paged_slots_def paged_univ_def paged_free_pages page_slots_Un
          paged_whole_image fun_eq_iff) (simp add: paged_whole_def paged_free_pages)
  qed
  let ?m = "merge_if_short (n div ka_page_size a) a"
  note m = paged_merge [where a = a and n = "n div ka_page_size a"]
  show "paged_inv a' \<and> distinct ix \<and> set ix \<subseteq> paged_slots a \<and> paged_slots a' = paged_slots a - set ix \<and>
    paged_univ a' = paged_univ a \<and> paged_whole a' = paged_whole a \<and> paged_whole a (set ix)"
    if inv: "paged_inv a" and al: "paged_alloc_core a n = (Some ix, a')"
  proof -
    let ?t = "take (n div ka_page_size a) (free_pages ?m)"
    have ps: "0 < ka_page_size a" using inv by (simp add: paged_inv_def)
    have len: "n div ka_page_size a \<le> length (free_pages ?m)"
      and ix: "ix = expand_pages (ka_page_size a) ?t"
      and a': "a' = ?m\<lparr>free_pages := drop (n div ka_page_size a) (free_pages ?m)\<rparr>"
      using al by (auto simp: paged_alloc_core_def Let_def split: if_splits)
    note t = paged_take [OF m(1) [OF inv] len, folded a']
    have set_ix: "set ix = page_slots (ka_page_size a) (set ?t)"
      using ps by (simp add: ix set_expand_pages)
    have "distinct ix" using t(3) ps by (simp add: ix distinct_expand_pages)
    moreover have "set ix \<subseteq> paged_slots a"
      using t(4) m by (simp add: set_ix paged_slots_def page_slots_mono)
    moreover have "paged_slots a' = paged_slots a - set ix"
      using t m by (simp add: set_ix paged_slots_def page_slots_Diff)
    moreover have "paged_univ a' = paged_univ a" "paged_whole a' = paged_whole a"
      using t m by (simp_all add: paged_univ_def fun_eq_iff paged_whole_def)
    moreover have "paged_whole a (set ix)"
      by (auto simp: set_ix paged_whole_def page_slots_def)
    ultimately show ?thesis using t(1) by blast
  qed
  show "paged_inv a \<Longrightarrow> paged_alloc_core a n = (None, a') \<Longrightarrow>
    paged_inv a' \<and> paged_slots a' = paged_slots a \<and> paged_univ a' = paged_univ a \<and>
    paged_whole a' = paged_whole a"
    using m by (auto simp: paged_alloc_core_def Let_def paged_slots_def paged_univ_def paged_whole_def
        fun_eq_iff split: if_splits)
qed

lemma length_expand_pages [simp]: "length (expand_pages ps P) = length P * ps"
  by (induction P) (simp_all add: expand_pages_def)

lemma paged_alloc_length:
  "paged_alloc_core a n = (Some ix, a') \<Longrightarrow> length ix = page_floor (ka_page_size a) n"
  by (auto simp: paged_alloc_core_def page_floor_def Let_def split: if_splits)

text \<open>The debug check at the end of \<^verbatim>\<open>free\<close> never fires on a correct release.\<close>

lemma paged_free_no_error:
  assumes "paged_inv a" "set ix \<subseteq> paged_univ a - paged_slots a"
  shows "paged_free a ix = Inr (paged_free_step a ix)"
proof -
  have "(\<lambda>i. i div int (ka_page_size a)) ` set ix \<subseteq> {1 .. int (ka_num_pages a)} - paged_pages a"
    using assms(2) by (auto simp: paged_univ_def paged_slots_def page_slots_def)
  with assms(1) have "paged_inv (paged_free_step a ix)" by (simp add: paged_free_inv)
  then have "distinct (free_pages (paged_free_step a ix))" by (simp add: paged_inv_def)
  then show ?thesis by (simp add: paged_free_def Let_def length_torch_unique_iff py_assert_def)
qed

text \<open>The method that the caches call, with its debug check.\<close>

interpretation pgf: slot_pool paged_free pgd.used paged_whole paged_inv
proof
  fix a ix
  assume "paged_inv a" "distinct ix" "set ix \<subseteq> pgd.used a" "paged_whole a (set ix)"
  then show "\<exists>a'. paged_free a ix = Inr a' \<and> paged_inv a' \<and> pgd.used a' = pgd.used a - set ix \<and>
      paged_whole a' = paged_whole a"
    using paged_free_no_error [of a ix] pgd.free_used [of a ix] by (simp add: pgd.used_def)
qed

section \<open>Free groups\<close>

lemma token_group_begin:
  assumes "token_inv a" "is_not_in_free_group a"
  shows "token_inv (free_group_begin a)" "token_slots (free_group_begin a) = token_slots a"
  using assms by (auto simp: token_defs pending_def free_group_begin_def)

lemma token_group_end:
  assumes "token_inv a" "\<not> is_not_in_free_group a"
  shows "token_inv (free_group_end token_free a)"
    and "token_slots (free_group_end token_free a) = token_slots a"
    and "is_not_in_free_group (free_group_end token_free a)"
proof -
  let ?b = "a\<lparr>is_not_in_free_group := True\<rparr>" and ?ix = "concat (free_group a)"
  have b: "pending ?b = []" "pending a = ?ix" using assms by (simp_all add: pending_def)
  have pre: "token_inv ?b" "distinct ?ix" "set ?ix \<subseteq> token_univ ?b - token_slots ?b"
    using assms(1) unfolding token_inv_def token_slots_def token_univ_def b by auto
  have sl: "token_slots a = token_slots ?b \<union> set ?ix"
    unfolding token_slots_def b by (simp add: Un_assoc)
  have e: "free_group_end token_free a = (if free_group a \<noteq> [] then token_free ?b ?ix else ?b)"
    by (simp add: free_group_end_def Let_def)
  show "token_inv (free_group_end token_free a)"
    and "token_slots (free_group_end token_free a) = token_slots a"
    using token_free_ok [OF pre] pre(1) sl by (auto simp: e)
  show "is_not_in_free_group (free_group_end token_free a)"
    by (simp add: e token_free_def)
qed

text \<open>
  Inside a group a page may be given back in several pieces: the page numbers are made
  unique once, at the end.
\<close>

lemma paged_group_free_inv:
  assumes "paged_inv a" "\<not> is_not_in_free_group a"
    and "(\<lambda>i. i div int (ka_page_size a)) ` set ix \<subseteq>
       {1 .. int (ka_num_pages a)} - (set (free_pages a) \<union> set (release_pages a))"
  shows "paged_inv (paged_free_step a ix)" "\<not> is_not_in_free_group (paged_free_step a ix)"
proof -
  have eq: "set (pending (paged_free_step a ix)) = set (pending a) \<union> set ix"
    "free_pages (paged_free_step a ix) = free_pages a"
    "release_pages (paged_free_step a ix) = release_pages a"
    "\<not> is_not_in_free_group (paged_free_step a ix)"
    using assms(2) by (simp_all add: pending_def paged_free_step_def Un_commute)
  have "paged_pages (paged_free_step a ix) \<subseteq> {1 .. int (ka_num_pages a)}"
    using assms(1,3) by (auto simp: paged_free_pages paged_inv_def)
  with assms(1,3) eq show "paged_inv (paged_free_step a ix)"
    unfolding paged_inv_def eq paged_free_pages image_Un by auto
  show "\<not> is_not_in_free_group (paged_free_step a ix)" by (fact eq(4))
qed

lemma paged_group_begin:
  assumes "paged_inv a" "is_not_in_free_group a"
  shows "paged_inv (free_group_begin a)" "\<not> is_not_in_free_group (free_group_begin a)"
    "paged_pages (free_group_begin a) = paged_pages a" "ka_page_size (free_group_begin a) = ka_page_size a"
    "ka_num_pages (free_group_begin a) = ka_num_pages a" "free_pages (free_group_begin a) = free_pages a"
    "release_pages (free_group_begin a) = release_pages a"
  using assms by (auto simp: paged_inv_def paged_pages_def pending_def free_group_begin_def)

lemma paged_group_fold:
  assumes "paged_inv a" "\<not> is_not_in_free_group a"
    "\<forall>ix \<in> set groups. (\<lambda>i. i div int (ka_page_size a)) ` set ix \<subseteq>
       {1 .. int (ka_num_pages a)} - (set (free_pages a) \<union> set (release_pages a))"
  defines "b \<equiv> fold (\<lambda>ix b. paged_free_step b ix) groups a"
  shows "paged_inv b \<and> \<not> is_not_in_free_group b \<and> ka_page_size b = ka_page_size a \<and>
    paged_pages b = paged_pages a \<union> (\<lambda>i. i div int (ka_page_size a)) ` set (concat groups)"
  using assms(1-3) unfolding b_def
proof (induction groups arbitrary: a)
  case (Cons ix groups)
  let ?a = "paged_free_step a ix"
  have same: "free_pages ?a = free_pages a" "release_pages ?a = release_pages a"
    using Cons.prems(2) by (simp_all add: paged_free_step_def)
  have inv: "paged_inv ?a" "\<not> is_not_in_free_group ?a"
    using paged_group_free_inv [OF Cons.prems(1,2), of ix] Cons.prems(3) by simp_all
  show ?case using Cons.IH [OF inv] Cons.prems(3)
    by (simp add: same paged_free_pages image_Un Un_assoc)
qed simp

lemma paged_group_end:
  assumes "paged_inv a" "\<not> is_not_in_free_group a"
  shows "paged_inv (free_group_end paged_free_step a)"
    and "paged_slots (free_group_end paged_free_step a) = paged_slots a"
    and "is_not_in_free_group (free_group_end paged_free_step a)"
proof -
  let ?b = "a\<lparr>is_not_in_free_group := True\<rparr>"
  define ix where "ix = concat (free_group a)"
  have b: "pending ?b = []" "pending a = ix" using assms by (simp_all add: pending_def ix_def)
  have pre: "paged_inv ?b"
    "(\<lambda>i. i div int (ka_page_size ?b)) ` set ix \<subseteq> {1 .. int (ka_num_pages ?b)} - paged_pages ?b"
    using assms(1) unfolding paged_inv_def paged_pages_def b by auto
  have pg: "paged_pages a = paged_pages ?b \<union> (\<lambda>i. i div int (ka_page_size a)) ` set ix"
    unfolding paged_pages_def b by simp
  have e: "free_group_end paged_free_step a =
    (if free_group a \<noteq> [] then paged_free_step ?b ix else ?b)"
    by (simp add: free_group_end_def Let_def ix_def)
  show "paged_inv (free_group_end paged_free_step a)"
    using paged_free_inv [OF pre] pre(1) by (simp add: e)
  show "paged_slots (free_group_end paged_free_step a) = paged_slots a"
    using pg by (simp add: e paged_slots_def paged_free_pages) (simp add: ix_def)
  show "is_not_in_free_group (free_group_end paged_free_step a)"
    by (simp add: e paged_free_step_def Let_def)
qed

text \<open>Inside a free group slots are only collected, a page possibly in pieces; the end gives all of them back.\<close>

lemma paged_free_group_ok:
  assumes "paged_inv a" "is_not_in_free_group a"
    "\<forall>ix \<in> set groups. (\<lambda>i. i div int (ka_page_size a)) ` set ix \<subseteq> {1 .. int (ka_num_pages a)} - paged_pages a"
  shows "let a' = free_group_end paged_free_step (fold (\<lambda>ix b. paged_free_step b ix) groups (free_group_begin a)) in
    paged_inv a' \<and> is_not_in_free_group a' \<and>
    paged_slots a' = paged_slots a \<union> page_slots (ka_page_size a) ((\<lambda>i. i div int (ka_page_size a)) ` set (concat groups))"
proof -
  let ?f = "fold (\<lambda>ix b. paged_free_step b ix) groups (free_group_begin a)"
  note b = paged_group_begin [OF assms(1,2)]
  have "\<forall>ix \<in> set groups. (\<lambda>i. i div int (ka_page_size (free_group_begin a))) ` set ix \<subseteq>
    {1 .. int (ka_num_pages (free_group_begin a))} - (set (free_pages (free_group_begin a)) \<union> set (release_pages (free_group_begin a)))"
    using assms(3) unfolding b(4-7) by (auto simp: paged_pages_def)
  then have "paged_inv ?f \<and> \<not> is_not_in_free_group ?f \<and> ka_page_size ?f = ka_page_size a \<and>
    paged_pages ?f = paged_pages a \<union> (\<lambda>i. i div int (ka_page_size a)) ` set (concat groups)"
    using paged_group_fold [OF b(1,2), of groups] by (simp add: b(3,4))
  then show ?thesis using paged_group_end [of ?f]
    by (simp only: Let_def) (simp add: paged_slots_def page_slots_Un)
qed

end
