(* ===== verification/Radix_Evict.thy ===== *)
theory Radix_Evict
  imports Radix_Lock Allocator
begin

text \<open>
  Eviction. \<^verbatim>\<open>_delete_leaf\<close> takes an unlocked leaf out of the tree; \<^verbatim>\<open>evict\<close> does so until
  enough tokens are freed or nothing unlocked is left. The allocator is known through the
  contract \<open>slot_pool\<close>: freeing slots that are in use takes them out of use.
\<close>

section \<open>Deleting a leaf\<close>

definition delete_view :: "tree_view \<Rightarrow> nat \<Rightarrow> nat \<Rightarrow> child_key \<Rightarrow> tree_view" where
  "delete_view v n p k =
     v\<lparr>v_children := (v_children v)(p := AList.delete k (v_children v p)),
       v_esize := v_esize v - key_size v n\<rparr>"

lemma delete_view_sel [simp]:
  "v_root (delete_view v n p k) = v_root v" "v_ps (delete_view v n p k) = v_ps v"
  "v_counter (delete_view v n p k) = v_counter v" "v_parent (delete_view v n p k) = v_parent v"
  "v_key (delete_view v n p k) = v_key v" "v_value (delete_view v n p k) = v_value v"
  "v_lock (delete_view v n p k) = v_lock v" "v_leaves (delete_view v n p k) = v_leaves v"
  "v_psize (delete_view v n p k) = v_psize v" "v_esize (delete_view v n p k) = v_esize v - key_size v n"
  "m \<noteq> p \<Longrightarrow> v_children (delete_view v n p k) m = v_children v m"
  "v_children (delete_view v n p k) p = AList.delete k (v_children v p)"
  by (simp_all add: delete_view_def)

definition is_leaf :: "tree_view \<Rightarrow> nat set \<Rightarrow> nat \<Rightarrow> bool" where
  "is_leaf v L n \<longleftrightarrow> n \<in> unlocked v L \<and> v_children v n = []"

lemma leaf_no_kids:
  assumes ok: "tree_ok v L P V" and lf: "is_leaf v L n" and m: "m \<in> L" "m \<noteq> v_root v"
  shows "v_parent v m \<noteq> Some n"
proof
  assume "v_parent v m = Some n"
  moreover have "n \<in> L" using lf by (simp add: is_leaf_def unlocked_def)
  ultimately have "\<exists>k. (k, m) \<in> set (v_children v n)" using children_iff [OF ok] m by blast
  then show False using lf by (simp add: is_leaf_def)
qed

lemma delete_tree_ok:
  assumes ok: "tree_ok v L P V" and lf: "is_leaf v L n" and p: "v_parent v n = Some p"
    and k: "rk_child_key (v_key v n) (v_ps v) = Inr k"
  shows "tree_ok (delete_view v n p k) (L - {n}) P V"
proof -
  have n: "n \<in> L" "n \<noteq> v_root v" using lf by (auto simp: is_leaf_def unlocked_def)
  note no = leaf_no_kids [OF ok lf]
  let ?v = "delete_view v n p k"
  have "\<exists>q \<in> L - {n}. edge ?v P V q m" if m: "m \<in> L - {n} - {v_root v}" for m
  proof -
    obtain q where q: "q \<in> L" "edge v P V q m" using m by (auto elim: tree_ok_edge [OF ok])
    then have "q \<noteq> n" using no [of m] m by (auto simp: edge_def)
    with q show ?thesis by (auto simp: edge_def)
  qed
  moreover have "kids_ok ?v (L - {n}) m" if m: "m \<in> L - {n}" for m
  proof -
    have d: "distinct (map fst (v_children v m))" using tree_ok_D(9) [OF ok] m by (simp add: kids_ok_def)
    have km: "map_of (v_children v m) k' = Some y \<longleftrightarrow>
        y \<in> L \<and> y \<noteq> v_root v \<and> v_parent v y = Some m \<and> rk_child_key (v_key v y) (v_ps v) = Inr k'" for k' y
      using kids_map_of [OF ok] m by blast
    show ?thesis
    proof (cases "m = p")
      case True
      have "map_of (v_children v p) k = Some n" using km n p k True by blast
      then have "map_of (AList.delete k (v_children v p)) k' = Some y \<longleftrightarrow>
          y \<in> L - {n} \<and> y \<noteq> v_root v \<and> v_parent v y = Some p \<and> rk_child_key (v_key v y) (v_ps v) = Inr k'" for k' y
        using km [of k' y] k True by (auto simp: delete_conv')
      then show ?thesis using d True by (simp add: kids_ok_def distinct_delete)
    next
      case False
      then have "v_parent v n \<noteq> Some m" using p by simp
      then show ?thesis using d km False by (auto simp: kids_ok_def)
    qed
  qed
  moreover have "trie ?v (L - {n}) P" "inj_on P (L - {n})"
    using tree_ok_D(7,8) [OF ok] by (auto simp: trie_def inj_on_diff)
  ultimately show ?thesis using ok n by (auto simp: tree_ok_def)
qed

lemma delete_locks:
  assumes lf: "is_leaf v L n" and ok: "locks_ok v L P H"
  shows "locks_ok (delete_view v n p k) (L - {n}) P H"
proof -
  have "v_lock v n = int (below P H n)" "v_lock v n = 0"
    using lf ok by (auto simp: is_leaf_def unlocked_def locks_ok_def)
  then have "n \<notin># H" by (auto simp: below_def)
  then show ?thesis using ok by (auto simp: locks_ok_def)
qed

lemma delete_sizes:
  assumes lf: "is_leaf v L n" and ok: "sizes_ok v L" and fin: "finite L"
  shows "sizes_ok (delete_view v n p k) (L - {n})"
proof -
  have "unlocked (delete_view v n p k) (L - {n}) = unlocked v L - {n}" "n \<in> unlocked v L"
    "locked (delete_view v n p k) (L - {n}) = locked v L" "finite (unlocked v L)"
    using lf fin by (auto simp: is_leaf_def unlocked_def locked_def)
  moreover have "key_size (delete_view v n p k) = key_size v" by (simp add: key_size_def fun_eq_iff)
  ultimately show ?thesis using ok by (simp add: sizes_ok_def sum_diff1)
qed

section \<open>The code's \<open>_delete_leaf\<close>\<close>

lemma discard_session_rest:
  "view (discard_session_leaf n c) = view c" "conf (discard_session_leaf n c) = conf c"
  "hash_value (nd (discard_session_leaf n c) m) = hash_value (nd c m)"
  "kv_event_queue (discard_session_leaf n c) = kv_event_queue c"
  "closed_session_ids (discard_session_leaf n c) = closed_session_ids c"
proof -
  have one: "view (discard_from_session n sid c) = view c" "conf (discard_from_session n sid c) = conf c"
    "rc_nodes (discard_from_session n sid c) = rc_nodes c"
    "kv_event_queue (discard_from_session n sid c) = kv_event_queue c"
    "closed_session_ids (discard_from_session n sid c) = closed_session_ids c" for sid c
    by (auto simp: discard_from_session_def view_def conf_def Let_def split: option.split)
  have f: "view (fold (discard_from_session n) sids c) = view c \<and>
      conf (fold (discard_from_session n) sids c) = conf c \<and>
      rc_nodes (fold (discard_from_session n) sids c) = rc_nodes c \<and>
      kv_event_queue (fold (discard_from_session n) sids c) = kv_event_queue c \<and>
      closed_session_ids (fold (discard_from_session n) sids c) = closed_session_ids c" for sids
    by (induction sids arbitrary: c) (simp_all add: one)
  have "view (upd_node n (\<lambda>x. x\<lparr>session_ids := s\<rparr>) c) = view c" for s c
    by (simp add: view_def upd_node_def fun_eq_iff)
  then show "view (discard_session_leaf n c) = view c" using f
    by (auto simp: discard_session_leaf_def split: option.split)
  show "conf (discard_session_leaf n c) = conf c" "hash_value (nd (discard_session_leaf n c) m) = hash_value (nd c m)"
    "kv_event_queue (discard_session_leaf n c) = kv_event_queue c"
    "closed_session_ids (discard_session_leaf n c) = closed_session_ids c"
    using f by (auto simp: discard_session_leaf_def upd_node_def conf_def split: option.split)
qed

text \<open>The state in which \<^verbatim>\<open>_delete_leaf\<close> updates the status of the parent.\<close>

lemma delete_leaf_state:
  assumes par: "tn_parent (nd c n) = Some p" and k: "rk_child_key (tn_key (nd c n)) (rc_page_size c) = Inr k"
    and ch: "map_of (tn_children (nd c p)) k = Some n"
  shows "\<exists>c3. delete_leaf n c = Inr (update_leaf_status p c3) \<and>
    view c3 = (delete_view (view c) n p k)\<lparr>v_leaves := set_discard n (evictable_leaves c)\<rparr> \<and>
    conf c3 = conf c \<and> (\<forall>m. hash_value (nd c3 m) = hash_value (nd c m)) \<and> kv_event_queue c3 = kv_event_queue c"
proof -
  define c1 where "c1 = upd_node p (\<lambda>x. x\<lparr>tn_children := AList.delete k (tn_children x)\<rparr>) c"
  define c2 where "c2 = discard_session_leaf n c1"
  define c3 where "c3 = c2\<lparr>rc_evictable_size := rc_evictable_size c2 - int (rk_len (tn_key (nd c2 n))),
                    evictable_leaves := set_discard n (evictable_leaves c2)\<rparr>"
  note S = discard_session_rest [of n c1, folded c2_def]
  have v1: "view c1 = (view c)\<lparr>v_children := (v_children (view c))(p := AList.delete k (tn_children (nd c p)))\<rparr>"
    by (simp add: c1_def view_def upd_node_def fun_eq_iff)
  have key2: "tn_key (nd c2 n) = tn_key (nd c n)" using arg_cong [OF S(1), of "\<lambda>v. v_key v n"] v1 by simp
  have "evictable_leaves c2 = evictable_leaves c" using arg_cong [OF S(1), of v_leaves] v1 by simp
  then have "view c3 = (delete_view (view c) n p k)\<lparr>v_leaves := set_discard n (evictable_leaves c)\<rparr>"
    using S(1) v1 key2 by (simp add: c3_def view_def delete_view_def key_size_def)
  moreover have "delete_leaf n c = Inr (update_leaf_status p c3)"
    using k par ch by (simp add: delete_leaf_def parent_of_def c3_def c2_def c1_def Let_def py_assert_def)
  moreover have "conf c3 = conf c" "\<forall>m. hash_value (nd c3 m) = hash_value (nd c m)" "kv_event_queue c3 = kv_event_queue c"
    using S(2-4) by (simp_all add: c3_def c1_def conf_def upd_node_def)
  ultimately show ?thesis by blast
qed

lemma delete_leaf_ok:
  assumes inv: "cinv c L P V H" and lf: "n \<in> set (evictable_leaves c)"
  shows "\<exists>c' p. delete_leaf n c = Inr c' \<and> cinv c' (L - {n}) P V H \<and> tn_parent (nd c n) = Some p \<and>
    p \<in> L - {n} \<and> p \<notin> set (evictable_leaves c) \<and> conf c' = conf c \<and>
    (\<forall>m. tn_value (nd c' m) = tn_value (nd c m) \<and> tn_key (nd c' m) = tn_key (nd c m) \<and>
         tn_parent (nd c' m) = tn_parent (nd c m) \<and> hash_value (nd c' m) = hash_value (nd c m) \<and>
         lock_ref (nd c' m) = lock_ref (nd c m)) \<and>
    rc_evictable_size c' = rc_evictable_size c - int (rk_len (tn_key (nd c n))) \<and>
    kv_event_queue c' = kv_event_queue c \<and>
    set (evictable_leaves c') =
      set (evictable_leaves c) - {n} \<union> (if tn_children (nd c' p) = [] \<and> lock_ref (nd c' p) = 0 then {p} else {})"
proof -
  have w: "walk_inv c L P V" and lk: "locks_ok (view c) L P H" using inv by (simp_all add: cinv_walk)
  have ok: "tree_ok (view c) L P V" using w by (simp add: walk_inv_def)
  have leaf: "is_leaf (view c) L n" using w lf by (simp add: walk_inv_def leaves_ok_def is_leaf_def)
  then have n: "n \<in> L" "n \<noteq> root_node c" by (auto simp: is_leaf_def unlocked_def)
  obtain p where p: "p \<in> L" "edge (view c) P V p n" using tree_ok_edge [OF ok n(1)] n(2) by auto
  have par: "tn_parent (nd c n) = Some p" "p \<noteq> n" using p(2) edge_P_less [OF p(2)] by (auto simp: edge_def)
  have "0 < v_ps (view c)" using tree_ok_D(4) [OF ok] .
  from rk_child_key_eq [OF this edge_ps_le [OF p(2) this]]
  obtain k where k: "rk_child_key (tn_key (nd c n)) (rc_page_size c) = Inr k" by auto
  have "map_of (v_children (view c) p) k = Some n" using kids_map_of [OF ok p(1)] n par k by simp
  then have ch: "map_of (tn_children (nd c p)) k = Some n" by simp
  from delete_leaf_state [OF par(1) k ch] obtain c3 where del: "delete_leaf n c = Inr (update_leaf_status p c3)"
    and v3: "view c3 = (delete_view (view c) n p k)\<lparr>v_leaves := set_discard n (evictable_leaves c)\<rparr>"
    and cf: "conf c3 = conf c" "\<And>m. hash_value (nd c3 m) = hash_value (nd c m)" "kv_event_queue c3 = kv_event_queue c" by blast
  let ?c' = "update_leaf_status p c3"
  have nd3: "tn_value (nd c3 m) = tn_value (nd c m)" "tn_key (nd c3 m) = tn_key (nd c m)"
    "tn_parent (nd c3 m) = tn_parent (nd c m)" "lock_ref (nd c3 m) = lock_ref (nd c m)"
    "tn_children (nd c3 m) = (if m = p then AList.delete k (tn_children (nd c p)) else tn_children (nd c m))"
    "root_node c3 = root_node c" "evictable_leaves c3 = set_discard n (evictable_leaves c)" for m
    using arg_cong [OF v3, of "\<lambda>v. v_value v m"] arg_cong [OF v3, of "\<lambda>v. v_key v m"]
      arg_cong [OF v3, of "\<lambda>v. v_parent v m"] arg_cong [OF v3, of "\<lambda>v. v_lock v m"]
      arg_cong [OF v3, of "\<lambda>v. v_children v m"] arg_cong [OF v3, of v_root] arg_cong [OF v3, of v_leaves]
    by (simp_all add: delete_view_def)
  have ok3: "tree_ok (view c3) (L - {n}) P V"
    using delete_tree_ok [OF ok leaf, of p k] par k by (simp add: v3)
  have root: "0 < lock_ref (nd c3 (root_node c3))" using w nd3 by (simp add: walk_inv_def)
  have nn: "0 \<le> lock_ref (nd c3 p)" using locks_nonneg [OF inv] p(1) nd3 by simp
  have lv: "distinct (evictable_leaves c)" "set (evictable_leaves c) = {m \<in> unlocked (view c) L. tn_children (nd c m) = []}"
    using w by (simp_all add: walk_inv_def leaves_ok_def)
  have "unlocked (view c3) (L - {n}) = unlocked (view c) L - {n}" using nd3 by (auto simp: unlocked_def)
  then have others: "set (evictable_leaves c3) - {p} =
      {m \<in> unlocked (view c3) (L - {n}). tn_children (nd c3 m) = []} - {p}"
    using lv nd3 by auto
  have pL: "p \<in> L - {n}" using p par by simp
  have "leaves_ok (view ?c') (L - {n})"
    using lv(1) nd3 by (intro update_leaf_ok [OF ok3 pL nn root _ others]) simp
  moreover have "locks_ok (view ?c') (L - {n}) P H"
    using delete_locks [OF leaf lk, of p k] by (simp add: v3 locks_ok_def)
  moreover have "sizes_ok (view ?c') (L - {n})"
    using delete_sizes [OF leaf, of p k] w tree_ok_D(2) [OF ok]
    by (simp add: walk_inv_def v3 sizes_ok_def unlocked_def locked_def key_size_def)
  moreover have "events_ok ?c' (L - {n})"
    using inv cf nd3(2) conf_D [OF cf(1)] conf_D [of ?c' c3]
    by (auto simp: cinv_def events_ok_def native_hash_ok_def)
  ultimately have "cinv ?c' (L - {n}) P V H" using ok3 by (simp add: cinv_def cache_ok_def)
  moreover have pnl: "p \<notin> set (evictable_leaves c)" using ch lv(2) by auto
  then have "set (evictable_leaves ?c') = set (evictable_leaves c) - {n} \<union>
      (if tn_children (nd ?c' p) = [] \<and> lock_ref (nd ?c' p) = 0 then {p} else {})"
    using update_leaf_set [OF ok3 pL nn] nd3(7) by auto
  moreover have "rc_evictable_size ?c' = rc_evictable_size c - int (rk_len (tn_key (nd c n)))"
    using arg_cong [OF v3, of v_esize] by (simp add: key_size_def)
  ultimately show ?thesis
    using del par(1) pL pnl cf nd3(1-4) by (intro exI [of _ ?c'] exI [of _ p]) simp
qed

section \<open>The removal event\<close>

lemma remove_hashes_ok:
  assumes ps: "0 < ps" and hs: "n \<le> length hs" "\<forall>h \<in> set hs. valid_hash h" and j: "j \<le> n"
  shows "\<exists>bh. remove_hashes hs (n * ps) ps j (map (\<lambda>i. i * ps) [j ..< n]) = Inr bh \<and>
    map Inr bh = map hash_str_to_int64 (drop j (take n hs))"
  using j
proof (induction "n - j" arbitrary: j)
  case 0
  then show ?case by simp
next
  case (Suc d)
  then have jn: "j < n" by simp
  have "min (j * ps + ps) (n * ps) = Suc j * ps"
    using jn mult_le_mono1 [of "Suc j" n ps] by (simp add: min_absorb1 add.commute)
  then have stop: "\<not> min (j * ps + ps) (n * ps) \<le> j * ps" using ps by simp
  have "valid_hash (hs ! j)" using hs jn by simp
  then obtain h where h: "hash_at hs j = Inr h" "hash_str_to_int64 (hs ! j) = Inr h"
    using hs(1) jn by (auto simp: hash_at_def valid_hash_def)
  have "d = n - Suc j" using Suc.hyps(2) by simp
  from Suc.hyps(1) [OF this] jn obtain bh where
    bh: "remove_hashes hs (n * ps) ps (Suc j) (map (\<lambda>i. i * ps) [Suc j ..< n]) = Inr bh"
      "map Inr bh = map hash_str_to_int64 (drop (Suc j) (take n hs))" by auto
  have "drop j (take n hs) = hs ! j # drop (Suc j) (take n hs)"
    using jn hs(1) by (metis Cons_nth_drop_Suc length_take min.absorb2 nth_take)
  moreover have "[j ..< n] = j # [Suc j ..< n]" using jn by (rule upt_conv_Cons)
  ultimately show ?case using bh h stop by (intro exI [of _ "h # bh"]) simp
qed

lemma record_remove_event_ok:
  assumes ev: "events_ok c (insert x L)" and al: "rc_page_size c dvd rk_len (tn_key (nd c x))"
    and len: "0 < rk_len (tn_key (nd c x))" and ps: "0 < rc_page_size c" and x: "x \<notin> L"
  shows "\<exists>c'. record_remove_event x c = Inr c' \<and> view c' = view c \<and> events_ok c' L \<and> conf c' = conf c \<and>
    session_leaves c' = session_leaves c \<and> closed_session_ids c' = closed_session_ids c \<and>
    (\<exists>evs. kv_event_queue c' = kv_event_queue c @ evs \<and>
      (enable_kv_cache_events c \<longrightarrow> (\<exists>bh. evs = [BlockRemoved bh ''GPU''] \<and>
         length bh = rk_len (tn_key (nd c x)) div rc_page_size c)) \<and>
      (\<not> enable_kv_cache_events c \<longrightarrow> evs = []))"
proof (cases "enable_kv_cache_events c")
  case False
  then show ?thesis using ev by (simp add: record_remove_event_def events_ok_def)
next
  case True
  define hs c1 where "hs = fst (ensure_hash x c)" and "c1 = snd (ensure_hash x c)"
  have eh: "ensure_hash x c = (hs, c1)" by (simp add: hs_def c1_def)
  have "x \<in> insert x L" by simp
  note E = ensure_hash_ok [OF ev True this al, folded hs_def c1_def]
  have C: "conf c1 = conf c" using E(4) by (simp add: frame_def)
  let ?k = "tn_key (nd c x)" and ?ps = "rc_page_size c"
  obtain q where q: "rk_len ?k = q * ?ps" using al by (metis dvd_div_mult_self)
  have starts: "page_starts ?ps (rk_len ?k) = map (\<lambda>i. i * ?ps) [0 ..< q]" "rk_len ?k div ?ps = q"
    using page_starts_aligned [OF ps al] q ps by simp_all
  then have hs: "length hs = q" "\<forall>h \<in> set hs. valid_hash h" using E(1) by (simp_all add: page_hashes_def)
  obtain bh where bh: "remove_hashes hs (q * ?ps) ?ps 0 (map (\<lambda>i. i * ?ps) [0 ..< q]) = Inr bh"
    "map Inr bh = map hash_str_to_int64 hs"
    using remove_hashes_ok [OF ps _ hs(2), of q 0] hs(1) by auto
  have "length bh = q" using arg_cong [OF bh(2), of length] hs(1) by simp
  moreover have "0 < q" using len q by (cases q) auto
  ultimately have ne: "bh \<noteq> []" "length bh = q" by auto
  have "tn_key (nd c1 x) = ?k" using view_key_eq [OF E(3)] .
  then have rec: "record_remove_event x c = Inr (c1\<lparr>kv_event_queue := kv_event_queue c1 @ [BlockRemoved bh ''GPU'']\<rparr>)"
    using True bh(1) ne(1) starts(1) q conf_D [OF C]
    unfolding record_remove_event_def eh Let_def prod.case by simp
  have "view (c1\<lparr>kv_event_queue := z\<rparr>) = view c" "events_ok (c1\<lparr>kv_event_queue := z\<rparr>) L"
    "conf (c1\<lparr>kv_event_queue := z\<rparr>) = conf c" for z
    using E(2,3) C by (simp_all add: view_def events_ok_def native_hash_ok_def conf_def)
  then show ?thesis using rec True ne starts(2) E(4,5) by (auto simp: frame_def)
qed

section \<open>The heap\<close>

lemma heap_min_in: "heap \<noteq> [] \<Longrightarrow> heap_min c heap \<in> set heap"
  by (induction c heap rule: heap_min.induct) (auto simp: Let_def)

lemma heappop_set:
  assumes "heap \<noteq> []" "distinct (map snd heap)" "heappop c heap = ((pr, x), heap1)"
  shows "x \<in> set (map snd heap)" "set (map snd heap1) = set (map snd heap) - {x}" "distinct (map snd heap1)"
    "(pr, x) \<in> set heap" "mset heap = add_mset (pr, x) (mset heap1)"
proof -
  have m: "(pr, x) \<in> set heap" using assms heap_min_in [OF assms(1), of c] by (simp add: heappop_def)
  then show "(pr, x) \<in> set heap" .
  from m show "x \<in> set (map snd heap)" by force
  have heap1: "heap1 = remove1 (pr, x) heap" using assms(3) by (auto simp: heappop_def)
  then show ms: "mset heap = add_mset (pr, x) (mset heap1)" using m by simp
  have "mset (map snd heap) = add_mset x (mset (map snd heap1))" using ms by simp
  moreover have "distinct (x # map snd heap1) \<longleftrightarrow> distinct (map snd heap)"
    using calculation by (metis mset.simps(2) mset_eq_imp_distinct_iff)
  ultimately show "set (map snd heap1) = set (map snd heap) - {x}" "distinct (map snd heap1)"
    using assms(2) by (metis Diff_insert_absorb distinct.simps(2) list.simps(15) mset.simps(2) mset_eq_setD, simp)
qed

text \<open>The order of the heap is a strict weak order on the items, so what is popped is minimal.\<close>

lemma tuple_less_irrefl [simp]: "\<not> tuple_less xs xs"
  by (induction xs) auto

lemma tuple_less_trans: "tuple_less xs ys \<Longrightarrow> tuple_less ys zs \<Longrightarrow> tuple_less xs zs"
proof (induction xs ys arbitrary: zs rule: tuple_less.induct)
  case (1 ys)
  then show ?case by (cases ys; cases zs) auto
next
  case (3 x xs y ys)
  then show ?case by (cases zs) (auto split: if_splits)
qed auto

lemma tuple_less_linear: "tuple_less xs ys \<or> xs = ys \<or> tuple_less ys xs"
proof (induction xs ys rule: tuple_less.induct)
  case (1 ys)
  then show ?case by (cases ys) auto
qed auto

lemma heap_less_neg_trans:
  assumes "\<not> heap_less c b a" "\<not> heap_less c z b"
  shows "\<not> heap_less c z a"
  using assms tuple_less_linear [of "fst a" "fst b"] tuple_less_linear [of "fst b" "fst z"]
    tuple_less_trans [of "fst a" "fst b" "fst z"] tuple_less_trans [of "fst z" "fst a" "fst z"]
  by (auto simp: heap_less_def node_lt_def split: if_splits)

lemma heap_less_asym: "heap_less c a b \<Longrightarrow> \<not> heap_less c b a"
  using tuple_less_trans [of "fst a" "fst b" "fst a"] by (auto simp: heap_less_def node_lt_def split: if_splits)

lemma heap_min_least: "y \<in> set heap \<Longrightarrow> \<not> heap_less c y (heap_min c heap)"
proof (induction c heap arbitrary: y rule: heap_min.induct)
  case (2 c x)
  then show ?case by (auto simp: heap_less_def node_lt_def)
next
  case (3 c x z xs)
  let ?m = "heap_min c (z # xs)"
  show ?case
  proof (cases "heap_less c ?m x")
    case True
    then have "y = x \<or> y \<in> set (z # xs)" "heap_min c (x # z # xs) = ?m" using "3.prems" by (simp_all add: Let_def)
    then show ?thesis using "3.IH" heap_less_asym [OF True] by metis
  next
    case False
    have "\<not> heap_less c x x" by (simp add: heap_less_def node_lt_def)
    moreover have "y = x \<or> y \<in> set (z # xs)" "heap_min c (x # z # xs) = x" using "3.prems" False by (simp_all add: Let_def)
    ultimately show ?thesis using "3.IH" heap_less_neg_trans [OF False] by metis
  qed
qed simp

section \<open>Nothing left to evict\<close>

lemma below_mono:
  assumes "prefix (P n) (P m)"
  shows "below P H m \<le> below P H n"
proof (induction H)
  case (add h H)
  have "prefix (P m) (P h) \<Longrightarrow> prefix (P n) (P h)" using assms prefix_order.trans by blast
  with add show ?case by (auto simp: below_add)
qed (simp add: below_def)

lemma no_leaves:
  assumes ok: "cache_ok v L P V H" and no: "v_leaves v = []"
  shows "unlocked v L = {}" "v_esize v = 0"
proof -
  have T: "tree_ok v L P V" "locks_ok v L P H" "sizes_ok v L" "leaves_ok v L" using ok by (simp_all add: cache_ok_def)
  show e: "unlocked v L = {}"
  proof (rule ccontr)
    assume ne: "unlocked v L \<noteq> {}"
    have fin: "finite (unlocked v L)" using tree_ok_D(2) [OF T(1)] by (simp add: unlocked_def)
    let ?A = "(\<lambda>n. length (P n)) ` unlocked v L"
    have "finite ?A" using fin by simp
    moreover have "Max ?A \<in> ?A" using fin ne by (intro Max_in) simp_all
    then obtain n where n: "n \<in> unlocked v L" "Max ?A = length (P n)" by auto
    ultimately have n: "n \<in> unlocked v L" "\<And>m. m \<in> unlocked v L \<Longrightarrow> length (P m) \<le> length (P n)"
      using Max_ge [of ?A] by auto
    have nL: "n \<in> L" "v_lock v n = 0" "n \<noteq> v_root v" using n(1) by (auto simp: unlocked_def)
    have "v_children v n = []"
    proof (rule ccontr)
      assume "v_children v n \<noteq> []"
      then obtain k m where "(k, m) \<in> set (v_children v n)" by (metis list.set_intros(1) neq_Nil_conv surj_pair)
      then have m: "m \<in> L" "m \<noteq> v_root v" "v_parent v m = Some n" using children_iff [OF T(1) nL(1)] by blast+
      obtain q where q: "edge v P V q m" using tree_ok_edge [OF T(1) m(1,2)] by blast
      then have qn: "q = n" using m(3) by (simp add: edge_def)
      then have pre: "prefix (P n) (P m)" using q by (simp add: edge_def)
      have "below P H m \<le> below P H n" using pre by (rule below_mono)
      moreover have "below P H n = 0" "v_lock v m = int (below P H m)" using T(2) nL m by (auto simp: locks_ok_def)
      ultimately have "m \<in> unlocked v L" using m by (simp add: unlocked_def)
      then show False using n(2) edge_P_less [OF q] qn by fastforce
    qed
    then have "n \<in> set (v_leaves v)" using T(4) n(1) by (simp add: leaves_ok_def)
    then show False using no by simp
  qed
  show "v_esize v = 0" using T(3) e by (simp add: sizes_ok_def)
qed

section \<open>Eviction\<close>

text \<open>The slots of the tree: every node owns a releasable set of slots in use, and no slot twice.\<close>

definition tree_slots ::
  "int set \<Rightarrow> (int set \<Rightarrow> bool) \<Rightarrow> radix_cache \<Rightarrow> nat set \<Rightarrow> bool" where
  "tree_slots S whole c L \<longleftrightarrow>
     (\<forall>n \<in> L. distinct (the (tn_value (nd c n))) \<and> set (the (tn_value (nd c n))) \<subseteq> S \<and>
        whole (set (the (tn_value (nd c n))))) \<and>
     (\<forall>n \<in> L. \<forall>m \<in> L. n \<noteq> m \<longrightarrow> set (the (tn_value (nd c n))) \<inter> set (the (tn_value (nd c m))) = {})"

definition slots_of :: "radix_cache \<Rightarrow> nat set \<Rightarrow> int set" where
  "slots_of c L = (\<Union>n \<in> L. set (the (tn_value (nd c n))))"

definition heap_ok :: "(int list \<times> nat) list \<Rightarrow> radix_cache \<Rightarrow> bool" where
  "heap_ok heap c \<longleftrightarrow> distinct (map snd heap) \<and> set (map snd heap) = set (evictable_leaves c)"

text \<open>The outcome of a call that frees nodes: the nodes \<open>L - L'\<close> are gone and were not locked.\<close>

definition shrunk ::
  "radix_cache \<Rightarrow> nat set \<Rightarrow> (nat \<Rightarrow> units) \<Rightarrow> (nat \<Rightarrow> int list) \<Rightarrow> nat multiset \<Rightarrow> radix_cache \<Rightarrow> nat set \<Rightarrow> bool" where
  "shrunk c L P V H c' L' \<longleftrightarrow>
     cinv c' L' P V H \<and> L' \<subseteq> L \<and> conf c' = conf c \<and>
     (\<forall>n. tn_value (nd c' n) = tn_value (nd c n)) \<and> (\<forall>n. lock_ref (nd c' n) = lock_ref (nd c n)) \<and>
     (\<forall>n \<in> L - L'. lock_ref (nd c n) = 0 \<and> n \<noteq> root_node c)"

lemma shrunk_refl: "cinv c L P V H \<Longrightarrow> shrunk c L P V H c L"
  by (simp add: shrunk_def)

lemma shrunk_trans:
  assumes "shrunk c L P V H c' L'" "shrunk c' L' P V H c'' L''"
  shows "shrunk c L P V H c'' L''"
proof -
  have "root_node c' = root_node c" using assms(1) by (simp add: shrunk_def conf_def)
  then show ?thesis using assms by (auto simp: shrunk_def)
qed

lemma tree_slots_D:
  assumes "tree_slots S whole c L" "n \<in> L"
  shows "distinct (the (tn_value (nd c n)))" "set (the (tn_value (nd c n))) \<subseteq> S"
    "whole (set (the (tn_value (nd c n))))"
  using assms by (auto simp: tree_slots_def)

lemma tree_slots_Diff:
  assumes "tree_slots S whole c L" "n \<in> L" "\<And>m. tn_value (nd c' m) = tn_value (nd c m)"
  shows "tree_slots (S - set (the (tn_value (nd c n)))) whole c' (L - {n})"
  using assms unfolding tree_slots_def by (simp add: Diff_eq) blast

text \<open>The length of the freed tensor is the length of the key, the amount the counter drops by.\<close>

lemma leaf_value:
  assumes "cinv c L P V H" "n \<in> L" "n \<noteq> root_node c"
  shows "\<exists>xs. tn_value (nd c n) = Some xs \<and> length xs = rk_len (tn_key (nd c n)) \<and> 0 < length xs \<and>
    rc_page_size c dvd rk_len (tn_key (nd c n))"
proof -
  obtain p where "edge (view c) P V p n" using tree_ok_edge [OF cinv_tree [OF assms(1)] assms(2)] assms(3) by auto
  then show ?thesis by (auto simp: edge_def)
qed

lemma evictable_in:
  assumes "cinv c L P V H" "n \<in> set (evictable_leaves c)"
  shows "n \<in> L" "n \<noteq> root_node c" "lock_ref (nd c n) = 0"
  using assms by (auto simp: cinv_def cache_ok_def leaves_ok_def unlocked_def)

text \<open>One round of the loop: delete, then record the event.\<close>

lemma delete_record_ok:
  assumes inv: "cinv c L P V H" and x: "x \<in> set (evictable_leaves c)"
  shows "\<exists>c1 c2 p. delete_leaf x c = Inr c1 \<and> parent_of c1 x = Inr p \<and> record_remove_event x c1 = Inr c2 \<and>
    shrunk c L P V H c2 (L - {x}) \<and> p \<notin> set (evictable_leaves c) \<and>
    rc_evictable_size c2 = rc_evictable_size c - int (rk_len (tn_key (nd c x))) \<and>
    set (evictable_leaves c2) =
      set (evictable_leaves c) - {x} \<union> (if tn_children (nd c1 p) = [] \<and> lock_ref (nd c1 p) = 0 then {p} else {})"
proof -
  note E = evictable_in [OF inv x]
  obtain xs :: "int list" where xs: "length xs = rk_len (tn_key (nd c x))" "0 < length xs" "rc_page_size c dvd rk_len (tn_key (nd c x))"
    using leaf_value [OF inv E(1,2)] by blast
  obtain c1 p where d: "delete_leaf x c = Inr c1" "cinv c1 (L - {x}) P V H" "tn_parent (nd c x) = Some p"
    "conf c1 = conf c"
    "\<forall>m. tn_value (nd c1 m) = tn_value (nd c m) \<and> tn_key (nd c1 m) = tn_key (nd c m) \<and>
         tn_parent (nd c1 m) = tn_parent (nd c m) \<and> hash_value (nd c1 m) = hash_value (nd c m) \<and>
         lock_ref (nd c1 m) = lock_ref (nd c m)"
    "rc_evictable_size c1 = rc_evictable_size c - int (rk_len (tn_key (nd c x)))"
    "set (evictable_leaves c1) =
      set (evictable_leaves c) - {x} \<union> (if tn_children (nd c1 p) = [] \<and> lock_ref (nd c1 p) = 0 then {p} else {})"
    "p \<notin> set (evictable_leaves c)"
    using delete_leaf_ok [OF inv x] by (elim exE conjE) (rule that)
  note C = conf_D [OF d(4)]
  have "insert x (L - {x}) = L" using E(1) by blast
  moreover have "events_ok c1 L"
    using inv d(5) C by (auto simp: cinv_def events_ok_def native_hash_ok_def)
  ultimately have ev: "events_ok c1 (insert x (L - {x}))" by simp
  have "0 < rc_page_size c" using tree_ok_D(4) [OF cinv_tree [OF inv]] by simp
  then obtain c2 where c2: "record_remove_event x c1 = Inr c2" "view c2 = view c1" "events_ok c2 (L - {x})" "conf c2 = conf c1"
    using record_remove_event_ok [OF ev] d(5) xs C by auto
  have V: "tn_value (nd c2 m) = tn_value (nd c1 m)" "lock_ref (nd c2 m) = lock_ref (nd c1 m)"
    "rc_evictable_size c2 = rc_evictable_size c1" "evictable_leaves c2 = evictable_leaves c1" for m
    using arg_cong [OF c2(2), of "\<lambda>v. v_value v m"] arg_cong [OF c2(2), of "\<lambda>v. v_lock v m"]
      arg_cong [OF c2(2), of v_esize] arg_cong [OF c2(2), of v_leaves] by simp_all
  have "shrunk c L P V H c2 (L - {x})"
    using d c2 V E by (auto simp: shrunk_def cinv_def)
  moreover have "parent_of c1 x = Inr p" using d(3,5) by (simp add: parent_of_def)
  ultimately show ?thesis using d c2 V by auto
qed

context slot_pool
begin

lemma evict_loop_ok:
  assumes "cinv c L P V H" "heap_ok heap c" "card L < fuel" "inv a" "tree_slots (used a) (whole a) c (L - {root_node c})"
  shows "\<exists>k a' c' L'. evict_loop release fuel num evd heap a c = Inr (k, a', c') \<and> shrunk c L P V H c' L' \<and>
    inv a' \<and> whole a' = whole a \<and> used a' = used a - slots_of c (L - L') \<and>
    tree_slots (used a') (whole a') c' (L' - {root_node c}) \<and>
    int k - int evd = rc_evictable_size c - rc_evictable_size c' \<and> (num \<le> k \<or> rc_evictable_size c' = 0)"
  using assms
proof (induction fuel arbitrary: evd heap a c L)
  case (Suc fuel)
  show ?case
  proof (cases "evd < num \<and> heap \<noteq> []")
    case False
    have "num \<le> evd \<or> rc_evictable_size c = 0"
    proof (cases "heap = []")
      case True
      then have "v_leaves (view c) = []" using Suc.prems(2) by (simp add: heap_ok_def)
      then show ?thesis using no_leaves(2) [of "view c" L P V H] Suc.prems(1) by (simp add: cinv_def)
    qed (use False in simp)
    with False Suc.prems shrunk_refl [OF Suc.prems(1)] show ?thesis
      by (intro exI [of _ evd] exI [of _ a] exI [of _ c] exI [of _ L]) (auto simp: slots_of_def)
  next
    case True
    obtain pr x heap1 where pop: "heappop c heap = ((pr, x), heap1)" by (metis surj_pair)
    have hd: "distinct (map snd heap)" "set (map snd heap) = set (evictable_leaves c)"
      using Suc.prems(2) by (simp_all add: heap_ok_def)
    note h = heappop_set [OF conjunct2 [OF True] hd(1) pop]
    have x: "x \<in> set (evictable_leaves c)" using h(1) hd(2) by blast
    note E = evictable_in [OF Suc.prems(1) x]
    obtain xs where xs: "tn_value (nd c x) = Some xs" "length xs = rk_len (tn_key (nd c x))"
      using leaf_value [OF Suc.prems(1) E(1,2)] by blast
    have "distinct xs" "set xs \<subseteq> used a" "whole a (set xs)"
      using tree_slots_D [OF Suc.prems(5), of x] E(1,2) xs(1) by simp_all
    from release_ok [OF Suc.prems(4) this] obtain a1 where
      a1: "release a xs = Inr a1" "inv a1" "used a1 = used a - set xs" "whole a1 = whole a" by blast
    obtain c1 c2 p where d: "delete_leaf x c = Inr c1" "parent_of c1 x = Inr p" "record_remove_event x c1 = Inr c2"
      "shrunk c L P V H c2 (L - {x})" "rc_evictable_size c2 = rc_evictable_size c - int (rk_len (tn_key (nd c x)))"
      "set (evictable_leaves c2) =
      set (evictable_leaves c) - {x} \<union> (if tn_children (nd c1 p) = [] \<and> lock_ref (nd c1 p) = 0 then {p} else {})"
      "p \<notin> set (evictable_leaves c)"
      using delete_record_ok [OF Suc.prems(1) x] by (elim exE conjE) (rule that)
    define heap2 where "heap2 = (if tn_children (nd c1 p) = [] \<and> lock_ref (nd c1 p) = 0
                        then (get_priority (rc_strategy c1) (nd c1 p), p) # heap1 else heap1)"
    have heap2: "heap_ok heap2 c2" using h(2,3) hd(2) d(6,7) by (auto simp: heap_ok_def heap2_def)
    have root: "root_node c2 = root_node c" and val: "\<And>n. tn_value (nd c2 n) = tn_value (nd c n)"
      using d(4) by (auto simp: shrunk_def conf_def)
    have ts: "tree_slots (used a1) (whole a1) c2 (L - {x} - {root_node c2})"
      using tree_slots_Diff [OF Suc.prems(5), of x c2] E(1,2) val a1(3,4) xs(1) root
      by (simp add: Diff_insert2 [symmetric] insert_commute)
    have "finite L" using tree_ok_D(2) [OF cinv_tree [OF Suc.prems(1)]] .
    then have "card (L - {x}) < fuel" using E(1) Suc.prems(3) card_Diff1_less [of L x] by linarith
    from Suc.IH [OF _ heap2 this a1(2) ts, of "evd + length xs"] d(4)
    obtain k a' c' L' where IH: "evict_loop release fuel num (evd + length xs) heap2 a1 c2 = Inr (k, a', c')"
      "shrunk c2 (L - {x}) P V H c' L'" "inv a'" "whole a' = whole a1" "used a' = used a1 - slots_of c2 (L - {x} - L')"
      "tree_slots (used a') (whole a') c' (L' - {root_node c2})"
      "int k - int (evd + length xs) = rc_evictable_size c2 - rc_evictable_size c'" "num \<le> k \<or> rc_evictable_size c' = 0"
      by (auto simp: shrunk_def)
    have "L' \<subseteq> L - {x}" using IH(2) by (simp add: shrunk_def)
    then have "L - L' = insert x (L - {x} - L')" using E(1) by blast
    then have "slots_of c (L - L') = set xs \<union> slots_of c2 (L - {x} - L')" using xs(1) val by (simp add: slots_of_def)
    moreover have "evict_loop release (Suc fuel) num evd heap a c = Inr (k, a', c')"
      using True pop xs(1) a1(1) d(1-3) IH(1) by (simp add: tensor_def heap2_def)
    ultimately show ?thesis using IH a1 d(4,5) xs(2) root shrunk_trans [OF d(4) IH(2)]
      by (intro exI [of _ k] exI [of _ a'] exI [of _ c'] exI [of _ L']) auto
  qed
qed simp

lemma evict_ok:
  assumes inv: "cinv c L P V H" and en: "\<not> rc_disable c" and a: "inv a"
    and ts: "tree_slots (used a) (whole a) c (L - {root_node c})"
    and ord: "\<And>xs. mset (order xs) = mset xs"
  shows "\<exists>k a' c' L'. evict release order num a c = Inr (k, a', c') \<and> shrunk c L P V H c' L' \<and>
    inv a' \<and> whole a' = whole a \<and> used a' = used a - slots_of c (L - L') \<and>
    tree_slots (used a') (whole a') c' (L' - {root_node c}) \<and>
    int k = rc_evictable_size c - rc_evictable_size c' \<and> min (int num) (rc_evictable_size c) \<le> int k"
proof -
  have d: "distinct (evictable_leaves c)" using inv by (simp add: cinv_def cache_ok_def leaves_ok_def)
  define heap where "heap = map (\<lambda>n. (get_priority (rc_strategy c) (nd c n), n)) (order (evictable_leaves c))"
  have "map snd heap = order (evictable_leaves c)" by (simp add: heap_def comp_def)
  moreover have "set (order (evictable_leaves c)) = set (evictable_leaves c)" "distinct (order (evictable_leaves c))"
    using ord [of "evictable_leaves c"] d by (metis mset_eq_setD, metis mset_eq_imp_distinct_iff)
  ultimately have heap: "heap_ok heap c" by (simp add: heap_ok_def)
  have "card L \<le> rc_counter c"
    using card_mono [of "{..< rc_counter c}" L] tree_ok_D(1) [OF cinv_tree [OF inv]] by simp
  then have "card L < Suc (rc_counter c)" by simp
  from evict_loop_ok [OF inv heap this a ts, of num 0] obtain k a' c' L' where
    e: "evict_loop release (Suc (rc_counter c)) num 0 heap a c = Inr (k, a', c')" "shrunk c L P V H c' L'"
    "inv a'" "whole a' = whole a" "used a' = used a - slots_of c (L - L')"
    "tree_slots (used a') (whole a') c' (L' - {root_node c})"
    "int k = rc_evictable_size c - rc_evictable_size c'" "num \<le> k \<or> rc_evictable_size c' = 0" by auto
  then have "min (int num) (rc_evictable_size c) \<le> int k" by linarith
  then show ?thesis using e en
    by (intro exI [of _ k] exI [of _ a'] exI [of _ c'] exI [of _ L'])
      (simp add: evict_def Let_def heap_def [symmetric] del: evict_loop.simps)
qed

end

end
