(* ===== verification/Radix_Spec.thy ===== *)
theory Radix_Spec
  imports Radix_Evict
begin

text \<open>
  The contract of the prefix cache without ghost state: \<open>cache_inv c H\<close> says that \<open>c\<close> is a
  well-formed cache whose held nodes are \<open>H\<close>, \<open>cached c\<close> is the set of pairs of a path and
  its slots that it holds. A new cache satisfies the invariant and every operation keeps it.
\<close>

definition cache_inv :: "radix_cache \<Rightarrow> nat multiset \<Rightarrow> bool" where
  "cache_inv c H \<longleftrightarrow> (\<exists>L P V. cinv c L P V H)"

section \<open>A new cache\<close>

lemma reset_view:
  "view (reset c) =
     (view c)\<lparr>v_counter := Suc (rc_counter c), v_root := rc_counter c,
       v_children := (v_children (view c))(rc_counter c := []),
       v_parent := (v_parent (view c))(rc_counter c := None),
       v_key := (v_key (view c))(rc_counter c := RadixKey [] None False None),
       v_value := (v_value (view c))(rc_counter c := Some []),
       v_lock := (v_lock (view c))(rc_counter c := 1), v_esize := 0, v_psize := 0, v_leaves := []\<rparr>"
  by (simp add: reset_def new_tree_node_def monotonic_def upd_node_def record_all_cleared_event_def
      reset_session_radix_state_def view_def Let_def TreeNode_def fun_eq_iff)

lemma reset_rest:
  "root_node (reset c) = rc_counter c" "rc_page_size (reset c) = rc_page_size c"
  "rc_hash (reset c) = rc_hash c" "enable_kv_cache_events (reset c) = enable_kv_cache_events c"
  "hash_value (nd (reset c) (rc_counter c)) = Some []" "rc_disable (reset c) = rc_disable c"
  "is_eagle (reset c) = is_eagle c" "session_leaves (reset c) = []" "closed_session_ids (reset c) = []"
  by (simp_all add: reset_def new_tree_node_def monotonic_def upd_node_def record_all_cleared_event_def
      reset_session_radix_state_def Let_def)

lemma reset_sizes:
  "rc_evictable_size (reset c) = 0" "rc_protected_size (reset c) = 0" "rc_strategy (reset c) = rc_strategy c"
  by (simp_all add: reset_def new_tree_node_def monotonic_def upd_node_def record_all_cleared_event_def
      reset_session_radix_state_def Let_def)

lemma lower_char_idem: "lower_char \<circ> lower_char = lower_char"
  by (simp add: lower_char_def fun_eq_iff)

lemma get_eviction_strategy_lower: "get_eviction_strategy (map lower_char s) = get_eviction_strategy s"
  by (simp add: get_eviction_strategy_def lower_char_idem)

lemma reset_cinv:
  assumes "0 < rc_page_size c" "enable_kv_cache_events c \<longrightarrow> native_hash_ok c"
  shows "cinv (reset c) {rc_counter c} (\<lambda>_. []) (\<lambda>_. []) {#}"
proof -
  have "cache_ok (view (reset c)) {rc_counter c} (\<lambda>_. []) (\<lambda>_. []) {#}"
    using assms(1) unfolding reset_view
    by (simp add: cache_ok_def tree_ok_def kids_ok_def trie_def locks_ok_def sizes_ok_def leaves_ok_def
        unlocked_def locked_def)
  moreover have key: "tn_key (nd (reset c) (rc_counter c)) = RadixKey [] None False None"
    using arg_cong [OF reset_view [of c], of "\<lambda>v. v_key v (rc_counter c)"] by simp
  then have "events_ok (reset c) {rc_counter c}"
    using assms(2) by (simp add: events_ok_def native_hash_ok_def page_hashes_def reset_rest)
  ultimately show ?thesis by (simp add: cinv_def)
qed

lemma reset_inv:
  assumes "0 < rc_page_size c" "enable_kv_cache_events c \<longrightarrow> native_hash_ok c"
  shows "cache_inv (reset c) {#}" "cached (reset c) = {([], [])}"
proof -
  note R = reset_cinv [OF assms]
  then show "cache_inv (reset c) {#}" by (auto simp: cache_inv_def)
  show "cached (reset c) = {([], [])}" using cached_eq [OF cinv_tree [OF R]] by (auto simp: entries_def)
qed

section \<open>Operations\<close>

lemma prefix_lcp:
  assumes "prefix u xs" "prefix u ys"
  shows "length u \<le> lcp_len xs ys"
  using assms by (auto simp: le_lcp_len_iff prefix_def)

lemma match_inv:
  assumes "cache_inv c H" "\<not> rc_disable c"
  shows "\<exists>m c'. match_prefix key c = Inr (m, c') \<and> cache_inv c' H \<and> cached c' = cached c \<and>
    conf c' = conf c \<and> length (device_indices m) \<le> rk_len (query c key) \<and>
    rc_page_size c dvd length (device_indices m) \<and>
    (take (length (device_indices m)) (tunits (query c key)), device_indices m) \<in> cached c \<and>
    (\<forall>(u, w) \<in> cached c. prefix u (tunits (query c key)) \<longrightarrow> rc_page_size c dvd length u \<longrightarrow>
       length u \<le> length (device_indices m))"
proof -
  obtain L P V where inv: "cinv c L P V H" using assms(1) by (auto simp: cache_inv_def)
  let ?K = "tunits (query c key)"
  obtain n c' L' P' V' where m: "match_prefix key c = Inr (MatchResult (V' n) n, c')" "cinv c' L' P' V' H"
    "deepest (rc_page_size c) L' P' ?K n" "entries L' P' V' = entries L P V" "frame L c c'"
    using match_prefix_ok [OF inv assms(2)] by blast
  have ent: "cached c = entries L P V" "cached c' = entries L' P' V'"
    using cached_eq [OF cinv_tree [OF inv]] cached_eq [OF cinv_tree [OF m(2)]] by simp_all
  have n: "n \<in> L'" "prefix (P' n) ?K" using m(3) by (simp_all add: deepest_def)
  have len: "length (V' n) = length (P' n)" using length_V [OF cinv_tree [OF m(2)] n(1)] .
  have ps: "rc_page_size c' = rc_page_size c" using m(5) by (simp add: frame_def conf_def)
  have dvd: "rc_page_size c dvd length (P' n)" using dvd_P [OF cinv_tree [OF m(2)] n(1)] ps by simp
  have "take (length (P' n)) ?K = P' n" using n(2) by (auto elim!: prefixE)
  then have "(take (length (V' n)) ?K, V' n) \<in> cached c"
    using entries_I [OF n(1), of "length (P' n)" P' V'] len ent m(4) by simp
  moreover have "length u \<le> length (V' n)"
    if u: "(u, w) \<in> cached c" "prefix u ?K" "rc_page_size c dvd length u" for u w
  proof -
    have "(u, w) \<in> entries L' P' V'" using u(1) ent m(4) by simp
    then obtain k j where k: "k \<in> L'" "u = take j (P' k)" by (auto simp: entries_def)
    then have "length u \<le> lcp_len ?K (P' k)" using prefix_lcp [OF u(2)] take_is_prefix by blast
    then have "length u \<le> page_floor (rc_page_size c) (lcp_len ?K (P' k))"
      using le_page_floor_iff [OF u(3)] by simp
    then show ?thesis using m(3) k(1) len by (auto simp: deepest_def intro: le_trans)
  qed
  moreover have "length (P' n) \<le> rk_len (query c key)" using prefix_length_le [OF n(2)] by simp
  ultimately show ?thesis
    using m ent dvd len by (intro exI [of _ "MatchResult (V' n) n"] exI [of _ c'])
      (auto simp: cache_inv_def MatchResult_def frame_def)
qed

lemma reaches_cached: "reaches c n u w \<Longrightarrow> (u, w) \<in> cached c"
proof -
  assume r: "reaches c n u w"
  have "(take (max (length u) (length w)) u, take (max (length u) (length w)) w) \<in> cached c"
    using r unfolding cached_def by blast
  then show ?thesis by simp
qed

lemma cached_take: "(u, w) \<in> cached c \<Longrightarrow> (take k u, take k w) \<in> cached c"
  unfolding cached_def by (auto simp: take_take) blast

lemma match_reaches:
  assumes "cache_inv c H" "\<not> rc_disable c" "match_prefix key c = Inr (m, c')"
  shows "reaches c' (last_device_node m) (take (length (device_indices m)) (tunits (query c key))) (device_indices m)"
proof -
  obtain L P V where inv: "cinv c L P V H" using assms(1) by (auto simp: cache_inv_def)
  obtain n L' P' V' where r: "m = MatchResult (V' n) n" "cinv c' L' P' V' H"
    "deepest (rc_page_size c) L' P' (tunits (query c key)) n"
    using match_prefix_ok [OF inv assms(2), of key] assms(3) by auto
  have n: "n \<in> L'" "prefix (P' n) (tunits (query c key))" using r(3) by (simp_all add: deepest_def)
  have "take (length (V' n)) (tunits (query c key)) = P' n"
    using length_V [OF cinv_tree [OF r(2)] n(1)] n(2) by (auto elim!: prefixE)
  then show ?thesis using reaches_iff [OF cinv_tree [OF r(2)]] n(1) by (simp add: r(1) MatchResult_def)
qed

lemma match_prefix_frame:
  assumes "cache_inv c H" "\<not> rc_disable c" "match_prefix key c = Inr (m, c')"
  shows "session_leaves c' = session_leaves c" "closed_session_ids c' = closed_session_ids c"
proof -
  obtain L P V where inv: "cinv c L P V H" using assms(1) by (auto simp: cache_inv_def)
  have "frame L c c'" using match_prefix_ok [OF inv assms(2), of key] assms(3) by auto
  then show "session_leaves c' = session_leaves c" "closed_session_ids c' = closed_session_ids c"
    by (simp_all add: frame_def)
qed

lemma insert_inv:
  assumes "cache_inv c H" "\<not> rc_disable c" "rk_len (query c key) \<le> length val"
  shows "\<exists>r c' W. rc_insert key (Some val) prio chunked c = Inr (r, c') \<and> cache_inv c' H \<and> conf c' = conf c \<and>
    length W = rk_len (query c key) \<and>
    cached c' = cached c \<union> {(take k (tunits (query c key)), take k W) | k. True} \<and>
    ir_prefix_len r \<le> rk_len (query c key) \<and> rc_page_size c dvd ir_prefix_len r \<and>
    (take (ir_prefix_len r) (tunits (query c key)), take (ir_prefix_len r) W) \<in> cached c \<and>
    drop (ir_prefix_len r) W = drop (ir_prefix_len r) (take (rk_len (query c key)) val) \<and>
    (\<forall>(u, w) \<in> cached c. prefix u (tunits (query c key)) \<longrightarrow> rc_page_size c dvd length u \<longrightarrow>
       length u \<le> ir_prefix_len r)"
proof -
  obtain L P V where inv: "cinv c L P V H" using assms(1) by (auto simp: cache_inv_def)
  let ?K = "tunits (query c key)"
  obtain plen node c' L' P' V' where i:
    "rc_insert key (Some val) prio chunked c = Inr (\<lparr>ir_prefix_len = plen, ir_last_device_node = Some node\<rparr>, c')"
    "cinv c' L' P' V' H" "frame L c c'"
    "inserted (rc_page_size c) L P V L' P' V' ?K (insert_vals c key (Some val)) plen node"
    using rc_insert_ok [OF inv assms(2), of "Some val" key prio chunked] assms(3) by auto
  have ent: "cached c = entries L P V" "cached c' = entries L' P' V'"
    using cached_eq [OF cinv_tree [OF inv]] cached_eq [OF cinv_tree [OF i(2)]] by simp_all
  note I = i(4) [unfolded inserted_def]
  have len: "length (V' node) = rk_len (query c key)"
    using length_V [OF cinv_tree [OF i(2)], of node] I by simp
  have "length u \<le> plen" if u: "(u, w) \<in> cached c" "prefix u ?K" "rc_page_size c dvd length u" for u w
  proof -
    have "(u, w) \<in> entries L P V" using u(1) ent by simp
    then obtain k j where k: "k \<in> L" "u = take j (P k)" by (auto simp: entries_def)
    then have "length u \<le> lcp_len ?K (P k)" using prefix_lcp [OF u(2)] take_is_prefix by blast
    then have "length u \<le> page_floor (rc_page_size c) (lcp_len ?K (P k))"
      using le_page_floor_iff [OF u(3)] by simp
    then show ?thesis using I k(1) by (meson le_trans)
  qed
  then show ?thesis using i ent len I
    by (intro exI [of _ "\<lparr>ir_prefix_len = plen, ir_last_device_node = Some node\<rparr>"] exI [of _ c'] exI [of _ "V' node"])
      (auto simp: cache_inv_def frame_def insert_vals_def)
qed

lemma insert_match_inv:
  assumes "cache_inv c H" "\<not> rc_disable c" "rk_len (query c key) \<le> length val"
    and ins: "rc_insert key (Some val) prio chunked c = Inr (r, c')"
  shows "\<exists>m c''. match_prefix key c' = Inr (m, c'') \<and> cache_inv c'' H \<and> cached c'' = cached c' \<and>
    length (device_indices m) = rk_len (query c key) \<and> Some (last_device_node m) = ir_last_device_node r \<and>
    drop (ir_prefix_len r) (device_indices m) = drop (ir_prefix_len r) (take (rk_len (query c key)) val)"
proof -
  obtain L P V where inv: "cinv c L P V H" using assms(1) by (auto simp: cache_inv_def)
  let ?K = "tunits (query c key)"
  obtain plen node L' P' V' where i: "r = \<lparr>ir_prefix_len = plen, ir_last_device_node = Some node\<rparr>"
    "cinv c' L' P' V' H" "frame L c c'"
    "inserted (rc_page_size c) L P V L' P' V' ?K (insert_vals c key (Some val)) plen node"
    using rc_insert_ok [OF inv assms(2), of "Some val" key prio chunked] assms(3) ins by auto
  have C: "conf c' = conf c" using i(3) by (simp add: frame_def)
  note C = conf_D [OF C]
  have q: "query c' key = query c key" using C by (simp add: query_def)
  have node: "node \<in> L'" "P' node = ?K" "drop plen (V' node) = drop plen (insert_vals c key (Some val))"
    using i(4) by (simp_all add: inserted_def)
  obtain c'' L'' P'' V'' where m: "match_prefix key c' = Inr (MatchResult (V' node) node, c'')"
    "cinv c'' L'' P'' V'' H" "entries L'' P'' V'' = entries L' P' V'"
    using match_inserted [OF i(2) _ node(1), of key] assms(2) C(3) node(2) q by auto
  have "length (V' node) = rk_len (query c key)"
    using length_V [OF cinv_tree [OF i(2)] node(1)] node(2) by simp
  moreover have "cached c'' = cached c'"
    using cached_eq [OF cinv_tree [OF i(2)]] cached_eq [OF cinv_tree [OF m(2)]] m(3) by simp
  ultimately show ?thesis using m i(1) node(3)
    by (intro exI [of _ "MatchResult (V' node) node"] exI [of _ c''])
      (auto simp: cache_inv_def MatchResult_def insert_vals_def)
qed

lemma lock_inv:
  assumes "cache_inv c H" "reaches c n u w" "\<not> rc_disable c"
  shows "\<exists>delta c'. inc_lock_ref n c = Inr (delta, c') \<and> cache_inv c' (add_mset n H) \<and> cached c' = cached c \<and>
    conf c' = conf c \<and> delta = rc_evictable_size c' - rc_evictable_size c"
proof -
  obtain L P V where inv: "cinv c L P V H" using assms(1) by (auto simp: cache_inv_def)
  have n: "n \<in> L" using assms(2) reaches_iff [OF cinv_tree [OF inv]] by simp
  obtain delta c' where c': "inc_lock_ref n c = Inr (delta, c')" "cinv c' L P V (add_mset n H)" "frame L c c'"
    "delta = rc_evictable_size c' - rc_evictable_size c"
    using inc_lock_ref_ok [OF inv n assms(3)] by blast
  then show ?thesis using cached_eq [OF cinv_tree [OF inv]] cached_eq [OF cinv_tree [OF c'(2)]]
    by (auto simp: cache_inv_def frame_def)
qed

lemma unlock_inv:
  assumes "cache_inv c H" "n \<in># H" "\<not> rc_disable c"
  shows "\<exists>delta c'. dec_lock_ref n c = Inr (delta, c') \<and> cache_inv c' (H - {#n#}) \<and> cached c' = cached c \<and>
    conf c' = conf c \<and> delta = rc_evictable_size c' - rc_evictable_size c"
proof -
  obtain L P V where inv: "cinv c L P V H" using assms(1) by (auto simp: cache_inv_def)
  obtain delta c' where c': "dec_lock_ref n c = Inr (delta, c')" "cinv c' L P V (H - {#n#})" "frame L c c'"
    "delta = rc_evictable_size c' - rc_evictable_size c"
    using dec_lock_ref_ok [OF inv assms(2,3)] by blast
  then show ?thesis using cached_eq [OF cinv_tree [OF inv]] cached_eq [OF cinv_tree [OF c'(2)]]
    by (auto simp: cache_inv_def frame_def)
qed

lemma unlock_reaches:
  assumes "cache_inv c H" "n \<in># H" "\<not> rc_disable c" "dec_lock_ref n c = Inr (d, c')"
  shows "reaches c' k u w \<longleftrightarrow> reaches c k u w"
proof -
  obtain L P V where inv: "cinv c L P V H" using assms(1) by (auto simp: cache_inv_def)
  then have "cinv c' L P V (H - {#n#})" using dec_lock_ref_ok [OF inv assms(2,3)] assms(4) by auto
  then show ?thesis using reaches_iff [OF cinv_tree [OF inv]] reaches_iff [OF cinv_tree] by blast
qed

lemma match_keeps_reaches:
  assumes "cache_inv c H" "\<not> rc_disable c" "match_prefix key c = Inr (m, c')" "reaches c k u w"
  shows "reaches c' k u w"
proof -
  obtain L P V where inv: "cinv c L P V H" using assms(1) by (auto simp: cache_inv_def)
  then obtain L' P' V' where "cinv c' L' P' V' H" "extends L P V L' P' V'"
    using match_prefix_ok [OF inv assms(2), of key] assms(3) by auto
  then show ?thesis using assms(4) reaches_iff [OF cinv_tree [OF inv]] reaches_iff [OF cinv_tree] by (auto simp: extends_def)
qed

section \<open>The tree and the allocator\<close>

text \<open>The slots of the nodes that can be reached, and that the tree owns them.\<close>

definition live :: "radix_cache \<Rightarrow> nat set" where
  "live c = {n. n \<noteq> root_node c \<and> (\<exists>u w. reaches c n u w)}"

definition owned :: "radix_cache \<Rightarrow> int set" where
  "owned c = slots_of c (live c)"

definition owns_slots :: "int set \<Rightarrow> (int set \<Rightarrow> bool) \<Rightarrow> radix_cache \<Rightarrow> bool" where
  "owns_slots S whole c \<longleftrightarrow> tree_slots S whole c (live c)"

lemma live_eq: "cinv c L P V H \<Longrightarrow> live c = L - {root_node c}"
  using reaches_iff [OF cinv_tree] by (auto simp: live_def)

lemma slots_of_Diff:
  assumes "tree_slots S whole c L" "L' \<subseteq> L"
  shows "slots_of c (L - L') = slots_of c L - slots_of c L'"
proof -
  have "x \<notin> set (the (tn_value (nd c m)))"
    if "n \<in> L" "n \<notin> L'" "m \<in> L'" "x \<in> set (the (tn_value (nd c n)))" for n m x
  proof -
    have "m \<in> L" "n \<noteq> m" using that assms(2) by auto
    then have "set (the (tn_value (nd c n))) \<inter> set (the (tn_value (nd c m))) = {}"
      using assms(1) that(1) by (simp add: tree_slots_def)
    then show ?thesis using that(4) by blast
  qed
  then show ?thesis by (auto simp: slots_of_def)
qed

text \<open>The tokens that a call evicts are as many as the slots it frees.\<close>

lemma evictable_length:
  assumes inv: "cinv c L P V H"
  shows "rc_evictable_size c = (\<Sum>n \<in> unlocked (view c) L. int (length (the (tn_value (nd c n)))))"
proof -
  have "rc_evictable_size c = sum (key_size (view c)) (unlocked (view c) L)"
    using inv by (simp add: cinv_def cache_ok_def sizes_ok_def)
  also have "\<dots> = (\<Sum>n \<in> unlocked (view c) L. int (length (the (tn_value (nd c n)))))"
  proof (rule sum.cong [OF refl])
    fix n assume "n \<in> unlocked (view c) L"
    then have "n \<in> L" "n \<noteq> root_node c" by (simp_all add: unlocked_def)
    then show "key_size (view c) n = int (length (the (tn_value (nd c n))))"
      using leaf_value [OF inv, of n] by (auto simp: key_size_def)
  qed
  finally show ?thesis .
qed

lemma evictable_nonneg: "cache_inv c H \<Longrightarrow> 0 \<le> rc_evictable_size c"
  using evictable_length by (fastforce simp: cache_inv_def intro: sum_nonneg)

lemma shrunk_card:
  assumes inv: "cinv c L P V H" and sh: "shrunk c L P V H c' L'" and ts: "tree_slots S whole c (L - {root_node c})"
  shows "rc_evictable_size c - rc_evictable_size c' = int (card (slots_of c (L - L')))"
proof -
  let ?f = "\<lambda>n. the (tn_value (nd c n))"
  have sd: "cinv c' L' P V H" "L' \<subseteq> L" "root_node c' = root_node c" "\<And>n. tn_value (nd c' n) = tn_value (nd c n)"
    "\<And>n. lock_ref (nd c' n) = lock_ref (nd c n)" "\<And>n. n \<in> L - L' \<Longrightarrow> lock_ref (nd c n) = 0 \<and> n \<noteq> root_node c"
    using sh by (auto simp: shrunk_def conf_def)
  have fin: "finite L" using tree_ok_D(2) [OF cinv_tree [OF inv]] .
  have un: "unlocked (view c) L = unlocked (view c') L' \<union> (L - L')" "unlocked (view c') L' \<inter> (L - L') = {}"
    using sd by (auto simp: unlocked_def)
  have fu: "finite (unlocked (view c') L')" using fin finite_subset [OF sd(2)] by (simp add: unlocked_def)
  have "rc_evictable_size c = (\<Sum>n \<in> unlocked (view c') L'. int (length (?f n))) + (\<Sum>n \<in> L - L'. int (length (?f n)))"
    using evictable_length [OF inv] un fu fin by (simp add: sum.union_disjoint)
  moreover have "rc_evictable_size c' = (\<Sum>n \<in> unlocked (view c') L'. int (length (?f n)))"
    using evictable_length [OF sd(1)] sd(4) by simp
  moreover have "card (slots_of c (L - L')) = (\<Sum>n \<in> L - L'. length (?f n))"
  proof -
    have sub: "L - L' \<subseteq> L - {root_node c}" using sd(6) by blast
    have "\<forall>n \<in> L - L'. \<forall>m \<in> L - L'. n \<noteq> m \<longrightarrow> set (?f n) \<inter> set (?f m) = {}"
      using ts sub unfolding tree_slots_def by (meson subsetD)
    then have "card (slots_of c (L - L')) = (\<Sum>n \<in> L - L'. card (set (?f n)))"
      unfolding slots_of_def using fin by (intro card_UN_disjoint) simp_all
    also have "\<dots> = (\<Sum>n \<in> L - L'. length (?f n))"
      using ts sub by (intro sum.cong [OF refl] distinct_card) (auto simp: tree_slots_def)
    finally show ?thesis .
  qed
  ultimately show ?thesis by simp
qed

context slot_pool
begin

lemma evict_inv:
  assumes "cache_inv c H" "\<not> rc_disable c" "inv a" "owns_slots (used a) (whole a) c"
    "\<And>xs. mset (order xs) = mset xs"
  shows "\<exists>k a' c'. evict release order num a c = Inr (k, a', c') \<and> cache_inv c' H \<and> inv a' \<and>
    owns_slots (used a') (whole a') c' \<and> owned c' \<subseteq> owned c \<and> used a' = used a - (owned c - owned c') \<and>
    cached c' \<subseteq> cached c \<and> (\<forall>h u w. h \<in># H \<longrightarrow> reaches c h u w \<longrightarrow> reaches c' h u w) \<and>
    int k = rc_evictable_size c - rc_evictable_size c' \<and> min (int num) (rc_evictable_size c) \<le> int k \<and>
    rc_page_size c' = rc_page_size c \<and> rc_disable c' = rc_disable c \<and> whole a' = whole a \<and>
    k = card (owned c - owned c') \<and> conf c' = conf c"
proof -
  obtain L P V where inv: "cinv c L P V H" using assms(1) by (auto simp: cache_inv_def)
  note T = cinv_tree [OF inv]
  have ts: "tree_slots (used a) (whole a) c (L - {root_node c})"
    using assms(4) live_eq [OF inv] by (simp add: owns_slots_def)
  obtain k a' c' L' where e: "evict release order num a c = Inr (k, a', c')" "shrunk c L P V H c' L'"
    "inv a'" "whole a' = whole a" "used a' = used a - slots_of c (L - L')"
    "tree_slots (used a') (whole a') c' (L' - {root_node c})"
    "int k = rc_evictable_size c - rc_evictable_size c'" "min (int num) (rc_evictable_size c) \<le> int k"
    using evict_ok [OF inv assms(2,3) ts assms(5)] by blast
  have i': "cinv c' L' P V H" "L' \<subseteq> L" "root_node c' = root_node c" "\<And>S. slots_of c' S = slots_of c S"
    and cf: "rc_page_size c' = rc_page_size c" "rc_disable c' = rc_disable c" "conf c' = conf c"
    using e(2) by (auto simp: shrunk_def conf_def slots_of_def)
  note T' = cinv_tree [OF i'(1)]
  have rt: "root_node c \<in> L'" using tree_ok_D(3) [OF T'] i'(3) by simp
  have own: "owned c' = slots_of c (L' - {root_node c})" "owned c = slots_of c (L - {root_node c})"
    using live_eq [OF i'(1)] live_eq [OF inv] i'(3,4) by (simp_all add: owned_def)
  have sl: "slots_of c (L - L') = owned c - owned c'"
  proof -
    have "L - L' = (L - {root_node c}) - (L' - {root_node c})" using rt by blast
    moreover have "L' - {root_node c} \<subseteq> L - {root_node c}" using i'(2) by blast
    ultimately show ?thesis using slots_of_Diff [OF ts] by (simp only: own)
  qed
  then have "k = card (owned c - owned c')" using shrunk_card [OF inv e(2) ts] e(7) by simp
  moreover note sl
  moreover have "owned c' \<subseteq> owned c" using own i'(2) by (auto simp: slots_of_def)
  moreover have "cached c' \<subseteq> cached c"
    using cached_eq [OF T] cached_eq [OF T'] i'(2) by (auto simp: entries_def)
  moreover have "reaches c' h u w" if "h \<in># H" "reaches c h u w" for h u w
  proof -
    have "h \<in> L'" using i'(1) that(1) by (auto simp: cinv_def cache_ok_def locks_ok_def)
    then show ?thesis using that(2) reaches_iff [OF T] reaches_iff [OF T'] by simp
  qed
  moreover have "owns_slots (used a') (whole a') c'"
    using e(6) live_eq [OF i'(1)] i'(3) by (simp add: owns_slots_def)
  ultimately show ?thesis using e i'(1) cf by (auto simp: cache_inv_def)
qed

end

section \<open>Hash values\<close>

lemma hex_digit_bound: "hex_digit ch = Inr d \<Longrightarrow> 0 \<le> d \<and> d < 16"
  by (auto simp: hex_digit_def Let_def split: if_splits)

lemma hex_digit_error: "hex_digit ch = Inl e \<Longrightarrow> e = ValueError"
  by (auto simp: hex_digit_def Let_def split: if_splits)

lemma hex_value_bound:
  "hex_value acc s = Inr v \<Longrightarrow> 0 \<le> acc \<Longrightarrow> 0 \<le> v \<and> v < (acc + 1) * 16 ^ length s"
proof (induction acc s arbitrary: v rule: hex_value.induct)
  case (2 acc ch s)
  then obtain d where d: "hex_digit ch = Inr d" "hex_value (16 * acc + d) s = Inr v" by auto
  have b: "0 \<le> d" "d < 16" using hex_digit_bound [OF d(1)] by simp_all
  have v: "0 \<le> v" "v < (16 * acc + d + 1) * 16 ^ length s"
    using "2.IH" [OF d] b "2.prems"(2) by simp_all
  have "(16 * acc + d + 1) * 16 ^ length s \<le> (16 * (acc + 1)) * 16 ^ length s"
    by (rule mult_right_mono) (use b in simp_all)
  moreover have "(acc + 1) * 16 ^ length (ch # s) = (16 * (acc + 1)) * 16 ^ length s" by simp
  ultimately show ?case using v by linarith
qed simp

lemma hex_value_error: "hex_value acc s = Inl e \<Longrightarrow> e = ValueError"
proof (induction acc s rule: hex_value.induct)
  case (2 acc ch s)
  then show ?case by (cases "hex_digit ch") (auto dest: hex_digit_error)
qed simp

text \<open>
  The block hash of an event fits a signed 64-bit integer: whatever the string is, the
  conversion raises or returns a value in range, and two strings with the same value have the
  same first sixteen hexadecimal digits as numbers.
\<close>

lemma hash_str_to_int64_bounds:
  "case hash_str_to_int64 s of
     Inl e \<Rightarrow> e = ValueError
   | Inr v \<Rightarrow> - (2 ^ 63) \<le> v \<and> v < 2 ^ 63 \<and> hex_value 0 (take 16 s) = Inr (v mod 2 ^ 64)"
proof (cases "hex_value 0 (take 16 s)")
  case (Inl e)
  then show ?thesis using hex_value_error [of 0 "take 16 s"] by (simp add: hash_str_to_int64_def Let_def)
next
  case (Inr v)
  then have "0 \<le> v \<and> v < 16 ^ length (take 16 s)" using hex_value_bound [of 0 "take 16 s" v] by simp
  moreover have "(16 :: int) ^ length (take 16 s) \<le> 16 ^ 16" by (rule power_increasing) simp_all
  ultimately have "0 \<le> v" "v < 2 ^ 64" by simp_all
  then show ?thesis using Inr by (simp add: hash_str_to_int64_def Let_def)
qed

section \<open>Locking and the slots of a path\<close>

lemma lock_node_shape:
  "lock_node n d c = (d', c') \<Longrightarrow> root_node c' = root_node c \<and> (\<forall>m. tn_value (nd c' m) = tn_value (nd c m) \<and>
     tn_children (nd c' m) = tn_children (nd c m) \<and> tn_key (nd c' m) = tn_key (nd c m))"
  by (auto simp: lock_node_def update_leaf_status_def upd_node_def Let_def split: if_splits)

lemma inc_lock_loop_shape:
  "inc_lock_loop fuel n d c = Inr (d', c') \<Longrightarrow> root_node c' = root_node c \<and>
     (\<forall>m. tn_value (nd c' m) = tn_value (nd c m) \<and> tn_children (nd c' m) = tn_children (nd c m) \<and>
       tn_key (nd c' m) = tn_key (nd c m))"
proof (induction fuel n d c rule: inc_lock_loop.induct)
  case (2 fuel n d c)
  show ?case
  proof (cases "n = root_node c")
    case False
    obtain d1 c1 where l: "lock_node n d c = (d1, c1)" by (cases "lock_node n d c")
    from "2.prems" False l obtain p where p: "parent_of c1 n = Inr p" "inc_lock_loop fuel p d1 c1 = Inr (d', c')"
      by auto
    show ?thesis using "2.IH" [OF False l [symmetric] refl p] lock_node_shape [OF l] by simp
  qed (use "2.prems" in simp)
qed simp

lemma reaches_transfer:
  assumes "root_node c' = root_node c" "\<And>m. tn_value (nd c' m) = tn_value (nd c m) \<and>
     tn_children (nd c' m) = tn_children (nd c m) \<and> tn_key (nd c' m) = tn_key (nd c m)"
    and "reaches c n u w"
  shows "reaches c' n u w"
  using assms(3)
proof induction
  case at_root
  then show ?case using reaches.at_root [of c'] assms(1) by simp
next
  case (to_child n u w k m xs)
  then show ?case using reaches.to_child [of c' n u w k m xs] assms(2) by simp
qed

lemma inc_lock_ref_shape:
  assumes "inc_lock_ref n c = Inr (d, c')"
  shows "root_node c' = root_node c" "tn_value (nd c' m) = tn_value (nd c m)"
    "reaches c' k u w \<longleftrightarrow> reaches c k u w"
proof -
  have sh: "root_node c' = root_node c \<and> (\<forall>m. tn_value (nd c' m) = tn_value (nd c m) \<and>
    tn_children (nd c' m) = tn_children (nd c m) \<and> tn_key (nd c' m) = tn_key (nd c m))"
    using assms inc_lock_loop_shape [of "Suc (rc_counter c)" n 0 c d c']
    by (auto simp: inc_lock_ref_def simp del: inc_lock_loop.simps split: if_splits)
  then show "root_node c' = root_node c" "tn_value (nd c' m) = tn_value (nd c m)" by simp_all
  show "reaches c' k u w \<longleftrightarrow> reaches c k u w"
    using reaches_transfer [of c' c] reaches_transfer [of c c'] sh by auto
qed

lemma inc_lock_ref_owns:
  assumes "inc_lock_ref n c = Inr (d, c')"
  shows "owns_slots S whole c' = owns_slots S whole c" "owned c' = owned c"
  by (simp_all add: owns_slots_def owned_def live_def tree_slots_def slots_of_def inc_lock_ref_shape [OF assms])

lemma reaches_owned:
  assumes "cache_inv c H" "reaches c n u w"
  shows "set w \<subseteq> owned c"
proof -
  obtain L P V where inv: "cinv c L P V H" using assms(1) by (auto simp: cache_inv_def)
  note T = cinv_tree [OF inv]
  show ?thesis using assms(2)
  proof induction
    case (to_child n u w k m xs)
    have r: "reaches c m (u @ tunits (tn_key (nd c m))) (w @ xs)" using reaches.to_child [OF to_child(1-3)] .
    have "n \<in> L" using to_child(1) reaches_iff [OF T] by simp
    then have "m \<noteq> root_node c" using children_iff [OF T, of n m] to_child(2) by auto
    then have "m \<in> live c" using r by (auto simp: live_def)
    then have "set xs \<subseteq> owned c" using to_child(3) by (auto simp: owned_def slots_of_def)
    with to_child(4) show ?case by simp
  qed simp
qed

lemma owns_slots_owned: "owns_slots S whole c \<Longrightarrow> owned c \<subseteq> S"
  by (auto simp: owns_slots_def owned_def tree_slots_def slots_of_def)

context slot_pool
begin

text \<open>A locked path survives every eviction, and its slots stay allocated.\<close>

lemma lock_then_evict:
  assumes "cache_inv c H" "\<not> rc_disable c" "inv a" "owns_slots (used a) (whole a) c"
    "\<And>xs. mset (order xs) = mset xs" "reaches c n u w"
  shows "\<exists>d c1 k a' c'. inc_lock_ref n c = Inr (d, c1) \<and> evict release order num a c1 = Inr (k, a', c') \<and>
    cache_inv c' (add_mset n H) \<and> inv a' \<and> reaches c' n u w \<and> set w \<subseteq> used a'"
proof -
  obtain d c1 where c1: "inc_lock_ref n c = Inr (d, c1)" "cache_inv c1 (add_mset n H)" "conf c1 = conf c"
    using lock_inv [OF assms(1,6,2)] by blast
  have en: "\<not> rc_disable c1" using conf_D [OF c1(3)] assms(2) by simp
  have own: "owns_slots (used a) (whole a) c1" using assms(4) inc_lock_ref_owns [OF c1(1)] by simp
  obtain k a' c' where e: "evict release order num a c1 = Inr (k, a', c')" "cache_inv c' (add_mset n H)" "inv a'"
    "owns_slots (used a') (whole a') c'"
    "\<forall>h u w. h \<in># add_mset n H \<longrightarrow> reaches c1 h u w \<longrightarrow> reaches c' h u w"
    using evict_inv [OF c1(2) en assms(3) own assms(5), of num] by blast
  have r: "reaches c' n u w" using e(5) assms(6) inc_lock_ref_shape(3) [OF c1(1)] by simp
  then have "set w \<subseteq> used a'" using reaches_owned [OF e(2) r] owns_slots_owned [OF e(4)] by blast
  with c1 e r show ?thesis by blast
qed

end

end
