(* ===== verification/Slot_Own.thy ===== *)
theory Slot_Own
  imports Radix_Spec
begin

text \<open>
  Who owns a slot: the tree, a request or the allocator. The tree's share is stated on the
  cached sequences instead of on nodes (\<open>placed\<close>), so that a split does not change it: every
  slot in the tree is allocated, identifies its position and the path up to the end of its
  page, and the slots of a page of tokens are whole pages of the allocator. The interface
  \<open>page_pool\<close> adds to \<open>slot_pool\<close> what the requests rely on, which also free partly filled
  pages.
\<close>

section \<open>Paths and slots\<close>

lemma prefix_page:
  assumes "x = p @ t" "take (length p + d) x = take (length p + d) y"
  shows "prefix (p @ take d t) y"
proof -
  have "p @ take d t = take (length p + d) x" using assms(1) by simp
  then show ?thesis using assms(2) by (simp add: take_is_prefix)
qed

lemma take_eq_le: "take e x = take e y \<Longrightarrow> d \<le> e \<Longrightarrow> take d x = take d y"
  by (metis min.absorb1 take_take)

lemma prefix_V:
  assumes ok: "tree_ok v L P V" and n: "n \<in> L" and m: "m \<in> L" and pre: "prefix (P n) (P m)"
  shows "V n = take (length (P n)) (V m)"
  using ok m ok pre
proof (induction rule: page_induct)
  case root
  then have "P n = []" using tree_ok_D(5) [OF ok] by simp
  then have "n = v_root v" using P_eq_root_iff [OF ok n] by simp
  then show ?case using tree_ok_D(5,6) [OF ok] by simp
next
  case (step q m)
  have len: "length (V m) = length (P m)" "length (V q) = length (P q)" "length (V n) = length (P n)"
    using length_V [OF ok] step n by simp_all
  have e: "P m = P q @ tunits (v_key v m)" "\<exists>xs. V m = V q @ xs" using step(4) by (auto simp: edge_def)
  show ?case
  proof (cases "prefix (P n) (P q)")
    case True
    then have "V n = take (length (P n)) (V q)" using step by simp
    with True e(2) len show ?thesis by (auto dest: prefix_length_le)
  next
    case False
    moreover have "prefix (P q) (P m)" using e(1) by simp
    ultimately have pre: "prefix (P q) (P n)" using prefix_same_cases step(7) by blast
    then have pq: "length (P q) < length (P n)"
      using False by (metis append_Nil2 append_eq_append_conv not_less_iff_gr_or_eq prefixE prefixI prefix_length_le leD)
    have "length (P q) + v_ps v \<le> length (P n)"
      using dvd_gap [OF dvd_P [OF ok step(1)] dvd_P [OF ok n] pq] .
    moreover have "take (length (P n)) (P m) = P n" using step(7) by (auto simp: prefix_def)
    ultimately have "take (length (P q) + v_ps v) (P m) = take (length (P q) + v_ps v) (P n)"
      by (metis min.absorb1 take_take)
    then have "prefix (P q @ take (v_ps v) (tunits (v_key v m))) (P n)"
      by (rule prefix_page [OF e(1)])
    then have "prefix (P m) (P n)" using trieD [OF ok step(2,3,4) n] by blast
    then have "m = n" using step(7) tree_ok_D(7) [OF ok] step(2) n by (metis inj_on_contraD prefix_order.antisym)
    then show ?thesis using len by simp
  qed
qed

text \<open>On whole pages a path determines its slots.\<close>

lemma V_functional:
  assumes ok: "tree_ok v L P V" and n: "n \<in> L" and m: "m \<in> L" and k: "v_ps v dvd k"
    "k \<le> length (P n)" "k \<le> length (P m)" and eq: "take k (P n) = take k (P m)"
  shows "take k (V n) = take k (V m)"
  using ok n ok k(2) eq
proof (induction rule: page_induct)
  case root
  then show ?case using tree_ok_D(5) [OF ok] by simp
next
  case (step p n)
  have e: "P n = P p @ tunits (v_key v n)" "\<exists>xs. V n = V p @ xs" using step(4) by (auto simp: edge_def)
  have len: "length (V n) = length (P n)" "length (V p) = length (P p)" using length_V [OF ok] step by simp_all
  show ?case
  proof (cases "k \<le> length (P p)")
    case True
    then show ?thesis using step e len by auto
  next
    case False
    then have "length (P p) + v_ps v \<le> k" using dvd_gap [OF dvd_P [OF ok step(1)] k(1)] by simp
    then have "take (length (P p) + v_ps v) (P n) = take (length (P p) + v_ps v) (P m)"
      using step(8) by (metis min.absorb1 take_take)
    then have "prefix (P p @ take (v_ps v) (tunits (v_key v n))) (P m)"
      by (rule prefix_page [OF e(1)])
    then have "prefix (P n) (P m)" using trieD [OF ok step(2,3,4) m] by blast
    from prefix_V [OF ok step(2) m this] show ?thesis using step(7) by simp
  qed
qed

text \<open>The page of a position inside a node determines the node.\<close>

lemma page_node:
  assumes ok: "tree_ok v L P V" and n: "n \<in> L" "n \<noteq> v_root v" "edge v P V p n" "p \<in> L"
    and m: "m \<in> L" "length (P p) \<le> i" "i < length (P m)"
    and eq: "take ((i div v_ps v + 1) * v_ps v) (P n) = take ((i div v_ps v + 1) * v_ps v) (P m)"
  shows "prefix (P n) (P m)"
proof -
  let ?e = "(i div v_ps v + 1) * v_ps v"
  have "length (P p) \<le> page_floor (v_ps v) i" using m(2) dvd_P [OF ok n(4)] by (simp add: le_page_floor_iff)
  then have "length (P p) + v_ps v \<le> ?e" by (simp add: page_floor_def)
  then have "take (length (P p) + v_ps v) (P n) = take (length (P p) + v_ps v) (P m)"
    by (rule take_eq_le [OF eq])
  moreover have "P n = P p @ tunits (v_key v n)" using n(3) by (simp add: edge_def)
  ultimately have "prefix (P p @ take (v_ps v) (tunits (v_key v n))) (P m)"
    using prefix_page by blast
  then show ?thesis using trieD [OF ok n(1,2,3) m(1)] by blast
qed

section \<open>Slots of cached sequences\<close>

definition page_blocks :: "nat \<Rightarrow> (int set \<Rightarrow> bool) \<Rightarrow> nat \<Rightarrow> int list \<Rightarrow> bool" where
  "page_blocks ps whole a w \<longleftrightarrow>
     (\<forall>k. a \<le> k * ps \<longrightarrow> (k + 1) * ps \<le> length w \<longrightarrow> whole (set (slice (k * ps) ((k + 1) * ps) w)))"

definition same_place :: "nat \<Rightarrow> units \<times> int list \<Rightarrow> units \<times> int list \<Rightarrow> bool" where
  "same_place ps e e' \<longleftrightarrow>
     (\<forall>i < length (snd e). \<forall>j < length (snd e'). snd e ! i = snd e' ! j \<longrightarrow>
        i = j \<and> take ((i div ps + 1) * ps) (fst e) = take ((i div ps + 1) * ps) (fst e'))"

definition aligned :: "nat \<Rightarrow> (units \<times> int list) set \<Rightarrow> (units \<times> int list) set" where
  "aligned ps C = {e \<in> C. ps dvd length (fst e)}"

definition placed :: "nat \<Rightarrow> int set \<Rightarrow> (int set \<Rightarrow> bool) \<Rightarrow> (units \<times> int list) set \<Rightarrow> bool" where
  "placed ps S whole C \<longleftrightarrow>
     (\<forall>e \<in> aligned ps C. set (snd e) \<subseteq> S \<and> page_blocks ps whole 0 (snd e)) \<and>
     (\<forall>e \<in> aligned ps C. \<forall>e' \<in> aligned ps C. same_place ps e e')"

lemma placed_mono: "placed ps S whole C \<Longrightarrow> C' \<subseteq> C \<Longrightarrow> placed ps S whole C'"
  unfolding placed_def aligned_def by blast

lemma placed_empty: "0 < ps \<Longrightarrow> placed ps S whole {([], [])}"
  by (auto simp: placed_def aligned_def page_blocks_def same_place_def slice_def)

lemma placed_slots:
  "placed ps S whole C \<Longrightarrow> (\<And>e. e \<in> aligned ps C \<Longrightarrow> set (snd e) \<subseteq> S') \<Longrightarrow> placed ps S' whole C"
  unfolding placed_def by blast

lemma whole_blocks:
  assumes un: "\<And>A B. whole A \<Longrightarrow> whole B \<Longrightarrow> whole (A \<union> B)" and em: "whole {}"
    and bl: "page_blocks ps whole (a * ps) w" and le: "a \<le> b" "b * ps \<le> length w"
  shows "whole (set (slice (a * ps) (b * ps) w))"
  using le
proof (induction b)
  case (Suc b)
  show ?case
  proof (cases "a = Suc b")
    case False
    then have ab: "a \<le> b" "a * ps \<le> b * ps" "b * ps \<le> length w" using Suc.prems by simp_all
    have "take (Suc b * ps) w = take (b * ps) w @ slice (b * ps) (Suc b * ps) w"
      by (simp only: take_append_slice mult_le_mono1 le_SucI order_refl)
    then have "slice (a * ps) (Suc b * ps) w = slice (a * ps) (b * ps) w @ slice (b * ps) (Suc b * ps) w"
      using ab by (simp only: slice_eq_drop_take [of "a * ps"]) simp
    moreover have "whole (set (slice (b * ps) (Suc b * ps) w))"
      using bl ab Suc.prems by (simp add: page_blocks_def)
    moreover have "whole (set (slice (a * ps) (b * ps) w))" using Suc.IH ab by simp
    ultimately show ?thesis using un by simp
  qed (simp add: em)
qed (simp add: em)

lemma same_placeD:
  assumes "same_place ps (u, w) (u', w')" "i < length w" "j < length w'" "w ! i = w' ! j"
  shows "i = j" "take ((i div ps + 1) * ps) u = take ((i div ps + 1) * ps) u'"
  using assms unfolding same_place_def by auto

lemma cache_inv_ps: "cache_inv c H \<Longrightarrow> 0 < rc_page_size c"
  using tree_ok_D(4) [OF cinv_tree] by (fastforce simp: cache_inv_def)

lemma owned_eq:
  assumes inv: "cache_inv c H"
  shows "owned c = (\<Union>e \<in> cached c. set (snd e))" "owned c = (\<Union>e \<in> aligned (rc_page_size c) (cached c). set (snd e))"
proof -
  obtain L P V where ci: "cinv c L P V H" using inv by (auto simp: cache_inv_def)
  note T = cinv_tree [OF ci]
  have sub: "owned c \<subseteq> (\<Union>e \<in> aligned (rc_page_size c) (cached c). set (snd e))"
  proof
    fix x assume "x \<in> owned c"
    then obtain n where n: "n \<in> L" "n \<noteq> root_node c" "x \<in> set (the (tn_value (nd c n)))"
      using live_eq [OF ci] by (auto simp: owned_def slots_of_def)
    obtain p where "p \<in> L" "edge (view c) P V p n" using tree_ok_edge [OF T n(1)] n(2) by auto
    then have "x \<in> set (V n)" using n(3) by (auto simp: edge_def)
    moreover have "(P n, V n) \<in> cached c"
      using entries_I [OF n(1), of "length (P n)" P V] length_V [OF T n(1)] cached_eq [OF T] by simp
    moreover have "rc_page_size c dvd length (P n)" using dvd_P [OF T n(1)] by simp
    ultimately show "x \<in> (\<Union>e \<in> aligned (rc_page_size c) (cached c). set (snd e))"
      by (auto simp: aligned_def intro!: bexI [of _ "(P n, V n)"])
  qed
  moreover have "(\<Union>e \<in> aligned (rc_page_size c) (cached c). set (snd e)) \<subseteq> (\<Union>e \<in> cached c. set (snd e))"
    by (auto simp: aligned_def)
  moreover have "(\<Union>e \<in> cached c. set (snd e)) \<subseteq> owned c"
    using reaches_owned [OF inv] by (auto simp: cached_def dest!: in_set_takeD) blast
  ultimately show "owned c = (\<Union>e \<in> cached c. set (snd e))"
    "owned c = (\<Union>e \<in> aligned (rc_page_size c) (cached c). set (snd e))" by blast+
qed

lemma cached_functional:
  assumes inv: "cache_inv c H" and e: "(u, w) \<in> cached c" "(u, w') \<in> cached c" "rc_page_size c dvd length u"
  shows "w = w'"
proof -
  obtain L P V where ci: "cinv c L P V H" using inv by (auto simp: cache_inv_def)
  note T = cinv_tree [OF ci]
  have node: "\<exists>n \<in> L. length u \<le> length (P n) \<and> take (length u) (P n) = u \<and> x = take (length u) (V n)"
    if "(u, x) \<in> cached c" for x
  proof -
    obtain n k where n: "n \<in> L" "u = take k (P n)" "x = take k (V n)"
      using \<open>(u, x) \<in> cached c\<close> unfolding cached_eq [OF T] entries_def by blast
    then have "length u = min (length (P n)) k" "length (V n) = length (P n)" using length_V [OF T] by simp_all
    then show ?thesis using n by (intro bexI [of _ n]) (auto simp: min_def)
  qed
  obtain n m where "n \<in> L" "m \<in> L" "length u \<le> length (P n)" "length u \<le> length (P m)"
    "take (length u) (P n) = u" "take (length u) (P m) = u" "w = take (length u) (V n)" "w' = take (length u) (V m)"
    using node [OF e(1)] node [OF e(2)] by blast
  then show ?thesis using V_functional [OF T, of n m "length u"] e(3) by simp
qed

lemma placed_owns:
  assumes inv: "cache_inv c H" and pl: "placed (rc_page_size c) S whole (cached c)"
    and un: "\<And>A B. whole A \<Longrightarrow> whole B \<Longrightarrow> whole (A \<union> B)" and em: "whole {}"
  shows "owns_slots S whole c"
proof -
  obtain L P V where ci: "cinv c L P V H" using inv by (auto simp: cache_inv_def)
  note T = cinv_tree [OF ci]
  let ?ps = "rc_page_size c"
  have al: "(P n, V n) \<in> aligned ?ps (cached c)" if "n \<in> L" for n
    using entries_I [OF that, of "length (P n)" P V] length_V [OF T that] dvd_P [OF T that]
    by (simp add: aligned_def cached_eq [OF T])
  have sp: "same_place ?ps (P n, V n) (P m, V m)" if "n \<in> L" "m \<in> L" for n m
    using pl al that unfolding placed_def by blast
  have node: "\<exists>p xs. p \<in> L \<and> edge (view c) P V p n \<and> tn_value (nd c n) = Some xs \<and> V n = V p @ xs"
    if "n \<in> L - {root_node c}" for n
    using tree_ok_edge [OF T, of n] that by (metis DiffD1 DiffD2 edge_def insertI1 view_sel(1,7))
  have "distinct xs \<and> set xs \<subseteq> S \<and> whole (set xs)"
    if n: "n \<in> L" "p \<in> L" "edge (view c) P V p n" and xs: "tn_value (nd c n) = Some xs" "V n = V p @ xs" for n p xs
  proof (intro conjI)
    show "distinct xs" unfolding distinct_conv_nth
    proof (intro allI impI)
      fix i j assume "i < length xs" "j < length xs" "i \<noteq> j"
      then show "xs ! i \<noteq> xs ! j"
        using same_placeD(1) [OF sp [OF n(1) n(1)], of "length (V p) + i" "length (V p) + j"] xs(2) by auto
    qed
    have "set (V n) \<subseteq> S" using pl al [OF n(1)] unfolding placed_def by fastforce
    then show "set xs \<subseteq> S" using xs(2) by simp
    have lens: "length (V p) = length (P p)" "length (V n) = length (P n)" "?ps dvd length (P p)" "?ps dvd length (P n)"
      using length_V [OF T] dvd_P [OF T] n by simp_all
    then obtain a b where ab: "length (V p) = a * ?ps" "length (V n) = b * ?ps"
      by (metis dvd_div_mult_self)
    have ps: "0 < ?ps" using tree_ok_D(4) [OF T] by simp
    have "a * ?ps \<le> b * ?ps" using ab xs(2) by (metis le_add1 length_append)
    then have "a \<le> b" using ps by simp
    moreover have "page_blocks ?ps whole (a * ?ps) (V n)"
      using pl al [OF n(1)] by (auto simp: placed_def page_blocks_def)
    ultimately have "whole (set (slice (a * ?ps) (b * ?ps) (V n)))"
      using ab(2) by (intro whole_blocks [OF un em]) simp_all
    then show "whole (set xs)" using ab xs(2) by (metis append_eq_conv_conj order_refl slice_all)
  qed
  moreover have "set xs \<inter> set ys = {}"
    if n: "n \<in> L" "n \<noteq> root_node c" "p \<in> L" "edge (view c) P V p n" "V n = V p @ xs"
      and m: "m \<in> L" "m \<noteq> root_node c" "q \<in> L" "edge (view c) P V q m" "V m = V q @ ys" and ne: "n \<noteq> m"
    for n m p q xs ys
  proof (rule ccontr)
    assume "set xs \<inter> set ys \<noteq> {}"
    then obtain i j where ij: "i < length xs" "j < length ys" "xs ! i = ys ! j"
      by (auto simp: in_set_conv_nth) metis
    have lens: "length (V p) = length (P p)" "length (V q) = length (P q)" "length (V n) = length (P n)"
      "length (V m) = length (P m)" using length_V [OF T] n(1,3) m(1,3) by blast+
    let ?i = "length (V p) + i" and ?j = "length (V q) + j"
    have lt: "?i < length (V n)" "?j < length (V m)" "V n ! ?i = V m ! ?j" using ij n m by simp_all
    note D = same_placeD [OF sp [OF n(1) m(1)] lt]
    have "prefix (P n) (P m)"
      using page_node [OF T n(1) _ n(4,3) m(1), of ?i] n(2) D lt lens by simp
    moreover have "prefix (P m) (P n)"
      using page_node [OF T m(1) _ m(4,3) n(1), of ?i] m(2) D lt lens by simp
    ultimately have "P n = P m" by (rule prefix_order.antisym)
    then show False using tree_ok_D(7) [OF T] n(1) m(1) ne by (meson inj_on_contraD)
  qed
  ultimately show ?thesis
    unfolding owns_slots_def live_eq [OF ci] tree_slots_def using node
    by (metis (no_types, lifting) DiffD1 DiffD2 insertI1 option.sel)
qed

lemma page_end_le: "i < (n :: nat) \<Longrightarrow> ps dvd n \<Longrightarrow> (i div ps + 1) * ps \<le> n"
proof -
  assume i: "i < n" "ps dvd n"
  then have "page_floor ps i < n" using page_floor_le [of ps i] by linarith
  from dvd_gap [OF page_floor_dvd i(2) this] show ?thesis by (simp add: page_floor_def)
qed

lemma same_place_sym: "same_place ps e e' \<Longrightarrow> same_place ps e' e"
  unfolding same_place_def by (metis (no_types, lifting))

lemma same_place_take:
  assumes "same_place ps (K, W) e" "length W = length K" "ps dvd length (take k K)"
  shows "same_place ps (take k K, take k W) e"
  unfolding same_place_def fst_conv snd_conv
proof (intro allI impI)
  fix i j assume ij: "i < length (take k W)" "j < length (snd e)" "take k W ! i = snd e ! j"
  then have "(i div ps + 1) * ps \<le> length (take k K)" using page_end_le [OF _ assms(3)] assms(2) by simp
  then show "i = j \<and> take ((i div ps + 1) * ps) (take k K) = take ((i div ps + 1) * ps) (fst e)"
    using ij assms(1) unfolding same_place_def by (simp add: min_absorb1)
qed

lemma page_blocks_take:
  assumes "page_blocks ps whole 0 W" shows "page_blocks ps whole 0 (take k W)"
  unfolding page_blocks_def
proof (intro allI impI)
  fix b assume b: "(b + 1) * ps \<le> length (take k W)"
  then have "slice (b * ps) ((b + 1) * ps) (take k W) = slice (b * ps) ((b + 1) * ps) W"
    by (simp add: slice_eq_drop_take min_absorb1)
  then show "whole (set (slice (b * ps) ((b + 1) * ps) (take k W)))" using assms b by (simp add: page_blocks_def)
qed

lemma page_blocks_join:
  assumes l: "page_blocks ps whole 0 (take plen W)" and r: "page_blocks ps whole plen W" and d: "ps dvd plen" "plen \<le> length W"
  shows "page_blocks ps whole 0 W"
  unfolding page_blocks_def
proof (intro allI impI)
  fix b assume b: "(b + 1) * ps \<le> length W"
  show "whole (set (slice (b * ps) ((b + 1) * ps) W))"
  proof (cases "plen \<le> b * ps")
    case True
    then show ?thesis using r b by (simp add: page_blocks_def)
  next
    case False
    then have "b * ps + ps \<le> plen" using dvd_gap [of ps "b * ps" plen] d(1) by simp
    then have "slice (b * ps) ((b + 1) * ps) (take plen W) = slice (b * ps) ((b + 1) * ps) W"
      "(b + 1) * ps \<le> length (take plen W)" using d(2) by (simp_all add: slice_eq_drop_take min_absorb1)
    then show ?thesis using l unfolding page_blocks_def by (metis le0)
  qed
qed

text \<open>A sequence whose first \<open>plen\<close> slots are placed and whose other slots are new.\<close>

lemma same_place_extend:
  assumes o: "same_place ps (take plen K, take plen W) (u, w)" and K: "length W = length K" "ps dvd plen" "plen \<le> length K"
    and fresh: "set (drop plen W) \<inter> set w = {}"
  shows "same_place ps (K, W) (u, w)"
  unfolding same_place_def fst_conv snd_conv
proof (intro allI impI)
  fix i j assume ij: "i < length W" "j < length w" "W ! i = w ! j"
  have "i < plen"
  proof (rule ccontr)
    assume "\<not> i < plen"
    moreover from this have "drop plen W ! (i - plen) \<in> set (drop plen W)" using ij(1) by (intro nth_mem) simp
    ultimately have "w ! j \<in> set (drop plen W)" using ij by simp
    then show False using fresh ij(2) by (metis disjoint_iff nth_mem)
  qed
  then show "i = j \<and> take ((i div ps + 1) * ps) K = take ((i div ps + 1) * ps) u"
    using same_placeD [OF o, of i j] ij K page_end_le [OF _ K(2), of i] by (simp add: min_absorb1)
qed

lemma same_place_self:
  assumes o: "same_place ps (take plen K, take plen W) (take plen K, take plen W)" and d: "distinct (drop plen W)"
    and disj: "set (drop plen W) \<inter> set (take plen W) = {}"
  shows "same_place ps (K, W) (K, W)"
proof -
  have "i = j" if "i < length (take plen W)" "j < length (take plen W)" "take plen W ! i = take plen W ! j" for i j
    using same_placeD(1) [OF o that] .
  then have "distinct (take plen W)" unfolding distinct_conv_nth by blast
  then have "distinct (take plen W @ drop plen W)" using d disj by (simp only: distinct_append) blast
  then have "distinct W" by simp
  then show ?thesis by (simp add: same_place_def nth_eq_iff_index_eq)
qed

text \<open>Adding such a sequence, with all its prefixes.\<close>

lemma placed_insert:
  assumes pl: "placed ps S whole C"
    and K: "length W = length K" "ps dvd plen" "plen \<le> length K"
    and old: "(take plen K, take plen W) \<in> C"
    and new: "set (drop plen W) \<subseteq> S" "distinct (drop plen W)" "page_blocks ps whole plen W"
      "set (drop plen W) \<inter> (\<Union>e \<in> aligned ps C. set (snd e)) = {}"
  shows "placed ps S whole (C \<union> {(take k K, take k W) | k. True})"
proof -
  let ?o = "(take plen K, take plen W)" and ?N = "{(take k K, take k W) | k. ps dvd length (take k K)}"
  have o: "?o \<in> aligned ps C" using old K by (simp add: aligned_def)
  have fresh: "set (drop plen W) \<inter> set w = {}" if "(u, w) \<in> aligned ps C" for u w using new(4) that by fastforce
  have sp: "same_place ps e e'" if "e \<in> aligned ps C" "e' \<in> aligned ps C" for e e' using pl that unfolding placed_def by blast
  have KC: "same_place ps (K, W) e" if "e \<in> aligned ps C" for e
    using that sp [OF o that] fresh K by (cases e) (auto intro: same_place_extend)
  have KK: "same_place ps (K, W) (K, W)" using sp [OF o o] new(2) fresh [OF o] by (rule same_place_self)
  have NC: "same_place ps e e'" if "e \<in> ?N" "same_place ps (K, W) e'" for e e'
    using that K(1) by (auto intro: same_place_take)
  have rel: "same_place ps e e'" if "e \<in> aligned ps C \<union> ?N" "e' \<in> aligned ps C \<union> ?N" for e e'
  proof -
    have NK: "same_place ps (K, W) x" if "x \<in> aligned ps C \<union> ?N" for x
      using that KC same_place_sym [OF NC [OF _ KK]] by blast
    show ?thesis using that(1)
    proof
      assume "e \<in> aligned ps C"
      then show ?thesis using that(2) sp same_place_sym [OF NC [OF _ KC]] by blast
    qed (rule NC [OF _ NK [OF that(2)]])
  qed
  have W: "set W \<subseteq> S" "page_blocks ps whole 0 W"
  proof -
    have "set (take plen W) \<subseteq> S" "page_blocks ps whole 0 (take plen W)" using pl o unfolding placed_def by fastforce+
    then show "set W \<subseteq> S" "page_blocks ps whole 0 W"
      using new(1,3) K page_blocks_join [of ps whole plen W] by (metis append_take_drop_id set_append Un_subset_iff, simp)
  qed
  have one: "set (snd e) \<subseteq> S \<and> page_blocks ps whole 0 (snd e)" if "e \<in> aligned ps C \<union> ?N" for e
    using that pl page_blocks_take [OF W(2)] subset_trans [OF set_take_subset W(1)] unfolding placed_def by (elim UnE CollectE exE conjE) simp_all
  have al: "aligned ps (C \<union> {(take k K, take k W) | k. True}) = aligned ps C \<union> ?N"
    by (auto simp: aligned_def)
  show ?thesis unfolding placed_def al using rel one by (intro conjI ballI) blast+
qed

section \<open>The interface of a page allocator\<close>

text \<open>
  \<open>cover a S\<close> is what freeing the slots \<open>S\<close> really frees: the slots of all pages that \<open>S\<close>
  meets. Whole sets are those that are their own cover.
\<close>

locale page_pool = slot_pool release used whole inv
  for release :: "'al \<Rightarrow> int list \<Rightarrow> 'al result" and used whole inv +
  fixes cover :: "'al \<Rightarrow> int set \<Rightarrow> int set"
  assumes whole_Un: "whole a A \<Longrightarrow> whole a B \<Longrightarrow> whole a (A \<union> B)"
    and whole_empty: "whole a {}"
    and cover_whole: "whole a A \<Longrightarrow> cover a A = A"
    and subset_cover: "A \<subseteq> cover a A"
    and cover_Un: "cover a (A \<union> B) = cover a A \<union> cover a B"
    and cover_le: "A \<subseteq> cover a B \<Longrightarrow> cover a A \<subseteq> cover a B"
    and cover_disjoint: "whole a A \<Longrightarrow> A \<inter> B = {} \<Longrightarrow> A \<inter> cover a B = {}"
    and release_cover: "inv a \<Longrightarrow> distinct ix \<Longrightarrow> cover a (set ix) \<subseteq> used a \<Longrightarrow>
      \<exists>a'. release a ix = Inr a' \<and> inv a' \<and> used a' = used a - cover a (set ix) \<and> whole a' = whole a \<and>
        cover a' = cover a"
begin

text \<open>The cache and its allocator together.\<close>

definition sound :: "radix_cache \<Rightarrow> nat multiset \<Rightarrow> 'al \<Rightarrow> bool" where
  "sound c H a \<longleftrightarrow> cache_inv c H \<and> inv a \<and> placed (rc_page_size c) (used a) (whole a) (cached c)"

lemma sound_owned: "sound c H a \<Longrightarrow> owned c \<subseteq> used a"
  unfolding sound_def using owned_eq(2) [of c H] by (auto simp: placed_def)

lemma sound_match:
  assumes "sound c H a" "\<not> rc_disable c" "match_prefix key c = Inr (m, c')"
  shows "sound c' H a" "cached c' = cached c" "conf c' = conf c" "owned c' = owned c"
proof -
  have "cache_inv c' H \<and> cached c' = cached c \<and> conf c' = conf c"
    using match_inv [of c H key] assms by (auto simp: sound_def)
  then show "sound c' H a" "cached c' = cached c" "conf c' = conf c" "owned c' = owned c"
    using assms(1) owned_eq(1) [of c H] owned_eq(1) [of c' H] by (auto simp: sound_def dest: conf_D)
qed

lemma sound_evict:
  assumes s: "sound c H a" and en: "\<not> rc_disable c" and ord: "\<And>xs. mset (order xs) = mset xs"
  shows "\<exists>k a' c'. evict release order num a c = Inr (k, a', c') \<and> sound c' H a' \<and> owned c' \<subseteq> owned c \<and>
    used a' = used a - (owned c - owned c') \<and> cached c' \<subseteq> cached c \<and>
    (\<forall>h u w. h \<in># H \<longrightarrow> reaches c h u w \<longrightarrow> reaches c' h u w) \<and>
    int k = rc_evictable_size c - rc_evictable_size c' \<and> min (int num) (rc_evictable_size c) \<le> int k \<and>
    k = card (owned c - owned c') \<and> rc_disable c' = rc_disable c \<and> rc_page_size c' = rc_page_size c \<and>
    whole a' = whole a \<and> conf c' = conf c"
proof -
  have inv: "cache_inv c H" "inv a" and pl: "placed (rc_page_size c) (used a) (whole a) (cached c)"
    using s by (simp_all add: sound_def)
  have own: "owns_slots (used a) (whole a) c" by (rule placed_owns [OF inv(1) pl whole_Un whole_empty])
  obtain k a' c' where e: "evict release order num a c = Inr (k, a', c')" "cache_inv c' H" "inv a'"
    "owned c' \<subseteq> owned c" "used a' = used a - (owned c - owned c')" "cached c' \<subseteq> cached c"
    "\<forall>h u w. h \<in># H \<longrightarrow> reaches c h u w \<longrightarrow> reaches c' h u w"
    "int k = rc_evictable_size c - rc_evictable_size c'" "min (int num) (rc_evictable_size c) \<le> int k"
    "rc_page_size c' = rc_page_size c" "whole a' = whole a" "k = card (owned c - owned c')" "rc_disable c' = rc_disable c"
    "conf c' = conf c"
    using evict_inv [OF inv(1) en inv(2) own ord, of num] by (elim exE conjE) (rule that)
  have "owned c' \<subseteq> used a'" using e(4,5) sound_owned [OF s] by blast
  then have "set (snd x) \<subseteq> used a'" if "x \<in> aligned (rc_page_size c') (cached c')" for x
    using owned_eq(2) [OF e(2)] that by blast
  then have "placed (rc_page_size c') (used a') (whole a') (cached c')"
    using placed_slots [OF placed_mono [OF pl e(6)]] e(10,11) by simp
  with e(2,3) have "sound c' H a'" by (simp add: sound_def)
  with e show ?thesis by blast
qed

text \<open>Inserting slots that nobody else owns behind a cached prefix of length \<open>p\<close>.\<close>

lemma sound_insert:
  assumes s: "sound c H a" and en: "\<not> rc_disable c" and len: "rk_len (query c key) \<le> length val"
    and p: "rc_page_size c dvd p" "p \<le> rk_len (query c key)" "(take p (tunits (query c key)), w0) \<in> cached c"
    and new: "distinct (drop p (take (rk_len (query c key)) val))"
      "set (drop p (take (rk_len (query c key)) val)) \<subseteq> used a - owned c"
      "page_blocks (rc_page_size c) (whole a) p (take (rk_len (query c key)) val)"
  shows "\<exists>r c' W. rc_insert key (Some val) prio chunked c = Inr (r, c') \<and> sound c' H a \<and> conf c' = conf c \<and>
    p \<le> ir_prefix_len r \<and> ir_prefix_len r \<le> rk_len (query c key) \<and> rc_page_size c dvd ir_prefix_len r \<and>
    owned c' = owned c \<union> set (slice (ir_prefix_len r) (rk_len (query c key)) val) \<and>
    cached c' = cached c \<union> {(take k (tunits (query c key)), take k W) | k. True} \<and> length W = rk_len (query c key)"
proof -
  let ?K = "tunits (query c key)" and ?n = "rk_len (query c key)" and ?ps = "rc_page_size c"
  have inv: "cache_inv c H" "inv a" and pl: "placed ?ps (used a) (whole a) (cached c)"
    using s by (simp_all add: sound_def)
  obtain r c' W where i: "rc_insert key (Some val) prio chunked c = Inr (r, c')" "cache_inv c' H" "conf c' = conf c"
    "length W = ?n" "cached c' = cached c \<union> {(take k ?K, take k W) | k. True}" "ir_prefix_len r \<le> ?n"
    "?ps dvd ir_prefix_len r" "(take (ir_prefix_len r) ?K, take (ir_prefix_len r) W) \<in> cached c"
    "drop (ir_prefix_len r) W = drop (ir_prefix_len r) (take ?n val)"
    "\<forall>(u, w) \<in> cached c. prefix u ?K \<longrightarrow> ?ps dvd length u \<longrightarrow> length u \<le> ir_prefix_len r"
    using insert_inv [OF inv(1) en len, of prio chunked] by (elim exE conjE) (rule that)
  have C: "rc_page_size c' = ?ps" using conf_D [OF i(3)] by simp
  let ?l = "ir_prefix_len r"
  have "prefix (take p ?K) ?K" by (rule take_is_prefix)
  then have "length (take p ?K) \<le> ?l" using i(10) p by (metis (no_types, lifting) case_prodD dvd_refl length_take length_tunits min.absorb2)
  then have pl_le: "p \<le> ?l" using p(2) by simp
  have ps: "0 < ?ps" by (rule cache_inv_ps [OF inv(1)])
  have dv: "?ps dvd ?n" by (simp add: query_def)
  have dropW: "drop ?l W = slice ?l ?n val" using i(9) by (simp add: slice_eq_drop_take)
  have sub: "set (slice ?l ?n val) \<subseteq> set (drop p (take ?n val))"
    using pl_le by (simp add: slice_eq_drop_take set_drop_subset_set_drop)
  have dist: "distinct (drop ?l W)"
    using distinct_drop [OF new(1), of "?l - p"] pl_le by (simp add: i(9))
  have blk: "page_blocks ?ps (whole a) ?l W"
    unfolding page_blocks_def
  proof (intro allI impI)
    fix k assume k: "?l \<le> k * ?ps" "(k + 1) * ?ps \<le> length W"
    have "drop (k * ?ps) W = drop (k * ?ps) (take ?n val)"
      using arg_cong [OF i(9), of "drop (k * ?ps - ?l)"] k(1) by simp
    then have "slice (k * ?ps) ((k + 1) * ?ps) W = slice (k * ?ps) ((k + 1) * ?ps) (take ?n val)"
      by (simp only: slice_def)
    then show "whole a (set (slice (k * ?ps) ((k + 1) * ?ps) W))"
      using new(3) k pl_le i(4) len by (simp add: page_blocks_def)
  qed
  have disj: "set (drop ?l W) \<inter> (\<Union>e \<in> aligned ?ps (cached c). set (snd e)) = {}"
    using owned_eq(2) [OF inv(1)] new(2) sub dropW by auto
  have "placed ?ps (used a) (whole a) (cached c')"
    unfolding i(5) using new(2) sub dropW dist blk disj i(4,6,7,8) dv
    by (intro placed_insert [OF pl]) auto
  then have snd: "sound c' H a" using i(2) inv(2) C by (simp add: sound_def)
  have W: "set W = set (take ?l W) \<union> set (slice ?l ?n val)"
    unfolding dropW [symmetric] by (metis append_take_drop_id set_append)
  have "owned c' = owned c \<union> set W"
  proof -
    have "(\<Union>e \<in> {(take k ?K, take k W) | k. True}. set (snd e)) = set W"
    proof
      show "set W \<subseteq> (\<Union>e \<in> {(take k ?K, take k W) | k. True}. set (snd e))"
        by (rule subsetI, rule UN_I [of "(take (length W) ?K, take (length W) W)"]) auto
    qed (auto dest: in_set_takeD)
    then show ?thesis using owned_eq(1) [OF inv(1)] owned_eq(1) [OF i(2)] i(5) by simp
  qed
  moreover have "set (take ?l W) \<subseteq> owned c" using i(8) owned_eq(1) [OF inv(1)] by force
  ultimately have "owned c' = owned c \<union> set (slice ?l ?n val)" using W by blast
  with i(1,3,4,5,6,7) pl_le snd show ?thesis
    by (intro exI [of _ r] exI [of _ c'] exI [of _ W]) simp
qed

end

section \<open>The two allocators\<close>

definition paged_cover :: "kv_alloc \<Rightarrow> int set \<Rightarrow> int set" where
  "paged_cover a S = page_slots (ka_page_size a) ((\<lambda>i. i div int (ka_page_size a)) ` S)"

interpretation pgp: page_pool paged_free pgd.used paged_whole paged_inv paged_cover
proof
  fix a :: kv_alloc and A B :: "int set" and ix
  show "paged_whole a A \<Longrightarrow> paged_whole a B \<Longrightarrow> paged_whole a (A \<union> B)" "paged_whole a {}"
    by (auto simp: paged_whole_def)
  show "paged_whole a A \<Longrightarrow> paged_cover a A = A" by (simp add: paged_cover_def paged_whole_image)
  show "A \<subseteq> paged_cover a A" "paged_cover a (A \<union> B) = paged_cover a A \<union> paged_cover a B"
    by (auto simp: paged_cover_def page_slots_def)
  show "A \<subseteq> paged_cover a B \<Longrightarrow> paged_cover a A \<subseteq> paged_cover a B"
    by (auto simp: paged_cover_def page_slots_def image_iff subset_eq)
  show "paged_whole a A \<Longrightarrow> A \<inter> B = {} \<Longrightarrow> A \<inter> paged_cover a B = {}"
    unfolding paged_cover_def page_slots_def paged_whole_def by (auto 0 3)
  assume a: "paged_inv a" "paged_cover a (set ix) \<subseteq> pgd.used a"
  let ?f = "paged_free_step a ix" and ?pg = "(\<lambda>i. i div int (ka_page_size a)) ` set ix"
  have "set ix \<subseteq> paged_cover a (set ix)" by (auto simp: paged_cover_def page_slots_def)
  then have sub: "set ix \<subseteq> paged_univ a - paged_slots a" using a(2) by (auto simp: pgd.used_def)
  then have "?pg \<subseteq> {1 .. int (ka_num_pages a)} - paged_pages a"
    by (auto simp: paged_univ_def paged_slots_def page_slots_def)
  then have "paged_inv ?f" using a(1) by (simp add: paged_free_inv)
  moreover have "pgd.used ?f = pgd.used a - paged_cover a (set ix)"
    by (simp add: pgd.used_def paged_univ_def paged_slots_def paged_free_pages page_slots_Un paged_cover_def Diff_Un Int_Diff)
      blast
  moreover have "paged_whole ?f = paged_whole a" "paged_cover ?f = paged_cover a"
    by (simp_all add: fun_eq_iff paged_whole_def paged_cover_def paged_free_pages)
  ultimately show "\<exists>a'. paged_free a ix = Inr a' \<and> paged_inv a' \<and> pgd.used a' = pgd.used a - paged_cover a (set ix) \<and>
      paged_whole a' = paged_whole a \<and> paged_cover a' = paged_cover a"
    using paged_free_no_error [OF a(1) sub] by blast
qed

interpretation tkp: page_pool "\<lambda>a ix. Inr (token_free a ix)" tok.used "\<lambda>_ _. True" token_inv "\<lambda>_ S. S"
proof
  fix a :: kv_alloc and ix
  assume "token_inv a" "distinct ix" "set ix \<subseteq> tok.used a"
  then show "\<exists>a'. Inr (token_free a ix) = Inr a' \<and> token_inv a' \<and> tok.used a' = tok.used a - set ix \<and>
      (\<lambda>_. True) = (\<lambda>_. True) \<and> (\<lambda>S. S) = (\<lambda>S. S)"
    using tok.free_used [of a ix] by simp
qed auto

end
