(* ===== verification/Alloc_Extend.thy ===== *)
theory Alloc_Extend
  imports Allocator
begin

text \<open>
  Placing the new tokens of a batch: \<^verbatim>\<open>alloc_extend_naive\<close> and the methods
  \<^verbatim>\<open>alloc_extend\<close> and \<^verbatim>\<open>alloc_decode\<close> of
  \<^verbatim>\<open>mem_cache/allocator/paged.py\<close> and \<^verbatim>\<open>hardware_backend/npu/allocator_npu.py\<close>,
  the Triton kernels of \<^verbatim>\<open>mem_cache/triton_ops/allocator.py\<close> and
  \<^verbatim>\<open>get_num_new_pages\<close> of \<^verbatim>\<open>utils/common.py\<close>. Lengths and counts are natural
  numbers: the code subtracts a prefix length from a sequence length, and every theorem
  asks that no prefix is longer than its sequence. Slots are integers, since the last
  location of an empty prefix is \<open>-1\<close>.
\<close>

section \<open>Tensor helpers\<close>

definition cumsum :: "nat list \<Rightarrow> nat list" where
  "cumsum xs = map (\<lambda>i. sum_list (take (Suc i) xs)) [0 ..< length xs]"

definition ceil_div :: "nat \<Rightarrow> nat \<Rightarrow> nat" where
  "ceil_div n d = (n + d - 1) div d"

text \<open>\<open>out[a:b] = vals\<close>: the bounds are clamped, a vector of length one is broadcast and any
  other difference in length raises.\<close>

definition set_slice :: "nat \<Rightarrow> nat \<Rightarrow> 'a list \<Rightarrow> 'a list \<Rightarrow> 'a list result" where
  "set_slice a b vals out =
     (let a' = min a (length out); b' = max a' (min b (length out)) in
      if length vals = b' - a' then Inr (take a' out @ vals @ drop b' out)
      else if length vals = 1 then Inr (take a' out @ replicate (b' - a') (hd vals) @ drop b' out)
      else Inl RuntimeError)"

text \<open>\<open>xs[i]\<close> for a non-negative index.\<close>

definition get_at :: "'a list \<Rightarrow> nat \<Rightarrow> 'a result" where
  "get_at xs i = (if i < length xs then Inr (xs ! i) else Inl IndexError)"

section \<open>The reference routine\<close>

text \<open>
  One iteration of the loop of \<^verbatim>\<open>alloc_extend_naive\<close>: \<open>sp\<close>, \<open>ep\<close> bound the
  output positions of the request, \<open>snp\<close>, \<open>enp\<close> its new pages and \<open>need\<close> says
  whether the last page is partial.
\<close>

definition extend_naive_body ::
  "nat \<Rightarrow> int list \<Rightarrow> nat \<Rightarrow> nat \<Rightarrow> int \<Rightarrow> nat \<Rightarrow> nat \<Rightarrow> nat \<Rightarrow> nat \<Rightarrow> nat \<Rightarrow> int list \<Rightarrow> int list result"
  where
  "extend_naive_body ps fp pre seq last_loc sp ep snp enp need out =
     (let num1 = min seq (ceil_div pre ps * ps) - pre in
      rbind (if num1 \<noteq> 0
             then set_slice sp (sp + num1) (map (\<lambda>j. last_loc + 1 + int j) (take num1 [0 ..< ps])) out
             else Inr out) (\<lambda>out1.
      if pre + num1 = seq then Inr out1 else
      let num2 = (seq div ps - ceil_div pre ps) * ps in
      rbind (if num2 \<noteq> 0
             then set_slice (sp + num1) (sp + num1 + num2) (expand_pages ps (slice snp (enp - need) fp)) out1
             else Inr out1) (\<lambda>out2.
      if pre + num1 + num2 = seq then Inr out2 else
      let num3 = seq - seq div ps * ps in
      if num3 \<noteq> 0
      then rbind (get_at fp (enp - 1)) (\<lambda>page.
             set_slice (ep - num3) ep (map (\<lambda>j. page * int ps + int j) (take num3 [0 ..< ps])) out2)
      else Inr out2)))"

definition extend_lens :: "nat list \<Rightarrow> nat list \<Rightarrow> nat list" where
  "extend_lens prefix_lens seq_lens = map2 (-) seq_lens prefix_lens"

definition new_pages :: "nat \<Rightarrow> nat list \<Rightarrow> nat list \<Rightarrow> nat list" where
  "new_pages ps prefix_lens seq_lens =
     map2 (\<lambda>s p. ceil_div s ps - ceil_div p ps) seq_lens prefix_lens"

text \<open>
  The code's \<^verbatim>\<open>need_page = num_new_pages - num_full_new_pages\<close> is the difference of
  the rounded-up and the rounded-down page count of the sequence: the prefix cancels.
\<close>

fun extend_naive_loop ::
  "nat \<Rightarrow> int list \<Rightarrow> nat list \<Rightarrow> nat list \<Rightarrow> int list \<Rightarrow> nat \<Rightarrow> int list \<Rightarrow> int list result" where
  "extend_naive_loop ps fp pres seqs lasts 0 out = Inr out"
| "extend_naive_loop ps fp pres seqs lasts (Suc i) out =
     rbind (extend_naive_loop ps fp pres seqs lasts i out) (\<lambda>out'.
       let el = extend_lens pres seqs ! i; ep = cumsum (extend_lens pres seqs) ! i;
           np = new_pages ps pres seqs ! i; enp = cumsum (new_pages ps pres seqs) ! i
       in extend_naive_body ps fp (pres ! i) (seqs ! i) (lasts ! i) (ep - el) ep (enp - np) enp
            (ceil_div (seqs ! i) ps - seqs ! i div ps) out')"

definition alloc_extend_naive ::
  "nat list \<Rightarrow> nat list \<Rightarrow> int list \<Rightarrow> int list \<Rightarrow> int list \<Rightarrow> nat \<Rightarrow> int list result" where
  "alloc_extend_naive prefix_lens seq_lens last_loc fp out_indices ps =
     extend_naive_loop ps fp prefix_lens seq_lens last_loc (length prefix_lens) out_indices"

section \<open>The Triton kernel\<close>

text \<open>
  A program instance is the list of its stores (address, value). A load under a mask leaves
  \<open>masked lane\<close> in the lanes that are off; the same value is left by both masked loads.
  A load past the end of the free pages reads \<open>garbage\<close>.
\<close>

definition load :: "(nat \<Rightarrow> int) \<Rightarrow> int list \<Rightarrow> nat \<Rightarrow> int" where
  "load garbage xs i = (if i < length xs then xs ! i else garbage i)"

definition load_masked :: "(nat \<Rightarrow> nat) \<Rightarrow> nat list \<Rightarrow> nat \<Rightarrow> nat \<Rightarrow> nat list" where
  "load_masked masked xs upper pid =
     map (\<lambda>lane. if lane \<le> pid then xs ! lane else masked lane) [0 ..< upper]"

text \<open>
  The CUDA and the Ascend kernel differ in the loop of part 2 only: in its block size
  \<open>blk\<close> and in the number of blocks \<open>nblk\<close>, a function of the tokens to place.
\<close>

definition extend_kernel_body ::
  "nat \<Rightarrow> (nat \<Rightarrow> nat) \<Rightarrow> (nat \<Rightarrow> nat) \<Rightarrow> (nat \<Rightarrow> int) \<Rightarrow> nat list \<Rightarrow> nat list \<Rightarrow> int list \<Rightarrow> int list \<Rightarrow> nat \<Rightarrow> nat \<Rightarrow> nat \<Rightarrow>
     (nat \<times> int) list" where
  "extend_kernel_body blk nblk masked garbage pre_lens seq_lens last_locs fp upper ps pid =
     (let seqs = load_masked masked seq_lens upper pid;
          pres = load_masked masked pre_lens upper pid;
          extend_lens = map2 (-) seqs pres;
          seq_len = seq_lens ! pid; pre_len = pre_lens ! pid;
          extend_len = seq_len - pre_len;
          output_start_loc = sum_list extend_lens - extend_len;
          num_new_pages = map2 (\<lambda>s p. ceil_div s ps - ceil_div p ps) seqs pres;
          num_page_start_loc_self = ceil_div seq_len ps - ceil_div pre_len ps;
          new_page_start_loc = sum_list num_new_pages - num_page_start_loc_self;
          last_loc = last_locs ! pid;
          num_part1 = min seq_len (ceil_div pre_len ps * ps) - pre_len;
          part1 = map (\<lambda>o1. (output_start_loc + o1, last_loc + 1 + int o1))
                    (filter (\<lambda>o1. o1 < num_part1) [0 ..< ps])
      in if pre_len + num_part1 = seq_len then part1 else
      let num_part2 = seq_len div ps * ps - ceil_div pre_len ps * ps;
          num_blocks = nblk num_part2;
          part2 = concat (map (\<lambda>block_id.
                    map (\<lambda>offset. (output_start_loc + num_part1 + offset,
                                   load garbage fp (new_page_start_loc + offset div ps) * int ps
                                     + int (offset mod ps)))
                      (filter (\<lambda>offset. offset < num_part2)
                        (map (\<lambda>k. block_id * blk + k) [0 ..< blk])))
                    [0 ..< num_blocks])
      in if pre_len + num_part1 + num_part2 = seq_len then part1 @ part2 else
      let num_part3 = seq_len - seq_len div ps * ps;
          start_loc = load garbage fp (new_page_start_loc + num_page_start_loc_self - 1);
          part3 = map (\<lambda>o1. (output_start_loc + num_part1 + num_part2 + o1, start_loc * int ps + int o1))
                    (filter (\<lambda>o1. o1 < num_part3) [0 ..< ps])
      in part1 @ part2 @ part3)"

definition BLOCK_EXTEND :: nat where
  "BLOCK_EXTEND = 4096"

definition extend_kernel ::
  "(nat \<Rightarrow> nat) \<Rightarrow> (nat \<Rightarrow> int) \<Rightarrow> nat list \<Rightarrow> nat list \<Rightarrow> int list \<Rightarrow> int list \<Rightarrow> nat \<Rightarrow> nat \<Rightarrow> nat \<Rightarrow>
     (nat \<times> int) list" where
  "extend_kernel =
     extend_kernel_body BLOCK_EXTEND (\<lambda>num_part2. ceil_div num_part2 BLOCK_EXTEND)"

text \<open>The Ascend kernel of \<^verbatim>\<open>sgl_kernel_npu/mem_cache/allocator.py\<close>: blocks of 2048 tokens,
  enough of them for \<open>max_num_extend_tokens\<close>.\<close>

definition npu_extend_kernel ::
  "nat \<Rightarrow> (nat \<Rightarrow> nat) \<Rightarrow> (nat \<Rightarrow> int) \<Rightarrow> nat list \<Rightarrow> nat list \<Rightarrow> int list \<Rightarrow> int list \<Rightarrow> nat \<Rightarrow> nat \<Rightarrow>
     nat \<Rightarrow> (nat \<times> int) list" where
  "npu_extend_kernel max_num_extend_tokens =
     extend_kernel_body 2048 (\<lambda>_. ceil_div max_num_extend_tokens 2048)"

text \<open>A store outside the output tensor hits other memory, not the tensor.\<close>

definition run_stores :: "(nat \<times> int) list \<Rightarrow> int list \<Rightarrow> int list" where
  "run_stores stores out = fold (\<lambda>(a, v) xs. if a < length xs then xs[a := v] else xs) stores out"

text \<open>A launch runs the program instances one after the other in the order of \<open>schedule\<close>.\<close>

definition launch :: "(nat \<Rightarrow> (nat \<times> int) list) \<Rightarrow> nat list \<Rightarrow> int list \<Rightarrow> int list" where
  "launch prog schedule out = fold (\<lambda>pid. run_stores (prog pid)) schedule out"

section \<open>Arithmetic of pages\<close>

lemma ceil_div_alt: "0 < ps \<Longrightarrow> ceil_div n ps = n div ps + (if n mod ps = 0 then 0 else 1)"
proof -
  assume ps: "0 < ps"
  define q r where "q = n div ps" and "r = n mod ps"
  have n: "n = r + q * ps" "r < ps" using ps by (simp_all add: q_def r_def)
  show ?thesis
  proof (cases "r = 0")
    case True
    then have "n + ps - 1 = (ps - 1) + q * ps" using n ps by linarith
    then have "ceil_div n ps = ((ps - 1) + q * ps) div ps" by (simp only: ceil_div_def)
    also have "\<dots> = q" using ps by (subst div_mult_self1) auto
    finally have "ceil_div n ps = q" .
    with True show ?thesis by (simp add: q_def r_def)
  next
    case False
    then have "n + ps - 1 = (r - 1) + (q + 1) * ps" using n by simp
    then have "ceil_div n ps = ((r - 1) + (q + 1) * ps) div ps" by (simp only: ceil_div_def)
    also have "\<dots> = q + 1" using ps n by (subst div_mult_self1) auto
    finally have "ceil_div n ps = q + 1" .
    with False show ?thesis by (simp add: q_def r_def)
  qed
qed

lemma ceil_div_mult_ge: "0 < ps \<Longrightarrow> n \<le> ceil_div n ps * ps"
  using dividend_less_div_times [of ps n] by (auto simp: ceil_div_alt)

lemma ceil_div_mult_less: "0 < ps \<Longrightarrow> ceil_div n ps * ps < n + ps"
proof -
  assume ps: "0 < ps"
  define q r where "q = n div ps" and "r = n mod ps"
  have "n = q * ps + r" by (simp add: q_def r_def)
  moreover have "ceil_div n ps = q + (if r = 0 then 0 else 1)"
    using ps by (simp add: ceil_div_alt q_def r_def)
  ultimately show ?thesis using ps by auto
qed

lemma ceil_div_mono: "m \<le> n \<Longrightarrow> ceil_div m ps \<le> ceil_div n ps"
  by (simp add: ceil_div_def div_le_mono diff_le_mono)

lemma ceil_div_le_div: "0 < ps \<Longrightarrow> ceil_div p ps * ps < n \<Longrightarrow> ceil_div p ps \<le> n div ps"
  by (metis div_le_mono less_imp_le_nat nonzero_mult_div_cancel_right not_gr_zero)

lemma div_add_mod_mult: "0 < (ps::nat) \<Longrightarrow> (c * ps + k) div ps = c + k div ps"
  by simp

section \<open>Lists of consecutive positions\<close>

lemma map_upt_shift: "map f [a ..< a + n] = map (\<lambda>k. f (a + k)) [0 ..< n]"
  by (rule nth_equalityI) auto

lemma upt_append: "a \<le> b \<Longrightarrow> b \<le> c \<Longrightarrow> [a ..< b] @ [b ..< c] = [a ..< c]"
  by (metis le_add_diff_inverse upt_add_eq_append)

lemma expand_pages_eq:
  "0 < ps \<Longrightarrow> expand_pages ps q = map (\<lambda>k. q ! (k div ps) * int ps + int (k mod ps)) [0 ..< length q * ps]"
proof (induction q)
  case (Cons p q)
  let ?f = "\<lambda>k. (p # q) ! (k div ps) * int ps + int (k mod ps)"
  have "[0 ..< length (p # q) * ps] = [0 ..< ps] @ [ps ..< ps + length q * ps]"
    using upt_append [of 0 ps "ps + length q * ps"] by simp
  then have "map ?f [0 ..< length (p # q) * ps] = map ?f [0 ..< ps] @ map (\<lambda>k. ?f (ps + k)) [0 ..< length q * ps]"
    by (simp add: map_upt_shift)
  also have "map ?f [0 ..< ps] = map (\<lambda>j. p * int ps + int j) [0 ..< ps]" by simp
  also have "map (\<lambda>k. ?f (ps + k)) [0 ..< length q * ps] = expand_pages ps q"
    using Cons by (simp add: div_add_self1)
  finally show ?case by (simp add: expand_pages_def)
qed (simp add: expand_pages_def)

text \<open>Overwriting a segment of a list.\<close>

definition write_at :: "nat \<Rightarrow> 'a list \<Rightarrow> 'a list \<Rightarrow> 'a list" where
  "write_at a vs out = take a out @ vs @ drop (a + length vs) out"

lemma length_write_at [simp]: "a + length vs \<le> length out \<Longrightarrow> length (write_at a vs out) = length out"
  by (simp add: write_at_def)

lemma nth_write_at:
  "a + length vs \<le> length out \<Longrightarrow> i < length out \<Longrightarrow>
     write_at a vs out ! i = (if a \<le> i \<and> i < a + length vs then vs ! (i - a) else out ! i)"
  by (auto simp: write_at_def nth_append)

lemma write_at_Nil [simp]: "write_at a [] out = out"
  by (simp add: write_at_def)

lemma write_at_write_at:
  assumes "a + length vs + length ws \<le> length out" "b = a + length vs"
  shows "write_at b ws (write_at a vs out) = write_at a (vs @ ws) out"
  using assms by (auto simp: write_at_def ac_simps)

lemma set_slice_write_at:
  "a + length vs \<le> length out \<Longrightarrow> b = a + length vs \<Longrightarrow> set_slice a b vs out = Inr (write_at a vs out)"
  by (simp add: set_slice_def write_at_def Let_def)

section \<open>What both routines compute\<close>

text \<open>
  The slot of position \<open>j\<close> of a request whose new pages start at \<open>snp\<close>: the
  positions before the first page boundary continue the old partial page, every later
  one lies in a new page at its offset.
\<close>

definition ext_loc :: "nat \<Rightarrow> int list \<Rightarrow> nat \<Rightarrow> int \<Rightarrow> nat \<Rightarrow> nat \<Rightarrow> int" where
  "ext_loc ps fp pre last_loc snp j =
     (if j < ceil_div pre ps * ps then last_loc + 1 + int (j - pre)
      else fp ! (snp + (j div ps - ceil_div pre ps)) * int ps + int (j mod ps))"

definition req_locs :: "nat \<Rightarrow> int list \<Rightarrow> nat \<Rightarrow> nat \<Rightarrow> int \<Rightarrow> nat \<Rightarrow> int list" where
  "req_locs ps fp pre seq last_loc snp = map (ext_loc ps fp pre last_loc snp) [pre ..< seq]"

lemma length_req_locs [simp]: "length (req_locs ps fp pre seq last_loc snp) = seq - pre"
  by (simp add: req_locs_def)

text \<open>The three parts, for a request that reaches past the page of its prefix.\<close>

lemma ext_part1:
  assumes "pre + n \<le> ceil_div pre ps * ps"
  shows "map (ext_loc ps fp pre last_loc snp) [pre ..< pre + n] = map (\<lambda>j. last_loc + 1 + int j) [0 ..< n]"
  using assms by (auto simp: map_upt_shift ext_loc_def)

lemma ext_part2:
  assumes "0 < ps" "c = ceil_div pre ps" "c \<le> d"
  shows "map (ext_loc ps fp pre last_loc snp) [c * ps ..< d * ps] =
    map (\<lambda>k. fp ! (snp + k div ps) * int ps + int (k mod ps)) [0 ..< (d - c) * ps]"
proof -
  have "d * ps = c * ps + (d - c) * ps" using assms(3) by (simp flip: add_mult_distrib)
  then have "[c * ps ..< d * ps] = [c * ps ..< c * ps + (d - c) * ps]" by simp
  then show ?thesis using assms(1,2) by (simp only: map_upt_shift) (auto simp: ext_loc_def)
qed

lemma ext_part3:
  assumes "0 < ps" "c = ceil_div pre ps" "c \<le> d" "d = seq div ps"
  shows "map (ext_loc ps fp pre last_loc snp) [d * ps ..< seq] =
    map (\<lambda>k. fp ! (snp + (d - c)) * int ps + int k) [0 ..< seq mod ps]"
proof -
  have "seq = d * ps + seq mod ps" using assms(4) by simp
  then have e: "[d * ps ..< seq] = [d * ps ..< d * ps + seq mod ps]" by simp
  have "(d * ps + k < ceil_div pre ps * ps) = False" for k
    using mult_le_mono1 [OF assms(3), of ps] by (simp add: not_less trans_le_add1 flip: assms(2))
  then show ?thesis
    using assms(1,2) mod_less_divisor [OF assms(1), of seq]
    by (simp only: e map_upt_shift) (simp add: ext_loc_def)
qed

lemma req_locs_short:
  assumes "pre \<le> seq" "seq \<le> ceil_div pre ps * ps"
  shows "req_locs ps fp pre seq last_loc snp = map (\<lambda>j. last_loc + 1 + int j) [0 ..< seq - pre]"
  using ext_part1 [of pre "seq - pre"] assms by (simp add: req_locs_def)

lemma req_locs_parts:
  assumes "0 < ps" "c = ceil_div pre ps" "c * ps < seq" "d = seq div ps"
  shows "req_locs ps fp pre seq last_loc snp =
    map (\<lambda>j. last_loc + 1 + int j) [0 ..< c * ps - pre] @
    map (\<lambda>k. fp ! (snp + k div ps) * int ps + int (k mod ps)) [0 ..< (d - c) * ps] @
    map (\<lambda>k. fp ! (snp + (d - c)) * int ps + int k) [0 ..< seq mod ps]"
proof -
  have pre: "pre \<le> c * ps" using assms by (simp add: ceil_div_mult_ge)
  have cd: "c \<le> d" using assms by (simp add: ceil_div_le_div)
  have "[pre ..< seq] = [pre ..< c * ps] @ [c * ps ..< d * ps] @ [d * ps ..< seq]"
    using pre cd assms by (simp add: upt_append)
  moreover have "map (ext_loc ps fp pre last_loc snp) [pre ..< c * ps] =
    map (\<lambda>j. last_loc + 1 + int j) [0 ..< c * ps - pre]"
    using ext_part1 [of pre "c * ps - pre" ps] pre assms(2) by simp
  ultimately show ?thesis
    unfolding req_locs_def by (simp add: ext_part2 [OF assms(1,2) cd] ext_part3 [OF assms(1,2) cd assms(4)])
qed

section \<open>The reference routine computes the locations\<close>

lemma take_upt_le: "n \<le> m \<Longrightarrow> take n [0 ..< m] = [0 ..< n]"
  by simp

text \<open>
  A request that outgrows its last page: it fills that page (\<open>c\<close> pages are then full), takes
  \<open>d - c\<close> full pages and \<open>r\<close> slots of one more.
\<close>

lemma extend_parts:
  assumes ps: "0 < ps" and c: "c = ceil_div pre ps" and d: "d = seq div ps" and r: "r = seq mod ps" and lt: "c * ps < seq"
  shows "seq = d * ps + r" "r \<le> ps" "pre \<le> c * ps" "c * ps - pre \<le> ps" "c \<le> d" "c * ps + (d - c) * ps = d * ps"
    "ceil_div seq ps = d + (if r = 0 then 0 else 1)" "pre + (c * ps - pre) \<noteq> seq"
    "pre + (c * ps - pre) + (d - c) * ps = seq \<longleftrightarrow> r = 0"
proof -
  show seq: "seq = d * ps + r" by (simp add: d r)
  show "r \<le> ps" using mod_less_divisor [OF ps, of seq] by (simp add: r)
  show pre: "pre \<le> c * ps" using ps by (simp add: c ceil_div_mult_ge)
  show "c * ps - pre \<le> ps" using ceil_div_mult_less [OF ps, of pre] by (simp add: c)
  show cd: "c \<le> d" using ps lt unfolding c d by (rule ceil_div_le_div)
  then show dc: "c * ps + (d - c) * ps = d * ps" by (simp flip: add_mult_distrib)
  show "ceil_div seq ps = d + (if r = 0 then 0 else 1)" using ps by (simp add: ceil_div_alt d r)
  show "pre + (c * ps - pre) \<noteq> seq" using lt pre by simp
  show "pre + (c * ps - pre) + (d - c) * ps = seq \<longleftrightarrow> r = 0" using pre dc seq by linarith
qed

lemma expand_slice:
  assumes "0 < ps" "snp + k \<le> length fp"
  shows "expand_pages ps (take k (drop snp fp)) = map (\<lambda>j. fp ! (snp + j div ps) * int ps + int (j mod ps)) [0 ..< k * ps]"
proof -
  have "k \<le> length fp - snp" "snp \<le> length fp" using assms(2) by simp_all
  then show ?thesis using assms(1) by (auto simp: expand_pages_eq min_absorb2 less_mult_imp_div_less)
qed

text \<open>Writing a segment behind another one; an empty segment is skipped.\<close>

lemma write_behind:
  "sp + length xs + n \<le> length out \<Longrightarrow> length ys = n \<Longrightarrow>
   (if n \<noteq> 0 then set_slice (sp + length xs) (sp + length xs + n) ys (write_at sp xs out) else Inr (write_at sp xs out)) =
   Inr (write_at sp (xs @ ys) out)"
  by (auto simp: set_slice_write_at write_at_write_at)

lemma extend_naive_body_ok:
  assumes ps: "0 < ps" and le: "pre \<le> seq"
    and ep: "ep = sp + (seq - pre)" "ep \<le> length out"
    and enp: "enp = snp + (ceil_div seq ps - ceil_div pre ps)" "enp \<le> length fp"
  shows "extend_naive_body ps fp pre seq last_loc sp ep snp enp (ceil_div seq ps - seq div ps) out =
    Inr (write_at sp (req_locs ps fp pre seq last_loc snp) out)"
proof (cases "seq \<le> ceil_div pre ps * ps")
  case True
  have "seq - pre \<le> ps"
    using True ceil_div_mult_less [OF ps, of pre] by linarith
  then have "take (seq - pre) [0 ..< ps] = [0 ..< seq - pre]" by simp
  with True le ep show ?thesis
    by (simp add: extend_naive_body_def Let_def min_absorb1 req_locs_short set_slice_write_at)
next
  case False
  define c d r where "c = ceil_div pre ps" and "d = seq div ps" and "r = seq mod ps"
  define l1 l2 l3 where
    "l1 = map (\<lambda>j. last_loc + 1 + int j) [0 ..< c * ps - pre]" and
    "l2 = map (\<lambda>k. fp ! (snp + k div ps) * int ps + int (k mod ps)) [0 ..< (d - c) * ps]" and
    "l3 = map (\<lambda>k. fp ! (snp + (d - c)) * int ps + int k) [0 ..< r]"
  have lt: "c * ps < seq" using False by (simp add: c_def)
  note P = extend_parts [OF ps c_def d_def r_def lt]
  have n1: "min seq (c * ps) - pre = c * ps - pre" using lt by simp
  have locs: "req_locs ps fp pre seq last_loc snp = l1 @ l2 @ l3"
    unfolding l1_def l2_def l3_def r_def by (rule req_locs_parts [OF ps c_def lt d_def])
  have len: "length l1 = c * ps - pre" "length l2 = (d - c) * ps" "length l3 = r"
    by (simp_all add: l1_def l2_def l3_def)
  have room: "sp + (c * ps - pre) + (d - c) * ps + r \<le> length out" "ep = sp + (c * ps - pre) + (d - c) * ps + r"
    using ep le P(1,3,6) by linarith+
  have pages: "slice snp (enp - (ceil_div seq ps - d)) fp = take (d - c) (drop snp fp)"
    using P(5,7) by (simp add: slice_def enp(1) c_def [symmetric])
  have exp: "expand_pages ps (take (d - c) (drop snp fp)) = l2"
    using ps enp P(5,7) unfolding l2_def by (intro expand_slice) (simp_all flip: c_def)
  have s1: "(if c * ps - pre \<noteq> 0 then set_slice sp (sp + (c * ps - pre))
      (map (\<lambda>j. last_loc + 1 + int j) (take (c * ps - pre) [0 ..< ps])) out else Inr out) =
    Inr (write_at sp l1 out)"
    using P(4) room by (simp add: set_slice_write_at l1_def)
  have s2: "(if (d - c) * ps \<noteq> 0 then set_slice (sp + (c * ps - pre)) (sp + (c * ps - pre) + (d - c) * ps)
      l2 (write_at sp l1 out) else Inr (write_at sp l1 out)) =
    Inr (write_at sp (l1 @ l2) out)"
    using write_behind [OF _ len(2), of sp l1 out] room(1) by (simp only: len(1))
  show ?thesis
  proof (cases "r = 0")
    case True
    then have "l3 = []" using len by simp
    then show ?thesis
      unfolding extend_naive_body_def Let_def c_def [symmetric] d_def [symmetric] n1 pages exp locs
      by (simp only: s1 s2 P(8,9) True rbind_simps if_False if_True append_Nil2 simp_thms)
  next
    case False
    have r: "seq - d * ps = r" using P(1) by simp
    have e1: "enp - 1 = snp + (d - c)" "enp - 1 < length fp"
      using False enp P(5,7) by (simp_all flip: c_def)
    have "set_slice (ep - r) ep l3 (write_at sp (l1 @ l2) out) = Inr (write_at sp (l1 @ l2 @ l3) out)"
      using room len by (simp add: set_slice_write_at write_at_write_at)
    moreover have "map (\<lambda>j. fp ! (snp + (d - c)) * int ps + int j) (take r [0 ..< ps]) = l3"
      using P(2) by (simp add: l3_def)
    ultimately show ?thesis
      using r False e1
      unfolding extend_naive_body_def Let_def c_def [symmetric] d_def [symmetric] n1 pages exp locs get_at_def
      by (simp only: s1 s2 P(8,9) rbind_simps if_False if_True not_False_eq_True)
  qed
qed

lemma cumsum_nth: "i < length xs \<Longrightarrow> cumsum xs ! i = sum_list (take i xs) + xs ! i"
  by (simp add: cumsum_def take_Suc_conv_app_nth)

lemma sum_list_take_le: "sum_list (take i (xs :: nat list)) \<le> sum_list xs"
  by (metis append_take_drop_id le_add1 sum_list_append)

lemma sum_list_take_Suc_le:
  "i < length (xs :: nat list) \<Longrightarrow> sum_list (take i xs) + xs ! i \<le> sum_list xs"
  using sum_list_take_le [of "Suc i" xs] by (simp add: take_Suc_conv_app_nth)

text \<open>A batch of requests that the allocator may be asked to extend.\<close>

definition extend_batch :: "nat \<Rightarrow> int list \<Rightarrow> nat list \<Rightarrow> nat list \<Rightarrow> int list \<Rightarrow> bool" where
  "extend_batch ps fp pres seqs lasts \<longleftrightarrow>
     0 < ps \<and> length seqs = length pres \<and> length lasts = length pres \<and>
     (\<forall>i < length pres. pres ! i \<le> seqs ! i) \<and>
     sum_list (new_pages ps pres seqs) \<le> length fp"

definition nth_locs :: "nat \<Rightarrow> int list \<Rightarrow> nat list \<Rightarrow> nat list \<Rightarrow> int list \<Rightarrow> nat \<Rightarrow> int list" where
  "nth_locs ps fp pres seqs lasts i =
     req_locs ps fp (pres ! i) (seqs ! i) (lasts ! i) (sum_list (take i (new_pages ps pres seqs)))"

definition batch_locs :: "nat \<Rightarrow> int list \<Rightarrow> nat list \<Rightarrow> nat list \<Rightarrow> int list \<Rightarrow> int list" where
  "batch_locs ps fp pres seqs lasts = concat (map (nth_locs ps fp pres seqs lasts) [0 ..< length pres])"

lemma length_extend_lens [simp]:
  "length seqs = length pres \<Longrightarrow> length (extend_lens pres seqs) = length pres"
  "length seqs = length pres \<Longrightarrow> length (new_pages ps pres seqs) = length pres"
  by (simp_all add: extend_lens_def new_pages_def)

lemma nth_extend_lens [simp]:
  "length seqs = length pres \<Longrightarrow> i < length pres \<Longrightarrow> extend_lens pres seqs ! i = seqs ! i - pres ! i"
  "length seqs = length pres \<Longrightarrow> i < length pres \<Longrightarrow>
     new_pages ps pres seqs ! i = ceil_div (seqs ! i) ps - ceil_div (pres ! i) ps"
  by (simp_all add: extend_lens_def new_pages_def)

lemma length_nth_locs: "length (nth_locs ps fp pres seqs lasts i) = seqs ! i - pres ! i"
  by (simp add: nth_locs_def)

lemma length_concat_nth_locs:
  assumes "length seqs = length pres" "i \<le> length pres"
  shows "length (concat (map (nth_locs ps fp pres seqs lasts) [0 ..< i])) =
    sum_list (take i (extend_lens pres seqs))"
  using assms(2)
  by (induction i) (simp_all add: assms(1) length_nth_locs take_Suc_conv_app_nth)

lemma length_batch_locs:
  "length seqs = length pres \<Longrightarrow>
     length (batch_locs ps fp pres seqs lasts) = sum_list (extend_lens pres seqs)"
  by (simp add: batch_locs_def length_concat_nth_locs)

lemma extend_naive_loop_ok:
  assumes b: "extend_batch ps fp pres seqs lasts"
    and out: "length out = sum_list (extend_lens pres seqs)" and i: "i \<le> length pres"
  shows "extend_naive_loop ps fp pres seqs lasts i out =
    Inr (concat (map (nth_locs ps fp pres seqs lasts) [0 ..< i]) @
         drop (sum_list (take i (extend_lens pres seqs))) out)"
  using i
proof (induction i)
  case (Suc i)
  let ?el = "extend_lens pres seqs" and ?np = "new_pages ps pres seqs"
  define A where "A = concat (map (nth_locs ps fp pres seqs lasts) [0 ..< i])"
  let ?out = "A @ drop (sum_list (take i ?el)) out"
  have len: "length seqs = length pres" "0 < ps" using b by (simp_all add: extend_batch_def)
  have i: "i < length pres" using Suc.prems by simp
  have A: "length A = sum_list (take i ?el)" using len i by (simp add: A_def length_concat_nth_locs)
  have ep: "sum_list (take i ?el) + ?el ! i \<le> length out"
    using len i out sum_list_take_Suc_le [of i ?el] by simp
  have enp: "sum_list (take i ?np) + ?np ! i \<le> length fp"
    using b len i sum_list_take_Suc_le [of i ?np] by (simp add: extend_batch_def)
  have lenout: "length ?out = length out" using A ep by simp
  have body: "extend_naive_body ps fp (pres ! i) (seqs ! i) (lasts ! i) (sum_list (take i ?el))
      (sum_list (take i ?el) + ?el ! i) (sum_list (take i ?np)) (sum_list (take i ?np) + ?np ! i)
      (ceil_div (seqs ! i) ps - seqs ! i div ps) ?out =
    Inr (write_at (sum_list (take i ?el)) (nth_locs ps fp pres seqs lasts i) ?out)"
    unfolding nth_locs_def
    by (rule extend_naive_body_ok) (use b len i ep enp lenout in \<open>auto simp: extend_batch_def\<close>)
  have "write_at (sum_list (take i ?el)) (nth_locs ps fp pres seqs lasts i) ?out =
    A @ nth_locs ps fp pres seqs lasts i @ drop (sum_list (take (Suc i) ?el)) out"
    using A len i by (simp add: write_at_def length_nth_locs take_Suc_conv_app_nth ac_simps)
  with body Suc.IH i len show ?case
    by (simp add: cumsum_nth Let_def A_def)
qed simp

lemma alloc_extend_naive_ok:
  assumes "extend_batch ps fp pres seqs lasts" "length out = sum_list (extend_lens pres seqs)"
  shows "alloc_extend_naive pres seqs lasts fp out ps = Inr (batch_locs ps fp pres seqs lasts)"
proof -
  have "length seqs = length pres" using assms(1) by (simp add: extend_batch_def)
  with extend_naive_loop_ok [OF assms, of "length pres"] assms(2) show ?thesis
    by (simp add: alloc_extend_naive_def batch_locs_def)
qed

section \<open>The kernel computes the same locations\<close>

lemma map2_map_map: "map2 f (map g xs) (map h xs) = map (\<lambda>x. f (g x) (h x)) xs"
  by (induction xs) auto

lemma sum_list_lanes:
  assumes "pid < upper"
  shows "sum_list (map (\<lambda>lane. if lane \<le> pid then x lane else (0::nat)) [0 ..< upper]) =
    sum_list (map x [0 ..< Suc pid])"
proof -
  let ?g = "\<lambda>lane. if lane \<le> pid then x lane else 0"
  have "[0 ..< upper] = [0 ..< Suc pid] @ [Suc pid ..< upper]"
    using assms by (simp add: upt_append del: upt_Suc)
  then have "sum_list (map ?g [0 ..< upper]) =
    sum_list (map ?g [0 ..< Suc pid]) + sum_list (map ?g [Suc pid ..< upper])"
    by (simp only: map_append sum_list_append)
  also have "map ?g [0 ..< Suc pid] = map x [0 ..< Suc pid]"
    by (simp del: upt_Suc)
  also have "map ?g [Suc pid ..< upper] = map (\<lambda>_. 0) [Suc pid ..< upper]"
    by simp
  finally show ?thesis by simp
qed

lemma sum_list_load_masked:
  assumes "pid < upper" "pid < length pres" "length seqs = length pres" "\<And>x. f x x = (0::nat)"
  shows "sum_list (map2 f (load_masked masked seqs upper pid) (load_masked masked pres upper pid)) =
    sum_list (take (Suc pid) (map2 f seqs pres))"
proof -
  have "map2 f (load_masked masked seqs upper pid) (load_masked masked pres upper pid) =
    map (\<lambda>lane. if lane \<le> pid then f (seqs ! lane) (pres ! lane) else 0) [0 ..< upper]"
    using assms(4) by (simp add: load_masked_def map2_map_map if_distrib [of "\<lambda>x. f x _"] cong: if_cong)
  moreover have "take (Suc pid) (map2 f seqs pres) = map (\<lambda>lane. f (seqs ! lane) (pres ! lane)) [0 ..< Suc pid]"
    using assms(2,3) by (intro nth_equalityI) (auto simp del: upt_Suc)
  ultimately show ?thesis by (simp only: sum_list_lanes [OF assms(1)])
qed

lemma filter_less_upt: "filter (\<lambda>k. k < n) [a ..< b] = [a ..< min n b]"
  by (induction b) (auto simp: min_def le_Suc_eq)

lemma blocks_upt:
  "concat (map (\<lambda>b. filter (\<lambda>k. k < n) (map (\<lambda>k. b * B + k) [0 ..< B])) [0 ..< m]) = [0 ..< min n (m * B)]"
proof (induction m)
  case (Suc m)
  have "map (\<lambda>k. m * B + k) [0 ..< B] = [m * B ..< Suc m * B]"
    using map_upt_shift [of id "m * B" B] by (simp add: add.commute)
  then have "filter (\<lambda>k. k < n) (map (\<lambda>k. m * B + k) [0 ..< B]) = [m * B ..< min n (Suc m * B)]"
    by (simp only: filter_less_upt)
  moreover have "[0 ..< min n (m * B)] @ [m * B ..< min n (Suc m * B)] = [0 ..< min n (Suc m * B)]"
    by (cases "n \<le> m * B") (auto simp: min_def intro!: upt_append)
  moreover have "[0 ..< Suc m] = [0 ..< m] @ [m]" by simp
  ultimately show ?case using Suc by (simp only: map_append concat_append) simp
qed simp

lemma blocks_all:
  assumes "n \<le> m * B"
  shows "concat (map (\<lambda>b. map F (filter (\<lambda>k. k < n) (map (\<lambda>k. b * B + k) [0 ..< B]))) [0 ..< m]) =
    map F [0 ..< n]"
proof -
  have "concat (map (\<lambda>b. map F (filter (\<lambda>k. k < n) (map (\<lambda>k. b * B + k) [0 ..< B]))) [0 ..< m]) =
    map F (concat (map (\<lambda>b. filter (\<lambda>k. k < n) (map (\<lambda>k. b * B + k) [0 ..< B])) [0 ..< m]))"
    by (simp only: map_concat map_map comp_def)
  also have "\<dots> = map F [0 ..< n]"
    using assms by (simp only: blocks_upt min_absorb1)
  finally show ?thesis .
qed

definition stores_at :: "nat \<Rightarrow> int list \<Rightarrow> (nat \<times> int) list" where
  "stores_at a vs = map (\<lambda>k. (a + k, vs ! k)) [0 ..< length vs]"

lemma stores_at_append: "stores_at a (vs @ ws) = stores_at a vs @ stores_at (a + length vs) ws"
  by (rule nth_equalityI) (auto simp: stores_at_def nth_append)

lemma stores_at_map: "stores_at a (map f [0 ..< n]) = map (\<lambda>k. (a + k, f k)) [0 ..< n]"
  by (simp add: stores_at_def)

lemma run_stores_at:
  "a + length vs \<le> length out \<Longrightarrow> run_stores (stores_at a vs) out = write_at a vs out"
proof (induction vs rule: rev_induct)
  case (snoc v vs)
  then have "run_stores (stores_at a (vs @ [v])) out = (write_at a vs out)[a + length vs := v]"
    by (simp add: stores_at_append run_stores_def) (simp add: stores_at_def)
  also have "\<dots> = write_at a (vs @ [v]) out"
    using snoc.prems by (intro nth_equalityI) (auto simp: nth_write_at nth_list_update nth_append)
  finally show ?case .
qed (simp add: stores_at_def run_stores_def)

lemma extend_kernel_body_stores:
  assumes b: "extend_batch ps fp pres seqs lasts" and pid: "pid < length pres" "pid < upper"
    and blocks: "\<And>n. n \<le> seqs ! pid - pres ! pid \<Longrightarrow> n \<le> nblk n * blk"
  shows "extend_kernel_body blk nblk masked garbage pres seqs lasts fp upper ps pid =
    stores_at (sum_list (take pid (extend_lens pres seqs))) (nth_locs ps fp pres seqs lasts pid)"
proof -
  let ?el = "extend_lens pres seqs" and ?np = "new_pages ps pres seqs"
  define pre seq l sp snp where "pre = pres ! pid" and "seq = seqs ! pid" and "l = lasts ! pid"
    and "sp = sum_list (take pid ?el)" and "snp = sum_list (take pid ?np)"
  define c d r where "c = ceil_div pre ps" and "d = seq div ps" and "r = seq mod ps"
  have len: "length seqs = length pres" and ps: "0 < ps" and le: "pre \<le> seq"
    and np: "sum_list ?np \<le> length fp"
    using b pid by (auto simp: extend_batch_def pre_def seq_def)
  have sp: "sum_list (map2 (-) (load_masked masked seqs upper pid) (load_masked masked pres upper pid)) -
      (seq - pre) = sp"
    using len pid unfolding sp_def
    by (subst sum_list_load_masked) (simp_all add: take_Suc_conv_app_nth extend_lens_def pre_def seq_def)
  have snp: "sum_list (map2 (\<lambda>s p. ceil_div s ps - ceil_div p ps)
      (load_masked masked seqs upper pid) (load_masked masked pres upper pid)) -
      (ceil_div seq ps - c) = snp"
    using len pid unfolding snp_def c_def
    by (subst sum_list_load_masked) (simp_all add: take_Suc_conv_app_nth new_pages_def pre_def seq_def)
  have enp: "snp + (ceil_div seq ps - c) \<le> length fp"
    using np len pid sum_list_take_Suc_le [of pid ?np] by (simp add: snp_def c_def pre_def seq_def)
  have n1ps: "min seq (c * ps) - pre \<le> ps"
    using ceil_div_mult_less [OF ps, of pre] by (simp add: c_def)
  then have part1: "map (\<lambda>o1. (sp + o1, l + 1 + int o1)) (filter (\<lambda>o1. o1 < min seq (c * ps) - pre) [0 ..< ps]) =
    stores_at sp (map (\<lambda>j. l + 1 + int j) [0 ..< min seq (c * ps) - pre])"
    by (simp add: stores_at_map filter_less_upt min_absorb1)
  have goal: "nth_locs ps fp pres seqs lasts pid = req_locs ps fp pre seq l snp"
    by (simp add: nth_locs_def pre_def seq_def l_def snp_def)
  show ?thesis
  proof (cases "seq \<le> c * ps")
    case True
    with part1 le show ?thesis
      unfolding extend_kernel_body_def Let_def goal sp_def [symmetric] pre_def [symmetric] seq_def [symmetric]
        l_def [symmetric] c_def [symmetric] sp snp
      by (simp add: req_locs_short c_def min_absorb1)
  next
    case False
    then have lt: "c * ps < seq" by simp
    note P = extend_parts [OF ps c_def d_def r_def lt]
    have n: "d * ps - c * ps = (d - c) * ps" "min seq (c * ps) - pre = c * ps - pre"
      using lt by (simp_all add: diff_mult_distrib)
    let ?l1 = "map (\<lambda>j. l + 1 + int j) [0 ..< c * ps - pre]"
    let ?l2 = "map (\<lambda>k. fp ! (snp + k div ps) * int ps + int (k mod ps)) [0 ..< (d - c) * ps]"
    let ?l3 = "map (\<lambda>k. fp ! (snp + (d - c)) * int ps + int k) [0 ..< r]"
    have locs: "req_locs ps fp pre seq l snp = ?l1 @ ?l2 @ ?l3"
      unfolding r_def by (rule req_locs_parts [OF ps c_def lt d_def])
    have ld: "load garbage fp (snp + k div ps) = fp ! (snp + k div ps)" if "k < (d - c) * ps" for k
    proof -
      have "d \<le> ceil_div seq ps" using P(7) by simp
      with less_mult_imp_div_less [OF that] enp have "snp + k div ps < length fp" by linarith
      then show ?thesis by (simp add: load_def)
    qed
    have part2: "map (\<lambda>offset. (sp + (c * ps - pre) + offset, load garbage fp (snp + offset div ps) * int ps +
        int (offset mod ps))) [0 ..< (d - c) * ps] = stores_at (sp + (c * ps - pre)) ?l2"
      using ld by (simp add: stores_at_map)
    have r3: "seq - d * ps = r" using P(1) by simp
    have part3: "map (\<lambda>o1. (sp + (c * ps - pre) + (d - c) * ps + o1,
        load garbage fp (snp + (ceil_div seq ps - c) - 1) * int ps + int o1)) (filter (\<lambda>o1. o1 < r) [0 ..< ps]) =
      stores_at (sp + (c * ps - pre) + (d - c) * ps) ?l3" if "r \<noteq> 0"
    proof -
      have "snp + (ceil_div seq ps - c) - 1 = snp + (d - c)" "snp + (d - c) < length fp"
        using that enp P(5,7) by auto
      with P(2) show ?thesis
        by (simp only: stores_at_map filter_less_upt min_absorb1 load_def if_True)
    qed
    have nb: "(d - c) * ps \<le> nblk ((d - c) * ps) * blk"
      using blocks [of "(d - c) * ps"] P(1,3,6) by (simp add: pre_def [symmetric] seq_def [symmetric])
    have "extend_kernel_body blk nblk masked garbage pres seqs lasts fp upper ps pid =
      stores_at sp ?l1 @ stores_at (sp + (c * ps - pre)) ?l2 @
      stores_at (sp + (c * ps - pre) + (d - c) * ps) ?l3"
      unfolding extend_kernel_body_def Let_def sp_def [symmetric] pre_def [symmetric] seq_def [symmetric]
        l_def [symmetric] c_def [symmetric] d_def [symmetric] sp snp n part1 [unfolded n] r3
        blocks_all [OF nb] part2 P(9)
      using P(8) part3 by (auto simp: stores_at_def)
    then show ?thesis by (simp add: goal locs stores_at_append sp_def add.assoc)
  qed
qed

text \<open>
  The program instances run in any order: each one writes its own segment of the output.
\<close>

lemma sum_list_take_mono: "i \<le> j \<Longrightarrow> sum_list (take i (xs :: nat list)) \<le> sum_list (take j xs)"
  by (metis min.absorb1 sum_list_take_le take_take)

lemma nth_concat_segment:
  assumes "i < n" "k < length (L i)"
  shows "concat (map L [0 ..< n]) ! (sum_list (map (length \<circ> L) [0 ..< i]) + k) = L i ! k"
proof -
  have "[0 ..< n] = [0 ..< i] @ i # [Suc i ..< n]"
    using assms(1) by (simp add: upt_append upt_conv_Cons [symmetric] del: upt_Suc)
  moreover have "length (concat (map L [0 ..< i])) = sum_list (map (length \<circ> L) [0 ..< i])"
    by (simp add: length_concat comp_def)
  ultimately show ?thesis
    using assms(2) by (simp add: nth_append del: upt_Suc)
qed

lemma sum_list_cover:
  assumes "x < sum_list (xs :: nat list)"
  obtains i k where "i < length xs" "k < xs ! i" "x = sum_list (take i xs) + k"
proof -
  have "\<exists>i k. i < length xs \<and> k < xs ! i \<and> x = sum_list (take i xs) + k"
    using assms
  proof (induction xs arbitrary: x)
    case (Cons y ys)
    show ?case
    proof (cases "x < y")
      case True
      then show ?thesis by (intro exI [of _ 0] exI [of _ x]) simp
    next
      case False
      with Cons obtain i k where "i < length ys" "k < ys ! i" "x - y = sum_list (take i ys) + k"
        by (metis add_less_cancel_left le_add_diff_inverse not_le sum_list.Cons)
      with False show ?thesis by (intro exI [of _ "Suc i"] exI [of _ k]) auto
    qed
  qed simp
  then show ?thesis using that by blast
qed

lemma segments_disjoint:
  assumes "i < length (xs :: nat list)" "j < length xs" "i \<noteq> j" "k < xs ! i"
  shows "\<not> (sum_list (take j xs) \<le> sum_list (take i xs) + k \<and>
            sum_list (take i xs) + k < sum_list (take j xs) + xs ! j)"
proof (cases "i < j")
  case True
  then have "sum_list (take (Suc i) xs) \<le> sum_list (take j xs)" by (simp add: sum_list_take_mono)
  with assms show ?thesis by (simp add: take_Suc_conv_app_nth)
next
  case False
  with assms have "sum_list (take (Suc j) xs) \<le> sum_list (take i xs)" by (simp add: sum_list_take_mono)
  with assms show ?thesis by (simp add: take_Suc_conv_app_nth)
qed

lemma launch_segment:
  assumes b: "extend_batch ps fp pres seqs lasts"
    and out: "length out = sum_list (extend_lens pres seqs)"
    and sched: "set schedule \<subseteq> {0 ..< length pres}"
    and prog: "\<And>pid. pid < length pres \<Longrightarrow> prog pid =
      stores_at (sum_list (take pid (extend_lens pres seqs))) (nth_locs ps fp pres seqs lasts pid)"
  defines "res \<equiv> launch prog schedule out"
  shows "length res = length out \<and>
    (\<forall>i \<in> set schedule. \<forall>k < seqs ! i - pres ! i.
      res ! (sum_list (take i (extend_lens pres seqs)) + k) = nth_locs ps fp pres seqs lasts i ! k)"
  using sched unfolding res_def
proof (induction schedule rule: rev_induct)
  case (snoc p schedule)
  let ?el = "extend_lens pres seqs" and ?R = "nth_locs ps fp pres seqs lasts"
  let ?mid = "launch prog schedule out"
  have p: "p < length pres" using snoc.prems by auto
  have len: "length seqs = length pres" using b by (simp add: extend_batch_def)
  have IH: "length ?mid = length out"
    "\<And>i k. i \<in> set schedule \<Longrightarrow> k < seqs ! i - pres ! i \<Longrightarrow> ?mid ! (sum_list (take i ?el) + k) = ?R i ! k"
    using snoc by auto
  have room: "sum_list (take p ?el) + length (?R p) \<le> length ?mid"
    using len p out IH(1) sum_list_take_Suc_le [of p ?el] by (simp add: length_nth_locs)
  have step: "launch prog (schedule @ [p]) out =
    write_at (sum_list (take p ?el)) (?R p) ?mid"
    using run_stores_at [OF room] prog [OF p]
    by (simp add: launch_def)
  have seg: "write_at (sum_list (take p ?el)) (?R p) ?mid ! (sum_list (take i ?el) + k) = ?R i ! k"
    if "i \<in> set (schedule @ [p])" "k < seqs ! i - pres ! i" for i k
  proof -
    have i: "i < length pres" using that(1) snoc.prems by auto
    have "sum_list (take i ?el) + k < length ?mid"
      using len i out IH(1) that(2) sum_list_take_Suc_le [of i ?el] by simp
    note nth = nth_write_at [OF room this]
    show ?thesis
    proof (cases "i = p")
      case True
      then show ?thesis unfolding nth using that(2) by (simp add: length_nth_locs less_diff_conv)
    next
      case False
      with segments_disjoint [of i ?el p k] i p len that IH(2) show ?thesis
        by (auto simp: nth length_nth_locs)
    qed
  qed
  show ?case using step IH(1) room seg by auto
qed (simp add: launch_def)

lemma launch_ok:
  assumes b: "extend_batch ps fp pres seqs lasts"
    and out: "length out = sum_list (extend_lens pres seqs)"
    and sched: "set schedule = {0 ..< length pres}"
    and prog: "\<And>pid. pid < length pres \<Longrightarrow> prog pid =
      stores_at (sum_list (take pid (extend_lens pres seqs))) (nth_locs ps fp pres seqs lasts pid)"
  shows "launch prog schedule out =
    batch_locs ps fp pres seqs lasts"
proof (rule nth_equalityI)
  let ?el = "extend_lens pres seqs" and ?R = "nth_locs ps fp pres seqs lasts"
  let ?res = "launch prog schedule out"
  have len: "length seqs = length pres" using b by (simp add: extend_batch_def)
  have seg: "length ?res = length out"
    "\<And>i k. i < length pres \<Longrightarrow> k < seqs ! i - pres ! i \<Longrightarrow> ?res ! (sum_list (take i ?el) + k) = ?R i ! k"
    using launch_segment [OF b out _ prog, of schedule] sched by auto
  show "length ?res = length (batch_locs ps fp pres seqs lasts)"
    using seg(1) out len by (simp add: length_batch_locs)
  fix x assume "x < length ?res"
  then obtain i k where x: "i < length ?el" "k < ?el ! i" "x = sum_list (take i ?el) + k"
    using out seg(1) by (metis sum_list_cover)
  have starts: "sum_list (map (length \<circ> ?R) [0 ..< i]) = sum_list (take i ?el)"
    using x(1) len length_concat_nth_locs [of seqs pres i ps fp lasts]
    by (simp add: length_concat comp_def)
  have "batch_locs ps fp pres seqs lasts ! x = ?R i ! k"
    using x len nth_concat_segment [of i "length pres" k ?R] starts
    by (simp add: batch_locs_def length_nth_locs)
  with seg(2) x len show "?res ! x = batch_locs ps fp pres seqs lasts ! x" by simp
qed

lemma extend_kernel_stores:
  assumes "extend_batch ps fp pres seqs lasts" "pid < length pres" "pid < upper"
  shows "extend_kernel masked garbage pres seqs lasts fp upper ps pid =
    stores_at (sum_list (take pid (extend_lens pres seqs))) (nth_locs ps fp pres seqs lasts pid)"
  unfolding extend_kernel_def
  by (rule extend_kernel_body_stores [OF assms]) (simp add: ceil_div_mult_ge BLOCK_EXTEND_def)

lemma npu_extend_kernel_stores:
  assumes "extend_batch ps fp pres seqs lasts" "pid < length pres" "pid < upper"
    and "seqs ! pid - pres ! pid \<le> max_tokens"
  shows "npu_extend_kernel max_tokens masked garbage pres seqs lasts fp upper ps pid =
    stores_at (sum_list (take pid (extend_lens pres seqs))) (nth_locs ps fp pres seqs lasts pid)"
  unfolding npu_extend_kernel_def
  by (rule extend_kernel_body_stores [OF assms(1-3)])
    (use assms(4) ceil_div_mult_ge [of 2048 max_tokens] in linarith)

section \<open>Every token gets a slot of its own, at its offset in a page\<close>

lemma int_div_add: "0 < (ps::nat) \<Longrightarrow> 0 \<le> r \<Longrightarrow> r < int ps \<Longrightarrow> (q * int ps + r) div int ps = q"
  by simp

lemma int_mod_add: "0 \<le> r \<Longrightarrow> r < int ps \<Longrightarrow> (q * int ps + r) mod int ps = r"
  by simp

text \<open>
  The last location of a request is right when the next position falls at its own offset.
\<close>

lemma ext_old_page:
  assumes ps: "0 < ps" and j: "pre \<le> j" "j < ceil_div pre ps * ps"
  shows "j div ps = pre div ps" "pre mod ps \<noteq> 0" "j mod ps = pre mod ps + (j - pre)"
proof -
  define q r x where "q = pre div ps" and "r = pre mod ps" and "x = r + (j - pre)"
  have pre: "pre = q * ps + r" by (simp add: q_def r_def)
  have r: "r \<noteq> 0"
  proof
    assume "r = 0"
    then have "ceil_div pre ps * ps = pre" using ps by (auto simp: ceil_div_alt r_def)
    with j show False by simp
  qed
  then have "ceil_div pre ps = q + 1" using ps by (simp add: ceil_div_alt q_def r_def)
  then have "j < q * ps + ps" using j(2) by simp
  then have x: "j = x + q * ps" "x < ps" using pre j(1) by (simp_all add: x_def)
  show "j div ps = pre div ps" using x ps by (simp flip: q_def)
  show "pre mod ps \<noteq> 0" using r by (simp flip: r_def)
  have "j mod ps = x" using x by simp
  then show "j mod ps = pre mod ps + (j - pre)" by (simp add: x_def r_def)
qed

lemma ext_loc_page:
  assumes ps: "0 < ps" and j: "pre \<le> j"
    and last: "(last_loc + 1) mod int ps = int (pre mod ps)"
  shows "ext_loc ps fp pre last_loc snp j mod int ps = int (j mod ps)"
    and "j < ceil_div pre ps * ps \<Longrightarrow> ext_loc ps fp pre last_loc snp j div int ps = last_loc div int ps"
    and "\<not> j < ceil_div pre ps * ps \<Longrightarrow>
      ext_loc ps fp pre last_loc snp j div int ps = fp ! (snp + (j div ps - ceil_div pre ps))"
proof -
  define q where "q = (last_loc + 1) div int ps"
  have l: "last_loc + 1 = q * int ps + int (pre mod ps)"
    using last by (metis q_def div_mult_mod_eq)
  have new: "ext_loc ps fp pre last_loc snp j mod int ps = int (j mod ps) \<and>
    ext_loc ps fp pre last_loc snp j div int ps = fp ! (snp + (j div ps - ceil_div pre ps))"
    if "\<not> j < ceil_div pre ps * ps"
    using that ps by (simp add: ext_loc_def)
  have old: "ext_loc ps fp pre last_loc snp j mod int ps = int (j mod ps) \<and>
    ext_loc ps fp pre last_loc snp j div int ps = last_loc div int ps"
    if jlt: "j < ceil_div pre ps * ps"
  proof -
    note o = ext_old_page [OF ps j jlt]
    have "int (j mod ps) < int ps" using ps by simp
    moreover have "ext_loc ps fp pre last_loc snp j = q * int ps + int (j mod ps)"
      using jlt l o(3) by (simp add: ext_loc_def)
    moreover have "last_loc = q * int ps + (int (pre mod ps) - 1)" using l by simp
    then have "last_loc div int ps = q"
      using o(2) ps mod_less_divisor [OF ps, of pre] by (simp only: int_div_add)
    ultimately show ?thesis using ps by (simp only: int_div_add int_mod_add of_nat_0_le_iff simp_thms)
  qed
  show "ext_loc ps fp pre last_loc snp j mod int ps = int (j mod ps)"
    using new old by blast
  show "j < ceil_div pre ps * ps \<Longrightarrow> ext_loc ps fp pre last_loc snp j div int ps = last_loc div int ps"
    "\<not> j < ceil_div pre ps * ps \<Longrightarrow>
      ext_loc ps fp pre last_loc snp j div int ps = fp ! (snp + (j div ps - ceil_div pre ps))"
    using new old by blast+
qed

text \<open>
  The batch is well placed: last locations are right, the free pages are distinct, and the
  partly filled pages of the requests are neither free nor shared.
\<close>

definition well_placed :: "nat \<Rightarrow> int list \<Rightarrow> nat list \<Rightarrow> int list \<Rightarrow> bool" where
  "well_placed ps fp pres lasts \<longleftrightarrow>
     distinct fp \<and>
     (\<forall>i < length pres. (lasts ! i + 1) mod int ps = int (pres ! i mod ps)) \<and>
     (\<forall>i < length pres. pres ! i mod ps \<noteq> 0 \<longrightarrow> lasts ! i div int ps \<notin> set fp) \<and>
     (\<forall>i < length pres. \<forall>j < length pres. pres ! i mod ps \<noteq> 0 \<longrightarrow> pres ! j mod ps \<noteq> 0 \<longrightarrow>
        lasts ! i div int ps = lasts ! j div int ps \<longrightarrow> i = j)"

lemma new_page_index:
  assumes "extend_batch ps fp pres seqs lasts" "i < length pres" "pres ! i \<le> j" "j < seqs ! i"
    "\<not> j < ceil_div (pres ! i) ps * ps"
  shows "j div ps - ceil_div (pres ! i) ps < new_pages ps pres seqs ! i"
    and "ceil_div (pres ! i) ps \<le> j div ps"
proof -
  let ?c = "ceil_div (pres ! i) ps"
  have ps: "0 < ps" and len: "length seqs = length pres" using assms(1) by (auto simp: extend_batch_def)
  show c: "?c \<le> j div ps" using assms(5) ps by (simp add: less_eq_div_iff_mult_less_eq not_less)
  have "j < ceil_div (seqs ! i) ps * ps" using assms(4) ceil_div_mult_ge [OF ps, of "seqs ! i"] by linarith
  then have "j div ps < ceil_div (seqs ! i) ps" using ps by (simp add: div_less_iff_less_mult)
  with c assms(2) len show "j div ps - ?c < new_pages ps pres seqs ! i" by simp
qed

lemma ext_loc_inj:
  assumes b: "extend_batch ps fp pres seqs lasts" and w: "well_placed ps fp pres lasts"
    and i: "i < length pres" "pres ! i \<le> j" "j < seqs ! i"
    and i': "i' < length pres" "pres ! i' \<le> j'" "j' < seqs ! i'"
    and eq: "ext_loc ps fp (pres ! i) (lasts ! i) (sum_list (take i (new_pages ps pres seqs))) j =
      ext_loc ps fp (pres ! i') (lasts ! i') (sum_list (take i' (new_pages ps pres seqs))) j'"
  shows "i = i' \<and> j = j'"
proof -
  let ?np = "new_pages ps pres seqs"
  let ?s = "\<lambda>i. sum_list (take i ?np)" and ?c = "\<lambda>i. ceil_div (pres ! i) ps"
  have ps: "0 < ps" and len: "length seqs = length pres" and np: "sum_list ?np \<le> length fp"
    using b by (auto simp: extend_batch_def)
  have last: "(lasts ! i + 1) mod int ps = int (pres ! i mod ps)"
    "(lasts ! i' + 1) mod int ps = int (pres ! i' mod ps)"
    using w i(1) i'(1) by (auto simp: well_placed_def)
  note pg = ext_loc_page [OF ps i(2) last(1), where fp = fp and snp = "?s i"]
    and pg' = ext_loc_page [OF ps i'(2) last(2), where fp = fp and snp = "?s i'"]
    and old_pg = ext_old_page [OF ps i(2)] and old_pg' = ext_old_page [OF ps i'(2)]
  have modeq: "j mod ps = j' mod ps" using pg(1) pg'(1) eq by simp
  have fin: "j = j'" if "j div ps = j' div ps" using that modeq by (metis div_mult_mod_eq)
  have inb: "?s k + m < length fp" if "k < length pres" "m < ?np ! k" for k m
    using that np len sum_list_take_Suc_le [of k ?np] by simp
  consider (old) "j < ?c i * ps" "j' < ?c i' * ps" | (new) "\<not> j < ?c i * ps" "\<not> j' < ?c i' * ps"
    | (mix) "j < ?c i * ps" "\<not> j' < ?c i' * ps" | (mix') "\<not> j < ?c i * ps" "j' < ?c i' * ps"
    by blast
  then show ?thesis
  proof cases
    case old
    then have "i = i'" using pg(2) pg'(2) old_pg(2) old_pg'(2) eq w i(1) i'(1)
      unfolding well_placed_def by metis
    with old old_pg(1) old_pg'(1) fin show ?thesis by simp
  next
    case new
    note k = new_page_index [OF b i new(1)] and k' = new_page_index [OF b i' new(2)]
    have "fp ! (?s i + (j div ps - ?c i)) = fp ! (?s i' + (j' div ps - ?c i'))"
      using pg(3) pg'(3) new eq by simp
    then have idx: "?s i + (j div ps - ?c i) = ?s i' + (j' div ps - ?c i')"
      using w inb [OF i(1) k(1)] inb [OF i'(1) k'(1)] nth_eq_iff_index_eq [of fp]
      unfolding well_placed_def by blast
    have "i = i'"
      using segments_disjoint [of i ?np i' "j div ps - ?c i"] len i(1) i'(1) k(1) k'(1) idx by auto
    with idx k(2) k'(2) fin show ?thesis by simp
  next
    case mix
    then have "lasts ! i div int ps = fp ! (?s i' + (j' div ps - ?c i'))"
      using pg(2) pg'(3) eq by simp
    with inb [OF i'(1) new_page_index(1) [OF b i' mix(2)]] have "lasts ! i div int ps \<in> set fp" by simp
    with mix old_pg(2) w i(1) show ?thesis by (auto simp: well_placed_def)
  next
    case mix'
    then have "lasts ! i' div int ps = fp ! (?s i + (j div ps - ?c i))"
      using pg(3) pg'(2) eq by simp
    with inb [OF i(1) new_page_index(1) [OF b i mix'(1)]] have "lasts ! i' div int ps \<in> set fp" by simp
    with mix' old_pg'(2) w i'(1) show ?thesis by (auto simp: well_placed_def)
  qed
qed

lemma distinct_batch_locs:
  assumes b: "extend_batch ps fp pres seqs lasts" and w: "well_placed ps fp pres lasts"
  shows "distinct (batch_locs ps fp pres seqs lasts)"
proof -
  let ?P = "concat (map (\<lambda>i. map (Pair i) [pres ! i ..< seqs ! i]) [0 ..< length pres])"
  let ?f = "\<lambda>(i, j). ext_loc ps fp (pres ! i) (lasts ! i) (sum_list (take i (new_pages ps pres seqs))) j"
  have "batch_locs ps fp pres seqs lasts = map ?f ?P"
    by (simp add: batch_locs_def nth_locs_def [abs_def] req_locs_def map_concat comp_def)
  moreover have "distinct (concat (map (\<lambda>i. map (Pair i) [pres ! i ..< seqs ! i]) xs))" if "distinct xs" for xs
    using that by (induction xs) (auto simp: distinct_map inj_on_def)
  then have "distinct ?P" by simp
  moreover have "inj_on ?f (set ?P)"
    using ext_loc_inj [OF b w] by (auto simp: inj_on_def)
  ultimately show ?thesis by (simp only: distinct_map)
qed

text \<open>Position \<open>j\<close> of a sequence lies at offset \<open>j mod ps\<close> of a page.\<close>

lemma batch_locs_offset:
  assumes b: "extend_batch ps fp pres seqs lasts" and w: "well_placed ps fp pres lasts"
    and i: "i < length pres" and j: "pres ! i \<le> j" "j < seqs ! i"
  shows "batch_locs ps fp pres seqs lasts ! (sum_list (take i (extend_lens pres seqs)) + (j - pres ! i)) mod int ps =
    int (j mod ps)"
proof -
  let ?l = "nth_locs ps fp pres seqs lasts"
  have e: "0 < ps" "length seqs = length pres" "(lasts ! i + 1) mod int ps = int (pres ! i mod ps)"
    using b w i by (simp_all add: extend_batch_def well_placed_def)
  have sum: "sum_list (take i (extend_lens pres seqs)) = length (concat (map ?l [0 ..< i]))"
    using i e(2) by (simp add: length_concat_nth_locs)
  have "[0 ..< length pres] = [0 ..< i] @ i # [Suc i ..< length pres]"
    using i upt_append [of 0 i "length pres"] by (simp add: upt_conv_Cons)
  then have "batch_locs ps fp pres seqs lasts = concat (map ?l [0 ..< i]) @ ?l i @ concat (map ?l [Suc i ..< length pres])"
    by (simp only: batch_locs_def map_append list.map concat_append concat.simps append_assoc)
  then have "batch_locs ps fp pres seqs lasts ! (sum_list (take i (extend_lens pres seqs)) + (j - pres ! i)) =
    ?l i ! (j - pres ! i)"
    using j by (simp only: sum nth_append_length_plus) (simp add: nth_append length_nth_locs diff_less_mono)
  also have "\<dots> = ext_loc ps fp (pres ! i) (lasts ! i) (sum_list (take i (new_pages ps pres seqs))) j"
    using j by (simp add: nth_locs_def req_locs_def)
  finally show ?thesis using ext_loc_page(1) [OF e(1) j(1) e(3)] by simp
qed

end
