(* ===== verification/Req_Cache.thy ===== *)
theory Req_Cache
  imports Req_Pool Slot_Own Alloc_Extend
begin

text \<open>
  How a request hands its slots to the prefix cache: \<^verbatim>\<open>cache_finished_req\<close> and
  \<^verbatim>\<open>cache_unfinished_req\<close> of \<^verbatim>\<open>mem_cache/radix_cache.py\<close>, the caches of
  \<^verbatim>\<open>mem_cache/chunk_cache.py\<close> and \<^verbatim>\<open>release_kv_cache\<close> of \<^verbatim>\<open>mem_cache/common.py\<close>. The theorems
  are about ownership: after each call every slot of the request belongs to the tree, to the
  request or to the allocator, never to two of them and never to none.
\<close>

section \<open>Rows\<close>

text \<open>\<open>req_to_token[req_pool_idx, :n]\<close>; a request without a row has no slots to read.\<close>

definition req_row :: "req_pool \<Rightarrow> req \<Rightarrow> nat \<Rightarrow> int list result" where
  "req_row p r n =
     (case req_pool_idx r of
        None \<Rightarrow> Inl TypeError
      | Some i \<Rightarrow> if i < length (req_to_token p) then Inr (take n (req_to_token p ! i)) else Inl IndexError)"

text \<open>\<open>write((req_pool_idx, slice(a, b)), values)\<close>\<close>

definition rp_write :: "req_pool \<Rightarrow> req \<Rightarrow> nat \<Rightarrow> nat \<Rightarrow> int list \<Rightarrow> req_pool result" where
  "rp_write p r a b vals =
     (case req_pool_idx r of
        None \<Rightarrow> Inl TypeError
      | Some i \<Rightarrow>
          if i < length (req_to_token p)
          then rbind (set_slice a b vals (req_to_token p ! i)) (\<lambda>row.
               Inr (p\<lparr>req_to_token := (req_to_token p)[i := row]\<rparr>))
          else Inl IndexError)"

section \<open>The radix cache\<close>

definition cache_key :: "radix_cache \<Rightarrow> req \<Rightarrow> int list \<Rightarrow> radix_key" where
  "cache_key c r toks =
     page_aligned (RadixKey toks (req_extra_key r) (is_eagle c) None) (rc_page_size c)"

definition priority_or_0 :: "req \<Rightarrow> int" where
  "priority_or_0 r = (case req_priority r of None \<Rightarrow> 0 | Some p \<Rightarrow> p)"

definition cache_finished_req ::
  "('al \<Rightarrow> int list \<Rightarrow> 'al result) \<Rightarrow> bool \<Rightarrow> req_pool \<Rightarrow> bool \<Rightarrow> req \<Rightarrow> 'al \<Rightarrow> radix_cache \<Rightarrow>
     (req \<times> 'al \<times> radix_cache) result" where
  "cache_finished_req free strip pool is_insert0 r0 a c =
     (let is_insert = (if disable_finished_insert c then False else is_insert0) in
      rbind (pop_committed_kv_cache strip r0) (\<lambda>(n, r).
      if rc_disable c
      then rbind (req_row pool r n) (\<lambda>kv_indices.
           rbind (free a kv_indices) (\<lambda>a1. Inr (r, a1, c)))
      else
        let toks = take n (origin_input_ids r @ output_ids r) in
        rbind (req_row pool r (length toks)) (\<lambda>kv_indices.
        let radix_key = cache_key c r toks;
            key_len = rk_len radix_key;
            vals = take key_len kv_indices
        in rbind (if is_insert
                  then rbind (rc_insert radix_key (Some vals) (Some (priority_or_0 r)) False c) (\<lambda>(res, c1).
                       rbind (free a (slice (cache_protected_len r) (ir_prefix_len res) kv_indices)) (\<lambda>a1.
                       Inr (ir_last_device_node res, a1, c1)))
                  else rbind (free a (slice (cache_protected_len r) key_len kv_indices)) (\<lambda>a1.
                       Inr (None, a1, c)))
             (\<lambda>(session_leaf, a1, c1).
             rbind (free a1 (drop key_len kv_indices)) (\<lambda>a2.
             rbind (tag_session_leaf (session_id r) radix_key session_leaf c1) (\<lambda>c2.
             rbind (case last_node r of
                      None \<Rightarrow> Inr c2
                    | Some n \<Rightarrow> rbind (dec_lock_ref n c2) (\<lambda>(d, c3). Inr c3)) (\<lambda>c4.
             Inr (r, a2, c4))))))))"

definition cache_unfinished_req ::
  "('al \<Rightarrow> int list \<Rightarrow> 'al result) \<Rightarrow> bool \<Rightarrow> req_pool \<Rightarrow> req \<Rightarrow> 'al \<Rightarrow> radix_cache \<Rightarrow>
     (req \<times> req_pool \<times> 'al \<times> radix_cache) result" where
  "cache_unfinished_req free chunked pool r a c =
     (if rc_disable c then Inr (r, pool, a, c)
      else
        let toks = get_fill_ids r in
        rbind (req_row pool r (length toks)) (\<lambda>kv_indices.
        let radix_key = cache_key c r toks;
            vals = take (rk_len radix_key) kv_indices
        in rbind (rc_insert radix_key (Some vals) (Some (priority_or_0 r)) chunked c) (\<lambda>(res, c1).
           rbind (free a (slice (cache_protected_len r) (ir_prefix_len res) kv_indices)) (\<lambda>a1.
           rbind (match_prefix radix_key c1) (\<lambda>(m, c2).
           let new_indices = device_indices m; new_last_node = last_device_node m in
           rbind (py_assert (length new_indices = rk_len radix_key)) (\<lambda>_.
           rbind (rp_write pool r (cache_protected_len r) (length new_indices)
                    (drop (cache_protected_len r) new_indices)) (\<lambda>pool1.
           let r1 = r\<lparr>cache_protected_len := length new_indices\<rparr> in
           rbind (case last_node r1 of
                    None \<Rightarrow> Inl AttributeError
                  | Some n \<Rightarrow> dec_lock_ref n c2) (\<lambda>(d1, c3).
           rbind (inc_lock_ref new_last_node c3) (\<lambda>(d2, c4).
           let r2 = r1\<lparr>prefix_indices :=
                        (if length new_indices < length kv_indices
                         then new_indices @ drop (length new_indices) kv_indices else new_indices),
                      last_node := Some new_last_node\<rparr>
           in rbind (tag_session_leaf (session_id r2) radix_key (Some new_last_node) c4) (\<lambda>c5.
              Inr (r2, pool1, a1, c5)))))))))))"

section \<open>The chunk caches\<close>

definition chunk_match_prefix :: "radix_key \<Rightarrow> int list \<times> nat option" where
  "chunk_match_prefix key = ([], None)"

definition chunk_insert :: "radix_key \<Rightarrow> int list \<Rightarrow> nat" where
  "chunk_insert key val = 0"

definition chunk_evict :: "nat \<Rightarrow> nat" where
  "chunk_evict num_tokens = 0"

definition chunk_cache_finished_req ::
  "('al \<Rightarrow> int list \<Rightarrow> 'al result) \<Rightarrow> bool \<Rightarrow> req_pool \<Rightarrow> req \<Rightarrow> 'al \<Rightarrow> (req \<times> 'al) result" where
  "chunk_cache_finished_req free strip pool r0 a =
     rbind (pop_committed_kv_cache strip r0) (\<lambda>(n, r).
     rbind (req_row pool r n) (\<lambda>kv_indices.
     rbind (free a kv_indices) (\<lambda>a1. Inr (r, a1))))"

definition chunk_cache_unfinished_req :: "req_pool \<Rightarrow> req \<Rightarrow> req result" where
  "chunk_cache_unfinished_req pool r =
     rbind (req_row pool r (extend_range_end r)) (\<lambda>kv_indices. Inr (r\<lparr>prefix_indices := kv_indices\<rparr>))"

text \<open>The slice bounds of the pure sliding-window cache are integers that are not negative.\<close>

definition pure_swa_cache_finished_req ::
  "('al \<Rightarrow> int list \<Rightarrow> 'al result) \<Rightarrow> bool \<Rightarrow> req_pool \<Rightarrow> req \<Rightarrow> 'al \<Rightarrow> (req \<times> 'al) result" where
  "pure_swa_cache_finished_req free strip pool r0 a =
     rbind (pop_committed_kv_cache strip r0) (\<lambda>(n, r).
     rbind (req_row pool r n) (\<lambda>kv_indices.
     let evict_floor = swa_evict_floor r; evicted_seqlen = swa_evicted_seqlen r in
     if evict_floor < evicted_seqlen
     then let parts = (if 0 < evict_floor then [take (nat evict_floor) kv_indices] else []) @
                      (if evicted_seqlen < int n then [slice (nat evicted_seqlen) n kv_indices] else [])
          in if parts \<noteq> [] then rbind (free a (concat parts)) (\<lambda>a1. Inr (r, a1)) else Inr (r, a)
     else rbind (free a kv_indices) (\<lambda>a1. Inr (r, a1))))"

section \<open>Keys of requests\<close>

lemma cache_key_query:
  "rk_len (query c (cache_key c r toks)) = rk_len (cache_key c r toks)"
  "tunits (query c (cache_key c r toks)) = tunits (cache_key c r toks)"
  by (simp_all add: query_def cache_key_def maybe_to_bigram_view_def tunits_page_aligned)

lemma rk_len_cache_key:
  "rk_len (cache_key c r toks) = page_floor (rc_page_size c) (length toks - (if is_eagle c then 1 else 0))"
proof -
  have "rk_len (RadixKey toks (req_extra_key r) (is_eagle c) None) = length toks - (if is_eagle c then 1 else 0)"
    by (simp add: rk_len_def raw_len_def)
  then show ?thesis by (simp add: cache_key_def)
qed

lemma rk_len_cache_key_le: "rk_len (cache_key c r toks) \<le> length toks"
  unfolding rk_len_cache_key by (meson diff_le_self le_trans page_floor_le)

lemma dvd_cache_key: "rc_page_size c dvd rk_len (cache_key c r toks)"
  by (simp add: rk_len_cache_key)

lemma set_slice_subset: "p \<le> m \<Longrightarrow> set (slice m n xs) \<subseteq> set (drop p xs)"
  unfolding slice_def by (meson set_drop_subset_set_drop set_take_subset subset_trans)

section \<open>Session tags\<close>

text \<open>A tag changes the session index and the holder set of a node only.\<close>

lemma tag_cinv:
  assumes "cinv c L P V H"
  shows "cinv (c\<lparr>rc_nodes := (rc_nodes c)(n := (rc_nodes c n)\<lparr>session_ids := x\<rparr>), session_leaves := sl\<rparr>) L P V H"
    (is "cinv ?c L P V H")
proof -
  have "view ?c = view c" by (simp add: view_def fun_eq_iff)
  moreover have "events_ok ?c L = events_ok c L" by (auto simp: events_ok_def native_hash_ok_def)
  ultimately show ?thesis using assms by (simp add: cinv_def)
qed

lemma cinv_cached: "cinv c L P V H \<Longrightarrow> cinv c' L P V H' \<Longrightarrow> cached c' = cached c"
  using cached_eq [OF cinv_tree] by metis

lemma tag_session_leaf_Some:
  assumes "cache_inv c H"
  shows "\<exists>c'. tag_session_leaf sid key (Some n) c = Inr c' \<and> cache_inv c' H \<and> cached c' = cached c \<and> conf c' = conf c \<and>
    reaches c' = reaches c"
proof -
  obtain L P V where inv: "cinv c L P V H" using assms by (auto simp: cache_inv_def)
  have ex: "cache_inv c' H \<and> cached c' = cached c \<and> reaches c' = reaches c" if "cinv c' L P V H" for c'
    using that cinv_cached [OF inv that] reaches_iff [OF cinv_tree [OF inv]] reaches_iff [OF cinv_tree [OF that]]
    by (auto simp: cache_inv_def fun_eq_iff)
  show ?thesis
    using ex [OF inv] ex [OF tag_cinv [OF inv]]
    by (auto simp: tag_session_leaf_def upd_node_def Let_def conf_def split: option.splits)
qed

lemma tag_session_leaf_ok:
  assumes inv: "cache_inv c H" and en: "\<not> rc_disable c"
  shows "\<exists>c'. tag_session_leaf sid key node c = Inr c' \<and> cache_inv c' H \<and> cached c' = cached c \<and> conf c' = conf c \<and>
    (\<forall>k u w. reaches c k u w \<longrightarrow> reaches c' k u w)"
proof (cases node)
  case None
  obtain m c1 where m: "match_prefix key c = Inr (m, c1)" "cache_inv c1 H" "cached c1 = cached c" "conf c1 = conf c"
    using match_inv [OF inv en, of key] by blast
  show ?thesis
  proof (cases "enable_session_radix_cache c \<and> (\<exists>s. sid = Some s \<and> s \<notin> set (closed_session_ids c))")
    case True
    then obtain s where s: "sid = Some s" "s \<notin> set (closed_session_ids c)" "enable_session_radix_cache c" by blast
    obtain c' where c': "tag_session_leaf sid key (Some (last_device_node m)) c1 = Inr c'" "cache_inv c' H"
      "cached c' = cached c1" "conf c' = conf c1" "reaches c' = reaches c1" using tag_session_leaf_Some [OF m(2)] by blast
    have "closed_session_ids c1 = closed_session_ids c"
      using match_prefix_frame [OF inv en m(1)] by simp
    moreover have "enable_session_radix_cache c1 = enable_session_radix_cache c" using m(4) by (simp add: conf_def)
    ultimately have "tag_session_leaf sid key None c = tag_session_leaf sid key (Some (last_device_node m)) c1"
      using s m(1) by (simp add: tag_session_leaf_def)
    then show ?thesis using c' m None match_keeps_reaches [OF inv en m(1)] by auto
  next
    case False
    then have "tag_session_leaf sid key node c = Inr c" by (auto simp: tag_session_leaf_def split: option.splits)
    then show ?thesis using inv by blast
  qed
qed (use tag_session_leaf_Some [OF inv, of sid key] in fastforce)

section \<open>Ownership\<close>

context page_pool
begin

lemma sound_transfer:
  assumes "sound c H a" "cache_inv c' H'" "cached c' = cached c" "conf c' = conf c"
  shows "sound c' H' a" "owned c' = owned c"
  using assms owned_eq(1) [of c H] owned_eq(1) [of c' H'] by (auto simp: sound_def dest: conf_D)

lemma sound_release:
  assumes "sound c H a" "inv a'" "used a' = used a - X" "whole a' = whole a" "X \<inter> owned c = {}"
  shows "sound c H a'"
proof -
  have "owned c \<subseteq> used a'" using sound_owned [OF assms(1)] assms(3,5) by blast
  then have "set (snd x) \<subseteq> used a'" if "x \<in> aligned (rc_page_size c) (cached c)" for x
    using owned_eq(2) [of c H] assms(1) that by (auto simp: sound_def)
  then show ?thesis using assms(1,2,4) placed_slots by (auto simp: sound_def)
qed

text \<open>
  The slots that belong to a request alone: its row from position \<open>p\<close> on. The pages they
  occupy are allocated, none of them is in the tree, and the full pages of the row are
  whole pages of the allocator.
\<close>

definition exclusive :: "radix_cache \<Rightarrow> 'al \<Rightarrow> nat \<Rightarrow> int list \<Rightarrow> bool" where
  "exclusive c a p kv \<longleftrightarrow>
     distinct (drop p kv) \<and> cover a (set (drop p kv)) \<subseteq> used a - owned c \<and>
     page_blocks (rc_page_size c) (whole a) p kv"

lemma exclusive_slice:
  assumes pr: "exclusive c a p kv" and m: "rc_page_size c dvd p" "rc_page_size c dvd m" "p \<le> m" "m \<le> length kv"
    and ps: "0 < rc_page_size c"
  shows "whole a (set (slice p m kv))" "distinct (slice p m kv)" "set (slice p m kv) \<subseteq> used a - owned c"
    "set (drop p kv) = set (slice p m kv) \<union> set (drop m kv)" "set (slice p m kv) \<inter> cover a (set (drop m kv)) = {}"
    "cover a (set (drop p kv)) = set (slice p m kv) \<union> cover a (set (drop m kv))" "exclusive c a m kv"
proof -
  obtain i j where ij: "p = i * rc_page_size c" "m = j * rc_page_size c" using m(1,2) by (metis dvd_div_mult_self)
  have "i \<le> j" using m(3) ij ps by simp
  then show wh: "whole a (set (slice p m kv))"
    using pr m(4) unfolding exclusive_def ij by (intro whole_blocks [OF whole_Un whole_empty]) auto
  have split: "drop p kv = slice p m kv @ drop m kv"
    using m(3) by (simp add: slice_def) (metis append_take_drop_id drop_drop le_add_diff_inverse2)
  then show st: "set (drop p kv) = set (slice p m kv) \<union> set (drop m kv)" by simp
  have d: "distinct (slice p m kv @ drop m kv)" using pr split by (simp add: exclusive_def)
  then show "distinct (slice p m kv)" by simp
  show "set (slice p m kv) \<subseteq> used a - owned c"
    using pr st subset_cover [of "set (drop p kv)" a] by (auto simp: exclusive_def)
  show "set (slice p m kv) \<inter> cover a (set (drop m kv)) = {}"
    using d by (intro cover_disjoint [OF wh]) auto
  show cov: "cover a (set (drop p kv)) = set (slice p m kv) \<union> cover a (set (drop m kv))"
    by (simp only: st cover_Un cover_whole [OF wh])
  show "exclusive c a m kv"
    using pr d cov m(3) by (auto simp: exclusive_def page_blocks_def)
qed

text \<open>Freeing a middle part of whole pages and the rest of the row, keeping what lies between.\<close>

lemma release_parts:
  assumes s: "sound c H a" and pr: "exclusive c0 a p kv" and ps: "0 < rc_page_size c0"
    and dv: "rc_page_size c0 dvd p" "rc_page_size c0 dvd m" "rc_page_size c0 dvd n"
    and le: "p \<le> m" "m \<le> n" "n \<le> length kv" and own: "owned c = owned c0 \<union> set (slice m n kv)"
  shows "\<exists>a1 a2. release a (slice p m kv) = Inr a1 \<and> release a1 (drop n kv) = Inr a2 \<and> sound c H a1 \<and> sound c H a2 \<and>
    used a1 = used a - set (slice p m kv) \<and>
    used a2 = used a - (cover a (set (drop p kv)) - set (slice m n kv)) \<and> whole a1 = whole a \<and> cover a1 = cover a \<and>
    whole a2 = whole a \<and> cover a2 = cover a"
proof -
  note P = exclusive_slice [OF pr dv(1,2) le(1) _ ps]
  have m: "m \<le> length kv" using le by simp
  note P = P [OF m]
  note Q = exclusive_slice [OF P(7) dv(2,3) le(2,3) ps]
  have inv: "inv a" using s by (simp add: sound_def)
  have "cover a (set (slice p m kv)) = set (slice p m kv)" by (rule cover_whole [OF P(1)])
  then obtain a1 where a1: "release a (slice p m kv) = Inr a1" "inv a1" "used a1 = used a - set (slice p m kv)"
    "whole a1 = whole a" "cover a1 = cover a"
    using release_cover [OF inv P(2)] P(3) by auto
  have disj: "set (slice p m kv) \<inter> owned c = {}"
    using P(3,5) own Q(4) subset_cover [of "set (drop m kv)" a] by auto
  have s1: "sound c H a1" by (rule sound_release [OF s a1(2,3,4) disj])
  have dn: "distinct (drop n kv)" "cover a (set (drop n kv)) \<subseteq> used a - owned c0"
    using Q(7) by (simp_all add: exclusive_def)
  have "cover a1 (set (drop n kv)) \<subseteq> used a1"
    using dn(2) a1(3,5) P(5) Q(6) by auto
  then obtain a2 where a2: "release a1 (drop n kv) = Inr a2" "inv a2" "used a2 = used a1 - cover a (set (drop n kv))"
    "whole a2 = whole a" "cover a2 = cover a"
    using release_cover [OF a1(2) dn(1)] a1(4,5) by auto
  have "cover a (set (drop n kv)) \<inter> owned c = {}" using dn(2) own Q(5) by auto
  then have s2: "sound c H a2" using sound_release [OF s1 a2(2,3)] a1(4) a2(4) by simp
  have "used a2 = used a - (cover a (set (drop p kv)) - set (slice m n kv))"
    using a1(3) a2(3) P(6) Q(5,6) P(5) by auto
  with a1 a2 s1 s2 show ?thesis by blast
qed

text \<open>Inserting the page-aligned part of a row, as both methods do.\<close>

lemma insert_row:
  assumes s: "sound c H a" and en: "\<not> rc_disable c" and len: "length kv = length toks"
    and p: "rc_page_size c dvd p" "p \<le> rk_len (cache_key c r toks)" "(take p (tunits (cache_key c r toks)), w0) \<in> cached c"
    and ex: "exclusive c a p kv"
  defines "n \<equiv> rk_len (cache_key c r toks)"
  shows "\<exists>res c1 W. rc_insert (cache_key c r toks) (Some (take n kv)) prio chunked c = Inr (res, c1) \<and> sound c1 H a \<and>
    conf c1 = conf c \<and> p \<le> ir_prefix_len res \<and> ir_prefix_len res \<le> n \<and> rc_page_size c dvd ir_prefix_len res \<and>
    owned c1 = owned c \<union> set (slice (ir_prefix_len res) n kv) \<and> cached c \<subseteq> cached c1 \<and>
    (tunits (cache_key c r toks), W) \<in> cached c1"
proof -
  let ?K = "cache_key c r toks"
  have n: "n \<le> length kv" "rc_page_size c dvd n" using rk_len_cache_key_le dvd_cache_key len by (simp_all add: n_def)
  have ps: "0 < rc_page_size c" using s cache_inv_ps by (auto simp: sound_def)
  note E = exclusive_slice [OF ex p(1) n(2) p(2) [folded n_def] n(1) ps]
  have q: "rk_len (query c ?K) = n" "tunits (query c ?K) = tunits ?K" by (simp_all add: cache_key_query n_def)
  have blk: "page_blocks (rc_page_size c) (whole a) p (take n kv)"
    using ex by (auto simp: exclusive_def page_blocks_def slice_eq_drop_take min_absorb1)
  have dr: "drop p (take n kv) = slice p n kv" by (simp add: slice_eq_drop_take)
  have prem: "rk_len (query c ?K) \<le> length (take n kv)" "rc_page_size c dvd p" "p \<le> rk_len (query c ?K)"
    "(take p (tunits (query c ?K)), w0) \<in> cached c" "distinct (drop p (take (rk_len (query c ?K)) (take n kv)))"
    "set (drop p (take (rk_len (query c ?K)) (take n kv))) \<subseteq> used a - owned c"
    "page_blocks (rc_page_size c) (whole a) p (take (rk_len (query c ?K)) (take n kv))"
    using p E(2,3) blk n(1) by (simp_all add: q dr n_def [symmetric])
  obtain res c1 W where i: "rc_insert ?K (Some (take n kv)) prio chunked c = Inr (res, c1)" "sound c1 H a"
    "conf c1 = conf c" "p \<le> ir_prefix_len res" "ir_prefix_len res \<le> n" "rc_page_size c dvd ir_prefix_len res"
    "owned c1 = owned c \<union> set (slice (ir_prefix_len res) n (take n kv))"
    "cached c1 = cached c \<union> {(take k (tunits ?K), take k W) | k. True}" "length W = n"
    using sound_insert [OF s en prem, of prio chunked] unfolding q by (elim exE conjE) (rule that)
  have "(take n (tunits ?K), take n W) \<in> cached c1" using i(8) by blast
  then have "(tunits ?K, W) \<in> cached c1" using i(9) by (simp add: n_def)
  moreover have "slice (ir_prefix_len res) n (take n kv) = slice (ir_prefix_len res) n kv"
    by (simp add: slice_eq_drop_take)
  ultimately show ?thesis using i by (intro exI [of _ res] exI [of _ c1] exI [of _ W]) auto
qed

text \<open>The first half of \<^verbatim>\<open>cache_finished_req\<close>: the full pages go to the tree or are freed, the rest is freed.\<close>

lemma finish_stage:
  assumes s: "sound c H a" and en: "\<not> rc_disable c" and kv: "length kv = length toks"
    and p: "rc_page_size c dvd p" "p \<le> rk_len (cache_key c r toks)" "(take p (tunits (cache_key c r toks)), w0) \<in> cached c"
    and ex: "exclusive c a p kv"
  defines "n \<equiv> rk_len (cache_key c r toks)"
  shows "\<exists>leaf a1 c1 a2 N.
    (if b then rbind (rc_insert (cache_key c r toks) (Some (take n kv)) (Some (priority_or_0 r)) False c) (\<lambda>(res, c1).
            rbind (release a (slice p (ir_prefix_len res) kv)) (\<lambda>a1. Inr (ir_last_device_node res, a1, c1)))
     else rbind (release a (slice p n kv)) (\<lambda>a1. Inr (None, a1, c))) = Inr (leaf, a1, c1) \<and>
    release a1 (drop n kv) = Inr a2 \<and> sound c1 H a2 \<and> conf c1 = conf c \<and> owned c1 = owned c \<union> N \<and> N \<subseteq> set (drop p kv) \<and>
    cached c \<subseteq> cached c1 \<and> used a2 = used a - (cover a (set (drop p kv)) - N) \<and> (\<not> b \<longrightarrow> N = {} \<and> c1 = c) \<and> whole a2 = whole a \<and> cover a2 = cover a"
proof -
  have n: "n \<le> length kv" "rc_page_size c dvd n" using rk_len_cache_key_le dvd_cache_key kv by (simp_all add: n_def)
  have ps: "0 < rc_page_size c" using s cache_inv_ps by (auto simp: sound_def)
  show ?thesis
  proof (cases b)
    case True
    obtain res c1 where i: "rc_insert (cache_key c r toks) (Some (take n kv)) (Some (priority_or_0 r)) False c = Inr (res, c1)"
      "sound c1 H a" "conf c1 = conf c" "p \<le> ir_prefix_len res" "ir_prefix_len res \<le> n"
      "rc_page_size c dvd ir_prefix_len res" "owned c1 = owned c \<union> set (slice (ir_prefix_len res) n kv)"
      "cached c \<subseteq> cached c1"
      using insert_row [OF s en kv p ex, folded n_def] by blast
    obtain a1 a2 where f: "release a (slice p (ir_prefix_len res) kv) = Inr a1" "release a1 (drop n kv) = Inr a2"
      "sound c1 H a2" "used a2 = used a - (cover a (set (drop p kv)) - set (slice (ir_prefix_len res) n kv))"
      "whole a2 = whole a" "cover a2 = cover a"
      using release_parts [OF i(2) ex ps p(1) i(6) n(2) i(4,5) n(1) i(7)] by blast
    have sub: "set (slice (ir_prefix_len res) n kv) \<subseteq> set (drop p kv)"
      using i(4) by (rule set_slice_subset)
    show ?thesis
      by (rule exI [of _ "ir_last_device_node res"], rule exI [of _ a1], rule exI [of _ c1],
          rule exI [of _ a2], rule exI [of _ "set (slice (ir_prefix_len res) n kv)"])
        (use True i f sub in simp)
  next
    case False
    have own: "owned c = owned c \<union> set (slice n n kv)" by simp
    obtain a1 a2 where f: "release a (slice p n kv) = Inr a1" "release a1 (drop n kv) = Inr a2" "sound c H a2"
      "used a2 = used a - cover a (set (drop p kv))" "whole a2 = whole a" "cover a2 = cover a"
      using release_parts [OF s ex ps p(1) n(2) n(2) p(2) [folded n_def] le_refl n(1) own] by auto
    show ?thesis
      by (rule exI [of _ None], rule exI [of _ a1], rule exI [of _ c], rule exI [of _ a2], rule exI [of _ "{}"])
        (use False f s in simp)
  qed
qed

lemma finish_ok:
  assumes s: "sound c H a" and en: "\<not> rc_disable c" and live: "\<not> kv_committed_freed r"
    and toks: "toks = take (cache_commit_len strip r) (origin_input_ids r @ output_ids r)"
    and row: "req_row pool r (length toks) = Inr kv" "length kv = length toks"
    and p: "rc_page_size c dvd cache_protected_len r" "cache_protected_len r \<le> rk_len (cache_key c r toks)"
      "(take (cache_protected_len r) (tunits (cache_key c r toks)), w0) \<in> cached c"
    and ex: "exclusive c a (cache_protected_len r) kv"
    and last: "set_option (last_node r) \<subseteq> set_mset H"
  shows "\<exists>a' c' N. cache_finished_req release strip pool ins r a c = Inr (r\<lparr>kv_committed_freed := True\<rparr>, a', c') \<and>
    sound c' (case last_node r of None \<Rightarrow> H | Some n \<Rightarrow> H - {#n#}) a' \<and> conf c' = conf c \<and>
    owned c' = owned c \<union> N \<and> N \<subseteq> set (drop (cache_protected_len r) kv) \<and>
    used a' = used a - (cover a (set (drop (cache_protected_len r) kv)) - N) \<and> cached c \<subseteq> cached c' \<and>
    (\<not> ins \<or> disable_finished_insert c \<longrightarrow> N = {}) \<and> whole a' = whole a \<and> cover a' = cover a \<and>
    (\<not> ins \<longrightarrow> (\<forall>k u w. reaches c k u w \<longrightarrow> reaches c' k u w))"
proof -
  let ?K = "cache_key c r toks" and ?p = "cache_protected_len r" and ?r = "r\<lparr>kv_committed_freed := True\<rparr>"
  define b where "b = (if disable_finished_insert c then False else ins)"
  obtain leaf a1 c1 a2 N where st: "(if b
      then rbind (rc_insert ?K (Some (take (rk_len ?K) kv)) (Some (priority_or_0 r)) False c) (\<lambda>(res, c1).
           rbind (release a (slice ?p (ir_prefix_len res) kv)) (\<lambda>a1. Inr (ir_last_device_node res, a1, c1)))
      else rbind (release a (slice ?p (rk_len ?K) kv)) (\<lambda>a1. Inr (None, a1, c))) = Inr (leaf, a1, c1)"
    "release a1 (drop (rk_len ?K) kv) = Inr a2" "sound c1 H a2"
    "conf c1 = conf c" "owned c1 = owned c \<union> N" "N \<subseteq> set (drop ?p kv)" "cached c \<subseteq> cached c1"
    "used a2 = used a - (cover a (set (drop ?p kv)) - N)" "\<not> b \<longrightarrow> N = {} \<and> c1 = c" "whole a2 = whole a" "cover a2 = cover a"
    using finish_stage [OF s en row(2) p ex, of b] by (elim exE conjE) (rule that)
  have en1: "\<not> rc_disable c1" using conf_D [OF st(4)] en by simp
  obtain c2 where t: "tag_session_leaf (session_id r) ?K leaf c1 = Inr c2" "cache_inv c2 H" "cached c2 = cached c1"
    "conf c2 = conf c1" "\<forall>k u w. reaches c1 k u w \<longrightarrow> reaches c2 k u w"
    using tag_session_leaf_ok [of c1 H "session_id r" ?K leaf] en1 st(3) by (auto simp: sound_def)
  note S2 = sound_transfer [OF st(3) t(2,3,4)]
  have en2: "\<not> rc_disable c2" using conf_D [OF t(4)] en1 by simp
  let ?H = "case last_node r of None \<Rightarrow> H | Some n \<Rightarrow> H - {#n#}"
  have "\<exists>c3. (case last_node r of None \<Rightarrow> Inr c2 | Some n \<Rightarrow> rbind (dec_lock_ref n c2) (\<lambda>(d, c3). Inr c3)) = Inr c3 \<and>
    cache_inv c3 ?H \<and> cached c3 = cached c2 \<and> conf c3 = conf c2 \<and> (\<forall>k u w. reaches c2 k u w \<longrightarrow> reaches c3 k u w)"
  proof (cases "last_node r")
    case (Some h)
    then obtain d c3 where "dec_lock_ref h c2 = Inr (d, c3)" "cache_inv c3 (H - {#h#})" "cached c3 = cached c2" "conf c3 = conf c2"
      using unlock_inv [OF t(2) _ en2, of h] last by auto
    then show ?thesis using unlock_reaches [OF t(2) _ en2] last Some by auto
  qed (use t(2) in simp)
  then obtain c3 where d: "(case last_node r of None \<Rightarrow> Inr c2 | Some n \<Rightarrow> rbind (dec_lock_ref n c2) (\<lambda>(d, c3). Inr c3)) = Inr c3"
    "cache_inv c3 ?H" "cached c3 = cached c2" "conf c3 = conf c2" "\<forall>k u w. reaches c2 k u w \<longrightarrow> reaches c3 k u w" by blast
  note S3 = sound_transfer [OF S2(1) d(2,3,4)]
  have row': "req_row pool ?r (length toks) = Inr kv" using row(1) by (simp add: req_row_def)
  have key': "cache_key c ?r toks = ?K" "priority_or_0 ?r = priority_or_0 r"
    by (simp_all add: cache_key_def priority_or_0_def)
  have pc: "pop_committed_kv_cache strip r = Inr (cache_commit_len strip r, ?r)"
    using live by (simp add: pop_committed_kv_cache_def py_assert_def cache_commit_len_def Let_def)
  have sel: "origin_input_ids ?r = origin_input_ids r" "output_ids ?r = output_ids r"
    "cache_protected_len ?r = ?p" "session_id ?r = session_id r" "last_node ?r = last_node r" by simp_all
  have "cache_finished_req release strip pool ins r a c = Inr (?r, a2, c3)"
    unfolding cache_finished_req_def pc rbind_simps Let_def prod.case if_not_P [OF en] b_def [symmetric] sel
      toks [symmetric] row' key' st(1) st(2) t(1) d(1) by simp
  moreover have "conf c3 = conf c" "owned c3 = owned c \<union> N" "cached c \<subseteq> cached c3"
    using st t d S2(2) S3(2) by simp_all
  moreover have "\<not> ins \<or> disable_finished_insert c \<longrightarrow> N = {}" using st(9) unfolding b_def by (cases "disable_finished_insert c") simp_all
  moreover have "reaches c3 k u w" if "\<not> ins" "reaches c k u w" for k u w
    using that st(9) t(5) d(5) unfolding b_def by (cases "disable_finished_insert c") simp_all
  ultimately show ?thesis using S3(1) st(6,8,10,11) by blast
qed

text \<open>Moving the lock of a request to another node of the tree.\<close>

lemma move_lock:
  assumes inv: "cache_inv c H" and en: "\<not> rc_disable c" and ln: "ln \<in># H" and re: "reaches c node u w"
  shows "\<exists>d1 c1 d2 c2 c3. dec_lock_ref ln c = Inr (d1, c1) \<and> inc_lock_ref node c1 = Inr (d2, c2) \<and>
    tag_session_leaf sid K (Some node) c2 = Inr c3 \<and> cache_inv c3 (add_mset node (H - {#ln#})) \<and> cached c3 = cached c \<and> conf c3 = conf c"
proof -
  obtain d1 c1 where u: "dec_lock_ref ln c = Inr (d1, c1)" "cache_inv c1 (H - {#ln#})" "cached c1 = cached c" "conf c1 = conf c"
    using unlock_inv [OF inv ln en] by blast
  have "\<not> rc_disable c1" "reaches c1 node u w"
    using conf_D [OF u(4)] en unlock_reaches [OF inv ln en u(1)] re by simp_all
  from lock_inv [OF u(2) this(2,1)] obtain d2 c2 where
    l: "inc_lock_ref node c1 = Inr (d2, c2)" "cache_inv c2 (add_mset node (H - {#ln#}))" "cached c2 = cached c1" "conf c2 = conf c1" by blast
  obtain c3 where "tag_session_leaf sid K (Some node) c2 = Inr c3"
    "cache_inv c3 (add_mset node (H - {#ln#}))" "cached c3 = cached c2" "conf c3 = conf c2"
    using tag_session_leaf_Some [OF l(2)] by blast
  then show ?thesis using u l by auto
qed

text \<open>
  The row of a request whose slots from \<open>p\<close> to \<open>q\<close> were freed and from \<open>q\<close> to \<open>n\<close> given to the tree:
  the request keeps the rest for itself, and slots that belong to nobody here stay so.
\<close>

lemma exclusive_rest:
  assumes ex: "exclusive c a p kv" and ps: "0 < rc_page_size c"
    and d: "rc_page_size c dvd p" "rc_page_size c dvd q" "rc_page_size c dvd n" "p \<le> q" "q \<le> n" "n \<le> length kv"
    and a1: "used a1 = used a - set (slice p q kv)" "whole a1 = whole a" "cover a1 = cover a"
    and c1: "owned c1 = owned c \<union> set (slice q n kv)" "conf c1 = conf c" and new: "length new = n"
  shows "exclusive c1 a1 n (new @ drop n kv)"
    and "X \<subseteq> used a - owned c \<Longrightarrow> X \<inter> cover a (set (drop p kv)) = {} \<Longrightarrow> X \<subseteq> used a1 - owned c1"
proof -
  have q: "q \<le> length kv" using d(5,6) by simp
  note E1 = exclusive_slice [OF ex d(1,2,4) q ps]
  note E2 = exclusive_slice [OF E1(7) d(2,3,5,6) ps]
  have "cover a (set (drop n kv)) \<subseteq> used a1 - owned c1"
    using E2(7) E1(5) E2(5,6) a1(1) c1(1) by (auto simp: exclusive_def)
  then show "exclusive c1 a1 n (new @ drop n kv)"
    using E2(7) a1(2,3) conf_D [OF c1(2)] new d(6) by (auto simp: exclusive_def page_blocks_def slice_def)
  have "set (slice p q kv) \<union> set (slice q n kv) \<subseteq> cover a (set (drop p kv))" using E1(6) E2(6) by blast
  then show "X \<subseteq> used a - owned c \<Longrightarrow> X \<inter> cover a (set (drop p kv)) = {} \<Longrightarrow> X \<subseteq> used a1 - owned c1"
    using a1(1) c1(1) by auto
qed

text \<open>Matching an inserted key again finds all of it, the part that was cached before unchanged.\<close>

lemma rematch:
  assumes s: "sound c H a" and en: "\<not> rc_disable c" and kv: "rk_len (cache_key c r toks) \<le> length kv"
    and p: "rc_page_size c dvd p" "p \<le> rk_len (cache_key c r toks)" "(take p (tunits (cache_key c r toks)), take p kv) \<in> cached c"
    and ins: "rc_insert (cache_key c r toks) (Some (take (rk_len (cache_key c r toks)) kv)) prio chunked c = Inr (res, c1)"
      "sound c1 H a1" "conf c1 = conf c" "cached c \<subseteq> cached c1"
  shows "\<exists>m c2. match_prefix (cache_key c r toks) c1 = Inr (m, c2) \<and> sound c2 H a1 \<and> owned c2 = owned c1 \<and> conf c2 = conf c \<and>
    cached c2 = cached c1 \<and> length (device_indices m) = rk_len (cache_key c r toks) \<and>
    reaches c2 (last_device_node m) (tunits (cache_key c r toks)) (device_indices m) \<and> take p (device_indices m) = take p kv"
proof -
  let ?K = "cache_key c r toks"
  have q: "rk_len (query c ?K) = rk_len ?K" "tunits (query c ?K) = tunits ?K" by (simp_all add: cache_key_query)
  have q1: "query c1 ?K = query c ?K" and en1: "\<not> rc_disable c1" using conf_D [OF ins(3)] en by (simp_all add: query_def)
  have inv: "cache_inv c H" "cache_inv c1 H" using s ins(2) by (simp_all add: sound_def)
  have "rk_len (query c ?K) \<le> length (take (rk_len ?K) kv)" using kv q by simp
  from insert_match_inv [OF inv(1) en this ins(1)] obtain m c2 where
    m: "match_prefix ?K c1 = Inr (m, c2)" "cache_inv c2 H" "cached c2 = cached c1" "length (device_indices m) = rk_len ?K"
    unfolding q by blast
  have re: "reaches c2 (last_device_node m) (tunits ?K) (device_indices m)"
    using match_reaches [OF inv(2) en1 m(1)] m(4) q q1 by simp
  have S2: "sound c2 H a1" "owned c2 = owned c1" "conf c2 = conf c1" using sound_match [OF ins(2) en1 m(1)] by simp_all
  have "take p (device_indices m) = take p kv"
  proof (rule cached_functional [OF m(2)])
    show "(take p (tunits ?K), take p (device_indices m)) \<in> cached c2" by (rule cached_take [OF reaches_cached [OF re]])
    show "(take p (tunits ?K), take p kv) \<in> cached c2" using p(3) ins(4) m(3) by blast
    show "rc_page_size c2 dvd length (take p (tunits ?K))"
      using p(1,2) conf_D [OF S2(3)] conf_D [OF ins(3)] by (simp add: min_absorb2)
  qed
  then show ?thesis using m S2 re ins(3) by auto
qed

text \<open>
  An unfinished request hands its full pages to the tree, takes over the slots of the tree for
  them and keeps the rest of its row; it now holds the node of its last full page.
\<close>

lemma unfinish_ok:
  assumes s: "sound c H a" and en: "\<not> rc_disable c"
    and i: "req_pool_idx r = Some i" "i < length (req_to_token pool)"
    and row: "kv = take (length (get_fill_ids r)) (req_to_token pool ! i)" "length kv = length (get_fill_ids r)"
    and p: "rc_page_size c dvd cache_protected_len r"
      "cache_protected_len r \<le> rk_len (cache_key c r (get_fill_ids r))"
      "(take (cache_protected_len r) (tunits (cache_key c r (get_fill_ids r))), take (cache_protected_len r) kv) \<in> cached c"
    and ex: "exclusive c a (cache_protected_len r) kv"
    and last: "last_node r = Some ln" "ln \<in># H"
  defines "n \<equiv> rk_len (cache_key c r (get_fill_ids r))"
  shows "\<exists>r' pool' a' c' node new. cache_unfinished_req release chunked pool r a c = Inr (r', pool', a', c') \<and>
    sound c' (add_mset node (H - {#ln#})) a' \<and> conf c' = conf c \<and> last_node r' = Some node \<and>
    cache_protected_len r' = n \<and> (tunits (cache_key c r (get_fill_ids r)), new) \<in> cached c' \<and> length new = n \<and>
    prefix_indices r' = new @ drop n kv \<and> exclusive c' a' n (new @ drop n kv) \<and>
    req_to_token pool' = (req_to_token pool)[i := new @ drop n (req_to_token pool ! i)] \<and> cached c \<subseteq> cached c' \<and>
    (\<forall>X \<subseteq> used a - owned c. X \<inter> cover a (set (drop (cache_protected_len r) kv)) = {} \<longrightarrow> X \<subseteq> used a' - owned c')"
proof -
  let ?toks = "get_fill_ids r" and ?p = "cache_protected_len r" and ?row = "req_to_token pool ! i"
  let ?K = "cache_key c r ?toks"
  have n: "n \<le> length kv" "rc_page_size c dvd n" "?p \<le> n"
    using rk_len_cache_key_le dvd_cache_key row(2) p(2) by (simp_all add: n_def)
  have ps: "0 < rc_page_size c" using s cache_inv_ps by (auto simp: sound_def)
  have rr: "req_row pool r (length ?toks) = Inr kv" using i row(1) by (simp add: req_row_def)
  obtain res c1 where ins: "rc_insert ?K (Some (take n kv)) (Some (priority_or_0 r)) chunked c = Inr (res, c1)"
    "sound c1 H a" "conf c1 = conf c" "?p \<le> ir_prefix_len res" "ir_prefix_len res \<le> n"
    "rc_page_size c dvd ir_prefix_len res" "owned c1 = owned c \<union> set (slice (ir_prefix_len res) n kv)"
    "cached c \<subseteq> cached c1"
    using insert_row [OF s en row(2) p ex, folded n_def] by blast
  obtain a1 where f: "release a (slice ?p (ir_prefix_len res) kv) = Inr a1" "sound c1 H a1"
    "used a1 = used a - set (slice ?p (ir_prefix_len res) kv)" "whole a1 = whole a" "cover a1 = cover a"
    using release_parts [OF ins(2) ex ps p(1) ins(6) n(2) ins(4,5) n(1) ins(7)] by blast
  obtain m c2 where m: "match_prefix ?K c1 = Inr (m, c2)" "sound c2 H a1" "owned c2 = owned c1" "conf c2 = conf c"
    "cached c2 = cached c1" "length (device_indices m) = n" "reaches c2 (last_device_node m) (tunits ?K) (device_indices m)"
    "take ?p (device_indices m) = take ?p kv"
    using rematch [OF s en n(1) [unfolded n_def] p ins(1) [unfolded n_def] f(2) ins(3,8)] unfolding n_def by blast
  define new where "new = device_indices m"
  have tp: "take ?p ?row @ drop ?p new = new"
    using row p(2) n m(8) by (metis new_def append_take_drop_id min.absorb1 take_take le_trans)
  have lnew: "length new = n" "n \<le> length ?row" using m(6) row n(1) by (simp_all add: new_def)
  then have w: "rp_write pool r ?p n (drop ?p new) = Inr (pool\<lparr>req_to_token := (req_to_token pool)[i := new @ drop n ?row]\<rparr>)"
    using i tp n(3) by (simp add: rp_write_def set_slice_write_at write_at_def) (metis append_assoc)
  have inv2: "cache_inv c2 H" "\<not> rc_disable c2" using m(2) conf_D [OF m(4)] en by (simp_all add: sound_def)
  obtain d1 c3 d2 c4 c5 where l: "dec_lock_ref ln c2 = Inr (d1, c3)" "inc_lock_ref (last_device_node m) c3 = Inr (d2, c4)"
    "tag_session_leaf (session_id r) ?K (Some (last_device_node m)) c4 = Inr c5"
    "cache_inv c5 (add_mset (last_device_node m) (H - {#ln#}))" "cached c5 = cached c2" "conf c5 = conf c2"
    using move_lock [OF inv2 last(2) m(7), of "session_id r" ?K] by blast
  have S5: "sound c5 (add_mset (last_device_node m) (H - {#ln#})) a1" "owned c5 = owned c1" "conf c5 = conf c"
    using sound_transfer [OF m(2) l(4-6)] m(3,4) l(6) by simp_all
  let ?r = "r\<lparr>cache_protected_len := n, prefix_indices := new @ drop n kv, last_node := Some (last_device_node m)\<rparr>"
  let ?pool = "pool\<lparr>req_to_token := (req_to_token pool)[i := new @ drop n ?row]\<rparr>"
  have "(if n < length kv then new @ drop n kv else new) = new @ drop n kv" by simp
  then have code: "cache_unfinished_req release chunked pool r a c = Inr (?r, ?pool, a1, c5)"
    using en rr ins(1) f(1) m(1,6) w l(1-3) last(1)
    by (simp add: cache_unfinished_req_def Let_def n_def [symmetric] new_def [symmetric] lnew py_assert_def)
  note rest = exclusive_rest [OF ex ps p(1) ins(6) n(2) ins(4,5) n(1) f(3-5) S5(2) [unfolded ins(7)] S5(3) lnew(1)]
  have "(tunits ?K, new) \<in> cached c5" "cached c \<subseteq> cached c5" using reaches_cached [OF m(7)] l(5) m(5) ins(8) by (simp_all add: new_def)
  then show ?thesis using code S5 rest lnew
    by (intro exI [of _ ?r] exI [of _ ?pool] exI [of _ a1] exI [of _ c5] exI [of _ "last_device_node m"] exI [of _ new])
      simp
qed

end

end
