(* ===== verification/Alloc_Methods.thy ===== *)
theory Alloc_Methods
  imports Alloc_Extend
begin

text \<open>
  The methods \<^verbatim>\<open>alloc_extend\<close> and \<^verbatim>\<open>alloc_decode\<close> of the paged allocator and of
  its Ascend subclass: which pages they consume, when they refuse, and that the two
  allocators place the same tokens at the same slots.
\<close>

section \<open>Helpers of utils/common.py\<close>

fun bit_length :: "nat \<Rightarrow> nat" where
  "bit_length n = (if n = 0 then 0 else Suc (bit_length (n div 2)))"

declare bit_length.simps [simp del]

definition next_power_of_2 :: "nat \<Rightarrow> nat" where
  "next_power_of_2 n = (if 0 < n then 2 ^ bit_length (n - 1) else 1)"

definition get_num_new_pages :: "nat list \<Rightarrow> nat \<Rightarrow> nat list option \<Rightarrow> bool \<Rightarrow> nat result" where
  "get_num_new_pages seq_lens ps prefix_lens decode =
     (case prefix_lens of
        None \<Rightarrow> rbind (py_assert decode) (\<lambda>_. Inr (length (filter (\<lambda>s. s mod ps = 1) seq_lens)))
      | Some pre \<Rightarrow>
          if decode then Inr (length (filter (\<lambda>s. s mod ps = 1) seq_lens))
          else Inr (sum_list (new_pages ps pre seq_lens)))"

section \<open>Extending\<close>

text \<open>
  What the methods read besides their arguments: the uninitialised output tensor, the
  values of masked-off lanes and of reads past the end, the order of the program instances,
  and what a gather with an index past the end of the tensor does on the device: it may raise,
  as on the CPU, or give some value.
\<close>

record device =
  dv_empty :: "nat \<Rightarrow> int list"
  dv_masked :: "nat \<Rightarrow> nat"
  dv_garbage :: "nat \<Rightarrow> int"
  dv_schedule :: "nat \<Rightarrow> nat list"
  dv_gather :: "nat \<Rightarrow> int result"

text \<open>
  The Ascend methods return \<^verbatim>\<open>out_indices.int()\<close>: a conversion of 64-bit integers to 32 bits,
  which keeps the low bits.
\<close>

definition to_int32 :: "int \<Rightarrow> int" where
  "to_int32 x = signed_take_bit 31 x"

definition debug_unique :: "kv_alloc \<Rightarrow> int list \<Rightarrow> unit result" where
  "debug_unique a out = py_assert (ka_debug_mode a \<longrightarrow> length (torch_unique out) = length out)"

definition paged_alloc_extend ::
  "device \<Rightarrow> kv_alloc \<Rightarrow> nat list \<Rightarrow> nat list \<Rightarrow> int list \<Rightarrow> nat \<Rightarrow> nat option \<Rightarrow>
     (int list option \<times> kv_alloc) result" where
  "paged_alloc_extend dv a prefix_lens seq_lens last_loc extend_num_tokens num_new_pages =
     (let ps = ka_page_size a; bs = length prefix_lens in
      rbind (py_assert (ka_debug_mode a \<longrightarrow>
               (\<forall>i < bs. (last_loc ! i + 1) mod int ps = int (prefix_lens ! i) mod int ps))) (\<lambda>_.
      let a1 = merge_if_short (extend_num_tokens div ps + bs + 1) a;
          out = launch (extend_kernel (dv_masked dv) (dv_garbage dv) prefix_lens seq_lens last_loc
                          (free_pages a1) (next_power_of_2 bs) ps)
                  (dv_schedule dv bs) (dv_empty dv extend_num_tokens)
      in rbind (debug_unique a out) (\<lambda>_.
         rbind (case num_new_pages of
                  None \<Rightarrow> get_num_new_pages seq_lens ps (Some prefix_lens) False
                | Some n \<Rightarrow> Inr n) (\<lambda>n.
         if length (free_pages a1) < n then Inr (None, a1)
         else Inr (Some out, a1\<lparr>free_pages := drop n (free_pages a1)\<rparr>)))))"

text \<open>
  For many pages the Ascend method hands the reference loop an output tensor of 32-bit integers,
  which converts what is stored in it.
\<close>

definition npu_alloc_extend ::
  "device \<Rightarrow> kv_alloc \<Rightarrow> nat list \<Rightarrow> nat list \<Rightarrow> int list \<Rightarrow> nat \<Rightarrow> nat option \<Rightarrow>
     (int list option \<times> kv_alloc) result" where
  "npu_alloc_extend dv a prefix_lens seq_lens last_loc extend_num_tokens num_new_pages =
     (let ps = ka_page_size a; bs = length prefix_lens in
      rbind (py_assert (ka_debug_mode a \<longrightarrow>
               (\<forall>i < bs. (last_loc ! i + 1) mod int ps = int (prefix_lens ! i) mod int ps))) (\<lambda>_.
      let n = (case num_new_pages of
                 None \<Rightarrow> sum_list (new_pages ps prefix_lens seq_lens)
               | Some n \<Rightarrow> n);
          a1 = merge_if_short n a
      in if length (free_pages a1) < n then Inr (None, a1)
         else rbind (if n < 200
                then Inr (launch (npu_extend_kernel (next_power_of_2 extend_num_tokens) (dv_masked dv)
                            (dv_garbage dv) prefix_lens seq_lens last_loc (free_pages a1)
                            (next_power_of_2 bs) ps)
                       (dv_schedule dv bs) (dv_empty dv extend_num_tokens))
                else rbind (alloc_extend_naive prefix_lens seq_lens last_loc (free_pages a1)
                       (dv_empty dv extend_num_tokens) ps) (\<lambda>out. Inr (map to_int32 out))) (\<lambda>out.
              rbind (debug_unique a out) (\<lambda>_.
              Inr (Some (map to_int32 out), a1\<lparr>free_pages := drop n (free_pages a1)\<rparr>)))))"

section \<open>Decoding\<close>

definition decode_kernel ::
  "(nat \<Rightarrow> nat) \<Rightarrow> (nat \<Rightarrow> int) \<Rightarrow> nat list \<Rightarrow> int list \<Rightarrow> int list \<Rightarrow> nat \<Rightarrow> nat \<Rightarrow> nat \<Rightarrow> (nat \<times> int) list"
  where
  "decode_kernel masked garbage seq_lens last_locs fp upper ps pid =
     (let seqs = load_masked masked seq_lens upper pid;
          pres = map (\<lambda>lane. if lane \<le> pid then seqs ! lane - 1 else seqs ! lane) [0 ..< upper];
          seq_len = seq_lens ! pid; pre_len = seq_len - 1;
          num_new_pages = map2 (\<lambda>s p. ceil_div s ps - ceil_div p ps) seqs pres;
          num_page_start_loc_self = ceil_div seq_len ps - ceil_div pre_len ps;
          new_page_start_loc = sum_list num_new_pages - num_page_start_loc_self
      in if num_page_start_loc_self = 0 then [(pid, last_locs ! pid + 1)]
         else [(pid, load garbage fp new_page_start_loc * int ps)])"

definition paged_alloc_decode ::
  "device \<Rightarrow> kv_alloc \<Rightarrow> nat list \<Rightarrow> int list \<Rightarrow> (int list option \<times> kv_alloc) result" where
  "paged_alloc_decode dv a seq_lens last_loc =
     (let ps = ka_page_size a; bs = length seq_lens in
      rbind (py_assert (ka_debug_mode a \<longrightarrow>
               (\<forall>i < bs. (last_loc ! i + 2) mod int ps = int (seq_lens ! i) mod int ps))) (\<lambda>_.
      let a1 = merge_if_short bs a;
          out = launch (decode_kernel (dv_masked dv) (dv_garbage dv) seq_lens last_loc
                          (free_pages a1) (next_power_of_2 bs) ps)
                  (dv_schedule dv bs) (dv_empty dv bs)
      in rbind (debug_unique a out) (\<lambda>_.
         rbind (get_num_new_pages seq_lens ps None True) (\<lambda>n.
         if length (free_pages a1) < n then Inr (None, a1)
         else Inr (Some out, a1\<lparr>free_pages := drop n (free_pages a1)\<rparr>)))))"

text \<open>
  The Ascend variant gathers a page for every row, also for the rows that need none, and
  multiplies the unwanted ones by zero. The gather of an index past the end is the device's.
\<close>

definition gather_pages :: "device \<Rightarrow> int list \<Rightarrow> nat list \<Rightarrow> int list result" where
  "gather_pages dv fp ixs = rmap (\<lambda>i. if i < length fp then Inr (fp ! i) else dv_gather dv i) ixs"

definition npu_alloc_decode ::
  "device \<Rightarrow> kv_alloc \<Rightarrow> nat list \<Rightarrow> int list \<Rightarrow> (int list option \<times> kv_alloc) result" where
  "npu_alloc_decode dv a seq_lens last_loc =
     (let ps = ka_page_size a; bs = length seq_lens in
      rbind (py_assert (ka_debug_mode a \<longrightarrow>
               (\<forall>i < bs. (last_loc ! i + 2) mod int ps = int (seq_lens ! i) mod int ps))) (\<lambda>_.
      rbind (get_num_new_pages seq_lens ps None True) (\<lambda>n.
      let a1 = (if length (free_pages a) < n then merge_and_sort_free a else a) in
      if length (free_pages a1) < n then Inr (None, a1)
      else
        let need = map (\<lambda>s. if s mod ps = 1 then 1 else (0::nat)) seq_lens;
            start = map2 (-) (cumsum need) need
        in rbind (if n = 0 then Inr (map (\<lambda>l. l + 1) last_loc)
                  else rbind (gather_pages dv (free_pages a1) start) (\<lambda>pages.
                    Inr (map (\<lambda>i. (last_loc ! i + 1) * (1 - int (need ! i)) +
                                   pages ! i * int ps * int (need ! i)) [0 ..< bs])))
             (\<lambda>out. rbind (debug_unique a out) (\<lambda>_.
               Inr (Some (map to_int32 out), a1\<lparr>free_pages := drop n (free_pages a1)\<rparr>))))))"

section \<open>Extending: both allocators compute the batch locations\<close>

lemma less_bit_length: "n < 2 ^ bit_length n"
proof (induction n rule: bit_length.induct)
  case (1 n)
  then show ?case by (cases "n = 0") (auto simp: bit_length.simps [of n])
qed

lemma le_next_power_of_2: "n \<le> next_power_of_2 n"
  using less_bit_length [of "n - 1"] by (auto simp: next_power_of_2_def)

definition device_ok :: "device \<Rightarrow> bool" where
  "device_ok dv \<longleftrightarrow>
     (\<forall>n. length (dv_empty dv n) = n) \<and> (\<forall>n. set (dv_schedule dv n) = {0 ..< n})"

text \<open>A call that the debug checks at the start of \<^verbatim>\<open>alloc_extend\<close> accept.\<close>

definition last_locs_ok :: "nat \<Rightarrow> nat list \<Rightarrow> int list \<Rightarrow> bool" where
  "last_locs_ok ps pres lasts \<longleftrightarrow>
     (\<forall>i < length pres. (lasts ! i + 1) mod int ps = int (pres ! i) mod int ps)"

lemma well_placed_last_locs: "well_placed ps fp pres lasts \<Longrightarrow> last_locs_ok ps pres lasts"
  by (simp add: well_placed_def last_locs_ok_def zmod_int)

lemma debug_unique_ok: "distinct out \<Longrightarrow> debug_unique a out = Inr ()"
  by (simp add: debug_unique_def length_torch_unique_iff py_assert_def)

lemma merge_if_short_id: "n \<le> length (free_pages a) \<or> \<not> ka_need_sort a \<Longrightarrow> merge_if_short n a = a"
  by (auto simp: merge_if_short_def)

lemma ka_sel_merge [simp]:
  "ka_page_size (merge_if_short n a) = ka_page_size a"
  "ka_debug_mode (merge_if_short n a) = ka_debug_mode a"
  by (simp_all add: merge_if_short_def merge_and_sort_free_def)

text \<open>
  Pools whose slots are 32-bit integers: the pages that are free and the pages of the last
  tokens end below \<open>2 ^ 31\<close>. The locations of a batch lie on these pages.
\<close>

definition fits_int32 :: "nat \<Rightarrow> int list \<Rightarrow> int list \<Rightarrow> bool" where
  "fits_int32 ps fp lasts \<longleftrightarrow>
     (\<forall>p \<in> set fp. 0 \<le> p \<and> (p + 1) * int ps \<le> 2 ^ 31) \<and>
     (\<forall>l \<in> set lasts. -1 \<le> l \<and> (l div int ps + 1) * int ps \<le> 2 ^ 31)"

lemma to_int32_id: "- (2 ^ 31) \<le> x \<Longrightarrow> x < 2 ^ 31 \<Longrightarrow> to_int32 x = x"
  unfolding to_int32_def by (rule signed_take_bit_int_eq_self) simp_all

lemma on_page_int32:
  fixes x :: int
  assumes "0 < ps" "0 \<le> x div int ps" "(x div int ps + 1) * int ps \<le> 2 ^ 31"
  shows "to_int32 x = x"
proof (rule to_int32_id)
  have "0 \<le> x" using assms(1,2) by (simp add: pos_imp_zdiv_nonneg_iff)
  then show "- (2 ^ 31) \<le> x" by simp
  have "x mod int ps < int ps" using assms(1) by simp
  then have "x < (x div int ps + 1) * int ps"
    using div_mult_mod_eq [of x "int ps"] by (simp only: distrib_right mult_1_left)
  with assms(3) show "x < 2 ^ 31" by linarith
qed

lemma ext_loc_int32:
  assumes b: "extend_batch ps fp pres seqs lasts" and w: "well_placed ps fp pres lasts"
    and f: "fits_int32 ps fp lasts" and i: "i < length pres" and j: "pres ! i \<le> j" "j < seqs ! i"
  defines "x \<equiv> ext_loc ps fp (pres ! i) (lasts ! i) (sum_list (take i (new_pages ps pres seqs))) j"
  shows "to_int32 x = x"
proof -
  have ps: "0 < ps" and len: "length lasts = length pres" "length seqs = length pres"
    and np: "sum_list (new_pages ps pres seqs) \<le> length fp"
    using b by (simp_all add: extend_batch_def)
  have lm: "(lasts ! i + 1) mod int ps = int (pres ! i mod ps)"
    using w i by (simp add: well_placed_def)
  note pg = ext_loc_page [OF ps j(1) lm, where fp = fp and snp = "sum_list (take i (new_pages ps pres seqs))",
      folded x_def]
  show ?thesis
  proof (cases "j < ceil_div (pres ! i) ps * ps")
    case True
    have l: "-1 \<le> lasts ! i" "(lasts ! i div int ps + 1) * int ps \<le> 2 ^ 31"
      using f i len by (simp_all add: fits_int32_def)
    have "lasts ! i \<noteq> -1" using ext_old_page(2) [OF ps j(1) True] lm by auto
    with l(1) have "0 \<le> lasts ! i div int ps" using ps by (simp add: pos_imp_zdiv_nonneg_iff)
    with l(2) show ?thesis using on_page_int32 [OF ps, of x] by (simp only: pg(2) [OF True])
  next
    case False
    have "sum_list (take i (new_pages ps pres seqs)) + (j div ps - ceil_div (pres ! i) ps) < length fp"
      using new_page_index(1) [OF b i j False] sum_list_take_Suc_le [of i "new_pages ps pres seqs"] i len np by simp
    then have "x div int ps \<in> set fp" using pg(3) [OF False] by simp
    then have "0 \<le> x div int ps" "(x div int ps + 1) * int ps \<le> 2 ^ 31"
      using f unfolding fits_int32_def by blast+
    then show ?thesis by (rule on_page_int32 [OF ps])
  qed
qed

lemma batch_locs_int32:
  assumes "extend_batch ps fp pres seqs lasts" "well_placed ps fp pres lasts" "fits_int32 ps fp lasts"
  shows "map to_int32 (batch_locs ps fp pres seqs lasts) = batch_locs ps fp pres seqs lasts"
  using ext_loc_int32 [OF assms]
  by (intro map_idI) (auto simp: batch_locs_def nth_locs_def req_locs_def)

lemma paged_alloc_extend_ok:
  fixes pres seqs lasts a
  defines "ps \<equiv> ka_page_size a"
  defines "a1 \<equiv> merge_if_short (sum_list (extend_lens pres seqs) div ps + length pres + 1) a"
  assumes dv: "device_ok dv" and b: "extend_batch ps (free_pages a1) pres seqs lasts"
    and w: "well_placed ps (free_pages a1) pres lasts"
  shows "paged_alloc_extend dv a pres seqs lasts (sum_list (extend_lens pres seqs)) None =
    Inr (Some (batch_locs ps (free_pages a1) pres seqs lasts),
         a1\<lparr>free_pages := drop (sum_list (new_pages ps pres seqs)) (free_pages a1)\<rparr>)"
proof -
  let ?n = "sum_list (extend_lens pres seqs)"
  have "launch (extend_kernel (dv_masked dv) (dv_garbage dv) pres seqs lasts (free_pages a1)
      (next_power_of_2 (length pres)) ps) (dv_schedule dv (length pres)) (dv_empty dv ?n) =
    batch_locs ps (free_pages a1) pres seqs lasts"
  proof (rule launch_ok [OF b])
    fix pid assume "pid < length pres"
    moreover from this have "pid < next_power_of_2 (length pres)"
      using le_next_power_of_2 [of "length pres"] by simp
    ultimately show "extend_kernel (dv_masked dv) (dv_garbage dv) pres seqs lasts (free_pages a1)
        (next_power_of_2 (length pres)) ps pid =
      stores_at (sum_list (take pid (extend_lens pres seqs))) (nth_locs ps (free_pages a1) pres seqs lasts pid)"
      by (rule extend_kernel_stores [OF b])
  qed (use dv in \<open>simp_all add: device_ok_def\<close>)
  moreover have "sum_list (new_pages ps pres seqs) \<le> length (free_pages a1)"
    using b by (simp add: extend_batch_def)
  ultimately show ?thesis
    using well_placed_last_locs [OF w] distinct_batch_locs [OF b w]
    unfolding paged_alloc_extend_def ps_def [symmetric] Let_def a1_def [symmetric]
    by (simp add: py_assert_def last_locs_ok_def get_num_new_pages_def debug_unique_ok not_less)
qed

lemma npu_alloc_extend_ok:
  fixes pres seqs lasts a
  defines "ps \<equiv> ka_page_size a"
  defines "a1 \<equiv> merge_if_short (sum_list (new_pages ps pres seqs)) a"
  assumes dv: "device_ok dv" and b: "extend_batch ps (free_pages a1) pres seqs lasts"
    and w: "well_placed ps (free_pages a1) pres lasts" and f: "fits_int32 ps (free_pages a1) lasts"
  shows "npu_alloc_extend dv a pres seqs lasts (sum_list (extend_lens pres seqs)) None =
    Inr (Some (batch_locs ps (free_pages a1) pres seqs lasts),
         a1\<lparr>free_pages := drop (sum_list (new_pages ps pres seqs)) (free_pages a1)\<rparr>)"
proof -
  let ?n = "sum_list (extend_lens pres seqs)"
  have len: "length seqs = length pres" using b by (simp add: extend_batch_def)
  have k: "launch (npu_extend_kernel (next_power_of_2 ?n) (dv_masked dv) (dv_garbage dv) pres seqs lasts
      (free_pages a1) (next_power_of_2 (length pres)) ps) (dv_schedule dv (length pres)) (dv_empty dv ?n) =
    batch_locs ps (free_pages a1) pres seqs lasts"
  proof (rule launch_ok [OF b])
    fix pid assume pid: "pid < length pres"
    then have "pid < next_power_of_2 (length pres)"
      using le_next_power_of_2 [of "length pres"] by simp
    moreover have "seqs ! pid - pres ! pid \<le> next_power_of_2 ?n"
      using sum_list_take_Suc_le [of pid "extend_lens pres seqs"] pid len le_next_power_of_2 [of ?n] by simp
    ultimately show "npu_extend_kernel (next_power_of_2 ?n) (dv_masked dv) (dv_garbage dv) pres seqs lasts
        (free_pages a1) (next_power_of_2 (length pres)) ps pid =
      stores_at (sum_list (take pid (extend_lens pres seqs))) (nth_locs ps (free_pages a1) pres seqs lasts pid)"
      by (rule npu_extend_kernel_stores [OF b pid])
  qed (use dv in \<open>simp_all add: device_ok_def\<close>)
  have "alloc_extend_naive pres seqs lasts (free_pages a1) (dv_empty dv ?n) ps =
    Inr (batch_locs ps (free_pages a1) pres seqs lasts)"
    using dv by (intro alloc_extend_naive_ok [OF b]) (simp add: device_ok_def)
  moreover have "\<not> length (free_pages a1) < sum_list (new_pages ps pres seqs)"
    using b by (simp add: extend_batch_def)
  ultimately show ?thesis
    using k well_placed_last_locs [OF w] distinct_batch_locs [OF b w]
    unfolding npu_alloc_extend_def ps_def [symmetric] Let_def option.case a1_def [symmetric]
    by (simp add: py_assert_def last_locs_ok_def debug_unique_ok batch_locs_int32 [OF b w f])
qed

section \<open>Decoding\<close>

lemma ceil_div_Suc:
  assumes "0 < ps"
  shows "ceil_div (Suc n) ps = Suc (n div ps)"
  using div_add_self2 [of ps n] assms by (simp add: ceil_div_def)

lemma ceil_div_step:
  assumes "0 < ps"
  shows "ceil_div (Suc n) ps - ceil_div n ps = (if n mod ps = 0 then 1 else 0)"
  using ceil_div_Suc [OF assms, of n] ceil_div_alt [OF assms, of n] by simp

lemma decode_new_page:
  assumes "2 \<le> ps" "0 < s"
  shows "ceil_div s ps - ceil_div (s - 1) ps = (if s mod ps = 1 then 1 else 0)"
proof -
  obtain n where s: "s = Suc n" using assms(2) by (cases s) auto
  have "n mod ps = 0 \<longleftrightarrow> Suc n mod ps = 1"
    using assms(1) by (auto simp: mod_Suc)
  then show ?thesis using ceil_div_step [of ps n] assms(1) by (simp add: s)
qed

definition pre_of :: "nat list \<Rightarrow> nat list" where
  "pre_of seqs = map (\<lambda>s. s - 1) seqs"

lemma length_pre_of [simp]: "length (pre_of seqs) = length seqs"
  by (simp add: pre_of_def)

lemma nth_pre_of [simp]: "i < length seqs \<Longrightarrow> pre_of seqs ! i = seqs ! i - 1"
  by (simp add: pre_of_def)

lemma new_pages_decode:
  assumes "2 \<le> ps" "\<forall>s \<in> set seqs. 0 < s"
  shows "new_pages ps (pre_of seqs) seqs = map (\<lambda>s. if s mod ps = 1 then 1 else 0) seqs"
proof (rule nth_equalityI)
  fix i assume i: "i < length (new_pages ps (pre_of seqs) seqs)"
  then have "0 < seqs ! i" using assms(2) by simp
  from decode_new_page [OF assms(1) this] i
  show "new_pages ps (pre_of seqs) seqs ! i = map (\<lambda>s. if s mod ps = 1 then 1 else 0) seqs ! i"
    by (simp del: One_nat_def)
qed simp

lemma sum_list_indicator: "sum_list (map (\<lambda>s. if P s then 1 else (0::nat)) xs) = length (filter P xs)"
  by (induction xs) auto

lemma get_num_new_pages_decode:
  assumes "2 \<le> ps" "\<forall>s \<in> set seqs. 0 < s"
  shows "get_num_new_pages seqs ps None True = Inr (sum_list (new_pages ps (pre_of seqs) seqs))"
  by (simp only: get_num_new_pages_def new_pages_decode [OF assms] sum_list_indicator option.case)
    (simp add: py_assert_def)

lemma nth_locs_decode:
  assumes "0 < ps" "i < length seqs" "0 < seqs ! i"
  shows "nth_locs ps fp (pre_of seqs) seqs lasts i =
    [if ceil_div (seqs ! i) ps - ceil_div (seqs ! i - 1) ps = 0 then lasts ! i + 1
     else fp ! sum_list (take i (new_pages ps (pre_of seqs) seqs)) * int ps]"
proof -
  obtain n where s: "seqs ! i = Suc n" using assms(3) by (cases "seqs ! i") auto
  have lt: "n < ceil_div n ps * ps \<longleftrightarrow> n mod ps \<noteq> 0"
  proof (cases "n mod ps = 0")
    case True
    then show ?thesis using ceil_div_alt [OF assms(1), of n] by auto
  next
    case False
    then have "n \<noteq> ceil_div n ps * ps" by (metis mod_mult_self2_is_0)
    with False ceil_div_mult_ge [OF assms(1), of n] show ?thesis by simp
  qed
  have "n mod ps = 0 \<Longrightarrow> ceil_div n ps = n div ps"
    using ceil_div_alt [OF assms(1), of n] by simp
  then show ?thesis
    using assms(2) s ceil_div_step [OF assms(1), of n]
    by (auto simp: nth_locs_def req_locs_def ext_loc_def lt)
qed

lemma decode_pres:
  "pid < length seqs \<Longrightarrow>
    map (\<lambda>lane. if lane \<le> pid then load_masked masked seqs upper pid ! lane - 1
               else load_masked masked seqs upper pid ! lane) [0 ..< upper] =
    load_masked masked (pre_of seqs) upper pid"
  by (simp add: load_masked_def)

lemma sum_extend_lens_decode:
  assumes "\<forall>s \<in> set seqs. 0 < s" "i \<le> length seqs"
  shows "sum_list (take i (extend_lens (pre_of seqs) seqs)) = i"
proof -
  have "0 < seqs ! j" if "j < length seqs" for j using assms(1) that by simp
  then have "extend_lens (pre_of seqs) seqs = replicate (length seqs) 1"
    by (intro nth_equalityI) (simp_all add: Suc_leI)
  with assms(2) show ?thesis by (simp add: sum_list_replicate min_def)
qed

lemma decode_kernel_stores:
  assumes b: "extend_batch ps fp (pre_of seqs) seqs lasts" and pos: "\<forall>s \<in> set seqs. 0 < s"
    and pid: "pid < length seqs" "pid < upper"
  shows "decode_kernel masked garbage seqs lasts fp upper ps pid =
    stores_at (sum_list (take pid (extend_lens (pre_of seqs) seqs)))
      (nth_locs ps fp (pre_of seqs) seqs lasts pid)"
proof -
  let ?np = "new_pages ps (pre_of seqs) seqs"
  have ps: "0 < ps" and np: "sum_list ?np \<le> length fp" using b by (simp_all add: extend_batch_def)
  have s: "0 < seqs ! pid" using pos pid by simp
  have self: "?np ! pid = ceil_div (seqs ! pid) ps - ceil_div (seqs ! pid - 1) ps"
    using pid by simp
  have "sum_list (map2 (\<lambda>s p. ceil_div s ps - ceil_div p ps) (load_masked masked seqs upper pid)
      (load_masked masked (pre_of seqs) upper pid)) = sum_list (take (Suc pid) ?np)"
    unfolding new_pages_def using pid by (intro sum_list_load_masked) simp_all
  then have start: "sum_list (map2 (\<lambda>s p. ceil_div s ps - ceil_div p ps) (load_masked masked seqs upper pid)
      (load_masked masked (pre_of seqs) upper pid)) - ?np ! pid = sum_list (take pid ?np)"
    using pid by (simp add: take_Suc_conv_app_nth)
  have "sum_list (take pid ?np) < length fp" if "?np ! pid \<noteq> 0"
    using sum_list_take_Suc_le [of pid ?np] pid np that by simp
  then show ?thesis
    using pid start
    unfolding decode_kernel_def Let_def decode_pres [OF pid(1)] self [symmetric] nth_locs_decode [OF ps pid(1) s]
      sum_extend_lens_decode [OF pos less_imp_le [OF pid(1)]]
    by (simp add: load_def stores_at_def)
qed

lemma paged_decode_launch:
  assumes dv: "device_ok dv" and b: "extend_batch ps fp (pre_of seqs) seqs lasts"
    and pos: "\<forall>s \<in> set seqs. 0 < s"
  shows "launch (decode_kernel (dv_masked dv) (dv_garbage dv) seqs lasts fp (next_power_of_2 (length seqs)) ps)
    (dv_schedule dv (length seqs)) (dv_empty dv (length seqs)) = batch_locs ps fp (pre_of seqs) seqs lasts"
proof (rule launch_ok [OF b])
  show "length (dv_empty dv (length seqs)) = sum_list (extend_lens (pre_of seqs) seqs)"
    using dv sum_extend_lens_decode [OF pos le_refl] by (simp add: device_ok_def)
  fix pid assume pid: "pid < length (pre_of seqs)"
  then have "pid < next_power_of_2 (length seqs)"
    using le_next_power_of_2 [of "length seqs"] by simp
  with pid show "decode_kernel (dv_masked dv) (dv_garbage dv) seqs lasts fp
      (next_power_of_2 (length seqs)) ps pid =
    stores_at (sum_list (take pid (extend_lens (pre_of seqs) seqs)))
      (nth_locs ps fp (pre_of seqs) seqs lasts pid)"
    by (intro decode_kernel_stores [OF b pos]) simp_all
qed (use dv in \<open>simp add: device_ok_def\<close>)

text \<open>The debug check of \<^verbatim>\<open>alloc_decode\<close> is the one of \<^verbatim>\<open>alloc_extend\<close>, moved by one.\<close>

lemma decode_debug_check:
  assumes "last_locs_ok ps (pre_of seqs) lasts" "\<forall>s \<in> set seqs. 0 < s" "i < length seqs"
  shows "(lasts ! i + 2) mod int ps = int (seqs ! i) mod int ps"
proof -
  have s: "int (seqs ! i) = int (seqs ! i - 1) + 1" using assms(2,3) by (simp add: of_nat_diff Suc_leI)
  have "(lasts ! i + 1) mod int ps = int (seqs ! i - 1) mod int ps"
    using assms(1,3) by (simp add: last_locs_ok_def)
  then have "(lasts ! i + 1 + 1) mod int ps = (int (seqs ! i - 1) + 1) mod int ps"
    by (rule mod_add_cong) simp
  then show ?thesis by (simp only: s) (simp add: add.assoc)
qed

lemma paged_alloc_decode_ok:
  fixes seqs lasts a
  defines "ps \<equiv> ka_page_size a"
  defines "a1 \<equiv> merge_if_short (length seqs) a"
  assumes dv: "device_ok dv" and b: "extend_batch ps (free_pages a1) (pre_of seqs) seqs lasts"
    and w: "well_placed ps (free_pages a1) (pre_of seqs) lasts"
    and ps: "2 \<le> ps" and pos: "\<forall>s \<in> set seqs. 0 < s"
  shows "paged_alloc_decode dv a seqs lasts =
    Inr (Some (batch_locs ps (free_pages a1) (pre_of seqs) seqs lasts),
         a1\<lparr>free_pages := drop (sum_list (new_pages ps (pre_of seqs) seqs)) (free_pages a1)\<rparr>)"
proof -
  have "sum_list (new_pages ps (pre_of seqs) seqs) \<le> length (free_pages a1)"
    using b by (simp add: extend_batch_def)
  then show ?thesis
    using decode_debug_check [OF well_placed_last_locs [OF w] pos] distinct_batch_locs [OF b w]
    unfolding paged_alloc_decode_def ps_def [symmetric] Let_def a1_def [symmetric]
      paged_decode_launch [OF dv b pos] get_num_new_pages_decode [OF ps pos]
    by (simp add: py_assert_def debug_unique_ok not_less)
qed

text \<open>The gather of the Ascend variant.\<close>

lemma batch_locs_decode:
  assumes "0 < ps" "\<forall>s \<in> set seqs. 0 < s"
  shows "batch_locs ps fp (pre_of seqs) seqs lasts =
    map (\<lambda>i. if new_pages ps (pre_of seqs) seqs ! i = 0 then lasts ! i + 1
             else fp ! sum_list (take i (new_pages ps (pre_of seqs) seqs)) * int ps) [0 ..< length seqs]"
proof -
  let ?f = "\<lambda>i. if new_pages ps (pre_of seqs) seqs ! i = 0 then lasts ! i + 1
             else fp ! sum_list (take i (new_pages ps (pre_of seqs) seqs)) * int ps"
  have "map (nth_locs ps fp (pre_of seqs) seqs lasts) [0 ..< length seqs] = map (\<lambda>i. [?f i]) [0 ..< length seqs]"
    using assms by (intro map_cong refl) (simp add: nth_locs_decode)
  then have "batch_locs ps fp (pre_of seqs) seqs lasts = concat (map (\<lambda>i. [?f i]) [0 ..< length seqs])"
    by (simp only: batch_locs_def length_pre_of)
  then show ?thesis by simp
qed

lemma start_new_pages:
  "map2 (-) (cumsum need) need = map (\<lambda>i. sum_list (take i need)) [0 ..< length need]"
  by (rule nth_equalityI) (simp_all add: cumsum_def take_Suc_conv_app_nth)

text \<open>
  The rows that need no page and come after all that do read the index one past the last page
  of the batch; no other row reads past it.
\<close>

lemma gather_pages_ok:
  assumes "\<forall>i \<in> set ixs. i < length fp"
  shows "gather_pages dv fp ixs = Inr (map ((!) fp) ixs)"
  using assms unfolding gather_pages_def by (induction ixs) simp_all

lemma gather_pages_past:
  assumes "\<forall>i \<in> set ixs. i \<le> length fp" "length fp \<in> set ixs"
  shows "gather_pages dv fp ixs =
    rbind (dv_gather dv (length fp)) (\<lambda>x. Inr (map (\<lambda>i. if i < length fp then fp ! i else x) ixs))"
proof (cases "dv_gather dv (length fp)")
  case (Inl e)
  with assms show ?thesis unfolding gather_pages_def by (induction ixs) (auto simp: le_less)
next
  case (Inr x)
  have "gather_pages dv fp ixs = Inr (map (\<lambda>i. if i < length fp then fp ! i else x) ixs)"
    using assms(1) Inr unfolding gather_pages_def by (induction ixs) (auto simp: le_less)
  with Inr show ?thesis by simp
qed

lemma starts_in_range:
  fixes need :: "nat list"
  assumes "sum_list need \<le> L"
  shows "\<forall>s \<in> set (map2 (-) (cumsum need) need). s \<le> L"
  using le_trans [OF sum_list_take_le [of _ need] assms] by (auto simp: start_new_pages)

lemma start_past_end:
  fixes need :: "nat list"
  assumes "0 < sum_list need" "sum_list need \<le> L"
  shows "L \<in> set (map2 (-) (cumsum need) need) \<longleftrightarrow> L = sum_list need \<and> last need = 0"
proof -
  have ne: "need \<noteq> []" using assms(1) by auto
  define x ys where "x = last need" and "ys = butlast need"
  have need: "need = ys @ [x]" using ne by (simp add: x_def ys_def)
  have le: "sum_list (take i need) \<le> sum_list ys" if "i < length need" for i
    using that need sum_list_take_le [of i ys] by simp
  have "L \<in> set (map2 (-) (cumsum need) need) \<longleftrightarrow> (\<exists>i < length need. L = sum_list (take i need))"
    by (auto simp: start_new_pages)
  also have "\<dots> \<longleftrightarrow> L = sum_list ys"
  proof
    assume "\<exists>i < length need. L = sum_list (take i need)"
    then have "L \<le> sum_list ys" using le by blast
    with assms(2) need show "L = sum_list ys" by simp
  next
    assume "L = sum_list ys"
    then show "\<exists>i < length need. L = sum_list (take i need)"
      by (intro exI [of _ "length ys"]) (simp add: need)
  qed
  also have "\<dots> \<longleftrightarrow> L = sum_list need \<and> x = 0"
    using assms(2) need by auto
  finally show ?thesis by (simp add: x_def)
qed

definition gathers_past_end :: "nat \<Rightarrow> int list \<Rightarrow> nat list \<Rightarrow> bool" where
  "gathers_past_end ps fp seqs \<longleftrightarrow>
     seqs \<noteq> [] \<and> fp \<noteq> [] \<and> length (filter (\<lambda>s. s mod ps = 1) seqs) = length fp \<and> last seqs mod ps \<noteq> 1"

lemma npu_alloc_decode_eq:
  fixes seqs lasts a
  defines "ps \<equiv> ka_page_size a"
  defines "np \<equiv> new_pages ps (pre_of seqs) seqs"
  defines "a1 \<equiv> (if length (free_pages a) < sum_list np then merge_and_sort_free a else a)"
  assumes b: "extend_batch ps (free_pages a1) (pre_of seqs) seqs lasts"
    and w: "well_placed ps (free_pages a1) (pre_of seqs) lasts" and f: "fits_int32 ps (free_pages a1) lasts"
    and ps: "2 \<le> ps" and pos: "\<forall>s \<in> set seqs. 0 < s"
  shows "npu_alloc_decode dv a seqs lasts =
    (let ok = Inr (Some (batch_locs ps (free_pages a1) (pre_of seqs) seqs lasts),
               a1\<lparr>free_pages := drop (sum_list np) (free_pages a1)\<rparr>)
     in if gathers_past_end ps (free_pages a1) seqs then rbind (dv_gather dv (length (free_pages a1))) (\<lambda>_. ok)
        else ok)"
proof -
  let ?need = "map (\<lambda>s. if s mod ps = 1 then 1 else (0::nat)) seqs"
  let ?fp = "free_pages a1" and ?locs = "batch_locs ps (free_pages a1) (pre_of seqs) seqs lasts"
  let ?start = "map2 (-) (cumsum np) np"
  have need: "?need = np" using new_pages_decode [OF ps pos] by (simp only: np_def)
  have count: "length (filter (\<lambda>s. s mod ps = 1) seqs) = sum_list np"
    using sum_list_indicator [of "\<lambda>s. s mod ps = 1" seqs] by (simp only: need)
  have len: "length np = length seqs" "length lasts = length seqs" "sum_list np \<le> length ?fp"
    using b by (simp_all add: np_def extend_batch_def)
  have le1: "np ! i \<le> 1" if "i < length seqs" for i
    using that arg_cong [OF need, of "\<lambda>xs. xs ! i"] by (auto split: if_splits)
  have locs: "?locs = map (\<lambda>i. if np ! i = 0 then lasts ! i + 1 else ?fp ! sum_list (take i np) * int ps)
      [0 ..< length seqs]"
    using ps pos by (simp only: np_def) (intro batch_locs_decode, simp_all)
  have zero: "map (\<lambda>l. l + 1) lasts = ?locs" if "sum_list np = 0"
  proof (rule nth_equalityI)
    fix i assume "i < length (map (\<lambda>l. l + 1) lasts)"
    with that len sum_list_take_Suc_le [of i np] show "map (\<lambda>l. l + 1) lasts ! i = ?locs ! i"
      by (simp add: locs)
  qed (simp add: locs len)
  have used: "sum_list (take i np) < length ?fp" if "i < length seqs" "np ! i = 1" for i
    using that len sum_list_take_Suc_le [of i np] by simp
  have gather: "map (\<lambda>i. (lasts ! i + 1) * (1 - int (np ! i)) +
      map g ?start ! i * int ps * int (np ! i)) [0 ..< length seqs] = ?locs"
    if g: "\<And>i. i < length ?fp \<Longrightarrow> g i = ?fp ! i" for g
    unfolding locs
  proof (rule map_cong [OF refl])
    fix i assume "i \<in> set [0 ..< length seqs]"
    then have i: "i < length seqs" by simp
    with le1 [OF i] len have "np ! i = 0 \<or> np ! i = 1" by linarith
    with i len show "(lasts ! i + 1) * (1 - int (np ! i)) + map g ?start ! i * int ps * int (np ! i) =
      (if np ! i = 0 then lasts ! i + 1 else ?fp ! sum_list (take i np) * int ps)"
      using used [OF i] g [of "sum_list (take i np)"] by (auto simp: start_new_pages)
  qed
  have past: "length ?fp \<in> set ?start \<longleftrightarrow> gathers_past_end ps ?fp seqs" if "0 < sum_list np"
  proof -
    have ne: "seqs \<noteq> []" using that len by auto
    then have "last np = 0 \<longleftrightarrow> last seqs mod ps \<noteq> 1"
      by (simp only: need [symmetric]) (simp add: last_map)
    moreover have "?fp \<noteq> []" using less_le_trans [OF that len(3)] by simp
    ultimately show ?thesis
      unfolding start_past_end [OF that len(3)] gathers_past_end_def count using ne by metis
  qed
  define n where "n = sum_list np"
  note unfold = npu_alloc_decode_def ps_def [symmetric] Let_def get_num_new_pages_decode [OF ps pos]
    np_def [symmetric] rbind_simps a1_def [symmetric, folded n_def] need n_def [symmetric]
  note facts = decode_debug_check [OF well_placed_last_locs [OF w] pos]
    debug_unique_ok [OF distinct_batch_locs [OF b w]] batch_locs_int32 [OF b w f] len(3) [folded n_def]
  show ?thesis
  proof (cases "n = 0")
    case True
    then have "\<not> gathers_past_end ps ?fp seqs"
      unfolding gathers_past_end_def count n_def by (metis length_0_conv)
    with True facts zero show ?thesis unfolding unfold
      by (simp add: py_assert_def n_def [symmetric])
  next
    case False
    then have n: "0 < sum_list np" by (simp only: n_def)
    show ?thesis
    proof (cases "gathers_past_end ps ?fp seqs")
      case True
      have "gather_pages dv ?fp ?start =
        rbind (dv_gather dv (length ?fp)) (\<lambda>x. Inr (map (\<lambda>i. if i < length ?fp then ?fp ! i else x) ?start))"
        using starts_in_range [OF len(3)] past [OF n] True by (intro gather_pages_past) simp_all
      with True False facts gather show ?thesis unfolding unfold
        by (cases "dv_gather dv (length ?fp)") (simp_all add: py_assert_def not_less)
    next
      case out: False
      have "\<forall>i \<in> set ?start. i < length ?fp"
        using starts_in_range [OF len(3)] past [OF n] out by (metis le_less)
      then have "gather_pages dv ?fp ?start = Inr (map ((!) ?fp) ?start)" by (rule gather_pages_ok)
      with out False facts gather [of "(!) ?fp"] show ?thesis unfolding unfold
        by (simp add: py_assert_def not_less)
    qed
  qed
qed

text \<open>
  The two allocators put the released pages back under different conditions; where these give
  the same answer, the methods are compared.
\<close>

lemma npu_alloc_decode_paged:
  fixes seqs lasts a
  defines "ps \<equiv> ka_page_size a"
  defines "a1 \<equiv> merge_if_short (length seqs) a"
  assumes dv: "device_ok dv" and b: "extend_batch ps (free_pages a1) (pre_of seqs) seqs lasts"
    and w: "well_placed ps (free_pages a1) (pre_of seqs) lasts" and f: "fits_int32 ps (free_pages a1) lasts"
    and ps: "2 \<le> ps" and pos: "\<forall>s \<in> set seqs. 0 < s"
    and m: "length (free_pages a) < length (filter (\<lambda>s. s mod ps = 1) seqs) \<longleftrightarrow>
      ka_need_sort a \<and> length (free_pages a) < length seqs"
  shows "npu_alloc_decode dv a seqs lasts =
    (if gathers_past_end ps (free_pages a1) seqs
     then rbind (dv_gather dv (length (free_pages a1))) (\<lambda>_. paged_alloc_decode dv a seqs lasts)
     else paged_alloc_decode dv a seqs lasts)"
proof -
  have "length (filter (\<lambda>s. s mod ps = 1) seqs) = sum_list (new_pages ps (pre_of seqs) seqs)"
    using sum_list_indicator [of "\<lambda>s. s mod ps = 1" seqs] by (simp only: new_pages_decode [OF ps pos])
  with m have a1: "(if length (free_pages a) < sum_list (new_pages ps (pre_of seqs) seqs)
      then merge_and_sort_free a else a) = a1"
    by (simp add: a1_def merge_if_short_def)
  have "2 \<le> ka_page_size a" using ps by (simp add: ps_def)
  note paged = paged_alloc_decode_ok [OF dv b [unfolded ps_def a1_def] w [unfolded ps_def a1_def] this pos]
  show ?thesis
    using npu_alloc_decode_eq [of a seqs lasts dv, folded ps_def, unfolded a1, OF b w f ps pos]
    by (simp only: Let_def paged [folded ps_def a1_def])
qed

end
