(* ===== verification/Cache_Common.thy ===== *)
theory Cache_Common
  imports Req_Cache Alloc_Methods
begin

text \<open>
  The functions of \<^verbatim>\<open>mem_cache/common.py\<close> between the scheduler and the caches: eviction on
  demand, allocation of slots for a batch, the table of slots per request (with the kernels of
  \<^verbatim>\<open>mem_cache/triton_ops/common.py\<close>) and the release of a request. The branches for the hybrid
  sliding-window, Mamba and DeepSeek-V4 pools belong to allocators that are not modelled; of
  the first one the amounts it asks to evict are.
\<close>

section \<open>Page arithmetic\<close>

definition every_nth :: "nat \<Rightarrow> 'a list \<Rightarrow> 'a list" where
  "every_nth ps xs = map (\<lambda>k. xs ! (k * ps)) [0 ..< ceil_div (length xs) ps]"

definition kv_to_page_indices :: "int list \<Rightarrow> nat \<Rightarrow> int list" where
  "kv_to_page_indices kv_indices ps =
     (if ps = 1 then kv_indices else map (\<lambda>i. i div int ps) (every_nth ps kv_indices))"

definition kv_to_page_num :: "nat \<Rightarrow> nat \<Rightarrow> nat" where
  "kv_to_page_num n ps = (n + ps - 1) div ps"

definition page_align_floor :: "nat \<Rightarrow> nat \<Rightarrow> nat" where
  "page_align_floor len ps = len div ps * ps"

definition ceil_align :: "nat \<Rightarrow> nat \<Rightarrow> nat" where
  "ceil_align x y = ceil_div x y * y"

section \<open>Out-of-window slots\<close>

text \<open>
  \<open>free_swa\<close> is the method of the allocator; the hook of the DeepSeek-V4 pools does nothing for
  the others.
\<close>

definition free_swa_out_of_window_slots ::
  "('al \<Rightarrow> int list \<Rightarrow> 'al result) \<Rightarrow> int \<Rightarrow> int \<Rightarrow> nat \<Rightarrow> bool \<Rightarrow> req_pool \<Rightarrow> req \<Rightarrow> 'al \<Rightarrow> (req \<times> 'al) result" where
  "free_swa_out_of_window_slots free_swa pre_len sliding_window_size ps is_chunk_cache pool r a =
     rbind (py_assert (cache_protected_len r mod ps = 0)) (\<lambda>_.
     let protected = int (cache_protected_len r);
         floor0 = max protected (swa_evict_floor r);
         evict_floor = (if 1 < ps \<and> protected < floor0 then - ((- floor0) div int ps) * int ps else floor0);
         evicted = max (swa_evicted_seqlen r) evict_floor;
         r1 = r\<lparr>swa_evicted_seqlen := evicted\<rparr>;
         evict_threshold = (if is_chunk_cache then pre_len - sliding_window_size
                            else pre_len - max sliding_window_size (int ps));
         new0 = max evicted evict_threshold;
         new = (if 1 < ps then new0 div int ps * int ps else new0)
     in if evicted < new
        then rbind (req_row pool r1 (nat new)) (\<lambda>row.
             rbind (free_swa a (drop (nat evicted) row)) (\<lambda>a1.
             Inr (r1\<lparr>swa_evicted_seqlen := new\<rparr>, a1)))
        else Inr (r1, a))"

section \<open>The table of slots\<close>

text \<open>The loop of \<^verbatim>\<open>write_cache_indices\<close> without Triton: prefix, then the new slots, row by row.\<close>

fun write_cache_loop ::
  "nat list \<Rightarrow> nat list \<Rightarrow> nat list \<Rightarrow> int list list \<Rightarrow> int list \<Rightarrow> nat \<Rightarrow> int list list \<Rightarrow> int list list result" where
  "write_cache_loop (ri # ris) (pre # pres) (sq # seqs) (pt # pts) out pos rows =
     (if ri < length rows
      then rbind (set_slice 0 pre pt (rows ! ri)) (\<lambda>row1.
           rbind (set_slice pre sq (slice pos (pos + (sq - pre)) out) row1) (\<lambda>row2.
           write_cache_loop ris pres seqs pts out (pos + (sq - pre)) (rows[ri := row2])))
      else Inl IndexError)"
| "write_cache_loop ris pres seqs pts out pos rows = Inr rows"

text \<open>
  The Triton kernel works on the flat table: the stores of one program instance. The masked
  loads stay inside their tensors when the lengths agree.
\<close>

definition write_kernel ::
  "nat \<Rightarrow> nat list \<Rightarrow> int list list \<Rightarrow> nat list \<Rightarrow> nat list \<Rightarrow> nat list \<Rightarrow> int list \<Rightarrow> nat \<Rightarrow> (nat \<times> int) list" where
  "write_kernel stride ris prefix_tensors pre_lens seq_lens ext_lens out pid =
     (let ri = ris ! pid; pre_len = pre_lens ! pid; seq_len = seq_lens ! pid; pt = prefix_tensors ! pid;
          prefix_part = concat (map (\<lambda>i. map (\<lambda>offset. (ri * stride + offset, pt ! offset))
              (filter (\<lambda>offset. offset < pre_len) (map (\<lambda>k. i * 512 + k) [0 ..< 512])))
            [0 ..< ceil_div pre_len 512]);
          cumsum_start = sum_list (map (\<lambda>i. ext_lens ! i) [0 ..< pid]);
          ext_part = concat (map (\<lambda>i. map (\<lambda>offset. (ri * stride + offset + pre_len, out ! (cumsum_start + offset)))
              (filter (\<lambda>offset. offset < seq_len - pre_len) (map (\<lambda>k. i * 512 + k) [0 ..< 512])))
            [0 ..< ceil_div (seq_len - pre_len) 512])
      in prefix_part @ ext_part)"

text \<open>The three implementations of \<^verbatim>\<open>get_last_loc\<close> on the table as a list of rows.\<close>

definition get_last_loc_torch :: "int list list \<Rightarrow> nat list \<Rightarrow> nat list \<Rightarrow> int list" where
  "get_last_loc_torch rows ris pres = map2 (\<lambda>ri pre. if 0 < pre then rows ! ri ! (pre - 1) else - 1) ris pres"

text \<open>One lane of a kernel: its offset, whether it is on, and what it stores; \<open>mem\<close> is the flat table.\<close>

definition last_loc_lane :: "(nat \<Rightarrow> int) \<Rightarrow> nat \<Rightarrow> nat list \<Rightarrow> nat list \<Rightarrow> nat \<Rightarrow> (nat \<times> int) list" where
  "last_loc_lane mem stride ris pres offset =
     (let mask = offset < length pres;
          pre = (if mask then pres ! offset else 0); ri = (if mask then ris ! offset else 0);
          tokens = (if 0 < pre then mem (ri * stride + (pre - 1)) else - 1)
      in if mask then [(offset, tokens)] else [])"

definition get_last_loc_kernel :: "(nat \<Rightarrow> int) \<Rightarrow> nat \<Rightarrow> nat list \<Rightarrow> nat list \<Rightarrow> nat \<Rightarrow> (nat \<times> int) list" where
  "get_last_loc_kernel mem stride ris pres pid =
     concat (map (last_loc_lane mem stride ris pres) (map (\<lambda>k. k + pid * 256) [0 ..< 256]))"

definition get_last_loc_triton :: "(nat \<Rightarrow> int) \<Rightarrow> nat \<Rightarrow> nat list \<Rightarrow> nat list \<Rightarrow> nat list \<Rightarrow> int list \<Rightarrow> int list" where
  "get_last_loc_triton mem stride ris pres schedule result0 =
     launch (get_last_loc_kernel mem stride ris pres) schedule result0"

section \<open>Reserved lengths\<close>

record server_args_spec =
  speculative_algorithm :: "string option"
  speculative_num_steps :: "nat option"
  speculative_eagle_topk :: "nat option"
  max_speculative_num_draft_tokens :: "nat option"
  sa_page_size :: nat
  strip_thinking_cache :: bool

text \<open>\<^verbatim>\<open>x or 1\<close>: a missing value and zero both become one.\<close>

definition or_1 :: "nat option \<Rightarrow> nat" where
  "or_1 x = (case x of None \<Rightarrow> 1 | Some n \<Rightarrow> if n = 0 then 1 else n)"

text \<open>
  \<open>has_draft_kv\<close> of the algorithm is an argument; \<^verbatim>\<open>max\<close> with a missing number of draft tokens
  raises.
\<close>

definition get_alloc_len_per_decode :: "(string \<Rightarrow> bool) \<Rightarrow> server_args_spec \<Rightarrow> nat result" where
  "get_alloc_len_per_decode has_draft_kv sa =
     (case speculative_algorithm sa of
        None \<Rightarrow> Inr 1
      | Some algo \<Rightarrow>
          (let spec_steps = or_1 (speculative_num_steps sa);
               spec_topk = or_1 (speculative_eagle_topk sa);
               ps = sa_page_size sa
           in case max_speculative_num_draft_tokens sa of
                None \<Rightarrow> Inl TypeError
              | Some spec_tokens \<Rightarrow>
                  if ps = 1 \<or> spec_topk = 1 \<or> \<not> has_draft_kv algo
                  then Inr (max (spec_steps * spec_topk) spec_tokens)
                  else
                    let num_new_pages_per_topk = ((ps - 1) + spec_steps + ps - 1) div ps
                    in Inr (max (num_new_pages_per_topk * ps * spec_topk) spec_tokens)))"

definition get_alloc_reserve_per_decode :: "(string \<Rightarrow> bool) \<Rightarrow> server_args_spec \<Rightarrow> nat result" where
  "get_alloc_reserve_per_decode has_draft_kv sa =
     rbind (get_alloc_len_per_decode has_draft_kv sa) (\<lambda>n. Inr (2 * n))"

definition get_req_to_token_extra_context_len :: "(string \<Rightarrow> bool) \<Rightarrow> server_args_spec \<Rightarrow> nat result" where
  "get_req_to_token_extra_context_len has_draft_kv sa =
     (let extra = 4 + (case max_speculative_num_draft_tokens sa of None \<Rightarrow> 0 | Some n \<Rightarrow> n) in
      if speculative_algorithm sa \<noteq> None \<and> 1 < sa_page_size sa \<and> 1 < or_1 (speculative_eagle_topk sa)
      then rbind (get_alloc_reserve_per_decode has_draft_kv sa) (\<lambda>n. Inr (max extra n))
      else Inr extra)"

section \<open>Allocation with eviction\<close>

datatype alloc_class = TokenAllocator | PagedAllocator | NPUPagedAllocator

fun al_available_size :: "alloc_class \<Rightarrow> kv_alloc \<Rightarrow> nat" where
  "al_available_size TokenAllocator a = token_available_size a"
| "al_available_size PagedAllocator a = base_available_size a"
| "al_available_size NPUPagedAllocator a = base_available_size a"

fun al_alloc :: "alloc_class \<Rightarrow> kv_alloc \<Rightarrow> nat \<Rightarrow> (int list option \<times> kv_alloc) result" where
  "al_alloc TokenAllocator a n = Inr (token_alloc a n)"
| "al_alloc PagedAllocator a n = paged_alloc a n"
| "al_alloc NPUPagedAllocator a n = paged_alloc a n"

fun al_free :: "alloc_class \<Rightarrow> kv_alloc \<Rightarrow> int list \<Rightarrow> kv_alloc result" where
  "al_free TokenAllocator a ix = Inr (token_free a ix)"
| "al_free PagedAllocator a ix = paged_free a ix"
| "al_free NPUPagedAllocator a ix = paged_free a ix"

fun al_alloc_extend ::
  "alloc_class \<Rightarrow> device \<Rightarrow> kv_alloc \<Rightarrow> nat list \<Rightarrow> nat list \<Rightarrow> int list \<Rightarrow> nat \<Rightarrow> nat option \<Rightarrow>
     (int list option \<times> kv_alloc) result" where
  "al_alloc_extend TokenAllocator dv a pres seqs lasts n np = Inl NotImplementedError"
| "al_alloc_extend PagedAllocator dv a pres seqs lasts n np = paged_alloc_extend dv a pres seqs lasts n np"
| "al_alloc_extend NPUPagedAllocator dv a pres seqs lasts n np = npu_alloc_extend dv a pres seqs lasts n np"

fun al_alloc_decode ::
  "alloc_class \<Rightarrow> device \<Rightarrow> kv_alloc \<Rightarrow> nat list \<Rightarrow> int list \<Rightarrow> (int list option \<times> kv_alloc) result" where
  "al_alloc_decode TokenAllocator dv a seqs lasts = Inl NotImplementedError"
| "al_alloc_decode PagedAllocator dv a seqs lasts = paged_alloc_decode dv a seqs lasts"
| "al_alloc_decode NPUPagedAllocator dv a seqs lasts = npu_alloc_decode dv a seqs lasts"

datatype tree_cache = NoTree | ChunkTree | RadixTree radix_cache

definition evict_from_tree_cache ::
  "alloc_class \<Rightarrow> (nat list \<Rightarrow> nat list) \<Rightarrow> nat \<Rightarrow> kv_alloc \<Rightarrow> tree_cache \<Rightarrow> (kv_alloc \<times> tree_cache) result" where
  "evict_from_tree_cache cls order num_tokens a t =
     (case t of
        NoTree \<Rightarrow> Inr (a, t)
      | ChunkTree \<Rightarrow> Inr (a, t)
      | RadixTree c \<Rightarrow>
          if al_available_size cls a < num_tokens
          then rbind (evict (al_free cls) order num_tokens a c) (\<lambda>(k, a1, c1). Inr (a1, RadixTree c1))
          else Inr (a, t))"

text \<open>The amounts the branch for the hybrid allocator passes to \<^verbatim>\<open>evict\<close>.\<close>

definition swa_evict_amounts :: "nat \<Rightarrow> nat \<Rightarrow> nat \<Rightarrow> (nat \<times> nat) option" where
  "swa_evict_amounts full_available swa_available num_tokens =
     (if full_available < num_tokens \<or> swa_available < num_tokens
      then Some (num_tokens - full_available, num_tokens - swa_available) else None)"

definition alloc_token_slots ::
  "alloc_class \<Rightarrow> (nat list \<Rightarrow> nat list) \<Rightarrow> nat \<Rightarrow> bool \<Rightarrow> kv_alloc \<Rightarrow> tree_cache \<Rightarrow>
     ((int list \<times> (int list \<times> int list) option) \<times> kv_alloc \<times> tree_cache) result" where
  "alloc_token_slots cls order num_tokens backup a t =
     (if t = NoTree then Inl AttributeError
      else
        rbind (evict_from_tree_cache cls order num_tokens a t) (\<lambda>(a1, t1).
        let state = (if backup then Some (backup_state a1) else None) in
        rbind (al_alloc cls a1 num_tokens) (\<lambda>(out, a2).
        case out of
          None \<Rightarrow> Inl RuntimeError
        | Some ix \<Rightarrow> Inr ((ix, state), a2, t1))))"

definition alloc_paged_token_slots_extend ::
  "alloc_class \<Rightarrow> device \<Rightarrow> (nat list \<Rightarrow> nat list) \<Rightarrow> nat list \<Rightarrow> nat list \<Rightarrow> int list \<Rightarrow> nat \<Rightarrow> bool \<Rightarrow>
     kv_alloc \<Rightarrow> tree_cache \<Rightarrow> ((int list \<times> (int list \<times> int list) option) \<times> kv_alloc \<times> tree_cache) result" where
  "alloc_paged_token_slots_extend cls dv order pres seqs lasts extend_num_tokens backup a t =
     (if t = NoTree then Inl AttributeError
      else
        let num_tokens = extend_num_tokens + length seqs * ka_page_size a in
        rbind (evict_from_tree_cache cls order num_tokens a t) (\<lambda>(a1, t1).
        let state = (if backup then Some (backup_state a1) else None) in
        rbind (al_alloc_extend cls dv a1 pres seqs lasts extend_num_tokens None) (\<lambda>(out, a2).
        case out of
          None \<Rightarrow> Inl RuntimeError
        | Some ix \<Rightarrow> Inr ((ix, state), a2, t1))))"

definition alloc_paged_token_slots_decode ::
  "alloc_class \<Rightarrow> device \<Rightarrow> (nat list \<Rightarrow> nat list) \<Rightarrow> nat list \<Rightarrow> int list \<Rightarrow>
     kv_alloc \<Rightarrow> tree_cache \<Rightarrow> (int list \<times> kv_alloc \<times> tree_cache) result" where
  "alloc_paged_token_slots_decode cls dv order seqs lasts a t =
     (if t = NoTree then Inl AttributeError
      else
        let num_tokens = length seqs * ka_page_size a in
        rbind (evict_from_tree_cache cls order num_tokens a t) (\<lambda>(a1, t1).
        rbind (al_alloc_decode cls dv a1 seqs lasts) (\<lambda>(out, a2).
        case out of
          None \<Rightarrow> Inl RuntimeError
        | Some ix \<Rightarrow> Inr (ix, a2, t1))))"

text \<open>The branch for Mamba pools evicts states first; it does not apply to this pool.\<close>

definition alloc_req_slots :: "req_pool \<Rightarrow> req list \<Rightarrow> (nat list \<times> req list \<times> req_pool) result" where
  "alloc_req_slots pool reqs =
     rbind (rp_alloc pool reqs) (\<lambda>(ix, reqs1, pool1).
     case ix of None \<Rightarrow> Inl RuntimeError | Some is \<Rightarrow> Inr (is, reqs1, pool1))"

text \<open>
  \<open>tree_ps\<close> is the page size of the tree cache; \<^verbatim>\<open>maybe_evict_swa\<close> and the DeepSeek-V4 hooks do
  nothing for the modelled pools. The prefix lengths are those of the batch.
\<close>

definition alloc_for_extend ::
  "alloc_class \<Rightarrow> device \<Rightarrow> (nat list \<Rightarrow> nat list) \<Rightarrow> nat \<Rightarrow> req list \<Rightarrow> nat list \<Rightarrow> nat list \<Rightarrow> nat \<Rightarrow>
     req_pool \<Rightarrow> kv_alloc \<Rightarrow> tree_cache \<Rightarrow>
     ((int list \<times> nat list \<times> req list) \<times> req_pool \<times> kv_alloc \<times> tree_cache) result" where
  "alloc_for_extend cls dv order tree_ps reqs pres seqs extend_num_tokens pool a t =
     (let prefix_tensors = map prefix_indices reqs in
      rbind (alloc_req_slots pool reqs) (\<lambda>(ris, reqs1, pool1).
      rbind (if tree_ps = 1 then alloc_token_slots cls order extend_num_tokens False a t
             else alloc_paged_token_slots_extend cls dv order pres seqs
                    (map (\<lambda>pt. if pt \<noteq> [] then last pt else - 1) prefix_tensors) extend_num_tokens False a t)
        (\<lambda>((out, _), a1, t1).
        rbind (write_cache_loop ris pres seqs prefix_tensors out 0 (req_to_token pool1)) (\<lambda>rows.
        Inr ((out, ris, reqs1), pool1\<lparr>req_to_token := rows\<rparr>, a1, t1)))))"

text \<open>\<open>req_to_token[indices, locs] = values\<close> with one value per row.\<close>

fun scatter_rows :: "nat list \<Rightarrow> nat list \<Rightarrow> int list \<Rightarrow> int list list \<Rightarrow> int list list result" where
  "scatter_rows (ri # ris) (l # ls) (v # vs) rows =
     (if ri < length rows \<and> l < length (rows ! ri)
      then scatter_rows ris ls vs (rows[ri := (rows ! ri)[l := v]]) else Inl IndexError)"
| "scatter_rows ris ls vs rows = Inr rows"

text \<open>\<open>req_to_token[indices, seq_lens - 1]\<close>; an empty sequence reads the last column.\<close>

definition gather_last :: "int list list \<Rightarrow> nat list \<Rightarrow> nat list \<Rightarrow> int list" where
  "gather_last rows ris seqs =
     map2 (\<lambda>ri s. if s = 0 then last (rows ! ri) else rows ! ri ! (s - 1)) ris seqs"

definition alloc_for_decode ::
  "alloc_class \<Rightarrow> device \<Rightarrow> (nat list \<Rightarrow> nat list) \<Rightarrow> nat \<Rightarrow> nat list \<Rightarrow> nat list \<Rightarrow> nat list option \<Rightarrow> nat \<Rightarrow>
     req_pool \<Rightarrow> kv_alloc \<Rightarrow> tree_cache \<Rightarrow> (int list \<times> req_pool \<times> kv_alloc \<times> tree_cache) result" where
  "alloc_for_decode cls dv order tree_ps ris seqs encoder_lens token_per_req pool a t =
     rbind (if tree_ps = 1
            then rbind (alloc_token_slots cls order (length seqs * token_per_req) False a t)
                   (\<lambda>((out, _), a1, t1). Inr (out, a1, t1))
            else alloc_paged_token_slots_decode cls dv order (map (\<lambda>s. s + token_per_req) seqs)
                   (gather_last (req_to_token pool) ris seqs) a t) (\<lambda>(out, a1, t1).
     let locs = (case encoder_lens of None \<Rightarrow> seqs | Some el \<Rightarrow> map2 (+) el seqs) in
     rbind (scatter_rows ris locs (map to_int32 out) (req_to_token pool)) (\<lambda>rows.
     Inr (out, pool\<lparr>req_to_token := rows\<rparr>, a1, t1)))"

section \<open>Releasing a request\<close>

text \<open>
  Of \<^verbatim>\<open>release_kv_cache\<close>: a request without a row is an error of the caches that are modelled,
  which do not manage Mamba states. \<open>finish\<close> is the method of the cache.
\<close>

definition release_kv_cache ::
  "(bool \<Rightarrow> req \<Rightarrow> 'al \<Rightarrow> 't \<Rightarrow> (req \<times> 'al \<times> 't) result) \<Rightarrow> ('al \<Rightarrow> int list \<Rightarrow> 'al result) \<Rightarrow>
     server_args_spec \<Rightarrow> bool \<Rightarrow> req \<Rightarrow> req_pool \<Rightarrow> 'al \<Rightarrow> 't \<Rightarrow> (req \<times> req_pool \<times> 'al \<times> 't) result" where
  "release_kv_cache finish free sa is_insert r pool a t =
     (if req_pool_idx r = None then Inl AssertionError
      else
        rbind (finish (is_insert \<and> \<not> skip_radix_cache_insert r) r a t) (\<lambda>(r1, a1, t1).
        if req_pool_idx r1 = None then Inr (r1, pool, a1, t1)
        else
          rbind (pop_overallocated_kv_cache (strip_thinking_cache sa) r1) (\<lambda>((start_p0, end_p), r2).
          rbind (py_assert (speculative_algorithm sa = None \<and> \<not> strip_thinking_cache sa \<longrightarrow> start_p0 = end_p)) (\<lambda>_.
          let start_p = (if 1 < sa_page_size sa then ceil_align start_p0 (sa_page_size sa) else start_p0) in
          rbind (if start_p < end_p
                 then rbind (req_row pool r2 end_p) (\<lambda>row. free a1 (drop start_p row))
                 else Inr a1) (\<lambda>a2.
          rbind (rp_free pool r2) (\<lambda>(r3, pool1). Inr (r3, pool1, a2, t1)))))))"

section \<open>The interface of the allocator classes\<close>

text \<open>
  All allocators free whole pages, of one slot in the token allocator. Outside a free group and
  with waiting pages merged on demand they are interchangeable providers of the interface the
  caches rely on.
\<close>

definition al_used :: "alloc_class \<Rightarrow> kv_alloc \<Rightarrow> int set" where
  "al_used cls a = (if cls = TokenAllocator then tok.used a else pgd.used a)"

definition al_inv :: "alloc_class \<Rightarrow> kv_alloc \<Rightarrow> bool" where
  "al_inv cls a \<longleftrightarrow>
     (if cls = TokenAllocator then token_inv a \<and> ka_page_size a = 1
      else paged_inv a \<and> ka_num_pages a * ka_page_size a \<le> ka_size a) \<and>
     is_not_in_free_group a \<and> (ka_need_sort a \<or> release_pages a = [])"

lemma al_free_eq: "al_free cls = (if cls = TokenAllocator then (\<lambda>a ix. Inr (token_free a ix)) else paged_free)"
  by (cases cls) (simp_all add: fun_eq_iff)

lemma paged_cover_1: "ka_page_size a = 1 \<Longrightarrow> paged_cover a S = S"
  by (simp add: paged_cover_def page_slots_def)

lemma al_free_ok:
  assumes inv: "al_inv cls a" and ix: "distinct ix" "paged_cover a (set ix) \<subseteq> al_used cls a"
  shows "\<exists>a'. al_free cls a ix = Inr a' \<and> al_inv cls a' \<and> al_used cls a' = al_used cls a - paged_cover a (set ix) \<and>
    ka_page_size a' = ka_page_size a \<and> ka_size a' = ka_size a"
proof (cases "cls = TokenAllocator")
  case True
  then have t: "token_inv a" "set ix \<subseteq> tok.used a" and c: "paged_cover a (set ix) = set ix"
    using inv ix by (simp_all add: al_inv_def al_used_def paged_cover_1)
  show ?thesis using tok.free_used [OF t(1) ix(1) t(2)] inv True c
    by (auto simp: al_free_eq al_inv_def al_used_def token_free_def)
next
  case False
  then have p: "paged_inv a" "paged_cover a (set ix) \<subseteq> pgd.used a" using inv ix by (simp_all add: al_inv_def al_used_def)
  obtain a' where a': "paged_free a ix = Inr a'" "paged_inv a'" "pgd.used a' = pgd.used a - paged_cover a (set ix)"
    using pgp.release_cover [OF p(1) ix(1) p(2)] by blast
  have "a' = paged_free_step a ix" using a'(1) by (auto simp: paged_free_def Let_def split: if_splits)
  then have "ka_num_pages a' = ka_num_pages a" "ka_page_size a' = ka_page_size a" "ka_size a' = ka_size a"
    "is_not_in_free_group a' = is_not_in_free_group a" "ka_need_sort a' = ka_need_sort a"
    "ka_need_sort a \<or> release_pages a' = release_pages a"
    by (simp_all add: paged_free_step_def Let_def)
  with a' False inv show ?thesis by (auto simp: al_free_eq al_inv_def al_used_def)
qed

interpretation al: page_pool "al_free cls" "al_used cls" paged_whole "al_inv cls" paged_cover for cls
proof
  fix a :: kv_alloc and ix :: "int list"
  assume a: "al_inv cls a" "distinct ix"
  have same: "paged_whole a' = paged_whole a" "paged_cover a' = paged_cover a" if "ka_page_size a' = ka_page_size a" for a'
    using that by (simp_all add: fun_eq_iff paged_whole_def paged_cover_def)
  show "\<exists>a'. al_free cls a ix = Inr a' \<and> al_inv cls a' \<and> al_used cls a' = al_used cls a - paged_cover a (set ix) \<and>
      paged_whole a' = paged_whole a \<and> paged_cover a' = paged_cover a" if "paged_cover a (set ix) \<subseteq> al_used cls a"
    using al_free_ok [OF a that] same by blast
  show "\<exists>a'. al_free cls a ix = Inr a' \<and> al_inv cls a' \<and> al_used cls a' = al_used cls a - set ix \<and> paged_whole a' = paged_whole a"
    if "set ix \<subseteq> al_used cls a" "paged_whole a (set ix)"
    using al_free_ok [OF a] that same pgp.cover_whole [OF that(2)] by metis
qed (fact pgp.whole_Un pgp.whole_empty pgp.cover_whole pgp.subset_cover pgp.cover_Un pgp.cover_le pgp.cover_disjoint)+

lemma al_available_le: "al_inv cls a \<Longrightarrow> al_available_size cls a \<le> ka_size a"
proof -
  assume inv: "al_inv cls a"
  let ?xs = "free_pages a @ release_pages a"
  show ?thesis
  proof (cases "cls = TokenAllocator")
    case True
    then have "distinct ?xs" "set ?xs \<subseteq> {1 .. int (ka_size a)}"
      using inv by (auto simp: al_inv_def token_inv_def token_slots_def token_univ_def)
    then have "length ?xs \<le> ka_size a"
      using card_mono [of "{1 .. int (ka_size a)}" "set ?xs"] distinct_card [of ?xs] by simp
    then show ?thesis using True by (simp add: token_available_size_def)
  next
    case False
    then have "distinct ?xs" "set ?xs \<subseteq> {1 .. int (ka_num_pages a)}" and le: "ka_num_pages a * ka_page_size a \<le> ka_size a"
      using inv by (auto simp: al_inv_def paged_inv_def paged_pages_def)
    then have "length ?xs \<le> ka_num_pages a"
      using card_mono [of "{1 .. int (ka_num_pages a)}" "set ?xs"] distinct_card [of ?xs] by simp
    then have "length ?xs * ka_page_size a \<le> ka_size a" using le mult_le_mono1 order_trans by blast
    moreover have "al_available_size cls a = base_available_size a" using False by (cases cls) simp_all
    ultimately show ?thesis by (simp add: base_available_size_def)
  qed
qed

section \<open>Eviction makes room\<close>

text \<open>
  An allocator outside a free group whose waiting pages are merged on demand: all its free
  slots can be handed out. \<open>N\<close> is its size, which no operation changes.
\<close>

definition token_ready :: "nat \<Rightarrow> kv_alloc \<Rightarrow> bool" where
  "token_ready N a \<longleftrightarrow>
     token_inv a \<and> ka_size a = N \<and> is_not_in_free_group a \<and> (ka_need_sort a \<or> release_pages a = [])"

lemma token_free_ready:
  "token_ready N a \<Longrightarrow> token_inv (token_free a ix) \<Longrightarrow> token_ready N (token_free a ix)"
  by (auto simp: token_ready_def token_free_def)

interpretation tkr: page_pool "al_free TokenAllocator" tok.used "\<lambda>_ _. True" "token_ready N" "\<lambda>_ S. S" for N
proof
  fix a :: kv_alloc and ix
  assume a: "token_ready N a" "distinct ix" "set ix \<subseteq> tok.used a"
  have "token_inv a" using a(1) by (simp add: token_ready_def)
  then show "\<exists>a'. al_free TokenAllocator a ix = Inr a' \<and> token_ready N a' \<and> tok.used a' = tok.used a - set ix \<and>
      (\<lambda>_. True) = (\<lambda>_. True) \<and> (\<lambda>S. S) = (\<lambda>S. S)"
    "\<exists>a'. al_free TokenAllocator a ix = Inr a' \<and> token_ready N a' \<and> tok.used a' = tok.used a - set ix \<and>
      (\<lambda>_. True) = (\<lambda>_. True)"
    using tok.free_used [of a ix] a token_free_ready [OF a(1), of ix] by simp_all
qed auto

lemma token_available_card:
  assumes "token_ready N a"
  shows "token_available_size a = card (token_slots a)" "finite (token_slots a)"
proof -
  have "pending a = []" "distinct (free_pages a @ release_pages a)"
    using assms by (auto simp: token_ready_def pending_def token_inv_def)
  then show "token_available_size a = card (token_slots a)"
    using distinct_card [of "free_pages a @ release_pages a"] by (simp add: token_available_size_def token_slots_def)
  show "finite (token_slots a)" by (simp add: token_slots_def)
qed

text \<open>What an eviction takes out of the tree becomes available.\<close>

lemma evict_available:
  assumes r: "token_ready N a" "token_ready N a'" and own: "O' \<subseteq> O1" "O1 \<subseteq> tok.used a"
    and u: "tok.used a' = tok.used a - (O1 - O')"
  shows "token_available_size a' = token_available_size a + card (O1 - O')"
proof -
  have univ: "token_univ a' = token_univ a" "token_slots a \<subseteq> token_univ a" "token_slots a' \<subseteq> token_univ a"
    using r by (auto simp: token_ready_def token_univ_def token_inv_def)
  have "token_slots a' = token_slots a \<union> (O1 - O')" "token_slots a \<inter> (O1 - O') = {}"
    using u own univ by (auto simp: tok.used_def)
  moreover have "finite O1" using own(2) finite_subset by (fastforce simp: tok.used_def token_univ_def)
  ultimately show ?thesis
    using token_available_card [OF r(1)] token_available_card [OF r(2)] by (simp add: card_Un_disjoint)
qed

lemma alloc_token_slots_ok:
  assumes s: "tkr.sound N c H a" and en: "\<not> rc_disable c" and ord: "\<And>xs. mset (order xs) = mset xs"
  shows "if num \<le> token_available_size a + nat (rc_evictable_size c)
    then (\<exists>ix st a' c'. alloc_token_slots TokenAllocator order num backup a (RadixTree c) = Inr ((ix, st), a', RadixTree c') \<and>
      length ix = num \<and> distinct ix \<and> set ix \<subseteq> tok.used a' - owned c' \<and> tkr.sound N c' H a' \<and>
      tok.used a' = tok.used a - (owned c - owned c') \<union> set ix \<and> set ix \<inter> (tok.used a - (owned c - owned c')) = {} \<and>
      (\<forall>h u w. h \<in># H \<longrightarrow> reaches c h u w \<longrightarrow> reaches c' h u w))
    else alloc_token_slots TokenAllocator order num backup a (RadixTree c) = Inl RuntimeError"
proof -
  have r: "token_ready N a" using s by (simp add: tkr.sound_def)
  have own: "owned c \<subseteq> tok.used a" by (rule tkr.sound_owned [OF s])
  obtain a1 c1 where e: "evict_from_tree_cache TokenAllocator order num a (RadixTree c) = Inr (a1, RadixTree c1)"
    "tkr.sound N c1 H a1" "owned c1 \<subseteq> owned c" "tok.used a1 = tok.used a - (owned c - owned c1)"
    "\<forall>h u w. h \<in># H \<longrightarrow> reaches c h u w \<longrightarrow> reaches c1 h u w"
    "num \<le> token_available_size a1 \<longleftrightarrow> num \<le> token_available_size a + nat (rc_evictable_size c)"
  proof (cases "token_available_size a < num")
    case True
    obtain k a1 c1 where v: "evict (al_free TokenAllocator) order num a c = Inr (k, a1, c1)" "tkr.sound N c1 H a1"
      "owned c1 \<subseteq> owned c" "tok.used a1 = tok.used a - (owned c - owned c1)"
      "\<forall>h u w. h \<in># H \<longrightarrow> reaches c h u w \<longrightarrow> reaches c1 h u w" "int k = rc_evictable_size c - rc_evictable_size c1"
      "min (int num) (rc_evictable_size c) \<le> int k" "k = card (owned c - owned c1)"
      using tkr.sound_evict [OF s en ord, of num] by (elim exE conjE) (rule that)
    have "token_ready N a1" using v(2) by (simp add: tkr.sound_def)
    then have "token_available_size a1 = token_available_size a + k"
      using evict_available [OF r _ v(3) own v(4)] v(8) by simp
    moreover have "0 \<le> rc_evictable_size c1" using v(2) evictable_nonneg by (auto simp: tkr.sound_def)
    ultimately have "num \<le> token_available_size a1 \<longleftrightarrow> num \<le> token_available_size a + nat (rc_evictable_size c)"
      using v(6,7) by linarith
    then show ?thesis using True v by (intro that [of a1 c1]) (auto simp: evict_from_tree_cache_def)
  next
    case False
    then show ?thesis using s by (intro that [of a c]) (auto simp: evict_from_tree_cache_def)
  qed
  have r1: "token_ready N a1" using e(2) by (simp add: tkr.sound_def)
  have none: "fst (token_alloc a1 num) = None \<longleftrightarrow> token_available_size a1 < num"
    using r1 by (intro token_alloc_None_iff) (auto simp: token_ready_def)
  show ?thesis
  proof (cases "num \<le> token_available_size a1")
    case True
    then obtain ix a2 where al: "token_alloc a1 num = (Some ix, a2)" using none by (cases "token_alloc a1 num") auto
    have inv1: "token_inv a1" using r1 by (simp add: token_ready_def)
    have u: "tok.used a2 = tok.used a1 \<union> set ix" "set ix \<inter> tok.used a1 = {}" "distinct ix" "token_inv a2"
      using tok.alloc_used [OF inv1 al] by simp_all
    have "length ix = num" using al by (auto simp: token_alloc_def Let_def split: if_splits)
    moreover have "token_ready N a2"
      using r1 u(4) al by (auto simp: token_ready_def token_alloc_def merge_if_short_def merge_and_sort_free_def Let_def split: if_splits)
    moreover have o1: "owned c1 \<subseteq> tok.used a1" by (rule tkr.sound_owned [OF e(2)])
    moreover have "placed (rc_page_size c1) (tok.used a2) (\<lambda>_. True) (cached c1)"
      using e(2) u(1) by (auto simp: tkr.sound_def placed_def)
    ultimately have "tkr.sound N c1 H a2" using e(2) by (simp add: tkr.sound_def)
    then show ?thesis using True e u al o1 \<open>length ix = num\<close>
      by (auto simp: alloc_token_slots_def)
  next
    case False
    then have "fst (token_alloc a1 num) = None" using none by simp
    then obtain a2 where "token_alloc a1 num = (None, a2)" by (cases "token_alloc a1 num") auto
    then show ?thesis using False e by (simp add: alloc_token_slots_def)
  qed
qed

section \<open>Releasing a request leaves nothing behind\<close>

lemma ceil_align_ge: "0 < ps \<Longrightarrow> n \<le> ceil_align n ps"
  by (simp add: ceil_align_def ceil_div_mult_ge)

lemma ceil_align_dvd [simp]: "ps dvd ceil_align n ps"
  by (simp add: ceil_align_def)

lemma ceil_align_page:
  assumes "0 < ps" "n \<le> j" "j < ceil_align n ps"
  shows "0 < n" "(n - 1) div ps = j div ps"
proof -
  show n: "0 < n" using assms by (cases n) (auto simp: ceil_align_def ceil_div_def)
  have c: "ceil_align n ps = ((n - 1) div ps + 1) * ps"
    using n assms(1) ceil_div_Suc [of ps "n - 1"] by (simp add: ceil_align_def)
  have "(n - 1) div ps \<le> j div ps" using assms(2) by (intro div_le_mono) simp
  moreover have "j div ps < (n - 1) div ps + 1" using assms(1,3) c by (simp add: div_less_iff_less_mult)
  ultimately show "(n - 1) div ps = j div ps" by simp
qed

context page_pool
begin

lemma exclusive_take:
  assumes "exclusive c a p kv"
  shows "exclusive c a p (take n kv)"
proof -
  have sub: "set (drop p (take n kv)) \<subseteq> set (drop p kv)" by (simp add: drop_take set_take_subset)
  have "cover a (set (drop p (take n kv))) \<subseteq> cover a (set (drop p kv))"
    using sub subset_cover by (intro cover_le) blast
  moreover have "distinct (drop p (take n kv))" using assms by (simp add: exclusive_def drop_take)
  moreover have "page_blocks (rc_page_size c) (whole a) p (take n kv)"
    using assms by (auto simp: exclusive_def page_blocks_def slice_eq_drop_take min_absorb1)
  ultimately show ?thesis using assms by (auto simp: exclusive_def)
qed

text \<open>Positions of one page of the row lie on one page of the allocator.\<close>

definition same_page :: "'al \<Rightarrow> nat \<Rightarrow> nat \<Rightarrow> int list \<Rightarrow> bool" where
  "same_page a ps p kv \<longleftrightarrow>
     (\<forall>i j. p \<le> i \<longrightarrow> i \<le> j \<longrightarrow> j < length kv \<longrightarrow> i div ps = j div ps \<longrightarrow> kv ! j \<in> cover a {kv ! i})"

lemma same_page_cover:
  assumes sp: "same_page a ps p kv" and ps: "0 < ps" and n: "p \<le> n" "n \<le> length kv" "ps dvd p"
  shows "set (slice p (ceil_align n ps) kv) \<subseteq> cover a (set (drop p (take n kv)))"
proof
  fix x assume "x \<in> set (slice p (ceil_align n ps) kv)"
  then have "\<exists>j. p \<le> j \<and> j < ceil_align n ps \<and> j < length kv \<and> x = kv ! j"
    by (auto simp: slice_def in_set_conv_nth) (metis add.commute le_add1 less_diff_conv2 nat_le_linear add_less_le_mono less_diff_conv)
  then obtain j where j: "p \<le> j" "j < ceil_align n ps" "j < length kv" "x = kv ! j" by blast
  have mem: "kv ! i \<in> set (drop p (take n kv))" if "p \<le> i" "i < n" for i
    using that n(2) nth_mem [of "i - p" "drop p (take n kv)"] by (simp add: diff_less_mono)
  show "x \<in> cover a (set (drop p (take n kv)))"
  proof (cases "j < n")
    case True
    then show ?thesis using mem j subset_cover by blast
  next
    case False
    then have c: "0 < n" "(n - 1) div ps = j div ps" using ceil_align_page [OF ps _ j(2)] by simp_all
    have "p \<noteq> n"
    proof
      assume "p = n"
      then have "ceil_align n ps = n"
        using n(3) ps by (simp add: ceil_align_def ceil_div_alt)
      then show False using False j(2) by simp
    qed
    then have p: "p \<le> n - 1" "n - 1 < n" using n(1) c(1) by linarith+
    have "kv ! j \<in> cover a {kv ! (n - 1)}" using sp p(1) j(3) c False unfolding same_page_def by simp
    moreover have "{kv ! (n - 1)} \<subseteq> cover a (set (drop p (take n kv)))" using mem [OF p] subset_cover by blast
    ultimately show ?thesis using cover_le j(4) by blast
  qed
qed

text \<open>
  The slots behind the first \<open>n\<close>, from the next page on, are freed after the first \<open>n\<close>: together
  everything but the set \<open>N\<close> the tree took is free.
\<close>

lemma release_over:
  assumes s: "sound c1 H' a1" and ps: "0 < rc_page_size c" and p: "rc_page_size c dvd p" "p \<le> n" "n \<le> length full"
    and ex: "exclusive c a p full" "same_page a (rc_page_size c) p full"
    and N: "owned c1 = owned c \<union> N" "N \<subseteq> set (drop p (take n full))"
    and a1: "used a1 = used a - (cover a (set (drop p (take n full))) - N)" "cover a1 = cover a"
  defines "e \<equiv> ceil_align n (rc_page_size c)"
  shows "\<exists>a2. (if e < length full then release a1 (drop e full) else Inr a1) = Inr a2 \<and> sound c1 H' a2 \<and>
    used a2 = used a - (cover a (set (drop p full)) - N) \<and> whole a2 = whole a1 \<and> cover a2 = cover a1"
proof -
  let ?kv = "take n full"
  have sub: "set (slice p e full) \<subseteq> cover a (set (drop p ?kv))"
    unfolding e_def using p(3) by (intro same_page_cover [OF ex(2) ps p(2) _ p(1)]) simp
  have ne: "n \<le> e" using ceil_align_ge [OF ps, of n] by (simp add: e_def)
  show ?thesis
  proof (cases "e < length full")
    case True
    have pe: "p \<le> e" "rc_page_size c dvd e" "e \<le> length full" using p(2) ne True by (simp_all add: e_def)
    note E = exclusive_slice [OF ex(1) p(1) pe(2,1,3) ps]
    have "cover a (set (slice p e full)) = set (slice p e full)" by (rule cover_whole [OF E(1)])
    moreover have "set (drop p ?kv) \<subseteq> set (slice p e full)"
      unfolding slice_eq_drop_take drop_take using ne by (intro set_take_subset_set_take) simp
    ultimately have eq: "cover a (set (drop p ?kv)) = set (slice p e full)"
      using sub cover_le [of "set (drop p ?kv)" a "set (slice p e full)"] by auto
    have d: "distinct (drop e full)" "cover a (set (drop e full)) \<subseteq> used a - owned c"
      using E(7) by (simp_all add: exclusive_def)
    have "cover a1 (set (drop e full)) \<subseteq> used a1" using d(2) E(5) a1 eq by auto
    then obtain a2 where a2: "release a1 (drop e full) = Inr a2" "inv a2" "used a2 = used a1 - cover a (set (drop e full))"
      "whole a2 = whole a1" "cover a2 = cover a1"
      using release_cover [OF _ d(1), of a1] s a1(2) by (auto simp: sound_def)
    have N': "N \<inter> cover a (set (drop e full)) = {}" using N(2) E(5) eq subset_cover [of "set (drop p ?kv)" a] by blast
    then have "cover a (set (drop e full)) \<inter> owned c1 = {}" using d(2) N(1) by auto
    then have "sound c1 H' a2" using sound_release [OF s a2(2,3,4)] by simp
    moreover have "used a2 = used a - (cover a (set (drop p full)) - N)" using a2(3) a1(1) E(6) eq N' by auto
    ultimately show ?thesis using True a2(1,4,5) by auto
  next
    case False
    then have "slice p e full = drop p full" by (simp add: slice_def)
    moreover have "set (drop p ?kv) \<subseteq> set (drop p full)" by (simp add: drop_take set_take_subset)
    ultimately have "cover a (set (drop p full)) = cover a (set (drop p ?kv))"
      using sub cover_le [of "set (drop p full)" a "set (drop p ?kv)"]
        cover_le [of "set (drop p ?kv)" a "set (drop p full)"] subset_cover [of "set (drop p full)" a] by auto
    then show ?thesis using False s a1(1) by auto
  qed
qed

lemma release_req_ok:
  assumes s: "sound c H a" and en: "\<not> rc_disable c" and live: "\<not> kv_committed_freed r" "\<not> kv_overallocated_freed r"
    and i: "req_pool_idx r = Some i" "i < length (req_to_token pool)" "rows_inv pool (i # others)"
    and full: "full = take (kv_allocated_len r) (req_to_token pool ! i)" "length full = kv_allocated_len r"
    and n: "n = cache_commit_len (strip_thinking_cache sa) r" "n \<le> kv_allocated_len r" "n \<le> seqlen r"
    and toks: "toks = take n (origin_input_ids r @ output_ids r)"
    and ps: "sa_page_size sa = rc_page_size c"
    and p: "rc_page_size c dvd cache_protected_len r" "cache_protected_len r \<le> rk_len (cache_key c r toks)"
      "(take (cache_protected_len r) (tunits (cache_key c r toks)), w0) \<in> cached c"
    and ex: "exclusive c a (cache_protected_len r) full" "same_page a (rc_page_size c) (cache_protected_len r) full"
    and last: "set_option (last_node r) \<subseteq> set_mset H"
    and over: "speculative_algorithm sa = None \<Longrightarrow> \<not> strip_thinking_cache sa \<Longrightarrow> n = kv_allocated_len r"
  shows "\<exists>r' pool' a' c' N.
    release_kv_cache (\<lambda>ins r a c. cache_finished_req release (strip_thinking_cache sa) pool ins r a c) release sa ins r pool a c =
      Inr (r', pool', a', c') \<and> req_pool_idx r' = None \<and> rows_inv pool' others \<and>
    sound c' (case last_node r of None \<Rightarrow> H | Some m \<Rightarrow> H - {#m#}) a' \<and> owned c' = owned c \<union> N \<and>
    N \<subseteq> set (drop (cache_protected_len r) full) \<and>
    used a' = used a - (cover a (set (drop (cache_protected_len r) full)) - N) \<and> cached c \<subseteq> cached c' \<and>
    r' = r\<lparr>kv_committed_freed := True, kv_overallocated_freed := True, req_pool_idx := None\<rparr> \<and>
    req_to_token pool' = req_to_token pool \<and> conf c' = conf c \<and> whole a' = whole a \<and> cover a' = cover a \<and>
    (\<not> ins \<longrightarrow> N = {} \<and> (\<forall>k u w. reaches c k u w \<longrightarrow> reaches c' k u w))"
proof -
  let ?p = "cache_protected_len r" and ?ps = "rc_page_size c" and ?strip = "strip_thinking_cache sa"
  let ?kv = "take n full" and ?r = "r\<lparr>kv_committed_freed := True\<rparr>"
  let ?e = "if 1 < sa_page_size sa then ceil_align n (sa_page_size sa) else n"
  have ps0: "0 < ?ps" using s cache_inv_ps by (auto simp: sound_def)
  have lt: "length toks = n" using n(3) toks by (simp add: seqlen_def)
  have row: "req_row pool r (length toks) = Inr ?kv" "length ?kv = length toks"
    using i full n(2) lt by (simp_all add: req_row_def min_absorb1)
  have pn: "?p \<le> n" using p(2) rk_len_cache_key_le [of c r toks] lt by linarith
  obtain a1 c1 N where f: "cache_finished_req release ?strip pool (ins \<and> \<not> skip_radix_cache_insert r) r a c = Inr (?r, a1, c1)"
    "sound c1 (case last_node r of None \<Rightarrow> H | Some m \<Rightarrow> H - {#m#}) a1" "owned c1 = owned c \<union> N" "N \<subseteq> set (drop ?p ?kv)"
    "used a1 = used a - (cover a (set (drop ?p ?kv)) - N)" "cached c \<subseteq> cached c1" "whole a1 = whole a" "cover a1 = cover a" "conf c1 = conf c"
    "\<not> (ins \<and> \<not> skip_radix_cache_insert r) \<or> disable_finished_insert c \<longrightarrow> N = {}"
    "\<not> (ins \<and> \<not> skip_radix_cache_insert r) \<longrightarrow> (\<forall>k u w. reaches c k u w \<longrightarrow> reaches c1 k u w)"
    using finish_ok [OF s en live(1) toks [unfolded n(1)] row p exclusive_take [OF ex(1)] last,
      of "ins \<and> \<not> skip_radix_cache_insert r"] by (elim exE conjE) (rule that)
  have e: "?e = ceil_align n ?ps" using ps ps0 by (cases "?ps = 1") (auto simp: ceil_align_def ceil_div_def)
  obtain a2 where a2: "(if ?e < kv_allocated_len r then rbind (Inr full) (\<lambda>row. release a1 (drop ?e row)) else Inr a1) = Inr a2"
    "sound c1 (case last_node r of None \<Rightarrow> H | Some m \<Rightarrow> H - {#m#}) a2"
    "used a2 = used a - (cover a (set (drop ?p full)) - N)" "whole a2 = whole a1" "cover a2 = cover a1"
    using release_over [OF f(2) ps0 p(1) pn n(2) [folded full(2)] ex f(3-5,8)] unfolding e rbind_simps full(2) by blast
  let ?r2 = "?r\<lparr>kv_overallocated_freed := True\<rparr>"
  have pop: "pop_overallocated_kv_cache ?strip ?r = Inr ((n, kv_allocated_len r), ?r2)"
    using live(2) n(1) by (simp add: pop_overallocated_kv_cache_def cache_commit_len_def py_assert_def Let_def)
  have rr: "req_row pool ?r2 (kv_allocated_len r) = Inr full" using i full by (simp add: req_row_def)
  obtain pool' where fr: "rp_free pool ?r2 = Inr (?r2\<lparr>req_pool_idx := None\<rparr>, pool')" "rows_inv pool' others"
    "req_to_token pool' = req_to_token pool"
    using rp_free_ok [OF i(3), of ?r2] i(1) by (auto simp: rp_free_def)
  have idx: "req_pool_idx r \<noteq> None" "req_pool_idx ?r \<noteq> None" using i(1) by simp_all
  have as: "py_assert (speculative_algorithm sa = None \<and> \<not> ?strip \<longrightarrow> n = kv_allocated_len r) = Inr ()"
    using over by (simp add: py_assert_def)
  have "release_kv_cache (\<lambda>ins r a c. cache_finished_req release ?strip pool ins r a c) release sa ins r pool a c =
      Inr (?r2\<lparr>req_pool_idx := None\<rparr>, pool', a2, c1)"
    unfolding release_kv_cache_def if_not_P [OF idx(1)] f(1) rbind_simps prod.case if_not_P [OF idx(2)] pop Let_def as rr a2(1) fr(1)
    using a2(1) by (simp split: if_splits)
  moreover have "N \<subseteq> set (drop ?p full)" using f(4) by (auto simp: drop_take dest: in_set_takeD)
  ultimately show ?thesis using fr(2,3) a2(2-5) f(3,6-11)
    by (intro exI [of _ "?r2\<lparr>req_pool_idx := None\<rparr>"] exI [of _ pool'] exI [of _ a2] exI [of _ c1] exI [of _ N]) simp
qed

end

lemma al_sound_token: "al.sound TokenAllocator c H a \<Longrightarrow> tkr.sound (ka_size a) c H a"
  by (auto simp: al.sound_def tkr.sound_def al_inv_def al_used_def token_ready_def placed_def page_blocks_def)

end
