(* ===== verification/Prefill_Adder.thy ===== *)
theory Prefill_Adder
  imports Complex_Main Cache_Common "HOL-Library.Product_Lexorder"
begin

text \<open>
  Admission of requests to a prefill batch: class \<^verbatim>\<open>PrefillAdder\<close> of
  \<^verbatim>\<open>managers/schedule_policy.py\<close>. The adder keeps the token budgets of one scheduling pass; it
  asks the tree cache and the allocator for their free and evictable sizes and locks the matched
  path of every request it admits. Both are an argument of the model, a record of operations on
  a state \<open>'st\<close>; theory \<open>Admission\<close> instantiates it with the radix cache. Floating-point
  estimates are rational numbers here.
\<close>

section \<open>Requests and the environment\<close>

text \<open>What the scheduler adds to the fields of a request. \<open>rid\<close> stands for the identity of the object.\<close>

record sched_req = req +
  rid :: nat
  max_new_tokens :: int
  ignore_eos :: bool
  host_hit_length :: nat
  swa_host_hit_length :: nat
  mamba_host_hit_length :: nat
  mamba_pool_idx :: "nat option"
  extend_range_start :: nat
  retracted_stain :: bool
  wait_queue_entry_time :: rat
  req_finished :: bool
  num_matched_prefix_tokens :: nat
  routing_key :: "string option"

definition set_extend_range :: "nat \<Rightarrow> nat \<Rightarrow> sched_req \<Rightarrow> sched_req" where
  "set_extend_range s e r = r\<lparr>extend_range_start := s, extend_range_end := e\<rparr>"

definition extend_len :: "sched_req \<Rightarrow> int" where
  "extend_len r = int (extend_range_end r) - int (extend_range_start r)"

definition needs_host_load_back :: "sched_req \<Rightarrow> bool" where
  "needs_host_load_back r \<longleftrightarrow> 0 < host_hit_length r \<or> 0 < swa_host_hit_length r \<or> 0 < mamba_host_hit_length r"

text \<open>Sizes that the allocator (available) and the tree cache (evictable) report.\<close>

record pool_sizes =
  sz_available :: int
  sz_full_available :: int
  sz_swa_available :: int
  sz_evictable :: int
  sz_full_evictable :: int
  sz_swa_evictable :: int

record 'st cache_ops =
  co_sizes :: "'st \<Rightarrow> pool_sizes"
  co_inc_lock :: "nat option \<Rightarrow> 'st \<Rightarrow> 'st result"
  co_dec_lock :: "nat option \<Rightarrow> 'st \<Rightarrow> 'st result"
  co_load_back :: "sched_req \<Rightarrow> 'st \<Rightarrow> (int list \<times> nat option \<times> 'st) result"
  co_disabled :: bool

section \<open>The adder\<close>

datatype add_req_result = CONTINUE | NO_TOKEN | OTHER

record adder =
  pa_page_size :: nat
  clip_max_new_tokens :: int
  new_token_ratio :: rat
  rem_input_tokens :: int
  rem_chunk_tokens :: "int option"
  dllm_block_size :: "int option"
  rem_dllm_tokens :: int
  rem_total_token_offset :: rat
  cur_rem_token_offset :: int
  rem_swa_token_offset :: int
  is_hybrid_swa :: bool
  is_all_swa :: bool
  is_hybrid_ssm_cache :: bool
  sliding_window_size :: int
  mamba_slot_cost :: int
  rem_mamba_slots :: "int option"
  req_states :: "(rat \<times> int) list option"
  can_run_list :: "sched_req list"
  preempt_list :: "sched_req list"
  new_chunked_req :: "sched_req option"
  log_hit_tokens :: int
  reprocessed_log_hit_tokens :: int
  log_input_tokens :: int
  reprocessed_log_input_tokens :: int
  running_batch :: "sched_req list option"
  preemption_threshold :: int
  dsa_prefill_cp_in_seq_split :: bool
  prefill_max_requests :: "nat option"
  delayer_allows :: "bool option"

definition get_running_request_total_token_offset :: "adder \<Rightarrow> sched_req \<Rightarrow> rat" where
  "get_running_request_total_token_offset ad r =
     of_int (min (max_new_tokens r - int (length (output_ids r))) (clip_max_new_tokens ad)) * new_token_ratio ad"

text \<open>
  The constructor, from the fields that are given and the budgets it derives. The configuration of
  a diffusion model is its block size and the number of requests it may run.
\<close>

definition init_dllm_meta :: "int \<Rightarrow> int \<Rightarrow> adder \<Rightarrow> adder" where
  "init_dllm_meta block max_running_reqs ad =
     ad\<lparr>dllm_block_size := Some block, rem_dllm_tokens := max_running_reqs * block\<rparr>"

definition adder_init :: "(int \<times> int) option \<Rightarrow> int \<Rightarrow> adder \<Rightarrow> adder" where
  "adder_init dllm_config num_mixed_decode_tokens ad =
     (case dllm_config of None \<Rightarrow> ad\<lparr>dllm_block_size := None\<rparr>
      | Some (block, max_running_reqs) \<Rightarrow> init_dllm_meta block max_running_reqs ad)
       \<lparr>rem_input_tokens := rem_input_tokens ad - num_mixed_decode_tokens,
        rem_chunk_tokens := map_option (\<lambda>n. n - num_mixed_decode_tokens) (rem_chunk_tokens ad),
        rem_total_token_offset := of_int num_mixed_decode_tokens +
          (case running_batch ad of None \<Rightarrow> 0
           | Some rs \<Rightarrow> sum_list (map (get_running_request_total_token_offset ad) rs)),
        cur_rem_token_offset := num_mixed_decode_tokens, rem_swa_token_offset := 0,
        req_states := None, can_run_list := [], preempt_list := [], new_chunked_req := None,
        log_hit_tokens := 0, reprocessed_log_hit_tokens := 0,
        log_input_tokens := 0, reprocessed_log_input_tokens := 0\<rparr>"

definition available_and_evictable :: "adder \<Rightarrow> pool_sizes \<Rightarrow> int" where
  "available_and_evictable ad z =
     (if is_all_swa ad then sz_swa_available z + sz_swa_evictable z
      else if is_hybrid_swa ad then sz_full_available z + sz_full_evictable z
      else if is_hybrid_ssm_cache ad then sz_available z + sz_full_evictable z
      else sz_available z + sz_evictable z)"

definition rem_total_tokens :: "'st cache_ops \<Rightarrow> 'st \<Rightarrow> adder \<Rightarrow> rat" where
  "rem_total_tokens ops st ad = of_int (available_and_evictable ad (co_sizes ops st)) - rem_total_token_offset ad"

definition rem_swa_tokens :: "'st cache_ops \<Rightarrow> 'st \<Rightarrow> adder \<Rightarrow> int" where
  "rem_swa_tokens ops st ad =
     sz_swa_available (co_sizes ops st) + sz_swa_evictable (co_sizes ops st) - rem_swa_token_offset ad"

definition cur_rem_tokens :: "'st cache_ops \<Rightarrow> 'st \<Rightarrow> adder \<Rightarrow> int" where
  "cur_rem_tokens ops st ad = available_and_evictable ad (co_sizes ops st) - cur_rem_token_offset ad"

definition ceil_paged_tokens :: "adder \<Rightarrow> int \<Rightarrow> int" where
  "ceil_paged_tokens ad tokens = - ((- tokens) div int (pa_page_size ad)) * int (pa_page_size ad)"

definition swa_budget_for_req :: "adder \<Rightarrow> int \<Rightarrow> nat \<Rightarrow> int" where
  "swa_budget_for_req ad extend_input_len swa_host_hit =
     (let alloc = (case rem_chunk_tokens ad of Some c \<Rightarrow> min extend_input_len c | None \<Rightarrow> extend_input_len);
          budget = max alloc (sliding_window_size ad) + int (pa_page_size ad)
      in if 0 < swa_host_hit then budget + ceil_paged_tokens ad (int swa_host_hit) else budget)"

definition mamba_gap_budget_for_req :: "adder \<Rightarrow> sched_req \<Rightarrow> int" where
  "mamba_gap_budget_for_req ad r =
     (if mamba_slot_cost ad \<noteq> 0 \<and> mamba_pool_idx r = None then mamba_slot_cost ad else 0)"

definition budget_state :: "'st cache_ops \<Rightarrow> 'st \<Rightarrow> adder \<Rightarrow> add_req_result" where
  "budget_state ops st ad =
     (if rem_total_tokens ops st ad \<le> 0 \<or> cur_rem_tokens ops st ad \<le> 0 \<or>
         (is_hybrid_swa ad \<and> rem_swa_tokens ops st ad \<le> 0) \<or>
         (case rem_mamba_slots ad of None \<Rightarrow> False | Some n \<Rightarrow> n \<le> 0) then NO_TOKEN
      else if rem_input_tokens ad \<le> 0 then OTHER
      else if dllm_block_size ad \<noteq> None then (if rem_dllm_tokens ad \<le> 0 then OTHER else CONTINUE)
      else (case rem_chunk_tokens ad of
              Some c \<Rightarrow> if c \<le> 0 then OTHER else CONTINUE
            | None \<Rightarrow> CONTINUE))"

definition update_prefill_budget :: "int \<Rightarrow> int \<Rightarrow> int \<Rightarrow> bool \<Rightarrow> int \<Rightarrow> adder \<Rightarrow> adder" where
  "update_prefill_budget prefix_len extend_input_len0 max_new retracted mamba_gap_reserve ad =
     (let extend_input_len = ceil_paged_tokens ad extend_input_len0;
          page_overhead = int (pa_page_size ad)
      in ad\<lparr>rem_total_token_offset := rem_total_token_offset ad +
              of_int (extend_input_len + max_new + page_overhead + mamba_gap_reserve),
            cur_rem_token_offset := cur_rem_token_offset ad + (extend_input_len + page_overhead + mamba_gap_reserve),
            rem_mamba_slots := (if mamba_gap_reserve \<noteq> 0 then map_option (\<lambda>n. n - 1) (rem_mamba_slots ad)
                                else rem_mamba_slots ad),
            rem_input_tokens := rem_input_tokens ad - extend_input_len,
            rem_swa_token_offset := (if is_hybrid_swa ad
              then rem_swa_token_offset ad + swa_budget_for_req ad extend_input_len 0 else rem_swa_token_offset ad),
            rem_dllm_tokens := (if dllm_block_size ad \<noteq> None then rem_dllm_tokens ad - extend_input_len
              else rem_dllm_tokens ad),
            rem_chunk_tokens := (if dllm_block_size ad \<noteq> None then rem_chunk_tokens ad
              else map_option (\<lambda>c. c - extend_input_len) (rem_chunk_tokens ad)),
            log_hit_tokens := log_hit_tokens ad + prefix_len,
            log_input_tokens := log_input_tokens ad + extend_input_len,
            reprocessed_log_hit_tokens := reprocessed_log_hit_tokens ad + (if retracted then prefix_len else 0),
            reprocessed_log_input_tokens := reprocessed_log_input_tokens ad + (if retracted then extend_input_len else 0)\<rparr>)"

text \<open>\<^verbatim>\<open>int(x)\<close> of a number cuts towards zero.\<close>

definition py_int :: "rat \<Rightarrow> int" where
  "py_int x = (if 0 \<le> x then \<lfloor>x\<rfloor> else \<lceil>x\<rceil>)"

definition get_dllm_remain_tokens :: "'st cache_ops \<Rightarrow> 'st \<Rightarrow> int \<Rightarrow> adder \<Rightarrow> int" where
  "get_dllm_remain_tokens ops st block ad =
     (let rem = min (min (rem_dllm_tokens ad) block) (py_int (rem_total_tokens ops st ad))
      in if rem \<le> 0 then rem_dllm_tokens ad else rem)"

definition admit :: "sched_req \<Rightarrow> int \<Rightarrow> int \<Rightarrow> int \<Rightarrow> adder \<Rightarrow> adder" where
  "admit r prefix_len ext max_new ad =
     update_prefill_budget prefix_len ext max_new (retracted_stain r) (mamba_gap_budget_for_req ad r)
       (ad\<lparr>can_run_list := can_run_list ad @ [r]\<rparr>)"

definition add_dllm_req :: "sched_req \<Rightarrow> nat \<Rightarrow> int \<Rightarrow> adder \<Rightarrow> sched_req \<times> adder" where
  "add_dllm_req r prefix_len block ad =
     (let trunc_len = min (rem_dllm_tokens ad) block div int (pa_page_size ad) * int (pa_page_size ad);
          r' = set_extend_range prefix_len (nat (int prefix_len + trunc_len)) r
      in (r', admit r' (int prefix_len) trunc_len 0 ad))"

definition cand_extend_input_len :: "sched_req \<Rightarrow> int" where
  "cand_extend_input_len r = int (length (full_untruncated_fill_ids r)) - int (length (prefix_indices r))"

definition add_dllm_staging_req ::
  "'st cache_ops \<Rightarrow> 'st \<Rightarrow> sched_req \<Rightarrow> adder \<Rightarrow> (add_req_result \<times> sched_req \<times> adder) result" where
  "add_dllm_staging_req ops st r ad =
     (case dllm_block_size ad of
        None \<Rightarrow> Inl AssertionError
      | Some block \<Rightarrow>
          let rem = get_dllm_remain_tokens ops st block ad in
          if rem \<le> 0 then Inr (NO_TOKEN, r, ad)
          else
            let cand = cand_extend_input_len r;
                truncated = cand > rem;
                new_len = min cand rem;
                plen = length (prefix_indices r);
                r' = set_extend_range plen (nat (int plen + new_len)) r;
                max_new = (if \<not> truncated then min (max_new_tokens r) (clip_max_new_tokens ad) else 0);
                ad' = admit r' 0 (extend_len r') max_new ad
            in Inr (if get_dllm_remain_tokens ops st block ad' \<le> 0 then NO_TOKEN else CONTINUE, r', ad'))"

text \<open>
  The chunked request of the previous pass. The first component tells whether it is still
  unfinished (the code returns the request or none).
\<close>

definition add_chunked_req ::
  "'st cache_ops \<Rightarrow> 'st \<Rightarrow> sched_req \<Rightarrow> adder \<Rightarrow> (bool \<times> sched_req \<times> adder) result" where
  "add_chunked_req ops st r ad =
     rbind (case dllm_block_size ad of
              Some block \<Rightarrow> Inr (Some (get_dllm_remain_tokens ops st block ad))
            | None \<Rightarrow>
                (case rem_chunk_tokens ad of
                   None \<Rightarrow> Inl TypeError
                 | Some chunk \<Rightarrow>
                     let rem0 = min chunk (py_int (rem_total_tokens ops st ad));
                         rem = (if is_hybrid_swa ad then min rem0 (rem_swa_tokens ops st ad - int (pa_page_size ad)) else rem0)
                     in if rem \<le> 0 then (if is_hybrid_swa ad then Inr None else Inr (Some chunk))
                        else Inr (Some rem))) (\<lambda>out.
     case out of
       None \<Rightarrow> Inr (True, r, ad)
     | Some rem \<Rightarrow>
         let cand = cand_extend_input_len r;
             truncated = cand > rem;
             new_len = min cand rem;
             plen = length (prefix_indices r);
             r' = set_extend_range plen (nat (int plen + new_len)) r
         in Inr (truncated, r',
              admit r' 0 (extend_len r') (if \<not> truncated then min (max_new_tokens r) (clip_max_new_tokens ad) else 0) ad))"

section \<open>Requests that ignore the end of sequence\<close>

text \<open>
  The position at which a new state is put into the sorted list: the index the loop variable has
  when the loop ends, which is the last index also when every element is smaller.
\<close>

fun first_not_less :: "rat \<Rightarrow> (rat \<times> int) list \<Rightarrow> nat \<Rightarrow> nat" where
  "first_not_less t [] i = i - 1"
| "first_not_less t (x # xs) i = (if t \<le> fst x then i else first_not_less t xs (Suc i))"

definition req_state :: "adder \<Rightarrow> sched_req \<Rightarrow> rat \<times> int" where
  "req_state ad r =
     (of_int (max_new_tokens r) * (if ignore_eos r then 1 else new_token_ratio ad) - of_nat (length (output_ids r)),
      int (length (origin_input_ids r)) + int (length (output_ids r)))"

definition add_req_state :: "bool \<Rightarrow> adder \<Rightarrow> sched_req \<Rightarrow> (rat \<times> int) list \<Rightarrow> (rat \<times> int) list" where
  "add_req_state insert_sort ad r states =
     (let (tokens_left, tokens_occupied) = req_state ad r in
      if tokens_left \<le> 0 then states
      else if \<not> insert_sort then states @ [(tokens_left, tokens_occupied)]
      else let i = first_not_less tokens_left states 0
           in take i states @ (tokens_left, tokens_occupied) # drop i states)"

definition next_req_states :: "adder \<Rightarrow> sched_req \<Rightarrow> (rat \<times> int) list" where
  "next_req_states ad r =
     (case req_states ad of
        None \<Rightarrow>
          sort_key fst (fold (add_req_state False ad)
            (r # (case running_batch ad of None \<Rightarrow> [] | Some rs \<Rightarrow> rs) @ can_run_list ad) [])
      | Some states \<Rightarrow> add_req_state True ad r states)"

definition IGNORE_EOS_RESERVE_TOKENS :: rat where
  "IGNORE_EOS_RESERVE_TOKENS = 1"

text \<open>Whether some future step would run out of tokens when all requests run to their limits.\<close>

fun runs_out :: "int \<Rightarrow> int \<Rightarrow> (rat \<times> int) list \<Rightarrow> bool" where
  "runs_out cur_rem tokens_freed [] = False"
| "runs_out cur_rem tokens_freed ((tokens_left, tokens_occupied) # xs) =
     (let bs = of_nat (length ((tokens_left, tokens_occupied) # xs));
          min_free_tokens = of_int (cur_rem + tokens_freed) - tokens_left * bs
      in min_free_tokens \<le> IGNORE_EOS_RESERVE_TOKENS * bs \<or> runs_out cur_rem (tokens_freed + tokens_occupied) xs)"

definition add_one_req_ignore_eos ::
  "'st cache_ops \<Rightarrow> 'st \<Rightarrow> sched_req \<Rightarrow> adder \<Rightarrow> (add_req_result \<times> sched_req \<times> adder) result" where
  "add_one_req_ignore_eos ops st r ad =
     (let cand = cand_extend_input_len r;
          paged_input = ceil_paged_tokens ad cand + mamba_gap_budget_for_req ad r;
          plen = length (prefix_indices r) in
      if min (of_int (cur_rem_tokens ops st ad)) (rem_total_tokens ops st ad) < of_int paged_input then Inr (NO_TOKEN, r, ad)
      else if is_hybrid_swa ad \<and> rem_swa_tokens ops st ad < swa_budget_for_req ad cand 0 then Inr (NO_TOKEN, r, ad)
      else
        let states = next_req_states ad r; ad1 = ad\<lparr>req_states := Some states\<rparr> in
        if \<not> is_hybrid_swa ad \<and> runs_out (cur_rem_tokens ops st ad1 - ceil_paged_tokens ad1 cand) 0 states
        then Inr (NO_TOKEN, r, ad1)
        else if delayer_allows ad1 = Some False then Inr (OTHER, r, ad1)
        else
          case dllm_block_size ad1 of
            Some block \<Rightarrow>
              if rem_dllm_tokens ad1 \<le> 0 then Inr (OTHER, r, ad1)
              else let (r', ad') = add_dllm_req r 0 block ad1 in Inr (budget_state ops st ad', r', ad')
          | None \<Rightarrow>
              if (case rem_chunk_tokens ad1 of None \<Rightarrow> True | Some c \<Rightarrow> cand \<le> c)
              then let r' = set_extend_range plen (length (full_untruncated_fill_ids r)) r;
                       ad' = admit r' 0 (extend_len r') (min (max_new_tokens r) (clip_max_new_tokens ad1)) ad1
                   in Inr (budget_state ops st ad', r', ad')
              else
                let trunc_len = the (rem_chunk_tokens ad1) in
                if trunc_len \<le> 0 then Inr (OTHER, r, ad1)
                else rbind (py_assert (plen = 0)) (\<lambda>_.
                     let r' = set_extend_range plen (nat (int plen + trunc_len)) r;
                         ad' = admit r' 0 trunc_len 0 (ad1\<lparr>new_chunked_req := Some r'\<rparr>)
                     in Inr (budget_state ops st ad', r', ad')))"

section \<open>Admission of one request\<close>

text \<open>
  The number of tokens a chunk of the request may have: whole pages, a multiple of the alignment
  size when there is one, and such that the end of the chunk is page aligned.
\<close>

definition chunk_len :: "nat \<Rightarrow> int \<Rightarrow> nat option \<Rightarrow> nat \<Rightarrow> int option result" where
  "chunk_len ps chunk align plen =
     (let trunc0 = chunk div int ps * int ps in
      if trunc0 \<le> 0 then Inr None
      else rbind (case align of
                    None \<Rightarrow> Inr (Some trunc0)
                  | Some al \<Rightarrow>
                      if trunc0 < int al then Inr None
                      else if al = 0 then Inl ZeroDivisionError
                      else Inr (Some (int al * (trunc0 div int al)))) (\<lambda>aligned.
           case aligned of
             None \<Rightarrow> Inr None
           | Some trunc1 \<Rightarrow>
               let now_input_len = (trunc1 + int plen) div int ps * int ps;
                   trunc_len = now_input_len - int plen
               in Inr (if trunc_len \<le> 0 then None else Some trunc_len)))"

text \<open>The body of the \<^verbatim>\<open>with\<close> statement, run while the matched path is locked.\<close>

definition add_one_req_locked ::
  "'st cache_ops \<Rightarrow> nat option \<Rightarrow> int \<Rightarrow> int \<Rightarrow> 'st \<Rightarrow> sched_req \<Rightarrow> adder \<Rightarrow>
     (add_req_result option \<times> sched_req \<times> adder \<times> 'st) result" where
  "add_one_req_locked ops align total_tokens cand st r ad =
     (if rem_total_tokens ops st ad \<le> of_int total_tokens then Inr (Some NO_TOKEN, r, ad, st)
      else if is_hybrid_swa ad \<and> rem_swa_tokens ops st ad \<le> swa_budget_for_req ad cand (swa_host_hit_length r)
      then Inr (Some NO_TOKEN, r, ad, st)
      else
        rbind (if needs_host_load_back r
               then rbind (co_load_back ops r st) (\<lambda>(new_indices, node, st1).
                    let idx = prefix_indices r @ new_indices
                    in Inr (r\<lparr>last_node := node, prefix_indices := idx, cache_protected_len := length idx\<rparr>, st1))
               else Inr (r, st)) (\<lambda>(r1, st1).
        let plen = length (prefix_indices r1);
            input_tokens = ceil_paged_tokens ad (cand_extend_input_len r1) in
        if rem_chunk_tokens ad = None \<and> can_run_list ad \<noteq> [] \<and> rem_input_tokens ad \<le> input_tokens
        then Inr (Some OTHER, r1, ad, st1)
        else
          case dllm_block_size ad of
            Some block \<Rightarrow>
              if rem_dllm_tokens ad \<le> 0 then Inr (Some OTHER, r1, ad, st1)
              else rbind (py_assert (align = None)) (\<lambda>_.
                   let (r2, ad2) = add_dllm_req r1 plen block ad in
                   rbind (co_inc_lock ops (last_node r2) st1) (\<lambda>st2. Inr (None, r2, ad2, st2)))
          | None \<Rightarrow>
              if (case rem_chunk_tokens ad of None \<Rightarrow> True | Some c \<Rightarrow> input_tokens \<le> c)
              then let r2 = set_extend_range plen (length (full_untruncated_fill_ids r1)) r1 in
                   rbind (co_inc_lock ops (last_node r2) st1) (\<lambda>st2.
                   Inr (None, r2, admit r2 (int plen) input_tokens (min (max_new_tokens r2) (clip_max_new_tokens ad)) ad, st2))
              else
                rbind (chunk_len (pa_page_size ad) (the (rem_chunk_tokens ad)) align plen) (\<lambda>chunk.
                case chunk of
                  None \<Rightarrow> Inr (Some OTHER, r1, ad, st1)
                | Some trunc_len \<Rightarrow>
                    let r2 = set_extend_range plen (nat (int plen + trunc_len)) r1 in
                    rbind (co_inc_lock ops (last_node r2) st1) (\<lambda>st2.
                    Inr (None, r2, admit r2 (int plen) trunc_len 0 (ad\<lparr>new_chunked_req := Some r2\<rparr>), st2)))))"

definition add_one_req ::
  "'st cache_ops \<Rightarrow> nat option \<Rightarrow> 'st \<Rightarrow> sched_req \<Rightarrow> adder \<Rightarrow>
     (add_req_result \<times> sched_req \<times> adder \<times> 'st) result" where
  "add_one_req ops align st r ad =
     (if delayer_allows ad = Some False then Inr (OTHER, r, ad, st)
      else if dsa_prefill_cp_in_seq_split ad \<and> 1 \<le> length (can_run_list ad) then Inr (OTHER, r, ad, st)
      else if (case prefill_max_requests ad of None \<Rightarrow> False | Some x \<Rightarrow> x \<le> length (can_run_list ad)) then Inr (OTHER, r, ad, st)
      else if ignore_eos r \<and> co_disabled ops
      then rbind (add_one_req_ignore_eos ops st r ad) (\<lambda>(res, r', ad'). Inr (res, r', ad', st))
      else
        let max_new = min (max (max_new_tokens r - int (length (output_ids r))) 0) (clip_max_new_tokens ad);
            cand = cand_extend_input_len r;
            total_tokens = cand + max_new + int (pa_page_size ad) + mamba_gap_budget_for_req ad r;
            real_input_tokens = ceil_paged_tokens ad (cand - int (host_hit_length r)) in
        if rem_total_tokens ops st ad \<le> of_int total_tokens then Inr (NO_TOKEN, r, ad, st)
        else if is_hybrid_swa ad \<and> rem_swa_tokens ops st ad \<le> swa_budget_for_req ad cand (swa_host_hit_length r)
        then Inr (NO_TOKEN, r, ad, st)
        else if rem_chunk_tokens ad = None \<and> can_run_list ad \<noteq> [] \<and> rem_input_tokens ad \<le> real_input_tokens
        then Inr (OTHER, r, ad, st)
        else
          rbind (co_inc_lock ops (last_node r) st) (\<lambda>st1.
          rbind (add_one_req_locked ops align total_tokens cand st1 r ad) (\<lambda>(out, r', ad', st2).
          rbind (co_dec_lock ops (last_node r) st2) (\<lambda>st3.
          Inr (case out of Some res \<Rightarrow> res | None \<Rightarrow> budget_state ops st3 ad', r', ad', st3)))))"

section \<open>Preemption\<close>

text \<open>
  The running requests that may have to go, in the order in which they are taken, and what is
  still missing afterwards. Priorities are numbers here; \<open>sign\<close> is 1 when low values come first.
\<close>

definition priority_of :: "sched_req \<Rightarrow> int" where
  "priority_of r = the (req_priority r)"

fun pick_preemptible :: "adder \<Rightarrow> int \<Rightarrow> int \<Rightarrow> rat \<Rightarrow> sched_req list \<Rightarrow> sched_req list \<times> rat" where
  "pick_preemptible ad sign p need [] = ([], need)"
| "pick_preemptible ad sign p need (r # rs) =
     (if preemption_threshold ad < (p - priority_of r) * (- sign)
      then let need' = need - get_running_request_total_token_offset ad r in
           if need' \<le> 0 then ([r], need')
           else let (ps, n) = pick_preemptible ad sign p need' rs in (r # ps, n)
      else ([], need))"

text \<open>
  The loop that releases them; \<open>release r n\<close> is \<^verbatim>\<open>release_req\<close> of the batch with \<open>n\<close> requests
  remaining, which also resets the request. The requests that stay and those that were released are
  returned, both in the order of the batch.
\<close>

fun release_running ::
  "(sched_req \<Rightarrow> nat \<Rightarrow> 'st \<Rightarrow> (sched_req \<times> 'st) result) \<Rightarrow> adder \<Rightarrow> nat list \<Rightarrow> nat \<Rightarrow> nat \<Rightarrow> sched_req list \<Rightarrow> rat \<Rightarrow> 'st \<Rightarrow>
     (sched_req list \<times> sched_req list \<times> rat \<times> 'st) result" where
  "release_running release ad ids n_all cnt [] off st = Inr ([], [], off, st)"
| "release_running release ad ids n_all cnt (r # rs) off st =
     (if rid r \<in> set ids
      then rbind (release r (n_all - (cnt + 1)) st) (\<lambda>(r', st1).
           rbind (release_running release ad ids n_all (cnt + 1) rs (off - get_running_request_total_token_offset ad r) st1)
             (\<lambda>(kept, released, off', st'). Inr (kept, r' # released, off', st')))
      else rbind (release_running release ad ids n_all cnt rs off st) (\<lambda>(kept, released, off', st').
           Inr (r # kept, released, off', st')))"

text \<open>
  The chosen requests are collected in a Python set before they are released, and the list of
  preempted requests is extended by iterating over that set; \<open>set_order\<close> is the order of this iteration.
\<close>

definition preempt_to_schedule ::
  "'st cache_ops \<Rightarrow> (sched_req \<Rightarrow> nat \<Rightarrow> 'st \<Rightarrow> (sched_req \<times> 'st) result) \<Rightarrow> (sched_req list \<Rightarrow> sched_req list) \<Rightarrow>
     bool \<Rightarrow> 'st \<Rightarrow> sched_req \<Rightarrow> adder \<Rightarrow> (bool \<times> adder \<times> 'st) result" where
  "preempt_to_schedule ops release set_order low_first st r ad =
     (case running_batch ad of
        None \<Rightarrow> Inl AttributeError
      | Some running \<Rightarrow>
          let sign = (if low_first then 1 else - 1);
              valid = filter (\<lambda>x. rid x \<notin> rid ` set (preempt_list ad) \<and> \<not> req_finished x) running in
          if valid \<noteq> [] \<and> (\<exists>x \<in> set (r # valid). req_priority x = None) then Inl TypeError
          else
            let sorted_valid = sort_key (\<lambda>x. (priority_of x * (- sign), - wait_queue_entry_time x)) valid;
                need = of_int (cand_extend_input_len r + min (max_new_tokens r) (clip_max_new_tokens ad))
                         - rem_total_tokens ops st ad;
                (chosen, missing) = pick_preemptible ad sign (priority_of r) need sorted_valid in
            if chosen = [] \<or> 0 < missing then Inr (False, ad, st)
            else
              rbind (release_running release ad (map rid chosen) (length running) 0 running (rem_total_token_offset ad) st)
                (\<lambda>(kept, released, off, st').
                Inr (True, ad\<lparr>rem_total_token_offset := off, running_batch := Some kept,
                             preempt_list := preempt_list ad @ set_order released\<rparr>, st')))"

end
