(* ===== verification/Sched_Gates.thy ===== *)
theory Sched_Gates
  imports Prefill_Adder
begin

text \<open>
  The gates in front of the scheduler. \<^verbatim>\<open>managers/prefill_delayer.py\<close> negotiates between the ranks
  whether this pass may prefill; \<^verbatim>\<open>managers/min_free_slots_delayer.py\<close> and
  \<^verbatim>\<open>managers/scheduler_recv_skipper.py\<close> are local gates; \<^verbatim>\<open>managers/scheduler_input_blocker.py\<close> with
  \<^verbatim>\<open>utils/poll_based_barrier.py\<close> holds requests back until all ranks are ready; and
  \<^verbatim>\<open>managers/scheduler_components/new_token_ratio_tracker.py\<close> keeps the estimate the budgets use.
  Collective operations and clocks are arguments. Floating-point numbers are rational.
\<close>

section \<open>Prefill delayer\<close>

record delay_state =
  delayed_count :: nat
  start_time :: rat

definition bump_delayed_count :: "delay_state \<Rightarrow> delay_state" where
  "bump_delayed_count s = s\<lparr>delayed_count := delayed_count s + 1\<rparr>"

record negotiate_output =
  next_state :: "delay_state option"
  input_estimation :: string
  output_allow :: bool
  output_reason :: string
  num_prefillable :: int
  num_token_watermark_force_allow :: int
  wait_forward_passes :: nat
  wait_seconds :: rat

record delayer =
  max_delay_passes :: int
  token_usage_low_watermark :: "rat option"
  queue_min_ratio :: "rat option"
  max_delay_ms :: rat
  dp_size :: int
  enable_dp_attention :: bool
  curr_state :: "delay_state option"
  skip_first_delayer :: bool

text \<open>The constructor; the last argument tells whether there is a device group.\<close>

definition delayer_init ::
  "int \<Rightarrow> rat option \<Rightarrow> rat option \<Rightarrow> rat option \<Rightarrow> int \<Rightarrow> bool \<Rightarrow> bool \<Rightarrow> bool \<Rightarrow> bool \<Rightarrow> delayer result" where
  "delayer_init passes watermark ratio delay_ms dp dp_attention disable_overlap_schedule nccl_env device_group =
     rbind (py_assert (disable_overlap_schedule \<or> nccl_env \<longrightarrow> device_group)) (\<lambda>_.
     rbind (py_assert (\<not> disable_overlap_schedule)) (\<lambda>_.
     Inr \<lparr>max_delay_passes = passes, token_usage_low_watermark = watermark, queue_min_ratio = ratio,
          max_delay_ms = (case delay_ms of None \<Rightarrow> 5000 | Some x \<Rightarrow> x), dp_size = dp, enable_dp_attention = dp_attention,
          curr_state = None, skip_first_delayer = True\<rparr>))"

text \<open>What a rank sends, and what it knows in one pass.\<close>

record rank_info =
  ri_prefillable :: int
  ri_force_allow :: int
  ri_running_batch :: int
  ri_max_prefill_bs :: int
  ri_waiting_queue_len :: int

record negotiate_args =
  local_prefillable :: bool
  token_usage :: rat
  ng_running_batch :: int
  ng_max_prefill_bs :: int
  ng_max_running_requests :: int
  ng_waiting_queue_len :: int

definition local_force_allow :: "delayer \<Rightarrow> negotiate_args \<Rightarrow> bool" where
  "local_force_allow d x \<longleftrightarrow>
     local_prefillable x \<and> (case token_usage_low_watermark d of None \<Rightarrow> False | Some w \<Rightarrow> token_usage x < w)"

definition local_info :: "delayer \<Rightarrow> negotiate_args \<Rightarrow> rank_info" where
  "local_info d x =
     \<lparr>ri_prefillable = of_bool (local_prefillable x), ri_force_allow = of_bool (local_force_allow d x),
      ri_running_batch = ng_running_batch x, ri_max_prefill_bs = ng_max_prefill_bs x,
      ri_waiting_queue_len = ng_waiting_queue_len x\<rparr>"

definition column_max :: "(rank_info \<Rightarrow> int) \<Rightarrow> rank_info list \<Rightarrow> int" where
  "column_max f info = Max (set (map f info))"

definition column_min :: "(rank_info \<Rightarrow> int) \<Rightarrow> rank_info list \<Rightarrow> int" where
  "column_min f info = Min (set (map f info))"

definition prefillable_status :: "rank_info list \<Rightarrow> string" where
  "prefillable_status info =
     (if 0 < column_min ri_prefillable info then ''all''
      else if column_max ri_prefillable info = 0 then ''none'' else ''mixed'')"

text \<open>The queue trigger. \<open>clock i\<close> is the i-th reading of the clock in the pass.\<close>

definition queue_condition :: "delayer \<Rightarrow> (nat \<Rightarrow> rat) \<Rightarrow> delay_state option \<Rightarrow> rank_info list \<Rightarrow> bool" where
  "queue_condition d clock prev info =
     (case queue_min_ratio d of
        None \<Rightarrow> False
      | Some ratio \<Rightarrow>
          let running = column_max ri_running_batch info in
          0 < running \<and>
          (let queue_min_effective = min (py_int (of_int running * ratio)) (column_max ri_max_prefill_bs info) in
           0 < queue_min_effective \<and> column_max ri_waiting_queue_len info < queue_min_effective \<and>
           (case prev of None \<Rightarrow> True | Some s \<Rightarrow> (clock 1 - start_time s) * 1000 < max_delay_ms d)))"

text \<open>The number of data-parallel ranks is positive.\<close>

definition slot_condition :: "delayer \<Rightarrow> int \<Rightarrow> rank_info list \<Rightarrow> bool" where
  "slot_condition d max_running_requests info \<longleftrightarrow>
     (if enable_dp_attention d then max_running_requests else (max_running_requests + dp_size d - 1) div dp_size d)
       - column_max ri_running_batch info < column_max ri_max_prefill_bs info"

definition delay_output :: "delayer \<Rightarrow> (nat \<Rightarrow> rat) \<Rightarrow> delay_state option \<Rightarrow> rank_info list \<Rightarrow> negotiate_output" where
  "delay_output d clock prev info =
     \<lparr>next_state = Some (bump_delayed_count
        (case prev of None \<Rightarrow> \<lparr>delayed_count = 0, start_time = clock 2\<rparr> | Some s \<Rightarrow> s)),
      input_estimation = prefillable_status info, output_allow = False, output_reason = ''delay'',
      num_prefillable = sum_list (map ri_prefillable info),
      num_token_watermark_force_allow = sum_list (map ri_force_allow info),
      wait_forward_passes = 0, wait_seconds = 0\<rparr>"

definition release_output :: "string \<Rightarrow> (nat \<Rightarrow> rat) \<Rightarrow> delay_state option \<Rightarrow> rank_info list \<Rightarrow> negotiate_output" where
  "release_output reason clock prev info =
     \<lparr>next_state = None, input_estimation = prefillable_status info, output_allow = True, output_reason = reason,
      num_prefillable = sum_list (map ri_prefillable info),
      num_token_watermark_force_allow = sum_list (map ri_force_allow info),
      wait_forward_passes = (case prev of None \<Rightarrow> 0 | Some s \<Rightarrow> delayed_count s),
      wait_seconds = (case prev of None \<Rightarrow> 0 | Some s \<Rightarrow> clock 0 - start_time s)\<rparr>"

text \<open>The decision on the gathered information. Only \<open>skip_first_delayer\<close> of the delayer changes.\<close>

definition negotiate_pure ::
  "delayer \<Rightarrow> (nat \<Rightarrow> rat) \<Rightarrow> delay_state option \<Rightarrow> int \<Rightarrow> rank_info list \<Rightarrow> negotiate_output \<times> delayer" where
  "negotiate_pure d clock prev max_running_requests info =
     (let force = 0 < column_max ri_force_allow info in
      if prefillable_status info = ''all'' then
        if force then (release_output ''token_watermark'' clock prev info, d)
        else if slot_condition d max_running_requests info \<or> queue_condition d clock prev info then
          if skip_first_delayer d
          then (release_output (if prev \<noteq> None then ''wait_success'' else ''no_wait'') clock prev info,
                d\<lparr>skip_first_delayer := False\<rparr>)
          else (delay_output d clock prev info, d)
        else (release_output (if prev \<noteq> None then ''wait_success'' else ''no_wait'') clock prev info, d)
      else if prefillable_status info = ''none'' then (release_output [] clock prev info, d)
      else if force then (release_output ''token_watermark'' clock prev info, d)
      else if int (case prev of None \<Rightarrow> 0 | Some s \<Rightarrow> delayed_count s) < max_delay_passes d - 1
      then (delay_output d clock prev info, d)
      else (release_output ''wait_timeout'' clock prev info, d))"

text \<open>One negotiation; \<open>gather\<close> collects the information of the first member of each rank.\<close>

definition negotiate ::
  "(rank_info \<Rightarrow> rank_info list) \<Rightarrow> (nat \<Rightarrow> rat) \<Rightarrow> negotiate_args \<Rightarrow> delayer \<Rightarrow> negotiate_output \<times> delayer" where
  "negotiate gather clock x d =
     (let (out, d') = negotiate_pure d clock (curr_state d) (ng_max_running_requests x) (gather (local_info d x))
      in (out, d'\<lparr>curr_state := next_state out\<rparr>))"

subsection \<open>One pass of the scheduler\<close>

record single_pass =
  sp_delayer :: delayer
  sp_token_usage :: rat
  sp_result :: "negotiate_output option"

definition single_pass_init :: "delayer \<Rightarrow> rat \<Rightarrow> single_pass" where
  "single_pass_init d usage = \<lparr>sp_delayer = d, sp_token_usage = usage, sp_result = None\<rparr>"

definition negotiate_should_allow_prefill ::
  "(rank_info \<Rightarrow> rank_info list) \<Rightarrow> (nat \<Rightarrow> rat) \<Rightarrow> negotiate_args \<Rightarrow> single_pass \<Rightarrow> bool \<times> single_pass" where
  "negotiate_should_allow_prefill gather clock x sp =
     (case sp_result sp of
        Some out \<Rightarrow> (output_allow out, sp)
      | None \<Rightarrow>
          let (out, d) = negotiate gather clock (x\<lparr>token_usage := sp_token_usage sp\<rparr>) (sp_delayer sp)
          in (output_allow out, sp\<lparr>sp_delayer := d, sp_result := Some out\<rparr>))"

definition idle_args :: negotiate_args where
  "idle_args = \<lparr>local_prefillable = False, token_usage = 0, ng_running_batch = 0, ng_max_prefill_bs = 0,
     ng_max_running_requests = 0, ng_waiting_queue_len = 0\<rparr>"

text \<open>The end of a pass: a rank that did not ask negotiates now. The result goes to the metrics.\<close>

definition single_pass_finalize ::
  "(rank_info \<Rightarrow> rank_info list) \<Rightarrow> (nat \<Rightarrow> rat) \<Rightarrow> single_pass \<Rightarrow> negotiate_output option \<times> single_pass" where
  "single_pass_finalize gather clock sp =
     (let sp' = (if sp_result sp = None then snd (negotiate_should_allow_prefill gather clock idle_args sp) else sp)
      in (sp_result sp', sp'))"

section \<open>Minimal number of free slots\<close>

definition resolve_min_free_slots :: "int option \<Rightarrow> int \<Rightarrow> bool \<Rightarrow> int option" where
  "resolve_min_free_slots user_value max_running_requests0 is_dflash =
     (let max_running_requests = max 0 max_running_requests0;
          formula = min 4 (max 2 ((max_running_requests + 5) div 6));
          user = (case user_value of None \<Rightarrow> if is_dflash then Some formula else None | Some v \<Rightarrow> Some v) in
      case user of
        None \<Rightarrow> None
      | Some v \<Rightarrow> if v \<le> 1 then None else if max_running_requests < 8 then None else Some (min v formula))"

definition should_delay :: "int \<Rightarrow> int \<Rightarrow> int \<Rightarrow> bool" where
  "should_delay min_free_slots running_bs num_allocatable_reqs \<longleftrightarrow> 0 < running_bs \<and> num_allocatable_reqs < min_free_slots"

section \<open>Receive skipper\<close>

datatype forward_mode = DECODE | TARGET_VERIFY | OTHER_MODE

record recv_skipper =
  rs_counter :: int
  rs_threshold :: int
  default_weight :: int
  weight_of_forward_mode :: "(forward_mode option \<times> int) list"

definition recv_skipper_create :: "int \<Rightarrow> bool \<Rightarrow> int \<Rightarrow> int \<Rightarrow> int \<Rightarrow> int \<Rightarrow> recv_skipper option result" where
  "recv_skipper_create interval dp_attention w_default w_decode w_verify w_none =
     (if interval \<le> 1 then Inr None
      else rbind (py_assert (\<not> dp_attention)) (\<lambda>_.
           Inr (Some \<lparr>rs_counter = 0, rs_threshold = interval, default_weight = w_default,
             weight_of_forward_mode = [(Some DECODE, w_decode), (Some TARGET_VERIFY, w_verify), (None, w_none)]\<rparr>)))"

definition mode_weight :: "recv_skipper \<Rightarrow> forward_mode option \<Rightarrow> int" where
  "mode_weight s mode = (case map_of (weight_of_forward_mode s) mode of None \<Rightarrow> default_weight s | Some w \<Rightarrow> w)"

definition skipper_handle :: "recv_skipper \<Rightarrow> forward_mode option \<Rightarrow> bool \<times> recv_skipper" where
  "skipper_handle s mode =
     (let counter = rs_counter s + mode_weight s mode in
      if rs_threshold s \<le> counter then (True, s\<lparr>rs_counter := 0\<rparr>) else (False, s\<lparr>rs_counter := counter\<rparr>))"

section \<open>Input blocker\<close>

text \<open>The barrier: \<open>all_reduce\<close> is the minimum over all ranks.\<close>

definition local_arrive :: "bool \<Rightarrow> bool result" where
  "local_arrive local_arrived = rbind (py_assert (\<not> local_arrived)) (\<lambda>_. Inr True)"

definition poll_global_arrived :: "(bool \<Rightarrow> bool) \<Rightarrow> bool \<Rightarrow> bool \<Rightarrow> bool \<times> bool" where
  "poll_global_arrived all_reduce noop local_arrived =
     (let global_arrived = all_reduce (noop \<or> local_arrived);
          out = local_arrived \<and> global_arrived
      in (out, if out then False else local_arrived))"

datatype blocker_state = UNBLOCKED | BLOCKED | GLOBAL_UNBLOCK_BARRIER

datatype 'r recv_req = BLOCK | UNBLOCK | UnknownBlockType | Plain_Req 'r

record 'r blocker =
  bl_state :: blocker_state
  pending_reqs :: "'r list"
  bl_noop :: bool
  bl_arrived :: bool

definition blocker_init :: "bool \<Rightarrow> 'r blocker" where
  "blocker_init noop = \<lparr>bl_state = UNBLOCKED, pending_reqs = [], bl_noop = noop, bl_arrived = False\<rparr>"

definition change_state :: "blocker_state \<Rightarrow> blocker_state \<Rightarrow> 'r blocker \<Rightarrow> 'r blocker result" where
  "change_state original target b = rbind (py_assert (bl_state b = original)) (\<lambda>_. Inr (b\<lparr>bl_state := target\<rparr>))"

definition execute_block_req :: "'r blocker \<Rightarrow> 'r blocker result" where
  "execute_block_req b = change_state UNBLOCKED BLOCKED b"

definition execute_unblock_req :: "'r blocker \<Rightarrow> 'r blocker result" where
  "execute_unblock_req b =
     rbind (change_state BLOCKED GLOBAL_UNBLOCK_BARRIER b) (\<lambda>b1.
     rbind (local_arrive (bl_arrived b1)) (\<lambda>x. Inr (b1\<lparr>bl_arrived := x\<rparr>)))"

definition handle_recv_req :: "'r recv_req \<Rightarrow> 'r blocker \<Rightarrow> ('r list \<times> 'r blocker) result" where
  "handle_recv_req q b =
     (case q of
        BLOCK \<Rightarrow> rbind (execute_block_req b) (\<lambda>b'. Inr ([], b'))
      | UNBLOCK \<Rightarrow> rbind (execute_unblock_req b) (\<lambda>b'. Inr ([], b'))
      | UnknownBlockType \<Rightarrow> Inl NotImplementedError
      | Plain_Req r \<Rightarrow>
          if bl_state b = UNBLOCKED then Inr ([r], b)
          else Inr ([], b\<lparr>pending_reqs := pending_reqs b @ [r]\<rparr>))"

fun handle_recv_reqs :: "'r recv_req list \<Rightarrow> 'r blocker \<Rightarrow> ('r list \<times> 'r blocker) result" where
  "handle_recv_reqs [] b = Inr ([], b)"
| "handle_recv_reqs (q # qs) b =
     rbind (handle_recv_req q b) (\<lambda>(out1, b1). rbind (handle_recv_reqs qs b1) (\<lambda>(out2, b2). Inr (out1 @ out2, b2)))"

definition handle_arrive_unblock_barrier :: "'r blocker \<Rightarrow> ('r list \<times> 'r blocker) result" where
  "handle_arrive_unblock_barrier b =
     rbind (change_state GLOBAL_UNBLOCK_BARRIER UNBLOCKED b) (\<lambda>b1. Inr (pending_reqs b1, b1\<lparr>pending_reqs := []\<rparr>))"

text \<open>A rank that does nothing gets and returns no list.\<close>

definition blocker_handle ::
  "(bool \<Rightarrow> bool) \<Rightarrow> 'r recv_req list option \<Rightarrow> 'r blocker \<Rightarrow> ('r list option \<times> 'r blocker) result" where
  "blocker_handle all_reduce recv_reqs b =
     rbind (py_assert ((recv_reqs = None) = bl_noop b)) (\<lambda>_.
     rbind (case recv_reqs of
              None \<Rightarrow> Inr (None, b)
            | Some qs \<Rightarrow> rbind (handle_recv_reqs qs b) (\<lambda>(out, b1). Inr (Some out, b1))) (\<lambda>(out, b1).
     let (arrived, local) = poll_global_arrived all_reduce (bl_noop b1) (bl_arrived b1);
         b2 = b1\<lparr>bl_arrived := local\<rparr> in
     if bl_state b2 = GLOBAL_UNBLOCK_BARRIER \<and> arrived
     then rbind (case out of None \<Rightarrow> Inl UnboundLocalError | Some o1 \<Rightarrow> Inr o1) (\<lambda>o1.
          rbind (handle_arrive_unblock_barrier b2) (\<lambda>(o2, b3). Inr (Some (o1 @ o2), b3)))
     else Inr (out, b2)))"

section \<open>Estimate of new tokens\<close>

record ratio_tracker =
  rt_init :: rat
  rt_min :: rat
  rt_decay :: rat
  rt_current :: rat

definition ratio_from_server_args :: "rat \<Rightarrow> rat \<Rightarrow> rat \<Rightarrow> nat \<Rightarrow> ratio_tracker result" where
  "ratio_from_server_args init_ratio conservativeness min_factor decay_steps =
     (let i = min (init_ratio * conservativeness) 1; m = min (i * min_factor) 1
      in if decay_steps = 0 then Inl ZeroDivisionError
         else Inr \<lparr>rt_init = i, rt_min = m, rt_decay = (i - m) / of_nat decay_steps, rt_current = i\<rparr>)"

definition decay_step :: "ratio_tracker \<Rightarrow> ratio_tracker" where
  "decay_step t = t\<lparr>rt_current := max (rt_current t - rt_decay t) (rt_min t)\<rparr>"

definition ratio_reset :: "ratio_tracker \<Rightarrow> ratio_tracker" where
  "ratio_reset t = t\<lparr>rt_current := rt_init t\<rparr>"

definition estimate_new_token_ratio_after_retract :: "nat \<Rightarrow> sched_req list \<Rightarrow> rat result" where
  "estimate_new_token_ratio_after_retract retract_decode_steps reqs =
     (let decoded = sum_list (map (\<lambda>r. length (output_ids r)) reqs);
          total_max = sum_list (map max_new_tokens reqs) + 1
      in if total_max = 0 then Inl ZeroDivisionError
         else Inr (min 1 (of_nat (decoded + retract_decode_steps * length reqs) / of_int total_max)))"

end
