(* ===== verification/Req_Finish.thy ===== *)
theory Req_Finish
  imports Prefill_Adder "HOL-Library.Sublist"
begin

text \<open>
  When a request is finished: the checks of class \<^verbatim>\<open>Req\<close> in \<^verbatim>\<open>managers/schedule_batch.py\<close> for the
  length limit, tokens outside the vocabulary, stop strings, stop expressions and stop tokens, with
  the length of the output that is reported, and the bookkeeping of incremental detokenisation.
  The tokenizer, the grammar and the regular expressions are arguments.
\<close>

section \<open>State\<close>

datatype finish_reason =
    FINISH_MATCHED_TOKEN int
  | FINISH_MATCHED_STR string
  | FINISHED_MATCHED_REGEX string
  | FINISH_LENGTH int
  | FINISH_ABORT string "int option" "string option"

definition finish_abort :: "string option \<Rightarrow> int option \<Rightarrow> string option \<Rightarrow> finish_reason" where
  "finish_abort message = FINISH_ABORT (case message of None \<Rightarrow> ''Aborted'' | Some m \<Rightarrow> if m = [] then ''Aborted'' else m)"

datatype json = JStr string | JInt int | JNull

definition json_opt :: "('a \<Rightarrow> json) \<Rightarrow> 'a option \<Rightarrow> json" where
  "json_opt f x = (case x of None \<Rightarrow> JNull | Some a \<Rightarrow> f a)"

fun to_json :: "finish_reason \<Rightarrow> (string \<times> json) list" where
  "to_json (FINISH_MATCHED_TOKEN t) = [(''type'', JStr ''stop''), (''matched'', JInt t)]"
| "to_json (FINISH_MATCHED_STR s) = [(''type'', JStr ''stop''), (''matched'', JStr s)]"
| "to_json (FINISHED_MATCHED_REGEX e) = [(''type'', JStr ''stop''), (''matched'', JStr e)]"
| "to_json (FINISH_LENGTH n) = [(''type'', JStr ''length''), (''length'', JInt n)]"
| "to_json (FINISH_ABORT m c e) =
     [(''type'', JStr ''abort''), (''message'', JStr m), (''status_code'', json_opt JInt c), (''err_type'', json_opt JStr e)]"

text \<open>An empty list of token ids stands for a missing or empty set; iteration follows the list.\<close>

record finish_req = sched_req +
  stop_token_ids :: "int list"
  eos_token_ids :: "int list"
  stop_strs :: "string list"
  stop_regex_strs :: "string list"
  stop_str_max_len :: nat
  stop_regex_max_len :: nat
  vocab_size :: int
  decoded_text :: string
  grammar_terminated :: "bool option"
  finished_reason :: "finish_reason option"
  finished_len :: "nat option"
  to_finish :: "finish_reason option"
  origin_input_ids_unpadded :: "int list"
  surr_offset :: "nat option"
  read_offset :: "nat option"
  surr_and_decode_ids :: "int list"
  cur_decode_ids_len :: nat

record tokenizer =
  tk_decode :: "int list \<Rightarrow> string"
  eos_token_id :: "int option"
  additional_stop_token_ids :: "int list"

record finish_env =
  fe_tokenizer :: "tokenizer option"
  re_search :: "string \<Rightarrow> string \<Rightarrow> bool"

definition finished :: "finish_req \<Rightarrow> bool" where
  "finished r \<longleftrightarrow> finished_reason r \<noteq> None"

definition output_ids_through_stop :: "finish_req \<Rightarrow> int list" where
  "output_ids_through_stop r = (case finished_len r of Some n \<Rightarrow> take n (output_ids r) | None \<Rightarrow> output_ids r)"

section \<open>Incremental detokenisation\<close>

definition INIT_INCREMENTAL_DETOKENIZATION_OFFSET :: nat where
  "INIT_INCREMENTAL_DETOKENIZATION_OFFSET = 5"

definition init_incremental_detokenize :: "finish_req \<Rightarrow> (int list \<times> nat) \<times> finish_req" where
  "init_incremental_detokenize r =
     (let out = output_ids_through_stop r;
          r' = (case (surr_offset r, read_offset r) of
                  (Some s, Some rd) \<Rightarrow>
                    r\<lparr>surr_and_decode_ids := surr_and_decode_ids r @ drop (cur_decode_ids_len r) out,
                      cur_decode_ids_len := length out\<rparr>
                | _ \<Rightarrow>
                    let rd = length (origin_input_ids_unpadded r); s = rd - INIT_INCREMENTAL_DETOKENIZATION_OFFSET
                    in r\<lparr>read_offset := Some rd, surr_offset := Some s,
                         surr_and_decode_ids := drop s (origin_input_ids_unpadded r) @ out, cur_decode_ids_len := length out\<rparr>)
      in ((surr_and_decode_ids r', the (read_offset r') - the (surr_offset r')), r'))"

section \<open>The tail that is searched\<close>

text \<open>\<^verbatim>\<open>xs[-n:]\<close>: all of the list when \<open>n\<close> is zero or too large.\<close>

definition last_n :: "nat \<Rightarrow> 'a list \<Rightarrow> 'a list" where
  "last_n n xs = (if n = 0 then xs else drop (length xs - n) xs)"

text \<open>\<^verbatim>\<open>s in t\<close> on strings.\<close>

fun str_in :: "string \<Rightarrow> string \<Rightarrow> bool" where
  "str_in s [] = (s = [])"
| "str_in s (x # t) = (take (length s) (x # t) = s \<or> str_in s t)"

definition decode :: "finish_env \<Rightarrow> int list \<Rightarrow> string result" where
  "decode env ids = (case fe_tokenizer env of None \<Rightarrow> Inl AttributeError | Some tk \<Rightarrow> Inr (tk_decode tk ids))"

definition stop_match_tail_len :: "finish_req \<Rightarrow> nat \<Rightarrow> nat" where
  "stop_match_tail_len r new_accepted_len =
     (let max_len_tail_str = max (stop_str_max_len r + 1) (stop_regex_max_len r + 1)
      in min (max_len_tail_str + (new_accepted_len - 1)) (length (output_ids r)))"

definition tail_str :: "finish_env \<Rightarrow> finish_req \<Rightarrow> nat \<Rightarrow> string result" where
  "tail_str env r new_accepted_len =
     (if stop_strs r = [] \<and> stop_regex_strs r = [] then Inr []
      else decode env (last_n (stop_match_tail_len r new_accepted_len) (output_ids r)))"

definition overlaps :: "string \<Rightarrow> string \<Rightarrow> bool" where
  "overlaps tail stop \<longleftrightarrow> (\<exists>i \<in> set [1 ..< Suc (min (length tail) (length stop))]. last_n i tail = take i stop)"

definition check_match_stop_str_prefix :: "finish_env \<Rightarrow> finish_req \<Rightarrow> bool result" where
  "check_match_stop_str_prefix env r =
     (if stop_strs r = [] then Inr False
      else rbind (tail_str env r 1) (\<lambda>tail.
        Inr (tail \<noteq> [] \<and> (\<exists>s \<in> set (stop_strs r). s \<noteq> [] \<and> (str_in s tail \<or> overlaps tail s)))))"

section \<open>The checks\<close>

definition is_stop_token :: "finish_env \<Rightarrow> finish_req \<Rightarrow> int \<Rightarrow> bool" where
  "is_stop_token env r t \<longleftrightarrow>
     t \<in> set (stop_token_ids r) \<or> t \<in> set (eos_token_ids r) \<or>
     (case fe_tokenizer env of None \<Rightarrow> False | Some tk \<Rightarrow> eos_token_id tk = Some t \<or> t \<in> set (additional_stop_token_ids tk))"

text \<open>The first position, from \<open>i\<close> on, whose element satisfies the test.\<close>

fun first_at :: "('a \<Rightarrow> bool) \<Rightarrow> nat \<Rightarrow> 'a list \<Rightarrow> (nat \<times> 'a) option" where
  "first_at p i [] = None"
| "first_at p i (x # xs) = (if p x then Some (i, x) else first_at p (Suc i) xs)"

definition check_token_based_finish :: "finish_env \<Rightarrow> int list \<Rightarrow> finish_req \<Rightarrow> bool \<times> finish_req" where
  "check_token_based_finish env new_tokens r =
     (if ignore_eos r then (False, r)
      else case first_at (is_stop_token env r) 0 new_tokens of
             None \<Rightarrow> (False, r)
           | Some (i, t) \<Rightarrow>
               (True, r\<lparr>finished_reason := Some (FINISH_MATCHED_TOKEN t),
                        finished_len := Some (length (output_ids r) - length new_tokens + i + 1)\<rparr>))"

text \<open>The loop over the prefixes of the window that end inside the new tokens.\<close>

fun first_prefix :: "(int list \<Rightarrow> bool result) \<Rightarrow> int list \<Rightarrow> nat list \<Rightarrow> nat option result" where
  "first_prefix matched window [] = Inr None"
| "first_prefix matched window (n # ns) =
     rbind (matched (take n window)) (\<lambda>b. if b then Inr (Some n) else first_prefix matched window ns)"

definition locate_str_stop_finished_len ::
  "finish_env \<Rightarrow> (string \<Rightarrow> bool) \<Rightarrow> finish_req \<Rightarrow> nat \<Rightarrow> nat result" where
  "locate_str_stop_finished_len env matched r new_accepted_len =
     (let start = length (output_ids r) - stop_match_tail_len r new_accepted_len;
          window = drop start (output_ids r) in
      rbind (first_prefix (\<lambda>ids. rbind (decode env ids) (\<lambda>s. Inr (matched s))) window
               [max 1 (length window + 1 - new_accepted_len) ..< length window]) (\<lambda>found.
      Inr (case found of Some n \<Rightarrow> start + n | None \<Rightarrow> length (output_ids r))))"

definition check_str_based_finish :: "finish_env \<Rightarrow> nat \<Rightarrow> finish_req \<Rightarrow> (bool \<times> finish_req) result" where
  "check_str_based_finish env new_accepted_len r =
     (if stop_strs r = [] \<and> stop_regex_strs r = [] then Inr (False, r)
      else rbind (tail_str env r new_accepted_len) (\<lambda>tail.
        case find (\<lambda>s. str_in s tail \<or> str_in s (decoded_text r)) (stop_strs r) of
          Some s \<Rightarrow>
            if str_in s tail
            then rbind (locate_str_stop_finished_len env (str_in s) r new_accepted_len) (\<lambda>n.
                 Inr (True, r\<lparr>finished_reason := Some (FINISH_MATCHED_STR s), finished_len := Some n\<rparr>))
            else Inr (True, r\<lparr>finished_reason := Some (FINISH_MATCHED_STR s)\<rparr>)
        | None \<Rightarrow>
            (case find (\<lambda>e. re_search env e tail) (stop_regex_strs r) of
               Some e \<Rightarrow>
                 rbind (locate_str_stop_finished_len env (re_search env e) r new_accepted_len) (\<lambda>n.
                 Inr (True, r\<lparr>finished_reason := Some (FINISHED_MATCHED_REGEX e), finished_len := Some n\<rparr>))
             | None \<Rightarrow> Inr (False, r))))"

definition check_vocab_boundary_finish :: "int list \<Rightarrow> finish_req \<Rightarrow> bool \<times> finish_req" where
  "check_vocab_boundary_finish new_tokens r =
     (case first_at (\<lambda>t. vocab_size r \<le> t \<or> t < 0) 0 new_tokens of
        None \<Rightarrow> (False, r)
      | Some (i, t) \<Rightarrow>
          let offset = length (output_ids r) - length new_tokens + i;
              out1 = (if stop_token_ids r \<noteq> [] then (output_ids r)[offset := hd (stop_token_ids r)] else output_ids r);
              out2 = (if eos_token_ids r \<noteq> [] then out1[offset := hd (eos_token_ids r)] else out1)
          in (True, r\<lparr>output_ids := out2, finished_reason := Some (FINISH_MATCHED_STR ''NaN happened''),
                      finished_len := Some (offset + 1)\<rparr>))"

definition update_finish_state :: "finish_env \<Rightarrow> nat \<Rightarrow> finish_req \<Rightarrow> finish_req result" where
  "update_finish_state env new_accepted_len r =
     (if finished r then Inr r
      else if to_finish r \<noteq> None then Inr (r\<lparr>finished_reason := to_finish r, to_finish := None\<rparr>)
      else if max_new_tokens r \<le> int (length (output_ids r))
      then Inr (r\<lparr>finished_reason := Some (FINISH_LENGTH (max_new_tokens r)), finished_len := Some (nat (max_new_tokens r))\<rparr>)
      else if grammar_terminated r = Some True
      then if output_ids r = [] then Inl IndexError
           else Inr (r\<lparr>finished_reason := Some (FINISH_MATCHED_TOKEN (last (output_ids r)))\<rparr>)
      else
        let new_tokens = last_n new_accepted_len (output_ids r);
            (b1, r1) = check_vocab_boundary_finish new_tokens r in
        if b1 then Inr r1
        else rbind (check_str_based_finish env new_accepted_len r1) (\<lambda>(b2, r2).
             if b2 then Inr r2 else Inr (snd (check_token_based_finish env new_tokens r2))))"

end
