(* ===== verification/Retract.thy ===== *)
theory Retract
  imports Cache_Common Sched_Gates Req_Finish
begin

text \<open>
  Retraction of running requests when the next decode step does not fit: the methods
  \<^verbatim>\<open>check_decode_mem\<close>, \<^verbatim>\<open>retract_decode\<close>, \<^verbatim>\<open>retract_all\<close> and \<^verbatim>\<open>filter_batch\<close> of \<^verbatim>\<open>ScheduleBatch\<close> and the
  functions \<^verbatim>\<open>release_req\<close> and \<^verbatim>\<open>retract_all\<close> of \<^verbatim>\<open>managers/schedule_batch.py\<close>. Of the batch only the
  list of requests is kept; the tensors of the batch are derived from it.
\<close>

section \<open>What a batch works on\<close>

text \<open>
  \<open>de_evict\<close> is \<^verbatim>\<open>evict_from_tree_cache\<close>, \<open>de_available\<close> the \<^verbatim>\<open>available_size\<close> of the allocator and
  \<open>de_release\<close> is \<^verbatim>\<open>release_kv_cache\<close> without insertion, preceded on a decode server by the copy of
  the cache to the host. \<open>de_reserve\<close> is \<^verbatim>\<open>get_alloc_reserve_per_decode\<close> and \<open>de_retract_steps\<close> the
  environment variable \<^verbatim>\<open>SGLANG_RETRACT_DECODE_STEPS\<close>. There is no coordinator for sparse caches.
\<close>

record 's decode_env =
  de_page_size :: nat
  de_spec_none :: bool
  de_reserve :: "nat result"
  de_retract_steps :: nat
  de_evict :: "nat \<Rightarrow> 's \<Rightarrow> 's result"
  de_available :: "'s \<Rightarrow> nat"
  de_release :: "finish_req \<Rightarrow> 's \<Rightarrow> (finish_req \<times> 's) result"

section \<open>Memory for the next step\<close>

definition select_reqs :: "'r list \<Rightarrow> nat list option \<Rightarrow> 'r list result" where
  "select_reqs reqs selected_indices =
     (case selected_indices of
        None \<Rightarrow> Inr reqs
      | Some ix \<Rightarrow> if \<forall>i \<in> set ix. i < length reqs then Inr (map ((!) reqs) ix) else Inl IndexError)"

definition new_tokens_spec_v2 :: "nat \<Rightarrow> nat \<Rightarrow> finish_req list \<Rightarrow> nat" where
  "new_tokens_spec_v2 page_size reserve requests =
     sum_list (map (\<lambda>r. let x = kv_committed_len r + reserve - kv_allocated_len r; cur = kv_allocated_len r; nxt = cur + x
                        in ceil_align nxt page_size - ceil_align cur page_size) requests)"

definition new_tokens_required_next_decode :: "'s decode_env \<Rightarrow> finish_req list \<Rightarrow> nat list option \<Rightarrow> nat result" where
  "new_tokens_required_next_decode env reqs selected_indices =
     rbind (select_reqs reqs selected_indices) (\<lambda>requests.
     if de_spec_none env
     then if de_page_size env = 0 \<and> requests \<noteq> [] then Inl ZeroDivisionError
          else let new_pages = length (filter (\<lambda>r. kv_committed_len r mod de_page_size env = 0) requests)
               in Inr (new_pages * de_page_size env)
     else rbind (de_reserve env) (\<lambda>reserve. Inr (new_tokens_spec_v2 (de_page_size env) reserve requests)))"

definition check_decode_mem :: "'s decode_env \<Rightarrow> finish_req list \<Rightarrow> nat list option \<Rightarrow> 's \<Rightarrow> (bool \<times> 's) result" where
  "check_decode_mem env reqs selected_indices st =
     rbind (new_tokens_required_next_decode env reqs selected_indices) (\<lambda>num_tokens.
     rbind (de_evict env num_tokens st) (\<lambda>st1. Inr (num_tokens \<le> de_available env st1, st1)))"

section \<open>Releasing a request\<close>

text \<open>\<open>embeds\<close> tells whether the request came with input embeddings; its output is then discarded.\<close>

definition reset_for_retract :: "bool \<Rightarrow> finish_req \<Rightarrow> finish_req" where
  "reset_for_retract embeds r =
     r\<lparr>prefix_indices := [], last_node := None, cache_protected_len := 0, num_matched_prefix_tokens := 0,
       extend_range_start := 0, extend_range_end := 0, retracted_stain := True, inflight_middle_chunks := 0,
       mamba_pool_idx := None, kv_allocated_len := 0, kv_committed_len := 0, kv_committed_freed := False,
       kv_overallocated_freed := False, swa_evicted_seqlen := 0, output_ids := if embeds then [] else output_ids r\<rparr>"

definition release_req :: "'s decode_env \<Rightarrow> (finish_req \<Rightarrow> bool) \<Rightarrow> finish_req \<Rightarrow> nat \<Rightarrow> 's \<Rightarrow> (finish_req \<times> 's) result" where
  "release_req env embeds req remaing_req_count st =
     rbind (de_release env req st) (\<lambda>(r1, st1).
     rbind (de_evict env (remaing_req_count * de_retract_steps env) st1) (\<lambda>st2.
     Inr (reset_for_retract (embeds r1) r1, st2)))"

fun retract_all_loop :: "'s decode_env \<Rightarrow> (finish_req \<Rightarrow> bool) \<Rightarrow> finish_req list \<Rightarrow> 's \<Rightarrow> (finish_req list \<times> 's) result" where
  "retract_all_loop env embeds [] st = Inr ([], st)"
| "retract_all_loop env embeds (r # rs) st =
     rbind (release_req env embeds r (Suc (length rs)) st) (\<lambda>(r', st1).
     rbind (retract_all_loop env embeds rs st1) (\<lambda>(rs', st2). Inr (r' # rs', st2)))"

text \<open>The retracted requests, and the batch, which is then empty.\<close>

definition retract_all :: "'s decode_env \<Rightarrow> (finish_req \<Rightarrow> bool) \<Rightarrow> finish_req list \<Rightarrow> 's \<Rightarrow> (finish_req list \<times> finish_req list \<times> 's) result" where
  "retract_all env embeds reqs st = rbind (retract_all_loop env embeds reqs st) (\<lambda>(rs, st1). Inr (rs, [], st1))"

section \<open>Retraction\<close>

text \<open>A stable sort in descending order of the pair of keys.\<close>

definition retract_order :: "bool \<Rightarrow> finish_req list \<Rightarrow> nat list" where
  "retract_order speculative reqs =
     (let ix = [0 ..< length reqs] in
      if speculative then ix
      else sort_key (\<lambda>i. - int (length (output_ids (reqs ! i)))) (sort_key (\<lambda>i. length (origin_input_ids (reqs ! i))) ix))"

text \<open>The result: the indices kept, the requests, the indices released in that order, the state.\<close>

function retract_loop ::
  "'s decode_env \<Rightarrow> (finish_req \<Rightarrow> bool) \<Rightarrow> bool \<Rightarrow> nat list \<Rightarrow> finish_req list \<Rightarrow> nat list \<Rightarrow> 's \<Rightarrow>
     (nat list \<times> finish_req list \<times> nat list \<times> 's) result" where
  "retract_loop env embeds first_iter sorted_indices reqs retracted st =
     rbind (if first_iter then Inr (False, st) else check_decode_mem env reqs (Some sorted_indices) st) (\<lambda>(enough, st1).
     if enough \<or> length sorted_indices = 1 then Inr (sorted_indices, reqs, retracted, st1)
     else if sorted_indices = [] then Inl IndexError
     else let idx = last sorted_indices; sorted' = butlast sorted_indices in
          rbind (release_req env embeds (reqs ! idx) (length sorted') st1) (\<lambda>(r', st2).
          retract_loop env embeds False sorted' (reqs[idx := r']) (retracted @ [idx]) st2))"
  by pat_completeness auto
termination
  by (relation "measure (\<lambda>(env, embeds, first, ix, _). length ix)") auto

declare retract_loop.simps [simp del]

definition filter_batch :: "nat list \<Rightarrow> 'r list \<Rightarrow> 'r list" where
  "filter_batch keep_indices reqs =
     (if keep_indices = [] then [] else if length keep_indices = length reqs then reqs else map ((!) reqs) keep_indices)"

definition oom_abort :: finish_reason where
  "oom_abort = finish_abort (Some ''Out of memory even after retracting all other requests in the decode batch. Aborting the last request.'')
     (Some 500) None"

text \<open>Retracted requests, new estimate, aborted requests; then the batch and the state.\<close>

definition retract_decode ::
  "'s decode_env \<Rightarrow> (finish_req \<Rightarrow> bool) \<Rightarrow> bool \<Rightarrow> finish_req list \<Rightarrow> 's \<Rightarrow>
     (finish_req list \<times> rat \<times> finish_req list \<times> finish_req list \<times> 's) result" where
  "retract_decode env embeds speculative reqs0 st0 =
     rbind (retract_loop env embeds True (retract_order speculative reqs0) reqs0 [] st0) (\<lambda>(ix, reqs, retracted, st).
     rbind (if length ix \<le> 1 then check_decode_mem env reqs (Some ix) st else Inr (True, st)) (\<lambda>(enough, st1).
     rbind (if enough then Inr (ix, reqs, [], st1)
            else if ix = [] then Inl IndexError
            else let last_idx = last ix in
                 rbind (release_req env embeds ((reqs ! last_idx)\<lparr>to_finish := Some oom_abort\<rparr>) 0 st1) (\<lambda>(r', st2).
                 Inr (butlast ix, reqs[last_idx := r'], [last_idx], st2))) (\<lambda>(keep, reqs1, aborted, st2).
     let batch = filter_batch keep reqs1 in
     rbind (estimate_new_token_ratio_after_retract (de_retract_steps env) (map sched_req.truncate batch)) (\<lambda>ratio.
     Inr (map ((!) reqs1) retracted, ratio, map ((!) reqs1) aborted, batch, st2)))))"

end
