(* ===== verification/Retract_Props.thy ===== *)
theory Retract_Props
  imports Retract
begin

text \<open>
  Retraction always ends, keeps the requests it prefers, and what it keeps fits: proved for any
  cache that meets the interface \<open>retract_env\<close>, which the radix cache with any of the allocators does.
\<close>

section \<open>The interface\<close>

text \<open>A request whose row, slots and lock were given back, and what becomes of it before it is queued again.\<close>

definition freed :: "finish_req \<Rightarrow> finish_req" where
  "freed r = r\<lparr>kv_committed_freed := True, kv_overallocated_freed := True, req_pool_idx := None\<rparr>"

definition retracted :: "(finish_req \<Rightarrow> bool) \<Rightarrow> finish_req \<Rightarrow> finish_req" where
  "retracted embeds r = reset_for_retract (embeds (freed r)) (freed r)"

text \<open>\<open>held st R\<close>: in the state \<open>st\<close> the requests \<open>R\<close> hold rows, slots and locks.\<close>

locale retract_env =
  fixes env :: "'s decode_env" and held :: "'s \<Rightarrow> finish_req multiset \<Rightarrow> bool"
  assumes page_size_pos: "held st R \<Longrightarrow> 0 < de_page_size env"
    and reserve_ok: "held st R \<Longrightarrow> \<not> de_spec_none env \<Longrightarrow> \<exists>n. de_reserve env = Inr n"
    and evict_ok: "held st R \<Longrightarrow> \<exists>st'. de_evict env n st = Inr st' \<and> held st' R"
    and release_ok: "held st (add_mset r R) \<Longrightarrow> \<exists>st'. de_release env r st = Inr (freed r, st') \<and> held st' R"
    and to_finish_free: "held st (add_mset r R) \<Longrightarrow> held st (add_mset (r\<lparr>to_finish := x\<rparr>) R)"
begin

definition required :: "finish_req list \<Rightarrow> nat" where
  "required rs = (if de_spec_none env then length (filter (\<lambda>r. kv_committed_len r mod de_page_size env = 0) rs) * de_page_size env
     else new_tokens_spec_v2 (de_page_size env) (case de_reserve env of Inr n \<Rightarrow> n | Inl _ \<Rightarrow> 0) rs)"

lemma required_mset: "mset rs = mset rs' \<Longrightarrow> required rs = required rs'"
proof -
  assume m: "mset rs = mset rs'"
  have "length (filter P rs) = length (filter P rs')" for P
    using m by (metis mset_filter size_mset)
  moreover have "sum_list (map f rs) = sum_list (map f rs')" for f :: "finish_req \<Rightarrow> nat"
    using m by (metis mset_map sum_mset_sum_list)
  ultimately show ?thesis by (simp add: required_def new_tokens_spec_v2_def)
qed

lemma required_next_decode:
  assumes "held st R" "case sel of None \<Rightarrow> True | Some ix \<Rightarrow> \<forall>i \<in> set ix. i < length reqs"
  shows "new_tokens_required_next_decode env reqs sel = Inr (required (case sel of None \<Rightarrow> reqs | Some ix \<Rightarrow> map ((!) reqs) ix))"
  using assms(2) page_size_pos [OF assms(1)] reserve_ok [OF assms(1)]
  by (auto simp: new_tokens_required_next_decode_def select_reqs_def required_def Let_def split: option.splits)

lemma check_ok:
  assumes "held st R" "\<forall>i \<in> set ix. i < length reqs"
  shows "\<exists>st'. check_decode_mem env reqs (Some ix) st = Inr (required (map ((!) reqs) ix) \<le> de_available env st', st') \<and> held st' R"
  using evict_ok [OF assms(1)] assms(2) by (auto simp: check_decode_mem_def required_next_decode [OF assms(1)])

lemma release_req_held:
  assumes "held st (add_mset r R)"
  shows "\<exists>st'. release_req env embeds r n st = Inr (retracted embeds r, st') \<and> held st' R"
proof -
  obtain st1 where r1: "de_release env r st = Inr (freed r, st1)" "held st1 R" using release_ok [OF assms] by blast
  obtain st2 where "de_evict env (n * de_retract_steps env) st1 = Inr st2" "held st2 R" using evict_ok [OF r1(2)] by blast
  then show ?thesis using r1 by (auto simp: release_req_def retracted_def)
qed

lemma retract_all_ok:
  "held st (mset reqs) \<Longrightarrow> \<exists>st'. retract_all env embeds reqs st = Inr (map (retracted embeds) reqs, [], st') \<and> held st' {#}"
proof -
  have "held st (mset reqs) \<Longrightarrow> \<exists>st'. retract_all_loop env embeds reqs st = Inr (map (retracted embeds) reqs, st') \<and> held st' {#}" for st
  proof (induction reqs arbitrary: st)
    case (Cons r reqs)
    obtain st1 where "release_req env embeds r (Suc (length reqs)) st = Inr (retracted embeds r, st1)" "held st1 (mset reqs)"
      using release_req_held [of st r "mset reqs" embeds "Suc (length reqs)"] Cons.prems by auto
    then show ?case using Cons.IH [of st1] by auto
  qed simp
  then show "held st (mset reqs) \<Longrightarrow> ?thesis" by (fastforce simp: retract_all_def)
qed

section \<open>The loop\<close>

text \<open>\<open>reqs\<close> are the requests \<open>reqs0\<close> after those with the indices \<open>ds\<close> were released.\<close>

definition after_release :: "(finish_req \<Rightarrow> bool) \<Rightarrow> finish_req list \<Rightarrow> nat list \<Rightarrow> finish_req list \<Rightarrow> bool" where
  "after_release embeds reqs0 ds reqs \<longleftrightarrow> length reqs = length reqs0 \<and>
     (\<forall>i < length reqs0. reqs ! i = (if i \<in> set ds then retracted embeds (reqs0 ! i) else reqs0 ! i))"

lemma retract_loop_ok:
  assumes "held st (mset (map ((!) reqs0) ix))" "ix \<noteq> []" "distinct (ds @ ix)" "\<forall>i \<in> set (ds @ ix). i < length reqs0"
    "after_release embeds reqs0 ds reqs"
  shows "\<exists>ix' reqs' es st'. retract_loop env embeds first ix reqs ds st = Inr (ix', reqs', ds @ es, st') \<and> ix = ix' @ rev es \<and> ix' \<noteq> [] \<and>
    held st' (mset (map ((!) reqs0) ix')) \<and> after_release embeds reqs0 (ds @ es) reqs' \<and>
    (length ix' = 1 \<or> required (map ((!) reqs0) ix') \<le> de_available env st') \<and> (first \<and> 1 < length ix \<longrightarrow> es \<noteq> [])"
  using assms
proof (induction "length ix" arbitrary: ix ds reqs st first rule: less_induct)
  case less
  have cur: "map ((!) reqs) ix = map ((!) reqs0) ix"
    using less.prems(3-5) by (auto simp: after_release_def)
  have lt: "\<forall>i \<in> set ix. i < length reqs" using less.prems(4,5) by (auto simp: after_release_def)
  obtain enough st1 where c: "(if first then Inr (False, st) else check_decode_mem env reqs (Some ix) st) = Inr (enough, st1)"
    "held st1 (mset (map ((!) reqs0) ix))" "enough \<longrightarrow> \<not> first \<and> required (map ((!) reqs0) ix) \<le> de_available env st1"
    using check_ok [OF less.prems(1) lt] less.prems(1) cur by (cases first) auto
  show ?case
  proof (cases "enough \<or> length ix = 1")
    case True
    then have "retract_loop env embeds first ix reqs ds st = Inr (ix, reqs, ds, st1)"
      using c(1) by (subst retract_loop.simps) auto
    then show ?thesis using c True less.prems by (intro exI [of _ ix] exI [of _ reqs] exI [of _ "[]"] exI [of _ st1]) auto
  next
    case False
    obtain ix1 idx where ix: "ix = ix1 @ [idx]" using less.prems(2) by (metis rev_exhaust)
    have ne: "ix1 \<noteq> []" using False ix by auto
    have i: "idx < length reqs0" "reqs ! idx = reqs0 ! idx" using less.prems(3-5) by (auto simp: ix after_release_def)
    have "held st1 (add_mset (reqs ! idx) (mset (map ((!) reqs0) ix1)))" using c(2) i(2) by (simp add: ix)
    from release_req_held [OF this] obtain st2 where
      r: "release_req env embeds (reqs ! idx) (length ix1) st1 = Inr (retracted embeds (reqs ! idx), st2)" "held st2 (mset (map ((!) reqs0) ix1))"
      by blast
    let ?reqs = "reqs[idx := retracted embeds (reqs ! idx)]"
    have "after_release embeds reqs0 (ds @ [idx]) ?reqs"
      using less.prems(5) i by (auto simp: after_release_def nth_list_update)
    moreover have "distinct ((ds @ [idx]) @ ix1)" "\<forall>i \<in> set ((ds @ [idx]) @ ix1). i < length reqs0" using less.prems(3,4) by (auto simp: ix)
    ultimately obtain ix' reqs' es st' where
      l: "retract_loop env embeds False ix1 ?reqs (ds @ [idx]) st2 = Inr (ix', reqs', (ds @ [idx]) @ es, st')" "ix1 = ix' @ rev es"
        "ix' \<noteq> []" "held st' (mset (map ((!) reqs0) ix'))" "after_release embeds reqs0 ((ds @ [idx]) @ es) reqs'"
        "length ix' = 1 \<or> required (map ((!) reqs0) ix') \<le> de_available env st'"
      using less.hyps [OF _ r(2) ne, of "ds @ [idx]" ?reqs False] ix by fastforce
    have "retract_loop env embeds first ix reqs ds st = Inr (ix', reqs', ds @ idx # es, st')"
      using c(1) False l(1) r(1) by (subst retract_loop.simps) (simp add: ix)
    then show ?thesis using l ix by (intro exI [of _ ix'] exI [of _ reqs'] exI [of _ "idx # es"] exI [of _ st']) auto
  qed
qed

section \<open>The whole retraction\<close>

lemma filter_batch_mset: "distinct ks \<Longrightarrow> set ks \<subseteq> {..< length reqs} \<Longrightarrow> mset (filter_batch ks reqs) = mset (map ((!) reqs) ks)"
proof (cases "length ks = length reqs")
  case True
  assume "distinct ks" "set ks \<subseteq> {..< length reqs}"
  then have "set ks = {..< length reqs}" using True by (intro card_subset_eq) (simp_all add: distinct_card)
  then have "mset ks = mset [0 ..< length reqs]" using \<open>distinct ks\<close> by (intro set_eq_iff_mset_eq_distinct [THEN iffD1]) (auto simp: lessThan_atLeast0)
  then have "mset (map ((!) reqs) ks) = mset (map ((!) reqs) [0 ..< length reqs])" by (metis mset_map)
  then show ?thesis using True by (auto simp: filter_batch_def map_nth)
qed (simp add: filter_batch_def)

lemma ratio_ok:
  assumes "\<forall>r \<in> set rs. 0 \<le> max_new_tokens r"
  shows "\<exists>x. estimate_new_token_ratio_after_retract n (map sched_req.truncate rs) = Inr x"
proof -
  have "0 \<le> sum_list (map max_new_tokens (map sched_req.truncate rs))"
    using assms by (intro sum_list_nonneg) (auto simp: sched_req.truncate_def)
  then show ?thesis by (simp add: estimate_new_token_ratio_after_retract_def Let_def)
qed

lemma retract_order_perm: "mset (retract_order spec reqs) = mset [0 ..< length reqs]"
  by (simp add: retract_order_def Let_def)

lemma retract_order_distinct: "distinct (retract_order spec reqs)"
  using mset_eq_imp_distinct_iff [OF retract_order_perm [of spec reqs]] by (simp only: distinct_upt)

lemma retract_order_set: "set (retract_order spec reqs) = {..< length reqs}"
  using mset_eq_setD [OF retract_order_perm [of spec reqs]] by (simp only: set_upt atLeast0LessThan)

lemmas retract_order_idx = retract_order_distinct retract_order_set

text \<open>
  The requests kept are the first ones \<open>ks\<close> of the order, those released the others, from the back
  of the order. What is kept fits; when not even one request fits it is aborted.
\<close>

lemma retract_decode_ok:
  assumes h: "held st0 (mset reqs0)" and ne: "reqs0 \<noteq> []" and mx: "\<forall>r \<in> set reqs0. 0 \<le> max_new_tokens r"
  shows "\<exists>ks ds ratio ab batch st. retract_decode env embeds spec reqs0 st0 = Inr (map (\<lambda>i. retracted embeds (reqs0 ! i)) ds, ratio, ab, batch, st) \<and>
    retract_order spec reqs0 = ks @ rev ds \<and> ks \<noteq> [] \<and> (1 < length reqs0 \<longrightarrow> ds \<noteq> []) \<and> held st (mset batch) \<and>
    (if ab = [] then mset batch = mset (map ((!) reqs0) ks) \<and> required batch \<le> de_available env st
     else batch = [] \<and> (\<exists>k st1. ks = [k] \<and> ab = [retracted embeds ((reqs0 ! k)\<lparr>to_finish := Some oom_abort\<rparr>)] \<and>
       held st1 {#reqs0 ! k#} \<and> de_available env st1 < required [reqs0 ! k]))"
proof -
  let ?ix = "retract_order spec reqs0"
  have len0: "length ?ix = length reqs0" using mset_eq_length [OF retract_order_perm [of spec reqs0]] by simp
  have ix: "distinct ([] @ ?ix)" "\<forall>i \<in> set ([] @ ?ix). i < length reqs0" "?ix \<noteq> []" "length ?ix = length reqs0"
    using len0 ne by (simp_all add: retract_order_idx) auto
  have "mset (map ((!) reqs0) ?ix) = mset (map ((!) reqs0) [0 ..< length reqs0])" using retract_order_perm [of spec reqs0] by (metis mset_map)
  then have h': "held st0 (mset (map ((!) reqs0) ?ix))" using h by (simp add: map_nth)
  have a0: "after_release embeds reqs0 [] reqs0" by (simp add: after_release_def)
  obtain ix' reqs es st where l: "retract_loop env embeds True ?ix reqs0 [] st0 = Inr (ix', reqs, es, st)" "?ix = ix' @ rev es" "ix' \<noteq> []"
    "held st (mset (map ((!) reqs0) ix'))" "after_release embeds reqs0 es reqs"
    "length ix' = 1 \<or> required (map ((!) reqs0) ix') \<le> de_available env st" "1 < length ?ix \<longrightarrow> es \<noteq> []"
    using retract_loop_ok [OF h' ix(3,1,2) a0, of True] by (elim exE conjE) (rule that, simp_all)
  have d: "distinct (ix' @ rev es)" "set ix' \<subseteq> {..< length reqs0}" "set es \<subseteq> {..< length reqs0}" using ix(1,2) unfolding l(2) by auto
  have len: "length reqs = length reqs0" using l(5) by (simp add: after_release_def)
  have cur: "map ((!) reqs) ix' = map ((!) reqs0) ix'" using l(5) d(1,2) by (fastforce simp: after_release_def)
  have rel: "map ((!) reqs) es = map (\<lambda>i. retracted embeds (reqs0 ! i)) es" using l(5) d(3) by (auto simp: after_release_def)
  obtain enough st1 where c: "(if length ix' \<le> 1 then check_decode_mem env reqs (Some ix') st else Inr (True, st)) = Inr (enough, st1)"
    "held st1 (mset (map ((!) reqs0) ix'))" "enough \<longleftrightarrow> required (map ((!) reqs0) ix') \<le> de_available env st1" "\<not> enough \<longrightarrow> length ix' = 1"
    using check_ok [OF l(4), of ix' reqs] d(2) len cur l(3,4,6) by (cases "length ix' \<le> 1") (auto simp: le_Suc_eq)
  show ?thesis
  proof (cases enough)
    case True
    let ?b = "filter_batch ix' reqs"
    have b: "mset ?b = mset (map ((!) reqs0) ix')" using filter_batch_mset [of ix' reqs] d len cur by auto
    then have "set ?b \<subseteq> set reqs0" using mset_eq_setD [OF b] d(2) by (auto simp: subset_iff)
    then obtain x where "estimate_new_token_ratio_after_retract (de_retract_steps env) (map sched_req.truncate ?b) = Inr x"
      using ratio_ok [of ?b] mx by blast
    then have "retract_decode env embeds spec reqs0 st0 = Inr (map (\<lambda>i. retracted embeds (reqs0 ! i)) es, x, [], ?b, st1)"
      using True l(1) c(1) rel by (simp add: retract_decode_def Let_def)
    moreover have "required ?b \<le> de_available env st1" using required_mset [OF b] c(3) True by simp
    moreover have "held st1 (mset ?b)" using c(2) b by simp
    ultimately show ?thesis using l(2,3,7) b ix(4)
      by (intro exI [of _ ix'] exI [of _ es] exI [of _ x] exI [of _ "[]"] exI [of _ ?b] exI [of _ st1]) simp
  next
    case False
    then obtain k where k: "ix' = [k]" using c(4) by (metis length_0_conv length_Suc_conv One_nat_def)
    have kk: "k < length reqs0" "reqs ! k = reqs0 ! k" "k \<notin> set es" using d k cur by auto
    let ?r = "(reqs0 ! k)\<lparr>to_finish := Some oom_abort\<rparr>"
    have "held st1 (add_mset ?r {#})" using to_finish_free [of st1 "reqs0 ! k" "{#}"] c(2) k by simp
    from release_req_held [OF this] obtain st2 where
      r: "release_req env embeds ?r 0 st1 = Inr (retracted embeds ?r, st2)" "held st2 {#}" by blast
    obtain x where "estimate_new_token_ratio_after_retract (de_retract_steps env) [] = Inr x" using ratio_ok [of "[]"] by auto
    moreover have "map ((!) (reqs[k := retracted embeds ?r])) es = map ((!) reqs) es"
      using kk(3) by (intro map_cong refl nth_list_update_neq) auto
    ultimately have "retract_decode env embeds spec reqs0 st0 =
        Inr (map (\<lambda>i. retracted embeds (reqs0 ! i)) es, x, [retracted embeds ?r], [], st2)"
      using False l(1) c(1) k r(1) kk(1,2) len rel by (simp add: retract_decode_def Let_def filter_batch_def)
    moreover have "held st1 {#reqs0 ! k#}" "de_available env st1 < required [reqs0 ! k]" using c(2,3) False k by simp_all
    ultimately show ?thesis using l(2,7) r(2) ix(4) k
      by (intro exI [of _ "[k]"] exI [of _ es] exI [of _ x] exI [of _ "[retracted embeds ?r]"] exI [of _ "[]"] exI [of _ st2]) auto
  qed
qed

lemma retract_decode_room:
  assumes "held st0 (mset reqs0)" "reqs0 \<noteq> []" "\<forall>r \<in> set reqs0. 0 \<le> max_new_tokens r"
  shows "\<exists>ks ds ratio ab batch st. retract_decode env embeds spec reqs0 st0 = Inr (map (\<lambda>i. retracted embeds (reqs0 ! i)) ds, ratio, ab, batch, st) \<and>
    retract_order spec reqs0 = ks @ rev ds \<and> ks \<noteq> [] \<and> (1 < length reqs0 \<longrightarrow> ds \<noteq> []) \<and> held st (mset batch) \<and>
    (if ab = [] then mset batch = mset (map ((!) reqs0) ks) \<and> (\<exists>n. new_tokens_required_next_decode env batch None = Inr n \<and> n \<le> de_available env st)
     else batch = [] \<and> (\<exists>k st1. ks = [k] \<and> ab = [retracted embeds ((reqs0 ! k)\<lparr>to_finish := Some oom_abort\<rparr>)] \<and> held st1 {#reqs0 ! k#} \<and>
       (\<exists>n. new_tokens_required_next_decode env [reqs0 ! k] None = Inr n \<and> de_available env st1 < n)))"
proof -
  have req: "new_tokens_required_next_decode env rs None = Inr (required rs)" for rs
    using required_next_decode [OF assms(1), of rs None] by simp
  show ?thesis unfolding req using retract_decode_ok [OF assms, of embeds spec] by (simp cong: if_cong)
qed

end

end
