(* ===== verification/Retract_Radix.thy ===== *)
theory Retract_Radix
  imports Retract_Props
begin

text \<open>
  Retraction on the radix cache: the batch gives back rows, slots and locks of the requests it
  retracts, and those it keeps hold on to theirs. The state is the pool of rows, the allocator
  (of any class) and the cache.
\<close>

section \<open>The operations\<close>

type_synonym kv_state = "req_pool \<times> kv_alloc \<times> radix_cache"

fun radix_evict :: "alloc_class \<Rightarrow> (nat list \<Rightarrow> nat list) \<Rightarrow> nat \<Rightarrow> kv_state \<Rightarrow> kv_state result" where
  "radix_evict cls order n (pool, a, c) =
     rbind (evict_from_tree_cache cls order n a (RadixTree c)) (\<lambda>(a1, t).
     case t of RadixTree c1 \<Rightarrow> Inr (pool, a1, c1) | _ \<Rightarrow> Inl AttributeError)"

fun radix_release :: "alloc_class \<Rightarrow> server_args_spec \<Rightarrow> finish_req \<Rightarrow> kv_state \<Rightarrow> (finish_req \<times> kv_state) result" where
  "radix_release cls sa r (pool, a, c) =
     rbind (release_kv_cache (cache_finished_req (al_free cls) (strip_thinking_cache sa) pool) (al_free cls) sa False (req.truncate r) pool a c)
       (\<lambda>(r1, pool1, a1, c1). Inr (req.extend r1 (req.more r), pool1, a1, c1))"

definition radix_decode_env ::
  "alloc_class \<Rightarrow> (nat list \<Rightarrow> nat list) \<Rightarrow> server_args_spec \<Rightarrow> (string \<Rightarrow> bool) \<Rightarrow> nat \<Rightarrow> kv_state decode_env" where
  "radix_decode_env cls order sa has_draft_kv steps =
     \<lparr>de_page_size = sa_page_size sa, de_spec_none = (speculative_algorithm sa = None),
      de_reserve = get_alloc_reserve_per_decode has_draft_kv sa, de_retract_steps = steps,
      de_evict = radix_evict cls order, de_available = (\<lambda>(pool, a, c). al_available_size cls a), de_release = radix_release cls sa\<rparr>"

section \<open>The configuration of the allocator\<close>

type_synonym alloc_conf = "nat \<times> nat \<times> bool \<times> bool \<times> nat"

definition alloc_conf :: "kv_alloc \<Rightarrow> alloc_conf" where
  "alloc_conf a = (ka_size a, ka_page_size a, ka_need_sort a, ka_debug_mode a, ka_num_pages a)"

lemma al_free_conf: "al_free cls a ix = Inr a' \<Longrightarrow> alloc_conf a' = alloc_conf a"
  by (cases cls) (auto simp: alloc_conf_def token_free_def paged_free_def paged_free_step_def Let_def split: if_splits)

interpretation alk: page_pool "al_free cls" "al_used cls" paged_whole "\<lambda>a. al_inv cls a \<and> alloc_conf a = K" paged_cover for cls K
proof
  fix a :: kv_alloc and ix :: "int list"
  assume a: "al_inv cls a \<and> alloc_conf a = K" "distinct ix"
  show "\<exists>a'. al_free cls a ix = Inr a' \<and> (al_inv cls a' \<and> alloc_conf a' = K) \<and> al_used cls a' = al_used cls a - paged_cover a (set ix) \<and>
      paged_whole a' = paged_whole a \<and> paged_cover a' = paged_cover a" if "paged_cover a (set ix) \<subseteq> al_used cls a"
    using al.release_cover [of cls a ix] a that al_free_conf by blast
  show "\<exists>a'. al_free cls a ix = Inr a' \<and> (al_inv cls a' \<and> alloc_conf a' = K) \<and> al_used cls a' = al_used cls a - set ix \<and> paged_whole a' = paged_whole a"
    if "set ix \<subseteq> al_used cls a" "paged_whole a (set ix)"
    using al.release_cover [of cls a ix] a that al_free_conf pgp.cover_whole [OF that(2)] by force
qed (fact pgp.whole_Un pgp.whole_empty pgp.cover_whole pgp.subset_cover pgp.cover_Un pgp.cover_le pgp.cover_disjoint)+

lemma alk_sound_D: "alk.sound cls K c H a \<Longrightarrow> al_inv cls a" "alk.sound cls K c H a \<Longrightarrow> alloc_conf a = K"
  "alk.sound cls K c H a \<Longrightarrow> cache_inv c H"
  by (simp_all add: alk.sound_def)

text \<open>Giving slots back never makes fewer of them available.\<close>

lemma available_mono:
  assumes cls: "cls \<noteq> TokenAllocator" and inv: "al_inv cls a" "al_inv cls a'" and cf: "alloc_conf a' = alloc_conf a"
    and u: "al_used cls a' \<subseteq> al_used cls a"
  shows "length (free_pages a @ release_pages a) \<le> length (free_pages a' @ release_pages a')"
proof -
  have p: "paged_pages b = set (free_pages b @ release_pages b)" "distinct (free_pages b @ release_pages b)"
    "paged_pages b \<subseteq> {1 .. int (ka_num_pages b)}" "0 < ka_page_size b" if "al_inv cls b" for b
    using that cls by (auto simp: al_inv_def paged_inv_def paged_pages_def pending_def)
  have e: "ka_page_size a' = ka_page_size a" "ka_num_pages a' = ka_num_pages a" using cf by (simp_all add: alloc_conf_def)
  have "x \<in> paged_pages a'" if x: "x \<in> paged_pages a" for x
  proof -
    let ?i = "x * int (ka_page_size a)"
    have d: "?i div int (ka_page_size a) = x" "1 \<le> x" "x \<le> int (ka_num_pages a)" using x p(3,4) [OF inv(1)] by auto
    then have "?i \<in> paged_univ a'" "?i \<notin> al_used cls a" using x cls e
      by (simp_all add: al_used_def pgd.used_def paged_univ_def paged_slots_def page_slots_def)
    then have "?i \<in> paged_slots a'" using u cls by (auto simp: al_used_def pgd.used_def)
    then show ?thesis using d(1) e by (simp add: paged_slots_def page_slots_def)
  qed
  then have "card (set (free_pages a @ release_pages a)) \<le> card (set (free_pages a' @ release_pages a'))"
    using p(1) [OF inv(1)] p(1) [OF inv(2)] by (intro card_mono) auto
  then show ?thesis using distinct_card [OF p(2) [OF inv(1)]] distinct_card [OF p(2) [OF inv(2)]] by simp
qed

section \<open>What a running request holds\<close>

definition req_slots :: "req_pool \<Rightarrow> finish_req \<Rightarrow> int list" where
  "req_slots pool r = take (kv_allocated_len r) (req_to_token pool ! the (req_pool_idx r))"

definition committed_key :: "server_args_spec \<Rightarrow> radix_cache \<Rightarrow> finish_req \<Rightarrow> radix_key" where
  "committed_key sa c r = cache_key c (req.truncate r)
     (take (cache_commit_len (strip_thinking_cache sa) (req.truncate r)) (origin_input_ids r @ output_ids r))"

definition own_slots :: "req_pool \<Rightarrow> kv_alloc \<Rightarrow> finish_req \<Rightarrow> int set" where
  "own_slots pool a r = paged_cover a (set (drop (cache_protected_len r) (req_slots pool r)))"

definition lens_ok :: "server_args_spec \<Rightarrow> req_pool \<Rightarrow> finish_req \<Rightarrow> bool" where
  "lens_ok sa pool r \<longleftrightarrow>
     (let n = cache_commit_len (strip_thinking_cache sa) (req.truncate r) in
      length (req_slots pool r) = kv_allocated_len r \<and> n \<le> kv_allocated_len r \<and> n \<le> seqlen (req.truncate r) \<and>
      (speculative_algorithm sa = None \<longrightarrow> \<not> strip_thinking_cache sa \<longrightarrow> n = kv_allocated_len r))"

text \<open>
  The tree holds the first \<^verbatim>\<open>cache_protected_len\<close> slots of the request, under the node it has locked;
  the others belong to it alone.
\<close>

definition req_held :: "alloc_class \<Rightarrow> server_args_spec \<Rightarrow> kv_state \<Rightarrow> finish_req \<Rightarrow> bool" where
  "req_held cls sa = (\<lambda>(pool, a, c) r.
     \<not> kv_committed_freed r \<and> \<not> kv_overallocated_freed r \<and> (\<exists>i < length (req_to_token pool). req_pool_idx r = Some i) \<and>
     lens_ok sa pool r \<and> rc_page_size c dvd cache_protected_len r \<and> cache_protected_len r \<le> rk_len (committed_key sa c r) \<and>
     (\<exists>h w. last_node r = Some h \<and> reaches c h (take (cache_protected_len r) (tunits (committed_key sa c r))) w) \<and>
     al.exclusive cls c a (cache_protected_len r) (req_slots pool r) \<and>
     al.same_page a (rc_page_size c) (cache_protected_len r) (req_slots pool r))"

text \<open>
  \<open>H\<close> are the locks, \<open>others\<close> the rows and \<open>F\<close> the slots of requests outside the batch: of the slots that
  the allocator has given out, \<open>F\<close> are exactly those that neither the tree nor the batch holds. An
  operation that loses a slot, or gives back one of another request, changes \<open>F\<close>.
\<close>

definition radix_held ::
  "alloc_class \<Rightarrow> alloc_conf \<Rightarrow> (nat list \<Rightarrow> nat list) \<Rightarrow> server_args_spec \<Rightarrow> nat multiset \<Rightarrow> nat list \<Rightarrow> int set \<Rightarrow> kv_state \<Rightarrow> finish_req multiset \<Rightarrow> bool" where
  "radix_held cls K order sa H others F = (\<lambda>(pool, a, c) R.
     (\<forall>xs. mset (order xs) = mset xs) \<and> (speculative_algorithm sa \<noteq> None \<longrightarrow> max_speculative_num_draft_tokens sa \<noteq> None) \<and>
     sa_page_size sa = rc_page_size c \<and> ka_page_size a = rc_page_size c \<and> \<not> rc_disable c \<and> alk.sound cls K c (H + image_mset (\<lambda>r. the (last_node r)) R) a \<and>
     (\<exists>rows. mset rows = image_mset (\<lambda>r. the (req_pool_idx r)) R \<and> rows_inv pool (rows @ others)) \<and>
     (\<forall>r \<in># R. req_held cls sa (pool, a, c) r) \<and>
     (\<forall>r R'. R = add_mset r R' \<longrightarrow> (\<forall>s \<in># R'. own_slots pool a r \<inter> own_slots pool a s = {})) \<and>
     al_used cls a - owned c - (\<Union>r \<in> set_mset R. own_slots pool a r) = F)"

section \<open>What others do to it\<close>

lemma paged_cover_least: "j \<in> paged_cover a S \<longleftrightarrow> (\<exists>i \<in> S. \<forall>W. paged_whole a W \<longrightarrow> i \<in> W \<longrightarrow> j \<in> W)"
proof -
  let ?pg = "\<lambda>i. i div int (ka_page_size a)"
  have w: "paged_whole a {j. ?pg j = ?pg i}" for i unfolding paged_whole_def by simp
  have "(\<forall>W. paged_whole a W \<longrightarrow> i \<in> W \<longrightarrow> j \<in> W) \<longleftrightarrow> ?pg j = ?pg i" for i
  proof
    assume "\<forall>W. paged_whole a W \<longrightarrow> i \<in> W \<longrightarrow> j \<in> W"
    from this [rule_format, OF w] show "?pg j = ?pg i" by blast
  next
    assume "?pg j = ?pg i"
    then show "\<forall>W. paged_whole a W \<longrightarrow> i \<in> W \<longrightarrow> j \<in> W" unfolding paged_whole_def by blast
  qed
  then show ?thesis by (auto simp: paged_cover_def page_slots_def)
qed

lemma cover_of_whole: "paged_whole a' = paged_whole a \<Longrightarrow> paged_cover a' = paged_cover a"
  by (intro ext set_eqI) (simp only: paged_cover_least)

lemma committed_key_conf: "conf c' = conf c \<Longrightarrow> committed_key sa c' r = committed_key sa c r"
  using conf_D(2,4) [of c' c] by (simp add: committed_key_def cache_key_def)

lemma own_slots_cong: "paged_cover a' = paged_cover a \<Longrightarrow> req_to_token pool' = req_to_token pool \<Longrightarrow> own_slots pool' a' r = own_slots pool a r"
  by (simp add: own_slots_def req_slots_def)

lemma req_held_transfer:
  assumes h: "req_held cls sa (pool, a, c) r" and eq: "conf c' = conf c" "paged_whole a' = paged_whole a" "req_to_token pool' = req_to_token pool"
    and re: "\<And>u w. reaches c (the (last_node r)) u w \<Longrightarrow> reaches c' (the (last_node r)) u w"
    and own: "own_slots pool a r \<subseteq> al_used cls a' - owned c'"
  shows "req_held cls sa (pool', a', c') r"
proof -
  note cov = cover_of_whole [OF eq(2)]
  have slots: "req_slots pool' r = req_slots pool r" by (simp add: req_slots_def eq(3))
  have "lens_ok sa pool' r = lens_ok sa pool r" by (simp add: lens_ok_def slots)
  moreover have "al.exclusive cls c' a' (cache_protected_len r) (req_slots pool r)"
    using h own cov eq(2) conf_D(2) [OF eq(1)] by (simp add: req_held_def al.exclusive_def own_slots_def)
  moreover have "al.same_page a' (rc_page_size c') (cache_protected_len r) (req_slots pool r)"
    using h cov conf_D(2) [OF eq(1)] by (simp add: req_held_def al.same_page_def)
  moreover have "\<exists>h w. last_node r = Some h \<and> reaches c' h (take (cache_protected_len r) (tunits (committed_key sa c' r))) w"
    using h re committed_key_conf [OF eq(1)] by (fastforce simp: req_held_def)
  ultimately show ?thesis
    using h eq(3) conf_D(2) [OF eq(1)] committed_key_conf [OF eq(1)] by (simp add: req_held_def slots)
qed

lemma own_slots_free: "req_held cls sa (pool, a, c) r \<Longrightarrow> own_slots pool a r \<subseteq> al_used cls a - owned c"
  by (simp add: req_held_def al.exclusive_def own_slots_def)

lemma radix_held_D:
  assumes "radix_held cls K order sa H others F (pool, a, c) R"
  shows "\<And>xs. mset (order xs) = mset xs" "sa_page_size sa = rc_page_size c" "\<not> rc_disable c"
    "alk.sound cls K c (H + image_mset (\<lambda>r. the (last_node r)) R) a" "\<And>r. r \<in># R \<Longrightarrow> req_held cls sa (pool, a, c) r"
  using assms by (simp_all add: radix_held_def)

lemma radix_held_rest:
  "radix_held cls K order sa H others F (pool, a, c) R \<Longrightarrow> al_used cls a - owned c - (\<Union>r \<in> set_mset R. own_slots pool a r) = F"
  by (simp add: radix_held_def)

lemma radix_held_transfer:
  assumes h: "radix_held cls K order sa H others F (pool, a, c) R" and eq: "conf c' = conf c" "paged_whole a' = paged_whole a" "req_to_token pool' = req_to_token pool"
    and R: "R' \<subseteq># R" and s: "alk.sound cls K c' (H + image_mset (\<lambda>r. the (last_node r)) R') a'"
    and rows: "mset rows = image_mset (\<lambda>r. the (req_pool_idx r)) R'" "rows_inv pool' (rows @ others)"
    and re: "\<And>r u w. r \<in># R' \<Longrightarrow> reaches c (the (last_node r)) u w \<Longrightarrow> reaches c' (the (last_node r)) u w"
    and own: "\<And>r. r \<in># R' \<Longrightarrow> own_slots pool a r \<subseteq> al_used cls a' - owned c'"
    and rest: "al_used cls a' - owned c' - (\<Union>r \<in> set_mset R'. own_slots pool a r) = F"
  shows "radix_held cls K order sa H others F (pool', a', c') R'"
proof -
  have "req_held cls sa (pool', a', c') r" if "r \<in># R'" for r
    using req_held_transfer [OF radix_held_D(5) [OF h mset_subset_eqD [OF R that]] eq re [OF that] own [OF that]] .
  moreover have "own_slots pool' a' r \<inter> own_slots pool' a' x = {}" if "R' = add_mset r Q" "x \<in># Q" for r Q x
  proof -
    obtain T where "R = R' + T" using R by (auto simp: mset_subset_eq_exists_conv)
    then have "R = add_mset r (Q + T)" using that(1) by simp
    then have "own_slots pool a r \<inter> own_slots pool a x = {}" using h that(2) by (auto simp: radix_held_def)
    then show ?thesis by (simp add: own_slots_cong [OF cover_of_whole [OF eq(2)] eq(3)])
  qed
  moreover have "alloc_conf a' = alloc_conf a" using alk_sound_D [OF radix_held_D(4) [OF h]] alk_sound_D [OF s] by simp
  then have "ka_page_size a' = ka_page_size a" by (simp add: alloc_conf_def)
  moreover have "al_used cls a' - owned c' - (\<Union>r \<in> set_mset R'. own_slots pool' a' r) = F"
    using rest by (simp add: own_slots_cong [OF cover_of_whole [OF eq(2)] eq(3)])
  ultimately show ?thesis using h s rows conf_D(2,3) [OF eq(1)] by (auto simp: radix_held_def)
qed

lemma radix_held_evict:
  assumes h: "radix_held cls K order sa H others F st R"
  shows "\<exists>st'. radix_evict cls order n st = Inr st' \<and> radix_held cls K order sa H others F st' R"
proof (cases st)
  case (fields pool a c)
  note h = h [unfolded fields]
  note D = radix_held_D [OF h]
  show ?thesis
  proof (cases "al_available_size cls a < n")
    case True
    obtain k a' c' where e: "evict (al_free cls) order n a c = Inr (k, a', c')" "alk.sound cls K c' (H + image_mset (\<lambda>r. the (last_node r)) R) a'"
      "owned c' \<subseteq> owned c" "al_used cls a' = al_used cls a - (owned c - owned c')"
      "\<forall>h u w. h \<in># H + image_mset (\<lambda>r. the (last_node r)) R \<longrightarrow> reaches c h u w \<longrightarrow> reaches c' h u w"
      "paged_whole a' = paged_whole a" "conf c' = conf c"
      using alk.sound_evict [OF D(4,3,1), of n] by (elim exE conjE) (rule that)
    obtain rows where rows: "mset rows = image_mset (\<lambda>r. the (req_pool_idx r)) R" "rows_inv pool (rows @ others)"
      using h by (auto simp: radix_held_def)
    have "own_slots pool a r \<subseteq> al_used cls a' - owned c'" if "r \<in># R" for r
      using own_slots_free [OF D(5) [OF that]] e(3,4) by blast
    moreover have "reaches c' (the (last_node r)) u w" if "r \<in># R" "reaches c (the (last_node r)) u w" for r u w
      using e(5) that by auto
    moreover have "al_used cls a' - owned c' - (\<Union>r \<in> set_mset R. own_slots pool a r) = F"
      using radix_held_rest [OF h] e(3,4) by blast
    ultimately have "radix_held cls K order sa H others F (pool, a', c') R"
      using radix_held_transfer [OF h e(7,6) refl subset_mset.order_refl e(2) rows] by blast
    then show ?thesis using True e(1) by (simp add: fields evict_from_tree_cache_def)
  next
    case False
    then show ?thesis using h by (simp add: fields evict_from_tree_cache_def)
  qed
qed

lemma radix_held_release:
  assumes h: "radix_held cls K order sa H others F st (add_mset r R)"
  shows "\<exists>st'. radix_release cls sa r st = Inr (freed r, st') \<and> radix_held cls K order sa H others F st' R"
proof (cases st)
  case (fields pool a c)
  note h = h [unfolded fields]
  note D = radix_held_D [OF h]
  have r: "req_held cls sa (pool, a, c) r" using D(5) by simp
  let ?q = "req.truncate r" and ?H = "H + image_mset (\<lambda>r. the (last_node r)) (add_mset r R)"
  obtain i h w where i: "req_pool_idx r = Some i" "i < length (req_to_token pool)" "last_node r = Some h"
    "reaches c h (take (cache_protected_len r) (tunits (committed_key sa c r))) w"
    using r by (auto simp: req_held_def)
  obtain rows where rows: "mset rows = add_mset i (image_mset (\<lambda>r. the (req_pool_idx r)) R)" "rows_inv pool (rows @ others)"
    using h i(1) by (auto simp: radix_held_def)
  then have "i \<in> set rows" by (metis set_mset_mset union_single_eq_member add_mset_add_single union_commute)
  then obtain xs ys where "rows = xs @ i # ys" by (meson split_list)
  then have rw: "mset (xs @ ys) = image_mset (\<lambda>r. the (req_pool_idx r)) R" "rows_inv pool (i # (xs @ ys) @ others)"
    using rows by (auto simp: rows_inv_def)
  have q: "req_pool_idx ?q = Some i" "last_node ?q = Some h" "cache_protected_len ?q = cache_protected_len r"
    "kv_allocated_len ?q = kv_allocated_len r" "origin_input_ids ?q = origin_input_ids r" "output_ids ?q = output_ids r"
    "\<not> kv_committed_freed ?q" "\<not> kv_overallocated_freed ?q"
    using r i by (simp_all add: req.truncate_def req_held_def)
  have full: "req_slots pool r = take (kv_allocated_len ?q) (req_to_token pool ! i)" using i(1) q(4) by (simp add: req_slots_def)
  have toks: "take (cache_protected_len r) (tunits (committed_key sa c r)) = take (cache_protected_len ?q)
      (tunits (cache_key c ?q (take (cache_commit_len (strip_thinking_cache sa) ?q) (origin_input_ids ?q @ output_ids ?q))))"
    by (simp only: q committed_key_def)
  have len: "length (req_slots pool r) = kv_allocated_len ?q" "cache_commit_len (strip_thinking_cache sa) ?q \<le> kv_allocated_len ?q"
    "cache_commit_len (strip_thinking_cache sa) ?q \<le> seqlen ?q"
    "speculative_algorithm sa = None \<Longrightarrow> \<not> strip_thinking_cache sa \<Longrightarrow> cache_commit_len (strip_thinking_cache sa) ?q = kv_allocated_len ?q"
    using r by (simp_all add: req_held_def lens_ok_def Let_def q)
  have p: "rc_page_size c dvd cache_protected_len ?q" "cache_protected_len ?q \<le> rk_len (cache_key c ?q (take (cache_commit_len (strip_thinking_cache sa) ?q)
      (origin_input_ids ?q @ output_ids ?q)))"
    "al.exclusive cls c a (cache_protected_len ?q) (req_slots pool r)" "al.same_page a (rc_page_size c) (cache_protected_len ?q) (req_slots pool r)"
    using r by (simp_all add: req_held_def committed_key_def q)
  have lk: "set_option (last_node ?q) \<subseteq> set_mset ?H" using i(3) q(2) by simp
  note rel = alk.release_req_ok [OF D(4,3) q(7,8,1) i(2) rw(2) full len(1) refl len(2,3) refl D(2) p(1,2) _ p(3,4) lk len(4), of w False]
  obtain pool' a' c' where f: "release_kv_cache (cache_finished_req (al_free cls) (strip_thinking_cache sa) pool) (al_free cls) sa False ?q pool a c =
      Inr (?q\<lparr>kv_committed_freed := True, kv_overallocated_freed := True, req_pool_idx := None\<rparr>, pool', a', c')"
    "rows_inv pool' ((xs @ ys) @ others)" "alk.sound cls K c' (?H - {#h#}) a'" "owned c' = owned c" "al_used cls a' = al_used cls a - own_slots pool a r"
    "req_to_token pool' = req_to_token pool" "conf c' = conf c" "paged_whole a' = paged_whole a" "\<forall>k u w. reaches c k u w \<longrightarrow> reaches c' k u w"
    using rel reaches_cached [OF i(4)] toks q(2,3) by (auto simp: own_slots_def)
  have "own_slots pool a x \<subseteq> al_used cls a' - owned c'" if "x \<in># R" for x
  proof -
    have "own_slots pool a r \<inter> own_slots pool a x = {}" using h that by (auto simp: radix_held_def)
    moreover have "own_slots pool a x \<subseteq> al_used cls a - owned c" using that by (intro own_slots_free [OF D(5)]) simp
    ultimately show ?thesis using f(4,5) by blast
  qed
  moreover have "alk.sound cls K c' (H + image_mset (\<lambda>r. the (last_node r)) R) a'" using f(3) i(3) by simp
  moreover have "al_used cls a' - owned c' - (\<Union>x \<in> set_mset R. own_slots pool a x) = F"
    using radix_held_rest [OF h] f(4,5) by auto
  ultimately have "radix_held cls K order sa H others F (pool', a', c') R"
    using radix_held_transfer [OF h f(7,8,6) _ _ rw(1) f(2)] f(9) by auto
  moreover have "req.extend (?q\<lparr>kv_committed_freed := True, kv_overallocated_freed := True, req_pool_idx := None\<rparr>) (req.more r) = freed r"
    by (rule req.equality) (simp_all add: freed_def req.truncate_def req.extend_def)
  ultimately show ?thesis using f(1) by (simp add: fields)
qed

section \<open>The interface is met\<close>

lemma radix_held_env:
  assumes "radix_held cls K order sa H others F st R"
  shows "0 < sa_page_size sa" "speculative_algorithm sa \<noteq> None \<Longrightarrow> \<exists>n. get_alloc_reserve_per_decode has_draft_kv sa = Inr n"
proof -
  obtain pool a c where st: "st = (pool, a, c)" by (cases st)
  show "0 < sa_page_size sa" using radix_held_D(2,4) [OF assms [unfolded st]] cache_inv_ps by (auto simp: alk.sound_def)
  show "\<exists>n. get_alloc_reserve_per_decode has_draft_kv sa = Inr n" if "speculative_algorithm sa \<noteq> None"
    using that assms by (auto simp: st radix_held_def get_alloc_reserve_per_decode_def get_alloc_len_per_decode_def Let_def)
qed

lemma radix_held_to_finish:
  assumes "radix_held cls K order sa H others F st (add_mset r R)"
  shows "radix_held cls K order sa H others F st (add_mset (r\<lparr>to_finish := x\<rparr>) R)"
proof (cases st)
  case (fields pool a c)
  note h = assms [unfolded fields]
  let ?r = "r\<lparr>to_finish := x\<rparr>"
  have "req.truncate ?r = req.truncate r" by (simp add: req.truncate_def)
  then have same: "req_slots pool ?r = req_slots pool r" "committed_key sa c ?r = committed_key sa c r" "lens_ok sa pool ?r = lens_ok sa pool r"
    "own_slots pool a ?r = own_slots pool a r"
    by (simp_all add: req_slots_def committed_key_def lens_ok_def own_slots_def)
  have "req_held cls sa (pool, a, c) r" using radix_held_D(5) [OF h] by simp
  then have "req_held cls sa (pool, a, c) ?r" by (simp add: req_held_def same)
  moreover have "own_slots pool a s \<inter> own_slots pool a t = {}" if eq: "add_mset ?r R = add_mset s Q" and t: "t \<in># Q" for s t Q
  proof -
    have dis: "own_slots pool a s \<inter> own_slots pool a t = {}" if "add_mset r R = add_mset s Q" "t \<in># Q" for s t Q
      using h that by (auto simp: radix_held_def)
    from eq consider "s = ?r" "Q = R" | K where "R = add_mset s K" "Q = add_mset ?r K" by (auto simp: add_eq_conv_ex)
    then show ?thesis
    proof cases
      case 1
      then show ?thesis using dis [OF refl] t same(4) by simp
    next
      case 2
      then have "add_mset r R = add_mset s (add_mset r K)" by simp
      then show ?thesis using dis [of s "add_mset r K" t] dis [of s "add_mset r K" r] t 2(2) same(4) by auto
    qed
  qed
  moreover have "al_used cls a - owned c - (\<Union>s \<in> set_mset (add_mset ?r R). own_slots pool a s) = F"
    using radix_held_rest [OF h] same(4) by simp
  ultimately show ?thesis using h by (simp add: fields radix_held_def)
qed

interpretation rad: retract_env "radix_decode_env cls order sa has_draft_kv steps" "radix_held cls K order sa H others F"
  for cls K order sa has_draft_kv steps H others F
  using radix_held_env radix_held_evict radix_held_release radix_held_to_finish
  by unfold_locales (simp_all add: radix_decode_env_def)

end
