(* ===== verification/Decode_Step.thy ===== *)
theory Decode_Step
  imports Retract_Radix
begin

text \<open>
  The decode step that follows \<^verbatim>\<open>check_decode_mem\<close>: when the check says that the memory suffices,
  \<^verbatim>\<open>alloc_for_decode\<close> gives every request of the batch a slot that nobody else holds and writes it into
  the row of the request, with the token allocator and with the paged allocator.
\<close>

section \<open>Writing the rows\<close>

lemma scatter_rows_writes:
  "list_all2 (\<lambda>ri l. ri < length rows \<and> l < length (rows ! ri)) ris ls \<Longrightarrow> distinct ris \<Longrightarrow> length vs = length ris \<Longrightarrow>
    \<exists>rows'. scatter_rows ris ls vs rows = Inr rows' \<and> (\<forall>i < length ris. rows' ! (ris ! i) = (rows ! (ris ! i))[ls ! i := vs ! i]) \<and>
      (\<forall>k. k \<notin> set ris \<longrightarrow> rows' ! k = rows ! k)"
proof (induction ris ls vs rows rule: scatter_rows.induct)
  case (1 ri ris l ls v vs rows)
  let ?rows = "rows[ri := (rows ! ri)[l := v]]"
  have i: "ri < length rows" "l < length (rows ! ri)" "list_all2 (\<lambda>ri l. ri < length rows \<and> l < length (rows ! ri)) ris ls"
    "ri \<notin> set ris" "distinct ris" "length vs = length ris"
    using "1.prems" by simp_all
  have "list_all2 (\<lambda>ri l. ri < length ?rows \<and> l < length (?rows ! ri)) ris ls"
    using i(3) by (rule list_all2_mono) (simp, metis i(1) length_list_update nth_list_update)
  then obtain rows' where r: "scatter_rows ris ls vs ?rows = Inr rows'"
    "\<forall>i < length ris. rows' ! (ris ! i) = (?rows ! (ris ! i))[ls ! i := vs ! i]" "\<forall>k. k \<notin> set ris \<longrightarrow> rows' ! k = ?rows ! k"
    using "1.IH" i by blast
  have "rows' ! ((ri # ris) ! k) = (rows ! ((ri # ris) ! k))[(l # ls) ! k := (v # vs) ! k]" if "k < length (ri # ris)" for k
  proof (cases k)
    case 0
    then show ?thesis using r(3) i(1,4) by simp
  next
    case (Suc m)
    then have "ris ! m \<noteq> ri" using that i(4) by auto
    then show ?thesis using r(2) Suc that by simp
  qed
  moreover have "rows' ! k = rows ! k" if "k \<notin> set (ri # ris)" for k using r(3) that by simp
  ultimately show ?case using r(1) i(1,2) by auto
qed auto

section \<open>What the requests hold\<close>

text \<open>The position after the last token of a running request is free in its row, and the last token has the offset of its position.\<close>

definition decode_ready :: "nat \<Rightarrow> req_pool \<Rightarrow> finish_req \<Rightarrow> bool" where
  "decode_ready ps pool r \<longleftrightarrow>
     (let row = req_to_token pool ! the (req_pool_idx r) in
      0 < kv_committed_len r \<and> kv_committed_len r \<le> kv_allocated_len r \<and> kv_committed_len r < length row \<and>
      (row ! (kv_committed_len r - 1) + 1) mod int ps = int (kv_committed_len r mod ps))"

lemma own_slots_disjoint:
  assumes "radix_held cls K order sa H others F (pool, a, c) (mset batch)" "i < length batch" "j < length batch" "i \<noteq> j"
  shows "own_slots pool a (batch ! i) \<inter> own_slots pool a (batch ! j) = {}"
proof -
  let ?R = "take i batch @ drop (Suc i) batch"
  have "mset batch = add_mset (batch ! i) (mset ?R)"
    using arg_cong [OF id_take_nth_drop [OF assms(2)], of mset] by simp
  moreover have "batch ! j \<in> set ?R"
  proof (cases "j < i")
    case True
    then have "take i batch ! j \<in> set (take i batch)" using assms(2) by (intro nth_mem) simp
    then show ?thesis using True by simp
  next
    case False
    then have j: "Suc i + (j - Suc i) = j" using assms(4) by simp
    have "drop (Suc i) batch ! (j - Suc i) \<in> set (drop (Suc i) batch)" using False assms(3,4) by (intro nth_mem) simp
    then show ?thesis using assms(2,3) j by simp
  qed
  ultimately show ?thesis using assms(1) by (simp add: radix_held_def)
qed

lemma last_slot_own:
  assumes h: "req_held cls sa (pool, a, c) r" and rd: "decode_ready ps pool r" and ps: "ps = rc_page_size c" "0 < ps"
    and part: "kv_committed_len r mod ps \<noteq> 0"
  shows "req_to_token pool ! the (req_pool_idx r) ! (kv_committed_len r - 1) \<in> set (drop (cache_protected_len r) (req_slots pool r))"
proof -
  let ?s = "kv_committed_len r" and ?p = "cache_protected_len r" and ?row = "req_to_token pool ! the (req_pool_idx r)"
  have s: "0 < ?s" "?s \<le> kv_allocated_len r" "?s < length ?row" using rd by (simp_all add: decode_ready_def Let_def)
  have len: "length (req_slots pool r) = kv_allocated_len r" using h by (simp add: req_held_def lens_ok_def Let_def)
  have "?p \<le> rk_len (committed_key sa c r)" "ps dvd ?p" using h ps by (simp_all add: req_held_def)
  moreover have "rk_len (committed_key sa c r) \<le> ?s"
  proof -
    have "cache_commit_len (strip_thinking_cache sa) (req.truncate r) \<le> ?s"
      by (simp add: cache_commit_len_def req.truncate_def)
    then show ?thesis unfolding committed_key_def using rk_len_cache_key_le by (rule_tac le_trans) (assumption, simp)
  qed
  moreover have "?p \<noteq> ?s" using calculation(2) part by auto
  ultimately have p: "?p < ?s" by simp
  then have "drop ?p (req_slots pool r) ! (?s - 1 - ?p) = ?row ! (?s - 1)"
    using s len by (simp add: req_slots_def)
  moreover have "?s - 1 - ?p < length (drop ?p (req_slots pool r))" using p s len by simp
  ultimately show ?thesis by (metis nth_mem)
qed

lemma own_slots_page: "y \<in> set (drop (cache_protected_len r) (req_slots pool r)) \<Longrightarrow>
    x div int (ka_page_size a) = y div int (ka_page_size a) \<Longrightarrow> x \<in> own_slots pool a r"
  by (auto simp: own_slots_def paged_cover_def page_slots_def)

lemma next_on_page:
  fixes x p :: int
  assumes "0 < p" "(x + 1) mod p \<noteq> 0"
  shows "(x + 1) div p = x div p"
proof (rule int_div_pos_eq [where r = "x mod p + 1"])
  show "x + 1 = p * (x div p) + (x mod p + 1)" by (simp add: mult_div_mod_eq)
  show "0 \<le> x mod p + 1" using pos_mod_sign [OF assms(1), of x] by linarith
  have "x mod p + 1 \<noteq> p" using assms(2) mod_add_left_eq [of x p 1] by auto
  then show "x mod p + 1 < p" using pos_mod_bound [OF assms(1), of x] by linarith
qed

section \<open>The token allocator\<close>

lemma token_decode_step:
  assumes h: "radix_held TokenAllocator K order sa H others F (pool, a, c) R" and room: "n \<le> al_available_size TokenAllocator a"
  shows "\<exists>ix st a' c'. alloc_token_slots TokenAllocator order n False a (RadixTree c) = Inr ((ix, st), a', RadixTree c') \<and>
    length ix = n \<and> distinct ix \<and> (\<forall>x \<in> set ix. x \<in> al_used TokenAllocator a' - owned c' - F \<and> (\<forall>r \<in># R. x \<notin> own_slots pool a r))"
proof -
  note D = radix_held_D [OF h]
  have s: "tkr.sound (ka_size a) c (H + image_mset (\<lambda>r. the (last_node r)) R) a"
    using D(4) unfolding alk.sound_def by (intro al_sound_token) (simp add: al.sound_def)
  obtain ix st a' c' where f: "alloc_token_slots TokenAllocator order n False a (RadixTree c) = Inr ((ix, st), a', RadixTree c')"
    "length ix = n" "distinct ix" "set ix \<subseteq> tok.used a' - owned c'" "set ix \<inter> (tok.used a - (owned c - owned c')) = {}"
    using alloc_token_slots_ok [OF s D(3,1), of n False] room by auto
  have "F \<subseteq> tok.used a - owned c" using radix_held_rest [OF h] by (auto simp: al_used_def)
  moreover have "own_slots pool a r \<subseteq> tok.used a - owned c" if "r \<in># R" for r
    using own_slots_free [OF D(5) [OF that]] by (simp add: al_used_def)
  ultimately have "\<forall>x \<in> set ix. x \<in> al_used TokenAllocator a' - owned c' - F \<and> (\<forall>r \<in># R. x \<notin> own_slots pool a r)"
    using f(4,5) unfolding al_used_def by auto blast
  then show ?thesis using f(1-3) by blast
qed

section \<open>The paged allocator\<close>

lemma short_merge_room:
  assumes "al_inv cls a" "n \<le> bs" "n \<le> length (free_pages a @ release_pages a)"
  shows "n \<le> length (free_pages (merge_if_short bs a))"
  using assms by (auto simp: merge_if_short_def merge_and_sort_free_def al_inv_def)

text \<open>Eviction keeps what is held and never takes a free page away.\<close>

lemma evict_keeps_held:
  assumes h: "radix_held cls K order sa H others F (pool, a, c) R"
  shows "\<exists>a1 c1. evict_from_tree_cache cls order n a (RadixTree c) = Inr (a1, RadixTree c1) \<and>
    radix_held cls K order sa H others F (pool, a1, c1) R \<and> al_used cls a1 \<subseteq> al_used cls a \<and> alloc_conf a1 = alloc_conf a"
proof -
  note D = radix_held_D [OF h]
  have "\<exists>a1 c1. evict_from_tree_cache cls order n a (RadixTree c) = Inr (a1, RadixTree c1) \<and> al_used cls a1 \<subseteq> al_used cls a"
    using alk.sound_evict [OF D(4,3,1), of n] by (fastforce simp: evict_from_tree_cache_def)
  then obtain a1 c1 where e: "evict_from_tree_cache cls order n a (RadixTree c) = Inr (a1, RadixTree c1)" "al_used cls a1 \<subseteq> al_used cls a" by blast
  have h1: "radix_held cls K order sa H others F (pool, a1, c1) R" using radix_held_evict [OF h, of n] e(1) by auto
  then have "alloc_conf a1 = alloc_conf a" using alk_sound_D(2) [OF D(4)] alk_sound_D(2) [OF radix_held_D(4) [OF h1]] by simp
  then show ?thesis using e h1 by blast
qed

lemma paged_used_iff:
  "x \<in> al_used PagedAllocator a \<longleftrightarrow>
     x div int (ka_page_size a) \<in> {1 .. int (ka_num_pages a)} \<and> x div int (ka_page_size a) \<notin> paged_pages a"
  by (auto simp: al_used_def pgd.used_def paged_univ_def paged_slots_def page_slots_def)

text \<open>The last tokens are placed as the decode kernel expects it.\<close>

lemma batch_well_placed:
  assumes h: "radix_held PagedAllocator K order sa H others F (pool, a, c) (mset batch)" and ps: "ps = ka_page_size a" "ps = rc_page_size c"
    and rd: "\<forall>r \<in> set batch. decode_ready ps pool r" and fp: "distinct fp" "set fp \<subseteq> paged_pages a"
  defines "lasts \<equiv> gather_last (req_to_token pool) (map (\<lambda>r. the (req_pool_idx r)) batch) (map kv_committed_len batch)"
  shows "well_placed ps fp (map kv_committed_len batch) lasts"
    and "\<And>i. i < length batch \<Longrightarrow> kv_committed_len (batch ! i) mod ps \<noteq> 0 \<Longrightarrow>
      lasts ! i \<in> set (drop (cache_protected_len (batch ! i)) (req_slots pool (batch ! i)))"
    and "length lasts = length batch"
proof -
  note D = radix_held_D [OF h]
  have pos: "0 < ps" using alk_sound_D(1) [OF D(4)] ps(1) by (simp add: al_inv_def paged_inv_def)
  have rdi: "decode_ready ps pool (batch ! i)" if "i < length batch" for i using rd that by simp
  show len: "length lasts = length batch" by (simp add: lasts_def gather_last_def)
  have l: "lasts ! i = req_to_token pool ! the (req_pool_idx (batch ! i)) ! (kv_committed_len (batch ! i) - 1)" if "i < length batch" for i
    using rdi [OF that] that by (simp add: lasts_def gather_last_def decode_ready_def Let_def)
  show own: "lasts ! i \<in> set (drop (cache_protected_len (batch ! i)) (req_slots pool (batch ! i)))"
    if "i < length batch" "kv_committed_len (batch ! i) mod ps \<noteq> 0" for i
    unfolding l [OF that(1)] using last_slot_own [OF D(5) rdi [OF that(1)] ps(2) pos that(2)] that(1) by simp
  have mem: "lasts ! i \<in> own_slots pool a (batch ! i)" if "i < length batch" "kv_committed_len (batch ! i) mod ps \<noteq> 0" for i
    by (rule own_slots_page [OF own [OF that] refl])
  have "lasts ! i div int ps \<notin> set fp" if "i < length batch" "kv_committed_len (batch ! i) mod ps \<noteq> 0" for i
  proof -
    have "lasts ! i \<in> al_used PagedAllocator a" using mem [OF that] own_slots_free [OF D(5), of "batch ! i"] that(1) by auto
    then show ?thesis using fp(2) ps(1) by (auto simp: paged_used_iff)
  qed
  moreover have "i = j" if "i < length batch" "j < length batch" "kv_committed_len (batch ! i) mod ps \<noteq> 0"
    "kv_committed_len (batch ! j) mod ps \<noteq> 0" "lasts ! i div int ps = lasts ! j div int ps" for i j
  proof (rule ccontr)
    assume "i \<noteq> j"
    moreover have "lasts ! i \<in> own_slots pool a (batch ! j)"
      using own_slots_page [OF own [OF that(2,4)]] that(5) ps(1) by simp
    ultimately show False using mem [OF that(1,3)] own_slots_disjoint [OF h that(1,2)] by auto
  qed
  moreover have "(lasts ! i + 1) mod int ps = int (kv_committed_len (batch ! i) mod ps)" if "i < length batch" for i
    using rdi [OF that] unfolding l [OF that] by (simp add: decode_ready_def Let_def)
  ultimately show "well_placed ps fp (map kv_committed_len batch) lasts"
    using fp(1) by (simp add: well_placed_def)
qed

text \<open>The pages that a decode step takes become used, and no other page does.\<close>

lemma taken_page_used:
  assumes inv: "paged_inv a" and pg: "x div int (ka_page_size a) \<in> set (take n (free_pages a))"
  shows "x \<in> al_used PagedAllocator (a\<lparr>free_pages := drop n (free_pages a)\<rparr>)"
proof -
  let ?p = "x div int (ka_page_size a)"
  have mem: "?p \<in> set (free_pages a)" using pg by (rule in_set_takeD)
  have "distinct ((take n (free_pages a) @ drop n (free_pages a)) @ release_pages a)"
    unfolding append_take_drop_id using inv by (simp add: paged_inv_def)
  then have d: "distinct (take n (free_pages a) @ drop n (free_pages a) @ release_pages a)" by (simp only: append_assoc)
  have "?p \<notin> set (drop n (free_pages a)) \<union> set (release_pages a)" using pg d by auto
  moreover have "?p \<notin> (\<lambda>i. i div int (ka_page_size a)) ` set (pending a)" using mem inv by (auto simp: paged_inv_def)
  moreover have "pending (a\<lparr>free_pages := drop n (free_pages a)\<rparr>) = pending a" by (simp add: pending_def)
  moreover have "?p \<in> {1 .. int (ka_num_pages a)}" using mem inv by (auto simp: paged_inv_def paged_pages_def)
  ultimately show ?thesis unfolding paged_used_iff by (auto simp: paged_pages_def)
qed

lemma paged_decode_step:
  assumes h: "radix_held PagedAllocator K order sa H others F (pool, a, c) (mset batch)" and ps: "2 \<le> sa_page_size sa"
    and dv: "device_ok dv" and rd: "\<forall>r \<in> set batch. decode_ready (sa_page_size sa) pool r"
    and room: "length (filter (\<lambda>r. kv_committed_len r mod sa_page_size sa = 0) batch) * sa_page_size sa \<le> al_available_size PagedAllocator a"
  defines "seqs \<equiv> map kv_committed_len batch"
  shows "\<exists>out a' c'. alloc_paged_token_slots_decode PagedAllocator dv order (map (\<lambda>s. s + 1) seqs)
      (gather_last (req_to_token pool) (map (\<lambda>r. the (req_pool_idx r)) batch) seqs) a (RadixTree c) = Inr (out, a', RadixTree c') \<and>
    length out = length batch \<and> distinct out \<and>
    (\<forall>i < length batch. out ! i \<in> al_used PagedAllocator a' - owned c' - F \<and>
       (\<forall>j < length batch. j \<noteq> i \<longrightarrow> out ! i \<notin> own_slots pool a (batch ! j)))"
proof -
  let ?ps = "sa_page_size sa" and ?bs = "length batch" and ?seqs = "map (\<lambda>s. s + 1) seqs"
  let ?lasts = "gather_last (req_to_token pool) (map (\<lambda>r. the (req_pool_idx r)) batch) seqs"
  let ?n = "length (filter (\<lambda>r. kv_committed_len r mod ?ps = 0) batch)"
  obtain a1 c1 where e: "evict_from_tree_cache PagedAllocator order (length ?seqs * ka_page_size a) a (RadixTree c) = Inr (a1, RadixTree c1)"
    "radix_held PagedAllocator K order sa H others F (pool, a1, c1) (mset batch)" "al_used PagedAllocator a1 \<subseteq> al_used PagedAllocator a"
    "alloc_conf a1 = alloc_conf a" using evict_keeps_held [OF h] by blast
  note D = radix_held_D [OF e(2)]
  have k: "ka_page_size a = ?ps" "ka_page_size a1 = ?ps" "rc_page_size c1 = ?ps"
    using h e(2) D(2) by (simp_all add: radix_held_def)
  have i0: "al_inv PagedAllocator a" "al_inv PagedAllocator a1"
    using alk_sound_D(1) [OF radix_held_D(4) [OF h]] alk_sound_D(1) [OF D(4)] .
  define a2 where "a2 = merge_if_short (length ?seqs) a1"
  let ?fp = "free_pages a2"
  have i2: "paged_inv a2" "paged_pages a2 = paged_pages a1" "ka_page_size a2 = ?ps"
    using i0(2) by (simp_all add: a2_def paged_merge k al_inv_def)
  have "?n \<le> length (free_pages a @ release_pages a)" using room ps k by (simp add: base_available_size_def)
  also have "\<dots> \<le> length (free_pages a1 @ release_pages a1)" using available_mono [OF _ i0 e(4,3)] by simp
  finally have fit: "?n \<le> length ?fp" unfolding a2_def by (intro short_merge_room [OF i0(2)]) (simp_all add: seqs_def)
  have pre: "pre_of ?seqs = seqs" by (simp add: pre_of_def comp_def)
  have pos: "\<forall>s \<in> set ?seqs. 0 < s" and p0: "0 < ?ps" and bs: "length ?seqs = ?bs" using ps by (simp_all add: seqs_def)
  have np: "new_pages ?ps seqs ?seqs = map (\<lambda>s. if s mod ?ps = 0 then 1 else 0) seqs"
  proof -
    have "Suc s mod ?ps = Suc 0 \<longleftrightarrow> s mod ?ps = 0" for s using ps by (simp add: mod_Suc)
    then show ?thesis using new_pages_decode [OF ps pos] unfolding pre by (simp add: comp_def)
  qed
  then have sum: "sum_list (new_pages ?ps seqs ?seqs) = ?n"
    by (simp only: sum_list_indicator seqs_def) (simp add: filter_map comp_def)
  have fp: "distinct ?fp" "set ?fp \<subseteq> paged_pages a1" using i2 by (auto simp: paged_inv_def paged_pages_def)
  note W = batch_well_placed [OF e(2) k(2,3) [symmetric] rd fp, folded seqs_def]
  have b: "extend_batch ?ps ?fp seqs ?seqs ?lasts"
    unfolding extend_batch_def sum using ps fit W(3) by (simp add: seqs_def)
  have b': "extend_batch (ka_page_size a1) (free_pages (merge_if_short (length ?seqs) a1)) (pre_of ?seqs) ?seqs ?lasts"
    and w': "well_placed (ka_page_size a1) (free_pages (merge_if_short (length ?seqs) a1)) (pre_of ?seqs) ?lasts"
    using b W(1) by (simp_all only: k pre a2_def [symmetric])
  let ?out = "batch_locs ?ps ?fp seqs ?seqs ?lasts" and ?a' = "a2\<lparr>free_pages := drop ?n ?fp\<rparr>"
  have "2 \<le> ka_page_size a1" using ps k by simp
  from paged_alloc_decode_ok [OF dv b' w' this pos]
  have dec: "paged_alloc_decode dv a1 ?seqs ?lasts = Inr (Some ?out, ?a')" by (simp only: k pre a2_def [symmetric] sum)
  then have res: "alloc_paged_token_slots_decode PagedAllocator dv order ?seqs ?lasts a (RadixTree c) = Inr (?out, ?a', RadixTree c1)"
    using e(1) by (simp add: alloc_paged_token_slots_decode_def)
  have out: "?out = map (\<lambda>i. if new_pages ?ps seqs ?seqs ! i = 0 then ?lasts ! i + 1
      else ?fp ! sum_list (take i (new_pages ?ps seqs ?seqs)) * int ?ps) [0 ..< ?bs]"
    by (rule batch_locs_decode [OF p0 pos, of ?fp ?lasts, unfolded pre bs])
  have own1: "own_slots pool a1 r = own_slots pool a r" for r
    by (intro own_slots_cong refl ext) (simp add: paged_cover_def k)
  have free: "y \<in> al_used PagedAllocator ?a' - owned c1 - F \<and> (\<forall>r \<in> set batch. y \<notin> own_slots pool a r)"
    if "y div int ?ps \<in> set (take ?n ?fp)" for y
  proof -
    have "y \<in> al_used PagedAllocator ?a'" using taken_page_used [OF i2(1), of y ?n] that i2(3) by simp
    moreover have "y \<notin> al_used PagedAllocator a1" using in_set_takeD [OF that] fp(2) k(2) by (auto simp: paged_used_iff)
    moreover have "owned c1 \<subseteq> al_used PagedAllocator a1" using alk.sound_owned [OF D(4)] .
    moreover have "F \<subseteq> al_used PagedAllocator a1" using radix_held_rest [OF e(2)] by blast
    moreover have "own_slots pool a r \<subseteq> al_used PagedAllocator a1" if "r \<in> set batch" for r
      using own_slots_free [OF D(5), of r] that own1 by auto
    ultimately show ?thesis by blast
  qed
  have less: "paged_pages ?a' \<subseteq> paged_pages a2" using in_set_dropD [of _ ?n ?fp] by (auto simp: paged_pages_def pending_def)
  have "ka_num_pages a2 = ka_num_pages a1" by (simp add: a2_def paged_merge)
  then have kept: "x \<in> al_used PagedAllocator ?a'" if "x \<in> al_used PagedAllocator a1" for x
    using that less i2(2,3) k(2) by (auto simp: paged_used_iff)
  have "?out ! i \<in> al_used PagedAllocator ?a' - owned c1 - F \<and> (\<forall>j < ?bs. j \<noteq> i \<longrightarrow> ?out ! i \<notin> own_slots pool a (batch ! j))"
    if i: "i < ?bs" for i
  proof (cases "kv_committed_len (batch ! i) mod ?ps = 0")
    case True
    then have one: "new_pages ?ps seqs ?seqs ! i = 1" using i unfolding np by (simp add: seqs_def)
    let ?k = "sum_list (take i (new_pages ?ps seqs ?seqs))"
    have "i < length (new_pages ?ps seqs ?seqs)" using i by (simp add: seqs_def)
    from sum_list_take_Suc_le [OF this] one sum have "?k < ?n" by linarith
    then have "?fp ! ?k \<in> set (take ?n ?fp)" using fit nth_mem [of ?k "take ?n ?fp"] by simp
    moreover have "?out ! i = ?fp ! ?k * int ?ps" using one i unfolding out by simp
    ultimately have "?out ! i div int ?ps \<in> set (take ?n ?fp)" using p0 by simp
    then show ?thesis using free by simp
  next
    case False
    have o: "?out ! i = ?lasts ! i + 1" using False i unfolding out np by (simp add: seqs_def)
    have "(?lasts ! i + 1) mod int ?ps \<noteq> 0" using W(1) i False by (simp add: well_placed_def seqs_def)
    then have "(?lasts ! i + 1) div int ?ps = ?lasts ! i div int ?ps"
      using p0 by (intro next_on_page) simp_all
    then have mem: "?out ! i \<in> own_slots pool a1 (batch ! i)"
      using own_slots_page [OF W(2) [OF i False], of "?out ! i" a1] o k(2) by simp
    then have "?out ! i \<in> al_used PagedAllocator a1 - owned c1" "?out ! i \<notin> F"
      using own_slots_free [OF D(5), of "batch ! i"] radix_held_rest [OF e(2)] i by auto
    moreover have "?out ! i \<notin> own_slots pool a (batch ! j)" if "j < ?bs" "j \<noteq> i" for j
      using mem own_slots_disjoint [OF e(2) i that(1)] that(2) own1 by auto
    ultimately show ?thesis using kept by simp
  qed
  moreover have "length ?out = ?bs" unfolding out by simp
  moreover have "distinct ?out" by (rule distinct_batch_locs [OF b W(1)])
  ultimately show ?thesis using res by blast
qed

section \<open>The whole step\<close>

lemma batch_rows_distinct:
  assumes "radix_held cls K order sa H others F (pool, a, c) (mset batch)"
  shows "distinct (map (\<lambda>r. the (req_pool_idx r)) batch)"
proof -
  obtain rows where r: "mset rows = mset (map (\<lambda>r. the (req_pool_idx r)) batch)" "rows_inv pool (rows @ others)"
    using assms by (auto simp: radix_held_def)
  then have "distinct rows" using rows_inv_distinct(1) by fastforce
  then show ?thesis using mset_eq_imp_distinct_iff [OF r(1)] by simp
qed

text \<open>What the step gives the \<open>i\<close>-th request: an entry of its row and a slot that nobody else holds.\<close>

definition decode_given ::
  "alloc_class \<Rightarrow> int set \<Rightarrow> finish_req list \<Rightarrow> kv_state \<Rightarrow> int list \<Rightarrow> kv_state \<Rightarrow> nat \<Rightarrow> bool" where
  "decode_given cls F batch = (\<lambda>(pool, a, c) out (pool', a', c') i.
     let ri = the (req_pool_idx (batch ! i)) in
     req_to_token pool' ! ri = (req_to_token pool ! ri)[kv_committed_len (batch ! i) := to_int32 (out ! i)] \<and>
     out ! i \<in> al_used cls a' - owned c' - F \<and>
     (\<forall>j < length batch. j \<noteq> i \<longrightarrow> out ! i \<notin> own_slots pool a (batch ! j)))"

lemma alloc_for_decode_ok:
  assumes h: "radix_held cls K order sa H others F (pool, a, c) (mset batch)" and none: "speculative_algorithm sa = None"
    and cls: "cls = TokenAllocator \<or> cls = PagedAllocator \<and> 2 \<le> sa_page_size sa"
    and dv: "device_ok dv" and rd: "\<forall>r \<in> set batch. decode_ready (sa_page_size sa) pool r"
    and room: "length (filter (\<lambda>r. kv_committed_len r mod sa_page_size sa = 0) batch) * sa_page_size sa \<le> al_available_size cls a"
  shows "\<exists>out pool' a' c'. alloc_for_decode cls dv order (rc_page_size c) (map (\<lambda>r. the (req_pool_idx r)) batch)
      (map kv_committed_len batch) None 1 pool a (RadixTree c) = Inr (out, pool', a', RadixTree c') \<and>
    length out = length batch \<and> distinct out \<and> (\<forall>i < length batch. decode_given cls F batch (pool, a, c) out (pool', a', c') i) \<and>
    (\<forall>k. k \<notin> (\<lambda>r. the (req_pool_idx r)) ` set batch \<longrightarrow> req_to_token pool' ! k = req_to_token pool ! k)"
proof -
  let ?ris = "map (\<lambda>r. the (req_pool_idx r)) batch" and ?seqs = "map kv_committed_len batch"
  note D = radix_held_D [OF h]
  have rows: "list_all2 (\<lambda>ri l. ri < length (req_to_token pool) \<and> l < length (req_to_token pool ! ri)) ?ris ?seqs"
    using D(5) rd by (fastforce simp: list_all2_map1 list_all2_map2 req_held_def decode_ready_def Let_def intro!: list.rel_refl_strong)
  have "\<exists>out a' c'. (if rc_page_size c = 1
        then rbind (alloc_token_slots cls order (length ?seqs * 1) False a (RadixTree c)) (\<lambda>((out, _), a1, t1). Inr (out, a1, t1))
        else alloc_paged_token_slots_decode cls dv order (map (\<lambda>s. s + 1) ?seqs) (gather_last (req_to_token pool) ?ris ?seqs) a (RadixTree c))
      = Inr (out, a', RadixTree c') \<and> length out = length batch \<and> distinct out \<and>
      (\<forall>i < length batch. out ! i \<in> al_used cls a' - owned c' - F \<and> (\<forall>j < length batch. j \<noteq> i \<longrightarrow> out ! i \<notin> own_slots pool a (batch ! j)))"
    using cls
  proof
    assume tok: "cls = TokenAllocator"
    have "ka_page_size a = 1" using alk_sound_D(1) [OF D(4)] tok by (simp add: al_inv_def)
    then have ps: "rc_page_size c = 1" "sa_page_size sa = 1" using h by (simp_all add: radix_held_def)
    then have "length batch \<le> al_available_size TokenAllocator a" using room tok by simp
    from token_decode_step [OF h [unfolded tok] this] obtain ix st a' c' where
      f: "alloc_token_slots TokenAllocator order (length batch) False a (RadixTree c) = Inr ((ix, st), a', RadixTree c')"
      "length ix = length batch" "distinct ix"
      "\<forall>x \<in> set ix. x \<in> al_used TokenAllocator a' - owned c' - F \<and> (\<forall>r \<in># mset batch. x \<notin> own_slots pool a r)" by blast
    then show ?thesis using tok ps by (intro exI [of _ ix] exI [of _ a'] exI [of _ c']) auto
  next
    assume pg: "cls = PagedAllocator \<and> 2 \<le> sa_page_size sa"
    then have "rc_page_size c \<noteq> 1" using D(2) by simp
    then show ?thesis using paged_decode_step [of K order sa H others F pool a c batch dv] h pg dv rd room by simp
  qed
  then obtain out a' c' where f: "(if rc_page_size c = 1
        then rbind (alloc_token_slots cls order (length ?seqs * 1) False a (RadixTree c)) (\<lambda>((out, _), a1, t1). Inr (out, a1, t1))
        else alloc_paged_token_slots_decode cls dv order (map (\<lambda>s. s + 1) ?seqs) (gather_last (req_to_token pool) ?ris ?seqs) a (RadixTree c))
      = Inr (out, a', RadixTree c')" and o: "length out = length batch" "distinct out"
      "\<forall>i < length batch. out ! i \<in> al_used cls a' - owned c' - F \<and> (\<forall>j < length batch. j \<noteq> i \<longrightarrow> out ! i \<notin> own_slots pool a (batch ! j))"
    by blast
  obtain rows' where r: "scatter_rows ?ris ?seqs (map to_int32 out) (req_to_token pool) = Inr rows'"
    "\<forall>i < length batch. rows' ! (?ris ! i) = (req_to_token pool ! (?ris ! i))[?seqs ! i := to_int32 (out ! i)]"
    "\<forall>k. k \<notin> set ?ris \<longrightarrow> rows' ! k = req_to_token pool ! k"
    using scatter_rows_writes [OF rows batch_rows_distinct [OF h], of "map to_int32 out"] o(1) by auto
  have "alloc_for_decode cls dv order (rc_page_size c) ?ris ?seqs None 1 pool a (RadixTree c) =
    Inr (out, pool\<lparr>req_to_token := rows'\<rparr>, a', RadixTree c')"
    unfolding alloc_for_decode_def f by (simp add: r(1))
  moreover have "decode_given cls F batch (pool, a, c) out (pool\<lparr>req_to_token := rows'\<rparr>, a', c') i" if "i < length batch" for i
    using r(2) o(3) that by (simp add: decode_given_def Let_def)
  ultimately show ?thesis using o(1,2) r(3)
    by (intro exI [of _ out] exI [of _ "pool\<lparr>req_to_token := rows'\<rparr>"] exI [of _ a'] exI [of _ c'] conjI allI impI) auto
qed

text \<open>Once the check says that the memory suffices, the allocation for the step succeeds.\<close>

lemma checked_decode_ok:
  assumes h: "radix_held cls K order sa H others F st (mset batch)" and none: "speculative_algorithm sa = None"
    and ck: "check_decode_mem (radix_decode_env cls order sa has_draft_kv steps) batch None st = Inr (True, (pool, a, c))"
    and cls: "cls = TokenAllocator \<or> cls = PagedAllocator \<and> 2 \<le> sa_page_size sa"
    and dv: "device_ok dv" and rd: "\<forall>r \<in> set batch. decode_ready (sa_page_size sa) pool r"
  shows "\<exists>out pool' a' c'. alloc_for_decode cls dv order (rc_page_size c) (map (\<lambda>r. the (req_pool_idx r)) batch)
      (map kv_committed_len batch) None 1 pool a (RadixTree c) = Inr (out, pool', a', RadixTree c') \<and>
    length out = length batch \<and> distinct out \<and> (\<forall>i < length batch. decode_given cls F batch (pool, a, c) out (pool', a', c') i) \<and>
    (\<forall>k. k \<notin> (\<lambda>r. the (req_pool_idx r)) ` set batch \<longrightarrow> req_to_token pool' ! k = req_to_token pool ! k)"
proof -
  let ?env = "radix_decode_env cls order sa has_draft_kv steps"
  let ?n = "length (filter (\<lambda>r. kv_committed_len r mod sa_page_size sa = 0) batch) * sa_page_size sa"
  have "0 < sa_page_size sa" by (rule radix_held_env(1) [OF h])
  then have req: "new_tokens_required_next_decode ?env batch None = Inr ?n"
    using none by (simp add: new_tokens_required_next_decode_def select_reqs_def radix_decode_env_def)
  obtain st1 where e: "radix_evict cls order ?n st = Inr st1" "radix_held cls K order sa H others F st1 (mset batch)"
    using radix_held_evict [OF h] by blast
  have "st1 = (pool, a, c)" and room: "?n \<le> al_available_size cls a"
    using ck e(1) req by (auto simp: check_decode_mem_def radix_decode_env_def)
  then have "radix_held cls K order sa H others F (pool, a, c) (mset batch)" using e(2) by simp
  from alloc_for_decode_ok [OF this none cls dv rd room] show ?thesis .
qed

end
