(* ===== verification/Examples.thy ===== *)
theory Examples
  imports Radix_Spec Alloc_Methods
begin

text \<open>
  Small concrete states on which the properties of the development are instantiated: a prefix
  cache with pages of two tokens holding one sequence of four tokens, allocators that own its
  slots and a device that runs the program instances in order.
\<close>

section \<open>A prefix cache\<close>

definition blank_node :: tree_node where
  "blank_node = TreeNode 0 0 0"

definition demo_params :: "cache_init_params" where
  "demo_params = \<lparr>cp_disable = False, cp_page_size = 2, cp_enable_kv_cache_events = False,
     cp_enable_session_radix_cache = True, cp_is_eagle = False, cp_disable_finished_insert = False,
     cp_eviction_policy = ''LRU''\<rparr>"

definition demo_raw :: radix_cache where
  "demo_raw =
     \<lparr>rc_nodes = (\<lambda>_. blank_node), rc_counter = 0, root_node = 0, rc_evictable_size = 0,
      rc_protected_size = 0, evictable_leaves = [], rc_page_size = 2, is_eagle = False,
      rc_disable = False, disable_finished_insert = False, enable_kv_cache_events = False,
      enable_session_radix_cache = True, rc_strategy = LRUStrategy, kv_event_queue = [],
      session_leaves = [], closed_session_ids = [], rc_clock = int, rc_ticks = 0,
      rc_hash = (\<lambda>_ _ _. [])\<rparr>"

definition demo0 :: radix_cache where
  "demo0 = reset demo_raw"

definition demo_key :: radix_key where
  "demo_key = RadixKey [1, 2, 3, 4, 5] None False None"

definition demo_vals :: "int list" where
  "demo_vals = [4, 5, 6, 7, 8]"

definition demo1 :: radix_cache where
  "demo1 = snd (projr (rc_insert demo_key (Some demo_vals) None False demo0))"

lemma demo0_inv: "cache_inv demo0 {#}" "\<not> rc_disable demo0" "cached demo0 = {([], [])}"
  using reset_inv [of demo_raw] by (simp_all add: demo0_def reset_rest) (simp_all add: demo_raw_def)

lemmas key_eval = rk_child_key_def maybe_to_bigram_view_def page_aligned_def rk_getitem_def rk_slice_def
  rk_from_def rk_upto_def RadixKey_def rk_len_def raw_len_def slice_indices_def clamp_index_def

lemmas radix_eval = key_eval rc_insert_def insert_helper_def next_child_def add_leaf_def new_tree_node_def
  monotonic_def upd_node_def update_leaf_status_def record_store_event_def inc_hit_count_def set_add_def
  set_discard_def evicted_def TreeNode_def reset_def record_all_cleared_event_def reset_session_radix_state_def

lemmas demo_eval = demo1_def demo0_def demo_raw_def demo_key_def demo_vals_def

lemma demo_insert:
  "rc_insert demo_key (Some demo_vals) None False demo0 =
     Inr (\<lparr>ir_prefix_len = 0, ir_last_device_node = Some 1\<rparr>, demo1)"
  by (simp add: demo_eval radix_eval)

lemma demo1_shape:
  "root_node demo1 = 0" "tn_children (nd demo1 0) = [(Plain (PTup [1, 2]), 1)]"
  "tn_children (nd demo1 1) = []" "tn_value (nd demo1 1) = Some [4, 5, 6, 7]"
  "rc_evictable_size demo1 = 4" "rc_page_size demo1 = 2" "\<not> rc_disable demo1" "\<not> is_eagle demo1"
  "tn_key (nd demo1 1) = RadixKey [1, 2, 3, 4] None False None"
  by (simp_all add: demo_eval radix_eval)

lemma demo_query:
  "query demo0 key = query demo1 key" "rk_len (query demo1 demo_key) = 4"
  "tunits (query demo1 demo_key) = map (Pair None) [Tok 1, Tok 2, Tok 3, Tok 4]"
  by (simp_all add: query_def tunits_def rk_iter_def demo_eval radix_eval)

lemma demo1_inv: "cache_inv demo1 {#}"
  using insert_inv [OF demo0_inv(1,2), of demo_key demo_vals None False]
  by (simp add: demo_insert demo_query) (simp add: demo_vals_def)

lemma demo1_reaches:
  "reaches demo1 n u w \<longleftrightarrow> n = 0 \<and> u = [] \<and> w = [] \<or>
     n = 1 \<and> u = map (Pair None) [Tok 1, Tok 2, Tok 3, Tok 4] \<and> w = [4, 5, 6, 7]"
proof
  assume "reaches demo1 n u w"
  then show "n = 0 \<and> u = [] \<and> w = [] \<or>
     n = 1 \<and> u = map (Pair None) [Tok 1, Tok 2, Tok 3, Tok 4] \<and> w = [4, 5, 6, 7]"
    by induction (auto simp: demo1_shape [simplified] tunits_def rk_iter_def raw_len_def)
next
  have r0: "reaches demo1 0 [] []" using at_root [of demo1] by (simp add: demo1_shape)
  have r1: "reaches demo1 1 ([] @ tunits (tn_key (nd demo1 1))) ([] @ [4, 5, 6, 7])"
    by (rule to_child [OF r0]) (simp_all add: demo1_shape [simplified])
  assume "n = 0 \<and> u = [] \<and> w = [] \<or>
     n = 1 \<and> u = map (Pair None) [Tok 1, Tok 2, Tok 3, Tok 4] \<and> w = [4, 5, 6, 7]"
  then show "reaches demo1 n u w"
    using r0 r1 by (auto simp: demo1_shape [simplified] tunits_def rk_iter_def raw_len_def)
qed

lemma demo1_cached: "(map (Pair None) [Tok 1, Tok 2, Tok 3, Tok 4], [4, 5, 6, 7]) \<in> cached demo1"
proof -
  have "reaches demo1 1 (map (Pair None) [Tok 1, Tok 2, Tok 3, Tok 4]) [4, 5, 6, 7]"
    by (simp add: demo1_reaches)
  then have "(take 4 (map (Pair None) [Tok 1, Tok 2, Tok 3, Tok 4]), take 4 [4, 5, 6, 7]) \<in> cached demo1"
    unfolding cached_def by blast
  then show ?thesis by simp
qed

lemma live_demo1: "live demo1 = {1}"
  by (auto simp: live_def demo1_reaches demo1_shape)

section \<open>Allocators\<close>

definition demo_paged :: kv_alloc where
  "demo_paged = (paged_init 16 2 True True)\<lparr>free_pages := [1, 4, 5, 6, 7, 8]\<rparr>"

definition demo_token :: kv_alloc where
  "demo_token = (token_init 8 True)\<lparr>free_pages := [1, 2, 3, 8]\<rparr>"

lemma demo_paged_inv: "paged_inv demo_paged"
  by (simp add: paged_inv_def demo_paged_def paged_init_def paged_clear_def base_init_def pending_def
      paged_pages_def)

lemma demo_token_inv: "token_inv demo_token"
  by (simp add: token_inv_def demo_token_def token_init_def token_clear_def base_init_def pending_def
      token_slots_def token_univ_def)

lemma demo_paged_used: "pgd.used demo_paged = {4, 5, 6, 7}"
proof -
  have "{i :: int. i div 2 \<in> {1 .. 8}} - {i. i div 2 \<in> {1, 4, 5, 6, 7, 8}} = {4, 5, 6, 7}"
    by (intro set_eqI) (simp, presburger)
  then show ?thesis
    by (simp add: pgd.used_def paged_univ_def paged_slots_def paged_pages_def page_slots_def demo_paged_def
      paged_init_def paged_clear_def base_init_def pending_def)
qed

lemma demo_token_used: "tok.used demo_token = {4, 5, 6, 7}"
  by (auto simp: tok.used_def token_univ_def token_slots_def demo_token_def token_init_def token_clear_def
      base_init_def pending_def)

lemma demo_paged_owns: "owns_slots (pgd.used demo_paged) (paged_whole demo_paged) demo1"
proof -
  have "ka_page_size demo_paged = 2"
    by (simp add: demo_paged_def paged_init_def paged_clear_def base_init_def)
  moreover have "j \<in> {4, 5, 6, 7}" if "i \<in> {4, 5, 6, 7}" "j div 2 = i div 2" for i j :: int
    using that by auto
  ultimately have "paged_whole demo_paged {4, 5, 6, 7}" by (simp add: paged_whole_def)
  then show ?thesis
    by (simp add: owns_slots_def tree_slots_def live_demo1 demo_paged_used demo1_shape [simplified])
qed

lemma demo_token_owns: "owns_slots (tok.used demo_token) (\<lambda>_. True) demo1"
  by (simp add: owns_slots_def tree_slots_def live_demo1 demo_token_used demo1_shape [simplified])

section \<open>A device\<close>

definition demo_device :: device where
  "demo_device = \<lparr>dv_empty = (\<lambda>n. replicate n 0), dv_masked = (\<lambda>_. 0), dv_garbage = (\<lambda>_. 0),
     dv_schedule = (\<lambda>n. [0 ..< n]), dv_gather = (\<lambda>_. Inl IndexError)\<rparr>"

lemma demo_device_ok: "device_ok demo_device"
  by (simp add: device_ok_def demo_device_def)

text \<open>Batches of two requests.\<close>

lemma all_two: "(\<forall>i < Suc (Suc 0). Q i) \<longleftrightarrow> Q 0 \<and> Q (Suc 0)"
  by (auto simp: less_Suc_eq)

lemmas batch_eval = extend_batch_def well_placed_def new_pages_def ceil_div_def all_two

end
