(* ===== verification/Slot_Table.thy ===== *)
theory Slot_Table
  imports Cache_Common
begin

text \<open>
  The Triton kernels on the table of slots do what the loops of the fallback paths do: the
  kernels see the table as flat memory, the loops as rows.
\<close>

section \<open>Launches with a target\<close>

lemma run_stores_append: "run_stores (xs @ ys) out = run_stores ys (run_stores xs out)"
  by (simp add: run_stores_def)

lemma launch_concat: "launch prog schedule out = run_stores (concat (map prog schedule)) out"
  by (induction schedule arbitrary: out) (simp_all add: launch_def run_stores_append, simp add: run_stores_def)

lemma run_stores_target:
  assumes "length out = length t" "\<And>a v. (a, v) \<in> set stores \<Longrightarrow> a < length t \<Longrightarrow> v = t ! a"
    and "\<And>a. a < length t \<Longrightarrow> a \<notin> fst ` set stores \<Longrightarrow> out ! a = t ! a"
  shows "run_stores stores out = t"
  using assms
proof (induction stores arbitrary: out)
  case Nil
  then show ?case by (simp add: run_stores_def nth_equalityI)
next
  case (Cons s stores)
  obtain a v where s: "s = (a, v)" by (cases s)
  have "run_stores (s # stores) out = run_stores stores (if a < length out then out[a := v] else out)"
    by (simp add: run_stores_def s)
  also have "\<dots> = t"
  proof (rule Cons.IH)
    show "length (if a < length out then out[a := v] else out) = length t" using Cons.prems(1) by simp
    show "\<And>a v. (a, v) \<in> set stores \<Longrightarrow> a < length t \<Longrightarrow> v = t ! a" using Cons.prems(2) by simp
    fix b assume b: "b < length t" "b \<notin> fst ` set stores"
    show "(if a < length out then out[a := v] else out) ! b = t ! b"
      using b Cons.prems s by (cases "b = a") (auto simp: nth_list_update)
  qed
  finally show ?case .
qed

lemma launch_target:
  assumes "length out = length t"
    and "\<And>pid a v. pid \<in> set schedule \<Longrightarrow> (a, v) \<in> set (prog pid) \<Longrightarrow> a < length t \<Longrightarrow> v = t ! a"
    and "\<And>a. a < length t \<Longrightarrow> (\<forall>pid \<in> set schedule. a \<notin> fst ` set (prog pid)) \<Longrightarrow> out ! a = t ! a"
  shows "launch prog schedule out = t"
  unfolding launch_concat using assms by (intro run_stores_target) (auto simp: image_iff)

lemma nth_concat_rows:
  assumes "\<forall>row \<in> set rows. length row = st" "i < length rows" "j < st"
  shows "concat rows ! (i * st + j) = rows ! i ! j"
  using assms
proof (induction rows arbitrary: i)
  case (Cons row rows)
  then show ?case by (cases i) (auto simp: nth_append)
qed simp

lemma length_concat_rows: "\<forall>row \<in> set rows. length row = st \<Longrightarrow> length (concat rows) = length rows * st"
  by (induction rows) auto

section \<open>The last location\<close>

lemma last_loc_lane_set:
  "(a, v) \<in> set (last_loc_lane mem st ris pres offset) \<longleftrightarrow>
     a = offset \<and> offset < length pres \<and>
     v = (if 0 < pres ! offset then mem (ris ! offset * st + (pres ! offset - 1)) else - 1)"
  by (auto simp: last_loc_lane_def Let_def)

lemma lanes_set: "x \<in> set (concat (map f (map (\<lambda>k. k + pid * B) [0 ..< B]))) \<longleftrightarrow> (\<exists>k < B. x \<in> set (f (k + pid * B)))"
  by auto

lemma get_last_loc_equiv:
  assumes rows: "\<forall>row \<in> set rows. length row = st" and len: "length ris = length pres"
    and ok: "\<forall>i < length pres. ris ! i < length rows \<and> pres ! i \<le> st"
    and res: "length result0 = length pres" "set schedule = {0 ..< ceil_div (length pres) 256}"
  shows "get_last_loc_triton (\<lambda>k. concat rows ! k) st ris pres schedule result0 = get_last_loc_torch rows ris pres"
  unfolding get_last_loc_triton_def
proof (rule launch_target)
  let ?t = "get_last_loc_torch rows ris pres"
  show l: "length result0 = length ?t" using len res by (simp add: get_last_loc_torch_def)
  have val: "?t ! i = (if 0 < pres ! i then concat rows ! (ris ! i * st + (pres ! i - 1)) else - 1)" if "i < length pres" for i
    using that len ok nth_concat_rows [OF rows, of "ris ! i" "pres ! i - 1"]
    by (auto simp: get_last_loc_torch_def)
  show "v = ?t ! a" if "(a, v) \<in> set (get_last_loc_kernel (\<lambda>k. concat rows ! k) st ris pres pid)" for pid a v
  proof -
    have "a < length pres" "v = (if 0 < pres ! a then concat rows ! (ris ! a * st + (pres ! a - 1)) else - 1)"
      using that unfolding get_last_loc_kernel_def lanes_set last_loc_lane_set by auto
    then show ?thesis using val by simp
  qed
  fix a assume a: "a < length ?t" "\<forall>pid \<in> set schedule. a \<notin> fst ` set (get_last_loc_kernel (\<lambda>k. concat rows ! k) st ris pres pid)"
  then have lt: "a < length pres" using l res by simp
  have "a div 256 < ceil_div (length pres) 256"
    using lt by (simp add: ceil_div_def div_less_iff_less_mult)
  then have "a div 256 \<in> set schedule" using res(2) by simp
  moreover have "a \<in> fst ` set (get_last_loc_kernel (\<lambda>k. concat rows ! k) st ris pres (a div 256))"
  proof -
    have "(a, ?t ! a) \<in> set (last_loc_lane (\<lambda>k. concat rows ! k) st ris pres (a mod 256 + a div 256 * 256))"
      using lt val by (simp add: last_loc_lane_set)
    moreover have "a mod 256 < 256" by simp
    ultimately have "(a, ?t ! a) \<in> set (get_last_loc_kernel (\<lambda>k. concat rows ! k) st ris pres (a div 256))"
      unfolding get_last_loc_kernel_def lanes_set by blast
    then show ?thesis by (rule image_eqI [rotated]) simp
  qed
  ultimately show "result0 ! a = ?t ! a" using a(2) by blast
qed

section \<open>Writing the slots of a batch\<close>

definition ext_start :: "nat list \<Rightarrow> nat list \<Rightarrow> nat \<Rightarrow> nat" where
  "ext_start pres seqs i = sum_list (take i (extend_lens pres seqs))"

definition new_row :: "nat list \<Rightarrow> nat list \<Rightarrow> int list list \<Rightarrow> int list \<Rightarrow> nat \<Rightarrow> int list \<Rightarrow> nat \<Rightarrow> int list" where
  "new_row pres seqs pts out pos row i =
     pts ! i @ slice (pos + ext_start pres seqs i) (pos + ext_start pres seqs (Suc i)) out @ drop (seqs ! i) row"

text \<open>A batch whose rows exist and are long enough, whose slots are all there.\<close>

definition table_batch ::
  "nat \<Rightarrow> nat list \<Rightarrow> nat list \<Rightarrow> nat list \<Rightarrow> int list list \<Rightarrow> nat \<Rightarrow> int list list \<Rightarrow> bool" where
  "table_batch st ris pres seqs pts room rows \<longleftrightarrow>
     length pres = length ris \<and> length seqs = length ris \<and> length pts = length ris \<and> distinct ris \<and>
     (\<forall>row \<in> set rows. length row = st) \<and> ext_start pres seqs (length ris) \<le> room \<and>
     (\<forall>i < length ris. ris ! i < length rows \<and> length (pts ! i) = pres ! i \<and> pres ! i \<le> seqs ! i \<and> seqs ! i \<le> st)"

lemma ext_start_0 [simp]: "ext_start pres seqs 0 = 0"
  by (simp add: ext_start_def)

lemma ext_start_Cons: "ext_start (p # pres) (q # seqs) (Suc i) = (q - p) + ext_start pres seqs i"
  by (simp add: ext_start_def extend_lens_def)

lemma ext_start_Suc:
  "i < length pres \<Longrightarrow> length seqs = length pres \<Longrightarrow> ext_start pres seqs (Suc i) = ext_start pres seqs i + (seqs ! i - pres ! i)"
  by (simp add: ext_start_def take_Suc_conv_app_nth)

lemma ext_start_le: "i \<le> j \<Longrightarrow> ext_start pres seqs i \<le> ext_start pres seqs j"
  unfolding ext_start_def by (rule sum_list_take_mono)

lemma table_batchD:
  assumes "table_batch st ris pres seqs pts room rows"
  shows "length pres = length ris" "length seqs = length ris" "length pts = length ris" "distinct ris"
    "\<And>row. row \<in> set rows \<Longrightarrow> length row = st" "ext_start pres seqs (length ris) \<le> room"
    "\<And>i. i < length ris \<Longrightarrow> ris ! i < length rows \<and> length (pts ! i) = pres ! i \<and> pres ! i \<le> seqs ! i \<and> seqs ! i \<le> st"
  using assms unfolding table_batch_def by blast+

lemma write_cache_loop_ok:
  assumes "table_batch st ris pres seqs pts (length out - pos) rows" "pos \<le> length out"
  shows "\<exists>rows'. write_cache_loop ris pres seqs pts out pos rows = Inr rows' \<and> length rows' = length rows \<and>
    (\<forall>row \<in> set rows'. length row = st) \<and>
    (\<forall>i < length ris. rows' ! (ris ! i) = new_row pres seqs pts out pos (rows ! (ris ! i)) i) \<and>
    (\<forall>k < length rows. k \<notin> set ris \<longrightarrow> rows' ! k = rows ! k)"
  using assms
proof (induction ris pres seqs pts out pos rows rule: write_cache_loop.induct)
  case (1 ri ris pre pres sq seqs pt pts out pos rows)
  note B = table_batchD [OF "1.prems"(1)]
  have r: "ri < length rows" "length (rows ! ri) = st" "length pt = pre" "pre \<le> sq" "sq \<le> st" "ri \<notin> set ris"
    using B(7) [of 0] B(4,5) by auto
  have room: "pos + (sq - pre) + ext_start pres seqs (length ris) \<le> length out"
    using B(6) "1.prems"(2) by (simp add: ext_start_Cons)
  let ?ext = "slice pos (pos + (sq - pre)) out"
  have le: "length ?ext = sq - pre" using room by simp
  let ?row = "pt @ ?ext @ drop sq (rows ! ri)"
  have w: "set_slice 0 pre pt (rows ! ri) = Inr (pt @ drop pre (rows ! ri))"
    "set_slice pre sq ?ext (pt @ drop pre (rows ! ri)) = Inr ?row"
    using r le by (simp_all add: set_slice_write_at write_at_def)
  let ?rows = "rows[ri := ?row]"
  have nb: "table_batch st ris pres seqs pts (length out - (pos + (sq - pre))) ?rows"
  proof -
    have f1: "ris ! i < length rows \<and> length (pts ! i) = pres ! i \<and> pres ! i \<le> seqs ! i \<and> seqs ! i \<le> st"
      if "i < length ris" for i
      using B(7) [of "Suc i"] that by simp
    have f2: "length row = st" if "row \<in> set ?rows" for row
    proof -
      have "row = ?row \<or> row \<in> set rows" using set_update_subset_insert [of rows ri ?row] that by blast
      then show ?thesis using B(5) r le by auto
    qed
    have f3: "ext_start pres seqs (length ris) \<le> length out - (pos + (sq - pre))" using room by linarith
    have l: "length pres = length ris" "length seqs = length ris" "length pts = length ris" "distinct ris"
      using B(1-4) by simp_all
    show ?thesis unfolding table_batch_def length_list_update
      by (intro conjI allI ballI impI) (use l f1 f2 f3 in blast)+
  qed
  obtain rows' where IH: "write_cache_loop ris pres seqs pts out (pos + (sq - pre)) ?rows = Inr rows'"
    "length rows' = length ?rows" "\<forall>row \<in> set rows'. length row = st"
    "\<forall>i < length ris. rows' ! (ris ! i) = new_row pres seqs pts out (pos + (sq - pre)) (?rows ! (ris ! i)) i"
    "\<forall>k < length ?rows. k \<notin> set ris \<longrightarrow> rows' ! k = ?rows ! k"
    using "1.IH" [OF r(1) w nb] room by auto
  have "rows' ! ((ri # ris) ! i) = new_row (pre # pres) (sq # seqs) (pt # pts) out pos (rows ! ((ri # ris) ! i)) i"
    if i: "i < length (ri # ris)" for i
  proof (cases i)
    case 0
    then show ?thesis using IH(5) r by (simp add: new_row_def ext_start_Cons)
  next
    case (Suc k)
    have "ris ! k \<noteq> ri" using r(6) i Suc by auto
    then show ?thesis using IH(4) i Suc by (simp add: new_row_def ext_start_Cons add.assoc)
  qed
  then show ?case using IH r w by (intro exI [of _ rows']) auto
qed (auto simp: table_batch_def)

lemma in_concat_map: "x \<in> set (g i) \<Longrightarrow> i \<in> set is \<Longrightarrow> x \<in> set (concat (map g is))"
  by auto

lemma set_blocks:
  assumes "0 < B"
  shows "set (concat (map (\<lambda>i. map f (filter (\<lambda>p. p < n) (map (\<lambda>k. i * B + k) [0 ..< B]))) [0 ..< ceil_div n B])) =
    f ` {..< n}"
proof (intro set_eqI iffI)
  fix x assume "x \<in> f ` {..< n}"
  then obtain p where p: "p < n" "x = f p" by auto
  have "p div B < ceil_div n B"
  proof -
    have "p < ceil_div n B * B" using p(1) ceil_div_mult_ge [OF assms, of n] by linarith
    then show ?thesis using assms by (simp add: div_less_iff_less_mult)
  qed
  moreover have "p = p div B * B + p mod B" "p mod B < B" using assms by simp_all
  ultimately show "x \<in> set (concat (map (\<lambda>i. map f (filter (\<lambda>p. p < n) (map (\<lambda>k. i * B + k) [0 ..< B]))) [0 ..< ceil_div n B]))"
  proof -
    assume d: "p div B < ceil_div n B" "p = p div B * B + p mod B" "p mod B < B"
    have "p \<in> set (filter (\<lambda>p. p < n) (map (\<lambda>k. p div B * B + k) [0 ..< B]))"
      unfolding set_filter set_map using d(2,3) p(1) by (intro CollectI conjI image_eqI [of _ _ "p mod B"]) auto
    then have "x \<in> set (map f (filter (\<lambda>p. p < n) (map (\<lambda>k. p div B * B + k) [0 ..< B])))"
      unfolding set_map [of f] p(2) by (rule imageI)
    moreover have "p div B \<in> set [0 ..< ceil_div n B]" using d(1) by simp
    ultimately show ?thesis by (rule in_concat_map)
  qed
qed auto

lemma write_kernel_stores:
  "set (write_kernel st ris pts pres seqs el out pid) =
     (\<lambda>p. (ris ! pid * st + p, pts ! pid ! p)) ` {..< pres ! pid} \<union>
     (\<lambda>p. (ris ! pid * st + p + pres ! pid, out ! (sum_list (map (\<lambda>i. el ! i) [0 ..< pid]) + p))) ` {..< seqs ! pid - pres ! pid}"
  unfolding write_kernel_def Let_def set_append by (subst (1 2) set_blocks) simp_all

lemma write_kernel_equiv:
  assumes b: "table_batch st ris pres seqs pts (length out) rows" and sched: "set schedule = {0 ..< length ris}"
    and loop: "write_cache_loop ris pres seqs pts out 0 rows = Inr rows'"
  shows "launch (write_kernel st ris pts pres seqs (extend_lens pres seqs) out) schedule (concat rows) = concat rows'"
proof -
  note B = table_batchD [OF b]
  obtain R where R: "write_cache_loop ris pres seqs pts out 0 rows = Inr R" "length R = length rows"
    "\<forall>row \<in> set R. length row = st"
    "\<forall>i < length ris. R ! (ris ! i) = new_row pres seqs pts out 0 (rows ! (ris ! i)) i"
    "\<forall>k < length rows. k \<notin> set ris \<longrightarrow> R ! k = rows ! k"
    using write_cache_loop_ok [of st ris pres seqs pts out 0 rows] b by auto
  have rows': "rows' = R" using loop R(1) by simp
  have lens: "\<forall>row \<in> set rows. length row = st" using B(5) by blast
  have cum: "sum_list (map (\<lambda>i. extend_lens pres seqs ! i) [0 ..< i]) = ext_start pres seqs i" if "i < length ris" for i
    using that B(1,2) unfolding ext_start_def
    by (intro arg_cong [where f = sum_list] nth_equalityI) simp_all
  have room: "ext_start pres seqs (Suc i) \<le> length out" if "i < length ris" for i
    using ext_start_le [of "Suc i" "length ris" pres seqs] that B(6) by simp
  have st: "ext_start pres seqs (Suc i) = ext_start pres seqs i + (seqs ! i - pres ! i)" if "i < length ris" for i
    using that B(1,2) by (simp add: ext_start_Suc)
  have cell: "concat R ! (ris ! i * st + p) =
      (if p < pres ! i then pts ! i ! p else if p < seqs ! i then out ! (ext_start pres seqs i + (p - pres ! i))
       else rows ! (ris ! i) ! p)" if i: "i < length ris" and p: "p < st" for i p
  proof -
    have "concat R ! (ris ! i * st + p) = R ! (ris ! i) ! p"
      using nth_concat_rows [OF R(3), of "ris ! i" p] R(2) B(7) [OF i] p by simp
    also have "\<dots> = new_row pres seqs pts out 0 (rows ! (ris ! i)) i ! p" using R(4) i by simp
    finally show ?thesis
      using B(7) [OF i] lens p room [OF i] st [OF i] by (auto simp: new_row_def nth_append slice_def)
  qed
  show ?thesis unfolding rows'
  proof (rule launch_target)
    show len: "length (concat rows) = length (concat R)"
      using length_concat_rows [OF lens] length_concat_rows [OF R(3)] R(2) by simp
    show "v = concat R ! a" if "pid \<in> set schedule"
      "(a, v) \<in> set (write_kernel st ris pts pres seqs (extend_lens pres seqs) out pid)" for pid a v
    proof -
      have i: "pid < length ris" using that(1) sched by simp
      show ?thesis using that(2) cell [OF i] B(7) [OF i] unfolding write_kernel_stores cum [OF i]
        by (auto simp: add.assoc)
    qed
    fix a assume a: "a < length (concat R)"
      "\<forall>pid \<in> set schedule. a \<notin> fst ` set (write_kernel st ris pts pres seqs (extend_lens pres seqs) out pid)"
    have lt: "a < length rows * st" using a(1) length_concat_rows [OF R(3)] R(2) by simp
    then have st0: "0 < st" by (cases st) simp_all
    define k p where "k = a div st" and "p = a mod st"
    have kp: "a = k * st + p" "p < st" "k < length rows"
      using st0 lt by (simp_all add: k_def p_def div_less_iff_less_mult)
    show "concat rows ! a = concat R ! a"
    proof (cases "k \<in> set ris")
      case True
      then obtain i where i: "i < length ris" "ris ! i = k" by (auto simp: in_set_conv_nth)
      have "seqs ! i \<le> p"
      proof (rule ccontr)
        assume "\<not> seqs ! i \<le> p"
        then have "a \<in> fst ` set (write_kernel st ris pts pres seqs (extend_lens pres seqs) out i)"
          unfolding write_kernel_stores using kp i
          by (cases "p < pres ! i") (force intro: image_eqI [of _ _ "p - pres ! i"])+
        then show False using a(2) sched i by auto
      qed
      moreover have "pres ! i \<le> seqs ! i" using B(7) [OF i(1)] by simp
      ultimately show ?thesis using cell [OF i(1) kp(2)] kp i nth_concat_rows [OF lens, of k p] by simp
    next
      case False
      then show ?thesis using kp R(2,5) nth_concat_rows [OF lens, of k p] nth_concat_rows [OF R(3), of k p] by simp
    qed
  qed
qed

end
