(* ===== verification/Swa_Alloc.thy ===== *)
theory Swa_Alloc
  imports Cache_Common
begin

text \<open>
  The allocators for models with sliding-window attention,
  \<^verbatim>\<open>mem_cache/allocator/swa.py\<close>. The hybrid allocator keeps one pool for the layers with full
  attention and one for the layers with a window, and a table from the slots of the first to the
  slots of the second; requests hold slots of the first pool only. A slot outside the window
  loses its partner in the second pool and keeps its place in the first.
\<close>

section \<open>Tensors as lists\<close>

text \<open>Indexing with a tensor of indices; negative indices count from the end.\<close>

definition tensor_index :: "'a list \<Rightarrow> int \<Rightarrow> nat result" where
  "tensor_index xs i =
     (if 0 \<le> i \<and> i < int (length xs) then Inr (nat i)
      else if - int (length xs) \<le> i \<and> i < 0 then Inr (nat (int (length xs) + i))
      else Inl IndexError)"

fun gather :: "'a list \<Rightarrow> int list \<Rightarrow> 'a list result" where
  "gather xs [] = Inr []"
| "gather xs (i # ix) =
     rbind (tensor_index xs i) (\<lambda>k. rbind (gather xs ix) (\<lambda>vs. Inr (xs ! k # vs)))"

text \<open>\<open>xs[ix] = vals\<close>; for the values of a repeated index the last one is taken.\<close>

fun scatter :: "'a list \<Rightarrow> int list \<Rightarrow> 'a list \<Rightarrow> 'a list result" where
  "scatter xs (i # ix) (v # vs) = rbind (tensor_index xs i) (\<lambda>k. scatter (xs[k := v]) ix vs)"
| "scatter xs ix vs = Inr xs"

section \<open>The hybrid allocator\<close>

record swa_alloc =
  size_full :: nat
  size_swa :: nat
  sw_page_size :: nat
  sw_class :: alloc_class
  full_attn_allocator :: kv_alloc
  swa_attn_allocator :: kv_alloc
  full_to_swa_index_mapping :: "int list"
  sw_not_in_free_group :: bool
  sw_free_group :: "int list list"

fun al_clear :: "alloc_class \<Rightarrow> kv_alloc \<Rightarrow> kv_alloc" where
  "al_clear TokenAllocator a = token_clear a"
| "al_clear PagedAllocator a = paged_clear a"
| "al_clear NPUPagedAllocator a = paged_clear a"

definition swa_clear :: "swa_alloc \<Rightarrow> swa_alloc" where
  "swa_clear s =
     s\<lparr>swa_attn_allocator := al_clear (sw_class s) (swa_attn_allocator s),
       full_attn_allocator := al_clear (sw_class s) (full_attn_allocator s),
       full_to_swa_index_mapping :=
         replicate (length (full_to_swa_index_mapping s) - 1) 0 @ [last (full_to_swa_index_mapping s)],
       sw_not_in_free_group := True, sw_free_group := []\<rparr>"

definition swa_init :: "bool \<Rightarrow> nat \<Rightarrow> nat \<Rightarrow> nat \<Rightarrow> bool \<Rightarrow> bool \<Rightarrow> swa_alloc" where
  "swa_init is_npu sz sz_swa ps need_sort debug =
     (let cls = (if ps = 1 then TokenAllocator else if is_npu then NPUPagedAllocator else PagedAllocator);
          make = (\<lambda>n. if ps = 1 then token_init n need_sort else paged_init n ps need_sort debug)
      in swa_clear
           \<lparr>size_full = sz, size_swa = sz_swa, sw_page_size = ps, sw_class = cls,
            full_attn_allocator = make sz, swa_attn_allocator = make sz_swa,
            full_to_swa_index_mapping = replicate (sz + ps) 0 @ [- 1],
            sw_not_in_free_group = True, sw_free_group = []\<rparr>)"

definition full_available_size :: "swa_alloc \<Rightarrow> nat" where
  "full_available_size s = al_available_size (sw_class s) (full_attn_allocator s)"

definition swa_available_size :: "swa_alloc \<Rightarrow> nat" where
  "swa_available_size s = al_available_size (sw_class s) (swa_attn_allocator s)"

definition hybrid_available_size :: "swa_alloc \<Rightarrow> nat" where
  "hybrid_available_size s = min (full_available_size s) (swa_available_size s)"

definition hybrid_size :: "swa_alloc \<Rightarrow> nat" where
  "hybrid_size s = min (size_full s) (size_swa s)"

definition translate_loc_from_full_to_swa :: "swa_alloc \<Rightarrow> int list \<Rightarrow> int list result" where
  "translate_loc_from_full_to_swa s kv_indices = gather (full_to_swa_index_mapping s) kv_indices"

definition set_full_to_swa_mapping :: "int list \<Rightarrow> int list \<Rightarrow> swa_alloc \<Rightarrow> swa_alloc result" where
  "set_full_to_swa_mapping full_indices swa_indices s =
     (if full_indices = [] then Inr s
      else
        rbind (py_assert (length full_indices = length swa_indices)) (\<lambda>_.
        rbind (scatter (full_to_swa_index_mapping s) full_indices swa_indices) (\<lambda>m.
        Inr (s\<lparr>full_to_swa_index_mapping := m\<rparr>))))"

definition hybrid_alloc :: "swa_alloc \<Rightarrow> nat \<Rightarrow> (int list option \<times> swa_alloc) result" where
  "hybrid_alloc s need_size =
     rbind (py_assert (sw_page_size s = 1)) (\<lambda>_.
     if full_available_size s < need_size then Inr (None, s)
     else if swa_available_size s < need_size then Inr (None, s)
     else
       rbind (al_alloc (sw_class s) (full_attn_allocator s) need_size) (\<lambda>(full, f).
       rbind (al_alloc (sw_class s) (swa_attn_allocator s) need_size) (\<lambda>(swa, w).
       rbind (py_assert (full \<noteq> None)) (\<lambda>_.
       rbind (py_assert (swa \<noteq> None)) (\<lambda>_.
       rbind (set_full_to_swa_mapping (the full) (the swa) (s\<lparr>full_attn_allocator := f, swa_attn_allocator := w\<rparr>)) (\<lambda>s1.
       Inr (full, s1)))))))"

definition new_pages_available :: "swa_alloc \<Rightarrow> nat \<Rightarrow> nat \<Rightarrow> bool" where
  "new_pages_available s num_full_pages num_swa_pages \<longleftrightarrow>
     num_full_pages \<le> full_available_size s div sw_page_size s \<and>
     num_swa_pages \<le> swa_available_size s div sw_page_size s"

definition hybrid_alloc_extend ::
  "device \<Rightarrow> swa_alloc \<Rightarrow> nat list \<Rightarrow> nat list \<Rightarrow> int list \<Rightarrow> nat \<Rightarrow> (int list option \<times> swa_alloc) result" where
  "hybrid_alloc_extend dv s prefix_lens seq_lens last_loc extend_num_tokens =
     rbind (py_assert (1 < sw_page_size s)) (\<lambda>_.
     rbind (get_num_new_pages seq_lens (sw_page_size s) (Some prefix_lens) False) (\<lambda>np.
     if \<not> new_pages_available s np np then Inr (None, s)
     else
       rbind (translate_loc_from_full_to_swa s last_loc) (\<lambda>swa_last_loc.
       rbind (al_alloc_extend (sw_class s) dv (full_attn_allocator s) prefix_lens seq_lens last_loc extend_num_tokens (Some np)) (\<lambda>(full, f).
       rbind (al_alloc_extend (sw_class s) dv (swa_attn_allocator s) prefix_lens seq_lens swa_last_loc extend_num_tokens (Some np)) (\<lambda>(swa, w).
       rbind (py_assert (full \<noteq> None)) (\<lambda>_.
       rbind (py_assert (swa \<noteq> None)) (\<lambda>_.
       rbind (set_full_to_swa_mapping (the full) (the swa) (s\<lparr>full_attn_allocator := f, swa_attn_allocator := w\<rparr>)) (\<lambda>s1.
       Inr (full, s1)))))))))"

definition hybrid_alloc_extend_swa_tail ::
  "device \<Rightarrow> swa_alloc \<Rightarrow> nat list \<Rightarrow> nat list \<Rightarrow> int list \<Rightarrow> nat \<Rightarrow> nat \<Rightarrow> (int list option \<times> swa_alloc) result" where
  "hybrid_alloc_extend_swa_tail dv s prefix_lens seq_lens last_loc extend_num_tokens swa_tail_len =
     rbind (py_assert (1 < sw_page_size s)) (\<lambda>_.
     rbind (py_assert (length seq_lens = 1)) (\<lambda>_.
     rbind (py_assert (length prefix_lens = 1)) (\<lambda>_.
     rbind (py_assert (swa_tail_len \<le> extend_num_tokens)) (\<lambda>_.
     rbind (get_num_new_pages seq_lens (sw_page_size s) (Some prefix_lens) False) (\<lambda>num_full_pages.
     let num_swa_pages = (swa_tail_len + sw_page_size s - 1) div sw_page_size s in
     if \<not> new_pages_available s num_full_pages num_swa_pages then Inr (None, s)
     else
       rbind (al_alloc_extend (sw_class s) dv (full_attn_allocator s) prefix_lens seq_lens last_loc extend_num_tokens
                (Some num_full_pages)) (\<lambda>(full, f).
       rbind (py_assert (full \<noteq> None)) (\<lambda>_.
       let s1 = s\<lparr>full_attn_allocator := f\<rparr> in
       if swa_tail_len = 0 then Inr (full, s1)
       else
         rbind (al_alloc_extend (sw_class s) dv (swa_attn_allocator s1) [0] [swa_tail_len] [- 1] swa_tail_len
                  (Some num_swa_pages)) (\<lambda>(swa, w).
         rbind (py_assert (swa \<noteq> None)) (\<lambda>_.
         let n = length (the full) - swa_tail_len; tail = drop n (the full) in
         rbind (set_full_to_swa_mapping tail (the swa) (s1\<lparr>swa_attn_allocator := w\<rparr>)) (\<lambda>s2.
         if swa_tail_len < extend_num_tokens
         then rbind (scatter (full_to_swa_index_mapping s2) (take n (the full)) (replicate n 0)) (\<lambda>m.
              Inr (full, s2\<lparr>full_to_swa_index_mapping := m\<rparr>))
         else Inr (full, s2)))))))))))"

text \<open>
  When the second pool has no page left, the pages taken from the first one are kept.
  The table is updated by a scatter that takes the same values on the Ascend device.
\<close>

definition hybrid_alloc_decode ::
  "device \<Rightarrow> swa_alloc \<Rightarrow> nat list \<Rightarrow> int list \<Rightarrow> (int list option \<times> swa_alloc) result" where
  "hybrid_alloc_decode dv s seq_lens last_loc =
     rbind (py_assert (1 < sw_page_size s)) (\<lambda>_.
     rbind (translate_loc_from_full_to_swa s last_loc) (\<lambda>swa_last_loc.
     rbind (al_alloc_decode (sw_class s) dv (full_attn_allocator s) seq_lens last_loc) (\<lambda>(full, f).
     rbind (al_alloc_decode (sw_class s) dv (swa_attn_allocator s) seq_lens swa_last_loc) (\<lambda>(swa, w).
     let s1 = s\<lparr>full_attn_allocator := f, swa_attn_allocator := w\<rparr> in
     if full = None \<or> swa = None then Inr (None, s1)
     else rbind (scatter (full_to_swa_index_mapping s1) (the full) (the swa)) (\<lambda>m.
          Inr (full, s1\<lparr>full_to_swa_index_mapping := m\<rparr>))))))"

definition expand_to_full_pages :: "nat \<Rightarrow> int list \<Rightarrow> int list" where
  "expand_to_full_pages ps ix = expand_pages ps (torch_unique (map (\<lambda>i. i div int ps) ix))"

definition free_swa :: "swa_alloc \<Rightarrow> int list \<Rightarrow> swa_alloc result" where
  "free_swa s free_index =
     (if free_index = [] then Inr s
      else
        let mapping_indices = (if sw_page_size s = 1 then free_index else expand_to_full_pages (sw_page_size s) free_index) in
        rbind (gather (full_to_swa_index_mapping s) mapping_indices) (\<lambda>swa_indices.
        rbind (al_free (sw_class s) (swa_attn_allocator s) (filter (\<lambda>i. 0 < i) swa_indices)) (\<lambda>w.
        rbind (scatter (full_to_swa_index_mapping s) mapping_indices (replicate (length mapping_indices) 0)) (\<lambda>m.
        Inr (s\<lparr>swa_attn_allocator := w, full_to_swa_index_mapping := m\<rparr>)))))"

definition hybrid_free :: "swa_alloc \<Rightarrow> int list \<Rightarrow> swa_alloc result" where
  "hybrid_free s free_index =
     (if free_index = [] then Inr s
      else
        rbind (if sw_not_in_free_group s
               then rbind (al_free (sw_class s) (full_attn_allocator s) free_index) (\<lambda>f.
                    free_swa (s\<lparr>full_attn_allocator := f\<rparr>) free_index)
               else Inr (s\<lparr>sw_free_group := sw_free_group s @ [free_index]\<rparr>)) (\<lambda>s1.
        rbind (py_assert (full_available_size s1 \<le> ka_size (full_attn_allocator s1))) (\<lambda>_.
        rbind (py_assert (swa_available_size s1 \<le> ka_size (swa_attn_allocator s1))) (\<lambda>_. Inr s1))))"

text \<open>The group methods of the base class on this allocator.\<close>

definition hybrid_free_group_begin :: "swa_alloc \<Rightarrow> swa_alloc" where
  "hybrid_free_group_begin s = s\<lparr>sw_not_in_free_group := False, sw_free_group := []\<rparr>"

definition hybrid_free_group_end :: "swa_alloc \<Rightarrow> swa_alloc result" where
  "hybrid_free_group_end s =
     (let s1 = s\<lparr>sw_not_in_free_group := True\<rparr> in
      if sw_free_group s1 \<noteq> [] then hybrid_free s1 (concat (sw_free_group s1)) else Inr s1)"

definition hybrid_backup_state :: "swa_alloc \<Rightarrow> (int list \<times> int list) \<times> (int list \<times> int list)" where
  "hybrid_backup_state s = (backup_state (full_attn_allocator s), backup_state (swa_attn_allocator s))"

definition hybrid_restore_state :: "(int list \<times> int list) \<times> (int list \<times> int list) \<Rightarrow> swa_alloc \<Rightarrow> swa_alloc" where
  "hybrid_restore_state st s =
     s\<lparr>full_attn_allocator := restore_state (fst st) (full_attn_allocator s),
       swa_attn_allocator := restore_state (snd st) (swa_attn_allocator s)\<rparr>"

section \<open>The allocator for models with windows only\<close>

text \<open>One pool plays both parts; the table is the identity.\<close>

record pure_swa_alloc =
  pure_pool :: kv_alloc
  pure_not_in_free_group :: bool
  pure_free_group :: "int list list"

definition pure_init :: "nat \<Rightarrow> nat \<Rightarrow> bool \<Rightarrow> pure_swa_alloc result" where
  "pure_init sz ps need_sort =
     rbind (py_assert (ps = 1)) (\<lambda>_.
     Inr \<lparr>pure_pool = token_clear (token_init sz need_sort), pure_not_in_free_group = True, pure_free_group = []\<rparr>)"

definition pure_alloc :: "pure_swa_alloc \<Rightarrow> nat \<Rightarrow> int list option \<times> pure_swa_alloc" where
  "pure_alloc s n = (let (out, a) = token_alloc (pure_pool s) n in (out, s\<lparr>pure_pool := a\<rparr>))"

definition pure_free :: "pure_swa_alloc \<Rightarrow> int list \<Rightarrow> pure_swa_alloc result" where
  "pure_free s free_index =
     (if free_index = [] then Inr s
      else
        let s1 = (if pure_not_in_free_group s
                  then s\<lparr>pure_pool := token_free (pure_pool s) (filter (\<lambda>i. 0 < i) free_index)\<rparr>
                  else s\<lparr>pure_free_group := pure_free_group s @ [free_index]\<rparr>)
        in rbind (py_assert (token_available_size (pure_pool s1) \<le> ka_size (pure_pool s1))) (\<lambda>_. Inr s1))"

definition pure_free_swa :: "pure_swa_alloc \<Rightarrow> int list \<Rightarrow> pure_swa_alloc" where
  "pure_free_swa s free_index =
     (if free_index = [] then s else s\<lparr>pure_pool := token_free (pure_pool s) (filter (\<lambda>i. 0 < i) free_index)\<rparr>)"

definition pure_free_group_begin :: "pure_swa_alloc \<Rightarrow> pure_swa_alloc" where
  "pure_free_group_begin s = s\<lparr>pure_not_in_free_group := False, pure_free_group := []\<rparr>"

definition pure_free_group_end :: "pure_swa_alloc \<Rightarrow> pure_swa_alloc result" where
  "pure_free_group_end s =
     (let s1 = s\<lparr>pure_not_in_free_group := True\<rparr> in
      rbind (if pure_free_group s1 \<noteq> [] then pure_free s1 (concat (pure_free_group s1)) else Inr s1) (\<lambda>s2.
      Inr (s2\<lparr>pure_free_group := []\<rparr>)))"

definition pure_clear :: "pure_swa_alloc \<Rightarrow> pure_swa_alloc" where
  "pure_clear s = s\<lparr>pure_pool := token_clear (pure_pool s), pure_not_in_free_group := True, pure_free_group := []\<rparr>"

end
