(* ===== verification/Swa_Inv.thy ===== *)
theory Swa_Inv
  imports Swa_Alloc
begin

text \<open>
  The two pools of the hybrid allocator agree: the table pairs pages of the first pool with
  pages of the second one to one, and a page of the second pool is in use exactly when some slot
  is paired with it. Allocation, release and the release of slots outside the window keep this,
  so no slot of either pool is lost or freed twice.
\<close>

section \<open>Gather and scatter\<close>

lemma tensor_index_in: "0 \<le> i \<Longrightarrow> i < int (length xs) \<Longrightarrow> tensor_index xs i = Inr (nat i)"
  by (simp add: tensor_index_def)

lemma gather_in:
  "\<forall>i \<in> set ix. 0 \<le> i \<and> i < int (length xs) \<Longrightarrow> gather xs ix = Inr (map (\<lambda>i. xs ! nat i) ix)"
  by (induction ix) (simp_all add: tensor_index_in)

lemma scatter_in:
  assumes "\<forall>i \<in> set ix. 0 \<le> i \<and> i < int (length xs)" "distinct ix" "length vs = length ix"
  shows "\<exists>ys. scatter xs ix vs = Inr ys \<and> length ys = length xs \<and>
    (\<forall>k < length ix. ys ! nat (ix ! k) = vs ! k) \<and> (\<forall>k. int k \<notin> set ix \<longrightarrow> ys ! k = xs ! k)"
  using assms
proof (induction xs ix vs rule: scatter.induct)
  case (1 xs i ix v vs)
  let ?xs = "xs[nat i := v]"
  have i: "0 \<le> i" "i < int (length xs)" using "1.prems"(1) by simp_all
  obtain ys where ys: "scatter ?xs ix vs = Inr ys" "length ys = length xs"
    "\<forall>k < length ix. ys ! nat (ix ! k) = vs ! k" "\<forall>k. int k \<notin> set ix \<longrightarrow> ys ! k = ?xs ! k"
    using "1.IH" [OF tensor_index_in [OF i]] "1.prems" by auto
  have "i \<notin> set ix" using "1.prems"(2) by simp
  then have "ys ! nat i = v" using ys(4) i by (simp add: nat_less_iff)
  moreover have "ys ! k = xs ! k" if "int k \<notin> set (i # ix)" for k
    using that ys(4) i by (metis int_nat_eq list.set_intros nth_list_update_neq set_subset_Cons subsetD)
  moreover have "ys ! nat ((i # ix) ! k) = (v # vs) ! k" if "k < length (i # ix)" for k
    using that ys(3) calculation(1) by (cases k) simp_all
  ultimately show ?case using ys(1,2) by (simp add: tensor_index_in [OF i])
qed auto

lemma scatter_zero:
  assumes "\<forall>i \<in> set ix. 0 \<le> i \<and> i < int (length xs)" "distinct ix"
  shows "\<exists>ys. scatter xs ix (replicate (length ix) 0) = Inr ys \<and> length ys = length xs \<and>
    (\<forall>k < length xs. ys ! k = (if int k \<in> set ix then 0 else xs ! k))"
proof -
  obtain ys where ys: "scatter xs ix (replicate (length ix) 0) = Inr ys" "length ys = length xs"
    "\<forall>k < length ix. ys ! nat (ix ! k) = 0" "\<forall>k. int k \<notin> set ix \<longrightarrow> ys ! k = xs ! k"
    using scatter_in [OF assms, of "replicate (length ix) 0"] by auto
  have "ys ! k = 0" if "int k \<in> set ix" for k
    using that ys(3) by (metis in_set_conv_nth nat_int)
  with ys show ?thesis by auto
qed

section \<open>The invariant\<close>

definition mp :: "swa_alloc \<Rightarrow> int \<Rightarrow> int" where
  "mp s i = full_to_swa_index_mapping s ! nat i"

text \<open>The slots of the first pool that have a partner.\<close>

definition mapped :: "swa_alloc \<Rightarrow> int set" where
  "mapped s = {i. 0 \<le> i \<and> i < int (size_full s + sw_page_size s) \<and> mp s i \<noteq> 0}"

definition full_used :: "swa_alloc \<Rightarrow> int set" where
  "full_used s = al_used (sw_class s) (full_attn_allocator s)"

definition swa_used :: "swa_alloc \<Rightarrow> int set" where
  "swa_used s = al_used (sw_class s) (swa_attn_allocator s)"

definition paired :: "swa_alloc \<Rightarrow> bool" where
  "paired s \<longleftrightarrow>
     (\<forall>i \<in> mapped s. mp s i \<in> swa_used s \<and> mp s i mod int (sw_page_size s) = i mod int (sw_page_size s)) \<and>
     (\<forall>i \<in> mapped s. \<forall>j \<in> mapped s.
        mp s i div int (sw_page_size s) = mp s j div int (sw_page_size s) \<longleftrightarrow>
        i div int (sw_page_size s) = j div int (sw_page_size s)) \<and>
     (\<forall>v \<in> swa_used s. \<exists>i \<in> mapped s. mp s i div int (sw_page_size s) = v div int (sw_page_size s))"

definition swa_shape :: "swa_alloc \<Rightarrow> bool" where
  "swa_shape s \<longleftrightarrow>
     0 < sw_page_size s \<and> (sw_class s = TokenAllocator \<longleftrightarrow> sw_page_size s = 1) \<and>
     ka_page_size (full_attn_allocator s) = sw_page_size s \<and> ka_page_size (swa_attn_allocator s) = sw_page_size s \<and>
     ka_size (full_attn_allocator s) = size_full s \<and> ka_size (swa_attn_allocator s) = size_swa s \<and>
     length (full_to_swa_index_mapping s) = size_full s + sw_page_size s + 1 \<and>
     last (full_to_swa_index_mapping s) = - 1 \<and> sw_not_in_free_group s \<and>
     al_inv (sw_class s) (full_attn_allocator s) \<and> al_inv (sw_class s) (swa_attn_allocator s)"

definition swa_inv :: "swa_alloc \<Rightarrow> bool" where
  "swa_inv s \<longleftrightarrow> swa_shape s \<and> mapped s \<subseteq> full_used s \<and> paired s"

lemma al_used_range:
  assumes "al_inv cls a" "i \<in> al_used cls a"
  shows "int (ka_page_size a) \<le> i" "i < int (ka_size a + ka_page_size a)"
proof -
  have "int (ka_page_size a) \<le> i \<and> i < int (ka_size a + ka_page_size a)"
  proof (cases "cls = TokenAllocator")
    case True
    then show ?thesis using assms by (auto simp: al_inv_def al_used_def tok.used_def token_univ_def)
  next
    case False
    then have b: "1 \<le> i div int (ka_page_size a)" "i div int (ka_page_size a) \<le> int (ka_num_pages a)" "0 < ka_page_size a"
      "ka_num_pages a * ka_page_size a \<le> ka_size a"
      using assms by (auto simp: al_inv_def al_used_def pgd.used_def paged_univ_def page_slots_def paged_inv_def)
    let ?p = "int (ka_page_size a)"
    have "1 * ?p \<le> i div ?p * ?p" "i div ?p * ?p \<le> int (ka_num_pages a) * ?p"
      using b(1,2) by (intro mult_right_mono; simp)+
    moreover have "i div ?p * ?p \<le> i" "i < i div ?p * ?p + ?p"
      using b(3) by (simp_all add: minus_mod_eq_div_mult [symmetric])
    moreover have "int (ka_num_pages a) * ?p \<le> int (ka_size a)" using b(4) by (metis of_nat_mult of_nat_le_iff)
    ultimately have "?p \<le> i" "i < int (ka_size a) + ?p" by linarith+
    then show ?thesis by simp
  qed
  then show "int (ka_page_size a) \<le> i" "i < int (ka_size a + ka_page_size a)" by simp_all
qed

lemma al_used_whole: "al_inv cls a \<Longrightarrow> i \<in> al_used cls a \<Longrightarrow>
  j div int (ka_page_size a) = i div int (ka_page_size a) \<Longrightarrow> j \<in> al_used cls a"
  by (auto simp: al_inv_def al_used_def pgd.used_def paged_univ_def paged_slots_def page_slots_def split: if_splits)

lemma swa_used_pos: "swa_shape s \<Longrightarrow> v \<in> swa_used s \<Longrightarrow> 0 < v"
  using al_used_range(1) [of "sw_class s" "swa_attn_allocator s" v] by (simp add: swa_shape_def swa_used_def)

lemma full_used_range: "swa_shape s \<Longrightarrow> i \<in> full_used s \<Longrightarrow> 0 \<le> i \<and> i < int (size_full s + sw_page_size s)"
  using al_used_range [of "sw_class s" "full_attn_allocator s" i] by (simp add: swa_shape_def full_used_def)

lemma mp_inj:
  assumes "paired s" "i \<in> mapped s" "j \<in> mapped s" "mp s i = mp s j"
  shows "i = j"
proof -
  let ?p = "int (sw_page_size s)"
  have "mp s i div ?p = mp s j div ?p \<longleftrightarrow> i div ?p = j div ?p" "mp s i mod ?p = i mod ?p" "mp s j mod ?p = j mod ?p"
    using assms(1-3) unfolding paired_def by blast+
  with assms(4) show ?thesis by (metis div_mult_mod_eq)
qed

section \<open>Releasing partners\<close>

definition pages_slots :: "swa_alloc \<Rightarrow> int set \<Rightarrow> int set" where
  "pages_slots s X = page_slots (sw_page_size s) ((\<lambda>i. i div int (sw_page_size s)) ` X)"

lemma pages_slots_1: "sw_page_size s = 1 \<Longrightarrow> pages_slots s X = X"
  by (simp add: pages_slots_def page_slots_def)

lemma mapping_indices:
  assumes "swa_shape s" "distinct ix"
  defines "mi \<equiv> (if sw_page_size s = 1 then ix else expand_to_full_pages (sw_page_size s) ix)"
  shows "set mi = pages_slots s (set ix)" "distinct mi"
proof -
  have "0 < sw_page_size s" using assms(1) by (simp add: swa_shape_def)
  then show "set mi = pages_slots s (set ix)" "distinct mi"
    using assms(2) by (simp_all add: mi_def pages_slots_1 expand_to_full_pages_def set_expand_pages distinct_expand_pages pages_slots_def
      page_slots_def)
qed

text \<open>Without the slots of \<open>E\<close> and their partners the pools still agree, when \<open>E\<close> is a set of whole pages.\<close>

lemma paired_remove:
  assumes pr: "paired s" and ps: "sw_page_size s' = sw_page_size s"
    and E: "\<And>i j. i \<in> E \<Longrightarrow> i div int (sw_page_size s) = j div int (sw_page_size s) \<Longrightarrow> j \<in> E"
    and m: "mapped s' = mapped s - E" "\<And>i. i \<in> mapped s' \<Longrightarrow> mp s' i = mp s i"
    and u: "swa_used s' = swa_used s - pages_slots s (mp s ` (mapped s \<inter> E))"
  shows "paired s'"
  unfolding paired_def ps
proof (intro conjI ballI)
  let ?p = "int (sw_page_size s)"
  fix i assume i: "i \<in> mapped s'"
  have "mp s i \<notin> pages_slots s (mp s ` (mapped s \<inter> E))"
  proof
    assume "mp s i \<in> pages_slots s (mp s ` (mapped s \<inter> E))"
    then obtain e where "e \<in> mapped s" "e \<in> E" "mp s i div ?p = mp s e div ?p"
      by (auto simp: pages_slots_def page_slots_def)
    moreover have "mp s i div ?p = mp s e div ?p \<longleftrightarrow> i div ?p = e div ?p"
      using calculation(1) i m(1) pr unfolding paired_def by blast
    ultimately show False using E [of e i] i m(1) by simp
  qed
  then show "mp s' i \<in> swa_used s'" "mp s' i mod ?p = i mod ?p"
    using i m u pr by (simp_all add: paired_def)
next
  let ?p = "int (sw_page_size s)"
  fix i j assume "i \<in> mapped s'" "j \<in> mapped s'"
  then show "mp s' i div ?p = mp s' j div ?p \<longleftrightarrow> i div ?p = j div ?p" using m pr by (simp add: paired_def)
next
  let ?p = "int (sw_page_size s)"
  fix v assume v: "v \<in> swa_used s'"
  then obtain i where i: "i \<in> mapped s" "mp s i div ?p = v div ?p" using pr u unfolding paired_def by blast
  have "i \<notin> E"
  proof
    assume "i \<in> E"
    then have "mp s i div ?p \<in> (\<lambda>i. i div ?p) ` mp s ` (mapped s \<inter> E)" using i(1) by blast
    then have "v \<in> pages_slots s (mp s ` (mapped s \<inter> E))" using i(2) by (simp add: pages_slots_def page_slots_def)
    then show False using v u by simp
  qed
  then show "\<exists>i \<in> mapped s'. mp s' i div ?p = v div ?p" using i m by (intro bexI [of _ i]) simp_all
qed

lemma last_kept:
  assumes "length m = length m'" "length m = Suc k" "m ! k = m' ! k"
  shows "last m = last m'"
proof -
  have "m \<noteq> []" "m' \<noteq> []" using assms(1,2) by auto
  moreover have "length m - 1 = k" "length m' - 1 = k" using assms(1,2) by simp_all
  ultimately show ?thesis using assms(3) by (metis last_conv_nth)
qed

lemma free_swa_ok:
  assumes sh: "swa_shape s" and pr: "paired s" and ix: "distinct ix"
    and rng0: "pages_slots s (set ix) \<subseteq> {0 ..< int (size_full s + sw_page_size s)}"
  defines "E \<equiv> pages_slots s (set ix)"
  shows "\<exists>w m s'. free_swa s ix = Inr s' \<and> s' = s\<lparr>swa_attn_allocator := w, full_to_swa_index_mapping := m\<rparr> \<and>
    swa_shape s' \<and> paired s' \<and> mapped s' = mapped s - E \<and> (\<forall>i \<in> mapped s'. mp s' i = mp s i) \<and>
    swa_used s' = swa_used s - pages_slots s (mp s ` (mapped s \<inter> E))"
proof (cases "ix = []")
  case True
  then have "E = {}" by (simp add: E_def pages_slots_def page_slots_def)
  then show ?thesis using True sh pr
    by (intro exI [of _ "swa_attn_allocator s"] exI [of _ "full_to_swa_index_mapping s"] exI [of _ s])
      (simp add: free_swa_def pages_slots_def page_slots_def)
next
  case False
  have rng: "0 \<le> i \<and> i < int (size_full s + sw_page_size s)" if "i \<in> pages_slots s (set ix)" for i
    using rng0 that by auto
  let ?m = "full_to_swa_index_mapping s" and ?w = "swa_attn_allocator s"
  define mi where "mi = (if sw_page_size s = 1 then ix else expand_to_full_pages (sw_page_size s) ix)"
  have mi: "set mi = E" "distinct mi" using mapping_indices [OF sh ix] unfolding mi_def E_def by simp_all
  have len: "length ?m = size_full s + sw_page_size s + 1" using sh by (simp add: swa_shape_def)
  have inr: "\<forall>i \<in> set mi. 0 \<le> i \<and> i < int (length ?m)" using rng mi(1) len by (force simp: E_def)
  define fl where "fl = filter (\<lambda>i. 0 < i) (map (\<lambda>i. ?m ! nat i) mi)"
  have nz: "i \<in> mapped s \<and> 0 < mp s i \<longleftrightarrow> mp s i \<noteq> 0" if "i \<in> E" for i
    using that rng pr swa_used_pos [OF sh] by (auto simp: E_def mapped_def paired_def)
  have pos: "0 < mp s i \<longleftrightarrow> i \<in> mapped s" if "i \<in> E" for i using nz [OF that] by (auto simp: mapped_def)
  have fl: "fl = map (mp s) (filter (\<lambda>i. i \<in> mapped s) mi)"
    unfolding fl_def filter_map comp_def mp_def [symmetric] using pos mi(1) by (auto intro!: arg_cong [where f = "map (mp s)"] filter_cong)
  have setfl: "set fl = mp s ` (mapped s \<inter> E)" using mi(1) by (auto simp: fl)
  have dist: "distinct fl" using mi(2) mp_inj [OF pr] by (auto simp: fl distinct_map inj_on_def)
  have psw: "ka_page_size ?w = sw_page_size s" and invw: "al_inv (sw_class s) ?w" using sh by (simp_all add: swa_shape_def)
  have cov: "paged_cover ?w (set fl) = pages_slots s (mp s ` (mapped s \<inter> E))"
    by (simp add: paged_cover_def psw setfl pages_slots_def)
  have "paged_cover ?w (set fl) \<subseteq> al_used (sw_class s) ?w"
  proof
    fix v assume "v \<in> paged_cover ?w (set fl)"
    then obtain i where i: "i \<in> mapped s" "v div int (sw_page_size s) = mp s i div int (sw_page_size s)"
      unfolding cov by (auto simp: pages_slots_def page_slots_def)
    then have "mp s i \<in> swa_used s" using pr by (simp add: paired_def)
    then show "v \<in> al_used (sw_class s) ?w" using al_used_whole [OF invw, of "mp s i" v] i psw by (simp add: swa_used_def)
  qed
  then obtain w where w: "al_free (sw_class s) ?w fl = Inr w" "al_inv (sw_class s) w"
    "al_used (sw_class s) w = al_used (sw_class s) ?w - paged_cover ?w (set fl)" "ka_page_size w = ka_page_size ?w"
    "ka_size w = ka_size ?w" using al_free_ok [OF invw dist] by blast
  obtain m where m: "scatter ?m mi (replicate (length mi) 0) = Inr m" "length m = length ?m"
    "\<forall>k < length ?m. m ! k = (if int k \<in> set mi then 0 else ?m ! k)"
    using scatter_zero [OF inr mi(2)] by blast
  let ?s = "s\<lparr>swa_attn_allocator := w, full_to_swa_index_mapping := m\<rparr>"
  have val: "mp ?s i = (if i \<in> E then 0 else mp s i)" if "0 \<le> i" "i < int (size_full s + sw_page_size s)" for i
    using that m(3) mi(1) len by (simp add: mp_def nat_less_iff)
  have mapped: "mapped ?s = mapped s - E" using val by (auto simp: mapped_def split: if_splits)
  have mp: "mp ?s i = mp s i" if "i \<in> mapped ?s" for i using that val mapped by (auto simp: mapped_def)
  have "int (size_full s + sw_page_size s) \<notin> E" using rng by (force simp: E_def)
  then have "last m = last ?m" using m(2,3) mi(1) len by (intro last_kept [of _ _ "size_full s + sw_page_size s"]) simp_all
  then have sh': "swa_shape ?s" using sh w m(2) by (simp add: swa_shape_def)
  have used: "swa_used ?s = swa_used s - pages_slots s (mp s ` (mapped s \<inter> E))" using w(3) cov by (simp add: swa_used_def)
  have "paired ?s"
  proof (rule paired_remove [OF pr _ _ mapped mp used])
    show "j \<in> E" if "i \<in> E" "i div int (sw_page_size s) = j div int (sw_page_size s)" for i j
      using that by (simp add: E_def pages_slots_def page_slots_def)
  qed simp_all
  moreover have "free_swa s ix = Inr ?s"
    unfolding free_swa_def if_not_P [OF False] mi_def [symmetric] Let_def
    using gather_in [OF inr] w(1) m(1) by (simp add: fl_def)
  ultimately show ?thesis using sh' mapped mp used by blast
qed

text \<open>\<^verbatim>\<open>free\<close> releases the slots in the first pool and the partners they still have in the second.\<close>

lemma hybrid_free_ok:
  assumes inv: "swa_inv s" and ix: "distinct ix" "pages_slots s (set ix) \<subseteq> full_used s"
  defines "E \<equiv> pages_slots s (set ix)"
  shows "\<exists>s'. hybrid_free s ix = Inr s' \<and> swa_inv s' \<and> full_used s' = full_used s - E \<and>
    swa_used s' = swa_used s - pages_slots s (mp s ` (mapped s \<inter> E)) \<and> mapped s' = mapped s - E \<and>
    (\<forall>i \<in> mapped s'. mp s' i = mp s i) \<and> sw_page_size s' = sw_page_size s"
proof (cases "ix = []")
  case True
  then have "E = {}" by (simp add: E_def pages_slots_def page_slots_def)
  then show ?thesis using True inv by (simp add: hybrid_free_def pages_slots_def page_slots_def)
next
  case False
  let ?f = "full_attn_allocator s"
  have sh: "swa_shape s" and pr: "paired s" and sub: "mapped s \<subseteq> full_used s" using inv by (simp_all add: swa_inv_def)
  have ps: "ka_page_size ?f = sw_page_size s" and invf: "al_inv (sw_class s) ?f" using sh by (simp_all add: swa_shape_def)
  have cov: "paged_cover ?f (set ix) = E" by (simp add: paged_cover_def ps E_def pages_slots_def)
  obtain f where f: "al_free (sw_class s) ?f ix = Inr f" "al_inv (sw_class s) f" "al_used (sw_class s) f = full_used s - E"
    "ka_page_size f = ka_page_size ?f" "ka_size f = ka_size ?f"
    using al_free_ok [OF invf ix(1)] ix(2) cov by (auto simp: full_used_def E_def)
  let ?s = "s\<lparr>full_attn_allocator := f\<rparr>"
  have same: "mapped ?s = mapped s" "mp ?s = mp s" "swa_used ?s = swa_used s" "pages_slots ?s = pages_slots s"
    by (simp_all add: mapped_def mp_def swa_used_def pages_slots_def fun_eq_iff)
  have sh1: "swa_shape ?s" using sh f by (simp add: swa_shape_def)
  have pr1: "paired ?s" using pr by (simp add: paired_def same)
  have rng: "pages_slots ?s (set ix) \<subseteq> {0 ..< int (size_full ?s + sw_page_size ?s)}"
    using ix(2) full_used_range [OF sh] by (fastforce simp: same)
  obtain w m s' where s': "free_swa ?s ix = Inr s'" "s' = ?s\<lparr>swa_attn_allocator := w, full_to_swa_index_mapping := m\<rparr>"
    "swa_shape s'" "paired s'" "mapped s' = mapped s - E" "\<forall>i \<in> mapped s'. mp s' i = mp s i"
    "swa_used s' = swa_used s - pages_slots s (mp s ` (mapped s \<inter> E))"
    using free_swa_ok [OF sh1 pr1 ix(1) rng] unfolding same E_def [symmetric] by (elim exE conjE) (rule that)
  have fu: "full_used s' = full_used s - E" using f(3) by (simp add: full_used_def s'(2))
  have "al_available_size (sw_class s') (full_attn_allocator s') \<le> ka_size (full_attn_allocator s')"
    "al_available_size (sw_class s') (swa_attn_allocator s') \<le> ka_size (swa_attn_allocator s')"
    using s'(3) by (intro al_available_le; simp add: swa_shape_def)+
  moreover have "sw_not_in_free_group s" using sh by (simp add: swa_shape_def)
  ultimately have "hybrid_free s ix = Inr s'"
    using False f(1) s'(1) by (simp add: hybrid_free_def full_available_size_def swa_available_size_def)
  moreover have "swa_inv s'" using s' sub fu by (auto simp: swa_inv_def)
  moreover have "sw_page_size s' = sw_page_size s" using s'(2) by simp
  ultimately show ?thesis using s' fu by blast
qed

section \<open>Allocating pairs of slots\<close>

lemma token_alloc_ok:
  assumes inv: "al_inv TokenAllocator a" and n: "n \<le> token_available_size a"
  shows "\<exists>ix a'. token_alloc a n = (Some ix, a') \<and> al_inv TokenAllocator a' \<and> length ix = n \<and> distinct ix \<and>
    set ix \<inter> al_used TokenAllocator a = {} \<and> al_used TokenAllocator a' = al_used TokenAllocator a \<union> set ix \<and>
    ka_size a' = ka_size a \<and> ka_page_size a' = ka_page_size a"
proof -
  have t: "token_inv a" "ka_need_sort a \<or> release_pages a = []" using inv by (simp_all add: al_inv_def)
  obtain ix a' where al: "token_alloc a n = (Some ix, a')"
    using token_alloc_None_iff [OF t(2), of n] n by (cases "token_alloc a n") auto
  have "ka_size a' = ka_size a" "ka_page_size a' = ka_page_size a" "length ix = n" "is_not_in_free_group a' = is_not_in_free_group a"
    "ka_need_sort a' = ka_need_sort a" "release_pages a' = [] \<or> release_pages a' = release_pages a"
    using al by (auto simp: token_alloc_def merge_if_short_def merge_and_sort_free_def Let_def split: if_splits)
  then show ?thesis using al tok.alloc_used [OF t(1) al] inv by (auto simp: al_inv_def al_used_def)
qed

text \<open>With pages of one token the table is a bijection between the mapped slots and the second pool.\<close>

lemma paired_one: "sw_page_size s = 1 \<Longrightarrow> paired s \<longleftrightarrow> bij_betw (mp s) (mapped s) (swa_used s)"
proof -
  assume ps: "sw_page_size s = 1"
  have "paired s \<longleftrightarrow> mp s ` mapped s \<subseteq> swa_used s \<and> inj_on (mp s) (mapped s) \<and> swa_used s \<subseteq> mp s ` mapped s"
    unfolding paired_def inj_on_def image_subset_iff using ps by (simp add: subset_iff image_iff) (intro arg_cong2 [where f = "(\<and>)"] refl; auto)
  then show ?thesis unfolding bij_betw_def by blast
qed

text \<open>Writing new partners, none of them zero, into the table.\<close>

lemma scatter_pairs:
  assumes ps: "sw_page_size s = 1" and len: "length (full_to_swa_index_mapping s) = size_full s + 2"
    and ix: "distinct ix" "\<And>i. i \<in> set ix \<Longrightarrow> 0 \<le> i \<and> i < int (size_full s + 1)"
    and iw: "distinct iw" "0 \<notin> set iw" "length iw = length ix"
  shows "\<exists>m. scatter (full_to_swa_index_mapping s) ix iw = Inr m \<and> length m = length (full_to_swa_index_mapping s) \<and>
    last m = last (full_to_swa_index_mapping s) \<and>
    (\<forall>s'. full_to_swa_index_mapping s' = m \<and> size_full s' = size_full s \<and> sw_page_size s' = 1 \<longrightarrow>
       mapped s' = mapped s \<union> set ix \<and> (\<forall>i. 0 \<le> i \<and> i \<notin> set ix \<longrightarrow> mp s' i = mp s i) \<and> bij_betw (mp s') (set ix) (set iw))"
proof -
  let ?m = "full_to_swa_index_mapping s"
  have "\<forall>i \<in> set ix. 0 \<le> i \<and> i < int (length ?m)" using ix(2) len by force
  then obtain m where m: "scatter ?m ix iw = Inr m" "length m = length ?m" "\<forall>k < length ix. m ! nat (ix ! k) = iw ! k"
    "\<forall>k. int k \<notin> set ix \<longrightarrow> m ! k = ?m ! k"
    using scatter_in [OF _ ix(1) iw(3), of ?m] by auto
  have "int (size_full s + 1) \<notin> set ix" using ix(2) by force
  then have "last m = last ?m" using m(2,4) len by (intro last_kept [of _ _ "size_full s + 1"]) simp_all
  moreover have "mapped s' = mapped s \<union> set ix \<and> (\<forall>i. 0 \<le> i \<and> i \<notin> set ix \<longrightarrow> mp s' i = mp s i) \<and> bij_betw (mp s') (set ix) (set iw)"
    if s': "full_to_swa_index_mapping s' = m \<and> size_full s' = size_full s \<and> sw_page_size s' = 1" for s'
  proof -
    have old: "mp s' i = mp s i" if "0 \<le> i" "i \<notin> set ix" for i using that m(4) s' by (simp add: mp_def)
    have map: "map (mp s') ix = iw" using m(3) iw(3) s' by (intro nth_equalityI) (simp_all add: mp_def)
    then have bij: "bij_betw (mp s') (set ix) (set iw)" using ix(1) iw(1) by (metis bij_betw_def distinct_map list.set_map)
    then have "mp s' i \<noteq> 0" if "i \<in> set ix" for i using that iw(2) by (metis bij_betwE)
    then have "mp s' i \<noteq> 0 \<longleftrightarrow> mp s i \<noteq> 0 \<or> i \<in> set ix" if "0 \<le> i" for i using that old by (cases "i \<in> set ix") auto
    then have "mapped s' = mapped s \<union> set ix" using ix(2) s' ps unfolding mapped_def by auto
    then show ?thesis using old bij by blast
  qed
  ultimately show ?thesis using m(1,2) by blast
qed

lemma hybrid_alloc_ok:
  assumes inv: "swa_inv s" and ps: "sw_page_size s = 1"
  shows "if n \<le> hybrid_available_size s
    then (\<exists>ix s'. hybrid_alloc s n = Inr (Some ix, s') \<and> swa_inv s' \<and> length ix = n \<and> distinct ix \<and>
      set ix \<inter> full_used s = {} \<and> full_used s' = full_used s \<union> set ix \<and> mapped s' = mapped s \<union> set ix \<and>
      (\<forall>i \<in> mapped s. mp s' i = mp s i) \<and> swa_used s' = swa_used s \<union> mp s' ` set ix)
    else hybrid_alloc s n = Inr (None, s)"
proof (cases "n \<le> hybrid_available_size s")
  case False
  then show ?thesis using ps by (auto simp: hybrid_alloc_def hybrid_available_size_def py_assert_def)
next
  case True
  have sh: "swa_shape s" and pr: "paired s" and sub: "mapped s \<subseteq> full_used s" using inv by (simp_all add: swa_inv_def)
  have cls: "sw_class s = TokenAllocator" using sh ps by (simp add: swa_shape_def)
  have invs: "al_inv TokenAllocator (full_attn_allocator s)" "al_inv TokenAllocator (swa_attn_allocator s)"
    using sh cls by (simp_all add: swa_shape_def)
  have n: "n \<le> token_available_size (full_attn_allocator s)" "n \<le> token_available_size (swa_attn_allocator s)"
    using True cls by (simp_all add: hybrid_available_size_def full_available_size_def swa_available_size_def)
  obtain ix f where f: "token_alloc (full_attn_allocator s) n = (Some ix, f)" "al_inv TokenAllocator f" "length ix = n" "distinct ix"
    "set ix \<inter> full_used s = {}" "al_used TokenAllocator f = full_used s \<union> set ix" "ka_size f = size_full s" "ka_page_size f = 1"
    using token_alloc_ok [OF invs(1) n(1)] sh ps cls by (auto simp: full_used_def swa_shape_def)
  obtain iw w where w: "token_alloc (swa_attn_allocator s) n = (Some iw, w)" "al_inv TokenAllocator w" "length iw = n" "distinct iw"
    "set iw \<inter> swa_used s = {}" "al_used TokenAllocator w = swa_used s \<union> set iw" "ka_size w = size_swa s" "ka_page_size w = 1"
    using token_alloc_ok [OF invs(2) n(2)] sh ps cls by (auto simp: swa_used_def swa_shape_def)
  have rix: "0 \<le> i \<and> i < int (size_full s + 1)" if "i \<in> set ix" for i
    using al_used_range [OF f(2), of i] that f(6-8) by auto
  have wpos: "0 \<notin> set iw" using al_used_range(1) [OF w(2), of 0] w(6,8) by auto
  have len: "length (full_to_swa_index_mapping s) = size_full s + 2" using sh ps by (simp add: swa_shape_def)
  obtain m where m: "scatter (full_to_swa_index_mapping s) ix iw = Inr m" "length m = length (full_to_swa_index_mapping s)"
    "last m = last (full_to_swa_index_mapping s)"
    "\<forall>s'. full_to_swa_index_mapping s' = m \<and> size_full s' = size_full s \<and> sw_page_size s' = 1 \<longrightarrow>
       mapped s' = mapped s \<union> set ix \<and> (\<forall>i. 0 \<le> i \<and> i \<notin> set ix \<longrightarrow> mp s' i = mp s i) \<and> bij_betw (mp s') (set ix) (set iw)"
    using scatter_pairs [OF ps len f(4) rix w(4) wpos] f(3) w(3) by auto
  let ?s = "s\<lparr>full_attn_allocator := f, swa_attn_allocator := w, full_to_swa_index_mapping := m\<rparr>"
  have new: "mapped ?s = mapped s \<union> set ix" "\<forall>i. 0 \<le> i \<and> i \<notin> set ix \<longrightarrow> mp ?s i = mp s i" "bij_betw (mp ?s) (set ix) (set iw)"
    using m(4) [rule_format, of ?s] ps by simp_all
  have keep: "mp ?s i = mp s i" if "i \<in> mapped s" for i using that new(2) sub f(5) by (auto simp: mapped_def)
  have used: "full_used ?s = full_used s \<union> set ix" "swa_used ?s = swa_used s \<union> set iw"
    using f(6) w(6) cls by (simp_all add: full_used_def swa_used_def)
  have "bij_betw (mp ?s) (mapped s) (swa_used s)" using pr paired_one [OF ps] bij_betw_cong [of "mapped s" "mp ?s" "mp s"] keep by blast
  then have "paired ?s" using bij_betw_combine [OF _ new(3)] w(5) ps paired_one [of ?s] used(2) new(1) by (simp add: Int_commute)
  moreover have "swa_shape ?s" using sh f w m(2,3) cls ps by (simp add: swa_shape_def)
  ultimately have "swa_inv ?s" using sub used(1) new(1) by (auto simp: swa_inv_def)
  moreover have "hybrid_alloc s n = Inr (Some ix, ?s)"
    using True f(1,3) w(1,3) m(1) ps cls sh
    by (auto simp: hybrid_alloc_def hybrid_available_size_def set_full_to_swa_mapping_def py_assert_def)
  moreover have "mp ?s ` set ix = set iw" using new(3) by (simp add: bij_betw_def)
  ultimately show ?thesis using True f(3-5) new(1) keep used by auto
qed

section \<open>A new allocator\<close>

lemma al_inv_clear:
  "al_inv TokenAllocator (token_clear (token_init n srt))"
  "0 < ps \<Longrightarrow> cls \<noteq> TokenAllocator \<Longrightarrow> al_inv cls (paged_clear (paged_init n ps srt dbg))"
  using token_inv_init [of n srt] paged_inv_init [of ps n srt dbg]
  by (simp_all add: al_inv_def token_init_def paged_init_def token_clear_def paged_clear_def base_init_def)

lemma int_upt_1: "set (map int [1 ..< n + 1]) = {1 .. int n}"
  by (auto simp: image_int_atLeastLessThan simp del: upt_Suc)

lemma al_used_clear:
  "al_used TokenAllocator (token_clear (token_init n srt)) = {}"
  "cls \<noteq> TokenAllocator \<Longrightarrow> al_used cls (paged_clear (paged_init n ps srt dbg)) = {}"
  by (simp_all only: al_used_def tok.used_def pgd.used_def token_univ_def token_slots_def paged_univ_def paged_slots_def paged_pages_def
      token_init_def paged_init_def token_clear_def paged_clear_def base_init_def pending_def kv_alloc.simps set_append int_upt_1
      if_True if_False list.set) (simp_all add: page_slots_def)

lemma swa_init_inv:
  assumes "0 < ps"
  shows "swa_inv (swa_init npu sz sz_swa ps srt dbg)" "full_used (swa_init npu sz sz_swa ps srt dbg) = {}"
    "swa_used (swa_init npu sz sz_swa ps srt dbg) = {}" "mapped (swa_init npu sz sz_swa ps srt dbg) = {}"
proof -
  let ?s = "swa_init npu sz sz_swa ps srt dbg"
  have cls: "sw_class ?s \<noteq> TokenAllocator \<longleftrightarrow> ps \<noteq> 1" "sw_page_size ?s = ps"
    by (simp_all add: swa_init_def swa_clear_def Let_def)
  have fs: "full_attn_allocator ?s = (if ps = 1 then token_clear (token_init sz srt) else paged_clear (paged_init sz ps srt dbg))"
    "swa_attn_allocator ?s = (if ps = 1 then token_clear (token_init sz_swa srt) else paged_clear (paged_init sz_swa ps srt dbg))"
    by (simp_all add: swa_init_def swa_clear_def Let_def)
  show f: "full_used ?s = {}" and w: "swa_used ?s = {}"
    using cls unfolding full_used_def swa_used_def fs by (cases "ps = 1"; simp add: al_used_clear)+
  show m: "mapped ?s = {}"
  proof -
    have "full_to_swa_index_mapping ?s = replicate (sz + ps) 0 @ [- 1]" "size_full ?s = sz"
      by (simp_all add: swa_init_def swa_clear_def Let_def)
    then show ?thesis by (auto simp: mapped_def mp_def cls nth_append nat_less_iff)
  qed
  have "al_inv (sw_class ?s) (full_attn_allocator ?s)" "al_inv (sw_class ?s) (swa_attn_allocator ?s)"
    using cls assms unfolding fs by (cases "ps = 1"; simp add: al_inv_clear)+
  then have "swa_shape ?s" using assms cls
    by (simp add: swa_shape_def fs) (simp add: swa_init_def swa_clear_def Let_def token_init_def paged_init_def token_clear_def
        paged_clear_def base_init_def)
  then show "swa_inv ?s" by (simp add: swa_inv_def m paired_def w)
qed

section \<open>Slots outside the window\<close>

text \<open>From where on the row of a request may lose its partners, and how far it loses them.\<close>

definition window_floor :: "nat \<Rightarrow> req \<Rightarrow> int" where
  "window_floor ps r =
     (let fl = max (int (cache_protected_len r)) (swa_evict_floor r) in
      max (swa_evicted_seqlen r)
        (if 1 < ps \<and> int (cache_protected_len r) < fl then - ((- fl) div int ps) * int ps else fl))"

definition window_end :: "nat \<Rightarrow> bool \<Rightarrow> int \<Rightarrow> int \<Rightarrow> req \<Rightarrow> int" where
  "window_end ps chunk pre_len window r =
     (let e = max (window_floor ps r) (if chunk then pre_len - window else pre_len - max window (int ps))
      in if 1 < ps then e div int ps * int ps else e)"

lemma out_of_window_eq:
  "free_swa_out_of_window_slots free pre_len window ps chunk pool r a =
     rbind (py_assert (cache_protected_len r mod ps = 0)) (\<lambda>_.
     if window_floor ps r < window_end ps chunk pre_len window r
     then rbind (req_row pool (r\<lparr>swa_evicted_seqlen := window_floor ps r\<rparr>) (nat (window_end ps chunk pre_len window r))) (\<lambda>row.
          rbind (free a (drop (nat (window_floor ps r)) row)) (\<lambda>a1.
          Inr (r\<lparr>swa_evicted_seqlen := window_floor ps r, swa_evicted_seqlen := window_end ps chunk pre_len window r\<rparr>, a1)))
     else Inr (r\<lparr>swa_evicted_seqlen := window_floor ps r\<rparr>, a))"
  unfolding free_swa_out_of_window_slots_def window_end_def window_floor_def Let_def by (rule refl)

lemma window_floor_dvd:
  assumes "cache_protected_len r mod ps = 0" "int ps dvd swa_evicted_seqlen r" "0 < ps"
  shows "int ps dvd window_floor ps r"
proof -
  have p: "int ps dvd int (cache_protected_len r)" using assms(1) by auto
  have "int ps dvd max x y" if "int ps dvd x" "int ps dvd y" for x y :: int using that by (simp add: max_def)
  moreover have "int ps dvd (if 1 < ps \<and> int (cache_protected_len r) < fl then - ((- fl) div int ps) * int ps else fl)"
    if "fl = max (int (cache_protected_len r)) (swa_evict_floor r)" for fl
  proof (cases "1 < ps")
    case True
    have "int (cache_protected_len r) < fl \<or> fl = int (cache_protected_len r)" using that by linarith
    then show ?thesis using True p by (elim disjE) simp_all
  next
    case False
    then have "ps = 1" using assms(3) by simp
    then show ?thesis by simp
  qed
  ultimately show ?thesis using assms(2) unfolding window_floor_def Let_def by blast
qed

lemma window_floor_ge:
  assumes "0 < ps"
  shows "swa_evicted_seqlen r \<le> window_floor ps r \<and> int (cache_protected_len r) \<le> window_floor ps r"
proof -
  have "x \<le> - ((- x) div int ps) * int ps" for x :: int
  proof -
    have "(- x) div int ps * int ps + (- x) mod int ps = - x" by (rule div_mult_mod_eq)
    moreover have "0 \<le> (- x) mod int ps" using assms by simp
    ultimately show ?thesis by (simp only: mult_minus_left)
  qed
  from this [of "swa_evict_floor r"] show ?thesis by (auto simp: window_floor_def Let_def max_def)
qed

lemma window_end_bounds:
  assumes "int ps dvd window_floor ps r" "0 < ps" "0 \<le> window"
  shows "int ps dvd window_end ps chunk pre_len window r" "window_floor ps r \<le> window_end ps chunk pre_len window r"
    "window_floor ps r < window_end ps chunk pre_len window r \<Longrightarrow> window_end ps chunk pre_len window r \<le> pre_len - window"
proof -
  let ?f = "window_floor ps r" and ?t = "if chunk then pre_len - window else pre_len - max window (int ps)"
  let ?e = "window_end ps chunk pre_len window r"
  have "?e = max ?f ?t div int ps * int ps"
    using assms(2) by (cases "1 < ps") (auto simp: window_end_def Let_def not_less_eq le_Suc_eq)
  moreover have "?f div int ps * int ps = ?f" using assms(1) by simp
  moreover have "?f div int ps * int ps \<le> max ?f ?t div int ps * int ps"
    by (intro mult_right_mono zdiv_mono1) (use assms(2) in auto)
  moreover have "?t div int ps * int ps \<le> ?t" using assms(2) by (simp add: minus_mod_eq_div_mult [symmetric])
  moreover have "?t \<le> pre_len - window" by simp
  ultimately show "int ps dvd ?e" "?f \<le> ?e" "?f < ?e \<Longrightarrow> ?e \<le> pre_len - window"
    by (auto simp: max_def split: if_splits)
qed

lemma pages_slots_Un: "pages_slots s (A \<union> B) = pages_slots s A \<union> pages_slots s B"
  by (auto simp: pages_slots_def page_slots_def)

text \<open>The rows of requests hold slots of the first pool, page by page.\<close>

lemma window_release_ok:
  fixes chunk :: bool
  assumes inv: "swa_inv s" and ps: "sw_page_size s = ps" and w: "0 \<le> window"
    and i: "req_pool_idx r = Some i" "i < length (req_to_token pool)"
    and row: "row = take n (req_to_token pool ! i)" "n \<le> length (req_to_token pool ! i)" "pre_len \<le> int n"
    and slots: "distinct row" "set row \<subseteq> full_used s" "page_blocks ps (\<lambda>X. pages_slots s X = X) 0 row"
    and al: "cache_protected_len r mod ps = 0" "int ps dvd swa_evicted_seqlen r" "0 \<le> swa_evicted_seqlen r"
  defines "e0 \<equiv> window_floor ps r" and "e1 \<equiv> window_end ps chunk pre_len window r"
  shows "\<exists>s'. free_swa_out_of_window_slots free_swa pre_len window ps chunk pool r s = Inr (r\<lparr>swa_evicted_seqlen := e1\<rparr>, s') \<and>
    swa_inv s' \<and> full_used s' = full_used s \<and> mapped s' = mapped s - set (slice (nat e0) (nat e1) row) \<and>
    (\<forall>i \<in> mapped s'. mp s' i = mp s i)"
proof -
  have sh: "swa_shape s" and pr: "paired s" and sub: "mapped s \<subseteq> full_used s" using inv by (simp_all add: swa_inv_def)
  have ps0: "0 < ps" using sh ps by (simp add: swa_shape_def)
  have d0: "int ps dvd e0" unfolding e0_def by (rule window_floor_dvd [OF al(1,2) ps0])
  have e1: "int ps dvd e1" "e0 \<le> e1" "e0 < e1 \<Longrightarrow> e1 \<le> pre_len - window"
    using window_end_bounds [OF d0 [unfolded e0_def] ps0 w, of chunk pre_len] unfolding e1_def e0_def by blast+
  have e0: "0 \<le> e0" using al(3) by (simp add: e0_def window_floor_def Let_def)
  show ?thesis
  proof (cases "e0 < e1")
    case False
    then have "e1 = e0" using e1(2) by simp
    then have "free_swa_out_of_window_slots free_swa pre_len window ps chunk pool r s = Inr (r\<lparr>swa_evicted_seqlen := e1\<rparr>, s)"
      using al(1) False by (simp add: out_of_window_eq e0_def [symmetric] e1_def [symmetric] py_assert_def)
    then show ?thesis using inv \<open>e1 = e0\<close> by (simp add: slice_def)
  next
    case True
    then have le: "nat e1 \<le> n" using e1(3) row(3) w by linarith
    have "int ps dvd int (nat e0)" "int ps dvd int (nat e1)" using d0 e1(1,2) e0 by simp_all
    then obtain a b where ab: "nat e0 = a * ps" "nat e1 = b * ps" by (metis dvd_div_mult_self of_nat_dvd_iff)
    let ?fr = "slice (nat e0) (nat e1) row"
    have lr: "length row = n" using row(1,2) by simp
    have "a \<le> b"
    proof (rule ccontr)
      assume "\<not> a \<le> b"
      then have "b * ps \<le> a * ps" by simp
      then show False using ab True e0 by linarith
    qed
    moreover have "page_blocks ps (\<lambda>X. pages_slots s X = X) (a * ps) row" using slots(3) unfolding page_blocks_def by blast
    moreover have "pages_slots s {} = {}" by (simp add: pages_slots_def page_slots_def)
    ultimately have whole: "pages_slots s (set ?fr) = set ?fr" unfolding ab
      using le lr ab(2) by (intro whole_blocks [where whole = "\<lambda>X. pages_slots s X = X"]) (simp_all add: pages_slots_Un)
    have fr: "distinct ?fr" "set ?fr \<subseteq> full_used s"
      using slots(1,2) set_slice_subset [of 0 "nat e0" "nat e1" row] by (auto simp: slice_def)
    have rng: "pages_slots s (set ?fr) \<subseteq> {0 ..< int (size_full s + sw_page_size s)}"
      using fr(2) full_used_range [OF sh] unfolding whole by fastforce
    obtain wa m s' where s': "free_swa s ?fr = Inr s'" "s' = s\<lparr>swa_attn_allocator := wa, full_to_swa_index_mapping := m\<rparr>"
      "swa_shape s'" "paired s'" "mapped s' = mapped s - set ?fr" "\<forall>i \<in> mapped s'. mp s' i = mp s i"
      using free_swa_ok [OF sh pr fr(1) rng] unfolding whole by (elim exE conjE) (rule that)
    have "full_used s' = full_used s" by (simp add: full_used_def s'(2))
    moreover have "req_row pool (r\<lparr>swa_evicted_seqlen := e0\<rparr>) (nat e1) = Inr (take (nat e1) row)"
      using i row(1) le by (simp add: req_row_def min_absorb2)
    then have "free_swa_out_of_window_slots free_swa pre_len window ps chunk pool r s = Inr (r\<lparr>swa_evicted_seqlen := e1\<rparr>, s')"
      using al(1) True s'(1) by (simp add: out_of_window_eq e0_def [symmetric] e1_def [symmetric] py_assert_def slice_eq_drop_take)
    moreover have "swa_inv s'" using s' sub calculation(1) by (auto simp: swa_inv_def)
    ultimately show ?thesis using s'(5,6) by blast
  qed
qed

end
