(* ===== verification/Req_Examples.thy ===== *)
theory Req_Examples
  imports Examples Slot_Table Swa_Inv
begin

text \<open>
  A request of three tokens with four allocated slots, on the empty prefix cache of theory
  \<open>Examples\<close>: the state on which the properties of the request life cycle are instantiated.
\<close>

definition demo_req :: req where
  "demo_req =
     \<lparr>origin_input_ids = [1, 2], output_ids = [3], full_untruncated_fill_ids = [1, 2, 3], fill_is_origin = False,
      extend_range_end = 3, req_extra_key = None, req_priority = None, session_id = None, req_pool_idx = Some 1,
      prefix_indices = [], last_node = Some 0, cache_protected_len = 0, kv_committed_len = 3, kv_allocated_len = 4,
      kv_committed_freed = False, kv_overallocated_freed = False, inflight_middle_chunks = 0, reasoning_tokens = 0,
      swa_evicted_seqlen = 0, swa_evict_floor = 0, skip_radix_cache_insert = False,
      return_logprob = False, logprob_start_len = - 1\<rparr>"

definition demo_pool :: req_pool where
  "demo_pool = \<lparr>rp_size = 2, max_context_len = 4, req_to_token = [[0, 0, 0, 0], [4, 5, 6, 7], [0, 0, 0, 0]],
     free_slots = [2]\<rparr>"

definition demo_args :: server_args_spec where
  "demo_args = \<lparr>speculative_algorithm = Some ''EAGLE'', speculative_num_steps = Some 2, speculative_eagle_topk = Some 1,
     max_speculative_num_draft_tokens = Some 4, sa_page_size = 2, strip_thinking_cache = False\<rparr>"

lemmas req_eval = demo_req_def demo_pool_def demo_args_def cache_commit_len_def req_row_def get_fill_ids_def

lemma demo0_shape: "rc_page_size demo0 = 2" "\<not> is_eagle demo0" "root_node demo0 = 0"
  by (simp_all add: demo0_def demo_raw_def reset_rest)

lemma demo0_locked: "cache_inv demo0 {#0#}"
proof -
  have "inc_lock_ref 0 demo0 = Inr (0, demo0)"
    using demo0_inv(2) by (simp add: inc_lock_ref_def inc_lock_loop.simps demo0_shape)
  moreover have "\<exists>u w. reaches demo0 0 u w" using at_root [of demo0] by (auto simp: demo0_shape)
  ultimately show ?thesis using lock_inv [OF demo0_inv(1), of 0] demo0_inv(2) by auto
qed

lemma demo_al_inv: "al_inv PagedAllocator demo_paged"
  using demo_paged_inv by (simp add: al_inv_def demo_paged_def paged_init_def paged_clear_def base_init_def)

lemma demo_al_used: "al_used PagedAllocator demo_paged = {4, 5, 6, 7}"
  by (simp add: al_used_def demo_paged_used)

lemma demo0_sound: "al.sound PagedAllocator demo0 {#0#} demo_paged"
  using placed_empty [of 2] by (simp add: al.sound_def demo0_locked demo_al_inv demo0_inv(3) demo0_shape)

lemma demo_paged_ps: "ka_page_size demo_paged = 2"
  by (simp add: demo_paged_def paged_init_def paged_clear_def base_init_def)

lemma demo_paged_whole: "paged_whole demo_paged {4, 5}" "paged_whole demo_paged {6, 7}" "paged_whole demo_paged {4, 5, 6, 7}"
  by (auto simp: paged_whole_def demo_paged_ps)

lemma demo_cover:
  "paged_cover demo_paged {4, 5, 6} = {4, 5, 6, 7}" "paged_cover demo_paged {4, 5, 6, 7} = {4, 5, 6, 7}"
  by (auto simp: paged_cover_def page_slots_def demo_paged_ps)

lemma owned_demo0: "owned demo0 = {}"
  using owned_eq(1) [OF demo0_inv(1)] demo0_inv(3) by simp

lemma demo_blocks: "page_blocks 2 (paged_whole demo_paged) 0 [4, 5, 6]" "page_blocks 2 (paged_whole demo_paged) 0 [4, 5, 6, 7]"
proof -
  have k: "k = 0" if "k * 2 \<le> Suc 0" for k :: nat using that by simp
  have k': "k = 0 \<or> k = 1" if "k * 2 \<le> Suc (Suc 0)" for k :: nat using that by arith
  show "page_blocks 2 (paged_whole demo_paged) 0 [4, 5, 6]" "page_blocks 2 (paged_whole demo_paged) 0 [4, 5, 6, 7]"
    using demo_paged_whole by (auto simp: page_blocks_def slice_def dest!: k k')
qed

section \<open>Facts about the request\<close>

lemma demo_fields: "cache_protected_len demo_req = 0" "last_node demo_req = Some 0" "\<not> strip_thinking_cache demo_args"
  by (simp_all add: req_eval)

lemma demo_exclusive:
  "al.exclusive PagedAllocator demo0 demo_paged (cache_protected_len demo_req) [4, 5, 6]"
  "al.exclusive PagedAllocator demo0 demo_paged (cache_protected_len demo_req) [4, 5, 6, 7]"
  by (simp_all add: demo_fields al.exclusive_def demo_cover demo_al_used owned_demo0 demo0_shape demo_blocks)

lemma demo_live: "\<not> kv_committed_freed demo_req" "\<not> kv_overallocated_freed demo_req"
  by (simp_all add: req_eval)

lemma demo_toks: "[1, 2, 3] = take (cache_commit_len False demo_req) (origin_input_ids demo_req @ output_ids demo_req)"
  by (simp add: req_eval)

lemma demo_chunks: "kv_committed_len demo_req = 3"
  by (simp add: req_eval)

lemma demo_row: "req_row demo_pool demo_req (length [1, 2, 3 :: int]) = Inr [4, 5, 6]" "length [4, 5, 6 :: int] = length [1, 2, 3 :: int]"
  by (simp_all add: req_eval)

lemma demo_protected:
  "rc_page_size demo0 dvd cache_protected_len demo_req" "cache_protected_len demo_req \<le> rk_len (cache_key demo0 demo_req [1, 2, 3])"
  "(take (cache_protected_len demo_req) (tunits (cache_key demo0 demo_req [1, 2, 3])), []) \<in> cached demo0"
  by (simp_all add: demo_fields demo0_inv(3))

lemma demo_lock: "set_option (last_node demo_req) \<subseteq> set_mset {#0#}"
  by (simp add: demo_fields)

lemma demo_index: "req_pool_idx demo_req = Some 1" "1 < length (req_to_token demo_pool)"
  by (simp_all add: req_eval)

lemma demo_fill_row:
  "[4, 5, 6] = take (length (get_fill_ids demo_req)) (req_to_token demo_pool ! 1)" "length [4, 5, 6 :: int] = length (get_fill_ids demo_req)"
  by (simp_all add: req_eval)

lemma demo_fill_protected:
  "rc_page_size demo0 dvd cache_protected_len demo_req"
  "cache_protected_len demo_req \<le> rk_len (cache_key demo0 demo_req (get_fill_ids demo_req))"
  "(take (cache_protected_len demo_req) (tunits (cache_key demo0 demo_req (get_fill_ids demo_req))),
    take (cache_protected_len demo_req) [4, 5, 6]) \<in> cached demo0"
  by (simp_all add: demo_fields demo0_inv(3))

lemma demo_last: "last_node demo_req = Some 0" "0 \<in># {#0#}"
  by (simp_all add: demo_fields)

lemma demo_key_len: "2 = rk_len (cache_key demo0 demo_req (get_fill_ids demo_req))"
  by (simp add: cache_key_def demo0_shape req_eval key_eval)

lemma demo_rows: "rows_inv demo_pool [1]"
  by (simp add: rows_inv_def alloc_size_def req_eval upt_rec)

lemma demo_full:
  "[4, 5, 6, 7] = take (kv_allocated_len demo_req) (req_to_token demo_pool ! 1)" "length [4, 5, 6, 7 :: int] = kv_allocated_len demo_req"
  by (simp_all add: req_eval)

lemma demo_committed:
  "3 = cache_commit_len (strip_thinking_cache demo_args) demo_req" "3 \<le> kv_allocated_len demo_req" "3 \<le> seqlen demo_req"
  by (simp_all add: req_eval seqlen_def)

lemma demo_release_toks: "[1, 2, 3] = take 3 (origin_input_ids demo_req @ output_ids demo_req)"
  by (simp add: req_eval)

lemma demo_page_size: "sa_page_size demo_args = rc_page_size demo0"
  by (simp add: req_eval demo0_shape)

lemma demo_same_page: "al.same_page demo_paged (rc_page_size demo0) (cache_protected_len demo_req) [4, 5, 6, 7]"
proof -
  have "[4, 5, 6, 7 :: int] ! k div 2 = int (k div 2) + 2" if "k < 4" for k
  proof -
    have "k = 0 \<or> k = 1 \<or> k = 2 \<or> k = 3" using that by arith
    then show ?thesis by (elim disjE) simp_all
  qed
  then have "[4, 5, 6, 7 :: int] ! j div 2 = [4, 5, 6, 7] ! i div 2" if "i \<le> j" "j < 4" "i div 2 = j div 2" for i j
    using that by simp
  then show ?thesis
    by (simp add: al.same_page_def demo0_shape demo_fields paged_cover_def page_slots_def demo_paged_ps del: nth_Cons_numeral)
qed

lemma demo_spec: "speculative_algorithm demo_args = None \<and> \<not> strip_thinking_cache demo_args \<longrightarrow> 3 = kv_allocated_len demo_req"
  by (simp add: req_eval)

section \<open>The token allocator and the cache\<close>

lemma demo_token_sound: "tkr.sound 8 demo1 {#} demo_token"
proof -
  have "token_ready 8 demo_token"
    using demo_token_inv by (simp add: token_ready_def demo_token_def token_init_def token_clear_def base_init_def)
  moreover have "placed (rc_page_size demo1) (tok.used demo_token) (\<lambda>_. True) (cached demo1)"
  proof (rule placed_mono)
    let ?U = "map (Pair None) [Tok 1, Tok 2, Tok 3, Tok 4]" and ?W = "[4, 5, 6, 7] :: int list"
    show "placed (rc_page_size demo1) (tok.used demo_token) (\<lambda>_. True) ({([], [])} \<union> {(take k ?U, take k ?W) | k. True})"
      by (rule placed_insert [where plen = 0])
        (simp_all add: placed_empty demo1_shape demo_token_used page_blocks_def aligned_def)
    show "cached demo1 \<subseteq> {([], [])} \<union> {(take k ?U, take k ?W) | k. True}"
      by (auto simp: cached_def demo1_reaches)
  qed
  ultimately show ?thesis by (simp add: tkr.sound_def demo1_inv)
qed

section \<open>The hybrid allocator\<close>

definition demo_swa :: swa_alloc where
  "demo_swa = \<lparr>size_full = 4, size_swa = 4, sw_page_size = 1, sw_class = TokenAllocator,
     full_attn_allocator = (token_init 4 True)\<lparr>free_pages := [4]\<rparr>,
     swa_attn_allocator = (token_init 4 True)\<lparr>free_pages := [1]\<rparr>,
     full_to_swa_index_mapping = [0, 2, 3, 4, 0, - 1], sw_not_in_free_group = True, sw_free_group = []\<rparr>"

definition demo_swa_pool :: req_pool where
  "demo_swa_pool = \<lparr>rp_size = 1, max_context_len = 3, req_to_token = [[0, 0, 0], [1, 2, 3]], free_slots = []\<rparr>"

lemma demo_swa_sets: "full_used demo_swa = {1, 2, 3}" "swa_used demo_swa = {2, 3, 4}" "mapped demo_swa = {1, 2, 3}"
proof -
  show "full_used demo_swa = {1, 2, 3}" "swa_used demo_swa = {2, 3, 4}"
    by (auto simp: full_used_def swa_used_def demo_swa_def al_used_def tok.used_def token_univ_def token_slots_def
        token_init_def token_clear_def base_init_def pending_def)
  have "i = 1 \<or> i = 2 \<or> i = 3" if i: "0 \<le> i" "i < 5" "[0, 2, 3, 4, 0, - 1 :: int] ! nat i \<noteq> 0" for i :: int
  proof -
    have "i = 0 \<or> i = 1 \<or> i = 2 \<or> i = 3 \<or> i = 4" using i(1,2) by arith
    then show ?thesis using i(3) by (elim disjE) simp_all
  qed
  then show "mapped demo_swa = {1, 2, 3}" by (auto simp: mapped_def mp_def demo_swa_def)
qed

lemma demo_swa_inv: "swa_inv demo_swa"
proof -
  have "al_inv TokenAllocator ((token_init 4 True)\<lparr>free_pages := [k]\<rparr>)" if "k \<in> {1 .. 4}" for k
    using that by (auto simp: al_inv_def token_inv_def token_slots_def token_univ_def token_init_def token_clear_def base_init_def pending_def)
  then have "swa_shape demo_swa"
    by (simp add: swa_shape_def demo_swa_def) (simp add: token_init_def token_clear_def base_init_def)
  moreover have "mp demo_swa 1 = 2" "mp demo_swa 2 = 3" "mp demo_swa 3 = 4" by (simp_all add: mp_def demo_swa_def)
  moreover have "sw_page_size demo_swa = 1" by (simp add: demo_swa_def)
  ultimately show ?thesis by (auto simp: swa_inv_def paired_def demo_swa_sets)
qed

end
