(* ===== verification/Admission.thy ===== *)
theory Admission
  imports Prefill_Adder
begin

text \<open>
  Admission never promises more tokens than there are. The argument is about the interface the
  adder uses, \<open>admission_env\<close>: a lock adds a holder of the node and a release removes one, and
  locking a known node and releasing it again leaves the reported sizes as they were. The radix
  cache provides it with every allocator, so a batch that was admitted can be allocated.
\<close>

section \<open>Rounding\<close>

lemma ceil_paged_ge: "0 < pa_page_size ad \<Longrightarrow> x \<le> ceil_paged_tokens ad x"
proof -
  assume "0 < pa_page_size ad"
  moreover have "(- x) div int (pa_page_size ad) * int (pa_page_size ad) + (- x) mod int (pa_page_size ad) = - x"
    by (rule div_mult_mod_eq)
  ultimately show ?thesis using pos_mod_sign [of "int (pa_page_size ad)" "- x"]
    unfolding ceil_paged_tokens_def by (simp only: mult_minus_left) linarith
qed

lemma ceil_paged_less:
  assumes "0 < pa_page_size ad" "int (pa_page_size ad) dvd t" "t < ceil_paged_tokens ad x"
  shows "t < x"
proof -
  let ?p = "int (pa_page_size ad)"
  obtain k where k: "t = ?p * k" using assms(2) by auto
  let ?q = "(- x) div ?p"
  have eq: "?q * ?p + (- x) mod ?p = - x" by (rule div_mult_mod_eq)
  have m: "(- x) mod ?p < ?p" using assms(1) by simp
  have "?p * (k + ?q) < 0" using assms(3) k by (simp add: ceil_paged_tokens_def algebra_simps)
  then have "k + ?q \<le> - 1" using assms(1) by (simp add: mult_less_0_iff)
  then have "?p * (k + ?q) \<le> ?p * - 1" by (intro mult_left_mono) simp_all
  then have "?p * k + ?q * ?p \<le> - ?p" by (simp add: algebra_simps)
  then show ?thesis using eq m k by linarith
qed

lemma py_int_le: "0 < py_int x \<Longrightarrow> of_int (py_int x) \<le> x"
  by (auto simp: py_int_def split: if_splits)

section \<open>The interface\<close>

definition room :: "'st cache_ops \<Rightarrow> adder \<Rightarrow> 'st \<Rightarrow> int" where
  "room ops ad st = available_and_evictable ad (co_sizes ops st)"

text \<open>What a batch needs: its new tokens and a page of overhead for each request.\<close>

definition batch_need :: "adder \<Rightarrow> int" where
  "batch_need ad = sum_list (map (\<lambda>r. extend_len r + int (pa_page_size ad)) (can_run_list ad))"

definition adder_wf :: "adder \<Rightarrow> bool" where
  "adder_wf ad \<longleftrightarrow> 0 < pa_page_size ad \<and> 0 \<le> clip_max_new_tokens ad \<and> 0 \<le> mamba_slot_cost ad \<and> dllm_block_size ad = None"

text \<open>The budgets cover the batch, and the batch fits, up to the page of its last request.\<close>

definition charged :: "adder \<Rightarrow> bool" where
  "charged ad \<longleftrightarrow> of_int (batch_need ad) \<le> rem_total_token_offset ad \<and> batch_need ad \<le> cur_rem_token_offset ad"

definition fits :: "'st cache_ops \<Rightarrow> adder \<Rightarrow> 'st \<Rightarrow> bool" where
  "fits ops ad st \<longleftrightarrow> (can_run_list ad \<noteq> [] \<longrightarrow> batch_need ad - int (pa_page_size ad) \<le> room ops ad st)"

text \<open>\<open>ok H st\<close>: the state is sound and the nodes of the multiset \<open>H\<close> are locked, each as often as it occurs.\<close>

locale admission_env =
  fixes ops :: "'st cache_ops" and ok :: "nat multiset \<Rightarrow> 'st \<Rightarrow> bool" and known :: "'st \<Rightarrow> nat option \<Rightarrow> bool"
  assumes inc_ok: "ok H st \<Longrightarrow> known st n \<Longrightarrow>
      \<exists>st1. co_inc_lock ops n st = Inr st1 \<and> ok (add_mset (the n) H) st1 \<and> known st1 = known st"
    and inc_dec: "ok H st \<Longrightarrow> known st n \<Longrightarrow> co_inc_lock ops n st = Inr st1 \<Longrightarrow>
      \<exists>st2. co_dec_lock ops n st1 = Inr st2 \<and> ok H st2 \<and> known st2 = known st \<and> co_sizes ops st2 = co_sizes ops st"

subsection \<open>What an admission does to the budgets\<close>

lemma batch_need_admit: "batch_need (admit r plen ext mx ad) = batch_need ad + extend_len r + int (pa_page_size ad)"
  by (simp add: batch_need_def admit_def update_prefill_budget_def Let_def)

lemma admit_simps [simp]:
  "can_run_list (admit r plen ext mx ad) = can_run_list ad @ [r]"
  "pa_page_size (admit r plen ext mx ad) = pa_page_size ad"
  "rem_total_token_offset (admit r plen ext mx ad) =
     rem_total_token_offset ad + of_int (ceil_paged_tokens ad ext + mx + int (pa_page_size ad) + mamba_gap_budget_for_req ad r)"
  "cur_rem_token_offset (admit r plen ext mx ad) =
     cur_rem_token_offset ad + (ceil_paged_tokens ad ext + int (pa_page_size ad) + mamba_gap_budget_for_req ad r)"
  by (simp_all add: admit_def update_prefill_budget_def Let_def ceil_paged_tokens_def)

lemma adder_wf_admit: "adder_wf ad \<Longrightarrow> adder_wf (admit r plen ext mx ad)"
  by (simp add: adder_wf_def admit_def update_prefill_budget_def Let_def)

lemma room_admit [simp]: "room ops (admit r plen ext mx ad) st = room ops ad st"
  by (simp add: room_def available_and_evictable_def admit_def update_prefill_budget_def Let_def)

lemma gap_nonneg: "adder_wf ad \<Longrightarrow> 0 \<le> mamba_gap_budget_for_req ad r"
  by (simp add: mamba_gap_budget_for_req_def adder_wf_def)

lemma charged_admit:
  assumes "adder_wf ad" "charged ad" "extend_len r \<le> ext" "0 \<le> mx"
  shows "charged (admit r plen ext mx ad)"
proof -
  have "ext \<le> ceil_paged_tokens ad ext" using assms(1) by (simp add: ceil_paged_ge adder_wf_def)
  then have le: "extend_len r \<le> ceil_paged_tokens ad ext + mx + mamba_gap_budget_for_req ad r"
    "extend_len r \<le> ceil_paged_tokens ad ext + mamba_gap_budget_for_req ad r"
    using assms(3,4) gap_nonneg [OF assms(1), of r] by linarith+
  have "(of_int (extend_len r) :: rat) \<le> of_int (ceil_paged_tokens ad ext + mx + mamba_gap_budget_for_req ad r)"
    using le(1) by (simp only: of_int_le_iff)
  then show ?thesis using assms(2) le(2) by (simp add: charged_def batch_need_admit)
qed

lemma fits_admit:
  assumes "batch_need ad + extend_len r \<le> room ops ad st"
  shows "fits ops (admit r plen ext mx ad) st"
  using assms by (simp add: fits_def batch_need_admit)

lemma extend_len_set:
  "extend_len (set_extend_range s e r) = int e - int s" "0 \<le> int s + t \<Longrightarrow> extend_len (set_extend_range s (nat (int s + t)) r) = t"
  by (simp_all add: extend_len_def set_extend_range_def)

lemma upd_simps [simp]:
  "batch_need (ad\<lparr>req_states := x\<rparr>) = batch_need ad" "batch_need (ad\<lparr>new_chunked_req := y\<rparr>) = batch_need ad"
  "adder_wf (ad\<lparr>req_states := x\<rparr>) = adder_wf ad" "adder_wf (ad\<lparr>new_chunked_req := y\<rparr>) = adder_wf ad"
  "charged (ad\<lparr>req_states := x\<rparr>) = charged ad" "charged (ad\<lparr>new_chunked_req := y\<rparr>) = charged ad"
  "room ops (ad\<lparr>req_states := x\<rparr>) st = room ops ad st" "room ops (ad\<lparr>new_chunked_req := y\<rparr>) st = room ops ad st"
  "fits ops (ad\<lparr>req_states := x\<rparr>) st = fits ops ad st" "fits ops (ad\<lparr>new_chunked_req := y\<rparr>) st = fits ops ad st"
  "ceil_paged_tokens (ad\<lparr>req_states := x\<rparr>) = ceil_paged_tokens ad"
  "ceil_paged_tokens (ad\<lparr>new_chunked_req := y\<rparr>) = ceil_paged_tokens ad"
  by (simp_all add: batch_need_def adder_wf_def charged_def room_def available_and_evictable_def fits_def ceil_paged_tokens_def fun_eq_iff)

subsection \<open>Chunks\<close>

lemma chunk_len_bounds:
  assumes "chunk_len ps chunk align plen = Inr (Some t)" "0 < ps"
  shows "0 < t" "\<exists>k. t \<le> k * int ps \<and> k * int ps \<le> chunk"
proof -
  let ?t0 = "chunk div int ps * int ps"
  obtain t1 where t1: "t1 \<le> ?t0" "t = (t1 + int plen) div int ps * int ps - int plen" and pos: "0 < t"
  proof (cases align)
    case None
    then show ?thesis using assms(1) that [of ?t0] by (auto simp: chunk_len_def Let_def split: if_splits)
  next
    case (Some al)
    have "0 \<le> ?t0 mod int al" if "0 < al" using that by simp
    then have "int al * (?t0 div int al) \<le> ?t0" if "0 < ?t0"
      using that by (cases "al = 0") (auto simp: minus_mod_eq_mult_div [symmetric])
    then show ?thesis using Some assms(1) that [of "int al * (?t0 div int al)"]
      by (auto simp: chunk_len_def Let_def split: if_splits)
  qed
  have "(t1 + int plen) div int ps * int ps \<le> t1 + int plen" "?t0 \<le> chunk"
    using assms(2) by (simp_all add: minus_mod_eq_div_mult [symmetric])
  then show "\<exists>k. t \<le> k * int ps \<and> k * int ps \<le> chunk" using t1 by (intro exI [of _ "chunk div int ps"]) linarith
  show "0 < t" by (fact pos)
qed

text \<open>A chunk is shorter than the rest of the request.\<close>

lemma chunk_len_less:
  assumes "chunk_len (pa_page_size ad) chunk align plen = Inr (Some t)" "0 < pa_page_size ad" "chunk < ceil_paged_tokens ad x"
  shows "t \<le> x"
proof -
  obtain k where k: "t \<le> k * int (pa_page_size ad)" "k * int (pa_page_size ad) \<le> chunk"
    using chunk_len_bounds [OF assms(1,2)] by blast
  have "k * int (pa_page_size ad) < x"
    by (rule ceil_paged_less [OF assms(2)]) (use k assms(3) in auto)
  then show ?thesis using k(1) by linarith
qed

text \<open>An alignment size of zero is divided by; every other one gives an answer.\<close>

lemma chunk_len_returns: "align \<noteq> Some 0 \<Longrightarrow> \<exists>t. chunk_len ps chunk align plen = Inr t"
  by (cases align) (auto simp: chunk_len_def Let_def)

subsection \<open>One request\<close>

definition req_ok :: "sched_req \<Rightarrow> bool" where
  "req_ok r \<longleftrightarrow> 0 \<le> max_new_tokens r \<and> length (prefix_indices r) \<le> length (full_untruncated_fill_ids r) \<and>
     \<not> needs_host_load_back r"

lemma budget_room:
  assumes "charged ad" "of_int t < rem_total_tokens ops st ad"
  shows "batch_need ad + t < room ops ad st"
proof -
  have "(of_int (batch_need ad + t) :: rat) < of_int (room ops ad st)"
    using assms by (simp add: charged_def rem_total_tokens_def room_def)
  then show ?thesis by (simp only: of_int_less_iff)
qed

lemma locked_ok:
  assumes wf: "adder_wf ad" "charged ad" and r: "req_ok r" and inc: "co_inc_lock ops (last_node r) st = Inr st2"
    and t: "t = cand_extend_input_len r + m + int (pa_page_size ad) + mamba_gap_budget_for_req ad r" "0 \<le> m"
    and al: "align \<noteq> Some 0"
  shows "(\<exists>res. add_one_req_locked ops align t c st r ad = Inr (Some res, r, ad, st)) \<or>
    (\<exists>r2 ad2. add_one_req_locked ops align t c st r ad = Inr (None, r2, ad2, st2) \<and> adder_wf ad2 \<and> charged ad2 \<and>
       batch_need ad2 \<le> room ops ad st \<and> can_run_list ad2 = can_run_list ad @ [r2] \<and> last_node r2 = last_node r \<and> pa_page_size ad2 = pa_page_size ad \<and>
       (\<forall>s. room ops ad2 s = room ops ad s))"
proof -
  let ?L = "add_one_req_locked ops align t c st r ad" and ?plen = "length (prefix_indices r)"
  let ?in = "ceil_paged_tokens ad (cand_extend_input_len r)" and ?ps = "pa_page_size ad"
  have ps: "0 < ?ps" and dl: "dllm_block_size ad = None" and cl: "0 \<le> clip_max_new_tokens ad" using wf(1) by (simp_all add: adder_wf_def)
  have nlb: "\<not> needs_host_load_back r" and mx: "0 \<le> min (max_new_tokens r) (clip_max_new_tokens ad)"
    and pl: "?plen \<le> length (full_untruncated_fill_ids r)" using r cl by (simp_all add: req_ok_def)
  show ?thesis
  proof (cases "rem_total_tokens ops st ad \<le> of_int t \<or>
      is_hybrid_swa ad \<and> rem_swa_tokens ops st ad \<le> swa_budget_for_req ad c (swa_host_hit_length r) \<or>
      rem_chunk_tokens ad = None \<and> can_run_list ad \<noteq> [] \<and> rem_input_tokens ad \<le> ?in")
    case True
    then show ?thesis using nlb by (auto simp: add_one_req_locked_def Let_def)
  next
    case False
    then have b: "batch_need ad + t < room ops ad st" by (intro budget_room [OF wf(2)]) simp
    have fit: "batch_need ad + x + int ?ps \<le> room ops ad st" if "x \<le> cand_extend_input_len r" for x
      using b t that gap_nonneg [OF wf(1), of r] by linarith
    let ?chunk = "the (rem_chunk_tokens ad)"
    consider (all) "case rem_chunk_tokens ad of None \<Rightarrow> True | Some c \<Rightarrow> ?in \<le> c"
      | (stop) "\<not> (case rem_chunk_tokens ad of None \<Rightarrow> True | Some c \<Rightarrow> ?in \<le> c)" "chunk_len ?ps ?chunk align ?plen = Inr None"
      | (part) tr where "\<not> (case rem_chunk_tokens ad of None \<Rightarrow> True | Some c \<Rightarrow> ?in \<le> c)"
          "chunk_len ?ps ?chunk align ?plen = Inr (Some tr)" "?chunk < ?in"
      using chunk_len_returns [OF al, of ?ps ?chunk ?plen] by (cases "rem_chunk_tokens ad") fastforce+
    then show ?thesis
    proof cases
      case all
      let ?r2 = "set_extend_range ?plen (length (full_untruncated_fill_ids r)) r"
      let ?ad2 = "admit ?r2 (int ?plen) ?in (min (max_new_tokens r) (clip_max_new_tokens ad)) ad"
      have ext: "extend_len ?r2 = cand_extend_input_len r" by (simp add: extend_len_set cand_extend_input_len_def)
      have "?L = Inr (None, ?r2, ?ad2, st2)"
        using False all nlb dl inc by (simp add: add_one_req_locked_def Let_def set_extend_range_def)
      moreover have "charged ?ad2" using ext ps by (intro charged_admit [OF wf] mx) (simp add: ceil_paged_ge)
      moreover have "batch_need ?ad2 \<le> room ops ad st" using fit [of "extend_len ?r2"] ext by (simp add: batch_need_admit)
      moreover have "last_node ?r2 = last_node r" by (simp add: set_extend_range_def)
      ultimately show ?thesis using adder_wf_admit [OF wf(1)] by auto
    next
      case stop
      then show ?thesis using False nlb dl by (auto simp: add_one_req_locked_def Let_def)
    next
      case (part tr)
      let ?r2 = "set_extend_range ?plen (nat (int ?plen + tr)) r"
      let ?ad1 = "ad\<lparr>new_chunked_req := Some ?r2\<rparr>"
      let ?ad2 = "admit ?r2 (int ?plen) tr 0 ?ad1"
      have tr: "0 < tr" "tr \<le> cand_extend_input_len r"
        using chunk_len_bounds [OF part(2) ps] chunk_len_less [OF part(2) ps part(3)] by simp_all
      then have ext: "extend_len ?r2 = tr" by (intro extend_len_set) simp
      have "?L = Inr (None, ?r2, ?ad2, st2)"
        using False part(1,2) nlb dl inc by (simp add: add_one_req_locked_def Let_def set_extend_range_def)
      moreover have "charged ?ad2" using ext wf by (intro charged_admit) simp_all
      moreover have "batch_need ?ad2 \<le> room ops ad st" using fit [of tr] tr ext by (simp add: batch_need_admit)
      moreover have "last_node ?r2 = last_node r" by (simp add: set_extend_range_def)
      ultimately show ?thesis using adder_wf_admit [of ?ad1] wf(1) by auto
    qed
  qed
qed

lemma ignore_eos_ok:
  assumes wf: "adder_wf ad" "charged ad" "fits ops ad st" and r: "req_ok r" "prefix_indices r = []"
  shows "\<exists>res r' ad'. add_one_req_ignore_eos ops st r ad = Inr (res, r', ad') \<and> adder_wf ad' \<and> charged ad' \<and> fits ops ad' st \<and>
    (can_run_list ad' = can_run_list ad \<or> can_run_list ad' = can_run_list ad @ [r'])"
proof -
  let ?cand = "cand_extend_input_len r" and ?ad1 = "ad\<lparr>req_states := Some (next_req_states ad r)\<rparr>"
  let ?E = "add_one_req_ignore_eos ops st r ad"
  let ?tok = "min (of_int (cur_rem_tokens ops st ad)) (rem_total_tokens ops st ad)"
  let ?paged = "ceil_paged_tokens ad ?cand + mamba_gap_budget_for_req ad r"
  have ps: "0 < pa_page_size ad" and dl: "dllm_block_size ad = None" and cl: "0 \<le> clip_max_new_tokens ad" using wf(1) by (simp_all add: adder_wf_def)
  have mx: "0 \<le> min (max_new_tokens r) (clip_max_new_tokens ad)" using r(1) cl by (simp add: req_ok_def)
  let ?reject = "is_hybrid_swa ad \<and> rem_swa_tokens ops st ad < swa_budget_for_req ad ?cand 0"
  let ?late = "\<not> is_hybrid_swa ad \<and> runs_out (cur_rem_tokens ops st ?ad1 - ceil_paged_tokens ?ad1 ?cand) 0 (next_req_states ad r) \<or>
    delayer_allows ?ad1 = Some False"
  show ?thesis
  proof (cases "?tok < of_int ?paged \<or> ?reject \<or> ?late")
    case True
    then consider "?tok < of_int ?paged" | "\<not> ?tok < of_int ?paged" ?reject | "\<not> ?tok < of_int ?paged" "\<not> ?reject" ?late by blast
    then show ?thesis using wf by cases (auto simp: add_one_req_ignore_eos_def Let_def)
  next
    case False
    then have c: "(?tok < of_int ?paged) = False" "?reject = False" "(delayer_allows ?ad1 = Some False) = False"
      "(\<not> is_hybrid_swa ad \<and> runs_out (cur_rem_tokens ops st ?ad1 - ceil_paged_tokens ?ad1 ?cand) 0 (next_req_states ad r)) = False"
      by blast+
    have go: "?E = (if (case rem_chunk_tokens ad of None \<Rightarrow> True | Some c \<Rightarrow> ?cand \<le> c)
        then (let r' = set_extend_range 0 (length (full_untruncated_fill_ids r)) r;
                  ad' = admit r' 0 (extend_len r') (min (max_new_tokens r) (clip_max_new_tokens ?ad1)) ?ad1
              in Inr (budget_state ops st ad', r', ad'))
        else (let t = the (rem_chunk_tokens ad) in
              if t \<le> 0 then Inr (OTHER, r, ?ad1)
              else let r' = set_extend_range 0 (nat (int 0 + t)) r;
                       ad' = admit r' 0 t 0 (?ad1\<lparr>new_chunked_req := Some r'\<rparr>)
                   in Inr (budget_state ops st ad', r', ad')))"
      unfolding add_one_req_ignore_eos_def Let_def c if_False using dl r(2) by (simp add: py_assert_def)
    have "of_int ?paged \<le> (of_int (cur_rem_tokens ops st ad) :: rat)" using False by linarith
    then have "?paged \<le> cur_rem_tokens ops st ad" by (simp only: of_int_le_iff)
    then have b: "batch_need ad + x \<le> room ops ad st" if "x \<le> ?cand" for x
      using that wf(2) ceil_paged_ge [OF ps, of ?cand] gap_nonneg [OF wf(1), of r]
      by (simp add: charged_def cur_rem_tokens_def room_def)
    show ?thesis
    proof (cases "case rem_chunk_tokens ad of None \<Rightarrow> True | Some c \<Rightarrow> ?cand \<le> c")
      case True
      let ?r = "set_extend_range 0 (length (full_untruncated_fill_ids r)) r"
      let ?a = "admit ?r 0 (extend_len ?r) (min (max_new_tokens r) (clip_max_new_tokens ?ad1)) ?ad1"
      have ext: "extend_len ?r = ?cand" using r(2) by (simp add: extend_len_set cand_extend_input_len_def)
      have "?E = Inr (budget_state ops st ?a, ?r, ?a)" using True by (simp add: go Let_def)
      moreover have "charged ?a" using wf mx by (intro charged_admit) simp_all
      moreover have "fits ops ?a st" using b [of ?cand] ext by (intro fits_admit) simp
      ultimately show ?thesis using adder_wf_admit [of ?ad1] wf(1) by auto
    next
      case False
      then obtain ch where ch: "rem_chunk_tokens ad = Some ch" "ch < ?cand" by (auto split: option.splits)
      show ?thesis
      proof (cases "ch \<le> 0")
        case True
        then show ?thesis using False ch wf by (simp add: go)
      next
        case pos: False
        let ?r = "set_extend_range 0 (nat (int 0 + ch)) r"
        let ?a1 = "?ad1\<lparr>new_chunked_req := Some ?r\<rparr>"
        let ?a = "admit ?r 0 ch 0 ?a1"
        have ext: "extend_len ?r = ch" using pos by (intro extend_len_set) simp
        have "?E = Inr (budget_state ops st ?a, ?r, ?a)" using False ch pos by (simp add: go Let_def)
        moreover have "charged ?a" using wf ext by (intro charged_admit) simp_all
        moreover have "fits ops ?a st" using b [of ch] ch ext by (intro fits_admit) simp
        ultimately show ?thesis using adder_wf_admit [of ?a1] wf(1) by auto
      qed
    qed
  qed
qed

lemma chunked_ok:
  assumes wf: "adder_wf ad" "charged ad" and r: "req_ok r"
    and c: "rem_chunk_tokens ad = Some chunk" "0 < min chunk (py_int (rem_total_tokens ops st ad))" "\<not> is_hybrid_swa ad"
  shows "\<exists>unfinished r' ad'. add_chunked_req ops st r ad = Inr (unfinished, r', ad') \<and> adder_wf ad' \<and> charged ad' \<and> fits ops ad' st \<and>
    can_run_list ad' = can_run_list ad @ [r'] \<and> (unfinished \<longleftrightarrow> extend_len r' < cand_extend_input_len r) \<and>
    extend_len r' = min (cand_extend_input_len r) (min chunk (py_int (rem_total_tokens ops st ad)))"
proof -
  let ?rem = "min chunk (py_int (rem_total_tokens ops st ad))" and ?cand = "cand_extend_input_len r"
  let ?plen = "length (prefix_indices r)" and ?mx = "if \<not> ?rem < ?cand then min (max_new_tokens r) (clip_max_new_tokens ad) else 0"
  let ?r = "set_extend_range ?plen (nat (int ?plen + min ?cand ?rem)) r"
  let ?a = "admit ?r 0 (extend_len ?r) ?mx ad"
  have cand: "0 \<le> ?cand" using r by (simp add: req_ok_def cand_extend_input_len_def)
  have ext: "extend_len ?r = min ?cand ?rem" using cand c(2) by (intro extend_len_set) simp
  have "add_chunked_req ops st r ad = Inr (?rem < ?cand, ?r, ?a)"
  proof -
    have "(?rem \<le> 0) = False" using c(2) by (simp only: not_less [symmetric]) simp
    moreover have "dllm_block_size ad = None" using wf(1) by (simp add: adder_wf_def)
    ultimately show ?thesis unfolding add_chunked_req_def Let_def c(1) using c(3) by (simp only: option.case if_False rbind_simps)
  qed
  moreover have "charged ?a" using wf r by (intro charged_admit) (auto simp: req_ok_def adder_wf_def)
  moreover have "fits ops ?a st"
  proof (rule fits_admit)
    have "of_int (py_int (rem_total_tokens ops st ad)) \<le> rem_total_tokens ops st ad" using c(2) by (intro py_int_le) simp
    moreover have "(of_int (min ?cand ?rem) :: rat) \<le> of_int (py_int (rem_total_tokens ops st ad))" by (simp only: of_int_le_iff)
    ultimately have "(of_int (batch_need ad + min ?cand ?rem) :: rat) \<le> of_int (room ops ad st)"
      using wf(2) by (simp add: charged_def rem_total_tokens_def room_def)
    then show "batch_need ad + extend_len ?r \<le> room ops ad st" unfolding ext by (simp only: of_int_le_iff)
  qed
  ultimately show ?thesis using adder_wf_admit [OF wf(1)] ext by auto
qed

context admission_env
begin

text \<open>
  The temporary lock is released on every way out. A request that is admitted keeps one lock of its
  own, except on the way through \<^verbatim>\<open>add_one_req_ignore_eos\<close> for a disabled cache, where nothing is locked.
\<close>

lemma add_one_req_ok:
  assumes wf: "adder_wf ad" "charged ad" "fits ops ad st" and r: "req_ok r" "ignore_eos r \<and> co_disabled ops \<longrightarrow> prefix_indices r = []"
    and st: "ok H st" "known st (last_node r)" and al: "align \<noteq> Some 0"
  shows "\<exists>res r' ad' st'. add_one_req ops align st r ad = Inr (res, r', ad', st') \<and> known st' = known st \<and>
    adder_wf ad' \<and> charged ad' \<and> fits ops ad' st' \<and>
    (can_run_list ad' = can_run_list ad \<and> ok H st' \<or>
     can_run_list ad' = can_run_list ad @ [r'] \<and>
       (if ignore_eos r \<and> co_disabled ops then ok H st'
        else last_node r' = last_node r \<and> ok (add_mset (the (last_node r)) H) st'))"
proof -
  let ?m = "min (max (max_new_tokens r - int (length (output_ids r))) 0) (clip_max_new_tokens ad)"
  let ?cand = "cand_extend_input_len r"
  let ?t = "?cand + ?m + int (pa_page_size ad) + mamba_gap_budget_for_req ad r"
  let ?A = "add_one_req ops align st r ad"
  let ?early = "delayer_allows ad = Some False \<or> dsa_prefill_cp_in_seq_split ad \<and> 1 \<le> length (can_run_list ad) \<or>
    (case prefill_max_requests ad of None \<Rightarrow> False | Some x \<Rightarrow> x \<le> length (can_run_list ad))"
  let ?late = "rem_total_tokens ops st ad \<le> of_int ?t \<or>
    is_hybrid_swa ad \<and> rem_swa_tokens ops st ad \<le> swa_budget_for_req ad ?cand (swa_host_hit_length r) \<or>
    rem_chunk_tokens ad = None \<and> can_run_list ad \<noteq> [] \<and> rem_input_tokens ad \<le> ceil_paged_tokens ad (?cand - int (host_hit_length r))"
  consider ?early | "\<not> ?early" "ignore_eos r \<and> co_disabled ops" | "\<not> ?early" "\<not> (ignore_eos r \<and> co_disabled ops)" ?late
    | "\<not> ?early" "\<not> (ignore_eos r \<and> co_disabled ops)" "\<not> ?late" by blast
  then show ?thesis
  proof cases
    case 1
    then have "\<exists>res. ?A = Inr (res, r, ad, st)" by (auto simp: add_one_req_def)
    then show ?thesis using wf st by blast
  next
    case 2
    then have "?A = rbind (add_one_req_ignore_eos ops st r ad) (\<lambda>(res, r', ad'). Inr (res, r', ad', st))"
      by (auto simp: add_one_req_def)
    then show ?thesis using ignore_eos_ok [OF wf r(1)] r(2) 2(2) st by auto
  next
    case 3
    then have "\<exists>res. ?A = Inr (res, r, ad, st)" by (auto simp: add_one_req_def Let_def)
    then show ?thesis using wf st by blast
  next
    case 4
    let ?H = "add_mset (the (last_node r)) H"
    obtain st1 where s1: "co_inc_lock ops (last_node r) st = Inr st1" "ok ?H st1" "known st1 = known st" using inc_ok [OF st] by blast
    have k1: "known st1 (last_node r)" using s1(3) st(2) by simp
    obtain st2 where s2: "co_inc_lock ops (last_node r) st1 = Inr st2" using inc_ok [OF s1(2) k1] by blast
    have A: "?A = rbind (add_one_req_locked ops align ?t ?cand st1 r ad) (\<lambda>(out, r', ad', st2).
        rbind (co_dec_lock ops (last_node r) st2) (\<lambda>st3.
        Inr (case out of Some res \<Rightarrow> res | None \<Rightarrow> budget_state ops st3 ad', r', ad', st3)))"
      using 4 s1(1) by (auto simp: add_one_req_def Let_def)
    have m: "0 \<le> ?m" using wf(1) by (simp add: adder_wf_def)
    from locked_ok [OF wf(1,2) r(1) s2 refl m al, of ?cand] show ?thesis
    proof (elim disjE exE conjE)
      fix res assume L: "add_one_req_locked ops align ?t ?cand st1 r ad = Inr (Some res, r, ad, st1)"
      obtain st3 where "co_dec_lock ops (last_node r) st1 = Inr st3" "ok H st3" "known st3 = known st" "co_sizes ops st3 = co_sizes ops st"
        using inc_dec [OF st s1(1)] by blast
      then show ?thesis using wf L by (auto simp: A fits_def room_def)
    next
      fix r2 ad2
      assume L: "add_one_req_locked ops align ?t ?cand st1 r ad = Inr (None, r2, ad2, st2)" "adder_wf ad2" "charged ad2"
        "batch_need ad2 \<le> room ops ad st1" "can_run_list ad2 = can_run_list ad @ [r2]" "last_node r2 = last_node r"
        "pa_page_size ad2 = pa_page_size ad"
        "\<forall>s. room ops ad2 s = room ops ad s"
      obtain st3 where s3: "co_dec_lock ops (last_node r) st2 = Inr st3" "ok ?H st3" "known st3 = known st1" "co_sizes ops st3 = co_sizes ops st1"
        using inc_dec [OF s1(2) k1 s2] by blast
      have "room ops ad2 st3 = room ops ad st1" using L(8) s3(4) by (simp add: room_def)
      then have "fits ops ad2 st3" using L(4) by (simp add: fits_def)
      then show ?thesis using 4(2) L s3 s1(3) by (auto simp: A)
    qed
  qed
qed

end

section \<open>A pass of the scheduler\<close>

text \<open>Any sequence of calls for waiting requests and, with a positive budget, for the chunked request.\<close>

inductive admits ::
  "'st cache_ops \<Rightarrow> ('st \<Rightarrow> nat option \<Rightarrow> bool) \<Rightarrow> nat option \<Rightarrow> 'st \<times> adder \<Rightarrow> 'st \<times> adder \<Rightarrow> bool"
  for ops known align s where
  admits_start: "admits ops known align s s"
| admits_one: "admits ops known align s (st, ad) \<Longrightarrow> req_ok r \<Longrightarrow> ignore_eos r \<and> co_disabled ops \<longrightarrow> prefix_indices r = [] \<Longrightarrow>
    known st (last_node r) \<Longrightarrow> add_one_req ops align st r ad = Inr (res, r', ad', st') \<Longrightarrow> admits ops known align s (st', ad')"
| admits_chunked: "admits ops known align s (st, ad) \<Longrightarrow> req_ok r \<Longrightarrow> rem_chunk_tokens ad = Some chunk \<Longrightarrow>
    0 < min chunk (py_int (rem_total_tokens ops st ad)) \<Longrightarrow> \<not> is_hybrid_swa ad \<Longrightarrow>
    add_chunked_req ops st r ad = Inr (unfinished, r', ad') \<Longrightarrow> admits ops known align s (st, ad')"

context admission_env
begin

lemma admits_ok:
  assumes "admits ops known align s s'" "adder_wf (snd s)" "charged (snd s)" "fits ops (snd s) (fst s)" "ok H (fst s)"
    "align \<noteq> Some 0"
  shows "adder_wf (snd s') \<and> charged (snd s') \<and> fits ops (snd s') (fst s') \<and> (\<exists>H'. ok H' (fst s'))"
  using assms
proof (induction rule: admits.induct)
  case (admits_one st ad r res r' ad' st')
  then obtain H' where "adder_wf ad" "charged ad" "fits ops ad st" "ok H' st" by auto
  with admits_one.hyps admits_one.prems(5) show ?case
    using add_one_req_ok [of ad st r H' align] by (auto split: if_splits)
next
  case (admits_chunked st ad r chunk unfinished r' ad')
  then show ?case using chunked_ok [of ad r chunk ops st] by auto
qed auto

end

section \<open>The radix cache as environment\<close>

text \<open>The sizes of other pools do not exist here, and the cache has no host memory to load from.\<close>

definition radix_ops :: "alloc_class \<Rightarrow> (kv_alloc \<times> radix_cache) cache_ops" where
  "radix_ops cls =
     \<lparr>co_sizes = (\<lambda>(a, c). \<lparr>sz_available = int (al_available_size cls a), sz_full_available = 0, sz_swa_available = 0,
        sz_evictable = rc_evictable_size c, sz_full_evictable = 0, sz_swa_evictable = 0\<rparr>),
      co_inc_lock = (\<lambda>n (a, c). case n of None \<Rightarrow> Inl AttributeError
        | Some m \<Rightarrow> rbind (inc_lock_ref m c) (\<lambda>(d, c'). Inr (a, c'))),
      co_dec_lock = (\<lambda>n (a, c). case n of None \<Rightarrow> Inl AttributeError
        | Some m \<Rightarrow> rbind (dec_lock_ref m c) (\<lambda>(d, c'). Inr (a, c'))),
      co_load_back = (\<lambda>r st. Inl NotImplementedError), co_disabled = False\<rparr>"

definition radix_ok :: "alloc_class \<Rightarrow> nat multiset \<Rightarrow> kv_alloc \<times> radix_cache \<Rightarrow> bool" where
  "radix_ok cls H = (\<lambda>(a, c). \<not> rc_disable c \<and> al.sound cls c H a)"

definition in_tree :: "kv_alloc \<times> radix_cache \<Rightarrow> nat option \<Rightarrow> bool" where
  "in_tree = (\<lambda>(a, c) n. \<exists>m u w. n = Some m \<and> reaches c m u w)"

lemma in_tree_cong: "\<forall>k u w. reaches c' k u w \<longleftrightarrow> reaches c k u w \<Longrightarrow> in_tree (a', c') = in_tree (a, c)"
  by (subgoal_tac "reaches c' = reaches c", simp add: in_tree_def, simp add: fun_eq_iff)

lemma lock_roundtrip_sound:
  assumes "al.sound cls c H a" "\<not> rc_disable c" "reaches c m u w"
  shows "\<exists>d1 c1 d2 c2. inc_lock_ref m c = Inr (d1, c1) \<and> dec_lock_ref m c1 = Inr (d2, c2) \<and>
    al.sound cls c1 (add_mset m H) a \<and> al.sound cls c2 H a \<and> \<not> rc_disable c1 \<and> \<not> rc_disable c2 \<and>
    (\<forall>k u w. reaches c1 k u w \<longleftrightarrow> reaches c k u w) \<and> (\<forall>k u w. reaches c2 k u w \<longleftrightarrow> reaches c k u w) \<and>
    rc_evictable_size c2 = rc_evictable_size c"
proof -
  obtain L P V where inv: "cinv c L P V H" using assms(1) by (auto simp: al.sound_def cache_inv_def)
  have m: "m \<in> L" using assms(3) reaches_iff [OF cinv_tree [OF inv]] by simp
  obtain d1 c1 d2 c2 where l: "inc_lock_ref m c = Inr (d1, c1)" "dec_lock_ref m c1 = Inr (d2, c2)"
    "cinv c1 L P V (add_mset m H)" "cinv c2 L P V H" "rc_evictable_size c2 = rc_evictable_size c"
    using inc_dec_lock_ref [OF inv m assms(2)] by blast
  have conf: "conf c1 = conf c" using lock_inv [of c H m] assms l(1) by (auto simp: al.sound_def)
  then have en1: "\<not> rc_disable c1" using conf_D(3) assms(2) by metis
  have conf2: "conf c2 = conf c1" using unlock_inv [of c1 "add_mset m H" m] en1 l(2,3) by (auto simp: cache_inv_def)
  then have en2: "\<not> rc_disable c2" using conf_D(3) en1 by metis
  have eq: "reaches c1 k u w \<longleftrightarrow> reaches c k u w" "reaches c2 k u w \<longleftrightarrow> reaches c k u w" for k u w
    using reaches_iff [OF cinv_tree [OF inv]] reaches_iff [OF cinv_tree [OF l(3)]] reaches_iff [OF cinv_tree [OF l(4)]] by blast+
  have "cached c1 = cached c" "cached c2 = cached c" by (simp_all add: cached_def eq)
  moreover have "rc_page_size c1 = rc_page_size c" "rc_page_size c2 = rc_page_size c" using conf conf2 conf_D by metis+
  ultimately have "al.sound cls c1 (add_mset m H) a" "al.sound cls c2 H a"
    using assms(1) l(3,4) by (auto simp: al.sound_def cache_inv_def)
  then show ?thesis using l(1,2,5) en1 en2 eq by blast
qed

interpretation radm: admission_env "radix_ops cls" "radix_ok cls" in_tree for cls
proof
  fix H st n
  assume "radix_ok cls H st" "in_tree st n"
  then obtain a c m u w where st: "st = (a, c)" "n = Some m" "\<not> rc_disable c" "al.sound cls c H a" "reaches c m u w"
    by (auto simp: radix_ok_def in_tree_def)
  from lock_roundtrip_sound [OF st(4,3,5)] obtain d1 c1 d2 c2 where
    l: "inc_lock_ref m c = Inr (d1, c1)" "dec_lock_ref m c1 = Inr (d2, c2)" "al.sound cls c1 (add_mset m H) a" "al.sound cls c2 H a"
    "\<not> rc_disable c1" "\<not> rc_disable c2" "\<forall>k u w. reaches c1 k u w \<longleftrightarrow> reaches c k u w" "\<forall>k u w. reaches c2 k u w \<longleftrightarrow> reaches c k u w"
    "rc_evictable_size c2 = rc_evictable_size c" by (elim exE conjE) (rule that)
  show "\<exists>st1. co_inc_lock (radix_ops cls) n st = Inr st1 \<and> radix_ok cls (add_mset (the n) H) st1 \<and> in_tree st1 = in_tree st"
    using l(1,3,5) in_tree_cong [OF l(7)] by (auto simp: radix_ops_def st radix_ok_def)
  fix st1 assume "co_inc_lock (radix_ops cls) n st = Inr st1"
  then have "st1 = (a, c1)" using l(1) by (simp add: radix_ops_def st)
  then show "\<exists>st2. co_dec_lock (radix_ops cls) n st1 = Inr st2 \<and> radix_ok cls H st2 \<and> in_tree st2 = in_tree st \<and>
      co_sizes (radix_ops cls) st2 = co_sizes (radix_ops cls) st"
    using l(2,4,6,9) in_tree_cong [OF l(8)] by (auto simp: radix_ops_def st radix_ok_def)
qed

section \<open>An admitted batch can be allocated\<close>

lemma admitted_alloc:
  assumes pass: "admits (radix_ops TokenAllocator) in_tree align (st0, ad0) ((a, c), ad)"
    and start: "adder_wf ad0" "can_run_list ad0 = []" "0 \<le> rem_total_token_offset ad0" "0 \<le> cur_rem_token_offset ad0"
      "radix_ok TokenAllocator H0 st0" "align \<noteq> Some 0"
    and plain: "\<not> is_all_swa ad" "\<not> is_hybrid_swa ad" "\<not> is_hybrid_ssm_cache ad"
    and ord: "\<And>xs. mset (order xs) = mset xs"
  shows "\<exists>ix st' a' c'. alloc_token_slots TokenAllocator order (nat (sum_list (map extend_len (can_run_list ad)))) backup a (RadixTree c) =
      Inr ((ix, st'), a', RadixTree c') \<and> length ix = nat (sum_list (map extend_len (can_run_list ad))) \<and> distinct ix"
proof -
  let ?e = "sum_list (map extend_len (can_run_list ad))"
  have "charged ad0" "fits (radix_ops TokenAllocator) ad0 st0" using start by (simp_all add: charged_def batch_need_def fits_def)
  then have J: "adder_wf ad" "fits (radix_ops TokenAllocator) ad (a, c)" "\<exists>H. radix_ok TokenAllocator H (a, c)"
    using radm.admits_ok [OF pass, of H0] start by auto
  obtain H where s: "tkr.sound (ka_size a) c H a" and en: "\<not> rc_disable c"
    using J(3) al_sound_token by (auto simp: radix_ok_def)
  have ev: "0 \<le> rc_evictable_size c" using s evictable_nonneg by (auto simp: tkr.sound_def)
  have rm: "room (radix_ops TokenAllocator) ad (a, c) = int (token_available_size a) + rc_evictable_size c"
    using plain by (simp add: room_def available_and_evictable_def radix_ops_def)
  have "nat ?e \<le> token_available_size a + nat (rc_evictable_size c)"
  proof (cases "can_run_list ad")
    case (Cons r rs)
    have "batch_need ad = ?e + int (length (can_run_list ad)) * int (pa_page_size ad)"
      unfolding batch_need_def by (induction "can_run_list ad") (simp_all add: sum_list_addf sum_list_triv)
    moreover have "int (pa_page_size ad) \<le> int (length (can_run_list ad)) * int (pa_page_size ad)"
      using Cons by (simp add: distrib_right)
    ultimately have "?e \<le> int (token_available_size a) + rc_evictable_size c"
      using J(2) Cons rm by (simp add: fits_def)
    then show ?thesis using ev by linarith
  qed simp
  then show ?thesis using alloc_token_slots_ok [OF s en ord, of "nat ?e" backup] by auto
qed

section \<open>The list of estimates\<close>

lemma first_not_less_eq:
  "first_not_less t xs i =
     (if \<exists>x \<in> set xs. t \<le> fst x then i + length (takeWhile (\<lambda>x. fst x < t) xs) else i + length xs - 1)"
  by (induction xs arbitrary: i) (auto simp: not_le not_less)

text \<open>
  The insertion keeps the list sorted exactly when the new state is not larger than all others: a
  larger one lands before the last element.
\<close>

lemma add_req_state_sorted:
  assumes "sorted (map fst states)" "states \<noteq> []" "0 < fst (req_state ad r)"
  shows "sorted (map fst (add_req_state True ad r states)) \<longleftrightarrow> fst (req_state ad r) \<le> fst (last states)"
proof -
  obtain t o' where s: "req_state ad r = (t, o')" by (cases "req_state ad r")
  let ?i = "first_not_less t states 0" and ?p = "\<lambda>x. fst x < t"
  have res: "add_req_state True ad r states = take ?i states @ (t, o') # drop ?i states"
    using assms(3) by (simp add: add_req_state_def s Let_def)
  have le_last: "fst x \<le> fst (last states)" if "x \<in> set states" for x
    using that assms(1,2) by (induction states) auto
  show ?thesis
  proof (cases "t \<le> fst (last states)")
    case True
    then have "\<exists>x \<in> set states. t \<le> fst x" using assms(2) last_in_set by blast
    then have sp: "take ?i states = takeWhile ?p states" "drop ?i states = dropWhile ?p states"
      by (simp_all add: first_not_less_eq takeWhile_eq_take [symmetric] dropWhile_eq_drop)
    have "sorted (map fst (takeWhile ?p states) @ map fst (dropWhile ?p states))"
      using assms(1) by (simp flip: map_append)
    moreover have "\<forall>x \<in> set (takeWhile ?p states). fst x < t" by (auto dest: set_takeWhileD)
    moreover have "\<forall>x \<in> set (dropWhile ?p states). t \<le> fst x"
    proof (cases "dropWhile ?p states")
      case (Cons y ys)
      then have "t \<le> fst y" by (metis hd_dropWhile list.distinct(1) list.sel(1) not_less)
      then show ?thesis using calculation(1) Cons by (auto simp: sorted_append)
    qed (simp del: dropWhile_eq_Nil_conv)
    ultimately have "sorted (map fst (take ?i states @ (t, o') # drop ?i states))"
      unfolding sp by (auto simp: sorted_append less_imp_le)
    then show ?thesis using True unfolding res by (simp add: s)
  next
    case False
    then have "\<not> (\<exists>x \<in> set states. t \<le> fst x)" using le_last by force
    then have i: "?i = length states - 1" by (simp add: first_not_less_eq)
    have "drop ?i states = [last states]"
      unfolding i using assms(2) by (metis append_butlast_last_id append_eq_conv_conj length_butlast)
    then have "\<not> sorted (map fst (take ?i states @ (t, o') # drop ?i states))"
      using False by (simp add: sorted_append)
    then show ?thesis using False unfolding res by (simp add: s)
  qed
qed

end
