(* ===== verification/Preemption.thy ===== *)
theory Preemption
  imports Prefill_Adder
begin

text \<open>
  Preemption of running requests: the requests that are taken, the budget that becomes free, and
  the order in which they are chosen, which need not be the order in which they are recorded.
\<close>

section \<open>Choosing requests\<close>

definition offsets :: "adder \<Rightarrow> sched_req list \<Rightarrow> rat" where
  "offsets ad rs = sum_list (map (get_running_request_total_token_offset ad) rs)"

lemma offsets_simps [simp]:
  "offsets ad [] = 0" "offsets ad (r # rs) = get_running_request_total_token_offset ad r + offsets ad rs"
  "offsets ad (xs @ ys) = offsets ad xs + offsets ad ys"
  by (simp_all add: offsets_def)

definition outranked :: "adder \<Rightarrow> int \<Rightarrow> int \<Rightarrow> sched_req \<Rightarrow> bool" where
  "outranked ad sign p x \<longleftrightarrow> preemption_threshold ad < (p - priority_of x) * (- sign)"

text \<open>
  A prefix of the candidates is taken, every one of them outranked, and no more than are needed:
  without the last one tokens would still be missing.
\<close>

lemma pick_preemptible_prefix:
  assumes "pick_preemptible ad sign p n xs = (chosen, missing)"
  shows "(\<exists>rest. xs = chosen @ rest) \<and> (\<forall>x \<in> set chosen. outranked ad sign p x) \<and> missing = n - offsets ad chosen"
  using assms
proof (induction xs arbitrary: n chosen missing)
  case (Cons x xs)
  let ?n = "n - get_running_request_total_token_offset ad x"
  obtain ps m where rec: "pick_preemptible ad sign p ?n xs = (ps, m)" by (cases "pick_preemptible ad sign p ?n xs")
  note IH = Cons.IH [OF rec]
  show ?case
    using Cons.prems rec IH by (auto simp: outranked_def Let_def split: if_splits)
qed simp

lemma pick_preemptible_minimal:
  assumes "pick_preemptible ad sign p n xs = (chosen, missing)" "2 \<le> length chosen"
  shows "offsets ad (butlast chosen) < n"
  using assms
proof (induction xs arbitrary: n chosen missing)
  case (Cons x xs)
  let ?o = "get_running_request_total_token_offset ad x"
  obtain ps m where rec: "pick_preemptible ad sign p (n - ?o) xs = (ps, m)" by (cases "pick_preemptible ad sign p (n - ?o) xs")
  have c: "chosen = x # ps" "0 < n - ?o" "ps \<noteq> []"
    using Cons.prems rec by (auto simp: Let_def not_le split: if_splits)
  show ?case
  proof (cases "2 \<le> length ps")
    case True
    then show ?thesis using Cons.IH [OF rec True] c(1,3) by simp
  next
    case False
    then obtain y where "ps = [y]" using c(3) by (cases ps; cases "tl ps") auto
    then show ?thesis using c by simp
  qed
qed simp

section \<open>Releasing them\<close>

lemma release_running_keeps:
  assumes "release_running release ad ids n_all cnt rs off st = Inr (kept, released, off', st')"
  shows "kept = filter (\<lambda>x. rid x \<notin> set ids) rs \<and> off' = off - offsets ad (filter (\<lambda>x. rid x \<in> set ids) rs) \<and>
    list_all2 (\<lambda>x x'. \<exists>n st1 st2. release x n st1 = Inr (x', st2)) (filter (\<lambda>x. rid x \<in> set ids) rs) released"
  using assms
proof (induction rs arbitrary: cnt off st kept released off' st')
  case (Cons r rs)
  show ?case
  proof (cases "rid r \<in> set ids")
    case True
    with Cons.prems obtain r' st1 rel where rel: "release r (n_all - (cnt + 1)) st = Inr (r', st1)" "released = r' # rel"
      "release_running release ad ids n_all (cnt + 1) rs (off - get_running_request_total_token_offset ad r) st1 = Inr (kept, rel, off', st')"
      by auto
    from Cons.IH [OF rel(3)] rel(1,2) True show ?thesis by auto
  next
    case False
    with Cons.prems show ?thesis by (auto dest!: Cons.IH)
  qed
qed simp

lemma offsets_mset: "mset xs = mset ys \<Longrightarrow> offsets ad xs = offsets ad ys"
proof -
  assume "mset xs = mset ys"
  then have "mset (map (get_running_request_total_token_offset ad) xs) = mset (map (get_running_request_total_token_offset ad) ys)"
    by simp
  then show ?thesis unfolding offsets_def by (metis sum_mset_sum_list)
qed

lemma chosen_offsets:
  assumes "distinct (map rid running)" "distinct chosen" "set chosen \<subseteq> set running"
  shows "offsets ad (filter (\<lambda>x. rid x \<in> rid ` set chosen) running) = offsets ad chosen"
proof (rule offsets_mset)
  have inj: "inj_on rid (set running)" and d: "distinct running" using assms(1) by (auto simp: distinct_map)
  have "set (filter (\<lambda>x. rid x \<in> rid ` set chosen) running) = set chosen"
    using assms(3) inj by (auto dest: inj_onD)
  then show "mset (filter (\<lambda>x. rid x \<in> rid ` set chosen) running) = mset chosen"
    using d assms(2) by (metis distinct_filter set_eq_iff_mset_eq_distinct)
qed

section \<open>The operation\<close>

definition enough :: "'st cache_ops \<Rightarrow> 'st \<Rightarrow> sched_req \<Rightarrow> adder \<Rightarrow> bool" where
  "enough ops st r ad \<longleftrightarrow>
     of_int (cand_extend_input_len r + min (max_new_tokens r) (clip_max_new_tokens ad)) \<le> rem_total_tokens ops st ad"

definition preemptible :: "bool \<Rightarrow> adder \<Rightarrow> sched_req \<Rightarrow> sched_req list \<Rightarrow> sched_req \<Rightarrow> bool" where
  "preemptible low_first ad r running x \<longleftrightarrow>
     x \<in> set running \<and> rid x \<notin> rid ` set (preempt_list ad) \<and> \<not> req_finished x \<and>
     outranked ad (if low_first then 1 else - 1) (priority_of r) x"

lemma sort_key_prefix:
  assumes "sort_key f xs = ys @ zs" "y \<in> set ys" "z \<in> set zs"
  shows "f y \<le> f z"
proof -
  have "sorted (map f (ys @ zs))" using sorted_sort_key [of f xs] assms(1) by simp
  then show ?thesis using assms(2,3) by (auto simp: sorted_append)
qed

text \<open>Requests of lower rank are taken first, and of the same rank the one that entered the queue last.\<close>

definition victim_key :: "bool \<Rightarrow> sched_req \<Rightarrow> int \<times> rat" where
  "victim_key low_first x = (priority_of x * (- (if low_first then 1 else - 1)), - wait_queue_entry_time x)"

lemma enough_minus:
  assumes "available_and_evictable ad' (co_sizes ops st) = available_and_evictable ad (co_sizes ops st)"
    "rem_total_token_offset ad' = rem_total_token_offset ad - d" "clip_max_new_tokens ad' = clip_max_new_tokens ad"
  shows "enough ops st r ad' \<longleftrightarrow>
    of_int (cand_extend_input_len r + min (max_new_tokens r) (clip_max_new_tokens ad)) - rem_total_tokens ops st ad \<le> d"
  unfolding enough_def rem_total_tokens_def assms by (simp add: algebra_simps)

lemma preempt_ok:
  assumes run: "preempt_to_schedule ops release set_order low_first st r ad = Inr (True, ad', st')"
    and running: "running_batch ad = Some running" "distinct (map rid running)"
  shows "\<exists>chosen released. chosen \<noteq> [] \<and> distinct chosen \<and> sorted (map (victim_key low_first) chosen) \<and>
    list_all2 (\<lambda>x x'. \<exists>n st1 st2. release x n st1 = Inr (x', st2))
      (filter (\<lambda>x. rid x \<in> rid ` set chosen) running) released \<and>
    preempt_list ad' = preempt_list ad @ set_order released \<and>
    (\<forall>x \<in> set chosen. preemptible low_first ad r running x) \<and>
    (\<forall>x \<in> set chosen. \<forall>y. preemptible low_first ad r running y \<and> y \<notin> set chosen \<longrightarrow> victim_key low_first x \<le> victim_key low_first y) \<and>
    running_batch ad' = Some (filter (\<lambda>x. rid x \<notin> rid ` set chosen) running) \<and>
    rem_total_token_offset ad' = rem_total_token_offset ad - offsets ad chosen \<and> enough ops st r ad' \<and>
    (2 \<le> length chosen \<longrightarrow> \<not> enough ops st r (ad\<lparr>rem_total_token_offset := rem_total_token_offset ad - offsets ad (butlast chosen)\<rparr>))"
proof -
  let ?sign = "if low_first then 1 else - 1 :: int"
  let ?valid = "filter (\<lambda>x. rid x \<notin> rid ` set (preempt_list ad) \<and> \<not> req_finished x) running"
  let ?sorted = "sort_key (\<lambda>x. (priority_of x * (- ?sign), - wait_queue_entry_time x)) ?valid"
  let ?need = "of_int (cand_extend_input_len r + min (max_new_tokens r) (clip_max_new_tokens ad)) - rem_total_tokens ops st ad"
  obtain chosen missing where pick: "pick_preemptible ad ?sign (priority_of r) ?need ?sorted = (chosen, missing)"
    by (cases "pick_preemptible ad ?sign (priority_of r) ?need ?sorted")
  note P = pick_preemptible_prefix [OF pick]
  let ?rel = "release_running release ad (map rid chosen) (length running) 0 running (rem_total_token_offset ad) st"
  have body: "preempt_to_schedule ops release set_order low_first st r ad =
      (if ?valid \<noteq> [] \<and> (\<exists>x \<in> set (r # ?valid). req_priority x = None) then Inl TypeError
       else if chosen = [] \<or> 0 < missing then Inr (False, ad, st)
       else rbind ?rel (\<lambda>(kept, released, off, st'). Inr (True, ad\<lparr>rem_total_token_offset := off, running_batch := Some kept,
                             preempt_list := preempt_list ad @ set_order released\<rparr>, st')))"
    unfolding preempt_to_schedule_def Let_def running(1) option.case pick prod.case by (rule refl)
  have c: "chosen \<noteq> []" "missing \<le> 0" using run unfolding body by (auto split: if_splits)
  obtain kept released off where rel: "?rel = Inr (kept, released, off, st')"
    and ad': "ad' = ad\<lparr>rem_total_token_offset := off, running_batch := Some kept, preempt_list := preempt_list ad @ set_order released\<rparr>"
    using run unfolding body by (cases ?rel) (auto split: if_splits)
  obtain rest where rest: "?sorted = chosen @ rest" using P by blast
  have "set ?sorted = set ?valid" "distinct ?sorted" using running(2) by (auto simp: distinct_map)
  then have sub: "set chosen \<subseteq> set ?valid" "distinct chosen" unfolding rest by auto
  have off: "off = rem_total_token_offset ad - offsets ad chosen" "kept = filter (\<lambda>x. rid x \<notin> rid ` set chosen) running"
    using release_running_keeps [OF rel] chosen_offsets [OF running(2) sub(2)] sub(1) by auto
  have "list_all2 (\<lambda>x x'. \<exists>n st1 st2. release x n st1 = Inr (x', st2)) (filter (\<lambda>x. rid x \<in> rid ` set chosen) running) released"
    using release_running_keeps [OF rel] by simp
  moreover have "sorted (map (victim_key low_first) ?sorted)"
    unfolding victim_key_def [abs_def] by (rule sorted_sort_key)
  then have "sorted (map (victim_key low_first) chosen)" unfolding rest by (simp add: sorted_append)
  moreover have "enough ops st r ad'"
    using P c(2) by (subst enough_minus [where ad = ad and d = "offsets ad chosen"]) (simp_all add: ad' off available_and_evictable_def)
  moreover have "\<not> enough ops st r (ad\<lparr>rem_total_token_offset := rem_total_token_offset ad - offsets ad (butlast chosen)\<rparr>)"
    if "2 \<le> length chosen"
    using pick_preemptible_minimal [OF pick that]
    by (subst enough_minus [where ad = ad and d = "offsets ad (butlast chosen)"]) (simp_all add: available_and_evictable_def)
  moreover have "\<forall>x \<in> set chosen. preemptible low_first ad r running x"
    using sub(1) P by (auto simp: preemptible_def)
  moreover have "victim_key low_first x \<le> victim_key low_first y"
    if "x \<in> set chosen" "preemptible low_first ad r running y" "y \<notin> set chosen" for x y
  proof -
    have "y \<in> set ?sorted" using that(2) by (simp add: preemptible_def)
    then have "y \<in> set rest" using that(3) unfolding rest by simp
    then show ?thesis using sort_key_prefix [OF rest that(1)] by (simp add: victim_key_def)
  qed
  ultimately show ?thesis using c(1) off ad' sub(2)
    by (intro exI [of _ chosen] exI [of _ released] conjI ballI allI impI) auto
qed

end
