(* ===== verification/Gate_Props.thy ===== *)
theory Gate_Props
  imports Sched_Gates
begin

text \<open>
  What the gates guarantee: a prefill is not delayed for ever, ranks that see the same information
  decide alike, requests pass the input blocker in order and exactly once, and the counters and
  estimates stay in their bounds.
\<close>

section \<open>Prefill delayer\<close>

type_synonym pass = "(rank_info \<Rightarrow> rank_info list) \<times> (nat \<Rightarrow> rat) \<times> negotiate_args"

fun run_passes :: "pass list \<Rightarrow> delayer \<Rightarrow> negotiate_output list \<times> delayer" where
  "run_passes [] d = ([], d)"
| "run_passes ((gather, clock, x) # ps) d =
     (let (out, d1) = negotiate gather clock x d; (outs, d2) = run_passes ps d1 in (out # outs, d2))"

definition delays :: "delayer \<Rightarrow> nat" where
  "delays d = (case curr_state d of None \<Rightarrow> 0 | Some s \<Rightarrow> delayed_count s)"

lemma output_simps [simp]:
  "output_allow (delay_output d clock prev info) = False" "output_allow (release_output reason clock prev info) = True"
  "input_estimation (delay_output d clock prev info) = prefillable_status info"
  "next_state (release_output reason clock prev info) = None"
  by (simp_all add: delay_output_def release_output_def)

text \<open>A delay is counted, and with mixed ranks it needs a count below the limit.\<close>

lemma negotiate_delays:
  assumes "negotiate gather clock x d = (out, d')" "\<not> output_allow out"
  shows "delays d' = Suc (delays d)" "max_delay_passes d' = max_delay_passes d"
    "input_estimation out = ''mixed'' \<Longrightarrow> int (delays d) < max_delay_passes d - 1"
proof -
  let ?info = "gather (local_info d x)"
  obtain d1 where p: "negotiate_pure d clock (curr_state d) (ng_max_running_requests x) ?info = (out, d1)" "d' = d1\<lparr>curr_state := next_state out\<rparr>"
    using assms(1) by (auto simp: negotiate_def split: prod.splits)
  have out: "out = delay_output d clock (curr_state d) ?info" "d1 = d"
    and mixed: "prefillable_status ?info = ''mixed'' \<Longrightarrow> int (delays d) < max_delay_passes d - 1"
    using p(1) assms(2) by (auto simp: negotiate_pure_def Let_def delays_def split: if_splits)
  show "delays d' = Suc (delays d)" "max_delay_passes d' = max_delay_passes d"
    by (simp_all add: p(2) out delays_def delay_output_def bump_delayed_count_def split: option.splits)
  show "input_estimation out = ''mixed'' \<Longrightarrow> int (delays d) < max_delay_passes d - 1" using mixed by (simp add: out)
qed

lemma run_passes_length: "run_passes ps d = (outs, d') \<Longrightarrow> length outs = length ps"
  by (induction ps d arbitrary: outs rule: run_passes.induct) (auto simp: Let_def split: prod.splits)

lemma run_passes_delays:
  assumes "run_passes ps d = (outs, d')" "\<forall>out \<in> set outs. \<not> output_allow out" "i < length outs" "input_estimation (outs ! i) = ''mixed''"
  shows "int (delays d + i) < max_delay_passes d - 1"
  using assms
proof (induction ps d arbitrary: outs i rule: run_passes.induct)
  case (2 gather clock x ps d)
  obtain out d1 where n: "negotiate gather clock x d = (out, d1)" by (cases "negotiate gather clock x d")
  obtain outs1 where r: "run_passes ps d1 = (outs1, d')" "outs = out # outs1"
    using 2(2) n by (auto split: prod.splits)
  note N = negotiate_delays [OF n]
  have no: "\<not> output_allow out" using 2(3) r(2) by simp
  show ?case
  proof (cases i)
    case 0
    then show ?thesis using N(3) no 2(5) r(2) by simp
  next
    case (Suc j)
    then show ?thesis using 2(1) [OF n [symmetric] refl, of outs1 j] r 2(3-5) N(1,2) no by simp
  qed
qed simp

subsection \<open>Agreement of the ranks\<close>

text \<open>The clocks of two ranks are not compared: only the time a wait began may differ.\<close>

definition timeless :: "delay_state option \<Rightarrow> nat option" where
  "timeless s = map_option delayed_count s"

definition in_sync :: "delayer \<Rightarrow> delayer \<Rightarrow> bool" where
  "in_sync d e \<longleftrightarrow> timeless (curr_state d) = timeless (curr_state e) \<and> d\<lparr>curr_state := None\<rparr> = e\<lparr>curr_state := None\<rparr>"

lemma in_sync_fields:
  assumes "in_sync d e"
  shows "max_delay_passes d = max_delay_passes e" "queue_min_ratio d = queue_min_ratio e" "dp_size d = dp_size e"
    "enable_dp_attention d = enable_dp_attention e" "skip_first_delayer d = skip_first_delayer e" "delays d = delays e"
    "curr_state d = None \<longleftrightarrow> curr_state e = None"
  using assms by (cases d; cases e; auto simp: in_sync_def timeless_def delays_def split: option.splits)+

lemma negotiate_sync:
  assumes s: "in_sync d e" and q: "queue_min_ratio d = None"
    and same: "gather1 (local_info d x) = gather2 (local_info e y)" "ng_max_running_requests x = ng_max_running_requests y"
    and n: "negotiate gather1 clock1 x d = (out1, d')" "negotiate gather2 clock2 y e = (out2, e')"
  shows "output_allow out1 = output_allow out2" "output_reason out1 = output_reason out2" "in_sync d' e'" "queue_min_ratio d' = None"
proof -
  note f = in_sync_fields [OF s]
  let ?info = "gather2 (local_info e y)"
  have sc: "slot_condition d (ng_max_running_requests y) ?info = slot_condition e (ng_max_running_requests y) ?info"
    using f(3,4) by (simp add: slot_condition_def)
  have qc: "\<not> queue_condition d clock1 (curr_state d) ?info" "\<not> queue_condition e clock2 (curr_state e) ?info"
    using q f(2) by (simp_all add: queue_condition_def)
  have r: "output_reason (release_output reason c p info) = reason" "output_reason (delay_output d c p info) = ''delay''"
    "timeless (next_state (delay_output d c p info)) = Some (Suc (case p of None \<Rightarrow> 0 | Some s \<Rightarrow> delayed_count s))" for reason c p info d
    by (simp_all add: release_output_def delay_output_def timeless_def bump_delayed_count_def split: option.splits)
  obtain d1 e1 where p:
    "negotiate_pure d clock1 (curr_state d) (ng_max_running_requests y) ?info = (out1, d1)" "d' = d1\<lparr>curr_state := next_state out1\<rparr>"
    "negotiate_pure e clock2 (curr_state e) (ng_max_running_requests y) ?info = (out2, e1)" "e' = e1\<lparr>curr_state := next_state out2\<rparr>"
    using n same by (auto simp: negotiate_def split: prod.splits)
  have dl: "(case curr_state d of None \<Rightarrow> 0 | Some s \<Rightarrow> delayed_count s) = (case curr_state e of None \<Rightarrow> 0 | Some s \<Rightarrow> delayed_count s)"
    using f(6) by (simp add: delays_def)
  have eq: "d\<lparr>curr_state := None\<rparr> = e\<lparr>curr_state := None\<rparr>" using s by (simp add: in_sync_def)
  then have eqv: "d\<lparr>skip_first_delayer := b, curr_state := None\<rparr> = e\<lparr>skip_first_delayer := b, curr_state := None\<rparr>" for b
    by (cases d; cases e) simp
  have "output_allow out1 = output_allow out2 \<and> output_reason out1 = output_reason out2 \<and>
      timeless (next_state out1) = timeless (next_state out2) \<and> d1\<lparr>curr_state := None\<rparr> = e1\<lparr>curr_state := None\<rparr> \<and> queue_min_ratio d1 = None"
    using p(1,3) qc sc f(1,5,7) dl q eq eqv [of False]
    by (auto simp: negotiate_pure_def Let_def r split: if_splits) 
  then show "output_allow out1 = output_allow out2" "output_reason out1 = output_reason out2" "in_sync d' e'" "queue_min_ratio d' = None"
    by (simp_all add: p(2,4) in_sync_def)
qed

text \<open>
  With the queue trigger they may not: the wait of a rank is measured on its own clock. These two
  ranks have the same state and the same information, and their clocks are 200 ms apart.
\<close>

definition queue_delayer :: delayer where
  "queue_delayer = \<lparr>max_delay_passes = 30, token_usage_low_watermark = None, queue_min_ratio = Some 1, max_delay_ms = 5000,
     dp_size = 2, enable_dp_attention = True, curr_state = Some \<lparr>delayed_count = 1, start_time = 0\<rparr>, skip_first_delayer = False\<rparr>"

definition queue_info :: "rank_info list" where
  "queue_info = replicate 2 \<lparr>ri_prefillable = 1, ri_force_allow = 0, ri_running_batch = 4, ri_max_prefill_bs = 2, ri_waiting_queue_len = 1\<rparr>"

definition queue_args :: negotiate_args where
  "queue_args = \<lparr>local_prefillable = True, token_usage = 1, ng_running_batch = 4, ng_max_prefill_bs = 2,
     ng_max_running_requests = 64, ng_waiting_queue_len = 1\<rparr>"

lemma queue_timeout_splits_ranks:
  "output_allow (fst (negotiate (\<lambda>_. queue_info) (\<lambda>_. 49 / 10) queue_args queue_delayer)) = False"
  "output_allow (fst (negotiate (\<lambda>_. queue_info) (\<lambda>_. 51 / 10) queue_args queue_delayer)) = True"
  by (simp_all add: negotiate_def negotiate_pure_def queue_delayer_def queue_info_def queue_args_def prefillable_status_def
      column_max_def column_min_def slot_condition_def queue_condition_def py_int_def Let_def numeral_2_eq_2)

subsection \<open>One negotiation per pass\<close>

lemma single_pass_once:
  "negotiate_should_allow_prefill gather clock x sp = (a, sp') \<Longrightarrow> negotiate_should_allow_prefill gather2 clock2 y sp' = (a, sp')"
  by (auto simp: negotiate_should_allow_prefill_def Let_def split: option.splits prod.splits)

lemma single_pass_finalized:
  "single_pass_finalize gather clock sp = (out, sp') \<Longrightarrow> out \<noteq> None \<and> sp_result sp' = out \<and> (sp_result sp \<noteq> None \<longrightarrow> sp' = sp)"
  by (auto simp: single_pass_finalize_def negotiate_should_allow_prefill_def Let_def split: option.splits prod.splits)

section \<open>Input blocker\<close>

text \<open>The plain requests of a stream, in order.\<close>

fun plain_reqs :: "'r recv_req list \<Rightarrow> 'r list" where
  "plain_reqs [] = []"
| "plain_reqs (Plain_Req r # qs) = r # plain_reqs qs"
| "plain_reqs (_ # qs) = plain_reqs qs"

definition blocker_inv :: "'r blocker \<Rightarrow> bool" where
  "blocker_inv b \<longleftrightarrow> (bl_state b = UNBLOCKED \<longrightarrow> pending_reqs b = []) \<and> (bl_arrived b \<longleftrightarrow> bl_state b = GLOBAL_UNBLOCK_BARRIER) \<and>
     (bl_noop b \<longrightarrow> bl_state b = UNBLOCKED)"

lemma handle_recv_req_step:
  assumes "handle_recv_req q b = Inr (out, b')" "blocker_inv b" "\<not> bl_noop b"
  shows "blocker_inv b' \<and> \<not> bl_noop b' \<and> out @ pending_reqs b' = pending_reqs b @ plain_reqs [q] \<and> (out \<noteq> [] \<longrightarrow> pending_reqs b = [])"
  using assms
  by (cases q) (auto simp: handle_recv_req_def execute_block_req_def execute_unblock_req_def change_state_def local_arrive_def
      blocker_inv_def split: if_splits)

lemma plain_reqs_Cons: "plain_reqs (q # qs) = plain_reqs [q] @ plain_reqs qs"
  by (cases q) simp_all

lemma append_chain: "a @ p1 = p0 @ x \<Longrightarrow> b @ p2 = p1 @ y \<Longrightarrow> (a @ b) @ p2 = p0 @ x @ y"
  by (metis append_assoc)

lemma handle_recv_reqs_order:
  assumes "handle_recv_reqs qs b = Inr (out, b')" "blocker_inv b" "\<not> bl_noop b"
  shows "blocker_inv b' \<and> \<not> bl_noop b' \<and> out @ pending_reqs b' = pending_reqs b @ plain_reqs qs \<and> (out \<noteq> [] \<longrightarrow> pending_reqs b = [])"
  using assms
proof (induction qs arbitrary: b out)
  case (Cons q qs)
  from Cons.prems(1) obtain o1 b1 o2 where
    s: "handle_recv_req q b = Inr (o1, b1)" "handle_recv_reqs qs b1 = Inr (o2, b')" "out = o1 @ o2" by auto
  note S = handle_recv_req_step [OF s(1) Cons.prems(2,3)]
  have IH: "blocker_inv b' \<and> \<not> bl_noop b' \<and> o2 @ pending_reqs b' = pending_reqs b1 @ plain_reqs qs \<and> (o2 \<noteq> [] \<longrightarrow> pending_reqs b1 = [])"
    using Cons.IH [OF s(2)] S by blast
  then have "out @ pending_reqs b' = pending_reqs b @ plain_reqs (q # qs)"
    using S unfolding s(3) plain_reqs_Cons [of q qs] by (intro append_chain [of o1 "pending_reqs b1"]) blast+
  moreover have "out \<noteq> [] \<longrightarrow> pending_reqs b = []" using IH S s(3) by auto
  ultimately show ?case using IH by blast
qed simp

lemma blocker_handle_order:
  assumes "blocker_handle all_reduce (Some qs) b = Inr (out, b')" "blocker_inv b"
  shows "\<exists>o1. out = Some o1 \<and> blocker_inv b' \<and> \<not> bl_noop b' \<and> o1 @ pending_reqs b' = pending_reqs b @ plain_reqs qs"
proof -
  have np: "\<not> bl_noop b" using assms(1) by (simp add: blocker_handle_def)
  obtain o1 b1 where h: "handle_recv_reqs qs b = Inr (o1, b1)" using assms(1) by (auto simp: blocker_handle_def)
  note H = handle_recv_reqs_order [OF h assms(2) np]
  show ?thesis using assms(1) np h H
    by (auto simp: blocker_handle_def poll_global_arrived_def Let_def handle_arrive_unblock_barrier_def change_state_def
        blocker_inv_def split: if_splits)
qed

fun run_blocker :: "((bool \<Rightarrow> bool) \<times> 'r recv_req list) list \<Rightarrow> 'r blocker \<Rightarrow> ('r list \<times> 'r blocker) result" where
  "run_blocker [] b = Inr ([], b)"
| "run_blocker ((all_reduce, qs) # ps) b =
     rbind (blocker_handle all_reduce (Some qs) b) (\<lambda>(out, b1).
     rbind (run_blocker ps b1) (\<lambda>(outs, b2). Inr (the out @ outs, b2)))"

lemma run_blocker_order:
  assumes "run_blocker ps b = Inr (out, b')" "blocker_inv b"
  shows "blocker_inv b' \<and> out @ pending_reqs b' = pending_reqs b @ concat (map (\<lambda>p. plain_reqs (snd p)) ps)"
  using assms
proof (induction ps b arbitrary: out rule: run_blocker.induct)
  case (2 all_reduce qs ps b)
  from 2(2) obtain o1 b1 o2 where
    s: "blocker_handle all_reduce (Some qs) b = Inr (o1, b1)" "run_blocker ps b1 = Inr (o2, b')" "out = the o1 @ o2" by auto
  from blocker_handle_order [OF s(1) 2(3)] obtain o3 where
    h: "o1 = Some o3" "blocker_inv b1" "o3 @ pending_reqs b1 = pending_reqs b @ plain_reqs qs" by blast
  have IH: "blocker_inv b' \<and> o2 @ pending_reqs b' = pending_reqs b1 @ concat (map (\<lambda>p. plain_reqs (snd p)) ps)"
    using 2(1) [OF s(1) refl s(2)] h(2) by blast
  then have "(o3 @ o2) @ pending_reqs b' = pending_reqs b @ plain_reqs qs @ concat (map (\<lambda>p. plain_reqs (snd p)) ps)"
    using append_chain [OF h(3)] by blast
  then show ?case using IH s(3) h(1) by simp
qed simp

text \<open>A rank that passes nothing on never raises an error.\<close>

lemma blocker_noop: "blocker_handle all_reduce None (blocker_init True) = Inr (None, blocker_init True)"
  by (simp add: blocker_handle_def blocker_init_def poll_global_arrived_def Let_def py_assert_def)

text \<open>The barrier releases the pending requests as soon as all ranks have arrived.\<close>

lemma blocker_release:
  assumes "blocker_inv b" "bl_state b = GLOBAL_UNBLOCK_BARRIER"
  shows "blocker_handle (\<lambda>x. x) (Some []) b = Inr (Some (pending_reqs b), b\<lparr>bl_arrived := False, bl_state := UNBLOCKED, pending_reqs := []\<rparr>)"
  using assms by (auto simp: blocker_inv_def blocker_handle_def poll_global_arrived_def Let_def handle_arrive_unblock_barrier_def
      change_state_def py_assert_def)

section \<open>Receive skipper\<close>

fun run_skipper :: "forward_mode option list \<Rightarrow> recv_skipper \<Rightarrow> bool list \<times> recv_skipper" where
  "run_skipper [] s = ([], s)"
| "run_skipper (m # ms) s = (let (r, s1) = skipper_handle s m; (rs, s2) = run_skipper ms s1 in (r # rs, s2))"

text \<open>A row of passes without receiving weighs less than the threshold.\<close>

lemma run_skipper_bound:
  assumes "run_skipper ms s = (rs, s')" "True \<notin> set rs" "rs \<noteq> []"
  shows "rs_counter s + sum_list (map (mode_weight s) ms) < rs_threshold s"
  using assms
proof (induction ms arbitrary: s rs)
  case (Cons m ms)
  let ?s1 = "s\<lparr>rs_counter := rs_counter s + mode_weight s m\<rparr>"
  have h: "skipper_handle s m = (False, ?s1)" "rs_counter s + mode_weight s m < rs_threshold s"
    using Cons.prems by (auto simp: skipper_handle_def Let_def split: if_splits prod.splits)
  obtain rs1 where r: "run_skipper ms ?s1 = (rs1, s')" "rs = False # rs1" using Cons.prems(1) h(1) by (auto split: prod.splits)
  have w: "mode_weight ?s1 = mode_weight s" by (rule ext) (simp add: mode_weight_def split: option.split)
  show ?case
  proof (cases "rs1 = []")
    case True
    then have "ms = []" using r(1) by (cases ms) (auto split: prod.splits)
    then show ?thesis using h(2) by simp
  next
    case False
    then show ?thesis using Cons.IH [OF r(1)] Cons.prems(2) r(2) w by (simp add: add.assoc)
  qed
qed simp

section \<open>Bounds\<close>

lemma resolve_min_free_slots_bounds:
  assumes "resolve_min_free_slots user n dflash = Some v"
  shows "2 \<le> v" "v \<le> 4" "v \<le> n" "8 \<le> n" "v \<le> max 2 ((n + 5) div 6)" "\<And>u. user = Some u \<Longrightarrow> v \<le> u"
  using assms by (auto simp: resolve_min_free_slots_def Let_def min_le_iff_disj split: option.splits if_splits)

lemma decay_step_simps:
  "rt_current (decay_step t) = max (rt_current t - rt_decay t) (rt_min t)"
  "rt_min (decay_step t) = rt_min t" "rt_decay (decay_step t) = rt_decay t" "rt_init (decay_step t) = rt_init t"
  by (simp_all add: decay_step_def)

lemma decay_steps_current:
  assumes "ratio_from_server_args i c m n = Inr t" "0 \<le> i * c" "0 \<le> m" "m \<le> 1"
  shows "rt_current ((decay_step ^^ k) t) = max (rt_init t - of_nat k * rt_decay t) (rt_min t)"
    "rt_min ((decay_step ^^ k) t) = rt_min t" "rt_decay ((decay_step ^^ k) t) = rt_decay t"
    "rt_current ((decay_step ^^ n) t) = rt_min t" "0 \<le> rt_min t" "rt_min t \<le> rt_init t" "rt_init t \<le> 1"
proof -
  let ?i = "min (i * c) 1"
  have i: "0 \<le> ?i" "?i \<le> 1" using assms(2) by auto
  have im: "?i * m \<le> ?i * 1" using i assms(4) by (intro mult_left_mono) auto
  then have mn: "min (?i * m) 1 = ?i * m" using i(2) by (simp only: min_def) auto
  have n: "0 < n" and t: "t = \<lparr>rt_init = ?i, rt_min = ?i * m, rt_decay = (?i - ?i * m) / of_nat n, rt_current = ?i\<rparr>"
    using assms(1) mn by (auto simp: ratio_from_server_args_def Let_def split: if_splits)
  have d: "0 \<le> rt_decay t" using im by (simp add: t)
  show b: "0 \<le> rt_min t" "rt_min t \<le> rt_init t" "rt_init t \<le> 1" using i im assms(3) by (simp_all add: t)
  have fix': "rt_min ((decay_step ^^ k) t) = rt_min t \<and> rt_decay ((decay_step ^^ k) t) = rt_decay t" for k
    by (induction k) (simp_all add: decay_step_simps)
  then show "rt_min ((decay_step ^^ k) t) = rt_min t" "rt_decay ((decay_step ^^ k) t) = rt_decay t" by simp_all
  show cur: "rt_current ((decay_step ^^ k) t) = max (rt_init t - of_nat k * rt_decay t) (rt_min t)" for k
  proof (induction k)
    case 0
    then show ?case using b(2) by (simp add: t)
  next
    case (Suc k)
    then show ?case using d fix' [of k] by (simp add: decay_step_simps max_def algebra_simps)
  qed
  have "rt_init t - of_nat n * rt_decay t = rt_min t" using n by (simp add: t)
  then show "rt_current ((decay_step ^^ n) t) = rt_min t" using cur [of n] by simp
qed

end
