(* ===== verification/Radix_Walk.thy ===== *)
theory Radix_Walk
  imports Radix_Spec
begin

text \<open>
  Walks over the whole tree: the subtrees below the children of a node are disjoint and make up
  the subtree of the node, so a walk that takes every child once visits every node once. The
  bounds of the recursive walks are the sizes of the subtrees, at most the number of nodes.
\<close>

section \<open>Children and subtrees\<close>

definition kids :: "radix_cache \<Rightarrow> nat \<Rightarrow> nat list" where
  "kids c n = map snd (tn_children (nd c n))"

definition desc :: "nat set \<Rightarrow> (nat \<Rightarrow> units) \<Rightarrow> nat \<Rightarrow> nat set" where
  "desc L P n = {m \<in> L. prefix (P n) (P m)}"

lemma in_kids_iff:
  assumes ok: "tree_ok (view c) L P V" and n: "n \<in> L"
  shows "m \<in> set (kids c n) \<longleftrightarrow> m \<in> L \<and> m \<noteq> root_node c \<and> tn_parent (nd c m) = Some n"
proof
  assume "m \<in> set (kids c n)"
  then obtain k where "(k, m) \<in> set (tn_children (nd c n))" by (auto simp: kids_def)
  moreover have "distinct (map fst (tn_children (nd c n)))" using tree_ok_D(9) [OF ok n] by (simp add: kids_ok_def)
  ultimately have "map_of (tn_children (nd c n)) k = Some m" by simp
  then show "m \<in> L \<and> m \<noteq> root_node c \<and> tn_parent (nd c m) = Some n" using kids_map_of [OF ok n, of k m] by simp
next
  assume m: "m \<in> L \<and> m \<noteq> root_node c \<and> tn_parent (nd c m) = Some n"
  then obtain p where "edge (view c) P V p m" using tree_ok_edge [OF ok, of m] by auto
  then have "rc_page_size c \<le> rk_len (tn_key (nd c m))" "0 < rc_page_size c"
    using edge_ps_le [of "view c"] tree_ok_D(4) [OF ok] by fastforce+
  then obtain k where "rk_child_key (tn_key (nd c m)) (rc_page_size c) = Inr k" by (auto simp: rk_child_key_eq split: option.split)
  then have "map_of (tn_children (nd c n)) k = Some m" using m kids_map_of [OF ok n, of k m] by simp
  then have "(k, m) \<in> set (tn_children (nd c n))" by (rule map_of_SomeD)
  then show "m \<in> set (kids c n)" by (force simp: kids_def)
qed

lemma distinct_kids:
  assumes ok: "tree_ok (view c) L P V" and n: "n \<in> L"
  shows "distinct (kids c n)"
proof -
  let ?al = "tn_children (nd c n)"
  have d: "distinct (map fst ?al)" using tree_ok_D(9) [OF ok n] by (simp add: kids_ok_def)
  have key: "rk_child_key (tn_key (nd c m)) (rc_page_size c) = Inr k" if "(k, m) \<in> set ?al" for k m
    using kids_map_of [OF ok n, of k m] d that by simp
  have "inj_on snd (set ?al)"
  proof (rule inj_onI)
    fix x y assume xy: "x \<in> set ?al" "y \<in> set ?al" "snd x = snd y"
    have "Inr (fst x) = (Inr (fst y) :: child_key result)"
      using key [of "fst x" "snd x"] key [of "fst y" "snd y"] xy by (metis prod.collapse)
    then show "x = y" using xy(3) by (simp add: prod_eq_iff)
  qed
  then show ?thesis using d by (auto simp: kids_def distinct_map)
qed

lemma kid_edge:
  assumes ok: "tree_ok (view c) L P V" and n: "n \<in> L" and m: "m \<in> set (kids c n)"
  shows "m \<in> L" "m \<noteq> root_node c" "edge (view c) P V n m"
proof -
  show "m \<in> L" "m \<noteq> root_node c" using m in_kids_iff [OF ok n] by simp_all
  then obtain p where p: "edge (view c) P V p m" using tree_ok_edge [OF ok] by auto
  moreover have "p = n" using p m in_kids_iff [OF ok n] by (simp add: edge_def)
  ultimately show "edge (view c) P V n m" by simp
qed

lemma desc_root: "tree_ok (view c) L P V \<Longrightarrow> desc L P (root_node c) = L"
  using tree_ok_D(5) [of "view c" L P V] by (auto simp: desc_def)

lemma finite_desc: "tree_ok (view c) L P V \<Longrightarrow> finite (desc L P n)"
  using tree_ok_D(2) by (auto simp: desc_def)

lemma self_desc: "n \<in> L \<Longrightarrow> n \<in> desc L P n"
  by (simp add: desc_def)

text \<open>Every other node below \<open>n\<close> is below exactly one child of \<open>n\<close>.\<close>

lemma desc_kid:
  assumes ok: "tree_ok (view c) L P V" and n: "n \<in> L" and k: "k \<in> set (kids c n)"
  shows "desc L P k \<subseteq> desc L P n - {n}"
proof -
  have e: "edge (view c) P V n k" by (rule kid_edge [OF ok n k])
  have "prefix (P n) (P k)" using e by (simp add: edge_def)
  moreover have "\<not> prefix (P k) (P n)" using edge_P_less [OF e] by (auto dest: prefix_length_le)
  ultimately show ?thesis by (auto simp: desc_def intro: prefix_order.trans)
qed

lemma desc_kids_disjoint:
  assumes ok: "tree_ok (view c) L P V" and n: "n \<in> L" and k: "k \<in> set (kids c n)" "k' \<in> set (kids c n)" "k \<noteq> k'"
  shows "desc L P k \<inter> desc L P k' = {}"
proof (rule ccontr)
  note K = kid_edge [OF ok n k(1)] and K' = kid_edge [OF ok n k(2)]
  assume "desc L P k \<inter> desc L P k' \<noteq> {}"
  then obtain m where m: "m \<in> L" "prefix (P k) (P m)" "prefix (P k') (P m)" by (auto simp: desc_def)
  have sym: "prefix (P a) (P b)" if a: "a \<in> L" "a \<noteq> root_node c" "edge (view c) P V n a"
    and b: "b \<in> L" "edge (view c) P V n b" and p: "prefix (P a) (P m)" "prefix (P b) (P m)" for a b
  proof (rule trieD [OF ok a(1) _ a(3) b(1)])
    have le: "rc_page_size c \<le> rk_len (tn_key (nd c a))" "rc_page_size c \<le> rk_len (tn_key (nd c b))"
      using edge_ps_le [OF a(3)] edge_ps_le [OF b(2)] tree_ok_D(4) [OF ok] by simp_all
    have "prefix (P n @ take (rc_page_size c) (tunits (tn_key (nd c a)))) (P a)"
      using a(3) by (simp add: edge_def take_is_prefix)
    then have "prefix (P n @ take (rc_page_size c) (tunits (tn_key (nd c a)))) (P m)" using p(1) by (rule prefix_order.trans)
    moreover have "length (P n @ take (rc_page_size c) (tunits (tn_key (nd c a)))) \<le> length (P b)"
      using le(2) b(2) by (auto simp: edge_def)
    ultimately have "prefix (P n @ take (rc_page_size c) (tunits (tn_key (nd c a)))) (P b)"
      by (rule prefix_length_prefix [OF _ p(2)])
    then show "prefix (P n @ take (v_ps (view c)) (tunits (v_key (view c) a))) (P b)" by simp
  qed (use a(2) in simp)
  have "prefix (P k) (P k')" "prefix (P k') (P k)" using sym [OF K K'(1,3) m(2,3)] sym [OF K' K(1,3) m(3,2)] by simp_all
  then have "P k = P k'" by (simp add: prefix_order.antisym)
  then show False using K(1) K'(1) k(3) tree_ok_D(7) [OF ok] by (auto dest: inj_onD)
qed

lemma desc_split:
  assumes ok: "tree_ok (view c) L P V" and n: "n \<in> L"
  shows "desc L P n = insert n (\<Union>k \<in> set (kids c n). desc L P k)"
proof
  show "insert n (\<Union>k \<in> set (kids c n). desc L P k) \<subseteq> desc L P n" using desc_kid [OF ok n] self_desc [OF n] by blast
  show "desc L P n \<subseteq> insert n (\<Union>k \<in> set (kids c n). desc L P k)"
  proof
    fix m assume "m \<in> desc L P n"
    then have m: "m \<in> L" "prefix (P n) (P m)" by (auto simp: desc_def)
    show "m \<in> insert n (\<Union>k \<in> set (kids c n). desc L P k)"
    proof (cases "m = n")
      case False
      then have "P m \<noteq> P n" using m(1) n tree_ok_D(7) [OF ok] by (auto dest: inj_onD)
      then have len: "length (P n) < length (P m)" using m(2) by (auto simp: prefix_def)
      define pg where "pg = take (rc_page_size c) (drop (length (P n)) (P m))"
      have eq: "P m = P n @ drop (length (P n)) (P m)" using m(2) by (auto simp: prefix_def)
      have "length (P n) + rc_page_size c \<le> length (P m)"
        using dvd_gap [OF dvd_P [OF ok n] dvd_P [OF ok m(1)]] len by simp
      then have "length pg = v_ps (view c)" by (simp add: pg_def)
      moreover have pre: "prefix (P n @ pg) (P m)"
        using take_is_prefix [of "rc_page_size c" "drop (length (P n)) (P m)"] eq unfolding pg_def by (metis same_prefix_prefix)
      ultimately obtain k where k: "k \<in> L" "k \<noteq> root_node c" "tn_parent (nd c k) = Some n" "edge (view c) P V n k"
        "take (v_ps (view c)) (tunits (v_key (view c) k)) = pg" using child_exists [OF ok n m(1)] by auto
      have "prefix (P k) (P m)" using trieD [OF ok k(1) _ k(4) m(1)] k(2,5) pre by simp
      then have "m \<in> desc L P k" using m(1) by (simp add: desc_def)
      then show ?thesis using k(1-3) in_kids_iff [OF ok n] by blast
    qed simp
  qed
qed

lemma card_desc_kid:
  assumes "tree_ok (view c) L P V" "n \<in> L" "k \<in> set (kids c n)"
  shows "card (desc L P k) < card (desc L P n)"
  using desc_kid [OF assms] self_desc [OF assms(2), of P] by (intro psubset_card_mono finite_desc [OF assms(1)]) blast

lemma card_desc_le: "tree_ok (view c) L P V \<Longrightarrow> card (desc L P n) \<le> rc_counter c"
proof -
  assume ok: "tree_ok (view c) L P V"
  have "card (desc L P n) \<le> card {..< rc_counter c}"
    using tree_ok_D(1) [OF ok] by (intro card_mono) (auto simp: desc_def)
  then show ?thesis by simp
qed

section \<open>The number of cached tokens\<close>

definition vlen :: "radix_cache \<Rightarrow> nat \<Rightarrow> nat" where
  "vlen c n = length (the (tn_value (nd c n)))"

lemma value_some:
  assumes ok: "tree_ok (view c) L P V" and n: "n \<in> L"
  shows "\<exists>xs. tn_value (nd c n) = Some xs" "vlen c n = rk_len (tn_key (nd c n))"
proof -
  have "\<exists>xs. tn_value (nd c n) = Some xs \<and> length xs = rk_len (tn_key (nd c n))"
  proof (cases "n = root_node c")
    case True
    then show ?thesis using ok by (simp add: tree_ok_def)
  next
    case False
    then obtain p where "edge (view c) P V p n" using tree_ok_edge [OF ok n] by auto
    then show ?thesis by (auto simp: edge_def)
  qed
  then show "\<exists>xs. tn_value (nd c n) = Some xs" "vlen c n = rk_len (tn_key (nd c n))" by (auto simp: vlen_def)
qed

text \<open>The nodes below a list of nodes with disjoint subtrees.\<close>

definition forest :: "nat set \<Rightarrow> (nat \<Rightarrow> units) \<Rightarrow> nat list \<Rightarrow> bool" where
  "forest L P ns \<longleftrightarrow> set ns \<subseteq> L \<and> distinct ns \<and> (\<forall>a \<in> set ns. \<forall>b \<in> set ns. a \<noteq> b \<longrightarrow> desc L P a \<inter> desc L P b = {})"

definition below_all :: "nat set \<Rightarrow> (nat \<Rightarrow> units) \<Rightarrow> nat list \<Rightarrow> nat set" where
  "below_all L P ns = (\<Union>n \<in> set ns. desc L P n)"

lemma forest_kids:
  assumes "tree_ok (view c) L P V" "n \<in> L"
  shows "forest L P (kids c n)" "insert n (below_all L P (kids c n)) = desc L P n" "n \<notin> below_all L P (kids c n)"
  using desc_kids_disjoint [OF assms] distinct_kids [OF assms] kid_edge(1) [OF assms] desc_split [OF assms] desc_kid [OF assms]
  unfolding forest_def below_all_def by blast+

lemma forest_step:
  assumes ok: "tree_ok (view c) L P V" and f: "forest L P (ns @ [n])"
  shows "forest L P (ns @ kids c n)" "below_all L P (ns @ [n]) = insert n (below_all L P (ns @ kids c n))"
    "n \<notin> below_all L P (ns @ kids c n)"
proof -
  have n: "n \<in> L" using f by (simp add: forest_def)
  note K = forest_kids [OF ok n]
  have dis: "desc L P a \<inter> desc L P n = {}" if "a \<in> set ns" for a using f that by (auto simp: forest_def)
  have sub: "desc L P k \<subseteq> desc L P n" if "k \<in> set (kids c n)" for k using desc_kid [OF ok n that] by blast
  have mix: "desc L P a \<inter> desc L P k = {}" "a \<noteq> k" if "a \<in> set ns" "k \<in> set (kids c n)" for a k
  proof -
    show "desc L P a \<inter> desc L P k = {}" using dis [OF that(1)] sub [OF that(2)] by blast
    moreover have "k \<in> desc L P k" "a \<in> L" using kid_edge(1) [OF ok n that(2)] f that(1) by (auto simp: desc_def forest_def)
    ultimately show "a \<noteq> k" by blast
  qed
  have dns: "distinct (ns @ kids c n)" using f K(1) mix(2) by (auto simp: forest_def)
  have pair: "desc L P a \<inter> desc L P b = {}" if "a \<in> set (ns @ kids c n)" "b \<in> set (ns @ kids c n)" "a \<noteq> b" for a b
  proof (cases "a \<in> set ns")
    case True
    show ?thesis
    proof (cases "b \<in> set ns")
      case True
      then show ?thesis using f \<open>a \<in> set ns\<close> that(3) by (auto simp: forest_def)
    qed (use that mix(1) [of a b] True in auto)
  next
    case False
    then have a: "a \<in> set (kids c n)" using that(1) by simp
    show ?thesis
    proof (cases "b \<in> set ns")
      case True
      then show ?thesis using mix(1) [OF True a] by blast
    next
      case False
      then show ?thesis using K(1) a that(2,3) by (auto simp: forest_def)
    qed
  qed
  show "forest L P (ns @ kids c n)" unfolding forest_def using dns pair f K(1) by (auto simp: forest_def)
  have "below_all L P (ns @ [n]) = below_all L P ns \<union> desc L P n" "below_all L P (ns @ kids c n) = below_all L P ns \<union> below_all L P (kids c n)"
    by (auto simp: below_all_def)
  then show "below_all L P (ns @ [n]) = insert n (below_all L P (ns @ kids c n))" using K(2) by blast
  have "n \<notin> desc L P a" if "a \<in> set ns" for a using dis [OF that] self_desc [OF n, of P] by blast
  then show "n \<notin> below_all L P (ns @ kids c n)" using K(3) by (auto simp: below_all_def)
qed

lemma finite_below_all: "tree_ok (view c) L P V \<Longrightarrow> finite (below_all L P ns)"
  by (simp add: below_all_def finite_desc)

lemma total_size_loop_ok:
  assumes ok: "tree_ok (view c) L P V" and "forest L P stack" "card (below_all L P stack) < fuel"
  shows "total_size_loop fuel stack acc c = Inr (acc + sum (vlen c) (below_all L P stack))"
  using assms(2,3)
proof (induction fuel arbitrary: stack acc)
  case (Suc fuel)
  show ?case
  proof (cases stack rule: rev_cases)
    case Nil
    then show ?thesis by (simp add: below_all_def)
  next
    case (snoc ns n)
    have f: "forest L P (ns @ [n])" using Suc.prems(1) snoc by simp
    note S = forest_step [OF ok f]
    have n: "n \<in> L" using f by (simp add: forest_def)
    obtain xs where xs: "tn_value (nd c n) = Some xs" using value_some [OF ok n] by blast
    have live: "filter (\<lambda>m. \<not> evicted (nd c m)) (map snd (tn_children (nd c n))) = kids c n"
      using kid_edge(1) [OF ok n] value_some(1) [OF ok] unfolding kids_def by (intro filter_True) (auto simp: evicted_def)
    have fin: "finite (below_all L P (ns @ kids c n))" by (rule finite_below_all [OF ok])
    have card: "card (below_all L P (ns @ kids c n)) < fuel" using Suc.prems(2) S(2,3) fin snoc by simp
    have "total_size_loop (Suc fuel) stack acc c = total_size_loop fuel (ns @ kids c n) (acc + length xs) c"
      using xs live snoc by (simp add: tensor_def)
    also have "\<dots> = Inr (acc + length xs + sum (vlen c) (below_all L P (ns @ kids c n)))" by (rule Suc.IH [OF S(1) card])
    also have "acc + length xs + sum (vlen c) (below_all L P (ns @ kids c n)) = acc + sum (vlen c) (below_all L P stack)"
      using S(2,3) fin xs snoc by (simp add: vlen_def)
    finally show ?thesis .
  qed
qed simp

lemma total_size_counted:
  assumes "cinv c L P V H"
  shows "total_size c = Inr (nat (rc_evictable_size c + rc_protected_size c))"
proof -
  have ok: "tree_ok (view c) L P V" by (rule cinv_tree [OF assms])
  have L: "below_all L P [root_node c] = L" using desc_root [OF ok] by (simp add: below_all_def)
  have "forest L P [root_node c]" using tree_ok_D(3) [OF ok] by (simp add: forest_def)
  moreover have "card (below_all L P [root_node c]) < Suc (Suc (rc_counter c))"
    using card_desc_le [OF ok, of "root_node c"] by (simp add: L desc_root [OF ok])
  ultimately have t: "total_size c = Inr (sum (vlen c) L)"
    unfolding total_size_def using total_size_loop_ok [OF ok, of "[root_node c]" _ 0] L by (simp del: total_size_loop.simps)
  have fin: "finite L" by (rule tree_ok_D(2) [OF ok])
  have root: "vlen c (root_node c) = 0" using ok by (simp add: vlen_def tree_ok_def)
  have part: "L - {root_node c} = unlocked (view c) L \<union> locked (view c) L" "unlocked (view c) L \<inter> locked (view c) L = {}"
    by (auto simp: unlocked_def locked_def)
  have "int (sum (vlen c) L) = (\<Sum>n \<in> L - {root_node c}. key_size (view c) n)"
    using fin root value_some(2) [OF ok] tree_ok_D(3) [OF ok] by (simp add: sum.remove [of L "root_node c"] key_size_def)
  also have "\<dots> = rc_evictable_size c + rc_protected_size c"
    unfolding part(1) using assms fin part(2)
    by (subst sum.union_disjoint) (auto simp: cinv_def cache_ok_def sizes_ok_def unlocked_def locked_def)
  finally have "sum (vlen c) L = nat (rc_evictable_size c + rc_protected_size c)" by (metis nat_int)
  then show ?thesis using t by simp
qed

section \<open>The cached slots\<close>

lemma flatten_dfs_ok:
  assumes ok: "tree_ok (view c) L P V" and "n \<in> L" "card (desc L P n) \<le> fuel"
  shows "distinct (flatten_dfs fuel c n) \<and> set (flatten_dfs fuel c n) = desc L P n - {n}"
  using assms(2,3)
proof (induction fuel arbitrary: n)
  case 0
  then show ?case using finite_desc [OF ok] self_desc [of n L P] by auto
next
  case (Suc fuel)
  have card: "card (desc L P k) \<le> fuel" if "k \<in> set (kids c n)" for k
    using card_desc_kid [OF ok Suc.prems(1) that] Suc.prems(2) by simp
  have IH: "distinct (flatten_dfs fuel c k)" "set (flatten_dfs fuel c k) = desc L P k - {k}" if "k \<in> set (kids c n)" for k
    using Suc.IH [OF kid_edge(1) [OF ok Suc.prems(1) that] card [OF that]] by simp_all
  let ?f = "\<lambda>k. k # flatten_dfs fuel c k"
  have fd: "flatten_dfs (Suc fuel) c n = concat (map ?f (kids c n))" by (simp add: kids_def comp_def case_prod_unfold)
  have part: "distinct (?f k)" "set (?f k) = desc L P k" if "k \<in> set (kids c n)" for k
    using IH [OF that] self_desc [OF kid_edge(1) [OF ok Suc.prems(1) that], of P] by auto
  have K: "forest L P (kids c n)" "insert n (below_all L P (kids c n)) = desc L P n" "n \<notin> below_all L P (kids c n)"
    using forest_kids [OF ok Suc.prems(1)] by simp_all
  have "distinct (concat (map ?f ks))" if "set ks \<subseteq> set (kids c n)" "distinct ks" for ks
    using that
  proof (induction ks)
    case (Cons k ks)
    have dis: "desc L P k \<inter> desc L P k' = {}" if "k' \<in> set ks" for k'
    proof -
      have "k \<noteq> k'" "k \<in> set (kids c n)" "k' \<in> set (kids c n)" using Cons.prems that by auto
      then show ?thesis using K(1) unfolding forest_def by blast
    qed
    have "set (?f k') = desc L P k'" if "k' \<in> set ks" for k' using part(2) [of k'] that Cons.prems by auto
    then have "set (concat (map ?f ks)) = (\<Union>k' \<in> set ks. desc L P k')" by auto
    then have "set (?f k) \<inter> set (concat (map ?f ks)) = {}" using dis part(2) [of k] Cons.prems by auto
    then show ?case using Cons part(1) [of k] by (simp del: set_concat)
  qed simp
  then have "distinct (flatten_dfs (Suc fuel) c n)" unfolding fd using K(1) by (simp add: forest_def)
  moreover have "set (flatten_dfs (Suc fuel) c n) = below_all L P (kids c n)"
    unfolding fd below_all_def using part(2) by simp
  ultimately show ?case using K(2,3) by blast
qed

end
