(* ===== verification/Sched_Policy.thy ===== *)
theory Sched_Policy
  imports Prefill_Adder Radix_Walk "HOL-Library.Char_ord" "HOL-Library.List_Lexorder"
begin

text \<open>
  The order of the waiting queue: class \<^verbatim>\<open>SchedulePolicy\<close> and \<^verbatim>\<open>match_prefix_for_req\<close> of
  \<^verbatim>\<open>managers/schedule_policy.py\<close>, on the radix cache. Sorting is Python's stable sort; keys that the
  code compares as tuples are pairs in lexicographic order. A random permutation is an argument.
\<close>

section \<open>Matching a request\<close>

definition zero_match_result :: "radix_cache \<Rightarrow> match_result \<Rightarrow> match_result" where
  "zero_match_result c m =
     m\<lparr>device_indices := take 0 (device_indices m), last_device_node := root_node c,
       last_host_node := root_node c, best_match_node := root_node c\<rparr>"

definition req_key :: "sched_req \<Rightarrow> int list \<Rightarrow> radix_key" where
  "req_key r tokens = RadixKey tokens (req_extra_key r) False None"

text \<open>The radix cache reports no hits on the host.\<close>

definition match_prefix_for_req ::
  "bool \<Rightarrow> sched_req \<Rightarrow> int list \<Rightarrow> radix_cache \<Rightarrow> (match_result \<times> sched_req \<times> radix_cache) result" where
  "match_prefix_for_req force_miss r tokens c =
     rbind (match_prefix (req_key r tokens) c) (\<lambda>(m0, c').
     let m = (if force_miss then zero_match_result c' m0 else m0) in
     Inr (m, r\<lparr>prefix_indices := device_indices m, last_node := Some (last_device_node m),
              host_hit_length := 0, swa_host_hit_length := 0, mamba_host_hit_length := 0,
              num_matched_prefix_tokens := min (length (device_indices m)) (compute_max_prefix_len r (length tokens))\<rparr>, c'))"

section \<open>Policies\<close>

datatype policy = LPM | DFS_WEIGHT | FCFS | LOF | RANDOM | ROUTING_KEY

definition cache_aware :: "policy \<Rightarrow> bool" where
  "cache_aware p \<longleftrightarrow> p = LPM \<or> p = DFS_WEIGHT"

definition policy_value :: "policy \<Rightarrow> string" where
  "policy_value p =
     (case p of LPM \<Rightarrow> ''lpm'' | DFS_WEIGHT \<Rightarrow> ''dfs-weight'' | FCFS \<Rightarrow> ''fcfs'' | LOF \<Rightarrow> ''lof''
      | RANDOM \<Rightarrow> ''random'' | ROUTING_KEY \<Rightarrow> ''routing-key'')"

definition policy_of :: "policy list \<Rightarrow> string \<Rightarrow> policy option" where
  "policy_of ps s = find (\<lambda>p. policy_value p = s) ps"

definition validate_and_adjust_policy :: "string \<Rightarrow> bool \<Rightarrow> policy result" where
  "validate_and_adjust_policy s tree_disabled =
     (case policy_of [LPM, DFS_WEIGHT] s of
        Some p \<Rightarrow> Inr (if tree_disabled then FCFS else p)
      | None \<Rightarrow>
          (case policy_of [FCFS, LOF, RANDOM, ROUTING_KEY] s of
             Some p \<Rightarrow> Inr p
           | None \<Rightarrow> Inl ValueError))"

record sched_policy =
  sp_policy :: policy
  enable_priority_scheduling :: bool
  schedule_low_priority_values_first :: bool
  waiting_queue_radix_tree :: radix_cache

definition priority_sign :: "sched_policy \<Rightarrow> int" where
  "priority_sign sp = (if schedule_low_priority_values_first sp then 1 else - 1)"

definition determine_active_policy :: "sched_policy \<Rightarrow> sched_req list \<Rightarrow> policy" where
  "determine_active_policy sp queue = (if sp_policy sp = LPM \<and> 128 < length queue then FCFS else sp_policy sp)"

section \<open>Prefix matches\<close>

record match_env =
  force_miss :: bool
  check_threshold :: int
  deprioritize_threshold :: int

text \<open>
  One request: it is matched against the cache and, when little of it is cached, against the tree
  of the waiting queue, into which it is inserted unless it shares a long prefix with an earlier
  request. The inserted tensor is not initialised and never read.
\<close>

definition prefix_match_step ::
  "match_env \<Rightarrow> sched_req \<Rightarrow> nat list \<Rightarrow> radix_cache \<Rightarrow> radix_cache \<Rightarrow>
     (sched_req \<times> nat list \<times> radix_cache \<times> radix_cache) result" where
  "prefix_match_step env r depri c sim =
     (let prefix_ids = origin_input_ids r @ output_ids r in
      rbind (match_prefix_for_req (force_miss env) r prefix_ids c) (\<lambda>(m, r', c').
      if int (length (prefix_indices r')) \<le> check_threshold env
      then rbind (match_prefix (req_key r prefix_ids) sim) (\<lambda>(m0, sim').
           let m1 = (if force_miss env then zero_match_result sim' m0 else m0) in
           if deprioritize_threshold env \<le> int (length (device_indices m1)) then Inr (r', rid r # depri, c', sim')
           else rbind (rc_insert (req_key r prefix_ids) (Some (replicate (length prefix_ids) 0)) None False sim') (\<lambda>(x, sim'').
                Inr (r', depri, c', sim'')))
      else Inr (r', depri, c', sim)))"

fun prefix_match_loop ::
  "match_env \<Rightarrow> sched_req list \<Rightarrow> nat list \<Rightarrow> radix_cache \<Rightarrow> radix_cache \<Rightarrow>
     (sched_req list \<times> nat list \<times> radix_cache \<times> radix_cache) result" where
  "prefix_match_loop env [] depri c sim = Inr ([], depri, c, sim)"
| "prefix_match_loop env (r # rs) depri c sim =
     rbind (prefix_match_step env r depri c sim) (\<lambda>(r', depri1, c1, sim1).
     rbind (prefix_match_loop env rs depri1 c1 sim1) (\<lambda>(rs', depri2, c2, sim2). Inr (r' # rs', depri2, c2, sim2)))"

definition compute_prefix_matches ::
  "match_env \<Rightarrow> sched_req list \<Rightarrow> radix_cache \<Rightarrow> radix_cache \<Rightarrow> (sched_req list \<times> nat list \<times> radix_cache \<times> radix_cache) result" where
  "compute_prefix_matches env queue c sim = prefix_match_loop env queue [] c (reset sim)"

section \<open>Sorting\<close>

text \<open>Deprioritised requests have the key infinity.\<close>

definition sort_by_longest_prefix :: "nat list \<Rightarrow> sched_req list \<Rightarrow> sched_req list" where
  "sort_by_longest_prefix depri =
     sort_key (\<lambda>r. if rid r \<notin> set depri then (False, - int (num_matched_prefix_tokens r)) else (True, 0))"

definition all_prioritised :: "sched_req list \<Rightarrow> bool" where
  "all_prioritised queue \<longleftrightarrow> (\<forall>r \<in> set queue. req_priority r \<noteq> None)"

definition sort_by_longest_output :: "bool \<Rightarrow> int \<Rightarrow> sched_req list \<Rightarrow> sched_req list result" where
  "sort_by_longest_output enable sign queue =
     (if enable
      then if all_prioritised queue then Inr (sort_key (\<lambda>x. (priority_of x * sign, - max_new_tokens x)) queue) else Inl TypeError
      else Inr (sort_key (\<lambda>x. - max_new_tokens x) queue))"

definition sort_by_priority_and_fcfs :: "int \<Rightarrow> sched_req list \<Rightarrow> sched_req list result" where
  "sort_by_priority_and_fcfs sign queue =
     (if all_prioritised queue then Inr (sort_key (\<lambda>x. (priority_of x * sign, wait_queue_entry_time x)) queue) else Inl TypeError)"

text \<open>An empty routing key counts as no key.\<close>

definition routing_key_count :: "sched_req list \<Rightarrow> string \<Rightarrow> nat" where
  "routing_key_count running key = length (filter (\<lambda>r. routing_key r = Some key) running)"

definition truthy_key :: "sched_req \<Rightarrow> string option" where
  "truthy_key r = (case routing_key r of Some k \<Rightarrow> if k = [] then None else Some k | None \<Rightarrow> None)"

definition routing_sort_key :: "sched_req list \<Rightarrow> sched_req \<Rightarrow> nat \<times> int \<times> string" where
  "routing_sort_key running r =
     (case truthy_key r of
        Some k \<Rightarrow> if 0 < routing_key_count running k then (0, - int (routing_key_count running k), k) else (1, 0, k)
      | None \<Rightarrow> (1, 0, []))"

definition sort_by_routing_key :: "sched_req list \<Rightarrow> sched_req list \<Rightarrow> sched_req list" where
  "sort_by_routing_key running queue =
     (if \<forall>r \<in> set running. truthy_key r = None then queue else sort_key (routing_sort_key running) queue)"

subsection \<open>Depth-first order\<close>

text \<open>The weight of a node grows by the weight of each child, after the child is done.\<close>

primrec calc_weight :: "nat \<Rightarrow> radix_cache \<Rightarrow> nat \<Rightarrow> (nat \<Rightarrow> int) \<Rightarrow> (nat \<Rightarrow> int) result" where
  "calc_weight 0 c n w = Inl OutOfFuel"
| "calc_weight (Suc fuel) c n w =
     rfold (\<lambda>k w. rbind (calc_weight fuel c k w) (\<lambda>w'. Inr (w'(n := w' n + w' k)))) (kids c n) w"

primrec get_dfs_priority ::
  "nat \<Rightarrow> radix_cache \<Rightarrow> (nat \<Rightarrow> int) \<Rightarrow> (nat \<Rightarrow> sched_req list) \<Rightarrow> nat \<Rightarrow> sched_req list \<Rightarrow> sched_req list result" where
  "get_dfs_priority 0 c w reqs_at n q = Inl OutOfFuel"
| "get_dfs_priority (Suc fuel) c w reqs_at n q =
     rbind (rfold (get_dfs_priority fuel c w reqs_at) (sort_key (\<lambda>k. - w k) (kids c n)) q) (\<lambda>q'.
     Inr (q' @ reqs_at n))"

definition last_node_to_reqs :: "sched_req list \<Rightarrow> nat \<Rightarrow> sched_req list" where
  "last_node_to_reqs queue n = filter (\<lambda>r. last_node r = Some n) queue"

definition sort_by_dfs_weight :: "radix_cache \<Rightarrow> sched_req list \<Rightarrow> sched_req list result" where
  "sort_by_dfs_weight c queue =
     rbind (calc_weight (Suc (rc_counter c)) c (root_node c) (\<lambda>n. int (length (last_node_to_reqs queue n)))) (\<lambda>w.
     get_dfs_priority (Suc (rc_counter c)) c w (last_node_to_reqs queue) (root_node c) [])"

section \<open>The whole policy\<close>

fun match_all :: "bool \<Rightarrow> sched_req list \<Rightarrow> radix_cache \<Rightarrow> (sched_req list \<times> radix_cache) result" where
  "match_all miss [] c = Inr ([], c)"
| "match_all miss (r # rs) c =
     rbind (match_prefix_for_req miss r (origin_input_ids r @ output_ids r) c) (\<lambda>(m, r', c1).
     rbind (match_all miss rs c1) (\<lambda>(rs', c2). Inr (r' # rs', c2)))"

text \<open>
  \<open>fast_match\<close> tells whether a cache-agnostic policy may match too: the tree supports it and the
  server does not only decode.
\<close>

definition calc_priority ::
  "match_env \<Rightarrow> bool \<Rightarrow> (sched_req list \<Rightarrow> sched_req list) \<Rightarrow> sched_req list option \<Rightarrow> sched_req list \<Rightarrow> radix_cache \<Rightarrow> sched_policy \<Rightarrow>
     (sched_req list \<times> radix_cache \<times> sched_policy) result" where
  "calc_priority env fast_match shuffle running queue c sp =
     (let p = determine_active_policy sp queue in
      rbind (if \<not> cache_aware p \<and> fast_match then match_all (force_miss env) queue c else Inr (queue, c)) (\<lambda>(queue1, c1).
      if sp_policy sp = FCFS
      then if enable_priority_scheduling sp
           then rbind (sort_by_priority_and_fcfs (priority_sign sp) queue1) (\<lambda>q. Inr (q, c1, sp))
           else Inr (queue1, c1, sp)
      else if cache_aware p
      then rbind (compute_prefix_matches env queue1 c1 (waiting_queue_radix_tree sp)) (\<lambda>(queue2, depri, c2, sim).
           let sp' = sp\<lparr>waiting_queue_radix_tree := sim\<rparr> in
           if p = LPM then Inr (sort_by_longest_prefix depri queue2, c2, sp')
           else rbind (sort_by_dfs_weight c2 queue2) (\<lambda>q. Inr (q, c2, sp')))
      else if p = FCFS then Inr (queue1, c1, sp)
      else if p = LOF
      then rbind (sort_by_longest_output (enable_priority_scheduling sp) (priority_sign sp) queue1) (\<lambda>q. Inr (q, c1, sp))
      else if p = RANDOM then Inr (shuffle queue1, c1, sp)
      else (case running of None \<Rightarrow> Inr (queue1, c1, sp) | Some rs \<Rightarrow> Inr (sort_by_routing_key rs queue1, c1, sp))))"

end
