(* ===== verification/Policy_Props.thy ===== *)
theory Policy_Props
  imports Sched_Policy
begin

text \<open>
  The waiting queue keeps its requests under every policy, and the depth-first policy keeps the
  requests below a node together.
\<close>

section \<open>Weights\<close>

definition summed :: "nat set \<Rightarrow> (nat \<Rightarrow> units) \<Rightarrow> nat set \<Rightarrow> (nat \<Rightarrow> int) \<Rightarrow> nat \<Rightarrow> int" where
  "summed L P X w m = (if m \<in> X then sum w (desc L P m) else w m)"

text \<open>Adding the subtree \<open>desc L P k\<close> to the subtrees \<open>B\<close> of the other children of \<open>n\<close>.\<close>

lemma summed_cons:
  fixes L P k n v
  defines "v1 \<equiv> (summed L P (desc L P k) v)(n := v n + sum v (desc L P k))"
  assumes fin: "finite (desc L P k)" "finite B" and dis: "desc L P k \<inter> B = {}" and n: "n \<notin> desc L P k" "n \<notin> B"
    and sub: "\<And>x. x \<in> B \<Longrightarrow> desc L P x \<subseteq> B"
  shows "(summed L P B v1)(n := v1 n + sum v1 B) = (summed L P (desc L P k \<union> B) v)(n := v n + sum v (desc L P k \<union> B))"
proof (rule ext)
  fix x
  have v1: "sum v1 X = sum v X" if "X \<subseteq> B" for X
    using that dis n(2) by (intro sum.cong refl) (auto simp: v1_def summed_def)
  consider "x = n" | "x \<noteq> n" "x \<in> B" | "x \<noteq> n" "x \<notin> B" by blast
  then show "((summed L P B v1)(n := v1 n + sum v1 B)) x =
      ((summed L P (desc L P k \<union> B) v)(n := v n + sum v (desc L P k \<union> B))) x"
  proof cases
    case 1
    then show ?thesis using v1 [of B] dis fin by (simp add: v1_def sum.union_disjoint)
  next
    case 2
    then show ?thesis using v1 [OF sub] by (simp add: summed_def)
  next
    case 3
    then show ?thesis by (simp add: summed_def v1_def)
  qed
qed

text \<open>After the walk every node below \<open>n\<close> has the sum of the weights in its subtree.\<close>

lemma calc_weight_kids:
  assumes ok: "tree_ok (view c) L P V" and n: "n \<in> L"
    and IH: "\<And>k v. k \<in> set (kids c n) \<Longrightarrow> calc_weight fuel c k v = Inr (summed L P (desc L P k) v)"
    and ks: "set ks \<subseteq> set (kids c n)" "distinct ks"
  shows "rfold (\<lambda>k w. rbind (calc_weight fuel c k w) (\<lambda>w'. Inr (w'(n := w' n + w' k)))) ks v =
    Inr ((summed L P (below_all L P ks) v)(n := v n + sum v (below_all L P ks)))"
  using ks
proof (induction ks arbitrary: v)
  case Nil
  then show ?case by (simp add: below_all_def summed_def fun_eq_iff)
next
  case (Cons k ks)
  let ?step = "\<lambda>k w. rbind (calc_weight fuel c k w) (\<lambda>w'. Inr (w'(n := w' n + w' k)))"
  let ?v1 = "(summed L P (desc L P k) v)(n := v n + sum v (desc L P k))"
  have K: "forest L P (kids c n)" "n \<notin> below_all L P (kids c n)" using forest_kids [OF ok n] by simp_all
  have k: "k \<in> set (kids c n)" "k \<in> L" using Cons.prems kid_edge(1) [OF ok n] by auto
  have nk: "n \<notin> desc L P k" "n \<notin> below_all L P ks" using Cons.prems(1) K(2) by (auto simp: below_all_def)
  have "desc L P k \<inter> desc L P k' = {}" if k': "k' \<in> set ks" for k'
  proof -
    have "k \<noteq> k'" "k' \<in> set (kids c n)" using Cons.prems k' by auto
    then show ?thesis using K(1) k(1) unfolding forest_def by blast
  qed
  then have dis: "desc L P k \<inter> below_all L P ks = {}" by (auto simp: below_all_def)
  have sub: "desc L P x \<subseteq> below_all L P ks" if "x \<in> below_all L P ks" for x
    using that by (auto simp: below_all_def desc_def intro: prefix_order.trans)
  have "rfold ?step (k # ks) v = rfold ?step ks ?v1"
    using IH [OF k(1), of v] nk(1) self_desc [OF k(2), of P] by (simp add: summed_def)
  also have "\<dots> = Inr ((summed L P (below_all L P ks) ?v1)(n := ?v1 n + sum ?v1 (below_all L P ks)))"
    using Cons.prems by (intro Cons.IH) auto
  also have "\<dots> = Inr ((summed L P (desc L P k \<union> below_all L P ks) v)(n := v n + sum v (desc L P k \<union> below_all L P ks)))"
    by (rule arg_cong [where f = Inr], rule summed_cons [OF finite_desc [OF ok] finite_below_all [OF ok] dis nk sub])
  also have "desc L P k \<union> below_all L P ks = below_all L P (k # ks)" by (auto simp: below_all_def)
  finally show ?case .
qed

lemma calc_weight_ok:
  assumes ok: "tree_ok (view c) L P V" and "n \<in> L" "card (desc L P n) \<le> fuel"
  shows "calc_weight fuel c n w = Inr (summed L P (desc L P n) w)"
  using assms(2,3)
proof (induction fuel arbitrary: n w)
  case 0
  then show ?case using finite_desc [OF ok] self_desc [of n L P] by auto
next
  case (Suc fuel)
  note n = Suc.prems(1)
  have K: "insert n (below_all L P (kids c n)) = desc L P n" "n \<notin> below_all L P (kids c n)"
    using forest_kids [OF ok n] by simp_all
  have IH: "calc_weight fuel c k v = Inr (summed L P (desc L P k) v)" if "k \<in> set (kids c n)" for k v
    using card_desc_kid [OF ok n that] Suc.prems(2) by (intro Suc.IH kid_edge(1) [OF ok n that]) simp
  have fin: "finite (below_all L P (kids c n))" by (rule finite_below_all [OF ok])
  have "(summed L P (below_all L P (kids c n)) w)(n := w n + sum w (below_all L P (kids c n))) = summed L P (desc L P n) w"
    unfolding K(1) [symmetric] using K fin by (auto simp: summed_def fun_eq_iff K(1) [symmetric])
  then show ?case using calc_weight_kids [OF ok n IH subset_refl distinct_kids [OF ok n]] by simp
qed

section \<open>Depth-first order\<close>

primrec dfs_list :: "nat \<Rightarrow> radix_cache \<Rightarrow> (nat \<Rightarrow> int) \<Rightarrow> (nat \<Rightarrow> 'r list) \<Rightarrow> nat \<Rightarrow> 'r list" where
  "dfs_list 0 c w here n = []"
| "dfs_list (Suc fuel) c w here n = concat (map (dfs_list fuel c w here) (sort_key (\<lambda>k. - w k) (kids c n))) @ here n"

lemma get_dfs_priority_ok:
  assumes ok: "tree_ok (view c) L P V" and "n \<in> L" "card (desc L P n) \<le> fuel"
  shows "get_dfs_priority fuel c w reqs_at n q = Inr (q @ dfs_list fuel c w reqs_at n)"
  using assms(2,3)
proof (induction fuel arbitrary: n q)
  case 0
  then show ?case using finite_desc [OF ok] self_desc [of n L P] by auto
next
  case (Suc fuel)
  note n = Suc.prems(1)
  have IH: "get_dfs_priority fuel c w reqs_at k q = Inr (q @ dfs_list fuel c w reqs_at k)" if "k \<in> set (kids c n)" for k q
    using card_desc_kid [OF ok n that] Suc.prems(2) by (intro Suc.IH kid_edge(1) [OF ok n that]) simp
  have "rfold (get_dfs_priority fuel c w reqs_at) ks q = Inr (q @ concat (map (dfs_list fuel c w reqs_at) ks))"
    if "set ks \<subseteq> set (kids c n)" for ks q
    using that by (induction ks arbitrary: q) (simp_all add: IH)
  from this [of "sort_key (\<lambda>k. - w k) (kids c n)" q] show ?case by simp
qed

lemma dfs_list_mset:
  assumes ok: "tree_ok (view c) L P V" and "n \<in> L" "card (desc L P n) \<le> fuel"
  shows "mset (dfs_list fuel c w here n) = (\<Sum>m \<in> desc L P n. mset (here m))"
  using assms(2,3)
proof (induction fuel arbitrary: n)
  case 0
  then show ?case using finite_desc [OF ok] self_desc [of n L P] by auto
next
  case (Suc fuel)
  note n = Suc.prems(1)
  have K: "forest L P (kids c n)" "insert n (below_all L P (kids c n)) = desc L P n" "n \<notin> below_all L P (kids c n)"
    using forest_kids [OF ok n] by simp_all
  have IH: "mset (dfs_list fuel c w here k) = (\<Sum>m \<in> desc L P k. mset (here m))" if "k \<in> set (kids c n)" for k
    using card_desc_kid [OF ok n that] Suc.prems(2) by (intro Suc.IH kid_edge(1) [OF ok n that]) simp
  have fin: "finite (below_all L P (kids c n))" by (rule finite_below_all [OF ok])
  have "mset (concat (map f xs)) = (\<Sum>k \<in># mset xs. mset (f k))" for f :: "nat \<Rightarrow> 'a list" and xs
    by (induction xs) simp_all
  then have "mset (concat (map (dfs_list fuel c w here) (sort_key (\<lambda>k. - w k) (kids c n)))) =
      (\<Sum>k \<in># mset (kids c n). mset (dfs_list fuel c w here k))"
    by simp
  also have "\<dots> = (\<Sum>k \<in> set (kids c n). mset (dfs_list fuel c w here k))"
    using distinct_kids [OF ok n] by (simp add: mset_set_set sum_unfold_sum_mset)
  also have "\<dots> = (\<Sum>k \<in> set (kids c n). \<Sum>m \<in> desc L P k. mset (here m))" using IH by simp
  also have "\<dots> = (\<Sum>m \<in> below_all L P (kids c n). mset (here m))"
    unfolding below_all_def using K(1) finite_desc [OF ok] by (intro sum.UNION_disjoint [symmetric]) (auto simp: forest_def)
  finally show ?case using K(2,3) fin by (simp flip: K(2))
qed

text \<open>The requests below a node are next to each other.\<close>

lemma dfs_list_segment:
  assumes ok: "tree_ok (view c) L P V" and "n \<in> L" "card (desc L P n) \<le> fuel" "m \<in> desc L P n"
  shows "\<exists>xs zs fuel'. dfs_list fuel c w here n = xs @ dfs_list fuel' c w here m @ zs \<and> card (desc L P m) \<le> fuel'"
  using assms(2-4)
proof (induction fuel arbitrary: n)
  case 0
  then show ?case using finite_desc [OF ok] self_desc [of n L P] by auto
next
  case (Suc fuel)
  note n = Suc.prems(1)
  show ?case
  proof (cases "m = n")
    case True
    then show ?thesis using Suc.prems(2) by (intro exI [of _ "[]"] exI [of _ "Suc fuel"]) simp
  next
    case False
    then obtain k where k: "k \<in> set (kids c n)" "m \<in> desc L P k" using Suc.prems(3) desc_split [OF ok n] by auto
    have "card (desc L P k) \<le> fuel" using card_desc_kid [OF ok n k(1)] Suc.prems(2) by simp
    from Suc.IH [OF kid_edge(1) [OF ok n k(1)] this k(2)] obtain xs zs fuel' where
      seg: "dfs_list fuel c w here k = xs @ dfs_list fuel' c w here m @ zs" "card (desc L P m) \<le> fuel'" by blast
    have "k \<in> set (sort_key (\<lambda>k. - w k) (kids c n))" using k(1) by simp
    then obtain as bs where "sort_key (\<lambda>k. - w k) (kids c n) = as @ k # bs" by (meson split_list)
    then have "dfs_list (Suc fuel) c w here n = (concat (map (dfs_list fuel c w here) as) @ xs) @ dfs_list fuel' c w here m @
        (zs @ concat (map (dfs_list fuel c w here) bs) @ here n)" using seg(1) by simp
    then show ?thesis using seg(2) by blast
  qed
qed

text \<open>A request is below a node when its matched path goes through it.\<close>

definition below_node :: "radix_cache \<Rightarrow> nat \<Rightarrow> sched_req \<Rightarrow> bool" where
  "below_node c n r \<longleftrightarrow> (\<exists>m u w u' w'. last_node r = Some m \<and> reaches c n u w \<and> reaches c m u' w' \<and> prefix u u')"

definition placed_in :: "radix_cache \<Rightarrow> sched_req \<Rightarrow> bool" where
  "placed_in c r \<longleftrightarrow> (\<exists>m u w. last_node r = Some m \<and> reaches c m u w)"

lemma filter_mset_sum:
  assumes "finite X" "\<And>r. r \<in> set queue \<Longrightarrow> B r \<longleftrightarrow> (\<exists>m \<in> X. last_node r = Some m)"
  shows "(\<Sum>m \<in> X. mset (last_node_to_reqs queue m)) = filter_mset B (mset queue)"
  using assms
proof (induction queue)
  case (Cons r queue)
  have "(\<Sum>m \<in> X. mset (last_node_to_reqs (r # queue) m)) =
      (\<Sum>m \<in> X. (if last_node r = Some m then {#r#} else {#}) + mset (last_node_to_reqs queue m))"
    by (intro sum.cong refl) (simp add: last_node_to_reqs_def)
  also have "\<dots> = (\<Sum>m \<in> X. if last_node r = Some m then {#r#} else {#}) + filter_mset B (mset queue)"
    using Cons by (simp add: sum.distrib)
  also have "(\<Sum>m \<in> X. if last_node r = Some m then {#r#} else {#}) = (if B r then {#r#} else {#})"
  proof (cases "last_node r")
    case (Some k)
    then show ?thesis using Cons.prems(1) Cons.prems(2) [of r] by (simp add: sum.delta' eq_commute [of k])
  qed (use Cons.prems(2) [of r] in simp)
  finally show ?case by simp
qed (simp add: last_node_to_reqs_def)

lemma dfs_weight_ok:
  assumes inv: "cache_inv c H" and q: "\<forall>r \<in> set queue. placed_in c r"
  shows "\<exists>q'. sort_by_dfs_weight c queue = Inr q' \<and> mset q' = mset queue \<and>
    (\<forall>n u w. reaches c n u w \<longrightarrow> (\<exists>xs ys zs. q' = xs @ ys @ zs \<and> mset ys = filter_mset (below_node c n) (mset queue)))"
proof -
  obtain L P V where "cinv c L P V H" using inv by (auto simp: cache_inv_def)
  then have ok: "tree_ok (view c) L P V" by (rule cinv_tree)
  note R = reaches_iff [OF ok]
  let ?root = "root_node c" and ?fuel = "Suc (rc_counter c)" and ?reqs = "last_node_to_reqs queue"
  have root: "?root \<in> L" by (rule tree_ok_D(3) [OF ok, simplified])
  have card: "card (desc L P n) \<le> ?fuel" for n using card_desc_le [OF ok, of n] by simp
  let ?w = "summed L P (desc L P ?root) (\<lambda>n. int (length (?reqs n)))"
  let ?q = "dfs_list ?fuel c ?w ?reqs ?root"
  have run: "sort_by_dfs_weight c queue = Inr ?q"
    using calc_weight_ok [OF ok root card] get_dfs_priority_ok [OF ok root card, of ?w ?reqs "[]"] by (simp add: sort_by_dfs_weight_def)
  have seg: "mset (dfs_list fuel c w ?reqs n) = filter_mset (below_node c n) (mset queue)"
    if n: "n \<in> L" "card (desc L P n) \<le> fuel" for fuel w n
    unfolding dfs_list_mset [OF ok n] using q n(1)
    by (intro filter_mset_sum finite_desc [OF ok]) (auto simp: below_node_def placed_in_def desc_def R)
  have "mset ?q = mset queue"
  proof -
    have "filter (below_node c ?root) queue = queue"
      using q root tree_ok_D(5) [OF ok] by (intro filter_True) (auto simp: below_node_def placed_in_def R)
    then have "filter_mset (below_node c ?root) (mset queue) = mset queue" by (metis mset_filter)
    then show ?thesis using seg [OF root card] by simp
  qed
  moreover have "\<exists>xs ys zs. ?q = xs @ ys @ zs \<and> mset ys = filter_mset (below_node c n) (mset queue)" if n: "n \<in> L" for n
  proof -
    have "n \<in> desc L P ?root" using n desc_root [OF ok] by simp
    from dfs_list_segment [OF ok root card this] obtain xs zs fuel where
      "?q = xs @ dfs_list fuel c ?w ?reqs n @ zs" "card (desc L P n) \<le> fuel" by blast
    then show ?thesis using seg [OF n] by blast
  qed
  ultimately show ?thesis using run R by blast
qed

section \<open>Matching the queue\<close>

lemma match_keeps_nodes:
  assumes "cache_inv c H" "\<not> rc_disable c" "match_prefix key c = Inr (m, c')" "reaches c n u w"
  shows "reaches c' n u w"
proof -
  obtain L P V where inv: "cinv c L P V H" using assms(1) by (auto simp: cache_inv_def)
  obtain L' P' V' where r: "cinv c' L' P' V' H" "extends L P V L' P' V'"
    using match_prefix_ok [OF inv assms(2), of key] assms(3) by auto
  show ?thesis
    using assms(4) r(2) reaches_iff [OF cinv_tree [OF inv]] reaches_iff [OF cinv_tree [OF r(1)]] by (auto simp: extends_def)
qed

lemma root_reached: "cache_inv c H \<Longrightarrow> \<exists>u w. reaches c (root_node c) u w"
  using at_root by blast

text \<open>A tree the matching works on, and what a match keeps of it.\<close>

definition tree_kept :: "nat multiset \<Rightarrow> radix_cache \<Rightarrow> radix_cache \<Rightarrow> bool" where
  "tree_kept H c c' \<longleftrightarrow> cache_inv c' H \<and> \<not> rc_disable c' \<and> cached c' = cached c \<and> (\<forall>r. placed_in c r \<longrightarrow> placed_in c' r)"

lemma tree_kept_refl: "cache_inv c H \<Longrightarrow> \<not> rc_disable c \<Longrightarrow> tree_kept H c c"
  by (simp add: tree_kept_def)

lemma tree_kept_trans: "tree_kept H c c1 \<Longrightarrow> tree_kept H c1 c2 \<Longrightarrow> tree_kept H c c2"
  by (simp add: tree_kept_def)

lemma match_prefix_for_req_ok:
  assumes inv: "cache_inv c H" and en: "\<not> rc_disable c"
  shows "\<exists>m r' c'. match_prefix_for_req miss r tokens c = Inr (m, r', c') \<and> tree_kept H c c' \<and> rid r' = rid r \<and>
    req_priority r' = req_priority r \<and> placed_in c' r'"
proof -
  obtain m c' where m: "match_prefix (req_key r tokens) c = Inr (m, c')" "cache_inv c' H" "cached c' = cached c" "conf c' = conf c"
    using match_inv [OF inv en, of "req_key r tokens"] by blast
  have en': "\<not> rc_disable c'" using conf_D(3) [OF m(4)] en by simp
  have keep: "tree_kept H c c'"
    using m(2,3) en' match_keeps_nodes [OF inv en m(1)] by (auto simp: tree_kept_def placed_in_def) blast
  let ?m = "if miss then zero_match_result c' m else m"
  let ?r = "r\<lparr>prefix_indices := device_indices ?m, last_node := Some (last_device_node ?m),
      host_hit_length := 0, swa_host_hit_length := 0, mamba_host_hit_length := 0,
      num_matched_prefix_tokens := min (length (device_indices ?m)) (compute_max_prefix_len r (length tokens))\<rparr>"
  have "match_prefix_for_req miss r tokens c = Inr (?m, ?r, c')" by (simp add: match_prefix_for_req_def m(1) Let_def)
  moreover have "placed_in c' ?r"
    using root_reached [OF m(2)] match_reaches [OF inv en m(1)] by (auto simp: placed_in_def zero_match_result_def)
  ultimately show ?thesis using keep by fastforce
qed

text \<open>The simulated tree of the waiting queue.\<close>

definition sim_ok :: "radix_cache \<Rightarrow> bool" where
  "sim_ok sim \<longleftrightarrow> cache_inv sim {#} \<and> \<not> rc_disable sim"

lemma rk_len_query_req: "rk_len (query c (req_key r tokens)) \<le> length tokens"
proof -
  have "rk_len (fst (maybe_to_bigram_view (req_key r tokens) (is_eagle c) (None :: int list option))) \<le> length tokens"
    using rk_len_bigram [of "(req_key r tokens)\<lparr>is_bigram := True\<rparr>"]
    by (auto simp: maybe_to_bigram_view_def req_key_def Let_def)
  then show ?thesis using page_floor_le by (simp add: query_def) (meson order_trans page_floor_le)
qed

lemma prefix_match_step_ok:
  assumes c: "cache_inv c H" "\<not> rc_disable c" and sim: "sim_ok sim"
  shows "\<exists>r' depri' c' sim'. prefix_match_step env r depri c sim = Inr (r', depri', c', sim') \<and> tree_kept H c c' \<and> sim_ok sim' \<and>
    rid r' = rid r \<and> placed_in c' r'"
proof -
  let ?ids = "origin_input_ids r @ output_ids r"
  obtain m r' c' where m: "match_prefix_for_req (force_miss env) r ?ids c = Inr (m, r', c')" "tree_kept H c c'" "rid r' = rid r" "placed_in c' r'"
    using match_prefix_for_req_ok [OF c, of "force_miss env" r ?ids] by blast
  obtain m0 sim1 where s1: "match_prefix (req_key r ?ids) sim = Inr (m0, sim1)" "cache_inv sim1 {#}" "conf sim1 = conf sim"
    using match_inv [of sim "{#}" "req_key r ?ids"] sim unfolding sim_ok_def by blast
  have en1: "\<not> rc_disable sim1" using conf_D(3) [OF s1(3)] sim by (simp add: sim_ok_def)
  have len: "rk_len (query sim1 (req_key r ?ids)) \<le> length (replicate (length ?ids) (0 :: int))"
    using rk_len_query_req [of sim1 r ?ids] by simp
  obtain x sim2 where s2: "rc_insert (req_key r ?ids) (Some (replicate (length ?ids) 0)) None False sim1 = Inr (x, sim2)"
    "cache_inv sim2 {#}" "conf sim2 = conf sim1"
    using insert_inv [OF s1(2) en1 len, of None False] by blast
  have en2: "\<not> rc_disable sim2" using conf_D(3) [OF s2(3)] en1 by simp
  have ok: "sim_ok sim" "sim_ok sim1" "sim_ok sim2" using sim s1(2) s2(2) en1 en2 by (simp_all add: sim_ok_def)
  have "\<exists>depri' sim'. prefix_match_step env r depri c sim = Inr (r', depri', c', sim') \<and> sim_ok sim'"
    using m(1) s1(1) s2(1) ok unfolding prefix_match_step_def Let_def
    by (simp only: rbind_simps prod.case) (auto split: if_splits)
  then show ?thesis using m by blast
qed

lemma prefix_match_loop_ok:
  assumes "cache_inv c H" "\<not> rc_disable c" "sim_ok sim"
  shows "\<exists>rs' depri' c' sim'. prefix_match_loop env rs depri c sim = Inr (rs', depri', c', sim') \<and> tree_kept H c c' \<and> sim_ok sim' \<and>
    map rid rs' = map rid rs \<and> (\<forall>r \<in> set rs'. placed_in c' r)"
  using assms
proof (induction rs arbitrary: depri c sim)
  case Nil
  then show ?case by (simp add: tree_kept_refl)
next
  case (Cons r rs)
  obtain r' depri1 c1 sim1 where s: "prefix_match_step env r depri c sim = Inr (r', depri1, c1, sim1)" "tree_kept H c c1" "sim_ok sim1"
    "rid r' = rid r" "placed_in c1 r'" using prefix_match_step_ok [OF Cons.prems] by blast
  have c1: "cache_inv c1 H" "\<not> rc_disable c1" using s(2) by (simp_all add: tree_kept_def)
  obtain rs' depri2 c2 sim2 where t: "prefix_match_loop env rs depri1 c1 sim1 = Inr (rs', depri2, c2, sim2)" "tree_kept H c1 c2" "sim_ok sim2"
    "map rid rs' = map rid rs" "\<forall>r \<in> set rs'. placed_in c2 r" using Cons.IH [OF c1 s(3)] by blast
  have "placed_in c2 r'" using s(5) t(2) by (simp add: tree_kept_def)
  then show ?case using s t tree_kept_trans [OF s(2) t(2)] by simp
qed

lemma match_all_ok:
  assumes "cache_inv c H" "\<not> rc_disable c"
  shows "\<exists>rs' c'. match_all miss rs c = Inr (rs', c') \<and> tree_kept H c c' \<and> map rid rs' = map rid rs \<and> map req_priority rs' = map req_priority rs"
  using assms
proof (induction rs arbitrary: c)
  case Nil
  then show ?case by (simp add: tree_kept_refl)
next
  case (Cons r rs)
  obtain m r' c1 where s: "match_prefix_for_req miss r (origin_input_ids r @ output_ids r) c = Inr (m, r', c1)" "tree_kept H c c1"
    "rid r' = rid r" "req_priority r' = req_priority r" using match_prefix_for_req_ok [OF Cons.prems] by blast
  have c1: "cache_inv c1 H" "\<not> rc_disable c1" using s(2) by (simp_all add: tree_kept_def)
  obtain rs' c2 where t: "match_all miss rs c1 = Inr (rs', c2)" "tree_kept H c1 c2" "map rid rs' = map rid rs"
    "map req_priority rs' = map req_priority rs" using Cons.IH [OF c1] by blast
  then show ?case using s tree_kept_trans [OF s(2) t(2)] by simp
qed

section \<open>The whole policy\<close>

lemma all_prioritised_cong: "map req_priority q = map req_priority q' \<Longrightarrow> all_prioritised q = all_prioritised q'"
proof -
  assume "map req_priority q = map req_priority q'"
  then have "req_priority ` set q = req_priority ` set q'" by (metis list.set_map)
  then show ?thesis unfolding all_prioritised_def by (metis (no_types, lifting) image_iff)
qed

definition policy_ok :: "sched_policy \<Rightarrow> bool" where
  "policy_ok sp \<longleftrightarrow> (let sim = waiting_queue_radix_tree sp in
     0 < rc_page_size sim \<and> \<not> rc_disable sim \<and> (enable_kv_cache_events sim \<longrightarrow> native_hash_ok sim))"

lemma rids_perm: "mset q' = mset q \<Longrightarrow> mset (map rid q') = mset (map rid q)"
  by simp

lemma calc_priority_ok:
  assumes c: "cache_inv c H" "\<not> rc_disable c" and sp: "policy_ok sp"
    and prio: "enable_priority_scheduling sp \<longrightarrow> all_prioritised queue" and sh: "\<And>q. mset (shuffle q) = mset q"
  shows "\<exists>q' c' sp'. calc_priority env fast_match shuffle running queue c sp = Inr (q', c', sp') \<and>
    mset (map rid q') = mset (map rid queue) \<and> cache_inv c' H \<and> cached c' = cached c"
proof -
  let ?p = "determine_active_policy sp queue"
  let ?m = "if \<not> cache_aware ?p \<and> fast_match then match_all (force_miss env) queue c else Inr (queue, c)"
  obtain q1 c1 where m: "?m = Inr (q1, c1)" "tree_kept H c c1" "map rid q1 = map rid queue" "map req_priority q1 = map req_priority queue"
  proof (cases "\<not> cache_aware ?p \<and> fast_match")
    case True
    then have "?m = match_all (force_miss env) queue c" by simp
    then show ?thesis using match_all_ok [OF c, of "force_miss env" queue] that by metis
  next
    case False
    then have "?m = Inr (queue, c)" by auto
    then show ?thesis using tree_kept_refl [OF c] that by metis
  qed
  have c1: "cache_inv c1 H" "\<not> rc_disable c1" "cached c1 = cached c" using m(2) by (simp_all add: tree_kept_def)
  have pr: "enable_priority_scheduling sp \<Longrightarrow> all_prioritised q1" using prio all_prioritised_cong [OF m(4)] by simp
  have sim: "sim_ok (reset (waiting_queue_radix_tree sp))"
    using sp reset_inv [of "waiting_queue_radix_tree sp"] by (auto simp: policy_ok_def Let_def sim_ok_def reset_rest)
  obtain q2 depri c2 sim2 where p: "compute_prefix_matches env q1 c1 (waiting_queue_radix_tree sp) = Inr (q2, depri, c2, sim2)"
    "tree_kept H c1 c2" "map rid q2 = map rid q1" "\<forall>r \<in> set q2. placed_in c2 r"
    using prefix_match_loop_ok [OF c1(1,2) sim, of env q1 "[]"] unfolding compute_prefix_matches_def by blast
  have c2: "cache_inv c2 H" "cached c2 = cached c" using p(2) c1(3) by (simp_all add: tree_kept_def)
  obtain q3 where d: "sort_by_dfs_weight c2 q2 = Inr q3" "mset q3 = mset q2" using dfs_weight_ok [OF c2(1) p(4)] by blast
  have same: "mset (map rid q1) = mset (map rid queue)" "mset (map rid q2) = mset (map rid queue)" using m(3) p(3) by simp_all
  have d': "mset (map rid q3) = mset (map rid queue)" using same(2) d(2) by simp
  let ?run = "calc_priority env fast_match shuffle running queue c sp"
  have run: "?run = (if sp_policy sp = FCFS
      then if enable_priority_scheduling sp
           then rbind (sort_by_priority_and_fcfs (priority_sign sp) q1) (\<lambda>q. Inr (q, c1, sp))
           else Inr (q1, c1, sp)
      else if cache_aware ?p
      then (let sp' = sp\<lparr>waiting_queue_radix_tree := sim2\<rparr> in
           if ?p = LPM then Inr (sort_by_longest_prefix depri q2, c2, sp') else Inr (q3, c2, sp'))
      else if ?p = FCFS then Inr (q1, c1, sp)
      else if ?p = LOF
      then rbind (sort_by_longest_output (enable_priority_scheduling sp) (priority_sign sp) q1) (\<lambda>q. Inr (q, c1, sp))
      else if ?p = RANDOM then Inr (shuffle q1, c1, sp)
      else (case running of None \<Rightarrow> Inr (q1, c1, sp) | Some rs \<Rightarrow> Inr (sort_by_routing_key rs q1, c1, sp)))"
    unfolding calc_priority_def Let_def m(1) rbind_simps prod.case p(1) d(1) by (rule refl)
  have sorts: "\<exists>q. sort_by_priority_and_fcfs (priority_sign sp) q1 = Inr q \<and> mset (map rid q) = mset (map rid queue)"
    if "enable_priority_scheduling sp"
    using pr [OF that] same(1) by (simp add: sort_by_priority_and_fcfs_def)
  have sort2: "\<exists>q. sort_by_longest_output (enable_priority_scheduling sp) (priority_sign sp) q1 = Inr q \<and> mset (map rid q) = mset (map rid queue)"
    using pr same(1) by (simp add: sort_by_longest_output_def)
  have perms: "mset (map rid (sort_by_longest_prefix depri q2)) = mset (map rid queue)" "mset (map rid (shuffle q1)) = mset (map rid queue)"
    "mset (map rid (sort_by_routing_key rs q1)) = mset (map rid queue)" for rs
    using same sh by (simp_all add: sort_by_longest_prefix_def sort_by_routing_key_def)
  show ?thesis
  proof (cases running)
    case None
    then show ?thesis using sorts sort2 perms same d' c1 c2 unfolding run Let_def by auto
  next
    case (Some rs)
    then show ?thesis using sorts sort2 perms same d' c1 c2 unfolding run Let_def by auto
  qed
qed

end
