(* ===== verification/Finish_Props.thy ===== *)
theory Finish_Props
  imports Req_Finish
begin

text \<open>
  The finish checks stop a request at the right token: the reported output ends with the first
  stop token, or with the first token that completes a stop string, among those accepted in the
  step. Incremental detokenisation always has the text ids of the whole output.
\<close>

section \<open>Search\<close>

lemma str_in_iff: "str_in s t \<longleftrightarrow> sublist s t"
proof (induction t)
  case (Cons x t)
  have "take (length s) (x # t) = s \<longleftrightarrow> prefix s (x # t)"
    by (metis append_eq_conv_conj prefix_def take_is_prefix)
  then show ?case using Cons by (simp only: str_in.simps sublist_Cons_right)
qed simp

lemma first_at_Some:
  assumes "first_at p i xs = Some (j, x)"
  shows "\<exists>k. j = i + k \<and> k < length xs \<and> xs ! k = x \<and> p x \<and> (\<forall>y \<in> set (take k xs). \<not> p y)"
  using assms
proof (induction xs arbitrary: i)
  case (Cons a xs)
  show ?case
  proof (cases "p a")
    case True
    then show ?thesis using Cons.prems by (intro exI [of _ 0]) simp
  next
    case False
    then obtain k where "j = Suc i + k" "k < length xs" "xs ! k = x" "p x" "\<forall>y \<in> set (take k xs). \<not> p y"
      using Cons.IH [of "Suc i"] Cons.prems by auto
    then show ?thesis using False by (intro exI [of _ "Suc k"]) simp
  qed
qed simp

lemma first_at_None: "first_at p i xs = None \<longleftrightarrow> (\<forall>x \<in> set xs. \<not> p x)"
  by (induction xs arbitrary: i) auto

lemma first_prefix_ok:
  assumes "\<And>ids. matched ids = Inr (f ids)"
  shows "first_prefix matched window [a ..< b] =
    Inr (if \<exists>n \<in> {a ..< b}. f (take n window) then Some (LEAST n. a \<le> n \<and> f (take n window)) else None)"
proof (induction "b - a" arbitrary: a)
  case (Suc k)
  then have ab: "a < b" by simp
  show ?case
  proof (cases "f (take a window)")
    case True
    then have "(LEAST n. a \<le> n \<and> f (take n window)) = a" by (intro Least_equality) auto
    then show ?thesis using True ab assms by (auto simp: upt_rec [of a])
  next
    case False
    then have eq: "a \<le> n \<and> f (take n window) \<longleftrightarrow> Suc a \<le> n \<and> f (take n window)" for n by (metis Suc_le_eq le_eq_less_or_eq)
    have ex: "(\<exists>n \<in> {a ..< b}. f (take n window)) \<longleftrightarrow> (\<exists>n \<in> {Suc a ..< b}. f (take n window))"
      using eq by fastforce
    have "first_prefix matched window [a ..< b] = first_prefix matched window [Suc a ..< b]"
      using False ab assms by (simp add: upt_rec [of a])
    then show ?thesis using Suc.hyps(1) [of "Suc a"] Suc.hyps(2) unfolding ex eq by simp
  qed
qed simp

section \<open>Stop tokens\<close>

definition plain_step :: "nat \<Rightarrow> finish_req \<Rightarrow> bool" where
  "plain_step n r \<longleftrightarrow> finished_reason r = None \<and> finished_len r = None \<and> to_finish r = None \<and>
     int (length (output_ids r)) < max_new_tokens r \<and> grammar_terminated r \<noteq> Some True \<and>
     0 < n \<and> n \<le> length (output_ids r) \<and> (\<forall>t \<in> set (last_n n (output_ids r)). 0 \<le> t \<and> t < vocab_size r)"

lemma plain_step_vocab: "plain_step n r \<Longrightarrow> check_vocab_boundary_finish (last_n n (output_ids r)) r = (False, r)"
proof -
  assume "plain_step n r"
  then have "first_at (\<lambda>t. vocab_size r \<le> t \<or> t < 0) 0 (last_n n (output_ids r)) = None"
    by (auto simp: first_at_None plain_step_def)
  then show ?thesis by (simp add: check_vocab_boundary_finish_def)
qed

lemma plain_step_update:
  "plain_step n r \<Longrightarrow> update_finish_state env n r =
     rbind (check_str_based_finish env n r) (\<lambda>(b, r2).
       if b then Inr r2 else Inr (snd (check_token_based_finish env (last_n n (output_ids r)) r2)))"
  using plain_step_vocab [of n r] by (auto simp: update_finish_state_def plain_step_def finished_def Let_def)

lemma token_finish:
  assumes p: "plain_step n r" and s: "stop_strs r = []" "stop_regex_strs r = []" "\<not> ignore_eos r"
  shows "\<exists>r'. update_finish_state env n r = Inr r' \<and>
    (if \<exists>t \<in> set (last_n n (output_ids r)). is_stop_token env r t
     then \<exists>as t bs. last_n n (output_ids r) = as @ t # bs \<and> is_stop_token env r t \<and> (\<forall>x \<in> set as. \<not> is_stop_token env r x) \<and>
       finished_reason r' = Some (FINISH_MATCHED_TOKEN t) \<and>
       output_ids_through_stop r' = take (length (output_ids r) - n) (output_ids r) @ as @ [t]
     else r' = r)"
proof -
  let ?new = "last_n n (output_ids r)" and ?old = "length (output_ids r) - n"
  have len: "n \<le> length (output_ids r)" "0 < n" using p by (simp_all add: plain_step_def)
  have new: "?new = drop ?old (output_ids r)" "length ?new = n" using len by (simp_all add: last_n_def)
  have u: "update_finish_state env n r = Inr (snd (check_token_based_finish env ?new r))"
    using plain_step_update [OF p] s by (simp add: check_str_based_finish_def)
  show ?thesis
  proof (cases "first_at (is_stop_token env r) 0 ?new")
    case None
    then have "snd (check_token_based_finish env ?new r) = r" by (simp add: check_token_based_finish_def)
    then show ?thesis using u None by (auto simp: first_at_None)
  next
    case (Some it)
    then obtain i t where f: "first_at (is_stop_token env r) 0 ?new = Some (i, t)" by (cases it) auto
    then have i: "i < n" "?new ! i = t" "is_stop_token env r t" "\<forall>y \<in> set (take i ?new). \<not> is_stop_token env r y"
      using first_at_Some [OF f] new(2) by auto
    have sp: "?new = take i ?new @ t # drop (Suc i) ?new" using i(1,2) new(2) by (metis id_take_nth_drop)
    have "take (?old + i + 1) (output_ids r) = take ?old (output_ids r) @ take (Suc i) ?new"
      unfolding new(1) using take_add [of ?old "Suc i" "output_ids r"] by simp
    also have "take (Suc i) ?new = take i ?new @ [t]" using i(1,2) new(2) by (simp add: take_Suc_conv_app_nth)
    finally have tk: "take (?old + i + 1) (output_ids r) = take ?old (output_ids r) @ take i ?new @ [t]" .
    let ?r = "r\<lparr>finished_reason := Some (FINISH_MATCHED_TOKEN t), finished_len := Some (?old + i + 1)\<rparr>"
    have "update_finish_state env n r = Inr ?r"
      using u f s(3) new(2) by (simp add: check_token_based_finish_def)
    moreover have "output_ids_through_stop ?r = take ?old (output_ids r) @ take i ?new @ [t]"
      using tk by (simp add: output_ids_through_stop_def)
    moreover have "\<exists>x \<in> set ?new. is_stop_token env r x" using i new(2) by (metis nth_mem)
    ultimately show ?thesis using sp i(3,4) by (intro exI [of _ ?r]) auto
  qed
qed

section \<open>Stop strings\<close>

lemma locate_ok:
  assumes tk: "fe_tokenizer env = Some tk" and n: "0 < n" "n \<le> length (output_ids r)"
    and full: "matched (tk_decode tk (drop (length (output_ids r) - stop_match_tail_len r n) (output_ids r)))"
  shows "\<exists>m. locate_str_stop_finished_len env matched r n = Inr m \<and> m \<le> length (output_ids r) \<and> length (output_ids r) - n < m \<and>
    matched (tk_decode tk (drop (length (output_ids r) - stop_match_tail_len r n) (take m (output_ids r)))) \<and>
    (\<forall>k. length (output_ids r) - n < k \<and> k < m \<longrightarrow>
       \<not> matched (tk_decode tk (drop (length (output_ids r) - stop_match_tail_len r n) (take k (output_ids r)))))"
proof -
  let ?out = "output_ids r" and ?tl = "stop_match_tail_len r n"
  let ?start = "length ?out - ?tl" and ?f = "\<lambda>ids. matched (tk_decode tk ids)"
  let ?w = "drop ?start ?out" and ?P = "\<lambda>k. ?f (drop ?start (take k ?out))"
  have tl: "?tl \<le> length ?out" "n \<le> ?tl" using n by (auto simp: stop_match_tail_len_def Let_def)
  have w: "length ?w = ?tl" using tl by simp
  have pre: "take k ?w = drop ?start (take (?start + k) ?out)" for k by (simp add: take_drop add.commute)
  let ?a = "max 1 (?tl + 1 - n)"
  have a: "?a = ?tl + 1 - n" using tl(2) by simp
  have fp: "first_prefix (\<lambda>ids. rbind (decode env ids) (\<lambda>s. Inr (matched s))) ?w [?a ..< ?tl] =
      Inr (if \<exists>k \<in> {?a ..< ?tl}. ?f (take k ?w) then Some (LEAST k. ?a \<le> k \<and> ?f (take k ?w)) else None)"
    by (rule first_prefix_ok) (simp add: decode_def tk)
  show ?thesis
  proof (cases "\<exists>k \<in> {?a ..< ?tl}. ?f (take k ?w)")
    case True
    then obtain k where k: "?a \<le> k" "k < ?tl" "?f (take k ?w)" by auto
    let ?l = "LEAST k. ?a \<le> k \<and> ?f (take k ?w)"
    have l: "?a \<le> ?l \<and> ?f (take ?l ?w)" by (rule LeastI [of _ k]) (use k in blast)
    have lk: "?l \<le> k" by (rule Least_le) (use k in blast)
    have min: "\<not> ?f (take j ?w)" if "?a \<le> j" "j < ?l" for j using not_less_Least that by blast
    have run: "locate_str_stop_finished_len env matched r n = Inr (?start + ?l)"
      unfolding locate_str_stop_finished_len_def Let_def w fp using True by simp
    have low: "\<not> ?P j" if "length ?out - n < j" "j < ?start + ?l" for j
    proof -
      have "?a \<le> j - ?start" "j - ?start < ?l" "?start + (j - ?start) = j" using that a tl by linarith+
      then show ?thesis using min [of "j - ?start"] pre [of "j - ?start"] by simp
    qed
    have "?start + ?l \<le> length ?out" "length ?out - n < ?start + ?l" using l lk k(2) a tl by linarith+
    then show ?thesis using run l low pre [of ?l] by (intro exI [of _ "?start + ?l"]) simp
  next
    case False
    have run: "locate_str_stop_finished_len env matched r n = Inr (length ?out)"
      unfolding locate_str_stop_finished_len_def Let_def w fp using False by simp
    have low: "\<not> ?P j" if "length ?out - n < j" "j < length ?out" for j
    proof -
      have "?a \<le> j - ?start" "j - ?start < ?tl" and eq: "?start + (j - ?start) = j" using that a tl by linarith+
      then have "\<not> ?f (take (j - ?start) ?w)" using False by (meson atLeastLessThan_iff)
      then show ?thesis unfolding pre eq .
    qed
    then show ?thesis using run full n by (intro exI [of _ "length ?out"]) simp
  qed
qed

text \<open>
  The first stop string of the list that the decoded tail contains ends the request, at the first new
  token with which the decoding of the window contains it; without one, no stop string ends it.
\<close>

lemma stop_str_search:
  assumes p: "plain_step n r" and tk: "fe_tokenizer env = Some tk" and old: "\<forall>x \<in> set (stop_strs r). \<not> str_in x (decoded_text r)"
  defines "start \<equiv> length (output_ids r) - stop_match_tail_len r n"
  shows "\<exists>r'. update_finish_state env n r = Inr r' \<and>
    (case find (\<lambda>x. sublist x (tk_decode tk (drop start (output_ids r)))) (stop_strs r) of
       None \<Rightarrow> \<forall>x. finished_reason r' \<noteq> Some (FINISH_MATCHED_STR x)
     | Some x \<Rightarrow> finished_reason r' = Some (FINISH_MATCHED_STR x) \<and>
         (\<exists>m. output_ids_through_stop r' = take m (output_ids r) \<and> length (output_ids r) - n < m \<and> m \<le> length (output_ids r) \<and>
            sublist x (tk_decode tk (drop start (take m (output_ids r)))) \<and>
            (\<forall>k. length (output_ids r) - n < k \<and> k < m \<longrightarrow> \<not> sublist x (tk_decode tk (drop start (take k (output_ids r)))))))"
proof -
  let ?tl = "stop_match_tail_len r n" and ?out = "output_ids r"
  have n: "0 < n" "n \<le> length ?out" using p by (simp_all add: plain_step_def)
  have tl: "0 < ?tl" "?tl \<le> length ?out" using n by (auto simp: stop_match_tail_len_def Let_def)
  let ?tail = "tk_decode tk (drop start ?out)"
  have ts: "tail_str env r n = Inr ?tail" if "\<not> (stop_strs r = [] \<and> stop_regex_strs r = [])"
    using that tl by (auto simp: tail_str_def decode_def tk last_n_def start_def)
  have find: "find (\<lambda>x. str_in x ?tail \<or> str_in x (decoded_text r)) (stop_strs r) = find (\<lambda>x. sublist x ?tail) (stop_strs r)"
    using old by (intro find_cong) (auto simp: str_in_iff)
  have loc: "\<exists>m. locate_str_stop_finished_len env matched r n = Inr m \<and> m \<le> length ?out \<and> length ?out - n < m \<and>
      matched (tk_decode tk (drop start (take m ?out))) \<and>
      (\<forall>k. length ?out - n < k \<and> k < m \<longrightarrow> \<not> matched (tk_decode tk (drop start (take k ?out))))" if "matched ?tail" for matched
    using locate_ok [OF tk n, of matched] that unfolding start_def by blast
  show ?thesis
  proof (cases "find (\<lambda>x. sublist x ?tail) (stop_strs r)")
    case (Some x)
    then have x: "x \<in> set (stop_strs r)" "str_in x ?tail" by (auto simp: find_Some_iff str_in_iff)
    from loc [of "str_in x", OF x(2)] obtain m where m: "locate_str_stop_finished_len env (str_in x) r n = Inr m"
      "m \<le> length ?out" "length ?out - n < m" "str_in x (tk_decode tk (drop start (take m ?out)))"
      "\<forall>k. length ?out - n < k \<and> k < m \<longrightarrow> \<not> str_in x (tk_decode tk (drop start (take k ?out)))" by blast
    let ?r = "r\<lparr>finished_reason := Some (FINISH_MATCHED_STR x), finished_len := Some m\<rparr>"
    have ne: "stop_strs r \<noteq> []" using x(1) by auto
    then have "check_str_based_finish env n r = Inr (True, ?r)"
      using ts Some x(2) m(1) by (simp add: check_str_based_finish_def find)
    then have "update_finish_state env n r = Inr ?r" using plain_step_update [OF p, of env] by simp
    moreover have "output_ids_through_stop ?r = take m ?out" by (simp add: output_ids_through_stop_def)
    ultimately show ?thesis using m(2-5) Some unfolding str_in_iff by (intro exI [of _ ?r]) auto
  next
    case None
    have "\<exists>b r2. check_str_based_finish env n r = Inr (b, r2) \<and> (\<not> b \<longrightarrow> r2 = r) \<and> (\<forall>x. finished_reason r2 \<noteq> Some (FINISH_MATCHED_STR x))"
    proof (cases "stop_strs r = [] \<and> stop_regex_strs r = []")
      case True
      then show ?thesis using p by (intro exI [of _ False] exI [of _ r]) (simp add: check_str_based_finish_def plain_step_def)
    next
      case False
      note t = ts [OF False]
      show ?thesis
      proof (cases "find (\<lambda>e. re_search env e ?tail) (stop_regex_strs r)")
        case e: (Some e)
        then have "re_search env e ?tail" by (auto simp: find_Some_iff)
        from loc [of "re_search env e", OF this] show ?thesis using False t None e
          by (auto simp: check_str_based_finish_def find)
      next
        case e: None
        then show ?thesis using False t None p
          by (intro exI [of _ False] exI [of _ r]) (auto simp: check_str_based_finish_def find plain_step_def)
      qed
    qed
    then obtain b r2 where c: "check_str_based_finish env n r = Inr (b, r2)" "\<not> b \<longrightarrow> r2 = r" "\<forall>x. finished_reason r2 \<noteq> Some (FINISH_MATCHED_STR x)"
      by blast
    have "\<forall>x. finished_reason (snd (check_token_based_finish env ts r)) \<noteq> Some (FINISH_MATCHED_STR x)" for ts
      using p by (auto simp: check_token_based_finish_def plain_step_def split: option.splits prod.splits)
    then show ?thesis using plain_step_update [OF p, of env] c None by (cases b) auto
  qed
qed

section \<open>Bounds of the reported output\<close>

lemma locate_le: "locate_str_stop_finished_len env matched r n = Inr m \<Longrightarrow> m \<le> length (output_ids r)"
proof -
  have bound: "first_prefix f w ns = Inr (Some k) \<Longrightarrow> k \<in> set ns" for f w ns k
    by (induction ns) (auto split: if_splits)
  assume l: "locate_str_stop_finished_len env matched r n = Inr m"
  let ?tl = "stop_match_tail_len r n"
  have tl: "?tl \<le> length (output_ids r)" by (simp add: stop_match_tail_len_def Let_def)
  then have "length (drop (length (output_ids r) - ?tl) (output_ids r)) = ?tl" by simp
  then show ?thesis using l tl
    by (auto simp: locate_str_stop_finished_len_def Let_def split: option.splits dest!: bound) arith
qed

lemma check_vocab_len:
  assumes "check_vocab_boundary_finish ts r = (b, r')" "length ts \<le> length (output_ids r)"
  shows "length (output_ids r') = length (output_ids r)"
    "b \<Longrightarrow> \<exists>m. finished_len r' = Some m \<and> m \<le> length (output_ids r)" "\<not> b \<Longrightarrow> r' = r"
  using assms by (auto simp: check_vocab_boundary_finish_def Let_def split: option.splits prod.splits dest!: first_at_Some)

lemma last_n_length: "length (last_n n xs) \<le> length xs"
  by (simp add: last_n_def)

lemma check_str_len:
  assumes "check_str_based_finish env n r = Inr (b, r')" "finished_len r = None"
  shows "output_ids r' = output_ids r" "\<forall>m. finished_len r' = Some m \<longrightarrow> m \<le> length (output_ids r)" "\<not> b \<Longrightarrow> r' = r"
proof -
  have "output_ids r' = output_ids r \<and> (\<forall>m. finished_len r' = Some m \<longrightarrow> m \<le> length (output_ids r)) \<and> (\<not> b \<longrightarrow> r' = r)"
  proof (cases "stop_strs r = [] \<and> stop_regex_strs r = []")
    case True
    then show ?thesis using assms by (simp add: check_str_based_finish_def)
  next
    case False
    then obtain tail where tail: "tail_str env r n = Inr tail" using assms(1) by (cases "tail_str env r n") (auto simp: check_str_based_finish_def)
    let ?loc = "\<lambda>p. locate_str_stop_finished_len env p r n"
    show ?thesis
    proof (cases "find (\<lambda>s. str_in s tail \<or> str_in s (decoded_text r)) (stop_strs r)")
      case (Some s)
      show ?thesis
      proof (cases "str_in s tail")
        case True
        then obtain m where "?loc (str_in s) = Inr m" using assms(1) False tail Some
          by (cases "?loc (str_in s)") (simp_all add: check_str_based_finish_def)
        then show ?thesis using assms(1) False tail Some True locate_le by (auto simp: check_str_based_finish_def)
      qed (use assms False tail Some in \<open>auto simp: check_str_based_finish_def\<close>)
    next
      case None
      show ?thesis
      proof (cases "find (\<lambda>e. re_search env e tail) (stop_regex_strs r)")
        case (Some e)
        then obtain m where "?loc (re_search env e) = Inr m" using assms(1) False tail None
          by (cases "?loc (re_search env e)") (simp_all add: check_str_based_finish_def)
        then show ?thesis using assms(1) False tail None Some locate_le by (auto simp: check_str_based_finish_def)
      qed (use assms False tail None in \<open>auto simp: check_str_based_finish_def\<close>)
    qed
  qed
  then show "output_ids r' = output_ids r" "\<forall>m. finished_len r' = Some m \<longrightarrow> m \<le> length (output_ids r)" "\<not> b \<Longrightarrow> r' = r" by blast+
qed

lemma update_finish_bounds:
  assumes "update_finish_state env n r = Inr r'" "finished_len r = None"
  shows "length (output_ids r') = length (output_ids r) \<and> (\<forall>m. finished_len r' = Some m \<longrightarrow> m \<le> length (output_ids r'))"
proof -
  let ?new = "last_n n (output_ids r)"
  obtain b1 r1 where v: "check_vocab_boundary_finish ?new r = (b1, r1)" by (cases "check_vocab_boundary_finish ?new r")
  note V = check_vocab_len [OF v last_n_length]
  consider "finished r \<or> to_finish r \<noteq> None" | "max_new_tokens r \<le> int (length (output_ids r))" "\<not> finished r" "to_finish r = None"
    | "grammar_terminated r = Some True" "\<not> max_new_tokens r \<le> int (length (output_ids r))" "\<not> finished r" "to_finish r = None"
    | (checks) "grammar_terminated r \<noteq> Some True" "\<not> max_new_tokens r \<le> int (length (output_ids r))" "\<not> finished r" "to_finish r = None" by blast
  then show ?thesis
  proof cases
    case checks
    show ?thesis
    proof (cases b1)
      case True
      then have "r' = r1" using assms(1) checks v by (simp add: update_finish_state_def)
      then show ?thesis using V True by auto
    next
      case False
      then have "r1 = r" using V(3) by simp
      then have "update_finish_state env n r = rbind (check_str_based_finish env n r) (\<lambda>(b2, r2).
          Inr (if b2 then r2 else snd (check_token_based_finish env ?new r2)))"
        using checks v False by (auto simp: update_finish_state_def intro!: rbind_cong)
      then have "rbind (check_str_based_finish env n r) (\<lambda>(b2, r2).
          Inr (if b2 then r2 else snd (check_token_based_finish env ?new r2))) = Inr r'" using assms(1) by simp
      then obtain x where x: "check_str_based_finish env n r = Inr x"
        "(case x of (b2, r2) \<Rightarrow> Inr (if b2 then r2 else snd (check_token_based_finish env ?new r2))) = (Inr r' :: finish_req result)"
        by (rule rbind_InrE)
      obtain b2 r2 where bx: "x = (b2, r2)" by (cases x)
      have s: "check_str_based_finish env n r = Inr (b2, r2)" "r' = (if b2 then r2 else snd (check_token_based_finish env ?new r2))"
        using x(1) x(2) [symmetric] unfolding bx by (simp_all only: prod.case sum.inject)
      note str = check_str_len [OF s(1) assms(2)]
      show ?thesis
      proof (cases b2)
        case True
        then show ?thesis using str s(2) by auto
      next
        case False
        then have "r' = snd (check_token_based_finish env ?new r2)" using s(2) by simp
        then show ?thesis using str last_n_length [of n "output_ids r"]
          by (auto simp: check_token_based_finish_def split: if_splits option.splits prod.splits dest!: first_at_Some)
      qed
    qed
  qed (use assms in \<open>auto simp: update_finish_state_def split: if_splits\<close>)
qed

text \<open>
  The length limit is checked before the stop tokens: when a step of several tokens reaches the
  limit, a stop token inside it is not seen and the tokens behind it are reported.
\<close>

lemma length_check_first:
  assumes "finished_reason r = None" "to_finish r = None" "max_new_tokens r \<le> int (length (output_ids r))"
  shows "\<exists>r'. update_finish_state env n r = Inr r' \<and> finished_reason r' = Some (FINISH_LENGTH (max_new_tokens r)) \<and>
    output_ids_through_stop r' = take (nat (max_new_tokens r)) (output_ids r)"
  using assms by (auto simp: update_finish_state_def finished_def output_ids_through_stop_def)

section \<open>Incremental detokenisation\<close>

text \<open>The text ids after a call are the last ids of the prompt and the whole output so far.\<close>

definition detok_inv :: "finish_req \<Rightarrow> bool" where
  "detok_inv r \<longleftrightarrow> (case (surr_offset r, read_offset r) of
     (Some s, Some rd) \<Rightarrow>
       rd = length (origin_input_ids_unpadded r) \<and> s = rd - INIT_INCREMENTAL_DETOKENIZATION_OFFSET \<and>
       cur_decode_ids_len r \<le> length (output_ids_through_stop r) \<and>
       surr_and_decode_ids r = drop s (origin_input_ids_unpadded r) @ take (cur_decode_ids_len r) (output_ids_through_stop r)
   | _ \<Rightarrow> True)"

lemma through_stop_upd [simp]:
  "output_ids_through_stop (r\<lparr>surr_and_decode_ids := a\<rparr>) = output_ids_through_stop r"
  "output_ids_through_stop (r\<lparr>cur_decode_ids_len := b\<rparr>) = output_ids_through_stop r"
  "output_ids_through_stop (r\<lparr>read_offset := d\<rparr>) = output_ids_through_stop r"
  "output_ids_through_stop (r\<lparr>surr_offset := e\<rparr>) = output_ids_through_stop r"
  by (simp_all add: output_ids_through_stop_def split: option.split)

lemma detokenize_ok:
  assumes "detok_inv r" "init_incremental_detokenize r = ((ids, k), r')"
  shows "ids = drop (length (origin_input_ids_unpadded r) - INIT_INCREMENTAL_DETOKENIZATION_OFFSET) (origin_input_ids_unpadded r) @
      output_ids_through_stop r"
    "k = min (length (origin_input_ids_unpadded r)) INIT_INCREMENTAL_DETOKENIZATION_OFFSET" "detok_inv r'" "output_ids r' = output_ids r"
proof -
  let ?out = "output_ids_through_stop r"
  show "ids = drop (length (origin_input_ids_unpadded r) - INIT_INCREMENTAL_DETOKENIZATION_OFFSET) (origin_input_ids_unpadded r) @ ?out"
    "k = min (length (origin_input_ids_unpadded r)) INIT_INCREMENTAL_DETOKENIZATION_OFFSET" "output_ids r' = output_ids r" "detok_inv r'"
    using assms by (auto simp: init_incremental_detokenize_def Let_def detok_inv_def split: option.splits)
qed

end
