(* ===== verification/Sampling.thy ===== *)
theory Sampling
  imports Complex_Main Prelude "HOL-Library.Sublist"
begin

text \<open>
  The parameters of a request, \<^verbatim>\<open>sampling/sampling_params.py\<close>: defaults, the checks of the allowed
  ranges, the preparation of stop conditions, and the bound on the length of a match of a stop
  expression. The parser of regular expressions is part of the language's library and its output
  the input here; the encoder of the tokenizer is an argument. Fields that none of these functions
  reads or writes are left out of the record, and an exception discards the object.
\<close>

section \<open>Parameters\<close>

text \<open>A floating-point number, none when it is infinite or not a number.\<close>

type_synonym py_float = "rat option"

text \<open>\<^verbatim>\<open>Optional[Union[str, List[str]]]\<close>.\<close>

datatype strs = NoStrs | OneStr string | ManyStrs "string list"

record sampling_params =
  sm_max_new_tokens :: "int option"
  sm_stop :: strs
  sm_stop_token_ids :: "int option list option"
  sm_stop_regex :: strs
  temperature :: "py_float option"
  top_p :: "py_float option"
  top_k :: "int option"
  min_p :: "py_float option"
  frequency_penalty :: "py_float option"
  presence_penalty :: "py_float option"
  repetition_penalty :: "py_float option"
  min_new_tokens :: "int option"
  sm_n :: "int option"
  json_schema :: "string option"
  regex :: "string option"
  ebnf :: "string option"
  sm_ignore_eos :: "bool option"
  skip_special_tokens :: "bool option"
  spaces_between_special_tokens :: "bool option"
  no_stop_trim :: "bool option"
  logit_bias :: "int option list option"
  sm_stop_strs :: strs
  sm_stop_regex_strs :: strs
  sm_stop_str_max_len :: nat
  sm_stop_regex_max_len :: nat
  is_normalized :: bool

definition SAMPLING_EPS :: rat where
  "SAMPLING_EPS = 1 / 1000000"

definition TOP_K_ALL :: int where
  "TOP_K_ALL = 2 ^ 30"

definition or_default :: "'a \<Rightarrow> 'a option \<Rightarrow> 'a option" where
  "or_default d x = Some (case x of None \<Rightarrow> d | Some v \<Rightarrow> v)"

text \<open>The set of stop tokens without missing entries, in the order given; an empty one is none.\<close>

definition filter_stop_ids :: "int option list option \<Rightarrow> int option list option" where
  "filter_stop_ids ids =
     (case ids of
        None \<Rightarrow> None
      | Some xs \<Rightarrow> (let ys = remdups (filter (\<lambda>x. x \<noteq> None) xs) in if ys = [] then None else Some ys))"

definition greedy :: "py_float option \<Rightarrow> bool" where
  "greedy t = (case t of Some (Some x) \<Rightarrow> 0 \<le> x \<and> x < SAMPLING_EPS | _ \<Rightarrow> False)"

definition post_init :: "sampling_params \<Rightarrow> sampling_params" where
  "post_init p =
     (if is_normalized p then p
      else
        let p1 = p\<lparr>sm_stop_strs := sm_stop p, sm_stop_token_ids := filter_stop_ids (sm_stop_token_ids p),
              sm_stop_regex_strs := sm_stop_regex p, temperature := or_default (Some 1) (temperature p),
              top_p := or_default (Some 1) (top_p p), top_k := or_default (- 1) (top_k p), min_p := or_default (Some 0) (min_p p),
              frequency_penalty := or_default (Some 0) (frequency_penalty p),
              presence_penalty := or_default (Some 0) (presence_penalty p),
              repetition_penalty := or_default (Some 1) (repetition_penalty p),
              min_new_tokens := or_default 0 (min_new_tokens p), sm_n := or_default 1 (sm_n p),
              sm_ignore_eos := or_default False (sm_ignore_eos p), skip_special_tokens := or_default True (skip_special_tokens p),
              spaces_between_special_tokens := or_default True (spaces_between_special_tokens p),
              no_stop_trim := or_default False (no_stop_trim p)\<rparr>;
            p2 = (if greedy (temperature p1) then p1\<lparr>temperature := Some (Some 1), top_k := Some 1\<rparr> else p1)
        in if top_k p2 = Some (- 1) then p2\<lparr>top_k := Some TOP_K_ALL\<rparr> else p2)"

section \<open>Checks\<close>

text \<open>A comparison with a missing value raises \<^verbatim>\<open>TypeError\<close>; one with a non-finite number fails.\<close>

definition check :: "'a option \<Rightarrow> ('a \<Rightarrow> bool) \<Rightarrow> unit result" where
  "check x ok = (case x of None \<Rightarrow> Inl TypeError | Some v \<Rightarrow> if ok v then Inr () else Inl ValueError)"

definition finite_in :: "(rat \<Rightarrow> bool) \<Rightarrow> py_float \<Rightarrow> bool" where
  "finite_in ok v = (case v of None \<Rightarrow> False | Some x \<Rightarrow> ok x)"

definition count_some :: "'a option list \<Rightarrow> nat" where
  "count_some xs = length (filter (\<lambda>x. x \<noteq> None) xs)"

definition verify :: "int \<Rightarrow> sampling_params \<Rightarrow> unit result" where
  "verify vocab_size p =
     rbind (check (temperature p) (finite_in (\<lambda>x. 0 \<le> x))) (\<lambda>_.
     rbind (check (top_p p) (finite_in (\<lambda>x. 0 < x \<and> x \<le> 1))) (\<lambda>_.
     rbind (check (min_p p) (finite_in (\<lambda>x. 0 \<le> x \<and> x \<le> 1))) (\<lambda>_.
     rbind (check (top_k p) (\<lambda>k. \<not> (k < 1 \<or> k = - 1))) (\<lambda>_.
     rbind (check (frequency_penalty p) (finite_in (\<lambda>x. - 2 \<le> x \<and> x \<le> 2))) (\<lambda>_.
     rbind (check (presence_penalty p) (finite_in (\<lambda>x. - 2 \<le> x \<and> x \<le> 2))) (\<lambda>_.
     rbind (check (repetition_penalty p) (finite_in (\<lambda>x. 0 < x \<and> x \<le> 2))) (\<lambda>_.
     rbind (check (min_new_tokens p) (\<lambda>m. 0 \<le> m)) (\<lambda>_.
     rbind (case sm_max_new_tokens p of
              None \<Rightarrow> Inr ()
            | Some mx \<Rightarrow> if mx < 0 then Inl ValueError else check (min_new_tokens p) (\<lambda>m. m \<le> mx)) (\<lambda>_.
     rbind (case logit_bias p of
              None \<Rightarrow> Inr ()
            | Some ks \<Rightarrow> if \<forall>k \<in> set ks. (case k of None \<Rightarrow> False | Some t \<Rightarrow> 0 \<le> t \<and> t < vocab_size) then Inr () else Inl ValueError) (\<lambda>_.
     if 1 < count_some [json_schema p, regex p, ebnf p] then Inl ValueError else Inr ()))))))))))"

section \<open>Stop expressions\<close>

text \<open>The nodes of the parser; the last one stands for every token the code does not handle.\<close>

datatype sre =
    LITERAL char
  | IN "char \<Rightarrow> bool"
  | ANY
  | SUBPATTERN "sre list"
  | BRANCH "sre list list"
  | MAX_REPEAT nat "nat option" "sre list"
  | MIN_REPEAT nat "nat option" "sre list"
  | AT string
  | UNHANDLED

definition MAX_LEN :: nat where
  "MAX_LEN = 2 ^ 30"

text \<open>\<open>None\<close> is \<^verbatim>\<open>MAXREPEAT\<close>.\<close>

fun max_length :: "sre \<Rightarrow> nat" where
  "max_length (LITERAL c) = 1"
| "max_length (IN cs) = 1"
| "max_length ANY = 1"
| "max_length (SUBPATTERN rs) = sum_list (map max_length rs)"
| "max_length (BRANCH bs) = Max (set (map (\<lambda>rs. sum_list (map max_length rs)) bs))"
| "max_length (MAX_REPEAT lo None rs) = MAX_LEN"
| "max_length (MAX_REPEAT lo (Some hi) rs) = hi * sum_list (map max_length rs)"
| "max_length (MIN_REPEAT lo None rs) = MAX_LEN"
| "max_length (MIN_REPEAT lo (Some hi) rs) = hi * sum_list (map max_length rs)"
| "max_length (AT s) = 0"
| "max_length UNHANDLED = MAX_LEN"

definition max_length_from_subpattern :: "sre list \<Rightarrow> nat" where
  "max_length_from_subpattern rs = sum_list (map max_length rs)"

section \<open>Preparation of stop conditions\<close>

record encoder =
  en_encode :: "string \<Rightarrow> int list"

fun strs_list :: "strs \<Rightarrow> string list" where
  "strs_list NoStrs = []"
| "strs_list (OneStr s) = [s]"
| "strs_list (ManyStrs ss) = ss"

definition raise_if_tokenizer_required :: "encoder option \<Rightarrow> string list \<Rightarrow> string list \<Rightarrow> int \<Rightarrow> unit result" where
  "raise_if_tokenizer_required tk stops regexes min_new =
     (if tk \<noteq> None then Inr ()
      else if stops \<noteq> [] then Inl ValueError
      else if regexes \<noteq> [] then Inl ValueError
      else if 0 < min_new then Inl ValueError else Inr ())"

definition stop_str_len :: "encoder option \<Rightarrow> string \<Rightarrow> nat" where
  "stop_str_len tk s = (case tk of Some e \<Rightarrow> length (en_encode e s) | None \<Rightarrow> length s)"

text \<open>\<open>parse\<close> may reject an expression.\<close>

fun regex_lens :: "(string \<Rightarrow> sre list result) \<Rightarrow> string list \<Rightarrow> nat list result" where
  "regex_lens parse [] = Inr []"
| "regex_lens parse (e # es) =
     rbind (parse e) (\<lambda>t. rbind (regex_lens parse es) (\<lambda>ns. Inr (max_length_from_subpattern t # ns)))"

definition normalize :: "(string \<Rightarrow> sre list result) \<Rightarrow> encoder option \<Rightarrow> sampling_params \<Rightarrow> sampling_params result" where
  "normalize parse tk p =
     (let stops = strs_list (sm_stop_strs p); regexes = strs_list (sm_stop_regex_strs p) in
      rbind (regex_lens parse regexes) (\<lambda>lens.
      rbind (case min_new_tokens p of None \<Rightarrow> if tk = None \<and> stops = [] \<and> regexes = [] then Inl TypeError else Inr 0 | Some m \<Rightarrow> Inr m) (\<lambda>m.
      rbind (raise_if_tokenizer_required tk stops regexes m) (\<lambda>_.
      Inr (p\<lparr>sm_stop_strs := ManyStrs stops, sm_stop_str_max_len := foldl max 0 (map (stop_str_len tk) stops),
             sm_stop_regex_strs := ManyStrs regexes, sm_stop_regex_max_len := foldl max 0 lens,
             sm_stop := NoStrs, sm_stop_regex := NoStrs, is_normalized := True\<rparr>)))))"

section \<open>Accepted parameters\<close>

lemma check_Inr [simp]: "check x ok = Inr u \<longleftrightarrow> (\<exists>v. x = Some v \<and> ok v)"
  by (auto simp: check_def split: option.splits)

definition in_range :: "int \<Rightarrow> sampling_params \<Rightarrow> bool" where
  "in_range vocab_size p \<longleftrightarrow>
     (\<exists>t. temperature p = Some (Some t) \<and> 0 \<le> t) \<and> (\<exists>x. top_p p = Some (Some x) \<and> 0 < x \<and> x \<le> 1) \<and>
     (\<exists>x. min_p p = Some (Some x) \<and> 0 \<le> x \<and> x \<le> 1) \<and> (\<exists>k. top_k p = Some k \<and> 1 \<le> k) \<and>
     (\<exists>x. frequency_penalty p = Some (Some x) \<and> \<bar>x\<bar> \<le> 2) \<and> (\<exists>x. presence_penalty p = Some (Some x) \<and> \<bar>x\<bar> \<le> 2) \<and>
     (\<exists>x. repetition_penalty p = Some (Some x) \<and> 0 < x \<and> x \<le> 2) \<and>
     (\<exists>m. min_new_tokens p = Some m \<and> 0 \<le> m \<and> (\<forall>mx. sm_max_new_tokens p = Some mx \<longrightarrow> m \<le> mx)) \<and>
     (\<forall>ks. logit_bias p = Some ks \<longrightarrow> (\<forall>k \<in> set ks. \<exists>t. k = Some t \<and> 0 \<le> t \<and> t < vocab_size)) \<and>
     count_some [json_schema p, regex p, ebnf p] \<le> 1"

lemma finite_in_iff: "finite_in ok v \<longleftrightarrow> (\<exists>x. v = Some x \<and> ok x)"
  by (cases v) (simp_all add: finite_in_def)

lemma logit_ok: "(case k of None \<Rightarrow> False | Some t \<Rightarrow> 0 \<le> t \<and> t < vs) \<longleftrightarrow> (\<exists>t. k = Some t \<and> 0 \<le> t \<and> (t :: int) < vs)"
  by (cases k) simp_all

lemma verify_iff: "verify vocab_size p = Inr () \<longleftrightarrow> in_range vocab_size p"
proof -
  have mx: "(case sm_max_new_tokens p of None \<Rightarrow> Inr ()
      | Some mx \<Rightarrow> if mx < 0 then Inl ValueError else check (min_new_tokens p) (\<lambda>m. m \<le> mx)) = (Inr u :: unit result) \<longleftrightarrow>
      (\<forall>mx. sm_max_new_tokens p = Some mx \<longrightarrow> 0 \<le> mx \<and> (\<exists>m. min_new_tokens p = Some m \<and> m \<le> mx))"
    for u by (cases "sm_max_new_tokens p") auto
  have lb: "(case logit_bias p of None \<Rightarrow> Inr ()
      | Some ks \<Rightarrow> if \<forall>k \<in> set ks. (case k of None \<Rightarrow> False | Some t \<Rightarrow> 0 \<le> t \<and> t < vocab_size) then Inr () else Inl ValueError) = (Inr u :: unit result) \<longleftrightarrow>
      (\<forall>ks. logit_bias p = Some ks \<longrightarrow> (\<forall>k \<in> set ks. \<exists>t. k = Some t \<and> 0 \<le> t \<and> t < vocab_size))"
    for u unfolding logit_ok by (cases "logit_bias p") auto
  have gr: "(if 1 < count_some [json_schema p, regex p, ebnf p] then Inl ValueError else Inr ()) = (Inr u :: unit result) \<longleftrightarrow>
      count_some [json_schema p, regex p, ebnf p] \<le> 1" for u by auto
  have abs: "- 2 \<le> x \<and> x \<le> 2 \<longleftrightarrow> \<bar>x\<bar> \<le> 2" for x :: rat by (auto simp: abs_le_iff)
  show ?thesis
    unfolding verify_def rbind_eq_Inr_iff mx lb gr check_Inr finite_in_iff in_range_def abs
    by (auto simp: not_less)
qed

end
