(* ===== verification/Stop_Props.thy ===== *)
theory Stop_Props
  imports Finish_Props Sampling
begin

text \<open>
  Stop conditions end to end: the bound computed for a stop expression bounds its matches, and
  the tail the finish check decodes is long enough for the encoding of every stop string.
\<close>

section \<open>Matches of an expression\<close>

text \<open>
  The strings a parsed expression can match. Conditions on the place of a match are left out and
  an unhandled token may match anything, so every match of the library is among them; \<open>same\<close> tells
  which characters a literal accepts.
\<close>

inductive may_match :: "(char \<Rightarrow> char \<Rightarrow> bool) \<Rightarrow> sre \<Rightarrow> string \<Rightarrow> bool"
  and may_seq :: "(char \<Rightarrow> char \<Rightarrow> bool) \<Rightarrow> sre list \<Rightarrow> string \<Rightarrow> bool"
  for same where
  m_literal: "same c d \<Longrightarrow> may_match same (LITERAL c) [d]"
| m_in: "cs c \<Longrightarrow> may_match same (IN cs) [c]"
| m_any: "may_match same ANY [c]"
| m_subpattern: "may_seq same rs s \<Longrightarrow> may_match same (SUBPATTERN rs) s"
| m_branch: "rs \<in> set bs \<Longrightarrow> may_seq same rs s \<Longrightarrow> may_match same (BRANCH bs) s"
| m_max_repeat: "\<forall>s \<in> set ss. may_seq same rs s \<Longrightarrow> lo \<le> length ss \<Longrightarrow> (\<forall>h. hi = Some h \<longrightarrow> length ss \<le> h) \<Longrightarrow>
    may_match same (MAX_REPEAT lo hi rs) (concat ss)"
| m_min_repeat: "\<forall>s \<in> set ss. may_seq same rs s \<Longrightarrow> lo \<le> length ss \<Longrightarrow> (\<forall>h. hi = Some h \<longrightarrow> length ss \<le> h) \<Longrightarrow>
    may_match same (MIN_REPEAT lo hi rs) (concat ss)"
| m_at: "may_match same (AT a) []"
| m_unhandled: "may_match same UNHANDLED s"
| s_nil: "may_seq same [] []"
| s_cons: "may_match same r s \<Longrightarrow> may_seq same rs t \<Longrightarrow> may_seq same (r # rs) (s @ t)"

lemma may_seq_single: "may_match same r s \<Longrightarrow> may_seq same [r] s"
  using s_cons [of same r s "[]" "[]"] by (simp add: s_nil)

lemma length_concat_le:
  assumes "\<forall>s \<in> set ss. length s \<le> k" "length ss \<le> h"
  shows "length (concat ss) \<le> h * (k :: nat)"
proof -
  have "length (concat ss) \<le> length ss * k" using assms(1) by (induction ss) auto
  also have "\<dots> \<le> h * k" using assms(2) by simp
  finally show ?thesis .
qed

lemma repeat_bound:
  assumes "\<forall>s \<in> set ss. k < MAX_LEN \<longrightarrow> length s \<le> k" "length ss \<le> h" "h * k < MAX_LEN"
  shows "length (concat ss) \<le> h * k"
proof (cases "h = 0")
  case False
  then have "k \<le> h * k" by simp
  then have "k < MAX_LEN" using assms(3) by linarith
  then show ?thesis using assms(1,2) by (intro length_concat_le) auto
qed (use assms(2) in simp)

lemma max_length_bound:
  "may_match same r s \<Longrightarrow> max_length r < MAX_LEN \<Longrightarrow> length s \<le> max_length r"
  "may_seq same rs s \<Longrightarrow> sum_list (map max_length rs) < MAX_LEN \<Longrightarrow> length s \<le> sum_list (map max_length rs)"
proof (induction rule: may_match_may_seq.inducts)
  case (m_branch rs bs s)
  have "sum_list (map max_length rs) \<le> max_length (BRANCH bs)" using m_branch.hyps(1) by simp
  then show ?case using m_branch.IH m_branch.prems by linarith
next
  case (m_max_repeat ss rs lo hi)
  then show ?case by (cases hi) (auto intro: repeat_bound)
next
  case (m_min_repeat ss rs lo hi)
  then show ?case by (cases hi) (auto intro: repeat_bound)
qed auto

section \<open>The tail is long enough\<close>

lemma foldl_max_ge: "x \<in> set xs \<Longrightarrow> x \<le> foldl max a (xs :: nat list)"
proof -
  have ge: "a \<le> foldl max a ys" for a and ys :: "nat list"
  proof (induction ys arbitrary: a)
    case (Cons y ys)
    have "a \<le> max a y" by simp
    also have "\<dots> \<le> foldl max (max a y) ys" by (rule Cons)
    finally show ?case by simp
  qed simp
  assume "x \<in> set xs"
  then obtain as bs where "xs = as @ x # bs" by (meson split_list)
  then show ?thesis using ge [of "max (foldl max a as) x" bs] by simp
qed

text \<open>
  The tail holds the whole encoding of every stop string that ends in one of the new tokens, also
  when only its last token is new.
\<close>

lemma tail_covers:
  assumes n: "0 < n" "n \<le> length (output_ids r)" and s: "s \<in> set (stop_strs r)"
    and nm: "stop_str_max_len r = foldl max 0 (map (stop_str_len (Some e)) (stop_strs r))"
    and occ: "suffix (en_encode e s) (take k (output_ids r))" "length (output_ids r) - n < k" "k \<le> length (output_ids r)"
  shows "suffix (en_encode e s) (drop (length (output_ids r) - stop_match_tail_len r n) (take k (output_ids r)))"
proof -
  let ?out = "output_ids r" and ?tl = "stop_match_tail_len r n" and ?len = "length (en_encode e s)"
  let ?start = "length ?out - ?tl"
  have len: "?len \<le> stop_str_max_len r" using s unfolding nm by (intro foldl_max_ge) (auto simp: stop_str_len_def)
  have tl: "min (?len + n) (length ?out) \<le> ?tl" "?tl \<le> length ?out"
    using len n by (auto simp: stop_match_tail_len_def Let_def)
  have lk: "?len \<le> k" using suffix_length_le [OF occ(1)] occ(3) by simp
  have st: "?start \<le> k - ?len" using tl occ(2) lk n by (auto simp: min_def split: if_splits)
  obtain zs where zs: "take k ?out = zs @ en_encode e s" using occ(1) by (auto simp: suffix_def)
  then have "length zs + ?len = k" using occ(3) by (metis length_append length_take min.absorb2)
  then have "?start \<le> length zs" using st by linarith
  then show ?thesis by (simp add: zs suffix_def)
qed

lemma normalize_stop:
  assumes "normalize parse tk p = Inr q"
  shows "sm_stop_str_max_len q = foldl max 0 (map (stop_str_len tk) (strs_list (sm_stop_strs q)))"
    and "strs_list (sm_stop_strs q) = strs_list (sm_stop_strs p)"
  using assms by (auto simp: normalize_def Let_def rbind_eq_Inr_iff)

end
