(* ===== verification/Sched_Examples.thy ===== *)
theory Sched_Examples
  imports Req_Examples Admission Preemption Gate_Props Policy_Props Stop_Props
begin

text \<open>
  A scheduling pass on the prefix cache and the token allocator of theory \<open>Examples\<close>: two waiting
  requests, one of them without prefix, and two running requests of different priority.
\<close>

section \<open>The environment\<close>

lemma demo_radix_ok: "radix_ok TokenAllocator {#} (demo_token, demo1)"
proof -
  have "token_ready 8 demo_token" "placed (rc_page_size demo1) (tok.used demo_token) (\<lambda>_. True) (cached demo1)" "cache_inv demo1 {#}"
    using demo_token_sound by (simp_all add: tkr.sound_def)
  moreover have "ka_page_size demo_token = 1" by (simp add: demo_token_def token_init_def token_clear_def base_init_def)
  ultimately have "al.sound TokenAllocator demo1 {#} demo_token"
    by (auto simp: al.sound_def al_inv_def al_used_def token_ready_def placed_def page_blocks_def paged_whole_def)
  then show ?thesis by (auto simp: radix_ok_def demo1_shape)
qed

lemma demo_in_tree: "in_tree (demo_token, demo1) (Some 0)" "in_tree (demo_token, demo1) (Some 1)"
proof -
  have "reaches demo1 0 [] []" "reaches demo1 1 (map (Pair None) [Tok 1, Tok 2, Tok 3, Tok 4]) [4, 5, 6, 7]"
    by (simp_all add: demo1_reaches)
  then show "in_tree (demo_token, demo1) (Some 0)" "in_tree (demo_token, demo1) (Some 1)"
    unfolding in_tree_def prod.case by blast+
qed

section \<open>Requests and the adder\<close>

definition demo_waiting :: sched_req where
  "demo_waiting =
     \<lparr>origin_input_ids = [9, 8], output_ids = [], full_untruncated_fill_ids = [9, 8], fill_is_origin = True,
      extend_range_end = 0, req_extra_key = None, req_priority = Some 5, session_id = None, req_pool_idx = None,
      prefix_indices = [], last_node = Some 0, cache_protected_len = 0, kv_committed_len = 0, kv_allocated_len = 0,
      kv_committed_freed = False, kv_overallocated_freed = False, inflight_middle_chunks = 0, reasoning_tokens = 0,
      swa_evicted_seqlen = 0, swa_evict_floor = 0, skip_radix_cache_insert = False,
      return_logprob = False, logprob_start_len = - 1,
      rid = 3, max_new_tokens = 1, ignore_eos = False, host_hit_length = 0, swa_host_hit_length = 0,
      mamba_host_hit_length = 0, mamba_pool_idx = None, extend_range_start = 0, retracted_stain = False,
      wait_queue_entry_time = 0, req_finished = False,
      num_matched_prefix_tokens = 0, routing_key = None\<rparr>"

definition demo_running :: "sched_req list" where
  "demo_running =
     [demo_waiting\<lparr>rid := 1, max_new_tokens := 8, req_priority := Some 1\<rparr>,
      demo_waiting\<lparr>rid := 2, max_new_tokens := 4, req_priority := Some 7\<rparr>]"

definition demo_adder :: adder where
  "demo_adder =
     \<lparr>pa_page_size = 1, clip_max_new_tokens = 4096, new_token_ratio = 1, rem_input_tokens = 100, rem_chunk_tokens = Some 64,
      dllm_block_size = None, rem_dllm_tokens = 0, rem_total_token_offset = 0, cur_rem_token_offset = 0, rem_swa_token_offset = 0,
      is_hybrid_swa = False, is_all_swa = False, is_hybrid_ssm_cache = False, sliding_window_size = 0, mamba_slot_cost = 0,
      rem_mamba_slots = None, req_states = None, can_run_list = [], preempt_list = [], new_chunked_req = None,
      log_hit_tokens = 0, reprocessed_log_hit_tokens = 0, log_input_tokens = 0, reprocessed_log_input_tokens = 0,
      running_batch = None, preemption_threshold = 2, dsa_prefill_cp_in_seq_split = False, prefill_max_requests = None,
      delayer_allows = None\<rparr>"

definition busy_adder :: adder where
  "busy_adder = adder_init None 0 (demo_adder\<lparr>running_batch := Some demo_running\<rparr>)"

lemma demo_adder_ok:
  "adder_wf demo_adder" "charged demo_adder" "fits ops demo_adder st" "can_run_list demo_adder = []"
  "0 \<le> rem_total_token_offset demo_adder" "0 \<le> cur_rem_token_offset demo_adder"
  by (simp_all add: demo_adder_def adder_wf_def charged_def batch_need_def fits_def)

lemma demo_waiting_ok: "req_ok demo_waiting" "last_node demo_waiting = Some 0" "cand_extend_input_len demo_waiting = 2"
  by (simp_all add: demo_waiting_def req_ok_def needs_host_load_back_def cand_extend_input_len_def)

lemma demo_sizes: "available_and_evictable demo_adder (co_sizes (radix_ops TokenAllocator) (demo_token, demo1)) = 8"
  by (simp add: available_and_evictable_def demo_adder_def radix_ops_def token_available_size_def demo1_shape
      demo_token_def token_init_def token_clear_def base_init_def)

lemma demo_rem: "rem_total_tokens (radix_ops TokenAllocator) (demo_token, demo1) demo_adder = 8"
  unfolding rem_total_tokens_def demo_sizes by (simp add: demo_adder_def)

lemma demo_chunk: "rem_chunk_tokens demo_adder = Some 64" "\<not> is_hybrid_swa demo_adder"
  "0 < min 64 (py_int (rem_total_tokens (radix_ops TokenAllocator) (demo_token, demo1) demo_adder))"
  unfolding demo_rem by (simp_all add: demo_adder_def py_int_def)

lemma demo_pass:
  "\<exists>ad'. admits (radix_ops TokenAllocator) in_tree None ((demo_token, demo1), demo_adder) ((demo_token, demo1), ad') \<and>
    map extend_len (can_run_list ad') = [2] \<and> \<not> is_all_swa ad' \<and> \<not> is_hybrid_swa ad' \<and> \<not> is_hybrid_ssm_cache ad'"
proof -
  let ?ops = "radix_ops TokenAllocator" and ?st = "(demo_token, demo1)"
  let ?r = "set_extend_range 0 2 demo_waiting"
  let ?a = "admit ?r 0 2 1 demo_adder"
  have run: "add_chunked_req ?ops ?st demo_waiting demo_adder = Inr (False, ?r, ?a)"
    unfolding add_chunked_req_def demo_rem
    by (simp add: demo_adder_def demo_waiting_def py_int_def cand_extend_input_len_def set_extend_range_def extend_len_def Let_def)
  have "admits ?ops in_tree None (?st, demo_adder) (?st, ?a)"
    by (rule admits_chunked [OF admits_start demo_waiting_ok(1) demo_chunk(1,3,2) run])
  moreover have "map extend_len (can_run_list ?a) = [2]"
    by (simp add: demo_adder_ok extend_len_def set_extend_range_def)
  moreover have "\<not> is_all_swa ?a \<and> \<not> is_hybrid_swa ?a \<and> \<not> is_hybrid_ssm_cache ?a"
    by (simp add: admit_def update_prefill_budget_def Let_def demo_adder_def)
  ultimately show ?thesis by (elim conjE) (intro exI conjI)
qed

section \<open>Preemption\<close>

text \<open>The request with priority 5 needs 3 tokens, the budget is overdrawn by 4, and only the request with priority 1 may go.\<close>

lemma busy_shape: "running_batch busy_adder = Some demo_running" "distinct (map rid demo_running)"
  by (simp_all add: busy_adder_def adder_init_def demo_running_def)

lemma busy_offset: "get_running_request_total_token_offset busy_adder r = of_int (min (max_new_tokens r - int (length (output_ids r))) 4096)"
  by (simp add: get_running_request_total_token_offset_def busy_adder_def adder_init_def demo_adder_def)

lemma busy_rem: "rem_total_tokens (radix_ops TokenAllocator) (demo_token, demo1) busy_adder = - 4"
proof -
  have "available_and_evictable busy_adder z = available_and_evictable demo_adder z" for z
    by (simp add: available_and_evictable_def busy_adder_def adder_init_def)
  moreover have "rem_total_token_offset busy_adder = 12"
    by (simp add: busy_adder_def adder_init_def demo_adder_def demo_running_def demo_waiting_def get_running_request_total_token_offset_def)
  ultimately show ?thesis by (simp add: rem_total_tokens_def demo_sizes)
qed

lemma demo_preempt:
  "\<exists>ad'. preempt_to_schedule (radix_ops TokenAllocator) (\<lambda>r n st. Inr (r\<lparr>retracted_stain := True\<rparr>, st)) rev False (demo_token, demo1) demo_waiting busy_adder =
    Inr (True, ad', (demo_token, demo1)) \<and> map rid (preempt_list ad') = [1]"
proof -
  have c: "preempt_list busy_adder = []" "clip_max_new_tokens busy_adder = 4096" "preemption_threshold busy_adder = 2"
    by (simp_all add: busy_adder_def adder_init_def demo_adder_def)
  show ?thesis
    unfolding preempt_to_schedule_def busy_shape option.case busy_rem
    by (simp add: Let_def c busy_offset demo_running_def demo_waiting_def priority_of_def cand_extend_input_len_def)
qed

section \<open>The delayer\<close>

text \<open>Two ranks of which only one can prefill; at most two passes are delayed.\<close>

definition demo_delayer :: delayer where
  "demo_delayer = queue_delayer\<lparr>max_delay_passes := 3, queue_min_ratio := None, curr_state := None\<rparr>"

definition mixed_info :: "rank_info list" where
  "mixed_info = map (\<lambda>b. \<lparr>ri_prefillable = b, ri_force_allow = 0, ri_running_batch = 4, ri_max_prefill_bs = 2, ri_waiting_queue_len = 1\<rparr>) [1, 0]"

definition mixed_pass :: pass where
  "mixed_pass = (\<lambda>_. mixed_info, \<lambda>_. 7, queue_args)"

lemma mixed_status: "prefillable_status mixed_info = ''mixed''" "column_max ri_force_allow mixed_info = 0"
  by (simp_all add: prefillable_status_def column_max_def column_min_def mixed_info_def)

lemma mixed_run:
  "\<exists>o1 o2 o3 d'. run_passes ([mixed_pass, mixed_pass] @ [mixed_pass]) demo_delayer = ([o1, o2] @ [o3], d') \<and>
    \<not> output_allow o1 \<and> \<not> output_allow o2 \<and> input_estimation o3 = ''mixed''"
  by (simp add: mixed_pass_def negotiate_def negotiate_pure_def Let_def mixed_status demo_delayer_def queue_delayer_def
      delay_output_def release_output_def bump_delayed_count_def)

section \<open>The input blocker\<close>

lemma demo_blocked:
  "\<exists>b'. run_blocker [((\<lambda>x. x), [Plain_Req 1, BLOCK, Plain_Req 2]), ((\<lambda>x. False), [UNBLOCK, Plain_Req 3]), ((\<lambda>x. x), [Plain_Req (4 :: nat)])]
    (blocker_init False) = Inr ([1, 2, 3, 4], b')"
  by (simp add: blocker_init_def blocker_handle_def handle_recv_req_def execute_block_req_def execute_unblock_req_def change_state_def
      local_arrive_def poll_global_arrived_def handle_arrive_unblock_barrier_def Let_def py_assert_def)

lemma blocker_init_inv: "blocker_inv (blocker_init noop)"
  by (simp add: blocker_inv_def blocker_init_def)

section \<open>The order of the waiting queue\<close>

lemma demo1_protected: "rc_protected_size demo1 = 0"
  by (simp add: demo_eval radix_eval)

definition demo_queue :: "sched_req list" where
  "demo_queue = [demo_waiting, demo_waiting\<lparr>rid := 4, last_node := Some 1\<rparr>]"

lemma demo_queue_placed: "\<forall>r \<in> set demo_queue. placed_in demo1 r"
proof -
  have "reaches demo1 0 [] []" "reaches demo1 1 (map (Pair None) [Tok 1, Tok 2, Tok 3, Tok 4]) [4, 5, 6, 7]"
    by (simp_all add: demo1_reaches)
  then show ?thesis unfolding placed_in_def demo_queue_def by (auto simp: demo_waiting_def)
qed

definition demo_policy :: sched_policy where
  "demo_policy = \<lparr>sp_policy = DFS_WEIGHT, enable_priority_scheduling = True, schedule_low_priority_values_first = False,
     waiting_queue_radix_tree = demo0\<rparr>"

lemma demo_policy_ok: "policy_ok demo_policy"
  by (simp add: policy_ok_def demo_policy_def demo0_def demo_raw_def reset_rest)

section \<open>The end of a request\<close>

text \<open>Two of the three output tokens are new, and the first of them is a stop token.\<close>

definition demo_fin :: finish_req where
  "demo_fin = sched_req.extend (demo_waiting\<lparr>output_ids := [4, 7, 5], max_new_tokens := 9\<rparr>)
     (finish_req.fields [7] [] [] [] 0 0 100 [] None None None None [] None None [] 0)"

lemma demo_fin_sel: "output_ids demo_fin = [4, 7, 5]" "stop_token_ids demo_fin = [7]" "stop_strs demo_fin = []" "plain_step 2 demo_fin"
  "stop_regex_strs demo_fin = []" "\<not> ignore_eos demo_fin" "eos_token_ids demo_fin = []"
  by (simp_all add: demo_fin_def sched_req.defs finish_req.defs demo_waiting_def plain_step_def last_n_def)

definition no_tokenizer :: finish_env where
  "no_tokenizer = \<lparr>fe_tokenizer = None, re_search = (\<lambda>_ _. False)\<rparr>"

text \<open>Three new tokens, of which the first two complete the stop string.\<close>

definition letters :: tokenizer where
  "letters = \<lparr>tk_decode = map (\<lambda>t. if t = 1 then CHR ''a'' else if t = 2 then CHR ''b'' else CHR ''c''),
     eos_token_id = None, additional_stop_token_ids = []\<rparr>"

definition demo_str :: finish_req where
  "demo_str = sched_req.extend (demo_waiting\<lparr>output_ids := [3, 1, 2, 3], max_new_tokens := 9\<rparr>)
     (finish_req.fields [] [] [''ab''] [] 2 0 100 [] None None None None [] None None [] 0)"

lemma demo_str_sel: "output_ids demo_str = [3, 1, 2, 3]" "stop_strs demo_str = [''ab'']" "plain_step 3 demo_str" "decoded_text demo_str = []"
  "stop_match_tail_len demo_str 3 = 4"
  by (simp_all add: demo_str_def sched_req.defs finish_req.defs demo_waiting_def plain_step_def last_n_def stop_match_tail_len_def)

text \<open>The inverse of the decoder on the three letters, and parameters that stop at the string.\<close>

definition spell :: encoder where
  "spell = \<lparr>en_encode = map (\<lambda>c. if c = CHR ''a'' then 1 else if c = CHR ''b'' then 2 else 3)\<rparr>"

definition demo_sampling :: sampling_params where
  "demo_sampling = post_init
     \<lparr>sm_max_new_tokens = Some 9, sm_stop = OneStr ''ab'', sm_stop_token_ids = None, sm_stop_regex = NoStrs,
      temperature = Some (Some 0), top_p = None, top_k = None, min_p = None, frequency_penalty = None,
      presence_penalty = None, repetition_penalty = None, min_new_tokens = None, sm_n = None, json_schema = None,
      regex = None, ebnf = None, sm_ignore_eos = None, skip_special_tokens = None, spaces_between_special_tokens = None,
      no_stop_trim = None, logit_bias = None, sm_stop_strs = NoStrs, sm_stop_regex_strs = NoStrs,
      sm_stop_str_max_len = 0, sm_stop_regex_max_len = 0, is_normalized = False\<rparr>"

lemma demo_normalized:
  "\<exists>q. normalize (\<lambda>_. Inl ValueError) (Some spell) demo_sampling = Inr q \<and> stop_strs demo_str = strs_list (sm_stop_strs q) \<and>
     stop_str_max_len demo_str = sm_stop_str_max_len q"
  by (simp add: normalize_def demo_sampling_def post_init_def greedy_def SAMPLING_EPS_def or_default_def Let_def raise_if_tokenizer_required_def
      stop_str_len_def spell_def demo_str_def sched_req.defs finish_req.defs demo_waiting_def)

end
