(* ===== verification/Retract_Examples.thy ===== *)
theory Retract_Examples
  imports Decode_Step Sched_Examples
begin

text \<open>
  Two decoding requests on the empty prefix cache of theory \<open>Examples\<close>, each with one page of its
  own: the state on which the properties of retraction are instantiated.
\<close>

definition demo_run :: "nat \<Rightarrow> int list \<Rightarrow> int list \<Rightarrow> finish_req" where
  "demo_run i inp out = sched_req.extend
     (demo_waiting\<lparr>origin_input_ids := inp, output_ids := out, req_pool_idx := Some i, kv_committed_len := 2, kv_allocated_len := 2\<rparr>)
     (finish_req.fields [] [] [] [] 0 0 100 [] None None None None [] None None [] 0)"

definition demo_runs :: "finish_req list" where
  "demo_runs = [demo_run 1 [1] [2], demo_run 2 [3, 4] [5]]"

definition demo_plain :: server_args_spec where
  "demo_plain = demo_args\<lparr>speculative_algorithm := None\<rparr>"

definition demo_rows2 :: req_pool where
  "demo_rows2 = \<lparr>rp_size = 2, max_context_len = 4, req_to_token = [[0, 0, 0, 0], [4, 5, 0, 0], [6, 7, 0, 0]], free_slots = []\<rparr>"

definition demo_pages :: kv_alloc where
  "demo_pages = demo_paged\<lparr>ka_debug_mode := False\<rparr>"

definition demo_state :: kv_state where
  "demo_state = (demo_rows2, demo_pages, demo0)"

definition demo_conf :: alloc_conf where
  "demo_conf = alloc_conf demo_pages"

lemma demo_pages_facts: "al_inv PagedAllocator demo_pages" "al_used PagedAllocator demo_pages = {4, 5, 6, 7}" "paged_whole demo_pages = paged_whole demo_paged"
  "ka_page_size demo_pages = 2" "\<not> ka_debug_mode demo_pages" "al_available_size PagedAllocator demo_pages = 12"
proof -
  show "al_inv PagedAllocator demo_pages"
    using demo_al_inv by (simp add: demo_pages_def al_inv_def paged_inv_def paged_pages_def pending_def)
  show "al_used PagedAllocator demo_pages = {4, 5, 6, 7}"
    using demo_paged_used by (simp add: demo_pages_def al_used_def pgd.used_def paged_univ_def paged_slots_def paged_pages_def pending_def split: if_splits)
  show "paged_whole demo_pages = paged_whole demo_paged" by (simp add: demo_pages_def paged_whole_def fun_eq_iff)
qed (simp_all add: demo_pages_def demo_paged_def paged_init_def paged_clear_def base_init_def base_available_size_def)

lemmas run_eval = demo_run_def demo_waiting_def demo_plain_def demo_args_def demo_rows2_def sched_req.defs finish_req.defs req.defs

lemma demo0_locked2: "cache_inv demo0 {#0, 0#}"
proof -
  have "inc_lock_ref 0 demo0 = Inr (0, demo0)"
    using demo0_inv(2) by (simp add: inc_lock_ref_def inc_lock_loop.simps demo0_shape)
  moreover have "\<exists>u w. reaches demo0 0 u w" using at_root [of demo0] by (auto simp: demo0_shape)
  ultimately show ?thesis using lock_inv [OF demo0_locked, of 0] demo0_inv(2) by auto
qed

lemma demo_state_sound: "alk.sound PagedAllocator demo_conf demo0 {#0, 0#} demo_pages"
  using placed_empty [of 2] by (simp add: alk.sound_def demo0_locked2 demo_pages_facts demo0_inv(3) demo0_shape demo_conf_def)

lemma demo_page: "paged_cover demo_pages {4, 5} = {4, 5}" "paged_cover demo_pages {6, 7} = {6, 7}"
  by (simp_all add: al.cover_whole demo_paged_whole demo_pages_facts)

lemma demo_run_slots: "req_slots demo_rows2 (demo_run 1 i1 o1) = [4, 5]" "req_slots demo_rows2 (demo_run 2 i2 o2) = [6, 7]"
  by (simp_all add: req_slots_def run_eval numeral_2_eq_2)

lemma demo_run_prot: "cache_protected_len (demo_run k i x) = 0"
  by (simp add: run_eval)

lemma demo_run_held:
  assumes kv: "req_slots demo_rows2 (demo_run k i x) = [b, b + 1]" "paged_whole demo_pages {b, b + 1}" "{b, b + 1} \<subseteq> {4, 5, 6, 7}"
    and ev: "even b" and k: "k < 3" and l: "2 \<le> length i + length x"
  shows "req_held PagedAllocator demo_plain (demo_rows2, demo_pages, demo0) (demo_run k i x)"
proof -
  let ?r = "demo_run k i x"
  have f: "cache_protected_len ?r = 0" "last_node ?r = Some 0" "req_pool_idx ?r = Some k" "\<not> kv_committed_freed ?r"
    "\<not> kv_overallocated_freed ?r" by (simp_all add: run_eval)
  have c: "cache_commit_len (strip_thinking_cache demo_plain) (req.truncate ?r) = 2" "seqlen (req.truncate ?r) = length i + length x"
    by (simp_all add: run_eval cache_commit_len_def seqlen_def)
  have "lens_ok demo_plain demo_rows2 ?r" using kv(1) l unfolding lens_ok_def c Let_def by (simp add: run_eval)
  moreover have "reaches demo0 0 [] []" using at_root [of demo0] by (simp add: demo0_shape)
  moreover have "page_blocks 2 (paged_whole demo_pages) 0 [b, b + 1]"
    using kv(2) by (auto simp: page_blocks_def slice_def le_Suc_eq)
  moreover have "al.same_page demo_pages 2 0 [b, b + 1]"
  proof -
    have "[b, b + 1] ! i div 2 = b div 2" if "i < 2" for i using that ev by (auto simp: less_2_cases_iff)
    then show ?thesis by (simp add: al.same_page_def paged_cover_def page_slots_def demo_pages_facts)
  qed
  moreover have "paged_cover demo_pages {b, b + 1} \<subseteq> {4, 5, 6, 7}" using al.cover_whole [OF kv(2)] kv(3) by simp
  ultimately show ?thesis using k
    by (auto simp: req_held_def f kv(1) demo0_shape al.exclusive_def demo_pages_facts owned_demo0) (simp add: run_eval)
qed

lemma demo_state_held: "radix_held PagedAllocator demo_conf id demo_plain {#} [] {} demo_state (mset demo_runs)"
proof -
  have h: "req_held PagedAllocator demo_plain (demo_rows2, demo_pages, demo0) (demo_run 1 [1] [2])"
    "req_held PagedAllocator demo_plain (demo_rows2, demo_pages, demo0) (demo_run 2 [3, 4] [5])"
    using demo_run_held [of 1 "[1]" "[2]" 4] demo_run_held [of 2 "[3, 4]" "[5]" 6] demo_run_slots demo_paged_whole demo_pages_facts(3) by simp_all
  have own: "own_slots demo_rows2 demo_pages (demo_run 1 i1 o1) = {4, 5}" "own_slots demo_rows2 demo_pages (demo_run 2 i2 o2) = {6, 7}" for i1 i2 o1 o2
    using demo_run_slots demo_page by (simp_all add: own_slots_def demo_run_prot)
  have "own_slots demo_rows2 demo_pages r \<inter> own_slots demo_rows2 demo_pages s = {}" if "mset demo_runs = add_mset r R" "s \<in># R" for r s R
    using that by (auto simp: demo_runs_def add_eq_conv_ex own own [unfolded One_nat_def])
  moreover have "\<exists>rows. mset rows = image_mset (\<lambda>r. the (req_pool_idx r)) (mset demo_runs) \<and> rows_inv demo_rows2 (rows @ [])"
    by (rule exI [of _ "[1, 2]"]) (simp add: demo_runs_def run_eval rows_inv_def alloc_size_def upt_rec)
  moreover have "{#} + image_mset (\<lambda>r. the (last_node r)) (mset demo_runs) = {#0, 0#}"
    by (simp add: demo_runs_def run_eval)
  moreover have "\<forall>r \<in># mset demo_runs. req_held PagedAllocator demo_plain (demo_rows2, demo_pages, demo0) r" using h by (simp add: demo_runs_def)
  moreover have "al_used PagedAllocator demo_pages - owned demo0 - (\<Union>r \<in> set_mset (mset demo_runs). own_slots demo_rows2 demo_pages r) = {}"
    by (auto simp: demo_runs_def own own [unfolded One_nat_def] demo_pages_facts owned_demo0)
  moreover have "sa_page_size demo_plain = rc_page_size demo0" "speculative_algorithm demo_plain = None" by (simp_all add: demo_plain_def demo_args_def demo0_shape)
  ultimately show ?thesis
    using demo_state_sound demo0_inv(2) demo0_shape demo_pages_facts(4) unfolding radix_held_def demo_state_def prod.case
    by (intro conjI) simp_all
qed

lemma demo_order: "retract_order False demo_runs = [0, 1]"
  by (simp add: retract_order_def demo_runs_def run_eval)

lemma demo_check: "check_decode_mem (radix_decode_env PagedAllocator id demo_plain has_draft_kv steps) demo_runs None demo_state = Inr (True, demo_state)"
proof -
  have "kv_committed_len (demo_run k i x) = 2" for k i x by (simp add: run_eval)
  then show ?thesis
    by (simp add: check_decode_mem_def new_tokens_required_next_decode_def select_reqs_def radix_decode_env_def demo_state_def demo_runs_def
        evict_from_tree_cache_def demo_pages_facts [unfolded al_available_size.simps] demo_plain_def demo_args_def)
qed

lemma demo_runs_fit: "\<forall>r \<in> set demo_runs. decode_ready 2 demo_rows2 r" "\<forall>r \<in> set demo_runs. 0 \<le> max_new_tokens r"
  by (simp_all add: demo_runs_def run_eval decode_ready_def)

lemma demo_plain_facts: "speculative_algorithm demo_plain = None" "sa_page_size demo_plain = 2"
  by (simp_all add: demo_plain_def demo_args_def)

lemma demo_runs_facts: "map (\<lambda>r. the (req_pool_idx r)) demo_runs = [1, 2]" "map kv_committed_len demo_runs = [2, 2]"
  by (simp_all add: demo_runs_def run_eval)

end
