(* ===== verification/Lru_List.thy ===== *)
theory Lru_List
  imports Prelude
begin

text \<open>
  Least-recently-used orders: the interface \<open>recency\<close> of a store that keeps its keys in the order
  of their last use, and class \<^verbatim>\<open>LRUList\<close> of \<^verbatim>\<open>mem_cache/swa_radix_cache.py\<close>, a doubly linked list
  between two dummy nodes, which implements it.
\<close>

section \<open>Stores ordered by last use\<close>

lemma remdups_snoc: "remdups (xs @ [k]) = filter (\<lambda>x. x \<noteq> k) (remdups xs) @ [k]"
  by (induction xs) auto

text \<open>\<open>order\<close> lists the keys, the one used last first.\<close>

locale recency =
  fixes inv :: "'s \<Rightarrow> bool" and order :: "'s \<Rightarrow> 'k list" and touch :: "'k \<Rightarrow> 's \<Rightarrow> 's result"
  assumes order_distinct: "inv s \<Longrightarrow> distinct (order s)"
    and touch_ok: "inv s \<Longrightarrow> k \<in> set (order s) \<Longrightarrow> \<exists>s'. touch k s = Inr s' \<and> inv s' \<and> order s' = k # remove1 k (order s)"
begin

text \<open>A sequence of uses: the used keys come first, by their last use, the others keep their order.\<close>

lemma touches_ok:
  "inv s \<Longrightarrow> set ks \<subseteq> set (order s) \<Longrightarrow> \<exists>s'. rfold touch ks s = Inr s' \<and> inv s' \<and>
     order s' = rev (remdups ks) @ filter (\<lambda>k. k \<notin> set ks) (order s)"
proof (induction ks rule: rev_induct)
  case (snoc k ks)
  obtain s1 where s1: "rfold touch ks s = Inr s1" "inv s1" "order s1 = rev (remdups ks) @ filter (\<lambda>x. x \<notin> set ks) (order s)"
    using snoc by auto
  have "k \<in> set (order s1)" using snoc.prems s1(3) by auto
  from touch_ok [OF s1(2) this] obtain s2 where
    s2: "touch k s1 = Inr s2" "inv s2" "order s2 = k # remove1 k (order s1)" by blast
  have "remove1 k (order s1) = filter (\<lambda>x. x \<noteq> k) (order s1)"
    using order_distinct [OF s1(2)] by (simp add: distinct_remove1_removeAll removeAll_filter_not_eq eq_commute)
  also have "\<dots> = rev (filter (\<lambda>x. x \<noteq> k) (remdups ks)) @ filter (\<lambda>x. x \<notin> set (ks @ [k])) (order s)"
    unfolding s1(3) by (auto simp: rev_filter intro: filter_cong)
  finally show ?case using s1(1) s2 by (simp add: rfold_append remdups_snoc)
qed simp

end

section \<open>The doubly linked list\<close>

text \<open>
  A node is its number. \<open>lru_prv\<close> and \<open>lru_nxt\<close> are the two attributes of the node objects the list
  uses, \<open>lru_cache\<close> the keys of its dictionary. What the list reads of the other attributes of a
  node (lock count, tombstone flag, children, parent, length of the value) is the record \<open>node_info\<close>.
\<close>

record lru_list =
  is_swa_list :: bool
  lru_head :: nat
  lru_tail :: nat
  lru_cache :: "nat list"
  lru_prv :: "nat \<Rightarrow> nat option"
  lru_nxt :: "nat \<Rightarrow> nat option"

record node_info =
  ni_tombstone :: "nat \<Rightarrow> bool"
  ni_lock_ref :: "nat \<Rightarrow> int"
  ni_children :: "nat \<Rightarrow> nat"
  ni_parent :: "nat \<Rightarrow> nat option"
  ni_value_len :: "nat \<Rightarrow> nat"

text \<open>\<open>counter\<close> is the number of the next node to be made: the constructor makes two of them.\<close>

definition lru_init :: "bool \<Rightarrow> nat \<Rightarrow> lru_list \<times> nat" where
  "lru_init is_swa counter =
     (let head = counter; tail = counter + 1 in
      (\<lparr>is_swa_list = is_swa, lru_head = head, lru_tail = tail, lru_cache = [],
        lru_prv = (\<lambda>_. None)(tail := Some head), lru_nxt = (\<lambda>_. None)(head := Some tail)\<rparr>, counter + 2))"

definition lru_set_prv :: "nat option \<Rightarrow> nat option \<Rightarrow> lru_list \<Rightarrow> lru_list result" where
  "lru_set_prv n v l = (case n of None \<Rightarrow> Inl AttributeError | Some k \<Rightarrow> Inr (l\<lparr>lru_prv := (lru_prv l)(k := v)\<rparr>))"

definition lru_set_nxt :: "nat option \<Rightarrow> nat option \<Rightarrow> lru_list \<Rightarrow> lru_list result" where
  "lru_set_nxt n v l = (case n of None \<Rightarrow> Inl AttributeError | Some k \<Rightarrow> Inr (l\<lparr>lru_nxt := (lru_nxt l)(k := v)\<rparr>))"

definition lru_add_node_after :: "nat \<Rightarrow> nat \<Rightarrow> lru_list \<Rightarrow> lru_list result" where
  "lru_add_node_after old_node new_node l =
     rbind (lru_set_prv (Some new_node) (Some old_node) l) (\<lambda>l.
     rbind (lru_set_nxt (Some new_node) (lru_nxt l old_node) l) (\<lambda>l.
     rbind (lru_set_prv (lru_nxt l old_node) (Some new_node) l) (\<lambda>l.
     lru_set_nxt (Some old_node) (Some new_node) l)))"

definition lru_add_node :: "nat \<Rightarrow> lru_list \<Rightarrow> lru_list result" where
  "lru_add_node node l = lru_add_node_after (lru_head l) node l"

definition lru_unlink :: "nat \<Rightarrow> lru_list \<Rightarrow> lru_list result" where
  "lru_unlink node l =
     rbind (lru_set_nxt (lru_prv l node) (lru_nxt l node) l) (\<lambda>l.
     rbind (lru_set_prv (lru_nxt l node) (lru_prv l node) l) (\<lambda>l.
     rbind (lru_set_prv (Some node) None l) (\<lambda>l.
     lru_set_nxt (Some node) None l)))"

definition get_lru :: "lru_list \<Rightarrow> nat option" where
  "get_lru l = (if lru_cache l = [] then None else lru_prv l (lru_tail l))"

definition reset_node_mru :: "node_info \<Rightarrow> nat \<Rightarrow> lru_list \<Rightarrow> lru_list result" where
  "reset_node_mru ni node l =
     rbind (py_assert (node \<in> set (lru_cache l))) (\<lambda>_.
     rbind (py_assert (\<not> is_swa_list l \<or> \<not> ni_tombstone ni node)) (\<lambda>_.
     rbind (lru_unlink node l) (\<lambda>l. lru_add_node node l)))"

text \<open>The parent of the last node is \<^verbatim>\<open>None\<close>, which has no attributes.\<close>

fun reset_parents_loop :: "nat \<Rightarrow> node_info \<Rightarrow> nat \<Rightarrow> nat \<Rightarrow> nat option \<Rightarrow> lru_list \<Rightarrow> lru_list result" where
  "reset_parents_loop 0 ni root prev_node node l = Inl OutOfFuel"
| "reset_parents_loop (Suc fuel) ni root prev_node node l =
     (if node = Some root then Inr l
      else case node of
        None \<Rightarrow> Inl AttributeError
      | Some n \<Rightarrow>
          if \<not> is_swa_list l \<or> \<not> ni_tombstone ni n
          then rbind (py_assert (n \<in> set (lru_cache l))) (\<lambda>_.
               rbind (lru_unlink n l) (\<lambda>l1.
               rbind (lru_add_node_after prev_node n l1) (\<lambda>l2.
               reset_parents_loop fuel ni root n (ni_parent ni n) l2)))
          else reset_parents_loop fuel ni root prev_node (ni_parent ni n) l)"

definition reset_node_and_parents_mru :: "nat \<Rightarrow> node_info \<Rightarrow> nat \<Rightarrow> nat \<Rightarrow> lru_list \<Rightarrow> lru_list result" where
  "reset_node_and_parents_mru fuel ni node root l = reset_parents_loop fuel ni root (lru_head l) (Some node) l"

definition insert_mru :: "node_info \<Rightarrow> nat \<Rightarrow> lru_list \<Rightarrow> lru_list result" where
  "insert_mru ni node l =
     rbind (py_assert (\<not> is_swa_list l \<or> \<not> ni_tombstone ni node)) (\<lambda>_.
     rbind (py_assert (node \<notin> set (lru_cache l))) (\<lambda>_.
     lru_add_node node (l\<lparr>lru_cache := lru_cache l @ [node]\<rparr>)))"

definition lru_remove_node :: "node_info \<Rightarrow> nat \<Rightarrow> lru_list \<Rightarrow> lru_list result" where
  "lru_remove_node ni node l =
     rbind (py_assert (node \<in> set (lru_cache l))) (\<lambda>_.
     rbind (py_assert (\<not> is_swa_list l \<or> \<not> ni_tombstone ni node)) (\<lambda>_.
     lru_unlink node (l\<lparr>lru_cache := remove1 node (lru_cache l)\<rparr>)))"

text \<open>
  The walks towards the head stop at the first node that is not skipped. The dummy head is
  itself a node, neither locked nor with children.
\<close>

fun skip_prev :: "nat \<Rightarrow> (nat \<Rightarrow> bool) \<Rightarrow> nat option \<Rightarrow> lru_list \<Rightarrow> nat result" where
  "skip_prev 0 skipped x l = Inl OutOfFuel"
| "skip_prev (Suc fuel) skipped x l =
     (case x of
        None \<Rightarrow> Inl AttributeError
      | Some n \<Rightarrow> if skipped n then skip_prev fuel skipped (lru_prv l n) l else Inr n)"

definition prev_unskipped :: "(nat \<Rightarrow> bool) \<Rightarrow> nat \<Rightarrow> bool \<Rightarrow> lru_list \<Rightarrow> nat option result" where
  "prev_unskipped skipped node check_id l =
     rbind (if check_id then py_assert (node \<in> set (lru_cache l)) else Inr ()) (\<lambda>_.
     rbind (skip_prev (length (lru_cache l) + 2) skipped (lru_prv l node) l) (\<lambda>x.
     Inr (if x = lru_head l then None else Some x)))"

definition get_prev_no_lock :: "node_info \<Rightarrow> nat \<Rightarrow> bool \<Rightarrow> lru_list \<Rightarrow> nat option result" where
  "get_prev_no_lock ni node check_id l = prev_unskipped (\<lambda>x. 0 < ni_lock_ref ni x) node check_id l"

definition get_prev_leaf_no_lock :: "node_info \<Rightarrow> nat \<Rightarrow> bool \<Rightarrow> lru_list \<Rightarrow> nat option result" where
  "get_prev_leaf_no_lock ni node check_id l = prev_unskipped (\<lambda>x. 0 < ni_lock_ref ni x \<or> 0 < ni_children ni x) node check_id l"

definition get_lru_no_lock :: "node_info \<Rightarrow> lru_list \<Rightarrow> nat option result" where
  "get_lru_no_lock ni l = get_prev_no_lock ni (lru_tail l) False l"

definition get_leaf_lru_no_lock :: "node_info \<Rightarrow> lru_list \<Rightarrow> nat option result" where
  "get_leaf_lru_no_lock ni l = get_prev_leaf_no_lock ni (lru_tail l) False l"

definition in_list :: "nat option \<Rightarrow> lru_list \<Rightarrow> bool" where
  "in_list node l = (case node of None \<Rightarrow> False | Some n \<Rightarrow> n \<in> set (lru_cache l))"

fun evictable_size_loop :: "nat \<Rightarrow> node_info \<Rightarrow> nat option \<Rightarrow> nat \<Rightarrow> lru_list \<Rightarrow> nat result" where
  "evictable_size_loop 0 ni node evictable_size l = Inl OutOfFuel"
| "evictable_size_loop (Suc fuel) ni node evictable_size l =
     (case node of
        None \<Rightarrow> Inr evictable_size
      | Some n \<Rightarrow>
          if n \<in> set (lru_cache l)
          then rbind (get_prev_no_lock ni n True l) (\<lambda>node'.
               evictable_size_loop fuel ni node' (evictable_size + ni_value_len ni n) l)
          else Inr evictable_size)"

definition sanity_check_evictable_size :: "node_info \<Rightarrow> lru_list \<Rightarrow> nat result" where
  "sanity_check_evictable_size ni l =
     rbind (get_lru_no_lock ni l) (\<lambda>node. evictable_size_loop (Suc (length (lru_cache l))) ni node 0 l)"

end
