(* ===== verification/Lru_Props.thy ===== *)
theory Lru_Props
  imports Lru_List
begin

text \<open>
  The linked list refines a list: every operation on the pointers is the corresponding operation
  on the list of the nodes between the dummies, the one used last first.
\<close>

section \<open>Chains of nodes\<close>

fun linked :: "lru_list \<Rightarrow> nat list \<Rightarrow> bool" where
  "linked l (a # b # zs) \<longleftrightarrow> lru_nxt l a = Some b \<and> lru_prv l b = Some a \<and> linked l (b # zs)"
| "linked l _ \<longleftrightarrow> True"

lemma linked_Cons: "linked l (a # xs @ b # ys) \<Longrightarrow> lru_nxt l a = Some (hd (xs @ [b]))"
  by (cases xs) auto

lemma linked_append: "linked l (xs @ a # ys) \<longleftrightarrow> linked l (xs @ [a]) \<and> linked l (a # ys)"
proof (induction xs)
  case (Cons x xs)
  then show ?case by (cases xs) auto
qed simp

lemma linked_nxt_upd [simp]:
  "a \<notin> set (butlast xs) \<Longrightarrow> linked (l\<lparr>lru_nxt := (lru_nxt l)(a := v)\<rparr>) xs \<longleftrightarrow> linked l xs"
  by (induction l xs rule: linked.induct) auto

lemma linked_prv_upd [simp]:
  "a \<notin> set (tl xs) \<Longrightarrow> linked (l\<lparr>lru_prv := (lru_prv l)(a := v)\<rparr>) xs \<longleftrightarrow> linked l xs"
  by (induction l xs rule: linked.induct) auto

lemma linked_cong:
  assumes "\<And>a. a \<in> set (butlast xs) \<Longrightarrow> lru_nxt l a = lru_nxt l' a" "\<And>a. a \<in> set (tl xs) \<Longrightarrow> lru_prv l a = lru_prv l' a"
  shows "linked l xs \<longleftrightarrow> linked l' xs"
  using assms
proof (induction l xs rule: linked.induct)
  case (1 l a b zs)
  have "linked l (b # zs) \<longleftrightarrow> linked l' (b # zs)" using 1(2,3) by (intro 1(1)) (auto split: if_splits)
  then show ?case using 1(2) [of a] 1(3) [of b] by simp
qed simp_all

lemma unlink_chain:
  assumes ch: "linked l (as @ p # n # x # bs)" and d: "distinct (as @ p # n # x # bs)"
  shows "\<exists>l'. lru_unlink n l = Inr l' \<and> linked l' (as @ p # x # bs) \<and>
    l' = l\<lparr>lru_nxt := (lru_nxt l)(p := Some x, n := None), lru_prv := (lru_prv l)(x := Some p, n := None)\<rparr>"
proof -
  let ?l = "l\<lparr>lru_nxt := (lru_nxt l)(p := Some x, n := None), lru_prv := (lru_prv l)(x := Some p, n := None)\<rparr>"
  have l: "linked l (as @ [p])" "lru_nxt l p = Some n" "lru_prv l n = Some p" "lru_nxt l n = Some x" "linked l (x # bs)"
    using ch linked_append [of l as p "n # x # bs"] by simp_all
  have "lru_unlink n l = Inr ?l" using l d by (simp add: lru_unlink_def lru_set_prv_def lru_set_nxt_def)
  moreover have "linked ?l (as @ [p])" using l(1) d
    by (subst linked_cong [of _ _ l]) (auto simp: tl_append split: list.splits)
  moreover have "linked ?l (x # bs)" using l(5) d by (subst linked_cong [of _ _ l]) (auto dest: in_set_butlastD split: if_splits)
  ultimately show ?thesis using linked_append [of ?l as p "x # bs"] d by simp
qed

lemma add_after_chain:
  assumes ch: "linked l (as @ p # x # bs)" and d: "distinct (as @ p # n # x # bs)"
  shows "\<exists>l'. lru_add_node_after p n l = Inr l' \<and> linked l' (as @ p # n # x # bs) \<and>
    l' = l\<lparr>lru_prv := (lru_prv l)(n := Some p, x := Some n), lru_nxt := (lru_nxt l)(n := Some x, p := Some n)\<rparr>"
proof -
  let ?l = "l\<lparr>lru_prv := (lru_prv l)(n := Some p, x := Some n), lru_nxt := (lru_nxt l)(n := Some x, p := Some n)\<rparr>"
  have l: "linked l (as @ [p])" "lru_nxt l p = Some x" "linked l (x # bs)"
    using ch linked_append [of l as p "x # bs"] by simp_all
  have "lru_add_node_after p n l = Inr ?l" using l d by (simp add: lru_add_node_after_def lru_set_prv_def lru_set_nxt_def)
  moreover have "linked ?l (as @ [p])" using l(1) d
    by (subst linked_cong [of _ _ l]) (auto simp: tl_append split: list.splits)
  moreover have "linked ?l (x # bs)" using l(3) d by (subst linked_cong [of _ _ l]) (auto dest: in_set_butlastD split: if_splits)
  ultimately show ?thesis using linked_append [of ?l as p "n # x # bs"] d by simp
qed

section \<open>The abstraction\<close>

definition lru_ok :: "lru_list \<Rightarrow> nat list \<Rightarrow> bool" where
  "lru_ok l xs \<longleftrightarrow> linked l (lru_head l # xs @ [lru_tail l]) \<and> distinct (lru_head l # xs @ [lru_tail l]) \<and>
     distinct (lru_cache l) \<and> set (lru_cache l) = set xs"

text \<open>The nodes in the order of the \<^verbatim>\<open>next\<close> pointers.\<close>

fun follow :: "nat \<Rightarrow> lru_list \<Rightarrow> nat \<Rightarrow> nat list" where
  "follow 0 l n = []"
| "follow (Suc k) l n = (case lru_nxt l n of None \<Rightarrow> [] | Some m \<Rightarrow> m # follow k l m)"

definition lru_order :: "lru_list \<Rightarrow> nat list" where
  "lru_order l = follow (length (lru_cache l)) l (lru_head l)"

lemma follow_linked: "linked l (n # xs @ ys) \<Longrightarrow> follow (length xs) l n = xs"
  by (induction xs arbitrary: n) auto

lemma lru_ok_length: "lru_ok l xs \<Longrightarrow> length (lru_cache l) = length xs"
  by (simp add: lru_ok_def) (metis distinct_card)

lemma lru_order_eq: "lru_ok l xs \<Longrightarrow> lru_order l = xs"
  unfolding lru_order_def lru_ok_length by (auto simp: lru_ok_def intro: follow_linked)

lemma lru_init_ok: "lru_ok (fst (lru_init b counter)) []"
  by (simp add: lru_init_def lru_ok_def)

section \<open>The operations\<close>

lemma lru_okE:
  assumes "lru_ok l xs" "n \<in> set xs"
  obtains as bs p ps x qs where "xs = as @ n # bs" "n \<notin> set as" "n \<notin> set bs" "lru_head l # as = ps @ [p]" "bs @ [lru_tail l] = x # qs"
proof -
  obtain as bs where s: "xs = as @ n # bs" using assms(2) by (meson split_list)
  moreover have "n \<notin> set as" "n \<notin> set bs" using assms(1) s by (auto simp: lru_ok_def)
  moreover obtain ps p where "lru_head l # as = ps @ [p]" by (metis list.discI rev_exhaust)
  moreover obtain x qs where "bs @ [lru_tail l] = x # qs" by (cases bs) auto
  ultimately show ?thesis using that by blast
qed

lemma unlink_ok:
  assumes ok: "lru_ok l xs" and n: "n \<in> set xs"
  shows "\<exists>l'. lru_unlink n l = Inr l' \<and> linked l' (lru_head l # remove1 n xs @ [lru_tail l]) \<and>
    lru_head l' = lru_head l \<and> lru_tail l' = lru_tail l \<and> lru_cache l' = lru_cache l \<and> is_swa_list l' = is_swa_list l"
proof -
  obtain as bs p ps x qs where s: "xs = as @ n # bs" "n \<notin> set as" "lru_head l # as = ps @ [p]" "bs @ [lru_tail l] = x # qs"
    using lru_okE [OF ok n] by metis
  have e: "lru_head l # xs @ [lru_tail l] = ps @ p # n # x # qs" "lru_head l # remove1 n xs @ [lru_tail l] = ps @ p # x # qs"
    using s(3,4) by (simp_all add: s(1,2) remove1_append)
  show ?thesis using unlink_chain [of l ps p n x qs] ok unfolding lru_ok_def e by auto
qed

lemma add_after_ok:
  assumes ch: "linked l (as @ p # x # bs)" and d: "distinct (as @ p # n # x # bs)"
  shows "\<exists>l'. lru_add_node_after p n l = Inr l' \<and> linked l' (as @ p # n # x # bs) \<and>
    lru_head l' = lru_head l \<and> lru_tail l' = lru_tail l \<and> lru_cache l' = lru_cache l \<and> is_swa_list l' = is_swa_list l"
  using add_after_chain [OF assms] by auto

lemma add_node_ok:
  assumes ok: "linked l (lru_head l # xs @ [lru_tail l])" "distinct (lru_head l # n # xs @ [lru_tail l])"
  shows "\<exists>l'. lru_add_node n l = Inr l' \<and> linked l' (lru_head l # n # xs @ [lru_tail l]) \<and>
    lru_head l' = lru_head l \<and> lru_tail l' = lru_tail l \<and> lru_cache l' = lru_cache l \<and> is_swa_list l' = is_swa_list l"
proof -
  obtain x qs where x: "xs @ [lru_tail l] = x # qs" by (cases xs) auto
  show ?thesis using add_after_ok [of l "[]" "lru_head l" x qs n] ok unfolding lru_add_node_def x by auto
qed

lemma linked_cache_upd [simp]: "linked (l\<lparr>lru_cache := c\<rparr>) xs \<longleftrightarrow> linked l xs"
  by (induction l xs rule: linked.induct) auto

text \<open>A list for the sliding window holds no tombstones.\<close>

definition lru_inv :: "node_info \<Rightarrow> lru_list \<Rightarrow> bool" where
  "lru_inv ni l \<longleftrightarrow> lru_ok l (lru_order l) \<and> (is_swa_list l \<longrightarrow> (\<forall>n \<in> set (lru_order l). \<not> ni_tombstone ni n))"

lemma lru_invI:
  "lru_ok l xs \<Longrightarrow> (is_swa_list l \<Longrightarrow> \<forall>n \<in> set xs. \<not> ni_tombstone ni n) \<Longrightarrow> lru_inv ni l \<and> lru_order l = xs"
  by (simp add: lru_inv_def lru_order_eq)

text \<open>Moving a node behind the first nodes \<open>front\<close> of the list.\<close>

lemma move_after_ok:
  assumes inv: "lru_inv ni l" and xs: "lru_order l = front @ rest" and n: "n \<in> set rest"
  shows "\<exists>l1 l2. lru_unlink n l = Inr l1 \<and> lru_add_node_after (last (lru_head l # front)) n l1 = Inr l2 \<and> lru_head l1 = lru_head l \<and>
    lru_inv ni l2 \<and> lru_order l2 = front @ n # remove1 n rest \<and> lru_head l2 = lru_head l \<and>
    is_swa_list l2 = is_swa_list l \<and> lru_cache l2 = lru_cache l"
proof -
  have ok: "lru_ok l (front @ rest)" and tomb: "is_swa_list l \<longrightarrow> (\<forall>n \<in> set (front @ rest). \<not> ni_tombstone ni n)"
    using inv xs by (simp_all add: lru_inv_def)
  have nf: "n \<notin> set front" "n \<noteq> lru_head l" "n \<noteq> lru_tail l" using ok n by (auto simp: lru_ok_def)
  obtain l1 where l1: "lru_unlink n l = Inr l1" "linked l1 (lru_head l # (front @ remove1 n rest) @ [lru_tail l])"
    "lru_head l1 = lru_head l" "lru_tail l1 = lru_tail l" "lru_cache l1 = lru_cache l" "is_swa_list l1 = is_swa_list l"
    using unlink_ok [OF ok, of n] n nf(1) by (auto simp: remove1_append)
  obtain ps p where p: "lru_head l # front = ps @ [p]" by (metis list.discI rev_exhaust)
  obtain x qs where x: "remove1 n rest @ [lru_tail l] = x # qs" by (cases "remove1 n rest") auto
  have d: "distinct (lru_head l # front @ n # remove1 n rest @ [lru_tail l])"
    using ok nf n by (auto simp: lru_ok_def dest: notin_set_remove1)
  have eq: "lru_head l # front @ n # remove1 n rest @ [lru_tail l] = ps @ p # n # x # qs"
    "lru_head l # (front @ remove1 n rest) @ [lru_tail l] = ps @ p # x # qs" "last (lru_head l # front) = p"
    using arg_cong [OF p, of "\<lambda>ys. ys @ n # remove1 n rest @ [lru_tail l]"] arg_cong [OF p, of "\<lambda>ys. ys @ remove1 n rest @ [lru_tail l]"]
    by (simp_all only: x p last_snoc append_Cons append_assoc append_Nil) (simp_all add: p)
  obtain l2 where l2: "lru_add_node_after p n l1 = Inr l2" "linked l2 (ps @ p # n # x # qs)"
    "lru_head l2 = lru_head l" "lru_tail l2 = lru_tail l" "lru_cache l2 = lru_cache l" "is_swa_list l2 = is_swa_list l"
    using add_after_ok [of l1 ps p x qs n] l1 d unfolding eq by auto
  have "lru_ok l2 (front @ n # remove1 n rest)"
    using l2 d ok n unfolding eq(1) [symmetric] by (auto simp: lru_ok_def)
  then have "lru_inv ni l2 \<and> lru_order l2 = front @ n # remove1 n rest"
    using tomb n l2(6) by (intro lru_invI) (auto dest: notin_set_remove1)
  then show ?thesis using l1 l2 eq(3) by blast
qed

lemma reset_node_mru_ok:
  assumes inv: "lru_inv ni l" and n: "n \<in> set (lru_order l)"
  shows "\<exists>l'. reset_node_mru ni n l = Inr l' \<and> lru_inv ni l' \<and> lru_order l' = n # remove1 n (lru_order l) \<and>
    is_swa_list l' = is_swa_list l"
proof -
  obtain l1 l2 where l: "lru_unlink n l = Inr l1" "lru_add_node_after (lru_head l) n l1 = Inr l2" "lru_head l1 = lru_head l" "lru_inv ni l2"
    "lru_order l2 = n # remove1 n (lru_order l)" "is_swa_list l2 = is_swa_list l"
    using move_after_ok [OF inv, of "[]" "lru_order l" n] n by auto
  have "n \<in> set (lru_cache l)" "is_swa_list l \<longrightarrow> \<not> ni_tombstone ni n" using inv n by (auto simp: lru_inv_def lru_ok_def)
  then have "reset_node_mru ni n l = Inr l2" using l(1-3) by (auto simp: reset_node_mru_def lru_add_node_def py_assert_def)
  then show ?thesis using l(4-6) by blast
qed

text \<open>The nodes from a node up to the root, which is left out.\<close>

primrec parent_chain :: "node_info \<Rightarrow> nat \<Rightarrow> nat option \<Rightarrow> nat list \<Rightarrow> bool" where
  "parent_chain ni root n [] \<longleftrightarrow> n = Some root"
| "parent_chain ni root n (k # ks) \<longleftrightarrow> n = Some k \<and> k \<noteq> root \<and> parent_chain ni root (ni_parent ni k) ks"

lemma reset_parents_ok:
  assumes "parent_chain ni root node ns" "distinct ns" "length ns < fuel" "lru_inv ni l" "lru_order l = front @ rest"
    and "set (filter (\<lambda>n. is_swa_list l \<longrightarrow> \<not> ni_tombstone ni n) ns) \<subseteq> set rest"
  shows "\<exists>l'. reset_parents_loop fuel ni root (last (lru_head l # front)) node l = Inr l' \<and> lru_inv ni l' \<and>
    lru_order l' = front @ filter (\<lambda>n. is_swa_list l \<longrightarrow> \<not> ni_tombstone ni n) ns @
      filter (\<lambda>n. n \<notin> set (filter (\<lambda>n. is_swa_list l \<longrightarrow> \<not> ni_tombstone ni n) ns)) rest"
  using assms
proof (induction ns arbitrary: node fuel l front rest)
  case Nil
  then show ?case by (cases fuel) auto
next
  case (Cons n ns)
  obtain f where f: "fuel = Suc f" using Cons.prems(3) by (cases fuel) auto
  have n: "node = Some n" "n \<noteq> root" "parent_chain ni root (ni_parent ni n) ns" using Cons.prems(1) by simp_all
  let ?keep = "\<lambda>n. is_swa_list l \<longrightarrow> \<not> ni_tombstone ni n"
  show ?case
  proof (cases "?keep n")
    case True
    then have nr: "n \<in> set rest" using Cons.prems(6) by simp
    have dr: "distinct rest" using Cons.prems(4,5) by (auto simp: lru_inv_def lru_ok_def)
    have c: "n \<in> set (lru_cache l)" using Cons.prems(4,5) nr by (auto simp: lru_inv_def lru_ok_def)
    obtain l1 l2 where m: "lru_unlink n l = Inr l1" "lru_add_node_after (last (lru_head l # front)) n l1 = Inr l2"
      "lru_inv ni l2" "lru_order l2 = (front @ [n]) @ remove1 n rest" "lru_head l2 = lru_head l" "is_swa_list l2 = is_swa_list l"
      using move_after_ok [OF Cons.prems(4,5) nr] by auto
    have "set (filter (\<lambda>n. is_swa_list l2 \<longrightarrow> \<not> ni_tombstone ni n) ns) \<subseteq> set (remove1 n rest)"
      using Cons.prems(2,6) m(6) dr True by (auto simp: set_remove1_eq)
    from Cons.IH [OF n(3) _ _ m(3,4) this, of f] obtain l' where
      l': "reset_parents_loop f ni root n (ni_parent ni n) l2 = Inr l'" "lru_inv ni l'"
      "lru_order l' = (front @ [n]) @ filter ?keep ns @ filter (\<lambda>x. x \<notin> set (filter ?keep ns)) (remove1 n rest)"
      using Cons.prems(2,3) f m(5,6) by auto
    have "filter (\<lambda>x. x \<notin> set (filter ?keep ns)) (remove1 n rest) = filter (\<lambda>x. x \<notin> set (filter ?keep (n # ns))) rest"
      using True dr by (auto simp: distinct_remove1_removeAll removeAll_filter_not_eq intro: filter_cong)
    then show ?thesis using l' True m(1,2) n(1,2) c by (auto simp: f py_assert_def)
  next
    case False
    then show ?thesis using Cons.IH [OF n(3) _ _ Cons.prems(4,5), of f] Cons.prems(2,3,6) n(1,2) by (simp add: f)
  qed
qed

lemma insert_mru_ok:
  assumes inv: "lru_inv ni l" and n: "n \<notin> set (lru_order l)" "n \<noteq> lru_head l" "n \<noteq> lru_tail l" "is_swa_list l \<longrightarrow> \<not> ni_tombstone ni n"
  shows "\<exists>l'. insert_mru ni n l = Inr l' \<and> lru_inv ni l' \<and> lru_order l' = n # lru_order l \<and> is_swa_list l' = is_swa_list l"
proof -
  let ?xs = "lru_order l" and ?l = "l\<lparr>lru_cache := lru_cache l @ [n]\<rparr>"
  have ok: "lru_ok l ?xs" and tomb: "is_swa_list l \<longrightarrow> (\<forall>n \<in> set ?xs. \<not> ni_tombstone ni n)" using inv by (simp_all add: lru_inv_def)
  have d: "distinct (lru_head ?l # n # ?xs @ [lru_tail ?l])" using ok n by (auto simp: lru_ok_def)
  obtain l2 where l2: "lru_add_node n ?l = Inr l2" "linked l2 (lru_head l # n # ?xs @ [lru_tail l])"
    "lru_head l2 = lru_head l" "lru_tail l2 = lru_tail l" "lru_cache l2 = lru_cache l @ [n]" "is_swa_list l2 = is_swa_list l"
    using add_node_ok [of ?l ?xs n] ok d by (auto simp: lru_ok_def)
  have "lru_ok l2 (n # ?xs)" using l2 d ok n by (auto simp: lru_ok_def)
  then have "lru_inv ni l2 \<and> lru_order l2 = n # ?xs" using tomb n l2(6) by (intro lru_invI) auto
  moreover have "insert_mru ni n l = Inr l2" using l2(1) ok n by (auto simp: insert_mru_def lru_ok_def py_assert_def)
  ultimately show ?thesis using l2(6) by blast
qed

lemma lru_remove_node_ok:
  assumes inv: "lru_inv ni l" and n: "n \<in> set (lru_order l)"
  shows "\<exists>l'. lru_remove_node ni n l = Inr l' \<and> lru_inv ni l' \<and> lru_order l' = remove1 n (lru_order l) \<and> is_swa_list l' = is_swa_list l"
proof -
  let ?xs = "lru_order l" and ?l = "l\<lparr>lru_cache := remove1 n (lru_cache l)\<rparr>"
  have ok: "lru_ok l ?xs" and tomb: "is_swa_list l \<longrightarrow> (\<forall>n \<in> set ?xs. \<not> ni_tombstone ni n)" using inv by (simp_all add: lru_inv_def)
  obtain l1 where l1: "lru_unlink n l = Inr l1" "linked l1 (lru_head l # remove1 n ?xs @ [lru_tail l])"
    "lru_head l1 = lru_head l" "lru_tail l1 = lru_tail l" "is_swa_list l1 = is_swa_list l"
    using unlink_ok [OF ok n] by blast
  let ?l1 = "l1\<lparr>lru_cache := remove1 n (lru_cache l)\<rparr>"
  have "lru_unlink n ?l = Inr ?l1"
    using l1(1) by (auto simp: lru_unlink_def lru_set_prv_def lru_set_nxt_def split: option.splits)
  moreover have "lru_ok ?l1 (remove1 n ?xs)"
    using l1 ok by (auto simp: lru_ok_def dest: notin_set_remove1)
  then have "lru_inv ni ?l1 \<and> lru_order ?l1 = remove1 n ?xs" using tomb l1(5) by (intro lru_invI) (auto dest: notin_set_remove1)
  moreover have "n \<in> set (lru_cache l)" "is_swa_list l \<longrightarrow> \<not> ni_tombstone ni n" using ok n tomb by (auto simp: lru_ok_def)
  ultimately show ?thesis using l1(5) by (auto simp: lru_remove_node_def py_assert_def)
qed

text \<open>\<^verbatim>\<open>LRUList\<close> is a store ordered by last use.\<close>

interpretation lru: recency "lru_inv ni" lru_order "reset_node_mru ni" for ni
proof
  show "distinct (lru_order l)" if "lru_inv ni l" for l using that by (auto simp: lru_inv_def lru_ok_def)
qed (use reset_node_mru_ok in blast)

section \<open>Walks towards the recent end\<close>

lemma skip_prev_ok:
  "linked l (h # as @ [n]) \<Longrightarrow> \<not> skipped h \<Longrightarrow> Suc (length as) < fuel \<Longrightarrow>
   skip_prev fuel skipped (lru_prv l n) l = Inr (case find (\<lambda>x. \<not> skipped x) (rev as) of None \<Rightarrow> h | Some x \<Rightarrow> x)"
proof (induction as arbitrary: n fuel rule: rev_induct)
  case Nil
  then show ?case by (cases fuel) auto
next
  case (snoc a as)
  obtain f where f: "fuel = Suc f" using snoc.prems(3) by (cases fuel) auto
  have l: "linked l (h # as @ [a])" "lru_prv l n = Some a"
    using linked_append [of l "h # as" a "[n]"] snoc.prems(1) by simp_all
  then show ?case using snoc.IH [OF l(1) snoc.prems(2), of f] snoc.prems(3) by (simp add: f)
qed

lemma prev_unskipped_ok:
  assumes ok: "lru_ok l xs" and n: "n \<in> set (lru_cache l) \<or> \<not> check_id" and sp: "xs @ [lru_tail l] = as @ n # bs" and h: "\<not> skipped (lru_head l)"
  shows "prev_unskipped skipped n check_id l = Inr (find (\<lambda>x. \<not> skipped x) (rev as))"
proof -
  have "linked l (lru_head l # as @ n # bs)" using ok sp by (simp add: lru_ok_def)
  then have l: "linked l (lru_head l # as @ [n])" using linked_append [of l "lru_head l # as" n bs] by simp
  have "length as \<le> length xs" using arg_cong [OF sp, of length] by simp
  then have "skip_prev (length (lru_cache l) + 2) skipped (lru_prv l n) l =
      Inr (case find (\<lambda>x. \<not> skipped x) (rev as) of None \<Rightarrow> lru_head l | Some x \<Rightarrow> x)"
    using skip_prev_ok [OF l, of skipped] h lru_ok_length [OF ok] by (simp del: skip_prev.simps)
  moreover have "lru_head l \<notin> set as"
    using ok arg_cong [OF sp, of set] by (auto simp: lru_ok_def)
  then have "find (\<lambda>x. \<not> skipped x) (rev as) \<noteq> Some (lru_head l)" by (metis find_Some_iff nth_mem set_rev)
  ultimately show ?thesis using n by (auto simp: prev_unskipped_def py_assert_def split: option.splits)
qed

text \<open>The dummy head is never skipped.\<close>

definition head_plain :: "node_info \<Rightarrow> lru_list \<Rightarrow> bool" where
  "head_plain ni l \<longleftrightarrow> ni_lock_ref ni (lru_head l) = 0 \<and> ni_children ni (lru_head l) = 0"

lemma get_prev_no_lock_ok:
  assumes "lru_inv ni l" "head_plain ni l" "lru_order l = as @ n # bs"
  shows "get_prev_no_lock ni n True l = Inr (find (\<lambda>x. ni_lock_ref ni x \<le> 0) (rev as))"
proof -
  have ok: "lru_ok l (lru_order l)" using assms(1) by (simp add: lru_inv_def)
  moreover have "n \<in> set (lru_cache l)" using ok assms(3) by (simp add: lru_ok_def)
  ultimately show ?thesis unfolding get_prev_no_lock_def
    using assms(2,3) prev_unskipped_ok [OF ok, of n True as "bs @ [lru_tail l]" "\<lambda>x. 0 < ni_lock_ref ni x"]
    by (simp add: head_plain_def not_less)
qed

lemma get_lru_no_lock_ok:
  assumes "lru_inv ni l" "head_plain ni l"
  shows "get_lru_no_lock ni l = Inr (find (\<lambda>x. ni_lock_ref ni x \<le> 0) (rev (lru_order l)))"
    and "get_leaf_lru_no_lock ni l = Inr (find (\<lambda>x. ni_lock_ref ni x \<le> 0 \<and> ni_children ni x = 0) (rev (lru_order l)))"
proof -
  have ok: "lru_ok l (lru_order l)" using assms(1) by (simp add: lru_inv_def)
  show "get_lru_no_lock ni l = Inr (find (\<lambda>x. ni_lock_ref ni x \<le> 0) (rev (lru_order l)))"
    unfolding get_lru_no_lock_def get_prev_no_lock_def
    using assms(2) prev_unskipped_ok [OF ok, of "lru_tail l" False "lru_order l" "[]" "\<lambda>x. 0 < ni_lock_ref ni x"]
    by (simp add: head_plain_def not_less)
  show "get_leaf_lru_no_lock ni l = Inr (find (\<lambda>x. ni_lock_ref ni x \<le> 0 \<and> ni_children ni x = 0) (rev (lru_order l)))"
    unfolding get_leaf_lru_no_lock_def get_prev_leaf_no_lock_def
    using assms(2) prev_unskipped_ok [OF ok, of "lru_tail l" False "lru_order l" "[]" "\<lambda>x. 0 < ni_lock_ref ni x \<or> 0 < ni_children ni x"]
    by (simp add: head_plain_def not_less)
qed

lemma find_rev_split:
  assumes "find Q (rev as) = Some x"
  shows "\<exists>bs cs. as = bs @ x # cs \<and> Q x \<and> (\<forall>c \<in> set cs. \<not> Q c)"
  using assms
proof (induction as rule: rev_induct)
  case (snoc a as)
  show ?case
  proof (cases "Q a")
    case True
    then show ?thesis using snoc.prems by (intro exI [of _ as] exI [of _ "[]"]) simp
  next
    case False
    then obtain bs cs where "as = bs @ x # cs" "Q x" "\<forall>c \<in> set cs. \<not> Q c" using snoc by auto
    then show ?thesis using False by (intro exI [of _ bs] exI [of _ "cs @ [a]"]) auto
  qed
qed simp

lemma evictable_size_loop_ok:
  assumes "lru_inv ni l" "head_plain ni l" "lru_order l = as @ bs" "length as < fuel"
  shows "evictable_size_loop fuel ni (find (\<lambda>x. ni_lock_ref ni x \<le> 0) (rev as)) acc l =
    Inr (acc + sum_list (map (ni_value_len ni) (filter (\<lambda>x. ni_lock_ref ni x \<le> 0) as)))"
  using assms(3,4)
proof (induction fuel arbitrary: as bs acc)
  case (Suc fuel)
  let ?Q = "\<lambda>x. ni_lock_ref ni x \<le> 0"
  show ?case
  proof (cases "find ?Q (rev as)")
    case None
    then have "filter ?Q as = []" by (auto simp: find_None_iff filter_empty_conv)
    then show ?thesis using None by simp
  next
    case (Some x)
    then obtain cs ds where x: "as = cs @ x # ds" "?Q x" "\<forall>d \<in> set ds. \<not> ?Q d" using find_rev_split [of ?Q as x] by blast
    have "x \<in> set (lru_cache l)" using assms(1) Suc.prems(1) x(1) by (auto simp: lru_inv_def lru_ok_def)
    moreover have "get_prev_no_lock ni x True l = Inr (find ?Q (rev cs))"
      using Suc.prems(1) x(1) by (intro get_prev_no_lock_ok [OF assms(1,2), of _ _ "ds @ bs"]) simp
    moreover have "filter ?Q as = filter ?Q cs @ [x]" using x by (auto simp: filter_empty_conv)
    ultimately show ?thesis
      using Some Suc.IH [of cs "x # ds @ bs" "acc + ni_value_len ni x"] Suc.prems x(1) by simp
  qed
qed simp

lemma evictable_size_ok:
  assumes "lru_inv ni l" "head_plain ni l"
  shows "sanity_check_evictable_size ni l = Inr (sum_list (map (ni_value_len ni) (filter (\<lambda>x. ni_lock_ref ni x \<le> 0) (lru_order l))))"
proof -
  have "length (lru_cache l) = length (lru_order l)" using assms(1) by (simp add: lru_inv_def lru_ok_length)
  then show ?thesis unfolding sanity_check_evictable_size_def get_lru_no_lock_ok(1) [OF assms] rbind_simps
    using evictable_size_loop_ok [OF assms, of "lru_order l" "[]" "Suc (length (lru_cache l))" 0] by (simp del: evictable_size_loop.simps)
qed

section \<open>An example\<close>

text \<open>Three nodes under the root 0, of which the last one used and the oldest one are locked.\<close>

definition demo_lru :: lru_list where
  "demo_lru = \<lparr>is_swa_list = True, lru_head = 10, lru_tail = 11, lru_cache = [2, 3, 1],
     lru_prv = [1 \<mapsto> 10, 2 \<mapsto> 1, 3 \<mapsto> 2, 11 \<mapsto> 3], lru_nxt = [10 \<mapsto> 1, 1 \<mapsto> 2, 2 \<mapsto> 3, 3 \<mapsto> 11]\<rparr>"

definition demo_info :: node_info where
  "demo_info = \<lparr>ni_tombstone = (\<lambda>_. False), ni_lock_ref = (\<lambda>n. if n = 3 then 1 else 0), ni_children = (\<lambda>n. if n = 2 then 1 else 0),
     ni_parent = [3 \<mapsto> 2, 2 \<mapsto> 0, 1 \<mapsto> 0], ni_value_len = (\<lambda>n. n + 3)\<rparr>"

lemma demo_lru_ok: "lru_inv demo_info demo_lru" "lru_order demo_lru = [1, 2, 3]" "head_plain demo_info demo_lru" "lru_head demo_lru = 10" "lru_tail demo_lru = 11"
proof -
  have "lru_ok demo_lru [1, 2, 3]" by (auto simp: lru_ok_def demo_lru_def)
  then show "lru_inv demo_info demo_lru" "lru_order demo_lru = [1, 2, 3]" using lru_invI [of demo_lru "[1, 2, 3]" demo_info] by (simp_all add: demo_info_def)
qed (simp_all add: head_plain_def demo_info_def demo_lru_def)

end
