(* ===== verification/Swa_Lock.thy ===== *)
theory Swa_Lock
  imports Lru_Props
begin

text \<open>
  The lock protocol of \<^verbatim>\<open>SWARadixCache\<close> (\<^verbatim>\<open>mem_cache/swa_radix_cache.py\<close>): a request locks the full cache of
  all nodes from its last node up to the root, and the sliding-window cache of those that reach back over
  one window, marked by a uuid at the node where the window is full. The window lock can be given up early.
\<close>

section \<open>The tree\<close>

text \<open>
  A node is its number. \<open>st_counter\<close> is the number of nodes made so far, the fuel of walks to the root;
  of the children only their number matters here. The lists of last use are those of theory \<open>Lru_List\<close>.
\<close>

record swa_tree =
  st_root :: nat
  st_disable :: bool
  sliding_window_size :: nat
  st_counter :: nat
  st_parent :: "nat \<Rightarrow> nat option"
  st_children :: "nat \<Rightarrow> nat"
  st_value :: "nat \<Rightarrow> int list"
  swa_tombstone :: "nat \<Rightarrow> bool"
  full_lock_ref :: "nat \<Rightarrow> int"
  swa_lock_ref :: "nat \<Rightarrow> int"
  swa_uuid :: "nat \<Rightarrow> nat option"
  swa_uuid_counter :: nat
  full_evictable_size :: int
  full_protected_size :: int
  swa_evictable_size :: int
  swa_protected_size :: int
  swa_lru :: lru_list

abbreviation value_len :: "swa_tree \<Rightarrow> nat \<Rightarrow> int" where
  "value_len s n \<equiv> int (length (st_value s n))"

definition gen_swa_uuid :: "swa_tree \<Rightarrow> nat \<times> swa_tree" where
  "gen_swa_uuid s = (let k = swa_uuid_counter s + 1 in (k, s\<lparr>swa_uuid_counter := k\<rparr>))"

section \<open>Locking\<close>

definition lock_full :: "nat \<Rightarrow> swa_tree \<Rightarrow> swa_tree result" where
  "lock_full n s =
     rbind (py_assert (0 \<le> full_lock_ref s n)) (\<lambda>_.
     let s1 = (if full_lock_ref s n = 0
               then s\<lparr>full_evictable_size := full_evictable_size s - value_len s n, full_protected_size := full_protected_size s + value_len s n\<rparr>
               else s)
     in Inr (s1\<lparr>full_lock_ref := (full_lock_ref s)(n := full_lock_ref s n + 1)\<rparr>))"

definition lock_swa :: "nat \<Rightarrow> swa_tree \<Rightarrow> swa_tree result" where
  "lock_swa n s =
     rbind (py_assert (\<not> swa_tombstone s n)) (\<lambda>_.
     let s1 = (if swa_lock_ref s n = 0
               then s\<lparr>swa_evictable_size := swa_evictable_size s - value_len s n, swa_protected_size := swa_protected_size s + value_len s n\<rparr>
               else s)
     in Inr (s1\<lparr>swa_lock_ref := (swa_lock_ref s)(n := swa_lock_ref s n + 1)\<rparr>))"

definition mark_window_end :: "nat \<Rightarrow> swa_tree \<Rightarrow> nat option \<times> swa_tree" where
  "mark_window_end n s =
     (case swa_uuid s n of
        None \<Rightarrow> (let (k, s1) = gen_swa_uuid s in (Some k, s1\<lparr>swa_uuid := (swa_uuid s1)(n := Some k)\<rparr>))
      | Some k \<Rightarrow> (Some k, s))"

fun inc_loop :: "nat \<Rightarrow> nat option \<Rightarrow> nat \<Rightarrow> nat option \<Rightarrow> swa_tree \<Rightarrow> (nat option \<times> swa_tree) result" where
  "inc_loop 0 node swa_lock_size uuid s = Inl OutOfFuel"
| "inc_loop (Suc fuel) node swa_lock_size uuid s =
     (if node = Some (st_root s) then Inr (uuid, s)
      else case node of
        None \<Rightarrow> Inl AttributeError
      | Some n \<Rightarrow>
          rbind (lock_full n s) (\<lambda>s1.
          if swa_lock_size < sliding_window_size s1
          then rbind (lock_swa n s1) (\<lambda>s2.
               let locked = swa_lock_size + length (st_value s2 n);
                   (uuid', s3) = (if sliding_window_size s2 \<le> locked then mark_window_end n s2 else (uuid, s2))
               in inc_loop fuel (st_parent s3 n) locked uuid' s3)
          else inc_loop fuel (st_parent s1 n) swa_lock_size uuid s1))"

definition swa_inc_lock_ref :: "nat \<Rightarrow> swa_tree \<Rightarrow> (nat option \<times> swa_tree) result" where
  "swa_inc_lock_ref node s = (if st_disable s then Inr (None, s) else inc_loop (Suc (st_counter s)) (Some node) 0 None s)"

section \<open>Unlocking\<close>

definition unlock_full :: "nat \<Rightarrow> swa_tree \<Rightarrow> swa_tree result" where
  "unlock_full n s =
     rbind (py_assert (0 < full_lock_ref s n)) (\<lambda>_.
     let s1 = (if full_lock_ref s n = 1
               then s\<lparr>full_evictable_size := full_evictable_size s + value_len s n, full_protected_size := full_protected_size s - value_len s n\<rparr>
               else s)
     in Inr (s1\<lparr>full_lock_ref := (full_lock_ref s)(n := full_lock_ref s n - 1)\<rparr>))"

definition unlock_swa :: "nat \<Rightarrow> swa_tree \<Rightarrow> swa_tree result" where
  "unlock_swa n s =
     rbind (py_assert (\<not> swa_tombstone s n)) (\<lambda>_.
     rbind (py_assert (0 < swa_lock_ref s n)) (\<lambda>_.
     let s1 = (if swa_lock_ref s n = 1
               then s\<lparr>swa_evictable_size := swa_evictable_size s + value_len s n, swa_protected_size := swa_protected_size s - value_len s n\<rparr>
               else s)
     in Inr (s1\<lparr>swa_lock_ref := (swa_lock_ref s)(n := swa_lock_ref s n - 1)\<rparr>)))"

text \<open>\<open>swa_uuid_for_lock and node.swa_uuid == swa_uuid_for_lock\<close>: a missing uuid and zero never stop the walk.\<close>

definition ends_window :: "swa_tree \<Rightarrow> nat option \<Rightarrow> nat \<Rightarrow> bool" where
  "ends_window s uuid n \<longleftrightarrow> uuid \<noteq> None \<and> uuid \<noteq> Some 0 \<and> swa_uuid s n = uuid"

fun dec_loop :: "nat \<Rightarrow> nat option \<Rightarrow> nat option \<Rightarrow> bool \<Rightarrow> swa_tree \<Rightarrow> swa_tree result" where
  "dec_loop 0 node uuid dec_lock_swa s = Inl OutOfFuel"
| "dec_loop (Suc fuel) node uuid dec_lock_swa s =
     (if node = Some (st_root s) then Inr s
      else case node of
        None \<Rightarrow> Inl AttributeError
      | Some n \<Rightarrow>
          rbind (unlock_full n s) (\<lambda>s1.
          if dec_lock_swa
          then rbind (unlock_swa n s1) (\<lambda>s2. dec_loop fuel (st_parent s2 n) uuid (\<not> ends_window s2 uuid n) s2)
          else dec_loop fuel (st_parent s1 n) uuid False s1))"

definition swa_dec_lock_ref :: "nat \<Rightarrow> nat option \<Rightarrow> bool \<Rightarrow> swa_tree \<Rightarrow> swa_tree result" where
  "swa_dec_lock_ref node uuid skip_swa s =
     (if st_disable s then Inr s else dec_loop (Suc (st_counter s)) (Some node) uuid (\<not> skip_swa) s)"

text \<open>What the list of the sliding-window cache sees of a node.\<close>

definition swa_info :: "swa_tree \<Rightarrow> node_info" where
  "swa_info s = \<lparr>ni_tombstone = swa_tombstone s, ni_lock_ref = swa_lock_ref s, ni_children = st_children s, ni_parent = st_parent s,
     ni_value_len = (\<lambda>n. length (st_value s n))\<rparr>"

definition release_window_node ::
  "('al \<Rightarrow> int list \<Rightarrow> 'al result) \<Rightarrow> nat \<Rightarrow> swa_tree \<Rightarrow> 'al \<Rightarrow> (swa_tree \<times> 'al) result" where
  "release_window_node free_swa n s a =
     rbind (py_assert (\<not> swa_tombstone s n)) (\<lambda>_.
     rbind (py_assert (0 < swa_lock_ref s n)) (\<lambda>_.
     rbind (if swa_lock_ref s n = 1
            then let s1 = s\<lparr>swa_protected_size := swa_protected_size s - value_len s n\<rparr> in
                 if st_children s n = 0
                 then rbind (free_swa a (st_value s n)) (\<lambda>a1.
                      rbind (lru_remove_node (swa_info s1) n (swa_lru s1)) (\<lambda>l.
                      Inr (s1\<lparr>swa_lru := l, swa_tombstone := (swa_tombstone s)(n := True)\<rparr>, a1)))
                 else Inr (s1\<lparr>swa_evictable_size := swa_evictable_size s + value_len s n\<rparr>, a)
            else Inr (s, a)) (\<lambda>(s2, a2).
     Inr (s2\<lparr>swa_lock_ref := (swa_lock_ref s)(n := swa_lock_ref s n - 1)\<rparr>, a2))))"

fun dec_swa_loop ::
  "('al \<Rightarrow> int list \<Rightarrow> 'al result) \<Rightarrow> nat \<Rightarrow> nat option \<Rightarrow> nat option \<Rightarrow> swa_tree \<Rightarrow> 'al \<Rightarrow> (swa_tree \<times> 'al) result" where
  "dec_swa_loop free_swa 0 node uuid s a = Inl OutOfFuel"
| "dec_swa_loop free_swa (Suc fuel) node uuid s a =
     (if node = Some (st_root s) then Inr (s, a)
      else case node of
        None \<Rightarrow> Inl AttributeError
      | Some n \<Rightarrow>
          rbind (release_window_node free_swa n s a) (\<lambda>(s1, a1).
          if ends_window s1 uuid n then Inr (s1, a1) else dec_swa_loop free_swa fuel (st_parent s1 n) uuid s1 a1))"

definition dec_swa_lock_only ::
  "('al \<Rightarrow> int list \<Rightarrow> 'al result) \<Rightarrow> nat \<Rightarrow> nat option \<Rightarrow> swa_tree \<Rightarrow> 'al \<Rightarrow> (swa_tree \<times> 'al) result" where
  "dec_swa_lock_only free_swa node uuid s a =
     (if st_disable s then Inr (s, a) else dec_swa_loop free_swa (Suc (st_counter s)) (Some node) uuid s a)"

end
