(* ===== verification/Swa_Lock_Props.thy ===== *)
theory Swa_Lock_Props
  imports Swa_Lock Swa_Inv
begin

text \<open>
  The lock counts of the two caches are the numbers of requests that hold a node, the window lock is never
  wider than the full one, and the sizes are the sums over free and locked nodes, in every
  state that locking and unlocking can reach.
\<close>

section \<open>One node\<close>

definition shape_of where
  "shape_of s = (st_root s, st_disable s, sliding_window_size s, st_counter s, st_parent s, st_children s, st_value s)"

lemma shape_D:
  assumes "shape_of s' = shape_of s"
  shows "st_root s' = st_root s" "st_disable s' = st_disable s" "sliding_window_size s' = sliding_window_size s"
    "st_counter s' = st_counter s" "st_parent s' = st_parent s" "st_children s' = st_children s" "st_value s' = st_value s"
  using assms by (simp_all add: shape_of_def)

definition full_part :: "swa_tree \<Rightarrow> nat \<Rightarrow> int" where
  "full_part s n = (if 0 < full_lock_ref s n then value_len s n else 0)"

definition swa_part_size :: "swa_tree \<Rightarrow> nat \<Rightarrow> int" where
  "swa_part_size s n = (if 0 < swa_lock_ref s n then value_len s n else 0)"

definition swa_free_part :: "swa_tree \<Rightarrow> nat \<Rightarrow> int" where
  "swa_free_part s n = (if swa_tombstone s n \<or> 0 < swa_lock_ref s n then 0 else value_len s n)"

definition swa_sizes_ok :: "nat set \<Rightarrow> swa_tree \<Rightarrow> bool" where
  "swa_sizes_ok N s \<longleftrightarrow> full_protected_size s = sum (full_part s) N \<and> full_evictable_size s = (\<Sum>n\<in>N. value_len s n - full_part s n) \<and>
     swa_protected_size s = sum (swa_part_size s) N \<and> swa_evictable_size s = sum (swa_free_part s) N"

lemma sum_one_changed:
  fixes f g :: "nat \<Rightarrow> int"
  assumes "finite N" "n \<in> N" "\<And>m. m \<noteq> n \<Longrightarrow> g m = f m"
  shows "sum g N = sum f N - f n + g n"
proof -
  have "sum g (N - {n}) = sum f (N - {n})" using assms(3) by (intro sum.cong) auto
  then show ?thesis using sum.remove [OF assms(1,2), of f] sum.remove [OF assms(1,2), of g] by simp
qed

text \<open>A node of the finite tree whose locks and sizes change.\<close>

lemma swa_sizes_ok_step:
  assumes ok: "swa_sizes_ok N s" and N: "finite N" "n \<in> N" and len: "st_value s' = st_value s"
    and frm: "\<And>m. m \<noteq> n \<Longrightarrow> full_part s' m = full_part s m" "\<And>m. m \<noteq> n \<Longrightarrow> swa_part_size s' m = swa_part_size s m"
      "\<And>m. m \<noteq> n \<Longrightarrow> swa_free_part s' m = swa_free_part s m"
    and upd: "full_protected_size s' = full_protected_size s - full_part s n + full_part s' n"
      "full_evictable_size s' = full_evictable_size s + full_part s n - full_part s' n"
      "swa_protected_size s' = swa_protected_size s - swa_part_size s n + swa_part_size s' n"
      "swa_evictable_size s' = swa_evictable_size s - swa_free_part s n + swa_free_part s' n"
  shows "swa_sizes_ok N s'"
proof -
  have "(\<Sum>m\<in>N. value_len s' m - full_part s' m) = (\<Sum>m\<in>N. value_len s m - full_part s m) + full_part s n - full_part s' n"
    using sum_one_changed [OF N, of "\<lambda>m. value_len s' m - full_part s' m" "\<lambda>m. value_len s m - full_part s m"] frm(1) len by simp
  then show ?thesis
    using ok upd sum_one_changed [OF N, of "full_part s'", OF frm(1)] sum_one_changed [OF N, of "swa_part_size s'", OF frm(2)]
      sum_one_changed [OF N, of "swa_free_part s'", OF frm(3)] by (simp add: swa_sizes_ok_def)
qed

lemmas part_defs = full_part_def swa_part_size_def swa_free_part_def

definition rest_of where "rest_of s = (swa_tombstone s, swa_lru s)"
definition uuids_of where "uuids_of s = (swa_uuid s, swa_uuid_counter s)"

text \<open>What a change of lock counts keeps.\<close>

definition kept :: "nat set \<Rightarrow> swa_tree \<Rightarrow> swa_tree \<Rightarrow> bool" where
  "kept N s s' \<longleftrightarrow> shape_of s' = shape_of s \<and> rest_of s' = rest_of s \<and> uuids_of s' = uuids_of s \<and> (swa_sizes_ok N s \<longrightarrow> swa_sizes_ok N s')"

lemma kept_trans: "kept N s s' \<Longrightarrow> kept N s' s'' \<Longrightarrow> kept N s s''"
  by (simp add: kept_def)

lemma kept_refl: "kept N s s"
  by (simp add: kept_def)

lemma kept_D:
  assumes "kept N s s'"
  shows "st_root s' = st_root s" "sliding_window_size s' = sliding_window_size s" "st_parent s' = st_parent s" "st_value s' = st_value s"
    "swa_tombstone s' = swa_tombstone s" "swa_uuid s' = swa_uuid s" "swa_uuid_counter s' = swa_uuid_counter s"
  using assms by (simp_all add: kept_def shape_of_def rest_of_def uuids_of_def)

lemmas frame_defs = kept_def shape_of_def rest_of_def uuids_of_def

lemma lock_full_ok:
  assumes "finite N" "n \<in> N" "0 \<le> full_lock_ref s n"
  shows "\<exists>s'. lock_full n s = Inr s' \<and> full_lock_ref s' = (full_lock_ref s)(n := full_lock_ref s n + 1) \<and> swa_lock_ref s' = swa_lock_ref s \<and>
    kept N s s'"
proof -
  obtain s' where s': "lock_full n s = Inr s'" using assms(3) by (auto simp: lock_full_def py_assert_def)
  have "swa_sizes_ok N s'" if "swa_sizes_ok N s"
    using s' assms(3) by (intro swa_sizes_ok_step [OF that assms(1,2)]) (auto simp: lock_full_def py_assert_def Let_def part_defs split: if_splits)
  then show ?thesis using s' assms(3) by (auto simp: lock_full_def py_assert_def Let_def frame_defs split: if_splits)
qed

lemma lock_swa_ok:
  assumes "finite N" "n \<in> N" "\<not> swa_tombstone s n" "0 \<le> swa_lock_ref s n"
  shows "\<exists>s'. lock_swa n s = Inr s' \<and> full_lock_ref s' = full_lock_ref s \<and> swa_lock_ref s' = (swa_lock_ref s)(n := swa_lock_ref s n + 1) \<and>
    kept N s s'"
proof -
  obtain s' where s': "lock_swa n s = Inr s'" using assms(3) by (auto simp: lock_swa_def py_assert_def)
  have "swa_sizes_ok N s'" if "swa_sizes_ok N s"
    using s' assms(3,4) by (intro swa_sizes_ok_step [OF that assms(1,2)]) (auto simp: lock_swa_def py_assert_def Let_def part_defs split: if_splits)
  then show ?thesis using s' assms(3) by (auto simp: lock_swa_def py_assert_def Let_def frame_defs split: if_splits)
qed

lemma unlock_full_ok:
  assumes "finite N" "n \<in> N" "0 < full_lock_ref s n"
  shows "\<exists>s'. unlock_full n s = Inr s' \<and> full_lock_ref s' = (full_lock_ref s)(n := full_lock_ref s n - 1) \<and> swa_lock_ref s' = swa_lock_ref s \<and>
    kept N s s'"
proof -
  obtain s' where s': "unlock_full n s = Inr s'" using assms(3) by (auto simp: unlock_full_def py_assert_def)
  have "swa_sizes_ok N s'" if "swa_sizes_ok N s"
    using s' assms(3) by (intro swa_sizes_ok_step [OF that assms(1,2)]) (auto simp: unlock_full_def py_assert_def Let_def part_defs split: if_splits)
  then show ?thesis using s' assms(3) by (auto simp: unlock_full_def py_assert_def Let_def frame_defs split: if_splits)
qed

lemma unlock_swa_ok:
  assumes "finite N" "n \<in> N" "\<not> swa_tombstone s n" "0 < swa_lock_ref s n"
  shows "\<exists>s'. unlock_swa n s = Inr s' \<and> full_lock_ref s' = full_lock_ref s \<and> swa_lock_ref s' = (swa_lock_ref s)(n := swa_lock_ref s n - 1) \<and>
    kept N s s'"
proof -
  obtain s' where s': "unlock_swa n s = Inr s'" using assms(3,4) by (auto simp: unlock_swa_def py_assert_def)
  have "swa_sizes_ok N s'" if "swa_sizes_ok N s"
    using s' assms(3,4) by (intro swa_sizes_ok_step [OF that assms(1,2)]) (auto simp: unlock_swa_def py_assert_def Let_def part_defs split: if_splits)
  then show ?thesis using s' assms(3,4) by (auto simp: unlock_swa_def py_assert_def Let_def frame_defs split: if_splits)
qed

section \<open>The way to the root\<close>

fun up_path :: "nat \<Rightarrow> swa_tree \<Rightarrow> nat \<Rightarrow> nat list" where
  "up_path 0 s n = []"
| "up_path (Suc k) s n = (if n = st_root s then [] else n # (case st_parent s n of None \<Rightarrow> [] | Some p \<Rightarrow> up_path k s p))"

definition path :: "swa_tree \<Rightarrow> nat \<Rightarrow> nat list" where
  "path s n = up_path (st_counter s) s n"

primrec ups :: "swa_tree \<Rightarrow> nat option \<Rightarrow> nat list \<Rightarrow> bool" where
  "ups s n [] \<longleftrightarrow> n = Some (st_root s)"
| "ups s n (k # ks) \<longleftrightarrow> n = Some k \<and> k \<noteq> st_root s \<and> ups s (st_parent s k) ks"

lemma ups_cong: "st_root s' = st_root s \<Longrightarrow> st_parent s' = st_parent s \<Longrightarrow> ups s' n ks = ups s n ks"
  by (induction ks arbitrary: n) auto

lemma up_path_ups: "ups s (Some n) ns \<Longrightarrow> length ns \<le> k \<Longrightarrow> up_path k s n = ns"
proof (induction ns arbitrary: n k)
  case Nil
  then show ?case by (cases k) auto
next
  case (Cons m ns)
  then obtain j where "k = Suc j" by (cases k) auto
  moreover obtain p where "st_parent s m = Some p" using Cons.prems(1) by (cases ns) auto
  ultimately show ?case using Cons by auto
qed

text \<open>Every node of the finite set \<open>N\<close> has a way to the root inside \<open>N\<close>.\<close>

definition tree_shape :: "nat set \<Rightarrow> swa_tree \<Rightarrow> bool" where
  "tree_shape N s \<longleftrightarrow> finite N \<and> card N \<le> st_counter s \<and> st_root s \<notin> N \<and> \<not> st_disable s \<and> 0 < sliding_window_size s \<and>
     (\<forall>n \<in> insert (st_root s) N. \<exists>ns. ups s (Some n) ns \<and> distinct ns \<and> set ns \<subseteq> N)"

lemma tree_shape_cong: "shape_of s' = shape_of s \<Longrightarrow> tree_shape N s' = tree_shape N s"
  using shape_D [of s' s] ups_cong [of s' s] by (simp add: tree_shape_def)

lemma path_cong: "shape_of s' = shape_of s \<Longrightarrow> path s' n = path s n"
proof -
  assume eq: "shape_of s' = shape_of s"
  have "up_path k s' n = up_path k s n" for k n
    using shape_D [OF eq] by (induction k arbitrary: n) (auto split: option.splits)
  then show ?thesis using shape_D [OF eq] by (simp add: path_def)
qed

lemma path_ok:
  assumes "tree_shape N s" "n \<in> insert (st_root s) N"
  shows "ups s (Some n) (path s n)" "distinct (path s n)" "set (path s n) \<subseteq> N" "length (path s n) \<le> st_counter s"
proof -
  obtain ns where ns: "ups s (Some n) ns" "distinct ns" "set ns \<subseteq> N" using assms by (auto simp: tree_shape_def)
  have "length ns \<le> card N" using card_mono [OF _ ns(3)] distinct_card [OF ns(2)] assms(1) by (simp add: tree_shape_def)
  then have len: "length ns \<le> st_counter s" using assms(1) by (simp add: tree_shape_def)
  then have "path s n = ns" using up_path_ups [OF ns(1)] by (simp add: path_def)
  with ns len show "ups s (Some n) (path s n)" "distinct (path s n)" "set (path s n) \<subseteq> N" "length (path s n) \<le> st_counter s" by simp_all
qed

text \<open>The part of a way that a window lock covers: until the node that carries the uuid.\<close>

fun take_to :: "swa_tree \<Rightarrow> nat option \<Rightarrow> nat list \<Rightarrow> nat list" where
  "take_to s uuid [] = []"
| "take_to s uuid (n # ns) = n # (if ends_window s uuid n then [] else take_to s uuid ns)"

lemma take_to_subset: "set (take_to s uuid ns) \<subseteq> set ns"
  by (induction ns) auto

lemma take_to_cong: "(\<And>n. n \<in> set ns \<Longrightarrow> ends_window s' uuid n = ends_window s uuid n) \<Longrightarrow> take_to s' uuid ns = take_to s uuid ns"
  by (induction ns) auto

lemma take_to_split:
  "\<forall>m \<in> set ps. \<not> ends_window s uuid m \<Longrightarrow> ends_window s uuid n \<Longrightarrow> take_to s uuid (ps @ n # qs) = ps @ [n]"
  by (induction ps) auto

lemma take_to_None: "take_to s None ns = ns"
  by (induction ns) (auto simp: ends_window_def)

section \<open>Unlocking a way\<close>

abbreviation dec_at :: "(nat \<Rightarrow> int) \<Rightarrow> nat list \<Rightarrow> nat \<Rightarrow> int" where
  "dec_at f ns \<equiv> \<lambda>m. f m - of_bool (m \<in> set ns)"

lemma dec_loop_ok:
  assumes "ups s node ns" "distinct ns" "length ns < fuel" "finite N" "set ns \<subseteq> N" "\<forall>n \<in> set ns. 0 < full_lock_ref s n"
    "flag \<longrightarrow> (\<forall>n \<in> set (take_to s uuid ns). \<not> swa_tombstone s n \<and> 0 < swa_lock_ref s n)"
  shows "\<exists>s'. dec_loop fuel node uuid flag s = Inr s' \<and> full_lock_ref s' = dec_at (full_lock_ref s) ns \<and>
    swa_lock_ref s' = dec_at (swa_lock_ref s) (if flag then take_to s uuid ns else []) \<and> kept N s s'"
  using assms
proof (induction ns arbitrary: node fuel s flag)
  case Nil
  then show ?case by (cases fuel) (auto simp: kept_refl)
next
  case (Cons n ns)
  obtain f where f: "fuel = Suc f" using Cons.prems(3) by (cases fuel) auto
  have n: "n \<in> N" "node = Some n" "n \<noteq> st_root s" "n \<notin> set ns" using Cons.prems(1,2,5) by auto
  obtain s1 where s1: "unlock_full n s = Inr s1" "full_lock_ref s1 = (full_lock_ref s)(n := full_lock_ref s n - 1)"
    "swa_lock_ref s1 = swa_lock_ref s" "kept N s s1"
    using unlock_full_ok [OF Cons.prems(4) n(1)] Cons.prems(6) by auto
  show ?case
  proof (cases flag)
    case True
    then have sw: "\<not> swa_tombstone s1 n" "0 < swa_lock_ref s1 n" using Cons.prems(7) s1(3) kept_D [OF s1(4)] by auto
    obtain s2 where s2: "unlock_swa n s1 = Inr s2" "full_lock_ref s2 = full_lock_ref s1"
      "swa_lock_ref s2 = (swa_lock_ref s1)(n := swa_lock_ref s1 n - 1)" "kept N s1 s2"
      using unlock_swa_ok [OF Cons.prems(4) n(1) sw] by auto
    note k = kept_trans [OF s1(4) s2(4)]
    have tt: "take_to s2 uuid ns = take_to s uuid ns" "ends_window s2 uuid n = ends_window s uuid n"
      using kept_D(6) [OF k] by (simp_all add: ends_window_def cong: take_to_cong)
    have "ups s2 (st_parent s2 n) ns" using Cons.prems(1) ups_cong [of s2 s] kept_D [OF k] by simp
    moreover have "\<forall>m \<in> set ns. 0 < full_lock_ref s2 m" using Cons.prems(6) s1(2) s2(2) n(4) by auto
    moreover have "\<not> ends_window s2 uuid n \<longrightarrow> (\<forall>m \<in> set (take_to s2 uuid ns). \<not> swa_tombstone s2 m \<and> 0 < swa_lock_ref s2 m)"
      using Cons.prems(7) True tt s1(3) s2(3) kept_D(5) [OF k] n(4) take_to_subset [of s uuid ns] by auto
    ultimately obtain s' where s': "dec_loop f (st_parent s2 n) uuid (\<not> ends_window s2 uuid n) s2 = Inr s'"
      "full_lock_ref s' = dec_at (full_lock_ref s2) ns"
      "swa_lock_ref s' = dec_at (swa_lock_ref s2) (if \<not> ends_window s2 uuid n then take_to s2 uuid ns else [])" "kept N s2 s'"
      using Cons.IH [of s2 "st_parent s2 n" f "\<not> ends_window s2 uuid n"] Cons.prems(2-5) f by auto
    have "dec_loop fuel node uuid flag s = Inr s'" using f n s1(1) s2(1) s'(1) True by simp
    moreover have "full_lock_ref s' = dec_at (full_lock_ref s) (n # ns)" using s'(2) s2(2) s1(2) n(4) by (auto simp: fun_eq_iff)
    moreover have "swa_lock_ref s' = dec_at (swa_lock_ref s) (take_to s uuid (n # ns))"
      using s'(3) s2(3) s1(3) n(4) tt take_to_subset [of s uuid ns] by (auto simp: fun_eq_iff)
    ultimately show ?thesis using True kept_trans [OF k s'(4)] by auto
  next
    case False
    have "ups s1 (st_parent s1 n) ns" using Cons.prems(1) ups_cong [of s1 s] kept_D [OF s1(4)] by simp
    moreover have "\<forall>m \<in> set ns. 0 < full_lock_ref s1 m" using Cons.prems(6) s1(2) n(4) by auto
    ultimately obtain s' where s': "dec_loop f (st_parent s1 n) uuid False s1 = Inr s'"
      "full_lock_ref s' = dec_at (full_lock_ref s1) ns" "swa_lock_ref s' = dec_at (swa_lock_ref s1) []" "kept N s1 s'"
      using Cons.IH [of s1 "st_parent s1 n" f False] Cons.prems(2-5) f by auto
    have "dec_loop fuel node uuid flag s = Inr s'" using f n s1(1) s'(1) False by simp
    moreover have "full_lock_ref s' = dec_at (full_lock_ref s) (n # ns)" using s'(2) s1(2) n(4) by (auto simp: fun_eq_iff)
    ultimately show ?thesis using False s'(3) s1(3) kept_trans [OF s1(4) s'(4)] by auto
  qed
qed

section \<open>Locking a way\<close>

abbreviation inc_at :: "(nat \<Rightarrow> int) \<Rightarrow> nat list \<Rightarrow> nat \<Rightarrow> int" where
  "inc_at f ns \<equiv> \<lambda>m. f m + of_bool (m \<in> set ns)"

lemma inc_loop_full:
  assumes "ups s node ns" "distinct ns" "length ns < fuel" "finite N" "set ns \<subseteq> N" "\<forall>n \<in> set ns. 0 \<le> full_lock_ref s n"
    "sliding_window_size s \<le> sz"
  shows "\<exists>s'. inc_loop fuel node sz uuid s = Inr (uuid, s') \<and> full_lock_ref s' = inc_at (full_lock_ref s) ns \<and>
    swa_lock_ref s' = swa_lock_ref s \<and> kept N s s'"
  using assms
proof (induction ns arbitrary: node fuel s)
  case Nil
  then show ?case by (cases fuel) (auto simp: kept_refl)
next
  case (Cons n ns)
  obtain f where f: "fuel = Suc f" using Cons.prems(3) by (cases fuel) auto
  have n: "n \<in> N" "node = Some n" "n \<noteq> st_root s" "n \<notin> set ns" using Cons.prems(1,2,5) by auto
  obtain s1 where s1: "lock_full n s = Inr s1" "full_lock_ref s1 = (full_lock_ref s)(n := full_lock_ref s n + 1)"
    "swa_lock_ref s1 = swa_lock_ref s" "kept N s s1"
    using lock_full_ok [OF Cons.prems(4) n(1)] Cons.prems(6) by auto
  have "ups s1 (st_parent s1 n) ns" "sliding_window_size s1 \<le> sz" using Cons.prems(1,7) ups_cong [of s1 s] kept_D [OF s1(4)] by simp_all
  moreover have "\<forall>m \<in> set ns. 0 \<le> full_lock_ref s1 m" using Cons.prems(6) s1(2) n(4) by auto
  ultimately obtain s' where s': "inc_loop f (st_parent s1 n) sz uuid s1 = Inr (uuid, s')"
    "full_lock_ref s' = inc_at (full_lock_ref s1) ns" "swa_lock_ref s' = swa_lock_ref s1" "kept N s1 s'"
    using Cons.IH [of s1 "st_parent s1 n" f] Cons.prems(2-5) f by auto
  have "inc_loop fuel node sz uuid s = Inr (uuid, s')" using f n s1(1) s'(1) \<open>sliding_window_size s1 \<le> sz\<close> by simp
  moreover have "full_lock_ref s' = inc_at (full_lock_ref s) (n # ns)" using s'(2) s1(2) n(4) by (auto simp: fun_eq_iff)
  ultimately show ?case using s'(3) s1(3) kept_trans [OF s1(4) s'(4)] by auto
qed

fun window_part :: "swa_tree \<Rightarrow> nat \<Rightarrow> nat list \<Rightarrow> nat list" where
  "window_part s sz [] = []"
| "window_part s sz (n # ns) =
     n # (if sliding_window_size s \<le> sz + length (st_value s n) then [] else window_part s (sz + length (st_value s n)) ns)"

lemma window_part_subset: "set (window_part s sz ns) \<subseteq> set ns"
  by (induction ns arbitrary: sz) auto

lemma window_part_cong: "shape_of s' = shape_of s \<Longrightarrow> window_part s' sz ns = window_part s sz ns"
  using shape_D [of s' s] by (induction ns arbitrary: sz) auto

text \<open>The node at which the window is full gets a uuid unless it has one.\<close>

definition marked :: "swa_tree \<Rightarrow> swa_tree \<Rightarrow> nat \<Rightarrow> nat \<Rightarrow> bool" where
  "marked s s' n x \<longleftrightarrow> swa_uuid s n = Some x \<and> uuids_of s' = uuids_of s \<or>
     swa_uuid s n = None \<and> x = Suc (swa_uuid_counter s) \<and> uuids_of s' = ((swa_uuid s)(n := Some x), x)"

lemma swa_sizes_ok_uuid [simp]: "swa_sizes_ok N (s\<lparr>swa_uuid_counter := c, swa_uuid := u\<rparr>) \<longleftrightarrow> swa_sizes_ok N s"
  by (simp add: swa_sizes_ok_def part_defs cong: if_cong)

lemma mark_window_end_ok:
  "\<exists>x s'. mark_window_end n s = (Some x, s') \<and> marked s s' n x \<and> full_lock_ref s' = full_lock_ref s \<and> swa_lock_ref s' = swa_lock_ref s \<and>
     shape_of s' = shape_of s \<and> rest_of s' = rest_of s \<and> (swa_sizes_ok N s \<longrightarrow> swa_sizes_ok N s')"
  by (auto simp: mark_window_end_def marked_def gen_swa_uuid_def Let_def uuids_of_def shape_of_def rest_of_def
      split: option.splits)

lemma inc_loop_window:
  assumes "ups s node ns" "distinct ns" "length ns < fuel" "finite N" "set ns \<subseteq> N" "\<forall>n \<in> set ns. 0 \<le> full_lock_ref s n"
    "sz < sliding_window_size s" "\<forall>n \<in> set (window_part s sz ns). \<not> swa_tombstone s n \<and> 0 \<le> swa_lock_ref s n"
  shows "\<exists>u s'. inc_loop fuel node sz None s = Inr (u, s') \<and> full_lock_ref s' = inc_at (full_lock_ref s) ns \<and>
    swa_lock_ref s' = inc_at (swa_lock_ref s) (window_part s sz ns) \<and>
    shape_of s' = shape_of s \<and> rest_of s' = rest_of s \<and> (swa_sizes_ok N s \<longrightarrow> swa_sizes_ok N s') \<and>
    (u = None \<and> uuids_of s' = uuids_of s \<and> window_part s sz ns = ns \<or>
     (\<exists>ps n qs x. ns = ps @ n # qs \<and> window_part s sz ns = ps @ [n] \<and> u = Some x \<and> marked s s' n x))"
  using assms
proof (induction ns arbitrary: node fuel s sz)
  case Nil
  then show ?case by (cases fuel) auto
next
  case (Cons n ns)
  let ?len = "sz + length (st_value s n)"
  obtain f where f: "fuel = Suc f" using Cons.prems(3) by (cases fuel) auto
  have n: "n \<in> N" "node = Some n" "n \<noteq> st_root s" "n \<notin> set ns" using Cons.prems(1,2,5) by auto
  obtain s1 where s1: "lock_full n s = Inr s1" "full_lock_ref s1 = (full_lock_ref s)(n := full_lock_ref s n + 1)"
    "swa_lock_ref s1 = swa_lock_ref s" "kept N s s1"
    using lock_full_ok [OF Cons.prems(4) n(1)] Cons.prems(6) by auto
  have sw: "\<not> swa_tombstone s1 n" "0 \<le> swa_lock_ref s1 n" using Cons.prems(8) s1(3) kept_D [OF s1(4)] by auto
  obtain s2 where s2: "lock_swa n s1 = Inr s2" "full_lock_ref s2 = full_lock_ref s1"
    "swa_lock_ref s2 = (swa_lock_ref s1)(n := swa_lock_ref s1 n + 1)" "kept N s1 s2"
    using lock_swa_ok [OF Cons.prems(4) n(1) sw] by auto
  note k = kept_trans [OF s1(4) s2(4)]
  have full2: "\<forall>m \<in> set ns. 0 \<le> full_lock_ref s2 m" using Cons.prems(6) s1(2) s2(2) n(4) by auto
  show ?case
  proof (cases "sliding_window_size s \<le> ?len")
    case True
    obtain x s3 where s3: "mark_window_end n s2 = (Some x, s3)" "marked s2 s3 n x" "full_lock_ref s3 = full_lock_ref s2"
      "swa_lock_ref s3 = swa_lock_ref s2" "shape_of s3 = shape_of s2" "rest_of s3 = rest_of s2" "swa_sizes_ok N s2 \<longrightarrow> swa_sizes_ok N s3"
      using mark_window_end_ok [of n s2 N] by blast
    have sh: "shape_of s3 = shape_of s" "rest_of s3 = rest_of s" "swa_sizes_ok N s \<longrightarrow> swa_sizes_ok N s3" using k s3(5-7) by (simp_all add: kept_def)
    note E = shape_D [OF sh(1)]
    have "ups s3 (st_parent s3 n) ns" using Cons.prems(1) ups_cong [of s3 s] E by simp
    moreover have "\<forall>m \<in> set ns. 0 \<le> full_lock_ref s3 m" using full2 s3(3) by simp
    ultimately obtain s' where s': "inc_loop f (st_parent s3 n) ?len (Some x) s3 = Inr (Some x, s')"
      "full_lock_ref s' = inc_at (full_lock_ref s3) ns" "swa_lock_ref s' = swa_lock_ref s3" "kept N s3 s'"
      using inc_loop_full [of s3 "st_parent s3 n" ns f N ?len "Some x"] Cons.prems(2-5) f True E by auto
    have "inc_loop fuel node sz None s = Inr (Some x, s')"
      using f n s1(1) s2(1) s3(1) s'(1) True Cons.prems(7) kept_D [OF s1(4)] kept_D [OF k] by simp
    moreover have "full_lock_ref s' = inc_at (full_lock_ref s) (n # ns)" using s'(2) s3(3) s2(2) s1(2) n(4) by (auto simp: fun_eq_iff)
    moreover have "swa_lock_ref s' = inc_at (swa_lock_ref s) (window_part s sz (n # ns))" using True s'(3) s3(4) s2(3) s1(3) by (auto simp: fun_eq_iff)
    moreover have "marked s s' n x" using s3(2) s'(4) k by (simp add: marked_def frame_defs)
    ultimately show ?thesis using True sh s'(4)
      by (intro exI [of _ "Some x"] exI [of _ s']) (auto simp: kept_def intro!: exI [of _ "[] :: nat list"])
  next
    case False
    have wp: "window_part s2 ?len ns = window_part s ?len ns" using k by (intro window_part_cong) (simp add: kept_def)
    have "ups s2 (st_parent s2 n) ns" "?len < sliding_window_size s2" using Cons.prems(1) ups_cong [of s2 s] kept_D [OF k] False by simp_all
    moreover have "\<forall>m \<in> set (window_part s2 ?len ns). \<not> swa_tombstone s2 m \<and> 0 \<le> swa_lock_ref s2 m"
      using Cons.prems(8) False wp s2(3) s1(3) kept_D(5) [OF k] by auto
    ultimately obtain u s' where s': "inc_loop f (st_parent s2 n) ?len None s2 = Inr (u, s')" "full_lock_ref s' = inc_at (full_lock_ref s2) ns"
      "swa_lock_ref s' = inc_at (swa_lock_ref s2) (window_part s ?len ns)" "shape_of s' = shape_of s2" "rest_of s' = rest_of s2"
      "swa_sizes_ok N s2 \<longrightarrow> swa_sizes_ok N s'"
      "u = None \<and> uuids_of s' = uuids_of s2 \<and> window_part s ?len ns = ns \<or>
       (\<exists>ps m qs x. ns = ps @ m # qs \<and> window_part s ?len ns = ps @ [m] \<and> u = Some x \<and> marked s2 s' m x)"
      using Cons.IH [of s2 "st_parent s2 n" f ?len] Cons.prems(2-5) f full2 unfolding wp by auto
    have "inc_loop fuel node sz None s = Inr (u, s')"
      using f n s1(1) s2(1) s'(1) False Cons.prems(7) kept_D [OF s1(4)] kept_D [OF k] by simp
    moreover have "full_lock_ref s' = inc_at (full_lock_ref s) (n # ns)" using s'(2) s2(2) s1(2) n(4) by (auto simp: fun_eq_iff)
    moreover have "n \<notin> set (window_part s ?len ns)" using n(4) window_part_subset [of s ?len ns] by blast
    then have "swa_lock_ref s' = inc_at (swa_lock_ref s) (window_part s sz (n # ns))" using False s'(3) s2(3) s1(3) by (auto simp: fun_eq_iff)
    moreover have "marked s2 s' m x \<longleftrightarrow> marked s s' m x" for m x using k by (simp add: marked_def frame_defs)
    then have "u = None \<and> uuids_of s' = uuids_of s \<and> window_part s sz (n # ns) = n # ns \<or>
       (\<exists>ps m qs x. n # ns = ps @ m # qs \<and> window_part s sz (n # ns) = ps @ [m] \<and> u = Some x \<and> marked s s' m x)"
      using s'(7) k False by (auto simp: kept_def)
    ultimately show ?thesis using k s'(4-6) by (intro exI [of _ u] exI [of _ s']) (simp add: kept_def)
  qed
qed

section \<open>Giving up the window\<close>

text \<open>The list of the sliding-window cache holds the nodes of the tree that are not tombstones.\<close>

definition lru_agrees :: "nat set \<Rightarrow> swa_tree \<Rightarrow> bool" where
  "lru_agrees N s \<longleftrightarrow> is_swa_list (swa_lru s) \<and> lru_inv (swa_info s) (swa_lru s) \<and> set (lru_order (swa_lru s)) = {n \<in> N. \<not> swa_tombstone s n}"

lemma lru_inv_cong: "lru_inv ni l \<Longrightarrow> (\<And>n. n \<in> set (lru_order l) \<Longrightarrow> ni_tombstone ni' n \<longleftrightarrow> ni_tombstone ni n) \<Longrightarrow> lru_inv ni' l"
  by (auto simp: lru_inv_def)

lemma lru_agrees_cong: "rest_of s' = rest_of s \<Longrightarrow> lru_agrees N s \<Longrightarrow> lru_agrees N s'"
  by (auto simp: lru_agrees_def rest_of_def swa_info_def elim!: lru_inv_cong)

text \<open>What the release of a window needs of the allocator.\<close>

locale window_pool =
  fixes free_swa :: "'al \<Rightarrow> int list \<Rightarrow> 'al result" and pool_ok :: "'al \<Rightarrow> bool" and freeable :: "int list \<Rightarrow> bool"
  assumes free_window: "pool_ok a \<Longrightarrow> freeable v \<Longrightarrow> \<exists>a'. free_swa a v = Inr a' \<and> pool_ok a'"
begin

lemma release_window_node_ok:
  assumes N: "finite N" "n \<in> N" "\<not> swa_tombstone s n" "0 < swa_lock_ref s n" and l: "lru_agrees N s" and a: "pool_ok a" "freeable (st_value s n)"
  shows "\<exists>s' a'. release_window_node free_swa n s a = Inr (s', a') \<and> pool_ok a' \<and> full_lock_ref s' = full_lock_ref s \<and>
    swa_lock_ref s' = (swa_lock_ref s)(n := swa_lock_ref s n - 1) \<and> shape_of s' = shape_of s \<and> uuids_of s' = uuids_of s \<and>
    (swa_sizes_ok N s \<longrightarrow> swa_sizes_ok N s') \<and> lru_agrees N s' \<and>
    swa_tombstone s' = (\<lambda>m. swa_tombstone s m \<or> m = n \<and> st_children s n = 0 \<and> swa_lock_ref s n = 1)"
proof (cases "swa_lock_ref s n = 1 \<and> st_children s n = 0")
  case True
  let ?s1 = "s\<lparr>swa_protected_size := swa_protected_size s - value_len s n\<rparr>"
  obtain a' where a': "free_swa a (st_value s n) = Inr a'" "pool_ok a'" using free_window [OF a] by blast
  have "swa_info ?s1 = swa_info s\<lparr>ni_value_len := ni_value_len (swa_info s)\<rparr>" by (simp add: swa_info_def)
  then have i: "lru_inv (swa_info ?s1) (swa_lru s)" "n \<in> set (lru_order (swa_lru s))" "is_swa_list (swa_lru s)" using l N by (simp_all add: lru_agrees_def)
  obtain l' where l': "lru_remove_node (swa_info ?s1) n (swa_lru s) = Inr l'" "lru_inv (swa_info ?s1) l'" "lru_order l' = remove1 n (lru_order (swa_lru s))"
    "is_swa_list l' = is_swa_list (swa_lru s)" using lru_remove_node_ok [OF i(1,2)] by blast
  let ?s = "?s1\<lparr>swa_lru := l', swa_tombstone := (swa_tombstone s)(n := True), swa_lock_ref := (swa_lock_ref s)(n := swa_lock_ref s n - 1)\<rparr>"
  have r: "release_window_node free_swa n s a = Inr (?s, a')"
    using True N(3,4) a'(1) l'(1) by (simp add: release_window_node_def py_assert_def Let_def)
  have d: "set (lru_order l') = set (lru_order (swa_lru s)) - {n}" using l'(3) lru.order_distinct [OF i(1)] by simp
  have "lru_inv (swa_info ?s) l'" using l'(2) by (rule lru_inv_cong) (use d in \<open>auto simp: swa_info_def\<close>)
  then have "lru_agrees N ?s" using l l'(4) d by (auto simp: lru_agrees_def)
  moreover have "swa_sizes_ok N ?s" if "swa_sizes_ok N s"
    using True N(3) by (intro swa_sizes_ok_step [OF that N(1,2)]) (auto simp: part_defs)
  ultimately show ?thesis using r a'(2) True by (intro exI [of _ ?s] exI [of _ a']) (auto simp: shape_of_def uuids_of_def)
next
  case False
  let ?s1 = "if swa_lock_ref s n = 1 then s\<lparr>swa_protected_size := swa_protected_size s - value_len s n, swa_evictable_size := swa_evictable_size s + value_len s n\<rparr> else s"
  let ?s = "?s1\<lparr>swa_lock_ref := (swa_lock_ref s)(n := swa_lock_ref s n - 1)\<rparr>"
  have r: "release_window_node free_swa n s a = Inr (?s, a)"
    using False N(3,4) by (auto simp: release_window_node_def py_assert_def Let_def)
  have "lru_agrees N ?s" by (rule lru_agrees_cong [OF _ l]) (simp add: rest_of_def)
  moreover have "swa_sizes_ok N ?s" if "swa_sizes_ok N s"
    using False N(3,4) by (intro swa_sizes_ok_step [OF that N(1,2)]) (auto simp: part_defs)
  moreover have "shape_of ?s = shape_of s" "uuids_of ?s = uuids_of s" "swa_tombstone ?s = swa_tombstone s" "full_lock_ref ?s = full_lock_ref s"
    by (simp_all add: shape_of_def uuids_of_def)
  moreover have "swa_lock_ref ?s = (swa_lock_ref s)(n := swa_lock_ref s n - 1)" by simp
  ultimately show ?thesis using r a(1) False by (intro exI [of _ ?s] exI [of _ a]) (auto simp: fun_eq_iff)
qed

lemma dec_swa_loop_ok:
  assumes "ups s node ns" "distinct ns" "length ns < fuel" "finite N" "set ns \<subseteq> N"
    "\<forall>n \<in> set (take_to s uuid ns). \<not> swa_tombstone s n \<and> 0 < swa_lock_ref s n" "lru_agrees N s" "pool_ok a" "\<forall>n \<in> N. freeable (st_value s n)"
  shows "\<exists>s' a'. dec_swa_loop free_swa fuel node uuid s a = Inr (s', a') \<and> pool_ok a' \<and> full_lock_ref s' = full_lock_ref s \<and>
    swa_lock_ref s' = dec_at (swa_lock_ref s) (take_to s uuid ns) \<and> shape_of s' = shape_of s \<and> uuids_of s' = uuids_of s \<and>
    (swa_sizes_ok N s \<longrightarrow> swa_sizes_ok N s') \<and> lru_agrees N s' \<and>
    swa_tombstone s' = (\<lambda>m. swa_tombstone s m \<or> m \<in> set (take_to s uuid ns) \<and> st_children s m = 0 \<and> swa_lock_ref s m = 1)"
  using assms
proof (induction ns arbitrary: node fuel s a)
  case Nil
  then show ?case by (cases fuel) auto
next
  case (Cons n ns)
  obtain f where f: "fuel = Suc f" using Cons.prems(3) by (cases fuel) auto
  have n: "n \<in> N" "node = Some n" "n \<noteq> st_root s" "n \<notin> set ns" using Cons.prems(1,2,5) by auto
  have nn: "\<not> swa_tombstone s n" "0 < swa_lock_ref s n" and fr: "freeable (st_value s n)" using Cons.prems(6,9) n(1) by auto
  obtain s1 a1 where s1: "release_window_node free_swa n s a = Inr (s1, a1)" "pool_ok a1" "full_lock_ref s1 = full_lock_ref s"
    "swa_lock_ref s1 = (swa_lock_ref s)(n := swa_lock_ref s n - 1)" "shape_of s1 = shape_of s" "uuids_of s1 = uuids_of s"
    "swa_sizes_ok N s \<longrightarrow> swa_sizes_ok N s1" "lru_agrees N s1"
    "swa_tombstone s1 = (\<lambda>m. swa_tombstone s m \<or> m = n \<and> st_children s n = 0 \<and> swa_lock_ref s n = 1)"
    using release_window_node_ok [OF Cons.prems(4) n(1) nn Cons.prems(7,8) fr] by (elim exE conjE) (rule that)
  have ew: "ends_window s1 u m = ends_window s u m" for u m using s1(6) by (simp add: ends_window_def uuids_of_def)
  then have tt: "take_to s1 uuid ns = take_to s uuid ns" by (intro take_to_cong) simp
  show ?case
  proof (cases "ends_window s uuid n")
    case True
    have "dec_swa_loop free_swa fuel node uuid s a = Inr (s1, a1)" using f n s1(1) True ew by simp
    then show ?thesis using s1 True by (intro exI [of _ s1] exI [of _ a1]) (auto simp: fun_eq_iff)
  next
    case False
    have nt: "n \<notin> set (take_to s uuid ns)" using n(4) take_to_subset by blast
    have "ups s1 (st_parent s1 n) ns" using Cons.prems(1) ups_cong [of s1 s] shape_D [OF s1(5)] by simp
    moreover have "\<forall>m \<in> set (take_to s1 uuid ns). \<not> swa_tombstone s1 m \<and> 0 < swa_lock_ref s1 m"
      using Cons.prems(6) False tt nt s1(4,9) by auto
    moreover have "distinct ns" "length ns < f" "set ns \<subseteq> N" "\<forall>n \<in> N. freeable (st_value s1 n)"
      using Cons.prems(2,3,5,9) f shape_D(7) [OF s1(5)] by auto
    ultimately obtain s' a' where s': "dec_swa_loop free_swa f (st_parent s1 n) uuid s1 a1 = Inr (s', a')" "pool_ok a'"
      "full_lock_ref s' = full_lock_ref s1" "swa_lock_ref s' = dec_at (swa_lock_ref s1) (take_to s uuid ns)" "shape_of s' = shape_of s1"
      "uuids_of s' = uuids_of s1" "swa_sizes_ok N s1 \<longrightarrow> swa_sizes_ok N s'" "lru_agrees N s'"
      "swa_tombstone s' = (\<lambda>m. swa_tombstone s1 m \<or> m \<in> set (take_to s uuid ns) \<and> st_children s1 m = 0 \<and> swa_lock_ref s1 m = 1)"
      using Cons.IH [of s1 "st_parent s1 n" f a1, OF _ _ _ Cons.prems(4) _ _ s1(8,2)] unfolding tt by blast
    have "dec_swa_loop free_swa fuel node uuid s a = Inr (s', a')" using f n s1(1) s'(1) False ew by simp
    moreover have "swa_lock_ref s' = dec_at (swa_lock_ref s) (take_to s uuid (n # ns))" using s'(4) s1(4) False nt by (auto simp: fun_eq_iff)
    moreover have "swa_tombstone s' = (\<lambda>m. swa_tombstone s m \<or> m \<in> set (take_to s uuid (n # ns)) \<and> st_children s m = 0 \<and> swa_lock_ref s m = 1)"
      using s'(9) s1(4,9) shape_D(6) [OF s1(5)] False nt by (auto simp: fun_eq_iff)
    ultimately show ?thesis using s'(2,3,5-8) s1(3,5-7) by (intro exI [of _ s'] exI [of _ a']) auto
  qed
qed

end

end
