(* ===== verification/Swa_Protocol.thy ===== *)
theory Swa_Protocol
  imports Swa_Lock_Props
begin

text \<open>
  The requests that hold locks, and all runs of the lock protocol: locking, giving up the window early,
  unlocking. The protocol is proved for any allocator that meets \<open>window_pool\<close>; the hybrid allocator does.
\<close>

section \<open>Holders\<close>

text \<open>A request keeps its last node, the uuid it got, and whether it still holds the window.\<close>

record holder =
  h_node :: nat
  h_uuid :: "nat option"
  h_swa :: bool

definition swa_part :: "swa_tree \<Rightarrow> holder \<Rightarrow> nat list" where
  "swa_part s h = (if h_swa h then take_to s (h_uuid h) (path s (h_node h)) else [])"

definition holds_full :: "swa_tree \<Rightarrow> nat \<Rightarrow> holder \<Rightarrow> bool" where
  "holds_full s n h \<longleftrightarrow> n \<in> set (path s (h_node h))"

definition holds_swa :: "swa_tree \<Rightarrow> nat \<Rightarrow> holder \<Rightarrow> bool" where
  "holds_swa s n h \<longleftrightarrow> n \<in> set (swa_part s h)"

abbreviation count_of :: "(holder \<Rightarrow> bool) \<Rightarrow> holder multiset \<Rightarrow> int" where
  "count_of P Hs \<equiv> int (size (filter_mset P Hs))"

definition uuids_ok :: "swa_tree \<Rightarrow> holder multiset \<Rightarrow> bool" where
  "uuids_ok s Hs \<longleftrightarrow> (\<forall>n m x. swa_uuid s n = Some x \<longrightarrow> swa_uuid s m = Some x \<longrightarrow> n = m) \<and>
     (\<forall>n x. swa_uuid s n = Some x \<longrightarrow> 0 < x \<and> x \<le> swa_uuid_counter s) \<and> (\<forall>h \<in># Hs. \<forall>x. h_uuid h = Some x \<longrightarrow> x \<le> swa_uuid_counter s)"

definition window_inv :: "nat set \<Rightarrow> swa_tree \<Rightarrow> holder multiset \<Rightarrow> bool" where
  "window_inv N s Hs \<longleftrightarrow> tree_shape N s \<and> swa_sizes_ok N s \<and> lru_agrees N s \<and> uuids_ok s Hs \<and>
     (\<forall>h \<in># Hs. h_node h \<in> insert (st_root s) N \<and> (\<forall>n \<in> set (swa_part s h). \<not> swa_tombstone s n)) \<and>
     (\<forall>n \<in> N. full_lock_ref s n = count_of (holds_full s n) Hs \<and> swa_lock_ref s n = count_of (holds_swa s n) Hs)"

lemma window_inv_D:
  assumes "window_inv N s Hs"
  shows "tree_shape N s" "finite N" "swa_sizes_ok N s" "lru_agrees N s" "uuids_ok s Hs" "\<And>h. h \<in># Hs \<Longrightarrow> h_node h \<in> insert (st_root s) N"
    "\<And>h n. h \<in># Hs \<Longrightarrow> n \<in> set (swa_part s h) \<Longrightarrow> \<not> swa_tombstone s n"
    "\<And>n. n \<in> N \<Longrightarrow> full_lock_ref s n = count_of (holds_full s n) Hs" "\<And>n. n \<in> N \<Longrightarrow> swa_lock_ref s n = count_of (holds_swa s n) Hs"
  using assms by (simp_all add: window_inv_def tree_shape_def)

lemma swa_part_subset: "set (swa_part s h) \<subseteq> set (path s (h_node h))"
  using take_to_subset by (auto simp: swa_part_def)

text \<open>The window lock is never wider than the full one.\<close>

lemma swa_le_full: "window_inv N s Hs \<Longrightarrow> n \<in> N \<Longrightarrow> 0 \<le> swa_lock_ref s n \<and> swa_lock_ref s n \<le> full_lock_ref s n"
proof -
  assume inv: "window_inv N s Hs" "n \<in> N"
  have "filter_mset (holds_swa s n) Hs = filter_mset (holds_swa s n) (filter_mset (holds_full s n) Hs)"
    using subsetD [OF swa_part_subset] by (auto simp: filter_filter_mset holds_full_def holds_swa_def intro!: filter_mset_cong)
  then have "size (filter_mset (holds_swa s n) Hs) \<le> size (filter_mset (holds_full s n) Hs)"
    by (metis size_filter_mset_lesseq)
  then show ?thesis using window_inv_D(8,9) [OF inv] by simp
qed

lemma swa_part_cong:
  assumes "shape_of s' = shape_of s" "\<And>n. ends_window s' (h_uuid h) n = ends_window s (h_uuid h) n"
  shows "swa_part s' h = swa_part s h"
  using take_to_cong [of "path s (h_node h)" s' "h_uuid h" s] assms(2) path_cong [OF assms(1)] by (simp add: swa_part_def)

lemma ends_window_cong: "uuids_of s' = uuids_of s \<Longrightarrow> ends_window s' u n = ends_window s u n"
  by (simp add: ends_window_def uuids_of_def)

text \<open>Changing the holders and the counts together.\<close>

lemma window_inv_step:
  assumes inv: "window_inv N s Hs" and sh: "shape_of s' = shape_of s" and sz: "swa_sizes_ok N s'" and l: "lru_agrees N s'" and u: "uuids_ok s' Hs'"
    and hs: "\<And>h. h \<in># Hs' \<Longrightarrow> h_node h \<in> insert (st_root s) N" "\<And>h n. h \<in># Hs' \<Longrightarrow> n \<in> set (swa_part s' h) \<Longrightarrow> \<not> swa_tombstone s' n"
    and full: "\<And>n. n \<in> N \<Longrightarrow> full_lock_ref s' n - full_lock_ref s n = count_of (holds_full s n) Hs' - count_of (holds_full s n) Hs"
    and swa: "\<And>n. n \<in> N \<Longrightarrow> swa_lock_ref s' n - swa_lock_ref s n = count_of (holds_swa s' n) Hs' - count_of (holds_swa s n) Hs"
  shows "window_inv N s' Hs'"
proof -
  have "holds_full s' n = holds_full s n" for n by (simp add: fun_eq_iff holds_full_def path_cong [OF sh])
  then have "full_lock_ref s' n = count_of (holds_full s' n) Hs' \<and> swa_lock_ref s' n = count_of (holds_swa s' n) Hs'" if "n \<in> N" for n
    using full [OF that] swa [OF that] window_inv_D(8,9) [OF inv that] by simp
  moreover have "tree_shape N s'" using window_inv_D(1) [OF inv] tree_shape_cong [OF sh] by simp
  ultimately show ?thesis using shape_D(1) [OF sh] sz l u hs by (simp add: window_inv_def)
qed

section \<open>The operations\<close>

lemma uuids_after_inc:
  assumes u: "uuids_ok s Hs" and sh: "shape_of s' = shape_of s"
    and r: "uuid = None \<and> uuids_of s' = uuids_of s \<and> window_part s 0 (path s node) = path s node \<or>
      (\<exists>ps n qs x. path s node = ps @ n # qs \<and> window_part s 0 (path s node) = ps @ [n] \<and> uuid = Some x \<and> marked s s' n x)"
    and d: "distinct (path s node)"
  shows "uuids_ok s' (add_mset \<lparr>h_node = node, h_uuid = uuid, h_swa = True\<rparr> Hs)"
    "\<And>g n. g \<in># Hs \<Longrightarrow> ends_window s' (h_uuid g) n = ends_window s (h_uuid g) n"
    "swa_part s' \<lparr>h_node = node, h_uuid = uuid, h_swa = True\<rparr> = window_part s 0 (path s node)"
proof -
  have "uuids_ok s' (add_mset \<lparr>h_node = node, h_uuid = uuid, h_swa = True\<rparr> Hs) \<and>
    (\<forall>g n. g \<in># Hs \<longrightarrow> ends_window s' (h_uuid g) n = ends_window s (h_uuid g) n) \<and>
    take_to s' uuid (path s node) = window_part s 0 (path s node)"
    using r
  proof (elim disjE exE conjE)
    assume "uuid = None" "uuids_of s' = uuids_of s" "window_part s 0 (path s node) = path s node"
    then show ?thesis using u ends_window_cong [of s' s] by (auto simp: take_to_None uuids_ok_def uuids_of_def)
  next
    fix ps n qs x
    assume n: "path s node = ps @ n # qs" "window_part s 0 (path s node) = ps @ [n]" "uuid = Some x" "marked s s' n x"
    have up: "swa_uuid s' n = Some x" "0 < x" "\<And>m. swa_uuid s' m = Some x \<longleftrightarrow> m = n" "x \<le> swa_uuid_counter s'" "swa_uuid_counter s \<le> swa_uuid_counter s'"
      "\<And>m y. swa_uuid s' m = Some y \<Longrightarrow> y \<noteq> x \<Longrightarrow> swa_uuid s m = Some y"
      using n(4) u by (auto simp: marked_def uuids_of_def uuids_ok_def split: if_splits dest: spec) fastforce+
    have "uuids_ok s' (add_mset \<lparr>h_node = node, h_uuid = uuid, h_swa = True\<rparr> Hs)"
      using u up n(3) unfolding uuids_ok_def by (auto) (metis le_trans)+
    moreover have "ends_window s' (h_uuid g) m = ends_window s (h_uuid g) m" if "g \<in># Hs" for g m
      using n(4) u that by (fastforce simp: marked_def uuids_of_def uuids_ok_def ends_window_def split: if_splits)
    moreover have "take_to s' uuid (path s node) = ps @ [n]"
      unfolding n(1,3) using up d n(1) by (intro take_to_split) (auto simp: ends_window_def)
    ultimately show ?thesis using n(2) by simp
  qed
  then show "uuids_ok s' (add_mset \<lparr>h_node = node, h_uuid = uuid, h_swa = True\<rparr> Hs)"
    "\<And>g n. g \<in># Hs \<Longrightarrow> ends_window s' (h_uuid g) n = ends_window s (h_uuid g) n"
    "swa_part s' \<lparr>h_node = node, h_uuid = uuid, h_swa = True\<rparr> = window_part s 0 (path s node)"
    by (simp_all add: swa_part_def path_cong [OF sh])
qed

lemma inc_lock_ok:
  assumes inv: "window_inv N s Hs" and node: "node \<in> insert (st_root s) N"
    and live: "\<forall>n \<in> set (window_part s 0 (path s node)). \<not> swa_tombstone s n"
  shows "\<exists>u s'. swa_inc_lock_ref node s = Inr (u, s') \<and> window_inv N s' (add_mset \<lparr>h_node = node, h_uuid = u, h_swa = True\<rparr> Hs) \<and>
    shape_of s' = shape_of s \<and> swa_part s' \<lparr>h_node = node, h_uuid = u, h_swa = True\<rparr> = window_part s 0 (path s node)"
proof -
  note D = window_inv_D [OF inv] and P = path_ok [OF window_inv_D(1) [OF inv] node]
  let ?ns = "path s node"
  have full: "\<forall>n \<in> set ?ns. 0 \<le> full_lock_ref s n" and swa: "\<forall>n \<in> set (window_part s 0 ?ns). \<not> swa_tombstone s n \<and> 0 \<le> swa_lock_ref s n"
    using D(8,9) P(3) live window_part_subset [of s 0 ?ns] by (auto simp: subset_iff)
  have fuel: "length ?ns < Suc (st_counter s)" and win: "0 < sliding_window_size s" using P(4) D(1) by (simp_all add: tree_shape_def)
  obtain u s' where s': "inc_loop (Suc (st_counter s)) (Some node) 0 None s = Inr (u, s')" "full_lock_ref s' = inc_at (full_lock_ref s) ?ns"
    "swa_lock_ref s' = inc_at (swa_lock_ref s) (window_part s 0 ?ns)" "shape_of s' = shape_of s" "rest_of s' = rest_of s"
    "swa_sizes_ok N s \<longrightarrow> swa_sizes_ok N s'"
    "u = None \<and> uuids_of s' = uuids_of s \<and> window_part s 0 ?ns = ?ns \<or>
     (\<exists>ps n qs x. ?ns = ps @ n # qs \<and> window_part s 0 ?ns = ps @ [n] \<and> u = Some x \<and> marked s s' n x)"
    using inc_loop_window [OF P(1,2) fuel D(2) P(3) full win swa] by (elim exE conjE) (rule that)
  let ?h = "\<lparr>h_node = node, h_uuid = u, h_swa = True\<rparr>"
  have U: "uuids_ok s' (add_mset ?h Hs)" "\<And>g n. g \<in># Hs \<Longrightarrow> ends_window s' (h_uuid g) n = ends_window s (h_uuid g) n" "swa_part s' ?h = window_part s 0 ?ns"
    using uuids_after_inc [OF D(5) s'(4,7) P(2)] by auto
  have part: "swa_part s' g = swa_part s g" if "g \<in># Hs" for g using swa_part_cong [OF s'(4)] U(2) [OF that] by simp
  have "window_inv N s' (add_mset ?h Hs)"
  proof (rule window_inv_step [OF inv s'(4)])
    show "full_lock_ref s' n - full_lock_ref s n = count_of (holds_full s n) (add_mset ?h Hs) - count_of (holds_full s n) Hs" for n
      using s'(2) by (simp add: holds_full_def)
    have "filter_mset (holds_swa s' n) Hs = filter_mset (holds_swa s n) Hs" for n
      using part by (auto simp: holds_swa_def intro!: filter_mset_cong)
    then show "swa_lock_ref s' n - swa_lock_ref s n = count_of (holds_swa s' n) (add_mset ?h Hs) - count_of (holds_swa s n) Hs" for n
      using s'(3) U(3) by (simp add: holds_swa_def)
  qed (use s'(5,6) D(3,4,6,7) U node live part lru_agrees_cong [OF s'(5)] in \<open>auto simp: rest_of_def\<close>)
  then show ?thesis using s'(1,4) U(3) D(1) by (intro exI [of _ u] exI [of _ s']) (simp add: swa_inc_lock_ref_def tree_shape_def)
qed

lemma count_add: "count_of P (add_mset h Hs) = count_of P Hs + of_bool (P h)"
  by simp

lemma held_part:
  assumes inv: "window_inv N s (add_mset h Hs)"
  shows "\<forall>n \<in> set (path s (h_node h)). 0 < full_lock_ref s n" "\<forall>n \<in> set (swa_part s h). \<not> swa_tombstone s n \<and> 0 < swa_lock_ref s n"
    "set (path s (h_node h)) \<subseteq> N"
proof -
  note D = window_inv_D [OF inv]
  show sub: "set (path s (h_node h)) \<subseteq> N" using path_ok(3) [OF D(1)] D(6) [of h] by simp
  show "\<forall>n \<in> set (path s (h_node h)). 0 < full_lock_ref s n" using D(8) sub by (auto simp: holds_full_def)
  show "\<forall>n \<in> set (swa_part s h). \<not> swa_tombstone s n \<and> 0 < swa_lock_ref s n"
    using D(7) [of h] D(9) sub swa_part_subset [of s h] by (auto simp: holds_swa_def subset_iff)
qed

lemma dec_lock_ok:
  assumes inv: "window_inv N s (add_mset h Hs)"
  shows "\<exists>s'. swa_dec_lock_ref (h_node h) (h_uuid h) (\<not> h_swa h) s = Inr s' \<and> window_inv N s' Hs \<and> shape_of s' = shape_of s"
proof -
  note D = window_inv_D [OF inv] and H = held_part [OF inv]
  have "h_node h \<in> insert (st_root s) N" by (rule D(6)) simp
  note P = path_ok [OF D(1) this]
  have fuel: "length (path s (h_node h)) < Suc (st_counter s)" using P(4) by simp
  have sw: "h_swa h \<longrightarrow> (\<forall>n \<in> set (take_to s (h_uuid h) (path s (h_node h))). \<not> swa_tombstone s n \<and> 0 < swa_lock_ref s n)"
    using H(2) by (simp add: swa_part_def)
  obtain s' where s': "dec_loop (Suc (st_counter s)) (Some (h_node h)) (h_uuid h) (h_swa h) s = Inr s'"
    "full_lock_ref s' = dec_at (full_lock_ref s) (path s (h_node h))" "swa_lock_ref s' = dec_at (swa_lock_ref s) (swa_part s h)" "kept N s s'"
    using dec_loop_ok [OF P(1,2) fuel D(2) P(3) H(1) sw] by (auto simp: swa_part_def)
  have k: "shape_of s' = shape_of s" "rest_of s' = rest_of s" "uuids_of s' = uuids_of s" "swa_sizes_ok N s'" using s'(4) D(3) by (simp_all add: kept_def)
  have part: "swa_part s' = swa_part s" using swa_part_cong [OF k(1) ends_window_cong [OF k(3)]] by blast
  have "window_inv N s' Hs"
  proof (rule window_inv_step [OF inv k(1)])
    show "full_lock_ref s' n - full_lock_ref s n = count_of (holds_full s n) Hs - count_of (holds_full s n) (add_mset h Hs)" for n
      unfolding count_add using s'(2) by (simp add: holds_full_def)
    show "swa_lock_ref s' n - swa_lock_ref s n = count_of (holds_swa s' n) Hs - count_of (holds_swa s n) (add_mset h Hs)" for n
      unfolding count_add using s'(3) part by (simp add: holds_swa_def [abs_def])
    show "uuids_ok s' Hs" using D(5) k(3) by (auto simp: uuids_ok_def uuids_of_def)
  qed (use k D(4,6,7) part lru_agrees_cong [OF k(2)] in \<open>auto simp: rest_of_def\<close>)
  then show ?thesis using s'(1) D(1) k(1) by (simp add: swa_dec_lock_ref_def tree_shape_def)
qed

context window_pool
begin

lemma dec_swa_only_ok:
  assumes inv: "window_inv N s (add_mset h Hs)" and h: "h_swa h" and a: "pool_ok a" "\<forall>n \<in> N. freeable (st_value s n)"
  shows "\<exists>s' a'. dec_swa_lock_only free_swa (h_node h) (h_uuid h) s a = Inr (s', a') \<and> pool_ok a' \<and>
    window_inv N s' (add_mset (h\<lparr>h_swa := False\<rparr>) Hs) \<and> shape_of s' = shape_of s \<and> full_lock_ref s' = full_lock_ref s \<and>
    (\<forall>n. swa_tombstone s' n \<longrightarrow> swa_tombstone s n \<or> swa_lock_ref s' n = 0)"
proof -
  note D = window_inv_D [OF inv] and H = held_part [OF inv]
  have hn: "h_node h \<in> insert (st_root s) N" by (rule D(6)) simp
  note P = path_ok [OF D(1) hn]
  let ?h = "h\<lparr>h_swa := False\<rparr>"
  have fuel: "length (path s (h_node h)) < Suc (st_counter s)" using P(4) by simp
  have sw: "\<forall>n \<in> set (take_to s (h_uuid h) (path s (h_node h))). \<not> swa_tombstone s n \<and> 0 < swa_lock_ref s n" and pt: "swa_part s h = take_to s (h_uuid h) (path s (h_node h))"
    using H(2) h by (simp_all add: swa_part_def)
  obtain s' a' where s': "dec_swa_loop free_swa (Suc (st_counter s)) (Some (h_node h)) (h_uuid h) s a = Inr (s', a')" "pool_ok a'"
    "full_lock_ref s' = full_lock_ref s" "swa_lock_ref s' = dec_at (swa_lock_ref s) (swa_part s h)" "shape_of s' = shape_of s" "uuids_of s' = uuids_of s"
    "swa_sizes_ok N s \<longrightarrow> swa_sizes_ok N s'" "lru_agrees N s'"
    "swa_tombstone s' = (\<lambda>m. swa_tombstone s m \<or> m \<in> set (swa_part s h) \<and> st_children s m = 0 \<and> swa_lock_ref s m = 1)"
    using dec_swa_loop_ok [OF P(1,2) fuel D(2) P(3) sw D(4) a, folded pt] by (elim exE conjE) (rule that)
  have part: "swa_part s' = swa_part s" using swa_part_cong [OF s'(5) ends_window_cong [OF s'(6)]] by blast
  have gone: "swa_part s ?h = []" by (simp add: swa_part_def)
  have "\<not> swa_tombstone s' n" if g: "g \<in># Hs" "n \<in> set (swa_part s g)" for g n
  proof
    assume "swa_tombstone s' n"
    then have n: "n \<in> set (swa_part s h)" "swa_lock_ref s n = 1" using s'(9) D(7) [of g n] g by auto
    then have "n \<in> N" using H(3) swa_part_subset [of s h] by blast
    then have "count_of (holds_swa s n) (add_mset h Hs) = 1" using D(9) n(2) by simp
    then have "count_of (holds_swa s n) Hs = 0" using n(1) unfolding count_add by (simp add: holds_swa_def)
    then have "\<not> holds_swa s n g" using g(1) by auto
    then show False using g(2) by (simp add: holds_swa_def)
  qed
  then have "window_inv N s' (add_mset ?h Hs)"
  proof (intro window_inv_step [OF inv s'(5)])
    show "full_lock_ref s' n - full_lock_ref s n = count_of (holds_full s n) (add_mset ?h Hs) - count_of (holds_full s n) (add_mset h Hs)" for n
      unfolding count_add using s'(3) by (simp add: holds_full_def)
    show "swa_lock_ref s' n - swa_lock_ref s n = count_of (holds_swa s' n) (add_mset ?h Hs) - count_of (holds_swa s n) (add_mset h Hs)" for n
      unfolding count_add using s'(4) part gone by (simp add: holds_swa_def [abs_def])
    show "uuids_ok s' (add_mset ?h Hs)" using D(5) s'(6) by (auto simp: uuids_ok_def uuids_of_def)
    show "h_node g \<in> insert (st_root s) N" if "g \<in># add_mset ?h Hs" for g using that D(6) [of g] hn by auto
  qed (use s'(7,8) D(3) part gone in auto)
  moreover have "dec_swa_lock_only free_swa (h_node h) (h_uuid h) s a = Inr (s', a')" using s'(1) D(1) by (simp add: dec_swa_lock_only_def tree_shape_def)
  ultimately show ?thesis using s'(2-5,9) by (intro exI [of _ s'] exI [of _ a']) auto
qed

end

section \<open>All runs\<close>

text \<open>
  The steps of the protocol on tree, allocator and holders. A request locks a node only when the nodes
  of its window are no tombstones, which \<^verbatim>\<open>match_prefix\<close> ensures.
\<close>

inductive swa_step ::
  "('al \<Rightarrow> int list \<Rightarrow> 'al result) \<Rightarrow> nat set \<Rightarrow> swa_tree \<times> 'al \<times> holder multiset \<Rightarrow> swa_tree \<times> 'al \<times> holder multiset \<Rightarrow> bool"
  for free_swa N where
  step_lock: "swa_step free_swa N (s, a, Hs) (s', a, add_mset \<lparr>h_node = node, h_uuid = u, h_swa = True\<rparr> Hs)"
    if "node \<in> insert (st_root s) N" "\<forall>n \<in> set (window_part s 0 (path s node)). \<not> swa_tombstone s n" "swa_inc_lock_ref node s = Inr (u, s')"
| step_window: "swa_step free_swa N (s, a, add_mset h Hs) (s', a', add_mset (h\<lparr>h_swa := False\<rparr>) Hs)"
    if "h_swa h" "dec_swa_lock_only free_swa (h_node h) (h_uuid h) s a = Inr (s', a')"
| step_unlock: "swa_step free_swa N (s, a, add_mset h Hs) (s', a, Hs)"
    if "swa_dec_lock_ref (h_node h) (h_uuid h) (\<not> h_swa h) s = Inr s'"

context window_pool
begin

definition run_inv :: "nat set \<Rightarrow> swa_tree \<times> 'al \<times> holder multiset \<Rightarrow> bool" where
  "run_inv N = (\<lambda>(s, a, Hs). window_inv N s Hs \<and> pool_ok a \<and> (\<forall>n \<in> N. freeable (st_value s n)))"

lemma swa_step_inv: "swa_step free_swa N x y \<Longrightarrow> run_inv N x \<Longrightarrow> run_inv N y"
proof (induction rule: swa_step.induct)
  case (step_lock node s u s' a Hs)
  then show ?case using inc_lock_ok [of N s Hs node] shape_D(7) [of s' s] by (auto simp: run_inv_def)
next
  case (step_window h s a s' a' Hs)
  then show ?case using dec_swa_only_ok [of N s h Hs a] shape_D(7) [of s' s] by (auto simp: run_inv_def)
next
  case (step_unlock h s s' a Hs)
  then show ?case using dec_lock_ok [of N s h Hs] shape_D(7) [of s' s] by (auto simp: run_inv_def)
qed

lemma swa_run_inv: "(swa_step free_swa N)\<^sup>*\<^sup>* x y \<Longrightarrow> run_inv N x \<Longrightarrow> run_inv N y"
  by (induction rule: rtranclp_induct) (auto intro: swa_step_inv)

end

section \<open>The hybrid allocator\<close>

definition window_values :: "nat \<Rightarrow> nat \<Rightarrow> int list \<Rightarrow> bool" where
  "window_values sz ps v \<longleftrightarrow> distinct v \<and> page_slots ps ((\<lambda>i. i div int ps) ` set v) \<subseteq> {0 ..< int (sz + ps)}"

interpretation swp: window_pool free_swa "\<lambda>a. swa_inv a \<and> size_full a = sz \<and> sw_page_size a = ps" "window_values sz ps" for sz ps
proof
  fix a v assume a: "swa_inv a \<and> size_full a = sz \<and> sw_page_size a = ps" and v: "window_values sz ps v"
  have sh: "swa_shape a" "paired a" "distinct v" "pages_slots a (set v) \<subseteq> {0 ..< int (size_full a + sw_page_size a)}"
    using a v by (auto simp: swa_inv_def window_values_def pages_slots_def)
  obtain w m a' where f: "free_swa a v = Inr a'" "a' = a\<lparr>swa_attn_allocator := w, full_to_swa_index_mapping := m\<rparr>" "swa_shape a'" "paired a'"
    "mapped a' = mapped a - pages_slots a (set v)"
    using free_swa_ok [OF sh] by blast
  have "full_used a' = full_used a" by (simp add: f(2) full_used_def)
  then have "swa_inv a'" using a f(3-5) by (auto simp: swa_inv_def)
  then show "\<exists>a'. free_swa a v = Inr a' \<and> swa_inv a' \<and> size_full a' = sz \<and> sw_page_size a' = ps" using a f(1,2) by auto
qed

end
