(* ===== verification/Swa_Examples.thy ===== *)
theory Swa_Examples
  imports Swa_Protocol Req_Examples
begin

text \<open>
  A tree of two nodes below the root, two tokens and one token long, with a window of three tokens, on the
  hybrid allocator of theory \<open>Req_Examples\<close>.
\<close>

definition demo_tree :: swa_tree where
  "demo_tree = \<lparr>st_root = 0, st_disable = False, sliding_window_size = 3, st_counter = 5, st_parent = [1 \<mapsto> 0, 2 \<mapsto> 1],
     st_children = (\<lambda>n. if n = 2 then 0 else 1), st_value = (\<lambda>n. if n = 1 then [1, 2] else if n = 2 then [3] else []),
     swa_tombstone = (\<lambda>_. False), full_lock_ref = (\<lambda>n. if n = 0 then 1 else 0), swa_lock_ref = (\<lambda>n. if n = 0 then 1 else 0),
     swa_uuid = (\<lambda>_. None), swa_uuid_counter = 1, full_evictable_size = 3, full_protected_size = 0, swa_evictable_size = 3, swa_protected_size = 0,
     swa_lru = \<lparr>is_swa_list = True, lru_head = 3, lru_tail = 4, lru_cache = [1, 2], lru_prv = [2 \<mapsto> 3, 1 \<mapsto> 2, 4 \<mapsto> 1],
       lru_nxt = [3 \<mapsto> 2, 2 \<mapsto> 1, 1 \<mapsto> 4]\<rparr>\<rparr>"

lemma demo_tree_paths: "path demo_tree 2 = [2, 1]" "window_part demo_tree 0 [2, 1] = [2, 1]" "st_root demo_tree = 0"
  by (simp_all add: path_def demo_tree_def numeral_eq_Suc)

lemma demo_tree_shape: "tree_shape {1, 2} demo_tree"
proof -
  have u: "ups demo_tree (Some 0) []" "ups demo_tree (Some 1) [1]" "ups demo_tree (Some 2) [2, 1]" by (simp_all add: demo_tree_def)
  have "\<exists>ns. ups demo_tree (Some n) ns \<and> distinct ns \<and> set ns \<subseteq> {1, 2}" if n: "n \<in> {0, 1, 2}" for n
  proof -
    consider "n = 0" | "n = 1" | "n = 2" using n by blast
    then show ?thesis
      by cases (use u(1) in \<open>intro exI [of _ "[]"], simp\<close>, use u(2) in \<open>intro exI [of _ "[1]"], simp\<close>, use u(3) in \<open>intro exI [of _ "[2, 1]"], simp\<close>)
  qed
  then show ?thesis unfolding tree_shape_def demo_tree_paths(3) by (intro conjI) (simp_all add: demo_tree_def)
qed

lemma demo_tree_lru: "lru_agrees {1, 2} demo_tree"
proof -
  have "lru_ok (swa_lru demo_tree) [2, 1]" by (auto simp: lru_ok_def demo_tree_def)
  moreover have "\<not> swa_tombstone demo_tree n" "is_swa_list (swa_lru demo_tree)" for n by (simp_all add: demo_tree_def)
  ultimately show ?thesis using lru_invI [of "swa_lru demo_tree" "[2, 1]" "swa_info demo_tree"] by (auto simp: lru_agrees_def swa_info_def)
qed

lemma demo_tree_inv: "window_inv {1, 2} demo_tree {#}"
proof -
  have "swa_sizes_ok {1, 2} demo_tree" by (simp add: swa_sizes_ok_def part_defs demo_tree_def)
  moreover have "uuids_ok demo_tree {#}" by (simp add: uuids_ok_def demo_tree_def)
  moreover have "full_lock_ref demo_tree n = 0 \<and> swa_lock_ref demo_tree n = 0" if "n \<in> {1, 2}" for n using that by (auto simp: demo_tree_def)
  ultimately show ?thesis using demo_tree_shape demo_tree_lru by (simp add: window_inv_def)
qed

lemma demo_tree_values: "\<forall>n \<in> {1, 2}. window_values (size_full demo_swa) (sw_page_size demo_swa) (st_value demo_tree n)"
  by (simp add: window_values_def page_slots_def demo_tree_def demo_swa_def)

lemma demo_tree_lock:
  "\<exists>u s. swa_inc_lock_ref 2 demo_tree = Inr (u, s) \<and>
     swa_step free_swa {1, 2} (demo_tree, demo_swa, {#}) (s, demo_swa, {#\<lparr>h_node = 2, h_uuid = u, h_swa = True\<rparr>#}) \<and>
     swa_part s \<lparr>h_node = 2, h_uuid = u, h_swa = True\<rparr> = [2, 1]"
proof -
  have n: "2 \<in> insert (st_root demo_tree) {1, 2}" "\<forall>n \<in> set (window_part demo_tree 0 (path demo_tree 2)). \<not> swa_tombstone demo_tree n"
    by (simp_all add: demo_tree_def)
  from inc_lock_ok [OF demo_tree_inv this] obtain u s where s: "swa_inc_lock_ref 2 demo_tree = Inr (u, s)"
    "swa_part s \<lparr>h_node = 2, h_uuid = u, h_swa = True\<rparr> = [2, 1]" unfolding demo_tree_paths by blast
  from step_lock [OF n s(1), of free_swa demo_swa "{#}"] s show ?thesis by auto
qed

end
