(* ===== verification/Mm_Cache.thy ===== *)
theory Mm_Cache
  imports Lru_List
begin

text \<open>
  The cache of multimodal embeddings, class \<^verbatim>\<open>MultiModalStaticCache\<close> of \<^verbatim>\<open>mem_cache/multimodal_cache.py\<close>:
  a dictionary in the order of last use with a bound on the bytes it holds.
\<close>

section \<open>The cache\<close>

text \<open>Of a tensor only its size matters here, its content is \<open>tensor_data\<close>.\<close>

record tensor =
  element_size :: nat
  numel :: nat
  tensor_data :: "int list"

definition get_tensor_size :: "tensor \<Rightarrow> int" where
  "get_tensor_size t = int (element_size t * numel t)"

text \<open>The ordered dictionary lists its entries, the least recently used first; \<^verbatim>\<open>None\<close> may be a key.\<close>

type_synonym mm_entries = "(int option \<times> tensor) list"

record mm_cache =
  mm_max_size :: int
  mm_entries :: mm_entries
  mm_current_size :: int

definition mm_init :: "int \<Rightarrow> mm_cache" where
  "mm_init max_size = \<lparr>mm_max_size = max_size, mm_entries = [], mm_current_size = 0\<rparr>"

text \<open>\<open>py_hash\<close> is the built-in hash of a tuple of integers.\<close>

definition combine_hashes :: "(int list \<Rightarrow> int) \<Rightarrow> int list \<Rightarrow> int option" where
  "combine_hashes py_hash mm_hashes = (if mm_hashes = [] then None else Some (py_hash mm_hashes))"

definition move_to_end :: "int option \<Rightarrow> mm_entries \<Rightarrow> mm_entries" where
  "move_to_end k es = (case map_of es k of None \<Rightarrow> es | Some v \<Rightarrow> filter (\<lambda>e. fst e \<noteq> k) es @ [(k, v)])"

definition get_single :: "int option \<Rightarrow> mm_cache \<Rightarrow> tensor option \<times> mm_cache" where
  "get_single mm_hash c =
     (let embedding = map_of (mm_entries c) mm_hash in
      (embedding, if embedding \<noteq> None then c\<lparr>mm_entries := move_to_end mm_hash (mm_entries c)\<rparr> else c))"

definition mm_get :: "(int list \<Rightarrow> int) \<Rightarrow> int list \<Rightarrow> mm_cache \<Rightarrow> tensor option \<times> mm_cache" where
  "mm_get py_hash mm_hashes c =
     (let combined_hash = combine_hashes py_hash mm_hashes; embedding = map_of (mm_entries c) combined_hash in
      (embedding, if embedding \<noteq> None then c\<lparr>mm_entries := move_to_end combined_hash (mm_entries c)\<rparr> else c))"

text \<open>The loop of \<^verbatim>\<open>set\<close>: false when the dictionary is empty and the data does not fit.\<close>

fun evict_until :: "int \<Rightarrow> int \<Rightarrow> mm_entries \<Rightarrow> int \<Rightarrow> bool \<times> mm_entries \<times> int" where
  "evict_until max_size data_size es current_size =
     (if current_size + data_size > max_size
      then case es of
             [] \<Rightarrow> (False, [], current_size)
           | e # es' \<Rightarrow> evict_until max_size data_size es' (current_size - get_tensor_size (snd e))
      else (True, es, current_size))"

declare evict_until.simps [simp del]

definition mm_set :: "int option \<Rightarrow> tensor \<Rightarrow> mm_cache \<Rightarrow> bool \<times> mm_cache" where
  "mm_set mm_hash embedding c =
     (if mm_hash \<in> fst ` set (mm_entries c) then (True, c\<lparr>mm_entries := move_to_end mm_hash (mm_entries c)\<rparr>)
      else
        let data_size = get_tensor_size embedding;
            (ok, es, cur) = evict_until (mm_max_size c) data_size (mm_entries c) (mm_current_size c) in
        if ok then (True, c\<lparr>mm_entries := es @ [(mm_hash, embedding)], mm_current_size := cur + data_size\<rparr>)
        else (False, c\<lparr>mm_entries := es, mm_current_size := cur\<rparr>))"

definition mm_has :: "int option \<Rightarrow> mm_cache \<Rightarrow> bool" where
  "mm_has mm_hash c \<longleftrightarrow> mm_hash \<in> fst ` set (mm_entries c)"

definition mm_free :: "int option \<Rightarrow> mm_cache \<Rightarrow> bool \<times> mm_cache" where
  "mm_free mm_hash c =
     (case map_of (mm_entries c) mm_hash of
        None \<Rightarrow> (False, c)
      | Some old \<Rightarrow> (True, c\<lparr>mm_entries := filter (\<lambda>e. fst e \<noteq> mm_hash) (mm_entries c),
                           mm_current_size := mm_current_size c - get_tensor_size old\<rparr>))"

definition mm_clear :: "mm_cache \<Rightarrow> mm_cache" where
  "mm_clear c = c\<lparr>mm_entries := [], mm_current_size := 0\<rparr>"

definition mm_available_size :: "mm_cache \<Rightarrow> nat" where
  "mm_available_size c = length (mm_entries c)"

section \<open>Size and order\<close>

abbreviation entries_size :: "mm_entries \<Rightarrow> int" where
  "entries_size es \<equiv> sum_list (map (\<lambda>e. get_tensor_size (snd e)) es)"

definition mm_inv :: "mm_cache \<Rightarrow> bool" where
  "mm_inv c \<longleftrightarrow> distinct (map fst (mm_entries c)) \<and> mm_current_size c = entries_size (mm_entries c) \<and>
     mm_current_size c \<le> mm_max_size c"

lemma tensor_size_nonneg [simp]: "0 \<le> get_tensor_size t"
  by (simp add: get_tensor_size_def)

lemma entries_size_nonneg [simp]: "0 \<le> entries_size es"
  by (induction es) auto

lemma split_entry:
  assumes "map_of es k = Some v" "distinct (map fst es)"
  shows "\<exists>as bs. es = as @ (k, v) # bs \<and> filter (\<lambda>e. fst e \<noteq> k) es = as @ bs"
proof -
  obtain as bs where s: "es = as @ (k, v) # bs" using assms(1) by (meson map_of_SomeD split_list)
  moreover have "filter (\<lambda>e. fst e \<noteq> k) as = as" "filter (\<lambda>e. fst e \<noteq> k) bs = bs"
    using assms(2) s by (auto simp: filter_id_conv rev_image_eqI)
  ultimately show ?thesis by auto
qed

lemma move_to_end_ok:
  assumes "k \<in> fst ` set es" "distinct (map fst es)"
  shows "\<exists>as v bs. es = as @ (k, v) # bs \<and> move_to_end k es = as @ bs @ [(k, v)]"
proof -
  obtain v where v: "map_of es k = Some v" using assms(1) by (metis map_of_eq_None_iff option.exhaust)
  then show ?thesis using split_entry [OF v assms(2)] by (auto simp: move_to_end_def)
qed

lemma move_to_end_inv: "mm_inv c \<Longrightarrow> k \<in> fst ` set (mm_entries c) \<Longrightarrow> mm_inv (c\<lparr>mm_entries := move_to_end k (mm_entries c)\<rparr>)"
  using move_to_end_ok [of k "mm_entries c"] by (auto simp: mm_inv_def)

text \<open>
  The loop removes the shortest run of oldest entries that makes room, or everything when the data
  is larger than the whole cache.
\<close>

lemma evict_until_ok:
  assumes "cur = entries_size es" "0 \<le> ds"
  shows "\<exists>n \<le> length es. evict_until mx ds es cur = (ds \<le> mx, drop n es, entries_size (drop n es)) \<and>
    (ds \<le> mx \<longrightarrow> entries_size (drop n es) + ds \<le> mx) \<and> (\<forall>j < n. mx < entries_size (drop j es) + ds) \<and> (mx < ds \<longrightarrow> n = length es)"
  using assms(1)
proof (induction es arbitrary: cur)
  case Nil
  then show ?case using assms(2) by (auto simp: evict_until.simps)
next
  case (Cons e es)
  show ?case
  proof (cases "mx < cur + ds")
    case True
    obtain n where n: "n \<le> length es" "evict_until mx ds es (entries_size es) = (ds \<le> mx, drop n es, entries_size (drop n es))"
      "ds \<le> mx \<longrightarrow> entries_size (drop n es) + ds \<le> mx" "\<forall>j < n. mx < entries_size (drop j es) + ds" "mx < ds \<longrightarrow> n = length es"
      using Cons.IH [OF refl] by blast
    have "\<forall>j < Suc n. mx < entries_size (drop j (e # es)) + ds"
      using n(4) True Cons.prems by (auto simp: less_Suc_eq_0_disj)
    then show ?thesis using True n Cons.prems by (intro exI [of _ "Suc n"]) (auto simp: evict_until.simps [of _ _ "e # es"])
  next
    case False
    moreover have "ds \<le> mx" using False Cons.prems entries_size_nonneg [of "e # es"] by linarith
    ultimately show ?thesis using Cons.prems by (intro exI [of _ 0]) (auto simp: evict_until.simps [of _ _ "e # es"])
  qed
qed

lemma mm_set_new:
  assumes inv: "mm_inv c" and new: "\<not> mm_has k c" "0 \<le> mm_max_size c"
  shows "\<exists>n c'. mm_set k e c = (get_tensor_size e \<le> mm_max_size c, c') \<and> mm_inv c' \<and> mm_max_size c' = mm_max_size c \<and>
    mm_entries c' = drop n (mm_entries c) @ (if get_tensor_size e \<le> mm_max_size c then [(k, e)] else []) \<and>
    (\<forall>j < n. mm_max_size c < entries_size (drop j (mm_entries c)) + get_tensor_size e) \<and>
    (mm_max_size c < get_tensor_size e \<longrightarrow> mm_entries c' = [])"
proof -
  let ?es = "mm_entries c" and ?ds = "get_tensor_size e" and ?mx = "mm_max_size c"
  have i: "distinct (map fst ?es)" "mm_current_size c = entries_size ?es" using inv by (simp_all add: mm_inv_def)
  obtain n where n: "n \<le> length ?es" "evict_until ?mx ?ds ?es (mm_current_size c) = (?ds \<le> ?mx, drop n ?es, entries_size (drop n ?es))"
    "?ds \<le> ?mx \<longrightarrow> entries_size (drop n ?es) + ?ds \<le> ?mx" "\<forall>j < n. ?mx < entries_size (drop j ?es) + ?ds" "?mx < ?ds \<longrightarrow> n = length ?es"
    using evict_until_ok [OF i(2), of ?ds ?mx] by auto
  have d: "distinct (map fst (drop n ?es))" "k \<notin> fst ` set (drop n ?es)"
    using distinct_drop [OF i(1), of n] new(1) by (auto simp: mm_has_def drop_map dest: in_set_dropD)
  show ?thesis
  proof (cases "?ds \<le> ?mx")
    case True
    then show ?thesis using n d new(1) by (intro exI [of _ n]) (auto simp: mm_set_def mm_has_def mm_inv_def)
  next
    case False
    then show ?thesis using n new by (intro exI [of _ n]) (auto simp: mm_set_def mm_has_def mm_inv_def)
  qed
qed

lemma mm_free_ok:
  assumes "mm_inv c"
  shows "mm_inv (snd (mm_free k c))" "fst (mm_free k c) \<longleftrightarrow> mm_has k c" "\<not> mm_has k (snd (mm_free k c))"
proof -
  show "mm_inv (snd (mm_free k c))"
  proof (cases "map_of (mm_entries c) k")
    case (Some v)
    then show ?thesis using split_entry [OF Some] assms tensor_size_nonneg [of v]
      by (auto simp: mm_free_def mm_inv_def simp del: tensor_size_nonneg)
  qed (use assms in \<open>simp add: mm_free_def\<close>)
  show "fst (mm_free k c) \<longleftrightarrow> mm_has k c" "\<not> mm_has k (snd (mm_free k c))"
    by (auto simp: mm_free_def mm_has_def map_of_eq_None_iff split: option.splits) (metis map_of_eq_None_iff image_eqI fst_conv option.distinct(1))
qed

text \<open>\<^verbatim>\<open>get_single\<close> uses a key; the cache is a store ordered by last use.\<close>

definition mm_touch :: "int option \<Rightarrow> mm_cache \<Rightarrow> mm_cache result" where
  "mm_touch k c = Inr (snd (get_single k c))"

definition mm_order :: "mm_cache \<Rightarrow> int option list" where
  "mm_order c = rev (map fst (mm_entries c))"

interpretation mm: recency mm_inv mm_order mm_touch
proof
  show "distinct (mm_order c)" if "mm_inv c" for c using that by (simp add: mm_inv_def mm_order_def)
next
  fix c k assume inv: "mm_inv c" and k: "k \<in> set (mm_order c)"
  then have k': "k \<in> fst ` set (mm_entries c)" and d: "distinct (map fst (mm_entries c))" by (simp_all add: mm_order_def mm_inv_def)
  obtain as v bs where e: "mm_entries c = as @ (k, v) # bs" "move_to_end k (mm_entries c) = as @ bs @ [(k, v)]"
    using move_to_end_ok [OF k' d] by blast
  have "map_of (mm_entries c) k \<noteq> None" using k' by (simp add: map_of_eq_None_iff)
  then have t: "mm_touch k c = Inr (c\<lparr>mm_entries := as @ bs @ [(k, v)]\<rparr>)" using e by (simp add: mm_touch_def get_single_def Let_def)
  have "k \<notin> fst ` set bs" using d e(1) by auto
  then have "mm_order (c\<lparr>mm_entries := as @ bs @ [(k, v)]\<rparr>) = k # remove1 k (mm_order c)"
    by (simp add: mm_order_def e(1) remove1_append)
  then show "\<exists>c'. mm_touch k c = Inr c' \<and> mm_inv c' \<and> mm_order c' = k # remove1 k (mm_order c)"
    using t move_to_end_inv [OF inv k'] e(2) by simp
qed

section \<open>All runs\<close>

inductive mm_step :: "(int list \<Rightarrow> int) \<Rightarrow> mm_cache \<Rightarrow> mm_cache \<Rightarrow> bool" for py_hash where
  step_get: "mm_step py_hash c (snd (mm_get py_hash hs c))"
| step_get_single: "mm_step py_hash c (snd (get_single k c))"
| step_set: "mm_step py_hash c (snd (mm_set k e c))"
| step_free: "mm_step py_hash c (snd (mm_free k c))"
| step_clear: "mm_step py_hash c (mm_clear c)"

inductive_cases mm_stepE: "mm_step py_hash c c'"

lemma get_single_inv: "mm_inv c \<Longrightarrow> mm_inv (snd (get_single k c))"
  using move_to_end_inv [of c k] by (auto simp: get_single_def Let_def) (metis map_of_eq_None_iff option.distinct(1))

lemma mm_get_single: "mm_get py_hash hs c = get_single (combine_hashes py_hash hs) c"
  by (simp add: mm_get_def get_single_def Let_def)

lemma mm_set_inv: "mm_inv c \<Longrightarrow> 0 \<le> mm_max_size c \<Longrightarrow> mm_inv (snd (mm_set k e c))"
proof (cases "mm_has k c")
  case True
  then show "mm_inv c \<Longrightarrow> ?thesis" using move_to_end_inv [of c k] by (simp add: mm_set_def mm_has_def)
next
  case False
  assume "mm_inv c" "0 \<le> mm_max_size c"
  then show ?thesis using mm_set_new [of c k e] False by auto
qed

lemma mm_step_max: "mm_step py_hash c c' \<Longrightarrow> mm_max_size c' = mm_max_size c"
  by (erule mm_stepE) (auto simp: mm_get_single get_single_def mm_set_def mm_free_def mm_clear_def Let_def split: prod.splits option.splits if_splits)

lemma mm_step_inv: "mm_step py_hash c c' \<Longrightarrow> mm_inv c \<Longrightarrow> 0 \<le> mm_max_size c \<Longrightarrow> mm_inv c'"
  by (erule mm_stepE) (auto simp: mm_get_single get_single_inv mm_set_inv mm_free_ok(1), simp add: mm_clear_def mm_inv_def)

lemma mm_run_inv:
  assumes "(mm_step py_hash)\<^sup>*\<^sup>* (mm_init mx) c" "0 \<le> mx"
  shows "mm_inv c \<and> mm_max_size c = mx"
  using assms(1)
proof (induction rule: rtranclp_induct)
  case base
  then show ?case using assms(2) by (simp add: mm_init_def mm_inv_def)
next
  case (step c c')
  then show ?case using mm_step_inv [OF step(2)] mm_step_max [OF step(2)] assms(2) by simp
qed

end
