(* ===== verification/Eplb.thy ===== *)
theory Eplb
  imports Prelude Complex_Main
begin

text \<open>
  The load balancer for expert parallelism, \<^verbatim>\<open>eplb/eplb_algorithms/deepseek.py\<close>: experts are replicated by
  load, groups of experts are packed to nodes and replicas to devices. The functions work on
  tensors with one row per layer (or per layer and node); the model has them on one row. Loads are rational numbers.
\<close>

section \<open>Tensors\<close>

text \<open>\<^verbatim>\<open>gather\<close> raises when an index is out of range; \<^verbatim>\<open>assert a % b == 0\<close> fails on a zero divisor with another exception.\<close>

definition gather_n :: "'a list \<Rightarrow> nat list \<Rightarrow> 'a list result" where
  "gather_n xs ix = (if \<forall>i \<in> set ix. i < length xs then Inr (map ((!) xs) ix) else Inl RuntimeError)"

definition assert_multiple :: "nat \<Rightarrow> nat \<Rightarrow> unit result" where
  "assert_multiple a b = (if b = 0 then Inl ZeroDivisionError else py_assert (a mod b = 0))"

definition view_rows :: "nat \<Rightarrow> nat \<Rightarrow> 'a list \<Rightarrow> 'a list list" where
  "view_rows n k xs = map (\<lambda>i. slice (i * k) ((i + 1) * k) xs) [0 ..< n]"

text \<open>\<open>junk\<close> is the content of an uninitialised tensor; \<^verbatim>\<open>scatter_\<close> raises when an index is out of range.\<close>

definition inverse_perm :: "(nat \<Rightarrow> nat) \<Rightarrow> nat list \<Rightarrow> nat list result" where
  "inverse_perm junk perm =
     (if \<forall>i \<in> set perm. i < length perm
      then Inr (fold (\<lambda>k inv. inv[perm ! k := k]) [0 ..< length perm] (map junk [0 ..< length perm]))
      else Inl RuntimeError)"

text \<open>The position of the first largest element.\<close>

fun max_index :: "rat list \<Rightarrow> nat result" where
  "max_index [] = Inl IndexError"
| "max_index [x] = Inr 0"
| "max_index (x # y # ys) = rbind (max_index (y # ys)) (\<lambda>i. Inr (if (y # ys) ! i \<le> x then 0 else Suc i))"

section \<open>Packing\<close>

text \<open>\<^verbatim>\<open>min\<close> with a key returns the first smallest of the packs that are not full.\<close>

fun least_pack :: "rat list \<Rightarrow> nat list \<Rightarrow> nat result" where
  "least_pack pack_weights [] = Inl ValueError"
| "least_pack pack_weights [j] = Inr j"
| "least_pack pack_weights (j # k # ks) =
     rbind (least_pack pack_weights (k # ks)) (\<lambda>m. Inr (if pack_weights ! j \<le> pack_weights ! m then j else m))"

record packing =
  pack_weights :: "rat list"
  pack_items :: "nat list"
  pack_index :: "nat list"
  rank_in_pack :: "nat list"

definition pack_one :: "rat list \<Rightarrow> nat \<Rightarrow> nat \<Rightarrow> nat \<Rightarrow> packing \<Rightarrow> packing result" where
  "pack_one weight num_packs groups_per_pack g st =
     rbind (least_pack (pack_weights st) (filter (\<lambda>j. pack_items st ! j < groups_per_pack) [0 ..< num_packs])) (\<lambda>pack.
     rbind (py_assert (pack_items st ! pack < groups_per_pack)) (\<lambda>_.
     Inr (st\<lparr>pack_index := (pack_index st)[g := pack], rank_in_pack := (rank_in_pack st)[g := pack_items st ! pack],
             pack_weights := (pack_weights st)[pack := pack_weights st ! pack + weight ! g],
             pack_items := (pack_items st)[pack := pack_items st ! pack + 1]\<rparr>)))"

text \<open>
  \<open>argsort\<close> gives the indices of a descending sort. The result lists start with the placeholder \<^verbatim>\<open>-1\<close>, here 0,
  which every entry replaces.
\<close>

definition balanced_packing :: "(rat list \<Rightarrow> nat list) \<Rightarrow> rat list \<Rightarrow> nat \<Rightarrow> (nat list \<times> nat list) result" where
  "balanced_packing argsort weight num_packs =
     (let num_groups = length weight in
      rbind (assert_multiple num_groups num_packs) (\<lambda>_.
        let groups_per_pack = num_groups div num_packs in
        if groups_per_pack = 1 then Inr ([0 ..< num_groups], replicate num_groups 0)
        else rbind (rfold (pack_one weight num_packs groups_per_pack) (argsort weight)
                      \<lparr>pack_weights = replicate num_packs 0, pack_items = replicate num_packs 0,
                       pack_index = replicate num_groups 0, rank_in_pack = replicate num_groups 0\<rparr>) (\<lambda>st.
             Inr (pack_index st, rank_in_pack st))))"

section \<open>Replication\<close>

record replicas =
  phy2log :: "nat list"
  phy_rank :: "nat list"
  logcnt :: "nat list"

definition replicate_one :: "rat list \<Rightarrow> nat \<Rightarrow> replicas \<Rightarrow> replicas result" where
  "replicate_one weight i st =
     rbind (max_index (map2 (\<lambda>w c. w / of_nat c) weight (logcnt st))) (\<lambda>e.
     Inr (st\<lparr>phy2log := (phy2log st)[i := e], phy_rank := (phy_rank st)[i := logcnt st ! e], logcnt := (logcnt st)[e := logcnt st ! e + 1]\<rparr>))"

definition replicate_experts :: "rat list \<Rightarrow> nat \<Rightarrow> replicas result" where
  "replicate_experts weight num_phy =
     rbind (py_assert (length weight \<le> num_phy)) (\<lambda>_.
     rfold (replicate_one weight) [length weight ..< num_phy]
       \<lparr>phy2log = [0 ..< num_phy], phy_rank = replicate num_phy 0, logcnt = replicate (length weight) 1\<rparr>)"

section \<open>The layout of a layer\<close>

text \<open>Steps 2 and 3 on one node: replicate its experts and pack the replicas to its devices.\<close>

definition node_layout ::
  "(rat list \<Rightarrow> nat list) \<Rightarrow> (nat \<Rightarrow> nat) \<Rightarrow> nat \<Rightarrow> nat \<Rightarrow> nat \<Rightarrow> rat list \<Rightarrow> replicas result" where
  "node_layout argsort junk num_phy num_gpus phy_experts_per_gpu tokens_per_mlog =
     rbind (replicate_experts tokens_per_mlog num_phy) (\<lambda>r.
     rbind (gather_n (map2 (\<lambda>w c. w / of_nat c) tokens_per_mlog (logcnt r)) (phy2log r)) (\<lambda>tokens_per_phy.
     rbind (balanced_packing argsort tokens_per_phy num_gpus) (\<lambda>(pk, rk).
     rbind (inverse_perm junk (map2 (\<lambda>p k. p * phy_experts_per_gpu + k) pk rk)) (\<lambda>pphy2phy.
     rbind (gather_n (phy2log r) pphy2phy) (\<lambda>pphy2mlog.
     rbind (gather_n (phy_rank r) pphy2phy) (\<lambda>pphyrank.
     Inr \<lparr>phy2log = pphy2mlog, phy_rank = pphyrank, logcnt = logcnt r\<rparr>))))))"

definition rebalance_experts_hierarchical ::
  "(rat list \<Rightarrow> nat list) \<Rightarrow> (nat \<Rightarrow> nat) \<Rightarrow> rat list \<Rightarrow> nat \<Rightarrow> nat \<Rightarrow> nat \<Rightarrow> nat \<Rightarrow> replicas result" where
  "rebalance_experts_hierarchical argsort junk weight num_physical_experts num_groups num_nodes num_gpus =
     (let num_logical_experts = length weight in
      rbind (assert_multiple num_logical_experts num_groups) (\<lambda>_.
      rbind (assert_multiple num_groups num_nodes) (\<lambda>_.
      rbind (assert_multiple num_gpus num_nodes) (\<lambda>_.
      rbind (assert_multiple num_physical_experts num_gpus) (\<lambda>_.
      let group_size = num_logical_experts div num_groups; groups_per_node = num_groups div num_nodes;
          phy_experts_per_gpu = num_physical_experts div num_gpus; log_per_node = num_logical_experts div num_nodes;
          tokens_per_group = map sum_list (view_rows num_groups group_size weight) in
      rbind (balanced_packing argsort tokens_per_group num_nodes) (\<lambda>(group_pack_index, group_rank_in_pack).
      let log2mlog = concat (map2 (\<lambda>p k. map (\<lambda>j. (p * groups_per_node + k) * group_size + j) [0 ..< group_size])
                               group_pack_index group_rank_in_pack) in
      rbind (inverse_perm junk log2mlog) (\<lambda>mlog2log.
      rbind (gather_n weight mlog2log) (\<lambda>tokens_per_mlog.
      if log_per_node = 0 then Inl RuntimeError
      else
        rbind (rmap (node_layout argsort junk (num_physical_experts div num_nodes) (num_gpus div num_nodes) phy_experts_per_gpu)
                 (view_rows num_nodes log_per_node tokens_per_mlog)) (\<lambda>layouts.
        let pphy2mlog = concat (map2 (\<lambda>node r. map (\<lambda>e. e + node * log_per_node) (phy2log r)) [0 ..< num_nodes] layouts) in
        rbind (gather_n mlog2log pphy2mlog) (\<lambda>pphy2log.
        rbind (gather_n (concat (map logcnt layouts)) log2mlog) (\<lambda>cnt.
        Inr \<lparr>phy2log = pphy2log, phy_rank = concat (map phy_rank layouts), logcnt = cnt\<rparr>)))))))))))"

section \<open>All layers\<close>

text \<open>
  The tensors have at least one layer, all of \<open>num_logical_experts\<close> entries. A row of the table from logical to physical experts, of \<open>maxlogcnt\<close> entries per logical expert.
\<close>

definition log2phy_row :: "nat \<Rightarrow> nat \<Rightarrow> nat \<Rightarrow> replicas \<Rightarrow> int list list result" where
  "log2phy_row num_logical_experts maxlogcnt num_replicas r =
     (let ix = map2 (\<lambda>e k. e * maxlogcnt + k) (phy2log r) (phy_rank r); n = num_logical_experts * maxlogcnt in
      if \<forall>i \<in> set ix. i < n
      then Inr (view_rows num_logical_experts maxlogcnt
                  (fold (\<lambda>p row. row[ix ! p := int p]) [0 ..< num_replicas] (replicate n (- 1))))
      else Inl RuntimeError)"

definition rebalance_experts ::
  "(rat list \<Rightarrow> nat list) \<Rightarrow> (nat \<Rightarrow> nat) \<Rightarrow> rat list list \<Rightarrow> nat \<Rightarrow> nat \<Rightarrow> nat \<Rightarrow> nat \<Rightarrow> nat \<Rightarrow> bool \<Rightarrow> (nat list list \<times> int list list list \<times> nat list list) result" where
  "rebalance_experts argsort junk weight num_logical_experts num_replicas num_groups num_nodes num_gpus enable_hierarchical =
     rbind (rmap (\<lambda>w. if enable_hierarchical
                      then rebalance_experts_hierarchical argsort junk w num_replicas num_groups num_nodes num_gpus
                      else rebalance_experts_hierarchical argsort junk w num_replicas 1 1 num_gpus) weight) (\<lambda>rs.
     if concat (map logcnt rs) = [] then Inl RuntimeError
     else
       let maxlogcnt = Max (set (concat (map logcnt rs))) in
       rbind (rmap (log2phy_row num_logical_experts maxlogcnt num_replicas) rs) (\<lambda>log2phy.
       Inr (map phy2log rs, log2phy, map logcnt rs)))"

end
