(* ===== verification/Eplb_Props.thy ===== *)
theory Eplb_Props
  imports Eplb
begin

text \<open>
  What the load balancer computes: a packing places every item in a seat of its own, the greedy
  replication minimises the largest load of a replica, and the layout of a layer gives every
  replica of every expert one physical slot, with the groups of experts kept on one node.
\<close>

section \<open>Scattering along an injective index\<close>

lemma length_scatter [simp]: "length (fold (\<lambda>k row. row[ix ! k := f k]) ks row) = length row"
  by (induction ks arbitrary: row) simp_all

lemma scatter_other: "j \<notin> (!) ix ` set ks \<Longrightarrow> fold (\<lambda>k row. row[ix ! k := f k]) ks row ! j = row ! j"
  by (induction ks arbitrary: row) auto

lemma scatter_at:
  assumes "distinct ks" "k \<in> set ks" "inj_on ((!) ix) (set ks)" "ix ! k < length row"
  shows "fold (\<lambda>k row. row[ix ! k := f k]) ks row ! (ix ! k) = f k"
  using assms
proof (induction ks arbitrary: row)
  case (Cons a ks)
  show ?case
  proof (cases "k = a")
    case True
    with Cons.prems have "ix ! k \<notin> (!) ix ` set ks" by (auto simp: inj_on_def)
    with True Cons.prems(4) show ?thesis by (simp add: scatter_other)
  next
    case False
    with Cons.prems Cons.IH [of "row[ix ! a := f a]"] show ?thesis by (simp add: inj_on_def)
  qed
qed simp

definition perm_list :: "nat list \<Rightarrow> bool" where
  "perm_list xs \<longleftrightarrow> distinct xs \<and> set xs = {..<length xs}"

lemma perm_listI: "distinct xs \<Longrightarrow> (\<And>i. i < length xs \<Longrightarrow> xs ! i < length xs) \<Longrightarrow> perm_list xs"
  unfolding perm_list_def
  by (intro conjI card_subset_eq) (auto simp: in_set_conv_nth distinct_card)

lemma perm_list_nth: "perm_list xs \<Longrightarrow> i < length xs \<Longrightarrow> xs ! i < length xs"
  by (metis lessThan_iff nth_mem perm_list_def)

lemma perm_list_eq: "perm_list xs \<Longrightarrow> i < length xs \<Longrightarrow> j < length xs \<Longrightarrow> xs ! i = xs ! j \<longleftrightarrow> i = j"
  by (simp add: nth_eq_iff_index_eq perm_list_def)

lemma perm_list_at: "perm_list xs \<Longrightarrow> j < length xs \<Longrightarrow> \<exists>i < length xs. xs ! i = j"
  by (metis in_set_conv_nth lessThan_iff perm_list_def)

lemma inverse_perm_ok:
  assumes "perm_list perm"
  shows "\<exists>inv. inverse_perm junk perm = Inr inv \<and> length inv = length perm \<and> perm_list inv \<and>
    (\<forall>k < length perm. inv ! (perm ! k) = k) \<and> (\<forall>k < length perm. perm ! (inv ! k) = k)"
proof -
  let ?n = "length perm"
  let ?inv = "fold (\<lambda>k inv. inv[perm ! k := k]) [0 ..< ?n] (map junk [0 ..< ?n])"
  have hit: "?inv ! (perm ! k) = k" if "k < ?n" for k
    using that assms by (intro scatter_at) (auto simp: inj_on_def perm_list_eq perm_list_nth)
  have hit2: "?inv ! k < ?n \<and> perm ! (?inv ! k) = k" if "k < ?n" for k
  proof -
    obtain i where "i < ?n" "perm ! i = k" using perm_list_at [OF assms] \<open>k < ?n\<close> by blast
    then show ?thesis using hit by auto
  qed
  have "perm_list ?inv"
  proof (rule perm_listI)
    have "inj_on ((!) ?inv) {..<?n}" by (rule inj_on_inverseI [where g = "(!) perm"]) (simp add: hit2)
    then show "distinct ?inv" by (simp add: distinct_conv_nth inj_on_def) blast
  qed (simp add: hit2)
  moreover have "\<forall>i \<in> set perm. i < ?n" using assms by (auto simp: perm_list_def)
  ultimately show ?thesis using hit hit2 by (simp add: inverse_perm_def)
qed

section \<open>Packing\<close>

lemma least_pack_ok:
  "ks \<noteq> [] \<Longrightarrow> \<exists>j. least_pack ws ks = Inr j \<and> j \<in> set ks \<and> (\<forall>k \<in> set ks. ws ! j \<le> ws ! k)"
proof (induction ws ks rule: least_pack.induct)
  case (3 ws j k ks)
  then obtain m where m: "least_pack ws (k # ks) = Inr m" "m \<in> set (k # ks)" "\<forall>k \<in> set (k # ks). ws ! m \<le> ws ! k"
    by auto
  then show ?case by (cases "ws ! j \<le> ws ! m") force+
qed auto

text \<open>
  The items \<open>done\<close> have a seat each: a pack and a rank below the number of items of the pack.
\<close>

definition seated :: "nat \<Rightarrow> nat \<Rightarrow> nat \<Rightarrow> nat set \<Rightarrow> packing \<Rightarrow> bool" where
  "seated n m g D st \<longleftrightarrow>
     length (pack_index st) = n \<and> length (rank_in_pack st) = n \<and> length (pack_items st) = m \<and>
     (\<forall>j < m. pack_items st ! j \<le> g) \<and> sum_list (pack_items st) = card D \<and>
     (\<forall>i \<in> D. pack_index st ! i < m \<and> rank_in_pack st ! i < pack_items st ! (pack_index st ! i)) \<and>
     inj_on (\<lambda>i. (pack_index st ! i, rank_in_pack st ! i)) D"

lemma sum_list_full: "\<forall>j < length xs. g \<le> xs ! j \<Longrightarrow> length xs * g \<le> sum_list (xs :: nat list)"
proof (induction xs)
  case (Cons x xs)
  then have "g \<le> x" "\<forall>j < length xs. g \<le> xs ! j" by force+
  with Cons.IH show ?case by simp
qed simp

lemma sum_list_update_Suc: "j < length xs \<Longrightarrow> sum_list (xs[j := Suc (xs ! j)]) = Suc (sum_list (xs :: nat list))"
  by (induction xs arbitrary: j) (auto split: nat.splits)

lemma pack_one_ok:
  assumes s: "seated n m g D st" and i: "i < n" "i \<notin> D" and D: "D \<subseteq> {..<n}" and n: "n = m * g"
  shows "\<exists>st'. pack_one weight m g i st = Inr st' \<and> seated n m g (insert i D) st'"
proof -
  have fin: "finite D" using D finite_subset by blast
  have "card (insert i D) \<le> n" using D i card_mono [of "{..<n}" "insert i D"] by simp
  then have lt: "sum_list (pack_items st) < m * g" using s i fin n by (simp add: seated_def)
  let ?free = "filter (\<lambda>j. pack_items st ! j < g) [0 ..< m]"
  have "?free \<noteq> []"
  proof
    assume "?free = []"
    then have "\<forall>j < length (pack_items st). g \<le> pack_items st ! j"
      using s by (auto simp: filter_empty_conv seated_def not_less)
    from sum_list_full [OF this] lt s show False by (simp add: seated_def)
  qed
  then obtain j where j: "least_pack (pack_weights st) ?free = Inr j" "j < m" "pack_items st ! j < g"
    using least_pack_ok [of ?free "pack_weights st"] by auto
  let ?st = "st\<lparr>pack_index := (pack_index st)[i := j], rank_in_pack := (rank_in_pack st)[i := pack_items st ! j],
    pack_weights := (pack_weights st)[j := pack_weights st ! j + weight ! i],
    pack_items := (pack_items st)[j := pack_items st ! j + 1]\<rparr>"
  have "pack_one weight m g i st = Inr ?st" using j by (simp add: pack_one_def py_assert_def)
  moreover have "seated n m g (insert i D) ?st"
  proof -
    have ne: "\<And>k xs v. k \<in> D \<Longrightarrow> xs[i := v] ! k = xs ! k" using i by (metis nth_list_update_neq)
    have new: "(pack_index st ! k, rank_in_pack st ! k) \<noteq> (j, pack_items st ! j)" if "k \<in> D" for k
      using that s by (auto simp: seated_def)
    let ?f = "\<lambda>k. ((pack_index st)[i := j] ! k, (rank_in_pack st)[i := pack_items st ! j] ! k)"
    have same: "?f k = (pack_index st ! k, rank_in_pack st ! k)" if "k \<in> D" for k by (simp add: ne [OF that])
    have "inj_on ?f D" using s inj_on_cong [of D ?f, OF same] by (simp add: seated_def)
    moreover have "?f i = (j, pack_items st ! j)" using s i by (simp add: seated_def)
    moreover have "(j, pack_items st ! j) \<notin> ?f ` (D - {i})"
    proof (rule notI, elim imageE)
      fix k assume k: "(j, pack_items st ! j) = ?f k" "k \<in> D - {i}"
      then have "k \<in> D" by blast
      from new [OF this] same [OF this] k(1) show False by (metis (no_types))
    qed
    ultimately have "inj_on ?f (insert i D)" by (simp only: inj_on_insert) simp
    moreover have "rank_in_pack st ! k < (pack_items st)[j := pack_items st ! j + 1] ! (pack_index st ! k)" if "k \<in> D" for k
      using s that j by (auto simp: seated_def nth_list_update less_Suc_eq)
    ultimately show ?thesis
      using s i j fin by (simp add: seated_def sum_list_update_Suc ne) (simp add: nth_list_update)
  qed
  ultimately show ?thesis by blast
qed

lemma pack_all_ok:
  assumes "seated n m g D st" "distinct gs" "set gs \<inter> D = {}" "set gs \<union> D \<subseteq> {..<n}" "n = m * g"
  shows "\<exists>st'. rfold (pack_one weight m g) gs st = Inr st' \<and> seated n m g (set gs \<union> D) st'"
  using assms
proof (induction gs arbitrary: st D)
  case (Cons i gs)
  then obtain st1 where st1: "pack_one weight m g i st = Inr st1" "seated n m g (insert i D) st1"
    using pack_one_ok [of n m g D st i weight] by auto
  from Cons.IH [OF st1(2)] Cons.prems st1(1) show ?case by auto
qed auto

definition packed :: "nat \<Rightarrow> nat \<Rightarrow> nat list \<Rightarrow> nat list \<Rightarrow> bool" where
  "packed m g pk rk \<longleftrightarrow> length pk = m * g \<and> length rk = m * g \<and> (\<forall>i < m * g. pk ! i < m \<and> rk ! i < g) \<and>
     inj_on (\<lambda>i. (pk ! i, rk ! i)) {..<m * g}"

lemma packed_bij: "packed m g pk rk \<Longrightarrow> bij_betw (\<lambda>i. (pk ! i, rk ! i)) {..<m * g} ({..<m} \<times> {..<g})"
  unfolding packed_def
  by (intro bij_betw_imageI card_subset_eq) (auto simp: card_image)

lemma balanced_packing_packed:
  assumes "perm_list (argsort weight)" "length (argsort weight) = length weight" "length weight = m * g" "0 < m"
  shows "\<exists>pk rk. balanced_packing argsort weight m = Inr (pk, rk) \<and> packed m g pk rk"
proof (cases "g = 1")
  case True
  with assms show ?thesis
    by (auto simp: balanced_packing_def assert_multiple_def py_assert_def packed_def inj_on_def Let_def)
next
  case False
  let ?n = "length weight"
  let ?st = "\<lparr>pack_weights = replicate m 0, pack_items = replicate m 0, pack_index = replicate ?n 0,
     rank_in_pack = replicate ?n 0\<rparr>"
  have "seated ?n m g {} ?st" by (simp add: seated_def sum_list_replicate)
  from pack_all_ok [OF this, of "argsort weight" weight] assms
  obtain st where st: "rfold (pack_one weight m g) (argsort weight) ?st = Inr st" "seated ?n m g {..<?n} st"
    by (auto simp: perm_list_def)
  from st(2) have "packed m g (pack_index st) (rank_in_pack st)"
    using assms(3) by (auto simp: seated_def packed_def intro: order_less_le_trans)
  moreover have "balanced_packing argsort weight m = Inr (pack_index st, rank_in_pack st)"
    using False st(1) assms(3,4) by (simp add: balanced_packing_def assert_multiple_def py_assert_def Let_def)
  ultimately show ?thesis by blast
qed

text \<open>A seat as one number; the numbers of all seats are a permutation.\<close>

lemma seat_less: "p < m \<Longrightarrow> r < g \<Longrightarrow> p * g + r < m * (g :: nat)"
proof -
  assume "p < m" "r < g"
  then have "p * g + r < Suc p * g" by simp
  also have "\<dots> \<le> m * g" using \<open>p < m\<close> by (simp only: mult_le_mono1 Suc_leI)
  finally show ?thesis .
qed

lemma seat_eq: "r < g \<Longrightarrow> r' < g \<Longrightarrow> p * g + r = p' * g + r' \<longleftrightarrow> p = p' \<and> r = (r' :: nat)"
  by (metis add_right_imp_eq div_less div_mult_self3 gr_implies_not0 add.right_neutral add.commute add_left_cancel)

lemma seat_div: "r < g \<Longrightarrow> (p * g + r) div g = (p :: nat)"
  by (metis div_less div_mult_self3 gr_implies_not0 add.right_neutral)

lemma packed_perm:
  assumes "packed m g pk rk"
  shows "perm_list (map2 (\<lambda>p k. p * g + k) pk rk)"
proof (rule perm_listI)
  show "distinct (map2 (\<lambda>p k. p * g + k) pk rk)"
    using assms by (auto simp: distinct_conv_nth packed_def seat_eq inj_on_def)
qed (use assms in \<open>auto simp: packed_def seat_less\<close>)

section \<open>Replication\<close>

lemma max_index_ok: "xs \<noteq> [] \<Longrightarrow> \<exists>e. max_index xs = Inr e \<and> e < length xs \<and> (\<forall>f < length xs. xs ! f \<le> xs ! e)"
proof (induction xs rule: max_index.induct)
  case (3 x y ys)
  then obtain i where i: "max_index (y # ys) = Inr i" "i < length (y # ys)" "\<forall>f < length (y # ys). (y # ys) ! f \<le> (y # ys) ! i"
    by auto
  then show ?case by (cases "(y # ys) ! i \<le> x") (auto simp: nth_Cons split: nat.splits intro: order_trans)
qed auto

text \<open>
  The first \<open>i\<close> physical experts have a replica each, and the counts are greedy: taking a replica away from any
  expert gives it at least the load of every other.
\<close>

definition replicated :: "nat \<Rightarrow> nat \<Rightarrow> nat \<Rightarrow> replicas \<Rightarrow> bool" where
  "replicated l n i r \<longleftrightarrow>
     length (phy2log r) = n \<and> length (phy_rank r) = n \<and> length (logcnt r) = l \<and> (\<forall>e < l. 1 \<le> logcnt r ! e) \<and>
     sum_list (logcnt r) = i \<and> (\<forall>p < i. phy2log r ! p < l \<and> phy_rank r ! p < logcnt r ! (phy2log r ! p)) \<and>
     inj_on (\<lambda>p. (phy2log r ! p, phy_rank r ! p)) {..<i}"

definition greedy :: "rat list \<Rightarrow> nat list \<Rightarrow> bool" where
  "greedy w c \<longleftrightarrow> (\<forall>e < length w. \<forall>f < length w. 2 \<le> c ! e \<longrightarrow> w ! f / of_nat (c ! f) \<le> w ! e / of_nat (c ! e - 1))"

lemma inj_on_snoc:
  assumes "inj_on (\<lambda>p. (xs ! p, ys ! p)) {..<i}" "i < length xs" "i < length ys" "\<forall>p < i. (xs ! p, ys ! p) \<noteq> (a, b)"
  shows "inj_on (\<lambda>p. (xs[i := a] ! p, ys[i := b] ! p)) {..<Suc i}"
proof -
  let ?f = "\<lambda>p. (xs[i := a] ! p, ys[i := b] ! p)"
  have same: "?f p = (xs ! p, ys ! p)" if "p \<in> {..<i}" for p using that by simp
  have "inj_on ?f {..<i}" using assms(1) inj_on_cong [of "{..<i}" ?f, OF same] by simp
  moreover have "?f i \<notin> ?f ` {..<i}"
  proof (rule notI, elim imageE)
    fix p assume "?f i = ?f p" "p \<in> {..<i}"
    with same [of p] assms(2-) show False by auto
  qed
  ultimately show ?thesis by (simp add: lessThan_Suc)
qed

lemma greedy_step:
  assumes g: "greedy w c" and w: "\<forall>x \<in> set w. 0 \<le> x" and c: "length c = length w" "\<forall>f < length w. 1 \<le> c ! f"
    and e: "e < length w" "\<forall>f < length w. w ! f / of_nat (c ! f) \<le> w ! e / of_nat (c ! e)"
  shows "greedy w (c[e := Suc (c ! e)])"
proof -
  have le: "w ! f / of_nat (c[e := Suc (c ! e)] ! f) \<le> w ! f / of_nat (c ! f)" if "f < length w" for f
    using that w c by (cases "f = e") (auto simp: divide_left_mono Suc_le_eq)
  have "w ! f / of_nat (c[e := Suc (c ! e)] ! f) \<le> w ! d / of_nat (c[e := Suc (c ! e)] ! d - 1)"
    if "d < length w" "f < length w" "2 \<le> c[e := Suc (c ! e)] ! d" for d f
  proof (cases "d = e")
    case True
    with le [OF that(2)] e c that show ?thesis by (auto intro: order_trans)
  next
    case False
    with g that have "w ! f / of_nat (c ! f) \<le> w ! d / of_nat (c ! d - 1)" by (simp add: greedy_def)
    with le [OF that(2)] False show ?thesis by (auto intro: order_trans)
  qed
  then show ?thesis by (simp add: greedy_def)
qed

lemma replicate_one_ok:
  assumes r: "replicated (length w) n i st" and g: "greedy w (logcnt st)" and i: "i < n" and l: "w \<noteq> []"
    and w: "\<forall>x \<in> set w. 0 \<le> x"
  shows "\<exists>st'. replicate_one w i st = Inr st' \<and> replicated (length w) n (Suc i) st' \<and> greedy w (logcnt st')"
proof -
  let ?loads = "map2 (\<lambda>w c. w / of_nat c) w (logcnt st)"
  have len: "length (logcnt st) = length w" using r by (simp add: replicated_def)
  then have "?loads \<noteq> []" using l by (cases w; cases "logcnt st") simp_all
  then obtain e where e: "max_index ?loads = Inr e" "e < length w"
      "\<forall>f < length w. w ! f / of_nat (logcnt st ! f) \<le> w ! e / of_nat (logcnt st ! e)"
    using max_index_ok [of ?loads] len by auto
  let ?st = "st\<lparr>phy2log := (phy2log st)[i := e], phy_rank := (phy_rank st)[i := logcnt st ! e],
     logcnt := (logcnt st)[e := Suc (logcnt st ! e)]\<rparr>"
  have "replicate_one w i st = Inr ?st" using e(1) by (simp add: replicate_one_def)
  moreover have "greedy w (logcnt ?st)"
    using greedy_step [OF g w len _ e(2,3)] r by (simp add: replicated_def)
  moreover have "replicated (length w) n (Suc i) ?st"
  proof -
    have "inj_on (\<lambda>p. ((phy2log st)[i := e] ! p, (phy_rank st)[i := logcnt st ! e] ! p)) {..<Suc i}"
      using r i by (intro inj_on_snoc) (auto simp: replicated_def)
    then show ?thesis using r i e(2) len
      by (auto simp: replicated_def sum_list_update_Suc nth_list_update less_Suc_eq)
  qed
  ultimately show ?thesis by blast
qed

lemma replicate_loop_ok:
  assumes "replicated (length w) n i st" "greedy w (logcnt st)" "i \<le> n" "w \<noteq> []" "\<forall>x \<in> set w. 0 \<le> x"
  shows "\<exists>st'. rfold (replicate_one w) [i ..< n] st = Inr st' \<and> replicated (length w) n n st' \<and> greedy w (logcnt st')"
  using assms
proof (induction "n - i" arbitrary: i st)
  case (Suc d)
  then have i: "i < n" by simp
  from replicate_one_ok [OF Suc.prems(1,2) i Suc.prems(4,5)] obtain st1
    where st1: "replicate_one w i st = Inr st1" "replicated (length w) n (Suc i) st1" "greedy w (logcnt st1)" by blast
  from Suc.hyps(1) [of "Suc i" st1] Suc.hyps(2) i st1 Suc.prems(4,5)
  show ?case by (auto simp: upt_rec [of i n])
qed simp

lemma replicate_experts_ok:
  assumes "w \<noteq> []" "\<forall>x \<in> set w. 0 \<le> x" "length w \<le> n"
  shows "\<exists>r. replicate_experts w n = Inr r \<and> replicated (length w) n n r \<and> greedy w (logcnt r)"
proof -
  let ?st = "\<lparr>phy2log = [0 ..< n], phy_rank = replicate n 0, logcnt = replicate (length w) 1\<rparr>"
  have "replicated (length w) n (length w) ?st" using assms(3)
    by (auto simp: replicated_def sum_list_replicate inj_on_def)
  moreover have "greedy w (logcnt ?st)" by (simp add: greedy_def)
  ultimately show ?thesis using replicate_loop_ok [of w n "length w" ?st] assms
    by (simp add: replicate_experts_def py_assert_def)
qed

text \<open>Greedy counts minimise the largest load among all counts with the same sum.\<close>

definition max_load :: "rat list \<Rightarrow> nat list \<Rightarrow> rat" where
  "max_load w c = Max (set (map2 (\<lambda>x k. x / of_nat k) w c))"

lemma max_load_ge: "length c = length w \<Longrightarrow> e < length w \<Longrightarrow> w ! e / of_nat (c ! e) \<le> max_load w c"
  unfolding max_load_def by (rule Max_ge) (auto simp: set_zip intro!: image_eqI [where x = "(w ! e, c ! e)"])

lemma max_load_at: "length c = length w \<Longrightarrow> w \<noteq> [] \<Longrightarrow> \<exists>e < length w. max_load w c = w ! e / of_nat (c ! e)"
proof -
  assume a: "length c = length w" "w \<noteq> []"
  then have "set (map2 (\<lambda>x k. x / of_nat k) w c) \<noteq> {}" by (cases w; cases c) simp_all
  from Max_in [OF _ this] show ?thesis by (auto simp: max_load_def set_zip)
qed

lemma greedy_optimal:
  assumes g: "greedy w c" and w: "w \<noteq> []" "\<forall>x \<in> set w. 0 \<le> x"
    and c: "length c = length w" and c': "length c' = length w" "\<forall>k \<in> set c'. 1 \<le> k" "sum_list c' = sum_list c"
  shows "max_load w c \<le> max_load w c'"
proof -
  obtain f where f: "f < length w" "max_load w c = w ! f / of_nat (c ! f)" using max_load_at [OF c w(1)] by blast
  have mono: "w ! e / of_nat b \<le> w ! e / of_nat a" if "e < length w" "1 \<le> a" "a \<le> b" for e a b
    using that w(2) by (auto intro!: divide_left_mono)
  have "\<exists>e < length w. w ! f / of_nat (c ! f) \<le> w ! e / of_nat (c' ! e)"
  proof (cases "c' ! f \<le> c ! f")
    case True
    with mono [of f "c' ! f" "c ! f"] f c' show ?thesis by auto
  next
    case False
    have "\<exists>e < length w. c' ! e < c ! e"
    proof (rule ccontr)
      assume "\<not> ?thesis"
      then have "(\<Sum>e < length w. c ! e) < (\<Sum>e < length w. c' ! e)"
        using False f(1) by (intro sum_strict_mono_ex1) (use not_le in \<open>blast+\<close>)
      with c c' show False by (simp add: sum_list_sum_nth atLeast0LessThan)
    qed
    then obtain e where e: "e < length w" "c' ! e < c ! e" by blast
    with c' have "1 \<le> c' ! e" by simp
    with e g f have "w ! f / of_nat (c ! f) \<le> w ! e / of_nat (c ! e - 1)" by (auto simp: greedy_def)
    also have "\<dots> \<le> w ! e / of_nat (c' ! e)" using mono [of e "c' ! e" "c ! e - 1"] e \<open>1 \<le> c' ! e\<close> by auto
    finally show ?thesis using e by blast
  qed
  then show ?thesis using f max_load_ge [OF c'(1)] by (metis order_trans)
qed

section \<open>Layout of a layer\<close>

text \<open>Reordering the physical experts, and renaming the logical ones.\<close>

lemma gather_n_ok: "(\<And>i. i < length ix \<Longrightarrow> ix ! i < length xs) \<Longrightarrow> gather_n xs ix = Inr (map ((!) xs) ix)"
  by (auto simp: gather_n_def in_set_conv_nth)

lemma sum_list_perm: "perm_list ix \<Longrightarrow> length ix = length xs \<Longrightarrow> sum_list (map ((!) xs) ix) = sum_list (xs :: nat list)"
  by (simp add: sum_list_sum_nth [of xs] sum_list_distinct_conv_sum_set perm_list_def atLeast0LessThan)

lemma replicated_reorder:
  assumes r: "replicated l n n r" and ix: "perm_list ix" "length ix = n"
  shows "replicated l n n \<lparr>phy2log = map ((!) (phy2log r)) ix, phy_rank = map ((!) (phy_rank r)) ix, logcnt = logcnt r\<rparr>"
proof -
  have lt: "ix ! i < n" if "i < n" for i using perm_list_nth [OF ix(1)] that ix(2) by simp
  have "inj_on (\<lambda>p. (phy2log r ! p, phy_rank r ! p)) {..<n}" using r by (simp add: replicated_def)
  then have "inj_on (\<lambda>p. (phy2log r ! (ix ! p), phy_rank r ! (ix ! p))) {..<n}"
    using lt perm_list_eq [OF ix(1)] ix(2) unfolding inj_on_def by (metis lessThan_iff)
  moreover have "\<forall>p < n. (phy2log r ! (ix ! p) < l \<and> phy_rank r ! (ix ! p) < logcnt r ! (phy2log r ! (ix ! p)))"
    using r lt by (simp add: replicated_def)
  ultimately show ?thesis using r ix(2) by (simp add: replicated_def inj_on_def)
qed

lemma replicated_rename:
  assumes r: "replicated l n n r" and f: "perm_list f" "length f = l" and g: "perm_list g" "length g = l"
    and fg: "\<forall>x < l. f ! (g ! x) = x"
  shows "replicated l n n \<lparr>phy2log = map ((!) g) (phy2log r), phy_rank = phy_rank r, logcnt = map ((!) (logcnt r)) f\<rparr>"
proof -
  have lt: "f ! i < l" "g ! i < l" if "i < l" for i
    using perm_list_nth [OF f(1)] perm_list_nth [OF g(1)] that f(2) g(2) by simp_all
  have rg: "\<forall>p < n. phy2log r ! p < l" using r by (simp add: replicated_def)
  have "inj_on (\<lambda>p. (phy2log r ! p, phy_rank r ! p)) {..<n}" using r by (simp add: replicated_def)
  then have "inj_on (\<lambda>p. (g ! (phy2log r ! p), phy_rank r ! p)) {..<n}"
    using rg fg unfolding inj_on_def by (metis lessThan_iff Pair_inject)
  then show ?thesis using r rg f(2) lt fg sum_list_perm [OF f(1), of "logcnt r"]
    by (simp add: replicated_def inj_on_def)
qed

lemma node_layout_ok:
  assumes w: "w \<noteq> []" "\<forall>x \<in> set w. 0 \<le> x" "length w \<le> n" and n: "n = G * q" "0 < G"
    and sort: "\<And>xs. perm_list (argsort xs) \<and> length (argsort xs) = length xs"
  shows "\<exists>r. node_layout argsort junk n G q w = Inr r \<and> replicated (length w) n n r \<and> greedy w (logcnt r)"
proof -
  obtain r where r: "replicate_experts w n = Inr r" "replicated (length w) n n r" "greedy w (logcnt r)"
    using replicate_experts_ok [OF w] by blast
  then have len: "length (phy2log r) = n" "length (phy_rank r) = n" "length (logcnt r) = length w"
    and rg: "\<And>p. p < n \<Longrightarrow> phy2log r ! p < length w" by (simp_all add: replicated_def)
  let ?t = "map ((!) (map2 (\<lambda>w c. w / of_nat c) w (logcnt r))) (phy2log r)"
  have t: "gather_n (map2 (\<lambda>w c. w / of_nat c) w (logcnt r)) (phy2log r) = Inr ?t"
    by (rule gather_n_ok) (simp add: len rg)
  obtain pk rk where b: "balanced_packing argsort ?t G = Inr (pk, rk)" "packed G q pk rk"
    using balanced_packing_packed [of argsort ?t G q] sort [of ?t] len n by auto
  let ?ix = "map2 (\<lambda>p k. p * q + k) pk rk"
  have lix: "length ?ix = n" using b(2) n by (simp add: packed_def)
  obtain iv where iv: "inverse_perm junk ?ix = Inr iv" "length iv = n" "perm_list iv"
    using inverse_perm_ok [OF packed_perm [OF b(2)], of junk] lix by auto
  have "gather_n (phy2log r) iv = Inr (map ((!) (phy2log r)) iv)" "gather_n (phy_rank r) iv = Inr (map ((!) (phy_rank r)) iv)"
    using perm_list_nth [OF iv(3)] iv(2) len by (auto intro: gather_n_ok)
  then show ?thesis using r t b(1) iv replicated_reorder [OF r(2) iv(3,2)] by (simp add: node_layout_def)
qed

text \<open>Lists of blocks of the same length.\<close>

lemma concat_blocks:
  assumes "\<forall>xs \<in> set xss. length xs = k"
  shows "length (concat xss) = length xss * k"
    "i < length xss \<Longrightarrow> j < k \<Longrightarrow> concat xss ! (i * k + j) = xss ! i ! j"
  using assms
proof (induction xss arbitrary: i)
  case (Cons xs xss)
  { case 1 with Cons show ?case by simp }
  { case 2 with Cons show ?case by (cases i) (simp_all add: nth_append add.assoc) }
qed simp_all

lemma block_split: "p < n * k \<Longrightarrow> p = (p div k) * k + p mod k \<and> p div k < n \<and> p mod k < (k :: nat)"
  by (cases "k = 0") (auto simp: less_mult_imp_div_less)

lemma concat_block:
  assumes "\<forall>xs \<in> set xss. length xs = k" "p < length xss * k"
  shows "concat xss ! p = xss ! (p div k) ! (p mod k)"
  using concat_blocks(2) [OF assms(1), of "p div k" "p mod k"] block_split [OF assms(2)] by simp

lemma block_eq: "k \<noteq> 0 \<Longrightarrow> i div k = j div k \<Longrightarrow> i mod k = j mod k \<Longrightarrow> i = (j :: nat)"
  by (metis div_mult_mod_eq)

text \<open>The number of an expert once the groups are packed to the nodes.\<close>

lemma expand_nth:
  assumes "packed m g pk rk" "e < m * g * k"
  shows "concat (map2 (\<lambda>p r. map (\<lambda>j. (p * g + r) * k + j) [0 ..< k]) pk rk) ! e =
    (pk ! (e div k) * g + rk ! (e div k)) * k + e mod k"
proof -
  let ?xss = "map2 (\<lambda>p r. map (\<lambda>j. (p * g + r) * k + j) [0 ..< k]) pk rk"
  have len: "length pk = m * g" "length rk = m * g" using assms(1) by (simp_all add: packed_def)
  have "\<forall>xs \<in> set ?xss. length xs = k" by auto
  with concat_block [of ?xss k e] assms(2) block_split [of e "m * g" k] len show ?thesis by simp
qed

lemma expand_length:
  "packed m g pk rk \<Longrightarrow> length (concat (map2 (\<lambda>p r. map (\<lambda>j. (p * g + r) * k + j) [0 ..< k]) pk rk)) = m * g * k"
  by (subst concat_blocks(1) [where k = k]) (auto simp: packed_def)

lemma expand_perm:
  assumes "packed m g pk rk"
  shows "perm_list (concat (map2 (\<lambda>p r. map (\<lambda>j. (p * g + r) * k + j) [0 ..< k]) pk rk))" (is "perm_list ?l")
proof (rule perm_listI)
  let ?seats = "map2 (\<lambda>p r. p * g + r) pk rk"
  have len: "length pk = m * g" "length rk = m * g" using assms by (simp_all add: packed_def)
  have nth: "?l ! e = ?seats ! (e div k) * k + e mod k" if "e < m * g * k" for e
    using expand_nth [OF assms that] block_split [OF that] assms by (simp add: packed_def)
  note seats = packed_perm [OF assms]
  show "?l ! e < length ?l" if "e < length ?l" for e
    using that nth [of e] perm_list_nth [OF seats, of "e div k"] block_split [of e "m * g" k] len
    by (simp add: expand_length [OF assms] seat_less)
  show "distinct ?l" unfolding distinct_conv_nth expand_length [OF assms]
  proof (intro allI impI notI)
    fix i j assume ij: "i < m * g * k" "j < m * g * k" "i \<noteq> j" "?l ! i = ?l ! j"
    note s = block_split [OF ij(1)] block_split [OF ij(2)]
    with ij nth have "?seats ! (i div k) = ?seats ! (j div k)" "i mod k = j mod k" by (simp_all add: seat_eq)
    with perm_list_eq [OF seats, of "i div k" "j div k"] s len have "i div k = j div k" by simp
    with \<open>i mod k = j mod k\<close> s have "i = j" by metis
    with ij(3) show False ..
  qed
qed

lemma expand_node:
  assumes "packed m g pk rk" "e < m * g * k"
  shows "concat (map2 (\<lambda>p r. map (\<lambda>j. (p * g + r) * k + j) [0 ..< k]) pk rk) ! e div (g * k) = pk ! (e div k)"
proof -
  note s = block_split [OF assms(2)]
  then have "rk ! (e div k) < g" using assms(1) by (simp add: packed_def)
  then have "rk ! (e div k) * k + e mod k < g * k" using s by (intro seat_less) simp_all
  then show ?thesis unfolding expand_nth [OF assms]
    using seat_div [of "rk ! (e div k) * k + e mod k" "g * k" "pk ! (e div k)"]
    by (simp add: add_mult_distrib mult.assoc add.assoc)
qed

text \<open>The layouts of the nodes side by side.\<close>

lemma sum_list_concat: "sum_list (concat xss) = sum_list (map sum_list (xss :: nat list list))"
  by (induction xss) simp_all

lemma side_by_side:
  assumes R: "\<forall>r \<in> set rs. replicated l n n r" and m: "length rs = m"
  defines "P \<equiv> concat (map2 (\<lambda>node r. map (\<lambda>e. e + node * l) (phy2log r)) [0 ..< m] rs)"
  shows "replicated (m * l) (m * n) (m * n)
      \<lparr>phy2log = P, phy_rank = concat (map phy_rank rs), logcnt = concat (map logcnt rs)\<rparr>"
    and "\<forall>p < m * n. P ! p div l = p div n"
proof -
  have Ri: "replicated l n n (rs ! i)" if "i < m" for i using R m that by simp
  have lens: "\<forall>xs \<in> set (map2 (\<lambda>node r. map (\<lambda>e. e + node * l) (phy2log r)) [0 ..< m] rs). length xs = n"
    "\<forall>xs \<in> set (map phy_rank rs). length xs = n" "\<forall>xs \<in> set (map logcnt rs). length xs = l"
    using R by (auto simp: replicated_def dest!: set_zip_rightD)
  have P: "P ! p = (p div n) * l + phy2log (rs ! (p div n)) ! (p mod n)"
    and K: "concat (map phy_rank rs) ! p = phy_rank (rs ! (p div n)) ! (p mod n)"
    and r: "phy2log (rs ! (p div n)) ! (p mod n) < l"
      "phy_rank (rs ! (p div n)) ! (p mod n) < logcnt (rs ! (p div n)) ! (phy2log (rs ! (p div n)) ! (p mod n))"
    if "p < m * n" for p
    using concat_block [OF lens(1), of p] concat_block [OF lens(2), of p] block_split [OF that] Ri [of "p div n"] that m
    by (simp_all add: P_def replicated_def)
  have C: "concat (map logcnt rs) ! (i * l + e) = logcnt (rs ! i) ! e" if "i < m" "e < l" for i e
    using concat_blocks(2) [OF lens(3)] that m by simp
  show "\<forall>p < m * n. P ! p div l = p div n" using P r(1) by (simp add: seat_div)
  have "inj_on (\<lambda>p. (P ! p, concat (map phy_rank rs) ! p)) {..<m * n}"
  proof (rule inj_onI)
    fix p q assume pq: "p \<in> {..<m * n}" "q \<in> {..<m * n}" "(P ! p, concat (map phy_rank rs) ! p) = (P ! q, concat (map phy_rank rs) ! q)"
    then have eq: "p div n = q div n" "phy2log (rs ! (p div n)) ! (p mod n) = phy2log (rs ! (q div n)) ! (q mod n)"
      "phy_rank (rs ! (p div n)) ! (p mod n) = phy_rank (rs ! (q div n)) ! (q mod n)"
      using P [of p] P [of q] r(1) [of p] r(1) [of q] K [of p] K [of q] by (auto simp: seat_eq)
    have inj: "inj_on (\<lambda>t. (phy2log (rs ! (p div n)) ! t, phy_rank (rs ! (p div n)) ! t)) {..<n}"
      using Ri [of "p div n"] block_split [of p m n] pq(1) by (simp add: replicated_def)
    have "p mod n < n" "q mod n < n" using block_split [of p m n] block_split [of q m n] pq(1,2) by blast+
    then have "p mod n = q mod n"
      using eq by (intro inj_onD [OF inj, of "p mod n" "q mod n"]) simp_all
    with eq(1) show "p = q" by (metis div_mult_mod_eq)
  qed
  moreover have "sum_list (concat (map logcnt rs)) = m * n"
    using R m by (simp add: sum_list_concat comp_def replicated_def cong: map_cong) (simp add: map_replicate_const sum_list_replicate)
  moreover have "1 \<le> concat (map logcnt rs) ! e" if "e < m * l" for e
    using concat_block [OF lens(3), of e] block_split [OF that, THEN conjunct2] Ri [of "e div l"] that m
    by (simp add: replicated_def)
  ultimately show "replicated (m * l) (m * n) (m * n) \<lparr>phy2log = P, phy_rank = concat (map phy_rank rs), logcnt = concat (map logcnt rs)\<rparr>"
    using concat_blocks(1) [OF lens(1)] concat_blocks(1) [OF lens(2)] concat_blocks(1) [OF lens(3)] m
    by (simp add: replicated_def P_def [symmetric] P K r C seat_less block_split)
qed

lemma view_rows_all: "length xs = n * k \<Longrightarrow> row \<in> set (view_rows n k xs) \<Longrightarrow> length row = k \<and> set row \<subseteq> set xs"
proof -
  assume "length xs = n * k" "row \<in> set (view_rows n k xs)"
  then obtain i where i: "i < n" "row = slice (i * k) ((i + 1) * k) xs" "length xs = n * k" by (auto simp: view_rows_def)
  then have "(i + 1) * k \<le> n * k" by (intro mult_le_mono1) simp
  with i show ?thesis by (auto simp: slice_def dest: in_set_takeD in_set_dropD)
qed

text \<open>
  The arguments of the balancer for one layer: \<open>N\<close> nodes of \<open>G\<close> devices with \<open>q\<close> replicas each, and per node \<open>g\<close> groups of
  \<open>k\<close> experts. A layout places all replicas and keeps each group on the node \<open>node\<close> gives it.
\<close>

definition is_argsort :: "(rat list \<Rightarrow> nat list) \<Rightarrow> bool" where
  "is_argsort f \<longleftrightarrow> (\<forall>xs. perm_list (f xs) \<and> length (f xs) = length xs)"

lemma node_layouts_ok:
  assumes "is_argsort argsort" and t: "length t = N * l" "\<forall>x \<in> set t. 0 \<le> x" and l: "0 < l" "l \<le> G * q"
  shows "\<exists>rs. rmap (node_layout argsort junk (G * q) G q) (view_rows N l t) = Inr rs \<and> length rs = N \<and>
    (\<forall>r \<in> set rs. replicated l (G * q) (G * q) r)"
proof -
  have "\<exists>r. node_layout argsort junk (G * q) G q row = Inr r \<and> replicated l (G * q) (G * q) r"
    if "row \<in> set (view_rows N l t)" for row
  proof -
    from view_rows_all [OF t(1) that] t(2) l have "row \<noteq> []" "\<forall>x \<in> set row. 0 \<le> x" "length row = l" by auto
    moreover have "0 < G" using l by (cases G) auto
    ultimately show ?thesis using node_layout_ok [of row "G * q" G q argsort junk] assms(1) l(2) by (auto simp: is_argsort_def)
  qed
  with rmap_ok [of "view_rows N l t" "node_layout argsort junk (G * q) G q" "replicated l (G * q) (G * q)"]
  show ?thesis by (simp add: view_rows_def)
qed

text \<open>Each node gets \<open>g\<close> groups.\<close>

lemma packed_card: "packed m g pk rk \<Longrightarrow> j < m \<Longrightarrow> card {i. i < m * g \<and> pk ! i = j} = g"
proof -
  assume p: "packed m g pk rk" and j: "j < m"
  note img = bij_betw_imp_surj_on [OF packed_bij [OF p]]
  have "(\<lambda>i. (pk ! i, rk ! i)) ` {i. i < m * g \<and> pk ! i = j} = {j} \<times> {..<g}"
  proof
    show "{j} \<times> {..<g} \<subseteq> (\<lambda>i. (pk ! i, rk ! i)) ` {i. i < m * g \<and> pk ! i = j}"
    proof
      fix z assume "z \<in> {j} \<times> {..<g}"
      with j have "z \<in> {..<m} \<times> {..<g}" "fst z = j" by auto
      with img obtain i where "i < m * g" "z = (pk ! i, rk ! i)" by auto
      with \<open>fst z = j\<close> show "z \<in> (\<lambda>i. (pk ! i, rk ! i)) ` {i. i < m * g \<and> pk ! i = j}" by auto
    qed
  qed (use p in \<open>auto simp: packed_def\<close>)
  from bij_betw_subset [OF packed_bij [OF p] _ this]
  have "bij_betw (\<lambda>i. (pk ! i, rk ! i)) {i. i < m * g \<and> pk ! i = j} ({j} \<times> {..<g})" by auto
  from bij_betw_same_card [OF this] show ?thesis by simp
qed

definition on_nodes :: "nat \<Rightarrow> nat \<Rightarrow> nat \<Rightarrow> (nat \<Rightarrow> nat) \<Rightarrow> replicas \<Rightarrow> bool" where
  "on_nodes n N k node r \<longleftrightarrow> (\<forall>p < n. p div (n div N) = node (phy2log r ! p div k))"

lemma hierarchical_ok:
  assumes sort: "is_argsort argsort" and w: "\<forall>x \<in> set w. 0 \<le> x" "length w = N * g * k" "0 < length w"
    and n: "n = N * G * q" "0 < n" "length w \<le> n"
  shows "\<exists>r pk. rebalance_experts_hierarchical argsort junk w n (N * g) N (N * G) = Inr r \<and>
    replicated (length w) n n r \<and> on_nodes n N k ((!) pk) r \<and> length pk = N * g \<and>
    (\<forall>node < N. card {i. i < N * g \<and> pk ! i = node} = g)"
proof -
  let ?l = "length w" let ?M = "G * q" let ?lpn = "g * k"
  have pos: "0 < N" "0 < g" "0 < k" "0 < G" "0 < q" using w n by auto
  have divs: "?l div (N * g) = k" "N * g div N = g" "n div (N * G) = q" "?l div N = ?lpn" "n div N = ?M" "N * G div N = G"
    using pos w(2) n(1) by simp_all
  have mods: "?l mod (N * g) = 0" "N * g mod N = 0" "N * G mod N = 0" "n mod (N * G) = 0" using w(2) n(1) by simp_all
  have le: "?lpn \<le> ?M" using div_le_mono [OF n(3), of N] divs by simp
  let ?t = "map sum_list (view_rows (N * g) k w)"
  have lt: "length ?t = N * g" by (simp add: view_rows_def)
  obtain pk rk where b: "balanced_packing argsort ?t N = Inr (pk, rk)" "packed N g pk rk"
    using balanced_packing_packed [of argsort ?t N g] sort lt pos by (auto simp: is_argsort_def)
  let ?f = "concat (map2 (\<lambda>p r. map (\<lambda>j. (p * g + r) * k + j) [0 ..< k]) pk rk)"
  have f: "perm_list ?f" "length ?f = ?l" using expand_perm [OF b(2)] expand_length [OF b(2)] w(2) by simp_all
  obtain iv where iv: "inverse_perm junk ?f = Inr iv" "length iv = ?l" "perm_list iv" "\<forall>x < ?l. ?f ! (iv ! x) = x"
    using inverse_perm_ok [OF f(1), of junk] f(2) by auto
  let ?tm = "map ((!) w) iv"
  have gw: "gather_n w iv = Inr ?tm" using perm_list_nth [OF iv(3)] iv(2) by (intro gather_n_ok) simp
  have tm: "length ?tm = N * ?lpn" "\<forall>x \<in> set ?tm. 0 \<le> x"
    using iv(2,3) w(1,2) by (auto simp: perm_list_def mult.assoc)
  obtain rs where rs: "rmap (node_layout argsort junk ?M G q) (view_rows N ?lpn ?tm) = Inr rs" "length rs = N"
      "\<forall>r \<in> set rs. replicated ?lpn ?M ?M r"
    using node_layouts_ok [OF sort tm, of G q junk] pos le by auto
  let ?P = "concat (map2 (\<lambda>node r. map (\<lambda>e. e + node * ?lpn) (phy2log r)) [0 ..< N] rs)"
  let ?s = "\<lparr>phy2log = ?P, phy_rank = concat (map phy_rank rs), logcnt = concat (map logcnt rs)\<rparr>"
  have s: "replicated ?l n n ?s" "\<forall>p < n. ?P ! p div ?lpn = p div ?M"
    using side_by_side [OF rs(3,2)] w(2) n(1) by (simp_all add: mult.assoc)
  let ?r = "\<lparr>phy2log = map ((!) iv) ?P, phy_rank = concat (map phy_rank rs), logcnt = map ((!) (concat (map logcnt rs))) ?f\<rparr>"
  have r: "replicated ?l n n ?r" using replicated_rename [OF s(1) f iv(3,2,4)] by simp
  have P: "length ?P = n" "length (concat (map logcnt rs)) = ?l" "\<And>p. p < n \<Longrightarrow> ?P ! p < ?l"
    using s(1) by (simp_all only: replicated_def replicas.simps)
  have g: "gather_n iv ?P = Inr (map ((!) iv) ?P)"
    "gather_n (concat (map logcnt rs)) ?f = Inr (map ((!) (concat (map logcnt rs))) ?f)"
    using P iv(2) perm_list_nth [OF f(1)] f(2) by (auto intro!: gather_n_ok simp del: length_concat)
  have run: "rebalance_experts_hierarchical argsort junk w n (N * g) N (N * G) = Inr ?r"
    using mods pos by (simp add: rebalance_experts_hierarchical_def Let_def assert_multiple_def py_assert_def divs b(1) iv(1) gw rs(1) g)
  have "p div ?M = pk ! (iv ! (?P ! p) div k)" if p: "p < n" for p
  proof -
    have "iv ! (?P ! p) < N * g * k" using perm_list_nth [OF iv(3)] iv(2) P(3) [OF p] w(2) by simp
    from expand_node [OF b(2) this] show ?thesis using iv(4) P(3) [OF p] s(2) p by simp
  qed
  then have "on_nodes n N k ((!) pk) ?r" using P(1) divs(5) by (simp add: on_nodes_def del: length_concat)
  then show ?thesis using run r b(2) packed_card [OF b(2)] by (auto simp: packed_def)
qed

section \<open>All layers\<close>

lemma replicated_bij:
  assumes "replicated l n n r"
  shows "bij_betw (\<lambda>p. (phy2log r ! p, phy_rank r ! p)) {..<n} (SIGMA e:{..<l}. {..<logcnt r ! e})"
proof (rule bij_betw_imageI)
  show inj: "inj_on (\<lambda>p. (phy2log r ! p, phy_rank r ! p)) {..<n}" using assms by (simp add: replicated_def)
  have "card (SIGMA e:{..<l}. {..<logcnt r ! e}) = n"
    using assms by (auto simp: replicated_def sum_list_sum_nth atLeast0LessThan)
  then show "(\<lambda>p. (phy2log r ! p, phy_rank r ! p)) ` {..<n} = (SIGMA e:{..<l}. {..<logcnt r ! e})"
    using assms by (intro card_subset_eq) (auto simp: replicated_def card_image [OF inj])
qed

lemma view_rows_nth: "length xs = n * k \<Longrightarrow> i < n \<Longrightarrow> j < k \<Longrightarrow> view_rows n k xs ! i ! j = xs ! (i * k + j)"
  using seat_less [of i n j k] by (simp add: view_rows_def slice_def)

lemma view_rows_length: "length xs = n * k \<Longrightarrow> i < n \<Longrightarrow> length (view_rows n k xs ! i) = k"
  using view_rows_all [of xs n k "view_rows n k xs ! i"] by (simp add: view_rows_def)

lemma log2phy_row_ok:
  assumes r: "replicated l n n r" and m: "\<forall>e < l. logcnt r ! e \<le> m"
  shows "\<exists>T. log2phy_row l m n r = Inr T \<and> length T = l \<and> (\<forall>e < l. length (T ! e) = m) \<and>
    (\<forall>p < n. T ! (phy2log r ! p) ! (phy_rank r ! p) = int p) \<and>
    (\<forall>e < l. \<forall>j < m. logcnt r ! e \<le> j \<longrightarrow> T ! e ! j = - 1)"
proof -
  let ?ix = "map2 (\<lambda>e k. e * m + k) (phy2log r) (phy_rank r)"
  let ?t = "fold (\<lambda>p row. row[?ix ! p := int p]) [0 ..< n] (replicate (l * m) (- 1))"
  have len: "length (phy2log r) = n" "length (phy_rank r) = n"
    and rg: "\<And>p. p < n \<Longrightarrow> phy2log r ! p < l \<and> phy_rank r ! p < logcnt r ! (phy2log r ! p)"
    using r by (simp_all add: replicated_def)
  have rm: "phy_rank r ! p < m" if "p < n" for p using rg [OF that] m by (meson less_le_trans)
  have ix: "?ix ! p = phy2log r ! p * m + phy_rank r ! p" if "p < n" for p using that len by simp
  have bound: "?ix ! p < l * m" if "p < n" for p using that rg rm by (simp only: ix) (simp add: seat_less)
  have "inj_on (\<lambda>p. (phy2log r ! p, phy_rank r ! p)) {..<n}" using r by (simp add: replicated_def)
  then have inj: "inj_on ((!) ?ix) {..<n}" using ix rm by (simp add: inj_on_def seat_eq)
  have hit: "?t ! (phy2log r ! p * m + phy_rank r ! p) = int p" if "p < n" for p
    using scatter_at [of "[0 ..< n]" p ?ix "replicate (l * m) (- 1)" int] inj that bound [OF that] ix [OF that]
    by (simp add: lessThan_atLeast0)
  have miss: "?t ! (e * m + j) = - 1" if e: "e < l" "j < m" "logcnt r ! e \<le> j" for e j
  proof -
    have "e * m + j \<noteq> ?ix ! p" if "p < n" for p using that e rg [OF that] rm [OF that] ix [OF that] by (auto simp: seat_eq)
    then have "e * m + j \<notin> (!) ?ix ` set [0 ..< n]" by (metis atLeastLessThan_iff imageE set_upt)
    then have "?t ! (e * m + j) = replicate (l * m) (- 1) ! (e * m + j)" by (rule scatter_other)
    then show ?thesis using seat_less [OF e(1,2)] by simp
  qed
  have "\<forall>i \<in> set ?ix. i < l * m" using bound len by (auto simp: in_set_conv_nth)
  then have "log2phy_row l m n r = Inr (view_rows l m ?t)" by (simp add: log2phy_row_def Let_def)
  moreover have "length (view_rows l m ?t) = l" by (simp add: view_rows_def)
  ultimately show ?thesis using rg rm hit miss by (auto simp: view_rows_nth view_rows_length)
qed

text \<open>
  What the tables of a layer promise: every physical expert holds a logical one, and the first
  \<open>cnt ! e\<close> entries of row \<open>e\<close> are, each once, the physical experts that hold \<open>e\<close>.
\<close>

definition layer_tables :: "nat \<Rightarrow> nat \<Rightarrow> nat list \<Rightarrow> int list list \<Rightarrow> nat list \<Rightarrow> bool" where
  "layer_tables l n p2l T cnt \<longleftrightarrow> length p2l = n \<and> length T = l \<and> length cnt = l \<and> (\<forall>e \<in> set p2l. e < l) \<and>
     (\<forall>e < l. 1 \<le> cnt ! e \<and> cnt ! e \<le> length (T ! e) \<and> distinct (take (cnt ! e) (T ! e)) \<and>
       set (take (cnt ! e) (T ! e)) = int ` {p. p < n \<and> p2l ! p = e} \<and> set (drop (cnt ! e) (T ! e)) \<subseteq> {- 1})"

lemma log2phy_tables:
  assumes r: "replicated l n n r" and m: "\<forall>e < l. logcnt r ! e \<le> m"
  shows "\<exists>T. log2phy_row l m n r = Inr T \<and> layer_tables l n (phy2log r) T (logcnt r)"
proof -
  obtain T where T: "log2phy_row l m n r = Inr T" "length T = l" "\<forall>e < l. length (T ! e) = m"
    "\<forall>p < n. T ! (phy2log r ! p) ! (phy_rank r ! p) = int p" "\<forall>e < l. \<forall>j < m. logcnt r ! e \<le> j \<longrightarrow> T ! e ! j = - 1"
    using log2phy_row_ok [OF assms] by blast
  have seat: "\<exists>p < n. phy2log r ! p = e \<and> phy_rank r ! p = j" if "e < l" "j < logcnt r ! e" for e j
  proof -
    have "(e, j) \<in> (SIGMA e:{..<l}. {..<logcnt r ! e})" using that by simp
    then have "(e, j) \<in> (\<lambda>p. (phy2log r ! p, phy_rank r ! p)) ` {..<n}"
      by (simp only: bij_betw_imp_surj_on [OF replicated_bij [OF r]])
    then show ?thesis by auto
  qed
  have row: "distinct (take (logcnt r ! e) (T ! e))"
    "set (take (logcnt r ! e) (T ! e)) = int ` {p. p < n \<and> phy2log r ! p = e}" if e: "e < l" for e
  proof -
    have nth: "\<exists>p < n. T ! e ! j = int p \<and> phy2log r ! p = e \<and> phy_rank r ! p = j" if "j < logcnt r ! e" for j
      using seat [OF e that] T(4) by blast
    show "distinct (take (logcnt r ! e) (T ! e))" unfolding distinct_conv_nth
    proof (intro allI impI notI)
      fix i j assume ij: "i < length (take (logcnt r ! e) (T ! e))" "j < length (take (logcnt r ! e) (T ! e))" "i \<noteq> j"
        "take (logcnt r ! e) (T ! e) ! i = take (logcnt r ! e) (T ! e) ! j"
      then obtain p q where "T ! e ! i = int p" "phy_rank r ! p = i" "T ! e ! j = int q" "phy_rank r ! q = j"
        using nth [of i] nth [of j] by auto
      with ij show False by auto
    qed
    show "set (take (logcnt r ! e) (T ! e)) = int ` {p. p < n \<and> phy2log r ! p = e}"
    proof (intro subset_antisym subsetI)
      fix x assume "x \<in> set (take (logcnt r ! e) (T ! e))"
      then obtain j where "j < logcnt r ! e" "x = T ! e ! j" by (auto simp: in_set_conv_nth)
      with nth show "x \<in> int ` {p. p < n \<and> phy2log r ! p = e}" by blast
    next
      fix x assume "x \<in> int ` {p. p < n \<and> phy2log r ! p = e}"
      then obtain p where p: "p < n" "phy2log r ! p = e" "x = int p" by blast
      with r have "phy_rank r ! p < logcnt r ! e" by (auto simp: replicated_def)
      with p T(3,4) m e show "x \<in> set (take (logcnt r ! e) (T ! e))"
        by (auto simp: in_set_conv_nth intro!: exI [of _ "phy_rank r ! p"] dest: order_less_le_trans)
    qed
  qed
  have "set (drop (logcnt r ! e) (T ! e)) \<subseteq> {- 1}" if "e < l" for e
    using T(3,5) that by (auto simp: in_set_conv_nth)
  with r m T(1-3) row have "layer_tables l n (phy2log r) T (logcnt r)"
    by (auto simp: layer_tables_def replicated_def in_set_conv_nth)
  with T(1) show ?thesis by blast
qed

text \<open>The arguments the documentation of \<^verbatim>\<open>rebalance_experts\<close> asks for, with at least one replica per expert.\<close>

definition eplb_args :: "bool \<Rightarrow> nat \<Rightarrow> nat \<Rightarrow> nat \<Rightarrow> nat \<Rightarrow> nat \<Rightarrow> bool" where
  "eplb_args hier l n num_groups num_nodes num_gpus \<longleftrightarrow> 0 < l \<and> l \<le> n \<and> num_gpus dvd n \<and>
     (hier \<longrightarrow> num_groups dvd l \<and> num_nodes dvd num_groups \<and> num_nodes dvd num_gpus)"

text \<open>The groups of \<open>k\<close> experts are spread evenly over \<open>N\<close> nodes, and all replicas of a group are on its node.\<close>

definition groups_on_nodes :: "nat \<Rightarrow> nat \<Rightarrow> nat \<Rightarrow> nat \<Rightarrow> nat list \<Rightarrow> bool" where
  "groups_on_nodes n num_groups num_nodes k p2l \<longleftrightarrow>
     (\<exists>node :: nat list. length node = num_groups \<and>
       (\<forall>j < num_nodes. card {i. i < num_groups \<and> node ! i = j} = num_groups div num_nodes) \<and>
       (\<forall>p < n. p div (n div num_nodes) = node ! (p2l ! p div k)))"

lemma layer_ok:
  assumes sort: "is_argsort argsort" and w: "\<forall>x \<in> set w. 0 \<le> x" "length w = l"
    and a: "0 < l" "l \<le> n" "num_gpus dvd n" "num_groups dvd l" "num_nodes dvd num_groups" "num_nodes dvd num_gpus"
  shows "\<exists>r. rebalance_experts_hierarchical argsort junk w n num_groups num_nodes num_gpus = Inr r \<and>
    replicated l n n r \<and> groups_on_nodes n num_groups num_nodes (l div num_groups) (phy2log r)"
proof -
  obtain k g G q where eq: "l = num_groups * k" "num_groups = num_nodes * g" "num_gpus = num_nodes * G" "n = num_gpus * q"
    using a(3-6) by (auto simp: dvd_def)
  then have pos: "0 < num_nodes" "0 < num_groups" using a(1) by auto
  then have divs: "l div num_groups = k" "num_groups div num_nodes = g" using eq by simp_all
  have "0 < n" using a(1,2) by linarith
  moreover have "length w = num_nodes * g * k" "n = num_nodes * G * q" using w(2) eq by simp_all
  ultimately obtain r pk where "rebalance_experts_hierarchical argsort junk w n num_groups num_nodes num_gpus = Inr r"
    "replicated l n n r" "on_nodes n num_nodes k ((!) pk) r" "length pk = num_groups"
    "\<forall>j < num_nodes. card {i. i < num_groups \<and> pk ! i = j} = g"
    using hierarchical_ok [OF sort w(1), of num_nodes g k n G q junk] w(2) a(1,2) unfolding eq(2,3) by auto
  then show ?thesis unfolding groups_on_nodes_def divs on_nodes_def by blast
qed

lemma rebalance_ok:
  assumes sort: "is_argsort argsort" and w: "\<forall>row \<in> set w. length row = l \<and> (\<forall>x \<in> set row. 0 \<le> x)" "w \<noteq> []"
    and a: "eplb_args hier l n num_groups num_nodes num_gpus"
  shows "\<exists>P T C. rebalance_experts argsort junk w l n num_groups num_nodes num_gpus hier = Inr (P, T, C) \<and>
    length P = length w \<and> length T = length w \<and> length C = length w \<and>
    (\<forall>i < length w. layer_tables l n (P ! i) (T ! i) (C ! i) \<and>
      (hier \<longrightarrow> groups_on_nodes n num_groups num_nodes (l div num_groups) (P ! i)))"
proof -
  let ?f = "\<lambda>w. if hier then rebalance_experts_hierarchical argsort junk w n num_groups num_nodes num_gpus
    else rebalance_experts_hierarchical argsort junk w n 1 1 num_gpus"
  let ?Q = "\<lambda>r. replicated l n n r \<and> (hier \<longrightarrow> groups_on_nodes n num_groups num_nodes (l div num_groups) (phy2log r))"
  have "\<exists>r. ?f row = Inr r \<and> ?Q r" if "row \<in> set w" for row
    using layer_ok [OF sort, of row l n num_gpus num_groups num_nodes junk] w(1) that a
      layer_ok [OF sort, of row l n num_gpus 1 1 junk] by (auto simp: eplb_args_def)
  then obtain rs where rs: "rmap ?f w = Inr rs" "length rs = length w" "\<forall>r \<in> set rs. ?Q r"
    using rmap_ok [of w ?f ?Q] by blast
  let ?c = "concat (map logcnt rs)"
  have cnt: "\<forall>r \<in> set rs. \<forall>e < l. logcnt r ! e \<in> set ?c"
    using rs(3) by (auto simp: replicated_def intro!: bexI nth_mem)
  have ne: "?c \<noteq> []"
  proof -
    have "hd rs \<in> set rs" using rs(2) w(2) by (cases rs) auto
    with cnt a show ?thesis by (force simp: eplb_args_def)
  qed
  have "\<forall>r \<in> set rs. \<exists>T. log2phy_row l (Max (set ?c)) n r = Inr T \<and> layer_tables l n (phy2log r) T (logcnt r)"
    using rs(3) cnt by (intro ballI log2phy_tables) (auto intro!: Max_ge)
  from rmap_all2 [OF this] obtain Ts where Ts: "rmap (log2phy_row l (Max (set ?c)) n) rs = Inr Ts"
    "list_all2 (\<lambda>r T. layer_tables l n (phy2log r) T (logcnt r)) rs Ts" by blast
  have "rebalance_experts argsort junk w l n num_groups num_nodes num_gpus hier = Inr (map phy2log rs, Ts, map logcnt rs)"
    using rs(1) ne Ts(1) by (simp add: rebalance_experts_def Let_def)
  then show ?thesis using rs(2,3) Ts(2) by (auto simp: list_all2_conv_all_nth)
qed

text \<open>A map that covers all experts; the tables of a layer give one.\<close>

definition covers :: "nat \<Rightarrow> nat \<Rightarrow> nat list \<Rightarrow> bool" where
  "covers l n p2l \<longleftrightarrow> length p2l = n \<and> set p2l = {..<l}"

lemma layer_tables_cover: "layer_tables l n p2l T cnt \<Longrightarrow> covers l n p2l"
proof -
  assume t: "layer_tables l n p2l T cnt"
  have "e \<in> set p2l" if "e < l" for e
  proof -
    have c: "1 \<le> cnt ! e" "cnt ! e \<le> length (T ! e)" "set (take (cnt ! e) (T ! e)) = int ` {p. p < n \<and> p2l ! p = e}"
      using t that by (simp_all add: layer_tables_def)
    then have "T ! e ! 0 \<in> int ` {p. p < n \<and> p2l ! p = e}" by (auto simp: c(3) [symmetric] in_set_conv_nth intro!: exI [of _ 0])
    then obtain p where "p < n" "p2l ! p = e" by auto
    then show ?thesis using t by (auto simp: layer_tables_def)
  qed
  then show ?thesis using t by (auto simp: layer_tables_def covers_def)
qed

section \<open>A descending sort\<close>

definition argsort_desc :: "rat list \<Rightarrow> nat list" where
  "argsort_desc xs = sort_key (\<lambda>i. - xs ! i) [0 ..< length xs]"

lemma argsort_desc_ok: "is_argsort argsort_desc"
  by (auto simp: is_argsort_def argsort_desc_def perm_list_def)

lemma argsort_desc_sorted: "sorted (map (\<lambda>i. - xs ! i) (argsort_desc xs))"
  by (simp add: argsort_desc_def)

end
