(* ===== verification/Expert_Update.thy ===== *)
theory Expert_Update
  imports Prelude
begin

text \<open>
  Moving expert weights to new places, \<^verbatim>\<open>eplb/expert_location_updater.py\<close>: each rank works out from the old and the
  new map which of its experts it keeps, copies or receives and to which ranks it sends, exchanges
  messages with the others and fills its weights from a buffer. A rank has \<^verbatim>\<open>num_local_physical_experts\<close>
  expert locations; a tensor is the list of its rows, one per local expert.
\<close>

type_synonym 'v tensors = "'v list list"

section \<open>Chunks\<close>

definition deduplicate_ordered :: "nat list \<Rightarrow> nat list" where
  "deduplicate_ordered arr = fold (\<lambda>item output. if output = [] \<or> item \<noteq> last output then output @ [item] else output) arr []"

fun list_index :: "nat list \<Rightarrow> nat \<Rightarrow> nat result" where
  "list_index [] v = Inl ValueError"
| "list_index (x # xs) v = (if x = v then Inr 0 else rbind (list_index xs v) (\<lambda>i. Inr (Suc i)))"

record chunk_utils =
  chunk_values :: "nat list"
  element_values :: "nat list"

definition chunk_index_from_element_index :: "nat \<Rightarrow> nat \<Rightarrow> nat \<Rightarrow> nat result" where
  "chunk_index_from_element_index num_elements num_chunks element_index =
     (if num_chunks = 0 then Inl ZeroDivisionError
      else
        let short_chunk_size = num_elements div num_chunks; num_long_chunks = num_elements mod num_chunks;
            num_elements_for_long_chunks = num_long_chunks * (short_chunk_size + 1) in
        if element_index < num_elements_for_long_chunks then Inr (element_index div (short_chunk_size + 1))
        else if short_chunk_size = 0 then Inl ZeroDivisionError
        else Inr (num_long_chunks + (element_index - num_elements_for_long_chunks) div short_chunk_size))"

definition element_slice_from_chunk_index :: "nat \<Rightarrow> nat \<Rightarrow> nat \<Rightarrow> (nat \<times> nat) result" where
  "element_slice_from_chunk_index num_elements num_chunks chunk_index =
     (if num_chunks = 0 then Inl ZeroDivisionError
      else
        let short_chunk_size = num_elements div num_chunks; num_long_chunks = num_elements mod num_chunks;
            start = chunk_index * short_chunk_size + min chunk_index num_long_chunks in
        Inr (start, start + short_chunk_size + (if chunk_index < num_long_chunks then 1 else 0)))"

definition nth_r :: "'a list \<Rightarrow> nat \<Rightarrow> 'a result" where
  "nth_r xs i = (if i < length xs then Inr (xs ! i) else Inl IndexError)"

definition chunk_value_from_element_value :: "chunk_utils \<Rightarrow> nat \<Rightarrow> nat result" where
  "chunk_value_from_element_value cu v =
     rbind (list_index (element_values cu) v) (\<lambda>i.
     rbind (chunk_index_from_element_index (length (element_values cu)) (length (chunk_values cu)) i) (nth_r (chunk_values cu)))"

definition element_values_from_chunk_value :: "chunk_utils \<Rightarrow> nat \<Rightarrow> nat list result" where
  "element_values_from_chunk_value cu v =
     (if element_values cu = [] then Inr []
      else
        rbind (list_index (chunk_values cu) v) (\<lambda>c.
        rbind (element_slice_from_chunk_index (length (element_values cu)) (length (chunk_values cu)) c) (\<lambda>(a, b).
        Inr (slice a b (element_values cu)))))"

section \<open>Who sends an expert to whom\<close>

text \<open>The arguments the nested functions of \<^verbatim>\<open>update_expert_weights_single_layer\<close> share.\<close>

record relocation =
  old_map :: "nat list"
  new_map :: "nat list"
  num_local :: nat
  gpus_per_node :: nat

definition local_range :: "relocation \<Rightarrow> nat \<Rightarrow> nat list" where
  "local_range m rank = [rank * num_local m ..< (rank + 1) * num_local m]"

fun find_location :: "nat list \<Rightarrow> nat \<Rightarrow> nat list \<Rightarrow> nat option result" where
  "find_location xs e [] = Inr None"
| "find_location xs e (x # locs) =
     rbind (nth_r xs x) (\<lambda>y. if y = e then Inr (Some x) else find_location xs e locs)"

definition compute_comm_info :: "relocation \<Rightarrow> nat \<Rightarrow> nat \<Rightarrow> (chunk_utils \<times> chunk_utils \<times> nat list) result" where
  "compute_comm_info m rank e =
     (let num_physical_experts = length (old_map m); self_node_id = rank div gpus_per_node m;
          node = (\<lambda>x. x div gpus_per_node m);
          all_src_ranks = deduplicate_ordered (map (\<lambda>x. x div num_local m)
            (filter (\<lambda>x. old_map m ! x = e) [0 ..< num_physical_experts]));
          all_src_nodes = map node all_src_ranks;
          self_node_src_ranks = filter (\<lambda>x. node x = self_node_id) all_src_ranks in
      if length (new_map m) < num_physical_experts then Inl IndexError
      else
        let need_comm_dst_ranks = deduplicate_ordered (map (\<lambda>x. x div num_local m)
              (filter (\<lambda>x. new_map m ! x = e \<and> x div num_local m \<notin> set all_src_ranks) [0 ..< num_physical_experts]));
            need_comm_self_node_dst_ranks =
              (if self_node_src_ranks \<noteq> [] then filter (\<lambda>x. node x = self_node_id) need_comm_dst_ranks else []);
            need_comm_cross_node_dst_ranks = filter (\<lambda>x. node x \<notin> set all_src_nodes) need_comm_dst_ranks in
        Inr (\<lparr>chunk_values = self_node_src_ranks, element_values = need_comm_self_node_dst_ranks\<rparr>,
             \<lparr>chunk_values = all_src_ranks, element_values = need_comm_cross_node_dst_ranks\<rparr>,
             need_comm_self_node_dst_ranks))"

section \<open>Receiving\<close>

definition get_local_expert_location :: "relocation \<Rightarrow> nat \<Rightarrow> nat \<Rightarrow> nat result" where
  "get_local_expert_location m rank loc =
     rbind (py_assert (rank * num_local m \<le> loc \<and> loc < (rank + 1) * num_local m)) (\<lambda>_. Inr (loc mod num_local m))"

text \<open>The row of an expert location in each of the first \<open>n\<close> tensors, \<^verbatim>\<open>_get_tensor\<close> for all of them.\<close>

definition get_rows :: "relocation \<Rightarrow> nat \<Rightarrow> nat \<Rightarrow> 'v tensors \<Rightarrow> nat \<Rightarrow> nat result" where
  "get_rows m rank n ts loc =
     (if n = 0 then Inr 0
      else rbind (get_local_expert_location m rank loc) (\<lambda>l.
        if n \<le> length ts \<and> (\<forall>t \<in> set (take n ts). l < length t) then Inr l else Inl IndexError))"

definition set_rows :: "nat \<Rightarrow> nat \<Rightarrow> (nat \<Rightarrow> 'v) \<Rightarrow> 'v tensors \<Rightarrow> 'v tensors" where
  "set_rows n l f ts = map (\<lambda>i. if i < n then (ts ! i)[l := f i] else ts ! i) [0 ..< length ts]"

definition copy_rows :: "relocation \<Rightarrow> nat \<Rightarrow> nat \<Rightarrow> 'v tensors \<Rightarrow> nat \<Rightarrow> nat \<Rightarrow> 'v tensors \<Rightarrow> 'v tensors result" where
  "copy_rows m rank n from src dst to =
     rbind (get_rows m rank n to dst) (\<lambda>d. rbind (get_rows m rank n from src) (\<lambda>s.
     Inr (set_rows n d (\<lambda>i. from ! i ! s) to)))"

record p2p_op =
  is_send :: bool
  op_tensor :: nat
  op_loc :: nat
  op_peer :: nat

datatype recv_case = Unchanged | SameGpu nat | FreeRider nat | FromRank nat

text \<open>The case \<^verbatim>\<open>_handle_recv_of_dst_expert_location\<close> takes, and then its effect.\<close>

definition recv_case :: "relocation \<Rightarrow> nat \<Rightarrow> nat \<Rightarrow> recv_case result" where
  "recv_case m rank dst =
     rbind (nth_r (new_map m) dst) (\<lambda>e.
     rbind (nth_r (old_map m) dst) (\<lambda>e'.
     if e' = e then Inr Unchanged
     else
       rbind (find_location (old_map m) e (local_range m rank)) (\<lambda>s. case s of Some src \<Rightarrow> Inr (SameGpu src)
       | None \<Rightarrow>
         rbind (find_location (new_map m) e [rank * num_local m ..< dst]) (\<lambda>s. case s of Some src \<Rightarrow> Inr (FreeRider src)
         | None \<Rightarrow>
           rbind (compute_comm_info m rank e) (\<lambda>(same_node_mapping, cross_node_mapping, need_comm_self_node_dst_ranks).
           rbind (chunk_value_from_element_value
             (if rank \<in> set need_comm_self_node_dst_ranks then same_node_mapping else cross_node_mapping) rank) (\<lambda>a.
           Inr (FromRank a)))))))"

record 'v recv_plan =
  temp_buffers :: "'v tensors"
  copy_infos :: "(nat \<times> nat) list"
  op_infos :: "(nat \<times> p2p_op list) list"

definition handle_recv_of_dst_expert_location ::
  "relocation \<Rightarrow> nat \<Rightarrow> 'v tensors \<Rightarrow> nat \<Rightarrow> 'v recv_plan \<Rightarrow> 'v recv_plan result" where
  "handle_recv_of_dst_expert_location m rank weights dst st =
     rbind (recv_case m rank dst) (\<lambda>c. case c of
       Unchanged \<Rightarrow> Inr st
     | SameGpu src \<Rightarrow>
         rbind (copy_rows m rank (length weights) weights src dst (temp_buffers st)) (\<lambda>bufs.
         Inr (st\<lparr>temp_buffers := bufs, copy_infos := copy_infos st @ [(dst, dst)]\<rparr>))
     | FreeRider src \<Rightarrow> Inr (st\<lparr>copy_infos := copy_infos st @ [(src, dst)]\<rparr>)
     | FromRank a \<Rightarrow>
         rbind (get_rows m rank (length weights) (temp_buffers st) dst) (\<lambda>_.
         Inr (st\<lparr>op_infos := op_infos st @ [(new_map m ! dst,
                  map (\<lambda>i. \<lparr>is_send = False, op_tensor = i, op_loc = dst, op_peer = a\<rparr>) [0 ..< length weights])],
                 copy_infos := copy_infos st @ [(dst, dst)]\<rparr>)))"

definition handle_recv :: "relocation \<Rightarrow> nat \<Rightarrow> 'v tensors \<Rightarrow> 'v tensors \<Rightarrow> 'v recv_plan result" where
  "handle_recv m rank weights bufs =
     rfold (handle_recv_of_dst_expert_location m rank weights) (local_range m rank)
       \<lparr>temp_buffers = bufs, copy_infos = [], op_infos = []\<rparr>"

section \<open>Sending\<close>

definition create_isend_ops_of_logical_expert_id ::
  "relocation \<Rightarrow> nat \<Rightarrow> 'v tensors \<Rightarrow> nat \<Rightarrow> nat \<Rightarrow> (nat \<times> p2p_op list) result" where
  "create_isend_ops_of_logical_expert_id m rank weights e src =
     rbind (compute_comm_info m rank e) (\<lambda>(same_node_mapping, cross_node_mapping, _).
     rbind (element_values_from_chunk_value same_node_mapping rank) (\<lambda>same_node_dst_ranks.
     rbind (element_values_from_chunk_value cross_node_mapping rank) (\<lambda>cross_node_dst_ranks.
     let all_dst_ranks = same_node_dst_ranks @ cross_node_dst_ranks in
     rbind (if all_dst_ranks = [] then Inr 0 else get_rows m rank (length weights) weights src) (\<lambda>_.
     Inr (e, concat (map (\<lambda>dst_rank.
       map (\<lambda>i. \<lparr>is_send = True, op_tensor = i, op_loc = src, op_peer = dst_rank\<rparr>) [0 ..< length weights]) all_dst_ranks))))))"

definition create_isend_ops :: "relocation \<Rightarrow> nat \<Rightarrow> 'v tensors \<Rightarrow> (nat \<times> p2p_op list) list result" where
  "create_isend_ops m rank weights =
     rbind (rfold (\<lambda>src (handled, infos).
         rbind (nth_r (old_map m) src) (\<lambda>e.
         if e \<in> handled then Inr (handled, infos)
         else rbind (create_isend_ops_of_logical_expert_id m rank weights e src) (\<lambda>info.
              Inr (insert e handled, infos @ [info]))))
       (local_range m rank) ({}, [])) (\<lambda>(handled, infos). Inr infos)"

section \<open>Failed ranks\<close>

text \<open>\<open>active\<close> is the list of active ranks of the elastic state manager, when there is one.\<close>

definition filter_info :: "bool list \<Rightarrow> nat \<times> p2p_op list \<Rightarrow> ((nat \<times> p2p_op list) \<times> nat list) result" where
  "filter_info is_active info =
     (case info of (e, ops) \<Rightarrow>
      let has_isend = (\<exists>op \<in> set ops. is_send op); has_irecv = (\<exists>op \<in> set ops. \<not> is_send op) in
      rbind (py_assert (\<not> (has_isend \<and> has_irecv))) (\<lambda>_.
      if \<exists>op \<in> set ops. length is_active \<le> op_peer op then Inl IndexError
      else if has_isend then Inr ((e, filter (\<lambda>op. is_active ! op_peer op) ops), [])
      else if has_irecv \<and> (\<exists>op \<in> set ops. \<not> is_active ! op_peer op) then Inr ((e, []), [e])
      else Inr ((e, ops), [])))"

definition filter_p2p_ops ::
  "bool list option \<Rightarrow> (nat \<times> p2p_op list) list \<Rightarrow> ((nat \<times> p2p_op list) list \<times> nat list) result" where
  "filter_p2p_ops active infos =
     (case active of None \<Rightarrow> Inr (infos, [])
      | Some is_active \<Rightarrow> rbind (rmap (filter_info is_active) infos) (\<lambda>rs. Inr (map fst rs, concat (map snd rs))))"

section \<open>Exchanging and copying\<close>

text \<open>
  The operations as they are submitted, in batches: one batch, or on ROCm one for each range of
  \<open>batch_chunk_size\<close> expert ids.
\<close>

definition p2p_batches :: "bool \<Rightarrow> nat \<Rightarrow> nat \<Rightarrow> (nat \<times> p2p_op list) list \<Rightarrow> p2p_op list list result" where
  "p2p_batches is_hip batch_chunk_size num_physical_experts infos =
     (let sorted_infos = sort_key fst infos; p2p_ops = concat (map snd sorted_infos) in
      if p2p_ops = [] then Inr []
      else if is_hip then
        if batch_chunk_size = 0 then Inl ValueError
        else
          let ops_by_expert = map_of (rev sorted_infos);
              starts = map (\<lambda>k. k * batch_chunk_size) [0 ..< (num_physical_experts + batch_chunk_size - 1) div batch_chunk_size];
              batch = (\<lambda>start. concat (map (\<lambda>eid. case ops_by_expert eid of Some ops \<Rightarrow> ops | None \<Rightarrow> [])
                        [start ..< min (start + batch_chunk_size) num_physical_experts])) in
          Inr (filter (\<lambda>ops. ops \<noteq> []) (map batch starts))
      else Inr [p2p_ops])"

text \<open>
  \<open>deliver a k\<close> is the \<open>k\<close>-th message from rank \<open>a\<close>; a receive takes the next message of its peer. The state counts the messages taken.
\<close>

definition receive :: "relocation \<Rightarrow> (nat \<Rightarrow> nat \<Rightarrow> 'v) \<Rightarrow> p2p_op \<Rightarrow> (nat \<Rightarrow> nat) \<times> 'v tensors \<Rightarrow> (nat \<Rightarrow> nat) \<times> 'v tensors" where
  "receive m deliver op st =
     (case st of (taken, bufs) \<Rightarrow>
      if is_send op then st
      else (taken(op_peer op := taken (op_peer op) + 1),
            bufs[op_tensor op := (bufs ! op_tensor op)[op_loc op mod num_local m := deliver (op_peer op) (taken (op_peer op))]]))"

definition execute_buffer2weight_copies ::
  "relocation \<Rightarrow> nat \<Rightarrow> (nat \<times> nat) list \<Rightarrow> 'v tensors \<Rightarrow> 'v tensors \<Rightarrow> 'v tensors result" where
  "execute_buffer2weight_copies m rank infos bufs weights =
     rfold (\<lambda>(src, dst) w. copy_rows m rank (length weights) bufs src dst w) infos weights"

text \<open>What a rank plans: the buffers after the local copies, the copies to make, the batches and the missing experts.\<close>

definition plan_single_layer ::
  "bool \<Rightarrow> nat \<Rightarrow> bool list option \<Rightarrow> relocation \<Rightarrow> nat \<Rightarrow> 'v tensors \<Rightarrow> 'v tensors \<Rightarrow>
   ('v tensors \<times> (nat \<times> nat) list \<times> p2p_op list list \<times> nat list) result" where
  "plan_single_layer is_hip batch_chunk_size active m rank weights bufs =
     rbind (py_assert (\<forall>t \<in> set weights. length t = num_local m)) (\<lambda>_.
     if gpus_per_node m = 0 then Inl ZeroDivisionError
     else
       rbind (handle_recv m rank weights bufs) (\<lambda>st.
       rbind (create_isend_ops m rank weights) (\<lambda>sends.
       rbind (filter_p2p_ops active (op_infos st @ sends)) (\<lambda>(infos, missing).
       rbind (p2p_batches is_hip batch_chunk_size (length (old_map m)) infos) (\<lambda>batches.
       Inr (temp_buffers st, copy_infos st, batches, missing))))))"

definition update_expert_weights_single_layer ::
  "bool \<Rightarrow> nat \<Rightarrow> bool list option \<Rightarrow> relocation \<Rightarrow> (nat \<Rightarrow> nat \<Rightarrow> 'v) \<Rightarrow> nat \<Rightarrow> 'v tensors \<Rightarrow> 'v tensors \<Rightarrow>
   ('v tensors \<times> 'v tensors \<times> nat list) result" where
  "update_expert_weights_single_layer is_hip batch_chunk_size active m deliver rank weights bufs =
     rbind (plan_single_layer is_hip batch_chunk_size active m rank weights bufs) (\<lambda>(bufs1, copies, batches, missing).
     let bufs2 = snd (fold (fold (receive m deliver)) batches (\<lambda>_. 0, bufs1)) in
     rbind (execute_buffer2weight_copies m rank copies bufs2 weights) (\<lambda>weights'.
     Inr (weights', bufs2, missing)))"

section \<open>All layers\<close>

text \<open>The locations a rank has of the expert maps.\<close>

definition num_local_physical_experts :: "nat \<Rightarrow> nat \<Rightarrow> nat result" where
  "num_local_physical_experts num_physical_experts ep_size =
     (if ep_size = 0 then Inl ZeroDivisionError
      else rbind (py_assert (num_physical_experts mod ep_size = 0)) (\<lambda>_. Inr (num_physical_experts div ep_size)))"

definition get_r :: "(nat \<rightharpoonup> 'a) \<Rightarrow> nat \<Rightarrow> 'a result" where
  "get_r d k = (case d k of Some v \<Rightarrow> Inr v | None \<Rightarrow> Inl KeyError)"

text \<open>The metadata the update uses: one map per layer, all of \<open>num_physical_experts\<close> entries.\<close>

record expert_meta =
  physical_to_logical_map :: "nat list list"
  num_physical_experts :: nat

definition create_temp_buffers :: "(nat \<Rightarrow> nat \<Rightarrow> 'v) \<Rightarrow> 'v tensors \<Rightarrow> 'v tensors" where
  "create_temp_buffers junk sample = map (\<lambda>i. map (junk i) [0 ..< length (sample ! i)]) [0 ..< length sample]"

definition update_layer ::
  "bool \<Rightarrow> nat \<Rightarrow> bool list option \<Rightarrow> (nat \<Rightarrow> nat \<Rightarrow> nat \<Rightarrow> 'v) \<Rightarrow> expert_meta \<Rightarrow> expert_meta \<Rightarrow> nat \<Rightarrow> nat \<Rightarrow> nat \<Rightarrow> nat \<Rightarrow>
   (nat \<rightharpoonup> 'v tensors) \<times> 'v tensors \<times> (nat \<rightharpoonup> nat list) \<Rightarrow> ((nat \<rightharpoonup> 'v tensors) \<times> 'v tensors \<times> (nat \<rightharpoonup> nat list)) result" where
  "update_layer is_hip c active deliver old new nl gpn rank layer_id st =
     (case st of (weights, bufs, missing) \<Rightarrow>
      rbind (get_r weights layer_id) (\<lambda>tensors.
      rbind (nth_r (physical_to_logical_map old) layer_id) (\<lambda>old_row.
      rbind (nth_r (physical_to_logical_map new) layer_id) (\<lambda>new_row.
      rbind (update_expert_weights_single_layer is_hip c active \<lparr>old_map = old_row, new_map = new_row, num_local = nl, gpus_per_node = gpn\<rparr>
               (deliver layer_id) rank tensors bufs) (\<lambda>(tensors', bufs', info).
      Inr (weights(layer_id \<mapsto> tensors'), bufs', if info \<noteq> [] then missing(layer_id \<mapsto> info) else missing))))))"

definition update_expert_weights_raw ::
  "bool \<Rightarrow> nat \<Rightarrow> bool list option \<Rightarrow> (nat \<Rightarrow> nat \<Rightarrow> nat \<Rightarrow> 'v) \<Rightarrow> (nat \<Rightarrow> nat \<Rightarrow> 'v) \<Rightarrow> nat \<Rightarrow> nat \<Rightarrow> nat \<Rightarrow>
   expert_meta \<Rightarrow> expert_meta \<Rightarrow> nat list \<Rightarrow> (nat \<rightharpoonup> 'v tensors) \<Rightarrow> ((nat \<rightharpoonup> 'v tensors) \<times> (nat \<rightharpoonup> nat list)) result" where
  "update_expert_weights_raw is_hip c active deliver junk world_size nnodes rank old new update_layer_ids weights =
     rbind (nth_r update_layer_ids 0) (\<lambda>first.
     rbind (get_r weights first) (\<lambda>sample.
     rbind (num_local_physical_experts (num_physical_experts old) world_size) (\<lambda>nl.
     if nnodes = 0 then Inl ZeroDivisionError
     else
       rbind (rfold (update_layer is_hip c active deliver old new nl (world_size div nnodes) rank) update_layer_ids
                (weights, create_temp_buffers junk sample, Map.empty)) (\<lambda>(weights', bufs, missing).
       Inr (weights', missing)))))"

text \<open>
  The canary is one more tensor, of the old experts of the rank; \<open>canary\<close> is an expert id as a row. The tensors
  themselves are updated in place, the list with the canary is dropped.
\<close>

definition canary_value :: "(nat \<Rightarrow> 'v) \<Rightarrow> nat \<Rightarrow> nat \<Rightarrow> expert_meta \<Rightarrow> nat \<Rightarrow> 'v list result" where
  "canary_value canary nl rank meta layer_id =
     rbind (nth_r (physical_to_logical_map meta) layer_id) (\<lambda>row. Inr (map canary (slice (nl * rank) (nl * (rank + 1)) row)))"

definition update_expert_weights_with_canary ::
  "(nat \<Rightarrow> 'v) \<Rightarrow> bool \<Rightarrow> nat \<Rightarrow> bool list option \<Rightarrow> (nat \<Rightarrow> nat \<Rightarrow> nat \<Rightarrow> 'v) \<Rightarrow> (nat \<Rightarrow> nat \<Rightarrow> 'v) \<Rightarrow> nat \<Rightarrow> nat \<Rightarrow> nat \<Rightarrow>
   expert_meta \<Rightarrow> expert_meta \<Rightarrow> nat list \<Rightarrow> (nat \<rightharpoonup> 'v tensors) \<Rightarrow> ((nat \<rightharpoonup> 'v tensors) \<times> (nat \<rightharpoonup> nat list)) result" where
  "update_expert_weights_with_canary canary is_hip c active deliver junk world_size nnodes rank old new update_layer_ids weights =
     rbind (num_local_physical_experts (num_physical_experts old) world_size) (\<lambda>nl.
     rbind (rfold (\<lambda>layer_id w. rbind (canary_value canary nl rank old layer_id) (\<lambda>v.
              rbind (get_r w layer_id) (\<lambda>ts. Inr (w(layer_id \<mapsto> ts @ [v]))))) update_layer_ids weights) (\<lambda>with_canary.
     rbind (update_expert_weights_raw is_hip c active deliver junk world_size nnodes rank old new update_layer_ids with_canary) (\<lambda>(weights', missing).
     rbind (rfold (\<lambda>layer_id _. rbind (canary_value canary nl rank new layer_id) (\<lambda>expect.
              rbind (get_r weights' layer_id) (\<lambda>ts. py_assert (expect = last ts)))) update_layer_ids ()) (\<lambda>_.
     Inr (\<lambda>l. if l \<in> set update_layer_ids then map_option butlast (weights' l) else weights' l, missing)))))"

text \<open>
  \<^verbatim>\<open>ExpertLocationMetadata.update\<close> on the map (its other fields are merged alike), for metadata of the same number of
  layers, and \<^verbatim>\<open>ExpertLocationUpdater.update\<close>. The assertions of the former hold by construction here: both sides have the
  same \<^verbatim>\<open>ep_size\<close>, the world size, and both have the map.
\<close>

definition meta_update :: "expert_meta \<Rightarrow> expert_meta \<Rightarrow> nat list \<Rightarrow> expert_meta" where
  "meta_update self other update_layer_ids =
     self\<lparr>physical_to_logical_map := map (\<lambda>i. if i \<in> set update_layer_ids then physical_to_logical_map other ! i
                                              else physical_to_logical_map self ! i) [0 ..< length (physical_to_logical_map self)]\<rparr>"

definition updater_update ::
  "(nat \<Rightarrow> 'v) option \<Rightarrow> bool \<Rightarrow> nat \<Rightarrow> bool list option \<Rightarrow> (nat \<Rightarrow> nat \<Rightarrow> nat \<Rightarrow> 'v) \<Rightarrow> (nat \<Rightarrow> nat \<Rightarrow> 'v) \<Rightarrow> nat \<Rightarrow> nat \<Rightarrow> nat \<Rightarrow>
   expert_meta option \<Rightarrow> expert_meta \<Rightarrow> nat list \<Rightarrow> (nat \<rightharpoonup> 'v tensors) \<Rightarrow>
   ((nat \<rightharpoonup> 'v tensors) \<times> expert_meta \<times> (nat \<rightharpoonup> nat list)) result" where
  "updater_update canary is_hip c active deliver junk world_size nnodes rank global_meta new update_layer_ids weights =
     (case global_meta of None \<Rightarrow> Inl AssertionError
      | Some old \<Rightarrow>
        rbind (case canary of
            None \<Rightarrow> update_expert_weights_raw is_hip c active deliver junk world_size nnodes rank old new update_layer_ids weights
          | Some v \<Rightarrow> update_expert_weights_with_canary v is_hip c active deliver junk world_size nnodes rank old new update_layer_ids weights)
          (\<lambda>(weights', missing). Inr (weights', meta_update old new update_layer_ids, missing)))"

end
