(* ===== verification/Update_Plan.thy ===== *)
theory Update_Plan
  imports Expert_Update
begin

text \<open>
  The plans of the ranks fit together: chunking assigns every receiver one sender, and rank \<open>a\<close> sends an expert
  to rank \<open>b\<close> exactly when \<open>b\<close> waits for it from \<open>a\<close>.
\<close>

section \<open>Chunks\<close>

lemma div_eq_range: "0 < s \<Longrightarrow> j div s = k \<longleftrightarrow> k * s \<le> j \<and> j < (k + 1) * (s :: nat)"
  by (metis add.commute plus_1_eq_Suc div_nat_eqI dividend_less_div_times div_times_less_eq_dividend mult.commute mult_Suc)

lemma chunk_index_iff:
  assumes "i < n" "0 < m" "c < m"
  shows "chunk_index_from_element_index n m i = Inr c \<longleftrightarrow>
    (\<exists>a b. element_slice_from_chunk_index n m c = Inr (a, b) \<and> a \<le> i \<and> i < b)"
proof -
  let ?s = "n div m" let ?l = "n mod m"
  have n: "n = m * ?s + ?l" by simp
  have l: "?l < m" using assms by simp
  show ?thesis
  proof (cases "i < ?l * (?s + 1)")
    case True
    have lhs: "chunk_index_from_element_index n m i = Inr c \<longleftrightarrow> c * (?s + 1) \<le> i \<and> i < (c + 1) * (?s + 1)"
      using True assms(2) by (auto simp: chunk_index_from_element_index_def Let_def div_eq_range)
    show ?thesis
    proof (cases "c < ?l")
      case c: True
      then show ?thesis unfolding lhs using assms(2) by (auto simp: element_slice_from_chunk_index_def Let_def)
    next
      case False
      then have "?l * ?s \<le> c * ?s" "?l \<le> c" by simp_all
      moreover have "i < ?l * ?s + ?l" "c * (?s + 1) = c * ?s + c" using True by simp_all
      ultimately have "\<not> c * ?s + ?l \<le> i" "\<not> c * (?s + 1) \<le> i" by linarith+
      with False assms(2) show ?thesis unfolding lhs by (auto simp: element_slice_from_chunk_index_def Let_def)
    qed
  next
    case False
    have s: "0 < ?s" using False assms(1) n by (cases "?s = 0") simp_all
    let ?j = "i - ?l * (?s + 1)"
    have lhs: "chunk_index_from_element_index n m i = Inr c \<longleftrightarrow> ?l + ?j div ?s = c"
      using False s assms(2) by (simp add: chunk_index_from_element_index_def Let_def)
    show ?thesis
    proof (cases "c < ?l")
      case c: True
      then have "(c + 1) * (?s + 1) \<le> ?l * (?s + 1)" by (intro mult_le_mono1) simp
      with c False have "\<not> i < c * ?s + c + ?s + 1" by simp
      with c assms(2) show ?thesis unfolding lhs by (auto simp: element_slice_from_chunk_index_def Let_def)
    next
      case c: False
      then have "?l + ?j div ?s = c \<longleftrightarrow> ?j div ?s = c - ?l" by auto
      also have "\<dots> \<longleftrightarrow> (c - ?l) * ?s \<le> ?j \<and> ?j < (c - ?l + 1) * ?s"
        by (rule div_eq_range [OF s])
      also have "\<dots> \<longleftrightarrow> c * ?s + ?l \<le> i \<and> i < c * ?s + ?l + ?s"
      proof -
        have "c * ?s = (c - ?l) * ?s + ?l * ?s" using c by (simp add: add_mult_distrib [symmetric])
        then show ?thesis using False by (auto simp: algebra_simps)
      qed
      finally show ?thesis unfolding lhs using c assms(2) by (auto simp: element_slice_from_chunk_index_def Let_def)
    qed
  qed
qed

lemma list_index_ok: "v \<in> set xs \<Longrightarrow> \<exists>i. list_index xs v = Inr i \<and> i < length xs \<and> xs ! i = v"
  by (induction xs) auto

lemma list_index_nth: "distinct xs \<Longrightarrow> i < length xs \<Longrightarrow> list_index xs (xs ! i) = Inr i"
proof -
  assume "distinct xs" "i < length xs"
  moreover obtain j where "list_index xs (xs ! i) = Inr j" "j < length xs" "xs ! j = xs ! i"
    using list_index_ok [of "xs ! i" xs] \<open>i < length xs\<close> by auto
  ultimately show ?thesis by (simp add: nth_eq_iff_index_eq)
qed

lemma chunk_index_less: "i < n \<Longrightarrow> 0 < m \<Longrightarrow> \<exists>c < m. chunk_index_from_element_index n m i = Inr c"
proof (cases "i < n mod m * (n div m + 1)")
  case True
  assume "i < n" "0 < m"
  with True have "i div (n div m + 1) < n mod m" by (intro less_mult_imp_div_less) simp
  also have "\<dots> < m" using \<open>0 < m\<close> by simp
  finally show ?thesis using True \<open>0 < m\<close> by (auto simp: chunk_index_from_element_index_def Let_def)
next
  case False
  assume a: "i < n" "0 < m"
  let ?s = "n div m" let ?l = "n mod m"
  have n: "n = m * ?s + ?l" by simp
  have s: "0 < ?s" using False a n by (cases "?s = 0") simp_all
  have "m * ?s = (m - ?l) * ?s + ?l * ?s" using a(2) by (simp add: add_mult_distrib [symmetric])
  moreover have "?l * (?s + 1) = ?l * ?s + ?l" by simp
  ultimately have "i - ?l * (?s + 1) < (m - ?l) * ?s" using False a(1) n by linarith
  then have "(i - ?l * (?s + 1)) div ?s < m - ?l" by (rule less_mult_imp_div_less)
  then show ?thesis using False s a(2) by (auto simp: chunk_index_from_element_index_def Let_def)
qed

text \<open>Each element belongs to the chunk it is looked up in, and to no other.\<close>

lemma in_slice_iff: "distinct xs \<Longrightarrow> i < length xs \<Longrightarrow> xs ! i \<in> set (slice a b xs) \<longleftrightarrow> a \<le> i \<and> i < b"
  unfolding slice_def
proof
  assume d: "distinct xs" "i < length xs" and "xs ! i \<in> set (take (b - a) (drop a xs))"
  then obtain j where "j < b - a" "a + j < length xs" "xs ! (a + j) = xs ! i" by (auto simp: in_set_conv_nth)
  with d show "a \<le> i \<and> i < b" by (auto simp: nth_eq_iff_index_eq)
next
  assume "i < length xs" "a \<le> i \<and> i < b"
  then show "xs ! i \<in> set (take (b - a) (drop a xs))" by (auto simp: in_set_conv_nth intro!: exI [of _ "i - a"])
qed

lemma chunk_match:
  assumes d: "distinct (chunk_values cu)" "distinct (element_values cu)" and v: "v \<in> set (element_values cu)"
    and c: "chunk_values cu \<noteq> []"
  shows "\<exists>a. a \<in> set (chunk_values cu) \<and> chunk_value_from_element_value cu v = Inr a \<and>
    (\<forall>a' vs. a' \<in> set (chunk_values cu) \<longrightarrow> element_values_from_chunk_value cu a' = Inr vs \<longrightarrow> (v \<in> set vs \<longleftrightarrow> a' = a))"
proof -
  let ?n = "length (element_values cu)" let ?m = "length (chunk_values cu)"
  have m: "0 < ?m" using c by simp
  obtain i where i: "list_index (element_values cu) v = Inr i" "i < ?n" "element_values cu ! i = v"
    using list_index_ok [OF v] by blast
  obtain k where k: "k < ?m" "chunk_index_from_element_index ?n ?m i = Inr k" using chunk_index_less [OF i(2) m] by blast
  show ?thesis
  proof (intro exI [of _ "chunk_values cu ! k"] conjI allI impI)
    show "chunk_values cu ! k \<in> set (chunk_values cu)" using k by simp
    show "chunk_value_from_element_value cu v = Inr (chunk_values cu ! k)"
      using i k by (simp add: chunk_value_from_element_value_def nth_r_def)
    fix a' vs assume a': "a' \<in> set (chunk_values cu)" "element_values_from_chunk_value cu a' = Inr vs"
    then obtain k' where k': "k' < ?m" "chunk_values cu ! k' = a'" "list_index (chunk_values cu) a' = Inr k'"
      using list_index_ok by metis
    then obtain x y where xy: "element_slice_from_chunk_index ?n ?m k' = Inr (x, y)" "vs = slice x y (element_values cu)"
      using a'(2) i(2) by (auto simp: element_values_from_chunk_value_def split: if_splits)
    have "v \<in> set vs \<longleftrightarrow> x \<le> i \<and> i < y" using in_slice_iff [OF d(2) i(2)] i(3) xy(2) by simp
    also have "\<dots> \<longleftrightarrow> k = k'" using chunk_index_iff [OF i(2) m k'(1)] k(2) xy(1) by auto
    also have "\<dots> \<longleftrightarrow> a' = chunk_values cu ! k" using k(1) k'(1,2) d(1) by (auto simp: nth_eq_iff_index_eq)
    finally show "v \<in> set vs \<longleftrightarrow> a' = chunk_values cu ! k" .
  qed
qed

lemma elements_of_chunk:
  assumes "a \<in> set (chunk_values cu)" "distinct (element_values cu)"
  shows "\<exists>vs. element_values_from_chunk_value cu a = Inr vs \<and> distinct vs \<and> set vs \<subseteq> set (element_values cu)"
proof (cases "element_values cu = []")
  case False
  obtain c where "list_index (chunk_values cu) a = Inr c" using list_index_ok [OF assms(1)] by blast
  with False assms show ?thesis
    by (auto simp: element_values_from_chunk_value_def element_slice_from_chunk_index_def Let_def slice_def
      dest: in_set_takeD in_set_dropD)
qed (simp add: element_values_from_chunk_value_def)

section \<open>Removing repetitions\<close>

lemma dedup_fold:
  assumes "sorted (out @ arr)" "distinct out"
  shows "let r = fold (\<lambda>item output. if output = [] \<or> item \<noteq> last output then output @ [item] else output) arr out in
    sorted r \<and> distinct r \<and> set r = set out \<union> set arr"
  using assms
proof (induction arr arbitrary: out)
  case (Cons x arr)
  show ?case
  proof (cases "out = [] \<or> x \<noteq> last out")
    case True
    have "x \<notin> set out"
    proof (cases out rule: rev_cases)
      case (snoc ys z)
      with Cons.prems(1) have "z \<le> x" "\<forall>y \<in> set ys. y \<le> z" by (simp_all add: sorted_append)
      with True snoc show ?thesis by auto
    qed simp
    with True Cons.IH [of "out @ [x]"] Cons.prems show ?thesis by (auto simp: Let_def)
  next
    case False
    then have "x \<in> set out" by auto
    with False Cons.IH [of out] Cons.prems show ?thesis by (auto simp: Let_def sorted_append)
  qed
qed (simp add: sorted_append)

lemma dedup_ok:
  assumes "sorted arr"
  shows "sorted (deduplicate_ordered arr)" "distinct (deduplicate_ordered arr)" "set (deduplicate_ordered arr) = set arr"
  using dedup_fold [of "[]" arr] assms by (simp_all add: deduplicate_ordered_def Let_def)

section \<open>The parties of an exchange\<close>

definition reloc_ok :: "nat \<Rightarrow> relocation \<Rightarrow> bool" where
  "reloc_ok W m \<longleftrightarrow> 0 < num_local m \<and> 0 < gpus_per_node m \<and> length (old_map m) = W * num_local m \<and>
     length (new_map m) = W * num_local m \<and> set (new_map m) \<subseteq> set (old_map m)"

definition holds :: "nat list \<Rightarrow> nat \<Rightarrow> nat \<Rightarrow> nat \<Rightarrow> bool" where
  "holds xs k a e \<longleftrightarrow> (\<exists>x < length xs. x div k = a \<and> xs ! x = e)"

definition needs :: "relocation \<Rightarrow> nat \<Rightarrow> nat \<Rightarrow> bool" where
  "needs m b e \<longleftrightarrow> holds (new_map m) (num_local m) b e \<and> \<not> holds (old_map m) (num_local m) b e"

abbreviation has :: "relocation \<Rightarrow> nat \<Rightarrow> nat \<Rightarrow> bool" where
  "has m \<equiv> holds (old_map m) (num_local m)"

abbreviation node_of :: "relocation \<Rightarrow> nat \<Rightarrow> nat" where
  "node_of m a \<equiv> a div gpus_per_node m"

lemma ranks_of:
  fixes k :: nat
  defines "r \<equiv> \<lambda>P n. deduplicate_ordered (map (\<lambda>x. x div k) (filter P [0 ..< n]))"
  shows "distinct (r P n)" "set (r P n) = {a. \<exists>x < n. P x \<and> x div k = a}"
proof -
  have "sorted (map (\<lambda>x. x div k) (filter P [0 ..< n]))"
    unfolding sorted_map by (rule sorted_wrt_filter, rule sorted_wrt_mono_rel [of _ "(\<le>)"]) (auto simp: div_le_mono)
  from dedup_ok(2,3) [OF this] show "distinct (r P n)" "set (r P n) = {a. \<exists>x < n. P x \<and> x div k = a}"
    unfolding r_def by auto
qed

lemma comm_info:
  assumes "reloc_ok W m"
  obtains same cross where "compute_comm_info m rank e = Inr (same, cross, element_values same)"
    "distinct (chunk_values same)" "distinct (element_values same)" "distinct (chunk_values cross)" "distinct (element_values cross)"
    "set (chunk_values same) = {a. has m a e \<and> node_of m a = node_of m rank}" "set (chunk_values cross) = {a. has m a e}"
    "set (element_values same) = {b. needs m b e \<and> node_of m b = node_of m rank \<and> (\<exists>a. has m a e \<and> node_of m a = node_of m rank)}"
    "set (element_values cross) = {b. needs m b e \<and> (\<forall>a. has m a e \<longrightarrow> node_of m a \<noteq> node_of m b)}"
proof -
  let ?k = "num_local m" let ?n = "length (old_map m)"
  define src where "src = deduplicate_ordered (map (\<lambda>x. x div ?k) (filter (\<lambda>x. old_map m ! x = e) [0 ..< ?n]))"
  define dst where "dst = deduplicate_ordered (map (\<lambda>x. x div ?k) (filter (\<lambda>x. new_map m ! x = e \<and> x div ?k \<notin> set src) [0 ..< ?n]))"
  let ?self = "filter (\<lambda>x. node_of m x = node_of m rank) src"
  let ?need = "if ?self \<noteq> [] then filter (\<lambda>x. node_of m x = node_of m rank) dst else []"
  let ?cross = "filter (\<lambda>x. node_of m x \<notin> set (map (node_of m) src)) dst"
  have src: "distinct src" "set src = {a. has m a e}"
    unfolding src_def using ranks_of [of ?k "\<lambda>x. old_map m ! x = e" ?n] by (auto simp: holds_def)
  have dst: "distinct dst" "set dst = {b. needs m b e}"
  proof -
    show "distinct dst" unfolding dst_def by (rule ranks_of(1))
    have "set dst = {b. \<exists>x < ?n. (new_map m ! x = e \<and> x div ?k \<notin> {a. has m a e}) \<and> x div ?k = b}"
      unfolding dst_def src(2) by (rule ranks_of(2))
    also have "\<dots> = {b. needs m b e}"
    proof -
      have len: "length (new_map m) = ?n" using assms by (simp add: reloc_ok_def)
      show ?thesis unfolding needs_def holds_def [of "new_map m"] len by blast
    qed
    finally show "set dst = {b. needs m b e}" .
  qed
  have run: "compute_comm_info m rank e = Inr (\<lparr>chunk_values = ?self, element_values = ?need\<rparr>, \<lparr>chunk_values = src, element_values = ?cross\<rparr>, ?need)"
    using assms by (simp add: compute_comm_info_def reloc_ok_def Let_def src_def dst_def)
  have ne: "?self \<noteq> [] \<longleftrightarrow> (\<exists>a. has m a e \<and> node_of m a = node_of m rank)"
    using src(2) by (auto simp: filter_empty_conv)
  show thesis
  proof (rule that [of "\<lparr>chunk_values = ?self, element_values = ?need\<rparr>" "\<lparr>chunk_values = src, element_values = ?cross\<rparr>"])
    show "set (element_values \<lparr>chunk_values = ?self, element_values = ?need\<rparr>) =
      {b. needs m b e \<and> node_of m b = node_of m rank \<and> (\<exists>a. has m a e \<and> node_of m a = node_of m rank)}"
      unfolding chunk_utils.simps ne using dst(2) by (cases "\<exists>a. has m a e \<and> node_of m a = node_of m rank") auto
    show "set (element_values \<lparr>chunk_values = src, element_values = ?cross\<rparr>) =
      {b. needs m b e \<and> (\<forall>a. has m a e \<longrightarrow> node_of m a \<noteq> node_of m b)}"
      using dst(2) src(2) by (auto simp: image_iff)
  qed (use run src dst in simp_all)
qed

text \<open>The ranks that \<open>a\<close> sends expert \<open>e\<close> to, and the rank that \<open>b\<close> waits for.\<close>

definition dst_ranks :: "relocation \<Rightarrow> nat \<Rightarrow> nat \<Rightarrow> nat list result" where
  "dst_ranks m a e =
     rbind (compute_comm_info m a e) (\<lambda>(same, cross, _).
     rbind (element_values_from_chunk_value same a) (\<lambda>s.
     rbind (element_values_from_chunk_value cross a) (\<lambda>c. Inr (s @ c))))"

definition src_rank :: "relocation \<Rightarrow> nat \<Rightarrow> nat \<Rightarrow> nat result" where
  "src_rank m b e =
     rbind (compute_comm_info m b e) (\<lambda>(same, cross, need).
     chunk_value_from_element_value (if b \<in> set need then same else cross) b)"

lemma dst_ranks_ok:
  assumes m: "reloc_ok W m" and a: "has m a e"
  shows "\<exists>bs. dst_ranks m a e = Inr bs \<and> distinct bs \<and> (\<forall>b \<in> set bs. needs m b e)"
proof -
  obtain same cross where c: "compute_comm_info m a e = Inr (same, cross, element_values same)"
    "distinct (element_values same)" "distinct (element_values cross)"
    "set (chunk_values same) = {a'. has m a' e \<and> node_of m a' = node_of m a}" "set (chunk_values cross) = {a. has m a e}"
    "set (element_values same) = {b. needs m b e \<and> node_of m b = node_of m a \<and> (\<exists>a'. has m a' e \<and> node_of m a' = node_of m a)}"
    "set (element_values cross) = {b. needs m b e \<and> (\<forall>a. has m a e \<longrightarrow> node_of m a \<noteq> node_of m b)}"
    by (rule comm_info [OF m])
  obtain s where s: "element_values_from_chunk_value same a = Inr s" "distinct s" "set s \<subseteq> set (element_values same)"
    using elements_of_chunk [of a same] a c by auto
  obtain x where x: "element_values_from_chunk_value cross a = Inr x" "distinct x" "set x \<subseteq> set (element_values cross)"
    using elements_of_chunk [of a cross] a c by auto
  have "set s \<inter> set x = {}"
  proof (rule ccontr)
    assume "set s \<inter> set x \<noteq> {}"
    then obtain b where "b \<in> set (element_values same)" "b \<in> set (element_values cross)" using s(3) x(3) by blast
    with a show False unfolding c(6,7) by auto
  qed
  then show ?thesis using c(1) s x c(6,7) by (auto simp: dst_ranks_def)
qed

lemma comm_info_node: "node_of m a = node_of m b \<Longrightarrow> compute_comm_info m a e = compute_comm_info m b e"
  by (simp add: compute_comm_info_def Let_def)

lemma comm_info_cross:
  "compute_comm_info m a e = Inr (same, cross, need) \<Longrightarrow> compute_comm_info m b e = Inr (same', cross', need') \<Longrightarrow> cross = cross'"
  by (auto simp: compute_comm_info_def Let_def split: if_splits)

lemma dst_ranks_parts:
  assumes m: "reloc_ok W m" and "has m a e" "dst_ranks m a e = Inr bs"
  obtains same cross s x where "compute_comm_info m a e = Inr (same, cross, element_values same)"
    "element_values_from_chunk_value same a = Inr s" "element_values_from_chunk_value cross a = Inr x" "set bs = set s \<union> set x"
    "\<forall>b \<in> set s. node_of m b = node_of m a" "\<forall>b \<in> set x. \<forall>a. has m a e \<longrightarrow> node_of m a \<noteq> node_of m b"
proof -
  obtain same cross where c: "compute_comm_info m a e = Inr (same, cross, element_values same)"
    "distinct (element_values same)" "distinct (element_values cross)"
    "set (chunk_values same) = {a'. has m a' e \<and> node_of m a' = node_of m a}" "set (chunk_values cross) = {a. has m a e}"
    "set (element_values same) = {b. needs m b e \<and> node_of m b = node_of m a \<and> (\<exists>a'. has m a' e \<and> node_of m a' = node_of m a)}"
    "set (element_values cross) = {b. needs m b e \<and> (\<forall>a. has m a e \<longrightarrow> node_of m a \<noteq> node_of m b)}"
    by (rule comm_info [OF m])
  obtain s x where sx: "element_values_from_chunk_value same a = Inr s" "element_values_from_chunk_value cross a = Inr x" "bs = s @ x"
    using assms(3) c(1) by (auto simp: dst_ranks_def)
  have "set s \<subseteq> set (element_values same)" "set x \<subseteq> set (element_values cross)"
    using elements_of_chunk [of a same] elements_of_chunk [of a cross] assms(2) c sx by auto
  then show thesis unfolding c(6,7) by (intro that [OF c(1) sx(1,2)]) (use sx(3) in auto)
qed

lemma src_rank_ok:
  assumes m: "reloc_ok W m" and b: "needs m b e" and ex: "\<exists>a. has m a e"
  obtains a where "src_rank m b e = Inr a" "has m a e"
    "\<And>a' bs. has m a' e \<Longrightarrow> dst_ranks m a' e = Inr bs \<Longrightarrow> b \<in> set bs \<longleftrightarrow> a' = a"
proof -
  obtain same cross where c: "compute_comm_info m b e = Inr (same, cross, element_values same)"
    "distinct (chunk_values same)" "distinct (element_values same)" "distinct (chunk_values cross)" "distinct (element_values cross)"
    "set (chunk_values same) = {a. has m a e \<and> node_of m a = node_of m b}" "set (chunk_values cross) = {a. has m a e}"
    "set (element_values same) = {b'. needs m b' e \<and> node_of m b' = node_of m b \<and> (\<exists>a. has m a e \<and> node_of m a = node_of m b)}"
    "set (element_values cross) = {b. needs m b e \<and> (\<forall>a. has m a e \<longrightarrow> node_of m a \<noteq> node_of m b)}"
    by (rule comm_info [OF m])
  let ?local = "\<exists>a. has m a e \<and> node_of m a = node_of m b"
  let ?cu = "if ?local then same else cross"
  have need: "b \<in> set (element_values same) \<longleftrightarrow> ?local" using b c(8) by auto
  have cu: "distinct (chunk_values ?cu)" "distinct (element_values ?cu)" "b \<in> set (element_values ?cu)" "chunk_values ?cu \<noteq> []"
  proof -
    show "distinct (chunk_values ?cu)" "distinct (element_values ?cu)" using c(2-5) by (simp_all split: if_splits)
    show "b \<in> set (element_values ?cu)" using b need c(9) by (cases ?local) auto
    have "set (chunk_values ?cu) \<noteq> {}" using ex c(6,7) by (cases ?local) auto
    then show "chunk_values ?cu \<noteq> []" by simp
  qed
  obtain a where a: "a \<in> set (chunk_values ?cu)" "chunk_value_from_element_value ?cu b = Inr a"
    "\<forall>a' vs. a' \<in> set (chunk_values ?cu) \<longrightarrow> element_values_from_chunk_value ?cu a' = Inr vs \<longrightarrow> (b \<in> set vs \<longleftrightarrow> a' = a)"
    using chunk_match [OF cu] by (elim exE conjE) (rule that)
  show thesis
  proof (rule that [of a])
    show "src_rank m b e = Inr a" using c(1) need a(2) by (simp add: src_rank_def)
    show "has m a e" using a(1) c(6,7) by (auto split: if_splits)
    fix a' bs assume a': "has m a' e" "dst_ranks m a' e = Inr bs"
    obtain same' cross' s x where d: "compute_comm_info m a' e = Inr (same', cross', element_values same')"
      "element_values_from_chunk_value same' a' = Inr s" "element_values_from_chunk_value cross' a' = Inr x" "set bs = set s \<union> set x"
      "\<forall>b \<in> set s. node_of m b = node_of m a'" "\<forall>b \<in> set x. \<forall>a. has m a e \<longrightarrow> node_of m a \<noteq> node_of m b"
      by (rule dst_ranks_parts [OF m a'])
    have cross: "cross' = cross" by (rule comm_info_cross [OF d(1) c(1)])
    show "b \<in> set bs \<longleftrightarrow> a' = a"
    proof (cases ?local)
      case True
      then have "b \<notin> set x" using d(6) by blast
      moreover have "b \<in> set s \<longleftrightarrow> a' = a"
      proof (cases "node_of m a' = node_of m b")
        case eq: True
        then have "same' = same" using d(1) c(1) comm_info_node [OF eq, of e] by simp
        with a(3) [rule_format, of a' s] d(2) a'(1) eq True c(6) show ?thesis by auto
      next
        case False
        then have "b \<notin> set s" using d(5) by metis
        moreover have "a \<in> set (chunk_values same)" using a(1) True by simp
        ultimately show ?thesis using False c(6) by auto
      qed
      ultimately show ?thesis using d(4) by blast
    next
      case False
      then have "b \<notin> set s" using d(5) a'(1) by metis
      moreover have "b \<in> set x \<longleftrightarrow> a' = a" using a(3) [rule_format, of a' x] d(3) a'(1) False c(7) cross by auto
      ultimately show ?thesis using d(4) by blast
    qed
  qed
qed

end
