(* ===== verification/Update_Exchange.thy ===== *)
theory Update_Exchange
  imports Update_Plan
begin

text \<open>
  From plans to weights: the lists of operations of two ranks match one by one, every receive gets a row of the
  expert it waits for, and after the copies each location holds the weights of its new expert.
\<close>

section \<open>The receiving side\<close>

lemma set_local_range: "reloc_ok W m \<Longrightarrow> x \<in> set (local_range m r) \<longleftrightarrow> x div num_local m = r"
  by (auto simp: reloc_ok_def local_range_def div_eq_range)

lemma loc_less: "reloc_ok W m \<Longrightarrow> x div num_local m < W \<Longrightarrow> x < length (old_map m) \<and> x < length (new_map m)"
  by (auto simp: reloc_ok_def div_less_iff_less_mult)

lemma find_location_ok: "\<forall>x \<in> set locs. x < length xs \<Longrightarrow> find_location xs e locs = Inr (find (\<lambda>x. xs ! x = e) locs)"
  by (induction locs) (auto simp: nth_r_def)

lemma find_upt:
  "find P [a ..< b] = Some x \<longleftrightarrow> a \<le> x \<and> x < b \<and> P x \<and> (\<forall>y. a \<le> y \<longrightarrow> y < x \<longrightarrow> \<not> P y)"
proof -
  have "find P [a ..< b] = Some x \<longleftrightarrow> (\<exists>i < b - a. P (a + i) \<and> x = a + i \<and> (\<forall>j < i. \<not> P (a + j)))"
    by (auto simp: find_Some_iff)
  also have "\<dots> \<longleftrightarrow> a \<le> x \<and> x < b \<and> P x \<and> (\<forall>y. a \<le> y \<longrightarrow> y < x \<longrightarrow> \<not> P y)"
  proof
    assume "\<exists>i < b - a. P (a + i) \<and> x = a + i \<and> (\<forall>j < i. \<not> P (a + j))"
    then obtain i where i: "i < b - a" "P (a + i)" "x = a + i" "\<forall>j < i. \<not> P (a + j)" by blast
    have "\<not> P y" if "a \<le> y" "y < x" for y using i(3,4) that by (metis le_add_diff_inverse nat_add_left_cancel_less)
    with i show "a \<le> x \<and> x < b \<and> P x \<and> (\<forall>y. a \<le> y \<longrightarrow> y < x \<longrightarrow> \<not> P y)" by auto
  next
    assume "a \<le> x \<and> x < b \<and> P x \<and> (\<forall>y. a \<le> y \<longrightarrow> y < x \<longrightarrow> \<not> P y)"
    then show "\<exists>i < b - a. P (a + i) \<and> x = a + i \<and> (\<forall>j < i. \<not> P (a + j))" by (intro exI [of _ "x - a"]) auto
  qed
  finally show ?thesis .
qed

definition case_ok :: "relocation \<Rightarrow> nat \<Rightarrow> nat \<Rightarrow> recv_case \<Rightarrow> bool" where
  "case_ok m b dst c \<longleftrightarrow>
     (let e = new_map m ! dst in
      case c of
        Unchanged \<Rightarrow> old_map m ! dst = e
      | SameGpu src \<Rightarrow> src div num_local m = b \<and> old_map m ! src = e
      | FreeRider src \<Rightarrow> src div num_local m = b \<and> src < dst \<and> new_map m ! src = e \<and> \<not> has m b e \<and>
          (\<forall>s < src. s div num_local m = b \<longrightarrow> new_map m ! s \<noteq> e)
      | FromRank a \<Rightarrow> needs m b e \<and> src_rank m b e = Inr a \<and> (\<forall>s < dst. s div num_local m = b \<longrightarrow> new_map m ! s \<noteq> e))"

lemma recv_case_ok:
  assumes m: "reloc_ok W m" and b: "b < W" "dst div num_local m = b"
  shows "\<exists>c. recv_case m b dst = Inr c \<and> case_ok m b dst c"
proof -
  let ?e = "new_map m ! dst" let ?k = "num_local m"
  have k: "0 < ?k" using m by (simp add: reloc_ok_def)
  have dst: "dst < length (old_map m)" "dst < length (new_map m)" using loc_less [OF m] b by auto
  have lr: "x div ?k = b \<longleftrightarrow> b * ?k \<le> x \<and> x < (b + 1) * ?k" for x by (rule div_eq_range [OF k])
  have old: "find_location (old_map m) ?e (local_range m b) = Inr (find (\<lambda>x. old_map m ! x = ?e) (local_range m b))"
    using loc_less [OF m] b(1) by (intro find_location_ok) (auto simp: set_local_range [OF m])
  have new: "find_location (new_map m) ?e [b * ?k ..< dst] = Inr (find (\<lambda>x. new_map m ! x = ?e) [b * ?k ..< dst])"
    using dst(2) by (intro find_location_ok) auto
  show ?thesis
  proof (cases "old_map m ! dst = ?e")
    case True
    then show ?thesis using dst by (auto simp: recv_case_def nth_r_def case_ok_def)
  next
    case neq: False
    show ?thesis
    proof (cases "find (\<lambda>x. old_map m ! x = ?e) (local_range m b)")
      case (Some src)
      then have "src div ?k = b \<and> old_map m ! src = ?e" by (simp add: local_range_def find_upt lr)
      then show ?thesis using dst neq old Some by (auto simp: recv_case_def nth_r_def case_ok_def)
    next
      case None
      then have no: "\<not> has m b ?e"
        using set_local_range [OF m] by (auto simp: find_None_iff holds_def)
      show ?thesis
      proof (cases "find (\<lambda>x. new_map m ! x = ?e) [b * ?k ..< dst]")
        case (Some src)
        then have "src div ?k = b \<and> src < dst \<and> new_map m ! src = ?e \<and> (\<forall>s < src. s div ?k = b \<longrightarrow> new_map m ! s \<noteq> ?e)"
          using lr [of dst] b(2) by (auto simp: find_upt lr)
        then show ?thesis using dst neq old None new Some no by (auto simp: recv_case_def nth_r_def case_ok_def)
      next
        case none: None
        have needs: "needs m b ?e" using no dst b by (auto simp: needs_def holds_def)
        have "?e \<in> set (old_map m)" using m dst by (auto simp: reloc_ok_def)
        then have "\<exists>a. has m a ?e" by (auto simp: holds_def in_set_conv_nth)
        then obtain a where a: "src_rank m b ?e = Inr a" using src_rank_ok [OF m needs] by metis
        have "\<forall>s < dst. s div ?k = b \<longrightarrow> new_map m ! s \<noteq> ?e" using none by (auto simp: find_None_iff lr)
        moreover have "recv_case m b dst = Inr (FromRank a)"
          using dst neq old None new none a by (auto simp: recv_case_def nth_r_def src_rank_def split: prod.splits)
        ultimately show ?thesis using needs a by (auto simp: case_ok_def)
      qed
    qed
  qed
qed

subsection \<open>Rows\<close>

definition shaped :: "nat \<Rightarrow> nat \<Rightarrow> 'v tensors \<Rightarrow> bool" where
  "shaped n k ts \<longleftrightarrow> length ts = n \<and> (\<forall>t \<in> set ts. length t = k)"

lemma shaped_nth: "shaped n k ts \<Longrightarrow> i < n \<Longrightarrow> length (ts ! i) = k"
  by (simp add: shaped_def)

lemma get_rows_ok: "reloc_ok W m \<Longrightarrow> shaped n (num_local m) ts \<Longrightarrow> loc div num_local m = r \<Longrightarrow>
  get_rows m r n ts loc = Inr (if n = 0 then 0 else loc mod num_local m)"
  by (auto simp: get_rows_def get_local_expert_location_def reloc_ok_def div_eq_range shaped_def py_assert_def dest: in_set_takeD)

lemma set_rows_0 [simp]: "set_rows 0 l f ts = ts"
  by (simp add: set_rows_def map_nth)

lemma set_rows_shaped: "shaped n k ts \<Longrightarrow> shaped n k (set_rows n l f ts)"
  by (auto simp: shaped_def set_rows_def)

lemma set_rows_nth:
  "shaped n k ts \<Longrightarrow> i < n \<Longrightarrow> l < k \<Longrightarrow> set_rows n l f ts ! i ! j = (if j = l then f i else ts ! i ! j)"
  by (auto simp: shaped_def set_rows_def)

lemma copy_rows_ok:
  assumes "reloc_ok W m" "shaped n (num_local m) from" "shaped n (num_local m) to"
    and "src div num_local m = r" "dst div num_local m = r"
  shows "copy_rows m r n from src dst to = Inr (set_rows n (dst mod num_local m) (\<lambda>i. from ! i ! (src mod num_local m)) to)"
  using get_rows_ok [OF assms(1,2,4)] get_rows_ok [OF assms(1,3,5)] by (cases "n = 0") (simp_all add: copy_rows_def)

subsection \<open>The plan of a receiver\<close>

definition rc :: "relocation \<Rightarrow> nat \<Rightarrow> nat \<Rightarrow> recv_case" where
  "rc m b dst = (case recv_case m b dst of Inr c \<Rightarrow> c | Inl _ \<Rightarrow> Unchanged)"

lemma rc_ok:
  assumes "reloc_ok W m" "b < W" "dst div num_local m = b"
  shows "recv_case m b dst = Inr (rc m b dst)" "case_ok m b dst (rc m b dst)"
  using recv_case_ok [OF assms] by (auto simp: rc_def)

definition recv_ops :: "nat \<Rightarrow> nat \<Rightarrow> nat \<Rightarrow> p2p_op list" where
  "recv_ops n dst a = map (\<lambda>i. \<lparr>is_send = False, op_tensor = i, op_loc = dst, op_peer = a\<rparr>) [0 ..< n]"

definition recv_info :: "relocation \<Rightarrow> nat \<Rightarrow> nat \<Rightarrow> nat \<Rightarrow> (nat \<times> p2p_op list) list" where
  "recv_info m b n dst = (case rc m b dst of FromRank a \<Rightarrow> [(new_map m ! dst, recv_ops n dst a)] | _ \<Rightarrow> [])"

definition copy_info :: "relocation \<Rightarrow> nat \<Rightarrow> nat \<Rightarrow> (nat \<times> nat) list" where
  "copy_info m b dst = (case rc m b dst of Unchanged \<Rightarrow> [] | FreeRider src \<Rightarrow> [(src, dst)] | _ \<Rightarrow> [(dst, dst)])"

lemma handle_recv_fold:
  assumes m: "reloc_ok W m" "b < W" and w: "shaped n (num_local m) w" and st: "shaped n (num_local m) (temp_buffers st)"
    and locs: "\<forall>dst \<in> set locs. dst div num_local m = b" "distinct locs"
  shows "\<exists>st'. rfold (handle_recv_of_dst_expert_location m b w) locs st = Inr st' \<and> shaped n (num_local m) (temp_buffers st') \<and>
    copy_infos st' = copy_infos st @ concat (map (copy_info m b) locs) \<and>
    op_infos st' = op_infos st @ concat (map (recv_info m b n) locs) \<and>
    (\<forall>i < n. \<forall>dst. dst div num_local m = b \<longrightarrow> temp_buffers st' ! i ! (dst mod num_local m) =
      (case rc m b dst of SameGpu src \<Rightarrow> if dst \<in> set locs then w ! i ! (src mod num_local m) else temp_buffers st ! i ! (dst mod num_local m)
       | _ \<Rightarrow> temp_buffers st ! i ! (dst mod num_local m)))"
  using st locs
proof (induction locs arbitrary: st)
  case Nil
  then show ?case by (auto split: recv_case.splits)
next
  case (Cons dst locs)
  let ?k = "num_local m"
  have d: "dst div ?k = b" using Cons.prems by simp
  have k: "0 < ?k" "\<And>x. x mod ?k < ?k" using m by (simp_all add: reloc_ok_def)
  have lw: "length w = n" using w by (simp add: shaped_def)
  note c = rc_ok [OF m d]
  define bufs where "bufs = (case rc m b dst of SameGpu src \<Rightarrow> set_rows n (dst mod ?k) (\<lambda>i. w ! i ! (src mod ?k)) (temp_buffers st)
    | _ \<Rightarrow> temp_buffers st)"
  define st1 where "st1 = \<lparr>temp_buffers = bufs, copy_infos = copy_infos st @ copy_info m b dst, op_infos = op_infos st @ recv_info m b n dst\<rparr>"
  have run: "handle_recv_of_dst_expert_location m b w dst st = Inr st1"
    using c copy_rows_ok [OF m(1) w Cons.prems(1) _ d] get_rows_ok [OF m(1) Cons.prems(1) d] lw
    by (auto simp: handle_recv_of_dst_expert_location_def case_ok_def copy_info_def recv_info_def recv_ops_def st1_def bufs_def split: recv_case.splits)
  have sh: "shaped n ?k (temp_buffers st1)" using Cons.prems(1) by (auto simp: set_rows_shaped st1_def bufs_def split: recv_case.splits)
  have locs: "\<forall>dst \<in> set locs. dst div ?k = b" "distinct locs" using Cons.prems by auto
  obtain st' where st': "rfold (handle_recv_of_dst_expert_location m b w) locs st1 = Inr st'"
    "shaped n ?k (temp_buffers st')" "copy_infos st' = copy_infos st1 @ concat (map (copy_info m b) locs)"
    "op_infos st' = op_infos st1 @ concat (map (recv_info m b n) locs)"
    "\<forall>i < n. \<forall>x. x div ?k = b \<longrightarrow> temp_buffers st' ! i ! (x mod ?k) =
      (case rc m b x of SameGpu src \<Rightarrow> if x \<in> set locs then w ! i ! (src mod ?k) else temp_buffers st1 ! i ! (x mod ?k)
       | _ \<Rightarrow> temp_buffers st1 ! i ! (x mod ?k))"
    using Cons.IH [OF sh locs] by (elim exE conjE) (rule that)
  have same: "x mod ?k = dst mod ?k \<longleftrightarrow> x = dst" if "x div ?k = b" for x
    using that d by (metis div_mult_mod_eq)
  have bufs: "temp_buffers st1 ! i ! (x mod ?k) = (if x = dst then case rc m b dst of SameGpu src \<Rightarrow> w ! i ! (src mod ?k) | _ \<Rightarrow> temp_buffers st ! i ! (x mod ?k)
      else temp_buffers st ! i ! (x mod ?k))" if "i < n" "x div ?k = b" for i x
    using set_rows_nth [OF Cons.prems(1) that(1) k(2)] same [OF that(2)] by (auto simp: st1_def bufs_def split: recv_case.splits)
  have "temp_buffers st' ! i ! (x mod ?k) =
      (case rc m b x of SameGpu src \<Rightarrow> if x \<in> set (dst # locs) then w ! i ! (src mod ?k) else temp_buffers st ! i ! (x mod ?k)
       | _ \<Rightarrow> temp_buffers st ! i ! (x mod ?k))" if "i < n" "x div ?k = b" for i x
    using st'(5) bufs [OF that] that by (auto split: recv_case.splits)
  then show ?case using run st'(1-4) by (simp add: st1_def)
qed

lemma handle_recv_ok:
  assumes m: "reloc_ok W m" "b < W" and w: "shaped n (num_local m) w" and bufs: "shaped n (num_local m) bufs"
  shows "\<exists>st. handle_recv m b w bufs = Inr st \<and> shaped n (num_local m) (temp_buffers st) \<and>
    copy_infos st = concat (map (copy_info m b) (local_range m b)) \<and> op_infos st = concat (map (recv_info m b n) (local_range m b)) \<and>
    (\<forall>i < n. \<forall>dst src. dst div num_local m = b \<longrightarrow> rc m b dst = SameGpu src \<longrightarrow>
      temp_buffers st ! i ! (dst mod num_local m) = w ! i ! (src mod num_local m))"
proof -
  have "\<forall>dst \<in> set (local_range m b). dst div num_local m = b" "distinct (local_range m b)"
    using set_local_range [OF m(1)] by (auto simp: local_range_def)
  from handle_recv_fold [OF m w _ this, of "\<lparr>temp_buffers = bufs, copy_infos = [], op_infos = []\<rparr>"] bufs
  show ?thesis unfolding handle_recv_def by (auto simp: set_local_range [OF m(1)])
qed

section \<open>The sending side\<close>

definition send_ops :: "nat \<Rightarrow> nat \<Rightarrow> nat list \<Rightarrow> p2p_op list" where
  "send_ops n src bs = concat (map (\<lambda>b. map (\<lambda>i. \<lparr>is_send = True, op_tensor = i, op_loc = src, op_peer = b\<rparr>) [0 ..< n]) bs)"

definition send_info :: "relocation \<Rightarrow> nat \<Rightarrow> nat \<Rightarrow> nat \<times> p2p_op list \<Rightarrow> bool" where
  "send_info m a n info \<longleftrightarrow> (\<exists>src bs. src div num_local m = a \<and> old_map m ! src = fst info \<and> dst_ranks m a (fst info) = Inr bs \<and>
     snd info = send_ops n src bs)"

lemma isend_of_ok:
  assumes m: "reloc_ok W m" and a: "has m a e" "src div num_local m = a" and w: "shaped n (num_local m) w"
  obtains bs where "create_isend_ops_of_logical_expert_id m a w e src = Inr (e, send_ops n src bs)" "dst_ranks m a e = Inr bs"
proof -
  obtain bs where bs: "dst_ranks m a e = Inr bs" using dst_ranks_ok [OF m a(1)] by blast
  have "length w = n" using w by (simp add: shaped_def)
  with bs get_rows_ok [OF m w a(2)] that [of bs] show thesis
    by (auto simp: dst_ranks_def create_isend_ops_of_logical_expert_id_def send_ops_def Let_def)
qed

lemma create_isend_fold:
  assumes m: "reloc_ok W m" "a < W" and w: "shaped n (num_local m) w"
    and locs: "\<forall>x \<in> set locs. x div num_local m = a"
    and st: "distinct (map fst infos)" "H = fst ` set infos" "\<forall>info \<in> set infos. send_info m a n info"
  shows "\<exists>infos'. rfold (\<lambda>src (handled, infos).
         rbind (nth_r (old_map m) src) (\<lambda>e.
         if e \<in> handled then Inr (handled, infos)
         else rbind (create_isend_ops_of_logical_expert_id m a w e src) (\<lambda>info.
              Inr (insert e handled, infos @ [info])))) locs (H, infos) = Inr (fst ` set infos', infos') \<and>
    distinct (map fst infos') \<and> (\<forall>info \<in> set infos'. send_info m a n info) \<and>
    fst ` set infos' = fst ` set infos \<union> (!) (old_map m) ` set locs"
  using locs st
proof (induction locs arbitrary: H infos)
  case (Cons x locs)
  have x: "x < length (old_map m)" "x div num_local m = a" using loc_less [OF m(1), of x] Cons.prems(1) m(2) by auto
  let ?e = "old_map m ! x"
  show ?case
  proof (cases "?e \<in> H")
    case True
    then have u: "fst ` set infos \<union> (!) (old_map m) ` set (x # locs) = fst ` set infos \<union> (!) (old_map m) ` set locs"
      using Cons.prems(3) by auto
    have "\<forall>x \<in> set locs. x div num_local m = a" using Cons.prems(1) by simp
    from Cons.IH [OF this Cons.prems(2-4)] True x(1) show ?thesis unfolding u by (simp add: nth_r_def)
  next
    case False
    have "has m a ?e" using x by (auto simp: holds_def)
    then obtain bs where bs: "create_isend_ops_of_logical_expert_id m a w ?e x = Inr (?e, send_ops n x bs)" "dst_ranks m a ?e = Inr bs"
      using isend_of_ok [OF m(1) _ x(2) w] by blast
    have "send_info m a n (?e, send_ops n x bs)" using x(2) bs(2) by (auto simp: send_info_def)
    with Cons.IH [of "infos @ [(?e, send_ops n x bs)]" "insert ?e H"] Cons.prems False bs(1) x(1) show ?thesis
      by (auto simp: nth_r_def)
  qed
qed simp

lemma create_isend_ops_ok:
  assumes m: "reloc_ok W m" "a < W" and w: "shaped n (num_local m) w"
  shows "\<exists>infos. create_isend_ops m a w = Inr infos \<and> distinct (map fst infos) \<and> (\<forall>info \<in> set infos. send_info m a n info) \<and>
    fst ` set infos = {e. has m a e}"
proof -
  have "\<forall>x \<in> set (local_range m a). x div num_local m = a" using set_local_range [OF m(1)] by blast
  from create_isend_fold [OF m w this, of "[]" "{}"] obtain infos where i: "create_isend_ops m a w = Inr infos"
    "distinct (map fst infos)" "\<forall>info \<in> set infos. send_info m a n info" "fst ` set infos = (!) (old_map m) ` set (local_range m a)"
    unfolding create_isend_ops_def by auto
  have "(!) (old_map m) ` set (local_range m a) = {e. has m a e}"
  proof -
    have "x \<in> set (local_range m a) \<longleftrightarrow> x < length (old_map m) \<and> x div num_local m = a" for x
      using set_local_range [OF m(1)] loc_less [OF m(1), of x] m(2) by auto
    then show ?thesis unfolding holds_def image_def by blast
  qed
  with i show ?thesis by auto
qed

section \<open>All operations of a rank\<close>

lemma recv_infos_map:
  "map fst (concat (map (recv_info m b n) locs)) = map ((!) (new_map m)) (filter (\<lambda>d. \<exists>a. rc m b d = FromRank a) locs)"
  by (induction locs) (auto simp: recv_info_def split: recv_case.splits)

lemma first_recv:
  assumes m: "reloc_ok W m" "b < W" and "needs m b e"
  obtains dst a where "dst div num_local m = b" "new_map m ! dst = e" "rc m b dst = FromRank a"
proof -
  let ?P = "\<lambda>x. x div num_local m = b \<and> new_map m ! x = e"
  obtain x where "?P x" using assms(3) by (auto simp: needs_def holds_def)
  then have d: "?P (LEAST x. ?P x)" by (rule LeastI)
  have least: "\<And>y. ?P y \<Longrightarrow> (LEAST x. ?P x) \<le> y" by (rule Least_le)
  define dst where "dst = (LEAST x. ?P x)"
  have no: "\<not> has m b e" using assms(3) by (simp add: needs_def)
  have "case_ok m b dst (rc m b dst)" using rc_ok(2) [OF m] d by (simp add: dst_def)
  then have "\<exists>a. rc m b dst = FromRank a"
    using d least no loc_less [OF m(1)] m(2) unfolding dst_def [symmetric]
    by (auto simp: case_ok_def holds_def Let_def not_le [symmetric] split: recv_case.splits)
  with d that show thesis unfolding dst_def [symmetric] by blast
qed

lemma recv_infos:
  fixes n :: nat
  assumes m: "reloc_ok W m" "b < W"
  defines "infos \<equiv> concat (map (recv_info m b n) (local_range m b))"
  shows "distinct (map fst infos)"
    "info \<in> set infos \<longleftrightarrow> (\<exists>dst a. dst div num_local m = b \<and> rc m b dst = FromRank a \<and> info = (new_map m ! dst, recv_ops n dst a))"
    "fst ` set infos = {e. needs m b e}"
proof -
  note lr = set_local_range [OF m(1)]
  show in_infos: "info \<in> set infos \<longleftrightarrow> (\<exists>dst a. dst div num_local m = b \<and> rc m b dst = FromRank a \<and> info = (new_map m ! dst, recv_ops n dst a))" for info
  proof
    assume "info \<in> set infos"
    then obtain dst where "dst div num_local m = b" "info \<in> set (recv_info m b n dst)" unfolding infos_def by (auto simp: lr)
    then show "\<exists>dst a. dst div num_local m = b \<and> rc m b dst = FromRank a \<and> info = (new_map m ! dst, recv_ops n dst a)"
      by (cases "rc m b dst") (auto simp: recv_info_def)
  next
    assume "\<exists>dst a. dst div num_local m = b \<and> rc m b dst = FromRank a \<and> info = (new_map m ! dst, recv_ops n dst a)"
    then obtain dst where "dst \<in> set (local_range m b)" "info \<in> set (recv_info m b n dst)" by (auto simp: recv_info_def lr)
    then show "info \<in> set infos" unfolding infos_def by auto
  qed
  have first: "new_map m ! d \<noteq> new_map m ! d'" if "d < d'" "d div num_local m = b" "d' div num_local m = b" "rc m b d' = FromRank a" for d d' a
    using rc_ok(2) [OF m that(3)] that by (auto simp: case_ok_def Let_def)
  have "inj_on ((!) (new_map m)) {d \<in> set (local_range m b). \<exists>a. rc m b d = FromRank a}"
    by (rule linorder_inj_onI) (use first lr in auto)
  then show "distinct (map fst infos)" unfolding infos_def recv_infos_map by (simp add: distinct_map local_range_def)
  show "fst ` set infos = {e. needs m b e}"
  proof (intro subset_antisym subsetI)
    fix e assume "e \<in> fst ` set infos"
    then obtain dst a where "dst div num_local m = b" "rc m b dst = FromRank a" "e = new_map m ! dst" using in_infos by auto
    with rc_ok(2) [OF m, of dst] show "e \<in> {e. needs m b e}" by (simp add: case_ok_def Let_def)
  next
    fix e assume "e \<in> {e. needs m b e}"
    then obtain dst a where d: "dst div num_local m = b" "new_map m ! dst = e" "rc m b dst = FromRank a"
      using first_recv [OF m] by blast
    then have "(e, recv_ops n dst a) \<in> set infos" using in_infos by blast
    then show "e \<in> fst ` set infos" by force
  qed
qed

text \<open>The entries of a rank, receives and sends, are about different experts.\<close>

definition rank_infos :: "relocation \<Rightarrow> nat \<Rightarrow> nat \<Rightarrow> (nat \<times> p2p_op list) list \<Rightarrow> bool" where
  "rank_infos m a n infos \<longleftrightarrow> distinct (map fst infos) \<and> fst ` set infos = {e. has m a e \<or> needs m a e} \<and>
     (\<forall>info \<in> set infos. if has m a (fst info) then send_info m a n info
        else \<exists>dst c. dst div num_local m = a \<and> rc m a dst = FromRank c \<and> info = (new_map m ! dst, recv_ops n dst c))"

lemma rank_infos_ok:
  assumes m: "reloc_ok W m" "a < W"
    and s: "distinct (map fst sends)" "\<forall>info \<in> set sends. send_info m a n info" "fst ` set sends = {e. has m a e}"
  shows "rank_infos m a n (concat (map (recv_info m a n) (local_range m a)) @ sends)"
proof -
  let ?r = "concat (map (recv_info m a n) (local_range m a))"
  note r = recv_infos [OF m, where n = n]
  have "fst ` set ?r \<inter> fst ` set sends = {}" unfolding r(3) s(3) by (auto simp: needs_def)
  then have "distinct (map fst (?r @ sends))" using r(1) s(1) by simp
  moreover have "fst ` set (?r @ sends) = {e. has m a e \<or> needs m a e}"
    unfolding set_append image_Un r(3) s(3) by auto
  moreover have each: "if has m a (fst info) then send_info m a n info
        else \<exists>dst c. dst div num_local m = a \<and> rc m a dst = FromRank c \<and> info = (new_map m ! dst, recv_ops n dst c)"
    if "info \<in> set (?r @ sends)" for info
  proof (cases "info \<in> set sends")
    case True
    then have "fst info \<in> {e. has m a e}" using s(3) by (metis image_eqI)
    with True s(2) show ?thesis by simp
  next
    case False
    with that have i: "info \<in> set ?r" by simp
    then have "fst info \<in> {e. needs m a e}" using r(3) by (metis image_eqI)
    with i r(2) show ?thesis by (simp add: needs_def)
  qed
  ultimately show ?thesis unfolding rank_infos_def by (intro conjI ballI each)
qed

end
