(* ===== verification/Update_Match.thy ===== *)
theory Update_Match
  imports Update_Exchange
begin

text \<open>
  The operations that two active ranks submit for each other are the same list of experts and tensors, in the same order,
  with failed ranks left out on both sides and with any batches.
\<close>

section \<open>Operations by expert\<close>

lemma concat_map_if: "concat (map (\<lambda>e. if P e then f e else []) xs) = concat (map f (filter P xs))"
  by (induction xs) simp_all

lemma sorted_filter_set:
  "sorted es \<Longrightarrow> distinct es \<Longrightarrow> S \<subseteq> set es \<Longrightarrow> filter (\<lambda>e. e \<in> S) es = sorted_list_of_set (S :: nat set)"
proof -
  assume a: "sorted es" "distinct es" "S \<subseteq> set es"
  then have "sorted (filter (\<lambda>e. e \<in> S) es)" "distinct (filter (\<lambda>e. e \<in> S) es)" "set (filter (\<lambda>e. e \<in> S) es) = S"
    by (auto simp: sorted_wrt_filter)
  then show ?thesis by (metis sorted_list_of_set.idem_if_sorted_distinct)
qed

definition experts_in_order :: "nat \<Rightarrow> nat set \<Rightarrow> (nat \<times> nat) list" where
  "experts_in_order n S = concat (map (\<lambda>e. map (Pair e) [0 ..< n]) (sorted_list_of_set S))"

lemma keyed_ops:
  assumes L: "sorted (map fst L)" "distinct (map fst L)" "S \<subseteq> fst ` set L"
    and each: "\<And>info. info \<in> set L \<Longrightarrow> map key (filter Q (snd info)) = (if fst info \<in> S then map (Pair (fst info)) [0 ..< n] else [])"
  shows "map key (filter Q (concat (map snd L))) = experts_in_order n S"
proof -
  have "map key (filter Q (concat (map snd L))) = concat (map (\<lambda>info. map key (filter Q (snd info))) L)"
    by (simp add: filter_concat map_concat comp_def)
  also have "\<dots> = concat (map (\<lambda>info. if fst info \<in> S then map (Pair (fst info)) [0 ..< n] else []) L)"
    using each by (simp cong: map_cong)
  also have "\<dots> = concat (map (\<lambda>e. if e \<in> S then map (Pair e) [0 ..< n] else []) (map fst L))"
    by (simp add: comp_def)
  also have "\<dots> = experts_in_order n S"
  proof -
    have "filter (\<lambda>e. e \<in> S) (map fst L) = sorted_list_of_set S" using L by (intro sorted_filter_set) simp_all
    then show ?thesis by (simp only: concat_map_if experts_in_order_def)
  qed
  finally show ?thesis .
qed

section \<open>Failed ranks\<close>

definition is_on :: "bool list option \<Rightarrow> nat \<Rightarrow> bool" where
  "is_on active r = (case active of None \<Rightarrow> True | Some l \<Rightarrow> l ! r)"

definition cut_off :: "(nat \<Rightarrow> bool) \<Rightarrow> nat \<times> p2p_op list \<Rightarrow> bool" where
  "cut_off on info \<longleftrightarrow> (\<exists>op \<in> set (snd info). \<not> is_send op \<and> \<not> on (op_peer op))"

definition prune :: "(nat \<Rightarrow> bool) \<Rightarrow> nat \<times> p2p_op list \<Rightarrow> nat \<times> p2p_op list" where
  "prune on info = (fst info, if cut_off on info then [] else filter (\<lambda>op. on (op_peer op)) (snd info))"

lemma fst_prune [simp]: "fst (prune on info) = fst info"
  by (simp add: prune_def)

lemma filter_p2p_ops_ok:
  assumes one: "\<forall>info \<in> set infos. (\<forall>op \<in> set (snd info). is_send op) \<or> (\<forall>op \<in> set (snd info). \<not> is_send op)"
    and peers: "\<forall>info \<in> set infos. \<forall>op \<in> set (snd info). op_peer op < W" and act: "\<forall>l. active = Some l \<longrightarrow> W \<le> length l"
  shows "filter_p2p_ops active infos =
    Inr (map (prune (is_on active)) infos, map fst (filter (cut_off (is_on active)) infos))"
proof (cases active)
  case None
  then have "prune (is_on active) = id" "cut_off (is_on active) = (\<lambda>_. False)"
    by (auto simp: prune_def cut_off_def is_on_def fun_eq_iff)
  then show ?thesis using None by (simp add: filter_p2p_ops_def)
next
  case (Some l)
  have one': "filter_info l info = Inr (prune (is_on active) info, if cut_off (is_on active) info then [fst info] else [])"
    if "info \<in> set infos" for info
  proof -
    obtain e ops where info: "info = (e, ops)" by (cases info)
    have "\<not> (\<exists>op \<in> set ops. length l \<le> op_peer op)" using peers act that Some info by fastforce
    moreover have "(\<forall>op \<in> set ops. is_send op) \<or> (\<forall>op \<in> set ops. \<not> is_send op)" using one that info by force
    ultimately show ?thesis using Some info
      by (auto simp: filter_info_def prune_def cut_off_def is_on_def py_assert_def filter_id_conv filter_empty_conv)
  qed
  have "rmap (filter_info l) infos = Inr (map (\<lambda>info. (prune (is_on active) info, if cut_off (is_on active) info then [fst info] else [])) infos)"
    using one' by (induction infos) simp_all
  then show ?thesis using Some by (simp add: filter_p2p_ops_def comp_def concat_map_if)
qed

section \<open>Matching\<close>

text \<open>The experts that \<open>b\<close> takes from \<open>a\<close>.\<close>

definition shipped :: "relocation \<Rightarrow> nat \<Rightarrow> nat \<Rightarrow> nat set" where
  "shipped m a b = {e. needs m b e \<and> src_rank m b e = Inr a}"

lemma needs_has:
  assumes "reloc_ok W m" "needs m b e"
  shows "\<exists>a. has m a e"
proof -
  have "e \<in> set (new_map m)" using assms(2) by (auto simp: needs_def holds_def)
  then have "e \<in> set (old_map m)" using assms(1) by (auto simp: reloc_ok_def)
  then show ?thesis by (auto simp: holds_def in_set_conv_nth)
qed

lemma has_less: "reloc_ok W m \<Longrightarrow> has m a e \<Longrightarrow> a < W"
  by (auto simp: reloc_ok_def holds_def div_less_iff_less_mult)

lemma needs_less: "reloc_ok W m \<Longrightarrow> needs m b e \<Longrightarrow> b < W"
  by (auto simp: reloc_ok_def needs_def holds_def [of "new_map m"] div_less_iff_less_mult)

lemma shipped_has: "reloc_ok W m \<Longrightarrow> e \<in> shipped m a b \<Longrightarrow> has m a e"
proof -
  assume m: "reloc_ok W m" and "e \<in> shipped m a b"
  then have n: "needs m b e" "src_rank m b e = Inr a" by (simp_all add: shipped_def)
  from needs_has [OF m n(1)] obtain a' where "src_rank m b e = Inr a'" "has m a' e" by (rule src_rank_ok [OF m n(1)])
  with n(2) show ?thesis by simp
qed

lemma dst_ranks_shipped:
  assumes m: "reloc_ok W m" and a: "has m a e" "dst_ranks m a e = Inr bs"
  shows "distinct bs" "b \<in> set bs \<longleftrightarrow> e \<in> shipped m a b" "\<forall>b \<in> set bs. b < W"
proof -
  obtain bs' where bs': "dst_ranks m a e = Inr bs'" "distinct bs'" "\<forall>b \<in> set bs'. needs m b e" using dst_ranks_ok [OF m a(1)] by blast
  then show "distinct bs" "\<forall>b \<in> set bs. b < W" using a(2) needs_less [OF m] by auto
  show "b \<in> set bs \<longleftrightarrow> e \<in> shipped m a b"
  proof (cases "needs m b e")
    case True
    obtain a' where a': "src_rank m b e = Inr a'" "\<And>a'' bs. has m a'' e \<Longrightarrow> dst_ranks m a'' e = Inr bs \<Longrightarrow> b \<in> set bs \<longleftrightarrow> a'' = a'"
      using src_rank_ok [OF m True needs_has [OF m True]] by metis
    from a'(2) [OF a] a'(1) True show ?thesis by (auto simp: shipped_def)
  next
    case False
    with bs' a(2) show ?thesis by (auto simp: shipped_def)
  qed
qed

lemma from_rank:
  assumes m: "reloc_ok W m" and d: "dst div num_local m = b" "b < W" "rc m b dst = FromRank c"
  shows "new_map m ! dst \<in> shipped m c b" "has m c (new_map m ! dst)"
proof -
  show s: "new_map m ! dst \<in> shipped m c b" using rc_ok(2) [OF m d(2,1)] d(3) by (simp add: case_ok_def shipped_def Let_def)
  show "has m c (new_map m ! dst)" by (rule shipped_has [OF m s])
qed

lemma send_ops_to:
  "distinct bs \<Longrightarrow> filter (\<lambda>op. is_send op \<and> op_peer op = b) (send_ops n src bs) =
    (if b \<in> set bs then map (\<lambda>i. \<lparr>is_send = True, op_tensor = i, op_loc = src, op_peer = b\<rparr>) [0 ..< n] else [])"
  by (induction bs) (auto simp: send_ops_def filter_empty_conv filter_id_conv)

definition sends_to :: "nat \<Rightarrow> p2p_op list \<Rightarrow> p2p_op list" where
  "sends_to b ops = filter (\<lambda>op. is_send op \<and> op_peer op = b) ops"

definition recvs_from :: "nat \<Rightarrow> p2p_op list \<Rightarrow> p2p_op list" where
  "recvs_from a ops = filter (\<lambda>op. \<not> is_send op \<and> op_peer op = a) ops"

text \<open>The operations of a rank, in the order of submission.\<close>

definition submitted :: "(nat \<Rightarrow> bool) \<Rightarrow> (nat \<times> p2p_op list) list \<Rightarrow> p2p_op list" where
  "submitted on infos = concat (map snd (sort_key fst (map (prune on) infos)))"

lemma submitted_by_expert:
  assumes "rank_infos m r n infos" "S \<subseteq> {e. has m r e \<or> needs m r e}"
    and "\<And>info. info \<in> set infos \<Longrightarrow>
      map key (filter Q (snd (prune on info))) = (if fst info \<in> S then map (Pair (fst info)) [0 ..< n] else [])"
  shows "map key (filter Q (submitted on infos)) = experts_in_order n S"
  unfolding submitted_def
proof (rule keyed_ops)
  let ?L = "map (prune on) infos"
  have fst: "map fst ?L = map fst infos" by simp
  show "sorted (map fst (sort_key fst ?L))" by simp
  have "distinct (map fst ?L)" using assms(1) unfolding fst by (simp add: rank_infos_def)
  then show "distinct (map fst (sort_key fst ?L))" by (metis distinct_map distinct_sort set_sort)
  have "fst ` set (sort_key fst ?L) = fst ` set infos" by (simp add: image_image)
  then show "S \<subseteq> fst ` set (sort_key fst ?L)" using assms(1,2) by (simp add: rank_infos_def)
  fix info assume "info \<in> set (sort_key fst ?L)"
  then obtain x where x: "x \<in> set infos" "info = prune on x" by auto
  from assms(3) [OF x(1)] x(2) show "map key (filter Q (snd info)) = (if fst info \<in> S then map (Pair (fst info)) [0 ..< n] else [])"
    by simp
qed

lemma sends_in_order:
  assumes m: "reloc_ok W m" and i: "rank_infos m a n infos" and on: "on b"
  shows "map (\<lambda>op. (old_map m ! op_loc op, op_tensor op)) (sends_to b (submitted on infos)) = experts_in_order n (shipped m a b)"
  unfolding sends_to_def
proof (rule submitted_by_expert [OF i])
  show "shipped m a b \<subseteq> {e. has m a e \<or> needs m a e}" using shipped_has [OF m] by blast
  fix info assume info: "info \<in> set infos"
  show "map (\<lambda>op. (old_map m ! op_loc op, op_tensor op)) (filter (\<lambda>op. is_send op \<and> op_peer op = b) (snd (prune on info))) =
    (if fst info \<in> shipped m a b then map (Pair (fst info)) [0 ..< n] else [])"
  proof (cases "has m a (fst info)")
    case True
    with i info obtain src bs where s: "old_map m ! src = fst info" "dst_ranks m a (fst info) = Inr bs" "snd info = send_ops n src bs"
      by (fastforce simp: rank_infos_def send_info_def)
    have "\<not> cut_off on info" by (auto simp: cut_off_def s(3) send_ops_def)
    then have "filter (\<lambda>op. is_send op \<and> op_peer op = b) (snd (prune on info)) = filter (\<lambda>op. is_send op \<and> op_peer op = b) (send_ops n src bs)"
      using on s(3) by (auto simp: prune_def intro: filter_cong)
    then show ?thesis using dst_ranks_shipped [OF m True s(2)] s(1) by (simp add: send_ops_to)
  next
    case False
    with i info have "\<forall>op \<in> set (snd info). \<not> is_send op" by (fastforce simp: rank_infos_def recv_ops_def)
    then have "filter (\<lambda>op. is_send op \<and> op_peer op = b) (snd (prune on info)) = []" by (auto simp: prune_def filter_empty_conv)
    moreover have "fst info \<notin> shipped m a b" using shipped_has [OF m] False by blast
    ultimately show ?thesis by simp
  qed
qed

lemma recvs_in_order:
  assumes m: "reloc_ok W m" "b < W" and i: "rank_infos m b n infos" and on: "on a"
  shows "map (\<lambda>op. (new_map m ! op_loc op, op_tensor op)) (recvs_from a (submitted on infos)) = experts_in_order n (shipped m a b)"
  unfolding recvs_from_def
proof (rule submitted_by_expert [OF i])
  show "shipped m a b \<subseteq> {e. has m b e \<or> needs m b e}" by (auto simp: shipped_def)
  fix info assume info: "info \<in> set infos"
  show "map (\<lambda>op. (new_map m ! op_loc op, op_tensor op)) (filter (\<lambda>op. \<not> is_send op \<and> op_peer op = a) (snd (prune on info))) =
    (if fst info \<in> shipped m a b then map (Pair (fst info)) [0 ..< n] else [])"
  proof (cases "has m b (fst info)")
    case True
    with i info have "\<forall>op \<in> set (snd info). is_send op" by (fastforce simp: rank_infos_def send_info_def send_ops_def)
    then have "filter (\<lambda>op. \<not> is_send op \<and> op_peer op = a) (snd (prune on info)) = []" by (auto simp: prune_def filter_empty_conv)
    moreover have "fst info \<notin> shipped m a b" using True by (auto simp: shipped_def needs_def)
    ultimately show ?thesis by simp
  next
    case False
    with i info obtain dst c where d: "dst div num_local m = b" "rc m b dst = FromRank c" "info = (new_map m ! dst, recv_ops n dst c)"
      by (fastforce simp: rank_infos_def)
    have "fst info \<in> shipped m c b" using from_rank(1) [OF m(1) d(1) m(2) d(2)] d(3) by simp
    then have "fst info \<in> shipped m a b \<longleftrightarrow> c = a" by (auto simp: shipped_def)
    moreover have "filter (\<lambda>op. \<not> is_send op \<and> op_peer op = a) (snd (prune on info)) = (if c = a then recv_ops n dst c else [])"
      using on d(3) by (auto simp: prune_def cut_off_def recv_ops_def filter_id_conv filter_empty_conv)
    ultimately show ?thesis using d(3) by (auto simp: recv_ops_def)
  qed
qed

section \<open>Batches\<close>

lemma ranges_concat:
  "0 < c \<Longrightarrow> concat (map (\<lambda>k. [k * c ..< min (k * c + c) N]) [0 ..< j]) = [0 ..< min (j * c) (N :: nat)]"
proof (induction j)
  case (Suc j)
  have "[0 ..< min (j * c) N] @ [j * c ..< min (j * c + c) N] = [0 ..< min (Suc j * c) N]"
  proof (cases "j * c \<le> N")
    case True
    then have "j * c \<le> min (j * c + c) N" by simp
    then have "[0 ..< min (j * c + c) N] = [0 ..< j * c] @ [j * c ..< min (j * c + c) N]"
      using upt_add_eq_append [of 0 "j * c" "min (j * c + c) N - j * c"] by simp
    with True show ?thesis by (simp add: add.commute)
  qed simp
  with Suc show ?case by simp
qed simp

lemma by_expert_concat:
  assumes "sorted (map fst L)" "distinct (map fst L)" "\<forall>info \<in> set L. fst info < N"
  shows "concat (map (\<lambda>e. case map_of (rev L) e of Some ops \<Rightarrow> ops | None \<Rightarrow> []) [0 ..< N]) = concat (map snd L)"
proof -
  let ?get = "\<lambda>e. case map_of (rev L) e of Some ops \<Rightarrow> ops | None \<Rightarrow> []"
  have d: "distinct (map fst (rev L))" using assms(2) by (simp add: rev_map [symmetric])
  have get: "?get (fst info) = snd info" if "info \<in> set L" for info
    using map_of_is_SomeI [OF d, of "fst info" "snd info"] that by simp
  have none: "?get e = []" if "e \<notin> fst ` set L" for e
  proof -
    have "map_of (rev L) e = None" using that by (simp add: map_of_eq_None_iff)
    then show ?thesis by simp
  qed
  have "concat (map ?get [0 ..< N]) = concat (map (\<lambda>e. if e \<in> fst ` set L then ?get e else []) [0 ..< N])"
    using none by (intro arg_cong [of _ _ concat] map_cong) auto
  also have "\<dots> = concat (map ?get (filter (\<lambda>e. e \<in> fst ` set L) [0 ..< N]))" by (rule concat_map_if)
  also have "filter (\<lambda>e. e \<in> fst ` set L) [0 ..< N] = sorted_list_of_set (fst ` set L)"
    using assms(3) by (intro sorted_filter_set) auto
  also have "\<dots> = map fst L"
    using assms(1,2) sorted_list_of_set.idem_if_sorted_distinct [of "map fst L"] by simp
  also have "concat (map ?get (map fst L)) = concat (map snd L)" using get by (auto intro!: arg_cong [of _ _ concat])
  finally show ?thesis .
qed

lemma concat_nonempty: "concat (filter (\<lambda>xs. xs \<noteq> []) xss) = concat xss"
  by (induction xss) auto

lemma concat_map_concat: "concat (map f (concat (map r ks))) = concat (map (\<lambda>k. concat (map f (r k))) ks)"
  by (induction ks) simp_all

lemma p2p_batches_ok:
  assumes "distinct (map fst infos)" "is_hip \<Longrightarrow> \<forall>info \<in> set infos. fst info < N" "is_hip \<Longrightarrow> 0 < c"
  shows "\<exists>bs. p2p_batches is_hip c N infos = Inr bs \<and> concat bs = concat (map snd (sort_key fst infos))"
proof (cases "is_hip \<and> concat (map snd (sort_key fst infos)) \<noteq> []")
  case True
  let ?L = "sort_key fst infos" let ?j = "(N + c - 1) div c"
  let ?get = "\<lambda>e. case map_of (rev ?L) e of Some ops \<Rightarrow> ops | None \<Rightarrow> []"
  let ?bs = "filter (\<lambda>ops. ops \<noteq> []) (map (\<lambda>start. concat (map ?get [start ..< min (start + c) N])) (map (\<lambda>k. k * c) [0 ..< ?j]))"
  have c: "0 < c" using True assms(3) by blast
  have N: "min (?j * c) N = N"
  proof -
    have "N + c - 1 < (?j + 1) * c" using c div_eq_range [OF c, of "N + c - 1" ?j] by simp
    then show ?thesis using c by simp
  qed
  have "concat ?bs = concat (map ?get (concat (map (\<lambda>k. [k * c ..< min (k * c + c) N]) [0 ..< ?j])))"
    by (simp add: concat_nonempty concat_map_concat comp_def)
  also have "\<dots> = concat (map ?get [0 ..< N])" by (simp only: ranges_concat [OF c] N)
  also have "\<dots> = concat (map snd ?L)"
    using assms(1,2) True by (intro by_expert_concat) (simp_all, metis distinct_map distinct_sort set_sort)
  finally have "concat ?bs = concat (map snd ?L)" .
  moreover have "p2p_batches is_hip c N infos = Inr ?bs" using True c by (auto simp: p2p_batches_def Let_def)
  ultimately show ?thesis by blast
next
  case False
  then show ?thesis by (auto simp: p2p_batches_def Let_def)
qed

end
