(* ===== verification/Update_Weights.thy ===== *)
theory Update_Weights
  imports Update_Match
begin

text \<open>
  When messages between two ranks arrive in the order they were sent, every location holds the weights of its new expert
  after the update, except the experts a rank reports as missing because their sender has failed.
\<close>

section \<open>Receiving\<close>

text \<open>The slot a receive fills, and the number of receives from the same rank before it.\<close>

definition target :: "nat \<Rightarrow> p2p_op \<Rightarrow> nat \<times> nat" where
  "target k op = (op_tensor op, op_loc op mod k)"

definition recvs :: "p2p_op list \<Rightarrow> p2p_op list" where
  "recvs ops = filter (\<lambda>op. \<not> is_send op) ops"

lemma receive_shaped:
  assumes "shaped n k bufs" "\<forall>op \<in> set (recvs ops). op_tensor op < n"
  shows "shaped n k (snd (fold (receive m deliver) ops (taken, bufs)))"
  using assms
proof (induction ops arbitrary: taken bufs)
  case (Cons op ops)
  show ?case
  proof (cases "is_send op")
    case True
    with Cons show ?thesis by (simp add: receive_def recvs_def)
  next
    case False
    with Cons.prems have "shaped n k (bufs[op_tensor op := (bufs ! op_tensor op)[op_loc op mod num_local m := deliver (op_peer op) (taken (op_peer op))]])"
      by (auto simp: shaped_def recvs_def dest!: set_update_subset_insert [THEN subsetD])
    with Cons False show ?thesis by (simp add: receive_def recvs_def)
  qed
qed simp

lemma receive_other:
  assumes "(i, l) \<notin> target (num_local m) ` set (recvs ops)"
  shows "snd (fold (receive m deliver) ops (taken, bufs)) ! i ! l = bufs ! i ! l"
  using assms
proof (induction ops arbitrary: taken bufs)
  case (Cons op ops)
  show ?case
  proof (cases "is_send op")
    case True
    with Cons show ?thesis by (simp add: receive_def recvs_def)
  next
    case False
    with Cons.prems have ne: "(op_tensor op, op_loc op mod num_local m) \<noteq> (i, l)" "(i, l) \<notin> target (num_local m) ` set (recvs ops)"
      by (auto simp: recvs_def target_def)
    have "bufs[op_tensor op := (bufs ! op_tensor op)[op_loc op mod num_local m := v]] ! i ! l = bufs ! i ! l" for v
      using ne(1) by (cases "op_tensor op = i"; cases "i < length bufs") (auto simp: list_update_beyond not_less)
    with False Cons.IH [OF ne(2)] show ?thesis by (simp add: receive_def)
  qed
qed simp

lemma receive_at:
  assumes "shaped n (num_local m) bufs" "0 < num_local m" "\<forall>op \<in> set (recvs ops). op_tensor op < n"
    and "distinct (map (target (num_local m)) (recvs ops))" "j < length (recvs_from a ops)" "recvs_from a ops ! j = op"
  shows "snd (fold (receive m deliver) ops (taken, bufs)) ! op_tensor op ! (op_loc op mod num_local m) = deliver a (taken a + j)"
  using assms
proof (induction ops arbitrary: taken bufs j)
  case (Cons x ops)
  show ?case
  proof (cases "is_send x")
    case True
    with Cons show ?thesis by (simp add: receive_def recvs_def recvs_from_def)
  next
    case False
    let ?k = "num_local m"
    let ?b = "bufs[op_tensor x := (bufs ! op_tensor x)[op_loc x mod ?k := deliver (op_peer x) (taken (op_peer x))]]"
    have step: "receive m deliver x (taken, bufs) = (taken(op_peer x := taken (op_peer x) + 1), ?b)" using False by (simp add: receive_def)
    have rest: "\<forall>op \<in> set (recvs ops). op_tensor op < n" "distinct (map (target ?k) (recvs ops))"
      "target ?k x \<notin> target ?k ` set (recvs ops)" "op_tensor x < n" using Cons.prems False by (auto simp: recvs_def)
    have sh: "shaped n ?k ?b" using Cons.prems(1) rest(4) by (auto simp: shaped_def dest!: set_update_subset_insert [THEN subsetD])
    show ?thesis
    proof (cases "op_peer x = a")
      case same: True
      show ?thesis
      proof (cases j)
        case 0
        with same False Cons.prems(6) have "op = x" by (simp add: recvs_from_def)
        moreover have "?b ! op_tensor x ! (op_loc x mod ?k) = deliver a (taken a)"
          using Cons.prems(1,2) rest(4) same by (simp add: shaped_def)
        moreover have "snd (fold (receive m deliver) ops (t, ?b)) ! op_tensor x ! (op_loc x mod ?k) = ?b ! op_tensor x ! (op_loc x mod ?k)" for t
          by (rule receive_other) (use rest(3) in \<open>simp add: target_def\<close>)
        ultimately show ?thesis using 0 step by simp
      next
        case (Suc j')
        with same False Cons.prems have "j' < length (recvs_from a ops)" "recvs_from a ops ! j' = op" by (auto simp: recvs_from_def)
        from Cons.IH [OF sh Cons.prems(2) rest(1,2) this] Suc same step show ?thesis by simp
      qed
    next
      case diff: False
      then have "j < length (recvs_from a ops)" "recvs_from a ops ! j = op" using Cons.prems by (auto simp: recvs_from_def)
      from Cons.IH [OF sh Cons.prems(2) rest(1,2) this] diff step show ?thesis by simp
    qed
  qed
qed (simp add: recvs_from_def)

section \<open>Copying\<close>

lemma copies_ok:
  assumes m: "reloc_ok W m" and bufs: "shaped n (num_local m) bufs" and w: "shaped n (num_local m) w"
    and c: "\<forall>(s, d) \<in> set cs. s div num_local m = r \<and> d div num_local m = r" "distinct (map snd cs)"
  shows "\<exists>w'. rfold (\<lambda>(src, dst) w. copy_rows m r n bufs src dst w) cs w = Inr w' \<and> shaped n (num_local m) w' \<and>
    (\<forall>i < n. \<forall>d. d div num_local m = r \<longrightarrow> (\<forall>s. (s, d) \<in> set cs \<longrightarrow> w' ! i ! (d mod num_local m) = bufs ! i ! (s mod num_local m)) \<and>
      (d \<notin> snd ` set cs \<longrightarrow> w' ! i ! (d mod num_local m) = w ! i ! (d mod num_local m)))"
  using w c
proof (induction cs arbitrary: w)
  case (Cons x cs)
  obtain s d where x: "x = (s, d)" by (cases x)
  let ?k = "num_local m"
  have sd: "s div ?k = r" "d div ?k = r" using Cons.prems x by auto
  let ?w = "set_rows n (d mod ?k) (\<lambda>i. bufs ! i ! (s mod ?k)) w"
  have run: "copy_rows m r n bufs s d w = Inr ?w" by (rule copy_rows_ok [OF m bufs Cons.prems(1) sd])
  have rest: "\<forall>(s, d) \<in> set cs. s div ?k = r \<and> d div ?k = r" "distinct (map snd cs)" "d \<notin> snd ` set cs" using Cons.prems x by auto
  obtain w' where w': "rfold (\<lambda>(src, dst) w. copy_rows m r n bufs src dst w) cs ?w = Inr w'" "shaped n ?k w'"
    "\<forall>i < n. \<forall>d. d div ?k = r \<longrightarrow> (\<forall>s. (s, d) \<in> set cs \<longrightarrow> w' ! i ! (d mod ?k) = bufs ! i ! (s mod ?k)) \<and>
      (d \<notin> snd ` set cs \<longrightarrow> w' ! i ! (d mod ?k) = ?w ! i ! (d mod ?k))"
    using Cons.IH [OF set_rows_shaped [OF Cons.prems(1)] rest(1,2)] by blast
  have k: "d mod ?k < ?k" using m by (simp add: reloc_ok_def)
  have row: "?w ! i ! (d' mod ?k) = (if d' = d then bufs ! i ! (s mod ?k) else w ! i ! (d' mod ?k))" if "i < n" "d' div ?k = r" for i d'
  proof -
    have "d' mod ?k = d mod ?k \<longleftrightarrow> d' = d" using that(2) sd(2) by (metis div_mult_mod_eq)
    then show ?thesis using set_rows_nth [OF Cons.prems(1) that(1) k] by simp
  qed
  have "(\<forall>s'. (s', d') \<in> set (x # cs) \<longrightarrow> w' ! i ! (d' mod ?k) = bufs ! i ! (s' mod ?k)) \<and>
      (d' \<notin> snd ` set (x # cs) \<longrightarrow> w' ! i ! (d' mod ?k) = w ! i ! (d' mod ?k))" if "i < n" "d' div ?k = r" for i d'
    using w'(3) row [OF that] that rest(3) x by force
  then show ?case using run w'(1,2) x by auto
qed simp

section \<open>The plan of a rank\<close>

definition elastic_ok :: "nat \<Rightarrow> bool \<Rightarrow> nat \<Rightarrow> bool list option \<Rightarrow> relocation \<Rightarrow> bool" where
  "elastic_ok W is_hip c active m \<longleftrightarrow> (\<forall>l. active = Some l \<longrightarrow> W \<le> length l) \<and>
     (is_hip \<longrightarrow> 0 < c \<and> (\<forall>e \<in> set (old_map m). e < length (old_map m)))"

lemma has_mem: "has m a e \<Longrightarrow> e \<in> set (old_map m)"
  by (auto simp: holds_def)

lemma rank_infos_ops:
  assumes m: "reloc_ok W m" "r < W" and i: "rank_infos m r n infos" and info: "info \<in> set infos"
  shows "(\<forall>op \<in> set (snd info). is_send op) \<or> (\<forall>op \<in> set (snd info). \<not> is_send op)"
    "\<forall>op \<in> set (snd info). op_peer op < W \<and> op_loc op div num_local m = r \<and> op_tensor op < n"
    "fst info \<in> set (old_map m)"
proof -
  have "((\<forall>op \<in> set (snd info). is_send op) \<or> (\<forall>op \<in> set (snd info). \<not> is_send op)) \<and>
    (\<forall>op \<in> set (snd info). op_peer op < W \<and> op_loc op div num_local m = r \<and> op_tensor op < n) \<and> fst info \<in> set (old_map m)"
  proof (cases "has m r (fst info)")
    case True
    with i info obtain src bs where s: "src div num_local m = r" "dst_ranks m r (fst info) = Inr bs" "snd info = send_ops n src bs"
      by (fastforce simp: rank_infos_def send_info_def)
    with dst_ranks_shipped(3) [OF m(1) True s(2)] has_mem [OF True] show ?thesis by (auto simp: send_ops_def)
  next
    case False
    with i info obtain dst c where d: "dst div num_local m = r" "rc m r dst = FromRank c" "info = (new_map m ! dst, recv_ops n dst c)"
      by (fastforce simp: rank_infos_def)
    have h: "has m c (fst info)" using from_rank(2) [OF m(1) d(1) m(2) d(2)] d(3) by simp
    then show ?thesis using has_less [OF m(1) h] has_mem [OF h] d by (auto simp: recv_ops_def)
  qed
  then show "(\<forall>op \<in> set (snd info). is_send op) \<or> (\<forall>op \<in> set (snd info). \<not> is_send op)"
    "\<forall>op \<in> set (snd info). op_peer op < W \<and> op_loc op div num_local m = r \<and> op_tensor op < n"
    "fst info \<in> set (old_map m)" by blast+
qed

lemma plan_ok:
  assumes m: "reloc_ok W m" "r < W" and w: "shaped n (num_local m) w" and bufs: "shaped n (num_local m) bufs"
    and el: "elastic_ok W is_hip c active m"
  obtains bufs1 batches infos where
    "plan_single_layer is_hip c active m r w bufs = Inr (bufs1, concat (map (copy_info m r) (local_range m r)), batches,
       map fst (filter (cut_off (is_on active)) infos))"
    "shaped n (num_local m) bufs1" "concat batches = submitted (is_on active) infos" "rank_infos m r n infos"
    "\<forall>dst a. dst div num_local m = r \<longrightarrow> rc m r dst = FromRank a \<longrightarrow> (new_map m ! dst, recv_ops n dst a) \<in> set infos"
    "\<forall>i < n. \<forall>dst src. dst div num_local m = r \<longrightarrow> rc m r dst = SameGpu src \<longrightarrow> bufs1 ! i ! (dst mod num_local m) = w ! i ! (src mod num_local m)"
proof -
  obtain st where st: "handle_recv m r w bufs = Inr st" "shaped n (num_local m) (temp_buffers st)"
    "copy_infos st = concat (map (copy_info m r) (local_range m r))" "op_infos st = concat (map (recv_info m r n) (local_range m r))"
    "\<forall>i < n. \<forall>dst src. dst div num_local m = r \<longrightarrow> rc m r dst = SameGpu src \<longrightarrow> temp_buffers st ! i ! (dst mod num_local m) = w ! i ! (src mod num_local m)"
    using handle_recv_ok [OF m w bufs] by blast
  obtain sends where sends: "create_isend_ops m r w = Inr sends" "distinct (map fst sends)" "\<forall>info \<in> set sends. send_info m r n info"
    "fst ` set sends = {e. has m r e}" using create_isend_ops_ok [OF m w] by blast
  define infos where "infos = op_infos st @ sends"
  have ri: "rank_infos m r n infos" using rank_infos_ok [OF m sends(2-4)] st(4) by (simp add: infos_def)
  have fil: "filter_p2p_ops active infos = Inr (map (prune (is_on active)) infos, map fst (filter (cut_off (is_on active)) infos))"
    using rank_infos_ops [OF m ri] el by (intro filter_p2p_ops_ok [where W = W]) (auto simp: elastic_ok_def)
  have "distinct (map fst (map (prune (is_on active)) infos))" using ri by (simp add: rank_infos_def comp_def)
  moreover have "is_hip \<Longrightarrow> \<forall>info \<in> set (map (prune (is_on active)) infos). fst info < length (old_map m)"
    using rank_infos_ops(3) [OF m ri] el by (auto simp: elastic_ok_def)
  ultimately obtain bs where bs: "p2p_batches is_hip c (length (old_map m)) (map (prune (is_on active)) infos) = Inr bs"
    "concat bs = submitted (is_on active) infos"
    using p2p_batches_ok [of "map (prune (is_on active)) infos" is_hip "length (old_map m)" c] el by (auto simp: elastic_ok_def submitted_def)
  have run: "plan_single_layer is_hip c active m r w bufs =
    Inr (temp_buffers st, concat (map (copy_info m r) (local_range m r)), bs, map fst (filter (cut_off (is_on active)) infos))"
    using w m(1) st(1,3) sends(1) fil bs(1) by (simp add: plan_single_layer_def shaped_def reloc_ok_def py_assert_def infos_def)
  have recv: "\<forall>dst a. dst div num_local m = r \<longrightarrow> rc m r dst = FromRank a \<longrightarrow> (new_map m ! dst, recv_ops n dst a) \<in> set infos"
    using recv_infos(2) [OF m, where n = n] st(4) by (simp add: infos_def del: set_concat) blast
  from that [OF run st(2) bs(2) ri recv st(5)] show thesis .
qed

section \<open>What arrives\<close>

lemma submitted_ops:
  assumes "op \<in> set (submitted on infos)"
  obtains info where "info \<in> set infos" "op \<in> set (snd info)" "\<not> cut_off on info" "on (op_peer op)"
  using assms by (auto simp: submitted_def prune_def split: if_splits)

lemma recv_submitted:
  assumes m: "reloc_ok W m" "b < W" and i: "rank_infos m b n infos" and op: "op \<in> set (recvs (submitted on infos))"
  shows "\<exists>dst c j. j < n \<and> dst div num_local m = b \<and> rc m b dst = FromRank c \<and>
    op = \<lparr>is_send = False, op_tensor = j, op_loc = dst, op_peer = c\<rparr>"
proof -
  from op have op: "op \<in> set (submitted on infos)" "\<not> is_send op" by (simp_all add: recvs_def)
  from op(1) obtain info where info: "info \<in> set infos" "op \<in> set (snd info)" by (rule submitted_ops)
  have "\<not> has m b (fst info)" using i info op(2) by (fastforce simp: rank_infos_def send_info_def send_ops_def)
  with i info(1) obtain dst c where "dst div num_local m = b" "rc m b dst = FromRank c" "info = (new_map m ! dst, recv_ops n dst c)"
    by (fastforce simp: rank_infos_def)
  with info(2) show ?thesis by (auto simp: recv_ops_def)
qed

lemma recv_targets_distinct:
  assumes m: "reloc_ok W m" "b < W" and i: "rank_infos m b n infos"
  shows "distinct (map (target (num_local m)) (recvs (submitted on infos)))"
proof -
  let ?xs = "recvs (submitted on infos)"
  let ?S = "{e. \<exists>ops. (e, ops) \<in> set infos \<and> \<not> has m b e \<and> \<not> cut_off on (e, ops)}"
  have keys: "map (\<lambda>op. (new_map m ! op_loc op, op_tensor op)) ?xs = experts_in_order n ?S"
    unfolding recvs_def
  proof (rule submitted_by_expert [OF i])
    show "?S \<subseteq> {e. has m b e \<or> needs m b e}" using i by (force simp: rank_infos_def)
    fix info assume info: "info \<in> set infos"
    have d: "distinct (map fst infos)" using i by (simp add: rank_infos_def)
    obtain e ops where eo: "info = (e, ops)" by fastforce
    have S: "fst info \<in> ?S \<longleftrightarrow> \<not> has m b (fst info) \<and> \<not> cut_off on info"
    proof -
      have "(e, ops') \<in> set infos \<longleftrightarrow> ops' = ops" for ops'
        using eq_key_imp_eq_value [OF d, of e ops' ops] info eo by blast
      then show ?thesis unfolding eo by simp
    qed
    show "map (\<lambda>op. (new_map m ! op_loc op, op_tensor op)) (filter (\<lambda>op. \<not> is_send op) (snd (prune on info))) =
      (if fst info \<in> ?S then map (Pair (fst info)) [0 ..< n] else [])"
    proof (cases "has m b (fst info)")
      case True
      then have "\<forall>op \<in> set (snd info). is_send op" using i info by (fastforce simp: rank_infos_def send_info_def send_ops_def)
      with True S show ?thesis by (auto simp: prune_def filter_empty_conv)
    next
      case False
      with i info obtain dst c where d: "info = (new_map m ! dst, recv_ops n dst c)" by (fastforce simp: rank_infos_def)
      have "filter (\<lambda>op. \<not> is_send op) (snd (prune on info)) = (if cut_off on info then [] else recv_ops n dst c)"
        using d by (auto simp: prune_def cut_off_def recv_ops_def filter_id_conv)
      with S False d show ?thesis by (auto simp: recv_ops_def)
    qed
  qed
  have img: "map (\<lambda>op. (new_map m ! op_loc op, op_tensor op)) ?xs = map (\<lambda>(i, l). (new_map m ! (b * num_local m + l), i)) (map (target (num_local m)) ?xs)"
  proof -
    have "new_map m ! op_loc op = new_map m ! (b * num_local m + op_loc op mod num_local m)" if "op \<in> set ?xs" for op
    proof -
      have "op_loc op div num_local m = b" using recv_submitted [OF m i that] by auto
      then show ?thesis by (metis div_mult_mod_eq)
    qed
    then show ?thesis by (simp add: target_def)
  qed
  have "distinct (experts_in_order n ?S)"
    using distinct_product [of "sorted_list_of_set ?S" "[0 ..< n]"] by (simp add: experts_in_order_def product_concat_map)
  then show ?thesis unfolding keys [symmetric] img by (rule distinct_map [THEN iffD1, THEN conjunct1])
qed

text \<open>
  \<open>deliver b a k\<close> is the \<open>k\<close>-th message from \<open>a\<close> that \<open>b\<close> takes: the \<open>k\<close>-th row that \<open>a\<close> sends to \<open>b\<close>.
\<close>

definition fifo :: "nat \<Rightarrow> (nat \<Rightarrow> bool) \<Rightarrow> relocation \<Rightarrow> (nat \<Rightarrow> p2p_op list) \<Rightarrow> (nat \<Rightarrow> 'v tensors) \<Rightarrow> (nat \<Rightarrow> nat \<Rightarrow> nat \<Rightarrow> 'v) \<Rightarrow> bool" where
  "fifo W on m ops ws deliver \<longleftrightarrow> (\<forall>a < W. \<forall>b < W. on a \<longrightarrow> on b \<longrightarrow> (\<forall>k < length (sends_to b (ops a)).
     deliver b a k = ws a ! op_tensor (sends_to b (ops a) ! k) ! (op_loc (sends_to b (ops a) ! k) mod num_local m)))"

text \<open>Each location of a map holds the rows of its expert.\<close>

definition placed :: "nat \<Rightarrow> nat \<Rightarrow> nat \<Rightarrow> nat list \<Rightarrow> (nat \<Rightarrow> 'v tensors) \<Rightarrow> (nat \<Rightarrow> nat \<Rightarrow> 'v) \<Rightarrow> bool" where
  "placed W n k p2l ws V \<longleftrightarrow> (\<forall>a < W. shaped n k (ws a) \<and>
     (\<forall>i < n. \<forall>x. x div k = a \<longrightarrow> ws a ! i ! (x mod k) = V i (p2l ! x)))"

lemma arrival:
  assumes m: "reloc_ok W m" "a < W" "b < W" and on: "on a" "on b"
    and ia: "rank_infos m a n infos_a" "ops a = submitted on infos_a" and ib: "rank_infos m b n infos_b" "ops b = submitted on infos_b"
    and f: "fifo W on m ops ws deliver" and p: "placed W n (num_local m) (old_map m) ws V"
    and j: "j < length (recvs_from a (ops b))"
  shows "deliver b a j = V (op_tensor (recvs_from a (ops b) ! j)) (new_map m ! op_loc (recvs_from a (ops b) ! j))"
proof -
  have eq: "map (\<lambda>op. (old_map m ! op_loc op, op_tensor op)) (sends_to b (ops a)) =
      map (\<lambda>op. (new_map m ! op_loc op, op_tensor op)) (recvs_from a (ops b))"
    using sends_in_order [of W m a n infos_a on b] recvs_in_order [of W m b n infos_b on a] m on ia ib by simp
  then have j': "j < length (sends_to b (ops a))" using j by (metis length_map)
  let ?s = "sends_to b (ops a) ! j" let ?r = "recvs_from a (ops b) ! j"
  have keys: "old_map m ! op_loc ?s = new_map m ! op_loc ?r" "op_tensor ?s = op_tensor ?r"
    using arg_cong [OF eq, of "\<lambda>xs. xs ! j"] j j' by simp_all
  have "?s \<in> set (ops a)" using nth_mem [OF j'] by (simp add: sends_to_def)
  then obtain info where "info \<in> set infos_a" "?s \<in> set (snd info)" using submitted_ops [of ?s on infos_a] ia(2) by metis
  with rank_infos_ops(2) [OF m(1,2) ia(1)] have s: "op_loc ?s div num_local m = a" "op_tensor ?s < n" by blast+
  have "deliver b a j = ws a ! op_tensor ?s ! (op_loc ?s mod num_local m)" using f m on j' by (simp add: fifo_def)
  also have "\<dots> = V (op_tensor ?s) (old_map m ! op_loc ?s)" using p m(2) s by (simp add: placed_def)
  finally show ?thesis using keys by simp
qed

section \<open>The update\<close>

definition rank_ops :: "bool \<Rightarrow> nat \<Rightarrow> bool list option \<Rightarrow> relocation \<Rightarrow> (nat \<Rightarrow> 'v tensors) \<Rightarrow> (nat \<Rightarrow> 'v tensors) \<Rightarrow> nat \<Rightarrow> p2p_op list" where
  "rank_ops is_hip c active m ws bs r =
     (case plan_single_layer is_hip c active m r (ws r) (bs r) of Inr (_, _, batches, _) \<Rightarrow> concat batches | Inl _ \<Rightarrow> [])"

text \<open>The operations do not depend on the contents of the buffers.\<close>

lemma rank_ops_bufs:
  assumes m: "reloc_ok W m" "r < W" and w: "shaped n (num_local m) (ws r)"
    and b: "shaped n (num_local m) (bs r)" "shaped n (num_local m) (bs' r)"
  shows "rank_ops is_hip c active m ws bs r = rank_ops is_hip c active m ws bs' r"
proof -
  obtain st st' where "handle_recv m r (ws r) (bs r) = Inr st" "handle_recv m r (ws r) (bs' r) = Inr st'"
    "op_infos st = op_infos st'" using handle_recv_ok [OF m w b(1)] handle_recv_ok [OF m w b(2)] by auto
  then show ?thesis by (auto simp: rank_ops_def plan_single_layer_def rbind_def split: sum.splits prod.splits)
qed

lemma set_copies:
  assumes "reloc_ok W m"
  shows "(s, d) \<in> set (concat (map (copy_info m b) (local_range m b))) \<longleftrightarrow> d div num_local m = b \<and>
      (case rc m b d of Unchanged \<Rightarrow> False | FreeRider src \<Rightarrow> s = src | _ \<Rightarrow> s = d)"
    "distinct (map snd (concat (map (copy_info m b) (local_range m b))))"
proof -
  show "(s, d) \<in> set (concat (map (copy_info m b) (local_range m b))) \<longleftrightarrow> d div num_local m = b \<and>
      (case rc m b d of Unchanged \<Rightarrow> False | FreeRider src \<Rightarrow> s = src | _ \<Rightarrow> s = d)"
  proof -
    have "(s, d) \<in> set (copy_info m b x) \<longleftrightarrow> x = d \<and> (case rc m b d of Unchanged \<Rightarrow> False | FreeRider src \<Rightarrow> s = src | _ \<Rightarrow> s = d)" for x
      by (cases "rc m b x") (auto simp: copy_info_def split: recv_case.splits)
    then show ?thesis by (simp add: set_local_range [OF assms])
  qed
  have "map snd (concat (map (copy_info m b) ds)) = filter (\<lambda>d. rc m b d \<noteq> Unchanged) ds" for ds
    by (induction ds) (auto simp: copy_info_def split: recv_case.splits)
  then show "distinct (map snd (concat (map (copy_info m b) (local_range m b))))" by (simp add: local_range_def)
qed

lemma recv_index:
  assumes "(e, recv_ops n dst a) \<in> set infos" "on a" "i < n"
  shows "\<exists>j < length (recvs_from a (submitted on infos)).
    recvs_from a (submitted on infos) ! j = \<lparr>is_send = False, op_tensor = i, op_loc = dst, op_peer = a\<rparr>"
proof -
  let ?op = "\<lparr>is_send = False, op_tensor = i, op_loc = dst, op_peer = a\<rparr>"
  have "?op \<in> set (snd (prune on (e, recv_ops n dst a)))" using assms(2,3) by (auto simp: prune_def cut_off_def recv_ops_def)
  then have "?op \<in> set (recvs_from a (submitted on infos))" using assms(1) by (force simp: submitted_def recvs_from_def)
  then show ?thesis by (auto simp: in_set_conv_nth)
qed

lemma rank_ops_ok:
  assumes m: "reloc_ok W m" "a < W" and sh: "shaped n (num_local m) (ws a)" "shaped n (num_local m) (bs a)" and el: "elastic_ok W is_hip c active m"
  shows "\<exists>infos. rank_ops is_hip c active m ws bs a = submitted (is_on active) infos \<and> rank_infos m a n infos"
proof -
  obtain bufs1 batches infos where "plan_single_layer is_hip c active m a (ws a) (bs a) =
      Inr (bufs1, concat (map (copy_info m a) (local_range m a)), batches, map fst (filter (cut_off (is_on active)) infos))"
    "concat batches = submitted (is_on active) infos" "rank_infos m a n infos"
    using plan_ok [OF m sh el] by metis
  then show ?thesis by (auto simp: rank_ops_def)
qed

lemma received_rows:
  assumes m: "reloc_ok W m" "a < W" "b < W" and on: "on a" "on b"
    and ia: "rank_infos m a n infos_a" "ops a = submitted on infos_a" and ib: "rank_infos m b n infos" "ops b = submitted on infos"
    and f: "fifo W on m ops ws deliver" and p: "placed W n (num_local m) (old_map m) ws V"
    and bufs: "shaped n (num_local m) bufs" and x: "(new_map m ! x, recv_ops n x a) \<in> set infos" "i < n"
  shows "snd (fold (receive m (deliver b)) (ops b) (\<lambda>_. 0, bufs)) ! i ! (x mod num_local m) = V i (new_map m ! x)"
proof -
  let ?op = "\<lparr>is_send = False, op_tensor = i, op_loc = x, op_peer = a\<rparr>"
  obtain j where j: "j < length (recvs_from a (ops b))" "recvs_from a (ops b) ! j = ?op"
    using recv_index [OF x(1), of on, OF on(1) x(2)] ib(2) by auto
  have k: "0 < num_local m" using m by (simp add: reloc_ok_def)
  have tens: "\<forall>op \<in> set (recvs (ops b)). op_tensor op < n" using recv_submitted [OF m(1,3) ib(1)] ib(2) by fastforce
  have dist: "distinct (map (target (num_local m)) (recvs (ops b)))" using recv_targets_distinct [OF m(1,3) ib(1)] ib(2) by simp
  have "snd (fold (receive m (deliver b)) (ops b) (\<lambda>_. 0, bufs)) ! i ! (x mod num_local m) = deliver b a j"
    using receive_at [OF bufs k tens dist j, of "deliver b" "\<lambda>_. 0"] by simp
  also have "\<dots> = V i (new_map m ! x)" using arrival [OF m on ia ib f p j(1)] j(2) by simp
  finally show ?thesis .
qed

lemma kept_rows:
  assumes m: "reloc_ok W m" "b < W" and i: "rank_infos m b n infos" and x: "x div num_local m = b" "\<And>c. rc m b x \<noteq> FromRank c"
  shows "snd (fold (receive m deliver) (submitted on infos) (taken, bufs)) ! i ! (x mod num_local m) = bufs ! i ! (x mod num_local m)"
proof (rule receive_other, rule notI, elim imageE)
  fix op assume op: "(i, x mod num_local m) = target (num_local m) op" "op \<in> set (recvs (submitted on infos))"
  from recv_submitted [OF m assms(3) op(2)] obtain dst c where d: "dst div num_local m = b" "rc m b dst = FromRank c" "op_loc op = dst" by auto
  with op(1) have "dst mod num_local m = x mod num_local m" by (simp add: target_def)
  with d(1) x(1) have "dst = x" by (metis div_mult_mod_eq)
  with d(2) x(2) show False by simp
qed

text \<open>A free rider takes its rows from the location that receives them.\<close>

lemma rider_source:
  assumes m: "reloc_ok W m" "b < W" and x: "x div num_local m = b" "rc m b x = FreeRider src"
  shows "src div num_local m = b" "new_map m ! src = new_map m ! x" "\<exists>a. rc m b src = FromRank a"
proof -
  have c: "src div num_local m = b" "new_map m ! src = new_map m ! x" "\<not> has m b (new_map m ! x)"
    "\<forall>s < src. s div num_local m = b \<longrightarrow> new_map m ! s \<noteq> new_map m ! x"
    using rc_ok(2) [OF m x(1)] x(2) by (simp_all add: case_ok_def Let_def)
  then show "src div num_local m = b" "new_map m ! src = new_map m ! x" by simp_all
  have old: "old_map m ! s \<noteq> new_map m ! x" if "s div num_local m = b" for s
    using c(3) loc_less [OF m(1)] m(2) that by (auto simp: holds_def)
  show "\<exists>a. rc m b src = FromRank a"
    using rc_ok(2) [OF m c(1)] c old by (auto simp: case_ok_def Let_def split: recv_case.splits)
qed

lemma rows_after_exchange:
  assumes m: "reloc_ok W m" "b < W" and p: "placed W n (num_local m) (old_map m) ws V" and on: "on b"
    and ops: "ops b = submitted on infos" "rank_infos m b n infos"
    and others: "\<And>a. a < W \<Longrightarrow> \<exists>infos. ops a = submitted on infos \<and> rank_infos m a n infos"
    and f: "fifo W on m ops ws deliver" and bufs1: "shaped n (num_local m) bufs1"
    and recv: "\<forall>dst a. dst div num_local m = b \<longrightarrow> rc m b dst = FromRank a \<longrightarrow> (new_map m ! dst, recv_ops n dst a) \<in> set infos"
    and local: "\<forall>i < n. \<forall>dst src. dst div num_local m = b \<longrightarrow> rc m b dst = SameGpu src \<longrightarrow> bufs1 ! i ! (dst mod num_local m) = ws b ! i ! (src mod num_local m)"
    and x: "x div num_local m = b" "(s, x) \<in> set (concat (map (copy_info m b) (local_range m b)))"
      "new_map m ! x \<notin> set (map fst (filter (cut_off on) infos))" "i < n"
  shows "snd (fold (receive m (deliver b)) (ops b) (\<lambda>_. 0, bufs1)) ! i ! (s mod num_local m) = V i (new_map m ! x)"
proof -
  let ?k = "num_local m"
  have got: "snd (fold (receive m (deliver b)) (ops b) (\<lambda>_. 0, bufs1)) ! i ! (y mod ?k) = V i (new_map m ! y)"
    if y: "y div ?k = b" "rc m b y = FromRank a" "new_map m ! y = new_map m ! x" for y a
  proof -
    have info: "(new_map m ! y, recv_ops n y a) \<in> set infos" using recv y(1,2) by blast
    have "on a"
    proof (rule ccontr)
      assume "\<not> on a"
      with x(4) have "cut_off on (new_map m ! y, recv_ops n y a)" by (auto simp: cut_off_def recv_ops_def)
      with info x(3) y(3) show False by force
    qed
    moreover have "a < W" using from_rank(2) [OF m(1) y(1) m(2) y(2)] has_less [OF m(1)] by blast
    moreover then obtain infos_a where "ops a = submitted on infos_a" "rank_infos m a n infos_a" using others by blast
    ultimately show ?thesis
      using received_rows [of W m a b on n infos_a ops infos ws deliver V bufs1 y i] m on bufs1 ops f p info x(4) by simp
  qed
  show ?thesis
  proof (cases "rc m b x")
    case (SameGpu src)
    then have "s = x" "src div ?k = b" "old_map m ! src = new_map m ! x"
      using x(1,2) rc_ok(2) [OF m x(1)] by (auto simp: set_copies [OF m(1)] case_ok_def Let_def simp del: set_concat)
    moreover have "ws b ! i ! (src mod ?k) = V i (old_map m ! src)" using p m(2) x(4) calculation(2) by (simp add: placed_def)
    moreover have "snd (fold (receive m (deliver b)) (ops b) (\<lambda>_. 0, bufs1)) ! i ! (x mod ?k) = bufs1 ! i ! (x mod ?k)"
      unfolding ops(1) by (rule kept_rows [OF m ops(2) x(1)]) (simp add: SameGpu)
    ultimately show ?thesis using SameGpu local x(1,4) by simp
  next
    case (FreeRider src)
    then have "s = src" using x(2) by (simp add: set_copies [OF m(1)] del: set_concat)
    with rider_source [OF m x(1) FreeRider] got [of src] show ?thesis by auto
  next
    case (FromRank a)
    then have "s = x" using x(2) by (simp add: set_copies [OF m(1)] del: set_concat)
    with got [OF x(1) FromRank] show ?thesis by simp
  qed (use x(2) in \<open>simp add: set_copies [OF m(1)] del: set_concat\<close>)
qed

lemma missing_experts:
  assumes m: "reloc_ok W m" "b < W" and i: "rank_infos m b n infos" and e: "e \<in> set (map fst (filter (cut_off on) infos))"
  shows "\<exists>a < W. \<not> on a \<and> has m a e"
proof -
  obtain info op where info: "info \<in> set infos" "fst info = e" "op \<in> set (snd info)" "\<not> is_send op" "\<not> on (op_peer op)"
    using e by (auto simp: cut_off_def)
  have "\<not> has m b e" using i info by (fastforce simp: rank_infos_def send_info_def send_ops_def)
  with i info obtain dst c where d: "dst div num_local m = b" "rc m b dst = FromRank c" "info = (new_map m ! dst, recv_ops n dst c)"
    by (fastforce simp: rank_infos_def)
  have "has m c e" using from_rank(2) [OF m(1) d(1) m(2) d(2)] d(3) info(2) by simp
  moreover have "op_peer op = c" using info(3) d(3) by (auto simp: recv_ops_def)
  ultimately show ?thesis using has_less [OF m(1)] info(5) by blast
qed

lemma update_ok:
  assumes m: "reloc_ok W m" "b < W" and p: "placed W n (num_local m) (old_map m) ws V"
    and bs: "\<forall>a < W. shaped n (num_local m) (bs a)" and el: "elastic_ok W is_hip c active m" and on: "is_on active b"
    and f: "fifo W (is_on active) m (rank_ops is_hip c active m ws bs) ws deliver"
  shows "\<exists>w' bufs' missing. update_expert_weights_single_layer is_hip c active m (deliver b) b (ws b) (bs b) = Inr (w', bufs', missing) \<and>
    shaped n (num_local m) w' \<and> shaped n (num_local m) bufs' \<and>
    (\<forall>e \<in> set missing. \<exists>a < W. \<not> is_on active a \<and> has m a e) \<and>
    (\<forall>i < n. \<forall>x. x div num_local m = b \<longrightarrow> new_map m ! x \<notin> set missing \<longrightarrow> w' ! i ! (x mod num_local m) = V i (new_map m ! x))"
proof -
  let ?k = "num_local m" let ?on = "is_on active" let ?ops = "rank_ops is_hip c active m ws bs"
  have sh: "shaped n ?k (ws a)" "shaped n ?k (bs a)" if "a < W" for a using p bs that by (simp_all add: placed_def)
  obtain bufs1 batches infos where pl: "plan_single_layer is_hip c active m b (ws b) (bs b) =
      Inr (bufs1, concat (map (copy_info m b) (local_range m b)), batches, map fst (filter (cut_off ?on) infos))"
    "shaped n ?k bufs1" "concat batches = submitted ?on infos" "rank_infos m b n infos"
    "\<forall>dst a. dst div ?k = b \<longrightarrow> rc m b dst = FromRank a \<longrightarrow> (new_map m ! dst, recv_ops n dst a) \<in> set infos"
    "\<forall>i < n. \<forall>dst src. dst div ?k = b \<longrightarrow> rc m b dst = SameGpu src \<longrightarrow> bufs1 ! i ! (dst mod ?k) = ws b ! i ! (src mod ?k)"
    by (rule plan_ok [OF m sh [OF m(2)] el])
  let ?missing = "map fst (filter (cut_off ?on) infos)" let ?cs = "concat (map (copy_info m b) (local_range m b))"
  have ops: "?ops b = submitted ?on infos" "concat batches = ?ops b" using pl(1,3) by (simp_all add: rank_ops_def)
  define bufs2 where "bufs2 = snd (fold (receive m (deliver b)) (?ops b) (\<lambda>_. 0, bufs1))"
  have sh2: "shaped n ?k bufs2" unfolding bufs2_def ops(1)
    using recv_submitted [OF m pl(4)] by (intro receive_shaped [OF pl(2)]) fastforce
  have copied: "bufs2 ! i ! (s mod ?k) = V i (new_map m ! x)"
    if "x div ?k = b" "(s, x) \<in> set ?cs" "new_map m ! x \<notin> set ?missing" "i < n" for s x i
    unfolding bufs2_def
    by (rule rows_after_exchange [OF m p on ops(1) pl(4) rank_ops_ok [OF m(1) _ sh el] f pl(2,5,6) that])
  have dirs: "\<forall>(s, d) \<in> set ?cs. s div ?k = b \<and> d div ?k = b"
    using rider_source(1) [OF m] by (auto simp: set_copies [OF m(1)] simp del: set_concat split: recv_case.splits)
  obtain w' where w': "execute_buffer2weight_copies m b ?cs bufs2 (ws b) = Inr w'" "shaped n ?k w'"
    "\<forall>i < n. \<forall>d. d div ?k = b \<longrightarrow> (\<forall>s. (s, d) \<in> set ?cs \<longrightarrow> w' ! i ! (d mod ?k) = bufs2 ! i ! (s mod ?k)) \<and>
      (d \<notin> snd ` set ?cs \<longrightarrow> w' ! i ! (d mod ?k) = ws b ! i ! (d mod ?k))"
    using copies_ok [OF m(1) sh2 sh(1) [OF m(2)] dirs set_copies(2) [OF m(1)]] sh(1) [OF m(2)]
    unfolding execute_buffer2weight_copies_def shaped_def by metis
  have "w' ! i ! (x mod ?k) = V i (new_map m ! x)" if x: "i < n" "x div ?k = b" "new_map m ! x \<notin> set ?missing" for i x
  proof (cases "x \<in> snd ` set ?cs")
    case True
    then obtain s where "(s, x) \<in> set ?cs" by (auto simp del: set_concat)
    with w'(3) copied [OF x(2) _ x(3,1)] x(1,2) show ?thesis by metis
  next
    case False
    then have "\<forall>s. (s, x) \<notin> set ?cs" by (metis image_eqI snd_conv)
    then have "rc m b x = Unchanged" unfolding set_copies(1) [OF m(1)] using x(2) by (cases "rc m b x") simp_all
    with rc_ok(2) [OF m x(2)] have "old_map m ! x = new_map m ! x" by (simp add: case_ok_def)
    with w'(3) False x(1,2) p m(2) show ?thesis by (simp add: placed_def)
  qed
  moreover have "fold (fold (receive m (deliver b))) batches st = fold (receive m (deliver b)) (?ops b) st" for st
    unfolding ops(2) [symmetric] by (induction batches arbitrary: st) simp_all
  then have "update_expert_weights_single_layer is_hip c active m (deliver b) b (ws b) (bs b) = Inr (w', bufs2, ?missing)"
    using pl(1) w'(1) by (simp add: update_expert_weights_single_layer_def bufs2_def Let_def)
  ultimately show ?thesis using w'(2) sh2 missing_experts [OF m pl(4)] by blast
qed

end
