(* ===== verification/Update_Layers.thy ===== *)
theory Update_Layers
  imports Update_Weights
begin

text \<open>
  The update of several layers on all ranks: the weights stay in step with the metadata, and the canary finds nothing.
\<close>

section \<open>Layers\<close>

text \<open>The relocation of a layer in a cluster of \<open>W\<close> ranks on \<open>nn\<close> nodes.\<close>

definition layer_reloc :: "nat \<Rightarrow> nat \<Rightarrow> expert_meta \<Rightarrow> expert_meta \<Rightarrow> nat \<Rightarrow> relocation" where
  "layer_reloc W nn old new l = \<lparr>old_map = physical_to_logical_map old ! l, new_map = physical_to_logical_map new ! l,
     num_local = num_physical_experts old div W, gpus_per_node = W div nn\<rparr>"

definition cluster_ok :: "nat \<Rightarrow> nat \<Rightarrow> expert_meta \<Rightarrow> expert_meta \<Rightarrow> nat list \<Rightarrow> bool" where
  "cluster_ok W nn old new ids \<longleftrightarrow> 0 < W \<and> 0 < nn \<and> num_physical_experts old mod W = 0 \<and> distinct ids \<and> ids \<noteq> [] \<and>
     length (physical_to_logical_map new) = length (physical_to_logical_map old) \<and>
     (\<forall>l \<in> set ids. l < length (physical_to_logical_map old) \<and> reloc_ok W (layer_reloc W nn old new l))"

text \<open>The messages of a layer arrive in order; \<open>ws a l\<close> are the tensors of layer \<open>l\<close> on rank \<open>a\<close>.\<close>

definition layer_fifo ::
  "nat \<Rightarrow> bool \<Rightarrow> nat \<Rightarrow> bool list option \<Rightarrow> relocation \<Rightarrow> (nat \<Rightarrow> 'v tensors) \<Rightarrow> (nat \<Rightarrow> nat \<Rightarrow> nat \<Rightarrow> 'v) \<Rightarrow> bool" where
  "layer_fifo W is_hip c active m ws deliver \<longleftrightarrow> fifo W (is_on active) m (rank_ops is_hip c active m ws ws) ws deliver"

lemma update_layer_ok:
  assumes m: "reloc_ok W m" "b < W" and p: "placed W n (num_local m) (old_map m) ws V"
    and bs: "shaped n (num_local m) bufs" and el: "elastic_ok W is_hip c active m" and on: "is_on active b"
    and f: "layer_fifo W is_hip c active m ws deliver"
  shows "\<exists>w' bufs' missing. update_expert_weights_single_layer is_hip c active m (deliver b) b (ws b) bufs = Inr (w', bufs', missing) \<and>
    shaped n (num_local m) w' \<and> shaped n (num_local m) bufs' \<and>
    (\<forall>e \<in> set missing. \<exists>a < W. \<not> is_on active a \<and> has m a e) \<and>
    (\<forall>i < n. \<forall>x. x div num_local m = b \<longrightarrow> new_map m ! x \<notin> set missing \<longrightarrow> w' ! i ! (x mod num_local m) = V i (new_map m ! x))"
proof -
  have sh: "shaped n (num_local m) (ws a)" if "a < W" for a using p that by (simp add: placed_def)
  have "rank_ops is_hip c active m ws (\<lambda>_. bufs) a = rank_ops is_hip c active m ws ws a" if "a < W" for a
    using rank_ops_bufs [of W m a n ws "\<lambda>_. bufs" ws] m(1) that bs sh [OF that] by simp
  then have "fifo W (is_on active) m (rank_ops is_hip c active m ws (\<lambda>_. bufs)) ws deliver"
    using f by (simp add: layer_fifo_def fifo_def)
  from update_ok [OF m p _ el on this] bs show ?thesis by simp
qed

definition layer_placed :: "nat \<Rightarrow> nat \<Rightarrow> nat \<Rightarrow> nat list \<Rightarrow> 'v tensors \<Rightarrow> (nat \<Rightarrow> nat \<Rightarrow> 'v) \<Rightarrow> bool" where
  "layer_placed b n k p2l ts V \<longleftrightarrow> shaped n k ts \<and> (\<forall>i < n. \<forall>x. x div k = b \<longrightarrow> ts ! i ! (x mod k) = V i (p2l ! x))"

lemma placed_iff: "placed W n k p2l ws V \<longleftrightarrow> (\<forall>a < W. layer_placed a n k p2l (ws a) V)"
  by (simp add: placed_def layer_placed_def)

text \<open>All ranks are up, and every rank holds the experts of its locations.\<close>

definition layers_ready ::
  "nat \<Rightarrow> nat \<Rightarrow> nat \<Rightarrow> bool \<Rightarrow> nat \<Rightarrow> expert_meta \<Rightarrow> expert_meta \<Rightarrow> nat list \<Rightarrow> (nat \<Rightarrow> nat \<rightharpoonup> 'v tensors) \<Rightarrow>
   (nat \<Rightarrow> nat \<Rightarrow> nat \<Rightarrow> 'v) \<Rightarrow> (nat \<Rightarrow> nat \<Rightarrow> nat \<Rightarrow> nat \<Rightarrow> 'v) \<Rightarrow> bool" where
  "layers_ready W nn n is_hip c old new ids ws V deliver \<longleftrightarrow>
     (\<forall>l \<in> set ids. (\<forall>a < W. \<exists>ts. ws a l = Some ts \<and> layer_placed a n (num_physical_experts old div W) (physical_to_logical_map old ! l) ts (V l)) \<and>
       elastic_ok W is_hip c None (layer_reloc W nn old new l) \<and>
       layer_fifo W is_hip c None (layer_reloc W nn old new l) (\<lambda>a. the (ws a l)) (\<lambda>b. deliver b l))"

lemma update_layer_step:
  assumes C: "cluster_ok W nn old new ids" and R: "layers_ready W nn n is_hip c old new ids ws V deliver"
    and b: "b < W" and l: "l \<in> set ids" and w: "w l = ws b l" and bufs: "shaped n (num_physical_experts old div W) bufs"
  shows "\<exists>ts bufs'. update_layer is_hip c None (deliver b) old new (num_physical_experts old div W) (W div nn) b l (w, bufs, miss) =
      Inr (w(l \<mapsto> ts), bufs', miss) \<and> shaped n (num_physical_experts old div W) bufs' \<and>
    layer_placed b n (num_physical_experts old div W) (physical_to_logical_map new ! l) ts (V l)"
proof -
  let ?m = "layer_reloc W nn old new l" let ?ws = "\<lambda>a. the (ws a l)"
  have m: "reloc_ok W ?m" "l < length (physical_to_logical_map old)" "l < length (physical_to_logical_map new)"
    using C l by (auto simp: cluster_ok_def)
  have p: "placed W n (num_local ?m) (old_map ?m) ?ws (V l)"
    using R l by (fastforce simp: layers_ready_def placed_iff layer_reloc_def)
  obtain ts where ts: "w l = Some ts" "?ws b = ts" using R l b w by (fastforce simp: layers_ready_def)
  have on: "is_on None b" "\<not> (\<exists>a. \<not> is_on None a)" by (simp_all add: is_on_def)
  have "elastic_ok W is_hip c None ?m" "layer_fifo W is_hip c None ?m ?ws (\<lambda>b. deliver b l)" using R l by (simp_all add: layers_ready_def)
  from update_layer_ok [OF m(1) b p _ this(1) on(1) this(2), of bufs] bufs ts(2)
  obtain ts' bufs' missing where u: "update_expert_weights_single_layer is_hip c None ?m (deliver b l) b ts bufs = Inr (ts', bufs', missing)"
    "shaped n (num_local ?m) ts'" "shaped n (num_local ?m) bufs'" "\<forall>e \<in> set missing. \<exists>a < W. \<not> is_on None a \<and> has ?m a e"
    "\<forall>i < n. \<forall>x. x div num_local ?m = b \<longrightarrow> new_map ?m ! x \<notin> set missing \<longrightarrow> ts' ! i ! (x mod num_local ?m) = V l i (new_map ?m ! x)"
    by (auto simp: layer_reloc_def)
  have "missing = []" using u(4) on(2) by (cases missing) auto
  then show ?thesis using u m ts
    by (auto simp: update_layer_def get_r_def nth_r_def layer_reloc_def layer_placed_def)
qed

lemma update_layers_fold:
  assumes C: "cluster_ok W nn old new ids" and R: "layers_ready W nn n is_hip c old new ids ws V deliver" and b: "b < W"
    and ls: "set ls \<subseteq> set ids" "distinct ls" "\<forall>l \<in> set ls. w l = ws b l" and bufs: "shaped n (num_physical_experts old div W) bufs"
  shows "\<exists>w' bufs'. rfold (update_layer is_hip c None (deliver b) old new (num_physical_experts old div W) (W div nn) b) ls (w, bufs, Map.empty) =
      Inr (w', bufs', Map.empty) \<and> (\<forall>l. l \<notin> set ls \<longrightarrow> w' l = w l) \<and>
    (\<forall>l \<in> set ls. \<exists>ts. w' l = Some ts \<and> layer_placed b n (num_physical_experts old div W) (physical_to_logical_map new ! l) ts (V l))"
  using ls bufs
proof (induction ls arbitrary: w bufs)
  case (Cons l ls)
  obtain ts bufs1 where s: "update_layer is_hip c None (deliver b) old new (num_physical_experts old div W) (W div nn) b l (w, bufs, Map.empty) =
      Inr (w(l \<mapsto> ts), bufs1, Map.empty)" "shaped n (num_physical_experts old div W) bufs1"
    "layer_placed b n (num_physical_experts old div W) (physical_to_logical_map new ! l) ts (V l)"
    using update_layer_step [OF C R b _ _ Cons.prems(4), of l w Map.empty] Cons.prems(1,3) by auto
  have "\<forall>k \<in> set ls. (w(l \<mapsto> ts)) k = ws b k" using Cons.prems(2,3) by auto
  moreover have "set ls \<subseteq> set ids" "distinct ls" using Cons.prems(1,2) by auto
  ultimately obtain w' bufs' where
    i: "rfold (update_layer is_hip c None (deliver b) old new (num_physical_experts old div W) (W div nn) b) ls (w(l \<mapsto> ts), bufs1, Map.empty) =
      Inr (w', bufs', Map.empty)" "\<forall>k. k \<notin> set ls \<longrightarrow> w' k = (w(l \<mapsto> ts)) k"
    "\<forall>k \<in> set ls. \<exists>ts. w' k = Some ts \<and> layer_placed b n (num_physical_experts old div W) (physical_to_logical_map new ! k) ts (V k)"
    using Cons.IH [of "w(l \<mapsto> ts)" bufs1] s(2) by blast
  have "w' l = Some ts" using i(2) Cons.prems(2) by simp
  with i s(1,3) show ?case by auto
qed simp

lemma raw_ok:
  assumes C: "cluster_ok W nn old new ids" and R: "layers_ready W nn n is_hip c old new ids ws V deliver" and b: "b < W"
  shows "\<exists>w'. update_expert_weights_raw is_hip c None (deliver b) junk W nn b old new ids (ws b) = Inr (w', Map.empty) \<and>
    (\<forall>l. l \<notin> set ids \<longrightarrow> w' l = ws b l) \<and>
    (\<forall>l \<in> set ids. \<exists>ts. w' l = Some ts \<and> layer_placed b n (num_physical_experts old div W) (physical_to_logical_map new ! l) ts (V l))"
proof -
  have ids: "ids \<noteq> []" "distinct ids" "0 < W" "0 < nn" "num_physical_experts old mod W = 0" using C by (simp_all add: cluster_ok_def)
  then have first: "hd ids \<in> set ids" "nth_r ids 0 = Inr (hd ids)" by (auto simp: nth_r_def hd_conv_nth)
  obtain ts where ts: "ws b (hd ids) = Some ts" "layer_placed b n (num_physical_experts old div W) (physical_to_logical_map old ! hd ids) ts (V (hd ids))"
    using R first(1) b by (auto simp: layers_ready_def)
  have "shaped n (num_physical_experts old div W) (create_temp_buffers junk ts)"
    using ts(2) by (auto simp: layer_placed_def shaped_def create_temp_buffers_def)
  from update_layers_fold [OF C R b _ ids(2) _ this, of "ws b"] show ?thesis
    using first(2) ids ts(1) by (auto simp: update_expert_weights_raw_def num_local_physical_experts_def py_assert_def get_r_def)
qed

section \<open>The canary\<close>

text \<open>The tensors of a rank with the canary of the old experts.\<close>

definition with_canary :: "(nat \<Rightarrow> 'v) option \<Rightarrow> nat \<Rightarrow> expert_meta \<Rightarrow> nat list \<Rightarrow> (nat \<Rightarrow> nat \<rightharpoonup> 'v tensors) \<Rightarrow> nat \<Rightarrow> nat \<rightharpoonup> 'v tensors" where
  "with_canary canary k old ids ws a l = (case canary of None \<Rightarrow> ws a l
     | Some v \<Rightarrow> if l \<in> set ids then map_option (\<lambda>ts. ts @ [map v (slice (k * a) (k * (a + 1)) (physical_to_logical_map old ! l))]) (ws a l) else ws a l)"

definition canary_values :: "(nat \<Rightarrow> 'v) option \<Rightarrow> nat \<Rightarrow> (nat \<Rightarrow> nat \<Rightarrow> nat \<Rightarrow> 'v) \<Rightarrow> nat \<Rightarrow> nat \<Rightarrow> nat \<Rightarrow> 'v" where
  "canary_values canary n V l i e = (case canary of None \<Rightarrow> V l i e | Some v \<Rightarrow> if i = n then v e else V l i e)"

lemma canary_values_simps [simp]:
  "canary_values None n V = V" "canary_values (Some v) n V l = (\<lambda>i e. if i = n then v e else V l i e)"
  by (simp_all add: canary_values_def fun_eq_iff)

lemma canary_row:
  assumes "length row = W * k" "a < W" "x div k = a" "0 < k"
  shows "length (slice (k * a) (k * (a + 1)) row) = k" "slice (k * a) (k * (a + 1)) row ! (x mod k) = row ! x"
proof -
  have le: "k * (a + 1) \<le> W * k" using assms(2) by (metis Suc_eq_plus1 Suc_leI mult.commute mult_le_mono1)
  then show len: "length (slice (k * a) (k * (a + 1)) row) = k" using assms(1) by (simp add: algebra_simps)
  have "x = k * a + x mod k" using assms(3) by (metis mult_div_mod_eq)
  then show "slice (k * a) (k * (a + 1)) row ! (x mod k) = row ! x"
    using len assms(4) by (simp add: slice_def)
qed

lemma canary_placed:
  assumes "layer_placed a n k row ts V" "length row = W * k" "a < W" "0 < k"
  shows "layer_placed a (Suc n) k row (ts @ [map v (slice (k * a) (k * (a + 1)) row)]) (\<lambda>i e. if i = n then v e else V i e)"
proof -
  let ?c = "slice (k * a) (k * (a + 1)) row"
  have x: "a * k div k = a" using assms(4) by simp
  have "map v ?c ! (x mod k) = v (row ! x)" if "x div k = a" for x
    using canary_row [OF assms(2,3) that assms(4)] assms(4) by simp
  then show ?thesis using assms(1) canary_row(1) [OF assms(2,3) x assms(4)]
    by (auto simp: layer_placed_def shaped_def nth_append less_Suc_eq)
qed

lemma canary_found:
  assumes p: "layer_placed b (Suc n) k row ts (\<lambda>i e. if i = n then v e else V i e)" and "length row = W * k" "b < W" "0 < k"
  shows "last ts = map v (slice (k * b) (k * (b + 1)) row)" "layer_placed b n k row (butlast ts) V"
proof -
  have len: "length ts = Suc n" using p by (simp add: layer_placed_def shaped_def)
  then have last: "last ts = ts ! n" by (cases ts rule: rev_cases) auto
  have c: "length (slice (k * b) (k * (b + 1)) row) = k" "\<And>x. x div k = b \<Longrightarrow> slice (k * b) (k * (b + 1)) row ! (x mod k) = row ! x"
    using canary_row [OF assms(2,3) _ assms(4)] assms(4) by (auto dest: meta_spec [of _ "b * k"])
  show "last ts = map v (slice (k * b) (k * (b + 1)) row)"
  proof (rule nth_equalityI)
    show "length (last ts) = length (map v (slice (k * b) (k * (b + 1)) row))"
      using p len last c(1) by (simp add: layer_placed_def shaped_def)
    fix j assume "j < length (last ts)"
    then have j: "j < k" using p len last by (simp add: layer_placed_def shaped_def)
    let ?x = "b * k + j"
    have x: "?x div k = b" "?x mod k = j" using j assms(4) by simp_all
    from p x have "ts ! n ! j = v (row ! ?x)" by (simp add: layer_placed_def) (metis lessI x)
    then show "last ts ! j = map v (slice (k * b) (k * (b + 1)) row) ! j" using c(1) c(2) [OF x(1)] x(2) j last by simp
  qed
  show "layer_placed b n k row (butlast ts) V"
    using p len by (auto simp: layer_placed_def shaped_def nth_butlast dest: in_set_butlastD)
qed

lemma add_canary_fold:
  assumes "distinct ids" "\<forall>l \<in> set ids. l < length (physical_to_logical_map old) \<and> w l \<noteq> None"
  shows "rfold (\<lambda>layer_id w. rbind (canary_value v k a old layer_id) (\<lambda>c.
              rbind (get_r w layer_id) (\<lambda>ts. Inr (w(layer_id \<mapsto> ts @ [c]))))) ids w =
    Inr (\<lambda>l. if l \<in> set ids then map_option (\<lambda>ts. ts @ [map v (slice (k * a) (k * (a + 1)) (physical_to_logical_map old ! l))]) (w l) else w l)"
  using assms
proof (induction ids arbitrary: w)
  case (Cons l ids)
  then obtain ts where ts: "w l = Some ts" by auto
  let ?w = "w(l \<mapsto> ts @ [map v (slice (k * a) (k * (a + 1)) (physical_to_logical_map old ! l))])"
  have "\<forall>j \<in> set ids. j < length (physical_to_logical_map old) \<and> ?w j \<noteq> None" using Cons.prems by auto
  with Cons.IH [of ?w] Cons.prems ts show ?case
    by (auto simp: canary_value_def nth_r_def get_r_def fun_eq_iff)
qed simp

lemma check_canary_fold:
  assumes "\<forall>l \<in> set ids. l < length (physical_to_logical_map new) \<and> (\<exists>ts. w l = Some ts \<and> last ts = map v (slice (k * a) (k * (a + 1)) (physical_to_logical_map new ! l)))"
  shows "rfold (\<lambda>layer_id _. rbind (canary_value v k a new layer_id) (\<lambda>expect.
              rbind (get_r w layer_id) (\<lambda>ts. py_assert (expect = last ts)))) ids () = Inr ()"
  using assms by (induction ids) (auto simp: canary_value_def nth_r_def get_r_def py_assert_def)

section \<open>The updater\<close>

definition in_step :: "nat \<Rightarrow> nat \<Rightarrow> nat \<Rightarrow> expert_meta \<Rightarrow> (nat \<rightharpoonup> 'v tensors) \<Rightarrow> (nat \<Rightarrow> nat \<Rightarrow> nat \<Rightarrow> 'v) \<Rightarrow> bool" where
  "in_step W b n meta w V \<longleftrightarrow> (\<forall>l < length (physical_to_logical_map meta).
     \<exists>ts. w l = Some ts \<and> layer_placed b n (num_physical_experts meta div W) (physical_to_logical_map meta ! l) ts (V l))"

lemma cluster_rows:
  assumes "cluster_ok W nn old new ids" "l \<in> set ids"
  shows "length (physical_to_logical_map old ! l) = W * (num_physical_experts old div W)"
    "length (physical_to_logical_map new ! l) = W * (num_physical_experts old div W)" "0 < num_physical_experts old div W"
  using assms by (auto simp: cluster_ok_def reloc_ok_def layer_reloc_def)

lemma weights_ready:
  assumes C: "cluster_ok W nn old new ids" and P: "\<forall>a < W. in_step W a n old (ws a) V"
    and E: "\<forall>l \<in> set ids. elastic_ok W is_hip c None (layer_reloc W nn old new l)"
    and F: "\<forall>l \<in> set ids. layer_fifo W is_hip c None (layer_reloc W nn old new l)
      (\<lambda>a. the (with_canary canary (num_physical_experts old div W) old ids ws a l)) (\<lambda>b. deliver b l)"
  shows "layers_ready W nn (if canary = None then n else Suc n) is_hip c old new ids
    (with_canary canary (num_physical_experts old div W) old ids ws) (canary_values canary n V) deliver"
  unfolding layers_ready_def
proof (intro ballI conjI allI impI)
  fix l a assume l: "l \<in> set ids" and a: "a < W"
  let ?k = "num_physical_experts old div W"
  have "l < length (physical_to_logical_map old)" using C l by (simp add: cluster_ok_def)
  then obtain ts where ts: "ws a l = Some ts" "layer_placed a n ?k (physical_to_logical_map old ! l) ts (V l)"
    using P a by (auto simp: in_step_def)
  show "\<exists>ts. with_canary canary ?k old ids ws a l = Some ts \<and>
      layer_placed a (if canary = None then n else Suc n) ?k (physical_to_logical_map old ! l) ts (canary_values canary n V l)"
  proof (cases canary)
    case None
    then show ?thesis using ts by (simp add: with_canary_def)
  next
    case (Some v)
    then show ?thesis using Some ts l canary_placed [OF ts(2) cluster_rows(1) [OF C l] a cluster_rows(3) [OF C l], of v]
      by (simp add: with_canary_def)
  qed
qed (use E F in auto)

lemma updater_ok:
  assumes C: "cluster_ok W nn old new ids" and P: "\<forall>a < W. in_step W a n old (ws a) V" and b: "b < W"
    and E: "\<forall>l \<in> set ids. elastic_ok W is_hip c None (layer_reloc W nn old new l)"
    and F: "\<forall>l \<in> set ids. layer_fifo W is_hip c None (layer_reloc W nn old new l)
      (\<lambda>a. the (with_canary canary (num_physical_experts old div W) old ids ws a l)) (\<lambda>b. deliver b l)"
  shows "\<exists>w'. updater_update canary is_hip c None (deliver b) junk W nn b (Some old) new ids (ws b) = Inr (w', meta_update old new ids, Map.empty) \<and>
    in_step W b n (meta_update old new ids) w' V"
proof -
  let ?k = "num_physical_experts old div W" let ?ws = "with_canary canary ?k old ids ws"
  obtain w' where w': "update_expert_weights_raw is_hip c None (deliver b) junk W nn b old new ids (?ws b) = Inr (w', Map.empty)"
    "\<forall>l. l \<notin> set ids \<longrightarrow> w' l = ?ws b l"
    "\<forall>l \<in> set ids. \<exists>ts. w' l = Some ts \<and> layer_placed b (if canary = None then n else Suc n) ?k (physical_to_logical_map new ! l) ts (canary_values canary n V l)"
    using raw_ok [OF C weights_ready [OF C P E F] b] by blast
  have other: "?ws b l = ws b l" if "l \<notin> set ids" for l using that by (simp add: with_canary_def split: option.splits)
  show ?thesis
  proof (cases canary)
    case None
    then have "?ws b = ws b" by (simp add: with_canary_def fun_eq_iff)
    with w' P b None show ?thesis by (auto simp: updater_update_def in_step_def meta_update_def)
  next
    case (Some v)
    have found: "\<exists>ts. w' l = Some ts \<and> last ts = map v (slice (?k * b) (?k * (b + 1)) (physical_to_logical_map new ! l)) \<and>
        layer_placed b n ?k (physical_to_logical_map new ! l) (butlast ts) (V l)" if "l \<in> set ids" for l
      using w'(3) that Some canary_found [OF _ cluster_rows(2) [OF C that] b cluster_rows(3) [OF C that]] by fastforce
    have len: "\<forall>l \<in> set ids. l < length (physical_to_logical_map old)" "\<forall>l \<in> set ids. l < length (physical_to_logical_map new)"
      "distinct ids" "0 < W" "num_physical_experts old mod W = 0" using C by (auto simp: cluster_ok_def)
    have "\<forall>l \<in> set ids. l < length (physical_to_logical_map old) \<and> ws b l \<noteq> None" using len(1) P b by (fastforce simp: in_step_def)
    note add = add_canary_fold [OF len(3) this, of v ?k b]
    have eq: "?ws b = (\<lambda>l. if l \<in> set ids then map_option (\<lambda>ts. ts @ [map v (slice (?k * b) (?k * (b + 1)) (physical_to_logical_map old ! l))]) (ws b l) else ws b l)"
      by (simp add: Some with_canary_def fun_eq_iff)
    have check: "\<forall>l \<in> set ids. l < length (physical_to_logical_map new) \<and>
        (\<exists>ts. w' l = Some ts \<and> last ts = map v (slice (?k * b) (?k * (b + 1)) (physical_to_logical_map new ! l)))"
      using len(2) found by blast
    let ?w = "\<lambda>l. if l \<in> set ids then map_option butlast (w' l) else w' l"
    have "updater_update canary is_hip c None (deliver b) junk W nn b (Some old) new ids (ws b) = Inr (?w, meta_update old new ids, Map.empty)"
      using add check_canary_fold [OF check] w'(1) len(4,5) unfolding eq
      by (simp add: updater_update_def Some update_expert_weights_with_canary_def num_local_physical_experts_def py_assert_def)
    moreover have "in_step W b n (meta_update old new ids) ?w V"
      unfolding in_step_def
    proof (intro allI impI)
      fix l assume l: "l < length (physical_to_logical_map (meta_update old new ids))"
      then have l': "l < length (physical_to_logical_map old)" by (simp add: meta_update_def)
      show "\<exists>ts. ?w l = Some ts \<and> layer_placed b n (num_physical_experts (meta_update old new ids) div W)
          (physical_to_logical_map (meta_update old new ids) ! l) ts (V l)"
        using found [of l] w'(2) other [of l] P b l' by (cases "l \<in> set ids") (auto simp: meta_update_def in_step_def)
    qed
    ultimately show ?thesis by blast
  qed
qed

text \<open>A network that delivers what was sent.\<close>

definition network :: "relocation \<Rightarrow> (nat \<Rightarrow> p2p_op list) \<Rightarrow> (nat \<Rightarrow> 'v tensors) \<Rightarrow> nat \<Rightarrow> nat \<Rightarrow> nat \<Rightarrow> 'v" where
  "network m ops ws b a k = ws a ! op_tensor (sends_to b (ops a) ! k) ! (op_loc (sends_to b (ops a) ! k) mod num_local m)"

lemma network_fifo: "fifo W on m ops ws (network m ops ws)"
  by (simp add: fifo_def network_def)

end
