(* ===== verification/Update_Examples.thy ===== *)
theory Update_Examples
  imports Update_Layers
begin

text \<open>Two ranks on two nodes with two experts each, that swap experts in the second of two layers.\<close>

definition fill_layer :: "nat \<Rightarrow> nat \<Rightarrow> nat \<Rightarrow> nat list \<Rightarrow> (nat \<Rightarrow> nat \<Rightarrow> 'v) \<Rightarrow> 'v tensors" where
  "fill_layer a n k row V = map (\<lambda>i. map (\<lambda>j. V i (row ! (a * k + j))) [0 ..< k]) [0 ..< n]"

lemma fill_placed: "0 < k \<Longrightarrow> layer_placed a n k row (fill_layer a n k row V) V"
  by (auto simp: layer_placed_def fill_layer_def shaped_def div_mult_mod_eq)

definition demo_rows :: "nat \<Rightarrow> nat \<Rightarrow> nat" where
  "demo_rows i e = 10 * e + i"

definition demo_reloc :: relocation where
  "demo_reloc = \<lparr>old_map = [0, 1, 2, 3], new_map = [2, 1, 0, 2], num_local = 2, gpus_per_node = 1\<rparr>"

definition demo_tensors :: "nat \<Rightarrow> nat tensors" where
  "demo_tensors a = fill_layer a 2 2 [0, 1, 2, 3] demo_rows"

lemma demo_reloc_ok: "reloc_ok 2 demo_reloc"
  by (simp add: reloc_ok_def demo_reloc_def)

lemma demo_placed: "placed 2 2 (num_local demo_reloc) (old_map demo_reloc) demo_tensors demo_rows"
  by (simp add: placed_iff demo_reloc_def demo_tensors_def fill_placed)

lemma demo_shaped: "shaped 2 (num_local demo_reloc) (demo_tensors a)"
  by (auto simp: shaped_def demo_tensors_def fill_layer_def demo_reloc_def)

lemma demo_elastic: "elastic_ok 2 True 1 (Some [True, False]) demo_reloc" "elastic_ok 2 True 3 None demo_reloc"
  by (simp_all add: elastic_ok_def demo_reloc_def)

definition demo_meta :: expert_meta where
  "demo_meta = \<lparr>physical_to_logical_map = [[0, 1, 2, 3], [0, 1, 2, 3]], num_physical_experts = 4\<rparr>"

definition demo_new_meta :: expert_meta where
  "demo_new_meta = \<lparr>physical_to_logical_map = [[0, 0, 0, 0], [2, 1, 0, 2]], num_physical_experts = 4\<rparr>"

definition demo_weights :: "nat \<Rightarrow> nat \<rightharpoonup> nat tensors" where
  "demo_weights a l = (if l < 2 then Some (demo_tensors a) else None)"

lemma demo_cluster: "cluster_ok 2 2 demo_meta demo_new_meta [1]"
  by (simp add: cluster_ok_def demo_meta_def demo_new_meta_def layer_reloc_def reloc_ok_def)

lemma demo_in_step: "in_step 2 a 2 demo_meta (demo_weights a) (\<lambda>_. demo_rows)"
  unfolding in_step_def
proof (intro allI impI)
  fix l assume "l < length (physical_to_logical_map demo_meta)"
  then have l: "l < 2" by (simp add: demo_meta_def)
  then have row: "physical_to_logical_map demo_meta ! l = [0, 1, 2, 3]" by (cases l) (simp_all add: demo_meta_def)
  have "num_physical_experts demo_meta div 2 = 2" by (simp add: demo_meta_def)
  with l show "\<exists>ts. demo_weights a l = Some ts \<and>
      layer_placed a 2 (num_physical_experts demo_meta div 2) (physical_to_logical_map demo_meta ! l) ts demo_rows"
    unfolding row by (simp add: demo_weights_def demo_tensors_def fill_placed)
qed

end
