(* ===== verification/Rebalance.thy ===== *)
theory Rebalance
  imports Eplb_Props Update_Examples
begin

text \<open>
  The balancer and the updater together: installing the maps of the balancer on all ranks keeps the weights in step
  with the metadata.
\<close>

definition meta_covers :: "nat \<Rightarrow> nat \<Rightarrow> expert_meta \<Rightarrow> bool" where
  "meta_covers l n meta \<longleftrightarrow> num_physical_experts meta = n \<and> (\<forall>row \<in> set (physical_to_logical_map meta). covers l n row)"

lemma covers_reloc:
  assumes "covers l n old" "covers l n new" "n = W * k" "0 < k" "0 < gpn"
  shows "reloc_ok W \<lparr>old_map = old, new_map = new, num_local = k, gpus_per_node = gpn\<rparr>"
  using assms by (simp add: reloc_ok_def covers_def)

lemma covering_cluster:
  assumes old: "meta_covers l n old" and new: "meta_covers l n new"
    and n: "W dvd n" "0 < n" "0 < nn" "nn \<le> W" and len: "length (physical_to_logical_map new) = length (physical_to_logical_map old)"
    and ids: "distinct ids" "ids \<noteq> []" "\<forall>i \<in> set ids. i < length (physical_to_logical_map old)"
  shows "cluster_ok W nn old new ids"
proof -
  obtain k where k: "n = W * k" using n(1) by (auto simp: dvd_def)
  have "reloc_ok W (layer_reloc W nn old new i)" if "i \<in> set ids" for i
    unfolding layer_reloc_def
  proof (rule covers_reloc [of l n])
    show "covers l n (physical_to_logical_map old ! i)" "covers l n (physical_to_logical_map new ! i)"
      using old new that ids(3) len by (auto simp: meta_covers_def)
    show "n = W * (num_physical_experts old div W)" "0 < num_physical_experts old div W" "0 < W div nn"
      using old n k by (auto simp: meta_covers_def div_greater_zero_iff)
  qed
  then show ?thesis using old n ids len by (auto simp: cluster_ok_def meta_covers_def)
qed

lemma covering_elastic:
  assumes "meta_covers l n old" "l \<le> n" "is_hip \<longrightarrow> 0 < c" "i < length (physical_to_logical_map old)"
  shows "elastic_ok W is_hip c None (layer_reloc W nn old new i)"
proof -
  have "covers l n (physical_to_logical_map old ! i)" using assms(1,4) by (simp add: meta_covers_def)
  then show ?thesis using assms(2,3) by (auto simp: elastic_ok_def layer_reloc_def covers_def)
qed

lemma meta_update_covers:
  assumes "meta_covers l n old" "meta_covers l n new" "length (physical_to_logical_map new) = length (physical_to_logical_map old)"
  shows "meta_covers l n (meta_update old new ids)"
  using assms by (auto simp: meta_covers_def meta_update_def)

lemma rebalanced_covers:
  assumes "is_argsort argsort" "\<forall>row \<in> set weight. length row = l \<and> (\<forall>x \<in> set row. 0 \<le> x)" "weight \<noteq> []"
    and "eplb_args hier l n num_groups num_nodes num_gpus"
    and "rebalance_experts argsort junk weight l n num_groups num_nodes num_gpus hier = Inr (P, T, C)"
  shows "meta_covers l n \<lparr>physical_to_logical_map = P, num_physical_experts = n\<rparr>" "length P = length weight"
proof -
  have r: "length P = length weight" "\<forall>i < length weight. layer_tables l n (P ! i) (T ! i) (C ! i)"
    using rebalance_ok [OF assms(1-4), of junk] assms(5) by auto
  then have "covers l n row" if "row \<in> set P" for row using that layer_tables_cover by (metis in_set_conv_nth)
  with r(1) show "meta_covers l n \<lparr>physical_to_logical_map = P, num_physical_experts = n\<rparr>" "length P = length weight"
    by (simp_all add: meta_covers_def)
qed

lemma rebalance_in_step:
  assumes "is_argsort argsort" "\<forall>row \<in> set weight. length row = l \<and> (\<forall>x \<in> set row. 0 \<le> x)" "weight \<noteq> []"
    and args: "eplb_args hier l n num_groups num_nodes W"
    and run: "rebalance_experts argsort junk weight l n num_groups num_nodes W hier = Inr (P, T, C)"
    and new: "new = \<lparr>physical_to_logical_map = P, num_physical_experts = n\<rparr>"
    and old: "meta_covers l n old" "length (physical_to_logical_map old) = length weight"
    and nn: "0 < nn" "nn \<le> W" and ids: "distinct ids" "ids \<noteq> []" "\<forall>i \<in> set ids. i < length weight"
    and step: "\<forall>a < W. in_step W a k old (ws a) V" and b: "b < W" and hip: "is_hip \<longrightarrow> 0 < c"
    and F: "\<forall>i \<in> set ids. layer_fifo W is_hip c None (layer_reloc W nn old new i)
      (\<lambda>a. the (with_canary canary (n div W) old ids ws a i)) (\<lambda>b. deliver b i)"
  shows "\<exists>w'. updater_update canary is_hip c None (deliver b) junk' W nn b (Some old) new ids (ws b) = Inr (w', meta_update old new ids, Map.empty) \<and>
    in_step W b k (meta_update old new ids) w' V \<and> meta_covers l n (meta_update old new ids)"
proof -
  have cov: "meta_covers l n new" "length (physical_to_logical_map new) = length (physical_to_logical_map old)"
    using rebalanced_covers [OF assms(1-3) args run] old(2) new by simp_all
  have n: "W dvd n" "0 < n" "l \<le> n" using args by (auto simp: eplb_args_def)
  have C: "cluster_ok W nn old new ids" by (rule covering_cluster [OF old(1) cov(1) n(1,2) nn cov(2) ids(1,2)]) (use ids(3) old(2) in simp)
  have E: "\<forall>i \<in> set ids. elastic_ok W is_hip c None (layer_reloc W nn old new i)"
    using covering_elastic [OF old(1) n(3) hip] ids(3) old(2) by simp
  have "num_physical_experts old = n" using old(1) by (simp add: meta_covers_def)
  with updater_ok [OF C step b E] F meta_update_covers [OF old(1) cov] show ?thesis by fastforce
qed

end
