(* ===== verification/Spec2Isabelle.thy ===== *)
theory Spec2Isabelle
  imports Retract_Examples Swa_Examples Mm_Cache Rebalance
begin

text \<open>
  A verification library for the scheduler and the KV-cache management of SGLang (Ascend branch).

  The server keeps the key and value tensors of processed tokens in numbered slots. An
  allocator hands slots out and takes them back; a prefix cache (a radix tree over token
  sequences) remembers which slots hold which sequence, so that a new request reuses the
  slots of the prefix it shares with an earlier one; requests lock the nodes they use, and
  unlocked leaves are evicted when slots run out. In front of it the scheduler orders the
  waiting requests, admits as many to a batch as the free and evictable tokens allow, and
  decides after each step which requests are finished.

  Theories and the code they model (paths under \<^verbatim>\<open>src/sglang/python/sglang/srt\<close>):

  \<^item> \<open>Prelude\<close>: exceptions as values, Python slices, pages, common prefixes.
  \<^item> \<open>Radix_Key\<close>: class \<^verbatim>\<open>RadixKey\<close> of \<^verbatim>\<open>mem_cache/radix_cache.py\<close>.
  \<^item> \<open>Allocator\<close>: \<^verbatim>\<open>mem_cache/allocator/base.py\<close>, \<^verbatim>\<open>token.py\<close> and the page pool of
    \<^verbatim>\<open>paged.py\<close>; the interfaces \<open>slot_pool\<close> and \<open>kv_pool\<close> with their interpretations.
  \<^item> \<open>Alloc_Extend\<close>, \<open>Alloc_Methods\<close>: placing a batch, in the reference loop, the Triton
    kernels and the methods \<^verbatim>\<open>alloc_extend\<close> and \<^verbatim>\<open>alloc_decode\<close> of the paged and the Ascend
    allocator.
  \<^item> \<open>Radix_Tree\<close>: \<^verbatim>\<open>TreeNode\<close>, \<^verbatim>\<open>RadixCache\<close>, eviction strategies, events, session index;
    \<open>Radix_Inv\<close>, \<open>Radix_Match\<close>, \<open>Radix_Lock\<close>, \<open>Radix_Evict\<close>: the invariant and what each
    operation does to it; \<open>Radix_Walk\<close>: walks over the whole tree; \<open>Radix_Spec\<close>: the contract
    without ghost state.
  \<^item> \<open>Slot_Own\<close>, \<open>Req_Cache\<close>: which slots the tree, a request and the allocator own, and the
    hand-over of a request to the tree (\<^verbatim>\<open>cache_finished_req\<close>, \<^verbatim>\<open>cache_unfinished_req\<close>, and the
    chunk caches of \<^verbatim>\<open>mem_cache/chunk_cache.py\<close>).
  \<^item> \<open>Req_Pool\<close>: the KV fields of \<^verbatim>\<open>Req\<close> (\<^verbatim>\<open>managers/schedule_batch.py\<close>) and \<^verbatim>\<open>ReqToTokenPool\<close>;
    \<open>Cache_Common\<close>, \<open>Slot_Table\<close>: allocation with eviction, release of a request and the slot
    table of \<^verbatim>\<open>mem_cache/common.py\<close> with its Triton kernels.
  \<^item> \<open>Swa_Alloc\<close>, \<open>Swa_Inv\<close>: the sliding-window allocators of \<^verbatim>\<open>mem_cache/allocator/swa.py\<close>.
  \<^item> \<open>Prefill_Adder\<close>, \<open>Admission\<close>, \<open>Preemption\<close>: class \<^verbatim>\<open>PrefillAdder\<close> of
    \<^verbatim>\<open>managers/schedule_policy.py\<close>: budgets, admission, chunks and preemption; the interface
    \<open>admission_env\<close> is what it relies on, interpreted by the radix cache with any allocator.
  \<^item> \<open>Sched_Policy\<close>, \<open>Policy_Props\<close>: class \<^verbatim>\<open>SchedulePolicy\<close> of the same file: the order of the
    waiting queue.
  \<^item> \<open>Sched_Gates\<close>, \<open>Gate_Props\<close>: \<^verbatim>\<open>managers/prefill_delayer.py\<close>, \<^verbatim>\<open>min_free_slots_delayer.py\<close>,
    \<^verbatim>\<open>scheduler_recv_skipper.py\<close>, \<^verbatim>\<open>scheduler_input_blocker.py\<close> with its barrier, and the tracker
    of the new-token ratio.
  \<^item> \<open>Req_Finish\<close>, \<open>Finish_Props\<close>: the finish checks of \<^verbatim>\<open>Req\<close> and incremental detokenisation.
  \<^item> \<open>Sampling\<close>: \<^verbatim>\<open>sampling/sampling_params.py\<close>, the parameters of a request; \<open>Stop_Props\<close>: stop
    strings and stop expressions from their preparation to the finish check.
  \<^item> \<open>Retract\<close>, \<open>Retract_Props\<close>, \<open>Retract_Radix\<close>: taking running requests back when a decode step has too little
    memory (\<^verbatim>\<open>check_decode_mem\<close>, \<^verbatim>\<open>retract_decode\<close> and \<^verbatim>\<open>release_req\<close> of \<^verbatim>\<open>managers/schedule_batch.py\<close>); the interface
    \<open>retract_env\<close> is interpreted by the radix cache with any allocator; \<open>Decode_Step\<close>: the allocation for the decode step that
    follows the check.
  \<^item> \<open>Lru_List\<close>, \<open>Lru_Props\<close>: the doubly linked \<^verbatim>\<open>LRUList\<close> of \<^verbatim>\<open>mem_cache/swa_radix_cache.py\<close> behind the interface \<open>recency\<close>.
  \<^item> \<open>Swa_Lock\<close>, \<open>Swa_Lock_Props\<close>, \<open>Swa_Protocol\<close>: the lock protocol of the sliding-window tree in the same file, as a
    step relation; the interface \<open>window_pool\<close> is interpreted by the hybrid allocator.
  \<^item> \<open>Mm_Cache\<close>: \<^verbatim>\<open>mem_cache/multimodal_cache.py\<close>.
  \<^item> \<open>Eplb\<close>, \<open>Eplb_Props\<close>: the balancer of expert parallelism, \<^verbatim>\<open>eplb/eplb_algorithms/deepseek.py\<close>.
  \<^item> \<open>Expert_Update\<close>: moving expert weights between ranks, \<^verbatim>\<open>eplb/expert_location_updater.py\<close>. \<open>Update_Plan\<close>: who sends to whom;
    \<open>Update_Exchange\<close>, \<open>Update_Match\<close>: the operations of two ranks match; \<open>Update_Weights\<close>, \<open>Update_Layers\<close>: what the weights are
    afterwards; \<open>Rebalance\<close>: the balancer and the updater together.
  \<^item> \<open>Examples\<close>, \<open>Req_Examples\<close>, \<open>Sched_Examples\<close>, \<open>Retract_Examples\<close>, \<open>Swa_Examples\<close>, \<open>Update_Examples\<close>: the concrete states the
    properties are instantiated on.

  What is shown, in this order below: the tree is a map from sequences to slots that lookups,
  insertions, locks and evictions respect; the allocators and the hand-over of requests
  neither lose a slot nor give it out twice; the kernels compute what the reference loops
  compute; the lists of last use keep their order, the counts of window locks are the numbers of
  holders and unlocking never fails; the multimodal cache stays within its size; an admitted
  batch can be allocated, retraction makes room for the next decode step without losing a slot, and every request then gets one; the policies permute the queue; the
  gates end their waits and keep the order of requests; finished requests report the right output;
  the expert balancer minimises the largest load and its tables agree, and moving the weights to its maps keeps
  them in step with the metadata.

  Loops that walk the tree carry fuel: the length of the key for the descent, the number of
  nodes made so far for the walks to the root, over the whole tree and for eviction. The lemmas show
  that this is enough: under the invariant every operation returns a value. Floating-point
  estimates of the scheduler and expert loads are rational numbers; slot numbers are unbounded
  integers, but the conversions to 32 bits of the Ascend methods and of \<^verbatim>\<open>alloc_for_decode\<close> are modelled.

  Not modelled: the event loops of \<^verbatim>\<open>managers/scheduler.py\<close> and the processes around it (pure
  input and output), tensors, layers and kernels of the model executor, the hierarchical and Mamba
  variants of the radix cache, matching, insertion and eviction of the sliding-window variant, copies between device
  and host, and disaggregated serving. Collective operations, messages between ranks, clocks, the tokenizer, grammars, regular
  expressions, sorted indices, the iteration order of sets, reads past the end of device tensors and random shuffles are arguments of the definitions that use them.
\<close>

section \<open>The prefix cache\<close>

text \<open>
  C1: looking a key up in a well-formed cache succeeds, leaves the cached sequences as they
  are and returns the slots of the longest page-aligned prefix of the query that is cached.
\<close>

theorem match_prefix_longest:
  assumes "cache_inv c H" "\<not> rc_disable c"
  shows "\<exists>m c'. match_prefix key c = Inr (m, c') \<and> cache_inv c' H \<and> cached c' = cached c \<and>
    conf c' = conf c \<and> length (device_indices m) \<le> rk_len (query c key) \<and>
    rc_page_size c dvd length (device_indices m) \<and>
    (take (length (device_indices m)) (tunits (query c key)), device_indices m) \<in> cached c \<and>
    (\<forall>(u, w) \<in> cached c. prefix u (tunits (query c key)) \<longrightarrow> rc_page_size c dvd length u \<longrightarrow>
       length u \<le> length (device_indices m))"
  by (rule match_inv [OF assms])

theorem match_prefix_longest_witness:
  "cache_inv demo1 {#} \<and> \<not> rc_disable demo1 \<and>
   (\<exists>m c'. match_prefix demo_key demo1 = Inr (m, c') \<and> cached c' = cached demo1 \<and>
     4 \<le> length (device_indices m))"
proof -
  obtain m c' where m: "match_prefix demo_key demo1 = Inr (m, c')" "cached c' = cached demo1"
    "\<forall>(u, w) \<in> cached demo1. prefix u (tunits (query demo1 demo_key)) \<longrightarrow>
      rc_page_size demo1 dvd length u \<longrightarrow> length u \<le> length (device_indices m)"
    using match_prefix_longest [OF demo1_inv demo1_shape(7), of demo_key] by blast
  have "(tunits (query demo1 demo_key), [4, 5, 6, 7]) \<in> cached demo1"
    using demo1_cached by (simp only: demo_query)
  then have "4 \<le> length (device_indices m)" using m(3) by (auto simp: demo_query demo1_shape)
  with m demo1_inv demo1_shape(7) show ?thesis by blast
qed

text \<open>
  C2: inserting a key with one slot per unit refines the union of the cached sequences with
  all prefixes of the key. The reported prefix is the longest page-aligned part that was
  cached before; it keeps its old slots, the rest gets the new ones.
\<close>

theorem insert_refines_union:
  assumes "cache_inv c H" "\<not> rc_disable c" "rk_len (query c key) \<le> length val"
  shows "\<exists>r c' W. rc_insert key (Some val) prio chunked c = Inr (r, c') \<and> cache_inv c' H \<and> conf c' = conf c \<and>
    length W = rk_len (query c key) \<and>
    cached c' = cached c \<union> {(take k (tunits (query c key)), take k W) | k. True} \<and>
    ir_prefix_len r \<le> rk_len (query c key) \<and> rc_page_size c dvd ir_prefix_len r \<and>
    (take (ir_prefix_len r) (tunits (query c key)), take (ir_prefix_len r) W) \<in> cached c \<and>
    drop (ir_prefix_len r) W = drop (ir_prefix_len r) (take (rk_len (query c key)) val) \<and>
    (\<forall>(u, w) \<in> cached c. prefix u (tunits (query c key)) \<longrightarrow> rc_page_size c dvd length u \<longrightarrow>
       length u \<le> ir_prefix_len r)"
  by (rule insert_inv [OF assms])

theorem insert_refines_union_witness:
  "\<exists>r c' W. rc_insert demo_key (Some demo_vals) None False demo0 = Inr (r, c') \<and> cache_inv c' {#} \<and>
     cached c' = cached demo0 \<union> {(take k (tunits (query demo0 demo_key)), take k W) | k. True}"
  using insert_refines_union [OF demo0_inv(1,2), of demo_key demo_vals None False]
  by (auto simp: demo_query demo_vals_def)

text \<open>
  C3: after an insertion, looking the same key up returns one slot per unit of its page-aligned
  part, the inserted slots behind the prefix that was cached before, and the node the insertion
  reported.
\<close>

theorem insert_match_roundtrip:
  assumes "cache_inv c H" "\<not> rc_disable c" "rk_len (query c key) \<le> length val"
    and "rc_insert key (Some val) prio chunked c = Inr (r, c')"
  shows "\<exists>m c''. match_prefix key c' = Inr (m, c'') \<and> cache_inv c'' H \<and> cached c'' = cached c' \<and>
    length (device_indices m) = rk_len (query c key) \<and> Some (last_device_node m) = ir_last_device_node r \<and>
    drop (ir_prefix_len r) (device_indices m) = drop (ir_prefix_len r) (take (rk_len (query c key)) val)"
  by (rule insert_match_inv [OF assms])

theorem insert_match_roundtrip_witness:
  "\<exists>m c'. match_prefix demo_key demo1 = Inr (m, c') \<and> device_indices m = [4, 5, 6, 7] \<and>
     last_device_node m = 1"
  using insert_match_roundtrip [OF demo0_inv(1,2) _ demo_insert]
  by (auto simp: demo_query demo_vals_def)

text \<open>
  C4: with the paged allocator, an eviction of \<open>num\<close> tokens succeeds, frees at least that
  many or everything that is evictable, gives exactly the slots of the removed nodes back to
  the allocator, and keeps every node that is held.
\<close>

theorem evict_paged:
  assumes "cache_inv c H" "\<not> rc_disable c" "paged_inv a" "owns_slots (pgd.used a) (paged_whole a) c"
    "\<And>xs. mset (order xs) = mset xs"
  shows "\<exists>k a' c'. evict paged_free order num a c = Inr (k, a', c') \<and> cache_inv c' H \<and> paged_inv a' \<and>
    owns_slots (pgd.used a') (paged_whole a') c' \<and> owned c' \<subseteq> owned c \<and>
    pgd.used a' = pgd.used a - (owned c - owned c') \<and> cached c' \<subseteq> cached c \<and>
    (\<forall>h u w. h \<in># H \<longrightarrow> reaches c h u w \<longrightarrow> reaches c' h u w) \<and>
    int k = rc_evictable_size c - rc_evictable_size c' \<and> min (int num) (rc_evictable_size c) \<le> int k"
  using pgf.evict_inv [OF assms, of num] by blast

theorem evict_paged_witness:
  "\<exists>k a' c'. evict paged_free rev 3 demo_paged demo1 = Inr (k, a', c') \<and> paged_inv a' \<and> 3 \<le> k \<and>
     rc_evictable_size c' = 4 - int k"
  using evict_paged [OF demo1_inv demo1_shape(7) demo_paged_inv demo_paged_owns, of rev 3]
  by (auto simp: demo1_shape)

text \<open>
  C5: a path that is locked by \<^verbatim>\<open>inc_lock_ref\<close> is still in the tree after every eviction, with
  the same slots, and none of its slots has been given back to the allocator.
\<close>

theorem locked_path_survives_eviction:
  assumes "cache_inv c H" "\<not> rc_disable c" "paged_inv a" "owns_slots (pgd.used a) (paged_whole a) c"
    "\<And>xs. mset (order xs) = mset xs" "reaches c n u w"
  shows "\<exists>d c1 k a' c'. inc_lock_ref n c = Inr (d, c1) \<and> evict paged_free order num a c1 = Inr (k, a', c') \<and>
    cache_inv c' (add_mset n H) \<and> paged_inv a' \<and> reaches c' n u w \<and> set w \<subseteq> pgd.used a'"
  by (rule pgf.lock_then_evict [OF assms])

theorem locked_path_survives_eviction_witness:
  "\<exists>d c1 k a' c'. inc_lock_ref 1 demo1 = Inr (d, c1) \<and> evict paged_free rev 100 demo_paged c1 = Inr (k, a', c') \<and>
     reaches c' 1 (map (Pair None) [Tok 1, Tok 2, Tok 3, Tok 4]) [4, 5, 6, 7] \<and> {4, 5, 6, 7} \<subseteq> pgd.used a'"
proof -
  have "reaches demo1 1 (map (Pair None) [Tok 1, Tok 2, Tok 3, Tok 4]) [4, 5, 6, 7]" by (simp add: demo1_reaches)
  from locked_path_survives_eviction [OF demo1_inv demo1_shape(7) demo_paged_inv demo_paged_owns _ this, of rev 100]
  obtain d c1 k a' c' where "inc_lock_ref 1 demo1 = Inr (d, c1)" "evict paged_free rev 100 demo_paged c1 = Inr (k, a', c')"
    "reaches c' 1 (map (Pair None) [Tok 1, Tok 2, Tok 3, Tok 4]) [4, 5, 6, 7]" "set [4, 5, 6, 7] \<subseteq> pgd.used a'"
    by auto
  then show ?thesis by auto
qed

text \<open>
  C6: locking a node of the tree and unlocking it again is neutral: both calls succeed, the
  reported changes cancel, and all lock counts and both size counters are as before.
\<close>

theorem lock_unlock_roundtrip:
  assumes "cache_inv c H" "reaches c n u w" "\<not> rc_disable c"
  shows "\<exists>d1 c1 d2 c2. inc_lock_ref n c = Inr (d1, c1) \<and> dec_lock_ref n c1 = Inr (d2, c2) \<and>
    cache_inv c1 (add_mset n H) \<and> cache_inv c2 H \<and> d1 + d2 = 0 \<and>
    rc_evictable_size c2 = rc_evictable_size c \<and> rc_protected_size c2 = rc_protected_size c \<and>
    (\<forall>m. lock_ref (nd c2 m) = lock_ref (nd c m))"
proof -
  obtain L P V where inv: "cinv c L P V H" using assms(1) by (auto simp: cache_inv_def)
  have "n \<in> L" using assms(2) reaches_iff [OF cinv_tree [OF inv]] by simp
  from inc_dec_lock_ref [OF inv this assms(3)] show ?thesis unfolding cache_inv_def by blast
qed

theorem lock_unlock_roundtrip_witness:
  "\<exists>d1 c1 d2 c2. inc_lock_ref 1 demo1 = Inr (d1, c1) \<and> dec_lock_ref 1 c1 = Inr (d2, c2) \<and>
     rc_evictable_size c2 = 4 \<and> d1 + d2 = 0"
proof -
  have "reaches demo1 1 (map (Pair None) [Tok 1, Tok 2, Tok 3, Tok 4]) [4, 5, 6, 7]" by (simp add: demo1_reaches)
  from lock_unlock_roundtrip [OF demo1_inv this demo1_shape(7)] show ?thesis by (auto simp: demo1_shape)
qed

text \<open>
  C7: a new cache is well-formed and holds nothing, provided the name of the eviction policy is
  known in some capitalisation; otherwise the constructor raises. With events enabled the
  native page hash has to return one valid hash per page.
\<close>

theorem rc_init_ok:
  assumes "0 < cp_page_size p"
    "cp_enable_kv_cache_events p \<longrightarrow> (\<forall>k h. cp_page_size p dvd rk_len k \<longrightarrow>
       page_hashes (cp_page_size p) k (hash k h (cp_page_size p)))"
  shows "case map_of EVICTION_POLICY_FACTORIES (map lower_char (cp_eviction_policy p)) of
      None \<Rightarrow> rc_init p store counter clock hash = Inl ValueError
    | Some strategy \<Rightarrow> (\<exists>c. rc_init p store counter clock hash = Inr c \<and> cache_inv c {#} \<and>
        cached c = {([], [])} \<and> rc_strategy c = strategy \<and> rc_page_size c = cp_page_size p \<and>
        rc_evictable_size c = 0 \<and> rc_protected_size c = 0)"
proof (cases "map_of EVICTION_POLICY_FACTORIES (map lower_char (cp_eviction_policy p))")
  case (Some strategy)
  then have s: "get_eviction_strategy (map lower_char (cp_eviction_policy p)) = Inr strategy"
    by (simp only: get_eviction_strategy_lower) (simp add: get_eviction_strategy_def)
  have "\<exists>c. rc_init p store counter clock hash = Inr (reset c) \<and> rc_strategy c = strategy \<and>
    rc_page_size c = cp_page_size p \<and> enable_kv_cache_events c = cp_enable_kv_cache_events p \<and> rc_hash c = hash"
    unfolding rc_init_def s rbind_simps by (intro exI conjI, rule refl) simp_all
  then obtain c where c: "rc_init p store counter clock hash = Inr (reset c)" "rc_strategy c = strategy"
    "rc_page_size c = cp_page_size p" "enable_kv_cache_events c = cp_enable_kv_cache_events p" "rc_hash c = hash"
    by blast
  have "cache_inv (reset c) {#} \<and> cached (reset c) = {([], [])}"
    using reset_inv [of c] assms c by (simp add: native_hash_ok_def)
  with Some c show ?thesis by (simp add: reset_rest) (simp add: reset_sizes)
qed (simp add: rc_init_def get_eviction_strategy_def lower_char_idem)

theorem rc_init_ok_witness:
  "\<exists>c. rc_init demo_params (\<lambda>_. blank_node) 7 int (\<lambda>_ _ _. []) = Inr c \<and> cache_inv c {#} \<and>
     cached c = {([], [])} \<and> rc_strategy c = LRUStrategy"
proof -
  have m: "map_of EVICTION_POLICY_FACTORIES (map lower_char (cp_eviction_policy demo_params)) = Some LRUStrategy"
    by code_simp
  show ?thesis
    using rc_init_ok [of demo_params "\<lambda>_ _ _. []" "\<lambda>_. blank_node" 7 int] unfolding m
    by (auto simp: demo_params_def)
qed

section \<open>Keys\<close>

text \<open>
  C8: the galloping comparison of two keys of one namespace returns the length of their longest
  common prefix in logical units, rounded down to whole pages; keys of different namespaces
  raise.
\<close>

theorem rk_match_is_lcp:
  assumes "is_bigram k = is_bigram k'" "0 < ps"
  shows "rk_match k k' ps =
     (if extra_key k \<noteq> extra_key k' then Inl ValueError
      else Inr (page_floor ps (lcp_len (tunits k) (tunits k'))))"
  using rk_match_lcp [OF _ assms] rk_match_incompatible by simp

theorem rk_match_is_lcp_witness:
  "rk_match (RadixKey [1, 2, 3, 4, 5] None False None) (RadixKey [1, 2, 3, 9] None False None) 2 = Inr 2"
  using rk_match_is_lcp [of "RadixKey [1, 2, 3, 4, 5] None False None" "RadixKey [1, 2, 3, 9] None False None" 2]
  by (simp add: tunits_def rk_iter_def raw_len_def page_floor_def)

section \<open>Placing a batch\<close>

text \<open>
  C9: on a batch whose new pages are available, \<^verbatim>\<open>alloc_extend\<close> of the paged allocator returns
  one slot per new token, all different, and position \<open>j\<close> of a sequence always lies at offset
  \<open>j mod page_size\<close> of a page; exactly the new pages are taken off the free list.
\<close>

theorem paged_alloc_extend_places:
  fixes a :: kv_alloc and pres seqs :: "nat list"
  defines "ps \<equiv> ka_page_size a"
  defines "a1 \<equiv> merge_if_short (sum_list (extend_lens pres seqs) div ps + length pres + 1) a"
  assumes "device_ok dv" "extend_batch ps (free_pages a1) pres seqs lasts"
    "well_placed ps (free_pages a1) pres lasts"
  shows "\<exists>out. paged_alloc_extend dv a pres seqs lasts (sum_list (extend_lens pres seqs)) None =
      Inr (Some out, a1\<lparr>free_pages := drop (sum_list (new_pages ps pres seqs)) (free_pages a1)\<rparr>) \<and>
    distinct out \<and> length out = sum_list (extend_lens pres seqs) \<and>
    (\<forall>i < length pres. \<forall>j. pres ! i \<le> j \<and> j < seqs ! i \<longrightarrow>
       out ! (sum_list (take i (extend_lens pres seqs)) + (j - pres ! i)) mod int ps = int (j mod ps))"
  using paged_alloc_extend_ok [OF assms(3) assms(4,5) [unfolded ps_def a1_def]]
    distinct_batch_locs [OF assms(4,5)] length_batch_locs [of seqs pres] batch_locs_offset [OF assms(4,5)] assms(4)
  by (auto simp: ps_def a1_def extend_batch_def)

theorem paged_alloc_extend_places_witness:
  "\<exists>out a'. paged_alloc_extend demo_device demo_paged [3, 0] [6, 1] [6, -1] 4 None = Inr (Some out, a') \<and>
     distinct out \<and> length out = 4"
proof -
  have p: "ka_page_size demo_paged = 2" "free_pages demo_paged = [1, 4, 5, 6, 7, 8]"
    by (simp_all add: demo_paged_def paged_init_def paged_clear_def base_init_def)
  have m: "merge_if_short n demo_paged = demo_paged" if "n \<le> 6" for n
    using that by (simp add: merge_if_short_id p)
  have "extend_batch 2 [1, 4, 5, 6, 7, 8] [3, 0] [6, 1] [6, -1]" "well_placed 2 [1, 4, 5, 6, 7, 8] [3, 0] [6, -1]"
    by (simp_all add: batch_eval)
  then show ?thesis
    using paged_alloc_extend_places [OF demo_device_ok, of demo_paged "[3, 0]" "[6, 1]" "[6, -1]"]
    by (auto simp: p m extend_lens_def)
qed

text \<open>
  C10: the Ascend allocator and the paged allocator agree on \<^verbatim>\<open>alloc_extend\<close>, although the Ascend
  code runs a different kernel for few new pages, the reference loop on a 32-bit output for many,
  and returns 32-bit indices. They place a batch at the same slots and keep the same free pages when
  every slot concerned fits 32 bits and, with \<^verbatim>\<open>need_sort\<close>, when their different estimates (the new
  pages there, \<^verbatim>\<open>extend_num_tokens // page_size + bs + 1\<close> here) both or neither exceed the free pages, so
  that both or neither put the released pages back.
\<close>

theorem npu_alloc_extend_equiv:
  fixes a :: kv_alloc and pres seqs :: "nat list"
  defines "ps \<equiv> ka_page_size a"
  defines "n \<equiv> sum_list (new_pages ps pres seqs)"
  defines "a1 \<equiv> merge_if_short n a"
  assumes "device_ok dv" "extend_batch ps (free_pages a1) pres seqs lasts"
    "well_placed ps (free_pages a1) pres lasts" "fits_int32 ps (free_pages a1) lasts"
    "ka_need_sort a \<longrightarrow> (length (free_pages a) < n \<longleftrightarrow>
       length (free_pages a) < sum_list (extend_lens pres seqs) div ps + length pres + 1)"
  shows "npu_alloc_extend dv a pres seqs lasts (sum_list (extend_lens pres seqs)) None =
    paged_alloc_extend dv a pres seqs lasts (sum_list (extend_lens pres seqs)) None"
proof -
  have m: "merge_if_short (sum_list (extend_lens pres seqs) div ps + length pres + 1) a = a1"
    using assms(8) by (auto simp: a1_def merge_if_short_def)
  show ?thesis
    using npu_alloc_extend_ok [OF assms(4-7) [unfolded a1_def n_def ps_def]]
      paged_alloc_extend_ok [OF assms(4), of a pres seqs lasts, folded ps_def, unfolded m, OF assms(5,6)]
    by (simp only: ps_def [symmetric] n_def [symmetric] a1_def [symmetric])
qed

theorem npu_alloc_extend_equiv_witness:
  "npu_alloc_extend demo_device demo_paged [3, 0] [6, 1] [6, -1] 4 None =
   paged_alloc_extend demo_device demo_paged [3, 0] [6, 1] [6, -1] 4 None"
proof -
  have "extend_batch 2 [1, 4, 5, 6, 7, 8] [3, 0] [6, 1] [6, -1]" "well_placed 2 [1, 4, 5, 6, 7, 8] [3, 0] [6, -1]"
    "fits_int32 2 [1, 4, 5, 6, 7, 8] [6, -1]"
    by (simp_all add: batch_eval fits_int32_def)
  moreover have "ka_page_size demo_paged = 2" "free_pages demo_paged = [1, 4, 5, 6, 7, 8]"
    by (simp_all add: demo_paged_def paged_init_def paged_clear_def base_init_def)
  moreover have "sum_list (new_pages 2 [3, 0] [6, 1]) = 2" by (simp add: new_pages_def ceil_div_def)
  ultimately show ?thesis
    using npu_alloc_extend_equiv [of demo_device demo_paged "[3, 0]" "[6, 1]" "[6, -1]"] demo_device_ok
    by (simp add: extend_lens_def merge_if_short_id)
qed

text \<open>
  C11: the Triton kernel, one program instance per request in any order and with any value in
  the masked lanes (the same in the two loads, whose masked lanes then need no page), stores what the sequential reference loop stores.
\<close>

theorem extend_kernel_equals_naive:
  assumes "extend_batch ps fp pres seqs lasts" "length out = sum_list (extend_lens pres seqs)"
    "set schedule = {0 ..< length pres}"
  shows "alloc_extend_naive pres seqs lasts fp out ps =
    Inr (launch (extend_kernel masked garbage pres seqs lasts fp (next_power_of_2 (length pres)) ps) schedule out)"
proof -
  have "launch (extend_kernel masked garbage pres seqs lasts fp (next_power_of_2 (length pres)) ps) schedule out =
    batch_locs ps fp pres seqs lasts"
    using assms le_next_power_of_2 [of "length pres"] by (intro launch_ok extend_kernel_stores) auto
  then show ?thesis using alloc_extend_naive_ok [OF assms(1,2)] by simp
qed

theorem extend_kernel_equals_naive_witness:
  "alloc_extend_naive [3, 0] [6, 1] [6, -1] [1, 4, 5] [0, 0, 0, 0] 2 =
    Inr (launch (extend_kernel (\<lambda>_. 9) (\<lambda>_. 0) [3, 0] [6, 1] [6, -1] [1, 4, 5] 2 2) [1, 0] [0, 0, 0, 0])"
proof -
  have "extend_batch 2 [1, 4, 5] [3, 0] [6, 1] [6, -1]"
    by (simp add: batch_eval)
  moreover have "next_power_of_2 2 = 2" by (simp add: next_power_of_2_def bit_length.simps)
  moreover have "{1, 0} = {0 ..< 2 :: nat}" by auto
  ultimately show ?thesis
    using extend_kernel_equals_naive [of 2 "[1, 4, 5]" "[3, 0]" "[6, 1]" "[6, -1]" "[0, 0, 0, 0]" "[1, 0]" "\<lambda>_. 9" "\<lambda>_. 0"]
    by (simp add: extend_lens_def numeral_2_eq_2)
qed



section \<open>The life of a request\<close>

text \<open>
  C13: with any of the allocators, when a request finishes, \<^verbatim>\<open>cache_finished_req\<close> gives every slot it owns alone either to the
  tree (the set \<open>N\<close>) or back to the allocator with the pages it occupies: the allocated slots
  shrink by exactly the pages that did not enter the tree, nothing cached is lost, the request's
  lock is returned, and without insertion the tree gets nothing.
\<close>

theorem finished_req_conserves:
  assumes "al.sound cls c H a" "\<not> rc_disable c" "\<not> kv_committed_freed r"
    and "toks = take (cache_commit_len strip r) (origin_input_ids r @ output_ids r)"
    and "req_row pool r (length toks) = Inr kv" "length kv = length toks"
    and "rc_page_size c dvd cache_protected_len r" "cache_protected_len r \<le> rk_len (cache_key c r toks)"
      "(take (cache_protected_len r) (tunits (cache_key c r toks)), w0) \<in> cached c"
    and "al.exclusive cls c a (cache_protected_len r) kv" "set_option (last_node r) \<subseteq> set_mset H"
  shows "\<exists>a' c' N. cache_finished_req (al_free cls) strip pool ins r a c = Inr (r\<lparr>kv_committed_freed := True\<rparr>, a', c') \<and>
    al.sound cls c' (case last_node r of None \<Rightarrow> H | Some n \<Rightarrow> H - {#n#}) a' \<and>
    owned c' = owned c \<union> N \<and> N \<subseteq> set (drop (cache_protected_len r) kv) \<and>
    al_used cls a' = al_used cls a - (paged_cover a (set (drop (cache_protected_len r) kv)) - N) \<and>
    cached c \<subseteq> cached c' \<and> (\<not> ins \<or> disable_finished_insert c \<longrightarrow> N = {})"
  using al.finish_ok [OF assms, of ins] by blast

theorem finished_req_conserves_witness:
  "\<exists>r' a' c' N. cache_finished_req (al_free PagedAllocator) False demo_pool True demo_req demo_paged demo0 = Inr (r', a', c') \<and>
     al.sound PagedAllocator c' {#} a' \<and> owned c' = N \<and> N \<subseteq> {4, 5, 6} \<and> al_used PagedAllocator a' = {4, 5, 6, 7} - ({4, 5, 6, 7} - N)"
proof -
  obtain a' c' N where "cache_finished_req (al_free PagedAllocator) False demo_pool True demo_req demo_paged demo0 =
      Inr (demo_req\<lparr>kv_committed_freed := True\<rparr>, a', c')"
    "al.sound PagedAllocator c' (case last_node demo_req of None \<Rightarrow> {#0#} | Some n \<Rightarrow> {#0#} - {#n#}) a'"
    "owned c' = owned demo0 \<union> N" "N \<subseteq> set (drop (cache_protected_len demo_req) [4, 5, 6])"
    "al_used PagedAllocator a' = al_used PagedAllocator demo_paged - (paged_cover demo_paged (set (drop (cache_protected_len demo_req) [4, 5, 6])) - N)"
    using finished_req_conserves [OF demo0_sound demo0_inv(2) demo_live(1) demo_toks demo_row(1,2) demo_protected demo_exclusive(1)
      demo_lock, of True] by (elim exE conjE) (rule that)
  then show ?thesis by (simp add: demo_fields owned_demo0 demo_al_used demo_cover)
qed

text \<open>
  C14: after a chunk of prefill or before decoding, \<^verbatim>\<open>cache_unfinished_req\<close> puts the request's full
  pages into the tree and lets it continue on the tree's slots: its row now starts with the slots
  the tree holds for its tokens, the rest of the row still belongs to it alone, its lock has
  moved to the node of its last full page, and slots of other requests are not touched.
\<close>

theorem unfinished_req_hands_over:
  assumes "al.sound cls c H a" "\<not> rc_disable c" "req_pool_idx r = Some i" "i < length (req_to_token pool)"
    and "kv = take (length (get_fill_ids r)) (req_to_token pool ! i)" "length kv = length (get_fill_ids r)"
    and "rc_page_size c dvd cache_protected_len r"
      "cache_protected_len r \<le> rk_len (cache_key c r (get_fill_ids r))"
      "(take (cache_protected_len r) (tunits (cache_key c r (get_fill_ids r))), take (cache_protected_len r) kv) \<in> cached c"
    and "al.exclusive cls c a (cache_protected_len r) kv" "last_node r = Some lnode" "lnode \<in># H"
    and "n = rk_len (cache_key c r (get_fill_ids r))"
  shows "\<exists>r' pool' a' c' node new. cache_unfinished_req (al_free cls) chunked pool r a c = Inr (r', pool', a', c') \<and>
    al.sound cls c' (add_mset node (H - {#lnode#})) a' \<and> last_node r' = Some node \<and> cache_protected_len r' = n \<and>
    (tunits (cache_key c r (get_fill_ids r)), new) \<in> cached c' \<and> length new = n \<and>
    prefix_indices r' = new @ drop n kv \<and> al.exclusive cls c' a' n (new @ drop n kv) \<and>
    req_to_token pool' = (req_to_token pool)[i := new @ drop n (req_to_token pool ! i)] \<and> cached c \<subseteq> cached c' \<and>
    (\<forall>X \<subseteq> al_used cls a - owned c. X \<inter> paged_cover a (set (drop (cache_protected_len r) kv)) = {} \<longrightarrow>
       X \<subseteq> al_used cls a' - owned c')"
  unfolding assms(13) using al.unfinish_ok [OF assms(1-12), of chunked]
  by (elim exE conjE) (intro exI conjI; assumption)

theorem unfinished_req_hands_over_witness:
  "\<exists>r' pool' a' c' node new. cache_unfinished_req (al_free PagedAllocator) True demo_pool demo_req demo_paged demo0 = Inr (r', pool', a', c') \<and>
     al.sound PagedAllocator c' {#node#} a' \<and> last_node r' = Some node \<and> cache_protected_len r' = 2 \<and> length new = 2 \<and>
     prefix_indices r' = new @ [6] \<and> al.exclusive PagedAllocator c' a' 2 (new @ [6])"
proof -
  obtain r' pool' a' c' node new where
    "cache_unfinished_req (al_free PagedAllocator) True demo_pool demo_req demo_paged demo0 = Inr (r', pool', a', c')"
    "al.sound PagedAllocator c' (add_mset node ({#0#} - {#0#})) a'" "last_node r' = Some node" "cache_protected_len r' = 2"
    "length new = 2" "prefix_indices r' = new @ drop 2 [4, 5, 6]" "al.exclusive PagedAllocator c' a' 2 (new @ drop 2 [4, 5, 6])"
    using unfinished_req_hands_over [OF demo0_sound demo0_inv(2) demo_index demo_fill_row demo_fill_protected demo_exclusive(1)
      demo_last demo_key_len, of True] by (elim exE conjE) (rule that)
  then show ?thesis by simp
qed

text \<open>
  C15: \<^verbatim>\<open>release_kv_cache\<close> leaves nothing behind. The request loses its row, which goes back to the
  pool; every slot it owned alone, committed or over-allocated by speculative decoding, ends in
  the tree or in the allocator; pages that hold committed and over-allocated slots are freed once.
\<close>

theorem release_kv_cache_complete:
  assumes "al.sound cls c H a" "\<not> rc_disable c" "\<not> kv_committed_freed r" "\<not> kv_overallocated_freed r"
    and "req_pool_idx r = Some i" "i < length (req_to_token pool)" "rows_inv pool (i # others)"
    and "full = take (kv_allocated_len r) (req_to_token pool ! i)" "length full = kv_allocated_len r"
    and "n = cache_commit_len (strip_thinking_cache sa) r" "n \<le> kv_allocated_len r" "n \<le> seqlen r"
    and "toks = take n (origin_input_ids r @ output_ids r)" "sa_page_size sa = rc_page_size c"
    and "rc_page_size c dvd cache_protected_len r" "cache_protected_len r \<le> rk_len (cache_key c r toks)"
      "(take (cache_protected_len r) (tunits (cache_key c r toks)), w0) \<in> cached c"
    and "al.exclusive cls c a (cache_protected_len r) full" "al.same_page a (rc_page_size c) (cache_protected_len r) full"
    and "set_option (last_node r) \<subseteq> set_mset H"
    and "speculative_algorithm sa = None \<and> \<not> strip_thinking_cache sa \<longrightarrow> n = kv_allocated_len r"
  shows "\<exists>r' pool' a' c' N.
    release_kv_cache (cache_finished_req (al_free cls) (strip_thinking_cache sa) pool) (al_free cls) sa ins r pool a c =
      Inr (r', pool', a', c') \<and> req_pool_idx r' = None \<and> rows_inv pool' others \<and>
    al.sound cls c' (case last_node r of None \<Rightarrow> H | Some m \<Rightarrow> H - {#m#}) a' \<and> owned c' = owned c \<union> N \<and>
    N \<subseteq> set (drop (cache_protected_len r) full) \<and>
    al_used cls a' = al_used cls a - (paged_cover a (set (drop (cache_protected_len r) full)) - N) \<and> cached c \<subseteq> cached c'"
  using al.release_req_ok [OF assms(1-20), of ins] assms(21) by blast

theorem release_kv_cache_complete_witness:
  "\<exists>r' pool' a' c' N.
     release_kv_cache (cache_finished_req (al_free PagedAllocator) False demo_pool) (al_free PagedAllocator) demo_args True demo_req demo_pool
       demo_paged demo0 = Inr (r', pool', a', c') \<and>
     req_pool_idx r' = None \<and> rows_inv pool' [] \<and> owned c' = N \<and> N \<subseteq> {4, 5, 6, 7} \<and> al_used PagedAllocator a' = N"
proof -
  obtain r' pool' a' c' N where
    "release_kv_cache (cache_finished_req (al_free PagedAllocator) (strip_thinking_cache demo_args) demo_pool) (al_free PagedAllocator) demo_args True demo_req
       demo_pool demo_paged demo0 = Inr (r', pool', a', c')" "req_pool_idx r' = None" "rows_inv pool' []"
    "owned c' = owned demo0 \<union> N" "N \<subseteq> set (drop (cache_protected_len demo_req) [4, 5, 6, 7])"
    "al_used PagedAllocator a' = al_used PagedAllocator demo_paged - (paged_cover demo_paged (set (drop (cache_protected_len demo_req) [4, 5, 6, 7])) - N)"
    using release_kv_cache_complete [OF demo0_sound demo0_inv(2) demo_live demo_index demo_rows demo_full demo_committed demo_release_toks
      demo_page_size demo_protected demo_exclusive(2) demo_same_page demo_lock demo_spec, of True] by (elim exE conjE) (rule that)
  then show ?thesis by (simp add: demo_fields owned_demo0 demo_al_used demo_cover Diff_Diff_Int inf.absorb2)
qed

text \<open>
  C16: allocation with eviction cannot fail while there is room. \<^verbatim>\<open>alloc_token_slots\<close> with the token
  allocator and a radix cache returns as many new, distinct slots as were asked for exactly when the free slots and the
  evictable tokens together are enough, and raises otherwise; what it takes from the tree is
  freed exactly once, and no locked path is touched.
\<close>

theorem alloc_token_slots_succeeds:
  assumes "tkr.sound N c H a" "\<not> rc_disable c" "\<And>xs. mset (order xs) = mset xs"
  shows "if num \<le> token_available_size a + nat (rc_evictable_size c)
    then (\<exists>ix st a' c'. alloc_token_slots TokenAllocator order num backup a (RadixTree c) = Inr ((ix, st), a', RadixTree c') \<and>
      length ix = num \<and> distinct ix \<and> set ix \<subseteq> tok.used a' - owned c' \<and> tkr.sound N c' H a' \<and>
      tok.used a' = tok.used a - (owned c - owned c') \<union> set ix \<and> set ix \<inter> (tok.used a - (owned c - owned c')) = {} \<and>
      (\<forall>h u w. h \<in># H \<longrightarrow> reaches c h u w \<longrightarrow> reaches c' h u w))
    else alloc_token_slots TokenAllocator order num backup a (RadixTree c) = Inl RuntimeError"
  by (rule alloc_token_slots_ok [OF assms])

theorem alloc_token_slots_succeeds_witness:
  "(\<exists>ix st a' c'. alloc_token_slots TokenAllocator (\<lambda>xs. xs) 7 False demo_token (RadixTree demo1) = Inr ((ix, st), a', RadixTree c') \<and>
     length ix = 7 \<and> distinct ix) \<and>
   alloc_token_slots TokenAllocator (\<lambda>xs. xs) 9 False demo_token (RadixTree demo1) = Inl RuntimeError"
proof -
  have "token_available_size demo_token = 4"
    by (simp add: demo_token_def token_init_def token_clear_def base_init_def token_available_size_def)
  moreover have "rc_evictable_size demo1 = 4" by (simp add: demo1_shape)
  ultimately show ?thesis
    using alloc_token_slots_succeeds [OF demo_token_sound demo1_shape(7), of "\<lambda>xs. xs" 7 False]
      alloc_token_slots_succeeds [OF demo_token_sound demo1_shape(7), of "\<lambda>xs. xs" 9 False] by auto
qed

section \<open>Sliding windows\<close>

text \<open>
  C17: \<^verbatim>\<open>free_swa_out_of_window_slots\<close> on the hybrid allocator releases the partners of the positions
  between the old and the new mark of the request and nothing else: the mark never moves back,
  stays page aligned, and moves at most to the start of the window (\<open>e1\<close> is at most
  \<open>pre_len - window\<close> when it moves), so every position inside the window keeps its partner.
\<close>

theorem window_keeps_partners:
  assumes "swa_inv s" "sw_page_size s = ps" "0 \<le> window"
    and "req_pool_idx r = Some i" "i < length (req_to_token pool)"
    and "row = take n (req_to_token pool ! i)" "n \<le> length (req_to_token pool ! i)" "pre_len \<le> int n"
    and "distinct row" "set row \<subseteq> full_used s" "page_blocks ps (\<lambda>X. pages_slots s X = X) 0 row"
    and "cache_protected_len r mod ps = 0" "int ps dvd swa_evicted_seqlen r" "0 \<le> swa_evicted_seqlen r"
  shows "\<exists>s' e0 e1. free_swa_out_of_window_slots free_swa pre_len window ps chunk pool r s =
      Inr (r\<lparr>swa_evicted_seqlen := e1\<rparr>, s') \<and> swa_inv s' \<and> full_used s' = full_used s \<and>
    mapped s' = mapped s - set (slice (nat e0) (nat e1) row) \<and> (\<forall>i \<in> mapped s'. mp s' i = mp s i) \<and>
    swa_evicted_seqlen r \<le> e0 \<and> int (cache_protected_len r) \<le> e0 \<and> e0 \<le> e1 \<and> int ps dvd e1 \<and>
    (e0 < e1 \<longrightarrow> e1 \<le> pre_len - window)"
proof -
  have ps0: "0 < ps" using assms(1,2) by (simp add: swa_inv_def swa_shape_def)
  note b = window_end_bounds [OF window_floor_dvd [OF assms(12,13) ps0] ps0 assms(3), of chunk pre_len]
  show ?thesis using window_release_ok [OF assms, of chunk] b window_floor_ge [OF ps0, of r] by blast
qed

theorem window_keeps_partners_witness:
  "\<exists>s' e0 e1. free_swa_out_of_window_slots free_swa 3 1 1 True demo_swa_pool demo_req demo_swa =
      Inr (demo_req\<lparr>swa_evicted_seqlen := e1\<rparr>, s') \<and> swa_inv s' \<and> full_used s' = {1, 2, 3} \<and>
    mapped s' = {1, 2, 3} - set (slice (nat e0) (nat e1) [1, 2, 3])"
proof -
  have ps: "sw_page_size demo_swa = 1" by (simp add: demo_swa_def)
  have i: "req_pool_idx demo_req = Some 1" "1 < length (req_to_token demo_swa_pool)"
    and row: "[1, 2, 3] = take 3 (req_to_token demo_swa_pool ! 1)" "3 \<le> length (req_to_token demo_swa_pool ! 1)"
    and r: "cache_protected_len demo_req mod 1 = 0" "int 1 dvd swa_evicted_seqlen demo_req" "0 \<le> swa_evicted_seqlen demo_req"
    by (simp_all add: demo_swa_pool_def demo_req_def)
  have slots: "set [1, 2, 3] \<subseteq> full_used demo_swa" "page_blocks 1 (\<lambda>X. pages_slots demo_swa X = X) 0 [1, 2, 3 :: int]"
    by (simp_all add: demo_swa_sets page_blocks_def pages_slots_1 [OF ps])
  obtain s' e0 e1 where "free_swa_out_of_window_slots free_swa 3 1 1 True demo_swa_pool demo_req demo_swa =
      Inr (demo_req\<lparr>swa_evicted_seqlen := e1\<rparr>, s')" "swa_inv s'" "full_used s' = full_used demo_swa"
    "mapped s' = mapped demo_swa - set (slice (nat e0) (nat e1) [1, 2, 3])"
    using window_keeps_partners [OF demo_swa_inv ps _ i row _ _ slots r, of 1 3 True] by (auto)
  then show ?thesis by (auto simp: demo_swa_sets)
qed

section \<open>Locks and orders of last use\<close>

text \<open>
  C18: the doubly linked \<^verbatim>\<open>LRUList\<close> implements a list of nodes ordered by last use. Read along its
  \<^verbatim>\<open>next\<close> pointers, a use moves the node to the front, an insertion puts a new node there, a removal
  takes it out and changes nothing else; the searches for a victim return the node nearest to the end that
  is not locked (and has no children), and the recomputed evictable size counts the nodes without locks.
\<close>

theorem lru_list_refines:
  assumes "lru_inv ni l" "n \<in> set (lru_order l)" "m \<notin> set (lru_order l)" "m \<noteq> lru_head l" "m \<noteq> lru_tail l"
    "is_swa_list l \<longrightarrow> \<not> ni_tombstone ni m" "head_plain ni l"
  shows "(\<exists>l'. reset_node_mru ni n l = Inr l' \<and> lru_inv ni l' \<and> lru_order l' = n # remove1 n (lru_order l)) \<and>
    (\<exists>l'. insert_mru ni m l = Inr l' \<and> lru_inv ni l' \<and> lru_order l' = m # lru_order l) \<and>
    (\<exists>l'. lru_remove_node ni n l = Inr l' \<and> lru_inv ni l' \<and> lru_order l' = remove1 n (lru_order l)) \<and>
    get_lru_no_lock ni l = Inr (find (\<lambda>x. ni_lock_ref ni x \<le> 0) (rev (lru_order l))) \<and>
    get_leaf_lru_no_lock ni l = Inr (find (\<lambda>x. ni_lock_ref ni x \<le> 0 \<and> ni_children ni x = 0) (rev (lru_order l))) \<and>
    sanity_check_evictable_size ni l = Inr (sum_list (map (ni_value_len ni) (filter (\<lambda>x. ni_lock_ref ni x \<le> 0) (lru_order l))))"
  using reset_node_mru_ok [OF assms(1,2)] insert_mru_ok [OF assms(1,3-6)] lru_remove_node_ok [OF assms(1,2)]
    get_lru_no_lock_ok [OF assms(1,7)] evictable_size_ok [OF assms(1,7)] by blast

theorem lru_list_refines_witness:
  "(\<exists>l'. reset_node_mru demo_info 3 demo_lru = Inr l' \<and> lru_order l' = [3, 1, 2]) \<and> (\<exists>l'. insert_mru demo_info 4 demo_lru = Inr l' \<and> lru_order l' = [4, 1, 2, 3]) \<and>
    get_lru_no_lock demo_info demo_lru = Inr (Some 2) \<and> sanity_check_evictable_size demo_info demo_lru = Inr 9"
  using lru_list_refines [OF demo_lru_ok(1), of 3 4] demo_lru_ok by (auto simp: demo_info_def)

text \<open>
  C19: the lock protocol of the sliding-window tree. However requests lock nodes, give up their window
  early and unlock, on the hybrid allocator, the two lock counts of a node are the numbers of
  requests that hold it, on their way to the root and inside their window; so a window lock is never
  without a full lock, nothing in a held window is a tombstone, and the four sizes are the sums of the slots over
  the nodes that are locked and that are not, of each kind (a tombstone has no window slots).
\<close>

theorem window_locks_counted:
  assumes "(swa_step free_swa N)\<^sup>*\<^sup>* (s0, a0, {#}) (s, a, Hs)" "window_inv N s0 {#}" "swa_inv a0"
    "\<forall>n \<in> N. window_values (size_full a0) (sw_page_size a0) (st_value s0 n)"
  shows "swa_inv a \<and> (\<forall>n \<in> N. full_lock_ref s n = int (size {#h \<in># Hs. n \<in> set (path s (h_node h))#}) \<and>
      swa_lock_ref s n = int (size {#h \<in># Hs. n \<in> set (swa_part s h)#}) \<and> swa_lock_ref s n \<le> full_lock_ref s n) \<and>
    (\<forall>h \<in># Hs. \<forall>n \<in> set (swa_part s h). \<not> swa_tombstone s n) \<and>
    full_protected_size s = (\<Sum>n\<in>N. if 0 < full_lock_ref s n then int (length (st_value s n)) else 0) \<and>
    full_evictable_size s = (\<Sum>n\<in>N. if 0 < full_lock_ref s n then 0 else int (length (st_value s n))) \<and>
    swa_protected_size s = (\<Sum>n\<in>N. if 0 < swa_lock_ref s n then int (length (st_value s n)) else 0) \<and>
    swa_evictable_size s = (\<Sum>n\<in>N. if swa_tombstone s n \<or> 0 < swa_lock_ref s n then 0 else int (length (st_value s n)))"
proof -
  have "swp.run_inv (size_full a0) (sw_page_size a0) N (s, a, Hs)"
    by (rule swp.swa_run_inv [OF assms(1)]) (use assms(2-4) in \<open>simp add: swp.run_inv_def\<close>)
  then have i: "window_inv N s Hs" "swa_inv a" by (simp_all add: swp.run_inv_def)
  note D = window_inv_D [OF i(1)]
  note sizes = D(3) [unfolded swa_sizes_ok_def part_defs [abs_def]]
  have "(\<Sum>n\<in>N. value_len s n - full_part s n) = (\<Sum>n\<in>N. if 0 < full_lock_ref s n then 0 else value_len s n)"
    by (intro sum.cong) (simp_all add: part_defs)
  with sizes have "full_evictable_size s = (\<Sum>n\<in>N. if 0 < full_lock_ref s n then 0 else value_len s n)"
    by (simp add: part_defs)
  then show ?thesis
    using i(2) D(7) D(8,9) [unfolded holds_full_def [abs_def] holds_swa_def [abs_def]] swa_le_full [OF i(1)]
      sizes by blast
qed

theorem window_locks_counted_witness:
  "\<exists>u s. swa_inc_lock_ref 2 demo_tree = Inr (u, s) \<and> full_lock_ref s 1 = 1 \<and> swa_lock_ref s 1 \<le> 1 \<and> \<not> swa_tombstone s 2"
proof -
  let ?h = "\<lambda>u. \<lparr>h_node = 2, h_uuid = u, h_swa = True\<rparr>"
  obtain u s where s: "swa_inc_lock_ref 2 demo_tree = Inr (u, s)" "swa_step free_swa {1, 2} (demo_tree, demo_swa, {#}) (s, demo_swa, {#?h u#})"
    "swa_part s (?h u) = [2, 1]" using demo_tree_lock by blast
  from window_locks_counted [OF r_into_rtranclp [of "swa_step free_swa {1, 2}", OF s(2)] demo_tree_inv demo_swa_inv demo_tree_values]
  have "full_lock_ref s 1 = int (size {#h \<in># {#?h u#}. 1 \<in> set (path s (h_node h))#})" "swa_lock_ref s 1 \<le> full_lock_ref s 1" "\<not> swa_tombstone s 2"
    using s(3) by auto
  moreover have "1 \<in> set (path s 2)" using swa_part_subset [of s "?h u"] s(3) by auto
  ultimately show ?thesis using s(1) by auto
qed

text \<open>
  C20: in every reachable state of that protocol each request can unlock, and a request that still holds its window
  can give it up, without an assertion failing or an error of the allocator; what a released window turns
  into tombstones is held by no other window.
\<close>

theorem window_unlock_succeeds:
  assumes "(swa_step free_swa N)\<^sup>*\<^sup>* (s0, a0, {#}) (s, a, add_mset h Hs)" "window_inv N s0 {#}" "swa_inv a0"
    "\<forall>n \<in> N. window_values (size_full a0) (sw_page_size a0) (st_value s0 n)"
  shows "(\<exists>s'. swa_dec_lock_ref (h_node h) (h_uuid h) (\<not> h_swa h) s = Inr s' \<and> window_inv N s' Hs) \<and>
    (h_swa h \<longrightarrow> (\<exists>s' a'. dec_swa_lock_only free_swa (h_node h) (h_uuid h) s a = Inr (s', a') \<and> swa_inv a' \<and>
      window_inv N s' (add_mset (h\<lparr>h_swa := False\<rparr>) Hs) \<and> full_lock_ref s' = full_lock_ref s \<and>
      (\<forall>n. swa_tombstone s' n \<longrightarrow> swa_tombstone s n \<or> swa_lock_ref s' n = 0)))"
proof -
  have "swp.run_inv (size_full a0) (sw_page_size a0) N (s, a, add_mset h Hs)"
    by (rule swp.swa_run_inv [OF assms(1)]) (use assms(2-4) in \<open>simp add: swp.run_inv_def\<close>)
  then have i: "window_inv N s (add_mset h Hs)" "swa_inv a \<and> size_full a = size_full a0 \<and> sw_page_size a = sw_page_size a0"
    "\<forall>n \<in> N. window_values (size_full a0) (sw_page_size a0) (st_value s n)" by (simp_all add: swp.run_inv_def)
  show ?thesis using dec_lock_ok [OF i(1)] swp.dec_swa_only_ok [OF i(1) _ i(2,3)] by blast
qed

theorem window_unlock_succeeds_witness:
  "\<exists>u s s' a'. swa_inc_lock_ref 2 demo_tree = Inr (u, s) \<and> dec_swa_lock_only free_swa 2 u s demo_swa = Inr (s', a') \<and> swa_inv a' \<and>
    full_lock_ref s' = full_lock_ref s"
proof -
  obtain u s where s: "swa_inc_lock_ref 2 demo_tree = Inr (u, s)"
    "swa_step free_swa {1, 2} (demo_tree, demo_swa, {#}) (s, demo_swa, {#\<lparr>h_node = 2, h_uuid = u, h_swa = True\<rparr>#})" using demo_tree_lock by blast
  from window_unlock_succeeds [OF r_into_rtranclp [of "swa_step free_swa {1, 2}", OF s(2)] demo_tree_inv demo_swa_inv demo_tree_values]
  show ?thesis using s(1) by auto
qed

text \<open>
  C21: the cache of multimodal embeddings, in every state that calls of its methods can reach: the keys are
  distinct, the size it keeps is the sum of the sizes of its entries, and it never exceeds the maximum.
\<close>

theorem mm_cache_bounded:
  assumes "(mm_step py_hash)\<^sup>*\<^sup>* (mm_init mx) c" "0 \<le> mx"
  shows "distinct (map fst (mm_entries c)) \<and> mm_current_size c = sum_list (map (\<lambda>e. get_tensor_size (snd e)) (mm_entries c)) \<and>
    mm_current_size c \<le> mx"
  using mm_run_inv [OF assms] by (simp add: mm_inv_def)

theorem mm_cache_bounded_witness:
  "mm_current_size (snd (mm_set (Some 1) \<lparr>element_size = 2, numel = 3, tensor_data = []\<rparr> (mm_init 10))) \<le> 10"
proof -
  have "(mm_step sum_list)\<^sup>*\<^sup>* (mm_init 10) (snd (mm_set (Some 1) \<lparr>element_size = 2, numel = 3, tensor_data = []\<rparr> (mm_init 10)))"
    by (intro r_into_rtranclp step_set)
  from mm_cache_bounded [OF this] show ?thesis by simp
qed

text \<open>
  C22: \<^verbatim>\<open>MultiModalStaticCache.set\<close> with a new key evicts the shortest run of least recently used
  entries that makes room and appends the new one. It refuses exactly the embeddings that are larger
  than the whole cache, but only after it has evicted everything.
\<close>

theorem mm_set_evicts_oldest:
  assumes "mm_inv c" "\<not> mm_has k c" "0 \<le> mm_max_size c"
  shows "\<exists>n c'. mm_set k e c = (get_tensor_size e \<le> mm_max_size c, c') \<and> mm_inv c' \<and>
    (if get_tensor_size e \<le> mm_max_size c then mm_entries c' = drop n (mm_entries c) @ [(k, e)] else mm_entries c' = []) \<and>
    (\<forall>j < n. mm_max_size c < sum_list (map (\<lambda>e. get_tensor_size (snd e)) (drop j (mm_entries c))) + get_tensor_size e)"
  using mm_set_new [OF assms, of e] by (elim exE conjE) (rule exI, rule exI, auto)

theorem mm_set_evicts_oldest_witness:
  "\<exists>c'. mm_set None \<lparr>element_size = 4, numel = 3, tensor_data = []\<rparr>
      (snd (mm_set (Some 1) \<lparr>element_size = 2, numel = 3, tensor_data = []\<rparr> (mm_init 10))) = (False, c') \<and> mm_entries c' = []"
proof -
  let ?c = "snd (mm_set (Some 1) \<lparr>element_size = 2, numel = 3, tensor_data = []\<rparr> (mm_init 10))"
  have c: "?c = \<lparr>mm_max_size = 10, mm_entries = [(Some 1, \<lparr>element_size = 2, numel = 3, tensor_data = []\<rparr>)], mm_current_size = 6\<rparr>"
    by (simp add: mm_set_def mm_init_def evict_until.simps get_tensor_size_def)
  show ?thesis
    using mm_set_evicts_oldest [of ?c None "\<lparr>element_size = 4, numel = 3, tensor_data = []\<rparr>"]
    unfolding c by (auto simp: mm_inv_def mm_has_def get_tensor_size_def)
qed

section \<open>Scheduling\<close>

text \<open>
  C23: \<^verbatim>\<open>PrefillAdder.add_one_req\<close> on the radix cache, with any allocator: a call for a request whose
  node is in the tree returns. \<open>H\<close> are the nodes that are locked, each as often as it occurs. When the
  request is not admitted the same locks are held as before; when it is admitted, exactly one lock more,
  the request's own on its matched node: the temporary lock is always released. The batch still fits the
  free and evictable tokens: the budgets charge each request at least its new tokens and a page
  (\<open>charged\<close>), and what the whole batch needs is there (\<open>fits\<close>). The alignment size is not zero, and
  nothing is to be loaded back from the host.
\<close>

theorem add_one_req_within_room:
  assumes "adder_wf ad" "charged ad" "fits (radix_ops cls) ad st" "req_ok r" "radix_ok cls H st" "in_tree st (last_node r)"
    "align \<noteq> Some 0"
  shows "\<exists>res r' ad' st'. add_one_req (radix_ops cls) align st r ad = Inr (res, r', ad', st') \<and>
    in_tree st' = in_tree st \<and> adder_wf ad' \<and> charged ad' \<and> fits (radix_ops cls) ad' st' \<and>
    (can_run_list ad' = can_run_list ad \<and> radix_ok cls H st' \<or>
     can_run_list ad' = can_run_list ad @ [r'] \<and> last_node r' = last_node r \<and>
       radix_ok cls (add_mset (the (last_node r)) H) st')"
proof -
  have "\<not> co_disabled (radix_ops cls)" by (simp add: radix_ops_def)
  then show ?thesis using radm.add_one_req_ok [OF assms(1-4) _ assms(5,6,7)] by simp
qed

theorem add_one_req_within_room_witness:
  "\<exists>res r' ad' st'. add_one_req (radix_ops TokenAllocator) None (demo_token, demo1) demo_waiting demo_adder = Inr (res, r', ad', st') \<and>
    charged ad' \<and> fits (radix_ops TokenAllocator) ad' st' \<and>
    (radix_ok TokenAllocator {#} st' \<or> radix_ok TokenAllocator {#0#} st' \<and> length (can_run_list ad') = 1)"
proof -
  have "in_tree (demo_token, demo1) (last_node demo_waiting)" using demo_in_tree by (simp add: demo_waiting_ok)
  from add_one_req_within_room [OF demo_adder_ok(1,2,3) demo_waiting_ok(1) demo_radix_ok this, of None, simplified]
  show ?thesis by (elim exE conjE disjE) (auto simp: demo_waiting_ok demo_adder_ok)
qed

text \<open>
  C24: admission is safe for allocation, on a pool that is neither hybrid nor all sliding-window nor has
  a state-space cache. After any sequence of calls of \<^verbatim>\<open>add_one_req\<close> and, as long as the chunk and total
  budgets are positive, \<^verbatim>\<open>add_chunked_req\<close> that starts with an empty batch, the token allocator with eviction from
  the radix cache provides the slots of the whole batch: \<^verbatim>\<open>alloc_token_slots\<close> returns as many distinct slots
  as the batch has new tokens. (With an exhausted budget \<^verbatim>\<open>add_chunked_req\<close> admits a chunk regardless,
  and nothing is claimed.)
\<close>

theorem admitted_batch_allocates:
  assumes "admits (radix_ops TokenAllocator) in_tree align (st0, ad0) ((a, c), ad)"
    and "adder_wf ad0" "can_run_list ad0 = []" "0 \<le> rem_total_token_offset ad0" "0 \<le> cur_rem_token_offset ad0"
      "radix_ok TokenAllocator H0 st0" "align \<noteq> Some 0"
    and "\<not> is_all_swa ad" "\<not> is_hybrid_swa ad" "\<not> is_hybrid_ssm_cache ad"
    and "\<And>xs. mset (order xs) = mset xs"
  shows "\<exists>ix st' a' c'. alloc_token_slots TokenAllocator order (nat (sum_list (map extend_len (can_run_list ad)))) backup a (RadixTree c) =
      Inr ((ix, st'), a', RadixTree c') \<and> length ix = nat (sum_list (map extend_len (can_run_list ad))) \<and> distinct ix"
  by (rule admitted_alloc [OF assms])

theorem admitted_batch_allocates_witness:
  "\<exists>ix st' a' c'. alloc_token_slots TokenAllocator id 2 False demo_token (RadixTree demo1) = Inr ((ix, st'), a', RadixTree c') \<and>
    length ix = 2 \<and> distinct ix"
proof -
  obtain ad where "admits (radix_ops TokenAllocator) in_tree None ((demo_token, demo1), demo_adder) ((demo_token, demo1), ad)"
    and e: "map extend_len (can_run_list ad) = [2]" and "\<not> is_all_swa ad" "\<not> is_hybrid_swa ad" "\<not> is_hybrid_ssm_cache ad"
    using demo_pass by (elim exE conjE) (rule that)
  from admitted_batch_allocates [OF this(1) demo_adder_ok(1,4,5,6) demo_radix_ok _ this(3-5), of id False]
  show ?thesis by (simp add: e)
qed



text \<open>
  C26: \<^verbatim>\<open>check_decode_mem\<close> guards the decode step, without speculative decoding and with the token allocator or
  the paged allocator with pages of at least two tokens (not the Ascend allocator). When it answers yes,
  \<^verbatim>\<open>alloc_for_decode\<close> for the batch returns a slot for every request: the slots are different, each is written, as a
  32-bit integer, into the row of its request at the next position, no other row changes, and each slot is in use and held neither by
  the tree nor by another request, in the batch or outside it (\<open>F\<close>). Requests are as decoding leaves them: at
  least one token, room in the row, and the last token at the offset of its position in its page.
\<close>

theorem checked_decode_succeeds:
  assumes "radix_held cls K order sa H others F st (mset batch)" "speculative_algorithm sa = None"
    and "check_decode_mem (radix_decode_env cls order sa has_draft_kv steps) batch None st = Inr (True, (pool, a, c))"
    and "cls = TokenAllocator \<or> cls = PagedAllocator \<and> 2 \<le> sa_page_size sa"
    and "device_ok dv" "\<forall>r \<in> set batch. decode_ready (sa_page_size sa) pool r"
  shows "\<exists>out pool' a' c'. alloc_for_decode cls dv order (rc_page_size c) (map (\<lambda>r. the (req_pool_idx r)) batch)
      (map kv_committed_len batch) None 1 pool a (RadixTree c) = Inr (out, pool', a', RadixTree c') \<and>
    length out = length batch \<and> distinct out \<and>
    (\<forall>i < length batch. let ri = the (req_pool_idx (batch ! i)) in
       req_to_token pool' ! ri = (req_to_token pool ! ri)[kv_committed_len (batch ! i) := to_int32 (out ! i)] \<and>
       out ! i \<in> al_used cls a' - owned c' - F \<and>
       (\<forall>j < length batch. j \<noteq> i \<longrightarrow> out ! i \<notin> own_slots pool a (batch ! j))) \<and>
    (\<forall>k. k \<notin> (\<lambda>r. the (req_pool_idx r)) ` set batch \<longrightarrow> req_to_token pool' ! k = req_to_token pool ! k)"
  using checked_decode_ok [OF assms] unfolding decode_given_def prod.case .

theorem checked_decode_succeeds_witness:
  "\<exists>out pool' a' c'. alloc_for_decode PagedAllocator demo_device id (rc_page_size demo0) [1, 2] [2, 2] None 1 demo_rows2 demo_pages (RadixTree demo0) =
    Inr (out, pool', a', RadixTree c') \<and> length out = 2 \<and> distinct out"
proof -
  have "length demo_runs = 2" by (simp add: demo_runs_def)
  then show ?thesis
    using checked_decode_succeeds [OF demo_state_held [unfolded demo_state_def] demo_plain_facts(1) demo_check [unfolded demo_state_def] _
        demo_device_ok] demo_runs_fit(1) by (fastforce simp: demo_plain_facts demo_runs_facts)
qed



text \<open>
  C28: the insertion of a new request into the sorted list of estimates in
  \<^verbatim>\<open>add_one_req_ignore_eos\<close> keeps the list sorted exactly when the new estimate is not larger than
  all others. A larger one is put before the last element, and the later walk through the list
  sees the requests in the wrong order.
\<close>

theorem estimates_sorted_iff:
  assumes "sorted (map fst states)" "states \<noteq> []" "0 < fst (req_state ad r)"
  shows "sorted (map fst (add_req_state True ad r states)) \<longleftrightarrow> fst (req_state ad r) \<le> fst (last states)"
  by (rule add_req_state_sorted [OF assms])

theorem estimates_sorted_iff_witness:
  "\<not> sorted (map fst (add_req_state True demo_adder (demo_waiting\<lparr>max_new_tokens := 10, ignore_eos := True\<rparr>) [(5, 1), (7, 1)]))"
proof -
  have "fst (req_state demo_adder (demo_waiting\<lparr>max_new_tokens := 10, ignore_eos := True\<rparr>)) = 10"
    by (simp add: req_state_def demo_waiting_def)
  then show ?thesis
    using estimates_sorted_iff [of "[(5, 1), (7, 1)]" demo_adder "demo_waiting\<lparr>max_new_tokens := 10, ignore_eos := True\<rparr>"] by simp
qed

text \<open>
  C29: \<^verbatim>\<open>PrefillDelayer\<close> never delays for ever while only some ranks can prefill: when the last
  \<^verbatim>\<open>max_delay_passes - 1\<close> passes were delayed and the ranks are still mixed, this pass is allowed,
  whatever the other ranks report and whatever the clocks show.
\<close>

theorem mixed_delays_end:
  assumes "run_passes (ps @ [p]) d = (outs @ [out], d')" "curr_state d = None" "\<forall>o' \<in> set outs. \<not> output_allow o'"
    "max_delay_passes d - 1 \<le> int (length ps)" "input_estimation out = ''mixed''"
  shows "output_allow out"
proof (rule ccontr)
  assume "\<not> output_allow out"
  then have "\<forall>o' \<in> set (outs @ [out]). \<not> output_allow o'" using assms(3) by simp
  from run_passes_delays [OF assms(1) this, of "length outs"] run_passes_length [OF assms(1)]
  show False using assms(2,4,5) by (simp add: delays_def)
qed

theorem mixed_delays_end_witness:
  "\<exists>o1 o2 o3 d'. run_passes ([mixed_pass, mixed_pass] @ [mixed_pass]) demo_delayer = ([o1, o2] @ [o3], d') \<and>
    \<not> output_allow o1 \<and> \<not> output_allow o2 \<and> output_allow o3"
proof -
  from mixed_run obtain o1 o2 o3 d' where
    r: "run_passes ([mixed_pass, mixed_pass] @ [mixed_pass]) demo_delayer = ([o1, o2] @ [o3], d')" "\<not> output_allow o1" "\<not> output_allow o2"
    "input_estimation o3 = ''mixed''" by (elim exE conjE) (rule that)
  have "output_allow o3" using r(2,3) by (intro mixed_delays_end [OF r(1) _ _ _ r(4)]) (simp_all add: demo_delayer_def)
  then show ?thesis using r by blast
qed

text \<open>
  C30: ranks decide alike. Two ranks with the same configuration and, up to the time their wait
  began, the same state, that receive the same gathered information, come to the same decision for
  the same reason, and their states agree afterwards. This is for delayers without queue trigger,
  which measures the wait on the clock of the rank (lemma \<open>queue_timeout_splits_ranks\<close>).
\<close>

theorem ranks_decide_alike:
  assumes "in_sync d e" "queue_min_ratio d = None"
    and "gather1 (local_info d x) = gather2 (local_info e y)" "ng_max_running_requests x = ng_max_running_requests y"
    and "negotiate gather1 clock1 x d = (out1, d')" "negotiate gather2 clock2 y e = (out2, e')"
  shows "output_allow out1 = output_allow out2 \<and> output_reason out1 = output_reason out2 \<and> in_sync d' e' \<and> queue_min_ratio d' = None"
  using negotiate_sync [OF assms] by blast

theorem ranks_decide_alike_witness:
  "output_allow (fst (negotiate (\<lambda>_. mixed_info) (\<lambda>_. 3) queue_args demo_delayer)) =
   output_allow (fst (negotiate (\<lambda>_. mixed_info) (\<lambda>_. 9) (queue_args\<lparr>local_prefillable := False\<rparr>) demo_delayer))"
proof -
  have "in_sync demo_delayer demo_delayer" "queue_min_ratio demo_delayer = None"
    by (simp_all add: in_sync_def demo_delayer_def)
  from ranks_decide_alike [where x = queue_args and y = "queue_args\<lparr>local_prefillable := False\<rparr>" and ?gather1.0 = "\<lambda>_. mixed_info"
      and ?gather2.0 = "\<lambda>_. mixed_info" and ?clock1.0 = "\<lambda>_. 3" and ?clock2.0 = "\<lambda>_. 9",
      OF this refl _ prod.collapse [symmetric] prod.collapse [symmetric]]
  show ?thesis by simp
qed

text \<open>
  C31: \<^verbatim>\<open>SchedulerInputBlocker\<close> passes every request on exactly once and in the order of arrival: at
  any time the requests passed on so far, followed by the pending ones, are the requests received,
  over any sequence of \<^verbatim>\<open>handle\<close> calls with block and unblock commands and any answers of the barrier.
\<close>

theorem blocked_requests_in_order:
  assumes "run_blocker ps (blocker_init False) = Inr (out, b)"
  shows "blocker_inv b \<and> out @ pending_reqs b = concat (map (\<lambda>p. plain_reqs (snd p)) ps)"
  using run_blocker_order [OF assms blocker_init_inv] by (simp add: blocker_init_def)

theorem blocked_requests_in_order_witness:
  "\<exists>b. run_blocker [((\<lambda>x. x), [Plain_Req 1, BLOCK, Plain_Req 2]), ((\<lambda>x. False), [UNBLOCK, Plain_Req 3]), ((\<lambda>x. x), [Plain_Req (4 :: nat)])]
    (blocker_init False) = Inr ([1, 2, 3, 4], b) \<and> blocker_inv b \<and> pending_reqs b = []"
proof -
  obtain b where run: "run_blocker [((\<lambda>x. x), [Plain_Req 1, BLOCK, Plain_Req 2]), ((\<lambda>x. False), [UNBLOCK, Plain_Req 3]), ((\<lambda>x. x), [Plain_Req (4 :: nat)])]
    (blocker_init False) = Inr ([1, 2, 3, 4], b)" using demo_blocked by (elim exE) (rule that)
  from blocked_requests_in_order [OF run] have "blocker_inv b \<and> pending_reqs b = []" by simp
  with run show ?thesis by (elim conjE) (intro exI conjI)
qed

text \<open>
  C32: the depth-first policy on a well-formed tree that holds the matched nodes of all waiting
  requests: both walks end within their bounds, no request is lost or duplicated, and for every node
  of the tree the requests whose matched path goes through it are next to each other in the queue.
\<close>

theorem dfs_order_groups_subtrees:
  assumes "cache_inv c H" "\<forall>r \<in> set queue. placed_in c r"
  shows "\<exists>q'. sort_by_dfs_weight c queue = Inr q' \<and> mset q' = mset queue \<and>
    (\<forall>n u w. reaches c n u w \<longrightarrow> (\<exists>xs ys zs. q' = xs @ ys @ zs \<and> mset ys = filter_mset (below_node c n) (mset queue)))"
  by (rule dfs_weight_ok [OF assms])

theorem dfs_order_groups_subtrees_witness:
  "\<exists>q'. sort_by_dfs_weight demo1 demo_queue = Inr q' \<and> mset q' = mset demo_queue"
  using dfs_order_groups_subtrees [OF demo1_inv demo_queue_placed] by blast

text \<open>
  C33: stop tokens. For a step below the length limit, without stop strings and with tokens of the
  vocabulary, \<^verbatim>\<open>update_finish_state\<close> finishes the request exactly when one of the newly accepted
  tokens is a stop token, and the reported output then ends with the first of them, also when
  several tokens were accepted at once.
\<close>

theorem stop_token_ends_output:
  assumes "plain_step n r" "stop_strs r = []" "stop_regex_strs r = []" "\<not> ignore_eos r"
  shows "\<exists>r'. update_finish_state env n r = Inr r' \<and>
    (if \<exists>t \<in> set (last_n n (output_ids r)). is_stop_token env r t
     then \<exists>as t bs. last_n n (output_ids r) = as @ t # bs \<and> is_stop_token env r t \<and> (\<forall>x \<in> set as. \<not> is_stop_token env r x) \<and>
       finished_reason r' = Some (FINISH_MATCHED_TOKEN t) \<and>
       output_ids_through_stop r' = take (length (output_ids r) - n) (output_ids r) @ as @ [t]
     else r' = r)"
  by (rule token_finish [OF assms])

theorem stop_token_ends_output_witness:
  "\<exists>r'. update_finish_state no_tokenizer 2 demo_fin = Inr r' \<and> output_ids_through_stop r' = [4, 7]"
proof -
  have stop: "is_stop_token no_tokenizer demo_fin t \<longleftrightarrow> t = 7" for t
    by (simp add: is_stop_token_def no_tokenizer_def demo_fin_sel)
  have new: "last_n 2 (output_ids demo_fin) = [7, 5]" by (simp add: demo_fin_sel last_n_def)
  from stop_token_ends_output [OF demo_fin_sel(4,3,5,6), of no_tokenizer] obtain r' as t bs where
    r: "update_finish_state no_tokenizer 2 demo_fin = Inr r'" "[7, 5] = as @ t # bs" "t = 7" "\<forall>x \<in> set as. x \<noteq> 7"
      "output_ids_through_stop r' = take (length (output_ids demo_fin) - 2) (output_ids demo_fin) @ as @ [t]"
    unfolding stop new by auto
  have "as = []" using r(2,4) by (cases as) auto
  then show ?thesis using r by (auto simp: demo_fin_sel)
qed



text \<open>
  C35: stop expressions. The bound \<^verbatim>\<open>_max_length_from_subpattern\<close> computes for a parsed expression, when
  it is below the value that stands for no bound, bounds the length of every string the expression
  can match.
\<close>

theorem stop_regex_bound:
  assumes "may_seq same rs s" "max_length_from_subpattern rs < MAX_LEN"
  shows "length s \<le> max_length_from_subpattern rs"
  using max_length_bound(2) [OF assms(1)] assms(2) by (simp add: max_length_from_subpattern_def)

theorem stop_regex_bound_witness:
  "may_seq (=) [MAX_REPEAT 1 (Some 2) [BRANCH [[LITERAL CHR ''a''], [ANY, AT ''$'']]]] ''ba'' \<and>
   length ''ba'' \<le> max_length_from_subpattern [MAX_REPEAT 1 (Some 2) [BRANCH [[LITERAL CHR ''a''], [ANY, AT ''$'']]]]"
proof -
  let ?b = "BRANCH [[LITERAL CHR ''a''], [ANY, AT ''$'']]"
  have "may_seq (=) [LITERAL CHR ''a''] ''a''" by (intro may_seq_single m_literal) simp
  then have "may_match (=) ?b ''a''" by (auto intro: m_branch)
  moreover have "may_seq (=) [ANY, AT ''$''] (''b'' @ [])" by (intro s_cons m_any may_seq_single m_at)
  then have "may_match (=) ?b ''b''" by (auto intro: m_branch)
  ultimately have "\<forall>s \<in> set [''b'', ''a'']. may_seq (=) [?b] s" by (auto intro: may_seq_single)
  then have "may_match (=) (MAX_REPEAT 1 (Some 2) [?b]) (concat [''b'', ''a''])" by (rule m_max_repeat) auto
  then have s: "may_seq (=) [MAX_REPEAT 1 (Some 2) [?b]] ''ba''" by (intro may_seq_single) simp
  have "max_length_from_subpattern [MAX_REPEAT 1 (Some 2) [?b]] < MAX_LEN"
    by (simp add: max_length_from_subpattern_def MAX_LEN_def)
  from stop_regex_bound [OF s this] s show ?thesis by simp
qed

section \<open>Placing experts\<close>

text \<open>
  C36: replicating experts to \<open>num_phy\<close> physical ones gives every replica a slot and a rank of its own, and no other numbers of replicas
  with at least one per expert have a smaller largest load.
\<close>

theorem replicate_experts_optimal:
  assumes "weight \<noteq> []" "\<forall>x \<in> set weight. 0 \<le> x" "length weight \<le> num_phy"
  shows "\<exists>r. replicate_experts weight num_phy = Inr r \<and> replicated (length weight) num_phy num_phy r \<and>
    (\<forall>cnt. length cnt = length weight \<longrightarrow> (\<forall>k \<in> set cnt. 1 \<le> k) \<longrightarrow> sum_list cnt = num_phy \<longrightarrow>
      max_load weight (logcnt r) \<le> max_load weight cnt)"
proof -
  obtain r where r: "replicate_experts weight num_phy = Inr r" "replicated (length weight) num_phy num_phy r"
    "greedy weight (logcnt r)" using replicate_experts_ok [OF assms] by blast
  then have "length (logcnt r) = length weight" "sum_list (logcnt r) = num_phy" by (simp_all add: replicated_def)
  with r greedy_optimal [OF r(3) assms(1,2)] show ?thesis by auto
qed

theorem replicate_experts_optimal_witness:
  "\<exists>r. replicate_experts [6, 1, 2] 5 = Inr r \<and> max_load [6, 1, 2] (logcnt r) \<le> 2"
proof -
  obtain r where "replicate_experts [6, 1, 2] 5 = Inr r" "max_load [6, 1, 2] (logcnt r) \<le> max_load [6, 1, 2] [3, 1, 1]"
    using replicate_experts_optimal [of "[6, 1, 2]" 5] by fastforce
  then show ?thesis by (auto simp: max_load_def)
qed

text \<open>
  C37: on the arguments it documents the load balancer returns, and the tables of every layer agree: the row of an expert
  lists each of its physical experts once, \<open>-1\<close> fills the rest, and every expert has a replica. Under the
  hierarchical policy each node gets the same number of groups, and all replicas of a group are on its node.
\<close>

theorem rebalance_experts_tables:
  assumes "is_argsort argsort" "weight \<noteq> []" "\<forall>row \<in> set weight. length row = num_log \<and> (\<forall>x \<in> set row. 0 \<le> x)"
    and "eplb_args hier num_log num_replicas num_groups num_nodes num_gpus"
  shows "\<exists>P T C. rebalance_experts argsort junk weight num_log num_replicas num_groups num_nodes num_gpus hier = Inr (P, T, C) \<and>
    length P = length weight \<and> length T = length weight \<and> length C = length weight \<and>
    (\<forall>i < length weight. layer_tables num_log num_replicas (P ! i) (T ! i) (C ! i) \<and>
      (hier \<longrightarrow> groups_on_nodes num_replicas num_groups num_nodes (num_log div num_groups) (P ! i)))"
  by (rule rebalance_ok [OF assms(1,3,2,4)])

theorem rebalance_experts_tables_witness:
  "\<exists>P T C. rebalance_experts argsort_desc (\<lambda>_. 7) [[9, 1, 4, 4], [0, 0, 5, 1]] 4 8 2 2 4 True = Inr (P, T, C) \<and>
     (\<forall>i < 2. layer_tables 4 8 (P ! i) (T ! i) (C ! i) \<and> groups_on_nodes 8 2 2 2 (P ! i))"
proof -
  have "eplb_args True 4 8 2 2 4" by (simp add: eplb_args_def)
  then show ?thesis
    using rebalance_experts_tables [OF argsort_desc_ok, of "[[9, 1, 4, 4], [0, 0, 5, 1]]" 4 True 8 2 2 4 "\<lambda>_. 7"] by auto
qed
text \<open>
  C38: rebalancing experts keeps the weights in step with the metadata. When all ranks are up, the old maps cover all
  experts and messages between two ranks arrive in order, the update to the maps of the balancer returns on every rank, with and without the canary, whose
  assertion never fails. Afterwards each location of each layer holds the rows of the expert the
  merged metadata names, and the merged maps again cover all experts.
\<close>

theorem rebalancing_keeps_step:
  assumes "is_argsort argsort" "\<forall>row \<in> set weight. length row = num_log \<and> (\<forall>x \<in> set row. 0 \<le> x)" "weight \<noteq> []"
    and "eplb_args hier num_log n num_groups num_nodes W"
    and "rebalance_experts argsort junk weight num_log n num_groups num_nodes W hier = Inr (P, T, C)"
    and "new = \<lparr>physical_to_logical_map = P, num_physical_experts = n\<rparr>"
    and "meta_covers num_log n old" "length (physical_to_logical_map old) = length weight"
    and "0 < nn" "nn \<le> W" "distinct ids" "ids \<noteq> []" "\<forall>i \<in> set ids. i < length weight"
    and "\<forall>a < W. in_step W a k old (ws a) V" "b < W" "is_hip \<longrightarrow> 0 < c"
    and "\<forall>i \<in> set ids. layer_fifo W is_hip c None (layer_reloc W nn old new i)
      (\<lambda>a. the (with_canary canary (n div W) old ids ws a i)) (\<lambda>b. deliver b i)"
  shows "\<exists>w'. updater_update canary is_hip c None (deliver b) junk' W nn b (Some old) new ids (ws b) = Inr (w', meta_update old new ids, Map.empty) \<and>
    in_step W b k (meta_update old new ids) w' V \<and> meta_covers num_log n (meta_update old new ids)"
  by (rule rebalance_in_step [OF assms])

theorem rebalancing_keeps_step_witness:
  "\<exists>P T C deliver w'. rebalance_experts argsort_desc (\<lambda>_. 7) [[9, 1, 4, 4], [0, 0, 5, 1]] 4 4 1 1 2 False = Inr (P, T, C) \<and>
     updater_update (Some (\<lambda>e. e)) True 3 None deliver (\<lambda>_ _. 99) 2 2 0 (Some demo_meta) \<lparr>physical_to_logical_map = P, num_physical_experts = 4\<rparr>
       [1] (demo_weights 0) = Inr (w', meta_update demo_meta \<lparr>physical_to_logical_map = P, num_physical_experts = 4\<rparr> [1], Map.empty) \<and>
     in_step 2 0 2 (meta_update demo_meta \<lparr>physical_to_logical_map = P, num_physical_experts = 4\<rparr> [1]) w' (\<lambda>_. demo_rows)"
proof -
  let ?loads = "[[9, 1, 4, 4], [0, 0, 5, 1]] :: rat list list"
  have loads: "\<forall>row \<in> set ?loads. length row = 4 \<and> (\<forall>x \<in> set row. 0 \<le> x)" "?loads \<noteq> []" by simp_all
  have args: "eplb_args False 4 4 1 1 2" by (simp add: eplb_args_def)
  obtain P T C where run: "rebalance_experts argsort_desc (\<lambda>_. 7) ?loads 4 4 1 1 2 False = Inr (P, T, C)"
    using rebalance_ok [OF argsort_desc_ok loads args] by blast
  define new where "new = \<lparr>physical_to_logical_map = P, num_physical_experts = 4\<rparr>"
  let ?m = "layer_reloc 2 2 demo_meta new 1"
  let ?ws = "\<lambda>a. the (with_canary (Some (\<lambda>e. e)) (4 div 2) demo_meta [1] demo_weights a 1)"
  let ?net = "network ?m (rank_ops True 3 None ?m ?ws ?ws) ?ws"
  have old: "meta_covers 4 4 demo_meta" "length (physical_to_logical_map demo_meta) = length ?loads"
    by (auto simp: meta_covers_def demo_meta_def covers_def)
  have "layer_fifo 2 True 3 None ?m ?ws ?net" unfolding layer_fifo_def by (rule network_fifo)
  then show ?thesis
    using rebalancing_keeps_step [OF argsort_desc_ok loads args run new_def old, of 2 "[1]" 2 demo_weights "\<lambda>_. demo_rows" 0 True 3
        "Some (\<lambda>e. e)" "\<lambda>b _. ?net b" "\<lambda>_ _. 99"] demo_in_step run unfolding new_def by auto
qed

text \<open>
  C39: the messages two active ranks exchange match: rank \<open>a\<close> sends to \<open>b\<close> rows of the experts and tensors that \<open>b\<close> waits for from \<open>a\<close>,
  in the same order, with any batches, so no rank waits for a message that is not sent.
\<close>

theorem expert_messages_match:
  assumes "reloc_ok W m" "a < W" "b < W" "is_on active a" "is_on active b" "elastic_ok W is_hip c active m"
    and "\<forall>r < W. shaped n (num_local m) (ws r) \<and> shaped n (num_local m) (bs r)"
  shows "map (\<lambda>op. (old_map m ! op_loc op, op_tensor op)) (sends_to b (rank_ops is_hip c active m ws bs a)) =
    map (\<lambda>op. (new_map m ! op_loc op, op_tensor op)) (recvs_from a (rank_ops is_hip c active m ws bs b))"
proof -
  obtain infos_a infos_b where "rank_ops is_hip c active m ws bs a = submitted (is_on active) infos_a" "rank_infos m a n infos_a"
    "rank_ops is_hip c active m ws bs b = submitted (is_on active) infos_b" "rank_infos m b n infos_b"
    using rank_ops_ok [of W m a n ws bs] rank_ops_ok [of W m b n ws bs] assms by metis
  then show ?thesis using sends_in_order recvs_in_order assms(1,3-5) by metis
qed

theorem expert_messages_match_witness:
  "map (\<lambda>op. (old_map demo_reloc ! op_loc op, op_tensor op)) (sends_to 0 (rank_ops True 3 None demo_reloc demo_tensors demo_tensors 1)) =
   map (\<lambda>op. (new_map demo_reloc ! op_loc op, op_tensor op)) (recvs_from 1 (rank_ops True 3 None demo_reloc demo_tensors demo_tensors 0))"
  using expert_messages_match [OF demo_reloc_ok, of 1 0 None True 3 2 demo_tensors demo_tensors] demo_elastic(2) demo_shaped
  by (simp add: is_on_def)

text \<open>
  C40: when ranks have failed, the update of a layer still returns on every other rank. It reports only experts that a
  failed rank held, and every location of an expert it does not report holds the rows of its new expert.
\<close>

theorem failed_ranks_reported:
  assumes "reloc_ok W m" "b < W" "placed W n (num_local m) (old_map m) ws V" "\<forall>a < W. shaped n (num_local m) (bs a)"
    "elastic_ok W is_hip c active m" "is_on active b" "fifo W (is_on active) m (rank_ops is_hip c active m ws bs) ws deliver"
  shows "\<exists>w' bufs' missing. update_expert_weights_single_layer is_hip c active m (deliver b) b (ws b) (bs b) = Inr (w', bufs', missing) \<and>
    shaped n (num_local m) w' \<and> shaped n (num_local m) bufs' \<and>
    (\<forall>e \<in> set missing. \<exists>a < W. \<not> is_on active a \<and> has m a e) \<and>
    (\<forall>i < n. \<forall>x. x div num_local m = b \<longrightarrow> new_map m ! x \<notin> set missing \<longrightarrow> w' ! i ! (x mod num_local m) = V i (new_map m ! x))"
  by (rule update_ok [OF assms])

theorem failed_ranks_reported_witness:
  "\<exists>w' bufs' missing. update_expert_weights_single_layer True 1 (Some [True, False]) demo_reloc
     (network demo_reloc (rank_ops True 1 (Some [True, False]) demo_reloc demo_tensors demo_tensors) demo_tensors 0) 0
     (demo_tensors 0) (demo_tensors 0) = Inr (w', bufs', missing) \<and> set missing \<subseteq> {2, 3} \<and> w' ! 0 ! 1 = demo_rows 0 1"
proof -
  let ?act = "Some [True, False]" let ?ops = "rank_ops True 1 ?act demo_reloc demo_tensors demo_tensors"
  have on: "is_on ?act 0" "\<And>a. a < 2 \<Longrightarrow> \<not> is_on ?act a \<Longrightarrow> a = 1" by (auto simp: is_on_def less_Suc_eq numeral_2_eq_2)
  have two: "(0 :: nat) < 2" and sh: "\<forall>a < 2. shaped 2 (num_local demo_reloc) (demo_tensors a)" by (simp_all add: demo_shaped)
  obtain w' bufs' missing where u: "update_expert_weights_single_layer True 1 ?act demo_reloc (network demo_reloc ?ops demo_tensors 0) 0
      (demo_tensors 0) (demo_tensors 0) = Inr (w', bufs', missing)"
    "\<forall>e \<in> set missing. \<exists>a < 2. \<not> is_on ?act a \<and> has demo_reloc a e"
    "\<forall>i < 2. \<forall>x. x div num_local demo_reloc = 0 \<longrightarrow> new_map demo_reloc ! x \<notin> set missing \<longrightarrow>
      w' ! i ! (x mod num_local demo_reloc) = demo_rows i (new_map demo_reloc ! x)"
    using failed_ranks_reported [OF demo_reloc_ok two demo_placed sh demo_elastic(1) on(1) network_fifo] by (elim exE conjE) (rule that)
  have "has demo_reloc 1 e \<Longrightarrow> e \<in> {2, 3}" for e
    by (auto simp: holds_def demo_reloc_def less_Suc_eq numeral_eq_Suc)
  then have "set missing \<subseteq> {2, 3}" using u(2) on(2) by blast
  moreover have "w' ! 0 ! 1 = demo_rows 0 1" using u(3) [rule_format, of 0 1] calculation by (force simp: demo_reloc_def)
  ultimately show ?thesis using u(1) by blast
qed

end
